(* ===== verification/Prelude.thy ===== *)
theory Prelude
  imports Main "HOL-Library.AList" "HOL-Library.Monad_Syntax"
begin

text \<open>
  Shared vocabulary of the development: the Go primitives the components use (indexing and
  slicing with the run-time bounds check, map iteration), the theorem collections the
  component proofs draw on, the outcomes of concurrent steps, and the interface of quorum
  systems.

  Conventions. A Go \<open>int\<close> that counts log positions, terms or configuration numbers is an
  \<^typ>\<open>int\<close> (a 64-bit counter that starts at 0 and is incremented by the program does not
  reach its bound); values whose width matters are words. A Go run-time panic is the value
  \<^term>\<open>None\<close> of an \<open>option\<close>, and the operations are written in the option monad, so that a
  panic ends the operation as it ends the Go function. A Go map is an association list with
  distinct keys: its list order stands for the order in which \<open>range\<close> visits the keys,
  which the language leaves unspecified.
\<close>

named_theorems go_defs \<open>unfoldings of the Go primitives\<close>
named_theorems handler_defs \<open>unfoldings of the handlers of a component\<close>

section \<open>Indexing and slicing\<close>

definition idx :: "'a list \<Rightarrow> int \<Rightarrow> 'a option" where
  "idx xs i = (if 0 \<le> i \<and> i < int (length xs) then Some (xs ! nat i) else None)"

definition slice_from :: "'a list \<Rightarrow> int \<Rightarrow> 'a list option" where
  "slice_from xs i = (if 0 \<le> i \<and> i \<le> int (length xs) then Some (drop (nat i) xs) else None)"

definition slice_to :: "'a list \<Rightarrow> int \<Rightarrow> 'a list option" where
  "slice_to xs j = (if 0 \<le> j \<and> j \<le> int (length xs) then Some (take (nat j) xs) else None)"

definition slice :: "'a list \<Rightarrow> int \<Rightarrow> int \<Rightarrow> 'a list option" where
  "slice xs i j = (if 0 \<le> i \<and> i \<le> j \<and> j \<le> int (length xs)
     then Some (drop (nat i) (take (nat j) xs)) else None)"

definition store :: "'a list \<Rightarrow> int \<Rightarrow> 'a \<Rightarrow> 'a list option" where
  "store xs i v = (if 0 \<le> i \<and> i < int (length xs) then Some (xs[nat i := v]) else None)"

lemmas [go_defs] = idx_def slice_from_def slice_to_def slice_def store_def

lemma idx_Some_iff: "idx xs i = Some x \<longleftrightarrow> 0 \<le> i \<and> i < int (length xs) \<and> x = xs ! nat i"
  by (auto simp: idx_def)

lemma idx_None_iff: "idx xs i = None \<longleftrightarrow> i < 0 \<or> int (length xs) \<le> i"
  by (auto simp: idx_def)

lemma idx_last [simp]: "xs \<noteq> [] \<Longrightarrow> idx xs (int (length xs) - 1) = Some (last xs)"
  by (cases xs rule: rev_cases) (auto simp: idx_def nat_diff_distrib')

lemma idx_0 [simp]: "xs \<noteq> [] \<Longrightarrow> idx xs 0 = Some (hd xs)"
  by (cases xs) (auto simp: idx_def)

lemma bind_Some_iff:
  "(Option.bind m f = Some y) \<longleftrightarrow> (\<exists>x. m = Some x \<and> f x = Some y)"
  by (cases m) auto

lemma bind_None_iff:
  "(Option.bind m f = None) \<longleftrightarrow> m = None \<or> (\<exists>x. m = Some x \<and> f x = None)"
  by (cases m) auto

section \<open>Outcomes of concurrent steps\<close>

text \<open>
  A step of a goroutine is not enabled (it blocks), or it ends in a run-time panic, or it
  leads to a next state.
\<close>

datatype 'a outcome = Disabled | Panic | Next 'a

definition from_option :: "'b option \<Rightarrow> ('b \<Rightarrow> 'a) \<Rightarrow> 'a outcome" where
  "from_option m f = (case m of None \<Rightarrow> Panic | Some x \<Rightarrow> Next (f x))"

section \<open>Quorums\<close>

text \<open>
  The interface the voting and the commit rule rely on: any two quorums of servers share
  one. It is provided by the majority test of the Raft code (theory Raft-Cluster).
\<close>

locale quorum_system =
  fixes servers :: "nat set" and quorum :: "nat set \<Rightarrow> bool"
  assumes quorum_servers: "quorum A \<Longrightarrow> A \<subseteq> servers"
    and quorum_meets: "quorum A \<Longrightarrow> quorum B \<Longrightarrow> A \<inter> B \<noteq> {}"
    and quorum_mono: "quorum A \<Longrightarrow> A \<subseteq> B \<Longrightarrow> B \<subseteq> servers \<Longrightarrow> quorum B"
begin

text \<open>If every member of a quorum chose \<open>a\<close> and every member of a quorum chose \<open>b\<close>, they agree.\<close>

lemma agreement:
  assumes "quorum A" "quorum B" and "\<And>v. v \<in> A \<Longrightarrow> R v a" and "\<And>v. v \<in> B \<Longrightarrow> R v b"
    and "\<And>v x y. R v x \<Longrightarrow> R v y \<Longrightarrow> x = y"
  shows "a = b"
proof -
  from quorum_meets [OF assms(1,2)] obtain v where "v \<in> A" "v \<in> B" by blast
  with assms(3-5) show ?thesis by blast
qed

lemma quorum_nonempty: "quorum A \<Longrightarrow> A \<noteq> {}"
  using quorum_meets [of A A] by auto

end

end
