(* ===== verification/Raft_State.thy ===== *)
theory Raft_State
  imports Prelude
begin

text \<open>
  The data of one Raft peer (package raft): the log entry, the persister with its encoded
  state, the peer record itself, the RPC messages, and the small accessors every handler
  uses. The mutex is not modelled: each handler runs under it from its first to its last
  statement, so a handler is one atomic transition. The two timers are generation counters,
  incremented by \<open>Reset\<close>; whether a timer fires is the scheduler's choice. The condition
  variable of the applier is the flag \<open>applyCond\<close>, set by \<open>Broadcast\<close>.
\<close>

section \<open>Log entries\<close>

record 'c entry =
  e_Index :: int
  e_Term :: int
  e_Command :: "'c option"

definition zero_entry :: "'c entry" where
  "zero_entry = \<lparr>e_Index = 0, e_Term = 0, e_Command = None\<rparr>"

section \<open>Encoded state and the persister\<close>

text \<open>
  A byte buffer written by a labgob encoder is the sequence of the values encoded into it;
  decoding reads the next value and fails when there is none or when it has another type.
\<close>

datatype 'c gob = GInt int | GEntries "'c entry list"

record ('c, 's) persister =
  raftstate :: "'c gob list"
  snapshot :: "'s list"

definition MakePersister :: "('c, 's) persister" where
  "MakePersister = \<lparr>raftstate = [], snapshot = []\<rparr>"

definition clone :: "'b list \<Rightarrow> 'b list" where
  "clone orig = take (length orig) orig"

definition Copy :: "('c, 's) persister \<Rightarrow> ('c, 's) persister" where
  "Copy ps = MakePersister\<lparr>raftstate := raftstate ps, snapshot := snapshot ps\<rparr>"

definition SaveRaftState :: "('c, 's) persister \<Rightarrow> 'c gob list \<Rightarrow> ('c, 's) persister" where
  "SaveRaftState ps state = ps\<lparr>raftstate := clone state\<rparr>"

definition ReadRaftState :: "('c, 's) persister \<Rightarrow> 'c gob list" where
  "ReadRaftState ps = clone (raftstate ps)"

definition SaveStateAndSnapshot ::
  "('c, 's) persister \<Rightarrow> 'c gob list \<Rightarrow> 's list \<Rightarrow> ('c, 's) persister" where
  "SaveStateAndSnapshot ps state snap = ps\<lparr>raftstate := clone state, snapshot := clone snap\<rparr>"

definition ReadSnapshot :: "('c, 's) persister \<Rightarrow> 's list" where
  "ReadSnapshot ps = clone (snapshot ps)"

text \<open>The sizes in bytes depend on the encoding, which is a parameter here.\<close>

definition RaftStateSize :: "('c gob list \<Rightarrow> int) \<Rightarrow> ('c, 's) persister \<Rightarrow> int" where
  "RaftStateSize bytes ps = bytes (raftstate ps)"

definition SnapshotSize :: "('s list \<Rightarrow> int) \<Rightarrow> ('c, 's) persister \<Rightarrow> int" where
  "SnapshotSize bytes ps = bytes (snapshot ps)"

lemma clone_id [simp]: "clone xs = xs"
  by (simp add: clone_def)

lemmas [handler_defs] =
  SaveRaftState_def ReadRaftState_def SaveStateAndSnapshot_def ReadSnapshot_def

section \<open>The peer\<close>

datatype role = FOLLOWER | LEADER | CANDIDATE

record ('c, 's) raft =
  peers :: nat
  persister :: "('c, 's) persister"
  me :: nat
  dead :: bool
  role :: role
  currentTerm :: int
  votedFor :: int
  electionTimer :: nat
  heartbeatTimer :: nat
  logs :: "'c entry list"
  commitIndex :: int
  LastApplied :: int
  nextIndex :: "int list"
  matchIndex :: "int list"
  applyCond :: bool

record ('c, 's) ApplyMsg =
  CommandValid :: bool
  Command :: "'c option"
  CommandIndex :: int
  CommandTerm :: int
  SnapshotValid :: bool
  Snapshot_data :: "'s list"
  SnapshotTerm :: int
  SnapshotIndex :: int

section \<open>RPC messages\<close>

record RequestVoteArgs =
  rv_Term :: int
  rv_CandidateId :: int
  rv_LastLogIndex :: int
  rv_LastLogTerm :: int

record RequestVoteReply =
  rvr_Term :: int
  rvr_VoteGranted :: bool

record 'c AppendEntriesArgs =
  ae_Term :: int
  ae_LeaderId :: int
  ae_PrevLogIndex :: int
  ae_PrevLogTerm :: int
  ae_Entries :: "'c entry list"
  ae_LeaderCommit :: int

record AppendEntriesReply =
  aer_Term :: int
  aer_Success :: bool
  aer_Conflict :: bool
  aer_XTerm :: int
  aer_XIndex :: int
  aer_XLen :: int

record 's InstallSnapshotArgs =
  is_Term :: int
  is_LastIncludedIndex :: int
  is_LastIncludedTerm :: int
  is_Data :: "'s list"

record InstallSnapshotReply =
  isr_Term :: int
  isr_Installed :: bool

section \<open>Accessors and the persisted state\<close>

definition getLastLog :: "('c, 's) raft \<Rightarrow> 'c entry option" where
  "getLastLog rf = idx (logs rf) (int (length (logs rf)) - 1)"

definition getFirstLog :: "('c, 's) raft \<Rightarrow> 'c entry option" where
  "getFirstLog rf = idx (logs rf) 0"

definition GetState :: "('c, 's) raft \<Rightarrow> int \<times> bool" where
  "GetState rf = (currentTerm rf, role rf = LEADER)"

definition Who :: "('c, 's) raft \<Rightarrow> nat" where
  "Who rf = me rf"

definition Kill :: "('c, 's) raft \<Rightarrow> ('c, 's) raft" where
  "Kill rf = rf\<lparr>dead := True\<rparr>"

definition killed :: "('c, 's) raft \<Rightarrow> bool" where
  "killed rf = dead rf"

definition HasLogInCurrentTerm :: "('c, 's) raft \<Rightarrow> bool option" where
  "HasLogInCurrentTerm rf = do {
     lastLog \<leftarrow> getLastLog rf;
     Some (e_Term lastLog = currentTerm rf)
   }"

definition GetRaftStateSize :: "('c gob list \<Rightarrow> int) \<Rightarrow> ('c, 's) raft \<Rightarrow> int" where
  "GetRaftStateSize bytes rf = RaftStateSize bytes (persister rf)"

definition reset_electionTimer :: "('c, 's) raft \<Rightarrow> ('c, 's) raft" where
  "reset_electionTimer rf = rf\<lparr>electionTimer := Suc (electionTimer rf)\<rparr>"

definition reset_heartbeatTimer :: "('c, 's) raft \<Rightarrow> ('c, 's) raft" where
  "reset_heartbeatTimer rf = rf\<lparr>heartbeatTimer := Suc (heartbeatTimer rf)\<rparr>"

definition apply_signal :: "('c, 's) raft \<Rightarrow> ('c, 's) raft" where
  "apply_signal rf = rf\<lparr>applyCond := True\<rparr>"

definition encodeRaftState :: "('c, 's) raft \<Rightarrow> 'c gob list" where
  "encodeRaftState rf = [] @ [GInt (currentTerm rf)] @ [GInt (votedFor rf)] @ [GEntries (logs rf)]"

definition persist :: "('c, 's) raft \<Rightarrow> ('c, 's) raft" where
  "persist rf = rf\<lparr>persister := SaveRaftState (persister rf) (encodeRaftState rf)\<rparr>"

fun decodeInt :: "'c gob list \<Rightarrow> (int \<times> 'c gob list) option" where
  "decodeInt (GInt i # d) = Some (i, d)"
| "decodeInt _ = None"

fun decodeEntries :: "'c gob list \<Rightarrow> ('c entry list \<times> 'c gob list) option" where
  "decodeEntries (GEntries es # d) = Some (es, d)"
| "decodeEntries _ = None"

text \<open>
  \<open>readPersist\<close>: no data leaves the peer as it is; data that does not decode is fatal
  (\<open>log.Fatal\<close> ends the process, the value \<^term>\<open>None\<close>).
\<close>

definition readPersist :: "('c, 's) raft \<Rightarrow> 'c gob list \<Rightarrow> ('c, 's) raft option" where
  "readPersist rf data =
     (if length data < 1 then Some rf
      else do {
        (term, d) \<leftarrow> decodeInt data;
        (vote, d) \<leftarrow> decodeInt d;
        (lgs, d) \<leftarrow> decodeEntries d;
        let rf = rf\<lparr>currentTerm := term, votedFor := vote, logs := lgs\<rparr>;
        first \<leftarrow> getFirstLog rf;
        Some (rf\<lparr>LastApplied := e_Index first, commitIndex := e_Index first\<rparr>)
      })"

definition setNewTerm :: "('c, 's) raft \<Rightarrow> int \<Rightarrow> ('c, 's) raft" where
  "setNewTerm rf term = persist (rf\<lparr>currentTerm := term, role := FOLLOWER, votedFor := -1\<rparr>)"

definition logCompact :: "'c entry list \<Rightarrow> 'c entry list" where
  "logCompact lgs = [] @ lgs"

text \<open>\<open>Make\<close>: a fresh peer, then whatever the persister holds from before a crash.\<close>

definition Make :: "nat \<Rightarrow> nat \<Rightarrow> ('c, 's) persister \<Rightarrow> ('c, 's) raft option" where
  "Make n self ps =
     (let rf = \<lparr>peers = n, persister = ps, me = self, dead = False,
                role = FOLLOWER, currentTerm = 0, votedFor = -1,
                electionTimer = 0, heartbeatTimer = 0,
                logs = [zero_entry], commitIndex = 0, LastApplied = 0,
                nextIndex = replicate n 0, matchIndex = replicate n 0, applyCond = False\<rparr>
      in readPersist rf (ReadRaftState ps))"

lemmas [handler_defs] =
  reset_electionTimer_def reset_heartbeatTimer_def apply_signal_def persist_def setNewTerm_def
  encodeRaftState_def logCompact_def

end
