(* ===== verification/Raft_Handlers.thy ===== *)
theory Raft_Handlers
  imports Raft_State
begin

text \<open>
  The handlers of one Raft peer, in the order of the code: voting and elections
  (raft.go, election.go), log replication on the follower and on the leader
  (appendEntries.go), snapshots (raft.go, logCompaction.go), the entry point of the
  service and the applier (raft.go, apply.go). A handler takes the peer and returns the
  changed peer together with its reply and with the RPCs its goroutines send; the value
  \<^term>\<open>None\<close> is a run-time panic. A goroutine that waits for an RPC is split at the
  wait: what it does after the call is a handler of its own, whose argument is
  \<^term>\<open>None\<close> when the network reports no reply. Debug output is left out.
\<close>

definition min_int :: "int \<Rightarrow> int \<Rightarrow> int" where
  "min_int a b = (if a > b then b else a)"

definition max_int :: "int \<Rightarrow> int \<Rightarrow> int" where
  "max_int a b = (if a > b then a else b)"

lemma min_int_eq [simp]: "min_int a b = min a b"
  by (simp add: min_int_def min_def)

lemma max_int_eq [simp]: "max_int a b = max a b"
  by (simp add: max_int_def max_def)

datatype ('c, 's) rpc =
    RequestVote_rpc RequestVoteArgs
  | AppendEntries_rpc "'c AppendEntriesArgs"
  | InstallSnapshot_rpc "'s InstallSnapshotArgs"

section \<open>Voting\<close>

definition upToDate :: "RequestVoteArgs \<Rightarrow> 'c entry \<Rightarrow> bool" where
  "upToDate args lastLog \<longleftrightarrow>
     rv_LastLogTerm args > e_Term lastLog \<or>
     (rv_LastLogTerm args = e_Term lastLog \<and> rv_LastLogIndex args \<ge> e_Index lastLog)"

definition RequestVote ::
  "('c, 's) raft \<Rightarrow> RequestVoteArgs \<Rightarrow> (('c, 's) raft \<times> RequestVoteReply) option" where
  "RequestVote rf args =
     (if rv_Term args < currentTerm rf \<or>
         (rv_Term args = currentTerm rf \<and> votedFor rf \<noteq> -1 \<and> votedFor rf \<noteq> rv_CandidateId args)
      then Some (rf, \<lparr>rvr_Term = currentTerm rf, rvr_VoteGranted = False\<rparr>)
      else do {
        let rf = (if rv_Term args > currentTerm rf then setNewTerm rf (rv_Term args) else rf);
        lastLog \<leftarrow> getLastLog rf;
        if (votedFor rf = -1 \<or> votedFor rf = rv_CandidateId args) \<and> upToDate args lastLog
        then (let rf = reset_electionTimer (persist (rf\<lparr>votedFor := rv_CandidateId args\<rparr>))
              in Some (rf, \<lparr>rvr_Term = currentTerm rf, rvr_VoteGranted = True\<rparr>))
        else Some (rf, \<lparr>rvr_Term = currentTerm rf, rvr_VoteGranted = False\<rparr>)
      })"

section \<open>Log replication: the leader's requests\<close>

text \<open>What the loop of \<open>appendEntries\<close> sends to one peer.\<close>

definition appendEntries_to :: "('c, 's) raft \<Rightarrow> nat \<Rightarrow> ('c, 's) rpc option" where
  "appendEntries_to rf peer = do {
     next \<leftarrow> idx (nextIndex rf) (int peer);
     first \<leftarrow> getFirstLog rf;
     let prevLogIndex = next - 1;
     if prevLogIndex < e_Index first
     then Some (InstallSnapshot_rpc
       \<lparr>is_Term = currentTerm rf, is_LastIncludedIndex = e_Index first,
        is_LastIncludedTerm = e_Term first, is_Data = ReadSnapshot (persister rf)\<rparr>)
     else do {
       prevLog \<leftarrow> idx (logs rf) (prevLogIndex - e_Index first);
       entries \<leftarrow> slice_from (logs rf) (prevLogIndex - e_Index first + 1);
       Some (AppendEntries_rpc
         \<lparr>ae_Term = currentTerm rf, ae_LeaderId = int (me rf),
          ae_PrevLogIndex = e_Index prevLog, ae_PrevLogTerm = e_Term prevLog,
          ae_Entries = entries, ae_LeaderCommit = commitIndex rf\<rparr>)
     }
   }"

fun appendEntries_loop ::
  "bool \<Rightarrow> 'c entry \<Rightarrow> ('c, 's) raft \<Rightarrow> nat list \<Rightarrow>
   (('c, 's) raft \<times> (nat \<times> ('c, 's) rpc) list) option" where
  "appendEntries_loop heartbeat lastLog rf [] = Some (rf, [])"
| "appendEntries_loop heartbeat lastLog rf (peer # ps) =
     (if peer = me rf
      then appendEntries_loop heartbeat lastLog (reset_electionTimer rf) ps
      else do {
        next \<leftarrow> idx (nextIndex rf) (int peer);
        if heartbeat \<or> e_Index lastLog \<ge> next
        then do {
          req \<leftarrow> appendEntries_to rf peer;
          (rf', out) \<leftarrow> appendEntries_loop heartbeat lastLog rf ps;
          Some (rf', (peer, req) # out)
        }
        else appendEntries_loop heartbeat lastLog rf ps
      })"

definition appendEntries ::
  "('c, 's) raft \<Rightarrow> bool \<Rightarrow> (('c, 's) raft \<times> (nat \<times> ('c, 's) rpc) list) option" where
  "appendEntries rf heartbeat = do {
     lastLog \<leftarrow> getLastLog rf;
     appendEntries_loop heartbeat lastLog rf [0..<peers rf]
   }"

section \<open>Elections\<close>

text \<open>
  The variables that the goroutines of one \<open>StartElection\<close> share: the arguments they
  send, the vote count and the \<open>sync.Once\<close>.
\<close>

record election =
  el_args :: RequestVoteArgs
  grantedVote :: nat
  becomeLeader :: bool

definition StartElection ::
  "('c, 's) raft \<Rightarrow> (('c, 's) raft \<times> election \<times> (nat \<times> ('c, 's) rpc) list) option" where
  "StartElection rf = do {
     let rf = rf\<lparr>votedFor := int (me rf)\<rparr>;
     lastLog \<leftarrow> getLastLog rf;
     let args = \<lparr>rv_Term = currentTerm rf, rv_CandidateId = int (me rf),
                 rv_LastLogIndex = e_Index lastLog, rv_LastLogTerm = e_Term lastLog\<rparr>;
     let rf = persist rf;
     Some (rf, \<lparr>el_args = args, grantedVote = 1, becomeLeader = False\<rparr>,
           map (\<lambda>peer. (peer, RequestVote_rpc args)) (filter (\<lambda>peer. peer \<noteq> me rf) [0..<peers rf]))
   }"

text \<open>The body of \<open>becomeLeader.Do\<close>.\<close>

definition become_leader ::
  "('c, 's) raft \<Rightarrow> (('c, 's) raft \<times> (nat \<times> ('c, 's) rpc) list) option" where
  "become_leader rf = do {
     let rf = rf\<lparr>role := LEADER\<rparr>;
     lastLog \<leftarrow> getLastLog rf;
     let rf = rf\<lparr>nextIndex := map (\<lambda>_. e_Index lastLog + 1) [0..<peers rf],
                 matchIndex := map (\<lambda>_. 0) [0..<peers rf]\<rparr>;
     (rf, out) \<leftarrow> appendEntries rf True;
     Some (reset_heartbeatTimer rf, out)
   }"

text \<open>What a vote goroutine does once its call has returned.\<close>

definition requestVote_return ::
  "('c, 's) raft \<Rightarrow> election \<Rightarrow> RequestVoteReply option \<Rightarrow>
   (('c, 's) raft \<times> election \<times> (nat \<times> ('c, 's) rpc) list) option" where
  "requestVote_return rf el res =
     (case res of
        None \<Rightarrow> Some (rf, el, [])
      | Some reply \<Rightarrow>
          (if rvr_Term reply > rv_Term (el_args el)
           then Some (setNewTerm rf (rv_Term (el_args el)), el, [])
           else if rvr_Term reply < rv_Term (el_args el) then Some (rf, el, [])
           else if \<not> rvr_VoteGranted reply then Some (rf, el, [])
           else
             (let el = el\<lparr>grantedVote := grantedVote el + 1\<rparr>
              in if grantedVote el > peers rf div 2 \<and> currentTerm rf = rv_Term (el_args el) \<and>
                    role rf = CANDIDATE \<and> \<not> becomeLeader el
                 then do {
                   (rf, out) \<leftarrow> become_leader rf;
                   Some (rf, el\<lparr>becomeLeader := True\<rparr>, out)
                 }
                 else Some (rf, el, []))))"

text \<open>The two branches of the ticker's select.\<close>

definition ticker_election ::
  "('c, 's) raft \<Rightarrow> (('c, 's) raft \<times> election \<times> (nat \<times> ('c, 's) rpc) list) option" where
  "ticker_election rf = do {
     let rf = rf\<lparr>role := CANDIDATE\<rparr>;
     let rf = rf\<lparr>currentTerm := currentTerm rf + 1\<rparr>;
     (rf, el, out) \<leftarrow> StartElection rf;
     Some (reset_electionTimer rf, el, out)
   }"

definition ticker_heartbeat ::
  "('c, 's) raft \<Rightarrow> (('c, 's) raft \<times> (nat \<times> ('c, 's) rpc) list) option" where
  "ticker_heartbeat rf =
     (if role rf = LEADER
      then do { (rf, out) \<leftarrow> appendEntries rf True; Some (reset_heartbeatTimer rf, out) }
      else Some (rf, []))"

section \<open>Log replication: the follower\<close>

text \<open>The loop that looks for the first entry of the conflicting term.\<close>

function conflict_loop :: "'c entry list \<Rightarrow> int \<Rightarrow> int \<Rightarrow> int \<Rightarrow> int option" where
  "conflict_loop lgs firstLogIndex xTerm xIndex =
     (if xIndex \<ge> firstLogIndex
      then do {
        e \<leftarrow> idx lgs (xIndex - firstLogIndex);
        if e_Term e = xTerm then conflict_loop lgs firstLogIndex xTerm (xIndex - 1) else Some xIndex
      }
      else Some xIndex)"
  by pat_completeness auto
termination
  by (relation "measure (\<lambda>(lgs, f, t, x). nat (x - f + 1))") auto

declare conflict_loop.simps [simp del]

text \<open>The loop over the new entries (rules 3 and 4 of AppendEntries).\<close>

fun entries_loop ::
  "int \<Rightarrow> ('c, 's) raft \<Rightarrow> 'c entry list \<Rightarrow> ('c, 's) raft option" where
  "entries_loop firstLogIndex rf [] = Some rf"
| "entries_loop firstLogIndex rf (entry # rest) = do {
     lastLog \<leftarrow> getLastLog rf;
     conflict \<leftarrow>
       (if e_Index entry \<le> e_Index lastLog \<and> e_Index entry - firstLogIndex \<ge> 0
        then do {
          old \<leftarrow> idx (logs rf) (e_Index entry - firstLogIndex);
          Some (e_Term old \<noteq> e_Term entry)
        }
        else Some False);
     rf \<leftarrow>
       (if conflict
        then do {
          lgs \<leftarrow> slice_to (logs rf) (e_Index entry - firstLogIndex);
          Some (persist (rf\<lparr>logs := lgs\<rparr>))
        }
        else Some rf);
     lastLog \<leftarrow> getLastLog rf;
     if e_Index entry > e_Index lastLog
     then Some (persist (rf\<lparr>logs := logs rf @ (entry # rest)\<rparr>))
     else entries_loop firstLogIndex rf rest
   }"

definition AppendEntries ::
  "('c, 's) raft \<Rightarrow> 'c AppendEntriesArgs \<Rightarrow> (('c, 's) raft \<times> AppendEntriesReply) option" where
  "AppendEntries rf args =
     (let reply = \<lparr>aer_Term = currentTerm rf, aer_Success = False, aer_Conflict = False,
                   aer_XTerm = 0, aer_XIndex = 0, aer_XLen = 0\<rparr>
      in if ae_Term args < currentTerm rf then Some (rf, reply)
      else if ae_Term args > currentTerm rf then Some (setNewTerm rf (ae_Term args), reply)
      else do {
        let rf = reset_electionTimer rf;
        let rf = (if role rf = CANDIDATE then rf\<lparr>role := FOLLOWER\<rparr> else rf);
        first \<leftarrow> getFirstLog rf;
        if ae_PrevLogIndex args < e_Index first
        then Some (rf, reply\<lparr>aer_Term := 0, aer_Success := False\<rparr>)
        else do {
          lastLog \<leftarrow> getLastLog rf;
          if e_Index lastLog < ae_PrevLogIndex args
          then Some (rf, reply\<lparr>aer_Conflict := True, aer_XTerm := -1, aer_XIndex := -1,
                 aer_XLen := int (length (logs rf)) + e_Index first - 1\<rparr>)
          else do {
            prev \<leftarrow> idx (logs rf) (ae_PrevLogIndex args - e_Index first);
            if e_Term prev \<noteq> ae_PrevLogTerm args
            then do {
              xIndex \<leftarrow> conflict_loop (logs rf) (e_Index first) (e_Term prev) (ae_PrevLogIndex args - 1);
              Some (rf, reply\<lparr>aer_Conflict := True, aer_XIndex := xIndex, aer_XTerm := e_Term prev,
                 aer_XLen := int (length (logs rf)) + e_Index first - 1\<rparr>)
            }
            else do {
              rf \<leftarrow> entries_loop (e_Index first) rf (ae_Entries args);
              lastLog \<leftarrow> getLastLog rf;
              let rf = (if ae_LeaderCommit args > commitIndex rf
                        then apply_signal
                          (rf\<lparr>commitIndex := min_int (ae_LeaderCommit args) (e_Index lastLog)\<rparr>)
                        else rf);
              Some (rf, reply\<lparr>aer_Success := True\<rparr>)
            }
          }
        }
      })"

section \<open>Log replication: the leader's bookkeeping\<close>

text \<open>The inner loop of \<open>leaderCommitLog\<close>: does a majority match up to index \<open>i\<close>?\<close>

fun majority_loop :: "('c, 's) raft \<Rightarrow> int \<Rightarrow> nat \<Rightarrow> nat list \<Rightarrow> bool option" where
  "majority_loop rf i cnt [] = Some False"
| "majority_loop rf i cnt (serverId # ss) = do {
     ge \<leftarrow> (if serverId \<noteq> me rf
            then do { m \<leftarrow> idx (matchIndex rf) (int serverId); Some (m \<ge> i) }
            else Some False);
     let cnt = (if ge then cnt + 1 else cnt);
     if cnt > peers rf div 2 then Some True else majority_loop rf i cnt ss
   }"

function commit_loop :: "('c, 's) raft \<Rightarrow> int \<Rightarrow> ('c, 's) raft option" where
  "commit_loop rf i = do {
     lastLog \<leftarrow> getLastLog rf;
     if i \<le> e_Index lastLog
     then do {
       first \<leftarrow> getFirstLog rf;
       e \<leftarrow> idx (logs rf) (i - e_Index first);
       if e_Term e \<noteq> currentTerm rf then commit_loop rf (i + 1)
       else do {
         b \<leftarrow> majority_loop rf i 1 [0..<peers rf];
         if b then commit_loop (apply_signal (rf\<lparr>commitIndex := i\<rparr>)) (i + 1)
         else commit_loop rf (i + 1)
       }
     }
     else Some rf
   }"
  by pat_completeness auto
termination
  by (relation "measure (\<lambda>(rf, i). case getLastLog rf of None \<Rightarrow> 0 | Some l \<Rightarrow> nat (e_Index l + 1 - i))")
    (auto simp: getLastLog_def apply_signal_def)

declare commit_loop.simps [simp del]

definition leaderCommitLog :: "('c, 's) raft \<Rightarrow> ('c, 's) raft option" where
  "leaderCommitLog rf =
     (if role rf \<noteq> LEADER then Some rf else commit_loop rf (commitIndex rf + 1))"

function findLast_loop :: "('c, 's) raft \<Rightarrow> int \<Rightarrow> int \<Rightarrow> int option" where
  "findLast_loop rf term i =
     (if i > 0
      then do {
        first \<leftarrow> getFirstLog rf;
        e \<leftarrow> idx (logs rf) (i - e_Index first);
        if e_Term e = term then Some i
        else if e_Term e < term then Some (-1)
        else findLast_loop rf term (i - 1)
      }
      else Some (-1))"
  by pat_completeness auto
termination
  by (relation "measure (\<lambda>(rf, term, i). nat i)") auto

declare findLast_loop.simps [simp del]

definition findLastLogInXTerm :: "('c, 's) raft \<Rightarrow> int \<Rightarrow> int option" where
  "findLastLogInXTerm rf term = do {
     lastLog \<leftarrow> idx (logs rf) (int (length (logs rf)) - 1);
     findLast_loop rf term (e_Index lastLog)
   }"

text \<open>
  What \<open>sendAppendEntryAndUpdate\<close> does once its call has returned: first the bookkeeping of
  \<open>nextIndex\<close> and \<open>matchIndex\<close> for a reply of the current term, then the whole goroutine.
\<close>

definition update_indices ::
  "('c, 's) raft \<Rightarrow> nat \<Rightarrow> 'c AppendEntriesArgs \<Rightarrow> AppendEntriesReply \<Rightarrow> ('c, 's) raft option" where
  "update_indices rf serverId args reply = do {
     next \<leftarrow> idx (nextIndex rf) (int serverId);
     if aer_Success reply
     then do {
       let match = ae_PrevLogIndex args + int (length (ae_Entries args));
       nexts \<leftarrow> store (nextIndex rf) (int serverId) (max_int next (match + 1));
       m \<leftarrow> idx (matchIndex rf) (int serverId);
       matches \<leftarrow> store (matchIndex rf) (int serverId) (max_int m match);
       Some (rf\<lparr>nextIndex := nexts, matchIndex := matches\<rparr>)
     }
     else if aer_Conflict reply
     then do {
       n \<leftarrow> (if aer_XTerm reply = -1 then Some (aer_XLen reply)
             else do {
               lastLogInXTerm \<leftarrow> findLastLogInXTerm rf (aer_XTerm reply);
               Some (if lastLogInXTerm > 0 then lastLogInXTerm else aer_XIndex reply)
             });
       nexts \<leftarrow> store (nextIndex rf) (int serverId) n;
       Some (rf\<lparr>nextIndex := nexts\<rparr>)
     }
     else if next > 1
     then do {
       nexts \<leftarrow> store (nextIndex rf) (int serverId) (next - 1);
       Some (rf\<lparr>nextIndex := nexts\<rparr>)
     }
     else Some rf
   }"

definition appendEntry_return ::
  "('c, 's) raft \<Rightarrow> nat \<Rightarrow> 'c AppendEntriesArgs \<Rightarrow> AppendEntriesReply option \<Rightarrow>
   ('c, 's) raft option" where
  "appendEntry_return rf serverId args res =
     (case res of
        None \<Rightarrow> Some rf
      | Some reply \<Rightarrow>
          (if aer_Term reply > currentTerm rf then Some (setNewTerm rf (aer_Term reply))
           else if ae_Term args = currentTerm rf
           then do { rf \<leftarrow> update_indices rf serverId args reply; leaderCommitLog rf }
           else Some rf))"

text \<open>What \<open>sendInstallSnapshotAndUpdate\<close> does once its call has returned.\<close>

definition installSnapshot_return ::
  "('c, 's) raft \<Rightarrow> nat \<Rightarrow> 's InstallSnapshotArgs \<Rightarrow> InstallSnapshotReply option \<Rightarrow>
   ('c, 's) raft option" where
  "installSnapshot_return rf serverId args res =
     (case res of
        None \<Rightarrow> Some rf
      | Some reply \<Rightarrow> do {
          let rf = (if isr_Term reply > currentTerm rf then setNewTerm rf (isr_Term reply) else rf);
          nexts \<leftarrow> store (nextIndex rf) (int serverId) (is_LastIncludedIndex args + 1);
          matches \<leftarrow> store (matchIndex rf) (int serverId) (is_LastIncludedIndex args);
          Some (rf\<lparr>nextIndex := nexts, matchIndex := matches\<rparr>)
        })"

section \<open>Snapshots\<close>

definition InstallSnapshot ::
  "('c, 's) raft \<Rightarrow> 's InstallSnapshotArgs \<Rightarrow>
   ('c, 's) raft \<times> InstallSnapshotReply \<times> ('c, 's) ApplyMsg option" where
  "InstallSnapshot rf args =
     (let reply = \<lparr>isr_Term = currentTerm rf, isr_Installed = False\<rparr>
      in if is_Term args < currentTerm rf then (rf, reply, None)
      else
        (let rf = (if is_Term args > currentTerm rf then setNewTerm rf (is_Term args) else rf);
             rf = reset_electionTimer rf
         in if is_LastIncludedIndex args \<le> commitIndex rf then (rf, reply, None)
         else (rf, reply\<lparr>isr_Installed := True\<rparr>,
           Some \<lparr>CommandValid = False, Command = None, CommandIndex = 0, CommandTerm = 0,
                 SnapshotValid = True, Snapshot_data = is_Data args,
                 SnapshotTerm = is_LastIncludedTerm args,
                 SnapshotIndex = is_LastIncludedIndex args\<rparr>)))"

definition upd_first :: "('c entry \<Rightarrow> 'c entry) \<Rightarrow> 'c entry list \<Rightarrow> 'c entry list option" where
  "upd_first f lgs = do { e \<leftarrow> idx lgs 0; store lgs 0 (f e) }"

definition CondInstallSnapshot ::
  "('c, 's) raft \<Rightarrow> int \<Rightarrow> int \<Rightarrow> 's list \<Rightarrow> (('c, 's) raft \<times> bool) option" where
  "CondInstallSnapshot rf lastIncludedTerm lastIncludedIndex snap =
     (if lastIncludedIndex \<le> commitIndex rf then Some (rf, False)
      else do {
        lastLog \<leftarrow> getLastLog rf;
        lgs \<leftarrow>
          (if lastIncludedIndex > e_Index lastLog then Some [zero_entry]
           else do {
             first \<leftarrow> getFirstLog rf;
             rest \<leftarrow> slice_from (logs rf) (lastIncludedIndex - e_Index first);
             upd_first (\<lambda>e. e\<lparr>e_Command := None\<rparr>) (logCompact rest)
           });
        lgs \<leftarrow> upd_first (\<lambda>e. e\<lparr>e_Term := lastIncludedTerm\<rparr>) lgs;
        lgs \<leftarrow> upd_first (\<lambda>e. e\<lparr>e_Index := lastIncludedIndex\<rparr>) lgs;
        let rf = rf\<lparr>logs := lgs, LastApplied := lastIncludedIndex, commitIndex := lastIncludedIndex\<rparr>;
        Some (rf\<lparr>persister := SaveStateAndSnapshot (persister rf) (encodeRaftState rf) snap\<rparr>, True)
      })"

definition Snapshot ::
  "('c, 's) raft \<Rightarrow> int \<Rightarrow> 's list \<Rightarrow> ('c, 's) raft option" where
  "Snapshot rf index snap = do {
     first \<leftarrow> getFirstLog rf;
     let snapshotIndex = e_Index first;
     if index \<le> snapshotIndex then Some rf
     else do {
       rest \<leftarrow> slice_from (logs rf) (index - snapshotIndex);
       lgs \<leftarrow> upd_first (\<lambda>e. e\<lparr>e_Command := None\<rparr>) (logCompact rest);
       let rf = rf\<lparr>logs := lgs\<rparr>;
       Some (rf\<lparr>persister := SaveStateAndSnapshot (persister rf) (encodeRaftState rf) snap\<rparr>)
     }
   }"

section \<open>The service's entry point and the applier\<close>

definition Start ::
  "('c, 's) raft \<Rightarrow> 'c \<Rightarrow>
   (('c, 's) raft \<times> (int \<times> int \<times> bool) \<times> (nat \<times> ('c, 's) rpc) list) option" where
  "Start rf command =
     (if role rf \<noteq> LEADER then Some (rf, (-1, -1, False), [])
      else do {
        lastLog \<leftarrow> getLastLog rf;
        let index = e_Index lastLog + 1;
        let term = currentTerm rf;
        let log = \<lparr>e_Index = index, e_Term = term, e_Command = Some command\<rparr>;
        let rf = persist (rf\<lparr>logs := logs rf @ [log]\<rparr>);
        (rf, out) \<leftarrow> appendEntries rf False;
        Some (rf, (index, term, True), out)
      })"

text \<open>
  One round of the applier: it waits until \<open>commitIndex\<close> is ahead (\<open>applier_ready\<close>), copies
  the entries to deliver under the lock (\<open>applier_take\<close>), sends them without the lock, and
  then records the progress (\<open>applier_done\<close>).
\<close>

definition applier_ready :: "('c, 's) raft \<Rightarrow> bool" where
  "applier_ready rf \<longleftrightarrow> \<not> (LastApplied rf \<ge> commitIndex rf)"

definition applier_take :: "('c, 's) raft \<Rightarrow> ('c entry list \<times> int) option" where
  "applier_take rf = do {
     first \<leftarrow> getFirstLog rf;
     entries \<leftarrow> slice (logs rf) (LastApplied rf - e_Index first + 1)
                               (commitIndex rf - e_Index first + 1);
     Some (entries, commitIndex rf)
   }"

definition applier_msg :: "'c entry \<Rightarrow> ('c, 's) ApplyMsg" where
  "applier_msg entry =
     \<lparr>CommandValid = True, Command = e_Command entry, CommandIndex = e_Index entry,
      CommandTerm = e_Term entry, SnapshotValid = False, Snapshot_data = [],
      SnapshotTerm = 0, SnapshotIndex = 0\<rparr>"

definition applier_done :: "('c, 's) raft \<Rightarrow> int \<Rightarrow> ('c, 's) raft" where
  "applier_done rf commit = rf\<lparr>LastApplied := max_int (LastApplied rf) commit\<rparr>"

end
