(* ===== verification/Raft_Replication.thy ===== *)
theory Raft_Replication
  imports Raft_Log
begin

text \<open>
  Correctness of the replication handlers of one peer: what AppendEntries does on every
  branch, which index \<open>leaderCommitLog\<close> commits, what \<open>findLastLogInXTerm\<close> finds and when
  it runs off the log, and what the snapshot operations and the applier do to the log.
\<close>

section \<open>AppendEntries\<close>

text \<open>The peer after the common prelude of a request of the current term.\<close>

definition heard_leader :: "('c, 's) raft \<Rightarrow> ('c, 's) raft" where
  "heard_leader rf = (let rf = reset_electionTimer rf
     in if role rf = CANDIDATE then rf\<lparr>role := FOLLOWER\<rparr> else rf)"

lemma heard_leader_fields [simp]:
  "logs (heard_leader rf) = logs rf" "currentTerm (heard_leader rf) = currentTerm rf"
  "votedFor (heard_leader rf) = votedFor rf" "commitIndex (heard_leader rf) = commitIndex rf"
  "LastApplied (heard_leader rf) = LastApplied rf" "me (heard_leader rf) = me rf"
  "peers (heard_leader rf) = peers rf" "persister (heard_leader rf) = persister rf"
  "nextIndex (heard_leader rf) = nextIndex rf" "matchIndex (heard_leader rf) = matchIndex rf"
  "applyCond (heard_leader rf) = applyCond rf"
  "role (heard_leader rf) = (if role rf = CANDIDATE then FOLLOWER else role rf)"
  by (auto simp: heard_leader_def reset_electionTimer_def Let_def)

lemma synced_heard_leader [simp]: "synced (heard_leader rf) = synced rf"
  by (rule synced_cong) simp_all

lemma AppendEntries_current:
  assumes "ae_Term args = currentTerm rf"
  shows "AppendEntries rf args =
     (let reply = \<lparr>aer_Term = currentTerm rf, aer_Success = False, aer_Conflict = False,
                   aer_XTerm = 0, aer_XIndex = 0, aer_XLen = 0\<rparr>; rf = heard_leader rf
      in do {
        first \<leftarrow> getFirstLog rf;
        if ae_PrevLogIndex args < e_Index first
        then Some (rf, reply\<lparr>aer_Term := 0, aer_Success := False\<rparr>)
        else do {
          lastLog \<leftarrow> getLastLog rf;
          if e_Index lastLog < ae_PrevLogIndex args
          then Some (rf, reply\<lparr>aer_Conflict := True, aer_XTerm := -1, aer_XIndex := -1,
                 aer_XLen := int (length (logs rf)) + e_Index first - 1\<rparr>)
          else do {
            prev \<leftarrow> idx (logs rf) (ae_PrevLogIndex args - e_Index first);
            if e_Term prev \<noteq> ae_PrevLogTerm args
            then do {
              xIndex \<leftarrow> conflict_loop (logs rf) (e_Index first) (e_Term prev) (ae_PrevLogIndex args - 1);
              Some (rf, reply\<lparr>aer_Conflict := True, aer_XIndex := xIndex, aer_XTerm := e_Term prev,
                 aer_XLen := int (length (logs rf)) + e_Index first - 1\<rparr>)
            }
            else do {
              rf \<leftarrow> entries_loop (e_Index first) rf (ae_Entries args);
              lastLog \<leftarrow> getLastLog rf;
              Some (if ae_LeaderCommit args > commitIndex rf
                    then apply_signal (rf\<lparr>commitIndex := min (ae_LeaderCommit args) (e_Index lastLog)\<rparr>)
                    else rf, reply\<lparr>aer_Success := True\<rparr>)
            }
          }
        }
      })"
  unfolding AppendEntries_def heard_leader_def Let_def min_int_eq by (simp add: assms)

text \<open>The consistency check of rule 2, on the follower's log.\<close>

definition prev_matches :: "'c entry list \<Rightarrow> 'c AppendEntriesArgs \<Rightarrow> bool" where
  "prev_matches lgs args \<longleftrightarrow>
     (case entry_at lgs (ae_PrevLogIndex args) of
        None \<Rightarrow> False | Some e \<Rightarrow> e_Term e = ae_PrevLogTerm args)"

abbreviation prev_pos :: "'c entry list \<Rightarrow> 'c AppendEntriesArgs \<Rightarrow> nat" where
  "prev_pos lgs args \<equiv> nat (ae_PrevLogIndex args - first_index lgs + 1)"

definition merged :: "'c entry list \<Rightarrow> 'c AppendEntriesArgs \<Rightarrow> 'c entry list" where
  "merged lgs args = take (prev_pos lgs args) lgs @ merge_suffix (drop (prev_pos lgs args) lgs) (ae_Entries args)"

lemma prev_matches_range:
  assumes "log_ok lgs" "prev_matches lgs args"
  shows "first_index lgs \<le> ae_PrevLogIndex args" "ae_PrevLogIndex args \<le> last_index lgs"
    "0 < prev_pos lgs args" "prev_pos lgs args \<le> length lgs"
    "idx lgs (ae_PrevLogIndex args - first_index lgs) = Some (lgs ! (prev_pos lgs args - 1))"
    "e_Term (lgs ! (prev_pos lgs args - 1)) = ae_PrevLogTerm args"
proof -
  from assms(2) obtain e where e: "entry_at lgs (ae_PrevLogIndex args) = Some e"
    "e_Term e = ae_PrevLogTerm args"
    by (auto simp: prev_matches_def split: option.splits)
  then have "\<exists>e. entry_at lgs (ae_PrevLogIndex args) = Some e" by blast
  then show a: "first_index lgs \<le> ae_PrevLogIndex args" "ae_PrevLogIndex args \<le> last_index lgs"
    using entry_at_Some_iff [OF assms(1)] by blast+
  then show "0 < prev_pos lgs args" "prev_pos lgs args \<le> length lgs"
    using log_ok_length [OF assms(1)] by linarith+
  have n: "prev_pos lgs args - 1 = nat (ae_PrevLogIndex args - first_index lgs)" using a by linarith
  show "idx lgs (ae_PrevLogIndex args - first_index lgs) = Some (lgs ! (prev_pos lgs args - 1))"
    "e_Term (lgs ! (prev_pos lgs args - 1)) = ae_PrevLogTerm args"
    using e unfolding n by (auto simp: entry_at_def idx_def split: if_splits)
qed

lemma log_ok_merged:
  assumes "log_ok lgs" "prev_matches lgs args" "ents_ok (ae_PrevLogIndex args) (ae_Entries args)"
  shows "log_ok (merged lgs args)"
proof -
  note r = prev_matches_range [OF assms(1,2)]
  have "first_index lgs + int (prev_pos lgs args) - 1 = ae_PrevLogIndex args" using r by linarith
  then show ?thesis
    unfolding merged_def using assms r by (intro log_ok_merge) simp_all
qed

lemma first_index_merged:
  assumes "log_ok lgs" "prev_matches lgs args"
  shows "hd (merged lgs args) = hd lgs"
  using prev_matches_range [OF assms] log_ok_nonempty [OF assms(1)]
  by (cases lgs; cases "prev_pos lgs args") (auto simp: merged_def)

definition commit_after :: "'c AppendEntriesArgs \<Rightarrow> int \<Rightarrow> 'c entry list \<Rightarrow> int" where
  "commit_after args c lgs =
     (if ae_LeaderCommit args > c then min (ae_LeaderCommit args) (last_index lgs) else c)"

lemma AppendEntries_success:
  assumes ok: "log_ok (logs rf)" and es: "ents_ok (ae_PrevLogIndex args) (ae_Entries args)"
    and t: "ae_Term args = currentTerm rf" and m: "prev_matches (logs rf) args"
  shows "\<exists>rf1 rf'. log_update (heard_leader rf) rf1 \<and> logs rf1 = merged (logs rf) args \<and>
     rf' = (if ae_LeaderCommit args > commitIndex rf
            then apply_signal (rf1\<lparr>commitIndex := commit_after args (commitIndex rf) (logs rf1)\<rparr>)
            else rf1) \<and>
     AppendEntries rf args = Some (rf', \<lparr>aer_Term = currentTerm rf, aer_Success = True,
       aer_Conflict = False, aer_XTerm = 0, aer_XIndex = 0, aer_XLen = 0\<rparr>)"
proof -
  note r = prev_matches_range [OF ok m]
  have k: "first_index (logs rf) + int (prev_pos (logs rf) args) - 1 = ae_PrevLogIndex args"
    using r by linarith
  obtain rf1 where rf1: "entries_loop (first_index (logs rf)) (heard_leader rf) (ae_Entries args) = Some rf1"
    "log_update (heard_leader rf) rf1" "logs rf1 = merged (logs rf) args"
    using entries_loop_merge [of "heard_leader rf" "prev_pos (logs rf) args" "ae_Entries args"]
      ok es r k by (auto simp: merged_def)
  have ne: "logs rf1 \<noteq> []" using rf1(3) log_ok_merged [OF ok m es] by simp
  have ci: "commitIndex rf1 = commitIndex rf" using rf1(2) by (simp add: log_update_fields)
  have "AppendEntries rf args = Some (if ae_LeaderCommit args > commitIndex rf
            then apply_signal (rf1\<lparr>commitIndex := commit_after args (commitIndex rf) (logs rf1)\<rparr>)
            else rf1, \<lparr>aer_Term = currentTerm rf, aer_Success = True,
       aer_Conflict = False, aer_XTerm = 0, aer_XIndex = 0, aer_XLen = 0\<rparr>)"
    using t r ok ne ci rf1(1)
    by (simp add: AppendEntries_current [OF t] Let_def commit_after_def)
  with rf1 show ?thesis by blast
qed

lemma AppendEntries_reject:
  assumes ok: "log_ok (logs rf)"
    and n: "ae_Term args \<noteq> currentTerm rf \<or> \<not> prev_matches (logs rf) args"
  shows "\<exists>rf' reply. AppendEntries rf args = Some (rf', reply) \<and> \<not> aer_Success reply \<and>
     rf' = (if ae_Term args < currentTerm rf then rf
            else if ae_Term args > currentTerm rf then setNewTerm rf (ae_Term args)
            else heard_leader rf)"
proof (cases "ae_Term args = currentTerm rf")
  case False
  then show ?thesis by (auto simp: AppendEntries_def)
next
  case t: True
  with n have n: "\<not> prev_matches (logs rf) args" by simp
  let ?l = "logs rf" and ?p = "ae_PrevLogIndex args"
  consider (low) "?p < first_index ?l" | (high) "first_index ?l \<le> ?p" "last_index ?l < ?p"
    | (mid) "first_index ?l \<le> ?p" "?p \<le> last_index ?l" by linarith
  then show ?thesis
  proof cases
    case mid
    have ix: "idx ?l (?p - first_index ?l) = Some (?l ! nat (?p - first_index ?l))"
      using idx_in_range [OF ok mid] .
    with n have ne: "e_Term (?l ! nat (?p - first_index ?l)) \<noteq> ae_PrevLogTerm args"
      by (simp add: prev_matches_def entry_at_def)
    obtain y where "conflict_loop ?l (first_index ?l) (e_Term (?l ! nat (?p - first_index ?l))) (?p - 1) = Some y"
      using conflict_loop_spec [OF ok, of "?p - 1" "e_Term (?l ! nat (?p - first_index ?l))"] mid
      by auto
    then show ?thesis
      using t mid ok ix ne by (simp add: AppendEntries_current [OF t] Let_def)
  qed (use t ok in \<open>simp_all add: AppendEntries_current [OF t] Let_def\<close>)
qed

lemma AppendEntries_no_panic:
  assumes "log_ok (logs rf)" "ents_ok (ae_PrevLogIndex args) (ae_Entries args)"
  shows "AppendEntries rf args \<noteq> None"
proof (cases "ae_Term args = currentTerm rf \<and> prev_matches (logs rf) args")
  case True
  with AppendEntries_success [OF assms] show ?thesis by blast
next
  case False
  with AppendEntries_reject [OF assms(1), of args] show ?thesis by blast
qed

section \<open>Which index the leader commits\<close>

definition replicas :: "('c, 's) raft \<Rightarrow> int \<Rightarrow> nat set" where
  "replicas rf i = {s. s < peers rf \<and> (s = me rf \<or> matchIndex rf ! s \<ge> i)}"

definition committable :: "('c, 's) raft \<Rightarrow> int \<Rightarrow> bool" where
  "committable rf i \<longleftrightarrow> (\<exists>e. entry_at (logs rf) i = Some e \<and> e_Term e = currentTerm rf) \<and>
     card (replicas rf i) > peers rf div 2"

lemma majority_loop_eq:
  assumes "length (matchIndex rf) = peers rf" "set ss \<subseteq> {..<peers rf}"
  shows "majority_loop rf i cnt ss =
    Some (ss \<noteq> [] \<and> cnt + length (filter (\<lambda>s. s \<noteq> me rf \<and> matchIndex rf ! s \<ge> i) ss) > peers rf div 2)"
  using assms(2)
proof (induction ss arbitrary: cnt)
  case (Cons s ss)
  then have s: "idx (matchIndex rf) (int s) = Some (matchIndex rf ! s)"
    using assms(1) by (simp add: idx_def)
  from Cons.prems have "set ss \<subseteq> {..<peers rf}" by simp
  from Cons.IH [OF this] show ?case using s by (auto simp: Let_def)
qed simp

lemma majority_loop_replicas:
  assumes "length (matchIndex rf) = peers rf" "me rf < peers rf"
  shows "majority_loop rf i 1 [0..<peers rf] = Some (card (replicas rf i) > peers rf div 2)"
proof -
  let ?P = "\<lambda>s. s \<noteq> me rf \<and> matchIndex rf ! s \<ge> i"
  have "length (filter ?P [0..<peers rf]) = card (set (filter ?P [0..<peers rf]))"
    by (rule distinct_card [symmetric]) simp
  moreover have "replicas rf i = insert (me rf) (set (filter ?P [0..<peers rf]))"
    using assms(2) by (auto simp: replicas_def)
  ultimately have "card (replicas rf i) = 1 + length (filter ?P [0..<peers rf])" by simp
  moreover have "[0..<peers rf] \<noteq> []" using assms(2) by simp
  moreover have "set [0..<peers rf] \<subseteq> {..<peers rf}" by auto
  ultimately show ?thesis using majority_loop_eq [OF assms(1)] by simp
qed

lemma commit_loop_step:
  assumes "log_ok (logs rf)" "length (matchIndex rf) = peers rf" "me rf < peers rf"
    and "first_index (logs rf) \<le> i"
  shows "commit_loop rf i =
    (if i \<le> last_index (logs rf)
     then commit_loop (if committable rf i then apply_signal (rf\<lparr>commitIndex := i\<rparr>) else rf) (i + 1)
     else Some rf)"
proof (cases "i \<le> last_index (logs rf)")
  case True
  note ix = idx_in_range [OF assms(1,4) True]
  show ?thesis
    using True assms(1) ix
    by (subst commit_loop.simps) (auto simp: majority_loop_replicas [simplified] assms committable_def entry_at_def)
next
  case False
  then show ?thesis using assms(1) by (subst commit_loop.simps) simp
qed

definition scan_result :: "('c, 's) raft \<Rightarrow> int \<Rightarrow> ('c, 's) raft \<Rightarrow> bool" where
  "scan_result rf i rf' \<longleftrightarrow>
     (rf' = rf \<and> (\<forall>j. i \<le> j \<longrightarrow> \<not> committable rf j)) \<or>
     (i \<le> commitIndex rf' \<and> committable rf (commitIndex rf') \<and>
      (\<forall>j. commitIndex rf' < j \<longrightarrow> \<not> committable rf j) \<and>
      rf' = apply_signal (rf\<lparr>commitIndex := commitIndex rf'\<rparr>))"

lemma committable_cong [simp]:
  "committable (rf\<lparr>commitIndex := c\<rparr>) j = committable rf j"
  "committable (rf\<lparr>applyCond := b\<rparr>) j = committable rf j"
  by (simp_all add: committable_def replicas_def apply_signal_def)

lemma committable_range: "log_ok (logs rf) \<Longrightarrow> committable rf j \<Longrightarrow> j \<le> last_index (logs rf)"
  using entry_at_Some_iff by (fastforce simp: committable_def)

lemma commit_loop_spec:
  assumes "log_ok (logs rf)" "length (matchIndex rf) = peers rf" "me rf < peers rf"
    and "first_index (logs rf) \<le> i"
  shows "\<exists>rf'. commit_loop rf i = Some rf' \<and> scan_result rf i rf'"
  using assms
proof (induction "nat (last_index (logs rf) + 1 - i)" arbitrary: rf i)
  case 0
  then have "last_index (logs rf) < i" by simp
  then show ?case
    using 0 commit_loop_step [of rf i] committable_range [of rf] by (fastforce simp: scan_result_def)
next
  case (Suc n)
  let ?rf = "if committable rf i then apply_signal (rf\<lparr>commitIndex := i\<rparr>) else rf"
  have i: "i \<le> last_index (logs rf)" using Suc.hyps(2) by simp
  have l: "logs ?rf = logs rf" "matchIndex ?rf = matchIndex rf" "peers ?rf = peers rf" "me ?rf = me rf"
    by (simp_all add: apply_signal_def)
  obtain rf' where rf': "commit_loop ?rf (i + 1) = Some rf'" "scan_result ?rf (i + 1) rf'"
    using Suc.hyps(1) [of ?rf "i + 1"] Suc.hyps(2) Suc.prems unfolding l by force
  have "commit_loop rf i = Some rf'"
    using commit_loop_step [OF Suc.prems] i rf'(1) by simp
  moreover have "scan_result rf i rf'"
  proof (cases "committable rf i")
    case True
    with rf'(2) show ?thesis
      by (auto simp: scan_result_def apply_signal_def)
  next
    case False
    then have "\<forall>j. i \<le> j \<longrightarrow> i + 1 \<le> j \<or> \<not> committable rf j" by (metis zless_imp_add1_zle order_le_less)
    with rf'(2) False show ?thesis by (auto simp: scan_result_def)
  qed
  ultimately show ?case by blast
qed

section \<open>Searching the last entry of a term\<close>

abbreviation term_at :: "'c entry list \<Rightarrow> int \<Rightarrow> int" where
  "term_at lgs i \<equiv> e_Term (lgs ! nat (i - first_index lgs))"

lemma findLast_loop_unfold:
  assumes "log_ok (logs rf)" "first_index (logs rf) \<le> i" "i \<le> last_index (logs rf)" "0 < i"
  shows "findLast_loop rf t i =
    (if term_at (logs rf) i = t then Some i
     else if term_at (logs rf) i < t then Some (-1) else findLast_loop rf t (i - 1))"
  using assms idx_in_range [OF assms(1-3)] by (subst findLast_loop.simps) simp

lemma findLast_loop_stops:
  assumes ok: "log_ok (logs rf)" and y: "first_index (logs rf) \<le> y" "0 < y" "term_at (logs rf) y \<le> t"
    and i: "y \<le> i" "i \<le> last_index (logs rf)"
    and above: "\<And>j. y < j \<Longrightarrow> j \<le> i \<Longrightarrow> t < term_at (logs rf) j"
  shows "findLast_loop rf t i = Some (if term_at (logs rf) y = t then y else -1)"
  using i above
proof (induction "nat (i - y)" arbitrary: i)
  case 0
  then have "i = y" by simp
  with 0 ok y show ?case by (auto simp: findLast_loop_unfold)
next
  case (Suc n)
  then have lt: "y < i" by simp
  with Suc.prems(3) [of i] have "t < term_at (logs rf) i" by simp
  moreover have "findLast_loop rf t (i - 1) = Some (if term_at (logs rf) y = t then y else -1)"
    using Suc.hyps Suc.prems lt by (intro Suc.hyps(1)) auto
  ultimately show ?case
    using lt ok y(1,2) Suc.prems(2) by (simp add: findLast_loop_unfold)
qed

lemma findLast_loop_exhausted:
  assumes ok: "log_ok (logs rf)" and i: "first_index (logs rf) - 1 \<le> i" "i \<le> last_index (logs rf)"
    and above: "\<And>j. first_index (logs rf) \<le> j \<Longrightarrow> 0 < j \<Longrightarrow> j \<le> i \<Longrightarrow> t < term_at (logs rf) j"
  shows "findLast_loop rf t i = (if first_index (logs rf) \<ge> 2 then None else Some (-1))"
  using i above
proof (induction "nat (i - first_index (logs rf) + 1)" arbitrary: i)
  case 0
  then have i: "i = first_index (logs rf) - 1" by simp
  show ?case using ok by (subst findLast_loop.simps) (simp add: i idx_def)
next
  case (Suc n)
  then have ge: "first_index (logs rf) \<le> i" by simp
  show ?case
  proof (cases "0 < i")
    case True
    with ge Suc.prems(3) [of i] have gt: "t < term_at (logs rf) i" by simp
    have "findLast_loop rf t (i - 1) = (if first_index (logs rf) \<ge> 2 then None else Some (-1))"
      using Suc.hyps Suc.prems ge by (intro Suc.hyps(1)) auto
    with gt True ge Suc.prems(2) ok show ?thesis by (simp add: findLast_loop_unfold)
  next
    case False
    with ge log_ok_first_nonneg [OF ok] show ?thesis by (subst findLast_loop.simps) simp
  qed
qed

lemma findLastLogInXTerm_eq: "logs rf \<noteq> [] \<Longrightarrow> findLastLogInXTerm rf t = findLast_loop rf t (last_index (logs rf))"
  by (simp add: findLastLogInXTerm_def)

section \<open>Compaction\<close>

lemma upd_first_Cons [simp]: "upd_first f (e # es) = Some (f e # es)"
  by (simp add: upd_first_def idx_def store_def)

lemma upd_first_Nil [simp]: "upd_first f [] = None"
  by (simp add: upd_first_def idx_def)

lemma drop_at_index:
  assumes "log_ok lgs" "first_index lgs \<le> i" "i \<le> last_index lgs"
  obtains e es where "drop (nat (i - first_index lgs)) lgs = e # es" "entry_at lgs i = Some e"
    "e_Index e = i" "log_ok (e # es)"
proof -
  let ?k = "nat (i - first_index lgs)"
  have k: "?k < length lgs" using assms log_ok_length [OF assms(1)] by linarith
  have "drop ?k lgs = lgs ! ?k # drop (Suc ?k) lgs" using k by (rule Cons_nth_drop_Suc [symmetric])
  moreover have at: "entry_at lgs i = Some (lgs ! ?k)"
    using idx_in_range [OF assms] by (simp add: entry_at_def)
  moreover have "log_ok (drop ?k lgs)" using assms(1) k by (rule log_ok_drop)
  moreover have "e_Index (lgs ! ?k) = i" using assms(1) at by (rule entry_at_index)
  ultimately show thesis using that by metis
qed

text \<open>A log cut at index \<open>i\<close> holds at every later index what the whole log holds there.\<close>

lemma entry_at_drop:
  assumes ok: "log_ok lgs" and i: "first_index lgs \<le> i" "i \<le> last_index lgs"
    and dr: "drop (nat (i - first_index lgs)) lgs = e # es" and e': "e_Index e' = i" and j: "i < j"
  shows "entry_at (e' # es) j = entry_at lgs j"
proof -
  let ?k = "nat (i - first_index lgs)"
  have "es = drop (Suc ?k) lgs" using dr by (metis drop_Suc list.sel(3) tl_drop)
  moreover have "length lgs = ?k + Suc (length es)"
    using dr by (metis Suc_leD add_diff_inverse_nat diff_is_0_eq drop_eq_Nil length_Cons length_drop
        list.distinct(1) nat_le_linear not_less)
  moreover have "nat (j - first_index lgs) = Suc (?k + nat (j - i - 1))"
    "nat (j - i) = Suc (nat (j - i - 1))" using i j by linarith+
  ultimately show ?thesis
    using e' i j by (auto simp: entry_at_def idx_def)
qed

lemma Snapshot_spec:
  assumes ok: "log_ok (logs rf)" and i: "first_index (logs rf) < index" "index \<le> last_index (logs rf)"
  shows "\<exists>e es rf'. Snapshot rf index snap = Some rf' \<and> synced rf' \<and>
     drop (nat (index - first_index (logs rf))) (logs rf) = e # es \<and>
     entry_at (logs rf) index = Some e \<and> logs rf' = e\<lparr>e_Command := None\<rparr> # es \<and> log_ok (logs rf') \<and>
     snapshot (persister rf') = snap \<and> rf' = rf\<lparr>logs := logs rf', persister := persister rf'\<rparr>"
proof -
  obtain e es where d: "drop (nat (index - first_index (logs rf))) (logs rf) = e # es"
    "entry_at (logs rf) index = Some e" "e_Index e = index" "log_ok (e # es)"
    using drop_at_index [OF ok, of index] i by auto
  let ?rf = "rf\<lparr>logs := e\<lparr>e_Command := None\<rparr> # es\<rparr>"
  let ?rf' = "?rf\<lparr>persister := SaveStateAndSnapshot (persister ?rf) (encodeRaftState ?rf) snap\<rparr>"
  have sl: "slice_from (logs rf) (index - first_index (logs rf)) = Some (e # es)"
    using d(1) i log_ok_length [OF ok] by (simp add: slice_from_def)
  have "Snapshot rf index snap = Some ?rf'"
    using ok i sl by (simp add: Snapshot_def logCompact_def Let_def)
  moreover have "log_ok (e\<lparr>e_Command := None\<rparr> # es)" using d(4) by (rule log_ok_upd_hd) simp
  moreover have "synced ?rf'"
    by (simp add: synced_def SaveStateAndSnapshot_def encodeRaftState_def)
  ultimately show ?thesis
    using d by (intro exI [of _ e] exI [of _ es] exI [of _ ?rf'])
      (simp add: SaveStateAndSnapshot_def)
qed

lemma CondInstallSnapshot_spec:
  assumes ok: "log_ok (logs rf)" and c: "first_index (logs rf) \<le> commitIndex rf" "commitIndex rf < i"
  shows "\<exists>e es rf'. CondInstallSnapshot rf t i snap = Some (rf', True) \<and> synced rf' \<and>
     logs rf' = \<lparr>e_Index = i, e_Term = t, e_Command = None\<rparr> # es \<and> log_ok (logs rf') \<and>
     (if i \<le> last_index (logs rf) then drop (nat (i - first_index (logs rf))) (logs rf) = e # es else es = []) \<and>
     snapshot (persister rf') = snap \<and>
     rf' = rf\<lparr>logs := logs rf', LastApplied := i, commitIndex := i, persister := persister rf'\<rparr>"
proof -
  let ?e = "\<lparr>e_Index = i, e_Term = t, e_Command = None\<rparr> :: 'a entry"
  let ?rf = "\<lambda>es. rf\<lparr>logs := ?e # es, LastApplied := i, commitIndex := i\<rparr>"
  let ?rf' = "\<lambda>es. (?rf es)\<lparr>persister := SaveStateAndSnapshot (persister rf) (encodeRaftState (?rf es)) snap\<rparr>"
  have sy: "synced (?rf' es)" for es
    by (simp add: synced_def SaveStateAndSnapshot_def encodeRaftState_def)
  show ?thesis
  proof (cases "i \<le> last_index (logs rf)")
    case True
    obtain e es where d: "drop (nat (i - first_index (logs rf))) (logs rf) = e # es"
      "e_Index e = i" "log_ok (e # es)"
      using drop_at_index [OF ok, of i] c True by (metis order_trans less_imp_le)
    have sl: "slice_from (logs rf) (i - first_index (logs rf)) = Some (e # es)"
      using d(1) c True log_ok_length [OF ok] by (simp add: slice_from_def)
    have "CondInstallSnapshot rf t i snap = Some (?rf' es, True)"
      using True c ok sl by (cases e) (simp add: CondInstallSnapshot_def logCompact_def Let_def)
    moreover have "log_ok (?e # es)" using d(3) by (rule log_ok_upd_hd) (simp add: d(2))
    ultimately show ?thesis
      using d True sy [of es] by (intro exI [of _ e] exI [of _ es] exI [of _ "?rf' es"])
        (simp add: SaveStateAndSnapshot_def)
  next
    case False
    have "CondInstallSnapshot rf t i snap = Some (?rf' [], True)"
      using False c ok by (simp add: CondInstallSnapshot_def zero_entry_def Let_def)
    moreover have "log_ok [?e]"
      using c log_ok_first_nonneg [OF ok] by (simp add: log_ok_def)
    ultimately show ?thesis
      using False sy [of "[]"] by (intro exI [of _ ?e] exI [of _ "[]"] exI [of _ "?rf' []"])
        (simp add: SaveStateAndSnapshot_def)
  qed
qed

section \<open>The applier\<close>

lemma applier_take_spec:
  assumes ok: "log_ok (logs rf)"
    and r: "first_index (logs rf) \<le> LastApplied rf + 1" "LastApplied rf \<le> commitIndex rf"
      "commitIndex rf \<le> last_index (logs rf)"
  shows "\<exists>es. applier_take rf = Some (es, commitIndex rf) \<and>
     map e_Index es = [LastApplied rf + 1..commitIndex rf] \<and>
     (\<forall>e\<in>set es. entry_at (logs rf) (e_Index e) = Some e)"
proof -
  let ?l = "logs rf" and ?f = "first_index (logs rf)"
  let ?a = "nat (LastApplied rf - ?f + 1)" and ?b = "nat (commitIndex rf - ?f + 1)"
  let ?es = "drop ?a (take ?b ?l)"
  have b: "?b \<le> length ?l" "?a \<le> ?b" using r log_ok_length [OF ok] by linarith+
  have len: "length ?es = nat (commitIndex rf - LastApplied rf)" using b r by simp
  have nth: "?es ! k = ?l ! (?a + k)" "?a + k < length ?l" if "k < length ?es" for k
    using that b by auto
  have ix: "e_Index (?es ! k) = LastApplied rf + 1 + int k" if "k < length ?es" for k
    using nth [OF that] log_ok_nth [OF ok] r(1) by simp
  have "map e_Index ?es = [LastApplied rf + 1..commitIndex rf]"
    using len ix by (intro nth_equalityI) auto
  moreover have "\<forall>e\<in>set ?es. entry_at ?l (e_Index e) = Some e"
  proof
    fix e assume "e \<in> set ?es"
    then obtain k where k: "k < length ?es" "e = ?es ! k" by (metis in_set_conv_nth)
    have "nat (LastApplied rf + 1 + int k - ?f) = ?a + k" using r(1) by linarith
    then show "entry_at ?l (e_Index e) = Some e"
      using k nth [OF k(1)] ix [OF k(1)] r(1) by (simp add: entry_at_def idx_def)
  qed
  moreover have "applier_take rf = Some (?es, commitIndex rf)"
    using ok b r by (simp add: applier_take_def slice_def)
  ultimately show ?thesis by blast
qed

end
