(* ===== verification/Raft_Node.thy ===== *)
theory Raft_Node
  imports Raft_Replication
begin

text \<open>
  What every handler of a peer keeps: the well-formedness of the peer (\<open>node_ok\<close>: the log
  is well formed, the persister holds the current state, the leader's arrays have one slot
  per peer), and the voting discipline (\<open>vote_step\<close>: the term never decreases, and within a
  term a vote once given is not changed or withdrawn). One handler breaks the discipline:
  \<open>requestVote_return\<close> on a reply of a higher term, which sets the term back to the term of
  the old election. The cluster theory shows what follows from either.
\<close>

definition node_ok :: "('c, 's) raft \<Rightarrow> bool" where
  "node_ok rf \<longleftrightarrow> log_ok (logs rf) \<and> synced rf \<and> me rf < peers rf \<and>
     length (nextIndex rf) = peers rf \<and> length (matchIndex rf) = peers rf \<and>
     first_index (logs rf) \<le> commitIndex rf"

definition vote_step :: "('c, 's) raft \<Rightarrow> ('c, 's) raft \<Rightarrow> bool" where
  "vote_step rf rf' \<longleftrightarrow> me rf' = me rf \<and> peers rf' = peers rf \<and>
     (currentTerm rf < currentTerm rf' \<or>
      currentTerm rf' = currentTerm rf \<and> (votedFor rf \<noteq> -1 \<longrightarrow> votedFor rf' = votedFor rf))"

text \<open>No step but winning an election makes a leader.\<close>

definition role_step :: "('c, 's) raft \<Rightarrow> ('c, 's) raft \<Rightarrow> bool" where
  "role_step rf rf' \<longleftrightarrow> (role rf' = LEADER \<longrightarrow> role rf = LEADER \<and> currentTerm rf' = currentTerm rf)"

definition good_step :: "('c, 's) raft \<Rightarrow> ('c, 's) raft \<Rightarrow> bool" where
  "good_step rf rf' \<longleftrightarrow> node_ok rf' \<and> vote_step rf rf' \<and> role_step rf rf'"

lemma vote_step_refl [simp]: "vote_step rf rf"
  by (simp add: vote_step_def)

lemma vote_step_trans: "vote_step rf rf' \<Longrightarrow> vote_step rf' rf'' \<Longrightarrow> vote_step rf rf''"
  by (auto simp: vote_step_def)

lemma role_step_trans: "vote_step rf rf' \<Longrightarrow> role_step rf rf' \<Longrightarrow> role_step rf' rf'' \<Longrightarrow> role_step rf rf''"
  by (auto simp: role_step_def)

lemma good_step_refl [simp]: "node_ok rf \<Longrightarrow> good_step rf rf"
  by (simp add: good_step_def role_step_def)

lemma good_step_trans: "good_step rf rf' \<Longrightarrow> good_step rf' rf'' \<Longrightarrow> good_step rf rf''"
  unfolding good_step_def using vote_step_trans role_step_trans by blast

lemma good_stepI:
  assumes "node_ok rf" and "logs rf' = logs rf" "raftstate (persister rf') = raftstate (persister rf)"
    and "currentTerm rf' = currentTerm rf" "votedFor rf' = votedFor rf"
    and "me rf' = me rf" "peers rf' = peers rf" "commitIndex rf \<le> commitIndex rf'"
    and "length (nextIndex rf') = length (nextIndex rf)" "length (matchIndex rf') = length (matchIndex rf)"
    and "role rf' = LEADER \<longrightarrow> role rf = LEADER"
  shows "good_step rf rf'"
  using assms synced_cong [of rf' rf]
  by (auto simp: good_step_def node_ok_def vote_step_def role_step_def)

section \<open>RPC arguments\<close>

fun rpc_ok :: "('c, 's) rpc \<Rightarrow> bool" where
  "rpc_ok (RequestVote_rpc args) = True"
| "rpc_ok (AppendEntries_rpc args) = ents_ok (ae_PrevLogIndex args) (ae_Entries args)"
| "rpc_ok (InstallSnapshot_rpc args) = True"

section \<open>The handlers\<close>

lemma setNewTerm_fields [simp]:
  "currentTerm (setNewTerm rf t) = t" "role (setNewTerm rf t) = FOLLOWER"
  "votedFor (setNewTerm rf t) = -1" "logs (setNewTerm rf t) = logs rf" "me (setNewTerm rf t) = me rf"
  "peers (setNewTerm rf t) = peers rf" "nextIndex (setNewTerm rf t) = nextIndex rf"
  "matchIndex (setNewTerm rf t) = matchIndex rf" "commitIndex (setNewTerm rf t) = commitIndex rf"
  "LastApplied (setNewTerm rf t) = LastApplied rf"
  by (simp_all add: setNewTerm_def persist_def)

lemma node_ok_setNewTerm [simp]: "node_ok rf \<Longrightarrow> node_ok (setNewTerm rf t)"
  by (simp add: node_ok_def)

lemma good_step_setNewTerm: "node_ok rf \<Longrightarrow> currentTerm rf < t \<Longrightarrow> good_step rf (setNewTerm rf t)"
  by (simp add: good_step_def vote_step_def role_step_def)

lemma node_ok_logs [simp]: "node_ok rf \<Longrightarrow> logs rf \<noteq> []"
  by (simp add: node_ok_def)

lemma good_step_vote:
  assumes "node_ok rf" "votedFor rf = -1 \<or> votedFor rf = c"
  shows "good_step rf (reset_electionTimer (persist (rf\<lparr>votedFor := c\<rparr>)))"
  using assms
  by (auto simp: good_step_def node_ok_def vote_step_def role_step_def reset_electionTimer_def
      persist_def SaveRaftState_def synced_def encodeRaftState_def)

lemma RequestVote_good:
  assumes ok: "node_ok rf" and r: "RequestVote rf args = Some (rf', reply)"
  shows "good_step rf rf'"
    and "rvr_VoteGranted reply \<Longrightarrow>
      currentTerm rf' = rv_Term args \<and> votedFor rf' = rv_CandidateId args \<and> rvr_Term reply = rv_Term args \<and>
      (currentTerm rf < rv_Term args \<or>
       currentTerm rf = rv_Term args \<and> (votedFor rf = -1 \<or> votedFor rf = rv_CandidateId args))"
proof -
  let ?rf = "if rv_Term args > currentTerm rf then setNewTerm rf (rv_Term args) else rf"
  have s: "good_step rf ?rf" using ok by (simp add: good_step_setNewTerm)
  then have ok': "node_ok ?rf" by (simp add: good_step_def)
  then have "logs ?rf \<noteq> []" by (rule node_ok_logs)
  with r have cases: "(rf' = rf \<and> \<not> rvr_VoteGranted reply) \<or> (rf' = ?rf \<and> \<not> rvr_VoteGranted reply) \<or>
     (rf' = reset_electionTimer (persist (?rf\<lparr>votedFor := rv_CandidateId args\<rparr>)) \<and>
      reply = \<lparr>rvr_Term = currentTerm ?rf, rvr_VoteGranted = True\<rparr> \<and>
      (votedFor ?rf = -1 \<or> votedFor ?rf = rv_CandidateId args) \<and> rv_Term args \<ge> currentTerm rf)"
    unfolding RequestVote_def Let_def
    by (auto split: if_splits simp: reset_electionTimer_def persist_def)
  then show "good_step rf rf'"
    using s good_step_trans [OF s good_step_vote [OF ok']] ok by auto
  show "rvr_VoteGranted reply \<Longrightarrow>
      currentTerm rf' = rv_Term args \<and> votedFor rf' = rv_CandidateId args \<and> rvr_Term reply = rv_Term args \<and>
      (currentTerm rf < rv_Term args \<or>
       currentTerm rf = rv_Term args \<and> (votedFor rf = -1 \<or> votedFor rf = rv_CandidateId args))"
    using cases by (auto simp: reset_electionTimer_def persist_def split: if_splits)
qed

lemma good_step_heard_leader: "node_ok rf \<Longrightarrow> good_step rf (heard_leader rf)"
  by (rule good_stepI) simp_all

lemma good_step_log_update:
  assumes "node_ok rf" "log_update rf rf'" "log_ok (logs rf')" "first_index (logs rf') \<le> commitIndex rf"
  shows "good_step rf rf'"
  using assms log_update_fields [OF assms(2)]
  by (auto simp: good_step_def node_ok_def vote_step_def role_step_def log_update_def)

lemma AppendEntries_good:
  assumes ok: "node_ok rf" and es: "ents_ok (ae_PrevLogIndex args) (ae_Entries args)"
    and r: "AppendEntries rf args = Some (rf', reply)"
  shows "good_step rf rf'"
proof (cases "ae_Term args = currentTerm rf \<and> prev_matches (logs rf) args")
  case False
  have lo: "log_ok (logs rf)" using ok by (simp add: node_ok_def)
  have "rf' = (if ae_Term args < currentTerm rf then rf
            else if ae_Term args > currentTerm rf then setNewTerm rf (ae_Term args)
            else heard_leader rf)"
    using AppendEntries_reject [OF lo, of args] False r by auto
  then show ?thesis using ok by (auto simp: good_step_setNewTerm good_step_heard_leader)
next
  case True
  have lo: "log_ok (logs rf)" using ok by (simp add: node_ok_def)
  obtain rf1 where rf1: "log_update (heard_leader rf) rf1" "logs rf1 = merged (logs rf) args"
    "rf' = (if ae_LeaderCommit args > commitIndex rf
            then apply_signal (rf1\<lparr>commitIndex := commit_after args (commitIndex rf) (logs rf1)\<rparr>)
            else rf1)"
    using AppendEntries_success [OF lo es] True r by fastforce
  have m: "log_ok (logs rf1)" "first_index (logs rf1) = first_index (logs rf)"
    using log_ok_merged [OF lo _ es] first_index_merged [OF lo] True rf1(2) by simp_all
  have 1: "good_step rf (heard_leader rf)" using ok by (rule good_step_heard_leader)
  have 2: "good_step (heard_leader rf) rf1"
    using rf1(1) m ok 1 by (intro good_step_log_update) (auto simp: good_step_def node_ok_def)
  then have ok1: "node_ok rf1" by (simp add: good_step_def)
  have "first_index (logs rf) \<le> commit_after args (commitIndex rf) (logs rf1)"
    using first_le_last [OF m(1)] m(2) ok by (auto simp: commit_after_def node_ok_def min_def)
  then have "good_step rf1 rf'"
    using ok1 m(2) synced_cong [of "apply_signal (rf1\<lparr>commitIndex := c\<rparr>)" rf1 for c] rf1(3)
    by (auto simp: good_step_def node_ok_def vote_step_def role_step_def apply_signal_def)
  with 1 2 show ?thesis by (meson good_step_trans)
qed

lemma InstallSnapshot_good:
  assumes ok: "node_ok rf" and r: "InstallSnapshot rf args = (rf', reply, msg)"
  shows "good_step rf rf'"
proof -
  let ?rf = "if is_Term args > currentTerm rf then setNewTerm rf (is_Term args) else rf"
  have 1: "good_step rf ?rf" using ok by (simp add: good_step_setNewTerm)
  then have "node_ok ?rf" by (simp add: good_step_def)
  then have 2: "good_step ?rf (reset_electionTimer ?rf)"
    by (rule good_stepI) (simp_all add: reset_electionTimer_def)
  from r have "rf' = rf \<or> rf' = reset_electionTimer ?rf"
    unfolding InstallSnapshot_def Let_def by (auto split: if_splits)
  with ok good_step_trans [OF 1 2] show ?thesis by auto
qed

lemma commit_loop_good:
  assumes "node_ok rf" "commit_loop rf (commitIndex rf + 1) = Some rf'"
  shows "good_step rf rf'"
proof -
  have "scan_result rf (commitIndex rf + 1) rf'"
    using commit_loop_spec [of rf "commitIndex rf + 1"] assms by (auto simp: node_ok_def)
  then consider "rf' = rf" | "commitIndex rf \<le> commitIndex rf'"
    "rf' = apply_signal (rf\<lparr>commitIndex := commitIndex rf'\<rparr>)"
    by (auto simp: scan_result_def)
  then show ?thesis
  proof cases
    case 2
    have "good_step rf (apply_signal (rf\<lparr>commitIndex := commitIndex rf'\<rparr>))"
      using assms(1) 2(1) by (intro good_stepI) (simp_all add: apply_signal_def)
    with 2(2) show ?thesis by simp
  qed (use assms(1) in simp)
qed

lemma leaderCommitLog_good:
  "node_ok rf \<Longrightarrow> leaderCommitLog rf = Some rf' \<Longrightarrow> good_step rf rf'"
  by (auto simp: leaderCommitLog_def commit_loop_good split: if_splits)

lemma good_step_arrays:
  assumes "node_ok rf" "length ns = peers rf" "length ms = peers rf"
  shows "good_step rf (rf\<lparr>nextIndex := ns, matchIndex := ms\<rparr>)" "good_step rf (rf\<lparr>nextIndex := ns\<rparr>)"
  using assms by (auto intro!: good_stepI simp: node_ok_def)

lemma store_length: "store xs i v = Some ys \<Longrightarrow> length ys = length xs"
  by (auto simp: store_def split: if_splits)

lemma update_indices_cases:
  assumes "update_indices rf serverId args reply = Some rf'"
  shows "rf' = rf\<lparr>nextIndex := nextIndex rf', matchIndex := matchIndex rf'\<rparr> \<and>
    length (nextIndex rf') = length (nextIndex rf) \<and> length (matchIndex rf') = length (matchIndex rf)"
  using assms unfolding update_indices_def Let_def
  by (auto split: Option.bind_splits if_splits dest!: store_length)

lemma update_indices_good:
  assumes "node_ok rf" "update_indices rf serverId args reply = Some rf'"
  shows "good_step rf rf'"
proof -
  note c = update_indices_cases [OF assms(2)]
  have "good_step rf (rf\<lparr>nextIndex := nextIndex rf', matchIndex := matchIndex rf'\<rparr>)"
    using assms(1) c [THEN conjunct2] by (intro good_step_arrays) (auto simp: node_ok_def)
  then show ?thesis by (simp only: c [THEN conjunct1, symmetric])
qed

lemma appendEntry_return_good:
  assumes ok: "node_ok rf" and r: "appendEntry_return rf serverId args res = Some rf'"
  shows "good_step rf rf'"
proof (cases res)
  case None
  with r ok show ?thesis by (simp add: appendEntry_return_def)
next
  case (Some reply)
  show ?thesis
  proof (cases "aer_Term reply \<le> currentTerm rf \<and> ae_Term args = currentTerm rf")
    case True
    with r Some obtain rf1 where rf1: "update_indices rf serverId args reply = Some rf1"
      "leaderCommitLog rf1 = Some rf'"
      by (auto simp: appendEntry_return_def bind_Some_iff)
    have 1: "good_step rf rf1" using ok rf1(1) by (rule update_indices_good)
    then have "node_ok rf1" by (simp add: good_step_def)
    then have "good_step rf1 rf'" using rf1(2) by (rule leaderCommitLog_good)
    with 1 show ?thesis by (rule good_step_trans)
  next
    case False
    with r Some ok show ?thesis
      by (auto simp: appendEntry_return_def good_step_setNewTerm split: if_splits)
  qed
qed

lemma installSnapshot_return_good:
  assumes ok: "node_ok rf" and r: "installSnapshot_return rf serverId args res = Some rf'"
  shows "good_step rf rf'"
proof (cases res)
  case None
  with r ok show ?thesis by (simp add: installSnapshot_return_def)
next
  case (Some reply)
  let ?rf = "if isr_Term reply > currentTerm rf then setNewTerm rf (isr_Term reply) else rf"
  have 1: "good_step rf ?rf" using ok by (simp add: good_step_setNewTerm)
  then have ok1: "node_ok ?rf" by (simp add: good_step_def)
  from r Some obtain ns ms where st: "store (nextIndex ?rf) (int serverId) (is_LastIncludedIndex args + 1) = Some ns"
      "store (matchIndex ?rf) (int serverId) (is_LastIncludedIndex args) = Some ms"
      "rf' = ?rf\<lparr>nextIndex := ns, matchIndex := ms\<rparr>"
    unfolding installSnapshot_return_def Let_def by (auto simp: bind_Some_iff)
  have "length ns = peers ?rf" "length ms = peers ?rf"
    using st(1,2) [THEN store_length] ok1 by (auto simp: node_ok_def)
  with ok1 have "good_step ?rf rf'" unfolding st(3) by (rule good_step_arrays(1))
  with 1 show ?thesis by (rule good_step_trans)
qed

section \<open>Requests a peer sends\<close>

fun rpc_term :: "('c, 's) rpc \<Rightarrow> int" where
  "rpc_term (RequestVote_rpc args) = rv_Term args"
| "rpc_term (AppendEntries_rpc args) = ae_Term args"
| "rpc_term (InstallSnapshot_rpc args) = is_Term args"

fun is_vote :: "('c, 's) rpc \<Rightarrow> bool" where
  "is_vote (RequestVote_rpc args) = True"
| "is_vote _ = False"

text \<open>Replication requests: to another peer, well formed, of the sender's term.\<close>

definition sends :: "('c, 's) raft \<Rightarrow> (nat \<times> ('c, 's) rpc) list \<Rightarrow> bool" where
  "sends rf out \<longleftrightarrow> (\<forall>(p, req)\<in>set out. p < peers rf \<and> p \<noteq> me rf \<and> rpc_ok req \<and>
     \<not> is_vote req \<and> rpc_term req = currentTerm rf)"

lemma sends_Nil [simp]: "sends rf []"
  by (simp add: sends_def)

lemma appendEntries_to_ok:
  assumes ok: "log_ok (logs rf)" and r: "appendEntries_to rf p = Some req"
  shows "rpc_ok req \<and> \<not> is_vote req \<and> rpc_term req = currentTerm rf"
proof -
  let ?f = "first_index (logs rf)"
  from r ok obtain nx where n: "idx (nextIndex rf) (int p) = Some nx"
    by (auto simp: appendEntries_to_def bind_Some_iff)
  show ?thesis
  proof (cases "nx - 1 < ?f")
    case True
    with r n ok show ?thesis by (auto simp: appendEntries_to_def Let_def)
  next
    case False
    with r n ok obtain prev es where p: "idx (logs rf) (nx - 1 - ?f) = Some prev"
      "slice_from (logs rf) (nx - 1 - ?f + 1) = Some es"
      "req = AppendEntries_rpc \<lparr>ae_Term = currentTerm rf, ae_LeaderId = int (me rf),
          ae_PrevLogIndex = e_Index prev, ae_PrevLogTerm = e_Term prev,
          ae_Entries = es, ae_LeaderCommit = commitIndex rf\<rparr>"
      by (auto simp: appendEntries_to_def Let_def bind_Some_iff)
    let ?k = "nat (nx - ?f)"
    have k: "?k \<le> length (logs rf)" "es = drop ?k (logs rf)" using p(2) False
      by (auto simp: slice_from_def split: if_splits)
    have pr: "e_Index prev = nx - 1"
      using p(1) entry_at_index [OF ok, of "nx - 1" prev] by (simp add: entry_at_def)
    have "ents_ok (nx - 1) es"
    proof (cases "?k = 0")
      case True
      with False p(1) show ?thesis by (auto simp: idx_def split: if_splits)
    next
      case nz: False
      then have "ents_ok (?f + int ?k - 1) es" unfolding k(2) using ok k(1) by (intro ents_ok_drop) auto
      with nz show ?thesis by simp
    qed
    with p(3) pr show ?thesis by simp
  qed
qed

lemma appendEntries_loop_facts:
  assumes "appendEntries_loop hb l rf ps = Some (rf', out)" "log_ok (logs rf)" "set ps \<subseteq> {..<peers rf}"
  shows "rf' = rf\<lparr>electionTimer := electionTimer rf'\<rparr> \<and> sends rf out"
  using assms
proof (induction ps arbitrary: rf out)
  case Nil
  then show ?case by simp
next
  case (Cons p ps)
  show ?case
  proof (cases "p = me rf")
    case True
    with Cons.prems Cons.IH [of "reset_electionTimer rf" out] show ?thesis
      by (auto simp: reset_electionTimer_def sends_def)
  next
    case False
    with Cons.prems(1) obtain nx where n: "idx (nextIndex rf) (int p) = Some nx"
      by (auto simp: bind_Some_iff)
    show ?thesis
    proof (cases "hb \<or> e_Index l \<ge> nx")
      case True
      with Cons.prems(1) False n obtain req out' where o: "appendEntries_to rf p = Some req"
        "appendEntries_loop hb l rf ps = Some (rf', out')" "out = (p, req) # out'"
        by (auto simp: bind_Some_iff)
      with Cons.IH [OF o(2)] Cons.prems False appendEntries_to_ok [OF Cons.prems(2) o(1)]
      show ?thesis by (auto simp: sends_def)
    next
      case skip: False
      with Cons.prems Cons.IH [of rf out] False n show ?thesis by simp
    qed
  qed
qed

lemma appendEntries_facts:
  assumes "appendEntries rf hb = Some (rf', out)" "log_ok (logs rf)"
  shows "rf' = rf\<lparr>electionTimer := electionTimer rf'\<rparr> \<and> sends rf out"
  using assms by (intro appendEntries_loop_facts) (auto simp: appendEntries_def bind_Some_iff)

lemma good_step_timers: "node_ok rf \<Longrightarrow> good_step rf (rf\<lparr>electionTimer := a, heartbeatTimer := b\<rparr>)"
  by (rule good_stepI) simp_all

lemma appendEntries_good:
  assumes "appendEntries rf hb = Some (rf', out)" "node_ok rf"
  shows "good_step rf rf'" "sends rf out" "currentTerm rf' = currentTerm rf" "role rf' = role rf"
proof -
  have f: "rf' = rf\<lparr>electionTimer := electionTimer rf'\<rparr>" "sends rf out"
    using appendEntries_facts [OF assms(1)] assms(2) by (auto simp: node_ok_def)
  show "sends rf out" by (fact f(2))
  have "good_step rf (rf\<lparr>electionTimer := electionTimer rf'\<rparr>)"
    using assms(2) by (intro good_stepI) simp_all
  then show "good_step rf rf'" by (simp only: f(1) [symmetric])
  show "currentTerm rf' = currentTerm rf" by (subst f(1)) simp
  show "role rf' = role rf" by (subst f(1)) simp
qed

lemma ticker_heartbeat_good:
  assumes "ticker_heartbeat rf = Some (rf', out)" "node_ok rf"
  shows "good_step rf rf'" "sends rf out"
proof -
  have "good_step rf rf' \<and> sends rf out"
  proof (cases "role rf = LEADER")
    case True
    with assms(1) obtain rf1 where rf1: "appendEntries rf True = Some (rf1, out)"
      "rf' = reset_heartbeatTimer rf1"
      by (auto simp: ticker_heartbeat_def bind_Some_iff)
    note g = appendEntries_good [OF rf1(1) assms(2)]
    then have "node_ok rf1" by (simp add: good_step_def)
    then have "good_step rf1 (reset_heartbeatTimer rf1)"
      by (rule good_stepI) (simp_all add: reset_heartbeatTimer_def)
    with g rf1(2) show ?thesis by (auto intro: good_step_trans)
  qed (use assms in \<open>simp add: ticker_heartbeat_def\<close>)
  then show "good_step rf rf'" "sends rf out" by auto
qed

lemma Start_good:
  assumes "Start rf c = Some (rf', res, out)" "node_ok rf"
  shows "good_step rf rf'" "sends rf out"
proof -
  have "good_step rf rf' \<and> sends rf out"
  proof (cases "role rf = LEADER")
    case True
    let ?e = "\<lparr>e_Index = last_index (logs rf) + 1, e_Term = currentTerm rf, e_Command = Some c\<rparr>"
    let ?rf = "persist (rf\<lparr>logs := logs rf @ [?e]\<rparr>)"
    have ap: "appendEntries ?rf False = Some (rf', out)"
      using assms True by (auto simp: Start_def Let_def bind_Some_iff)
    have lo: "log_ok (logs rf)" using assms(2) by (simp add: node_ok_def)
    have "log_ok (logs rf @ [?e])" using lo by (rule log_ok_append) (simp add: ents_ok_def)
    then have 1: "good_step rf ?rf"
      using assms(2) log_update_persist [of rf "logs rf @ [?e]"]
      by (intro good_step_log_update) (auto simp: persist_def node_ok_def)
    then have "node_ok ?rf" by (simp add: good_step_def)
    note g = appendEntries_good [OF ap this]
    have "sends rf out" using g(2) by (simp add: sends_def persist_def)
    with 1 g(1) show ?thesis by (auto intro: good_step_trans)
  qed (use assms in \<open>simp add: Start_def\<close>)
  then show "good_step rf rf'" "sends rf out" by auto
qed

section \<open>Elections\<close>

definition vote_args :: "('c, 's) raft \<Rightarrow> RequestVoteArgs" where
  "vote_args rf = \<lparr>rv_Term = currentTerm rf + 1, rv_CandidateId = int (me rf),
     rv_LastLogIndex = last_index (logs rf), rv_LastLogTerm = e_Term (last (logs rf))\<rparr>"

lemma ticker_election_eq:
  assumes "node_ok rf"
  shows "\<exists>rf'. ticker_election rf = Some (rf',
      \<lparr>el_args = vote_args rf, grantedVote = 1, becomeLeader = False\<rparr>,
      map (\<lambda>p. (p, RequestVote_rpc (vote_args rf))) (filter (\<lambda>p. p \<noteq> me rf) [0..<peers rf])) \<and>
    good_step rf rf' \<and> currentTerm rf' = currentTerm rf + 1 \<and> votedFor rf' = int (me rf) \<and>
    role rf' = CANDIDATE \<and> logs rf' = logs rf"
proof -
  let ?rf = "rf\<lparr>role := CANDIDATE, currentTerm := currentTerm rf + 1, votedFor := int (me rf)\<rparr>"
  let ?rf' = "reset_electionTimer (persist ?rf)"
  have "ticker_election rf = Some (?rf',
      \<lparr>el_args = vote_args rf, grantedVote = 1, becomeLeader = False\<rparr>,
      map (\<lambda>p. (p, RequestVote_rpc (vote_args rf))) (filter (\<lambda>p. p \<noteq> me rf) [0..<peers rf]))"
    using node_ok_logs [OF assms]
    by (simp add: ticker_election_def StartElection_def Let_def vote_args_def persist_def)
  moreover have "synced ?rf'"
    using synced_persist [of ?rf] synced_cong [of ?rf' "persist ?rf"]
    by (simp add: reset_electionTimer_def)
  then have "good_step rf ?rf'"
    using assms
    by (simp add: good_step_def node_ok_def vote_step_def role_step_def reset_electionTimer_def persist_def)
  ultimately show ?thesis
    by (intro exI [of _ ?rf']) (simp add: reset_electionTimer_def persist_def)
qed

lemma become_leader_good:
  assumes "become_leader rf = Some (rf', out)" "node_ok rf"
  shows "node_ok rf'" "vote_step rf rf'" "currentTerm rf' = currentTerm rf" "sends rf out"
    "role rf' = LEADER"
proof -
  let ?rf = "rf\<lparr>role := LEADER, nextIndex := map (\<lambda>_. last_index (logs rf) + 1) [0..<peers rf],
                 matchIndex := map (\<lambda>_. 0) [0..<peers rf]\<rparr>"
  obtain rf1 where rf1: "appendEntries ?rf True = Some (rf1, out)" "rf' = reset_heartbeatTimer rf1"
    using assms by (auto simp: become_leader_def Let_def bind_Some_iff)
  have ok: "node_ok ?rf"
    using assms(2) synced_cong [of ?rf rf] by (auto simp: node_ok_def)
  note g = appendEntries_good [OF rf1(1) ok]
  from g(1) have ok1: "node_ok rf1" by (simp add: good_step_def)
  have 2: "good_step rf1 (reset_heartbeatTimer rf1)"
    using ok1 by (rule good_stepI) (simp_all add: reset_heartbeatTimer_def)
  with rf1(2) show "node_ok rf'" by (simp add: good_step_def)
  from g(1) 2 rf1(2) have "vote_step ?rf rf'" unfolding good_step_def by (metis vote_step_trans)
  then show "vote_step rf rf'" by (simp add: vote_step_def)
  show "currentTerm rf' = currentTerm rf" "role rf' = LEADER"
    using g(3,4) rf1(2) by (simp_all add: reset_heartbeatTimer_def)
  show "sends rf out" using g(2) by (simp add: sends_def)
qed

text \<open>Does this reply send the peer back to the term of an old election?\<close>

definition stale_reply :: "election \<Rightarrow> RequestVoteReply \<Rightarrow> bool" where
  "stale_reply el reply \<longleftrightarrow> rvr_Term reply > rv_Term (el_args el)"

definition counts :: "election \<Rightarrow> RequestVoteReply \<Rightarrow> bool" where
  "counts el reply \<longleftrightarrow> rvr_Term reply = rv_Term (el_args el) \<and> rvr_VoteGranted reply"

lemma requestVote_return_good:
  assumes r: "requestVote_return rf el (Some reply) = Some (rf', el', out)" and ok: "node_ok rf"
    and ns: "\<not> stale_reply el reply"
  shows "node_ok rf'" "vote_step rf rf'" "sends rf out" "el_args el' = el_args el"
    "grantedVote el' = grantedVote el + (if counts el reply then 1 else 0)"
    "role rf' = LEADER \<Longrightarrow> role_step rf rf' \<or>
       (currentTerm rf' = rv_Term (el_args el) \<and> grantedVote el' > peers rf div 2 \<and> counts el reply)"
proof -
  let ?el = "el\<lparr>grantedVote := grantedVote el + 1\<rparr>"
  let ?win = "grantedVote el + 1 > peers rf div 2 \<and> currentTerm rf = rv_Term (el_args el) \<and>
                    role rf = CANDIDATE \<and> \<not> becomeLeader el"
  consider (no) "\<not> counts el reply" "rf' = rf" "el' = el" "out = []"
    | (vote) "counts el reply" "\<not> ?win" "rf' = rf" "el' = ?el" "out = []"
    | (win) "counts el reply" ?win "become_leader rf = Some (rf', out)" "el' = ?el\<lparr>becomeLeader := True\<rparr>"
    using r ns unfolding requestVote_return_def stale_reply_def counts_def Let_def
    by (fastforce simp: bind_Some_iff split: if_splits)
  then have "node_ok rf' \<and> vote_step rf rf' \<and> sends rf out \<and> el_args el' = el_args el \<and>
    grantedVote el' = grantedVote el + (if counts el reply then 1 else 0) \<and>
    (role rf' = LEADER \<longrightarrow> role_step rf rf' \<or>
       (currentTerm rf' = rv_Term (el_args el) \<and> grantedVote el' > peers rf div 2 \<and> counts el reply))"
  proof cases
    case win
    with become_leader_good [OF win(3) ok] show ?thesis by simp
  qed (use ok in \<open>auto simp: role_step_def\<close>)
  then show "node_ok rf'" "vote_step rf rf'" "sends rf out" "el_args el' = el_args el"
    "grantedVote el' = grantedVote el + (if counts el reply then 1 else 0)"
    "role rf' = LEADER \<Longrightarrow> role_step rf rf' \<or>
       (currentTerm rf' = rv_Term (el_args el) \<and> grantedVote el' > peers rf div 2 \<and> counts el reply)"
    by auto
qed

section \<open>Snapshots and restart\<close>

lemma Snapshot_good:
  assumes ok: "node_ok rf" and i: "index \<le> commitIndex rf" "index \<le> last_index (logs rf)"
    and r: "Snapshot rf index snap = Some rf'"
  shows "good_step rf rf'"
proof (cases "index \<le> first_index (logs rf)")
  case True
  with r ok show ?thesis by (simp add: Snapshot_def Let_def)
next
  case False
  have lo: "log_ok (logs rf)" using ok by (simp add: node_ok_def)
  from Snapshot_spec [OF lo, of index snap] False i(2) r obtain e es where
    s: "synced rf'" "log_ok (logs rf')" "logs rf' = e\<lparr>e_Command := None\<rparr> # es"
       "entry_at (logs rf) index = Some e"
       "rf' = rf\<lparr>logs := logs rf', persister := persister rf'\<rparr>" by auto
  have "e_Index e = index" using lo s(4) by (rule entry_at_index)
  then have fi: "first_index (logs rf') = index" by (simp add: s(3))
  define l where "l = logs rf'"
  define p where "p = persister rf'"
  have "rf' = rf\<lparr>logs := l, persister := p\<rparr>" using s(5) by (simp add: l_def p_def)
  with s(1,2) fi i(1) ok show ?thesis
    by (simp add: good_step_def node_ok_def vote_step_def role_step_def)
qed

lemma CondInstallSnapshot_good:
  assumes ok: "node_ok rf" and r: "CondInstallSnapshot rf t i snap = Some (rf', b)"
  shows "good_step rf rf'"
proof (cases "i \<le> commitIndex rf")
  case True
  with r ok show ?thesis by (simp add: CondInstallSnapshot_def)
next
  case False
  have lo: "log_ok (logs rf)" "first_index (logs rf) \<le> commitIndex rf" using ok by (auto simp: node_ok_def)
  from CondInstallSnapshot_spec [OF lo, of i t snap] False r obtain es where
    s: "synced rf'" "log_ok (logs rf')" "logs rf' = \<lparr>e_Index = i, e_Term = t, e_Command = None\<rparr> # es"
       "rf' = rf\<lparr>logs := logs rf', LastApplied := i, commitIndex := i, persister := persister rf'\<rparr>"
    by auto
  define l where "l = logs rf'"
  define p where "p = persister rf'"
  have "rf' = rf\<lparr>logs := l, LastApplied := i, commitIndex := i, persister := p\<rparr>"
    using s(4) by (simp add: l_def p_def)
  with s(1-3) ok show ?thesis
    by (simp add: good_step_def node_ok_def vote_step_def role_step_def)
qed

text \<open>A restarted peer has the term, the vote and the log it had when it stopped.\<close>

lemma Make_restores:
  assumes "synced rf" "logs rf \<noteq> []"
  shows "\<exists>rf'. Make n self (persister rf) = Some rf' \<and> currentTerm rf' = currentTerm rf \<and>
    votedFor rf' = votedFor rf \<and> logs rf' = logs rf \<and> role rf' = FOLLOWER \<and> me rf' = self \<and>
    peers rf' = n \<and> persister rf' = persister rf \<and> length (nextIndex rf') = n \<and>
    length (matchIndex rf') = n \<and> commitIndex rf' = first_index (logs rf) \<and>
    LastApplied rf' = first_index (logs rf)"
  using assms
  by (auto simp: synced_def Make_def readPersist_def ReadRaftState_def encodeRaftState_def Let_def
      zero_entry_def)

lemma Make_good:
  assumes ok: "node_ok rf" and r: "Make (peers rf) (me rf) (persister rf) = Some rf'"
  shows "good_step rf rf'"
proof -
  from Make_restores [of rf "peers rf" "me rf"] ok r have
    m: "currentTerm rf' = currentTerm rf" "votedFor rf' = votedFor rf" "logs rf' = logs rf"
      "role rf' = FOLLOWER" "me rf' = me rf" "peers rf' = peers rf" "persister rf' = persister rf"
      "length (nextIndex rf') = peers rf" "length (matchIndex rf') = peers rf"
      "commitIndex rf' = first_index (logs rf)"
    by (auto simp: node_ok_def)
  then have "synced rf' = synced rf" by (intro synced_cong) simp_all
  with m ok show ?thesis by (simp add: good_step_def node_ok_def vote_step_def role_step_def)
qed

lemma applier_done_good: "node_ok rf \<Longrightarrow> good_step rf (applier_done rf c)"
  by (rule good_stepI) (simp_all add: applier_done_def)

end
