(* ===== verification/Raft_Cluster.thy ===== *)
theory Raft_Cluster
  imports Raft_Node
begin

text \<open>
  The peers together: a cluster of \<open>n\<close> Raft peers whose goroutines talk through RPCs that the
  network (labrpc) may delay, reorder or lose, and which may be stopped and restarted from
  their persisters. One action is one critical section of the code: a timer branch of the
  ticker, a handler run for a delivered request, what a goroutine does with a returned
  call, a call of the service into Raft, a step of the applier. The RPC calls are a heap
  that only grows; each call is delivered to its peer at most once and returns at most once,
  as \<open>ClientEnd.Call\<close> does. A peer's \<open>epoch\<close> counts its incarnations: a call made by an
  earlier incarnation no longer reaches the peer's state.
\<close>

section \<open>States\<close>

datatype rpc_reply =
    RequestVote_reply RequestVoteReply
  | AppendEntries_reply AppendEntriesReply
  | InstallSnapshot_reply InstallSnapshotReply

text \<open>
  A call is pending until the peer's handler has run, then its reply is on the way; at the
  end it has returned with that reply, or it is lost (\<open>Call\<close> returned false), before or
  after the handler ran.
\<close>

datatype status =
    Pending
  | Replied rpc_reply
  | Returned rpc_reply
  | Lost "rpc_reply option"

record ('c, 's) call =
  c_caller :: nat
  c_epoch :: nat
  c_election :: nat
  c_peer :: nat
  c_req :: "('c, 's) rpc"
  c_status :: status

record ('c, 's) node =
  rft :: "('c, 's) raft"
  epoch :: nat
  elections :: "election list"
  sending :: "('c entry list \<times> int) option"
  delivered :: "('c, 's) ApplyMsg list"
  snapshots :: "('c, 's) ApplyMsg list"

record ('c, 's) cluster =
  nodes :: "('c, 's) node list"
  calls :: "('c, 's) call list"

datatype ('c, 's) action =
    ElectionTimeout nat
  | HeartbeatTimeout nat
  | Deliver nat
  | Return nat
  | Lose nat
  | ClientStart nat 'c
  | TakeSnapshot nat int "'s list"
  | InstallSnap nat nat
  | ApplyTake nat
  | ApplyDone nat
  | Restart nat

definition init_node :: "nat \<Rightarrow> nat \<Rightarrow> ('c, 's) node" where
  "init_node n p =
     \<lparr>rft = the (Make n p MakePersister), epoch = 0, elections = [], sending = None,
      delivered = [], snapshots = []\<rparr>"

definition init_cluster :: "nat \<Rightarrow> ('c, 's) cluster" where
  "init_cluster n = \<lparr>nodes = map (init_node n) [0..<n], calls = []\<rparr>"

section \<open>Actions\<close>

definition set_node :: "('c, 's) cluster \<Rightarrow> nat \<Rightarrow> ('c, 's) node \<Rightarrow> ('c, 's) cluster" where
  "set_node s p nd = s\<lparr>nodes := (nodes s)[p := nd]\<rparr>"

definition set_rft :: "('c, 's) cluster \<Rightarrow> nat \<Rightarrow> ('c, 's) raft \<Rightarrow> ('c, 's) cluster" where
  "set_rft s p rf = set_node s p ((nodes s ! p)\<lparr>rft := rf\<rparr>)"

definition set_status :: "('c, 's) cluster \<Rightarrow> nat \<Rightarrow> status \<Rightarrow> ('c, 's) cluster" where
  "set_status s i st = s\<lparr>calls := (calls s)[i := (calls s ! i)\<lparr>c_status := st\<rparr>]\<rparr>"

text \<open>The goroutines that a handler of peer \<open>p\<close> starts, one call each.\<close>

definition send ::
  "('c, 's) cluster \<Rightarrow> nat \<Rightarrow> nat \<Rightarrow> (nat \<times> ('c, 's) rpc) list \<Rightarrow> ('c, 's) cluster" where
  "send s p e out = s\<lparr>calls := calls s @
     map (\<lambda>(q, req). \<lparr>c_caller = p, c_epoch = epoch (nodes s ! p), c_election = e, c_peer = q,
                      c_req = req, c_status = Pending\<rparr>) out\<rparr>"

definition do_election :: "('c, 's) cluster \<Rightarrow> nat \<Rightarrow> ('c, 's) cluster outcome" where
  "do_election s p =
     (let nd = nodes s ! p in
      from_option (ticker_election (rft nd)) (\<lambda>(rf, el, out).
        send (set_node s p (nd\<lparr>rft := rf, elections := elections nd @ [el]\<rparr>)) p
          (length (elections nd)) out))"

definition do_heartbeat :: "('c, 's) cluster \<Rightarrow> nat \<Rightarrow> ('c, 's) cluster outcome" where
  "do_heartbeat s p =
     from_option (ticker_heartbeat (rft (nodes s ! p))) (\<lambda>(rf, out). send (set_rft s p rf) p 0 out)"

definition do_deliver :: "('c, 's) cluster \<Rightarrow> nat \<Rightarrow> ('c, 's) cluster outcome" where
  "do_deliver s i =
     (let c = calls s ! i; p = c_peer c; nd = nodes s ! p in
      case c_status c of
        Pending \<Rightarrow>
          (case c_req c of
             RequestVote_rpc args \<Rightarrow>
               from_option (RequestVote (rft nd) args) (\<lambda>(rf, reply).
                 set_status (set_rft s p rf) i (Replied (RequestVote_reply reply)))
           | AppendEntries_rpc args \<Rightarrow>
               from_option (AppendEntries (rft nd) args) (\<lambda>(rf, reply).
                 set_status (set_rft s p rf) i (Replied (AppendEntries_reply reply)))
           | InstallSnapshot_rpc args \<Rightarrow>
               (case InstallSnapshot (rft nd) args of (rf, reply, msg) \<Rightarrow>
                 Next (set_status
                   (set_node s p (nd\<lparr>rft := rf,
                      snapshots := snapshots nd @ (case msg of None \<Rightarrow> [] | Some m \<Rightarrow> [m])\<rparr>))
                   i (Replied (InstallSnapshot_reply reply)))))
      | _ \<Rightarrow> Disabled)"

definition do_return :: "('c, 's) cluster \<Rightarrow> nat \<Rightarrow> ('c, 's) cluster outcome" where
  "do_return s i =
     (let c = calls s ! i; p = c_caller c; nd = nodes s ! p; e = c_election c in
      case c_status c of
        Replied r \<Rightarrow>
          (if c_epoch c \<noteq> epoch nd then Next (set_status s i (Lost (Some r)))
           else
             (case (c_req c, r) of
                (RequestVote_rpc args, RequestVote_reply reply) \<Rightarrow>
                  from_option (requestVote_return (rft nd) (elections nd ! e) (Some reply))
                    (\<lambda>(rf, el, out).
                      send (set_status (set_node s p
                          (nd\<lparr>rft := rf, elections := (elections nd)[e := el]\<rparr>)) i (Returned r)) p 0 out)
              | (AppendEntries_rpc args, AppendEntries_reply reply) \<Rightarrow>
                  from_option (appendEntry_return (rft nd) (c_peer c) args (Some reply))
                    (\<lambda>rf. set_status (set_rft s p rf) i (Returned r))
              | (InstallSnapshot_rpc args, InstallSnapshot_reply reply) \<Rightarrow>
                  from_option (installSnapshot_return (rft nd) (c_peer c) args (Some reply))
                    (\<lambda>rf. set_status (set_rft s p rf) i (Returned r))
              | _ \<Rightarrow> Disabled))
      | _ \<Rightarrow> Disabled)"

definition do_lose :: "('c, 's) cluster \<Rightarrow> nat \<Rightarrow> ('c, 's) cluster outcome" where
  "do_lose s i =
     (case c_status (calls s ! i) of
        Pending \<Rightarrow> Next (set_status s i (Lost None))
      | Replied r \<Rightarrow> Next (set_status s i (Lost (Some r)))
      | _ \<Rightarrow> Disabled)"

definition do_start :: "('c, 's) cluster \<Rightarrow> nat \<Rightarrow> 'c \<Rightarrow> ('c, 's) cluster outcome" where
  "do_start s p c =
     from_option (Start (rft (nodes s ! p)) c) (\<lambda>(rf, res, out). send (set_rft s p rf) p 0 out)"

text \<open>The service snapshots only what Raft has delivered to it, so no further than the commit index.\<close>

definition do_snapshot :: "('c, 's) cluster \<Rightarrow> nat \<Rightarrow> int \<Rightarrow> 's list \<Rightarrow> ('c, 's) cluster outcome" where
  "do_snapshot s p index snap =
     (let rf = rft (nodes s ! p) in
      if index \<le> commitIndex rf \<and> index \<le> last_index (logs rf)
      then from_option (Snapshot rf index snap) (\<lambda>rf. set_rft s p rf) else Disabled)"

definition do_install :: "('c, 's) cluster \<Rightarrow> nat \<Rightarrow> nat \<Rightarrow> ('c, 's) cluster outcome" where
  "do_install s p j =
     (let nd = nodes s ! p in
      if j < length (snapshots nd)
      then (let m = snapshots nd ! j in
        from_option (CondInstallSnapshot (rft nd) (SnapshotTerm m) (SnapshotIndex m) (Snapshot_data m))
          (\<lambda>(rf, b). set_node s p (nd\<lparr>rft := rf,
             delivered := delivered nd @ (if b then [m] else [])\<rparr>)))
      else Disabled)"

definition do_apply_take :: "('c, 's) cluster \<Rightarrow> nat \<Rightarrow> ('c, 's) cluster outcome" where
  "do_apply_take s p =
     (let nd = nodes s ! p in
      if sending nd = None \<and> applier_ready (rft nd)
      then from_option (applier_take (rft nd)) (\<lambda>b. set_node s p (nd\<lparr>sending := Some b\<rparr>))
      else Disabled)"

definition do_apply_done :: "('c, 's) cluster \<Rightarrow> nat \<Rightarrow> ('c, 's) cluster outcome" where
  "do_apply_done s p =
     (let nd = nodes s ! p in
      case sending nd of
        None \<Rightarrow> Disabled
      | Some (es, commit) \<Rightarrow> Next (set_node s p
          (nd\<lparr>rft := applier_done (rft nd) commit, sending := None,
              delivered := delivered nd @ map applier_msg es\<rparr>)))"

definition do_restart :: "('c, 's) cluster \<Rightarrow> nat \<Rightarrow> ('c, 's) cluster outcome" where
  "do_restart s p =
     (let nd = nodes s ! p; rf = rft nd in
      from_option (Make (peers rf) (me rf) (persister rf)) (\<lambda>rf. set_node s p
        (nd\<lparr>rft := rf, epoch := Suc (epoch nd), sending := None, delivered := [], snapshots := []\<rparr>)))"

fun act :: "('c, 's) action \<Rightarrow> ('c, 's) cluster \<Rightarrow> ('c, 's) cluster outcome" where
  "act (ElectionTimeout p) s = (if p < length (nodes s) then do_election s p else Disabled)"
| "act (HeartbeatTimeout p) s = (if p < length (nodes s) then do_heartbeat s p else Disabled)"
| "act (Deliver i) s = (if i < length (calls s) then do_deliver s i else Disabled)"
| "act (Return i) s = (if i < length (calls s) then do_return s i else Disabled)"
| "act (Lose i) s = (if i < length (calls s) then do_lose s i else Disabled)"
| "act (ClientStart p c) s = (if p < length (nodes s) then do_start s p c else Disabled)"
| "act (TakeSnapshot p i d) s = (if p < length (nodes s) then do_snapshot s p i d else Disabled)"
| "act (InstallSnap p j) s = (if p < length (nodes s) then do_install s p j else Disabled)"
| "act (ApplyTake p) s = (if p < length (nodes s) then do_apply_take s p else Disabled)"
| "act (ApplyDone p) s = (if p < length (nodes s) then do_apply_done s p else Disabled)"
| "act (Restart p) s = (if p < length (nodes s) then do_restart s p else Disabled)"

text \<open>
  The action that breaks the voting discipline: a vote call returns with a reply of a term
  higher than the one the vote was asked for.
\<close>

fun term_setback :: "('c, 's) action \<Rightarrow> ('c, 's) cluster \<Rightarrow> bool" where
  "term_setback (Return i) s =
     (i < length (calls s) \<and>
      (case (c_req (calls s ! i), c_status (calls s ! i)) of
         (RequestVote_rpc args, Replied (RequestVote_reply reply)) \<Rightarrow> rvr_Term reply > rv_Term args
       | _ \<Rightarrow> False))"
| "term_setback _ s = False"

section \<open>Reachable states\<close>

inductive reachable :: "nat \<Rightarrow> ('c, 's) cluster \<Rightarrow> bool" for n where
  reach_init: "reachable n (init_cluster n)"
| reach_step: "reachable n s \<Longrightarrow> act a s = Next t \<Longrightarrow> reachable n t"

text \<open>Reachable without a term setback on the way.\<close>

inductive reachable_ns :: "nat \<Rightarrow> ('c, 's) cluster \<Rightarrow> bool" for n where
  ns_init: "reachable_ns n (init_cluster n)"
| ns_step: "reachable_ns n s \<Longrightarrow> \<not> term_setback a s \<Longrightarrow> act a s = Next t \<Longrightarrow> reachable_ns n t"

fun run :: "('c, 's) action list \<Rightarrow> ('c, 's) cluster \<Rightarrow> ('c, 's) cluster outcome" where
  "run [] s = Next s"
| "run (a # as) s = (case act a s of Next t \<Rightarrow> run as t | r \<Rightarrow> r)"

lemma run_reachable: "reachable n s \<Longrightarrow> run as s = Next t \<Longrightarrow> reachable n t"
  by (induction as arbitrary: s) (auto split: outcome.splits intro: reach_step)

end
