(* ===== verification/Raft_Votes.thy ===== *)
theory Raft_Votes
  imports Raft_Cluster
begin

text \<open>
  Election safety of the cluster. In every state that is reached without a term setback two
  leaders of the same term are the same peer: a leader holds the votes of a majority, votes
  are counted once per peer, and no peer votes twice in a term. With a term setback this
  fails, and the run that shows it is evaluated here.
\<close>

section \<open>Majorities\<close>

text \<open>The test of the code, \<open>count > len(peers)/2\<close>, on the set of peers counted.\<close>

definition majority :: "nat \<Rightarrow> nat set \<Rightarrow> bool" where
  "majority n V \<longleftrightarrow> V \<subseteq> {..<n} \<and> card V > n div 2"

lemma majority_meets:
  assumes "majority n A" "majority n B"
  shows "A \<inter> B \<noteq> {}"
proof
  assume "A \<inter> B = {}"
  moreover have "finite A" "finite B" using assms by (auto simp: majority_def intro: finite_subset)
  ultimately have "card (A \<union> B) = card A + card B" by (intro card_Un_disjoint)
  moreover have "card (A \<union> B) \<le> card {..<n}"
    using assms by (intro card_mono) (auto simp: majority_def)
  ultimately show False using assms by (simp add: majority_def) linarith
qed

lemma majority_mono:
  assumes "majority n A" "A \<subseteq> B" "B \<subseteq> {..<n}"
  shows "majority n B"
proof -
  have "card A \<le> card B" using assms(2,3) by (intro card_mono) (auto intro: finite_subset)
  with assms show ?thesis by (auto simp: majority_def)
qed

interpretation maj: quorum_system "{..<n}" "majority n" for n
proof unfold_locales
  show "A \<subseteq> {..<n}" if "majority n A" for A using that by (simp add: majority_def)
qed (auto simp: majority_meets intro: majority_mono)

section \<open>Votes\<close>

fun reply_of :: "status \<Rightarrow> rpc_reply option" where
  "reply_of Pending = None"
| "reply_of (Replied r) = Some r"
| "reply_of (Returned r) = Some r"
| "reply_of (Lost r) = r"

fun open_status :: "status \<Rightarrow> bool" where
  "open_status Pending = True"
| "open_status (Replied r) = True"
| "open_status _ = False"

text \<open>The vote a call has obtained: who voted, in which term, for whom.\<close>

definition cast :: "('c, 's) call \<Rightarrow> (nat \<times> int \<times> int) option" where
  "cast c = (case (c_req c, reply_of (c_status c)) of
     (RequestVote_rpc a, Some (RequestVote_reply r)) \<Rightarrow>
       if rvr_VoteGranted r then Some (c_peer c, rv_Term a, rv_CandidateId a) else None
   | _ \<Rightarrow> None)"

definition el_term :: "election \<Rightarrow> int" where
  "el_term el = rv_Term (el_args el)"

text \<open>Peer \<open>v\<close> has voted for peer \<open>c\<close> in term \<open>t\<close>: on request, or for itself by standing.\<close>

definition granted :: "('c, 's) cluster \<Rightarrow> nat \<Rightarrow> int \<Rightarrow> nat \<Rightarrow> bool" where
  "granted s v t c \<longleftrightarrow>
     (\<exists>k\<in>set (calls s). cast k = Some (v, t, int c)) \<or>
     (c = v \<and> v < length (nodes s) \<and> (\<exists>el\<in>set (elections (nodes s ! v)). el_term el = t))"

definition open_vote :: "('c, 's) call \<Rightarrow> nat \<Rightarrow> nat \<Rightarrow> bool" where
  "open_vote k p e \<longleftrightarrow> c_caller k = p \<and> c_election k = e \<and> is_vote (c_req k) \<and> open_status (c_status k)"

section \<open>The invariant\<close>

definition nodes_ok :: "nat \<Rightarrow> ('c, 's) cluster \<Rightarrow> bool" where
  "nodes_ok n s \<longleftrightarrow> length (nodes s) = n \<and>
     (\<forall>p<n. node_ok (rft (nodes s ! p)) \<and> me (rft (nodes s ! p)) = p \<and> peers (rft (nodes s ! p)) = n \<and>
        (\<forall>el\<in>set (elections (nodes s ! p)). rv_CandidateId (el_args el) = int p))"

definition call_ok :: "nat \<Rightarrow> ('c, 's) cluster \<Rightarrow> ('c, 's) call \<Rightarrow> bool" where
  "call_ok n s k \<longleftrightarrow> c_caller k < n \<and> c_peer k < n \<and> c_peer k \<noteq> c_caller k \<and> rpc_ok (c_req k) \<and>
     (\<forall>a. c_req k = RequestVote_rpc a \<longrightarrow> c_election k < length (elections (nodes s ! c_caller k)) \<and>
        a = el_args (elections (nodes s ! c_caller k) ! c_election k))"

definition votes_ok :: "nat \<Rightarrow> ('c, 's) cluster \<Rightarrow> bool" where
  "votes_ok n s \<longleftrightarrow>
     (\<forall>v t c. granted s v t c \<longrightarrow> v < n \<and> t \<le> currentTerm (rft (nodes s ! v)) \<and>
        (t = currentTerm (rft (nodes s ! v)) \<longrightarrow> votedFor (rft (nodes s ! v)) = int c)) \<and>
     (\<forall>v t c c'. granted s v t c \<longrightarrow> granted s v t c' \<longrightarrow> c = c')"

definition tally :: "nat \<Rightarrow> ('c, 's) cluster \<Rightarrow> nat \<Rightarrow> nat \<Rightarrow> nat set \<Rightarrow> bool" where
  "tally n s p e V \<longleftrightarrow> V \<subseteq> {..<n} \<and> grantedVote (elections (nodes s ! p) ! e) \<le> card V \<and>
     (\<forall>v\<in>V. granted s v (el_term (elections (nodes s ! p) ! e)) p) \<and>
     (\<forall>k\<in>set (calls s). open_vote k p e \<longrightarrow> c_peer k \<notin> V)"

definition tally_ok :: "nat \<Rightarrow> ('c, 's) cluster \<Rightarrow> bool" where
  "tally_ok n s \<longleftrightarrow> (\<forall>p<n. \<forall>e<length (elections (nodes s ! p)). \<exists>V. tally n s p e V)"

definition once_ok :: "('c, 's) cluster \<Rightarrow> bool" where
  "once_ok s \<longleftrightarrow> (\<forall>i<length (calls s). \<forall>j<length (calls s). i \<noteq> j \<longrightarrow>
     (\<forall>p e. open_vote (calls s ! i) p e \<longrightarrow> open_vote (calls s ! j) p e \<longrightarrow>
        c_peer (calls s ! i) \<noteq> c_peer (calls s ! j)))"

definition leaders_ok :: "nat \<Rightarrow> ('c, 's) cluster \<Rightarrow> bool" where
  "leaders_ok n s \<longleftrightarrow> (\<forall>p<n. role (rft (nodes s ! p)) = LEADER \<longrightarrow>
     (\<exists>V. majority n V \<and> (\<forall>v\<in>V. granted s v (currentTerm (rft (nodes s ! p))) p)))"

text \<open>
  What holds in every reachable state (\<open>base_inv\<close>), and what holds as long as no peer was
  set back to an old term (\<open>cluster_inv\<close>).
\<close>

definition base_inv :: "nat \<Rightarrow> ('c, 's) cluster \<Rightarrow> bool" where
  "base_inv n s \<longleftrightarrow> nodes_ok n s \<and> (\<forall>k\<in>set (calls s). call_ok n s k)"

definition cluster_inv :: "nat \<Rightarrow> ('c, 's) cluster \<Rightarrow> bool" where
  "cluster_inv n s \<longleftrightarrow> nodes_ok n s \<and> (\<forall>k\<in>set (calls s). call_ok n s k) \<and> votes_ok n s \<and>
     tally_ok n s \<and> once_ok s \<and> leaders_ok n s"

lemma inv_base: "cluster_inv n s \<Longrightarrow> base_inv n s"
  by (simp add: cluster_inv_def base_inv_def)

section \<open>How the parts of the invariant move\<close>

lemma votes_step:
  assumes v: "votes_ok n s" and len: "\<forall>v<n. vote_step (rft (nodes s ! v)) (rft (nodes t ! v))"
    and new: "\<And>v i c. granted t v i c \<Longrightarrow> granted s v i c \<or>
      (v < n \<and> currentTerm (rft (nodes t ! v)) = i \<and> votedFor (rft (nodes t ! v)) = int c \<and>
       (currentTerm (rft (nodes s ! v)) < i \<or> votedFor (rft (nodes s ! v)) \<in> {-1, int c}))"
  shows "votes_ok n t"
proof -
  have old: "v < n \<and> i \<le> currentTerm (rft (nodes t ! v)) \<and>
     (i = currentTerm (rft (nodes t ! v)) \<longrightarrow> i = currentTerm (rft (nodes s ! v)) \<and>
       votedFor (rft (nodes s ! v)) = int c \<and> votedFor (rft (nodes t ! v)) = int c)"
    if "granted s v i c" for v i c
  proof -
    from that v have a: "v < n" "i \<le> currentTerm (rft (nodes s ! v))"
      "i = currentTerm (rft (nodes s ! v)) \<longrightarrow> votedFor (rft (nodes s ! v)) = int c"
      unfolding votes_ok_def by blast+
    with len have "vote_step (rft (nodes s ! v)) (rft (nodes t ! v))" by blast
    with a show ?thesis by (auto simp: vote_step_def)
  qed
  have 1: "v < n \<and> i \<le> currentTerm (rft (nodes t ! v)) \<and>
     (i = currentTerm (rft (nodes t ! v)) \<longrightarrow> votedFor (rft (nodes t ! v)) = int c)"
    if "granted t v i c" for v i c
    using new [OF that] old [of v i c] by auto
  have mixed: "c = c'" if "granted s v i c" "currentTerm (rft (nodes t ! v)) = i"
    "currentTerm (rft (nodes s ! v)) < i \<or> votedFor (rft (nodes s ! v)) \<in> {-1, int c'}" for v i c c'
    using old [OF that(1)] that(2,3) by auto
  have "c = c'" if g: "granted t v i c" "granted t v i c'" for v i c c'
    using new [OF g(1)]
  proof
    assume o: "granted s v i c"
    from new [OF g(2)] show ?thesis
    proof
      assume "granted s v i c'"
      with o v show ?thesis by (simp add: votes_ok_def)
    qed (use o mixed in blast)
  next
    assume n: "v < n \<and> currentTerm (rft (nodes t ! v)) = i \<and> votedFor (rft (nodes t ! v)) = int c \<and>
       (currentTerm (rft (nodes s ! v)) < i \<or> votedFor (rft (nodes s ! v)) \<in> {-1, int c})"
    with 1 [OF g(2)] show ?thesis by simp
  qed
  with 1 show ?thesis unfolding votes_ok_def by blast
qed

lemma leaders_step:
  assumes "leaders_ok n s" and "\<And>v i c. granted s v i c \<Longrightarrow> granted t v i c"
    and "\<And>p. p < n \<Longrightarrow> role (rft (nodes t ! p)) = LEADER \<Longrightarrow>
      role_step (rft (nodes s ! p)) (rft (nodes t ! p)) \<or>
      (\<exists>V. majority n V \<and> (\<forall>v\<in>V. granted t v (currentTerm (rft (nodes t ! p))) p))"
  shows "leaders_ok n t"
  unfolding leaders_ok_def
proof (intro allI impI)
  fix p assume p: "p < n" "role (rft (nodes t ! p)) = LEADER"
  from assms(3) [OF p] show "\<exists>V. majority n V \<and> (\<forall>v\<in>V. granted t v (currentTerm (rft (nodes t ! p))) p)"
    using assms(1,2) p unfolding leaders_ok_def role_step_def by metis
qed

text \<open>
  The calls of a step: the old calls keep who asked whom what and are never reopened; the
  new ones are replication requests.
\<close>

definition same_shape :: "('c, 's) call \<Rightarrow> ('c, 's) call \<Rightarrow> bool" where
  "same_shape k k' \<longleftrightarrow> c_caller k' = c_caller k \<and> c_peer k' = c_peer k \<and> c_election k' = c_election k \<and>
     c_req k' = c_req k \<and> (open_status (c_status k') \<longrightarrow> open_status (c_status k))"

definition fresh_call :: "nat \<Rightarrow> ('c, 's) call \<Rightarrow> bool" where
  "fresh_call n k \<longleftrightarrow> c_caller k < n \<and> c_peer k < n \<and> c_peer k \<noteq> c_caller k \<and> rpc_ok (c_req k) \<and>
     \<not> is_vote (c_req k)"

definition mild_calls :: "nat \<Rightarrow> ('c, 's) call list \<Rightarrow> ('c, 's) call list \<Rightarrow> bool" where
  "mild_calls n ks ks' \<longleftrightarrow> (\<exists>ks1 fresh. ks' = ks1 @ fresh \<and> list_all2 same_shape ks ks1 \<and>
     list_all (fresh_call n) fresh)"

definition mild :: "nat \<Rightarrow> ('c, 's) cluster \<Rightarrow> ('c, 's) cluster \<Rightarrow> bool" where
  "mild n s t \<longleftrightarrow> nodes_ok n t \<and> mild_calls n (calls s) (calls t) \<and>
     (\<forall>p<n. vote_step (rft (nodes s ! p)) (rft (nodes t ! p)) \<and>
        map el_args (elections (nodes t ! p)) = map el_args (elections (nodes s ! p)))"

lemma same_shape_refl [simp]: "same_shape k k"
  by (simp add: same_shape_def)

lemma same_shape_open: "same_shape k k' \<Longrightarrow> open_vote k' p e \<Longrightarrow> open_vote k p e \<and> c_peer k' = c_peer k"
  by (auto simp: same_shape_def open_vote_def)

lemma fresh_not_open: "fresh_call n k \<Longrightarrow> \<not> open_vote k p e"
  by (simp add: fresh_call_def open_vote_def)

lemma cast_not_vote: "\<not> is_vote (c_req k) \<Longrightarrow> cast k = None"
  by (cases "c_req k") (auto simp: cast_def)

lemma mild_calls_set:
  assumes "mild_calls n ks ks'" "k' \<in> set ks'"
  shows "fresh_call n k' \<or> (\<exists>k\<in>set ks. same_shape k k')"
proof -
  from assms obtain ks1 fr where q: "ks' = ks1 @ fr" "list_all2 same_shape ks ks1" "list_all (fresh_call n) fr"
    by (auto simp: mild_calls_def)
  then have "length ks = length ks1" by (simp add: list_all2_lengthD)
  with q(1,3) list_all2_nthD [OF q(2)] assms(2) show ?thesis
    by (auto simp: list_all_iff in_set_conv_nth [of k' ks1]) (metis nth_mem)
qed

lemma mild_calls_once:
  assumes "once_ok s" "mild_calls n (calls s) (calls t)"
  shows "once_ok t"
proof -
  from assms(2) obtain ks1 fr where q: "calls t = ks1 @ fr" "list_all2 same_shape (calls s) ks1"
    "list_all (fresh_call n) fr"
    by (auto simp: mild_calls_def)
  have l: "length ks1 = length (calls s)" using q(2) by (simp add: list_all2_lengthD)
  have o: "i < length (calls s) \<and> open_vote (calls s ! i) p e \<and> c_peer (calls t ! i) = c_peer (calls s ! i)"
    if i: "i < length (calls t)" "open_vote (calls t ! i) p e" for i p e
  proof (cases "i < length (calls s)")
    case True
    then have "same_shape (calls s ! i) (calls t ! i)"
      using q(1,2) l by (simp add: nth_append list_all2_nthD)
    with i(2) True show ?thesis by (simp add: same_shape_open)
  next
    case False
    then have "fresh_call n (calls t ! i)"
      using q(1,3) l i(1) by (simp add: nth_append list_all_length)
    with i(2) show ?thesis by (simp add: fresh_not_open)
  qed
  show ?thesis
    unfolding once_ok_def using assms(1) o unfolding once_ok_def by metis
qed

lemma map_el_args:
  assumes "map el_args xs = map el_args ys"
  shows "length xs = length ys" "e < length ys \<Longrightarrow> el_args (xs ! e) = el_args (ys ! e)"
  using assms by (metis length_map, metis length_map nth_map)

lemma mild_call_ok:
  assumes "\<forall>k\<in>set (calls s). call_ok n s k" "mild_calls n (calls s) (calls t)" "k' \<in> set (calls t)"
    and el: "\<forall>p<n. map el_args (elections (nodes t ! p)) = map el_args (elections (nodes s ! p))"
  shows "call_ok n t k'"
proof -
  from mild_calls_set [OF assms(2,3)] show ?thesis
  proof
    assume "fresh_call n k'"
    then show ?thesis by (auto simp: fresh_call_def call_ok_def)
  next
    assume "\<exists>k\<in>set (calls s). same_shape k k'"
    then obtain k where k: "call_ok n s k" "same_shape k k'" using assms(1) by blast
    have "map el_args (elections (nodes t ! c_caller k)) = map el_args (elections (nodes s ! c_caller k))"
      using k(1) el by (simp add: call_ok_def)
    note m = map_el_args [OF this]
    show ?thesis
      using k m unfolding call_ok_def same_shape_def by auto
  qed
qed

lemma mild_tally:
  assumes "tally n s p e V" "mild n s t" "p < n" "e < length (elections (nodes s ! p))"
    and "\<And>v i c. granted s v i c \<Longrightarrow> granted t v i c"
    and "grantedVote (elections (nodes t ! p) ! e) = grantedVote (elections (nodes s ! p) ! e)"
  shows "tally n t p e V"
proof -
  have m: "mild_calls n (calls s) (calls t)" using assms(2) by (simp add: mild_def)
  have "c_peer k \<notin> V" if k: "k \<in> set (calls t)" "open_vote k p e" for k
    using mild_calls_set [OF m k(1)] k(2) assms(1) same_shape_open [of _ k p e] fresh_not_open [of n k p e]
    by (auto simp: tally_def)
  moreover have "map el_args (elections (nodes t ! p)) = map el_args (elections (nodes s ! p))"
    using assms(2,3) by (simp add: mild_def)
  ultimately show ?thesis
    using assms map_el_args(2) [of "elections (nodes t ! p)" "elections (nodes s ! p)" e]
    by (auto simp: tally_def el_term_def)
qed

lemma mild_inv:
  assumes i: "cluster_inv n s" and m: "mild n s t"
    and mono: "\<And>v i c. granted s v i c \<Longrightarrow> granted t v i c"
    and new: "\<And>v i c. granted t v i c \<Longrightarrow> granted s v i c \<or>
      (v < n \<and> currentTerm (rft (nodes t ! v)) = i \<and> votedFor (rft (nodes t ! v)) = int c \<and>
       (currentTerm (rft (nodes s ! v)) < i \<or> votedFor (rft (nodes s ! v)) \<in> {-1, int c}))"
    and lead: "\<And>p. p < n \<Longrightarrow> role (rft (nodes t ! p)) = LEADER \<Longrightarrow>
      role_step (rft (nodes s ! p)) (rft (nodes t ! p)) \<or>
      (\<exists>V. majority n V \<and> (\<forall>v\<in>V. granted t v (currentTerm (rft (nodes t ! p))) p))"
    and tally: "\<And>p e. p < n \<Longrightarrow> e < length (elections (nodes s ! p)) \<Longrightarrow>
      grantedVote (elections (nodes t ! p) ! e) = grantedVote (elections (nodes s ! p) ! e) \<or>
      (\<exists>V. tally n t p e V)"
  shows "cluster_inv n t"
proof -
  have "votes_ok n t"
  proof (rule votes_step [OF _ _ new])
    show "votes_ok n s" using i by (simp add: cluster_inv_def)
    show "\<forall>v<n. vote_step (rft (nodes s ! v)) (rft (nodes t ! v))" using m by (simp add: mild_def)
  qed
  moreover have "leaders_ok n t"
  proof (rule leaders_step [OF _ mono lead])
    show "leaders_ok n s" using i by (simp add: cluster_inv_def)
  qed
  moreover have "tally_ok n t"
    unfolding tally_ok_def
  proof (intro allI impI)
    fix p e assume pe: "p < n" "e < length (elections (nodes t ! p))"
    have "map el_args (elections (nodes t ! p)) = map el_args (elections (nodes s ! p))"
      using m pe(1) by (simp add: mild_def)
    from map_el_args(1) [OF this] pe(2) have e: "e < length (elections (nodes s ! p))" by simp
    have "tally_ok n s" using i by (simp add: cluster_inv_def)
    with pe(1) e obtain V where "tally n s p e V" unfolding tally_ok_def by blast
    with tally [OF pe(1) e] mild_tally [OF _ m pe(1) e mono] show "\<exists>V. tally n t p e V" by blast
  qed
  moreover have "once_ok t"
    using i m by (auto simp: cluster_inv_def mild_def intro: mild_calls_once)
  ultimately show ?thesis
    using i m mild_call_ok [of s n t] by (simp add: cluster_inv_def mild_def)
qed

text \<open>A step in which nobody votes and no election is counted on.\<close>

definition casts :: "('c, 's) call list \<Rightarrow> (nat \<times> int \<times> int) set" where
  "casts ks = {x. \<exists>k\<in>set ks. cast k = Some x}"

definition quiet :: "nat \<Rightarrow> ('c, 's) cluster \<Rightarrow> ('c, 's) cluster \<Rightarrow> bool" where
  "quiet n s t \<longleftrightarrow> mild_calls n (calls s) (calls t) \<and>
     casts (calls t) = casts (calls s) \<and>
     length (nodes t) = length (nodes s) \<and>
     (\<forall>p<n. good_step (rft (nodes s ! p)) (rft (nodes t ! p)) \<and>
        elections (nodes t ! p) = elections (nodes s ! p))"

lemma granted_alt:
  "granted s v t c \<longleftrightarrow> (v, t, int c) \<in> casts (calls s) \<or>
     (c = v \<and> v < length (nodes s) \<and> (\<exists>el\<in>set (elections (nodes s ! v)). el_term el = t))"
  by (simp add: granted_def casts_def)

lemma quiet_mild: "nodes_ok n s \<Longrightarrow> quiet n s t \<Longrightarrow> mild n s t"
  by (auto simp: mild_def quiet_def nodes_ok_def good_step_def vote_step_def)

lemma quiet_inv:
  assumes i: "cluster_inv n s" and q: "quiet n s t"
  shows "cluster_inv n t"
proof -
  have no: "nodes_ok n s" using i by (simp add: cluster_inv_def)
  have g: "granted t v j c = granted s v j c" for v j c
    using q no by (auto simp: granted_alt quiet_def nodes_ok_def)
  have "mild n s t" using no q by (rule quiet_mild)
  with i show ?thesis
    by (rule mild_inv) (use q g in \<open>auto simp: quiet_def good_step_def\<close>)
qed

lemma nodes_ok_update:
  assumes "nodes_ok n s" "p < n" "nodes t = (nodes s)[p := nd]" "node_ok (rft nd)" "me (rft nd) = p"
    "peers (rft nd) = n" "\<forall>el\<in>set (elections nd). rv_CandidateId (el_args el) = int p"
  shows "nodes_ok n t"
  unfolding nodes_ok_def
proof (intro conjI allI impI)
  show "length (nodes t) = n" using assms(1,3) by (simp add: nodes_ok_def)
  fix q assume q: "q < n"
  have "nodes t ! q = (if q = p then nd else nodes s ! q)"
    using assms(1-3) by (auto simp: nodes_ok_def)
  with q assms(1,4-7) show "node_ok (rft (nodes t ! q))" "me (rft (nodes t ! q)) = q"
    "peers (rft (nodes t ! q)) = n"
    "\<forall>el\<in>set (elections (nodes t ! q)). rv_CandidateId (el_args el) = int q"
    by (simp_all add: nodes_ok_def)
qed

lemma base_step:
  assumes b: "base_inv n s" and p: "p < n" and nt: "nodes t = (nodes s)[p := nd]"
    and nd: "node_ok (rft nd)" "me (rft nd) = p" "peers (rft nd) = n"
    and el: "map el_args (elections nd) = map el_args (elections (nodes s ! p))"
    and mc: "mild_calls n (calls s) (calls t)"
  shows "base_inv n t"
proof -
  have no: "nodes_ok n s" and co: "\<forall>k\<in>set (calls s). call_ok n s k"
    using b by (simp_all add: base_inv_def)
  have "rv_CandidateId a = int p" if "a \<in> set (map el_args (elections nd))" for a
    using that no p unfolding el nodes_ok_def by auto
  then have "nodes_ok n t" using nodes_ok_update [OF no p nt nd] by simp
  moreover have "\<forall>q<n. map el_args (elections (nodes t ! q)) = map el_args (elections (nodes s ! q))"
    using no p el by (auto simp: nt nth_list_update nodes_ok_def)
  ultimately show ?thesis using mild_call_ok [OF co mc] by (simp add: base_inv_def)
qed

lemma mild_base:
  assumes "base_inv n s" "mild n s t"
  shows "base_inv n t"
  using assms mild_call_ok [of s n t] by (simp add: base_inv_def mild_def)

lemma quiet_base:
  assumes "base_inv n s" "quiet n s t"
  shows "base_inv n t"
proof (rule mild_base [OF assms(1)])
  show "mild n s t" using assms by (auto simp: base_inv_def intro: quiet_mild)
qed

section \<open>Quiet actions\<close>

lemma state_simps [simp]:
  "nodes (send s p e out) = nodes s"
  "calls (send s p e out) = calls s @
     map (\<lambda>(q, req). \<lparr>c_caller = p, c_epoch = epoch (nodes s ! p), c_election = e, c_peer = q,
                      c_req = req, c_status = Pending\<rparr>) out"
  "nodes (set_status s i st) = nodes s"
  "calls (set_status s i st) = (calls s)[i := (calls s ! i)\<lparr>c_status := st\<rparr>]"
  "nodes (set_node s p nd) = (nodes s)[p := nd]" "calls (set_node s p nd) = calls s"
  "nodes (set_rft s p rf) = (nodes s)[p := (nodes s ! p)\<lparr>rft := rf\<rparr>]"
  "calls (set_rft s p rf) = calls s"
  by (simp_all add: send_def set_status_def set_node_def set_rft_def)

lemma from_option_Next: "from_option m f = Next t \<longleftrightarrow> (\<exists>x. m = Some x \<and> t = f x)"
  by (auto simp: from_option_def split: option.splits)

lemma mc_refl [simp]: "mild_calls n ks ks"
  unfolding mild_calls_def by (intro exI [of _ ks] exI [of _ "[]"]) (simp add: list_all2_same)

lemma mc_update: "i < length ks \<Longrightarrow> same_shape (ks ! i) k \<Longrightarrow> mild_calls n ks (ks[i := k])"
  unfolding mild_calls_def
  by (intro exI [of _ "ks[i := k]"] exI [of _ "[]"])
    (auto simp: list_all2_conv_all_nth nth_list_update)

lemma mc_append: "mild_calls n ks ks' \<Longrightarrow> list_all (fresh_call n) fr \<Longrightarrow> mild_calls n ks (ks' @ fr)"
  unfolding mild_calls_def by (metis append.assoc list_all_append)

lemma casts_append: "list_all (fresh_call n) fr \<Longrightarrow> casts (ks @ fr) = casts ks"
  by (auto simp: casts_def list_all_iff fresh_call_def cast_not_vote)

lemma casts_update:
  assumes "i < length ks" "cast k = cast (ks ! i)"
  shows "casts (ks[i := k]) = casts ks"
proof -
  have "map cast (ks[i := k]) = map cast ks"
    using assms by (intro nth_equalityI) (auto simp: nth_list_update)
  then have "cast ` set (ks[i := k]) = cast ` set ks" by (metis set_map)
  then show ?thesis unfolding casts_def by (auto simp: set_eq_iff image_iff) metis+
qed

lemma sends_fresh:
  assumes "sends rf out" "me rf = p" "peers rf = n" "p < n"
  shows "list_all (fresh_call n) (map (\<lambda>(q, req). \<lparr>c_caller = p, c_epoch = ep, c_election = e, c_peer = q,
                      c_req = req, c_status = Pending\<rparr>) out)"
  using assms by (auto simp: sends_def fresh_call_def list_all_iff)

lemma inv_node:
  assumes "base_inv n s" "p < n"
  shows "length (nodes s) = n" "node_ok (rft (nodes s ! p))" "me (rft (nodes s ! p)) = p"
    "peers (rft (nodes s ! p)) = n"
    "\<And>el. el \<in> set (elections (nodes s ! p)) \<Longrightarrow> rv_CandidateId (el_args el) = int p"
  using assms by (auto simp: base_inv_def nodes_ok_def)

lemma inv_call: "base_inv n s \<Longrightarrow> i < length (calls s) \<Longrightarrow> call_ok n s (calls s ! i)"
  by (auto simp: base_inv_def)

lemma quietI:
  assumes "base_inv n s" "p < n" and "nodes t = (nodes s)[p := nd]"
    and "good_step (rft (nodes s ! p)) (rft nd)" "elections nd = elections (nodes s ! p)"
    and "mild_calls n (calls s) (calls t)"
    and "casts (calls t) = casts (calls s)"
  shows "quiet n s t"
  using assms inv_node [OF assms(1)] by (auto simp: quiet_def nth_list_update)

lemma quiet_send:
  assumes i: "base_inv n s" "p < n" and "good_step (rft (nodes s ! p)) rf" "sends (rft (nodes s ! p)) out"
  shows "quiet n s (send (set_rft s p rf) p e out)"
proof -
  have "list_all (fresh_call n) (map (\<lambda>(q, req). \<lparr>c_caller = p, c_epoch = epoch (nodes s ! p),
      c_election = e, c_peer = q, c_req = req, c_status = Pending\<rparr>) out)"
    using assms inv_node [OF i] by (intro sends_fresh [of "rft (nodes s ! p)"])
  note fr = this
  show ?thesis
  proof (rule quietI [OF i])
    show "nodes (send (set_rft s p rf) p e out) = (nodes s)[p := (nodes s ! p)\<lparr>rft := rf\<rparr>]" by simp
  qed (use assms fr inv_node [OF i] in \<open>simp_all add: mc_append casts_append\<close>)
qed

lemma cast_status: "reply_of st = reply_of (c_status k) \<or> \<not> is_vote (c_req k) \<Longrightarrow>
  cast (k\<lparr>c_status := st\<rparr>) = cast k"
  by (cases "c_req k") (auto simp: cast_def split: option.splits rpc_reply.splits)

lemma quiet_status:
  assumes "base_inv n s" "i < length (calls s)" and "k = calls s ! i"
    and "reply_of st = reply_of (c_status k) \<or> \<not> is_vote (c_req k)"
    and "open_status st \<longrightarrow> open_status (c_status k)"
    and "p < n" "good_step (rft (nodes s ! p)) (rft nd)" "elections nd = elections (nodes s ! p)"
    and "nodes t = (nodes s)[p := nd]" "calls t = (calls s)[i := k\<lparr>c_status := st\<rparr>]"
  shows "quiet n s t"
  using assms
  by (intro quietI [of n s p t nd])
    (auto intro!: mc_update simp: same_shape_def casts_update cast_status)

lemma act_heartbeat:
  assumes "base_inv n s" "p < n" "do_heartbeat s p = Next t"
  shows "quiet n s t"
  using assms ticker_heartbeat_good [OF _ inv_node(2) [OF assms(1,2)]] quiet_send [OF assms(1,2)]
  by (auto simp: do_heartbeat_def from_option_Next)

lemma act_start:
  assumes "base_inv n s" "p < n" "do_start s p c = Next t"
  shows "quiet n s t"
  using assms Start_good [OF _ inv_node(2) [OF assms(1,2)]] quiet_send [OF assms(1,2)]
  by (auto simp: do_start_def from_option_Next)

lemma act_snapshot:
  assumes "base_inv n s" "p < n" "do_snapshot s p i d = Next t"
  shows "quiet n s t"
  using assms Snapshot_good [OF inv_node(2) [OF assms(1,2)]]
  by (auto simp: do_snapshot_def from_option_Next Let_def split: if_splits intro!: quietI [of n s p])

lemma act_install:
  assumes "base_inv n s" "p < n" "do_install s p j = Next t"
  shows "quiet n s t"
  using assms CondInstallSnapshot_good [OF inv_node(2) [OF assms(1,2)]]
  by (auto simp: do_install_def from_option_Next Let_def split: if_splits intro!: quietI [of n s p])

lemma act_apply_take: "base_inv n s \<Longrightarrow> p < n \<Longrightarrow> do_apply_take s p = Next t \<Longrightarrow> quiet n s t"
  by (auto simp: do_apply_take_def from_option_Next inv_node Let_def split: if_splits
      intro!: quietI [of n s p])

lemma act_apply_done: "base_inv n s \<Longrightarrow> p < n \<Longrightarrow> do_apply_done s p = Next t \<Longrightarrow> quiet n s t"
  by (auto simp: do_apply_done_def inv_node Let_def applier_done_good split: option.splits
      intro!: quietI [of n s p])

lemma act_restart:
  assumes "base_inv n s" "p < n" "do_restart s p = Next t"
  shows "quiet n s t"
  using assms Make_good [OF inv_node(2) [OF assms(1,2)]]
  by (auto simp: do_restart_def from_option_Next Let_def intro!: quietI [of n s p])

lemma act_lose:
  assumes i: "base_inv n s" and k: "i < length (calls s)" and l: "do_lose s i = Next t"
  shows "quiet n s t"
proof -
  let ?k = "calls s ! i" and ?p = "c_caller (calls s ! i)"
  have p: "?p < n" using inv_call [OF i k] by (simp add: call_ok_def)
  from l obtain r where r: "t = set_status s i (Lost r)" "reply_of (c_status ?k) = r" "open_status (c_status ?k)"
    by (auto simp: do_lose_def split: status.splits)
  show ?thesis
    using i k refl _ _ p
  proof (rule quiet_status)
    show "good_step (rft (nodes s ! ?p)) (rft (nodes s ! ?p))" using inv_node [OF i p] by simp
  qed (use r in auto)
qed

end
