(* ===== verification/Raft_Election.thy ===== *)
theory Raft_Election
  imports Raft_Votes
begin

text \<open>
  Elections in the cluster: the actions in which peers vote or count votes keep the
  invariant of theory Raft-Votes, unless a vote call returns with a term above the one it
  was asked for. From the invariant follow election safety and the properties of every
  reachable state; the run that elects two leaders after a setback is evaluated at the end.
\<close>

section \<open>Actions that vote\<close>

text \<open>A candidate stands: it votes for itself in a new term and asks everybody else once.\<close>

lemma once_append:
  assumes "once_ok s" "calls t = calls s @ fr" "distinct (map c_peer fr)"
    and new: "\<And>k k' p e. k \<in> set (calls s) \<Longrightarrow> k' \<in> set fr \<Longrightarrow> open_vote k p e \<Longrightarrow> \<not> open_vote k' p e"
  shows "once_ok t"
  unfolding once_ok_def
proof (intro allI impI)
  fix i j p e
  assume ij: "i < length (calls t)" "j < length (calls t)" "i \<noteq> j"
    and o: "open_vote (calls t ! i) p e" "open_vote (calls t ! j) p e"
  let ?m = "length (calls s)"
  consider "i < ?m" "j < ?m" | "i < ?m" "\<not> j < ?m" | "\<not> i < ?m" "j < ?m" | "\<not> i < ?m" "\<not> j < ?m" by blast
  then show "c_peer (calls t ! i) \<noteq> c_peer (calls t ! j)"
  proof cases
    case 1
    with assms(1,2) ij(3) o show ?thesis by (simp add: once_ok_def nth_append)
  next
    case 2
    with assms(2) ij o new [of "calls s ! i" "fr ! (j - ?m)" p e] show ?thesis by (simp add: nth_append)
  next
    case 3
    with assms(2) ij o new [of "calls s ! j" "fr ! (i - ?m)" p e] show ?thesis by (simp add: nth_append)
  next
    case 4
    with assms(2) ij nth_eq_iff_index_eq [OF assms(3), of "i - ?m" "j - ?m"]
    show ?thesis by (simp add: nth_append)
  qed
qed

definition vote_call :: "nat \<Rightarrow> nat \<Rightarrow> nat \<Rightarrow> RequestVoteArgs \<Rightarrow> nat \<Rightarrow> ('c, 's) call" where
  "vote_call p ep e args q = \<lparr>c_caller = p, c_epoch = ep, c_election = e, c_peer = q,
     c_req = RequestVote_rpc args, c_status = Pending\<rparr>"

lemma vote_call_simps [simp]:
  "c_caller (vote_call p ep e args q) = p" "c_election (vote_call p ep e args q) = e"
  "c_peer (vote_call p ep e args q) = q" "c_req (vote_call p ep e args q) = RequestVote_rpc args"
  "cast (vote_call p ep e args q) = None"
  "open_vote (vote_call p ep e args q) p' e' \<longleftrightarrow> p' = p \<and> e' = e"
  by (auto simp: vote_call_def cast_def open_vote_def)

lemma do_election_Next:
  assumes i: "base_inv n s" and p: "p < n" and "do_election s p = Next t"
  obtains rf' el where
    "el_args el = vote_args (rft (nodes s ! p))" "grantedVote el = 1"
    "good_step (rft (nodes s ! p)) rf'" "currentTerm rf' = currentTerm (rft (nodes s ! p)) + 1"
    "votedFor rf' = int p" "role rf' = CANDIDATE"
    "nodes t = (nodes s)[p := (nodes s ! p)\<lparr>rft := rf', elections := elections (nodes s ! p) @ [el]\<rparr>]"
    "calls t = calls s @ map (vote_call p (epoch (nodes s ! p)) (length (elections (nodes s ! p))) (el_args el))
       (filter (\<lambda>q. q \<noteq> p) [0..<n])"
proof -
  note nd = inv_node [OF i p]
  from ticker_election_eq [OF nd(2)] obtain rf' where rf':
    "ticker_election (rft (nodes s ! p)) = Some (rf',
      \<lparr>el_args = vote_args (rft (nodes s ! p)), grantedVote = 1, becomeLeader = False\<rparr>,
      map (\<lambda>q. (q, RequestVote_rpc (vote_args (rft (nodes s ! p)))))
        (filter (\<lambda>q. q \<noteq> me (rft (nodes s ! p))) [0..<peers (rft (nodes s ! p))]))"
    "good_step (rft (nodes s ! p)) rf'" "currentTerm rf' = currentTerm (rft (nodes s ! p)) + 1"
    "votedFor rf' = int (me (rft (nodes s ! p)))" "role rf' = CANDIDATE"
    by blast
  show thesis
    using assms(3) rf' nd p
    by (intro that [of "\<lparr>el_args = vote_args (rft (nodes s ! p)), grantedVote = 1, becomeLeader = False\<rparr>" rf'])
      (auto simp: do_election_def from_option_def Let_def vote_call_def)
qed

lemma election_base:
  assumes i: "base_inv n s" and p: "p < n" and a: "do_election s p = Next t"
  shows "base_inv n t"
proof -
  note nd = inv_node [OF i p]
  let ?nd = "nodes s ! p"
  from do_election_Next [OF i p a] obtain rf' el where
    el: "el_args el = vote_args (rft ?nd)"
    and rf': "good_step (rft ?nd) rf'"
    and nt: "nodes t = (nodes s)[p := ?nd\<lparr>rft := rf', elections := elections ?nd @ [el]\<rparr>]"
    and ct: "calls t = calls s @ map (vote_call p (epoch ?nd) (length (elections ?nd)) (el_args el))
       (filter (\<lambda>q. q \<noteq> p) [0..<n])"
    by metis
  have elp: "nodes t ! p = ?nd\<lparr>rft := rf', elections := elections ?nd @ [el]\<rparr>" using nt p nd(1) by simp
  have elq: "q \<noteq> p \<Longrightarrow> nodes t ! q = nodes s ! q" for q using nt by simp
  have "nodes_ok n t"
  proof (rule nodes_ok_update [OF _ p nt])
    show "nodes_ok n s" using i by (simp add: base_inv_def)
  qed (use rf' nd el in \<open>auto simp: good_step_def vote_step_def vote_args_def\<close>)
  moreover have "call_ok n t k" if k: "k \<in> set (calls t)" for k
  proof (cases "k \<in> set (calls s)")
    case True
    with i have "call_ok n s k" by (simp add: base_inv_def)
    then show ?thesis
      unfolding call_ok_def by (cases "c_caller k = p") (auto simp: elp elq nth_append)
  next
    case False
    with k p show ?thesis by (auto simp: ct call_ok_def elp)
  qed
  ultimately show ?thesis by (simp add: base_inv_def)
qed

text \<open>The state after peer \<open>p\<close> became a candidate: one more election, one more call per other peer.\<close>

definition started :: "nat \<Rightarrow> ('c, 's) cluster \<Rightarrow> nat \<Rightarrow> ('c, 's) raft \<Rightarrow> election \<Rightarrow> ('c, 's) cluster \<Rightarrow> bool" where
  "started n s p rf' el t \<longleftrightarrow> p < length (nodes s) \<and>
     el_args el = vote_args (rft (nodes s ! p)) \<and> grantedVote el = 1 \<and> good_step (rft (nodes s ! p)) rf' \<and>
     currentTerm rf' = currentTerm (rft (nodes s ! p)) + 1 \<and> votedFor rf' = int p \<and> role rf' = CANDIDATE \<and>
     nodes t = (nodes s)[p := (nodes s ! p)\<lparr>rft := rf', elections := elections (nodes s ! p) @ [el]\<rparr>] \<and>
     calls t = calls s @ map (vote_call p (epoch (nodes s ! p)) (length (elections (nodes s ! p))) (el_args el))
       (filter (\<lambda>q. q \<noteq> p) [0..<n])"

lemma do_election_started:
  assumes "base_inv n s" "p < n" "do_election s p = Next t"
  shows "\<exists>rf' el. started n s p rf' el t"
  using do_election_Next [OF assms] inv_node(1) [OF assms(1,2)] assms(2) unfolding started_def by metis

lemma started_nodes:
  assumes "started n s p rf' el t"
  shows "nodes t ! p = (nodes s ! p)\<lparr>rft := rf', elections := elections (nodes s ! p) @ [el]\<rparr>"
    "q \<noteq> p \<Longrightarrow> nodes t ! q = nodes s ! q"
    "el_term el = currentTerm (rft (nodes s ! p)) + 1"
  using assms by (simp_all add: started_def el_term_def vote_args_def)

lemma started_granted:
  assumes "started n s p rf' el t"
  shows "granted t v j c \<longleftrightarrow> granted s v j c \<or> (v = p \<and> c = p \<and> j = currentTerm (rft (nodes s ! p)) + 1)"
  using assms started_nodes [OF assms] by (cases "v = p") (auto simp: granted_def started_def)

lemma open_vote_election:
  assumes "base_inv n s" "k \<in> set (calls s)" "open_vote k p e"
  shows "c_election k < length (elections (nodes s ! p))"
proof -
  from assms(1,2) have "call_ok n s k" by (simp add: base_inv_def)
  with assms(3) show ?thesis by (cases "c_req k") (auto simp: call_ok_def open_vote_def)
qed

lemma started_tally:
  assumes i: "base_inv n s" and p: "p < n" and st: "started n s p rf' el t" and "tally_ok n s"
  shows "tally_ok n t"
  unfolding tally_ok_def
proof (intro allI impI)
  let ?e = "length (elections (nodes s ! p))"
  note nt = started_nodes [OF st] and g = started_granted [OF st]
  have ct: "calls t = calls s @ map (vote_call p (epoch (nodes s ! p)) ?e (el_args el)) (filter (\<lambda>q. q \<noteq> p) [0..<n])"
    using st by (simp add: started_def)
  fix q e assume q: "q < n" "e < length (elections (nodes t ! q))"
  show "\<exists>V. tally n t q e V"
  proof (cases "q = p \<and> e = ?e")
    case True
    have "c_peer k \<noteq> p" if k: "k \<in> set (calls t)" "open_vote k p ?e" for k
    proof (cases "k \<in> set (calls s)")
      case True
      from open_vote_election [OF i True k(2)] k(2) show ?thesis by (simp add: open_vote_def)
    qed (use k(1) in \<open>auto simp: ct\<close>)
    then have "tally n t p ?e {p}"
      unfolding tally_def using p st by (auto simp: nt g started_def)
    with True show ?thesis by blast
  next
    case False
    with q have e: "e < length (elections (nodes s ! q))" "elections (nodes t ! q) ! e = elections (nodes s ! q) ! e"
      by (cases "q = p"; auto simp: nt nth_append)+
    with assms(4) q(1) obtain V where "tally n s q e V" unfolding tally_ok_def by blast
    then have "tally n t q e V" using False unfolding tally_def by (auto simp: e(2) g ct)
    then show ?thesis ..
  qed
qed

lemma started_once:
  assumes i: "base_inv n s" and st: "started n s p rf' el t" and "once_ok s"
  shows "once_ok t"
proof (rule once_append [OF assms(3)])
  let ?new = "map (vote_call p (epoch (nodes s ! p)) (length (elections (nodes s ! p))) (el_args el)) (filter (\<lambda>q. q \<noteq> p) [0..<n])"
  show "calls t = calls s @ ?new" using st by (simp add: started_def)
  fix k k' q e
  assume k: "k \<in> set (calls s)" "open_vote k q e" and "k' \<in> set ?new"
  moreover have "\<not> (q = p \<and> e = length (elections (nodes s ! p)))"
    using open_vote_election [OF i k(1), of p e] k(2) by (auto simp: open_vote_def)
  ultimately show "\<not> open_vote k' q e" by auto
qed (simp add: o_def)

lemma act_election:
  assumes i: "cluster_inv n s" and p: "p < n" and a: "do_election s p = Next t"
  shows "cluster_inv n t"
proof -
  note b = inv_base [OF i]
  from do_election_started [OF b p a] obtain rf' el where st: "started n s p rf' el t" by blast
  note nt = started_nodes [OF st] and g = started_granted [OF st]
  from st have rf': "good_step (rft (nodes s ! p)) rf'" "currentTerm rf' = currentTerm (rft (nodes s ! p)) + 1"
    "votedFor rf' = int p" "role rf' = CANDIDATE" by (simp_all add: started_def)
  have "votes_ok n t"
  proof (rule votes_step)
    show "votes_ok n s" using i by (simp add: cluster_inv_def)
    show "\<forall>v<n. vote_step (rft (nodes s ! v)) (rft (nodes t ! v))"
    proof (intro allI impI)
      fix v show "vote_step (rft (nodes s ! v)) (rft (nodes t ! v))"
        using rf'(1) by (cases "v = p") (simp_all add: nt good_step_def vote_step_refl)
    qed
  qed (use g p rf' nt in auto)
  moreover have "leaders_ok n t"
  proof (rule leaders_step)
    show "leaders_ok n s" using i by (simp add: cluster_inv_def)
    fix q assume "q < n" "role (rft (nodes t ! q)) = LEADER"
    then show "role_step (rft (nodes s ! q)) (rft (nodes t ! q)) \<or>
      (\<exists>V. majority n V \<and> (\<forall>v\<in>V. granted t v (currentTerm (rft (nodes t ! q))) q))"
      using rf'(4) by (cases "q = p") (auto simp: nt role_step_def)
  qed (simp add: g)
  moreover have "tally_ok n t" "once_ok t"
    using started_tally [OF b p st] started_once [OF b st] i by (simp_all add: cluster_inv_def)
  ultimately show ?thesis
    using election_base [OF b p a] by (simp add: cluster_inv_def base_inv_def)
qed

lemma casts_insert:
  assumes "i < length ks" "cast (ks ! i) = None" "cast k = Some x"
  shows "casts (ks[i := k]) = insert x (casts ks)"
proof -
  have "y \<in> casts (ks[i := k]) \<longleftrightarrow> y = x \<or> y \<in> casts ks" for y
  proof
    assume "y \<in> casts (ks[i := k])"
    then obtain k' where "k' \<in> set (ks[i := k])" "cast k' = Some y" by (auto simp: casts_def)
    then show "y = x \<or> y \<in> casts ks"
      using set_update_subset_insert [of ks i k] assms(3) by (auto simp: casts_def)
  next
    assume "y = x \<or> y \<in> casts ks"
    then show "y \<in> casts (ks[i := k])"
    proof
      assume "y \<in> casts ks"
      then obtain j where j: "j < length ks" "cast (ks ! j) = Some y" by (auto simp: casts_def in_set_conv_nth)
      with assms(2) have "j \<noteq> i" by auto
      with j have "cast ((ks[i := k]) ! j) = Some y" by simp
      moreover have "(ks[i := k]) ! j \<in> set (ks[i := k])" using j(1) by (intro nth_mem) simp
      ultimately show ?thesis unfolding casts_def by blast
    qed (use assms set_update_memI [of i ks k] in \<open>auto simp: casts_def\<close>)
  qed
  then show ?thesis by blast
qed

text \<open>A peer grants a vote: it is the first one it gives in that term, or it repeats one.\<close>

lemma deliver_vote:
  assumes i: "cluster_inv n s" and k: "k < length (calls s)" "c_req (calls s ! k) = RequestVote_rpc args"
      "c_status (calls s ! k) = Pending"
    and r: "RequestVote (rft (nodes s ! c_peer (calls s ! k))) args = Some (rf', reply)"
    and t: "t = set_status (set_rft s (c_peer (calls s ! k)) rf') k (Replied (RequestVote_reply reply))"
  shows "cluster_inv n t"
proof -
  let ?k = "calls s ! k" and ?p = "c_peer (calls s ! k)"
  have p: "?p < n" using inv_call [OF inv_base [OF i] k(1)] by (simp add: call_ok_def)
  note nd = inv_node [OF inv_base [OF i] p]
  note rv = RequestVote_good [OF nd(2) r]
  have nt: "nodes t = (nodes s)[?p := (nodes s ! ?p)\<lparr>rft := rf'\<rparr>]" by (simp add: t)
  have ct: "calls t = (calls s)[k := ?k\<lparr>c_status := Replied (RequestVote_reply reply)\<rparr>]" by (simp add: t)
  have mc: "mild_calls n (calls s) (calls t)"
    unfolding ct using k by (intro mc_update) (simp_all add: same_shape_def)
  have no: "cast ?k = None" using k by (simp add: cast_def)
  show ?thesis
  proof (cases "rvr_VoteGranted reply")
    case False
    have "quiet n s t"
    proof (rule quietI [OF inv_base [OF i] p nt])
      show "casts (calls t) = casts (calls s)"
        unfolding ct using k False no by (intro casts_update) (simp_all add: cast_def)
    qed (use rv(1) mc in auto)
    with i show ?thesis by (rule quiet_inv)
  next
    case True
    have ca: "casts (calls t) = insert (?p, rv_Term args, rv_CandidateId args) (casts (calls s))"
      unfolding ct using k no True by (intro casts_insert) (auto simp: cast_def)
    have e: "elections (nodes t ! q) = elections (nodes s ! q)" for q
      by (cases "q = ?p") (auto simp: nt p nd(1))
    have g: "granted t v j c \<longleftrightarrow> granted s v j c \<or> (v = ?p \<and> j = rv_Term args \<and> int c = rv_CandidateId args)"
      for v j c
    proof -
      have "length (nodes t) = length (nodes s)" by (simp add: nt)
      then show ?thesis by (auto simp: granted_alt ca e)
    qed
    have np: "rft (nodes t ! ?p) = rf'" using nt p nd(1) by simp
    have nq: "q \<noteq> ?p \<Longrightarrow> nodes t ! q = nodes s ! q" for q using nt by simp
    have gs: "good_step (rft (nodes s ! q)) (rft (nodes t ! q))" if "q < n" for q
      using rv(1) inv_node(2) [OF inv_base [OF i] that] by (cases "q = ?p") (simp_all add: np nq)
    have "nodes_ok n s" using i by (simp add: cluster_inv_def)
    then have "nodes_ok n t"
      by (rule nodes_ok_update [OF _ p nt]) (use rv(1) nd in \<open>auto simp: good_step_def vote_step_def\<close>)
    then have "mild n s t"
      using mc gs by (simp add: mild_def e good_step_def)
    with i show ?thesis
    proof (rule mild_inv)
      fix v j c assume "granted t v j c"
      then show "granted s v j c \<or> (v < n \<and> currentTerm (rft (nodes t ! v)) = j \<and>
        votedFor (rft (nodes t ! v)) = int c \<and>
        (currentTerm (rft (nodes s ! v)) < j \<or> votedFor (rft (nodes s ! v)) \<in> {-1, int c}))"
        using rv(2) [OF True] p by (auto simp: g np)
    qed (use g gs e in \<open>auto simp: good_step_def\<close>)
  qed
qed

lemma act_deliver:
  assumes i: "cluster_inv n s" and k: "k < length (calls s)" and a: "do_deliver s k = Next t"
  shows "cluster_inv n t"
proof -
  let ?k = "calls s ! k" and ?p = "c_peer (calls s ! k)"
  have co: "?p < n" "rpc_ok (c_req ?k)" using inv_call [OF inv_base [OF i] k] by (auto simp: call_ok_def)
  note nd = inv_node [OF inv_base [OF i] co(1)]
  have pend: "c_status ?k = Pending" using a by (auto simp: do_deliver_def Let_def split: status.splits)
  show ?thesis
  proof (cases "c_req ?k")
    case (RequestVote_rpc args)
    with a pend obtain rf' reply where
      "RequestVote (rft (nodes s ! ?p)) args = Some (rf', reply)"
      "t = set_status (set_rft s ?p rf') k (Replied (RequestVote_reply reply))"
      by (auto simp: do_deliver_def Let_def from_option_Next)
    with deliver_vote [OF i k RequestVote_rpc pend] show ?thesis by blast
  next
    case (AppendEntries_rpc args)
    with a pend obtain rf' reply where
      r: "AppendEntries (rft (nodes s ! ?p)) args = Some (rf', reply)"
      "t = set_status (set_rft s ?p rf') k (Replied (AppendEntries_reply reply))"
      by (auto simp: do_deliver_def Let_def from_option_Next)
    have gs: "good_step (rft (nodes s ! ?p)) rf'"
      using AppendEntries_good [OF nd(2) _ r(1)] co(2) AppendEntries_rpc by simp
    have "quiet n s t"
      by (rule quiet_status [OF inv_base [OF i] k refl _ _ co(1), of "Replied (AppendEntries_reply reply)" "(nodes s ! ?p)\<lparr>rft := rf'\<rparr>"])
        (simp_all add: AppendEntries_rpc pend gs r(2))
    with i show ?thesis by (rule quiet_inv)
  next
    case (InstallSnapshot_rpc args)
    obtain rf' reply msg where r: "InstallSnapshot (rft (nodes s ! ?p)) args = (rf', reply, msg)"
      by (metis surj_pair)
    let ?nd = "(nodes s ! ?p)\<lparr>rft := rf', snapshots := snapshots (nodes s ! ?p) @ (case msg of None \<Rightarrow> [] | Some m \<Rightarrow> [m])\<rparr>"
    have t: "t = set_status (set_node s ?p ?nd) k (Replied (InstallSnapshot_reply reply))"
      using a pend InstallSnapshot_rpc r by (simp add: do_deliver_def Let_def)
    have "quiet n s t"
      by (rule quiet_status [OF inv_base [OF i] k refl _ _ co(1), of "Replied (InstallSnapshot_reply reply)" ?nd])
        (simp_all add: InstallSnapshot_rpc pend t InstallSnapshot_good [OF nd(2) r])
    with i show ?thesis by (rule quiet_inv)
  qed
qed

text \<open>A counted vote: the voter joins the voters of the election, and its call is closed.\<close>

lemma tally_vote:
  assumes i: "cluster_inv n s" and k: "k < length (calls s)" "c_req (calls s ! k) = RequestVote_rpc args"
      "c_status (calls s ! k) = Replied (RequestVote_reply reply)"
    and p: "p = c_caller (calls s ! k)" and e: "e = c_election (calls s ! k)"
    and c: "rvr_VoteGranted reply"
    and ct: "calls t = (calls s)[k := (calls s ! k)\<lparr>c_status := Returned (RequestVote_reply reply)\<rparr>] @ fr"
      "list_all (fresh_call n) fr"
    and g: "\<And>v j c. granted s v j c \<Longrightarrow> granted t v j c"
    and el: "grantedVote (elections (nodes t ! p) ! e) = grantedVote (elections (nodes s ! p) ! e) + 1"
      "el_args (elections (nodes t ! p) ! e) = el_args (elections (nodes s ! p) ! e)"
  shows "\<exists>V. tally n t p e V"
proof -
  let ?k = "calls s ! k" and ?v = "c_peer (calls s ! k)" and ?el = "elections (nodes s ! p) ! e"
  have co: "p < n" "?v < n" "e < length (elections (nodes s ! p))" "args = el_args ?el"
    using inv_call [OF inv_base [OF i] k(1)] k(2) p e by (auto simp: call_ok_def)
  have "tally_ok n s" using i by (simp add: cluster_inv_def)
  with co(1,3) obtain V where V: "tally n s p e V" unfolding tally_ok_def by blast
  have ov: "open_vote ?k p e" using k p e by (simp add: open_vote_def)
  then have nv: "?v \<notin> V" using V k(1) by (simp add: tally_def)
  have fin: "finite V" using V by (auto simp: tally_def intro: finite_subset)
  have "rv_CandidateId args = int p"
    using inv_node(5) [OF inv_base [OF i] co(1), of ?el] co(3,4) by simp
  then have "cast ?k = Some (?v, el_term ?el, int p)"
    using k c co(4) by (simp add: cast_def el_term_def)
  then have gv: "granted s ?v (el_term ?el) p" using k(1) by (auto simp: granted_def)
  have "c_peer k' \<notin> insert ?v V" if k': "k' \<in> set (calls t)" "open_vote k' p e" for k'
  proof -
    have "k' \<notin> set fr" using ct(2) k'(2) by (auto simp: list_all_iff fresh_not_open)
    with k'(1) ct(1) obtain j where j: "j < length (calls s)"
      "k' = (calls s)[k := ?k\<lparr>c_status := Returned (RequestVote_reply reply)\<rparr>] ! j"
      by (auto simp: in_set_conv_nth)
    have "j \<noteq> k" using j k'(2) k(1) by (auto simp: open_vote_def)
    with j have k'': "k' = calls s ! j" by simp
    moreover have "once_ok s" using i by (simp add: cluster_inv_def)
    ultimately have "c_peer k' \<noteq> ?v" using \<open>j \<noteq> k\<close> j(1) k(1) k'(2) ov by (auto simp: once_ok_def)
    moreover have "c_peer k' \<notin> V" using V k'' j(1) k'(2) by (auto simp: tally_def)
    ultimately show ?thesis by simp
  qed
  then have "tally n t p e (insert ?v V)"
    using V nv fin gv g co(2) el by (auto simp: tally_def el_term_def)
  then show ?thesis ..
qed

text \<open>How a call returns: to a peer that restarted, with the reply to a vote request, or with another reply.\<close>

definition voted :: "('c, 's) cluster \<Rightarrow> nat \<Rightarrow> RequestVoteReply \<Rightarrow> ('c, 's) raft \<Rightarrow> election \<Rightarrow> (nat \<times> ('c, 's) rpc) list \<Rightarrow> ('c, 's) cluster" where
  "voted s k reply rf' el' out = (let p = c_caller (calls s ! k); e = c_election (calls s ! k) in
     send (set_status (set_node s p ((nodes s ! p)\<lparr>rft := rf', elections := (elections (nodes s ! p))[e := el']\<rparr>))
       k (Returned (RequestVote_reply reply))) p 0 out)"

lemma do_return_cases:
  assumes i: "base_inv n s" and k: "k < length (calls s)" and a: "do_return s k = Next t"
  obtains (restarted) r where "c_status (calls s ! k) = Replied r" "t = set_status s k (Lost (Some r))"
  | (vote) args reply rf' el' out where "c_req (calls s ! k) = RequestVote_rpc args"
      "c_status (calls s ! k) = Replied (RequestVote_reply reply)"
      "requestVote_return (rft (nodes s ! c_caller (calls s ! k)))
         (elections (nodes s ! c_caller (calls s ! k)) ! c_election (calls s ! k)) (Some reply) = Some (rf', el', out)"
      "t = voted s k reply rf' el' out" "c_epoch (calls s ! k) = epoch (nodes s ! c_caller (calls s ! k))"
  | (other) r rf' where "c_status (calls s ! k) = Replied r" "good_step (rft (nodes s ! c_caller (calls s ! k))) rf'"
      "t = set_status (set_rft s (c_caller (calls s ! k)) rf') k (Returned r)"
proof -
  let ?k = "calls s ! k" and ?p = "c_caller (calls s ! k)"
  have p: "?p < n" using inv_call [OF i k] by (simp add: call_ok_def)
  note nd = inv_node(2) [OF i p]
  obtain r where st: "c_status ?k = Replied r"
    using a by (auto simp: do_return_def Let_def split: status.splits)
  show thesis
  proof (cases "c_epoch ?k = epoch (nodes s ! ?p)")
    case False
    with a st show thesis by (intro restarted) (auto simp: do_return_def Let_def)
  next
    case ep: True
    show thesis
    proof (cases "c_req ?k")
      case (RequestVote_rpc args)
      from a st ep RequestVote_rpc show thesis
        by (auto simp: do_return_def voted_def Let_def from_option_Next split: rpc_reply.splits intro: vote)
    next
      case (AppendEntries_rpc args)
      with a st ep show thesis
        by (auto simp: do_return_def Let_def from_option_Next split: rpc_reply.splits intro: other [OF _ appendEntry_return_good [OF nd]])
    next
      case (InstallSnapshot_rpc args)
      with a st ep show thesis
        by (auto simp: do_return_def Let_def from_option_Next split: rpc_reply.splits intro: other [OF _ installSnapshot_return_good [OF nd]])
    qed
  qed
qed

text \<open>The reply to a vote request changes the votes cast only by its sender's count.\<close>

lemma reply_mild:
  assumes i: "base_inv n s" and k: "k < length (calls s)" "c_req (calls s ! k) = RequestVote_rpc args"
      "c_status (calls s ! k) = Replied (RequestVote_reply reply)"
    and p: "p < n" and e: "e < length (elections (nodes s ! p))"
    and nt: "nodes t = (nodes s)[p := (nodes s ! p)\<lparr>rft := rf', elections := (elections (nodes s ! p))[e := el']\<rparr>]"
    and ct: "calls t = (calls s)[k := (calls s ! k)\<lparr>c_status := Returned (RequestVote_reply reply)\<rparr>] @ fr"
    and fr: "list_all (fresh_call n) fr" and rf': "node_ok rf'" "vote_step (rft (nodes s ! p)) rf'"
    and el': "el_args el' = el_args (elections (nodes s ! p) ! e)"
  shows "mild n s t" "granted t v j c = granted s v j c"
proof -
  note nd = inv_node [OF i p]
  have np: "nodes t ! p = (nodes s ! p)\<lparr>rft := rf', elections := (elections (nodes s ! p))[e := el']\<rparr>" using nt p nd(1) by simp
  have nq: "nodes t ! q = nodes s ! q" if "q \<noteq> p" for q using nt that by simp
  have me: "map el_args (elections (nodes t ! q)) = map el_args (elections (nodes s ! q))" for q
  proof (cases "q = p")
    case True
    have "map el_args ((elections (nodes s ! p))[e := el']) = map el_args (elections (nodes s ! p))"
      using e el' by (simp add: map_update list_update_same_conv)
    with True show ?thesis by (simp add: np)
  qed (simp add: nq)
  have mt: "(\<exists>el\<in>set (elections (nodes t ! q)). el_term el = j) = (\<exists>el\<in>set (elections (nodes s ! q)). el_term el = j)"
    for q j using arg_cong [OF me [of q], of set] by (auto simp: el_term_def image_iff set_eq_iff) metis+
  have "cast ((calls s ! k)\<lparr>c_status := Returned (RequestVote_reply reply)\<rparr>) = cast (calls s ! k)" using k by (simp add: cast_status)
  then have ca: "casts (calls t) = casts (calls s)" using k(1) fr by (simp add: ct casts_append casts_update)
  have "length (nodes t) = length (nodes s)" by (simp add: nt)
  then show "granted t v j c = granted s v j c" by (simp add: granted_alt ca mt)
  have "mild_calls n (calls s) (calls t)"
    unfolding ct using k fr by (intro mc_append mc_update) (auto simp: same_shape_def)
  moreover have "el \<in> set ((elections (nodes s ! p))[e := el']) \<Longrightarrow> rv_CandidateId (el_args el) = int p" for el
    using set_update_subset_insert [of "elections (nodes s ! p)" e el'] nd(5) e el' by fastforce
  then have "nodes_ok n t"
    using i rf' nd(3,4) by (intro nodes_ok_update [OF _ p nt]) (auto simp: vote_step_def base_inv_def)
  moreover have "vote_step (rft (nodes s ! q)) (rft (nodes t ! q))" for q
    using rf'(2) by (cases "q = p") (simp_all add: np nq)
  ultimately show "mild n s t" using me by (simp add: mild_def)
qed

lemma return_vote:
  assumes i: "cluster_inv n s" and k: "k < length (calls s)" "c_req (calls s ! k) = RequestVote_rpc args"
      "c_status (calls s ! k) = Replied (RequestVote_reply reply)"
    and p: "p = c_caller (calls s ! k)" and e: "e = c_election (calls s ! k)"
    and ns: "\<not> rvr_Term reply > rv_Term args"
    and r: "requestVote_return (rft (nodes s ! p)) (elections (nodes s ! p) ! e) (Some reply) = Some (rf', el', out)"
    and t: "t = voted s k reply rf' el' out"
  shows "cluster_inv n t"
proof -
  let ?el = "elections (nodes s ! p) ! e" and ?nd = "(nodes s ! p)\<lparr>rft := rf', elections := (elections (nodes s ! p))[e := el']\<rparr>"
  note b = inv_base [OF i]
  have co: "p < n" "e < length (elections (nodes s ! p))" "args = el_args ?el"
    using inv_call [OF b k(1)] k(2) p e by (auto simp: call_ok_def)
  note nd = inv_node [OF b co(1)]
  have "\<not> stale_reply ?el reply" using ns co(3) by (simp add: stale_reply_def)
  note rv = requestVote_return_good [OF r nd(2) this]
  obtain fr where nt: "nodes t = (nodes s)[p := ?nd]" and fr: "list_all (fresh_call n) fr"
    and ct: "calls t = (calls s)[k := (calls s ! k)\<lparr>c_status := Returned (RequestVote_reply reply)\<rparr>] @ fr"
    using sends_fresh [OF rv(3) nd(3,4) co(1)] co(1) nd(1) by (intro that) (simp_all add: t voted_def Let_def p e)
  have np: "nodes t ! p = ?nd" using nt co(1) nd(1) by simp
  have nq: "nodes t ! q = nodes s ! q" if "q \<noteq> p" for q using nt that by simp
  note m = reply_mild [OF b k co(1,2) nt ct fr rv(1,2,4)]
  have tl: "\<exists>V. tally n t p e V" if "counts ?el reply"
    using that rv(4,5) co(2) m(2)
    by (intro tally_vote [OF i k p e _ ct fr]) (auto simp: counts_def np)
  from i m(1) show ?thesis
  proof (rule mild_inv)
    fix q assume q: "q < n" "role (rft (nodes t ! q)) = LEADER"
    show "role_step (rft (nodes s ! q)) (rft (nodes t ! q)) \<or>
      (\<exists>V. majority n V \<and> (\<forall>v\<in>V. granted t v (currentTerm (rft (nodes t ! q))) q))"
    proof (cases "q = p \<and> \<not> role_step (rft (nodes s ! p)) rf'")
      case True
      with q rv(6) have w: "currentTerm rf' = rv_Term (el_args ?el)" "peers (rft (nodes s ! p)) div 2 < grantedVote el'"
        "counts ?el reply" by (auto simp: np)
      with tl obtain V where V: "tally n t p e V" by blast
      with w co(2) nd(4) rv(4) have "majority n V" "\<forall>v\<in>V. granted t v (currentTerm rf') p"
        by (auto simp: tally_def majority_def np el_term_def)
      then show ?thesis using True by (auto simp: np)
    qed (cases "q = p"; simp add: np nq role_step_def)
  next
    fix q e' assume "q < n" "e' < length (elections (nodes s ! q))"
    then show "grantedVote (elections (nodes t ! q) ! e') = grantedVote (elections (nodes s ! q) ! e') \<or>
      (\<exists>V. tally n t q e' V)"
      using tl rv(5) by (cases "q = p"; cases "e' = e"; cases "counts ?el reply") (auto simp: np nq)
  qed (simp_all add: m(2))
qed

lemma act_return:
  assumes i: "cluster_inv n s" and k: "k < length (calls s)" and a: "do_return s k = Next t"
    and ns: "\<not> term_setback (Return k) s"
  shows "cluster_inv n t"
proof -
  let ?p = "c_caller (calls s ! k)"
  note b = inv_base [OF i]
  have p: "?p < n" using inv_call [OF b k] by (simp add: call_ok_def)
  from b k a show ?thesis
  proof (cases rule: do_return_cases)
    case (restarted r)
    have "quiet n s t"
      by (rule quiet_status [OF b k refl _ _ p, of "Lost (Some r)" "nodes s ! ?p"])
        (use inv_node [OF b p] restarted in simp_all)
    with i show ?thesis by (rule quiet_inv)
  next
    case (vote args reply rf' el' out)
    then have "\<not> rvr_Term reply > rv_Term args" using ns k by simp
    from return_vote [OF i k vote(1,2) refl refl this vote(3,4)] show ?thesis .
  next
    case (other r rf')
    have "quiet n s t"
      by (rule quiet_status [OF b k refl _ _ p, of "Returned r" "(nodes s ! ?p)\<lparr>rft := rf'\<rparr>"]) (use other in simp_all)
    with i show ?thesis by (rule quiet_inv)
  qed
qed

section \<open>What no action breaks\<close>

lemma deliver_base:
  assumes i: "base_inv n s" and k: "k < length (calls s)" and a: "do_deliver s k = Next t"
  shows "base_inv n t"
proof -
  let ?k = "calls s ! k" and ?p = "c_peer (calls s ! k)"
  have co: "?p < n" "rpc_ok (c_req ?k)" using inv_call [OF i k] by (auto simp: call_ok_def)
  note nd = inv_node [OF i co(1)]
  have pend: "c_status ?k = Pending" using a by (auto simp: do_deliver_def Let_def split: status.splits)
  obtain rf' st nd' where nt: "nodes t = (nodes s)[?p := nd']" "rft nd' = rf'"
      "elections nd' = elections (nodes s ! ?p)"
    and ct: "calls t = (calls s)[k := ?k\<lparr>c_status := st\<rparr>]" and g: "good_step (rft (nodes s ! ?p)) rf'"
  proof (cases "c_req ?k")
    case (RequestVote_rpc args)
    with a pend obtain rf' reply where "RequestVote (rft (nodes s ! ?p)) args = Some (rf', reply)"
      "t = set_status (set_rft s ?p rf') k (Replied (RequestVote_reply reply))"
      by (auto simp: do_deliver_def Let_def from_option_Next)
    with RequestVote_good(1) [OF nd(2)] show thesis
      by (intro that [of "(nodes s ! ?p)\<lparr>rft := rf'\<rparr>" rf']) simp_all
  next
    case (AppendEntries_rpc args)
    with a pend obtain rf' reply where "AppendEntries (rft (nodes s ! ?p)) args = Some (rf', reply)"
      "t = set_status (set_rft s ?p rf') k (Replied (AppendEntries_reply reply))"
      by (auto simp: do_deliver_def Let_def from_option_Next)
    with AppendEntries_good [OF nd(2)] co(2) AppendEntries_rpc show thesis
      by (intro that [of "(nodes s ! ?p)\<lparr>rft := rf'\<rparr>" rf']) simp_all
  next
    case (InstallSnapshot_rpc args)
    obtain rf' reply msg where r: "InstallSnapshot (rft (nodes s ! ?p)) args = (rf', reply, msg)"
      by (metis surj_pair)
    let ?nd = "(nodes s ! ?p)\<lparr>rft := rf', snapshots := snapshots (nodes s ! ?p) @ (case msg of None \<Rightarrow> [] | Some m \<Rightarrow> [m])\<rparr>"
    from a pend InstallSnapshot_rpc r have "t = set_status (set_node s ?p ?nd) k (Replied (InstallSnapshot_reply reply))"
      by (simp add: do_deliver_def Let_def)
    with InstallSnapshot_good [OF nd(2) r] show thesis by (intro that [of ?nd rf']) simp_all
  qed
  show ?thesis
  proof (rule base_step [OF i co(1) nt(1)])
    show "mild_calls n (calls s) (calls t)"
      unfolding ct using k pend by (intro mc_update) (simp_all add: same_shape_def)
  qed (use g nd nt in \<open>auto simp: good_step_def vote_step_def\<close>)
qed

lemma requestVote_return_node:
  assumes "requestVote_return rf el (Some reply) = Some (rf', el', out)" "node_ok rf"
  shows "node_ok rf'" "me rf' = me rf" "peers rf' = peers rf" "el_args el' = el_args el" "sends rf out"
proof -
  have "node_ok rf' \<and> me rf' = me rf \<and> peers rf' = peers rf \<and> el_args el' = el_args el \<and> sends rf out"
  proof (cases "stale_reply el reply")
    case True
    then have "rf' = setNewTerm rf (rv_Term (el_args el))" "el' = el" "out = []"
      using assms(1) by (auto simp: requestVote_return_def stale_reply_def)
    with assms(2) show ?thesis by (simp add: node_ok_def setNewTerm_def persist_def synced_def SaveRaftState_def encodeRaftState_def)
  next
    case False
    from requestVote_return_good [OF assms False] show ?thesis by (simp add: vote_step_def)
  qed
  then show "node_ok rf'" "me rf' = me rf" "peers rf' = peers rf" "el_args el' = el_args el" "sends rf out"
    by auto
qed

lemma return_base:
  assumes i: "base_inv n s" and k: "k < length (calls s)" and a: "do_return s k = Next t"
  shows "base_inv n t"
proof -
  let ?k = "calls s ! k" and ?p = "c_caller (calls s ! k)" and ?e = "c_election (calls s ! k)"
  have p: "?p < n" using inv_call [OF i k] by (simp add: call_ok_def)
  note nd = inv_node [OF i p]
  from i k a obtain nd' st' fr r where nt: "nodes t = (nodes s)[?p := nd']" "node_ok (rft nd')" "me (rft nd') = ?p"
      "peers (rft nd') = n" "map el_args (elections nd') = map el_args (elections (nodes s ! ?p))"
    and ct: "calls t = (calls s)[k := ?k\<lparr>c_status := st'\<rparr>] @ fr" and fr: "list_all (fresh_call n) fr"
    and st: "c_status ?k = Replied r"
  proof (cases rule: do_return_cases)
    case (restarted r)
    with nd show thesis by (intro that [of "nodes s ! ?p" "Lost (Some r)" "[]" r]) simp_all
  next
    case (vote args reply rf' el' out)
    have e: "?e < length (elections (nodes s ! ?p))" using inv_call [OF i k] vote(1) by (simp add: call_ok_def)
    note rv = requestVote_return_node [OF vote(3) nd(2)]
    have "map el_args ((elections (nodes s ! ?p))[?e := el']) = map el_args (elections (nodes s ! ?p))"
      using e rv(4) by (simp add: map_update list_update_same_conv)
    then show thesis
      using rv nd p sends_fresh [OF rv(5) nd(3,4) p] vote(2)
      by (intro that [of "(nodes s ! ?p)\<lparr>rft := rf', elections := (elections (nodes s ! ?p))[?e := el']\<rparr>"])
        (simp_all add: vote(4) voted_def Let_def)
  next
    case (other r rf')
    then show thesis
      using nd by (intro that [of "(nodes s ! ?p)\<lparr>rft := rf'\<rparr>" "Returned r" "[]" r]) (auto simp: good_step_def vote_step_def)
  qed
  have "mild_calls n (calls s) (calls t)"
    unfolding ct using k fr st by (intro mc_append mc_update) (auto simp: same_shape_def)
  then show ?thesis by (rule base_step [OF i p nt])
qed

lemma base_act:
  assumes i: "base_inv n s" and a: "act a s = Next t"
  shows "base_inv n t"
proof -
  have len: "length (nodes s) = n" using i by (simp add: base_inv_def nodes_ok_def)
  show ?thesis
    using i a len
    by (cases a) (auto split: if_splits intro: election_base deliver_base return_base
        quiet_base act_heartbeat act_start act_snapshot act_install act_apply_take act_apply_done
        act_restart act_lose)
qed

text \<open>No request, however late or duplicated it arrives, makes its receiver panic.\<close>

lemma deliver_no_panic:
  assumes i: "base_inv n s" and k: "k < length (calls s)"
  shows "do_deliver s k \<noteq> Panic"
proof -
  let ?p = "c_peer (calls s ! k)"
  have co: "?p < n" "rpc_ok (c_req (calls s ! k))" using inv_call [OF i k] by (auto simp: call_ok_def)
  have nd: "node_ok (rft (nodes s ! ?p))" using inv_node(2) [OF i co(1)] .
  have "logs (rft (nodes s ! ?p)) \<noteq> []" using node_ok_logs [OF nd] .
  then have "RequestVote (rft (nodes s ! ?p)) args \<noteq> None" for args
    by (simp add: RequestVote_def Let_def)
  moreover have "AppendEntries (rft (nodes s ! ?p)) args \<noteq> None" if "c_req (calls s ! k) = AppendEntries_rpc args" for args
    using AppendEntries_no_panic [of "rft (nodes s ! ?p)" args] nd co(2) that by (simp add: node_ok_def)
  ultimately show ?thesis
    by (cases "c_req (calls s ! k)"; cases "c_status (calls s ! k)")
      (auto simp: do_deliver_def Let_def from_option_def split: option.splits prod.splits)
qed

section \<open>Every reachable state\<close>

lemma inv_act:
  assumes i: "cluster_inv n s" and ns: "\<not> term_setback a s" and a: "act a s = Next t"
  shows "cluster_inv n t"
proof -
  have len: "length (nodes s) = n" using i by (simp add: cluster_inv_def nodes_ok_def)
  show ?thesis
    using i a ns len
    by (cases a) (auto split: if_splits simp del: term_setback.simps intro: act_election act_deliver act_return
        quiet_inv inv_base act_heartbeat act_start act_snapshot act_install act_apply_take act_apply_done
        act_restart act_lose)
qed

lemma init_node_fields:
  "rft (init_node n p) = \<lparr>peers = n, persister = MakePersister, me = p, dead = False, role = FOLLOWER,
     currentTerm = 0, votedFor = -1, electionTimer = 0, heartbeatTimer = 0, logs = [zero_entry],
     commitIndex = 0, LastApplied = 0, nextIndex = replicate n 0, matchIndex = replicate n 0, applyCond = False\<rparr>"
  "elections (init_node n p) = []"
  by (simp_all add: init_node_def Make_def readPersist_def ReadRaftState_def MakePersister_def Let_def)

lemma e_Index_zero [simp]: "e_Index zero_entry = 0"
  by (simp add: zero_entry_def)

lemma init_inv: "cluster_inv n (init_cluster n)"
proof -
  have "node_ok (rft (init_node n p))" if "p < n" for p
    using that by (simp add: init_node_fields node_ok_def synced_def MakePersister_def e_Index_zero)
  then have "nodes_ok n (init_cluster n)"
    by (auto simp: nodes_ok_def init_cluster_def init_node_fields)
  moreover have "\<not> granted (init_cluster n) v j c" for v j c
    by (auto simp: granted_def init_cluster_def init_node_fields)
  ultimately show ?thesis
    by (auto simp: cluster_inv_def votes_ok_def tally_ok_def once_ok_def leaders_ok_def init_cluster_def init_node_fields)
qed

lemma reachable_base: "reachable n s \<Longrightarrow> base_inv n s"
  by (induction rule: reachable.induct) (auto intro: inv_base init_inv base_act)

lemma reachable_ns_inv: "reachable_ns n s \<Longrightarrow> cluster_inv n s"
  by (induction rule: reachable_ns.induct) (auto intro: init_inv inv_act)

lemma inv_one_leader:
  assumes i: "cluster_inv n s" and p: "p < n" "q < n"
    and "role (rft (nodes s ! p)) = LEADER" "role (rft (nodes s ! q)) = LEADER"
    and "currentTerm (rft (nodes s ! p)) = currentTerm (rft (nodes s ! q))"
  shows "p = q"
proof -
  have lo: "leaders_ok n s" using i by (simp add: cluster_inv_def)
  from lo p(1) assms(4) obtain A where "majority n A" "\<forall>v\<in>A. granted s v (currentTerm (rft (nodes s ! p))) p"
    unfolding leaders_ok_def by blast
  moreover from lo p(2) assms(5) obtain B where "majority n B" "\<forall>v\<in>B. granted s v (currentTerm (rft (nodes s ! q))) q"
    unfolding leaders_ok_def by blast
  moreover have "granted s v i c \<Longrightarrow> granted s v i c' \<Longrightarrow> c = c'" for v i c c'
    using i by (auto simp: cluster_inv_def votes_ok_def)
  ultimately show ?thesis
    using maj.agreement [of n A B "\<lambda>v c. granted s v (currentTerm (rft (nodes s ! p))) c" p q]
      assms(6) by auto
qed

section \<open>Two leaders in one term\<close>

text \<open>
  Peer 0 stands in term 1 and peer 1 in terms 1 and 2. Peer 0 votes for peer 1 in term 2,
  which makes peer 1 leader of term 2. Then peer 0's own request of term 1 comes back with
  the higher term of peer 1: peer 0 returns to term 1 and forgets its vote. Peer 2, which has
  heard of nobody, stands up to term 2, and peer 0 votes a second time in term 2.
\<close>

definition setback_run :: "(nat, nat) action list" where
  "setback_run =
     [ElectionTimeout 0, ElectionTimeout 1, ElectionTimeout 1, Deliver 0, Deliver 4, Return 4,
      Return 0, ElectionTimeout 2, ElectionTimeout 2, Deliver 10, Return 10]"

definition two_leaders :: "('c, 's) cluster outcome \<Rightarrow> nat \<Rightarrow> nat \<Rightarrow> int \<Rightarrow> bool" where
  "two_leaders r p q t = (case r of
     Next s \<Rightarrow> GetState (rft (nodes s ! p)) = (t, True) \<and> GetState (rft (nodes s ! q)) = (t, True)
   | _ \<Rightarrow> False)"

lemma setback_run_two_leaders: "two_leaders (run setback_run (init_cluster 3)) 1 2 2"
  by code_simp

section \<open>Properties of the cluster\<close>

text \<open>A run with no setback on the way.\<close>

fun run_ns :: "('c, 's) action list \<Rightarrow> ('c, 's) cluster \<Rightarrow> ('c, 's) cluster outcome" where
  "run_ns [] s = Next s"
| "run_ns (a # as) s = (if term_setback a s then Disabled
     else case act a s of Next t \<Rightarrow> run_ns as t | r \<Rightarrow> r)"

lemma run_ns_reachable: "reachable_ns n s \<Longrightarrow> run_ns as s = Next t \<Longrightarrow> reachable_ns n t"
  by (induction as arbitrary: s) (auto split: outcome.splits if_splits intro: ns_step)

lemma outcome_NextI: "(case r of Next s \<Rightarrow> P s | _ \<Rightarrow> False) \<Longrightarrow> \<exists>s. r = Next s \<and> P s"
  by (cases r) auto

lemma one_candidate:
  "\<exists>s :: (nat, nat) cluster. reachable 3 s \<and> length (calls s) = 2 \<and>
     currentTerm (rft (nodes s ! 0)) = 1 \<and> votedFor (rft (nodes s ! 0)) = 0"
proof -
  have "case run [ElectionTimeout 0] (init_cluster 3 :: (nat, nat) cluster) of
      Next s \<Rightarrow> length (calls s) = 2 \<and> currentTerm (rft (nodes s ! 0)) = 1 \<and>
        votedFor (rft (nodes s ! 0)) = 0 | _ \<Rightarrow> False"
    by code_simp
  then show ?thesis by (blast dest: outcome_NextI intro: run_reachable reach_init)
qed

text \<open>
  C2: Election safety. In a cluster of any size, after any interleaving of timeouts, message
  deliveries, losses, returns, client commands, snapshots and restarts in which no vote call
  returned with a term above the one it was asked for, two peers that both report to be
  leader of the same term are the same peer.
\<close>

theorem election_safety:
  assumes "reachable_ns n s" "p < n" "q < n"
    and "GetState (rft (nodes s ! p)) = (t, True)" "GetState (rft (nodes s ! q)) = (t, True)"
  shows "p = q"
  using inv_one_leader [OF reachable_ns_inv [OF assms(1)] assms(2,3)] assms(4,5)
  by (simp add: GetState_def)

theorem election_safety_witness:
  "\<exists>s :: (nat, nat) cluster. reachable_ns 3 s \<and> GetState (rft (nodes s ! 0)) = (1, True) \<and>
     (\<forall>q\<in>{0, 1, 2}. GetState (rft (nodes s ! q)) = (1, True) \<longrightarrow> q = 0)"
proof -
  have "case run_ns [ElectionTimeout 0, Deliver 0, Return 0] (init_cluster 3 :: (nat, nat) cluster) of
      Next s \<Rightarrow> GetState (rft (nodes s ! 0)) = (1, True) | _ \<Rightarrow> False"
    by code_simp
  then obtain s :: "(nat, nat) cluster" where
    "run_ns [ElectionTimeout 0, Deliver 0, Return 0] (init_cluster 3) = Next s"
    and l: "GetState (rft (nodes s ! 0)) = (1, True)"
    by (blast dest: outcome_NextI)
  then have r: "reachable_ns 3 s" by (blast intro: run_ns_reachable ns_init)
  have "GetState (rft (nodes s ! q)) = (1, True) \<longrightarrow> q = 0" if "q \<in> {0, 1, 2}" for q
    using election_safety [OF r, of q 0 1] l that by auto
  with r l show ?thesis by blast
qed

text \<open>
  C32: With a term setback election safety fails: a cluster of three peers reaches a state in
  which peers 1 and 2 are both leader of term 2. The setback is \<open>rf.setNewTerm(args.Term)\<close>
  on a reply of a higher term, where the reply's term was meant.
\<close>

theorem setback_breaks_election_safety:
  "\<exists>s :: (nat, nat) cluster. reachable 3 s \<and>
     GetState (rft (nodes s ! 1)) = (2, True) \<and> GetState (rft (nodes s ! 2)) = (2, True)"
proof -
  from setback_run_two_leaders obtain s where s: "run setback_run (init_cluster 3) = Next s"
    "GetState (rft (nodes s ! 1)) = (2, True)" "GetState (rft (nodes s ! 2)) = (2, True)"
    by (auto simp: two_leaders_def split: outcome.splits)
  moreover have "reachable 3 s" using run_reachable [OF reach_init s(1)] .
  ultimately show ?thesis by blast
qed

text \<open>
  A peer votes once per term. Two vote requests of one term that the same peer has granted,
  whatever happened to their replies since, were sent by the same candidate, also when the
  peer crashed and restarted in between.
\<close>

theorem one_vote_per_term:
  assumes "reachable_ns n s" "k \<in> set (calls s)" "k' \<in> set (calls s)"
    and "cast k = Some (v, t, c)" "cast k' = Some (v, t, c')"
  shows "c = c'"
proof -
  have i: "cluster_inv n s" using assms(1) by (rule reachable_ns_inv)
  have own: "\<exists>d. c = int d" if "k \<in> set (calls s)" "cast k = Some (v, t, c)" for k v t c
  proof -
    have "call_ok n s k" using i that(1) by (simp add: cluster_inv_def)
    with that(2) show ?thesis
      using inv_node(5) [OF inv_base [OF i], of "c_caller k"]
      by (cases "c_req k") (auto simp: cast_def call_ok_def split: option.splits rpc_reply.splits if_splits)
  qed
  from own [OF assms(2,4)] own [OF assms(3,5)] obtain d d' where d: "c = int d" "c' = int d'" by blast
  then have "granted s v t d" "granted s v t d'" using assms(2-5) by (auto simp: granted_def)
  moreover have "votes_ok n s" using i by (simp add: cluster_inv_def)
  ultimately have "d = d'" unfolding votes_ok_def by blast
  with d show ?thesis by simp
qed

definition vote_demo :: "(nat, nat) action list" where
  "vote_demo = [ElectionTimeout 0, ElectionTimeout 1, Deliver 1, Restart 2, Deliver 3, Return 1]"

theorem one_vote_per_term_witness:
  "\<exists>s :: (nat, nat) cluster. reachable_ns 3 s \<and> cast (calls s ! 1) = Some (2, 1, 0) \<and>
     (\<forall>k\<in>set (calls s). \<forall>c. cast k = Some (2, 1, c) \<longrightarrow> 0 = c)"
proof -
  have "case run_ns vote_demo (init_cluster 3) of
      Next s \<Rightarrow> 1 < length (calls s) \<and> cast (calls s ! 1) = Some (2, 1, 0) | _ \<Rightarrow> False"
    by code_simp
  then obtain s where "run_ns vote_demo (init_cluster 3) = Next s"
    and l: "1 < length (calls s)" "cast (calls s ! 1) = Some (2, 1, 0)"
    by (blast dest: outcome_NextI)
  then have r: "reachable_ns 3 s" by (blast intro: run_ns_reachable ns_init)
  have "0 = c" if "k \<in> set (calls s)" "cast k = Some (2, 1, c)" for k c
    using one_vote_per_term [OF r nth_mem [OF l(1)] that(1) l(2) that(2)] .
  with r l(2) show ?thesis by blast
qed

text \<open>
  Crash recovery. In every reachable state, a peer that is stopped and restarted from its
  persister comes back without a panic as a follower with exactly the term, the vote and the
  log it had, with nothing marked as committed or applied beyond its snapshot.
\<close>

theorem restart_recovers:
  assumes "reachable n s" "p < n"
  shows "\<exists>t. act (Restart p) s = Next t \<and>
     currentTerm (rft (nodes t ! p)) = currentTerm (rft (nodes s ! p)) \<and>
     votedFor (rft (nodes t ! p)) = votedFor (rft (nodes s ! p)) \<and>
     logs (rft (nodes t ! p)) = logs (rft (nodes s ! p)) \<and>
     role (rft (nodes t ! p)) = FOLLOWER \<and>
     commitIndex (rft (nodes t ! p)) = first_index (logs (rft (nodes s ! p))) \<and>
     LastApplied (rft (nodes t ! p)) = first_index (logs (rft (nodes s ! p)))"
proof -
  note nd = inv_node [OF reachable_base [OF assms(1)] assms(2)]
  let ?rf = "rft (nodes s ! p)"
  have "synced ?rf" "logs ?rf \<noteq> []" using nd(2) by (auto simp: node_ok_def)
  from Make_restores [OF this, of "peers ?rf" "me ?rf"] obtain rf' where
    "Make (peers ?rf) (me ?rf) (persister ?rf) = Some rf'" "currentTerm rf' = currentTerm ?rf"
    "votedFor rf' = votedFor ?rf" "logs rf' = logs ?rf" "role rf' = FOLLOWER"
    "commitIndex rf' = first_index (logs ?rf)" "LastApplied rf' = first_index (logs ?rf)" by blast
  then show ?thesis using nd(1) assms(2) by (auto simp: do_restart_def from_option_def Let_def)
qed

theorem restart_recovers_witness:
  "\<exists>s t :: (nat, nat) cluster. reachable 3 s \<and> act (Restart 0) s = Next t \<and>
     currentTerm (rft (nodes t ! 0)) = 1 \<and> votedFor (rft (nodes t ! 0)) = 0"
proof -
  from one_candidate obtain s :: "(nat, nat) cluster" where "reachable 3 s"
    "currentTerm (rft (nodes s ! 0)) = 1" "votedFor (rft (nodes s ! 0)) = 0" by blast
  then show ?thesis using restart_recovers [of 3 s 0] by auto
qed

text \<open>
  C20: No request panics its receiver. In every reachable state, delivering any outstanding
  request, however late it comes and however the receiver's log was truncated, compacted or
  restored since, runs its handler to the end.
\<close>

theorem deliver_never_panics:
  assumes "reachable n s"
  shows "act (Deliver k) s \<noteq> Panic"
  using deliver_no_panic [OF reachable_base [OF assms]] by simp

theorem deliver_never_panics_witness:
  "\<exists>s :: (nat, nat) cluster. reachable 3 s \<and> length (calls s) = 2 \<and>
     act (Deliver 0) s \<noteq> Panic \<and> act (Deliver 1) s \<noteq> Panic"
proof -
  from one_candidate obtain s :: "(nat, nat) cluster" where "reachable 3 s" "length (calls s) = 2" by blast
  then show ?thesis using deliver_never_panics [of 3 s] by blast
qed

text \<open>
  The run that panics a leader. Peer 0 leads term 1 and appends two entries nobody else sees.
  Peer 1 leads term 2, replicates two entries to peer 2, commits and compacts them, and is
  elected again in term 3. Its two heartbeats name index 2, of term 2, as the previous entry;
  the second one finds peer 0 with an entry of term 1 there, and peer 1 searches its own log,
  which now starts at index 2, for an entry of term 1.
\<close>

definition compaction_run :: "(nat, nat) action list" where
  "compaction_run =
     [ElectionTimeout 0, Deliver 0, Return 0, ClientStart 0 7, ClientStart 0 8,
      ElectionTimeout 1, Deliver 9, Return 9, ClientStart 1 17, ClientStart 1 18, Deliver 15, Return 15,
      TakeSnapshot 1 2 [], ElectionTimeout 1, Deliver 17, Return 17, HeartbeatTimeout 1,
      Deliver 18, Deliver 20]"

text \<open>
  C35: A leader that has compacted its log can be made to panic by a follower's reply: a cluster
  of three peers reaches, without any term setback, a state in which the return of one
  AppendEntries call ends in an index out of range in \<open>findLastLogInXTerm\<close>.
\<close>

theorem compacted_leader_panics:
  "\<exists>s :: (nat, nat) cluster. reachable_ns 3 s \<and> role (rft (nodes s ! 1)) = LEADER \<and> act (Return 20) s = Panic"
proof -
  have "case run_ns compaction_run (init_cluster 3) of
      Next s \<Rightarrow> role (rft (nodes s ! 1)) = LEADER \<and> (case act (Return 20) s of Panic \<Rightarrow> True | _ \<Rightarrow> False) | _ \<Rightarrow> False"
    by code_simp
  then obtain s where "run_ns compaction_run (init_cluster 3) = Next s" "role (rft (nodes s ! 1)) = LEADER"
    "(case act (Return 20) s of Panic \<Rightarrow> True | _ \<Rightarrow> False)"
    by (blast dest: outcome_NextI)
  moreover from this(3) have "act (Return 20) s = Panic" by (cases "act (Return 20) s") auto
  ultimately show ?thesis by (blast intro: run_ns_reachable ns_init)
qed

end
