(* ===== verification/Raft_History.thy ===== *)
theory Raft_History
  imports Raft_Votes "HOL-Library.Sublist"
begin

text \<open>
  The history behind the logs of a cluster, and the argument that makes Raft safe. A history has
  the log \<open>L T\<close> of the leader of each term \<open>T\<close> (empty when the term has none), for each peer \<open>p\<close>
  its whole log \<open>G p\<close> (with the part a snapshot has compacted away), and the set \<open>A\<close> of
  acceptances: \<open>(q, P) \<in> A\<close> when peer \<open>q\<close> held the log \<open>P\<close> during the term of its last entry. A
  log that a majority accepted is chosen. The theory shows from the history alone that the log of
  every later leader extends a chosen log, and that two chosen logs agree.
\<close>

section \<open>Logs of leaders\<close>

definition last_term :: "'c entry list \<Rightarrow> int" where
  "last_term G = e_Term (last G)"

definition coherent :: "(int \<Rightarrow> 'c entry list) \<Rightarrow> bool" where
  "coherent L \<longleftrightarrow> L 0 = [zero_entry] \<and> (\<forall>T<0. L T = []) \<and>
     (\<forall>T. \<forall>j<length (L T). e_Index (L T ! j) = int j \<and> e_Term (L T ! j) \<le> T \<and>
        (0 < j \<longrightarrow> e_Command (L T ! j) \<noteq> None) \<and> prefix (take (Suc j) (L T)) (L (e_Term (L T ! j))))"

text \<open>A log that some leader wrote.\<close>

definition known :: "(int \<Rightarrow> 'c entry list) \<Rightarrow> 'c entry list \<Rightarrow> bool" where
  "known L G \<longleftrightarrow> G \<noteq> [] \<and> prefix G (L (last_term G))"

lemma known_prefix:
  assumes "coherent L" "prefix X (L T)" "X \<noteq> []"
  shows "known L X \<and> last_term X \<le> T"
proof -
  let ?j = "length X - 1"
  have j: "?j < length (L T)" using assms(2,3) prefix_length_le [OF assms(2)] by (cases X) auto
  have X: "X = take (Suc ?j) (L T)" using assms(2,3) by (cases X) (auto simp: prefix_def)
  have "last X = L T ! ?j" using arg_cong [OF X, of last] j by (simp add: take_Suc_conv_app_nth)
  then have "prefix (take (Suc ?j) (L T)) (L (last_term X)) \<and> last_term X \<le> T"
    using assms(1) j by (simp add: coherent_def last_term_def)
  with X assms(3) show ?thesis by (simp add: known_def)
qed

lemma known_sub:
  assumes "coherent L" "known L G" "prefix X G" "X \<noteq> []"
  shows "known L X" "last_term X \<le> last_term G"
  using known_prefix [OF assms(1) _ assms(4), of "last_term G"] assms(2,3)
  by (auto simp: known_def dest: prefix_order.trans)

lemma known_nonneg: "coherent L \<Longrightarrow> known L G \<Longrightarrow> 0 \<le> last_term G"
  unfolding coherent_def known_def by (metis not_less prefix_Nil)

lemma known_index:
  assumes "coherent L" "known L G" "j < length G"
  shows "e_Index (G ! j) = int j" "e_Term (G ! j) \<le> last_term G" "0 < j \<Longrightarrow> e_Command (G ! j) \<noteq> None"
proof -
  from assms(2) obtain R where R: "L (last_term G) = G @ R" by (auto simp: known_def prefix_def)
  then have "G ! j = L (last_term G) ! j" "j < length (L (last_term G))" using assms(3) by (simp_all add: nth_append)
  with assms(1) show "e_Index (G ! j) = int j" "e_Term (G ! j) \<le> last_term G" "0 < j \<Longrightarrow> e_Command (G ! j) \<noteq> None"
    by (simp_all add: coherent_def)
qed

lemma same_length_prefix: "prefix X Z \<Longrightarrow> prefix Y Z \<Longrightarrow> length X = length Y \<Longrightarrow> X = Y"
  by (metis append_eq_append_conv prefix_def)

lemma shorter_prefix: "prefix X Z \<Longrightarrow> prefix Y Z \<Longrightarrow> length X \<le> length Y \<Longrightarrow> prefix X Y"
  by (rule prefix_length_prefix)

text \<open>Log matching: an entry's index and term determine the log up to it.\<close>

lemma log_matching:
  assumes "known L X" "known L Y" "length X = length Y" "last_term X = last_term Y"
  shows "X = Y"
  using assms by (auto simp: known_def intro: same_length_prefix)

lemma known_mono: "known L X \<Longrightarrow> (\<And>T. prefix (L T) (L' T)) \<Longrightarrow> known L' X"
  unfolding known_def using prefix_order.trans by blast

lemma parallel_mono: "parallel X Y \<Longrightarrow> prefix Y Z \<Longrightarrow> parallel X Z"
  by (metis append_Nil2 parallel_appendI prefix_def)

section \<open>What later terms keep of a log\<close>

text \<open>
  \<open>G\<close> extends \<open>X\<close>, or \<open>X\<close> was overruled: a leader of a later term, up to \<open>\<tau>\<close>, has another entry
  where \<open>X\<close> has one.
\<close>

definition kept :: "(int \<Rightarrow> 'c entry list) \<Rightarrow> 'c entry list \<Rightarrow> 'c entry list \<Rightarrow> int \<Rightarrow> bool" where
  "kept L X G \<tau> \<longleftrightarrow> prefix X G \<or> (\<exists>t. last_term X < t \<and> t \<le> \<tau> \<and> parallel X (L t))"

definition keeps :: "(int \<Rightarrow> 'c entry list) \<Rightarrow> 'c entry list \<Rightarrow> 'c entry list \<Rightarrow> int \<Rightarrow> bool" where
  "keeps L G G' \<tau> \<longleftrightarrow> (\<forall>X. X \<noteq> [] \<longrightarrow> prefix X G \<longrightarrow> kept L X G' \<tau>)"

lemma keeps_prefix: "prefix G G' \<Longrightarrow> keeps L G G' \<tau>"
  unfolding keeps_def kept_def using prefix_order.trans by blast

lemma kept_mono:
  assumes "kept L X G \<tau>" "\<And>T. prefix (L T) (L' T)" "\<tau> \<le> \<tau>'"
  shows "kept L' X G \<tau>'"
  using assms parallel_mono unfolding kept_def by (metis order_trans)

lemma kept_trans:
  assumes "kept L X G \<tau>" "X \<noteq> []" "keeps L' G G' \<tau>'" "\<And>T. prefix (L T) (L' T)" "\<tau> \<le> \<tau>'"
  shows "kept L' X G' \<tau>'"
proof (cases "prefix X G")
  case True
  with assms(2,3) show ?thesis by (simp add: keeps_def)
next
  case False
  with assms(1) obtain t where "last_term X < t" "t \<le> \<tau>" "parallel X (L t)" by (auto simp: kept_def)
  with assms(4,5) parallel_mono show ?thesis unfolding kept_def by (metis order_trans)
qed

lemma keeps_trans:
  assumes "keeps L G G' \<tau>" "keeps L' G' G'' \<tau>'" "\<And>T. prefix (L T) (L' T)" "\<tau> \<le> \<tau>'"
  shows "keeps L' G G'' \<tau>'"
  using assms(1) kept_trans [OF _ _ assms(2-4)] by (simp add: keeps_def)

text \<open>A follower takes over the leader's log \<open>M\<close> unless it has it already.\<close>

lemma keeps_merge:
  assumes c: "coherent L" and "known L G" "last_term G \<le> T" "prefix M (L T)"
  shows "keeps L G (if prefix M G then G else M) T"
proof (cases "prefix M G")
  case False
  have "kept L X M T" if X: "X \<noteq> []" "prefix X G" for X
  proof (cases "prefix X M")
    case no: False
    have "\<not> prefix M X" using False X(2) prefix_order.trans by blast
    with no have "parallel X M" by blast
    then have par: "parallel X (L T)" using assms(4) by (rule parallel_mono)
    moreover have "known L X" "last_term X \<le> last_term G" using known_sub [OF c assms(2) X(2,1)] .
    moreover from this par have "last_term X \<noteq> T" by (auto simp: known_def)
    ultimately have "last_term X < T" using assms(3) by linarith
    with par show ?thesis by (auto simp: kept_def)
  qed (simp add: kept_def)
  with False show ?thesis by (simp add: keeps_def)
qed (simp add: keeps_prefix)

text \<open>The log comparison of a vote: \<open>C\<close> is the candidate's log, \<open>W\<close> the voter's.\<close>

definition newer :: "'c entry list \<Rightarrow> 'c entry list \<Rightarrow> bool" where
  "newer C W \<longleftrightarrow> last_term C > last_term W \<or> last_term C = last_term W \<and> length C \<ge> length W"

lemma keeps_newer:
  assumes c: "coherent L" and "known L C" "known L W" "newer C W"
  shows "keeps L W C (last_term C)"
proof (cases "last_term C = last_term W")
  case True
  have "prefix W (L (last_term C))" "prefix C (L (last_term C))" using assms(2,3) by (simp_all add: known_def True)
  moreover have "length W \<le> length C" using assms(4) True by (simp add: newer_def)
  ultimately have "prefix W C" by (rule shorter_prefix)
  then show ?thesis by (rule keeps_prefix)
next
  case False
  with assms(4) have lt: "last_term W < last_term C" by (simp add: newer_def)
  have "kept L X C (last_term C)" if X: "X \<noteq> []" "prefix X W" for X
  proof (cases "prefix X C")
    case no: False
    have k: "known L X" "last_term X \<le> last_term W" using known_sub [OF c assms(3) X(2,1)] .
    have "\<not> prefix C X"
    proof
      assume "prefix C X"
      moreover have "C \<noteq> []" using assms(2) by (simp add: known_def)
      ultimately have "last_term C \<le> last_term X" using known_sub(2) [OF c k(1)] by simp
      with k(2) lt show False by linarith
    qed
    with no have "parallel X C" by blast
    then have "parallel X (L (last_term C))" using assms(2) by (auto simp: known_def intro: parallel_mono)
    with k(2) lt show ?thesis by (auto simp: kept_def)
  qed (simp add: kept_def)
  then show ?thesis by (simp add: keeps_def)
qed

section \<open>Chosen logs\<close>

definition chosen :: "nat \<Rightarrow> (nat \<times> 'c entry list) set \<Rightarrow> 'c entry list \<Rightarrow> bool" where
  "chosen n A Q \<longleftrightarrow> majority n {q. (q, Q) \<in> A}"

text \<open>
  The voters \<open>V\<close> that elected the leader of term \<open>T\<close>: what any of them accepted in an earlier term
  the leader's log extends, unless a leader in between overruled it.
\<close>

definition electors :: "nat \<Rightarrow> (int \<Rightarrow> 'c entry list) \<Rightarrow> (nat \<times> 'c entry list) set \<Rightarrow> int \<Rightarrow> nat set \<Rightarrow> bool" where
  "electors n L A T V \<longleftrightarrow> majority n V \<and>
     (\<forall>v\<in>V. \<forall>P. (v, P) \<in> A \<longrightarrow> last_term P < T \<longrightarrow> kept L P (L T) (T - 1))"

definition hist_ok ::
  "nat \<Rightarrow> (nat \<Rightarrow> int) \<Rightarrow> (int \<Rightarrow> 'c entry list) \<Rightarrow> (nat \<Rightarrow> 'c entry list) \<Rightarrow> (nat \<times> 'c entry list) set \<Rightarrow> bool" where
  "hist_ok n cT L G A \<longleftrightarrow> coherent L \<and>
     (\<forall>p<n. known L (G p) \<and> last_term (G p) \<le> cT p) \<and>
     (\<forall>q P. (q, P) \<in> A \<longrightarrow> q < n \<and> known L P \<and> last_term P \<le> cT q \<and> kept L P (G q) (cT q)) \<and>
     (\<forall>q<n. \<forall>P. P \<noteq> [] \<longrightarrow> prefix P (G q) \<longrightarrow> last_term P = cT q \<longrightarrow> (q, P) \<in> A) \<and>
     (\<forall>T>0. L T \<noteq> [] \<longrightarrow> (\<exists>V. electors n L A T V \<and> (\<forall>v\<in>V. T \<le> cT v)))"

lemma hist_okD:
  assumes "hist_ok n cT L G A"
  shows "coherent L" "p < n \<Longrightarrow> known L (G p)" "p < n \<Longrightarrow> last_term (G p) \<le> cT p"
    "(q, P) \<in> A \<Longrightarrow> q < n" "(q, P) \<in> A \<Longrightarrow> known L P" "(q, P) \<in> A \<Longrightarrow> last_term P \<le> cT q"
    "(q, P) \<in> A \<Longrightarrow> kept L P (G q) (cT q)"
    "q < n \<Longrightarrow> P \<noteq> [] \<Longrightarrow> prefix P (G q) \<Longrightarrow> last_term P = cT q \<Longrightarrow> (q, P) \<in> A"
    "0 < T \<Longrightarrow> L T \<noteq> [] \<Longrightarrow> \<exists>V. electors n L A T V \<and> (\<forall>v\<in>V. T \<le> cT v)"
  using assms unfolding hist_ok_def by blast+

lemma chosen_known:
  assumes "hist_ok n cT L G A" "chosen n A Q"
  shows "known L Q"
proof -
  have "{q. (q, Q) \<in> A} \<noteq> {}" using assms(2) by (auto simp: chosen_def majority_def)
  with hist_okD(5) [OF assms(1)] show ?thesis by blast
qed

theorem leader_extends_chosen:
  assumes h: "hist_ok n cT L G A" and q: "chosen n A Q" and T: "L T \<noteq> []" "last_term Q \<le> T"
  shows "prefix Q (L T)"
  using T
proof (induction "nat T" arbitrary: T rule: less_induct)
  case less
  note k = chosen_known [OF h q] and c = hist_okD(1) [OF h]
  show ?case
  proof (cases "last_term Q = T")
    case True
    with k show ?thesis by (auto simp: known_def)
  next
    case False
    with less.prems(2) known_nonneg [OF c k] have lt: "last_term Q < T" "0 < T" by linarith+
    from hist_okD(9) [OF h lt(2) less.prems(1)] obtain V where V: "electors n L A T V" by blast
    from majority_meets [of n V "{v. (v, Q) \<in> A}"] V q obtain v where "v \<in> V" "(v, Q) \<in> A"
      by (auto simp: electors_def chosen_def)
    with V lt have "kept L Q (L T) (T - 1)" by (simp add: electors_def)
    moreover have "\<not> parallel Q (L t)" if t: "last_term Q < t" "t \<le> T - 1" for t
    proof
      assume par: "parallel Q (L t)"
      then have "L t \<noteq> []" by auto
      moreover have "nat t < nat T" using t lt by simp
      ultimately have "prefix Q (L t)" using less.hyps t by simp
      with par show False by blast
    qed
    ultimately show ?thesis by (auto simp: kept_def)
  qed
qed

theorem chosen_agree:
  assumes h: "hist_ok n cT L G A" and "chosen n A Q" "chosen n A R"
  shows "prefix Q R \<or> prefix R Q"
proof -
  have *: "prefix Q R \<or> prefix R Q" if q: "chosen n A Q" "chosen n A R" "last_term Q \<le> last_term R" for Q R
  proof -
    have "known L R" using chosen_known [OF h q(2)] .
    then have R: "prefix R (L (last_term R))" "L (last_term R) \<noteq> []" by (auto simp: known_def)
    from leader_extends_chosen [OF h q(1) R(2) q(3)] R(1) show ?thesis using prefix_same_cases by blast
  qed
  show ?thesis using * [OF assms(2,3)] * [OF assms(3,2)] by linarith
qed

text \<open>A peer that installs the snapshot of a chosen log \<open>K\<close> longer than its own.\<close>

lemma keeps_reset:
  assumes h: "hist_ok n cT L G A" and "known L F" "chosen n A Q" "prefix K Q" "length F < length K" "last_term Q \<le> \<tau>"
  shows "keeps L F K \<tau>"
  unfolding keeps_def
proof (intro allI impI)
  fix X assume X: "X \<noteq> []" "prefix X F"
  note c = hist_okD(1) [OF h]
  show "kept L X K \<tau>"
  proof (cases "prefix X K")
    case False
    have "length X < length K" using prefix_length_le [OF X(2)] assms(5) by simp
    then have "\<not> prefix K X" using prefix_length_le by fastforce
    with False have "parallel X K" by blast
    then have par: "parallel X Q" using assms(4) by (rule parallel_mono)
    have k: "known L X" using known_sub [OF c assms(2) X(2,1)] by simp
    have "\<not> last_term Q \<le> last_term X"
    proof
      assume le: "last_term Q \<le> last_term X"
      have "prefix X (L (last_term X))" "L (last_term X) \<noteq> []" using k by (auto simp: known_def)
      with leader_extends_chosen [OF h assms(3) _ le] par show False by (meson parallelE prefix_same_cases)
    qed
    moreover have "parallel X (L (last_term Q))"
      using chosen_known [OF h assms(3)] par by (auto simp: known_def intro: parallel_mono)
    ultimately show ?thesis using assms(6) by (auto simp: kept_def)
  qed (simp add: kept_def)
qed

section \<open>Steps of a history\<close>

text \<open>What the peers accept in their current terms.\<close>

definition accepting :: "nat \<Rightarrow> (nat \<Rightarrow> int) \<Rightarrow> (nat \<Rightarrow> 'c entry list) \<Rightarrow> (nat \<times> 'c entry list) set" where
  "accepting n cT G = {(q, P). q < n \<and> P \<noteq> [] \<and> prefix P (G q) \<and> last_term P = cT q}"

text \<open>
  A step: the leaders' logs grow, terms do not decrease, every peer keeps its log but for what a
  later leader overruled, and a new leader has its electors.
\<close>

definition grows ::
  "nat \<Rightarrow> (nat \<Rightarrow> int) \<Rightarrow> (int \<Rightarrow> 'c entry list) \<Rightarrow> (nat \<Rightarrow> 'c entry list) \<Rightarrow>
   (nat \<Rightarrow> int) \<Rightarrow> (int \<Rightarrow> 'c entry list) \<Rightarrow> (nat \<Rightarrow> 'c entry list) \<Rightarrow> bool" where
  "grows n cT L G cT' L' G' \<longleftrightarrow> coherent L' \<and> (\<forall>T. prefix (L T) (L' T)) \<and>
     (\<forall>p<n. cT p \<le> cT' p \<and> known L' (G' p) \<and> last_term (G' p) \<le> cT' p \<and> keeps L' (G p) (G' p) (cT' p))"

lemma electors_step:
  assumes h: "hist_ok n cT L G A" and g: "grows n cT L G cT' L' G'"
    and V: "electors n L A T V" "\<forall>v\<in>V. T \<le> cT v"
  shows "electors n L' (A \<union> accepting n cT' G') T V \<and> (\<forall>v\<in>V. T \<le> cT' v)"
proof -
  have pre: "prefix (L T) (L' T)" for T using g by (simp add: grows_def)
  have le: "T \<le> cT' v" if "v \<in> V" for v
  proof -
    have "v < n" using V(1) that by (auto simp: electors_def majority_def)
    then show ?thesis using g V(2) that by (force simp: grows_def)
  qed
  have "kept L' P (L' T) (T - 1)" if "v \<in> V" "(v, P) \<in> A \<union> accepting n cT' G'" "last_term P < T" for v P
  proof -
    have "(v, P) \<in> A" using that le [OF that(1)] by (auto simp: accepting_def)
    with V(1) that have k: "kept L P (L T) (T - 1)" by (simp add: electors_def)
    have "P \<noteq> []" using hist_okD(5) [OF h \<open>(v, P) \<in> A\<close>] by (simp add: known_def)
    from kept_trans [OF k this keeps_prefix [OF pre [of T]] pre] show ?thesis by simp
  qed
  with V(1) le show ?thesis by (simp add: electors_def)
qed

lemma hist_step:
  assumes h: "hist_ok n cT L G A" and g: "grows n cT L G cT' L' G'"
    and new: "\<And>T. 0 < T \<Longrightarrow> L T = [] \<Longrightarrow> L' T \<noteq> [] \<Longrightarrow> \<exists>V. electors n L' (A \<union> accepting n cT' G') T V \<and> (\<forall>v\<in>V. T \<le> cT' v)"
  shows "hist_ok n cT' L' G' (A \<union> accepting n cT' G')"
proof -
  have c: "coherent L'" and pre: "\<And>T. prefix (L T) (L' T)"
    and p: "\<And>p. p < n \<Longrightarrow> cT p \<le> cT' p \<and> known L' (G' p) \<and> last_term (G' p) \<le> cT' p \<and> keeps L' (G p) (G' p) (cT' p)"
    using g by (simp_all add: grows_def)
  have "q < n \<and> known L' P \<and> last_term P \<le> cT' q \<and> kept L' P (G' q) (cT' q)" if a: "(q, P) \<in> A \<union> accepting n cT' G'" for q P
  proof (cases "(q, P) \<in> A")
    case True
    note d = hist_okD(4-7) [OF h True]
    have "P \<noteq> []" using d(2) by (simp add: known_def)
    with d p [OF d(1)] pre known_mono [OF d(2) pre] kept_trans [OF d(4) _ _ pre] show ?thesis by force
  next
    case False
    with a have n: "q < n" "P \<noteq> []" "prefix P (G' q)" "last_term P = cT' q" by (auto simp: accepting_def)
    with p [OF n(1)] known_sub [OF c _ n(3,2)] show ?thesis by (simp add: kept_def)
  qed
  moreover have "\<exists>V. electors n L' (A \<union> accepting n cT' G') T V \<and> (\<forall>v\<in>V. T \<le> cT' v)" if "0 < T" "L' T \<noteq> []" for T
  proof (cases "L T = []")
    case False
    from hist_okD(9) [OF h that(1) False] obtain V where "electors n L A T V" "\<forall>v\<in>V. T \<le> cT v" by blast
    with electors_step [OF h g] show ?thesis by blast
  qed (use new that in blast)
  ultimately show ?thesis unfolding hist_ok_def using c p by (auto simp: accepting_def)
qed

lemma chosen_mono:
  assumes "chosen n A Q" "A \<subseteq> A'" "\<And>q P. (q, P) \<in> A' \<Longrightarrow> q < n"
  shows "chosen n A' Q"
  using assms unfolding chosen_def by (intro majority_mono [OF assms(1) [unfolded chosen_def]]) auto

section \<open>A leader's log grows\<close>

lemma coherent_append:
  assumes c: "coherent L" and T: "L T \<noteq> []" "0 < T" and e: "e_Index e = int (length (L T))" "e_Term e = T" "e_Command e \<noteq> None"
  shows "coherent (L(T := L T @ [e]))"
proof -
  let ?L = "L(T := L T @ [e])"
  have pre: "prefix (L t) (?L t)" for t by (simp add: prefix_def)
  have "e_Index (?L t ! j) = int j \<and> e_Term (?L t ! j) \<le> t \<and> (0 < j \<longrightarrow> e_Command (?L t ! j) \<noteq> None) \<and>
    prefix (take (Suc j) (?L t)) (?L (e_Term (?L t ! j)))"
    if j: "j < length (?L t)" for t j
  proof (cases "j < length (L t)")
    case True
    with c have "e_Index (L t ! j) = int j" "e_Term (L t ! j) \<le> t" "0 < j \<longrightarrow> e_Command (L t ! j) \<noteq> None"
      "prefix (take (Suc j) (L t)) (L (e_Term (L t ! j)))"
      by (simp_all add: coherent_def)
    moreover have "?L t ! j = L t ! j" "take (Suc j) (?L t) = take (Suc j) (L t)" using True by (auto simp: nth_append)
    ultimately show ?thesis using pre prefix_order.trans by metis
  next
    case False
    with j have "t = T" "j = length (L T)" by (auto split: if_splits)
    with e show ?thesis by simp
  qed
  with c T show ?thesis by (simp add: coherent_def)
qed

lemma coherent_elect:
  assumes c: "coherent L" and "L T = []" "0 < T" "known L G" "last_term G \<le> T"
  shows "coherent (L(T := G))"
proof -
  let ?L = "L(T := G)"
  have pre: "prefix (L t) (?L t)" for t using assms(2) by simp
  have "e_Index (?L t ! j) = int j \<and> e_Term (?L t ! j) \<le> t \<and> (0 < j \<longrightarrow> e_Command (?L t ! j) \<noteq> None) \<and>
    prefix (take (Suc j) (?L t)) (?L (e_Term (?L t ! j)))"
    if j: "j < length (?L t)" for t j
  proof (cases "t = T")
    case False
    with c j have "e_Index (L t ! j) = int j" "e_Term (L t ! j) \<le> t" "0 < j \<longrightarrow> e_Command (L t ! j) \<noteq> None"
      "prefix (take (Suc j) (L t)) (L (e_Term (L t ! j)))"
      by (simp_all add: coherent_def)
    moreover have "prefix (L (e_Term (L t ! j))) (?L (e_Term (L t ! j)))" by (rule pre)
    ultimately show ?thesis using False prefix_order.trans [of "take (Suc j) (L t)"] by simp
  next
    case True
    with j have jG: "j < length G" by simp
    let ?X = "take (Suc j) G"
    have X: "prefix ?X G" "?X \<noteq> []" using jG by (auto simp: take_is_prefix)
    have "last ?X = G ! j" using jG by (simp add: take_Suc_conv_app_nth)
    then have "prefix ?X (L (e_Term (G ! j)))" using known_sub [OF c assms(4) X] by (simp add: known_def last_term_def)
    with pre have "prefix ?X (?L (e_Term (G ! j)))" using prefix_order.trans by blast
    with known_index [OF c assms(4) jG] assms(5) True show ?thesis by simp
  qed
  with c assms(3) show ?thesis by (simp add: coherent_def)
qed

end
