(* ===== verification/Raft_Views.thy ===== *)
theory Raft_Views
  imports Raft_Node Raft_History
begin

text \<open>
  The log a peer stores as a view of its whole log: where the stored entries sit in the whole log,
  and what the handlers that change the log do to it. In particular the merge of an AppendEntries
  request that carries the leader's log replaces the follower's log by the leader's, unless the
  follower's log extends it already.
\<close>

section \<open>Views of whole logs\<close>

text \<open>The log a peer stores: the whole log from its snapshot marker on, which has lost its command.\<close>

definition view :: "'c entry list \<Rightarrow> 'c entry list \<Rightarrow> bool" where
  "view G lgs \<longleftrightarrow> (\<exists>f<length G. lgs = (G ! f)\<lparr>e_Command := None\<rparr> # drop (Suc f) G)"

lemma viewE:
  assumes "view G lgs" "coherent L" "known L G"
  obtains f where "f < length G" "lgs = (G ! f)\<lparr>e_Command := None\<rparr> # drop (Suc f) G" "first_index lgs = int f"
    "last_index lgs = int (length G) - 1" "e_Term (last lgs) = last_term G" "length lgs = length G - f"
proof -
  from assms(1) obtain f where f: "f < length G" "lgs = (G ! f)\<lparr>e_Command := None\<rparr> # drop (Suc f) G"
    by (auto simp: view_def)
  note k = known_index(1) [OF assms(2,3)]
  have l: "last G = G ! (length G - 1)" using f(1) by (intro last_conv_nth) auto
  have "e_Index (last lgs) = e_Index (last G) \<and> e_Term (last lgs) = e_Term (last G)"
  proof (cases "Suc f = length G")
    case True
    then have "f = length G - 1" by simp
    with f True l show ?thesis by simp
  qed (use f in simp)
  moreover have "e_Index (last G) = int (length G) - 1" using l k [of "length G - 1"] f(1) by simp
  ultimately show thesis using f k [of f] by (intro that [of f]) (simp_all add: last_term_def)
qed

lemma view_nth:
  assumes "f < length G" "lgs = (G ! f)\<lparr>e_Command := None\<rparr> # drop (Suc f) G" "f \<le> i" "i < length G"
  shows "e_Term (lgs ! (i - f)) = e_Term (G ! i)" "f < i \<Longrightarrow> lgs ! (i - f) = G ! i"
    "e_Command (lgs ! (i - f)) \<in> {None, e_Command (G ! i)}"
  using assms by (cases "i = f"; auto simp: nth_Cons')+

lemma view_append: "view G lgs \<Longrightarrow> view (G @ [e]) (lgs @ [e])"
  unfolding view_def by (auto simp: nth_append)

lemma view_last: "K \<noteq> [] \<Longrightarrow> view K [(last K)\<lparr>e_Command := None\<rparr>]"
  unfolding view_def by (intro exI [of _ "length K - 1"]) (auto simp: last_conv_nth)

lemma merge_known:
  assumes c: "coherent L" and k: "known L G" "known L M" and "take i G = take i M" "i \<le> length G" "i \<le> length M"
  shows "merge_suffix (drop i G) (drop i M) = drop i (if prefix M G then G else M)"
  using assms(4-6)
proof (induction "length M - i" arbitrary: i)
  case 0
  then have "prefix M G" by (metis diff_is_0_eq take_all take_is_prefix)
  with 0 show ?case by simp
next
  case (Suc d)
  then have i: "i < length M" by simp
  show ?case
  proof (cases "i < length G")
    case False
    then have "\<not> prefix M G" using i prefix_length_le by fastforce
    with False show ?thesis by simp
  next
    case True
    have dr: "drop i G = G ! i # drop (Suc i) G" "drop i M = M ! i # drop (Suc i) M"
      using True i by (simp_all add: Cons_nth_drop_Suc)
    show ?thesis
    proof (cases "e_Term (G ! i) = e_Term (M ! i)")
      case te: True
      have l: "last (take (Suc i) G) = G ! i" "last (take (Suc i) M) = M ! i"
        using True i by (simp_all add: take_Suc_conv_app_nth)
      have ne: "take (Suc i) G \<noteq> []" "take (Suc i) M \<noteq> []" using True i by auto
      have tk: "take (Suc i) G = take (Suc i) M"
      proof (rule log_matching)
        show "known L (take (Suc i) G)" using known_sub(1) [OF c k(1) take_is_prefix ne(1)] .
        show "known L (take (Suc i) M)" using known_sub(1) [OF c k(2) take_is_prefix ne(2)] .
      qed (use l te True i in \<open>simp_all add: last_term_def\<close>)
      have eq: "G ! i = M ! i" using arg_cong [OF tk, of last] l by simp
      have "merge_suffix (drop (Suc i) G) (drop (Suc i) M) = drop (Suc i) (if prefix M G then G else M)"
        using Suc.hyps(2) True i tk by (intro Suc.hyps(1)) simp_all
      then have "merge_suffix (drop i G) (drop i M) = G ! i # drop (Suc i) (if prefix M G then G else M)"
        unfolding dr by (simp add: eq)
      moreover have "drop i (if prefix M G then G else M) = G ! i # drop (Suc i) (if prefix M G then G else M)"
        using dr eq by (cases "prefix M G") simp_all
      ultimately show ?thesis by simp
    next
      case False
      then have "\<not> prefix M G" using i by (auto simp: prefix_def nth_append)
      with False show ?thesis by (simp add: dr)
    qed
  qed
qed

text \<open>The AppendEntries merge on views, when the request carries the leader's log \<open>M\<close>.\<close>

lemma view_merged:
  assumes c: "coherent L" and k: "known L G" "known L M" and v: "view G lgs" and m: "prev_matches lgs args"
    and M: "0 \<le> ae_PrevLogIndex args" "int (length M) = ae_PrevLogIndex args + 1 + int (length (ae_Entries args))"
      "drop (nat (ae_PrevLogIndex args) + 1) M = ae_Entries args"
      "e_Term (M ! nat (ae_PrevLogIndex args)) = ae_PrevLogTerm args" and lo: "log_ok lgs"
  shows "view (if prefix M G then G else M) (merged lgs args)"
proof -
  let ?i = "nat (ae_PrevLogIndex args)" and ?G = "if prefix M G then G else M"
  obtain f where f: "f < length G" "lgs = (G ! f)\<lparr>e_Command := None\<rparr> # drop (Suc f) G" "first_index lgs = int f"
    "last_index lgs = int (length G) - 1" using viewE [OF v c k(1)] by metis
  note r = prev_matches_range [OF lo m]
  have i: "f \<le> ?i" "?i < length G" "?i < length M" using r(1,2) f(3,4) M(1,2) by linarith+
  have pp: "prev_pos lgs args = Suc (?i - f)" using r(1) f(3) by linarith
  then have "e_Term (G ! ?i) = e_Term (M ! ?i)" using r(6) view_nth(1) [OF f(1,2) i(1,2)] M(4) by simp
  moreover have ne: "take (Suc ?i) G \<noteq> []" "take (Suc ?i) M \<noteq> []" using i by auto
  ultimately have eq: "take (Suc ?i) G = take (Suc ?i) M"
    using known_sub(1) [OF c k(1) take_is_prefix ne(1)] known_sub(1) [OF c k(2) take_is_prefix ne(2)] i
    by (intro log_matching) (simp_all add: last_term_def take_Suc_conv_app_nth)
  then have G: "take (Suc ?i) ?G = take (Suc ?i) G" by simp
  have "merge_suffix (drop (Suc ?i) G) (ae_Entries args) = drop (Suc ?i) ?G"
    using merge_known [OF c k eq] i M(3) by (simp del: if_split)
  then have "merged lgs args = (G ! f)\<lparr>e_Command := None\<rparr> # take (?i - f) (drop (Suc f) G) @ drop (Suc ?i) ?G"
    unfolding merged_def pp using f(2) i(1) by simp
  moreover have "take (?i - f) (drop (Suc f) G) = take (?i - f) (drop (Suc f) ?G)"
    using arg_cong [OF G, of "drop (Suc f)"] i(1) by (simp add: drop_take Suc_diff_le del: if_split)
  moreover have "take (?i - f) (drop (Suc f) ?G) @ drop (Suc ?i) ?G = drop (Suc f) ?G"
    using append_take_drop_id [of "?i - f" "drop (Suc f) ?G"] i(1) by (simp del: if_split)
  moreover have "G ! f = ?G ! f" using G i by (metis le_imp_less_Suc nth_take)
  moreover have "f < length ?G" using i by simp
  ultimately show ?thesis unfolding view_def by (intro exI [of _ f]) (simp del: if_split)
qed

end
