(* ===== verification/Raft_Safety.thy ===== *)
theory Raft_Safety
  imports Raft_Election Raft_Views
begin

text \<open>
  The invariant that ties a cluster to its history (theory Raft-History): each peer's log is a
  view of its whole log, each request in flight carries a part of its leader's log, each vote was
  given to a log at least as new as the voter's, each commit index and each snapshot lies within
  a chosen log.
\<close>

section \<open>The invariant\<close>

record 'c history =
  lead :: "int \<Rightarrow> 'c entry list"
  whole :: "nat \<Rightarrow> 'c entry list"
  acc :: "(nat \<times> 'c entry list) set"
  stood :: "nat \<Rightarrow> int \<Rightarrow> 'c entry list"

definition terms :: "('c, 's) cluster \<Rightarrow> nat \<Rightarrow> int" where
  "terms s p = currentTerm (rft (nodes s ! p))"

definition won :: "nat \<Rightarrow> ('c, 's) cluster \<Rightarrow> int \<Rightarrow> nat \<Rightarrow> bool" where
  "won n s T c \<longleftrightarrow> (\<exists>V. majority n V \<and> (\<forall>v\<in>V. granted s v T c))"

text \<open>The log up to index \<open>i\<close>, whose last entry has term \<open>t\<close>, was chosen by term \<open>\<tau>\<close>.\<close>

definition snap_safe :: "nat \<Rightarrow> 'c history \<Rightarrow> int \<Rightarrow> int \<Rightarrow> int \<Rightarrow> bool" where
  "snap_safe n h \<tau> i t \<longleftrightarrow> (\<exists>K Q. chosen n (acc h) Q \<and> last_term Q \<le> \<tau> \<and> prefix K Q \<and> K \<noteq> [] \<and>
     int (length K) = i + 1 \<and> last_term K = t)"

definition commit_safe :: "nat \<Rightarrow> 'c history \<Rightarrow> int \<Rightarrow> 'c entry list \<Rightarrow> int \<Rightarrow> bool" where
  "commit_safe n h \<tau> G i \<longleftrightarrow> (\<exists>Q. chosen n (acc h) Q \<and> last_term Q \<le> \<tau> \<and> 0 \<le> i \<and> i < int (length G) \<and>
     prefix (take (nat i + 1) G) Q)"

definition decided :: "nat \<Rightarrow> 'c history \<Rightarrow> int \<Rightarrow> 'c \<Rightarrow> bool" where
  "decided n h i c \<longleftrightarrow> (\<exists>Q. chosen n (acc h) Q \<and> 0 \<le> i \<and> nat i < length Q \<and> e_Command (Q ! nat i) = Some c)"

text \<open>What a leader knows of its followers: beyond the commit index, what they acknowledged they accepted.\<close>

definition acks_safe :: "nat \<Rightarrow> 'c history \<Rightarrow> nat \<Rightarrow> ('c, 's) raft \<Rightarrow> bool" where
  "acks_safe n h p rf \<longleftrightarrow> (\<forall>q<n. q \<noteq> p \<longrightarrow> matchIndex rf ! q < int (length (whole h p)) \<and> (\<forall>P. P \<noteq> [] \<longrightarrow> prefix P (whole h p) \<longrightarrow> last_term P = currentTerm rf \<longrightarrow>
     commitIndex rf < int (length P) - 1 \<longrightarrow> int (length P) - 1 \<le> matchIndex rf ! q \<longrightarrow> (q, P) \<in> acc h))"

definition role_safe :: "nat \<Rightarrow> 'c history \<Rightarrow> nat \<Rightarrow> ('c, 's) node \<Rightarrow> bool" where
  "role_safe n h p nd \<longleftrightarrow>
     (role (rft nd) = LEADER \<longrightarrow> 0 < currentTerm (rft nd) \<and> lead h (currentTerm (rft nd)) = whole h p \<and>
        acks_safe n h p (rft nd)) \<and>
     (role (rft nd) = CANDIDATE \<longrightarrow> (\<exists>el\<in>set (elections nd). el_term el = currentTerm (rft nd)) \<and>
        keeps (lead h) (stood h p (currentTerm (rft nd))) (whole h p) (currentTerm (rft nd)))"

definition stand_safe :: "'c history \<Rightarrow> nat \<Rightarrow> RequestVoteArgs \<Rightarrow> bool" where
  "stand_safe h p a \<longleftrightarrow> 0 < rv_Term a \<and> known (lead h) (stood h p (rv_Term a)) \<and> last_term (stood h p (rv_Term a)) < rv_Term a \<and>
     rv_LastLogIndex a = int (length (stood h p (rv_Term a))) - 1 \<and> rv_LastLogTerm a = last_term (stood h p (rv_Term a))"

definition apply_safe :: "nat \<Rightarrow> 'c history \<Rightarrow> ('c, 's) node \<Rightarrow> bool" where
  "apply_safe n h nd \<longleftrightarrow>
     (\<forall>es c. sending nd = Some (es, c) \<longrightarrow> (\<forall>e\<in>set es. \<forall>x. e_Command e = Some x \<longrightarrow> decided n h (e_Index e) x)) \<and>
     (\<forall>m\<in>set (delivered nd). \<forall>x. CommandValid m \<longrightarrow> Command m = Some x \<longrightarrow> decided n h (CommandIndex m) x)"

definition node_safe :: "nat \<Rightarrow> 'c history \<Rightarrow> nat \<Rightarrow> ('c, 's) node \<Rightarrow> bool" where
  "node_safe n h p nd \<longleftrightarrow> 0 \<le> currentTerm (rft nd) \<and> view (whole h p) (logs (rft nd)) \<and> role_safe n h p nd \<and>
     (\<forall>el\<in>set (elections nd). stand_safe h p (el_args el)) \<and>
     (\<forall>m\<in>set (snapshots nd). \<not> CommandValid m \<and> snap_safe n h (currentTerm (rft nd)) (SnapshotIndex m) (SnapshotTerm m)) \<and>
     commit_safe n h (currentTerm (rft nd)) (whole h p) (commitIndex (rft nd)) \<and> apply_safe n h nd"

text \<open>A replication request carries a part \<open>M\<close> of its leader's log; its success was an acceptance.\<close>

definition append_safe :: "nat \<Rightarrow> 'c history \<Rightarrow> 'c AppendEntriesArgs \<Rightarrow> 'c entry list \<Rightarrow> bool" where
  "append_safe n h a M \<longleftrightarrow> 0 < ae_Term a \<and> prefix M (lead h (ae_Term a)) \<and> 0 \<le> ae_PrevLogIndex a \<and>
     int (length M) = ae_PrevLogIndex a + 1 + int (length (ae_Entries a)) \<and>
     drop (nat (ae_PrevLogIndex a) + 1) M = ae_Entries a \<and> e_Term (M ! nat (ae_PrevLogIndex a)) = ae_PrevLogTerm a \<and>
     commit_safe n h (ae_Term a) M (ae_LeaderCommit a)"

definition acked :: "'c history \<Rightarrow> nat \<Rightarrow> int \<Rightarrow> 'c entry list \<Rightarrow> bool" where
  "acked h q T M \<longleftrightarrow> (\<forall>P. P \<noteq> [] \<longrightarrow> prefix P M \<longrightarrow> last_term P = T \<longrightarrow> (q, P) \<in> acc h)"

definition succeeded :: "('c, 's) call \<Rightarrow> bool" where
  "succeeded k \<longleftrightarrow> (\<exists>r. reply_of (c_status k) = Some (AppendEntries_reply r) \<and> aer_Success r)"

definition call_safe :: "nat \<Rightarrow> 'c history \<Rightarrow> ('c, 's) cluster \<Rightarrow> ('c, 's) call \<Rightarrow> bool" where
  "call_safe n h s k \<longleftrightarrow> (case c_req k of
     RequestVote_rpc a \<Rightarrow> True
   | AppendEntries_rpc a \<Rightarrow> won n s (ae_Term a) (c_caller k) \<and>
       (\<exists>M. append_safe n h a M \<and> (succeeded k \<longrightarrow> acked h (c_peer k) (ae_Term a) M))
   | InstallSnapshot_rpc a \<Rightarrow> snap_safe n h (is_Term a) (is_LastIncludedIndex a) (is_LastIncludedTerm a) \<and>
       is_LastIncludedIndex a \<le> first_index (logs (rft (nodes s ! c_caller k))))"

text \<open>A vote in a term that has no leader yet: the voter's log \<open>W\<close> was not newer than the candidate's.\<close>

definition vote_safe :: "'c history \<Rightarrow> nat \<Rightarrow> int \<Rightarrow> nat \<Rightarrow> bool" where
  "vote_safe h v T c \<longleftrightarrow> (\<exists>W. known (lead h) W \<and> newer (stood h c T) W \<and>
     (\<forall>P. (v, P) \<in> acc h \<longrightarrow> last_term P < T \<longrightarrow> kept (lead h) P W (T - 1)))"

definition elected_safe :: "nat \<Rightarrow> ('c, 's) cluster \<Rightarrow> int \<Rightarrow> bool" where
  "elected_safe n s T \<longleftrightarrow> (\<exists>c<n. won n s T c \<and> T \<le> terms s c \<and> (T = terms s c \<longrightarrow> role (rft (nodes s ! c)) \<noteq> CANDIDATE))"

definition safe :: "nat \<Rightarrow> 'c history \<Rightarrow> ('c, 's) cluster \<Rightarrow> bool" where
  "safe n h s \<longleftrightarrow> hist_ok n (terms s) (lead h) (whole h) (acc h) \<and>
     (\<forall>p<n. node_safe n h p (nodes s ! p)) \<and> (\<forall>k\<in>set (calls s). call_safe n h s k) \<and>
     (\<forall>v T c. granted s v T c \<longrightarrow> lead h T = [] \<longrightarrow> vote_safe h v T c) \<and>
     (\<forall>T>0. lead h T \<noteq> [] \<longrightarrow> elected_safe n s T)"

section \<open>Later histories\<close>

definition hist_le :: "nat \<Rightarrow> 'c history \<Rightarrow> 'c history \<Rightarrow> bool" where
  "hist_le n h h' \<longleftrightarrow> (\<forall>T. prefix (lead h T) (lead h' T)) \<and> acc h \<subseteq> acc h' \<and> (\<forall>q P. (q, P) \<in> acc h' \<longrightarrow> q < n)"

lemma hist_le_trans: "hist_le n h h' \<Longrightarrow> hist_le n h' h'' \<Longrightarrow> hist_le n h h''"
  unfolding hist_le_def using prefix_order.trans by blast

lemma chosen_later: "hist_le n h h' \<Longrightarrow> chosen n (acc h) Q \<Longrightarrow> chosen n (acc h') Q"
  using chosen_mono [of n "acc h" Q "acc h'"] by (auto simp: hist_le_def)

lemma known_later: "hist_le n h h' \<Longrightarrow> known (lead h) X \<Longrightarrow> known (lead h') X"
  using known_mono [of "lead h" X "lead h'"] by (simp add: hist_le_def)

lemma snap_later: "hist_le n h h' \<Longrightarrow> snap_safe n h \<tau> i t \<Longrightarrow> \<tau> \<le> \<tau>' \<Longrightarrow> snap_safe n h' \<tau>' i t"
  unfolding snap_safe_def using chosen_later order_trans by blast

lemma commit_later: "hist_le n h h' \<Longrightarrow> commit_safe n h \<tau> G i \<Longrightarrow> \<tau> \<le> \<tau>' \<Longrightarrow> commit_safe n h' \<tau>' G i"
  unfolding commit_safe_def using chosen_later order_trans by blast

lemma decided_later: "hist_le n h h' \<Longrightarrow> decided n h i c \<Longrightarrow> decided n h' i c"
  unfolding decided_def using chosen_later by blast

lemma apply_later: "hist_le n h h' \<Longrightarrow> apply_safe n h nd \<Longrightarrow> apply_safe n h' nd"
  using decided_later [of n h h'] by (auto simp: apply_safe_def)

lemma acked_later: "hist_le n h h' \<Longrightarrow> acked h q T M \<Longrightarrow> acked h' q T M"
  by (auto simp: acked_def hist_le_def)

lemma append_later: "hist_le n h h' \<Longrightarrow> append_safe n h a M \<Longrightarrow> append_safe n h' a M"
  using commit_later [of n h h' "ae_Term a" M "ae_LeaderCommit a"]
  by (auto simp: append_safe_def hist_le_def intro: prefix_order.trans)

lemma stand_later:
  "hist_le n h h' \<Longrightarrow> stand_safe h p a \<Longrightarrow> stood h' p (rv_Term a) = stood h p (rv_Term a) \<Longrightarrow> stand_safe h' p a"
  using known_later [of n h h'] by (simp add: stand_safe_def)

lemma keeps_later: "hist_le n h h' \<Longrightarrow> keeps (lead h) G G' \<tau> \<Longrightarrow> keeps (lead h') G G' \<tau>"
  using kept_mono [of "lead h" _ G' \<tau> "lead h'" \<tau>] by (simp add: keeps_def hist_le_def)

lemma role_later:
  assumes "hist_le n h h'" "role_safe n h p nd" "whole h' p = whole h p" "stood h' p = stood h p"
    "role (rft nd) = LEADER \<Longrightarrow> lead h' (currentTerm (rft nd)) = lead h (currentTerm (rft nd))"
  shows "role_safe n h' p nd"
  using assms keeps_later [OF assms(1)] by (auto simp: role_safe_def acks_safe_def hist_le_def)

lemma node_later:
  assumes le: "hist_le n h h'" and "node_safe n h p nd" "whole h' p = whole h p" "stood h' p = stood h p"
    "role (rft nd) = LEADER \<Longrightarrow> lead h' (currentTerm (rft nd)) = lead h (currentTerm (rft nd))"
  shows "node_safe n h' p nd"
  using assms(2,3,4) role_later [OF le _ assms(3-5)] stand_later [OF le] snap_later [OF le] commit_later [OF le] apply_later [OF le]
  by (auto simp: node_safe_def)

lemma call_later:
  assumes le: "hist_le n h h'" and "call_safe n h s k" "c_req k' = c_req k" "c_caller k' = c_caller k" "c_peer k' = c_peer k"
    "succeeded k' \<Longrightarrow> succeeded k" and "\<And>v T c. granted s v T c \<Longrightarrow> granted t v T c"
    and "first_index (logs (rft (nodes s ! c_caller k))) \<le> first_index (logs (rft (nodes t ! c_caller k)))"
  shows "call_safe n h' t k'"
proof -
  have "won n s T c \<Longrightarrow> won n t T c" for T c using assms(7) unfolding won_def by blast
  then show ?thesis
    using assms(2-6,8) append_later [OF le] acked_later [OF le] snap_later [OF le]
    by (auto simp: call_safe_def split: rpc.splits) blast+
qed

section \<open>One step of one peer\<close>

lemma won_unique:
  assumes "cluster_inv n s" "won n s T c" "won n s T d"
  shows "c = d"
proof -
  from assms(2,3) obtain V W where "majority n V" "\<forall>v\<in>V. granted s v T c" "majority n W" "\<forall>v\<in>W. granted s v T d"
    by (auto simp: won_def)
  moreover from this majority_meets obtain v where "v \<in> V" "v \<in> W" by blast
  ultimately show ?thesis using assms(1) unfolding cluster_inv_def votes_ok_def by blast
qed

lemma leader_won: "cluster_inv n s \<Longrightarrow> p < n \<Longrightarrow> role (rft (nodes s ! p)) = LEADER \<Longrightarrow> won n s (terms s p) p"
  by (simp add: cluster_inv_def leaders_ok_def won_def terms_def)

lemma granted_term: "cluster_inv n s \<Longrightarrow> granted s v T c \<Longrightarrow> v < n \<and> T \<le> terms s v"
  by (auto simp: cluster_inv_def votes_ok_def terms_def)

text \<open>
  What a step of peer \<open>p\<close> has to show of the new history, of the new peer, of the new or
  answered calls and of the new votes; everything else follows from the old state.
\<close>

lemma vote_later:
  assumes le: "hist_le n h h'" and v: "vote_safe h v T c" "stood h' c T = stood h c T"
    and old: "\<And>P. (v, P) \<in> acc h' \<Longrightarrow> last_term P < T \<Longrightarrow> (v, P) \<in> acc h"
  shows "vote_safe h' v T c"
proof -
  from v(1) obtain W where W: "known (lead h) W" "newer (stood h c T) W"
    "\<And>P. (v, P) \<in> acc h \<Longrightarrow> last_term P < T \<Longrightarrow> kept (lead h) P W (T - 1)" unfolding vote_safe_def by blast
  have "prefix (lead h x) (lead h' x)" for x using le by (simp add: hist_le_def)
  then have "kept (lead h') P W (T - 1)" if "(v, P) \<in> acc h'" "last_term P < T" for P
    using kept_mono [OF W(3) [OF old [OF that] that(2)]] by simp
  then show ?thesis unfolding vote_safe_def using known_later [OF le W(1)] W(2) v(2) by auto
qed

lemma elected_later:
  assumes "elected_safe n s T" "\<And>v T c. granted s v T c \<Longrightarrow> granted t v T c" "\<And>q. q < n \<Longrightarrow> terms s q \<le> terms t q"
    and ro: "\<And>q. q < n \<Longrightarrow> role (rft (nodes t ! q)) = CANDIDATE \<Longrightarrow> role (rft (nodes s ! q)) = CANDIDATE \<or> terms s q < terms t q"
  shows "elected_safe n t T"
proof -
  from assms(1) obtain c where c: "c < n" "won n s T c" "T \<le> terms s c" "T = terms s c \<longrightarrow> role (rft (nodes s ! c)) \<noteq> CANDIDATE"
    unfolding elected_safe_def by blast
  have "won n t T c" using c(2) assms(2) unfolding won_def by blast
  moreover have "T \<le> terms t c \<and> (T = terms t c \<longrightarrow> role (rft (nodes t ! c)) \<noteq> CANDIDATE)"
    using c(3,4) ro [OF c(1)] assms(3) [OF c(1)] by linarith
  ultimately show ?thesis using c(1) unfolding elected_safe_def by blast
qed

lemma safe_step:
  assumes i: "safe n h s" "cluster_inv n s" "cluster_inv n t" and p: "p < n" "nodes t = (nodes s)[p := nd]"
    and g: "grows n (terms s) (lead h) (whole h) (terms t) (lead h') (whole h')"
    and a: "acc h' = acc h \<union> accepting n (terms t) (whole h')"
    and ld: "\<And>T. lead h' T = lead h T \<or> T = currentTerm (rft nd) \<and> role (rft nd) = LEADER"
    and new: "\<And>T. 0 < T \<Longrightarrow> lead h T = [] \<Longrightarrow> lead h' T \<noteq> [] \<Longrightarrow>
      \<exists>V. electors n (lead h') (acc h') T V \<and> (\<forall>v\<in>V. T \<le> terms t v)"
    and oth: "\<And>q. q \<noteq> p \<Longrightarrow> whole h' q = whole h q \<and> stood h' q = stood h q"
    and nd: "node_safe n h' p nd" and fi: "first_index (logs (rft (nodes s ! p))) \<le> first_index (logs (rft nd))"
    and ca: "\<And>k'. k' \<in> set (calls t) \<Longrightarrow> call_safe n h' t k' \<or> (\<exists>k\<in>set (calls s). c_req k' = c_req k \<and>
      c_caller k' = c_caller k \<and> c_peer k' = c_peer k \<and> (succeeded k' \<longrightarrow> succeeded k))"
    and gr: "\<And>v T c. granted s v T c \<Longrightarrow> granted t v T c"
    and vo: "\<And>v T c. granted t v T c \<Longrightarrow> lead h' T = [] \<Longrightarrow>
      granted s v T c \<and> stood h' c T = stood h c T \<or> vote_safe h' v T c"
    and ro: "role (rft nd) = CANDIDATE \<Longrightarrow> role (rft (nodes s ! p)) = CANDIDATE \<or> terms s p < currentTerm (rft nd)"
  shows "safe n h' t \<and> hist_le n h h'"
proof -
  have len: "length (nodes s) = n" using i(2) by (simp add: cluster_inv_def nodes_ok_def)
  have np: "nodes t ! p = nd" and nq: "\<And>q. q \<noteq> p \<Longrightarrow> nodes t ! q = nodes s ! q" using p len by simp_all
  have h0: "hist_ok n (terms s) (lead h) (whole h) (acc h)" using i(1) by (simp add: safe_def)
  have h1: "hist_ok n (terms t) (lead h') (whole h') (acc h')"
    unfolding a by (rule hist_step [OF h0 g]) (use new a in simp)
  have pre: "prefix (lead h T) (lead h' T)" for T using g by (simp add: grows_def)
  have le: "hist_le n h h'" unfolding hist_le_def using pre a hist_okD(4) [OF h1] by blast
  have tm: "terms s q \<le> terms t q" if "q < n" for q using g that by (simp add: grows_def)
  have "node_safe n h' q (nodes t ! q)" if q: "q < n" for q
  proof (cases "q = p")
    case False
    have "lead h' (terms s q) = lead h (terms s q)" if r: "role (rft (nodes s ! q)) = LEADER"
    proof (rule ccontr)
      assume "lead h' (terms s q) \<noteq> lead h (terms s q)"
      with ld have "terms s q = currentTerm (rft nd)" "role (rft nd) = LEADER" by blast+
      with inv_one_leader [OF i(3) q p(1)] r nq [OF False] np False show False by (simp add: terms_def)
    qed
    then show ?thesis
      using node_later [OF le, of q "nodes s ! q"] oth [OF False] i(1) q nq [OF False] by (simp add: safe_def terms_def)
  qed (use nd np in simp)
  moreover have "call_safe n h' t k'" if k': "k' \<in> set (calls t)" for k'
    using ca [OF k']
  proof
    assume "\<exists>k\<in>set (calls s). c_req k' = c_req k \<and> c_caller k' = c_caller k \<and> c_peer k' = c_peer k \<and> (succeeded k' \<longrightarrow> succeeded k)"
    then obtain k where k: "k \<in> set (calls s)" "c_req k' = c_req k" "c_caller k' = c_caller k" "c_peer k' = c_peer k"
      "succeeded k' \<longrightarrow> succeeded k" by blast
    have "first_index (logs (rft (nodes s ! q))) \<le> first_index (logs (rft (nodes t ! q)))" for q
      using fi np nq by (cases "q = p") auto
    moreover have "call_safe n h s k" using k(1) i(1) by (simp add: safe_def)
    ultimately show ?thesis using k(5) by (intro call_later [OF le _ k(2-4) _ gr]) blast+
  qed
  moreover have "vote_safe h' v T c" if v: "granted t v T c" "lead h' T = []" for v T c
    using vo [OF v]
  proof
    assume o: "granted s v T c \<and> stood h' c T = stood h c T"
    have "lead h T = []" using pre [of T] v(2) by simp
    with o i(1) have "vote_safe h v T c" by (simp add: safe_def)
    then show ?thesis
    proof (rule vote_later [OF le])
      fix P assume "(v, P) \<in> acc h'" "last_term P < T"
      with granted_term [OF i(3) v(1)] a show "(v, P) \<in> acc h" by (auto simp: accepting_def)
    qed (use o in simp)
  qed
  moreover have "elected_safe n t T" if T: "0 < T" "lead h' T \<noteq> []" for T
  proof (cases "lead h T = []")
    case True
    with ld T(2) have "T = currentTerm (rft nd)" "role (rft nd) = LEADER" by metis+
    then show ?thesis
      using leader_won [OF i(3) p(1)] np p(1) by (auto simp: elected_safe_def terms_def)
  next
    case False
    with i(1) T(1) have "elected_safe n s T" by (simp add: safe_def)
    then show ?thesis
    proof (rule elected_later [OF _ gr tm])
      fix q assume "q < n" "role (rft (nodes t ! q)) = CANDIDATE"
      then show "role (rft (nodes s ! q)) = CANDIDATE \<or> terms s q < terms t q"
        using ro np nq by (cases "q = p") (auto simp: terms_def)
    qed
  qed
  ultimately show ?thesis using h1 le by (simp add: safe_def)
qed

section \<open>Steps that leave the logs alone\<close>

lemma hist_leI:
  assumes "hist_ok n cT (lead h) (whole h) (acc h)" "\<And>T. prefix (lead h T) (lead h' T)" "acc h' = acc h \<union> accepting n cT' (whole h')"
  shows "hist_le n h h'"
  using assms(2,3) hist_okD(4) [OF assms(1)] by (auto simp: hist_le_def accepting_def)

text \<open>The history after a step in which no log changes: the peers accept what they hold.\<close>

definition renew :: "nat \<Rightarrow> ('c, 's) cluster \<Rightarrow> 'c history \<Rightarrow> 'c history" where
  "renew n s h = h\<lparr>acc := acc h \<union> accepting n (terms s) (whole h)\<rparr>"

lemma renew_simps [simp]:
  "lead (renew n s h) = lead h" "whole (renew n s h) = whole h" "stood (renew n s h) = stood h"
  "acc (renew n s h) = acc h \<union> accepting n (terms s) (whole h)"
  by (simp_all add: renew_def)

lemma renew_le: "safe n h s \<Longrightarrow> hist_le n h (renew n t h)"
  by (rule hist_leI) (auto simp: safe_def)

lemma quiet_step:
  assumes i: "safe n h s" "cluster_inv n s" "cluster_inv n t" and p: "p < n" "nodes t = (nodes s)[p := nd]"
    and tm: "terms s p \<le> currentTerm (rft nd)"
    and nd: "node_safe n (renew n t h) p nd" and fi: "first_index (logs (rft (nodes s ! p))) \<le> first_index (logs (rft nd))"
    and ca: "\<And>k'. k' \<in> set (calls t) \<Longrightarrow> call_safe n (renew n t h) t k' \<or> (\<exists>k\<in>set (calls s). c_req k' = c_req k \<and>
      c_caller k' = c_caller k \<and> c_peer k' = c_peer k \<and> (succeeded k' \<longrightarrow> succeeded k))"
    and gr: "\<And>v T c. granted s v T c \<Longrightarrow> granted t v T c"
    and vo: "\<And>v T c. granted t v T c \<Longrightarrow> lead h T = [] \<Longrightarrow> granted s v T c \<or> vote_safe (renew n t h) v T c"
    and ro: "role (rft nd) = CANDIDATE \<Longrightarrow> role (rft (nodes s ! p)) = CANDIDATE"
  shows "safe n (renew n t h) t \<and> hist_le n h (renew n t h)"
proof (rule safe_step [OF i p])
  have h: "hist_ok n (terms s) (lead h) (whole h) (acc h)" using i(1) by (simp add: safe_def)
  have "length (nodes s) = n" using i(2) by (simp add: cluster_inv_def nodes_ok_def)
  then have "terms s q \<le> terms t q" for q using p tm by (cases "q = p") (simp_all add: terms_def)
  moreover from this have "last_term (whole h q) \<le> terms t q" if "q < n" for q
    using hist_okD(3) [OF h that] order_trans by blast
  ultimately show "grows n (terms s) (lead h) (whole h) (terms t) (lead (renew n t h)) (whole (renew n t h))"
    using hist_okD(1,2) [OF h] by (simp add: grows_def keeps_prefix)
qed (use nd fi ca gr vo ro in auto)

definition calm :: "('c, 's) raft \<Rightarrow> ('c, 's) raft \<Rightarrow> bool" where
  "calm rf rf' \<longleftrightarrow> commitIndex rf' = commitIndex rf \<and> currentTerm rf \<le> currentTerm rf' \<and>
     (role rf' = FOLLOWER \<or> role rf' = role rf \<and> currentTerm rf' = currentTerm rf \<and> matchIndex rf' = matchIndex rf)"

lemma calm_refl [simp]: "calm rf rf"
  by (simp add: calm_def)

lemma role_same:
  assumes "hist_le n h h'" "lead h' = lead h" "whole h' = whole h" "stood h' = stood h" "role_safe n h p nd"
    and "role (rft nd') = role (rft nd)" "currentTerm (rft nd') = currentTerm (rft nd)" "matchIndex (rft nd') = matchIndex (rft nd)"
    and "commitIndex (rft nd) \<le> commitIndex (rft nd')" "map el_args (elections nd') = map el_args (elections nd)"
  shows "role_safe n h' p nd'"
proof -
  have "el_term ` set (elections nd') = el_term ` set (elections nd)"
    using arg_cong [OF assms(10), of "\<lambda>xs. rv_Term ` set xs"] by (simp add: el_term_def image_image)
  then have "(\<exists>el\<in>set (elections nd'). el_term el = T) = (\<exists>el\<in>set (elections nd). el_term el = T)" for T
    by (metis (no_types, lifting) image_iff)
  moreover have "acks_safe n h' p (rft nd')" if ak: "acks_safe n h p (rft nd)"
    unfolding acks_safe_def
  proof (intro allI impI conjI)
    fix q assume "q < n" "q \<noteq> p"
    with ak assms(3,8) show "matchIndex (rft nd') ! q < int (length (whole h' p))" by (simp add: acks_safe_def)
  next
    fix q P assume "q < n" "q \<noteq> p" "P \<noteq> []" "prefix P (whole h' p)" "last_term P = currentTerm (rft nd')"
      "commitIndex (rft nd') < int (length P) - 1" "int (length P) - 1 \<le> matchIndex (rft nd') ! q"
    with ak assms(3,7-9) have "(q, P) \<in> acc h" by (simp add: acks_safe_def)
    with assms(1) show "(q, P) \<in> acc h'" by (auto simp: hist_le_def)
  qed
  ultimately show ?thesis using assms(2-7) by (simp add: role_safe_def)
qed

lemma node_calm:
  assumes le: "hist_le n h h'" "lead h' = lead h" "whole h' = whole h" "stood h' = stood h" and nd: "node_safe n h p nd"
    and c: "calm (rft nd) (rft nd')" and v: "logs (rft nd') = logs (rft nd) \<or> view (whole h p) (logs (rft nd'))"
    and el: "map el_args (elections nd') = map el_args (elections nd)"
    and sn: "\<And>m. m \<in> set (snapshots nd') \<Longrightarrow> m \<in> set (snapshots nd) \<or>
      \<not> CommandValid m \<and> snap_safe n h' (currentTerm (rft nd')) (SnapshotIndex m) (SnapshotTerm m)"
    and ap: "apply_safe n h' nd'"
  shows "node_safe n h' p nd'"
proof -
  have tm: "currentTerm (rft nd) \<le> currentTerm (rft nd')" using c by (simp add: calm_def)
  have "role_safe n h' p nd'"
  proof (cases "role (rft nd') = FOLLOWER")
    case False
    with c nd show ?thesis by (intro role_same [OF le, of p nd nd']) (auto simp: calm_def node_safe_def el)
  qed (simp add: role_safe_def)
  moreover have "\<forall>el\<in>set (elections nd'). stand_safe h' p (el_args el)"
  proof -
    have "a \<in> set (map el_args (elections nd)) \<Longrightarrow> stand_safe h' p a" for a
      using nd le(4) stand_later [OF le(1)] by (auto simp: node_safe_def)
    then show ?thesis unfolding el [symmetric] by simp
  qed
  moreover have "\<not> CommandValid m \<and> snap_safe n h' (currentTerm (rft nd')) (SnapshotIndex m) (SnapshotTerm m)" if "m \<in> set (snapshots nd')" for m
    using sn [OF that] nd snap_later [OF le(1) _ tm] by (auto simp: node_safe_def)
  ultimately show ?thesis
    using nd c v ap le(3) commit_later [OF le(1) _ tm] by (auto simp: node_safe_def calm_def)
qed

text \<open>Calls that only change their status, without a new success.\<close>

lemma old_calls:
  assumes "k' \<in> set (ks[i := (ks ! i)\<lparr>c_status := st\<rparr>])" "i < length ks"
    and "succeeded ((ks ! i)\<lparr>c_status := st\<rparr>) \<Longrightarrow> succeeded (ks ! i)"
  shows "\<exists>k\<in>set ks. c_req k' = c_req k \<and> c_caller k' = c_caller k \<and> c_peer k' = c_peer k \<and> (succeeded k' \<longrightarrow> succeeded k)"
proof -
  from assms(1) set_update_subset_insert [of ks i "(ks ! i)\<lparr>c_status := st\<rparr>"]
  have "k' = (ks ! i)\<lparr>c_status := st\<rparr> \<or> k' \<in> set ks" by blast
  then show ?thesis
  proof
    assume "k' = (ks ! i)\<lparr>c_status := st\<rparr>"
    with assms(2,3) show ?thesis by (intro bexI [of _ "ks ! i"]) simp_all
  qed blast
qed

lemma succeeded_status: "reply_of st = reply_of (c_status k) \<Longrightarrow> succeeded (k\<lparr>c_status := st\<rparr>) = succeeded k"
  by (simp add: succeeded_def)

section \<open>Requests a leader sends\<close>

lemma prefix_takes: "i \<le> j \<Longrightarrow> prefix (take i xs) (take j xs)"
  by (metis min.absorb1 take_is_prefix take_take)

lemma appendEntries_to_timer [simp]: "appendEntries_to (rf\<lparr>electionTimer := a\<rparr>) q = appendEntries_to rf q"
  by (simp add: appendEntries_to_def getFirstLog_def Let_def cong: if_cong bind_option_cong)

lemma appendEntries_loop_sent:
  assumes "appendEntries_loop hb l rf ps = Some (rf', out)" "(q, req) \<in> set out"
  shows "appendEntries_to rf q = Some req"
  using assms
proof (induction ps arbitrary: rf out)
  case (Cons p ps)
  show ?case
  proof (cases "p = me rf")
    case True
    with Cons.prems have "appendEntries_loop hb l (reset_electionTimer rf) ps = Some (rf', out)" by simp
    from Cons.IH [OF this Cons.prems(2)] show ?thesis by (simp add: reset_electionTimer_def)
  next
    case False
    with Cons show ?thesis by (auto simp: bind_Some_iff split: if_splits prod.splits)
  qed
qed simp

lemma appendEntries_sent:
  assumes "appendEntries rf hb = Some (rf', out)" "(q, req) \<in> set out"
  shows "appendEntries_to rf q = Some req"
  using assms appendEntries_loop_sent by (auto simp: appendEntries_def bind_Some_iff)

lemma request_snapshot:
  assumes "f < length G" "commit_safe n h T G i" "int f \<le> i"
  shows "snap_safe n h T (int f) (e_Term (G ! f))"
proof -
  let ?K = "take (Suc f) G"
  from assms(2) obtain Q where Q: "chosen n (acc h) Q" "last_term Q \<le> T" "prefix (take (nat i + 1) G) Q"
    unfolding commit_safe_def by blast
  have "prefix ?K (take (nat i + 1) G)" using assms(3) by (intro prefix_takes) simp
  then have "prefix ?K Q" using Q(3) prefix_order.trans by blast
  moreover have "last_term ?K = e_Term (G ! f)" using assms(1) by (simp add: last_term_def take_Suc_conv_app_nth)
  ultimately show ?thesis
    unfolding snap_safe_def using Q(1,2) assms(1) by (intro exI [of _ ?K] exI [of _ Q]) auto
qed

lemma request_safe:
  assumes h: "coherent (lead h)" "known (lead h) (whole h p)" and nd: "view (whole h p) (logs rf)"
      "commit_safe n h (currentTerm rf) (whole h p) (commitIndex rf)"
    and ld: "lead h (currentTerm rf) = whole h p" "0 < currentTerm rf" and ok: "node_ok rf"
    and r: "appendEntries_to rf q = Some req" and k: "c_req k = req" "c_caller k = p" "c_status k = Pending"
    and w: "won n t (currentTerm rf) p" and fi: "first_index (logs rf) \<le> first_index (logs (rft (nodes t ! p)))"
  shows "call_safe n h t k"
proof -
  let ?G = "whole h p" and ?T = "currentTerm rf"
  obtain f where f: "f < length ?G" "logs rf = (?G ! f)\<lparr>e_Command := None\<rparr> # drop (Suc f) ?G" "first_index (logs rf) = int f"
    "length (logs rf) = length ?G - f" using viewE [OF nd(1) h] by metis
  from r obtain nx where nx: "idx (nextIndex rf) (int q) = Some nx" by (auto simp: appendEntries_to_def bind_Some_iff)
  have first: "getFirstLog rf = Some (hd (logs rf))" using f(2) by simp
  show ?thesis
  proof (cases "nx - 1 < int f")
    case True
    have req: "req = InstallSnapshot_rpc \<lparr>is_Term = ?T, is_LastIncludedIndex = int f,
        is_LastIncludedTerm = e_Term (?G ! f), is_Data = ReadSnapshot (persister rf)\<rparr>"
      using r nx first True f(2,3) by (simp add: appendEntries_to_def Let_def)
    have "int f \<le> commitIndex rf" using ok f(3) by (simp add: node_ok_def)
    from request_snapshot [OF f(1) nd(2) this]
    show ?thesis using k fi f(3) by (simp add: call_safe_def req)
  next
    case False
    define i where "i = nat (nx - 1)"
    have i: "nx - 1 = int i" "f \<le> i" using False by (simp_all add: i_def)
    from r nx first False f(3) i obtain pl es where pl: "idx (logs rf) (int i - int f) = Some pl"
      "slice_from (logs rf) (int i - int f + 1) = Some es"
      and req: "req = AppendEntries_rpc \<lparr>ae_Term = ?T, ae_LeaderId = int (me rf), ae_PrevLogIndex = e_Index pl,
         ae_PrevLogTerm = e_Term pl, ae_Entries = es, ae_LeaderCommit = commitIndex rf\<rparr>"
      by (auto simp: appendEntries_to_def Let_def bind_Some_iff)
    have il: "i < length ?G" and pl': "pl = logs rf ! (i - f)" using pl(1) i f(1,4) by (auto simp: idx_Some_iff nat_diff_distrib)
    have "e_Index pl = int i" using ok f(3) pl' il i f(1,4) by (simp add: node_ok_def log_ok_nth)
    moreover have "e_Term pl = e_Term (?G ! i)" using view_nth(1) [OF f(1,2) i(2) il] pl' by simp
    moreover have "es = drop (Suc i) ?G"
    proof -
      have "nat (int i - int f + 1) = Suc (i - f)" using i(2) by simp
      then have "es = drop (Suc (i - f)) (logs rf)" using pl(2) by (auto simp: slice_from_def split: if_splits)
      then show ?thesis using f(2) i(2) by simp
    qed
    ultimately have "append_safe n h \<lparr>ae_Term = ?T, ae_LeaderId = int (me rf), ae_PrevLogIndex = e_Index pl,
         ae_PrevLogTerm = e_Term pl, ae_Entries = es, ae_LeaderCommit = commitIndex rf\<rparr> ?G"
      using ld nd(2) il by (simp add: append_safe_def)
    then show ?thesis using k w by (auto simp: call_safe_def req succeeded_def)
  qed
qed

end
