(* ===== verification/Raft_Steps.thy ===== *)
theory Raft_Steps
  imports Raft_Safety
begin

text \<open>
  Every action of the cluster keeps the safety invariant and extends the history, as long as no
  vote reply sets a term back and no snapshot is installed over a conflicting log.
\<close>

abbreviation extends :: "nat \<Rightarrow> 'c history \<Rightarrow> ('c, 's) cluster \<Rightarrow> bool" where
  "extends n h t \<equiv> \<exists>h'. safe n h' t \<and> hist_le n h h'"

lemma safe_hist: "safe n h s \<Longrightarrow> hist_ok n (terms s) (lead h) (whole h) (acc h)"
  by (simp add: safe_def)

lemma safe_node: "safe n h s \<Longrightarrow> p < n \<Longrightarrow> node_safe n h p (nodes s ! p)"
  by (simp add: safe_def)

lemma safe_call: "safe n h s \<Longrightarrow> k < length (calls s) \<Longrightarrow> call_safe n h s (calls s ! k)"
  by (simp add: safe_def)

lemma quiet_granted:
  assumes "cluster_inv n s" "quiet n s t"
  shows "granted t v T c = granted s v T c"
  using assms by (auto simp: granted_alt quiet_def cluster_inv_def nodes_ok_def)

lemma quiet_action:
  assumes i: "safe n h s" "cluster_inv n s" and q: "quiet n s t" and p: "p < n" "nodes t = (nodes s)[p := nd]"
    and nd: "node_safe n (renew n t h) p nd" and fi: "first_index (logs (rft (nodes s ! p))) \<le> first_index (logs (rft nd))"
    and ca: "\<And>k'. k' \<in> set (calls t) \<Longrightarrow> call_safe n (renew n t h) t k' \<or> (\<exists>k\<in>set (calls s). c_req k' = c_req k \<and>
      c_caller k' = c_caller k \<and> c_peer k' = c_peer k \<and> (succeeded k' \<longrightarrow> succeeded k))"
    and ro: "role (rft nd) = CANDIDATE \<Longrightarrow> role (rft (nodes s ! p)) = CANDIDATE"
  shows "extends n h t"
proof -
  have "length (nodes s) = n" using i(2) by (simp add: cluster_inv_def nodes_ok_def)
  then have "good_step (rft (nodes s ! p)) (rft nd)" using q p by (auto simp: quiet_def)
  then have "terms s p \<le> currentTerm (rft nd)" by (auto simp: good_step_def vote_step_def terms_def)
  then have "safe n (renew n t h) t \<and> hist_le n h (renew n t h)"
    using quiet_granted [OF i(2) q] by (intro quiet_step [OF i quiet_inv [OF i(2) q] p _ nd fi ca _ _ ro]) auto
  then show ?thesis by blast
qed

text \<open>A quiet action after which the peer differs only calmly.\<close>

lemma calm_action:
  assumes i: "safe n h s" "cluster_inv n s" and q: "quiet n s t" and p: "p < n" "nodes t = (nodes s)[p := nd]"
    and c: "calm (rft (nodes s ! p)) (rft nd)" "logs (rft nd) = logs (rft (nodes s ! p))" "elections nd = elections (nodes s ! p)"
      "set (snapshots nd) \<subseteq> set (snapshots (nodes s ! p))" "apply_safe n (renew n t h) nd"
    and ca: "\<And>k'. k' \<in> set (calls t) \<Longrightarrow> call_safe n (renew n t h) t k' \<or> (\<exists>k\<in>set (calls s). c_req k' = c_req k \<and>
      c_caller k' = c_caller k \<and> c_peer k' = c_peer k \<and> (succeeded k' \<longrightarrow> succeeded k))"
  shows "extends n h t"
proof (rule quiet_action [OF i q p])
  show "node_safe n (renew n t h) p nd"
    using c by (intro node_calm [OF renew_le [OF i(1)] _ _ _ safe_node [OF i(1) p(1)]]) auto
qed (use c ca in \<open>auto simp: calm_def\<close>)

lemma apply_renew: "safe n h s \<Longrightarrow> p < n \<Longrightarrow> apply_safe n (renew n t h) (nodes s ! p)"
  using apply_later [OF renew_le] safe_node unfolding node_safe_def by blast

lemma apply_cong: "sending nd' = sending nd \<Longrightarrow> delivered nd' = delivered nd \<Longrightarrow> apply_safe n h nd' = apply_safe n h nd"
  by (simp add: apply_safe_def)

section \<open>Lost calls, the applier, restarts\<close>

lemma safe_lose:
  assumes i: "safe n h s" "cluster_inv n s" and k: "k < length (calls s)" and l: "do_lose s k = Next t"
  shows "extends n h t"
proof -
  let ?p = "c_caller (calls s ! k)"
  have p: "?p < n" using inv_call [OF inv_base [OF i(2)] k] by (simp add: call_ok_def)
  from l obtain r where r: "t = set_status s k (Lost r)" "reply_of (c_status (calls s ! k)) = r"
    by (auto simp: do_lose_def split: status.splits)
  show ?thesis
  proof (rule calm_action [OF i act_lose [OF inv_base [OF i(2)] k l] p, of "nodes s ! ?p"])
    fix k' assume "k' \<in> set (calls t)"
    with r k show "call_safe n (renew n t h) t k' \<or> (\<exists>k\<in>set (calls s). c_req k' = c_req k \<and>
      c_caller k' = c_caller k \<and> c_peer k' = c_peer k \<and> (succeeded k' \<longrightarrow> succeeded k))"
      by (intro disjI2 old_calls [of k' "calls s" k "Lost r"]) (simp_all add: succeeded_status)
  qed (use r i apply_renew [OF i(1) p] in simp_all)
qed

lemma commit_decided:
  assumes "commit_safe n h \<tau> G i" "j \<le> nat i" "e_Command (G ! j) = Some x"
  shows "decided n h (int j) x"
proof -
  from assms(1) obtain Q where Q: "chosen n (acc h) Q" "0 \<le> i" "i < int (length G)" "prefix (take (nat i + 1) G) Q"
    unfolding commit_safe_def by blast
  then obtain R where "Q = take (nat i + 1) G @ R" by (auto simp: prefix_def)
  moreover have "j < length (take (nat i + 1) G)" using Q(2,3) assms(2) by simp
  ultimately have "j < length Q" "Q ! j = G ! j" using assms(2) by (simp_all add: nth_append)
  with Q(1) assms(3) show ?thesis by (auto simp: decided_def)
qed

lemma taken_decided:
  assumes h: "coherent (lead h)" "known (lead h) (whole h p)" and v: "view (whole h p) (logs rf)" and ok: "node_ok rf"
    and c: "commit_safe n h (currentTerm rf) (whole h p) (commitIndex rf)"
    and t: "applier_take rf = Some (es, m)" and e: "e \<in> set es" "e_Command e = Some x"
  shows "decided n h (e_Index e) x"
proof -
  let ?G = "whole h p"
  obtain f where f: "f < length ?G" "logs rf = (?G ! f)\<lparr>e_Command := None\<rparr> # drop (Suc f) ?G" "first_index (logs rf) = int f"
    "length (logs rf) = length ?G - f" using viewE [OF v h] by metis
  have first: "getFirstLog rf = Some (hd (logs rf))" using f(2) by simp
  from t first f(3) obtain a b where s: "slice (logs rf) a b = Some es" "b = commitIndex rf - int f + 1"
    by (auto simp: applier_take_def bind_Some_iff)
  then have es: "es = drop (nat a) (take (nat b) (logs rf))" by (auto simp: slice_def split: if_splits)
  from e(1) obtain j where j: "j < length (logs rf)" "j < nat b" "e = logs rf ! j"
    using in_set_dropD [of e "nat a" "take (nat b) (logs rf)"] unfolding es by (auto simp: in_set_conv_nth [of e "take _ _"])
  have "f \<le> f + j" "f + j < length ?G" using j(1) f(1,4) by simp_all
  note n = view_nth [OF f(1,2) this]
  have "j \<noteq> 0" using e(2) j(3) f(2) by (auto intro: ccontr)
  then have "e = ?G ! (f + j)" using n(2) j(3) by simp
  moreover have "e_Index e = int (f + j)" using ok f(3) j(1,3) by (simp add: node_ok_def log_ok_nth)
  moreover have "f + j \<le> nat (commitIndex rf)" using j(2) s(2) by linarith
  ultimately show ?thesis using commit_decided [OF c, of "f + j" x] e(2) by simp
qed

lemma safe_apply_take:
  assumes i: "safe n h s" "cluster_inv n s" and p: "p < n" and a: "do_apply_take s p = Next t"
  shows "extends n h t"
proof -
  from a obtain b where b: "applier_take (rft (nodes s ! p)) = Some b" "t = set_node s p ((nodes s ! p)\<lparr>sending := Some b\<rparr>)"
    by (auto simp: do_apply_take_def Let_def from_option_Next split: if_splits)
  show ?thesis
  proof (rule calm_action [OF i act_apply_take [OF inv_base [OF i(2)] p a] p])
    have nd: "node_safe n h p (nodes s ! p)" using safe_node [OF i(1) p] .
    have "decided n h (e_Index e) x" if "e \<in> set (fst b)" "e_Command e = Some x" for e x
      using taken_decided [of h p "rft (nodes s ! p)" n "fst b" "snd b"] hist_okD(1,2) [OF safe_hist [OF i(1)]] p nd
        inv_node(2) [OF inv_base [OF i(2)] p] b(1) that by (simp add: node_safe_def)
    then show "apply_safe n (renew n t h) ((nodes s ! p)\<lparr>sending := Some b\<rparr>)"
      using apply_renew [OF i(1) p, of t] decided_later [OF renew_le [OF i(1), of t]] by (cases b) (auto simp: apply_safe_def)
  qed (use b in auto)
qed

lemma safe_apply_done:
  assumes i: "safe n h s" "cluster_inv n s" and p: "p < n" and a: "do_apply_done s p = Next t"
  shows "extends n h t"
proof -
  from a obtain es m where b: "sending (nodes s ! p) = Some (es, m)"
    "t = set_node s p ((nodes s ! p)\<lparr>rft := applier_done (rft (nodes s ! p)) m, sending := None,
       delivered := delivered (nodes s ! p) @ map applier_msg es\<rparr>)"
    by (auto simp: do_apply_done_def Let_def split: option.splits)
  show ?thesis
  proof (rule calm_action [OF i act_apply_done [OF inv_base [OF i(2)] p a] p])
    show "apply_safe n (renew n t h) ((nodes s ! p)\<lparr>rft := applier_done (rft (nodes s ! p)) m, sending := None,
       delivered := delivered (nodes s ! p) @ map applier_msg es\<rparr>)"
      using apply_renew [OF i(1) p, of t] b(1) by (auto simp: apply_safe_def applier_msg_def)
  qed (use b in \<open>auto simp: calm_def applier_done_def\<close>)
qed

lemma commit_lower:
  assumes "commit_safe n h \<tau> G i" "0 \<le> j" "j \<le> i"
  shows "commit_safe n h \<tau> G j"
proof -
  have "prefix (take (nat j + 1) G) (take (nat i + 1) G)" using assms(2,3) by (intro prefix_takes) simp
  with assms show ?thesis unfolding commit_safe_def using prefix_order.trans by (meson dual_order.strict_trans2)
qed

lemma safe_restart:
  assumes i: "safe n h s" "cluster_inv n s" and p: "p < n" and a: "do_restart s p = Next t"
  shows "extends n h t"
proof -
  let ?rf = "rft (nodes s ! p)"
  note nd = inv_node [OF inv_base [OF i(2)] p] and sn = safe_node [OF i(1) p]
  from a obtain rf where m: "Make (peers ?rf) (me ?rf) (persister ?rf) = Some rf"
    "t = set_node s p ((nodes s ! p)\<lparr>rft := rf, epoch := Suc (epoch (nodes s ! p)), sending := None, delivered := [], snapshots := []\<rparr>)"
    by (auto simp: do_restart_def Let_def from_option_Next)
  have "synced ?rf" "logs ?rf \<noteq> []" using nd(2) by (auto simp: node_ok_def)
  from Make_restores [OF this, of "peers ?rf" "me ?rf"] m(1) have
    rf: "currentTerm rf = currentTerm ?rf" "logs rf = logs ?rf" "role rf = FOLLOWER" "commitIndex rf = first_index (logs ?rf)" by auto
  have "0 \<le> first_index (logs ?rf)" "first_index (logs ?rf) \<le> commitIndex ?rf"
    using nd(2) log_ok_first_nonneg by (auto simp: node_ok_def)
  then have "commit_safe n (renew n t h) (currentTerm ?rf) (whole h p) (first_index (logs ?rf))"
    using sn commit_lower commit_later [OF renew_le [OF i(1), of t]] unfolding node_safe_def by blast
  moreover have "\<forall>el\<in>set (elections (nodes s ! p)). stand_safe (renew n t h) p (el_args el)"
    using sn stand_later [OF renew_le [OF i(1), of t]] by (simp add: node_safe_def)
  ultimately have "node_safe n (renew n t h) p ((nodes s ! p)\<lparr>rft := rf, epoch := Suc (epoch (nodes s ! p)), sending := None,
      delivered := [], snapshots := []\<rparr>)"
    using sn rf by (simp add: node_safe_def role_safe_def apply_safe_def)
  then show ?thesis
    by (rule quiet_action [OF i act_restart [OF inv_base [OF i(2)] p a] p, rotated]) (use m rf in auto)
qed

section \<open>Snapshots the service takes\<close>

lemma view_drop:
  assumes v: "view G lgs" and h: "coherent L" "known L G" and i: "first_index lgs < i" "i \<le> last_index lgs"
    and d: "drop (nat (i - first_index lgs)) lgs = e # es"
  shows "e = G ! nat i" "es = drop (Suc (nat i)) G" "nat i < length G"
proof -
  obtain f where f: "f < length G" "lgs = (G ! f)\<lparr>e_Command := None\<rparr> # drop (Suc f) G" "first_index lgs = int f"
    "last_index lgs = int (length G) - 1" using viewE [OF v h] by metis
  show l: "nat i < length G" using i f(1,3,4) by linarith
  have n: "nat (i - first_index lgs) = Suc (nat i - Suc f)" "Suc f \<le> nat i" using i(1) f(3) by linarith+
  have "drop (Suc (nat i - Suc f)) lgs = e # es" using d n(1) by simp
  then have "e # es = drop (nat i) G" using n(2) by (simp add: f(2))
  then show "e = G ! nat i" "es = drop (Suc (nat i)) G" using Cons_nth_drop_Suc [OF l] by (metis list.inject)+
qed

lemma safe_snapshot:
  assumes i: "safe n h s" "cluster_inv n s" and p: "p < n" and a: "do_snapshot s p index snap = Next t"
  shows "extends n h t"
proof -
  let ?rf = "rft (nodes s ! p)"
  note nd = inv_node [OF inv_base [OF i(2)] p] and sn = safe_node [OF i(1) p] and q = act_snapshot [OF inv_base [OF i(2)] p a]
  note h = hist_okD(1,2) [OF safe_hist [OF i(1)]]
  from a obtain rf where r: "index \<le> last_index (logs ?rf)" "Snapshot ?rf index snap = Some rf" "t = set_rft s p rf"
    by (auto simp: do_snapshot_def Let_def from_option_Next split: if_splits)
  have lo: "log_ok (logs ?rf)" using nd(2) by (simp add: node_ok_def)
  have v: "view (whole h p) (logs ?rf)" using sn by (simp add: node_safe_def)
  show ?thesis
  proof (cases "index \<le> first_index (logs ?rf)")
    case True
    with r(2) lo have "rf = ?rf" by (simp add: Snapshot_def Let_def)
    then show ?thesis using r(3) apply_renew [OF i(1) p] by (intro calm_action [OF i q p]) auto
  next
    case False
    from Snapshot_spec [OF lo _ r(1), of snap] False r(2) obtain e es where
      e: "drop (nat (index - first_index (logs ?rf))) (logs ?rf) = e # es" "logs rf = e\<lparr>e_Command := None\<rparr> # es"
      "log_ok (logs rf)" and f: "rf = ?rf\<lparr>logs := logs rf, persister := persister rf\<rparr>" by auto
    have fs: "commitIndex rf = commitIndex ?rf" "currentTerm rf = currentTerm ?rf" "role rf = role ?rf" "matchIndex rf = matchIndex ?rf"
      by (subst f, simp)+
    note d = view_drop [OF v h(1) h(2) [OF p] _ r(1) e(1)]
    have "view (whole h p) (logs rf)"
      unfolding view_def using d False e(2) by (intro exI [of _ "nat index"]) simp
    moreover have "first_index (logs ?rf) \<le> first_index (logs rf)"
      using d(1,3) False e(2) known_index(1) [OF h(1) h(2) [OF p], of "nat index"] log_ok_first_nonneg [OF lo] by simp
    moreover have "calm ?rf rf" using fs by (simp add: calm_def)
    moreover have "apply_safe n (renew n t h) ((nodes s ! p)\<lparr>rft := rf\<rparr>)"
      using apply_renew [OF i(1) p, of t] by (simp cong: apply_cong)
    ultimately show ?thesis
      using r(3) fs by (intro quiet_action [OF i q p, of "(nodes s ! p)\<lparr>rft := rf\<rparr>"] node_calm [OF renew_le [OF i(1)] _ _ _ sn]) auto
  qed
qed

section \<open>Heartbeats and new commands\<close>

lemma calm_timers:
  assumes "rf' = rf\<lparr>electionTimer := a\<rparr>"
  shows "calm rf (reset_heartbeatTimer rf')" "logs (reset_heartbeatTimer rf') = logs rf"
  using assms by (simp_all add: calm_def reset_heartbeatTimer_def)

lemma leader_facts:
  assumes i: "safe n h s" "cluster_inv n s" and p: "p < n" and l: "role (rft (nodes s ! p)) = LEADER"
  shows "lead h (currentTerm (rft (nodes s ! p))) = whole h p" "0 < currentTerm (rft (nodes s ! p))"
    "won n s (currentTerm (rft (nodes s ! p))) p" "acks_safe n h p (rft (nodes s ! p))"
  using safe_node [OF i(1) p] leader_won [OF i(2) p l] l by (auto simp: node_safe_def role_safe_def terms_def)

lemma safe_heartbeat:
  assumes i: "safe n h s" "cluster_inv n s" and p: "p < n" and a: "do_heartbeat s p = Next t"
  shows "extends n h t"
proof -
  let ?rf = "rft (nodes s ! p)"
  note nd = inv_node [OF inv_base [OF i(2)] p] and sn = safe_node [OF i(1) p] and q = act_heartbeat [OF inv_base [OF i(2)] p a]
  note h = hist_okD(1,2) [OF safe_hist [OF i(1)]]
  from a obtain rf out where r: "ticker_heartbeat ?rf = Some (rf, out)" "t = send (set_rft s p rf) p 0 out"
    by (auto simp: do_heartbeat_def from_option_Next)
  have ap: "apply_safe n (renew n t h) ((nodes s ! p)\<lparr>rft := rf\<rparr>)" using apply_renew [OF i(1) p, of t] by (simp cong: apply_cong)
  show ?thesis
  proof (cases "role ?rf = LEADER")
    case False
    with r(1) have "rf = ?rf" "out = []" by (simp_all add: ticker_heartbeat_def)
    then show ?thesis using r(2) ap by (intro calm_action [OF i q p, of "(nodes s ! p)\<lparr>rft := rf\<rparr>"]) auto
  next
    case True
    with r(1) obtain rf1 where rf1: "appendEntries ?rf True = Some (rf1, out)" "rf = reset_heartbeatTimer rf1"
      by (auto simp: ticker_heartbeat_def bind_Some_iff)
    have "log_ok (logs ?rf)" using nd(2) by (simp add: node_ok_def)
    from appendEntries_facts [OF rf1(1) this] have tm: "rf1 = ?rf\<lparr>electionTimer := electionTimer rf1\<rparr>" by blast
    note cl = calm_timers [OF tm, folded rf1(2)] and lf = leader_facts [OF i p True]
    have w: "won n t (currentTerm ?rf) p" using lf(3) quiet_granted [OF i(2) q] by (simp add: won_def)
    have nt: "nodes t ! p = (nodes s ! p)\<lparr>rft := rf\<rparr>" using r(2) p nd(1) by simp
    show ?thesis
    proof (rule calm_action [OF i q p, of "(nodes s ! p)\<lparr>rft := rf\<rparr>"])
      fix k' assume k': "k' \<in> set (calls t)"
      show "call_safe n (renew n t h) t k' \<or> (\<exists>k\<in>set (calls s). c_req k' = c_req k \<and>
        c_caller k' = c_caller k \<and> c_peer k' = c_peer k \<and> (succeeded k' \<longrightarrow> succeeded k))"
      proof (cases "k' \<in> set (calls s)")
        case False
        with k' r(2) obtain d req where k: "(d, req) \<in> set out" "c_req k' = req" "c_caller k' = p" "c_status k' = Pending" by auto
        note rq = appendEntries_sent [OF rf1(1) k(1)]
        have "commit_safe n (renew n t h) (currentTerm ?rf) (whole h p) (commitIndex ?rf)"
          using sn commit_later [OF renew_le [OF i(1), of t] _ order_refl] by (simp add: node_safe_def)
        with request_safe [OF _ _ _ _ _ _ nd(2) rq k(2-4) w, of "renew n t h"] h p sn lf(1,2) nt cl(2) show ?thesis
          by (simp add: node_safe_def)
      qed blast
    qed (use r(2) ap cl in auto)
  qed
qed

text \<open>A leader appends a command: its log, and so the log of its term, grows.\<close>

definition grown :: "nat \<Rightarrow> ('c, 's) cluster \<Rightarrow> 'c history \<Rightarrow> nat \<Rightarrow> 'c entry \<Rightarrow> 'c history" where
  "grown n t h p e = (let T = e_Term e; G = (whole h)(p := whole h p @ [e]) in
     h\<lparr>lead := (lead h)(T := lead h T @ [e]), whole := G, acc := acc h \<union> accepting n (terms t) G\<rparr>)"

lemma grown_simps [simp]:
  "lead (grown n t h p e) = (lead h)(e_Term e := lead h (e_Term e) @ [e])" "whole (grown n t h p e) = (whole h)(p := whole h p @ [e])"
  "stood (grown n t h p e) = stood h" "acc (grown n t h p e) = acc h \<union> accepting n (terms t) ((whole h)(p := whole h p @ [e]))"
  by (simp_all add: grown_def Let_def)

lemma grown_grows:
  assumes h: "hist_ok n cT (lead h) (whole h) (acc h)" and p: "p < n" and T: "e_Term e = cT p" "0 < cT p"
    and l: "lead h (cT p) = whole h p" and e: "e_Index e = int (length (whole h p))" "e_Command e \<noteq> None" and c: "\<And>q. q < n \<Longrightarrow> cT' q = cT q"
  shows "grows n cT (lead h) (whole h) cT' (lead (grown n t h p e)) (whole (grown n t h p e))"
proof -
  have ne: "lead h (cT p) \<noteq> []" using hist_okD(2) [OF h p] l by (simp add: known_def)
  have co: "coherent (lead (grown n t h p e))"
    using coherent_append [OF hist_okD(1) [OF h] ne T(2)] e T(1) l by simp
  have pre: "prefix (lead h t') (lead (grown n t h p e) t')" for t' by simp
  have "known (lead (grown n t h p e)) (whole (grown n t h p e) q) \<and> last_term (whole (grown n t h p e) q) \<le> cT q \<and>
    keeps (lead (grown n t h p e)) (whole h q) (whole (grown n t h p e) q) (cT q)" if q: "q < n" for q
  proof (cases "q = p")
    case True
    then show ?thesis using l T by (simp add: known_def last_term_def keeps_prefix)
  next
    case False
    then show ?thesis
      using hist_okD(3) [OF h q] known_mono [of "lead h" "whole h q" "lead (grown n t h p e)", OF hist_okD(2) [OF h q] pre] by (simp add: keeps_prefix)
  qed
  with co pre c show ?thesis by (simp add: grows_def)
qed

lemma Start_leader:
  assumes r: "Start rf x = Some (rf', res, out)" and ld: "role rf = LEADER" and lo: "log_ok (logs rf)"
  shows "logs rf' = logs rf @ [\<lparr>e_Index = last_index (logs rf) + 1, e_Term = currentTerm rf, e_Command = Some x\<rparr>]"
    "commitIndex rf' = commitIndex rf" "currentTerm rf' = currentTerm rf" "role rf' = LEADER" "matchIndex rf' = matchIndex rf"
    "(d, req) \<in> set out \<Longrightarrow> appendEntries_to rf' d = Some req"
proof -
  let ?e = "\<lparr>e_Index = last_index (logs rf) + 1, e_Term = currentTerm rf, e_Command = Some x\<rparr>"
  define rf0 where "rf0 = persist (rf\<lparr>logs := logs rf @ [?e]\<rparr>)"
  from r ld lo have ap: "appendEntries rf0 False = Some (rf', out)"
    by (auto simp: Start_def Let_def bind_Some_iff rf0_def)
  have "log_ok (logs rf0)" using log_ok_append [OF lo, of "[?e]"] by (simp add: rf0_def persist_def ents_ok_def)
  from appendEntries_facts [OF ap this] have tm: "rf' = rf0\<lparr>electionTimer := electionTimer rf'\<rparr>" by blast
  show "logs rf' = logs rf @ [?e]" "commitIndex rf' = commitIndex rf" "currentTerm rf' = currentTerm rf" "role rf' = LEADER"
    "matchIndex rf' = matchIndex rf" by (subst tm, simp add: rf0_def persist_def ld)+
  show "appendEntries_to rf' d = Some req" if "(d, req) \<in> set out"
    using appendEntries_sent [OF ap that] by (subst tm) simp
qed

text \<open>A leader that appends an entry to its log.\<close>

lemma grown_node:
  assumes i: "safe n h s" "cluster_inv n s" and p: "p < n" and ld: "role (rft (nodes s ! p)) = LEADER" and le: "hist_le n h (grown n t h p e)"
    and fs: "logs rf = logs (rft (nodes s ! p)) @ [e]" "commitIndex rf = commitIndex (rft (nodes s ! p))"
      "currentTerm rf = currentTerm (rft (nodes s ! p))" "role rf = LEADER" "matchIndex rf = matchIndex (rft (nodes s ! p))"
    and e: "e_Term e = currentTerm (rft (nodes s ! p))"
  shows "node_safe n (grown n t h p e) p ((nodes s ! p)\<lparr>rft := rf\<rparr>)"
proof -
  let ?rf = "rft (nodes s ! p)" and ?h = "grown n t h p e"
  note sn = safe_node [OF i(1) p] and lf = leader_facts [OF i p ld]
  have old: "P \<noteq> []" "prefix P (whole h p)" if "prefix P (whole h p @ [e])" "int (length P) - 1 \<le> m" "m < int (length (whole h p))"
    "P \<noteq> []" for P m using that by (auto simp: prefix_snoc)
  have "acks_safe n ?h p rf"
    using lf(4) le old fs(2,3,5) unfolding acks_safe_def hist_le_def by fastforce
  then have "role_safe n ?h p ((nodes s ! p)\<lparr>rft := rf\<rparr>)" using lf(1,2) fs(3,4) e by (simp add: role_safe_def)
  moreover have "commit_safe n ?h (currentTerm ?rf) (whole h p @ [e]) (commitIndex ?rf)"
    using sn commit_later [OF le] by (fastforce simp: node_safe_def commit_safe_def)
  moreover have "view (whole h p) (logs ?rf)" using sn by (simp add: node_safe_def)
  ultimately show ?thesis
    using sn fs view_append stand_later [OF le] snap_later [OF le] apply_later [OF le]
    by (auto simp: node_safe_def cong: apply_cong)
qed

lemma safe_start:
  assumes i: "safe n h s" "cluster_inv n s" and p: "p < n" and a: "do_start s p x = Next t"
  shows "extends n h t"
proof -
  let ?rf = "rft (nodes s ! p)"
  note nd = inv_node [OF inv_base [OF i(2)] p] and sn = safe_node [OF i(1) p] and q = act_start [OF inv_base [OF i(2)] p a]
  note h = hist_okD(1,2) [OF safe_hist [OF i(1)]]
  from a obtain rf res out where r: "Start ?rf x = Some (rf, res, out)" "t = send (set_rft s p rf) p 0 out"
    by (auto simp: do_start_def from_option_Next)
  have lo: "log_ok (logs ?rf)" using nd(2) by (simp add: node_ok_def)
  show ?thesis
  proof (cases "role ?rf = LEADER")
    case False
    with r(1) have "rf = ?rf" "out = []" by (simp_all add: Start_def)
    then show ?thesis using r(2) apply_renew [OF i(1) p, of t] by (intro calm_action [OF i q p, of "(nodes s ! p)\<lparr>rft := rf\<rparr>"]) auto
  next
    case ld: True
    note lf = leader_facts [OF i p ld] and fs = Start_leader [OF r(1) ld lo]
    let ?h = "grown n t h p \<lparr>e_Index = last_index (logs ?rf) + 1, e_Term = currentTerm ?rf, e_Command = Some x\<rparr>"
    have "view (whole h p) (logs ?rf)" using sn by (simp add: node_safe_def)
    then have fi: "last_index (logs ?rf) + 1 = int (length (whole h p))" using viewE [OF _ h(1) h(2) [OF p]] by force
    have nt: "nodes t ! p = (nodes s ! p)\<lparr>rft := rf\<rparr>" "nodes t = (nodes s)[p := (nodes s ! p)\<lparr>rft := rf\<rparr>]" using r(2) p nd(1) by simp_all
    have te: "terms t v = terms s v" for v using nt fs(3) by (cases "v = p") (simp_all add: terms_def)
    have g: "grows n (terms s) (lead h) (whole h) (terms t) (lead ?h) (whole ?h)"
      using lf(1,2) fi te by (intro grown_grows [OF safe_hist [OF i(1)] p]) (simp_all add: terms_def)
    have le: "hist_le n h ?h" by (rule hist_leI [OF safe_hist [OF i(1)]]) auto
    note ns = grown_node [OF i p ld le fs(1-5), simplified]
    have ok: "node_ok rf" using Start_good [OF r(1) nd(2)] by (simp add: good_step_def)
    have "safe n ?h t \<and> hist_le n h ?h"
    proof (rule safe_step [OF i quiet_inv [OF i(2) q] p nt(2) g])
      fix k' assume k': "k' \<in> set (calls t)"
      show "call_safe n ?h t k' \<or> (\<exists>k\<in>set (calls s). c_req k' = c_req k \<and>
        c_caller k' = c_caller k \<and> c_peer k' = c_peer k \<and> (succeeded k' \<longrightarrow> succeeded k))"
      proof (cases "k' \<in> set (calls s)")
        case False
        with k' r(2) obtain d req where k: "(d, req) \<in> set out" "c_req k' = req" "c_caller k' = p" "c_status k' = Pending" by auto
        have w: "won n t (currentTerm rf) p" using lf(3) quiet_granted [OF i(2) q] fs(3) by (simp add: won_def)
        have "coherent (lead ?h)" "known (lead ?h) (whole ?h p)" using g p unfolding grows_def by blast+
        with request_safe [OF _ _ _ _ _ _ ok fs(6) [OF k(1)] k(2-4) w] ns lf(1,2) fs(3) nt(1) show ?thesis by (simp add: node_safe_def)
      qed blast
    next
      fix T assume "0 < T" "lead h T = []" "lead ?h T \<noteq> []"
      then show "\<exists>V. electors n (lead ?h) (acc ?h) T V \<and> (\<forall>v\<in>V. T \<le> terms t v)"
        using lf(1) h(2) [OF p] by (auto simp: known_def split: if_splits)
    qed (use ns fs(1-5) lo lf(1) quiet_granted [OF i(2) q] in auto)
    then show ?thesis by blast
  qed
qed

end
