(* ===== verification/Raft_Messages.thy ===== *)
theory Raft_Messages
  imports Raft_Steps
begin

text \<open>
  The safety invariant under delivered requests: a vote is given to a log at least as new as the
  voter's, an accepted AppendEntries request makes the follower's log extend the leader's, an
  offered snapshot is one of a chosen log.
\<close>

section \<open>Votes\<close>

lemma setNewTerm_calm: "currentTerm rf \<le> T \<Longrightarrow> calm rf (setNewTerm rf T)" "logs (setNewTerm rf T) = logs rf"
  by (simp_all add: calm_def setNewTerm_def persist_def)

lemma calm_trans: "calm rf rf' \<Longrightarrow> calm rf' rf'' \<Longrightarrow> calm rf rf''"
  by (auto simp: calm_def)

lemma RequestVote_calm:
  assumes r: "RequestVote rf args = Some (rf', reply)" and "logs rf \<noteq> []"
  shows "calm rf rf'" "logs rf' = logs rf" "rvr_VoteGranted reply \<Longrightarrow> upToDate args (last (logs rf))"
proof -
  let ?rf = "if rv_Term args > currentTerm rf then setNewTerm rf (rv_Term args) else rf"
  have s: "calm rf ?rf" "logs ?rf = logs rf" using setNewTerm_calm [of rf "rv_Term args"] by simp_all
  have v: "calm ?rf (reset_electionTimer (persist (?rf\<lparr>votedFor := c\<rparr>)))" for c
    by (simp add: calm_def reset_electionTimer_def persist_def)
  have l: "getLastLog ?rf = Some (last (logs rf))" using s(2) assms(2) by (subst getLastLog_eq) auto
  have *: "calm rf rf' \<and> logs rf' = logs rf \<and> (rvr_VoteGranted reply \<longrightarrow> upToDate args (last (logs rf)))"
  proof (cases "rv_Term args < currentTerm rf \<or> rv_Term args = currentTerm rf \<and> votedFor rf \<noteq> -1 \<and> votedFor rf \<noteq> rv_CandidateId args")
    case True
    with r show ?thesis by (auto simp: RequestVote_def)
  next
    case False
    have "RequestVote rf args = (if (votedFor ?rf = -1 \<or> votedFor ?rf = rv_CandidateId args) \<and> upToDate args (last (logs rf))
        then (let rf = reset_electionTimer (persist (?rf\<lparr>votedFor := rv_CandidateId args\<rparr>))
              in Some (rf, \<lparr>rvr_Term = currentTerm rf, rvr_VoteGranted = True\<rparr>))
        else Some (?rf, \<lparr>rvr_Term = currentTerm ?rf, rvr_VoteGranted = False\<rparr>))"
      unfolding RequestVote_def if_not_P [OF False] Let_def l Option.bind_lunit ..
    with r calm_trans [OF s(1) v] s show ?thesis
      by (auto simp: Let_def reset_electionTimer_def persist_def split: if_splits simp del: if_split)
  qed
  then show "calm rf rf'" "logs rf' = logs rf" "rvr_VoteGranted reply \<Longrightarrow> upToDate args (last (logs rf))" by blast+
qed

lemma vote_granted:
  assumes k: "k < length (calls s)" "c_req (calls s ! k) = RequestVote_rpc args" "c_status (calls s ! k) = Pending"
    and t: "t = set_status (set_rft s p rf) k (Replied (RequestVote_reply reply))" and p: "p = c_peer (calls s ! k)"
  shows "granted t v T c \<longleftrightarrow> granted s v T c \<or> (rvr_VoteGranted reply \<and> v = p \<and> T = rv_Term args \<and> int c = rv_CandidateId args)"
proof -
  have e: "elections (nodes t ! q) = elections (nodes s ! q)" for q
    by (cases "q = p"; cases "p < length (nodes s)") (auto simp: t list_update_beyond)
  have l: "length (nodes t) = length (nodes s)" by (simp add: t)
  have no: "cast (calls s ! k) = None" using k by (simp add: cast_def)
  have "casts (calls t) = casts (calls s) \<union> {x. rvr_VoteGranted reply \<and> x = (p, rv_Term args, rv_CandidateId args)}"
  proof (cases "rvr_VoteGranted reply")
    case True
    have "casts (calls t) = insert (p, rv_Term args, rv_CandidateId args) (casts (calls s))"
      using k no True p by (simp add: t) (intro casts_insert; simp add: cast_def)
    with True show ?thesis by simp
  next
    case False
    then show ?thesis using k no by (simp add: t casts_update cast_def)
  qed
  then show ?thesis by (auto simp: granted_alt e l)
qed

text \<open>The vote of a peer whose log is not newer than the candidate's.\<close>

lemma new_vote_safe:
  assumes h: "hist_ok n (terms s) (lead h) (whole h) (acc h)" and p: "p < n"
    and v: "view (whole h p) (logs rf)" and st: "stand_safe h c args" and u: "upToDate args (last (logs rf))"
    and T: "terms s p \<le> rv_Term args" "terms t p = rv_Term args" "lead h (rv_Term args) = []"
  shows "vote_safe (renew n t h) p (rv_Term args) c"
proof -
  let ?G = "whole h p" and ?T = "rv_Term args"
  obtain f where f: "f < length ?G" "last_index (logs rf) = int (length ?G) - 1" "e_Term (last (logs rf)) = last_term ?G"
    using viewE [OF v hist_okD(1) [OF h] hist_okD(2) [OF h p]] by metis
  have "newer (stood h c ?T) ?G" using st u f by (auto simp: newer_def stand_safe_def upToDate_def)
  moreover have "kept (lead h) P ?G (?T - 1)" if P: "(p, P) \<in> acc (renew n t h)" "last_term P < ?T" for P
  proof -
    have a: "(p, P) \<in> acc h" using P T(2) by (auto simp: accepting_def)
    have "t' \<le> ?T - 1" if "t' \<le> terms s p" "parallel P (lead h t')" for t'
      using that T(1,3) by (cases "t' = ?T") auto
    with hist_okD(7) [OF h a] show ?thesis by (auto simp: kept_def)
  qed
  ultimately show ?thesis unfolding vote_safe_def using hist_okD(2) [OF h p] by auto
qed

lemma safe_vote:
  assumes i: "safe n h s" "cluster_inv n s" "cluster_inv n t" and k: "k < length (calls s)" "c_req (calls s ! k) = RequestVote_rpc args"
      "c_status (calls s ! k) = Pending"
    and p: "p = c_peer (calls s ! k)" and r: "RequestVote (rft (nodes s ! p)) args = Some (rf, reply)"
    and t: "t = set_status (set_rft s p rf) k (Replied (RequestVote_reply reply))"
  shows "extends n h t"
proof -
  note b = inv_base [OF i(2)] and h = safe_hist [OF i(1)]
  have co: "p < n" "c_caller (calls s ! k) < n" "args = el_args (elections (nodes s ! c_caller (calls s ! k)) ! c_election (calls s ! k))"
    "c_election (calls s ! k) < length (elections (nodes s ! c_caller (calls s ! k)))"
    using inv_call [OF b k(1)] p k(2) by (auto simp: call_ok_def)
  note nd = inv_node [OF b co(1)] and sn = safe_node [OF i(1) co(1)]
  have ne: "logs (rft (nodes s ! p)) \<noteq> []" using nd(2) by (auto simp: node_ok_def)
  note cl = RequestVote_calm [OF r ne] and rv = RequestVote_good [OF nd(2) r] and gr = vote_granted [OF k t p]
  have st: "stand_safe h (c_caller (calls s ! k)) args" and cid: "rv_CandidateId args = int (c_caller (calls s ! k))"
    using safe_node [OF i(1) co(2)] inv_node(5) [OF b co(2)] co(3,4) by (auto simp: node_safe_def)
  have nt: "nodes t = (nodes s)[p := (nodes s ! p)\<lparr>rft := rf\<rparr>]" by (simp add: t)
  have tm: "terms s p \<le> currentTerm rf" "terms t p = currentTerm rf" using cl(1) nt co(1) nd(1) by (simp_all add: calm_def terms_def)
  have "safe n (renew n t h) t \<and> hist_le n h (renew n t h)"
  proof (rule quiet_step [OF i co(1) nt])
    show "node_safe n (renew n t h) p ((nodes s ! p)\<lparr>rft := rf\<rparr>)"
      using cl apply_renew [OF i(1) co(1), of t] by (intro node_calm [OF renew_le [OF i(1)] _ _ _ sn]) (auto cong: apply_cong)
    fix v T c assume g: "granted t v T c" "lead h T = []"
    show "granted s v T c \<or> vote_safe (renew n t h) v T c"
    proof (cases "granted s v T c")
      case False
      with g(1) gr have n: "rvr_VoteGranted reply" "v = p" "T = rv_Term args" "int c = rv_CandidateId args" by auto
      with rv(2) have "currentTerm rf = rv_Term args" by simp
      moreover have "c = c_caller (calls s ! k)" using n(4) cid by simp
      ultimately show ?thesis
        using new_vote_safe [OF h co(1) _ st cl(3) [OF n(1)], of t] sn tm g(2) n by (simp add: node_safe_def)
    qed blast
  next
    fix k' assume "k' \<in> set (calls t)"
    then show "call_safe n (renew n t h) t k' \<or> (\<exists>k\<in>set (calls s). c_req k' = c_req k \<and>
      c_caller k' = c_caller k \<and> c_peer k' = c_peer k \<and> (succeeded k' \<longrightarrow> succeeded k))"
      using k(1) by (intro disjI2 old_calls [of k' "calls s" k "Replied (RequestVote_reply reply)"]) (simp_all add: t succeeded_def)
  qed (use cl tm gr in \<open>auto simp: calm_def\<close>)
  then show ?thesis by blast
qed

section \<open>Replication requests\<close>

lemma request_calls:
  assumes "k' \<in> set (calls t)" "calls t = (calls s)[k := (calls s ! k)\<lparr>c_status := st\<rparr>]" "k < length (calls s)"
    and "succeeded ((calls s ! k)\<lparr>c_status := st\<rparr>) \<Longrightarrow> call_safe n h t ((calls s ! k)\<lparr>c_status := st\<rparr>)"
  shows "call_safe n h t k' \<or> (\<exists>k\<in>set (calls s). c_req k' = c_req k \<and>
    c_caller k' = c_caller k \<and> c_peer k' = c_peer k \<and> (succeeded k' \<longrightarrow> succeeded k))"
proof (cases "k' = (calls s ! k)\<lparr>c_status := st\<rparr>")
  case True
  show ?thesis
  proof (cases "succeeded k'")
    case False
    then show ?thesis using True assms(3) by (intro disjI2 bexI [of _ "calls s ! k"]) simp_all
  qed (use True assms(4) in blast)
next
  case False
  with assms(1,2) set_update_subset_insert [of "calls s" k "(calls s ! k)\<lparr>c_status := st\<rparr>"] have "k' \<in> set (calls s)" by auto
  then show ?thesis by blast
qed

text \<open>The follower's log after it accepted the leader's log \<open>M\<close>.\<close>

definition took :: "nat \<Rightarrow> ('c, 's) cluster \<Rightarrow> 'c history \<Rightarrow> nat \<Rightarrow> 'c entry list \<Rightarrow> 'c history" where
  "took n t h p M = (let G = (whole h)(p := M) in h\<lparr>whole := G, acc := acc h \<union> accepting n (terms t) G\<rparr>)"

lemma took_simps [simp]:
  "lead (took n t h p M) = lead h" "whole (took n t h p M) = (whole h)(p := M)" "stood (took n t h p M) = stood h"
  "acc (took n t h p M) = acc h \<union> accepting n (terms t) ((whole h)(p := M))"
  by (simp_all add: took_def Let_def)

lemma took_le: "safe n h s \<Longrightarrow> hist_le n h (took n t h p M)"
  by (rule hist_leI) (auto simp: safe_def)

lemma took_grows:
  assumes h: "hist_ok n cT (lead h) (whole h) (acc h)" and "p < n" and c: "\<And>q. cT q \<le> cT' q"
    and "known (lead h) M" "last_term M \<le> cT' p" "keeps (lead h) (whole h p) M (cT' p)"
  shows "grows n cT (lead h) (whole h) cT' (lead (took n t h p M)) (whole (took n t h p M))"
proof -
  have "last_term (whole h q) \<le> cT' q" if "q < n" for q using hist_okD(3) [OF h that] c order_trans by blast
  with assms hist_okD(1,2) [OF h] show ?thesis by (simp add: grows_def keeps_prefix)
qed

lemma commit_merge:
  assumes h: "hist_ok n cT (lead h) (whole h) (acc h)" and a: "append_safe n h a M"
    and c: "commit_safe n h (ae_Term a) G i"
  defines "G' \<equiv> if prefix M G then G else M"
  shows "commit_safe n h (ae_Term a) G' (if ae_LeaderCommit a > i then min (ae_LeaderCommit a) (int (length G') - 1) else i)"
proof (cases "ae_LeaderCommit a > i")
  case True
  from a obtain Q where Q: "chosen n (acc h) Q" "last_term Q \<le> ae_Term a" "0 \<le> ae_LeaderCommit a" "ae_LeaderCommit a < int (length M)"
    "prefix (take (nat (ae_LeaderCommit a) + 1) M) Q" unfolding append_safe_def commit_safe_def by blast
  have "prefix M G'" by (simp add: G'_def)
  then obtain R where R: "G' = M @ R" by (auto simp: prefix_def)
  then have "min (ae_LeaderCommit a) (int (length G') - 1) = ae_LeaderCommit a" using Q(4) by simp
  moreover have "take (nat (ae_LeaderCommit a) + 1) G' = take (nat (ae_LeaderCommit a) + 1) M" using R Q(3,4) by simp
  ultimately show ?thesis using Q R True unfolding commit_safe_def by (intro exI [of _ Q]) simp
next
  case False
  from c obtain Q where Q: "chosen n (acc h) Q" "last_term Q \<le> ae_Term a" "0 \<le> i" "i < int (length G)"
    "prefix (take (nat i + 1) G) Q" unfolding commit_safe_def by blast
  show ?thesis
  proof (cases "prefix M G")
    case no: False
    let ?X = "take (nat i + 1) G"
    have M: "prefix M (lead h (ae_Term a))" using a by (simp add: append_safe_def)
    moreover from this no have "lead h (ae_Term a) \<noteq> []" by (auto simp: prefix_def)
    ultimately have "prefix ?X (lead h (ae_Term a))"
      using leader_extends_chosen [OF h Q(1) _ Q(2)] Q(5) prefix_order.trans by blast
    with M have "prefix ?X M \<or> prefix M ?X" using prefix_same_cases by blast
    moreover have "\<not> prefix M ?X" using no take_is_prefix prefix_order.trans by blast
    ultimately obtain R where R: "M = ?X @ R" by (auto simp: prefix_def)
    have lX: "length ?X = nat i + 1" using Q(3,4) by simp
    have "length M = nat i + 1 + length R" using arg_cong [OF R, of length] lX by simp
    then have "i < int (length M)" using Q(3) by linarith
    moreover have "take (nat i + 1) M = ?X" using arg_cong [OF R, of "take (nat i + 1)"] lX by simp
    ultimately show ?thesis using Q False no unfolding commit_safe_def G'_def by (intro exI [of _ Q]) simp
  qed (use c False in \<open>simp add: G'_def\<close>)
qed

lemma append_known:
  assumes "coherent (lead h)" "append_safe n h a M"
  shows "known (lead h) M" "last_term M \<le> ae_Term a" "lead h (ae_Term a) \<noteq> []" "M \<noteq> []"
proof -
  have M: "prefix M (lead h (ae_Term a))" "M \<noteq> []" using assms(2) by (auto simp: append_safe_def)
  then show "lead h (ae_Term a) \<noteq> []" "M \<noteq> []" by auto
  from known_prefix [OF assms(1) M] show "known (lead h) M" "last_term M \<le> ae_Term a" by blast+
qed

text \<open>An accepted request: the log becomes the leader's, unless it extends that already.\<close>

lemma AppendEntries_merges:
  assumes r: "AppendEntries rf args = Some (rf', reply)" and T: "ae_Term args = currentTerm rf" "prev_matches (logs rf) args"
    and lo: "log_ok (logs rf)" "ents_ok (ae_PrevLogIndex args) (ae_Entries args)" and c: "coherent (lead h)" and M: "append_safe n h args M"
    and G: "known (lead h) G" "view G (logs rf)" "last_term G \<le> currentTerm rf"
  defines "G' \<equiv> if prefix M G then G else M"
  shows "view G' (logs rf')" "known (lead h) G'" "last_term G' \<le> currentTerm rf" "prefix M G'" "logs rf' = merged (logs rf) args"
    "currentTerm rf' = currentTerm rf" "role rf' = (if role rf = CANDIDATE then FOLLOWER else role rf)"
    "commitIndex rf' = (if ae_LeaderCommit args > commitIndex rf then min (ae_LeaderCommit args) (int (length G') - 1) else commitIndex rf)"
proof -
  note kM = append_known [OF c M]
  from AppendEntries_success [OF lo] T r obtain rf1 where rf1: "log_update (heard_leader rf) rf1" "logs rf1 = merged (logs rf) args"
    "rf' = (if ae_LeaderCommit args > commitIndex rf
      then apply_signal (rf1\<lparr>commitIndex := commit_after args (commitIndex rf) (logs rf1)\<rparr>) else rf1)" by auto
  note lu = log_update_fields [OF rf1(1)]
  have v': "view G' (merged (logs rf) args)"
    unfolding G'_def using view_merged [OF c G(1) kM(1) G(2)] T M lo by (simp add: append_safe_def)
  show kG': "known (lead h) G'" "last_term G' \<le> currentTerm rf" "prefix M G'" using G kM T by (simp_all add: G'_def)
  have "last_index (merged (logs rf) args) = int (length G') - 1" using viewE [OF v' c kG'(1)] by metis
  then show fs: "logs rf' = merged (logs rf) args" "currentTerm rf' = currentTerm rf" "role rf' = (if role rf = CANDIDATE then FOLLOWER else role rf)"
    "commitIndex rf' = (if ae_LeaderCommit args > commitIndex rf then min (ae_LeaderCommit args) (int (length G') - 1) else commitIndex rf)"
    using rf1(2,3) lu T by (simp_all add: apply_signal_def commit_after_def)
  show "view G' (logs rf')" using v' fs(1) by simp
qed

lemma safe_append_accept:
  assumes i: "safe n h s" "cluster_inv n s" and k: "k < length (calls s)" "c_req (calls s ! k) = AppendEntries_rpc args"
      "c_status (calls s ! k) = Pending"
    and p: "p = c_peer (calls s ! k)" and r: "AppendEntries (rft (nodes s ! p)) args = Some (rf, reply)"
    and t: "t = set_status (set_rft s p rf) k (Replied (AppendEntries_reply reply))" and q: "quiet n s t"
    and T: "ae_Term args = currentTerm (rft (nodes s ! p))" "prev_matches (logs (rft (nodes s ! p))) args"
  shows "extends n h t"
proof -
  let ?rf = "rft (nodes s ! p)" and ?k' = "(calls s ! k)\<lparr>c_status := Replied (AppendEntries_reply reply)\<rparr>" and ?T = "ae_Term args"
  note b = inv_base [OF i(2)] and h = safe_hist [OF i(1)]
  have co: "p < n" "c_peer (calls s ! k) \<noteq> c_caller (calls s ! k)" "ents_ok (ae_PrevLogIndex args) (ae_Entries args)"
    using inv_call [OF b k(1)] p k(2) by (auto simp: call_ok_def)
  note nd = inv_node [OF b co(1)] and sn = safe_node [OF i(1) co(1)] and c = hist_okD(1) [OF h] and kG = hist_okD(2) [OF h co(1)]
  have lo: "log_ok (logs ?rf)" using nd(2) by (simp add: node_ok_def)
  from safe_call [OF i(1) k(1)] k(2) obtain M where w: "won n s ?T (c_caller (calls s ! k))" and M: "append_safe n h args M"
    by (auto simp: call_safe_def)
  define G' where "G' = (if prefix M (whole h p) then whole h p else M)"
  let ?h = "took n t h p G'"
  have v: "view (whole h p) (logs ?rf)" "commit_safe n h ?T (whole h p) (commitIndex ?rf)" using sn T by (simp_all add: node_safe_def)
  have lt: "last_term (whole h p) \<le> currentTerm ?rf" using hist_okD(3) [OF h co(1)] by (simp add: terms_def)
  note fs = AppendEntries_merges [OF r T lo co(3) c M kG v(1) lt, folded G'_def] and le = took_le [OF i(1), of t p G']
  have nt: "nodes t = (nodes s)[p := (nodes s ! p)\<lparr>rft := rf\<rparr>]" and ct: "calls t = (calls s)[k := ?k']" by (simp_all add: t)
  have "role ?rf \<noteq> LEADER" using leader_facts(3) [OF i co(1)] won_unique [OF i(2) w] co(2) p T(1) by metis
  then have fo: "role rf = FOLLOWER" using fs(7) by (cases "role ?rf") auto
  have te: "terms t x = terms s x" for x using nt fs(6) nd(1) co(1) by (cases "x = p") (simp_all add: terms_def)
  from commit_merge [OF h M v(2)] have "commit_safe n h ?T G' (commitIndex rf)" unfolding fs(8) G'_def .
  then have "commit_safe n ?h ?T G' (commitIndex rf)" by (rule commit_later [OF le _ order_refl])
  then have ns: "node_safe n ?h p ((nodes s ! p)\<lparr>rft := rf\<rparr>)"
    using sn fs(1,6) fo T stand_later [OF le] snap_later [OF le] apply_later [OF le]
    by (auto simp: node_safe_def role_safe_def cong: apply_cong)
  have "acked ?h p ?T M"
    using fs(4) te co(1) T unfolding acked_def by (auto simp: accepting_def terms_def intro: prefix_order.trans)
  moreover have "won n t ?T (c_caller (calls s ! k))" using w quiet_granted [OF i(2) q] by (simp add: won_def)
  ultimately have cs: "call_safe n ?h t ?k'" using append_later [OF le M] k(2) p by (auto simp: call_safe_def)
  have g: "grows n (terms s) (lead h) (whole h) (terms t) (lead ?h) (whole ?h)"
    using keeps_merge [OF c kG, of ?T M] hist_okD(3) [OF h co(1)] M T fs(2,3) te
    by (intro took_grows [OF h co(1)]) (auto simp: append_safe_def G'_def terms_def)
  have "first_index (logs ?rf) \<le> first_index (logs (rft ((nodes s ! p)\<lparr>rft := rf\<rparr>)))"
    using first_index_merged [OF lo] T fs(5) by simp
  then have "safe n ?h t \<and> hist_le n h ?h"
    by (intro safe_step [OF i quiet_inv [OF i(2) q] co(1) nt g])
      (use ns request_calls [OF _ ct k(1)] cs fo quiet_granted [OF i(2) q] in auto)
  then show ?thesis by blast
qed

lemma safe_append:
  assumes i: "safe n h s" "cluster_inv n s" and k: "k < length (calls s)" "c_req (calls s ! k) = AppendEntries_rpc args"
      "c_status (calls s ! k) = Pending"
    and p: "p = c_peer (calls s ! k)" and r: "AppendEntries (rft (nodes s ! p)) args = Some (rf, reply)"
    and t: "t = set_status (set_rft s p rf) k (Replied (AppendEntries_reply reply))" and q: "quiet n s t"
  shows "extends n h t"
proof -
  let ?rf = "rft (nodes s ! p)" and ?k' = "(calls s ! k)\<lparr>c_status := Replied (AppendEntries_reply reply)\<rparr>" and ?T = "ae_Term args"
  note b = inv_base [OF i(2)] and h = safe_hist [OF i(1)]
  have co: "p < n" "c_peer (calls s ! k) \<noteq> c_caller (calls s ! k)" "ents_ok (ae_PrevLogIndex args) (ae_Entries args)"
    using inv_call [OF b k(1)] p k(2) by (auto simp: call_ok_def)
  note nd = inv_node [OF b co(1)] and sn = safe_node [OF i(1) co(1)]
  have lo: "log_ok (logs ?rf)" using nd(2) by (simp add: node_ok_def)
  have nt: "nodes t = (nodes s)[p := (nodes s ! p)\<lparr>rft := rf\<rparr>]" by (simp add: t)
  have ct: "calls t = (calls s)[k := ?k']" by (simp add: t)
  show ?thesis
  proof (cases "?T = currentTerm ?rf \<and> prev_matches (logs ?rf) args")
    case False
    from AppendEntries_reject [OF lo, of args] False r have rej: "\<not> aer_Success reply"
      "rf = (if ?T < currentTerm ?rf then ?rf else if ?T > currentTerm ?rf then setNewTerm ?rf ?T else heard_leader ?rf)" by auto
    have "calm ?rf rf \<and> logs rf = logs ?rf" using rej(2) setNewTerm_calm [of ?rf ?T] by (auto simp: calm_def)
    moreover have "\<not> succeeded ?k'" using rej(1) by (simp add: succeeded_def)
    ultimately show ?thesis
      using request_calls [OF _ ct k(1)] apply_renew [OF i(1) co(1), of t]
      by (intro calm_action [OF i q co(1) nt]) (auto cong: apply_cong)
  next
    case True
    then show ?thesis by (intro safe_append_accept [OF i k p r t q]) blast+
  qed
qed

section \<open>Snapshots a leader offers\<close>

lemma InstallSnapshot_calm:
  assumes "InstallSnapshot rf args = (rf', reply, msg)"
  shows "calm rf rf'" "logs rf' = logs rf"
    "msg = Some m \<Longrightarrow> \<not> CommandValid m \<and> SnapshotIndex m = is_LastIncludedIndex args \<and> SnapshotTerm m = is_LastIncludedTerm args \<and> currentTerm rf' = is_Term args"
proof -
  let ?rf = "reset_electionTimer (if is_Term args > currentTerm rf then setNewTerm rf (is_Term args) else rf)"
  have "calm rf ?rf" "logs ?rf = logs rf"
    using setNewTerm_calm [of rf "is_Term args"] by (auto simp: calm_def reset_electionTimer_def)
  with assms show "calm rf rf'" "logs rf' = logs rf"
    by (auto simp: InstallSnapshot_def Let_def split: if_splits simp del: if_split)
  show "msg = Some m \<Longrightarrow> \<not> CommandValid m \<and> SnapshotIndex m = is_LastIncludedIndex args \<and> SnapshotTerm m = is_LastIncludedTerm args \<and> currentTerm rf' = is_Term args"
    using assms by (auto simp: InstallSnapshot_def Let_def reset_electionTimer_def setNewTerm_def persist_def split: if_splits)
qed

lemma safe_offer:
  assumes i: "safe n h s" "cluster_inv n s" and k: "k < length (calls s)" "c_req (calls s ! k) = InstallSnapshot_rpc args"
    and p: "p = c_peer (calls s ! k)" and r: "InstallSnapshot (rft (nodes s ! p)) args = (rf, reply, msg)"
    and t: "t = set_status (set_node s p ((nodes s ! p)\<lparr>rft := rf,
      snapshots := snapshots (nodes s ! p) @ (case msg of None \<Rightarrow> [] | Some m \<Rightarrow> [m])\<rparr>)) k (Replied (InstallSnapshot_reply reply))"
    and q: "quiet n s t"
  shows "extends n h t"
proof -
  let ?nd = "(nodes s ! p)\<lparr>rft := rf, snapshots := snapshots (nodes s ! p) @ (case msg of None \<Rightarrow> [] | Some m \<Rightarrow> [m])\<rparr>"
  have p': "p < n" using inv_call [OF inv_base [OF i(2)] k(1)] p by (simp add: call_ok_def)
  note sn = safe_node [OF i(1) p'] and cl = InstallSnapshot_calm [OF r] and le = renew_le [OF i(1), of t]
  have ss: "snap_safe n h (is_Term args) (is_LastIncludedIndex args) (is_LastIncludedTerm args)"
    using safe_call [OF i(1) k(1)] k(2) by (simp add: call_safe_def)
  show ?thesis
  proof (rule quiet_action [OF i q p', of ?nd])
    show "node_safe n (renew n t h) p ?nd"
    proof (rule node_calm [OF le _ _ _ sn])
      fix m assume "m \<in> set (snapshots ?nd)"
      then show "m \<in> set (snapshots (nodes s ! p)) \<or>
        \<not> CommandValid m \<and> snap_safe n (renew n t h) (currentTerm (rft ?nd)) (SnapshotIndex m) (SnapshotTerm m)"
        using cl(3) [of m] snap_later [OF le ss order_refl] by (auto split: option.splits)
    qed (use cl apply_renew [OF i(1) p', of t] in \<open>auto cong: apply_cong\<close>)
    fix k' assume "k' \<in> set (calls t)"
    then show "call_safe n (renew n t h) t k' \<or> (\<exists>k\<in>set (calls s). c_req k' = c_req k \<and>
      c_caller k' = c_caller k \<and> c_peer k' = c_peer k \<and> (succeeded k' \<longrightarrow> succeeded k))"
      by (rule request_calls [of k' t s k "Replied (InstallSnapshot_reply reply)"]) (use k(1) in \<open>auto simp: t succeeded_def\<close>)
  qed (use cl in \<open>auto simp: t calm_def\<close>)
qed

lemma safe_deliver:
  assumes i: "safe n h s" "cluster_inv n s" and k: "k < length (calls s)" and a: "do_deliver s k = Next t"
  shows "extends n h t"
proof -
  let ?k = "calls s ! k" and ?p = "c_peer (calls s ! k)"
  note b = inv_base [OF i(2)]
  have co: "?p < n" "rpc_ok (c_req ?k)" using inv_call [OF b k] by (auto simp: call_ok_def)
  note nd = inv_node [OF b co(1)]
  have pend: "c_status ?k = Pending" using a by (auto simp: do_deliver_def Let_def split: status.splits)
  show ?thesis
  proof (cases "c_req ?k")
    case (RequestVote_rpc args)
    with a pend obtain rf reply where
      "RequestVote (rft (nodes s ! ?p)) args = Some (rf, reply)"
      "t = set_status (set_rft s ?p rf) k (Replied (RequestVote_reply reply))"
      by (auto simp: do_deliver_def Let_def from_option_Next)
    with safe_vote [OF i act_deliver [OF i(2) k a] k RequestVote_rpc pend refl] show ?thesis by blast
  next
    case (AppendEntries_rpc args)
    with a pend obtain rf reply where
      r: "AppendEntries (rft (nodes s ! ?p)) args = Some (rf, reply)"
      "t = set_status (set_rft s ?p rf) k (Replied (AppendEntries_reply reply))"
      by (auto simp: do_deliver_def Let_def from_option_Next)
    have gs: "good_step (rft (nodes s ! ?p)) rf"
      using AppendEntries_good [OF nd(2) _ r(1)] co(2) AppendEntries_rpc by simp
    have "quiet n s t"
      by (rule quiet_status [OF b k refl _ _ co(1), of "Replied (AppendEntries_reply reply)" "(nodes s ! ?p)\<lparr>rft := rf\<rparr>"])
        (simp_all add: AppendEntries_rpc pend gs r(2))
    with safe_append [OF i k AppendEntries_rpc pend refl r] show ?thesis .
  next
    case (InstallSnapshot_rpc args)
    obtain rf reply msg where r: "InstallSnapshot (rft (nodes s ! ?p)) args = (rf, reply, msg)" by (metis surj_pair)
    let ?nd = "(nodes s ! ?p)\<lparr>rft := rf, snapshots := snapshots (nodes s ! ?p) @ (case msg of None \<Rightarrow> [] | Some m \<Rightarrow> [m])\<rparr>"
    have t: "t = set_status (set_node s ?p ?nd) k (Replied (InstallSnapshot_reply reply))"
      using a pend InstallSnapshot_rpc r by (simp add: do_deliver_def Let_def)
    have "quiet n s t"
      by (rule quiet_status [OF b k refl _ _ co(1), of "Replied (InstallSnapshot_reply reply)" ?nd])
        (simp_all add: InstallSnapshot_rpc pend t InstallSnapshot_good [OF nd(2) r])
    with safe_offer [OF i k InstallSnapshot_rpc refl r t] show ?thesis .
  qed
qed

section \<open>Installed snapshots\<close>

text \<open>
  The install that breaks log matching: the snapshot ends within the log, at an entry of another
  term, and the log keeps what follows.
\<close>

fun install_conflict :: "('c, 's) action \<Rightarrow> ('c, 's) cluster \<Rightarrow> bool" where
  "install_conflict (InstallSnap p j) s =
     (p < length (nodes s) \<and> j < length (snapshots (nodes s ! p)) \<and>
      (let m = snapshots (nodes s ! p) ! j; rf = rft (nodes s ! p) in
       commitIndex rf < SnapshotIndex m \<and>
       (case entry_at (logs rf) (SnapshotIndex m) of None \<Rightarrow> False | Some e \<Rightarrow> e_Term e \<noteq> SnapshotTerm m)))"
| "install_conflict _ s = False"

lemma role_no_leader:
  assumes "hist_le n h h'" "role_safe n h p nd" "lead h' = lead h" "stood h' = stood h" "role (rft nd) \<noteq> LEADER"
    and "keeps (lead h) (whole h p) (whole h' p) (currentTerm (rft nd))"
    and "role (rft nd') = role (rft nd)" "currentTerm (rft nd') = currentTerm (rft nd)" "elections nd' = elections nd"
  shows "role_safe n h' p nd'"
proof -
  have "keeps (lead h) (stood h p (currentTerm (rft nd))) (whole h' p) (currentTerm (rft nd))" if "role (rft nd) = CANDIDATE"
    using assms(2,6) that keeps_trans [of "lead h" _ "whole h p" _ "lead h"] by (auto simp: role_safe_def)
  with assms show ?thesis by (auto simp: role_safe_def)
qed

lemma install_keep:
  assumes i: "safe n h s" "cluster_inv n s" "quiet n s t" and p: "p < n" "nodes t = (nodes s)[p := nd]" "calls t = calls s"
    and same: "currentTerm (rft nd) = currentTerm (rft (nodes s ! p))" "role (rft nd) = role (rft (nodes s ! p))"
      "matchIndex (rft nd) = matchIndex (rft (nodes s ! p))" "elections nd = elections (nodes s ! p)" "snapshots nd = snapshots (nodes s ! p)"
    and v: "view (whole h p) (logs (rft nd))" and fi: "first_index (logs (rft (nodes s ! p))) \<le> first_index (logs (rft nd))"
    and c: "commitIndex (rft (nodes s ! p)) \<le> commitIndex (rft nd)"
      "commit_safe n h (currentTerm (rft nd)) (whole h p) (commitIndex (rft nd))"
    and ap: "apply_safe n (renew n t h) nd"
  shows "extends n h t"
proof (rule quiet_action [OF i p(1,2)])
  note sn = safe_node [OF i(1) p(1)] and le = renew_le [OF i(1), of t]
  have "role_safe n (renew n t h) p nd"
    using sn same c(1) by (intro role_same [OF le, of p "nodes s ! p"]) (auto simp: node_safe_def)
  then show "node_safe n (renew n t h) p nd"
    using sn same v ap commit_later [OF le c(2) order_refl] stand_later [OF le] snap_later [OF le]
    by (auto simp: node_safe_def)
qed (use p same fi in auto)

lemma install_reset:
  assumes i: "safe n h s" "cluster_inv n s" "quiet n s t" and p: "p < n" "nodes t = (nodes s)[p := nd]" "calls t = calls s"
    and same: "currentTerm (rft nd) = currentTerm (rft (nodes s ! p))" "role (rft nd) = role (rft (nodes s ! p))"
      "elections nd = elections (nodes s ! p)" "snapshots nd = snapshots (nodes s ! p)"
    and K: "chosen n (acc h) Q" "last_term Q \<le> currentTerm (rft nd)" "prefix K Q" "length (whole h p) < length K"
    and v: "view K (logs (rft nd))" and fi: "first_index (logs (rft (nodes s ! p))) \<le> first_index (logs (rft nd))"
    and c: "commitIndex (rft nd) = int (length K) - 1" and ap: "apply_safe n (took n t h p K) nd"
  shows "extends n h t"
proof -
  let ?h = "took n t h p K" and ?T = "currentTerm (rft nd)"
  note h = safe_hist [OF i(1)] and sn = safe_node [OF i(1) p(1)] and le = took_le [OF i(1), of t p K]
  have ne: "K \<noteq> []" using K(4) by auto
  have kK: "known (lead h) K" "last_term K \<le> last_term Q" using known_sub [OF hist_okD(1) [OF h] chosen_known [OF h K(1)] K(3) ne] .
  have nl: "role (rft (nodes s ! p)) \<noteq> LEADER"
  proof
    assume l: "role (rft (nodes s ! p)) = LEADER"
    note lf = leader_facts [OF i(1,2) p(1) l]
    have "lead h ?T \<noteq> []" using lf(1) hist_okD(2) [OF h p(1)] same(1) by (simp add: known_def)
    from leader_extends_chosen [OF h K(1) this K(2)] have "length Q \<le> length (whole h p)" using lf(1) same(1) by (simp add: prefix_length_le)
    with prefix_length_le [OF K(3)] K(4) show False by simp
  qed
  have kp: "keeps (lead h) (whole h p) K ?T" using keeps_reset [OF h hist_okD(2) [OF h p(1)] K(1,3,4,2)] .
  have te: "terms t x = terms s x" for x
    using p(2) same(1) p(1) i(2) by (cases "x = p") (auto simp: terms_def cluster_inv_def nodes_ok_def)
  have "commit_safe n ?h ?T K (commitIndex (rft nd))"
    using c K ne chosen_later [OF le K(1)] unfolding commit_safe_def by (intro exI [of _ Q]) (auto simp: nat_diff_distrib Suc_leI)
  moreover have "role_safe n ?h p nd"
    using sn same nl kp by (intro role_no_leader [OF le, of p "nodes s ! p"]) (auto simp: node_safe_def)
  ultimately have ns: "node_safe n ?h p nd"
    using sn same v ap stand_later [OF le] snap_later [OF le] by (auto simp: node_safe_def)
  have "safe n ?h t \<and> hist_le n h ?h"
  proof (rule safe_step [OF i(1,2) quiet_inv [OF i(2,3)] p(1,2)])
    show "grows n (terms s) (lead h) (whole h) (terms t) (lead ?h) (whole ?h)"
      using kK kp K(2) te same(1) by (intro took_grows [OF h p(1)]) (auto simp: terms_def)
  qed (use ns p(3) fi same nl quiet_granted [OF i(2,3)] in auto)
  then show ?thesis by blast
qed

text \<open>The log after an install: a suffix of the peer's own, or the marker alone.\<close>

lemma install_near:
  assumes c: "coherent L" and k: "known L G" "known L K" and v: "view G lgs" "log_ok lgs"
    and i: "first_index lgs < i" "i \<le> last_index lgs" "0 \<le> i" and K: "int (length K) = i + 1" "last_term K = T"
    and e: "entry_at lgs i = Some e" "drop (nat (i - first_index lgs)) lgs = e # es" "e_Term e = T"
  shows "view G (\<lparr>e_Index = i, e_Term = T, e_Command = None\<rparr> # es)" "K = take (nat i + 1) G" "i < int (length G)"
proof -
  note d = view_drop [OF v(1) c k(1) i(1,2) e(2)]
  have te: "e_Term (G ! nat i) = T" using e(3) d(1) by simp
  show "K = take (nat i + 1) G"
  proof (rule log_matching [OF k(2)])
    show "known L (take (nat i + 1) G)" by (rule known_sub(1) [OF c k(1) take_is_prefix]) (use d(3) in auto)
  qed (use d(3) te K i(3) in \<open>auto simp: last_term_def take_Suc_conv_app_nth\<close>)
  have "\<lparr>e_Index = i, e_Term = T, e_Command = None\<rparr> # es = (G ! nat i)\<lparr>e_Command := None\<rparr> # drop (Suc (nat i)) G"
    using d te known_index(1) [OF c k(1), of "nat i"] i(3) by simp
  then show "view G (\<lparr>e_Index = i, e_Term = T, e_Command = None\<rparr> # es)" using d(3) unfolding view_def by blast
  show "i < int (length G)" using d(3) i(3) by simp
qed

lemma install_far:
  assumes "coherent L" "known L K" "K \<noteq> []" "int (length K) = i + 1" "last_term K = T"
  shows "view K [\<lparr>e_Index = i, e_Term = T, e_Command = None\<rparr>]"
proof -
  have "0 \<le> i" "length K - 1 = nat i" using assms(3,4) by (cases K; simp)+
  then have "(last K)\<lparr>e_Command := None\<rparr> = \<lparr>e_Index = i, e_Term = T, e_Command = None\<rparr>"
    using assms(4,5) last_conv_nth [OF assms(3)] known_index(1) [OF assms(1,2), of "nat i"] by (simp add: last_term_def)
  then show ?thesis using view_last [OF assms(3)] by simp
qed

lemma safe_install:
  assumes i: "safe n h s" "cluster_inv n s" and p: "p < n" and a: "do_install s p j = Next t"
    and nc: "\<not> install_conflict (InstallSnap p j) s"
  shows "extends n h t"
proof -
  let ?rf = "rft (nodes s ! p)"
  note b = inv_base [OF i(2)] and h = safe_hist [OF i(1)]
  note nd = inv_node [OF b p] and sn = safe_node [OF i(1) p] and q = act_install [OF b p a]
  from a obtain m rf ok where m: "j < length (snapshots (nodes s ! p))" "m = snapshots (nodes s ! p) ! j"
    and r: "CondInstallSnapshot ?rf (SnapshotTerm m) (SnapshotIndex m) (Snapshot_data m) = Some (rf, ok)"
    and t: "t = set_node s p ((nodes s ! p)\<lparr>rft := rf, delivered := delivered (nodes s ! p) @ (if ok then [m] else [])\<rparr>)"
    by (auto simp: do_install_def Let_def from_option_Next split: if_splits)
  let ?nd = "(nodes s ! p)\<lparr>rft := rf, delivered := delivered (nodes s ! p) @ (if ok then [m] else [])\<rparr>" and ?i = "SnapshotIndex m"
  have nt: "nodes t = (nodes s)[p := ?nd]" "calls t = calls s" by (simp_all add: t)
  have mv: "\<not> CommandValid m" "snap_safe n h (currentTerm ?rf) ?i (SnapshotTerm m)" using sn m by (simp_all add: node_safe_def)
  have ap: "apply_safe n h' ?nd" if "apply_safe n h' (nodes s ! p)" for h' using that mv(1) by (auto simp: apply_safe_def)
  show ?thesis
  proof (cases "?i \<le> commitIndex ?rf")
    case True
    with r have "rf = ?rf" by (simp add: CondInstallSnapshot_def)
    then show ?thesis using ap [OF apply_renew [OF i(1) p, of t]] nt by (intro calm_action [OF i q p nt(1)]) auto
  next
    case False
    note c = hist_okD(1) [OF h] and kG = hist_okD(2) [OF h p]
    have lo: "log_ok (logs ?rf)" "first_index (logs ?rf) \<le> commitIndex ?rf" using nd(2) by (simp_all add: node_ok_def)
    from CondInstallSnapshot_spec [OF lo, of ?i "SnapshotTerm m" "Snapshot_data m"] False r obtain e es where
      lg: "logs rf = \<lparr>e_Index = ?i, e_Term = SnapshotTerm m, e_Command = None\<rparr> # es"
      "if ?i \<le> last_index (logs ?rf) then drop (nat (?i - first_index (logs ?rf))) (logs ?rf) = e # es else es = []"
      and f: "rf = ?rf\<lparr>logs := logs rf, LastApplied := ?i, commitIndex := ?i, persister := persister rf\<rparr>" by force
    have fs: "commitIndex rf = ?i" "currentTerm rf = currentTerm ?rf" "role rf = role ?rf" "matchIndex rf = matchIndex ?rf"
      by (subst f, simp)+
    from mv(2) obtain K Q where KQ: "chosen n (acc h) Q" "last_term Q \<le> currentTerm ?rf" "prefix K Q" "K \<noteq> []"
      "int (length K) = ?i + 1" "last_term K = SnapshotTerm m" unfolding snap_safe_def by blast
    have kK: "known (lead h) K" "last_term K \<le> last_term Q" using known_sub [OF c chosen_known [OF h KQ(1)] KQ(3,4)] .
    have v: "view (whole h p) (logs ?rf)" using sn by (simp add: node_safe_def)
    have i0: "0 \<le> ?i" using KQ(4,5) by (cases K) auto
    have fi: "first_index (logs ?rf) \<le> first_index (logs (rft ?nd))" using lg(1) lo(2) False by simp
    show ?thesis
    proof (cases "?i \<le> last_index (logs ?rf)")
      case True
      with lg(2) have dr: "drop (nat (?i - first_index (logs ?rf))) (logs ?rf) = e # es" by simp
      have gt: "first_index (logs ?rf) < ?i" using lo(2) False by linarith
      have e: "entry_at (logs ?rf) ?i = Some e"
        using idx_in_range [OF lo(1) _ True] gt dr by (simp add: entry_at_def) (metis nth_via_drop)
      then have "e_Term e = SnapshotTerm m" using nc m p nd(1) False by (auto simp: Let_def)
      note ne = install_near [OF c kG kK(1) v lo(1) gt True i0 KQ(5,6) e dr this]
      have v': "view (whole h p) (logs rf)" using ne(1) lg(1) by simp
      have "commit_safe n h (currentTerm ?rf) (whole h p) ?i"
        using KQ(1-3) ne(2,3) i0 unfolding commit_safe_def by (intro exI [of _ Q]) auto
      then show ?thesis
        using fs False v' fi ap [OF apply_renew [OF i(1) p, of t]] by (intro install_keep [OF i q p nt]) auto
    next
      case far: False
      have "last_index (logs ?rf) = int (length (whole h p)) - 1" using viewE [OF v c kG] by metis
      then have len: "length (whole h p) < length K" using far KQ(5) by linarith
      have "view K (logs (rft ?nd))" using install_far [OF c kK(1) KQ(4-6)] lg far by simp
      moreover have "apply_safe n h (nodes s ! p)" using sn by (simp add: node_safe_def)
      ultimately show ?thesis
        using fs KQ len fi ap [OF apply_later [OF took_le [OF i(1), of t p K]]]
        by (intro install_reset [OF i q p nt _ _ _ _ KQ(1) _ KQ(3) len]) auto
    qed
  qed
qed

end
