(* ===== verification/Raft_Leaders.thy ===== *)
theory Raft_Leaders
  imports Raft_Messages
begin

text \<open>
  Elections keep the safety invariant. A candidate's log is recorded when it stands, and a
  candidate that wins has voters whose accepted logs its own log keeps, so that its log becomes
  the log of the leader of its term.
\<close>

section \<open>Elections\<close>

lemma granted_stands:
  assumes "base_inv n s" "granted s v T c"
  shows "c < n \<and> (\<exists>el\<in>set (elections (nodes s ! c)). el_term el = T)"
  using assms(2) unfolding granted_def
proof
  assume "\<exists>k\<in>set (calls s). cast k = Some (v, T, int c)"
  then obtain k where k: "k \<in> set (calls s)" "cast k = Some (v, T, int c)" by blast
  then obtain a where a: "c_req k = RequestVote_rpc a" "T = rv_Term a" "int c = rv_CandidateId a"
    by (auto simp: cast_def split: rpc.splits option.splits rpc_reply.splits if_splits)
  let ?el = "elections (nodes s ! c_caller k) ! c_election k"
  have co: "c_caller k < n" "c_election k < length (elections (nodes s ! c_caller k))" "a = el_args ?el"
    using assms(1) k(1) a(1) by (auto simp: base_inv_def call_ok_def)
  then have "c = c_caller k" using inv_node(5) [OF assms(1) co(1), of ?el] a(3) by simp
  with co a(2) show ?thesis by (auto simp: el_term_def intro!: bexI [of _ ?el])
qed (use assms(1) in \<open>auto simp: base_inv_def nodes_ok_def\<close>)

lemma stands_term:
  assumes "cluster_inv n s" "p < n" "el \<in> set (elections (nodes s ! p))"
  shows "el_term el \<le> terms s p"
proof -
  have "granted s p (el_term el) p" using assms by (auto simp: granted_def cluster_inv_def nodes_ok_def)
  with granted_term [OF assms(1)] show ?thesis by blast
qed

lemma ticker_election_same:
  assumes "ticker_election rf = Some (rf', el, out)"
  shows "logs rf' = logs rf" "commitIndex rf' = commitIndex rf"
  using assms
  by (auto simp: ticker_election_def StartElection_def Let_def bind_Some_iff reset_electionTimer_def persist_def)

lemma started_same:
  assumes "started n s p rf' el t" "do_election s p = Next t"
  shows "logs rf' = logs (rft (nodes s ! p))" "commitIndex rf' = commitIndex (rft (nodes s ! p))"
proof -
  from assms(2) obtain rf1 el1 out where e: "ticker_election (rft (nodes s ! p)) = Some (rf1, el1, out)"
    "t = send (set_node s p ((nodes s ! p)\<lparr>rft := rf1, elections := elections (nodes s ! p) @ [el1]\<rparr>)) p (length (elections (nodes s ! p))) out"
    by (auto simp: do_election_def Let_def from_option_Next)
  have "p < length (nodes s)" using assms(1) by (simp add: started_def)
  then have "rft (nodes t ! p) = rf1" by (simp add: e(2))
  moreover have "rft (nodes t ! p) = rf'" using started_nodes(1) [OF assms(1)] by simp
  ultimately show "logs rf' = logs (rft (nodes s ! p))" "commitIndex rf' = commitIndex (rft (nodes s ! p))"
    using ticker_election_same [OF e(1)] by simp_all
qed

definition stands :: "nat \<Rightarrow> ('c, 's) cluster \<Rightarrow> 'c history \<Rightarrow> nat \<Rightarrow> int \<Rightarrow> 'c history" where
  "stands n t h p T = h\<lparr>acc := acc h \<union> accepting n (terms t) (whole h), stood := (stood h)(p := (stood h p)(T := whole h p))\<rparr>"

lemma stands_simps [simp]:
  "lead (stands n t h p T) = lead h" "whole (stands n t h p T) = whole h"
  "stood (stands n t h p T) = (stood h)(p := (stood h p)(T := whole h p))"
  "acc (stands n t h p T) = acc h \<union> accepting n (terms t) (whole h)"
  by (simp_all add: stands_def)

lemma stands_node:
  assumes i: "safe n h s" "cluster_inv n s" and p: "p < n" and a: "do_election s p = Next t" and st: "started n s p rf' el t"
  shows "node_safe n (stands n t h p (terms s p + 1)) p ((nodes s ! p)\<lparr>rft := rf', elections := elections (nodes s ! p) @ [el]\<rparr>)"
proof -
  let ?rf = "rft (nodes s ! p)" and ?T = "terms s p + 1" and ?nd = "(nodes s ! p)\<lparr>rft := rf', elections := elections (nodes s ! p) @ [el]\<rparr>"
  let ?h = "stands n t h p ?T"
  note h = safe_hist [OF i(1)] and sn = safe_node [OF i(1) p] and nt = started_nodes [OF st] and sm = started_same [OF st a]
  have ea: "el_args el = vote_args ?rf" and rf': "currentTerm rf' = ?T" "role rf' = CANDIDATE" using st by (simp_all add: started_def terms_def)
  have le: "hist_le n h ?h" by (rule hist_leI [OF h]) auto
  have v: "view (whole h p) (logs ?rf)" "0 \<le> terms s p" using sn by (simp_all add: node_safe_def terms_def)
  have lg: "last_index (logs ?rf) = int (length (whole h p)) - 1" "e_Term (last (logs ?rf)) = last_term (whole h p)"
    using viewE [OF v(1) hist_okD(1) [OF h] hist_okD(2) [OF h p]] by metis+
  have "stand_safe ?h p (el_args el)"
    using ea lg v(2) hist_okD(2,3) [OF h p] by (simp add: stand_safe_def vote_args_def terms_def)
  moreover have "stand_safe ?h p (el_args x)" if x: "x \<in> set (elections (nodes s ! p))" for x
  proof -
    have "stand_safe h p (el_args x)" using sn x by (simp add: node_safe_def)
    moreover have "rv_Term (el_args x) \<noteq> ?T" using stands_term [OF i(2) p x] by (simp add: el_term_def)
    ultimately show ?thesis by (intro stand_later [OF le]) simp_all
  qed
  moreover have "role_safe n ?h p ?nd" using rf' nt(3) by (simp add: role_safe_def terms_def keeps_prefix)
  moreover have "apply_safe n ?h ?nd" using apply_later [OF le, of "nodes s ! p"] sn by (simp add: node_safe_def cong: apply_cong)
  ultimately show ?thesis
    using sn rf'(1) sm commit_later [OF le, of "terms s p" _ _ ?T] snap_later [OF le, of "terms s p" _ _ ?T]
    by (auto simp: node_safe_def terms_def)
qed

lemma stands_vote:
  assumes h: "safe n h s" and p: "p < n" and t: "terms t p = terms s p + 1"
  shows "vote_safe (stands n t h p (terms s p + 1)) p (terms s p + 1) p"
proof -
  have "kept (lead h) P (whole h p) (terms s p)" if "(p, P) \<in> acc h" for P using hist_okD(7) [OF safe_hist [OF h] that] by simp
  then show ?thesis
    unfolding vote_safe_def using hist_okD(2) [OF safe_hist [OF h] p] t by (intro exI [of _ "whole h p"]) (auto simp: newer_def accepting_def)
qed

lemma safe_election:
  assumes i: "safe n h s" "cluster_inv n s" and p: "p < n" and a: "do_election s p = Next t"
  shows "extends n h t"
proof -
  let ?rf = "rft (nodes s ! p)" and ?T = "terms s p + 1"
  let ?h = "stands n t h p ?T"
  note b = inv_base [OF i(2)] and h = safe_hist [OF i(1)] and sn = safe_node [OF i(1) p]
  note it = act_election [OF i(2) p a]
  from do_election_started [OF b p a] obtain rf' el where st: "started n s p rf' el t" by blast
  note nt = started_nodes [OF st] and g = started_granted [OF st] and sm = started_same [OF st a]
  let ?nd = "(nodes s ! p)\<lparr>rft := rf', elections := elections (nodes s ! p) @ [el]\<rparr>"
  have rf': "currentTerm rf' = ?T" "role rf' = CANDIDATE" and nt': "nodes t = (nodes s)[p := ?nd]"
    using st by (simp_all add: started_def terms_def)
  have te: "terms s q \<le> terms t q" for q using nt rf'(1) by (cases "q = p") (simp_all add: terms_def)
  have le: "hist_le n h ?h" by (rule hist_leI [OF h]) auto
  have no: "\<not> granted s v ?T p" for v
  proof
    assume "granted s v ?T p"
    from granted_stands [OF b this] stands_term [OF i(2) p] show False by force
  qed
  have "terms t p = ?T" using nt(1) rf'(1) by (simp add: terms_def)
  note ns = stands_node [OF i p a st] and vs = stands_vote [OF i(1) p this]
  have "safe n ?h t \<and> hist_le n h ?h"
  proof (rule safe_step [OF i it p nt'])
    show "grows n (terms s) (lead h) (whole h) (terms t) (lead ?h) (whole ?h)"
      using hist_okD(1-3) [OF h] te by (auto simp: grows_def keeps_prefix intro: order_trans)
    fix v T c assume "granted t v T c" "lead ?h T = []"
    then show "granted s v T c \<and> stood ?h c T = stood h c T \<or> vote_safe ?h v T c"
      using g vs no by (auto simp: terms_def)
  next
    fix k' assume "k' \<in> set (calls t)"
    then have "k' \<in> set (calls s) \<or> is_vote (c_req k')" using st by (auto simp: started_def)
    moreover have "call_safe n ?h t k'" if "is_vote (c_req k')" using that by (cases "c_req k'") (simp_all add: call_safe_def)
    ultimately show "call_safe n ?h t k' \<or> (\<exists>k\<in>set (calls s). c_req k' = c_req k \<and>
      c_caller k' = c_caller k \<and> c_peer k' = c_peer k \<and> (succeeded k' \<longrightarrow> succeeded k))" by blast
  qed (use ns g rf' sm in \<open>auto simp: terms_def\<close>)
  then show ?thesis by blast
qed

section \<open>A candidate wins\<close>

lemma requestVote_return_cases:
  assumes r: "requestVote_return rf el (Some reply) = Some (rf', el', out)" and ns: "\<not> stale_reply el reply"
  obtains (same) "rf' = rf" "out = []" "el_args el' = el_args el"
  | (win) "become_leader rf = Some (rf', out)" "role rf = CANDIDATE" "currentTerm rf = rv_Term (el_args el)" "el_args el' = el_args el"
  using r ns unfolding requestVote_return_def stale_reply_def Let_def
  by (fastforce simp: bind_Some_iff split: if_splits)

lemma become_leader_same:
  assumes "become_leader rf = Some (rf', out)" "node_ok rf"
  shows "logs rf' = logs rf" "commitIndex rf' = commitIndex rf" "currentTerm rf' = currentTerm rf" "role rf' = LEADER"
    "matchIndex rf' = map (\<lambda>_. 0) [0..<peers rf]" "(q, req) \<in> set out \<Longrightarrow> appendEntries_to rf' q = Some req"
proof -
  define rf0 where "rf0 = rf\<lparr>role := LEADER, nextIndex := map (\<lambda>_. last_index (logs rf) + 1) [0..<peers rf],
    matchIndex := map (\<lambda>_. 0) [0..<peers rf]\<rparr>"
  have lo: "log_ok (logs rf)" using assms(2) by (simp add: node_ok_def)
  obtain rf1 where rf1: "appendEntries rf0 True = Some (rf1, out)" "rf' = reset_heartbeatTimer rf1"
    using assms lo by (auto simp: become_leader_def Let_def bind_Some_iff rf0_def)
  have "log_ok (logs rf0)" using lo by (simp add: rf0_def)
  from appendEntries_facts [OF rf1(1) this] have tm: "rf1 = rf0\<lparr>electionTimer := electionTimer rf1\<rparr>" by blast
  then have e: "rf' = rf0\<lparr>electionTimer := electionTimer rf1, heartbeatTimer := heartbeatTimer rf'\<rparr>"
    unfolding rf1(2) reset_heartbeatTimer_def by (metis (no_types, lifting) raft.select_convs(9) raft.surjective raft.update_convs(8,9))
  show "logs rf' = logs rf" "commitIndex rf' = commitIndex rf" "currentTerm rf' = currentTerm rf" "role rf' = LEADER"
    "matchIndex rf' = map (\<lambda>_. 0) [0..<peers rf]" by (subst e, simp add: rf0_def)+
  have "appendEntries_to (rf\<lparr>heartbeatTimer := x\<rparr>) q = appendEntries_to rf q" for rf :: "('a, 'b) raft" and x q
    by (simp add: appendEntries_to_def getFirstLog_def Let_def cong: if_cong bind_option_cong)
  then show "(q, req) \<in> set out \<Longrightarrow> appendEntries_to rf' q = Some req"
    using appendEntries_sent [OF rf1(1)] by (subst e) simp
qed

lemma keeps_weaken: "keeps L G G' \<tau> \<Longrightarrow> \<tau> \<le> \<tau>' \<Longrightarrow> keeps L G G' \<tau>'"
  unfolding keeps_def using kept_mono [of L _ G' \<tau> L] by blast

definition elects :: "nat \<Rightarrow> ('c, 's) cluster \<Rightarrow> 'c history \<Rightarrow> nat \<Rightarrow> int \<Rightarrow> 'c history" where
  "elects n t h p T = h\<lparr>lead := (lead h)(T := whole h p), acc := acc h \<union> accepting n (terms t) (whole h)\<rparr>"

lemma elects_simps [simp]:
  "lead (elects n t h p T) = (lead h)(T := whole h p)" "whole (elects n t h p T) = whole h" "stood (elects n t h p T) = stood h"
  "acc (elects n t h p T) = acc h \<union> accepting n (terms t) (whole h)"
  by (simp_all add: elects_def)

text \<open>
  The voters of a winner are electors: what a voter accepted before, the voter's log kept at the
  vote, the candidate's log kept then, and it keeps now.
\<close>

lemma winner_electors:
  assumes h: "hist_ok n cT (lead h) (whole h) (acc h)" and T: "lead h T = []"
    and V: "majority n V" "\<And>v. v \<in> V \<Longrightarrow> vote_safe h v T p \<and> T \<le> terms t v"
    and C: "known (lead h) (stood h p T)" "last_term (stood h p T) < T" "keeps (lead h) (stood h p T) (whole h p) T"
  shows "electors n (lead (elects n t h p T)) (acc (elects n t h p T)) T V"
  unfolding electors_def
proof (intro conjI ballI allI impI V(1))
  let ?h = "elects n t h p T"
  fix v P assume v: "v \<in> V" and P: "(v, P) \<in> acc ?h" "last_term P < T"
  have a: "(v, P) \<in> acc h" using P V(2) [OF v] by (auto simp: accepting_def)
  have ne: "P \<noteq> []" using hist_okD(5) [OF h a] by (simp add: known_def)
  from V(2) [OF v] obtain W where W: "known (lead h) W" "newer (stood h p T) W" "kept (lead h) P W (T - 1)"
    using a P(2) unfolding vote_safe_def by blast
  have 1: "kept (lead h) P (stood h p T) (T - 1)"
    by (rule kept_trans [OF W(3) ne keeps_newer [OF hist_okD(1) [OF h] C(1) W(1,2), THEN keeps_weaken]]) (use C(2) in auto)
  have "kept (lead h) P (whole h p) T" by (rule kept_trans [OF 1 ne C(3)]) auto
  then have "kept (lead h) P (whole h p) (T - 1)"
    unfolding kept_def using T by (metis linorder_not_le parallel_Nil1 zle_diff1_eq order_le_less)
  from kept_mono [OF this, of "lead ?h" "T - 1"] T show "kept (lead ?h) P (lead ?h T) (T - 1)" by simp
qed

lemma voted_state:
  assumes i: "base_inv n s" and k: "k < length (calls s)" "c_req (calls s ! k) = RequestVote_rpc args"
    and p: "p = c_caller (calls s ! k)" and e: "e = c_election (calls s ! k)"
  shows "nodes (voted s k reply rf' el' out) = (nodes s)[p := (nodes s ! p)\<lparr>rft := rf', elections := (elections (nodes s ! p))[e := el']\<rparr>]"
    "k' \<in> set (calls (voted s k reply rf' el' out)) \<Longrightarrow>
      k' \<in> set ((calls s)[k := (calls s ! k)\<lparr>c_status := Returned (RequestVote_reply reply)\<rparr>]) \<or>
      (\<exists>q req. (q, req) \<in> set out \<and> c_req k' = req \<and> c_caller k' = p \<and> c_status k' = Pending)"
  using p e by (auto simp: voted_def Let_def)

lemma voted_granted:
  assumes i: "cluster_inv n s" and k: "k < length (calls s)" "c_req (calls s ! k) = RequestVote_rpc args"
      "c_status (calls s ! k) = Replied (RequestVote_reply reply)"
    and p: "p = c_caller (calls s ! k)" and e: "e = c_election (calls s ! k)"
    and ns: "\<not> stale_reply (elections (nodes s ! p) ! e) reply"
    and r: "requestVote_return (rft (nodes s ! p)) (elections (nodes s ! p) ! e) (Some reply) = Some (rf', el', out)"
  shows "granted (voted s k reply rf' el' out) v j c = granted s v j c"
proof -
  note b = inv_base [OF i]
  have co: "p < n" "e < length (elections (nodes s ! p))" using inv_call [OF b k(1)] k(2) p e by (auto simp: call_ok_def)
  note nd = inv_node [OF b co(1)]
  note rv = requestVote_return_good [OF r nd(2) ns]
  let ?t = "voted s k reply rf' el' out"
  have "calls ?t = (calls s)[k := (calls s ! k)\<lparr>c_status := Returned (RequestVote_reply reply)\<rparr>] @
    map (\<lambda>(q, req). \<lparr>c_caller = p, c_epoch = epoch (nodes s ! p), c_election = 0, c_peer = q, c_req = req, c_status = Pending\<rparr>) out"
    using co(1) nd(1) p by (simp add: voted_def Let_def)
  from reply_mild(2) [OF b k co voted_state(1) [OF b k(1,2) p e] this sends_fresh [OF rv(3) nd(3,4) co(1)] rv(1,2,4)] show ?thesis .
qed

lemma win_fresh:
  assumes i: "safe n h s" "cluster_inv n s" and T: "0 < terms s p" and w: "won n s (terms s p) p" "role (rft (nodes s ! p)) = CANDIDATE"
  shows "lead h (terms s p) = []"
proof (rule ccontr)
  assume "lead h (terms s p) \<noteq> []"
  with i(1) T obtain c where c: "won n s (terms s p) c" "terms s p = terms s c \<longrightarrow> role (rft (nodes s ! c)) \<noteq> CANDIDATE"
    unfolding safe_def elected_safe_def by blast
  from won_unique [OF i(2) c(1) w(1)] c(2) w(2) show False by simp
qed

lemma win_node:
  assumes i: "safe n h s" "cluster_inv n s" and p: "p < n" "0 < terms s p" and le: "hist_le n h (elects n t h p (terms s p))"
    and w: "become_leader (rft (nodes s ! p)) = Some (rf', out)"
    and el: "map el_args els = map el_args (elections (nodes s ! p))"
  shows "node_safe n (elects n t h p (terms s p)) p ((nodes s ! p)\<lparr>rft := rf', elections := els\<rparr>)"
proof -
  let ?h = "elects n t h p (terms s p)" and ?nd = "(nodes s ! p)\<lparr>rft := rf', elections := els\<rparr>"
  note nd = inv_node [OF inv_base [OF i(2)] p(1)] and sn = safe_node [OF i(1) p(1)] and bl = become_leader_same [OF w nd(2)]
  have "whole h p \<noteq> []" using hist_okD(2) [OF safe_hist [OF i(1)] p(1)] by (simp add: known_def)
  then have "acks_safe n ?h p rf'"
    using bl(2,5) sn nd(4) by (auto simp: acks_safe_def node_safe_def commit_safe_def)
  then have ro: "role_safe n ?h p ?nd" using bl(3,4) p(2) by (simp add: role_safe_def terms_def)
  have "stand_safe ?h p a" if "a \<in> set (map el_args els)" for a
    using that sn stand_later [OF le] unfolding el by (auto simp: node_safe_def)
  moreover have "apply_safe n ?h ?nd" using apply_later [OF le, of "nodes s ! p"] sn by (simp add: node_safe_def cong: apply_cong)
  ultimately show ?thesis
    using sn ro bl(1-3) commit_later [OF le _ order_refl] snap_later [OF le _ order_refl] by (simp add: node_safe_def)
qed

lemma safe_win:
  assumes i: "safe n h s" "cluster_inv n s" "cluster_inv n t" and k: "k < length (calls s)" "c_req (calls s ! k) = RequestVote_rpc args"
      "c_status (calls s ! k) = Replied (RequestVote_reply reply)"
    and p: "p = c_caller (calls s ! k)" and e: "e = c_election (calls s ! k)"
    and t: "t = voted s k reply rf' el' out" and gr: "\<And>v T c. granted t v T c = granted s v T c"
    and w: "become_leader (rft (nodes s ! p)) = Some (rf', out)" "role (rft (nodes s ! p)) = CANDIDATE"
      "el_args el' = el_args (elections (nodes s ! p) ! e)"
  shows "extends n h t"
proof -
  let ?rf = "rft (nodes s ! p)" and ?nd = "(nodes s ! p)\<lparr>rft := rf', elections := (elections (nodes s ! p))[e := el']\<rparr>" and ?T = "terms s p"
  let ?h = "elects n t h p ?T"
  note b = inv_base [OF i(2)] and h = safe_hist [OF i(1)]
  have co: "p < n" "e < length (elections (nodes s ! p))" using inv_call [OF b k(1)] k(2) p e by (auto simp: call_ok_def)
  note nd = inv_node [OF b co(1)] and sn = safe_node [OF i(1) co(1)] and bl = become_leader_same [OF w(1) nd(2)]
  note vs = voted_state [OF b k(1,2) p e, where reply = reply and rf' = rf' and el' = el' and out = out, folded t]
  have np: "nodes t ! p = ?nd" using vs(1) co(1) nd(1) by simp
  have te: "terms t q = terms s q" for q using vs(1) np bl(3) by (cases "q = p") (simp_all add: terms_def)
  have ca: "(\<exists>el\<in>set (elections (nodes s ! p)). el_term el = ?T)" "keeps (lead h) (stood h p ?T) (whole h p) ?T"
    using sn w(2) by (simp_all add: node_safe_def role_safe_def terms_def)
  then have st: "0 < ?T" "known (lead h) (stood h p ?T)" "last_term (stood h p ?T) < ?T"
    using sn unfolding node_safe_def stand_safe_def el_term_def by auto
  have wt: "won n t ?T p" using leader_won [OF i(3) co(1)] np bl(4) te by simp
  then have emp: "lead h ?T = []" by (intro win_fresh [OF i(1,2) st(1) _ w(2)]) (simp add: won_def gr)
  have pre: "prefix (lead h x) (lead ?h x)" for x using emp by simp
  have le: "hist_le n h ?h" by (rule hist_leI [OF h pre]) simp
  have co': "coherent (lead ?h)"
    using coherent_elect [OF hist_okD(1) [OF h] emp st(1) hist_okD(2) [OF h co(1)]] hist_okD(3) [OF h co(1)] by simp
  have gw: "grows n (terms s) (lead h) (whole h) (terms t) (lead ?h) (whole ?h)"
    using co' pre te hist_okD(3) [OF h] known_mono [where L' = "lead ?h", OF hist_okD(2) [OF h] pre] by (simp add: grows_def keeps_prefix)
  have el: "map el_args (elections ?nd) = map el_args (elections (nodes s ! p))"
    using co(2) w(3) by (simp add: map_update list_update_same_conv)
  have ns: "node_safe n ?h p ?nd" using win_node [OF i(1,2) co(1) st(1) le w(1) el] by simp
  have ok: "node_ok rf'" using become_leader_good [OF w(1) nd(2)] by simp
  have "safe n ?h t \<and> hist_le n h ?h"
  proof (rule safe_step [OF i co(1) vs(1) gw])
    fix T assume "0 < T" "lead h T = []" "lead ?h T \<noteq> []"
    then have T: "T = ?T" by (auto split: if_splits)
    from wt obtain V where V: "majority n V" "\<forall>v\<in>V. granted t v ?T p" by (auto simp: won_def)
    have "vote_safe h v ?T p \<and> ?T \<le> terms t v" if "v \<in> V" for v
      using V(2) that gr i(1) emp granted_term [OF i(3)] unfolding safe_def by blast
    with winner_electors [OF h emp V(1) _ st(2,3) ca(2), of t]
    show "\<exists>V. electors n (lead ?h) (acc ?h) T V \<and> (\<forall>v\<in>V. T \<le> terms t v)" unfolding T by blast
  next
    fix k' assume "k' \<in> set (calls t)"
    from vs(2) [OF this] show "call_safe n ?h t k' \<or> (\<exists>k\<in>set (calls s). c_req k' = c_req k \<and>
      c_caller k' = c_caller k \<and> c_peer k' = c_peer k \<and> (succeeded k' \<longrightarrow> succeeded k))"
    proof
      assume "k' \<in> set ((calls s)[k := (calls s ! k)\<lparr>c_status := Returned (RequestVote_reply reply)\<rparr>])"
      then show ?thesis using k(1) by (intro disjI2 old_calls [of k' "calls s" k "Returned (RequestVote_reply reply)"]) (simp_all add: succeeded_def)
    next
      assume "\<exists>q req. (q, req) \<in> set out \<and> c_req k' = req \<and> c_caller k' = p \<and> c_status k' = Pending"
      then obtain q req where q: "(q, req) \<in> set out" "c_req k' = req" "c_caller k' = p" "c_status k' = Pending" by blast
      have "known (lead ?h) (whole ?h p)" using gw co(1) unfolding grows_def by blast
      with request_safe [where n = n and t = t, OF co' _ _ _ _ _ ok bl(6) [OF q(1)] q(2-4)] ns wt bl(3) st(1) np
      show ?thesis by (simp add: node_safe_def terms_def)
    qed
  qed (use ns gr bl in \<open>auto simp: terms_def\<close>)
  then show ?thesis by blast
qed

section \<open>Vote replies\<close>

lemma safe_vote_return:
  assumes i: "safe n h s" "cluster_inv n s" "cluster_inv n t" and k: "k < length (calls s)" "c_req (calls s ! k) = RequestVote_rpc args"
      "c_status (calls s ! k) = Replied (RequestVote_reply reply)"
    and p: "p = c_caller (calls s ! k)" and e: "e = c_election (calls s ! k)"
    and r: "requestVote_return (rft (nodes s ! p)) (elections (nodes s ! p) ! e) (Some reply) = Some (rf', el', out)"
    and t: "t = voted s k reply rf' el' out" and ns: "\<not> rvr_Term reply > rv_Term args"
  shows "extends n h t"
proof -
  let ?el = "elections (nodes s ! p) ! e" and ?nd = "(nodes s ! p)\<lparr>rft := rf', elections := (elections (nodes s ! p))[e := el']\<rparr>"
  note b = inv_base [OF i(2)]
  have co: "p < n" "e < length (elections (nodes s ! p))" "args = el_args ?el"
    using inv_call [OF b k(1)] k(2) p e by (auto simp: call_ok_def)
  have st: "\<not> stale_reply ?el reply" using ns co(3) by (simp add: stale_reply_def)
  have gr: "granted t v T c = granted s v T c" for v T c using voted_granted [OF i(2) k p e st r] t by simp
  note vs = voted_state [OF b k(1,2) p e, where reply = reply and rf' = rf' and el' = el' and out = out, folded t]
  from r st show ?thesis
  proof (cases rule: requestVote_return_cases)
    case same
    have el: "map el_args (elections ?nd) = map el_args (elections (nodes s ! p))"
      using co(2) same(3) by (simp add: map_update list_update_same_conv)
    have "safe n (renew n t h) t \<and> hist_le n h (renew n t h)"
    proof (rule quiet_step [OF i co(1) vs(1)])
      show "node_safe n (renew n t h) p ?nd"
        using same(1) el apply_renew [OF i(1) co(1), of t]
        by (intro node_calm [OF renew_le [OF i(1), of t] _ _ _ safe_node [OF i(1) co(1)]]) (auto cong: apply_cong)
      fix k' assume "k' \<in> set (calls t)"
      then have "k' \<in> set ((calls s)[k := (calls s ! k)\<lparr>c_status := Returned (RequestVote_reply reply)\<rparr>])"
        using vs(2) same(2) by auto
      then show "call_safe n (renew n t h) t k' \<or> (\<exists>k\<in>set (calls s). c_req k' = c_req k \<and>
        c_caller k' = c_caller k \<and> c_peer k' = c_peer k \<and> (succeeded k' \<longrightarrow> succeeded k))"
        using k(1) by (intro disjI2 old_calls [of k' "calls s" k "Returned (RequestVote_reply reply)"]) (simp_all add: succeeded_def)
    qed (use same gr in \<open>auto simp: terms_def\<close>)
    then show ?thesis by blast
  next
    case win
    with safe_win [OF i k p e t gr] show ?thesis by blast
  qed
qed

end
