(* ===== verification/Raft_Commit.thy ===== *)
theory Raft_Commit
  imports Raft_Leaders
begin

text \<open>
  The replies from which a leader learns what its followers hold and advances its commit index,
  and with them every action of the cluster: as long as no vote reply sets a term back and no
  snapshot is installed over a conflicting log, each action keeps the safety invariant and extends
  the history.
\<close>

section \<open>Replies to a leader\<close>

lemma hist_le_refl: "safe n h s \<Longrightarrow> hist_le n h h"
  using hist_okD(4) [OF safe_hist] by (auto simp: hist_le_def)

lemma safe_return:
  assumes i: "safe n h s" "cluster_inv n s" and k: "k < length (calls s)" "c_status (calls s ! k) = Replied r" "\<not> is_vote (c_req (calls s ! k))"
    and p: "p = c_caller (calls s ! k)" and t: "t = set_status (set_rft s p rf) k (Returned r)"
    and g: "good_step (rft (nodes s ! p)) rf" and nd: "node_safe n h p ((nodes s ! p)\<lparr>rft := rf\<rparr>)"
    and lg: "logs rf = logs (rft (nodes s ! p))" and ro: "role rf = CANDIDATE \<Longrightarrow> role (rft (nodes s ! p)) = CANDIDATE"
  shows "extends n h t"
proof -
  let ?nd = "(nodes s ! p)\<lparr>rft := rf\<rparr>"
  note b = inv_base [OF i(2)]
  have p': "p < n" using inv_call [OF b k(1)] p by (simp add: call_ok_def)
  have q: "quiet n s t"
    by (rule quiet_status [OF b k(1) refl _ _ p', of "Returned r" ?nd]) (use k g t in simp_all)
  have "node_safe n (renew n t h) p ?nd" by (rule node_later [OF renew_le [OF i(1)] nd]) simp_all
  then show ?thesis
  proof (rule quiet_action [OF i q p', rotated])
    fix k' assume "k' \<in> set (calls t)"
    then show "call_safe n (renew n t h) t k' \<or> (\<exists>k\<in>set (calls s). c_req k' = c_req k \<and>
      c_caller k' = c_caller k \<and> c_peer k' = c_peer k \<and> (succeeded k' \<longrightarrow> succeeded k))"
      using k t by (intro disjI2 old_calls [of k' "calls s" k "Returned r"]) (simp_all add: succeeded_status)
  qed (use t lg ro in auto)
qed

lemma safe_term_return:
  assumes i: "safe n h s" "cluster_inv n s" and p: "p < n" and T: "currentTerm (rft (nodes s ! p)) \<le> T"
  shows "node_safe n h p ((nodes s ! p)\<lparr>rft := setNewTerm (rft (nodes s ! p)) T\<rparr>)"
  using setNewTerm_calm(1) [OF T] setNewTerm_calm(2) safe_node [OF i(1) p]
  by (intro node_calm [OF hist_le_refl [OF i(1)] _ _ _ safe_node [OF i(1) p]]) (auto simp: node_safe_def cong: apply_cong)

lemma node_acks:
  assumes "node_safe n h p nd" and "logs rf = logs (rft nd)" "role rf = role (rft nd)" "currentTerm rf = currentTerm (rft nd)"
    and "commit_safe n h (currentTerm rf) (whole h p) (commitIndex rf)" and "role rf = LEADER \<Longrightarrow> acks_safe n h p rf"
  shows "node_safe n h p (nd\<lparr>rft := rf\<rparr>)"
  using assms by (auto simp: node_safe_def role_safe_def apply_safe_def)

lemma update_indices_matches:
  assumes "update_indices rf q args reply = Some rf'"
  shows "rf' = rf\<lparr>nextIndex := nextIndex rf', matchIndex := matchIndex rf'\<rparr>"
    "matchIndex rf' = matchIndex rf \<or> aer_Success reply \<and> q < length (matchIndex rf) \<and>
       matchIndex rf' = (matchIndex rf)[q := max (matchIndex rf ! q) (ae_PrevLogIndex args + int (length (ae_Entries args)))]"
  using assms update_indices_cases [OF assms] unfolding update_indices_def Let_def max_int_def
  by (auto simp: bind_Some_iff idx_Some_iff store_def max_def split: if_splits)

text \<open>A follower's success extends what the leader knows of it by the log the request carried.\<close>

lemma acks_update:
  assumes ak: "acks_safe n h p rf" and M: "prefix M (whole h p)" "acked h q (currentTerm rf) M" "M \<noteq> []"
    and m: "matchIndex rf' = (matchIndex rf)[q := max (matchIndex rf ! q) (int (length M) - 1)]" "q < length (matchIndex rf)"
    and f: "commitIndex rf' = commitIndex rf" "currentTerm rf' = currentTerm rf"
  shows "acks_safe n h p rf'"
  unfolding acks_safe_def
proof (intro allI impI conjI)
  fix x assume x: "x < n" "x \<noteq> p"
  with ak have "matchIndex rf ! x < int (length (whole h p))" by (simp add: acks_safe_def)
  then show "matchIndex rf' ! x < int (length (whole h p))"
    using m prefix_length_le [OF M(1)] M(3) by (cases "x = q") (auto simp: nth_list_update)
next
  fix x P assume x: "x < n" "x \<noteq> p" and P: "P \<noteq> []" "prefix P (whole h p)" "last_term P = currentTerm rf'"
    "commitIndex rf' < int (length P) - 1" "int (length P) - 1 \<le> matchIndex rf' ! x"
  show "(x, P) \<in> acc h"
  proof (cases "int (length P) - 1 \<le> matchIndex rf ! x")
    case True
    with ak x P f show ?thesis by (simp add: acks_safe_def)
  next
    case False
    with P(5) m have "x = q" "length P \<le> length M" by (auto simp: nth_list_update split: if_splits)
    moreover from this shorter_prefix [OF P(2) M(1)] have "prefix P M" by simp
    ultimately show ?thesis using M(2) P(1,3) f(2) by (simp add: acked_def)
  qed
qed

text \<open>The commit rule: an entry of the leader's term that a majority holds ends a chosen log.\<close>

lemma commit_chosen:
  assumes h: "hist_ok n (terms s) (lead h) (whole h) (acc h)" and p: "p < n" "me rf = p" "peers rf = n" "terms s p = currentTerm rf"
    and v: "view (whole h p) (logs rf)" and lo: "log_ok (logs rf)" and ak: "acks_safe n h p rf" and ci: "commitIndex rf < i" "0 \<le> commitIndex rf"
    and c: "committable rf i"
  shows "commit_safe n h (currentTerm rf) (whole h p) i"
proof -
  let ?G = "whole h p" and ?T = "currentTerm rf"
  let ?P = "take (nat i + 1) ?G"
  obtain f where f: "f < length ?G" "logs rf = (?G ! f)\<lparr>e_Command := None\<rparr> # drop (Suc f) ?G" "first_index (logs rf) = int f"
    "last_index (logs rf) = int (length ?G) - 1" using viewE [OF v hist_okD(1) [OF h] hist_okD(2) [OF h p(1)]] by metis
  from c obtain e where e: "entry_at (logs rf) i = Some e" "e_Term e = ?T" and m: "card (replicas rf i) > n div 2"
    by (auto simp: committable_def p(3))
  have fi: "int f \<le> i" "i \<le> int (length ?G) - 1" "e = logs rf ! nat (i - int f)"
    using e(1) f(3,4) entry_at_Some_iff [OF lo, of i] idx_in_range [OF lo, of i] by (simp_all add: entry_at_def)
  then have il: "f \<le> nat i" "nat i < length ?G" "nat (i - int f) = nat i - f" by linarith+
  have "e_Term (?G ! nat i) = ?T" using view_nth(1) [OF f(1,2) il(1,2)] e(2) fi(3) il(3) by simp
  then have P: "?P \<noteq> []" "last_term ?P = ?T" "int (length ?P) - 1 = i"
    using il(2) ci by (auto simp: last_term_def take_Suc_conv_app_nth)
  have pre: "prefix ?P ?G" by (rule take_is_prefix)
  have "(q, ?P) \<in> acc h" if "q \<in> replicas rf i" for q
  proof (cases "q = p")
    case True
    with hist_okD(8) [OF h p(1) P(1) pre] P(2) p(4) show ?thesis by simp
  next
    case False
    with that have "q < n" "i \<le> matchIndex rf ! q" using p by (auto simp: replicas_def)
    with ak False P pre ci show ?thesis by (simp add: acks_safe_def)
  qed
  moreover have "majority n (replicas rf i)" using m p(3) by (auto simp: majority_def replicas_def)
  ultimately have "chosen n (acc h) ?P"
    unfolding chosen_def using majority_mono [of n "replicas rf i" "{q. (q, ?P) \<in> acc h}"] hist_okD(4) [OF h] by auto
  then show ?thesis unfolding commit_safe_def using P ci fi(2) by (intro exI [of _ ?P]) simp
qed

lemma append_return_acks:
  assumes i: "safe n h s" "cluster_inv n s" and k: "k < length (calls s)" "c_req (calls s ! k) = AppendEntries_rpc args"
      "c_status (calls s ! k) = Replied (AppendEntries_reply reply)"
    and p: "p < n" "role (rft (nodes s ! p)) = LEADER" "ae_Term args = currentTerm (rft (nodes s ! p))"
    and u: "update_indices (rft (nodes s ! p)) (c_peer (calls s ! k)) args reply = Some rf"
  shows "acks_safe n h p rf"
proof -
  let ?rf = "rft (nodes s ! p)" and ?q = "c_peer (calls s ! k)"
  note lf = leader_facts [OF i p(1,2)] and um = update_indices_matches [OF u]
  have f: "currentTerm rf = currentTerm ?rf" "commitIndex rf = commitIndex ?rf" by (subst um(1), simp)+
  from safe_call [OF i(1) k(1)] k(2) obtain M where M: "append_safe n h args M"
    "succeeded (calls s ! k) \<Longrightarrow> acked h ?q (ae_Term args) M" by (auto simp: call_safe_def)
  from um(2) show ?thesis
  proof
    assume "matchIndex rf = matchIndex ?rf"
    with lf(4) f show ?thesis by (simp add: acks_safe_def)
  next
    assume m: "aer_Success reply \<and> ?q < length (matchIndex ?rf) \<and>
      matchIndex rf = (matchIndex ?rf)[?q := max (matchIndex ?rf ! ?q) (ae_PrevLogIndex args + int (length (ae_Entries args)))]"
    have ml: "prefix M (whole h p)" "M \<noteq> []" "ae_PrevLogIndex args + int (length (ae_Entries args)) = int (length M) - 1"
      using M(1) lf(1) p(3) by (auto simp: append_safe_def)
    have "acked h ?q (currentTerm ?rf) M" using M(2) m p(3) k(3) by (auto simp: succeeded_def)
    from acks_update [OF lf(4) ml(1) this ml(2) _ _ f(2,1)] m ml(3) show ?thesis by simp
  qed
qed

text \<open>A reply of the current term: the leader notes what the follower holds and may commit.\<close>

lemma append_return_node:
  assumes i: "safe n h s" "cluster_inv n s" and k: "k < length (calls s)" "c_req (calls s ! k) = AppendEntries_rpc args"
      "c_status (calls s ! k) = Replied (AppendEntries_reply reply)"
    and p: "p < n" and T: "ae_Term args = currentTerm (rft (nodes s ! p))"
    and u: "update_indices (rft (nodes s ! p)) (c_peer (calls s ! k)) args reply = Some rf1" and l: "leaderCommitLog rf1 = Some rf"
  shows "node_safe n h p ((nodes s ! p)\<lparr>rft := rf\<rparr>)" "logs rf = logs (rft (nodes s ! p))" "role rf = role (rft (nodes s ! p))"
proof -
  let ?rf = "rft (nodes s ! p)"
  note nd = inv_node [OF inv_base [OF i(2)] p] and sn = safe_node [OF i(1) p] and um = update_indices_matches [OF u]
  have f1: "logs rf1 = logs ?rf" "role rf1 = role ?rf" "currentTerm rf1 = currentTerm ?rf" "commitIndex rf1 = commitIndex ?rf"
    "me rf1 = p" "peers rf1 = n" using nd(3,4) by (subst um(1), simp)+
  have ok: "node_ok rf1" using update_indices_good [OF nd(2) u] by (simp add: good_step_def)
  have ak: "acks_safe n h p rf1" if "role ?rf = LEADER" using append_return_acks [OF i k p that T u] .
  have n1: "node_safe n h p ((nodes s ! p)\<lparr>rft := rf1\<rparr>)"
    using sn f1 ak by (intro node_acks) (auto simp: node_safe_def)
  have c0: "0 \<le> commitIndex ?rf" using sn by (auto simp: node_safe_def commit_safe_def)
  have "node_safe n h p ((nodes s ! p)\<lparr>rft := rf\<rparr>) \<and> logs rf = logs ?rf \<and> role rf = role ?rf"
  proof (cases "role ?rf = LEADER \<and> rf \<noteq> rf1")
    case False
    with l f1 have "rf = rf1" by (auto simp: leaderCommitLog_def)
    then show ?thesis using n1 f1 by simp
  next
    case True
    have "scan_result rf1 (commitIndex rf1 + 1) rf"
      using commit_loop_spec [of rf1 "commitIndex rf1 + 1"] l ok True f1 by (auto simp: node_ok_def leaderCommitLog_def)
    with True have sc: "commitIndex rf1 < commitIndex rf" "committable rf1 (commitIndex rf)"
      "rf = apply_signal (rf1\<lparr>commitIndex := commitIndex rf\<rparr>)" by (auto simp: scan_result_def)
    have f2: "logs rf = logs rf1" "role rf = role rf1" "currentTerm rf = currentTerm rf1" "matchIndex rf = matchIndex rf1"
      by (subst sc(3), simp add: apply_signal_def)+
    have "commit_safe n h (currentTerm rf1) (whole h p) (commitIndex rf)"
      using commit_chosen [OF safe_hist [OF i(1)] p f1(5,6) _ _ _ ak sc(1) _ sc(2)] True f1 sn ok c0
      by (simp add: node_safe_def node_ok_def terms_def)
    moreover have "acks_safe n h p rf" using ak True f2 sc(1) by (simp add: acks_safe_def)
    ultimately show ?thesis using sn f1 f2 by (intro conjI node_acks) auto
  qed
  then show "node_safe n h p ((nodes s ! p)\<lparr>rft := rf\<rparr>)" "logs rf = logs ?rf" "role rf = role ?rf" by blast+
qed

lemma safe_append_return:
  assumes i: "safe n h s" "cluster_inv n s" and k: "k < length (calls s)" "c_req (calls s ! k) = AppendEntries_rpc args"
      "c_status (calls s ! k) = Replied (AppendEntries_reply reply)"
    and p: "p = c_caller (calls s ! k)"
    and r: "appendEntry_return (rft (nodes s ! p)) (c_peer (calls s ! k)) args (Some reply) = Some rf"
    and t: "t = set_status (set_rft s p rf) k (Returned (AppendEntries_reply reply))"
  shows "extends n h t"
proof -
  let ?rf = "rft (nodes s ! p)" and ?q = "c_peer (calls s ! k)"
  note b = inv_base [OF i(2)] and h = safe_hist [OF i(1)]
  have p': "p < n" using inv_call [OF b k(1)] p by (simp add: call_ok_def)
  note nd = inv_node [OF b p'] and sn = safe_node [OF i(1) p']
  have nv: "\<not> is_vote (c_req (calls s ! k))" by (simp add: k(2))
  note ret = safe_return [OF i k(1,3) nv p t appendEntry_return_good [OF nd(2) r]]
  consider "aer_Term reply > currentTerm ?rf" | "\<not> aer_Term reply > currentTerm ?rf" "ae_Term args = currentTerm ?rf"
    | "\<not> aer_Term reply > currentTerm ?rf" "ae_Term args \<noteq> currentTerm ?rf" by blast
  then show ?thesis
  proof cases
    case 1
    with r have "rf = setNewTerm ?rf (aer_Term reply)" by (simp add: appendEntry_return_def)
    with 1 show ?thesis using safe_term_return [OF i p', of "aer_Term reply"]
      by (intro ret) (auto simp: setNewTerm_def persist_def)
  next
    case 2
    with r obtain rf1 where rf1: "update_indices ?rf ?q args reply = Some rf1" "leaderCommitLog rf1 = Some rf"
      by (auto simp: appendEntry_return_def bind_Some_iff)
    show ?thesis using append_return_node [OF i k p' 2(2) rf1] by (intro ret) simp_all
  next
    case 3
    with r have "rf = ?rf" by (simp add: appendEntry_return_def)
    with sn show ?thesis by (intro ret) auto
  qed
qed

lemma safe_install_return:
  assumes i: "safe n h s" "cluster_inv n s" and k: "k < length (calls s)" "c_req (calls s ! k) = InstallSnapshot_rpc args"
      "c_status (calls s ! k) = Replied (InstallSnapshot_reply reply)"
    and p: "p = c_caller (calls s ! k)"
    and r: "installSnapshot_return (rft (nodes s ! p)) (c_peer (calls s ! k)) args (Some reply) = Some rf"
    and t: "t = set_status (set_rft s p rf) k (Returned (InstallSnapshot_reply reply))"
  shows "extends n h t"
proof -
  let ?rf = "rft (nodes s ! p)" and ?q = "c_peer (calls s ! k)" and ?i = "is_LastIncludedIndex args"
  define rf0 where "rf0 = (if isr_Term reply > currentTerm ?rf then setNewTerm ?rf (isr_Term reply) else ?rf)"
  let ?nd = "(nodes s ! p)\<lparr>rft := rf0\<rparr>"
  note b = inv_base [OF i(2)] and h = safe_hist [OF i(1)]
  have p': "p < n" using inv_call [OF b k(1)] p by (simp add: call_ok_def)
  note nd = inv_node [OF b p'] and sn = safe_node [OF i(1) p']
  have n0: "node_safe n h p ?nd" using safe_term_return [OF i p', of "isr_Term reply"] sn by (simp add: rf0_def)
  have f0: "logs rf0 = logs ?rf" "commitIndex rf0 = commitIndex ?rf" "role rf0 = CANDIDATE \<Longrightarrow> role ?rf = CANDIDATE"
    by (auto simp: rf0_def setNewTerm_def persist_def split: if_splits)
  from r obtain ns ms where st: "store (matchIndex rf0) (int ?q) ?i = Some ms" "rf = rf0\<lparr>nextIndex := ns, matchIndex := ms\<rparr>"
    unfolding installSnapshot_return_def Let_def option.case rf0_def [symmetric] by (auto simp: bind_Some_iff)
  then have ms: "ms = (matchIndex rf0)[?q := ?i]" "?q < length (matchIndex rf0)" by (auto simp: store_def split: if_splits)
  have "?i \<le> first_index (logs ?rf)" using safe_call [OF i(1) k(1)] k(2) p by (simp add: call_safe_def)
  moreover have "first_index (logs ?rf) \<le> commitIndex ?rf" using nd(2) by (simp add: node_ok_def)
  moreover have "commitIndex ?rf < int (length (whole h p))" using sn by (auto simp: node_safe_def commit_safe_def)
  ultimately have le: "?i \<le> commitIndex ?rf" "?i < int (length (whole h p))" by linarith+
  have "acks_safe n h p rf" if "acks_safe n h p rf0"
    using that le f0(2) ms unfolding acks_safe_def st(2) by (auto simp: nth_list_update)
  then have "node_safe n h p (?nd\<lparr>rft := rf\<rparr>)"
    using n0 by (intro node_acks [OF n0, of rf]) (simp_all add: st(2) node_safe_def role_safe_def)
  moreover have "\<not> is_vote (c_req (calls s ! k))" by (simp add: k(2))
  ultimately show ?thesis
    using f0 by (intro safe_return [OF i k(1,3) _ p t installSnapshot_return_good [OF nd(2) r]]) (simp_all add: st(2))
qed

section \<open>Every action\<close>

lemma safe_do_return:
  assumes i: "safe n h s" "cluster_inv n s" and k: "k < length (calls s)" and a: "do_return s k = Next t"
    and ns: "\<not> term_setback (Return k) s"
  shows "extends n h t"
proof -
  let ?k = "calls s ! k" and ?p = "c_caller (calls s ! k)"
  note b = inv_base [OF i(2)] and it = act_return [OF i(2) k a ns]
  obtain r where st: "c_status ?k = Replied r" using a by (auto simp: do_return_def Let_def split: status.splits)
  show ?thesis
  proof (cases "c_epoch ?k = epoch (nodes s ! ?p)")
    case False
    with a st have "t = set_status s k (Lost (Some r))" by (simp add: do_return_def Let_def)
    then have "do_lose s k = Next t" using st by (simp add: do_lose_def)
    with safe_lose [OF i k] show ?thesis .
  next
    case ep: True
    show ?thesis
    proof (cases "c_req ?k")
      case (RequestVote_rpc args)
      with a st ep obtain reply rf' el' out where r: "r = RequestVote_reply reply"
        "requestVote_return (rft (nodes s ! ?p)) (elections (nodes s ! ?p) ! c_election ?k) (Some reply) = Some (rf', el', out)"
        "t = voted s k reply rf' el' out"
        by (auto simp: do_return_def voted_def Let_def from_option_Next split: rpc_reply.splits)
      have "\<not> rvr_Term reply > rv_Term args" using ns k RequestVote_rpc st r(1) by simp
      with safe_vote_return [OF i it k RequestVote_rpc _ refl refl r(2,3)] st r(1) show ?thesis by simp
    next
      case (AppendEntries_rpc args)
      with a st ep obtain reply rf where r: "r = AppendEntries_reply reply"
        "appendEntry_return (rft (nodes s ! ?p)) (c_peer ?k) args (Some reply) = Some rf"
        "t = set_status (set_rft s ?p rf) k (Returned (AppendEntries_reply reply))"
        by (auto simp: do_return_def Let_def from_option_Next split: rpc_reply.splits)
      with safe_append_return [OF i k AppendEntries_rpc _ refl r(2,3)] st show ?thesis by simp
    next
      case (InstallSnapshot_rpc args)
      with a st ep obtain reply rf where r: "r = InstallSnapshot_reply reply"
        "installSnapshot_return (rft (nodes s ! ?p)) (c_peer ?k) args (Some reply) = Some rf"
        "t = set_status (set_rft s ?p rf) k (Returned (InstallSnapshot_reply reply))"
        by (auto simp: do_return_def Let_def from_option_Next split: rpc_reply.splits)
      with safe_install_return [OF i k InstallSnapshot_rpc _ refl r(2,3)] st show ?thesis by simp
    qed
  qed
qed

text \<open>The actions that the argument has to exclude.\<close>

definition hazard :: "('c, 's) action \<Rightarrow> ('c, 's) cluster \<Rightarrow> bool" where
  "hazard a s \<longleftrightarrow> term_setback a s \<or> install_conflict a s"

lemma safe_act:
  assumes i: "safe n h s" "cluster_inv n s" and a: "act a s = Next t" and hz: "\<not> hazard a s"
  shows "cluster_inv n t \<and> extends n h t"
proof
  have ns: "\<not> term_setback a s" and nc: "\<not> install_conflict a s" using hz by (simp_all add: hazard_def)
  show "cluster_inv n t" using inv_act [OF i(2) ns a] .
  have len: "length (nodes s) = n" using i(2) by (simp add: cluster_inv_def nodes_ok_def)
  show "extends n h t"
    using a ns nc
    by (cases a) (auto split: if_splits simp: len simp del: term_setback.simps install_conflict.simps
      intro: safe_election [OF i] safe_heartbeat [OF i] safe_deliver [OF i] safe_do_return [OF i] safe_lose [OF i]
        safe_start [OF i] safe_snapshot [OF i] safe_install [OF i] safe_apply_take [OF i] safe_apply_done [OF i] safe_restart [OF i])
qed

text \<open>The history of the initial state: every peer holds the zero entry.\<close>

definition init_history :: "nat \<Rightarrow> 'c history" where
  "init_history n = \<lparr>lead = (\<lambda>T. if T = 0 then [zero_entry] else []), whole = (\<lambda>_. [zero_entry]),
     acc = {..<n} \<times> {[zero_entry]}, stood = (\<lambda>_ _. [])\<rparr>"

lemma init_safe: "safe n (init_history n) (init_cluster n :: ('c, 's) cluster)"
proof -
  let ?h = "init_history n :: 'c history" and ?s = "init_cluster n :: ('c, 's) cluster"
  have z: "e_Term zero_entry = 0" "zero_entry\<lparr>e_Command := None\<rparr> = zero_entry" by (simp_all add: zero_entry_def)
  have te: "terms ?s p = 0" if "p < n" for p using that by (simp add: terms_def init_cluster_def init_node_fields)
  have pz: "P = [zero_entry]" if "prefix P [zero_entry]" "P \<noteq> []" for P using that by (cases P) auto
  have h: "hist_ok n (terms ?s) (lead ?h) (whole ?h) (acc ?h)"
    unfolding hist_ok_def coherent_def known_def kept_def using pz by (auto simp: te init_history_def last_term_def z)
  have ch: "chosen n (acc ?h) [zero_entry]" if "0 < n"
    using that by (auto simp: chosen_def majority_def init_history_def Collect_conv_if lessThan_def)
  have "node_safe n ?h p (nodes ?s ! p)" if p: "p < n" for p
  proof -
    have r: "rft (nodes ?s ! p) = rft (init_node n p)" "elections (nodes ?s ! p) = []" "snapshots (nodes ?s ! p) = []"
      "sending (nodes ?s ! p) = None" "delivered (nodes ?s ! p) = []"
      using p by (simp_all add: init_cluster_def init_node_def)
    have "view [zero_entry] [zero_entry]" by (simp add: view_def z)
    moreover have "commit_safe n ?h 0 [zero_entry] 0"
      unfolding commit_safe_def using ch p by (intro exI [of _ "[zero_entry]"]) (auto simp: last_term_def z)
    ultimately show ?thesis unfolding node_safe_def r init_node_fields
      by (simp add: role_safe_def apply_safe_def r init_node_fields) (simp add: init_history_def)
  qed
  moreover have "\<not> granted ?s v j c" for v j c by (auto simp: granted_def init_cluster_def init_node_fields)
  ultimately show ?thesis using h by (simp add: safe_def) (simp add: init_history_def init_cluster_def)
qed

inductive reachable_safe :: "nat \<Rightarrow> ('c, 's) cluster \<Rightarrow> bool" for n where
  safe_init: "reachable_safe n (init_cluster n)"
| safe_next: "reachable_safe n s \<Longrightarrow> \<not> hazard a s \<Longrightarrow> act a s = Next t \<Longrightarrow> reachable_safe n t"

fun run_safe :: "('c, 's) action list \<Rightarrow> ('c, 's) cluster \<Rightarrow> ('c, 's) cluster outcome" where
  "run_safe [] s = Next s"
| "run_safe (a # as) s = (if hazard a s then Disabled
     else case act a s of Next t \<Rightarrow> run_safe as t | r \<Rightarrow> r)"

lemma run_safe_reachable: "reachable_safe n s \<Longrightarrow> run_safe as s = Next t \<Longrightarrow> reachable_safe n t"
  by (induction as arbitrary: s) (auto split: outcome.splits if_splits intro: safe_next)

lemma reachable_history:
  assumes "reachable_safe n s"
  shows "cluster_inv n s \<and> (\<exists>h. safe n h s)"
  using assms
proof induction
  case safe_init
  show ?case using init_inv init_safe by blast
next
  case (safe_next s a t)
  then show ?case using safe_act by blast
qed

lemma run_history:
  assumes "safe n h s" "cluster_inv n s" "run_safe as s = Next t"
  shows "extends n h t"
  using assms
proof (induction as arbitrary: h s)
  case Nil
  with hist_le_refl show ?case by auto
next
  case (Cons a as)
  then obtain u where u: "\<not> hazard a s" "act a s = Next u" "run_safe as u = Next t" by (auto split: if_splits outcome.splits)
  from safe_act [OF Cons.prems(1,2) u(2,1)] obtain h' where h: "cluster_inv n u" "safe n h' u" "hist_le n h h'" by blast
  with Cons.IH [OF h(2,1) u(3)] show ?case using hist_le_trans by blast
qed

text \<open>Two states of one run, with their histories.\<close>

lemma run_histories:
  assumes "reachable_safe n s" "run_safe as s = Next t"
  obtains h h' where "safe n h s" "cluster_inv n s" "safe n h' t" "cluster_inv n t" "hist_le n h h'"
proof -
  from reachable_history [OF assms(1)] obtain h where h: "cluster_inv n s" "safe n h s" by blast
  from run_history [OF h(2,1) assms(2)] obtain h' where "safe n h' t" "hist_le n h h'" by blast
  moreover have "cluster_inv n t" using reachable_history [OF run_safe_reachable [OF assms]] by blast
  ultimately show thesis using h that by blast
qed

end
