(* ===== verification/Raft_Agreement.thy ===== *)
theory Raft_Agreement
  imports Raft_Commit
begin

text \<open>
  What the safety invariant means for a client of Raft. In every execution without a term setback
  and without a conflicting install, the commands that the peers' services apply at one index are
  equal, committed entries agree, every later leader has them, and logs match. The statements
  relate two states of one execution, so they hold across crashes, restarts and compaction.
\<close>

section \<open>From the history to the logs\<close>

lemma decided_unique:
  assumes h: "hist_ok n cT (lead h) (whole h) (acc h)" and "decided n h i c" "decided n h i c'"
  shows "c = c'"
proof -
  from assms(2,3) obtain Q R where q: "chosen n (acc h) Q" "nat i < length Q" "e_Command (Q ! nat i) = Some c"
    and r: "chosen n (acc h) R" "nat i < length R" "e_Command (R ! nat i) = Some c'" by (auto simp: decided_def)
  from chosen_agree [OF h q(1) r(1)] have "Q ! nat i = R ! nat i" using q(2) r(2) by (auto simp: prefix_def nth_append)
  with q(3) r(3) show ?thesis by simp
qed

lemma view_entry:
  assumes "view G lgs" "coherent L" "known L G" "log_ok lgs" "entry_at lgs i = Some e" "first_index lgs < i"
  shows "nat i < length G" "e = G ! nat i" "0 \<le> i"
proof -
  obtain f where f: "f < length G" "lgs = (G ! f)\<lparr>e_Command := None\<rparr> # drop (Suc f) G" "first_index lgs = int f"
    "last_index lgs = int (length G) - 1" using viewE [OF assms(1-3)] by metis
  have r: "i \<le> last_index lgs" "e = lgs ! nat (i - int f)"
    using assms(5) f(3) entry_at_Some_iff [OF assms(4), of i] idx_in_range [OF assms(4), of i] by (simp_all add: entry_at_def)
  then have il: "f < nat i" "nat i < length G" "nat (i - int f) = nat i - f" using assms(6) f(3,4) by linarith+
  show "nat i < length G" "e = G ! nat i" "0 \<le> i"
    using view_nth(2) [OF f(1,2) _ il(2,1)] il r(2) assms(6) f(3) by simp_all
qed

lemma entry_view:
  assumes "view G lgs" "coherent L" "known L G" "log_ok lgs" "first_index lgs < i" "nat i < length G"
  shows "entry_at lgs i = Some (G ! nat i)"
proof -
  obtain f where f: "f < length G" "first_index lgs = int f" "last_index lgs = int (length G) - 1"
    using viewE [OF assms(1-3)] by metis
  then have "i \<le> last_index lgs" using assms(5,6) by linarith
  with entry_at_Some_iff [OF assms(4), of i] assms(5) obtain e where e: "entry_at lgs i = Some e" by auto
  from view_entry(2) [OF assms(1-4) e assms(5)] e show ?thesis by simp
qed

text \<open>A peer's log entry, in terms of the history.\<close>

lemma safe_entry:
  assumes i: "safe n h s" "cluster_inv n s" and p: "p < n"
    and e: "entry_at (logs (rft (nodes s ! p))) i = Some e" "first_index (logs (rft (nodes s ! p))) < i"
  shows "nat i < length (whole h p)" "e = whole h p ! nat i" "0 \<le> i"
  using view_entry [OF _ hist_okD(1) [OF safe_hist [OF i(1)]] hist_okD(2) [OF safe_hist [OF i(1)] p] _ e]
    safe_node [OF i(1) p] inv_node(2) [OF inv_base [OF i(2)] p]
  by (simp_all add: node_safe_def node_ok_def)

lemma safe_committed:
  assumes i: "safe n h s" "cluster_inv n s" and p: "p < n" and e: "entry_at (logs (rft (nodes s ! p))) i = Some e"
      "first_index (logs (rft (nodes s ! p))) < i" "i \<le> commitIndex (rft (nodes s ! p))"
  obtains Q where "chosen n (acc h) Q" "last_term Q \<le> terms s p" "nat i < length Q" "Q ! nat i = e"
proof -
  note se = safe_entry [OF i p e(1,2)]
  from safe_node [OF i(1) p] obtain Q where Q: "chosen n (acc h) Q" "last_term Q \<le> terms s p"
    "prefix (take (nat (commitIndex (rft (nodes s ! p))) + 1) (whole h p)) Q"
    by (auto simp: node_safe_def commit_safe_def terms_def)
  then obtain R where R: "Q = take (nat (commitIndex (rft (nodes s ! p))) + 1) (whole h p) @ R" by (auto simp: prefix_def)
  have l: "nat i < length (take (nat (commitIndex (rft (nodes s ! p))) + 1) (whole h p))" using se(1,3) e(3) by simp
  then have "nat i < length Q" unfolding R length_append by (rule trans_less_add1)
  moreover have "Q ! nat i = e" using R l se(2) by (simp add: nth_append)
  ultimately show thesis using Q that by blast
qed

section \<open>Theorems\<close>

text \<open>The commands that a peer's service was given, with their indices.\<close>

definition applied :: "('c, 's) cluster \<Rightarrow> nat \<Rightarrow> int \<Rightarrow> 'c \<Rightarrow> bool" where
  "applied s p i c \<longleftrightarrow> (\<exists>m\<in>set (delivered (nodes s ! p)). CommandValid m \<and> CommandIndex m = i \<and> Command m = Some c)"

lemma applied_decided: "safe n h s \<Longrightarrow> p < n \<Longrightarrow> applied s p i c \<Longrightarrow> decided n h i c"
  using safe_node [of n h s p] by (auto simp: node_safe_def apply_safe_def applied_def)

text \<open>
  The execution of the witnesses: peer 0 leads term 1, replicates a command to peer 1, commits and
  applies it; a heartbeat tells peer 1, which applies it too, then peer 0 crashes and restarts and
  peer 1 leads term 2.
\<close>

definition commit_demo :: "(nat, nat) action list" where
  "commit_demo = [ElectionTimeout 0, Deliver 0, Return 0, ClientStart 0 7, Deliver 4, Return 4, ApplyTake 0, ApplyDone 0]"

definition later_demo :: "(nat, nat) action list" where
  "later_demo = [HeartbeatTimeout 0, Deliver 6, ApplyTake 1, ApplyDone 1, Restart 0, ElectionTimeout 1, Deliver 9, Return 9]"

definition on_demo :: "((nat, nat) cluster \<Rightarrow> (nat, nat) cluster \<Rightarrow> bool) \<Rightarrow> bool" where
  "on_demo P = (case run_safe commit_demo (init_cluster 3) of
     Next s \<Rightarrow> (case run_safe later_demo s of Next t \<Rightarrow> P s t | _ \<Rightarrow> False) | _ \<Rightarrow> False)"

lemma on_demoE:
  assumes "on_demo P"
  obtains s t where "reachable_safe 3 s" "run_safe later_demo s = Next t" "P s t"
proof -
  from assms obtain s t where "run_safe commit_demo (init_cluster 3) = Next s" "run_safe later_demo s = Next t" "P s t"
    by (auto simp: on_demo_def split: outcome.splits)
  then show thesis using run_safe_reachable [OF safe_init] that by blast
qed

text \<open>
  C1: State machine safety. In a cluster of any size, in any execution without a term setback and
  without a conflicting install: if a peer has applied a command at some index and any peer applies
  a command at that index then or at any later time, it is the same command; restarts, lost and
  reordered messages, changes of leader and snapshots in between do not matter.
\<close>

theorem state_machine_safety:
  assumes "reachable_safe n s" "run_safe as s = Next t" "p < n" "q < n" "applied s p i c" "applied t q i c'"
  shows "c = c'"
proof -
  from run_histories [OF assms(1,2)] obtain h h' where h: "safe n h s" "safe n h' t" "hist_le n h h'" by metis
  have "decided n h' i c" using decided_later [OF h(3) applied_decided [OF h(1) assms(3,5)]] .
  moreover have "decided n h' i c'" using applied_decided [OF h(2) assms(4,6)] .
  ultimately show ?thesis using decided_unique [OF safe_hist [OF h(2)]] by blast
qed

theorem state_machine_safety_witness:
  "\<exists>s t :: (nat, nat) cluster. reachable_safe 3 s \<and> run_safe later_demo s = Next t \<and> applied s 0 1 7 \<and> applied t 1 1 7 \<and>
     \<not> applied t 0 1 7 \<and> (\<forall>q\<in>{0, 1, 2}. \<forall>c. applied t q 1 c \<longrightarrow> 7 = c)"
proof -
  have "on_demo (\<lambda>s t. applied s 0 1 7 \<and> applied t 1 1 7 \<and> \<not> applied t 0 1 7)" by code_simp
  then obtain s t :: "(nat, nat) cluster" where s: "reachable_safe 3 s" "run_safe later_demo s = Next t"
    "applied s 0 1 7" "applied t 1 1 7" "\<not> applied t 0 1 7" by (elim on_demoE) blast
  have "7 = c" if "q \<in> {0, 1, 2}" "applied t q 1 c" for q c
    using state_machine_safety [OF s(1,2) _ _ s(3) that(2)] that(1) by auto
  with s show ?thesis by blast
qed

text \<open>What both demo states hold of the entry at index 1.\<close>

definition holds_entry :: "('c, 's) cluster \<Rightarrow> nat \<Rightarrow> int \<Rightarrow> 'c entry \<Rightarrow> bool" where
  "holds_entry s p i e \<longleftrightarrow> entry_at (logs (rft (nodes s ! p))) i = Some e \<and> first_index (logs (rft (nodes s ! p))) < i"

definition demo_entry :: "nat entry" where
  "demo_entry = \<lparr>e_Index = 1, e_Term = 1, e_Command = Some 7\<rparr>"

text \<open>
  Committed entries agree. An entry that one peer holds at or below its commit index and an
  entry that any peer holds at the same index at or below its own commit index, at that or at a
  later time, are equal, command and term.
\<close>

theorem committed_entries_agree:
  assumes "reachable_safe n s" "run_safe as s = Next t" "p < n" "q < n"
    and "entry_at (logs (rft (nodes s ! p))) i = Some e" "first_index (logs (rft (nodes s ! p))) < i" "i \<le> commitIndex (rft (nodes s ! p))"
    and "entry_at (logs (rft (nodes t ! q))) i = Some e'" "first_index (logs (rft (nodes t ! q))) < i" "i \<le> commitIndex (rft (nodes t ! q))"
  shows "e = e'"
proof -
  from run_histories [OF assms(1,2)] obtain h h' where
    h: "safe n h s" "cluster_inv n s" "safe n h' t" "cluster_inv n t" "hist_le n h h'" .
  from safe_committed [OF h(1,2) assms(3,5-7)] obtain Q where q: "chosen n (acc h) Q" "nat i < length Q" "Q ! nat i = e" .
  from safe_committed [OF h(3,4) assms(4,8-10)] obtain R where r: "chosen n (acc h') R" "nat i < length R" "R ! nat i = e'" .
  from chosen_agree [OF safe_hist [OF h(3)] chosen_later [OF h(5) q(1)] r(1)] q(2,3) r(2,3)
  show ?thesis by (auto simp: prefix_def nth_append)
qed

theorem committed_entries_agree_witness:
  "\<exists>s t :: (nat, nat) cluster. reachable_safe 3 s \<and> run_safe later_demo s = Next t \<and>
     holds_entry s 0 1 demo_entry \<and> commitIndex (rft (nodes t ! 1)) = 1 \<and>
     (\<forall>e. holds_entry t 1 1 e \<longrightarrow> demo_entry = e)"
proof -
  have "on_demo (\<lambda>s t. entry_at (logs (rft (nodes s ! 0))) 1 = Some demo_entry \<and> first_index (logs (rft (nodes s ! 0))) < 1 \<and>
    commitIndex (rft (nodes s ! 0)) = 1 \<and> commitIndex (rft (nodes t ! 1)) = 1)" by code_simp
  then obtain s t :: "(nat, nat) cluster" where s: "reachable_safe 3 s" "run_safe later_demo s = Next t"
    "entry_at (logs (rft (nodes s ! 0))) 1 = Some demo_entry" "first_index (logs (rft (nodes s ! 0))) < 1"
    "commitIndex (rft (nodes s ! 0)) = 1" "commitIndex (rft (nodes t ! 1)) = 1" by (elim on_demoE) blast
  have "demo_entry = e" if "holds_entry t 1 1 e" for e
    using committed_entries_agree [OF s(1,2) _ _ s(3,4), of 1 e] s(5,6) that by (simp add: holds_entry_def)
  with s show ?thesis by (auto simp: holds_entry_def)
qed

text \<open>
  C3: Leader completeness. In any execution without a term setback and without a conflicting
  install: an entry committed by a peer in some term is in the log of every peer that is leader of
  that or of a later term then or at a later time, unless the leader has compacted that part of its
  log into a snapshot.
\<close>

theorem leader_completeness:
  assumes "reachable_safe n s" "run_safe as s = Next t" "p < n" "q < n"
    and "entry_at (logs (rft (nodes s ! p))) i = Some e" "first_index (logs (rft (nodes s ! p))) < i" "i \<le> commitIndex (rft (nodes s ! p))"
    and "role (rft (nodes t ! q)) = LEADER" "currentTerm (rft (nodes s ! p)) \<le> currentTerm (rft (nodes t ! q))"
  shows "i \<le> first_index (logs (rft (nodes t ! q))) \<or> entry_at (logs (rft (nodes t ! q))) i = Some e"
proof -
  from run_histories [OF assms(1,2)] obtain h h' where
    h: "safe n h s" "cluster_inv n s" "safe n h' t" "cluster_inv n t" "hist_le n h h'" .
  note ho = safe_hist [OF h(3)]
  from safe_committed [OF h(1,2) assms(3,5-7)] obtain Q where
    q: "chosen n (acc h) Q" "last_term Q \<le> terms s p" "nat i < length Q" "Q ! nat i = e" .
  note lf = leader_facts [OF h(3,4) assms(4,8)]
  have "lead h' (currentTerm (rft (nodes t ! q))) \<noteq> []" using lf(1) hist_okD(2) [OF ho assms(4)] by (simp add: known_def)
  from leader_extends_chosen [OF ho chosen_later [OF h(5) q(1)] this] q(2) assms(9)
  have "prefix Q (whole h' q)" by (simp add: lf(1) terms_def)
  then have "nat i < length (whole h' q)" "whole h' q ! nat i = e" using q(3,4) by (auto simp: prefix_def nth_append)
  then show ?thesis
    using entry_view [OF _ hist_okD(1) [OF ho] hist_okD(2) [OF ho assms(4)], of "logs (rft (nodes t ! q))" i]
      safe_node [OF h(3) assms(4)] inv_node(2) [OF inv_base [OF h(4)] assms(4)]
    by (cases "first_index (logs (rft (nodes t ! q))) < i") (simp_all add: node_safe_def node_ok_def)
qed

theorem leader_completeness_witness:
  "\<exists>s t :: (nat, nat) cluster. reachable_safe 3 s \<and> run_safe later_demo s = Next t \<and>
     holds_entry s 0 1 demo_entry \<and> GetState (rft (nodes t ! 1)) = (2, True) \<and> entry_at (logs (rft (nodes t ! 1))) 1 = Some demo_entry"
proof -
  have "on_demo (\<lambda>s t. entry_at (logs (rft (nodes s ! 0))) 1 = Some demo_entry \<and> first_index (logs (rft (nodes s ! 0))) < 1 \<and>
    commitIndex (rft (nodes s ! 0)) = 1 \<and> role (rft (nodes t ! 1)) = LEADER \<and> currentTerm (rft (nodes s ! 0)) = 1 \<and>
    currentTerm (rft (nodes t ! 1)) = 2 \<and> first_index (logs (rft (nodes t ! 1))) = 0)" by code_simp
  then obtain s t :: "(nat, nat) cluster" where s: "reachable_safe 3 s" "run_safe later_demo s = Next t"
    "entry_at (logs (rft (nodes s ! 0))) 1 = Some demo_entry" "first_index (logs (rft (nodes s ! 0))) < 1"
    "commitIndex (rft (nodes s ! 0)) = 1" "role (rft (nodes t ! 1)) = LEADER" "currentTerm (rft (nodes s ! 0)) = 1"
    "currentTerm (rft (nodes t ! 1)) = 2" "first_index (logs (rft (nodes t ! 1))) = 0" by (elim on_demoE) blast
  have "entry_at (logs (rft (nodes t ! 1))) 1 = Some demo_entry"
    using leader_completeness [OF s(1,2) _ _ s(3,4), of 1] s(5-9) by simp
  with s show ?thesis by (auto simp: holds_entry_def GetState_def)
qed

text \<open>
  C8: Log matching. In every state that is reached without a term setback and without a conflicting
  install: if two peers' logs hold entries of the same term at the same index, then these entries are
  equal and so are all entries before them that neither peer has compacted.
\<close>

theorem log_matching_property:
  assumes "reachable_safe n s" "p < n" "q < n"
    and "entry_at (logs (rft (nodes s ! p))) i = Some e" "first_index (logs (rft (nodes s ! p))) < i"
    and "entry_at (logs (rft (nodes s ! q))) i = Some e'" "first_index (logs (rft (nodes s ! q))) < i"
    and "e_Term e = e_Term e'" "j \<le> i" "first_index (logs (rft (nodes s ! p))) < j" "first_index (logs (rft (nodes s ! q))) < j"
  shows "entry_at (logs (rft (nodes s ! p))) j = entry_at (logs (rft (nodes s ! q))) j"
proof -
  from reachable_history [OF assms(1)] obtain h where h: "cluster_inv n s" "safe n h s" by blast
  note ho = safe_hist [OF h(2)]
  note a = safe_entry [OF h(2,1) assms(2,4,5)] and b = safe_entry [OF h(2,1) assms(3,6,7)]
  have k: "known (lead h) (take (Suc (nat i)) (whole h x))" if "x < n" "nat i < length (whole h x)" for x
    by (rule known_sub(1) [OF hist_okD(1) [OF ho] hist_okD(2) [OF ho that(1)] take_is_prefix]) (use that in auto)
  have "take (Suc (nat i)) (whole h p) = take (Suc (nat i)) (whole h q)"
    using log_matching [OF k [OF assms(2) a(1)] k [OF assms(3) b(1)]] a b assms(8)
    by (simp add: last_term_def take_Suc_conv_app_nth)
  then have eq: "whole h p ! nat j = whole h q ! nat j" using assms(9) by (metis le_imp_less_Suc nat_mono nth_take)
  have "entry_at (logs (rft (nodes s ! x))) j = Some (whole h x ! nat j)"
    if "x < n" "first_index (logs (rft (nodes s ! x))) < j" "nat i < length (whole h x)" for x
    using entry_view [OF _ hist_okD(1) [OF ho] hist_okD(2) [OF ho that(1)], of "logs (rft (nodes s ! x))" j]
      safe_node [OF h(2) that(1)] inv_node(2) [OF inv_base [OF h(1)] that(1)] that assms(9)
    by (simp add: node_safe_def node_ok_def)
  from this [OF assms(2,10) a(1)] this [OF assms(3,11) b(1)] eq show ?thesis by simp
qed

theorem log_matching_property_witness:
  "\<exists>s :: (nat, nat) cluster. reachable_safe 3 s \<and> holds_entry s 0 1 demo_entry \<and>
     entry_at (logs (rft (nodes s ! 0))) 1 = entry_at (logs (rft (nodes s ! 1))) 1"
proof -
  have "on_demo (\<lambda>s t. entry_at (logs (rft (nodes s ! 0))) 1 = Some demo_entry \<and> first_index (logs (rft (nodes s ! 0))) < 1 \<and>
    entry_at (logs (rft (nodes s ! 1))) 1 = Some demo_entry \<and> first_index (logs (rft (nodes s ! 1))) < 1)" by code_simp
  then obtain s :: "(nat, nat) cluster" where s: "reachable_safe 3 s"
    "entry_at (logs (rft (nodes s ! 0))) 1 = Some demo_entry" "first_index (logs (rft (nodes s ! 0))) < 1"
    "entry_at (logs (rft (nodes s ! 1))) 1 = Some demo_entry" "first_index (logs (rft (nodes s ! 1))) < 1" by (elim on_demoE) blast
  with log_matching_property [OF s(1) _ _ s(2-5), of 1] show ?thesis by (auto simp: holds_entry_def)
qed

text \<open>
  The run of the conflicting install. Peer 0 leads term 1 and appends three entries nobody else
  sees. Peer 1 leads term 2, replicates two entries to peer 2, commits and compacts them and offers
  its snapshot to peer 0, whose log still has the entries of term 1.
\<close>

definition install_run :: "(nat, nat) action list" where
  "install_run =
     [ElectionTimeout 0, Deliver 0, Return 0, ClientStart 0 7, ClientStart 0 8, ClientStart 0 9,
      ElectionTimeout 1, Deliver 11, Return 11, ClientStart 1 17, ClientStart 1 18, Deliver 17, Return 17,
      TakeSnapshot 1 2 [], HeartbeatTimeout 1, Deliver 18, InstallSnap 0 0]"

text \<open>
  Terms never decrease along a log, in any execution without a setback and without a
  conflicting install.
\<close>

theorem log_terms_sorted:
  assumes "reachable_safe n s" "p < n"
  shows "sorted (map e_Term (logs (rft (nodes s ! p))))"
proof -
  from reachable_history [OF assms(1)] obtain h where h: "safe n h s" by blast
  note ho = safe_hist [OF h]
  let ?G = "whole h p"
  have v: "view ?G (logs (rft (nodes s ! p)))" using safe_node [OF h assms(2)] by (simp add: node_safe_def)
  then obtain f where f: "f < length ?G" "logs (rft (nodes s ! p)) = (?G ! f)\<lparr>e_Command := None\<rparr> # drop (Suc f) ?G"
    unfolding view_def by blast
  then have eq: "map e_Term (logs (rft (nodes s ! p))) = drop f (map e_Term ?G)"
    by (simp add: drop_map) (metis Cons_nth_drop_Suc list.simps(9))
  have "e_Term (?G ! i) \<le> e_Term (?G ! j)" if "i \<le> j" "j < length ?G" for i j
  proof -
    have k: "known (lead h) (take (Suc j) ?G)"
      by (rule known_sub(1) [OF hist_okD(1) [OF ho] hist_okD(2) [OF ho assms(2)] take_is_prefix]) (use that in auto)
    from known_index(2) [OF hist_okD(1) [OF ho] k, of i] that show ?thesis
      by (simp add: last_term_def take_Suc_conv_app_nth nth_append split: if_splits)
  qed
  then have "sorted (map e_Term ?G)" by (auto simp: sorted_iff_nth_mono)
  then show ?thesis unfolding eq by (rule sorted_wrt_drop)
qed

theorem log_terms_sorted_witness:
  "\<exists>s :: (nat, nat) cluster. reachable_safe 3 s \<and> length (logs (rft (nodes s ! 1))) = 2 \<and> sorted (map e_Term (logs (rft (nodes s ! 1))))"
proof -
  have "on_demo (\<lambda>s t. length (logs (rft (nodes s ! 1))) = 2)" by code_simp
  then obtain s :: "(nat, nat) cluster" where "reachable_safe 3 s" "length (logs (rft (nodes s ! 1))) = 2" by (elim on_demoE) blast
  with log_terms_sorted [of 3 s 1] show ?thesis by auto
qed

text \<open>
  C33: Installing a snapshot over a conflicting log breaks that invariant: a cluster of three peers
  reaches, without any term setback, a state in which a peer's snapshot marker has term 2 and is
  followed by an entry of term 1, one that belongs to another log than the snapshot.
  \<open>CondInstallSnapshot\<close> keeps what follows the snapshot's index without comparing terms.
\<close>

theorem conflicting_install_mixes_logs:
  "\<exists>s :: (nat, nat) cluster. reachable_ns 3 s \<and> map e_Term (logs (rft (nodes s ! 0))) = [2, 1] \<and>
     map e_Index (logs (rft (nodes s ! 0))) = [2, 3]"
proof -
  have "case run_ns install_run (init_cluster 3) of
      Next s \<Rightarrow> map e_Term (logs (rft (nodes s ! 0))) = [2, 1] \<and> map e_Index (logs (rft (nodes s ! 0))) = [2, 3] | _ \<Rightarrow> False"
    by code_simp
  from outcome_NextI [OF this] obtain s where s: "run_ns install_run (init_cluster 3) = Next s"
    "map e_Term (logs (rft (nodes s ! 0))) = [2, 1]" "map e_Index (logs (rft (nodes s ! 0))) = [2, 3]" by auto
  with run_ns_reachable [OF ns_init s(1)] show ?thesis by auto
qed

end
