(* ===== verification/Raft_Order.thy ===== *)
theory Raft_Order
  imports Raft_Agreement
begin

text \<open>
  Two facts about executions that a test of Raft observes from outside. Leaders: a peer that was
  seen as leader of a term at one time and a peer seen as leader of that term at a later time are
  the same. Order: as long as nobody takes or installs snapshots, what each incarnation of a peer
  delivers to its service are the commands of the indices 1, 2, 3 and so on, without a gap.
\<close>

section \<open>Leaders over time\<close>

lemma deliver_granted:
  assumes i: "cluster_inv n s" and k: "k < length (calls s)" and a: "do_deliver s k = Next t" and g: "granted s v T c"
  shows "granted t v T c"
proof -
  let ?k = "calls s ! k" and ?p = "c_peer (calls s ! k)"
  note b = inv_base [OF i]
  have co: "?p < n" "rpc_ok (c_req ?k)" using inv_call [OF b k] by (auto simp: call_ok_def)
  note nd = inv_node [OF b co(1)]
  have pend: "c_status ?k = Pending" using a by (auto simp: do_deliver_def Let_def split: status.splits)
  show ?thesis
  proof (cases "c_req ?k")
    case (RequestVote_rpc args)
    with a pend obtain rf reply where
      t: "t = set_status (set_rft s ?p rf) k (Replied (RequestVote_reply reply))"
      by (auto simp: do_deliver_def Let_def from_option_Next)
    from vote_granted [OF k RequestVote_rpc pend t refl] g show ?thesis by blast
  next
    case (AppendEntries_rpc args)
    with a pend obtain rf reply where
      r: "AppendEntries (rft (nodes s ! ?p)) args = Some (rf, reply)"
      "t = set_status (set_rft s ?p rf) k (Replied (AppendEntries_reply reply))"
      by (auto simp: do_deliver_def Let_def from_option_Next)
    have "good_step (rft (nodes s ! ?p)) rf" using AppendEntries_good [OF nd(2) _ r(1)] co(2) AppendEntries_rpc by simp
    then have "quiet n s t"
      by (intro quiet_status [OF b k refl _ _ co(1), of "Replied (AppendEntries_reply reply)" "(nodes s ! ?p)\<lparr>rft := rf\<rparr>"])
        (simp_all add: AppendEntries_rpc pend r(2))
    with quiet_granted [OF i] g show ?thesis by blast
  next
    case (InstallSnapshot_rpc args)
    obtain rf reply msg where r: "InstallSnapshot (rft (nodes s ! ?p)) args = (rf, reply, msg)" by (metis surj_pair)
    let ?nd = "(nodes s ! ?p)\<lparr>rft := rf, snapshots := snapshots (nodes s ! ?p) @ (case msg of None \<Rightarrow> [] | Some m \<Rightarrow> [m])\<rparr>"
    have "t = set_status (set_node s ?p ?nd) k (Replied (InstallSnapshot_reply reply))"
      using a pend InstallSnapshot_rpc r by (simp add: do_deliver_def Let_def)
    then have "quiet n s t"
      by (intro quiet_status [OF b k refl _ _ co(1), of "Replied (InstallSnapshot_reply reply)" ?nd])
        (simp_all add: InstallSnapshot_rpc pend InstallSnapshot_good [OF nd(2) r])
    with quiet_granted [OF i] g show ?thesis by blast
  qed
qed

lemma return_granted:
  assumes i: "cluster_inv n s" and k: "k < length (calls s)" and a: "do_return s k = Next t"
    and ns: "\<not> term_setback (Return k) s" and g: "granted s v T c"
  shows "granted t v T c"
proof -
  let ?p = "c_caller (calls s ! k)"
  note b = inv_base [OF i]
  have p: "?p < n" using inv_call [OF b k] by (simp add: call_ok_def)
  from b k a show ?thesis
  proof (cases rule: do_return_cases)
    case (restarted r)
    have "quiet n s t"
      by (rule quiet_status [OF b k refl _ _ p, of "Lost (Some r)" "nodes s ! ?p"]) (use inv_node [OF b p] restarted in simp_all)
    with quiet_granted [OF i] g show ?thesis by blast
  next
    case (vote args reply rf' el' out)
    have "args = el_args (elections (nodes s ! ?p) ! c_election (calls s ! k))"
      using inv_call [OF b k] vote(1) by (simp add: call_ok_def)
    then have "\<not> stale_reply (elections (nodes s ! ?p) ! c_election (calls s ! k)) reply"
      using ns k vote(1,2) by (simp add: stale_reply_def)
    from voted_granted [OF i k vote(1,2) refl refl this vote(3)] g vote(4) show ?thesis by simp
  next
    case (other r rf')
    have "quiet n s t"
      by (rule quiet_status [OF b k refl _ _ p, of "Returned r" "(nodes s ! ?p)\<lparr>rft := rf'\<rparr>"]) (use other in simp_all)
    with quiet_granted [OF i] g show ?thesis by blast
  qed
qed

lemma granted_act:
  assumes i: "cluster_inv n s" and ns: "\<not> term_setback a s" and a: "act a s = Next t" and g: "granted s v T c"
  shows "granted t v T c"
proof -
  have len: "length (nodes s) = n" using i by (simp add: cluster_inv_def nodes_ok_def)
  have q: "quiet n s t \<Longrightarrow> granted t v T c" using quiet_granted [OF i] g by blast
  note b = inv_base [OF i]
  show ?thesis
  proof (cases a)
    case (ElectionTimeout p)
    with a len have "p < n" "do_election s p = Next t" by (auto split: if_splits)
    with do_election_started [OF b] obtain rf' el where "started n s p rf' el t" by blast
    with started_granted g show ?thesis by blast
  qed (use a ns len b in \<open>auto split: if_splits simp del: term_setback.simps
      intro: q deliver_granted [OF i _ _ g] return_granted [OF i _ _ _ g]
        act_heartbeat act_start act_snapshot act_install act_apply_take act_apply_done act_restart act_lose\<close>)
qed

lemma won_run:
  assumes "reachable_ns n s" "run_ns as s = Next t" "won n s T c"
  shows "won n t T c"
  using assms
proof (induction as arbitrary: s)
  case (Cons a as)
  then obtain u where u: "\<not> term_setback a s" "act a s = Next u" "run_ns as u = Next t" by (auto split: if_splits outcome.splits)
  have "won n u T c"
    using Cons.prems(3) granted_act [OF reachable_ns_inv [OF Cons.prems(1)] u(1,2)] unfolding won_def by blast
  with Cons.IH [OF ns_step [OF Cons.prems(1) u(1,2)] u(3)] show ?case .
qed simp

lemma leader_run:
  assumes r: "reachable_ns n s" "run_ns as s = Next t" and p: "p < n" "q < n"
    and "GetState (rft (nodes s ! p)) = (T, True)" "GetState (rft (nodes t ! q)) = (T, True)"
  shows "p = q"
proof -
  have i: "cluster_inv n s" "cluster_inv n t" using reachable_ns_inv r(1) run_ns_reachable [OF r] by blast+
  have "won n s T p" "won n t T q" using leader_won [OF i(1) p(1)] leader_won [OF i(2) p(2)] assms(5,6)
    by (auto simp: GetState_def terms_def)
  with won_run [OF r] won_unique [OF i(2)] show ?thesis by blast
qed

section \<open>Handlers that do not compact\<close>

text \<open>The parts of a peer that decide what it delivers: where its log starts and how far it has applied it.\<close>

definition frame :: "('c, 's) raft \<Rightarrow> ('c, 's) raft \<Rightarrow> bool" where
  "frame rf rf' \<longleftrightarrow> first_index (logs rf') = first_index (logs rf) \<and> LastApplied rf' = LastApplied rf"

lemma frame_refl [simp]: "frame rf rf"
  by (simp add: frame_def)

lemma frame_trans: "frame rf rf' \<Longrightarrow> frame rf' rf'' \<Longrightarrow> frame rf rf''"
  by (simp add: frame_def)

lemma frame_logs: "logs rf' = logs rf \<Longrightarrow> LastApplied rf' = LastApplied rf \<Longrightarrow> frame rf rf'"
  by (simp add: frame_def)

lemma frame_setNewTerm [simp]: "frame rf (setNewTerm rf T)"
  by (simp add: frame_def setNewTerm_def persist_def)

lemma frame_timers: "rf' = rf\<lparr>electionTimer := a\<rparr> \<Longrightarrow> frame rf rf'" "frame rf (reset_heartbeatTimer rf)"
  by (simp_all add: frame_def reset_heartbeatTimer_def)

lemma frame_RequestVote:
  assumes "RequestVote rf args = Some (rf', reply)" "logs rf \<noteq> []"
  shows "frame rf rf'"
proof (rule frame_logs [OF RequestVote_calm(2) [OF assms]])
  show "LastApplied rf' = LastApplied rf"
    using assms(1) unfolding RequestVote_def Let_def
    by (auto simp: bind_Some_iff reset_electionTimer_def persist_def setNewTerm_def split: if_splits)
qed

lemma frame_AppendEntries:
  assumes ok: "node_ok rf" and es: "ents_ok (ae_PrevLogIndex args) (ae_Entries args)"
    and r: "AppendEntries rf args = Some (rf', reply)"
  shows "frame rf rf'"
proof (cases "ae_Term args = currentTerm rf \<and> prev_matches (logs rf) args")
  case False
  have "log_ok (logs rf)" using ok by (simp add: node_ok_def)
  from AppendEntries_reject [OF this, of args] False r
  have "rf' = (if ae_Term args < currentTerm rf then rf
      else if ae_Term args > currentTerm rf then setNewTerm rf (ae_Term args) else heard_leader rf)" by auto
  moreover have "frame rf (heard_leader rf)" by (simp add: frame_def heard_leader_def reset_electionTimer_def Let_def)
  ultimately show ?thesis by simp
next
  case True
  have lo: "log_ok (logs rf)" using ok by (simp add: node_ok_def)
  obtain rf1 where rf1: "log_update (heard_leader rf) rf1" "logs rf1 = merged (logs rf) args"
    "rf' = (if ae_LeaderCommit args > commitIndex rf
            then apply_signal (rf1\<lparr>commitIndex := commit_after args (commitIndex rf) (logs rf1)\<rparr>)
            else rf1)"
    using AppendEntries_success [OF lo es] True r by fastforce
  have e: "rf1 = (heard_leader rf)\<lparr>logs := logs rf1, persister := persister rf1\<rparr>" using rf1(1) by (simp add: log_update_def)
  have "LastApplied rf1 = LastApplied (heard_leader rf)" by (subst e) simp
  then show ?thesis using first_index_merged [OF lo] True rf1(2,3)
    by (simp add: frame_def apply_signal_def heard_leader_def reset_electionTimer_def Let_def)
qed

lemma frame_InstallSnapshot: "InstallSnapshot rf args = (rf', reply, msg) \<Longrightarrow> frame rf rf'"
  by (auto simp: InstallSnapshot_def Let_def frame_def setNewTerm_def persist_def reset_electionTimer_def split: if_splits)

lemma frame_appendEntries: "appendEntries rf b = Some (rf', out) \<Longrightarrow> log_ok (logs rf) \<Longrightarrow> frame rf rf'"
  using appendEntries_facts frame_timers(1) by blast

lemma frame_update_indices: "update_indices rf q args reply = Some rf' \<Longrightarrow> frame rf rf'"
proof -
  assume "update_indices rf q args reply = Some rf'"
  note e = update_indices_matches(1) [OF this]
  show ?thesis by (rule frame_logs; subst e, simp)
qed

lemma frame_leaderCommitLog:
  assumes ok: "node_ok rf" and r: "leaderCommitLog rf = Some rf'"
  shows "frame rf rf'"
proof (cases "role rf = LEADER")
  case True
  have "scan_result rf (commitIndex rf + 1) rf'"
    using commit_loop_spec [of rf "commitIndex rf + 1"] ok r True by (auto simp: node_ok_def leaderCommitLog_def)
  then consider "rf' = rf" | "rf' = apply_signal (rf\<lparr>commitIndex := commitIndex rf'\<rparr>)" by (auto simp: scan_result_def)
  then show ?thesis
  proof cases
    case 2
    show ?thesis by (rule frame_logs; subst 2, simp add: apply_signal_def)
  qed simp
qed (use r in \<open>simp add: leaderCommitLog_def\<close>)

lemma frame_appendEntry_return:
  assumes ok: "node_ok rf" and r: "appendEntry_return rf q args (Some reply) = Some rf'"
  shows "frame rf rf'"
proof (cases "\<not> aer_Term reply > currentTerm rf \<and> ae_Term args = currentTerm rf")
  case True
  with r obtain rf1 where rf1: "update_indices rf q args reply = Some rf1" "leaderCommitLog rf1 = Some rf'"
    by (auto simp: appendEntry_return_def bind_Some_iff)
  have "node_ok rf1" using update_indices_good [OF ok rf1(1)] by (simp add: good_step_def)
  from frame_trans [OF frame_update_indices [OF rf1(1)] frame_leaderCommitLog [OF this rf1(2)]] show ?thesis .
qed (use r in \<open>auto simp: appendEntry_return_def split: if_splits\<close>)

lemma frame_installSnapshot_return:
  assumes "installSnapshot_return rf q args (Some reply) = Some rf'"
  shows "frame rf rf'"
proof -
  let ?rf = "if isr_Term reply > currentTerm rf then setNewTerm rf (isr_Term reply) else rf"
  from assms obtain ns ms where "rf' = ?rf\<lparr>nextIndex := ns, matchIndex := ms\<rparr>"
    unfolding installSnapshot_return_def Let_def by (auto simp: bind_Some_iff)
  then have "frame ?rf rf'" by (simp add: frame_def)
  moreover have "frame rf ?rf" by simp
  ultimately show ?thesis by (metis frame_trans)
qed

lemma frame_become_leader:
  assumes "become_leader rf = Some (rf', out)" "node_ok rf"
  shows "frame rf rf'"
proof -
  have lo: "log_ok (logs rf)" using assms(2) by (simp add: node_ok_def)
  let ?rf = "rf\<lparr>role := LEADER, nextIndex := map (\<lambda>_. last_index (logs rf) + 1) [0..<peers rf], matchIndex := map (\<lambda>_. 0) [0..<peers rf]\<rparr>"
  obtain rf1 where rf1: "appendEntries ?rf True = Some (rf1, out)" "rf' = reset_heartbeatTimer rf1"
    using assms(1) lo by (auto simp: become_leader_def Let_def bind_Some_iff)
  have "frame ?rf rf1" using frame_appendEntries [OF rf1(1)] lo by simp
  moreover have "frame rf ?rf" by (simp add: frame_def)
  ultimately show ?thesis using rf1(2) frame_timers(2) frame_trans by metis
qed

lemma frame_requestVote_return:
  assumes "requestVote_return rf el (Some reply) = Some (rf', el', out)" "\<not> stale_reply el reply" "node_ok rf"
  shows "frame rf rf'"
  using assms(1,2)
proof (cases rule: requestVote_return_cases)
  case win
  with frame_become_leader assms(3) show ?thesis by blast
qed simp

lemma frame_ticker_election: "ticker_election rf = Some (rf', el, out) \<Longrightarrow> frame rf rf'"
  by (auto simp: ticker_election_def StartElection_def Let_def bind_Some_iff reset_electionTimer_def persist_def frame_def)

lemma frame_ticker_heartbeat:
  assumes "ticker_heartbeat rf = Some (rf', out)" "log_ok (logs rf)"
  shows "frame rf rf'"
  using assms frame_trans [OF frame_appendEntries frame_timers(2)]
  by (auto simp: ticker_heartbeat_def bind_Some_iff split: if_splits)

lemma frame_Start:
  assumes "Start rf c = Some (rf', res, out)" "log_ok (logs rf)"
  shows "frame rf rf'"
proof (cases "role rf = LEADER")
  case True
  define e where "e = \<lparr>e_Index = last_index (logs rf) + 1, e_Term = currentTerm rf, e_Command = Some c\<rparr>"
  have ap: "appendEntries (persist (rf\<lparr>logs := logs rf @ [e]\<rparr>)) False = Some (rf', out)"
    using assms True by (auto simp: Start_def Let_def bind_Some_iff e_def)
  have lo: "log_ok (logs (persist (rf\<lparr>logs := logs rf @ [e]\<rparr>)))"
    using log_ok_append [OF assms(2), of "[e]"] by (simp add: persist_def ents_ok_def e_def)
  have "frame rf (persist (rf\<lparr>logs := logs rf @ [e]\<rparr>))" using assms(2) by (simp add: frame_def persist_def)
  with frame_appendEntries [OF ap lo] frame_trans show ?thesis by blast
qed (use assms in \<open>simp add: Start_def\<close>)

section \<open>Order of delivery\<close>

definition same_order :: "('c, 's) node \<Rightarrow> ('c, 's) node \<Rightarrow> bool" where
  "same_order nd nd' \<longleftrightarrow> frame (rft nd) (rft nd') \<and> sending nd' = sending nd \<and> delivered nd' = delivered nd"

lemma same_order_refl [simp]: "same_order nd nd"
  by (simp add: same_order_def)

lemma same_order_update:
  assumes "frame (rft (xs ! q)) (rft nd)" "sending nd = sending (xs ! q)" "delivered nd = delivered (xs ! q)"
  shows "same_order (xs ! p) (xs[q := nd] ! p)"
  using assms by (cases "p = q"; cases "q < length xs") (auto simp: same_order_def list_update_beyond)

lemma order_deliver:
  assumes i: "base_inv n s" and k: "k < length (calls s)" and a: "do_deliver s k = Next t"
  shows "same_order (nodes s ! p) (nodes t ! p)"
proof -
  let ?k = "calls s ! k" and ?q = "c_peer (calls s ! k)"
  have co: "?q < n" "rpc_ok (c_req ?k)" using inv_call [OF i k] by (auto simp: call_ok_def)
  note nd = inv_node [OF i co(1)]
  have pend: "c_status ?k = Pending" using a by (auto simp: do_deliver_def Let_def split: status.splits)
  show ?thesis
  proof (cases "c_req ?k")
    case (RequestVote_rpc args)
    with a pend obtain rf reply where r: "RequestVote (rft (nodes s ! ?q)) args = Some (rf, reply)"
      "t = set_status (set_rft s ?q rf) k (Replied (RequestVote_reply reply))"
      by (auto simp: do_deliver_def Let_def from_option_Next)
    with frame_RequestVote [OF r(1)] nd(2) show ?thesis
      by (auto simp: node_ok_def intro!: same_order_update)
  next
    case (AppendEntries_rpc args)
    with a pend obtain rf reply where r: "AppendEntries (rft (nodes s ! ?q)) args = Some (rf, reply)"
      "t = set_status (set_rft s ?q rf) k (Replied (AppendEntries_reply reply))"
      by (auto simp: do_deliver_def Let_def from_option_Next)
    with frame_AppendEntries [OF nd(2) _ r(1)] co(2) AppendEntries_rpc show ?thesis
      by (auto intro!: same_order_update)
  next
    case (InstallSnapshot_rpc args)
    obtain rf reply msg where r: "InstallSnapshot (rft (nodes s ! ?q)) args = (rf, reply, msg)" by (metis surj_pair)
    with a pend InstallSnapshot_rpc frame_InstallSnapshot [OF r] show ?thesis
      by (auto simp: do_deliver_def Let_def intro!: same_order_update)
  qed
qed

lemma order_return:
  assumes i: "base_inv n s" and k: "k < length (calls s)" and a: "do_return s k = Next t"
    and ns: "\<not> term_setback (Return k) s"
  shows "same_order (nodes s ! p) (nodes t ! p)"
proof -
  let ?k = "calls s ! k" and ?q = "c_caller (calls s ! k)"
  have q: "?q < n" using inv_call [OF i k] by (simp add: call_ok_def)
  note nd = inv_node [OF i q]
  obtain r where st: "c_status ?k = Replied r" using a by (auto simp: do_return_def Let_def split: status.splits)
  show ?thesis
  proof (cases "c_epoch ?k = epoch (nodes s ! ?q)")
    case False
    with a st show ?thesis by (auto simp: do_return_def Let_def)
  next
    case ep: True
    show ?thesis
    proof (cases "c_req ?k")
      case (RequestVote_rpc args)
      with a st ep obtain reply rf' el' out where r: "r = RequestVote_reply reply"
        "requestVote_return (rft (nodes s ! ?q)) (elections (nodes s ! ?q) ! c_election ?k) (Some reply) = Some (rf', el', out)"
        "t = voted s k reply rf' el' out"
        by (auto simp: do_return_def voted_def Let_def from_option_Next split: rpc_reply.splits)
      have "\<not> rvr_Term reply > rv_Term args" "args = el_args (elections (nodes s ! ?q) ! c_election ?k)"
        using ns k RequestVote_rpc st r(1) inv_call [OF i k] by (simp_all add: call_ok_def)
      then have "frame (rft (nodes s ! ?q)) rf'" using frame_requestVote_return [OF r(2) _ nd(2)] by (simp add: stale_reply_def)
      then show ?thesis using voted_state(1) [OF i k RequestVote_rpc refl refl] r(3)
        by (auto intro!: same_order_update)
    next
      case (AppendEntries_rpc args)
      with a st ep show ?thesis
        by (auto simp: do_return_def Let_def from_option_Next split: rpc_reply.splits
          intro!: same_order_update dest!: frame_appendEntry_return [OF nd(2)])
    next
      case (InstallSnapshot_rpc args)
      with a st ep show ?thesis
        by (auto simp: do_return_def Let_def from_option_Next split: rpc_reply.splits
          intro!: same_order_update dest!: frame_installSnapshot_return)
    qed
  qed
qed

text \<open>The actions of an execution in which the service does not use snapshots.\<close>

fun plain :: "('c, 's) action \<Rightarrow> bool" where
  "plain (TakeSnapshot p i d) = False"
| "plain (InstallSnap p j) = False"
| "plain _ = True"

lemma order_act:
  assumes i: "base_inv n s" and ns: "\<not> term_setback a s" and a: "act a s = Next t" and pl: "plain a"
  shows "same_order (nodes s ! p) (nodes t ! p) \<or> a = ApplyTake p \<or> a = ApplyDone p \<or> a = Restart p"
proof -
  have len: "length (nodes s) = n" using i by (simp add: base_inv_def nodes_ok_def)
  have lo: "log_ok (logs (rft (nodes s ! q)))" if "q < n" for q using inv_node(2) [OF i that] by (simp add: node_ok_def)
  show ?thesis
  proof (cases a)
    case (ElectionTimeout q)
    with a show ?thesis
      by (auto simp: do_election_def from_option_Next Let_def split: if_splits
        intro!: same_order_update dest!: frame_ticker_election)
  next
    case (HeartbeatTimeout q)
    with a len show ?thesis
      by (auto simp: do_heartbeat_def from_option_Next Let_def split: if_splits
        intro!: same_order_update dest!: frame_ticker_heartbeat intro: lo)
  next
    case (ClientStart q c)
    with a len show ?thesis
      by (auto simp: do_start_def from_option_Next Let_def split: if_splits
        intro!: same_order_update dest!: frame_Start intro: lo)
  next
    case (Deliver k)
    with a order_deliver [OF i] show ?thesis by (auto split: if_splits)
  next
    case (Return k)
    with a ns order_return [OF i] show ?thesis by (auto split: if_splits simp del: term_setback.simps)
  next
    case (Lose k)
    with a show ?thesis by (auto simp: do_lose_def split: if_splits status.splits)
  next
    case (ApplyTake q)
    with a show ?thesis by (cases "q = p") (auto simp: do_apply_take_def from_option_Next Let_def split: if_splits)
  next
    case (ApplyDone q)
    with a show ?thesis by (cases "q = p") (auto simp: do_apply_done_def from_option_Next Let_def split: if_splits option.splits)
  next
    case (Restart q)
    with a show ?thesis by (cases "q = p") (auto simp: do_restart_def from_option_Next Let_def split: if_splits)
  qed (use pl in simp_all)
qed

text \<open>A peer without snapshots: it has delivered the commands up to \<open>LastApplied\<close> and is sending what follows.\<close>

definition in_order :: "('c, 's) node \<Rightarrow> bool" where
  "in_order nd \<longleftrightarrow> first_index (logs (rft nd)) = 0 \<and> 0 \<le> LastApplied (rft nd) \<and>
     (\<forall>m\<in>set (delivered nd). CommandValid m \<and> Command m \<noteq> None) \<and>
     map CommandIndex (delivered nd) = [1..LastApplied (rft nd)] \<and>
     (case sending nd of None \<Rightarrow> True
      | Some (es, c) \<Rightarrow> LastApplied (rft nd) \<le> c \<and> map e_Index es = [LastApplied (rft nd) + 1..c] \<and>
          (\<forall>e\<in>set es. e_Command e \<noteq> None))"

lemma in_order_same: "in_order nd \<Longrightarrow> same_order nd nd' \<Longrightarrow> in_order nd'"
  by (auto simp: in_order_def same_order_def frame_def split: option.splits)

lemma in_order_take:
  assumes i: "safe n h s" "cluster_inv n s" and p: "p < n" and a: "do_apply_take s p = Next t" and o: "in_order (nodes s ! p)"
  shows "in_order (nodes t ! p)"
proof -
  let ?rf = "rft (nodes s ! p)"
  note h = safe_hist [OF i(1)] and nd = inv_node [OF inv_base [OF i(2)] p] and sn = safe_node [OF i(1) p]
  from a obtain b where b: "applier_take ?rf = Some b" "applier_ready ?rf" "t = set_node s p ((nodes s ! p)\<lparr>sending := Some b\<rparr>)"
    by (auto simp: do_apply_take_def Let_def from_option_Next split: if_splits)
  have lo: "log_ok (logs ?rf)" using nd(2) by (simp add: node_ok_def)
  have fi: "first_index (logs ?rf) = 0" "0 \<le> LastApplied ?rf" using o by (simp_all add: in_order_def)
  have v: "view (whole h p) (logs ?rf)" "commitIndex ?rf < int (length (whole h p))"
    using sn by (auto simp: node_safe_def commit_safe_def)
  have "last_index (logs ?rf) = int (length (whole h p)) - 1"
    using viewE [OF v(1) hist_okD(1) [OF h] hist_okD(2) [OF h p]] by metis
  with applier_take_spec [OF lo] fi v(2) b(1,2) obtain es where es: "b = (es, commitIndex ?rf)"
    "map e_Index es = [LastApplied ?rf + 1..commitIndex ?rf]" "\<forall>e\<in>set es. entry_at (logs ?rf) (e_Index e) = Some e"
    by (auto simp: applier_ready_def)
  have "e_Command e \<noteq> None" if "e \<in> set es" for e
  proof -
    have "e_Index e \<in> set (map e_Index es)" using that by simp
    then have "0 < e_Index e" unfolding es(2) using fi(2) by auto
    moreover from this fi(1) es(3) that have "nat (e_Index e) < length (whole h p)" "e = whole h p ! nat (e_Index e)"
      using safe_entry [OF i p, of "e_Index e" e] by auto
    ultimately show ?thesis
      using known_index(3) [OF hist_okD(1) [OF h] hist_okD(2) [OF h p], of "nat (e_Index e)"] by simp
  qed
  with es b(2) o show ?thesis using b(3) p nd(1) by (auto simp: in_order_def applier_ready_def)
qed

lemma in_order_act:
  assumes i: "safe n h s" "cluster_inv n s" and ns: "\<not> term_setback a s" and a: "act a s = Next t" and pl: "plain a"
    and p: "p < n" and o: "in_order (nodes s ! p)"
  shows "in_order (nodes t ! p)"
proof -
  note b = inv_base [OF i(2)] and nd = inv_node [OF inv_base [OF i(2)] p]
  consider "same_order (nodes s ! p) (nodes t ! p)" | "a = ApplyTake p" | "a = ApplyDone p" | "a = Restart p"
    using order_act [OF b ns a pl] by blast
  then show ?thesis
  proof cases
    case 2
    with a in_order_take [OF i p _ o] show ?thesis by (auto split: if_splits)
  next
    case 3
    with a p nd(1) obtain es c where s: "sending (nodes s ! p) = Some (es, c)"
      "nodes t ! p = (nodes s ! p)\<lparr>rft := applier_done (rft (nodes s ! p)) c, sending := None,
         delivered := delivered (nodes s ! p) @ map applier_msg es\<rparr>"
      by (auto simp: do_apply_done_def Let_def split: option.splits)
    let ?l = "LastApplied (rft (nodes s ! p))"
    have m: "LastApplied (applier_done (rft (nodes s ! p)) c) = c" "0 \<le> ?l" "?l \<le> c"
      using o s(1) by (auto simp: in_order_def applier_done_def max_int_def)
    have "[1..?l] @ [?l + 1..c] = [1..c]" using upto_split2 [of 1 "?l" c] m by (cases "?l = 0") auto
    then show ?thesis
      using o s m by (auto simp: in_order_def applier_msg_def comp_def) (simp add: applier_done_def)
  next
    case 4
    let ?rf = "rft (nodes s ! p)"
    from 4 a p nd(1) obtain rf where m: "Make (peers ?rf) (me ?rf) (persister ?rf) = Some rf"
      "nodes t ! p = (nodes s ! p)\<lparr>rft := rf, epoch := Suc (epoch (nodes s ! p)), sending := None, delivered := [], snapshots := []\<rparr>"
      by (auto simp: do_restart_def Let_def from_option_Next)
    have "synced ?rf" "logs ?rf \<noteq> []" using nd(2) by (auto simp: node_ok_def)
    from Make_restores [OF this, of "peers ?rf" "me ?rf"] m(1) have
      "logs rf = logs ?rf" "LastApplied rf = first_index (logs ?rf)" by auto
    then show ?thesis using m(2) o by (simp add: in_order_def)
  qed (use in_order_same [OF o] in blast)
qed

lemma plain_no_conflict: "plain a \<Longrightarrow> \<not> install_conflict a s"
  by (cases a) simp_all

end
