(* ===== verification/Labrpc.thy ===== *)
theory Labrpc
  imports Prelude "HOL-Library.Word"
begin

text \<open>
  The simulated network all the services talk through (package labrpc). Its state is the
  network's tables, the servers with their services, the receiver objects, and one record per
  call: the goroutine \<open>processReq\<close> that carries it, and the goroutine that runs the handler.
  \<open>processReq\<close> is split where it waits (for a delay, for the handler, for the next look at the
  server); the random numbers it draws are arguments of its steps.

  Encoding is that of encoding/gob: \<open>Enc\<close> is the encoding of a value, and \<open>Dec dst bs\<close> what
  decoding the bytes into a variable that holds \<open>dst\<close> leaves there, and whether it failed. (\<open>Call\<close>
  panics on an argument that gob cannot encode; every value here has an encoding.)
\<close>

section \<open>Data\<close>

record ('v, 'b) codec =
  Enc :: "'v \<Rightarrow> 'b list"
  Dec :: "'v \<Rightarrow> 'b list \<Rightarrow> 'v \<times> bool"

text \<open>A request; the type of its argument is given by the zero value of that type.\<close>

record ('v, 'b) reqMsg =
  rq_endname :: string
  rq_svcMeth :: string
  rq_argsType :: 'v
  rq_args :: "'b list"

record 'b replyMsg =
  rp_ok :: bool
  rp_reply :: "'b list"

record ClientEnd =
  ce_endname :: string

text \<open>
  A method as reflection shows it: whether it is exported, how many arguments it has and whether
  its last one is a pointer, how many results, and the function itself, which takes the
  receiver, the argument and the variable for the reply.
\<close>

record ('o, 'v) reflect_method =
  m_Name :: string
  m_PkgPath :: string
  m_NumIn :: nat
  m_In2Ptr :: bool
  m_NumOut :: nat
  m_replyType :: 'v
  m_Func :: "'o \<Rightarrow> 'v \<Rightarrow> 'v \<Rightarrow> 'o \<times> 'v"

record ('o, 'v) Service =
  svc_name :: string
  svc_rcvr :: nat
  svc_methods :: "(string \<times> ('o, 'v) reflect_method) list"

record ('o, 'v) Server =
  srv_services :: "(string \<times> ('o, 'v) Service) list"
  srv_count :: int

text \<open>
  Where \<open>processReq\<close> stands: about to read the tables; admitted to a server (with what it has
  read: the server's name and address, reliable, longReordering); waiting for the handler; past the
  wait with the handler's reply, or without one; having left a timer to send the reply; done.
\<close>

datatype 'b progress =
    Started
  | Admitted string nat bool bool
  | Waiting string nat bool bool
  | Finished string nat bool bool "'b replyMsg option"
  | Deferred "'b replyMsg"
  | Answered "'b replyMsg"

datatype 'b handling = NoHandler | Running nat | Ran "'b replyMsg"

record ('v, 'b) proc =
  p_req :: "('v, 'b) reqMsg"
  p_main :: "'b progress"
  p_handler :: "'b handling"

record ('o, 'v, 'b) Network =
  nw_reliable :: bool
  nw_longDelays :: bool
  nw_longReordering :: bool
  nw_ends :: "string \<rightharpoonup> ClientEnd"
  nw_enabled :: "string \<rightharpoonup> bool"
  nw_servers :: "string \<rightharpoonup> nat"
  nw_connections :: "string \<rightharpoonup> string"
  nw_done :: bool
  nw_loop :: bool
  nw_count :: "32 word"
  nw_bytes :: "64 word"
  nw_srvs :: "('o, 'v) Server list"
  nw_objs :: "'o list"
  nw_procs :: "('v, 'b) proc list"

section \<open>Services and servers\<close>

definition suitable :: "('o, 'v) reflect_method \<Rightarrow> bool" where
  "suitable m \<longleftrightarrow> \<not> (m_PkgPath m \<noteq> '''' \<or> m_NumIn m \<noteq> 3 \<or> \<not> m_In2Ptr m \<or> m_NumOut m \<noteq> 0)"

definition MakeService :: "string \<Rightarrow> nat \<Rightarrow> ('o, 'v) reflect_method list \<Rightarrow> ('o, 'v) Service" where
  "MakeService typename rcvr typ = \<lparr>svc_name = typename, svc_rcvr = rcvr,
     svc_methods = fold (\<lambda>m ms. if suitable m then AList.update (m_Name m) m ms else ms) typ []\<rparr>"

definition svc_dispatch ::
  "('v, 'b) codec \<Rightarrow> 'o list \<Rightarrow> ('o, 'v) Service \<Rightarrow> string \<Rightarrow> ('v, 'b) reqMsg \<Rightarrow> ('o list \<times> 'b replyMsg) option" where
  "svc_dispatch G objs svc methname req =
     (case map_of (svc_methods svc) methname of
        Some m \<Rightarrow>
          (let args = fst (Dec G (rq_argsType req) (rq_args req));
               (obj, replyv) = m_Func m (objs ! svc_rcvr svc) args (m_replyType m)
           in Some (objs[svc_rcvr svc := obj], \<lparr>rp_ok = True, rp_reply = Enc G replyv\<rparr>))
      | None \<Rightarrow> None)"

definition MakeServer :: "('o, 'v) Server" where
  "MakeServer = \<lparr>srv_services = [], srv_count = 0\<rparr>"

definition AddService :: "('o, 'v) Server \<Rightarrow> ('o, 'v) Service \<Rightarrow> ('o, 'v) Server" where
  "AddService rs svc = rs\<lparr>srv_services := AList.update (svc_name svc) svc (srv_services rs)\<rparr>"

definition srv_GetCount :: "('o, 'v) Server \<Rightarrow> int" where
  "srv_GetCount rs = srv_count rs"

definition LastIndex :: "string \<Rightarrow> char \<Rightarrow> int" where
  "LastIndex s c = (if c \<in> set s then int (length s) - 1 - int (length (takeWhile (\<lambda>x. x \<noteq> c) (rev s))) else - 1)"

text \<open>The service and the method a request names; slicing panics when there is no dot.\<close>

definition split_svcMeth :: "string \<Rightarrow> (string \<times> string) option" where
  "split_svcMeth svcMeth = do {
     let dot = LastIndex svcMeth CHR ''.'';
     serviceName \<leftarrow> slice_to svcMeth dot;
     methodName \<leftarrow> slice_from svcMeth (dot + 1);
     Some (serviceName, methodName)
   }"

definition srv_dispatch ::
  "('v, 'b) codec \<Rightarrow> ('o, 'v, 'b) Network \<Rightarrow> nat \<Rightarrow> ('v, 'b) reqMsg \<Rightarrow> (('o, 'v, 'b) Network \<times> 'b replyMsg) option" where
  "srv_dispatch G rn server req = do {
     let rs = nw_srvs rn ! server;
     (serviceName, methodName) \<leftarrow> split_svcMeth (rq_svcMeth req);
     service \<leftarrow> map_of (srv_services rs) serviceName;
     (objs, r) \<leftarrow> svc_dispatch G (nw_objs rn) service methodName req;
     Some (rn\<lparr>nw_srvs := (nw_srvs rn)[server := rs\<lparr>srv_count := srv_count rs + 1\<rparr>], nw_objs := objs\<rparr>, r)
   }"

section \<open>The network's tables\<close>

definition MakeNetwork :: "('o, 'v, 'b) Network" where
  "MakeNetwork = \<lparr>nw_reliable = True, nw_longDelays = False, nw_longReordering = False, nw_ends = Map.empty,
     nw_enabled = Map.empty, nw_servers = Map.empty, nw_connections = Map.empty, nw_done = False, nw_loop = True,
     nw_count = 0, nw_bytes = 0, nw_srvs = [], nw_objs = [], nw_procs = []\<rparr>"

definition Cleanup :: "('o, 'v, 'b) Network \<Rightarrow> ('o, 'v, 'b) Network option" where
  "Cleanup rn = (if nw_done rn then None else Some (rn\<lparr>nw_done := True\<rparr>))"

definition Reliable :: "('o, 'v, 'b) Network \<Rightarrow> bool \<Rightarrow> ('o, 'v, 'b) Network" where
  "Reliable rn yes = rn\<lparr>nw_reliable := yes\<rparr>"

definition LongReordering :: "('o, 'v, 'b) Network \<Rightarrow> bool \<Rightarrow> ('o, 'v, 'b) Network" where
  "LongReordering rn yes = rn\<lparr>nw_longReordering := yes\<rparr>"

definition LongDelays :: "('o, 'v, 'b) Network \<Rightarrow> bool \<Rightarrow> ('o, 'v, 'b) Network" where
  "LongDelays rn yes = rn\<lparr>nw_longDelays := yes\<rparr>"

definition MakeEnd :: "('o, 'v, 'b) Network \<Rightarrow> string \<Rightarrow> (('o, 'v, 'b) Network \<times> ClientEnd) option" where
  "MakeEnd rn endname =
     (case nw_ends rn endname of
        Some _ \<Rightarrow> None
      | None \<Rightarrow>
          (let e = \<lparr>ce_endname = endname\<rparr>
           in Some (rn\<lparr>nw_ends := (nw_ends rn)(endname \<mapsto> e), nw_enabled := (nw_enabled rn)(endname \<mapsto> False),
                  nw_connections := (nw_connections rn)(endname := None)\<rparr>, e)))"

definition AddServer :: "('o, 'v, 'b) Network \<Rightarrow> string \<Rightarrow> nat \<Rightarrow> ('o, 'v, 'b) Network" where
  "AddServer rn servername rs = rn\<lparr>nw_servers := (nw_servers rn)(servername \<mapsto> rs)\<rparr>"

definition DeleteServer :: "('o, 'v, 'b) Network \<Rightarrow> string \<Rightarrow> ('o, 'v, 'b) Network" where
  "DeleteServer rn servername = rn\<lparr>nw_servers := (nw_servers rn)(servername := None)\<rparr>"

definition Connect :: "('o, 'v, 'b) Network \<Rightarrow> string \<Rightarrow> string \<Rightarrow> ('o, 'v, 'b) Network" where
  "Connect rn endname servername = rn\<lparr>nw_connections := (nw_connections rn)(endname \<mapsto> servername)\<rparr>"

definition Enable :: "('o, 'v, 'b) Network \<Rightarrow> string \<Rightarrow> bool \<Rightarrow> ('o, 'v, 'b) Network" where
  "Enable rn endname enabled = rn\<lparr>nw_enabled := (nw_enabled rn)(endname \<mapsto> enabled)\<rparr>"

text \<open>Counting the requests of a server that is not there dereferences a nil pointer.\<close>

definition net_GetCount :: "('o, 'v, 'b) Network \<Rightarrow> string \<Rightarrow> int option" where
  "net_GetCount rn servername = do {
     svr \<leftarrow> nw_servers rn servername;
     Some (srv_GetCount (nw_srvs rn ! svr))
   }"

definition GetTotalCount :: "('o, 'v, 'b) Network \<Rightarrow> int" where
  "GetTotalCount rn = sint (nw_count rn)"

definition GetTotalBytes :: "('o, 'v, 'b) Network \<Rightarrow> int" where
  "GetTotalBytes rn = sint (nw_bytes rn)"

text \<open>A map without the key yields the zero value.\<close>

definition is_enabled :: "('o, 'v, 'b) Network \<Rightarrow> string \<Rightarrow> bool" where
  "is_enabled rn endname = (nw_enabled rn endname = Some True)"

definition readEndnameInfo ::
  "('o, 'v, 'b) Network \<Rightarrow> string \<Rightarrow> bool \<times> string option \<times> nat option \<times> bool \<times> bool" where
  "readEndnameInfo rn endname =
     (let enabled = is_enabled rn endname;
          servername = nw_connections rn endname;
          server = (case servername of None \<Rightarrow> None | Some sn \<Rightarrow> nw_servers rn sn)
      in (enabled, servername, server, nw_reliable rn, nw_longReordering rn))"

definition isServerDead :: "('o, 'v, 'b) Network \<Rightarrow> string \<Rightarrow> string \<Rightarrow> nat \<Rightarrow> bool" where
  "isServerDead rn endname servername server =
     (if is_enabled rn endname = False \<or> nw_servers rn servername \<noteq> Some server then True else False)"

section \<open>A call\<close>

definition failure :: "'b replyMsg" where
  "failure = \<lparr>rp_ok = False, rp_reply = []\<rparr>"

text \<open>
  \<open>Call\<close> up to the wait for the reply: the request is encoded and taken by the network's
  goroutine, which counts it and starts \<open>processReq\<close>. Once the network is cleaned up that
  goroutine ends, and \<open>Call\<close> returns false.
\<close>

definition Call_send ::
  "('v, 'b) codec \<Rightarrow> ('o, 'v, 'b) Network \<Rightarrow> ClientEnd \<Rightarrow> string \<Rightarrow> 'v \<Rightarrow> 'v \<Rightarrow> ('o, 'v, 'b) Network outcome" where
  "Call_send G rn e svcMeth argsType args =
     (let req = \<lparr>rq_endname = ce_endname e, rq_svcMeth = svcMeth, rq_argsType = argsType, rq_args = Enc G args\<rparr>
      in if nw_loop rn
         then Next (rn\<lparr>nw_count := nw_count rn + 1, nw_bytes := nw_bytes rn + of_nat (length (rq_args req)),
                nw_procs := nw_procs rn @ [\<lparr>p_req = req, p_main = Started, p_handler = NoHandler\<rparr>]\<rparr>)
         else Disabled)"

definition loop_stop :: "('o, 'v, 'b) Network \<Rightarrow> ('o, 'v, 'b) Network outcome" where
  "loop_stop rn = (if nw_done rn \<and> nw_loop rn then Next (rn\<lparr>nw_loop := False\<rparr>) else Disabled)"

definition Call_abandoned :: "('o, 'v, 'b) Network \<Rightarrow> bool outcome" where
  "Call_abandoned rn = (if nw_done rn then Next False else Disabled)"

text \<open>
  The end of \<open>Call\<close>: the reply is decoded into the caller's variable, whose value is the
  argument; a reply that does not decode ends the program.
\<close>

definition Call_return :: "('v, 'b) codec \<Rightarrow> ('v, 'b) proc \<Rightarrow> 'v \<Rightarrow> (bool \<times> 'v) outcome" where
  "Call_return G p reply =
     (case p_main p of
        Answered rep \<Rightarrow>
          (if rp_ok rep
           then (let (v, err) = Dec G reply (rp_reply rep) in if err then Panic else Next (True, v))
           else Next (False, reply))
      | _ \<Rightarrow> Disabled)"

definition set_main :: "('o, 'v, 'b) Network \<Rightarrow> nat \<Rightarrow> 'b progress \<Rightarrow> ('o, 'v, 'b) Network" where
  "set_main rn k pr = rn\<lparr>nw_procs := (nw_procs rn)[k := (nw_procs rn ! k)\<lparr>p_main := pr\<rparr>]\<rparr>"

definition set_handler :: "('o, 'v, 'b) Network \<Rightarrow> nat \<Rightarrow> 'b handling \<Rightarrow> ('o, 'v, 'b) Network" where
  "set_handler rn k h = rn\<lparr>nw_procs := (nw_procs rn)[k := (nw_procs rn ! k)\<lparr>p_handler := h\<rparr>]\<rparr>"

definition count_bytes :: "('o, 'v, 'b) Network \<Rightarrow> 'b replyMsg \<Rightarrow> ('o, 'v, 'b) Network" where
  "count_bytes rn rep = rn\<lparr>nw_bytes := nw_bytes rn + of_nat (length (rp_reply rep))\<rparr>"

text \<open>The first step reads the tables; with no server to go to, a timer will send the failure.\<close>

definition processReq_start :: "('o, 'v, 'b) Network \<Rightarrow> nat \<Rightarrow> ('o, 'v, 'b) Network outcome" where
  "processReq_start rn k =
     (case p_main (nw_procs rn ! k) of
        Started \<Rightarrow>
          (case readEndnameInfo rn (rq_endname (p_req (nw_procs rn ! k))) of
             (True, Some servername, Some server, reliable, longreordering) \<Rightarrow>
               Next (set_main rn k (Admitted servername server reliable longreordering))
           | _ \<Rightarrow> Next (set_main rn k (Deferred failure)))
      | _ \<Rightarrow> Disabled)"

text \<open>After the delay: an unreliable network drops the request for a draw below 100, otherwise the handler is started.\<close>

definition processReq_admit :: "('o, 'v, 'b) Network \<Rightarrow> nat \<Rightarrow> nat \<Rightarrow> ('o, 'v, 'b) Network outcome" where
  "processReq_admit rn k draw =
     (case p_main (nw_procs rn ! k) of
        Admitted servername server reliable longreordering \<Rightarrow>
          (if \<not> reliable \<and> draw mod 1000 < 100 then Next (set_main rn k (Answered failure))
           else Next (set_handler (set_main rn k (Waiting servername server reliable longreordering)) k (Running server)))
      | _ \<Rightarrow> Disabled)"

text \<open>The goroutine that runs the handler.\<close>

definition handler_run :: "('v, 'b) codec \<Rightarrow> ('o, 'v, 'b) Network \<Rightarrow> nat \<Rightarrow> ('o, 'v, 'b) Network outcome" where
  "handler_run G rn k =
     (case p_handler (nw_procs rn ! k) of
        Running server \<Rightarrow>
          from_option (srv_dispatch G rn server (p_req (nw_procs rn ! k))) (\<lambda>(rn, r). set_handler rn k (Ran r))
      | _ \<Rightarrow> Disabled)"

definition processReq_receive :: "('o, 'v, 'b) Network \<Rightarrow> nat \<Rightarrow> ('o, 'v, 'b) Network outcome" where
  "processReq_receive rn k =
     (case (p_main (nw_procs rn ! k), p_handler (nw_procs rn ! k)) of
        (Waiting servername server reliable longreordering, Ran reply) \<Rightarrow>
          Next (set_main rn k (Finished servername server reliable longreordering (Some reply)))
      | _ \<Rightarrow> Disabled)"

text \<open>Every 100 ms without a reply, a look at whether the server is still there.\<close>

definition processReq_poll :: "('o, 'v, 'b) Network \<Rightarrow> nat \<Rightarrow> ('o, 'v, 'b) Network outcome" where
  "processReq_poll rn k =
     (case p_main (nw_procs rn ! k) of
        Waiting servername server reliable longreordering \<Rightarrow>
          Next (if isServerDead rn (rq_endname (p_req (nw_procs rn ! k))) servername server
                then set_main rn k (Finished servername server reliable longreordering None) else rn)
      | _ \<Rightarrow> Disabled)"

definition processReq_answer :: "('o, 'v, 'b) Network \<Rightarrow> nat \<Rightarrow> nat \<Rightarrow> nat \<Rightarrow> ('o, 'v, 'b) Network outcome" where
  "processReq_answer rn k draw1 draw2 =
     (case p_main (nw_procs rn ! k) of
        Finished servername server reliable longreordering reply \<Rightarrow>
          (let serverDead = isServerDead rn (rq_endname (p_req (nw_procs rn ! k))) servername server
           in case reply of
                None \<Rightarrow> Next (set_main rn k (Answered failure))
              | Some rep \<Rightarrow>
                  (if serverDead then Next (set_main rn k (Answered failure))
                   else if \<not> reliable \<and> draw1 mod 1000 < 100 then Next (set_main rn k (Answered failure))
                   else if longreordering \<and> draw2 mod 900 < 600 then Next (set_main rn k (Deferred rep))
                   else Next (set_main (count_bytes rn rep) k (Answered rep))))
      | _ \<Rightarrow> Disabled)"

text \<open>The timer fires (a failure carries no bytes).\<close>

definition processReq_fire :: "('o, 'v, 'b) Network \<Rightarrow> nat \<Rightarrow> ('o, 'v, 'b) Network outcome" where
  "processReq_fire rn k =
     (case p_main (nw_procs rn ! k) of
        Deferred rep \<Rightarrow> Next (set_main (count_bytes rn rep) k (Answered rep))
      | _ \<Rightarrow> Disabled)"

end
