(* ===== verification/Raft_Config.thy ===== *)
theory Raft_Config
  imports Raft_Order Labrpc
begin

text \<open>
  The harness of the Raft tests (config.go of package raft): it starts, crashes and restarts the
  peers on the simulated network, connects and disconnects them, reads what they apply and checks
  it. A test that fails (\<open>t.Fatalf\<close>) and a program that ends (\<open>log.Fatalf\<close>, a run-time panic) are
  a \<open>Fatal\<close> verdict with its reason. What the harness reads at different times from the peers
  while it sleeps in between are arguments of its checks; the random names of the ends and the
  clock are arguments too. Server numbers are below the number of servers.
\<close>

section \<open>Data\<close>

datatype 'c apply_err =
    NoErr
  | Differs int nat "'c option" nat "'c option"
  | OutOfOrder nat int
  | Expected nat int int
  | IndexMismatch nat

datatype 'c fatal =
    ApplyError "'c apply_err"
  | NilSnapshot
  | SnapshotDecode
  | TwoLeaders int nat
  | NoLeader
  | TermsDiffer
  | UnexpectedLeader nat
  | ValuesDiffer int "'c option" "'c option"
  | TooFew nat int nat
  | NoAgreement
  | Timeout
  | GoPanic

datatype ('c, 'a) verdict = Pass 'a | Fatal "'c fatal"

fun vbind :: "('c, 'a) verdict \<Rightarrow> ('a \<Rightarrow> ('c, 'b) verdict) \<Rightarrow> ('c, 'b) verdict" where
  "vbind (Pass x) f = f x"
| "vbind (Fatal e) f = Fatal e"

definition unnil :: "'a option \<Rightarrow> ('c, 'a) verdict" where
  "unnil m = (case m of None \<Rightarrow> Fatal GoPanic | Some x \<Rightarrow> Pass x)"

text \<open>A snapshot of the harness: the encoded last index and the commands up to it.\<close>

datatype 'c item = IInt int | ILog "'c option list"

record ('c, 'o, 'v, 'b) config =
  cf_finished :: bool
  cf_net :: "('o, 'v, 'b) Network"
  cf_n :: nat
  cf_rafts :: "('c, 'c item) raft option list"
  cf_applyErr :: "'c apply_err list"
  cf_connected :: "bool list"
  cf_saved :: "('c, 'c item) persister option list"
  cf_endnames :: "string list list"
  cf_logs :: "(int \<rightharpoonup> 'c option) list"
  cf_lastApplied :: "int list"
  cf_start :: int
  cf_t0 :: int
  cf_rpcs0 :: int
  cf_cmds0 :: int
  cf_bytes0 :: int
  cf_maxIndex :: int
  cf_maxIndex0 :: int

text \<open>A server's number as a key of the network's tables.\<close>

definition server_key :: "nat \<Rightarrow> string" where
  "server_key i = replicate i CHR ''1''"

lemma server_key_inj [simp]: "server_key i = server_key j \<longleftrightarrow> i = j"
  by (auto simp: server_key_def dest: arg_cong [of _ _ length])

section \<open>Connections\<close>

definition set_enabled :: "('c, 'o, 'v, 'b) config \<Rightarrow> string \<Rightarrow> bool \<Rightarrow> ('c, 'o, 'v, 'b) config" where
  "set_enabled cfg endname yes = cfg\<lparr>cf_net := Enable (cf_net cfg) endname yes\<rparr>"

text \<open>The loops over the outgoing and the incoming ends; a server that was never started has no ends.\<close>

fun connect_out :: "('c, 'o, 'v, 'b) config \<Rightarrow> nat \<Rightarrow> nat list \<Rightarrow> ('c, 'o, 'v, 'b) config option" where
  "connect_out cfg i [] = Some cfg"
| "connect_out cfg i (j # js) =
     (if cf_connected cfg ! j
      then do { endname \<leftarrow> idx (cf_endnames cfg ! i) (int j); connect_out (set_enabled cfg endname True) i js }
      else connect_out cfg i js)"

fun connect_in :: "('c, 'o, 'v, 'b) config \<Rightarrow> nat \<Rightarrow> nat list \<Rightarrow> ('c, 'o, 'v, 'b) config option" where
  "connect_in cfg i [] = Some cfg"
| "connect_in cfg i (j # js) =
     (if cf_connected cfg ! j
      then do { endname \<leftarrow> idx (cf_endnames cfg ! j) (int i); connect_in (set_enabled cfg endname True) i js }
      else connect_in cfg i js)"

definition connect :: "('c, 'o, 'v, 'b) config \<Rightarrow> nat \<Rightarrow> ('c, 'o, 'v, 'b) config option" where
  "connect cfg i = do {
     let cfg = cfg\<lparr>cf_connected := (cf_connected cfg)[i := True]\<rparr>;
     cfg \<leftarrow> connect_out cfg i [0..<cf_n cfg];
     connect_in cfg i [0..<cf_n cfg]
   }"

fun disconnect_out :: "('c, 'o, 'v, 'b) config \<Rightarrow> nat \<Rightarrow> nat list \<Rightarrow> ('c, 'o, 'v, 'b) config option" where
  "disconnect_out cfg i [] = Some cfg"
| "disconnect_out cfg i (j # js) =
     (if cf_endnames cfg ! i \<noteq> []
      then do { endname \<leftarrow> idx (cf_endnames cfg ! i) (int j); disconnect_out (set_enabled cfg endname False) i js }
      else disconnect_out cfg i js)"

fun disconnect_in :: "('c, 'o, 'v, 'b) config \<Rightarrow> nat \<Rightarrow> nat list \<Rightarrow> ('c, 'o, 'v, 'b) config option" where
  "disconnect_in cfg i [] = Some cfg"
| "disconnect_in cfg i (j # js) =
     (if cf_endnames cfg ! j \<noteq> []
      then do { endname \<leftarrow> idx (cf_endnames cfg ! j) (int i); disconnect_in (set_enabled cfg endname False) i js }
      else disconnect_in cfg i js)"

definition disconnect :: "('c, 'o, 'v, 'b) config \<Rightarrow> nat \<Rightarrow> ('c, 'o, 'v, 'b) config option" where
  "disconnect cfg i = do {
     let cfg = cfg\<lparr>cf_connected := (cf_connected cfg)[i := False]\<rparr>;
     cfg \<leftarrow> disconnect_out cfg i [0..<cf_n cfg];
     disconnect_in cfg i [0..<cf_n cfg]
   }"

section \<open>What the appliers check\<close>

definition checkLogs ::
  "('c, 'o, 'v, 'b) config \<Rightarrow> nat \<Rightarrow> ('c, 'c item) ApplyMsg \<Rightarrow> ('c, 'o, 'v, 'b) config \<times> 'c apply_err \<times> bool" where
  "checkLogs cfg i m =
     (let v = Command m;
          err = fold (\<lambda>j err. case (cf_logs cfg ! j) (CommandIndex m) of
                    Some old \<Rightarrow> if old \<noteq> v then Differs (CommandIndex m) i v j old else err
                  | None \<Rightarrow> err) [0..<length (cf_logs cfg)] NoErr;
          prevok = ((cf_logs cfg ! i) (CommandIndex m - 1) \<noteq> None);
          cfg = cfg\<lparr>cf_logs := (cf_logs cfg)[i := (cf_logs cfg ! i)(CommandIndex m \<mapsto> v)]\<rparr>;
          cfg = (if CommandIndex m > cf_maxIndex cfg then cfg\<lparr>cf_maxIndex := CommandIndex m\<rparr> else cfg)
      in (cfg, err, prevok))"

text \<open>One message that the applier of server \<open>i\<close> reads from its channel.\<close>

definition applier_recv ::
  "('c, 'o, 'v, 'b) config \<Rightarrow> nat \<Rightarrow> ('c, 'c item) ApplyMsg \<Rightarrow> ('c, ('c, 'o, 'v, 'b) config) verdict" where
  "applier_recv cfg i m =
     (if \<not> CommandValid m then Pass cfg
      else
        (let (cfg, err, prevok) = checkLogs cfg i m;
             err = (if CommandIndex m > 1 \<and> \<not> prevok then OutOfOrder i (CommandIndex m) else err)
         in if err \<noteq> NoErr then Fatal (ApplyError err) else Pass cfg))"

definition ingestSnap ::
  "('c, 'o, 'v, 'b) config \<Rightarrow> nat \<Rightarrow> 'c item list \<Rightarrow> int \<Rightarrow> ('c, ('c, 'o, 'v, 'b) config \<times> 'c apply_err) verdict" where
  "ingestSnap cfg i snap index =
     (case snap of
        [] \<Rightarrow> Fatal NilSnapshot
      | IInt lastIncludedIndex # ILog xlog # _ \<Rightarrow>
          (if index \<noteq> -1 \<and> index \<noteq> lastIncludedIndex then Pass (cfg, IndexMismatch i)
           else Pass (cfg\<lparr>cf_logs := (cf_logs cfg)[i := fold (\<lambda>j f. f(int j \<mapsto> xlog ! j)) [0..<length xlog] Map.empty],
                  cf_lastApplied := (cf_lastApplied cfg)[i := lastIncludedIndex]\<rparr>, NoErr))
      | _ \<Rightarrow> Fatal SnapshotDecode)"

definition SnapShotInterval :: int where
  "SnapShotInterval = 10"

text \<open>The log that a snapshot at an index holds; a missing entry reads as nil.\<close>

definition xlog_upto :: "('c, 'o, 'v, 'b) config \<Rightarrow> nat \<Rightarrow> int \<Rightarrow> 'c option list" where
  "xlog_upto cfg i index = map (\<lambda>j. case (cf_logs cfg ! i) j of Some v \<Rightarrow> v | None \<Rightarrow> None) [0..index]"

text \<open>One message that the snapshotting applier of server \<open>i\<close> reads; \<open>rf\<close> is the peer it serves.\<close>

definition applierSnap_recv ::
  "('c, 'o, 'v, 'b) config \<Rightarrow> ('c, 'c item) raft \<Rightarrow> nat \<Rightarrow> ('c, 'c item) ApplyMsg \<Rightarrow>
   ('c, ('c, 'o, 'v, 'b) config \<times> ('c, 'c item) raft) verdict" where
  "applierSnap_recv cfg rf i m =
     (let check = (\<lambda>(cfg, rf, err). if err \<noteq> NoErr then Fatal (ApplyError err) else Pass (cfg, rf))
      in if SnapshotValid m
      then vbind (unnil (CondInstallSnapshot rf (SnapshotTerm m) (SnapshotIndex m) (Snapshot_data m)))
        (\<lambda>(rf, ok). if ok
           then vbind (ingestSnap cfg i (Snapshot_data m) (SnapshotIndex m)) (\<lambda>(cfg, err). check (cfg, rf, err))
           else check (cfg, rf, NoErr))
      else if CommandValid m
      then
        (let err = (if CommandIndex m \<noteq> cf_lastApplied cfg ! i + 1
               then Expected i (cf_lastApplied cfg ! i + 1) (CommandIndex m) else NoErr);
             (cfg, err) = (if err = NoErr
               then (let (cfg, err, prevok) = checkLogs cfg i m
                     in (cfg, if CommandIndex m > 1 \<and> \<not> prevok then OutOfOrder i (CommandIndex m) else err))
               else (cfg, err));
             cfg = cfg\<lparr>cf_lastApplied := (cf_lastApplied cfg)[i := CommandIndex m]\<rparr>
         in if (CommandIndex m + 1) mod SnapShotInterval = 0
            then vbind (unnil (Snapshot rf (CommandIndex m) [IInt (CommandIndex m), ILog (xlog_upto cfg i (CommandIndex m))]))
              (\<lambda>rf. check (cfg, rf, err))
            else check (cfg, rf, err))
      else check (cfg, rf, NoErr))"

section \<open>Crashing and starting servers\<close>

text \<open>
  \<open>saved[i]\<close> points to the persister that the running peer writes to, so its content is the
  peer's.
\<close>

definition saved_now :: "('c, 'o, 'v, 'b) config \<Rightarrow> nat \<Rightarrow> ('c, 'c item) persister option" where
  "saved_now cfg i = (case cf_rafts cfg ! i of Some rf \<Rightarrow> Some (persister rf) | None \<Rightarrow> cf_saved cfg ! i)"

definition crash1 :: "('c, 'o, 'v, 'b) config \<Rightarrow> nat \<Rightarrow> ('c, 'o, 'v, 'b) config option" where
  "crash1 cfg i = do {
     cfg \<leftarrow> disconnect cfg i;
     let cfg = cfg\<lparr>cf_net := DeleteServer (cf_net cfg) (server_key i)\<rparr>;
     let cfg = cfg\<lparr>cf_saved := (cf_saved cfg)[i := map_option Copy (saved_now cfg i)]\<rparr>;
     let cfg = cfg\<lparr>cf_rafts := (cf_rafts cfg)[i := None]\<rparr>;
     Some (cfg\<lparr>cf_saved := (cf_saved cfg)[i := map_option
       (\<lambda>ps. SaveStateAndSnapshot MakePersister (ReadRaftState ps) (ReadSnapshot ps)) (cf_saved cfg ! i)]\<rparr>)
   }"

text \<open>A fresh end for every server; a name that is taken ends the program.\<close>

fun make_ends :: "('c, 'o, 'v, 'b) config \<Rightarrow> nat \<Rightarrow> nat list \<Rightarrow> ('c, 'o, 'v, 'b) config option" where
  "make_ends cfg i [] = Some cfg"
| "make_ends cfg i (j # js) = do {
     endname \<leftarrow> idx (cf_endnames cfg ! i) (int j);
     (rn, e) \<leftarrow> MakeEnd (cf_net cfg) endname;
     make_ends (cfg\<lparr>cf_net := Connect rn endname (server_key j)\<rparr>) i js
   }"

text \<open>The persister a starting server gets: a copy of the saved one, whose snapshot is taken in at once.\<close>

definition restore ::
  "('c, 'o, 'v, 'b) config \<Rightarrow> nat \<Rightarrow> ('c, ('c, 'o, 'v, 'b) config \<times> ('c, 'c item) persister) verdict" where
  "restore cfg i =
     (case cf_saved cfg ! i of
        Some ps \<Rightarrow>
          (let ps = Copy ps; cfg = cfg\<lparr>cf_saved := (cf_saved cfg)[i := Some ps]\<rparr>; snap = ReadSnapshot ps
           in if snap \<noteq> []
              then vbind (ingestSnap cfg i snap (-1)) (\<lambda>(cfg, err).
                if err \<noteq> NoErr then Fatal (ApplyError err) else Pass (cfg, ps))
              else Pass (cfg, ps))
      | None \<Rightarrow> Pass (cfg\<lparr>cf_saved := (cf_saved cfg)[i := Some MakePersister]\<rparr>, MakePersister))"

definition start1 ::
  "('c, 'o, 'v, 'b) config \<Rightarrow> nat \<Rightarrow> (nat \<Rightarrow> string) \<Rightarrow> 'o \<Rightarrow> ('o, 'v) reflect_method list \<Rightarrow>
   ('c, ('c, 'o, 'v, 'b) config) verdict" where
  "start1 cfg i names obj typ =
     vbind (unnil (crash1 cfg i)) (\<lambda>cfg.
     vbind (unnil (make_ends (cfg\<lparr>cf_endnames := (cf_endnames cfg)[i := map names [0..<cf_n cfg]]\<rparr>) i [0..<cf_n cfg])) (\<lambda>cfg.
     vbind (restore (cfg\<lparr>cf_lastApplied := (cf_lastApplied cfg)[i := 0]\<rparr>) i) (\<lambda>(cfg, ps).
     vbind (unnil (Make (cf_n cfg) i ps)) (\<lambda>rf.
       let net = cf_net cfg; svc = MakeService ''Raft'' (length (nw_objs net)) typ; srv = AddService MakeServer svc;
           net = net\<lparr>nw_objs := nw_objs net @ [obj], nw_srvs := nw_srvs net @ [srv]\<rparr>
       in Pass (cfg\<lparr>cf_rafts := (cf_rafts cfg)[i := Some rf],
            cf_net := AddServer net (server_key i) (length (nw_srvs net) - 1)\<rparr>)))))"

fun start_all ::
  "('c, 'o, 'v, 'b) config \<Rightarrow> (nat \<Rightarrow> nat \<Rightarrow> string) \<Rightarrow> 'o \<Rightarrow> ('o, 'v) reflect_method list \<Rightarrow> nat list \<Rightarrow>
   ('c, ('c, 'o, 'v, 'b) config) verdict" where
  "start_all cfg names obj typ [] = Pass cfg"
| "start_all cfg names obj typ (i # is) =
     vbind (start1 (cfg\<lparr>cf_logs := (cf_logs cfg)[i := Map.empty]\<rparr>) i (names i) obj typ) (\<lambda>cfg. start_all cfg names obj typ is)"

fun connect_all :: "('c, 'o, 'v, 'b) config \<Rightarrow> nat list \<Rightarrow> ('c, 'o, 'v, 'b) config option" where
  "connect_all cfg [] = Some cfg"
| "connect_all cfg (i # is) = do { cfg \<leftarrow> connect cfg i; connect_all cfg is }"

definition setunreliable :: "('c, 'o, 'v, 'b) config \<Rightarrow> bool \<Rightarrow> ('c, 'o, 'v, 'b) config" where
  "setunreliable cfg unrel = cfg\<lparr>cf_net := Reliable (cf_net cfg) (\<not> unrel)\<rparr>"

text \<open>The configuration before any server is started.\<close>

definition blank_config :: "nat \<Rightarrow> int \<Rightarrow> ('c, 'o, 'v, 'b) config" where
  "blank_config n now = \<lparr>cf_finished = False, cf_net = MakeNetwork, cf_n = n, cf_rafts = replicate n None,
     cf_applyErr = replicate n NoErr, cf_connected = replicate n False, cf_saved = replicate n None,
     cf_endnames = replicate n [], cf_logs = replicate n Map.empty, cf_lastApplied = replicate n 0,
     cf_start = now, cf_t0 = 0, cf_rpcs0 = 0, cf_cmds0 = 0, cf_bytes0 = 0, cf_maxIndex = 0, cf_maxIndex0 = 0\<rparr>"

definition make_config ::
  "nat \<Rightarrow> bool \<Rightarrow> int \<Rightarrow> (nat \<Rightarrow> nat \<Rightarrow> string) \<Rightarrow> 'o \<Rightarrow> ('o, 'v) reflect_method list \<Rightarrow>
   ('c, ('c, 'o, 'v, 'b) config) verdict" where
  "make_config n unreliable now names obj typ =
     (let cfg = setunreliable (blank_config n now) unreliable;
          cfg = cfg\<lparr>cf_net := LongDelays (cf_net cfg) True\<rparr>
      in vbind (start_all cfg names obj typ [0..<n]) (\<lambda>cfg. unnil (connect_all cfg [0..<n])))"

section \<open>The end of a test, statistics\<close>

definition checkTimeout :: "('c, 'o, 'v, 'b) config \<Rightarrow> bool \<Rightarrow> int \<Rightarrow> ('c, unit) verdict" where
  "checkTimeout cfg failed now =
     (if \<not> failed \<and> now - cf_start cfg > 120 * 1000000000 then Fatal Timeout else Pass ())"

definition checkFinished :: "('c, 'o, 'v, 'b) config \<Rightarrow> bool" where
  "checkFinished cfg = cf_finished cfg"

definition cleanup :: "('c, 'o, 'v, 'b) config \<Rightarrow> bool \<Rightarrow> int \<Rightarrow> ('c, ('c, 'o, 'v, 'b) config) verdict" where
  "cleanup cfg failed now =
     (let cfg = cfg\<lparr>cf_finished := True\<rparr>; cfg = cfg\<lparr>cf_rafts := map (map_option Kill) (cf_rafts cfg)\<rparr>
      in vbind (unnil (Cleanup (cf_net cfg))) (\<lambda>net.
         let cfg = cfg\<lparr>cf_net := net\<rparr> in vbind (checkTimeout cfg failed now) (\<lambda>_. Pass cfg)))"

definition rpcCount :: "('c, 'o, 'v, 'b) config \<Rightarrow> nat \<Rightarrow> int option" where
  "rpcCount cfg server = net_GetCount (cf_net cfg) (server_key server)"

definition rpcTotal :: "('c, 'o, 'v, 'b) config \<Rightarrow> int" where
  "rpcTotal cfg = GetTotalCount (cf_net cfg)"

definition bytesTotal :: "('c, 'o, 'v, 'b) config \<Rightarrow> int" where
  "bytesTotal cfg = GetTotalBytes (cf_net cfg)"

definition setlongreordering :: "('c, 'o, 'v, 'b) config \<Rightarrow> bool \<Rightarrow> ('c, 'o, 'v, 'b) config" where
  "setlongreordering cfg longrel = cfg\<lparr>cf_net := LongReordering (cf_net cfg) longrel\<rparr>"

definition begin_test :: "('c, 'o, 'v, 'b) config \<Rightarrow> int \<Rightarrow> ('c, 'o, 'v, 'b) config" where
  "begin_test cfg now = cfg\<lparr>cf_t0 := now, cf_rpcs0 := rpcTotal cfg, cf_bytes0 := bytesTotal cfg, cf_cmds0 := 0,
     cf_maxIndex0 := cf_maxIndex cfg\<rparr>"

text \<open>What the end of a test prints: time, peers, requests, bytes, agreements.\<close>

definition end_test :: "('c, 'o, 'v, 'b) config \<Rightarrow> bool \<Rightarrow> int \<Rightarrow> ('c, (int \<times> nat \<times> int \<times> int \<times> int) option) verdict" where
  "end_test cfg failed now = vbind (checkTimeout cfg failed now) (\<lambda>_.
     if \<not> failed
     then Pass (Some (now - cf_t0 cfg, cf_n cfg, rpcTotal cfg - cf_rpcs0 cfg, bytesTotal cfg - cf_bytes0 cfg,
            cf_maxIndex cfg - cf_maxIndex0 cfg))
     else Pass None)"

fun logsize_loop :: "('c gob list \<Rightarrow> int) \<Rightarrow> ('c, 'o, 'v, 'b) config \<Rightarrow> int \<Rightarrow> nat list \<Rightarrow> int option" where
  "logsize_loop bytes cfg logsize [] = Some logsize"
| "logsize_loop bytes cfg logsize (i # is) = do {
     ps \<leftarrow> saved_now cfg i;
     let n = RaftStateSize bytes ps;
     logsize_loop bytes cfg (if n > logsize then n else logsize) is
   }"

definition LogSize :: "('c gob list \<Rightarrow> int) \<Rightarrow> ('c, 'o, 'v, 'b) config \<Rightarrow> int option" where
  "LogSize bytes cfg = logsize_loop bytes cfg 0 [0..<cf_n cfg]"

section \<open>Checks of leaders and terms\<close>

text \<open>
  One look at the connected servers: \<open>g i\<close> is what \<open>GetState\<close> answers for server \<open>i\<close>. The
  servers that claim to lead are collected by term.
\<close>

fun collect_leaders :: "('c, 'o, 'v, 'b) config \<Rightarrow> (nat \<Rightarrow> int \<times> bool) \<Rightarrow> nat list \<Rightarrow> (int \<times> nat list) list \<Rightarrow> (int \<times> nat list) list" where
  "collect_leaders cfg g [] leaders = leaders"
| "collect_leaders cfg g (i # is) leaders = collect_leaders cfg g is
     (if cf_connected cfg ! i
      then (let (term, leader) = g i in
        if leader then AList.update term ((case map_of leaders term of Some l \<Rightarrow> l | None \<Rightarrow> []) @ [i]) leaders else leaders)
      else leaders)"

fun scan_leaders :: "(int \<times> nat list) list \<Rightarrow> int \<Rightarrow> ('c, int) verdict" where
  "scan_leaders [] lastTermWithLeader = Pass lastTermWithLeader"
| "scan_leaders ((term, leaders) # rest) lastTermWithLeader =
     (if length leaders > 1 then Fatal (TwoLeaders term (length leaders))
      else scan_leaders rest (if term > lastTermWithLeader then term else lastTermWithLeader))"

text \<open>
  The retries: one look per element of the list (the code makes ten, half a second apart). The
  function \<open>ord\<close> is the order in which Go happens to visit the map.
\<close>

fun checkOneLeader ::
  "('c, 'o, 'v, 'b) config \<Rightarrow> ((int \<times> nat list) list \<Rightarrow> (int \<times> nat list) list) \<Rightarrow> (nat \<Rightarrow> int \<times> bool) list \<Rightarrow> ('c, nat) verdict" where
  "checkOneLeader cfg ord [] = Fatal NoLeader"
| "checkOneLeader cfg ord (g # gs) =
     (let leaders = collect_leaders cfg g [0..<cf_n cfg] [] in
      vbind (scan_leaders (ord leaders) (-1)) (\<lambda>lastTermWithLeader.
        if leaders \<noteq> []
        then (case map_of leaders lastTermWithLeader of Some (l # _) \<Rightarrow> Pass l | _ \<Rightarrow> Fatal GoPanic)
        else checkOneLeader cfg ord gs))"

fun terms_loop :: "('c, 'o, 'v, 'b) config \<Rightarrow> (nat \<Rightarrow> int \<times> bool) \<Rightarrow> int \<Rightarrow> nat list \<Rightarrow> ('c, int) verdict" where
  "terms_loop cfg g term [] = Pass term"
| "terms_loop cfg g term (i # is) =
     (if cf_connected cfg ! i
      then (let (xterm, _) = g i in
        if term = -1 then terms_loop cfg g xterm is
        else if term \<noteq> xterm then Fatal TermsDiffer else terms_loop cfg g term is)
      else terms_loop cfg g term is)"

definition checkTerms :: "('c, 'o, 'v, 'b) config \<Rightarrow> (nat \<Rightarrow> int \<times> bool) \<Rightarrow> ('c, int) verdict" where
  "checkTerms cfg g = terms_loop cfg g (-1) [0..<cf_n cfg]"

fun noleader_loop :: "('c, 'o, 'v, 'b) config \<Rightarrow> (nat \<Rightarrow> int \<times> bool) \<Rightarrow> nat list \<Rightarrow> ('c, unit) verdict" where
  "noleader_loop cfg g [] = Pass ()"
| "noleader_loop cfg g (i # is) =
     (if cf_connected cfg ! i \<and> snd (g i) then Fatal (UnexpectedLeader i) else noleader_loop cfg g is)"

definition checkNoLeader :: "('c, 'o, 'v, 'b) config \<Rightarrow> (nat \<Rightarrow> int \<times> bool) \<Rightarrow> ('c, unit) verdict" where
  "checkNoLeader cfg g = noleader_loop cfg g [0..<cf_n cfg]"

section \<open>Checks of agreement\<close>

text \<open>What is read of the servers' committed entries, one server after the other.\<close>

type_synonym 'c reading = "'c apply_err \<times> (int \<rightharpoonup> 'c option)"

fun committed_loop :: "int \<Rightarrow> nat \<Rightarrow> 'c option \<Rightarrow> 'c reading list \<Rightarrow> ('c, nat \<times> 'c option) verdict" where
  "committed_loop index count cmd [] = Pass (count, cmd)"
| "committed_loop index count cmd ((err, lg) # rest) =
     (if err \<noteq> NoErr then Fatal (ApplyError err)
      else case lg index of
        Some cmd1 \<Rightarrow>
          (if count > 0 \<and> cmd \<noteq> cmd1 then Fatal (ValuesDiffer index cmd cmd1)
           else committed_loop index (count + 1) cmd1 rest)
      | None \<Rightarrow> committed_loop index count cmd rest)"

definition nCommitted :: "'c reading list \<Rightarrow> int \<Rightarrow> ('c, nat \<times> 'c option) verdict" where
  "nCommitted rds index = committed_loop index 0 None rds"

text \<open>Has a server moved to a later term? A crashed server cannot be asked.\<close>

fun moved_on :: "int \<Rightarrow> int option list \<Rightarrow> ('c, bool) verdict" where
  "moved_on startTerm [] = Pass False"
| "moved_on startTerm (None # ts) = Fatal GoPanic"
| "moved_on startTerm (Some t # ts) = (if t > startTerm then Pass True else moved_on startTerm ts)"

text \<open>
  \<open>wait\<close>: one element of \<open>obs\<close> per iteration (thirty in the code), what it reads of the logs and
  then of the terms; \<open>final\<close> is the last reading. It returns a command, or nothing (the code's
  \<open>-1\<close>) when a server has moved on.
\<close>

fun wait_loop :: "int \<Rightarrow> nat \<Rightarrow> int \<Rightarrow> ('c reading list \<times> int option list) list \<Rightarrow> ('c, bool) verdict" where
  "wait_loop index n startTerm [] = Pass True"
| "wait_loop index n startTerm ((rds, ts) # obs) = vbind (nCommitted rds index) (\<lambda>(nd, _).
     if nd \<ge> n then Pass True
     else if startTerm > -1
     then vbind (moved_on startTerm ts) (\<lambda>moved. if moved then Pass False else wait_loop index n startTerm obs)
     else wait_loop index n startTerm obs)"

definition wait :: "int \<Rightarrow> nat \<Rightarrow> int \<Rightarrow> ('c reading list \<times> int option list) list \<Rightarrow> 'c reading list \<Rightarrow> ('c, 'c option option) verdict" where
  "wait index n startTerm obs final = vbind (wait_loop index n startTerm obs) (\<lambda>go_on.
     if \<not> go_on then Pass None
     else vbind (nCommitted final index) (\<lambda>(nd, cmd).
       if nd < n then Fatal (TooFew nd index n) else Pass (Some cmd)))"

text \<open>
  \<open>one\<close>: in a round it offers the command to the servers in turn (\<open>st i\<close> is the answer of
  \<open>Start\<close> on server \<open>i\<close>, None when it is not connected) and then looks at the logs until time is
  up. A round also reads at its head whether the test is over.
\<close>

record 'c round =
  rd_finished :: bool
  rd_start :: "nat \<Rightarrow> (int \<times> int \<times> bool) option"
  rd_polls :: "'c reading list list"

fun offer :: "nat \<Rightarrow> (nat \<Rightarrow> (int \<times> int \<times> bool) option) \<Rightarrow> nat \<Rightarrow> nat \<Rightarrow> nat \<times> int" where
  "offer n st starts 0 = (starts, -1)"
| "offer n st starts (Suc k) =
     (let starts = (starts + 1) mod n in
      case st starts of
        Some (index1, _, True) \<Rightarrow> (starts, index1)
      | _ \<Rightarrow> offer n st starts k)"

fun poll :: "int \<Rightarrow> 'c \<Rightarrow> nat \<Rightarrow> 'c reading list list \<Rightarrow> ('c, bool) verdict" where
  "poll index cmd expectedServers [] = Pass False"
| "poll index cmd expectedServers (rds # rest) = vbind (nCommitted rds index) (\<lambda>(nd, cmd1).
     if nd > 0 \<and> nd \<ge> expectedServers \<and> cmd1 = Some cmd then Pass True
     else poll index cmd expectedServers rest)"

fun one_loop :: "nat \<Rightarrow> 'c \<Rightarrow> nat \<Rightarrow> bool \<Rightarrow> nat \<Rightarrow> 'c round list \<Rightarrow> bool \<Rightarrow> ('c, int) verdict" where
  "one_loop n cmd expectedServers retry starts [] over = (if \<not> over then Fatal NoAgreement else Pass (-1))"
| "one_loop n cmd expectedServers retry starts (r # rs) over =
     (if rd_finished r then (if \<not> over then Fatal NoAgreement else Pass (-1))
      else
        (let (starts, index) = offer n (rd_start r) starts n in
         if index \<noteq> -1
         then vbind (poll index cmd expectedServers (rd_polls r)) (\<lambda>agreed.
           if agreed then Pass index
           else if \<not> retry then Fatal NoAgreement
           else one_loop n cmd expectedServers retry starts rs over)
         else one_loop n cmd expectedServers retry starts rs over))"

definition one :: "('c, 'o, 'v, 'b) config \<Rightarrow> 'c \<Rightarrow> nat \<Rightarrow> bool \<Rightarrow> 'c round list \<Rightarrow> bool \<Rightarrow> ('c, int) verdict" where
  "one cfg cmd expectedServers retry rounds over = one_loop (cf_n cfg) cmd expectedServers retry 0 rounds over"

end
