(* ===== verification/Raft_Wiring.thy ===== *)
theory Raft_Wiring
  imports Raft_Config
begin

text \<open>
  What the harness makes of the network. At every moment exactly the ends between two connected
  servers are enabled, those of their current incarnations: a disconnected server can neither
  send nor receive, and an end of an incarnation that was crashed is never enabled again.
\<close>

section \<open>Enabling and disabling ends\<close>

lemma is_enabled_Enable [simp]: "is_enabled (Enable rn e yes) x = (if x = e then yes else is_enabled rn x)"
  by (simp add: is_enabled_def Enable_def)

lemma Enable_fields [simp]:
  "nw_ends (Enable rn e yes) = nw_ends rn" "nw_connections (Enable rn e yes) = nw_connections rn"
  "nw_servers (Enable rn e yes) = nw_servers rn"
  by (simp_all add: Enable_def)

lemma set_enabled_fields [simp]:
  "cf_net (set_enabled cfg e yes) = Enable (cf_net cfg) e yes" "cf_connected (set_enabled cfg e yes) = cf_connected cfg"
  "cf_endnames (set_enabled cfg e yes) = cf_endnames cfg" "cf_n (set_enabled cfg e yes) = cf_n cfg"
  by (simp_all add: set_enabled_def)

text \<open>The configurations differ only in which ends are enabled.\<close>

definition rewired :: "('c, 'o, 'v, 'b) config \<Rightarrow> ('c, 'o, 'v, 'b) config \<Rightarrow> bool" where
  "rewired cfg cfg' \<longleftrightarrow> cf_connected cfg' = cf_connected cfg \<and> cf_endnames cfg' = cf_endnames cfg \<and> cf_n cfg' = cf_n cfg \<and>
     nw_ends (cf_net cfg') = nw_ends (cf_net cfg) \<and> nw_connections (cf_net cfg') = nw_connections (cf_net cfg) \<and>
     cf_rafts cfg' = cf_rafts cfg \<and> cf_saved cfg' = cf_saved cfg \<and> cf_logs cfg' = cf_logs cfg \<and> cf_lastApplied cfg' = cf_lastApplied cfg"

lemma rewired_set_enabled: "rewired (set_enabled cfg e yes) cfg' \<Longrightarrow> rewired cfg cfg'"
  by (simp add: rewired_def set_enabled_def)

lemma connect_out_spec:
  assumes "connect_out cfg i js = Some cfg'"
  shows "rewired cfg cfg'"
    "is_enabled (cf_net cfg') x \<longleftrightarrow> is_enabled (cf_net cfg) x \<or> (\<exists>j\<in>set js. cf_connected cfg ! j \<and> x = cf_endnames cfg ! i ! j)"
  using assms
  by (induction cfg i js rule: connect_out.induct)
    (auto simp: bind_Some_iff idx_Some_iff split: if_splits dest: rewired_set_enabled, simp_all add: rewired_def)

lemma connect_in_spec:
  assumes "connect_in cfg i js = Some cfg'"
  shows "rewired cfg cfg'"
    "is_enabled (cf_net cfg') x \<longleftrightarrow> is_enabled (cf_net cfg) x \<or> (\<exists>j\<in>set js. cf_connected cfg ! j \<and> x = cf_endnames cfg ! j ! i)"
  using assms
  by (induction cfg i js rule: connect_in.induct)
    (auto simp: bind_Some_iff idx_Some_iff split: if_splits dest: rewired_set_enabled, simp_all add: rewired_def)

lemma disconnect_out_spec:
  assumes "disconnect_out cfg i js = Some cfg'"
  shows "rewired cfg cfg'"
    "is_enabled (cf_net cfg') x \<longleftrightarrow> is_enabled (cf_net cfg) x \<and> \<not> (\<exists>j\<in>set js. cf_endnames cfg ! i \<noteq> [] \<and> x = cf_endnames cfg ! i ! j)"
  using assms
  by (induction cfg i js rule: disconnect_out.induct)
    (auto simp: bind_Some_iff idx_Some_iff split: if_splits dest: rewired_set_enabled, simp_all add: rewired_def)

lemma disconnect_in_spec:
  assumes "disconnect_in cfg i js = Some cfg'"
  shows "rewired cfg cfg'"
    "is_enabled (cf_net cfg') x \<longleftrightarrow> is_enabled (cf_net cfg) x \<and> \<not> (\<exists>j\<in>set js. cf_endnames cfg ! j \<noteq> [] \<and> x = cf_endnames cfg ! j ! i)"
  using assms
  by (induction cfg i js rule: disconnect_in.induct)
    (auto simp: bind_Some_iff idx_Some_iff split: if_splits dest: rewired_set_enabled, simp_all add: rewired_def)

lemma rewired_trans: "rewired cfg cfg' \<Longrightarrow> rewired cfg' cfg'' \<Longrightarrow> rewired cfg cfg''"
  by (simp add: rewired_def)

lemma connect_spec:
  assumes "connect cfg i = Some cfg'"
  shows "rewired (cfg\<lparr>cf_connected := (cf_connected cfg)[i := True]\<rparr>) cfg'"
    "is_enabled (cf_net cfg') x \<longleftrightarrow> is_enabled (cf_net cfg) x \<or>
      (\<exists>j<cf_n cfg. (cf_connected cfg)[i := True] ! j \<and> (x = cf_endnames cfg ! i ! j \<or> x = cf_endnames cfg ! j ! i))"
proof -
  let ?c = "cfg\<lparr>cf_connected := (cf_connected cfg)[i := True]\<rparr>"
  from assms obtain c1 where c: "connect_out ?c i [0..<cf_n cfg] = Some c1" "connect_in c1 i [0..<cf_n c1] = Some cfg'"
    by (auto simp: connect_def bind_Some_iff)
  note o = connect_out_spec [OF c(1)] and n = connect_in_spec [OF c(2)]
  have f: "cf_connected c1 = (cf_connected cfg)[i := True]" "cf_endnames c1 = cf_endnames cfg" "cf_n c1 = cf_n cfg"
    using o(1) by (simp_all add: rewired_def)
  show "rewired ?c cfg'" using rewired_trans [OF o(1) n(1)] .
  show "is_enabled (cf_net cfg') x \<longleftrightarrow> is_enabled (cf_net cfg) x \<or>
      (\<exists>j<cf_n cfg. (cf_connected cfg)[i := True] ! j \<and> (x = cf_endnames cfg ! i ! j \<or> x = cf_endnames cfg ! j ! i))"
    unfolding n(2) o(2) f by auto
qed

lemma disconnect_spec:
  assumes "disconnect cfg i = Some cfg'"
  shows "rewired (cfg\<lparr>cf_connected := (cf_connected cfg)[i := False]\<rparr>) cfg'"
    "is_enabled (cf_net cfg') x \<longleftrightarrow> is_enabled (cf_net cfg) x \<and>
      \<not> (\<exists>j<cf_n cfg. cf_endnames cfg ! i \<noteq> [] \<and> x = cf_endnames cfg ! i ! j \<or> cf_endnames cfg ! j \<noteq> [] \<and> x = cf_endnames cfg ! j ! i)"
proof -
  let ?c = "cfg\<lparr>cf_connected := (cf_connected cfg)[i := False]\<rparr>"
  from assms obtain c1 where c: "disconnect_out ?c i [0..<cf_n cfg] = Some c1" "disconnect_in c1 i [0..<cf_n c1] = Some cfg'"
    by (auto simp: disconnect_def bind_Some_iff)
  note o = disconnect_out_spec [OF c(1)] and n = disconnect_in_spec [OF c(2)]
  have f: "cf_endnames c1 = cf_endnames cfg" "cf_n c1 = cf_n cfg" using o(1) by (simp_all add: rewired_def)
  show "rewired ?c cfg'" using rewired_trans [OF o(1) n(1)] .
  show "is_enabled (cf_net cfg') x \<longleftrightarrow> is_enabled (cf_net cfg) x \<and>
      \<not> (\<exists>j<cf_n cfg. cf_endnames cfg ! i \<noteq> [] \<and> x = cf_endnames cfg ! i ! j \<or> cf_endnames cfg ! j \<noteq> [] \<and> x = cf_endnames cfg ! j ! i)"
    unfolding n(2) o(2) f by auto
qed

section \<open>The invariant of the harness\<close>

definition wired :: "('c, 'o, 'v, 'b) config \<Rightarrow> bool" where
  "wired cfg \<longleftrightarrow> length (cf_connected cfg) = cf_n cfg \<and> length (cf_endnames cfg) = cf_n cfg \<and>
     (\<forall>i<cf_n cfg. cf_endnames cfg ! i = [] \<or> length (cf_endnames cfg ! i) = cf_n cfg) \<and>
     (\<forall>i<cf_n cfg. cf_connected cfg ! i \<longrightarrow> cf_endnames cfg ! i \<noteq> []) \<and>
     distinct (concat (cf_endnames cfg)) \<and>
     (\<forall>i<cf_n cfg. cf_endnames cfg ! i \<noteq> [] \<longrightarrow> (\<forall>j<cf_n cfg. nw_ends (cf_net cfg) (cf_endnames cfg ! i ! j) \<noteq> None \<and>
        nw_connections (cf_net cfg) (cf_endnames cfg ! i ! j) = Some (server_key j))) \<and>
     (\<forall>x. is_enabled (cf_net cfg) x \<longleftrightarrow> (\<exists>i<cf_n cfg. \<exists>j<cf_n cfg. cf_connected cfg ! i \<and> cf_connected cfg ! j \<and> x = cf_endnames cfg ! i ! j))"

lemma wiredD:
  assumes "wired cfg"
  shows "length (cf_connected cfg) = cf_n cfg" "length (cf_endnames cfg) = cf_n cfg"
    "i < cf_n cfg \<Longrightarrow> cf_endnames cfg ! i \<noteq> [] \<Longrightarrow> length (cf_endnames cfg ! i) = cf_n cfg"
    "i < cf_n cfg \<Longrightarrow> cf_connected cfg ! i \<Longrightarrow> cf_endnames cfg ! i \<noteq> []" "distinct (concat (cf_endnames cfg))"
    "i < cf_n cfg \<Longrightarrow> cf_endnames cfg ! i \<noteq> [] \<Longrightarrow> j < cf_n cfg \<Longrightarrow> nw_ends (cf_net cfg) (cf_endnames cfg ! i ! j) \<noteq> None"
    "i < cf_n cfg \<Longrightarrow> cf_endnames cfg ! i \<noteq> [] \<Longrightarrow> j < cf_n cfg \<Longrightarrow>
       nw_connections (cf_net cfg) (cf_endnames cfg ! i ! j) = Some (server_key j)"
    "is_enabled (cf_net cfg) x \<longleftrightarrow> (\<exists>i<cf_n cfg. \<exists>j<cf_n cfg. cf_connected cfg ! i \<and> cf_connected cfg ! j \<and> x = cf_endnames cfg ! i ! j)"
  using assms unfolding wired_def by blast+

lemma concat_nth_inj:
  assumes "distinct (concat xss)" "a < length xss" "c < length xss" "b < length (xss ! a)" "d < length (xss ! c)" "xss ! a ! b = xss ! c ! d"
  shows "a = c \<and> b = d"
proof -
  have "a = c"
  proof (rule ccontr)
    assume ne: "a \<noteq> c"
    have "set (xss ! a) \<inter> set (xss ! c) = {}"
      using assms(1-3) ne
    proof (induction xss arbitrary: a c)
      case (Cons xs xss)
      have m: "set ((xs # xss) ! Suc k) \<subseteq> set (concat xss)" if "Suc k < length (xs # xss)" for k using that by (auto intro!: nth_mem)
      show ?case
      proof (cases a; cases c)
        fix k assume "a = 0" "c = Suc k"
        with Cons.prems(1,3) m [of k] show ?thesis by auto
      next
        fix k assume "a = Suc k" "c = 0"
        with Cons.prems(1,2) m [of k] show ?thesis by auto
      next
        fix k l assume "a = Suc k" "c = Suc l"
        with Cons.prems Cons.IH [of k l] show ?thesis by simp
      qed (use Cons.prems in simp)
    qed simp
    with assms(4-6) show False using nth_mem by (metis disjoint_iff)
  qed
  moreover have "distinct (xss ! a)" using assms(1,2) by (simp add: distinct_concat_iff)
  ultimately show ?thesis using assms(4-6) nth_eq_iff_index_eq by blast
qed

lemma names_inj:
  assumes w: "wired cfg" and n: "a < cf_n cfg" "b < cf_n cfg" "c < cf_n cfg" "d < cf_n cfg" "cf_endnames cfg ! a \<noteq> []" "cf_endnames cfg ! c \<noteq> []"
    and e: "cf_endnames cfg ! a ! b = cf_endnames cfg ! c ! d"
  shows "a = c \<and> b = d"
  using concat_nth_inj [OF wiredD(5) [OF w], of a c b d] wiredD(2,3) [OF w] n e by simp

lemma connect_wired:
  assumes w: "wired cfg" and i: "i < cf_n cfg" and c: "connect cfg i = Some cfg'"
  shows "wired cfg'"
proof -
  note s = connect_spec [OF c]
  let ?C = "(cf_connected cfg)[i := True]" and ?E = "cf_endnames cfg" and ?n = "cf_n cfg"
  have f: "cf_connected cfg' = ?C" "cf_endnames cfg' = ?E" "cf_n cfg' = ?n" "nw_ends (cf_net cfg') = nw_ends (cf_net cfg)"
    "nw_connections (cf_net cfg') = nw_connections (cf_net cfg)" using s(1) by (simp_all add: rewired_def)
  have "?E ! i \<noteq> []"
  proof
    assume e: "?E ! i = []"
    from c obtain c1 where "connect_out (cfg\<lparr>cf_connected := ?C\<rparr>) i [0..<?n] = Some c1" by (auto simp: connect_def bind_Some_iff)
    moreover have "connect_out cf i js = None" if "cf_endnames cf ! i = []" "cf_connected cf ! i" "i \<in> set js" for cf :: "('a, 'b, 'c, 'd) config" and js
      using that by (induction cf i js rule: connect_out.induct) (auto simp: idx_def split: Option.bind_splits)
    ultimately show False using e i wiredD(1) [OF w] by (metis (no_types, lifting) atLeastLessThan_iff config.select_convs(6,8)
          config.surjective config.update_convs(6) nth_list_update_eq option.distinct(1) set_upt zero_le)
  qed
  moreover have "is_enabled (cf_net cfg') x \<longleftrightarrow> (\<exists>a<?n. \<exists>b<?n. ?C ! a \<and> ?C ! b \<and> x = ?E ! a ! b)" for x
    unfolding s(2) wiredD(8) [OF w] using i wiredD(1) [OF w] by (auto simp: nth_list_update) metis+
  ultimately show ?thesis
    unfolding wired_def f using wiredD(1-7) [OF w] i by (auto simp: nth_list_update)
qed

lemma disconnect_wired:
  assumes w: "wired cfg" and i: "i < cf_n cfg" and c: "disconnect cfg i = Some cfg'"
  shows "wired cfg'" "\<not> cf_connected cfg' ! i"
proof -
  note s = disconnect_spec [OF c]
  let ?C = "(cf_connected cfg)[i := False]" and ?E = "cf_endnames cfg" and ?n = "cf_n cfg"
  have f: "cf_connected cfg' = ?C" "cf_endnames cfg' = ?E" "cf_n cfg' = ?n" "nw_ends (cf_net cfg') = nw_ends (cf_net cfg)"
    "nw_connections (cf_net cfg') = nw_connections (cf_net cfg)" using s(1) by (simp_all add: rewired_def)
  have "is_enabled (cf_net cfg') x \<longleftrightarrow> (\<exists>a<?n. \<exists>b<?n. ?C ! a \<and> ?C ! b \<and> x = ?E ! a ! b)" for x
  proof
    assume "is_enabled (cf_net cfg') x"
    with s(2) [of x] wiredD(8) [OF w, of x] obtain a b where ab: "a < ?n" "b < ?n" "cf_connected cfg ! a" "cf_connected cfg ! b"
      "x = ?E ! a ! b" by blast
    with s(2) [of x] \<open>is_enabled (cf_net cfg') x\<close> wiredD(4) [OF w] have "a \<noteq> i" "b \<noteq> i" by blast+
    with ab show "\<exists>a<?n. \<exists>b<?n. ?C ! a \<and> ?C ! b \<and> x = ?E ! a ! b"
      by (intro exI [of _ a] conjI exI [of _ b]) simp_all
  next
    assume "\<exists>a<?n. \<exists>b<?n. ?C ! a \<and> ?C ! b \<and> x = ?E ! a ! b"
    then obtain a b where ab: "a < ?n" "b < ?n" "a \<noteq> i" "b \<noteq> i" "cf_connected cfg ! a" "cf_connected cfg ! b" "x = ?E ! a ! b"
      using i wiredD(1) [OF w] by (auto simp: nth_list_update split: if_splits)
    have "\<not> (?E ! i \<noteq> [] \<and> x = ?E ! i ! j \<or> ?E ! j \<noteq> [] \<and> x = ?E ! j ! i)" if "j < ?n" for j
      using names_inj [OF w ab(1,2) i that] names_inj [OF w ab(1,2) that i] wiredD(4) [OF w ab(1,5)] ab by metis
    with ab s(2) [of x] wiredD(8) [OF w, of x] show "is_enabled (cf_net cfg') x" by blast
  qed
  then show "wired cfg'" unfolding wired_def f using wiredD(1-7) [OF w] i by (auto simp: nth_list_update)
  show "\<not> cf_connected cfg' ! i" using f(1) wiredD(1) [OF w] i by simp
qed

lemma crash1_wired:
  assumes w: "wired cfg" and i: "i < cf_n cfg" and c: "crash1 cfg i = Some cfg'"
  shows "wired cfg'" "\<not> cf_connected cfg' ! i" "cf_n cfg' = cf_n cfg"
proof -
  from c obtain c1 where c1: "disconnect cfg i = Some c1"
    "cf_net cfg' = DeleteServer (cf_net c1) (server_key i)" "cf_connected cfg' = cf_connected c1" "cf_endnames cfg' = cf_endnames c1" "cf_n cfg' = cf_n c1"
    by (auto simp: crash1_def bind_Some_iff Let_def)
  have "cf_n c1 = cf_n cfg" using disconnect_spec(1) [OF c1(1)] by (simp add: rewired_def)
  with disconnect_wired [OF w i c1(1)] c1(2-5) show "wired cfg'" "\<not> cf_connected cfg' ! i" "cf_n cfg' = cf_n cfg"
    by (simp_all add: wired_def DeleteServer_def is_enabled_def)
qed

text \<open>The new ends of a starting server: their names were free, and they are not enabled.\<close>

definition fresh_ends :: "('c, 'o, 'v, 'b) config \<Rightarrow> ('c, 'o, 'v, 'b) config \<Rightarrow> nat \<Rightarrow> nat list \<Rightarrow> bool" where
  "fresh_ends cfg cfg' i js \<longleftrightarrow>
     cf_connected cfg' = cf_connected cfg \<and> cf_endnames cfg' = cf_endnames cfg \<and> cf_n cfg' = cf_n cfg \<and> cf_logs cfg' = cf_logs cfg \<and>
     cf_rafts cfg' = cf_rafts cfg \<and> cf_saved cfg' = cf_saved cfg \<and> cf_lastApplied cfg' = cf_lastApplied cfg \<and>
     (\<forall>x. nw_ends (cf_net cfg) x \<noteq> None \<longrightarrow> nw_ends (cf_net cfg') x \<noteq> None \<and>
        nw_connections (cf_net cfg') x = nw_connections (cf_net cfg) x \<and> is_enabled (cf_net cfg') x = is_enabled (cf_net cfg) x) \<and>
     (\<forall>x. is_enabled (cf_net cfg') x \<longrightarrow> is_enabled (cf_net cfg) x) \<and>
     (\<forall>j\<in>set js. nw_ends (cf_net cfg) (cf_endnames cfg ! i ! j) = None \<and> nw_ends (cf_net cfg') (cf_endnames cfg ! i ! j) \<noteq> None \<and>
        nw_connections (cf_net cfg') (cf_endnames cfg ! i ! j) = Some (server_key j)) \<and>
     distinct (map (\<lambda>j. cf_endnames cfg ! i ! j) js)"

lemma fresh_endsD:
  assumes "fresh_ends cfg cfg' i js"
  shows "nw_ends (cf_net cfg) x \<noteq> None \<Longrightarrow> nw_ends (cf_net cfg') x \<noteq> None \<and>
        nw_connections (cf_net cfg') x = nw_connections (cf_net cfg) x \<and> is_enabled (cf_net cfg') x = is_enabled (cf_net cfg) x"
      "is_enabled (cf_net cfg') x \<Longrightarrow> is_enabled (cf_net cfg) x"
      "k \<in> set js \<Longrightarrow> nw_ends (cf_net cfg) (cf_endnames cfg ! i ! k) = None \<and> nw_ends (cf_net cfg') (cf_endnames cfg ! i ! k) \<noteq> None \<and>
        nw_connections (cf_net cfg') (cf_endnames cfg ! i ! k) = Some (server_key k)"
      "distinct (map (\<lambda>j. cf_endnames cfg ! i ! j) js)"
      "cf_connected cfg' = cf_connected cfg" "cf_endnames cfg' = cf_endnames cfg" "cf_n cfg' = cf_n cfg" "cf_logs cfg' = cf_logs cfg"
      "cf_rafts cfg' = cf_rafts cfg" "cf_saved cfg' = cf_saved cfg" "cf_lastApplied cfg' = cf_lastApplied cfg"
  using assms unfolding fresh_ends_def by blast+

lemma make_ends_fresh: "make_ends cfg i js = Some cfg' \<Longrightarrow> fresh_ends cfg cfg' i js"
proof (induction cfg i js rule: make_ends.induct)
  case (2 cfg i j js)
  let ?e = "cf_endnames cfg ! i ! j"
  from 2(2) obtain rn e where n: "idx (cf_endnames cfg ! i) (int j) = Some ?e" "MakeEnd (cf_net cfg) ?e = Some (rn, e)"
    "make_ends (cfg\<lparr>cf_net := Connect rn ?e (server_key j)\<rparr>) i js = Some cfg'"
    by (auto simp: bind_Some_iff idx_Some_iff)
  have rn: "nw_ends (cf_net cfg) ?e = None" "nw_ends rn = (nw_ends (cf_net cfg))(?e \<mapsto> e)"
    "nw_connections rn = (nw_connections (cf_net cfg))(?e := None)" "is_enabled rn x \<longleftrightarrow> x \<noteq> ?e \<and> is_enabled (cf_net cfg) x" for x
    using n(2) by (auto simp: MakeEnd_def is_enabled_def Let_def split: option.splits if_splits)
  define C where "C = Connect rn ?e (server_key j)"
  have C: "nw_ends C = (nw_ends (cf_net cfg))(?e \<mapsto> e)" "nw_connections C = (nw_connections (cf_net cfg))(?e \<mapsto> server_key j)"
    "is_enabled C x \<longleftrightarrow> x \<noteq> ?e \<and> is_enabled (cf_net cfg) x" for x
    using rn by (simp_all add: C_def Connect_def is_enabled_def)
  have "fresh_ends (cfg\<lparr>cf_net := C\<rparr>) cfg' i js" using 2(1) [OF n(1,2) refl n(3)] by (simp only: C_def)
  note ih = fresh_endsD [OF this, unfolded config.select_convs, simplified]
  have old: "nw_ends (cf_net cfg') x \<noteq> None \<and> nw_connections (cf_net cfg') x = nw_connections (cf_net cfg) x \<and>
    is_enabled (cf_net cfg') x = is_enabled (cf_net cfg) x" if "nw_ends (cf_net cfg) x \<noteq> None" for x
    using ih(1) [of x] that rn(1) by (auto simp: C split: if_splits)
  have new: "nw_ends (cf_net cfg) (cf_endnames cfg ! i ! k) = None \<and> nw_ends (cf_net cfg') (cf_endnames cfg ! i ! k) \<noteq> None \<and>
    nw_connections (cf_net cfg') (cf_endnames cfg ! i ! k) = Some (server_key k) \<and> cf_endnames cfg ! i ! k \<noteq> ?e" if "k \<in> set js" for k
    using ih(3) [OF that] by (auto simp: C split: if_splits)
  have "nw_ends (cf_net cfg') ?e \<noteq> None \<and> nw_connections (cf_net cfg') ?e = Some (server_key j)" using ih(1) [of ?e] by (simp add: C)
  moreover have "is_enabled (cf_net cfg') x \<Longrightarrow> is_enabled (cf_net cfg) x" for x using ih(2) [of x] by (simp add: C)
  moreover have "distinct (map (\<lambda>j. cf_endnames cfg ! i ! j) (j # js))" using ih(4) new by (force simp del: split_paired_Ex)
  ultimately show ?case unfolding fresh_ends_def using ih(5-11) old new rn(1) by (metis set_ConsD)
qed (simp add: fresh_ends_def)

lemma distinct_concat_update:
  assumes "distinct (concat xss)" "i < length xss" "distinct ys" "set ys \<inter> set (concat xss) = {}"
  shows "distinct (concat (xss[i := ys]))"
proof -
  define A C where "A = concat (take i xss)" and "C = concat (drop (Suc i) xss)"
  have u: "concat (xss[i := ys]) = A @ ys @ C" using assms(2) by (simp add: upd_conv_take_nth_drop A_def C_def)
  have "concat xss = concat (take i xss @ xss ! i # drop (Suc i) xss)" using id_take_nth_drop [OF assms(2)] by simp
  then have c: "concat xss = A @ xss ! i @ C" by (simp add: A_def C_def)
  from assms(1,3,4) show ?thesis unfolding u c by auto
qed

lemma start_ends_wired:
  assumes w: "wired cfg" and i: "i < cf_n cfg" "\<not> cf_connected cfg ! i"
    and m: "make_ends (cfg\<lparr>cf_endnames := (cf_endnames cfg)[i := map names [0..<cf_n cfg]]\<rparr>) i [0..<cf_n cfg] = Some cfg'"
  shows "wired cfg'" "cf_n cfg' = cf_n cfg"
proof -
  let ?n = "cf_n cfg" and ?E = "(cf_endnames cfg)[i := map names [0..<cf_n cfg]]"
  note fe = fresh_endsD [OF make_ends_fresh [OF m], simplified]
  have Ei: "?E ! i = map names [0..<?n]" "length ?E = ?n" "\<And>a. a \<noteq> i \<Longrightarrow> ?E ! a = cf_endnames cfg ! a"
    using i(1) wiredD(2) [OF w] by simp_all
  have f: "cf_connected cfg' = cf_connected cfg" "cf_endnames cfg' = ?E" "cf_n cfg' = ?n" using fe(5-7) by simp_all
  have old: "nw_ends (cf_net cfg') x \<noteq> None \<and> nw_connections (cf_net cfg') x = nw_connections (cf_net cfg) x \<and>
      is_enabled (cf_net cfg') x = is_enabled (cf_net cfg) x" if "nw_ends (cf_net cfg) x \<noteq> None" for x using fe(1) [of x] that by simp
  have new: "nw_ends (cf_net cfg) (names j) = None \<and> nw_ends (cf_net cfg') (names j) \<noteq> None \<and>
      nw_connections (cf_net cfg') (names j) = Some (server_key j)" if "j < ?n" for j using fe(3) [of j] that Ei(1) by simp
  have di: "distinct (map names [0..<?n])" using fe(4) Ei(1) by (simp add: distinct_map inj_on_def)
  have oe: "a < ?n \<Longrightarrow> x \<in> set (cf_endnames cfg ! a) \<Longrightarrow> nw_ends (cf_net cfg) x \<noteq> None" for a x
    using wiredD(3,6) [OF w] by (metis in_set_conv_nth empty_iff list.set(1))
  have en: "is_enabled (cf_net cfg') x \<longleftrightarrow> (\<exists>a<?n. \<exists>b<?n. cf_connected cfg ! a \<and> cf_connected cfg ! b \<and> x = ?E ! a ! b)" for x
  proof -
    have "nw_ends (cf_net cfg) x \<noteq> None" if "is_enabled (cf_net cfg) x"
    proof -
      from that wiredD(8) [OF w, of x] obtain a b where "a < ?n" "b < ?n" "cf_connected cfg ! a" "x = cf_endnames cfg ! a ! b" by blast
      with wiredD(6) [OF w \<open>a < ?n\<close> wiredD(4) [OF w]] show ?thesis by simp
    qed
    with fe(2) [of x] old [of x] have "is_enabled (cf_net cfg') x \<longleftrightarrow> is_enabled (cf_net cfg) x" by auto
    with wiredD(8) [OF w, of x] i(2) Ei(3) show ?thesis by metis
  qed
  have dc: "distinct (concat ?E)"
  proof -
    have "x \<notin> set (map names [0..<?n])" if "x \<in> set (concat (cf_endnames cfg))" for x
    proof -
      from that obtain xs where "xs \<in> set (cf_endnames cfg)" "x \<in> set xs" by auto
      then obtain a where "a < ?n" "x \<in> set (cf_endnames cfg ! a)" using wiredD(2) [OF w] by (metis in_set_conv_nth)
      with oe [of a x] new show ?thesis by auto
    qed
    then have "set (map names [0..<?n]) \<inter> set (concat (cf_endnames cfg)) = {}" by blast
    with distinct_concat_update [OF wiredD(5) [OF w] _ di] i(1) wiredD(2) [OF w] show ?thesis by simp
  qed
  have "nw_ends (cf_net cfg') (?E ! a ! j) \<noteq> None \<and> nw_connections (cf_net cfg') (?E ! a ! j) = Some (server_key j)"
    if "a < ?n" "?E ! a \<noteq> []" "j < ?n" for a j
    using that new [of j] old [of "cf_endnames cfg ! a ! j"] wiredD(6,7) [OF w] Ei by (cases "a = i") auto
  moreover have "?E ! a = [] \<or> length (?E ! a) = ?n" "cf_connected cfg ! a \<Longrightarrow> ?E ! a \<noteq> []" if "a < ?n" for a
    using that Ei i(2) wiredD(3,4) [OF w, of a] by (cases "a = i"; auto)+
  ultimately show "wired cfg'"
    unfolding wired_def f using en dc wiredD(1) [OF w] Ei(2) by blast
  show "cf_n cfg' = ?n" by (rule f(3))
qed

lemma vbind_Pass: "vbind v f = Pass x \<longleftrightarrow> (\<exists>y. v = Pass y \<and> f y = Pass x)"
  by (cases v) auto

lemma unnil_Pass [simp]: "unnil m = Pass x \<longleftrightarrow> m = Some x"
  by (auto simp: unnil_def split: option.splits)

lemma ingestSnap_same:
  "ingestSnap cfg i snap index = Pass (cfg', err) \<Longrightarrow> cf_net cfg' = cf_net cfg \<and> cf_connected cfg' = cf_connected cfg \<and>
     cf_endnames cfg' = cf_endnames cfg \<and> cf_n cfg' = cf_n cfg \<and> cf_saved cfg' = cf_saved cfg \<and> cf_rafts cfg' = cf_rafts cfg"
  by (auto simp: ingestSnap_def split: list.splits item.splits if_splits)

lemma restore_same:
  "restore cfg i = Pass (cfg', ps) \<Longrightarrow> cf_net cfg' = cf_net cfg \<and> cf_connected cfg' = cf_connected cfg \<and>
     cf_endnames cfg' = cf_endnames cfg \<and> cf_n cfg' = cf_n cfg"
  by (auto simp: restore_def vbind_Pass Let_def dest!: ingestSnap_same split: option.splits if_splits)

lemma start1_wired:
  assumes w: "wired cfg" and i: "i < cf_n cfg" and s: "start1 cfg i names obj typ = Pass cfg'"
  shows "wired cfg'" "cf_n cfg' = cf_n cfg"
proof -
  from s obtain c1 c2 c3 ps rf where c: "crash1 cfg i = Some c1"
    "make_ends (c1\<lparr>cf_endnames := (cf_endnames c1)[i := map names [0..<cf_n c1]]\<rparr>) i [0..<cf_n c1] = Some c2"
    "restore (c2\<lparr>cf_lastApplied := (cf_lastApplied c2)[i := 0]\<rparr>) i = Pass (c3, ps)"
    and e: "cf_connected cfg' = cf_connected c3" "cf_endnames cfg' = cf_endnames c3" "cf_n cfg' = cf_n c3"
      "nw_ends (cf_net cfg') = nw_ends (cf_net c3)" "nw_connections (cf_net cfg') = nw_connections (cf_net c3)"
      "nw_enabled (cf_net cfg') = nw_enabled (cf_net c3)"
    by (auto simp: start1_def vbind_Pass Let_def AddServer_def)
  note cw = crash1_wired [OF w i c(1)]
  have i1: "i < cf_n c1" using i cw(3) by simp
  note sw = start_ends_wired [OF cw(1) i1 cw(2) c(2)]
  show "wired cfg'" using sw(1) restore_same [OF c(3)] e unfolding wired_def is_enabled_def by simp
  show "cf_n cfg' = cf_n cfg" using sw(2) cw(3) restore_same [OF c(3)] e(3) by simp
qed

section \<open>Sequences of operations\<close>

datatype ('o, 'v) harness_op =
    ConnectOp nat
  | DisconnectOp nat
  | CrashOp nat
  | StartOp nat "nat \<Rightarrow> string" 'o "('o, 'v) reflect_method list"

fun harness_step :: "('o, 'v) harness_op \<Rightarrow> ('c, 'o, 'v, 'b) config \<Rightarrow> ('c, ('c, 'o, 'v, 'b) config) verdict" where
  "harness_step (ConnectOp i) cfg = unnil (connect cfg i)"
| "harness_step (DisconnectOp i) cfg = unnil (disconnect cfg i)"
| "harness_step (CrashOp i) cfg = unnil (crash1 cfg i)"
| "harness_step (StartOp i names obj typ) cfg = start1 cfg i names obj typ"

fun op_server :: "('o, 'v) harness_op \<Rightarrow> nat" where
  "op_server (ConnectOp i) = i"
| "op_server (DisconnectOp i) = i"
| "op_server (CrashOp i) = i"
| "op_server (StartOp i names obj typ) = i"

fun harness_run :: "('o, 'v) harness_op list \<Rightarrow> ('c, 'o, 'v, 'b) config \<Rightarrow> ('c, ('c, 'o, 'v, 'b) config) verdict" where
  "harness_run [] cfg = Pass cfg"
| "harness_run (p # ps) cfg = vbind (harness_step p cfg) (harness_run ps)"

lemma step_wired:
  assumes w: "wired cfg" and i: "op_server p < cf_n cfg" and s: "harness_step p cfg = Pass cfg'"
  shows "wired cfg' \<and> cf_n cfg' = cf_n cfg"
proof (cases p)
  case (ConnectOp i)
  with assms connect_wired [OF w] connect_spec(1) [of cfg i cfg'] show ?thesis by (simp add: rewired_def)
next
  case (DisconnectOp i)
  with assms disconnect_wired(1) [OF w] disconnect_spec(1) [of cfg i cfg'] show ?thesis by (simp add: rewired_def)
next
  case (CrashOp i)
  with assms crash1_wired [OF w] show ?thesis by simp
next
  case (StartOp i names obj mths)
  with assms start1_wired [OF w] show ?thesis by simp
qed

lemma run_wired:
  assumes "wired cfg" "\<forall>p\<in>set ps. op_server p < cf_n cfg" "harness_run ps cfg = Pass cfg'"
  shows "wired cfg' \<and> cf_n cfg' = cf_n cfg"
  using assms
proof (induction ps arbitrary: cfg)
  case (Cons p ps)
  then obtain c where c: "harness_step p cfg = Pass c" "harness_run ps c = Pass cfg'" by (auto simp: vbind_Pass)
  have "wired c \<and> cf_n c = cf_n cfg" using step_wired [OF Cons.prems(1) _ c(1)] Cons.prems(2) by simp
  with Cons.IH [of c] Cons.prems(2) c(2) show ?case by simp
qed simp

lemma start_all_wired:
  assumes "wired cfg" "set js \<subseteq> {..<cf_n cfg}" "start_all cfg names obj typ js = Pass cfg'"
  shows "wired cfg' \<and> cf_n cfg' = cf_n cfg"
  using assms
proof (induction js arbitrary: cfg)
  case (Cons i js)
  let ?c = "cfg\<lparr>cf_logs := (cf_logs cfg)[i := Map.empty]\<rparr>"
  from Cons.prems obtain c where c: "start1 ?c i (names i) obj typ = Pass c" "start_all c names obj typ js = Pass cfg'"
    by (auto simp: vbind_Pass)
  have "wired ?c" using Cons.prems(1) by (simp add: wired_def)
  from start1_wired [OF this _ c(1)] Cons.prems(2) Cons.IH [OF _ _ c(2)] show ?case by simp
qed simp

lemma connect_all_wired:
  assumes "wired cfg" "set js \<subseteq> {..<cf_n cfg}" "connect_all cfg js = Some cfg'"
  shows "wired cfg' \<and> cf_n cfg' = cf_n cfg"
  using assms
proof (induction js arbitrary: cfg)
  case (Cons i js)
  then obtain c where c: "connect cfg i = Some c" "connect_all c js = Some cfg'" by (auto simp: bind_Some_iff)
  have "wired c" "cf_n c = cf_n cfg" using connect_wired [OF Cons.prems(1) _ c(1)] connect_spec(1) [OF c(1)] Cons.prems(2)
    by (simp_all add: rewired_def)
  with Cons.IH [of c] Cons.prems(2) c(2) show ?case by simp
qed simp

lemma make_config_wired:
  fixes cfg :: "('c, 'o, 'v, 'b) config"
  assumes "make_config n unreliable now names obj typ = Pass cfg"
  shows "wired cfg \<and> cf_n cfg = n"
proof -
  let ?b = "setunreliable (blank_config n now) unreliable :: ('c, 'o, 'v, 'b) config"
  let ?c = "?b\<lparr>cf_net := LongDelays (cf_net ?b) True\<rparr>"
  from assms obtain c where c: "start_all ?c names obj typ [0..<n] = Pass c" "connect_all c [0..<n] = Some cfg"
    by (auto simp: make_config_def vbind_Pass Let_def)
  have f: "cf_n ?c = n" "wired ?c"
    unfolding wired_def by (simp_all add: setunreliable_def blank_config_def Reliable_def LongDelays_def MakeNetwork_def is_enabled_def)
  have "wired c \<and> cf_n c = n" using start_all_wired [OF f(2) _ c(1)] f(1) by (simp add: lessThan_atLeast0)
  with connect_all_wired [of c "[0..<n]" cfg] c(2) show ?thesis by (simp add: lessThan_atLeast0)
qed

text \<open>
  C16: The harness partitions the network as it says. Take a test with any number of servers and
  any sequence of connecting, disconnecting, crashing and restarting servers. An end of the
  network is enabled exactly if it is the current end from one connected server to another, and
  such an end leads to that server; the ends of crashed incarnations stay disabled. Nothing is
  assumed of the random names: a name that is taken ends the test.
\<close>

theorem harness_connectivity:
  assumes "make_config n unreliable now names obj typ = Pass cfg" "\<forall>p\<in>set ps. op_server p < n" "harness_run ps cfg = Pass cfg'"
  shows "(is_enabled (cf_net cfg') x \<longleftrightarrow>
      (\<exists>i<n. \<exists>j<n. cf_connected cfg' ! i \<and> cf_connected cfg' ! j \<and> x = cf_endnames cfg' ! i ! j)) \<and>
    (\<forall>i<n. \<forall>j<n. cf_connected cfg' ! i \<longrightarrow> nw_connections (cf_net cfg') (cf_endnames cfg' ! i ! j) = Some (server_key j))"
proof -
  note m = make_config_wired [OF assms(1)]
  from run_wired [of cfg ps cfg'] m assms(2,3) have w: "wired cfg'" "cf_n cfg' = n" by auto
  then show ?thesis using wiredD(8) [OF w(1), of x] wiredD(4,7) [OF w(1)] by simp
qed

text \<open>Two servers: server 0 is disconnected, server 1 is crashed, restarted and connected again.\<close>

definition demo_names :: "nat \<Rightarrow> nat \<Rightarrow> nat \<Rightarrow> string" where
  "demo_names k i j = replicate k CHR ''k'' @ replicate i CHR ''i'' @ replicate j CHR ''j''"

definition demo_ops :: "(nat, nat) harness_op list" where
  "demo_ops = [DisconnectOp 0, StartOp 1 (demo_names 1 1) 0 [], ConnectOp 1]"

definition on_config :: "((nat, nat, nat, nat) config \<Rightarrow> (nat, nat, nat, nat) config \<Rightarrow> bool) \<Rightarrow> bool" where
  "on_config P = (case make_config 2 False 0 (demo_names 0) 0 [] of
     Pass cfg \<Rightarrow> (case harness_run demo_ops cfg of Pass cfg' \<Rightarrow> P cfg cfg' | Fatal _ \<Rightarrow> False) | Fatal _ \<Rightarrow> False)"

theorem harness_connectivity_witness:
  "\<exists>cfg cfg' :: (nat, nat, nat, nat) config. make_config 2 False 0 (demo_names 0) 0 [] = Pass cfg \<and>
     harness_run demo_ops cfg = Pass cfg' \<and> \<not> is_enabled (cf_net cfg') (demo_names 0 1 1) \<and> is_enabled (cf_net cfg') (demo_names 1 1 1)"
proof -
  have "on_config (\<lambda>cfg cfg'. cf_connected cfg' = [False, True] \<and> cf_endnames cfg' ! 1 ! 1 = demo_names 1 1 1)" by code_simp
  then obtain cfg cfg' :: "(nat, nat, nat, nat) config" where c: "make_config 2 False 0 (demo_names 0) 0 [] = Pass cfg"
    "harness_run demo_ops cfg = Pass cfg'" "cf_connected cfg' = [False, True]" "cf_endnames cfg' ! 1 ! 1 = demo_names 1 1 1"
    by (auto simp: on_config_def split: verdict.splits)
  have "\<forall>p\<in>set demo_ops. op_server p < 2" by (simp add: demo_ops_def)
  note h = harness_connectivity [OF c(1) this c(2)]
  have one: "(\<exists>i<2. \<exists>j<2. cf_connected cfg' ! i \<and> cf_connected cfg' ! j \<and> x = cf_endnames cfg' ! i ! j) \<longleftrightarrow> x = demo_names 1 1 1" for x
    using c(3,4) by (auto simp: eval_nat_numeral less_Suc_eq intro!: exI [of _ "Suc 0"])
  have "is_enabled (cf_net cfg') (demo_names 1 1 1)" "\<not> is_enabled (cf_net cfg') (demo_names 0 1 1)"
    using h one by (simp_all add: demo_names_def)
  with c(1,2) show ?thesis by blast
qed

end
