(* ===== verification/Raft_Tested.thy ===== *)
theory Raft_Tested
  imports Raft_Wiring
begin

text \<open>
  Raft under its tests: the cluster and the harness together. The harness restarts peers, and one
  goroutine per server reads what the peer delivers and checks it against what all servers have
  applied so far. In every execution without a term setback, and without snapshots, no check of
  the harness ever fails for disagreement: neither in the appliers, nor in \<open>nCommitted\<close>, nor in
  \<open>checkOneLeader\<close>, although these read the servers one after the other while the cluster runs on.
\<close>

section \<open>Restarting a peer\<close>

text \<open>What the harness holds of the running peers.\<close>

definition synced_config :: "('c, 'o, 'v, 'b) config \<Rightarrow> ('c, 'c item) cluster \<Rightarrow> bool" where
  "synced_config cfg s \<longleftrightarrow> length (cf_saved cfg) = length (nodes s) \<and> length (cf_lastApplied cfg) = length (nodes s) \<and>
     cf_n cfg = length (nodes s) \<and> cf_rafts cfg = map (Some \<circ> rft) (nodes s)"

lemma Copy_id [simp]: "Copy ps = ps" "SaveStateAndSnapshot MakePersister (ReadRaftState ps) (ReadSnapshot ps) = ps"
  by (simp_all add: Copy_def MakePersister_def SaveStateAndSnapshot_def ReadRaftState_def ReadSnapshot_def)

lemma crash1_saves:
  assumes c: "crash1 cfg i = Some cfg'" and s: "synced_config cfg s" and i: "i < length (nodes s)"
  shows "cf_saved cfg' ! i = Some (persister (rft (nodes s ! i)))" "cf_logs cfg' = cf_logs cfg" "cf_n cfg' = length (nodes s)"
    "length (cf_saved cfg') = length (nodes s)" "length (cf_rafts cfg') = length (nodes s)" "length (cf_lastApplied cfg') = length (nodes s)"
proof -
  from c obtain c1 where c1: "disconnect cfg i = Some c1" by (auto simp: crash1_def bind_Some_iff)
  have f: "cf_rafts c1 = cf_rafts cfg" "cf_saved c1 = cf_saved cfg" "cf_logs c1 = cf_logs cfg" "cf_n c1 = cf_n cfg" "cf_lastApplied c1 = cf_lastApplied cfg"
    using disconnect_spec(1) [OF c1] by (simp_all add: rewired_def)
  show "cf_saved cfg' ! i = Some (persister (rft (nodes s ! i)))" "cf_logs cfg' = cf_logs cfg" "cf_n cfg' = length (nodes s)"
    "length (cf_saved cfg') = length (nodes s)" "length (cf_rafts cfg') = length (nodes s)" "length (cf_lastApplied cfg') = length (nodes s)"
    using c c1 f s i by (auto simp: crash1_def saved_now_def synced_config_def Let_def)
qed

lemma restore_plain:
  assumes "cf_saved cfg ! i = Some ps" "snapshot ps = []"
  shows "restore cfg i = Pass (cfg\<lparr>cf_saved := (cf_saved cfg)[i := Some ps]\<rparr>, ps)"
  using assms by (simp add: restore_def Let_def ReadSnapshot_def)

lemma start1_restarts:
  assumes c: "start1 cfg i names obj typ = Pass cfg'" and s: "synced_config cfg s" and i: "i < length (nodes s)"
    and e: "snapshot (persister (rft (nodes s ! i))) = []"
  shows "cf_logs cfg' = cf_logs cfg" "cf_lastApplied cfg' ! i = 0"
    "\<exists>rf. Make (length (nodes s)) i (persister (rft (nodes s ! i))) = Some rf \<and> cf_rafts cfg' ! i = Some rf"
proof -
  from c obtain c1 c2 c3 ps rf where c: "crash1 cfg i = Some c1"
    "make_ends (c1\<lparr>cf_endnames := (cf_endnames c1)[i := map names [0..<cf_n c1]]\<rparr>) i [0..<cf_n c1] = Some c2"
    "restore (c2\<lparr>cf_lastApplied := (cf_lastApplied c2)[i := 0]\<rparr>) i = Pass (c3, ps)" "Make (cf_n c3) i ps = Some rf"
    and r: "cf_rafts cfg' = (cf_rafts c3)[i := Some rf]" "cf_logs cfg' = cf_logs c3" "cf_lastApplied cfg' = cf_lastApplied c3"
    by (auto simp: start1_def vbind_Pass Let_def)
  note k = crash1_saves [OF c(1) s i] and f = fresh_endsD(7-11) [OF make_ends_fresh [OF c(2)], simplified]
  have "restore (c2\<lparr>cf_lastApplied := (cf_lastApplied c2)[i := 0]\<rparr>) i =
    Pass (c2\<lparr>cf_lastApplied := (cf_lastApplied c2)[i := 0], cf_saved := (cf_saved c2)[i := Some (persister (rft (nodes s ! i)))]\<rparr>, persister (rft (nodes s ! i)))"
    using k(1) f e by (subst restore_plain) auto
  with c(3) have "c3 = c2\<lparr>cf_lastApplied := (cf_lastApplied c2)[i := 0], cf_saved := (cf_saved c2)[i := Some (persister (rft (nodes s ! i)))]\<rparr>"
    "ps = persister (rft (nodes s ! i))" by auto
  with r k f c(4) i show "cf_logs cfg' = cf_logs cfg" "cf_lastApplied cfg' ! i = 0"
    "\<exists>rf. Make (length (nodes s)) i (persister (rft (nodes s ! i))) = Some rf \<and> cf_rafts cfg' ! i = Some rf" by simp_all
qed

text \<open>
  Crashing and starting a server is a restart of the peer. When the harness crashes a running
  peer that has taken no snapshot and starts it again, the new peer is exactly the one that the
  restart of the cluster model creates from the persister, and the applied commands on record
  stay as they were.
\<close>

theorem start1_is_restart:
  assumes "reachable n s" "i < n" "synced_config cfg s" "snapshot (persister (rft (nodes s ! i))) = []"
    and "start1 cfg i names obj typ = Pass cfg'" "act (Restart i) s = Next t"
  shows "cf_rafts cfg' ! i = Some (rft (nodes t ! i)) \<and> cf_logs cfg' = cf_logs cfg \<and> cf_lastApplied cfg' ! i = 0"
proof -
  note nd = inv_node [OF reachable_base [OF assms(1)] assms(2)]
  have i: "i < length (nodes s)" "length (nodes s) = n" using nd(1) assms(2) by simp_all
  note r = start1_restarts [OF assms(5,3) i(1) assms(4)]
  from assms(6) i nd(3,4) obtain rf where "Make n i (persister (rft (nodes s ! i))) = Some rf" "rft (nodes t ! i) = rf"
    by (auto simp: do_restart_def Let_def from_option_Next)
  with r i(2) show ?thesis by auto
qed

section \<open>The cluster and its tester\<close>

text \<open>
  The tester has read so many of the messages that each peer's current incarnation delivered. A
  restart of a peer resets \<open>lastApplied\<close> and starts a new applier; everything else the harness
  does to the network is the loss and the delay of calls, which the cluster's actions cover.
\<close>

record ('c, 'o, 'v, 'b) tested =
  ts_cluster :: "('c, 'c item) cluster"
  ts_cfg :: "('c, 'o, 'v, 'b) config"
  ts_seen :: "nat list"

definition tested_init :: "nat \<Rightarrow> ('c, 'o, 'v, 'b) config \<Rightarrow> ('c, 'o, 'v, 'b) tested" where
  "tested_init n cfg = \<lparr>ts_cluster = init_cluster n, ts_cfg = cfg, ts_seen = replicate n 0\<rparr>"

fun tester_restarts :: "('c, 'c item) action \<Rightarrow> ('c, 'o, 'v, 'b) tested \<Rightarrow> ('c, 'o, 'v, 'b) tested" where
  "tester_restarts (Restart p) st = st\<lparr>ts_cfg := (ts_cfg st)\<lparr>cf_lastApplied := (cf_lastApplied (ts_cfg st))[p := 0]\<rparr>,
     ts_seen := (ts_seen st)[p := 0]\<rparr>"
| "tester_restarts _ st = st"

definition tested_act :: "('c, 'c item) action \<Rightarrow> ('c, 'o, 'v, 'b) tested \<Rightarrow> ('c, 'o, 'v, 'b) tested outcome" where
  "tested_act a st = (case act a (ts_cluster st) of
     Next s \<Rightarrow> Next ((tester_restarts a st)\<lparr>ts_cluster := s\<rparr>) | Disabled \<Rightarrow> Disabled | Panic \<Rightarrow> Panic)"

text \<open>The applier of server \<open>p\<close> reads its next message.\<close>

definition tested_recv :: "nat \<Rightarrow> ('c, 'o, 'v, 'b) tested \<Rightarrow> ('c, ('c, 'o, 'v, 'b) tested option) verdict" where
  "tested_recv p st =
     (let ms = delivered (nodes (ts_cluster st) ! p); k = ts_seen st ! p in
      if k < length ms
      then vbind (applier_recv (ts_cfg st) p (ms ! k)) (\<lambda>cfg. Pass (Some (st\<lparr>ts_cfg := cfg, ts_seen := (ts_seen st)[p := k + 1]\<rparr>)))
      else Pass None)"

inductive tested_step :: "nat \<Rightarrow> ('c, 'o, 'v, 'b) tested \<Rightarrow> ('c, 'o, 'v, 'b) tested \<Rightarrow> bool" for n where
  step_act: "plain a \<Longrightarrow> \<not> term_setback a (ts_cluster st) \<Longrightarrow> tested_act a st = Next st' \<Longrightarrow> tested_step n st st'"
| step_recv: "p < n \<Longrightarrow> tested_recv p st = Pass (Some st') \<Longrightarrow> tested_step n st st'"

text \<open>What the tester has on record was decided, no applier has reported an error, and the tester has on record all it has read.\<close>

definition recorded :: "nat \<Rightarrow> 'c history \<Rightarrow> ('c, 'o, 'v, 'b) config \<Rightarrow> bool" where
  "recorded n h cfg \<longleftrightarrow> length (cf_logs cfg) = n \<and> cf_applyErr cfg = replicate n NoErr \<and>
     (\<forall>p<n. \<forall>i v. (cf_logs cfg ! p) i = Some v \<longrightarrow> (\<exists>c. v = Some c \<and> decided n h i c))"

definition tested_ok :: "nat \<Rightarrow> 'c history \<Rightarrow> ('c, 'o, 'v, 'b) tested \<Rightarrow> bool" where
  "tested_ok n h st \<longleftrightarrow> safe n h (ts_cluster st) \<and> cluster_inv n (ts_cluster st) \<and> (\<forall>p<n. in_order (nodes (ts_cluster st) ! p)) \<and>
     recorded n h (ts_cfg st) \<and> length (ts_seen st) = n \<and>
     (\<forall>p<n. ts_seen st ! p \<le> length (delivered (nodes (ts_cluster st) ! p)) \<and>
        (\<forall>i. 1 \<le> i \<longrightarrow> i \<le> int (ts_seen st ! p) \<longrightarrow> (cf_logs (ts_cfg st) ! p) i \<noteq> None))"

lemma recorded_later: "hist_le n h h' \<Longrightarrow> recorded n h cfg \<Longrightarrow> recorded n h' cfg"
  using decided_later [of n h h'] by (fastforce simp: recorded_def)

lemma delivered_act:
  assumes i: "base_inv n s" and ns: "\<not> term_setback a s" and a: "act a s = Next t" and pl: "plain a" and "p < n"
  shows "a = Restart p \<or> length (delivered (nodes s ! p)) \<le> length (delivered (nodes t ! p))"
proof -
  note nd = inv_node(1) [OF i assms(5)]
  consider "same_order (nodes s ! p) (nodes t ! p)" | "a = ApplyTake p" | "a = ApplyDone p" | "a = Restart p"
    using order_act [OF i ns a pl] by blast
  then show ?thesis
  proof cases
    case 2
    with a nd assms(5) show ?thesis by (auto simp: do_apply_take_def Let_def from_option_Next split: if_splits)
  next
    case 3
    with a nd assms(5) show ?thesis by (auto simp: do_apply_done_def Let_def split: option.splits)
  qed (simp_all add: same_order_def)
qed

lemma tested_act_ok:
  assumes ok: "tested_ok n h st" and pl: "plain a" and ns: "\<not> term_setback a (ts_cluster st)" and a: "tested_act a st = Next st'"
  shows "\<exists>h'. tested_ok n h' st' \<and> hist_le n h h'"
proof -
  from a obtain s where s: "act a (ts_cluster st) = Next s" "st' = (tester_restarts a st)\<lparr>ts_cluster := s\<rparr>"
    by (auto simp: tested_act_def split: outcome.splits)
  have i: "safe n h (ts_cluster st)" "cluster_inv n (ts_cluster st)" and o: "\<forall>p<n. in_order (nodes (ts_cluster st) ! p)"
    and rc: "recorded n h (ts_cfg st)" "length (ts_seen st) = n" using ok by (simp_all add: tested_ok_def)
  have "\<not> hazard a (ts_cluster st)" using ns plain_no_conflict [OF pl] by (simp add: hazard_def)
  with safe_act [OF i s(1)] obtain h' where h': "cluster_inv n s" "safe n h' s" "hist_le n h h'" by blast
  have o': "\<forall>p<n. in_order (nodes s ! p)" using in_order_act [OF i ns s(1) pl] o by blast
  have f: "cf_logs (ts_cfg st') = cf_logs (ts_cfg st)" "ts_cluster st' = s" "length (ts_seen st') = n"
    "ts_seen st' ! p = (if a = Restart p then 0 else ts_seen st ! p)" if "p < n" for p
    unfolding s(2) using that rc(2) by (cases a; auto)+
  have "cf_logs (ts_cfg st') = cf_logs (ts_cfg st) \<and> cf_applyErr (ts_cfg st') = cf_applyErr (ts_cfg st) \<and> ts_cluster st' = s \<and> length (ts_seen st') = n"
    unfolding s(2) using rc(2) by (cases a) auto
  moreover have "ts_seen st' ! p \<le> length (delivered (nodes s ! p)) \<and>
      (\<forall>i. 1 \<le> i \<longrightarrow> i \<le> int (ts_seen st' ! p) \<longrightarrow> (cf_logs (ts_cfg st) ! p) i \<noteq> None)" if p: "p < n" for p
  proof (cases "a = Restart p")
    case False
    with delivered_act [OF inv_base [OF i(2)] ns s(1) pl p] have "length (delivered (nodes (ts_cluster st) ! p)) \<le> length (delivered (nodes s ! p))" by simp
    with False f(4) [OF p] ok p show ?thesis by (force simp: tested_ok_def)
  qed (use f(4) [OF p] in simp)
  ultimately have "tested_ok n h' st'"
    using h' o' recorded_later [OF h'(3) rc(1)] by (simp add: tested_ok_def recorded_def)
  with h'(3) show ?thesis by blast
qed

lemma checkLogs_agrees:
  assumes h: "hist_ok n cT (lead h) (whole h) (acc h)" and r: "recorded n h cfg" and p: "p < n"
    and m: "Command m = Some c" "decided n h (CommandIndex m) c"
  shows "\<exists>cfg'. checkLogs cfg p m = (cfg', NoErr, (cf_logs cfg ! p) (CommandIndex m - 1) \<noteq> None) \<and>
    cf_logs cfg' = (cf_logs cfg)[p := (cf_logs cfg ! p)(CommandIndex m \<mapsto> Some c)] \<and> recorded n h cfg' \<and> cf_lastApplied cfg' = cf_lastApplied cfg"
proof -
  let ?f = "\<lambda>j err. case (cf_logs cfg ! j) (CommandIndex m) of
      Some old \<Rightarrow> if old \<noteq> Some c then Differs (CommandIndex m) p (Some c) j old else err | None \<Rightarrow> err"
  have len: "length (cf_logs cfg) = n" using r by (simp add: recorded_def)
  have same: "old = Some c" if "j < n" "(cf_logs cfg ! j) (CommandIndex m) = Some old" for j old
    using r that decided_unique [OF h _ m(2)] unfolding recorded_def by blast
  have "fold ?f js NoErr = NoErr" if "set js \<subseteq> {..<n}" for js
    using that by (induction js) (auto dest: same split: option.splits)
  from this [of "[0..<n]"] have e: "fold ?f [0..<n] NoErr = NoErr" by (simp add: lessThan_atLeast0)
  define cfg' where "cfg' = fst (checkLogs cfg p m)"
  have l: "cf_logs cfg' = (cf_logs cfg)[p := (cf_logs cfg ! p)(CommandIndex m \<mapsto> Some c)]" "cf_lastApplied cfg' = cf_lastApplied cfg"
    "cf_applyErr cfg' = cf_applyErr cfg" by (simp_all add: cfg'_def checkLogs_def Let_def m(1))
  have "recorded n h cfg'"
    using r m p len unfolding recorded_def l by (auto simp: nth_list_update split: if_splits)
  moreover have "checkLogs cfg p m = (cfg', NoErr, (cf_logs cfg ! p) (CommandIndex m - 1) \<noteq> None)"
    using e by (simp add: cfg'_def checkLogs_def Let_def m(1) len)
  ultimately show ?thesis using l by blast
qed

lemma tested_recv_ok:
  assumes ok: "tested_ok n h st" and p: "p < n"
  shows "\<exists>r. tested_recv p st = Pass r \<and> (\<forall>st'. r = Some st' \<longrightarrow> tested_ok n h st')"
proof (cases "ts_seen st ! p < length (delivered (nodes (ts_cluster st) ! p))")
  case False
  then show ?thesis by (simp add: tested_recv_def)
next
  case True
  let ?s = "ts_cluster st" and ?k = "ts_seen st ! p"
  let ?nd = "nodes ?s ! p" and ?m = "delivered (nodes ?s ! p) ! ?k"
  have i: "safe n h ?s" and o: "in_order ?nd" and rc: "recorded n h (ts_cfg st)" using ok p by (simp_all add: tested_ok_def)
  have sl: "length (ts_seen st) = n" "length (cf_logs (ts_cfg st)) = n" using ok by (simp_all add: tested_ok_def recorded_def)
  have mem: "?m \<in> set (delivered ?nd)" using True by simp
  with o obtain c where v: "CommandValid ?m" "Command ?m = Some c" unfolding in_order_def by auto
  have "map CommandIndex (delivered ?nd) = [1..LastApplied (rft ?nd)]" using o by (simp add: in_order_def)
  from arg_cong [OF this, of "\<lambda>xs. xs ! ?k"] arg_cong [OF this, of length] True have ix: "CommandIndex ?m = int ?k + 1" by simp
  have dec: "decided n h (CommandIndex ?m) c"
    using safe_node [OF i p] mem v by (auto simp: node_safe_def apply_safe_def)
  from checkLogs_agrees [OF safe_hist [OF i] rc p v(2) dec] obtain cfg' where
    c: "checkLogs (ts_cfg st) p ?m = (cfg', NoErr, (cf_logs (ts_cfg st) ! p) (int ?k) \<noteq> None)"
    "cf_logs cfg' = (cf_logs (ts_cfg st))[p := (cf_logs (ts_cfg st) ! p)(int ?k + 1 \<mapsto> Some c)]" "recorded n h cfg'"
    unfolding ix by auto
  have "(cf_logs (ts_cfg st) ! p) (int ?k) \<noteq> None" if "int ?k + 1 > 1" using ok p that by (simp add: tested_ok_def)
  then have r: "applier_recv (ts_cfg st) p ?m = Pass cfg'" using v c(1) ix by (auto simp: applier_recv_def)
  let ?st = "st\<lparr>ts_cfg := cfg', ts_seen := (ts_seen st)[p := ?k + 1]\<rparr>"
  have "tested_ok n h ?st"
    using ok c(2,3) True p sl unfolding tested_ok_def by (auto simp: nth_list_update)
  moreover have "tested_recv p st = Pass (Some ?st)" using True r by (simp add: tested_recv_def Let_def)
  ultimately show ?thesis by blast
qed

lemma tested_step_ok:
  assumes "tested_step n st st'" "tested_ok n h st"
  shows "\<exists>h'. tested_ok n h' st' \<and> hist_le n h h'"
  using assms
proof cases
  case (step_act a)
  with tested_act_ok [OF assms(2)] show ?thesis by blast
next
  case (step_recv p)
  with tested_recv_ok [OF assms(2), of p] hist_le_refl [of n h "ts_cluster st"] assms(2) show ?thesis by (auto simp: tested_ok_def)
qed

text \<open>A configuration of a test that has not recorded anything yet, as \<open>make_config\<close> leaves it.\<close>

definition fresh_config :: "nat \<Rightarrow> ('c, 'o, 'v, 'b) config \<Rightarrow> bool" where
  "fresh_config n cfg \<longleftrightarrow> cf_logs cfg = replicate n Map.empty \<and> cf_applyErr cfg = replicate n NoErr"

lemma start1_first:
  assumes s: "start1 cfg i names obj typ = Pass cfg'" and f: "cf_rafts cfg ! i = None" "cf_saved cfg ! i = None"
  shows "cf_logs cfg' = cf_logs cfg" "j \<noteq> i \<Longrightarrow> cf_rafts cfg' ! j = cf_rafts cfg ! j \<and> cf_saved cfg' ! j = cf_saved cfg ! j"
proof -
  from s obtain c1 c2 c3 ps rf where c: "crash1 cfg i = Some c1"
    "make_ends (c1\<lparr>cf_endnames := (cf_endnames c1)[i := map names [0..<cf_n c1]]\<rparr>) i [0..<cf_n c1] = Some c2"
    "restore (c2\<lparr>cf_lastApplied := (cf_lastApplied c2)[i := 0]\<rparr>) i = Pass (c3, ps)"
    and r: "cf_rafts cfg' = (cf_rafts c3)[i := Some rf]" "cf_logs cfg' = cf_logs c3" "cf_saved cfg' = cf_saved c3"
    by (auto simp: start1_def vbind_Pass Let_def)
  from c(1) obtain c0 where c0: "disconnect cfg i = Some c0" by (auto simp: crash1_def bind_Some_iff)
  have g: "cf_rafts c0 = cf_rafts cfg" "cf_saved c0 = cf_saved cfg" "cf_logs c0 = cf_logs cfg"
    using disconnect_spec(1) [OF c0] by (simp_all add: rewired_def)
  have k: "cf_rafts c1 = (cf_rafts cfg)[i := None]" "cf_saved c1 = (cf_saved cfg)[i := None]" "cf_logs c1 = cf_logs cfg"
    using c(1) c0 f g by (cases "i < length (cf_saved cfg)"; auto simp: crash1_def saved_now_def Let_def list_update_beyond)+
  note e = fresh_endsD(8-10) [OF make_ends_fresh [OF c(2)], simplified]
  have "cf_saved c2 ! i = None" using e(3) k(2) f(2) by (cases "i < length (cf_saved cfg)") (auto simp: list_update_beyond)
  with c(3) have "cf_logs c3 = cf_logs c2" "cf_rafts c3 = cf_rafts c2" "cf_saved c3 = (cf_saved c2)[i := Some MakePersister]"
    by (auto simp: restore_def)
  with r e k show "cf_logs cfg' = cf_logs cfg" "j \<noteq> i \<Longrightarrow> cf_rafts cfg' ! j = cf_rafts cfg ! j \<and> cf_saved cfg' ! j = cf_saved cfg ! j" by auto
qed

lemma start_all_first:
  assumes "start_all cfg names obj typ js = Pass cfg'" "distinct js" "\<forall>j\<in>set js. cf_rafts cfg ! j = None \<and> cf_saved cfg ! j = None"
    "cf_logs cfg = replicate n Map.empty"
  shows "cf_logs cfg' = replicate n Map.empty"
  using assms
proof (induction js arbitrary: cfg)
  case (Cons i js)
  let ?c = "cfg\<lparr>cf_logs := (cf_logs cfg)[i := Map.empty]\<rparr>"
  from Cons.prems obtain c where c: "start1 ?c i (names i) obj typ = Pass c" "start_all c names obj typ js = Pass cfg'"
    by (auto simp: vbind_Pass)
  note f = start1_first [OF c(1)]
  have "(replicate n Map.empty :: (int \<rightharpoonup> 'a option) list)[i := Map.empty] = replicate n Map.empty"
    by (cases "i < n") (simp_all add: list_update_same_conv list_update_beyond)
  moreover have "cf_rafts c ! j = None \<and> cf_saved c ! j = None" if "j \<in> set js" for j
  proof -
    have "j \<noteq> i" using that Cons.prems(2) by auto
    with f(2) [of j] Cons.prems(3) that show ?thesis by simp
  qed
  ultimately show ?case using f(1) Cons.prems(2-4) by (intro Cons.IH [OF c(2)]) auto
qed simp

lemma wires_keep_errors:
  "connect_out cfg i js = Some cfg' \<Longrightarrow> cf_applyErr cfg' = cf_applyErr cfg"
  "connect_in cfg i js = Some cfg' \<Longrightarrow> cf_applyErr cfg' = cf_applyErr cfg"
  "disconnect_out cfg i js = Some cfg' \<Longrightarrow> cf_applyErr cfg' = cf_applyErr cfg"
  "disconnect_in cfg i js = Some cfg' \<Longrightarrow> cf_applyErr cfg' = cf_applyErr cfg"
  "make_ends cfg i js = Some cfg' \<Longrightarrow> cf_applyErr cfg' = cf_applyErr cfg"
  by (induction js arbitrary: cfg) (auto simp: bind_Some_iff set_enabled_def split: if_splits)

lemma start1_keeps_errors:
  assumes "start1 cfg i names obj typ = Pass cfg'"
  shows "cf_applyErr cfg' = cf_applyErr cfg"
proof -
  from assms obtain c1 c2 c3 ps where c: "crash1 cfg i = Some c1"
    "make_ends (c1\<lparr>cf_endnames := (cf_endnames c1)[i := map names [0..<cf_n c1]]\<rparr>) i [0..<cf_n c1] = Some c2"
    "restore (c2\<lparr>cf_lastApplied := (cf_lastApplied c2)[i := 0]\<rparr>) i = Pass (c3, ps)"
    and r: "cf_applyErr cfg' = cf_applyErr c3"
    by (auto simp: start1_def vbind_Pass Let_def)
  have "cf_applyErr c1 = cf_applyErr cfg"
    using c(1) by (auto simp: crash1_def disconnect_def bind_Some_iff Let_def saved_now_def dest!: wires_keep_errors(3,4) split: option.splits)
  moreover have "cf_applyErr c3 = cf_applyErr c2"
    using c(3) by (auto simp: restore_def Let_def ingestSnap_def vbind_Pass split: option.splits list.splits item.splits if_splits)
  ultimately show ?thesis using wires_keep_errors(5) [OF c(2)] r by simp
qed

lemma make_config_no_errors:
  assumes "make_config n unreliable now names obj typ = Pass cfg"
  shows "cf_applyErr cfg = replicate n NoErr"
proof -
  have s: "start_all c names obj typ js = Pass c' \<Longrightarrow> cf_applyErr c' = cf_applyErr c" for c c' js
    by (induction js arbitrary: c) (auto simp: vbind_Pass dest!: start1_keeps_errors)
  have "connect_all c js = Some c' \<Longrightarrow> cf_applyErr c' = cf_applyErr c" for c c' js
    by (induction js arbitrary: c) (auto simp: bind_Some_iff connect_def Let_def dest!: wires_keep_errors(1,2))
  with s assms show ?thesis by (fastforce simp: make_config_def vbind_Pass Let_def setunreliable_def blank_config_def)
qed

lemma make_config_fresh:
  fixes cfg :: "('c, 'o, 'v, 'b) config"
  assumes "make_config n unreliable now names obj typ = Pass cfg"
  shows "fresh_config n cfg"
proof -
  let ?b = "setunreliable (blank_config n now) unreliable :: ('c, 'o, 'v, 'b) config"
  let ?c = "?b\<lparr>cf_net := LongDelays (cf_net ?b) True\<rparr>"
  from assms obtain c where c: "start_all ?c names obj typ [0..<n] = Pass c" "connect_all c [0..<n] = Some cfg"
    by (auto simp: make_config_def vbind_Pass Let_def)
  have "cf_logs c = replicate n Map.empty"
    by (rule start_all_first [OF c(1)]) (simp_all add: setunreliable_def blank_config_def)
  moreover have "connect_all c js = Some cfg \<Longrightarrow> cf_logs cfg = cf_logs c" for c js
    by (induction js arbitrary: c) (auto simp: bind_Some_iff rewired_def dest!: connect_spec(1))
  ultimately show ?thesis using c(2) make_config_no_errors [OF assms] by (simp add: fresh_config_def)
qed

inductive tested_reach :: "nat \<Rightarrow> ('c, 'o, 'v, 'b) tested \<Rightarrow> bool" for n where
  tested_start: "fresh_config n cfg \<Longrightarrow> tested_reach n (tested_init n cfg)"
| tested_next: "tested_reach n st \<Longrightarrow> tested_step n st st' \<Longrightarrow> tested_reach n st'"

lemma init_in_order: "in_order (init_node n p)"
  unfolding in_order_def init_node_fields by (simp add: init_node_def)

lemma tested_init_ok: "fresh_config n cfg \<Longrightarrow> tested_ok n (init_history n) (tested_init n cfg)"
  using init_safe [of n] init_inv [of n] init_in_order [of n]
  by (auto simp: tested_ok_def tested_init_def recorded_def fresh_config_def init_cluster_def)

lemma tested_reach_ok: "tested_reach n st \<Longrightarrow> \<exists>h. tested_ok n h st"
proof (induction rule: tested_reach.induct)
  case (tested_start cfg)
  with tested_init_ok show ?case by blast
next
  case (tested_next st st')
  with tested_step_ok show ?case by blast
qed

section \<open>The checks of the harness\<close>

text \<open>
  C9: The appliers of the Raft tests never fail. In every execution of a cluster under test, with
  any number of servers, any losses, delays, crashes and restarts, but without snapshots and
  without a term setback: whatever message an applier reads next, it finds no other server that
  has applied another command at that index, and no gap before it.
\<close>

theorem tester_never_fails:
  assumes "make_config n unreliable now names obj typ = Pass cfg" "(tested_step n)\<^sup>*\<^sup>* (tested_init n cfg) st" "p < n"
  shows "tested_recv p st \<noteq> Fatal e"
proof -
  have "tested_reach n st"
    using assms(2) by (induction rule: rtranclp_induct) (use make_config_fresh [OF assms(1)] in \<open>auto intro: tested_reach.intros\<close>)
  with tested_reach_ok tested_recv_ok [OF _ assms(3)] show ?thesis by (metis verdict.distinct(1))
qed

text \<open>A sequence of states of one execution, at which the harness reads.\<close>

definition test_path :: "nat \<Rightarrow> (nat \<Rightarrow> ('c, 'o, 'v, 'b) tested) \<Rightarrow> bool" where
  "test_path n \<sigma> \<longleftrightarrow> tested_reach n (\<sigma> 0) \<and> (\<forall>k. (tested_step n)\<^sup>*\<^sup>* (\<sigma> k) (\<sigma> (Suc k)))"

lemma tested_steps_ok:
  assumes "(tested_step n)\<^sup>*\<^sup>* st st'" "tested_ok n h st"
  shows "\<exists>h'. tested_ok n h' st' \<and> hist_le n h h'"
  using assms
proof (induction rule: rtranclp_induct)
  case base
  with hist_le_refl [of n h "ts_cluster st"] show ?case by (auto simp: tested_ok_def)
next
  case (step y z)
  with tested_step_ok hist_le_trans show ?case by blast
qed

lemma test_path_decided:
  assumes "test_path n \<sigma>"
  shows "\<exists>h. tested_ok n h (\<sigma> k) \<and> (\<forall>j\<le>k. recorded n h (ts_cfg (\<sigma> j)))"
proof (induction k)
  case 0
  from assms have "tested_reach n (\<sigma> 0)" by (simp add: test_path_def)
  with tested_reach_ok obtain h where "tested_ok n h (\<sigma> 0)" by blast
  then show ?case by (auto simp: tested_ok_def)
next
  case (Suc k)
  then obtain h where h: "tested_ok n h (\<sigma> k)" "\<forall>j\<le>k. recorded n h (ts_cfg (\<sigma> j))" by blast
  from tested_steps_ok [OF _ h(1), of "\<sigma> (Suc k)"] assms obtain h' where h': "tested_ok n h' (\<sigma> (Suc k))" "hist_le n h h'"
    by (auto simp: test_path_def)
  have "recorded n h' (ts_cfg (\<sigma> j))" if "j \<le> Suc k" for j
  proof (cases "j = Suc k")
    case True
    with h'(1) show ?thesis by (simp add: tested_ok_def)
  next
    case False
    with that h(2) have "recorded n h (ts_cfg (\<sigma> j))" by simp
    with recorded_later [OF h'(2)] show ?thesis by blast
  qed
  with h'(1) show ?case by blast
qed

text \<open>The readings of \<open>nCommitted\<close>: server \<open>j\<close> is read in the \<open>j\<close>-th state.\<close>

definition readings :: "nat \<Rightarrow> (nat \<Rightarrow> ('c, 'o, 'v, 'b) tested) \<Rightarrow> 'c reading list" where
  "readings n \<sigma> = map (\<lambda>j. (cf_applyErr (ts_cfg (\<sigma> j)) ! j, cf_logs (ts_cfg (\<sigma> j)) ! j)) [0..<n]"

lemma committed_loop_agrees:
  assumes "\<forall>(e, lg)\<in>set rds. e = NoErr \<and> (\<forall>v. lg index = Some v \<longrightarrow> v = x)" "count > 0 \<longrightarrow> cmd = x"
  shows "\<exists>cmd'. committed_loop index count cmd rds = Pass (count + length (filter (\<lambda>(e, lg). lg index \<noteq> None) rds), cmd') \<and>
    (count + length (filter (\<lambda>(e, lg). lg index \<noteq> None) rds) > 0 \<longrightarrow> cmd' = x)"
  using assms
proof (induction rds arbitrary: count cmd)
  case (Cons r rds)
  obtain e lg where r: "r = (e, lg)" by (cases r)
  have e: "e = NoErr" and v: "lg index = Some v \<Longrightarrow> v = x" for v using Cons.prems(1) r by auto
  have tl: "\<forall>(e, lg)\<in>set rds. e = NoErr \<and> (\<forall>v. lg index = Some v \<longrightarrow> v = x)" using Cons.prems(1) by simp
  show ?case
  proof (cases "lg index")
    case None
    with Cons.IH [OF tl Cons.prems(2)] show ?thesis by (simp add: r e)
  next
    case (Some w)
    with v have "w = x" by simp
    with Cons.IH [OF tl, of "Suc count" x] Some Cons.prems(2) show ?thesis by (auto simp: r e)
  qed
qed simp

text \<open>
  C19: \<open>nCommitted\<close> never finds servers that disagree, in any execution of a cluster under test without
  snapshots and without a term setback. It reads the servers one after the other while the
  cluster and the appliers run on; it never finds an error that an applier has reported, and whatever
  it reads, it returns the number of servers that have applied a command at the index and, if there are any, the one command all of them have.
\<close>

theorem nCommitted_agrees:
  assumes "test_path n \<sigma>"
  shows "\<exists>cmd. nCommitted (readings n \<sigma>) index = Pass (card {j. j < n \<and> (cf_logs (ts_cfg (\<sigma> j)) ! j) index \<noteq> None}, cmd) \<and>
    (\<forall>j<n. \<forall>v. (cf_logs (ts_cfg (\<sigma> j)) ! j) index = Some v \<longrightarrow> v = cmd)"
proof -
  let ?l = "\<lambda>j. cf_logs (ts_cfg (\<sigma> j)) ! j"
  from test_path_decided [OF assms, of n] obtain h where h: "tested_ok n h (\<sigma> n)" "\<And>j. j \<le> n \<Longrightarrow> recorded n h (ts_cfg (\<sigma> j))" by blast
  have ho: "hist_ok n (terms (ts_cluster (\<sigma> n))) (lead h) (whole h) (acc h)" using h(1) by (auto simp: tested_ok_def intro: safe_hist)
  have dec: "\<exists>c. v = Some c \<and> decided n h index c" if "j < n" "?l j index = Some v" for j v
    using h(2) [of j] that unfolding recorded_def by auto
  obtain x where x: "\<And>j v. j < n \<Longrightarrow> ?l j index = Some v \<Longrightarrow> v = x"
  proof (cases "\<exists>j<n. \<exists>v. ?l j index = Some v")
    case True
    then obtain j v where "j < n" "?l j index = Some v" by blast
    with dec obtain c where "decided n h index c" by blast
    with dec decided_unique [OF ho] show thesis by (intro that [of "Some c"]) blast
  qed (use that in blast)
  have f: "length (filter (\<lambda>(e, lg). lg index \<noteq> None) (readings n \<sigma>)) = card {j. j < n \<and> ?l j index \<noteq> None}"
  proof -
    have "filter (\<lambda>(e, lg). lg index \<noteq> None) (readings n \<sigma>) =
      map (\<lambda>j. (cf_applyErr (ts_cfg (\<sigma> j)) ! j, ?l j)) (filter (\<lambda>j. ?l j index \<noteq> None) [0..<n])"
      by (simp add: readings_def filter_map comp_def)
    moreover have "length (filter (\<lambda>j. ?l j index \<noteq> None) [0..<n]) = card (set (filter (\<lambda>j. ?l j index \<noteq> None) [0..<n]))"
      by (rule distinct_card [symmetric]) simp
    moreover have "set (filter (\<lambda>j. ?l j index \<noteq> None) [0..<n]) = {j. j < n \<and> ?l j index \<noteq> None}" by auto
    ultimately show ?thesis by simp
  qed
  have "\<exists>cmd'. committed_loop index 0 None (readings n \<sigma>) = Pass (0 + length (filter (\<lambda>(e, lg). lg index \<noteq> None) (readings n \<sigma>)), cmd') \<and>
    (0 + length (filter (\<lambda>(e, lg). lg index \<noteq> None) (readings n \<sigma>)) > 0 \<longrightarrow> cmd' = x)"
    proof (rule committed_loop_agrees)
    have "cf_applyErr (ts_cfg (\<sigma> j)) ! j = NoErr" if "j < n" for j using h(2) [of j] that by (simp add: recorded_def)
    then show "\<forall>(e, lg)\<in>set (readings n \<sigma>). e = NoErr \<and> (\<forall>v. lg index = Some v \<longrightarrow> v = x)" by (auto simp: readings_def dest: x)
  qed simp
  then obtain cmd where cmd: "nCommitted (readings n \<sigma>) index = Pass (card {j. j < n \<and> ?l j index \<noteq> None}, cmd)"
    "card {j. j < n \<and> ?l j index \<noteq> None} > 0 \<longrightarrow> cmd = x" unfolding nCommitted_def f by auto
  have "v = cmd" if "j < n" "?l j index = Some v" for j v
  proof -
    have "j \<in> {j. j < n \<and> ?l j index \<noteq> None}" using that by simp
    then have "card {j. j < n \<and> ?l j index \<noteq> None} > 0" by (auto simp: card_gt_0_iff)
    with cmd(2) x [OF that] show ?thesis by simp
  qed
  with cmd(1) show ?thesis by blast
qed

section \<open>One leader\<close>

text \<open>A sequence of states of one execution of the cluster, at which the harness asks for leaders.\<close>

definition cluster_path :: "nat \<Rightarrow> (nat \<Rightarrow> ('c, 's) cluster) \<Rightarrow> bool" where
  "cluster_path n \<sigma> \<longleftrightarrow> reachable_safe n (\<sigma> 0) \<and> (\<forall>k. \<exists>as. run_safe as (\<sigma> k) = Next (\<sigma> (Suc k)))"

lemma run_safe_append: "run_safe as s = Next t \<Longrightarrow> run_safe bs t = Next u \<Longrightarrow> run_safe (as @ bs) s = Next u"
  by (induction as arbitrary: s) (auto split: if_splits outcome.splits)

lemma run_safe_ns: "run_safe as s = Next t \<Longrightarrow> run_ns as s = Next t"
  by (induction as arbitrary: s) (auto simp: hazard_def split: if_splits outcome.splits)

lemma reachable_safe_ns: "reachable_safe n s \<Longrightarrow> reachable_ns n s"
  by (induction rule: reachable_safe.induct) (auto simp: hazard_def intro: reachable_ns.intros)

lemma cluster_path_run:
  assumes "cluster_path n \<sigma>"
  shows "\<exists>as. run_safe as (\<sigma> a) = Next (\<sigma> (a + d))"
proof (induction d)
  case 0
  show ?case by (intro exI [of _ "[]"]) simp
next
  case (Suc d)
  then obtain as bs where "run_safe as (\<sigma> a) = Next (\<sigma> (a + d))" "run_safe bs (\<sigma> (a + d)) = Next (\<sigma> (Suc (a + d)))"
    using assms unfolding cluster_path_def by blast
  with run_safe_append show ?case by (metis add_Suc_right)
qed

lemma cluster_path_reachable:
  assumes "cluster_path n \<sigma>"
  shows "reachable_safe n (\<sigma> a)"
proof -
  from cluster_path_run [OF assms, of 0 a] obtain as where "run_safe as (\<sigma> 0) = Next (\<sigma> a)" by auto
  with run_safe_reachable show ?thesis using assms unfolding cluster_path_def by blast
qed

lemma path_leaders:
  assumes "cluster_path n \<sigma>" "a \<le> b" "i < n" "j < n" "GetState (rft (nodes (\<sigma> a) ! i)) = (T, True)" "GetState (rft (nodes (\<sigma> b) ! j)) = (T, True)"
  shows "i = j"
proof -
  from cluster_path_run [OF assms(1), of a "b - a"] assms(2) obtain as where "run_safe as (\<sigma> a) = Next (\<sigma> b)" by auto
  with leader_run [OF reachable_safe_ns run_safe_ns] cluster_path_reachable [OF assms(1), of a] assms(3-6) show ?thesis by blast
qed

text \<open>What the map of leaders holds after a look at some servers.\<close>

definition leaders_map :: "('c, 'o, 'v, 'b) config \<Rightarrow> (nat \<Rightarrow> int \<times> bool) \<Rightarrow> nat set \<Rightarrow> (int \<times> nat list) list \<Rightarrow> bool" where
  "leaders_map cfg g J L \<longleftrightarrow> distinct (map fst L) \<and> (\<forall>t ls. map_of L t = Some ls \<longrightarrow> ls \<noteq> [] \<and> distinct ls \<and>
     (\<forall>i\<in>set ls. i \<in> J \<and> cf_connected cfg ! i \<and> g i = (t, True)))"

lemma collect_leaders_map:
  assumes "leaders_map cfg g J L" "distinct js" "set js \<inter> J = {}"
  shows "leaders_map cfg g (J \<union> set js) (collect_leaders cfg g js L)"
  using assms
proof (induction js arbitrary: J L)
  case (Cons i js)
  obtain t ld where g: "g i = (t, ld)" by (cases "g i")
  let ?L = "if cf_connected cfg ! i then (let (term, leader) = g i in
        if leader then AList.update term ((case map_of L term of Some l \<Rightarrow> l | None \<Rightarrow> []) @ [i]) L else L) else L"
  have i: "i \<notin> J" using Cons.prems(3) by auto
  have "leaders_map cfg g (insert i J) ?L"
  proof (cases "cf_connected cfg ! i \<and> ld")
    case True
    then have L: "?L = AList.update t ((case map_of L t of Some l \<Rightarrow> l | None \<Rightarrow> []) @ [i]) L" by (simp add: g)
    show ?thesis
      unfolding L using Cons.prems(1) True g i
      by (auto simp: leaders_map_def distinct_update update_conv' split: option.splits if_splits)
  next
    case False
    then have "?L = L" by (auto simp: g)
    with Cons.prems(1) show ?thesis by (force simp: leaders_map_def)
  qed
  from Cons.IH [OF this] Cons.prems(2,3) show ?case by simp
qed simp

lemma collect_leaders_all:
  "t \<in> fst ` set L \<or> (\<exists>i\<in>set js. cf_connected cfg ! i \<and> g i = (t, True)) \<Longrightarrow> t \<in> fst ` set (collect_leaders cfg g js L)"
proof (induction js arbitrary: L)
  case (Cons i js)
  let ?L = "if cf_connected cfg ! i then (let (term, leader) = g i in
        if leader then AList.update term ((case map_of L term of Some l \<Rightarrow> l | None \<Rightarrow> []) @ [i]) L else L) else L"
  have "t \<in> fst ` set ?L \<or> (\<exists>i\<in>set js. cf_connected cfg ! i \<and> g i = (t, True))"
    using Cons.prems by (auto simp: update_conv' simp flip: dom_map_of_conv_image_fst split: prod.splits)
  with Cons.IH show ?case by simp
qed simp

lemma scan_leaders_max:
  assumes "\<forall>(t, ls)\<in>set L. length ls \<le> 1"
  shows "\<exists>m. scan_leaders L lt = (Pass m :: ('c, int) verdict) \<and> (m = lt \<or> m \<in> fst ` set L) \<and> lt \<le> m \<and> (\<forall>t\<in>fst ` set L. t \<le> m)"
  using assms
proof (induction L arbitrary: lt)
  case (Cons e L)
  obtain t ls where e: "e = (t, ls)" by (cases e)
  let ?l = "if t > lt then t else lt"
  have "\<exists>m. scan_leaders L ?l = (Pass m :: ('c, int) verdict) \<and> (m = ?l \<or> m \<in> fst ` set L) \<and> ?l \<le> m \<and> (\<forall>t\<in>fst ` set L. t \<le> m)"
    using Cons.prems by (intro Cons.IH) simp
  moreover have "\<not> length ls > 1" using Cons.prems e by auto
  ultimately show ?case unfolding e by (auto split: if_splits)
qed simp

text \<open>The \<open>k\<close>-th look at the servers: server \<open>i\<close> is asked in the state \<open>k * n + i\<close>.\<close>

definition look :: "nat \<Rightarrow> (nat \<Rightarrow> ('c, 's) cluster) \<Rightarrow> nat \<Rightarrow> nat \<Rightarrow> int \<times> bool" where
  "look n \<sigma> k i = GetState (rft (nodes (\<sigma> (k * n + i)) ! i))"

lemma look_unique:
  assumes "cluster_path n \<sigma>" "i < n" "j < n" "look n \<sigma> k i = (T, True)" "look n \<sigma> k j = (T, True)"
  shows "i = j"
  using path_leaders [OF assms(1), of "k * n + i" "k * n + j" i j T] path_leaders [OF assms(1), of "k * n + j" "k * n + i" j i T] assms(2-5)
  unfolding look_def by (cases "i \<le> j") auto

lemma look_term:
  assumes "cluster_path n \<sigma>" "i < n"
  shows "0 \<le> fst (look n \<sigma> k i)"
proof -
  from reachable_history [OF cluster_path_reachable [OF assms(1)], of "k * n + i"] obtain h where "safe n h (\<sigma> (k * n + i))" by blast
  from safe_node [OF this assms(2)] show ?thesis by (simp add: look_def GetState_def node_safe_def)
qed

lemma one_look:
  fixes cfg :: "('c, 'o, 'v, 'b) config"
  assumes p: "cluster_path n \<sigma>" "cf_n cfg = n" and ord: "\<forall>xs. set (ord xs) = set xs"
    and L: "L = collect_leaders cfg (look n \<sigma> k) [0..<n] []"
  shows "\<exists>m. scan_leaders (ord L) (-1) = (Pass m :: ('c, int) verdict) \<and> (L \<noteq> [] \<longrightarrow> (\<exists>l. map_of L m = Some [l] \<and> l < n \<and>
    cf_connected cfg ! l \<and> look n \<sigma> k l = (m, True) \<and> (\<forall>t\<in>fst ` set L. t \<le> m)))"
proof -
  have lm: "leaders_map cfg (look n \<sigma> k) {..<n} L"
    using collect_leaders_map [of cfg "look n \<sigma> k" "{}" "[]" "[0..<n]"] L by (simp add: leaders_map_def lessThan_atLeast0)
  have one: "\<exists>l. ls = [l] \<and> l < n \<and> cf_connected cfg ! l \<and> look n \<sigma> k l = (t, True)" if "map_of L t = Some ls" for t ls
  proof -
    from lm that have ls: "ls \<noteq> []" "distinct ls" "\<forall>i\<in>set ls. i < n \<and> cf_connected cfg ! i \<and> look n \<sigma> k i = (t, True)"
      by (auto simp: leaders_map_def)
    then obtain l r where lr: "ls = l # r" by (cases ls) auto
    have "r = []"
    proof (rule ccontr)
      assume "r \<noteq> []"
      then have "hd r \<in> set ls" "hd r \<noteq> l" using ls(2) lr by auto
      with ls(3) lr look_unique [OF p(1), of "hd r" l k t] show False by auto
    qed
    with ls(3) lr show ?thesis by auto
  qed
  have eq: "set (ord L) = set L" using ord by simp
  have mo: "map_of L t = Some ls" if "(t, ls) \<in> set L" for t ls using lm that by (simp add: leaders_map_def map_of_is_SomeI)
  have small: "\<forall>(t, ls)\<in>set L. length ls \<le> 1" using one mo by fastforce
  obtain m where m: "scan_leaders (ord L) (-1) = (Pass m :: ('c, int) verdict)" "m = -1 \<or> m \<in> fst ` set L" "\<forall>t\<in>fst ` set L. t \<le> m"
    using scan_leaders_max [of "ord L" "-1", where 'c = 'c] small unfolding eq by blast
  have "\<exists>l. map_of L m = Some [l] \<and> l < n \<and> cf_connected cfg ! l \<and> look n \<sigma> k l = (m, True)" if ne: "L \<noteq> []"
  proof -
    obtain t ls where t: "(t, ls) \<in> set L" using ne by (cases L) auto
    then obtain l where "l < n" "look n \<sigma> k l = (t, True)" using one mo by blast
    with look_term [OF p(1), of l k] m(3) t have "m \<noteq> -1" by force
    with m(2) obtain ls' where "(m, ls') \<in> set L" by auto
    with one mo show ?thesis by blast
  qed
  with m show ?thesis by blast
qed

text \<open>
  C18: \<open>checkOneLeader\<close> never finds two leaders of a term, in any execution of the cluster without a
  term setback and without a conflicting install. It asks the connected servers one after
  the other, several times, while the cluster runs on: it returns a connected server that reported
  itself leader when it was asked, of the highest term that any server reported to lead in that
  round, or it reports that there was no leader in any round. The order in which Go visits the map
  of leaders does not matter.
\<close>

theorem checkOneLeader_finds:
  fixes cfg :: "('c, 'o, 'v, 'b) config"
  assumes "cluster_path n \<sigma>" "cf_n cfg = n" "\<forall>xs. set (ord xs) = set xs"
  shows "checkOneLeader cfg ord (map (look n \<sigma>) ks) = Fatal NoLeader \<or>
    (\<exists>k\<in>set ks. \<exists>l<n. \<exists>t. checkOneLeader cfg ord (map (look n \<sigma>) ks) = Pass l \<and> cf_connected cfg ! l \<and>
      look n \<sigma> k l = (t, True) \<and> (\<forall>i<n. \<forall>t'. cf_connected cfg ! i \<and> look n \<sigma> k i = (t', True) \<longrightarrow> t' \<le> t))"
proof (induction ks)
  case (Cons k ks)
  define L where "L = collect_leaders cfg (look n \<sigma> k) [0..<n] []"
  from one_look [OF assms L_def] obtain m where m: "scan_leaders (ord L) (-1) = (Pass m :: ('c, int) verdict)"
    "L \<noteq> [] \<longrightarrow> (\<exists>l. map_of L m = Some [l] \<and> l < n \<and> cf_connected cfg ! l \<and> look n \<sigma> k l = (m, True) \<and> (\<forall>t\<in>fst ` set L. t \<le> m))" by blast
  have e: "checkOneLeader cfg ord (map (look n \<sigma>) (k # ks)) = (if L \<noteq> []
      then (case map_of L m of Some (l # _) \<Rightarrow> Pass l | _ \<Rightarrow> Fatal GoPanic) else checkOneLeader cfg ord (map (look n \<sigma>) ks))"
    using m(1) assms(2) by (simp add: L_def)
  show ?case
  proof (cases "L = []")
    case True
    with e Cons.IH show ?thesis by auto
  next
    case False
    with m(2) obtain l where l: "map_of L m = Some [l]" "l < n" "cf_connected cfg ! l" "look n \<sigma> k l = (m, True)"
      "\<forall>t\<in>fst ` set L. t \<le> m" by blast
    have "t' \<le> m" if "i < n" "cf_connected cfg ! i" "look n \<sigma> k i = (t', True)" for i t'
    proof -
      have "t' \<in> fst ` set L" unfolding L_def by (rule collect_leaders_all) (use that in auto)
      with l(5) show ?thesis by blast
    qed
    with e False l(1-4) show ?thesis by auto
  qed
qed simp

section \<open>Witnesses\<close>

text \<open>Executions of a test as a list of what happens.\<close>

datatype 'c test_op = TestAct "('c, 'c item) action" | TestRecv nat

fun test_run :: "nat \<Rightarrow> 'c test_op list \<Rightarrow> ('c, 'o, 'v, 'b) tested \<Rightarrow> ('c, 'o, 'v, 'b) tested option" where
  "test_run n [] st = Some st"
| "test_run n (TestAct a # ops) st =
     (if plain a \<and> \<not> term_setback a (ts_cluster st)
      then (case tested_act a st of Next st' \<Rightarrow> test_run n ops st' | _ \<Rightarrow> None) else None)"
| "test_run n (TestRecv p # ops) st =
     (if p < n then (case tested_recv p st of Pass (Some st') \<Rightarrow> test_run n ops st' | _ \<Rightarrow> None) else None)"

lemma test_run_steps: "test_run n ops st = Some st' \<Longrightarrow> (tested_step n)\<^sup>*\<^sup>* st st'"
proof (induction n ops st rule: test_run.induct)
  case (2 n a ops st)
  then show ?case
    by (auto split: if_splits outcome.splits intro: converse_rtranclp_into_rtranclp step_act)
next
  case (3 n p ops st)
  then show ?case
    by (auto split: if_splits verdict.splits option.splits intro: converse_rtranclp_into_rtranclp step_recv)
qed simp

lemma tested_reach_steps: "(tested_step n)\<^sup>*\<^sup>* st st' \<Longrightarrow> tested_reach n st \<Longrightarrow> tested_reach n st'"
  by (induction rule: rtranclp_induct) (auto intro: tested_next)

text \<open>
  Two servers: server 0 is elected, a command is replicated, committed and applied by both, and
  the applier of server 0 has read it.
\<close>

definition tested_demo :: "nat test_op list" where
  "tested_demo = map TestAct [ElectionTimeout 0, Deliver 0, Return 0, ClientStart 0 7, Deliver 2, Return 2, ApplyTake 0, ApplyDone 0] @
     [TestRecv 0] @ map TestAct [HeartbeatTimeout 0, Deliver 3, ApplyTake 1, ApplyDone 1]"

definition on_tested :: "((nat, nat, nat, nat) config \<Rightarrow> (nat, nat, nat, nat) tested \<Rightarrow> bool) \<Rightarrow> bool" where
  "on_tested P = (case make_config 2 False 0 (demo_names 0) 0 [] of
     Pass cfg \<Rightarrow> (case test_run 2 tested_demo (tested_init 2 cfg) of Some st \<Rightarrow> P cfg st | None \<Rightarrow> False) | Fatal _ \<Rightarrow> False)"

lemma on_testedE:
  assumes "on_tested P"
  obtains cfg st where "make_config 2 False 0 (demo_names 0) 0 [] = Pass cfg" "(tested_step 2)\<^sup>*\<^sup>* (tested_init 2 cfg) st"
    "tested_reach 2 st" "P cfg st"
proof -
  from assms obtain cfg st where c: "make_config 2 False 0 (demo_names 0) 0 [] = Pass cfg"
    "test_run 2 tested_demo (tested_init 2 cfg) = Some st" "P cfg st"
    by (auto simp: on_tested_def split: verdict.splits option.splits)
  note r = test_run_steps [OF c(2)]
  from that [OF c(1) r tested_reach_steps [OF r tested_start [OF make_config_fresh [OF c(1)]]] c(3)] show thesis .
qed

theorem tester_never_fails_witness:
  "\<exists>cfg st :: (nat, nat, nat, nat) tested. make_config 2 False 0 (demo_names 0) 0 [] = Pass cfg \<and>
     (tested_step 2)\<^sup>*\<^sup>* (tested_init 2 cfg) st \<and> ts_seen st = [1, 0] \<and> length (delivered (nodes (ts_cluster st) ! 1)) = 1 \<and>
     (\<forall>e. tested_recv 1 st \<noteq> Fatal e)"
proof -
  have "on_tested (\<lambda>cfg st. ts_seen st = [1, 0] \<and> length (delivered (nodes (ts_cluster st) ! 1)) = 1)" by code_simp
  then obtain cfg and st :: "(nat, nat, nat, nat) tested" where s: "make_config 2 False 0 (demo_names 0) 0 [] = Pass cfg"
    "(tested_step 2)\<^sup>*\<^sup>* (tested_init 2 cfg) st" "ts_seen st = [1, 0] \<and> length (delivered (nodes (ts_cluster st) ! 1)) = 1"
    by (elim on_testedE)
  have "tested_recv 1 st \<noteq> Fatal e" for e using tester_never_fails [OF s(1,2), of 1 e] by simp
  with s show ?thesis by blast
qed

text \<open>Between the reading of server 0 and that of server 1, the applier of server 1 catches up.\<close>

theorem nCommitted_agrees_witness:
  "\<exists>\<sigma> :: nat \<Rightarrow> (nat, nat, nat, nat) tested. test_path 2 \<sigma> \<and> (cf_logs (ts_cfg (\<sigma> 0)) ! 1) 1 = None \<and>
     nCommitted (readings 2 \<sigma>) 1 = Pass (2, Some 7)"
proof -
  have "on_tested (\<lambda>cfg st. (cf_logs (ts_cfg st) ! 0) 1 = Some (Some 7) \<and> (cf_logs (ts_cfg st) ! 1) 1 = None \<and>
    (case test_run 2 [TestRecv 1] st of Some st' \<Rightarrow> (cf_logs (ts_cfg st') ! 1) 1 \<noteq> None | None \<Rightarrow> False))" by code_simp
  then obtain st st' :: "(nat, nat, nat, nat) tested" where s: "tested_reach 2 st" "(cf_logs (ts_cfg st) ! 0) 1 = Some (Some 7)"
    "(cf_logs (ts_cfg st) ! 1) 1 = None" "test_run 2 [TestRecv 1] st = Some st'" "(cf_logs (ts_cfg st') ! 1) 1 \<noteq> None"
    by (elim on_testedE) (auto split: option.splits)
  define \<sigma> where "\<sigma> = (\<lambda>k::nat. if k = 0 then st else st')"
  have p: "test_path 2 \<sigma>" using s(1) test_run_steps [OF s(4)] by (simp add: test_path_def \<sigma>_def)
  have two: "{j. j < 2 \<and> (cf_logs (ts_cfg (\<sigma> j)) ! j) 1 \<noteq> None} = {0, 1}"
    using s(2,5) by (auto simp: \<sigma>_def less_Suc_eq eval_nat_numeral)
  from nCommitted_agrees [OF p, of 1] obtain cmd where
    c: "nCommitted (readings 2 \<sigma>) 1 = Pass (card {j. j < 2 \<and> (cf_logs (ts_cfg (\<sigma> j)) ! j) 1 \<noteq> None}, cmd)"
    "\<forall>j<2. \<forall>v. (cf_logs (ts_cfg (\<sigma> j)) ! j) 1 = Some v \<longrightarrow> v = cmd" by blast
  have "cmd = Some 7" using spec [OF c(2), of 0] s(2) by (simp add: \<sigma>_def)
  moreover have "nCommitted (readings 2 \<sigma>) 1 = Pass (2, cmd)" using c(1) unfolding two by simp
  ultimately show ?thesis using p s(3) by (intro exI [of _ \<sigma>]) (simp add: \<sigma>_def)
qed

definition three_up :: "(nat, nat, nat, nat) config" where
  "three_up = (blank_config 3 0)\<lparr>cf_connected := [True, True, True]\<rparr>"

theorem checkOneLeader_finds_witness:
  "\<exists>s :: (nat, nat) cluster. cluster_path 3 (\<lambda>_. s) \<and> checkOneLeader three_up rev (map (look 3 (\<lambda>_. s)) [0]) = Pass 0 \<and>
     (\<exists>t. look 3 (\<lambda>_. s) 0 0 = (t, True))"
proof -
  have "on_demo (\<lambda>s t. checkOneLeader three_up rev [\<lambda>i. GetState (rft (nodes s ! i))] = Pass 0)" by code_simp
  then obtain s :: "(nat, nat) cluster" where s: "reachable_safe 3 s" "checkOneLeader three_up rev [\<lambda>i. GetState (rft (nodes s ! i))] = Pass 0"
    by (elim on_demoE)
  have "look 3 (\<lambda>_. s) 0 = (\<lambda>i. GetState (rft (nodes s ! i)))" by (rule ext) (simp add: look_def)
  with s(2) have l: "checkOneLeader three_up rev (map (look 3 (\<lambda>_. s)) [0]) = Pass 0" by (simp only: list.map)
  have "run_safe [] s = Next s" by simp
  with s(1) have p: "cluster_path 3 (\<lambda>_. s)" unfolding cluster_path_def by blast
  have n: "cf_n three_up = 3" "\<forall>xs :: (int \<times> nat list) list. set (rev xs) = set xs" by (simp_all add: three_up_def blank_config_def)
  from checkOneLeader_finds [OF p n, of "[0]"] obtain t where "look 3 (\<lambda>_. s) 0 0 = (t, True)" unfolding l by auto
  with p l show ?thesis by blast
qed

text \<open>A running pair of servers, and the harness that holds them.\<close>

definition on_restart :: "((nat, nat, nat, nat) config \<Rightarrow> (nat, nat item) cluster \<Rightarrow> (nat, nat, nat, nat) config \<Rightarrow> (nat, nat item) cluster \<Rightarrow> bool) \<Rightarrow> bool" where
  "on_restart P = (case make_config 2 False 0 (demo_names 0) 0 [] of Pass cfg \<Rightarrow>
     (case run [ElectionTimeout 0, Deliver 0, Return 0, ClientStart 0 7] (init_cluster 2) of Next s \<Rightarrow>
        (let cfg = cfg\<lparr>cf_rafts := map (Some \<circ> rft) (nodes s)\<rparr> in
         case start1 cfg 0 (demo_names 1 0) 0 [] of Pass cfg' \<Rightarrow>
           (case act (Restart 0) s of Next t \<Rightarrow> P cfg s cfg' t | _ \<Rightarrow> False)
         | Fatal _ \<Rightarrow> False)
      | _ \<Rightarrow> False) | Fatal _ \<Rightarrow> False)"

lemma on_restartE:
  assumes "on_restart P"
  obtains cfg s cfg' t where "reachable 2 s" "start1 cfg 0 (demo_names 1 0) 0 [] = Pass cfg'" "act (Restart 0) s = Next t"
    "cf_rafts cfg = map (Some \<circ> rft) (nodes s)" "P cfg s cfg' t"
proof -
  obtain c0 :: "(nat, nat, nat, nat) config" where c0: "make_config 2 False 0 (demo_names 0) 0 [] = Pass c0"
    using assms by (auto simp: on_restart_def split: verdict.splits)
  obtain s :: "(nat, nat item) cluster" where s: "run [ElectionTimeout 0, Deliver 0, Return 0, ClientStart 0 7] (init_cluster 2) = Next s"
    using assms by (auto simp: on_restart_def c0 simp del: run.simps split: outcome.splits)
  let ?cfg = "c0\<lparr>cf_rafts := map (Some \<circ> rft) (nodes s)\<rparr>"
  obtain cfg' where c: "start1 ?cfg 0 (demo_names 1 0) 0 [] = Pass cfg'"
    using assms by (auto simp: on_restart_def c0 s Let_def simp del: run.simps One_nat_def split: verdict.splits)
  obtain t where t: "act (Restart 0) s = Next t"
    using assms by (auto simp: on_restart_def c0 s c Let_def simp del: run.simps act.simps One_nat_def split: outcome.splits)
  have "P ?cfg s cfg' t" using assms by (simp add: on_restart_def c0 s c t Let_def del: run.simps act.simps One_nat_def)
  with run_reachable [OF reach_init s] c t show thesis by (intro that [of s ?cfg cfg' t]) simp_all
qed

theorem start1_is_restart_witness:
  "\<exists>(cfg :: (nat, nat, nat, nat) config) s cfg' t. reachable 2 s \<and> synced_config cfg s \<and> start1 cfg 0 (demo_names 1 0) 0 [] = Pass cfg' \<and>
     act (Restart 0) s = Next t \<and> role (rft (nodes s ! 0)) = LEADER \<and> cf_rafts cfg' ! 0 = Some (rft (nodes t ! 0)) \<and>
     length (logs (rft (nodes t ! 0))) = 2"
proof -
  have "on_restart (\<lambda>cfg s cfg' t. (length (cf_saved cfg) = length (nodes s) \<and> length (cf_lastApplied cfg) = length (nodes s) \<and>
    cf_n cfg = length (nodes s)) \<and> snapshot (persister (rft (nodes s ! 0))) = [] \<and> role (rft (nodes s ! 0)) = LEADER \<and>
    length (logs (rft (nodes t ! 0))) = 2)" by code_simp
  then obtain cfg :: "(nat, nat, nat, nat) config" and s cfg' t where
    s: "reachable 2 s" "start1 cfg 0 (demo_names 1 0) 0 [] = Pass cfg'" "act (Restart 0) s = Next t"
    "cf_rafts cfg = map (Some \<circ> rft) (nodes s)" "length (cf_saved cfg) = length (nodes s) \<and> length (cf_lastApplied cfg) = length (nodes s) \<and>
    cf_n cfg = length (nodes s)" "snapshot (persister (rft (nodes s ! 0))) = []" "role (rft (nodes s ! 0)) = LEADER"
    "length (logs (rft (nodes t ! 0))) = 2"
    by (elim on_restartE) blast
  have y: "synced_config cfg s" using s(4,5) by (simp add: synced_config_def)
  from start1_is_restart [OF s(1) _ y s(6,2,3)] have "cf_rafts cfg' ! 0 = Some (rft (nodes t ! 0))" by simp
  with s y show ?thesis by blast
qed

section \<open>A snapshot overtakes entries\<close>

text \<open>
  Peer 1 has committed the command at index 1 and its applier goroutine has taken it, but has not
  sent it yet. Meanwhile the leader commits index 2 with peer 2, compacts its log and offers peer 1
  the snapshot up to index 2.
\<close>

definition overtake_run :: "(nat, nat item) action list" where
  "overtake_run =
     [ElectionTimeout 0, Deliver 0, Return 0, ClientStart 0 7, Deliver 4, Return 4, HeartbeatTimeout 0, Deliver 6, ApplyTake 1,
      Deliver 3, ClientStart 0 8, Deliver 9, Return 9, ApplyTake 0, ApplyDone 0,
      TakeSnapshot 0 2 [IInt 2, ILog [None, Some 7, Some 8]], HeartbeatTimeout 0, Deliver 10]"

text \<open>What the snapshotting applier of server 1 makes of two messages, the first read in the state of \<open>rf\<close>.\<close>

definition reads_two :: "(nat, nat item) raft \<Rightarrow> (nat, nat item) raft \<Rightarrow> (nat, nat item) ApplyMsg list \<Rightarrow> bool" where
  "reads_two rf rf' ms = (case applierSnap_recv (blank_config 3 0 :: (nat, nat, nat, nat) config) rf 1 (ms ! 0) of
     Pass (cfg, rf1) \<Rightarrow> rf1 = rf' \<and> (case applierSnap_recv cfg rf1 1 (ms ! 1) of Fatal e \<Rightarrow> e = ApplyError (Expected 1 3 1) | _ \<Rightarrow> False)
   | _ \<Rightarrow> False)"

lemma reads_twoD:
  assumes "reads_two rf rf' ms"
  shows "\<exists>cfg'. applierSnap_recv (blank_config 3 0 :: (nat, nat, nat, nat) config) rf 1 (ms ! 0) = Pass (cfg', rf') \<and>
    applierSnap_recv cfg' rf' 1 (ms ! 1) = Fatal (ApplyError (Expected 1 3 1))"
proof -
  from assms obtain cfg rf1 where c: "applierSnap_recv (blank_config 3 0 :: (nat, nat, nat, nat) config) rf 1 (ms ! 0) = Pass (cfg, rf1)"
    by (auto simp: reads_two_def split: verdict.split_asm)
  with assms have "applierSnap_recv cfg rf1 1 (ms ! 1) = Fatal (ApplyError (Expected 1 3 1))" "rf1 = rf'"
    by (cases "applierSnap_recv cfg rf1 1 (ms ! 1)"; simp add: reads_two_def)+
  with c show ?thesis by blast
qed

text \<open>
  C34: The order of the apply channel can break around a snapshot. The applier goroutine sends a
  batch without the lock, and the snapshot is sent by a goroutine of its own: a cluster of three
  peers reaches, with no term setback and no conflicting install, a state in which the service of
  peer 1 installs the snapshot of index 2 and then receives the command at index 1, so that the
  harness ends the test, as it expects index 3.
\<close>

theorem snapshot_overtakes_entries:
  "\<exists>(s :: (nat, nat item) cluster) t u. reachable_safe 3 s \<and> act (InstallSnap 1 0) s = Next t \<and> act (ApplyDone 1) t = Next u \<and>
     map SnapshotIndex (delivered (nodes u ! 1)) = [2, 0] \<and> map CommandIndex (delivered (nodes u ! 1)) = [0, 1] \<and>
     (\<exists>cfg'. applierSnap_recv (blank_config 3 0 :: (nat, nat, nat, nat) config) (rft (nodes s ! 1)) 1 (delivered (nodes u ! 1) ! 0) =
          Pass (cfg', rft (nodes t ! 1)) \<and>
        applierSnap_recv cfg' (rft (nodes t ! 1)) 1 (delivered (nodes u ! 1) ! 1) = Fatal (ApplyError (Expected 1 3 1)))"
proof -
  let ?Q = "\<lambda>s t u. map SnapshotIndex (delivered (nodes u ! 1)) = [2, 0] \<and> map CommandIndex (delivered (nodes u ! 1)) = [0, 1] \<and>
    reads_two (rft (nodes s ! 1)) (rft (nodes t ! 1)) (delivered (nodes u ! 1))"
  have "case run_safe overtake_run (init_cluster 3) of Next s \<Rightarrow> (case act (InstallSnap 1 0) s of Next t \<Rightarrow>
      (case act (ApplyDone 1) t of Next u \<Rightarrow> ?Q s t u | _ \<Rightarrow> False) | _ \<Rightarrow> False) | _ \<Rightarrow> False" by code_simp
  then obtain s t u where s: "run_safe overtake_run (init_cluster 3) = Next s" "act (InstallSnap 1 0) s = Next t"
    "act (ApplyDone 1) t = Next u" "?Q s t u"
    by (auto simp del: act.simps One_nat_def split: outcome.splits)
  from s(4) have "reads_two (rft (nodes s ! 1)) (rft (nodes t ! 1)) (delivered (nodes u ! 1))" by blast
  note reads_twoD [OF this]
  with s(2-4) run_safe_reachable [OF safe_init s(1)] show ?thesis
    by (intro exI [of _ s] exI [of _ t] exI [of _ u] conjI) (assumption | blast)+
qed

end
