(* ===== verification/Sessions.thy ===== *)
theory Sessions
  imports Prelude
begin

text \<open>
  What the replicated services (kvraft, shardctrler, shardkv) share: the duplicate
  detection of client requests. Every service applies the commands of the Raft log one by
  one; a command that changes the state carries the client's identity and a command number,
  and the service remembers for each client the greatest number applied and its reply. The
  interface \<open>session_machine\<close> states what such a step does; from it follow the exactly-once
  execution of a log with repeated requests and the stability of replies. Each service
  interprets it on its own apply function.
\<close>

section \<open>Logs of commands\<close>

text \<open>Running a log: the replies in order, and \<^term>\<open>None\<close> if a command panics.\<close>

fun run_log :: "('st \<Rightarrow> 'op \<Rightarrow> ('st \<times> 'r) option) \<Rightarrow> 'st \<Rightarrow> 'op list \<Rightarrow> ('st \<times> 'r list) option" where
  "run_log step st [] = Some (st, [])"
| "run_log step st (op # ops) = do {
     (st1, r) \<leftarrow> step st op;
     (st2, rs) \<leftarrow> run_log step st1 ops;
     Some (st2, r # rs)
   }"

lemma run_log_length: "run_log step st ops = Some (st', rs) \<Longrightarrow> length rs = length ops"
  by (induction ops arbitrary: st rs) (auto simp: bind_Some_iff)

text \<open>The commands of a log that take effect, given the greatest number applied per client.\<close>

fun effective ::
  "('op \<Rightarrow> bool) \<Rightarrow> ('op \<Rightarrow> int) \<Rightarrow> ('op \<Rightarrow> int) \<Rightarrow> (int \<Rightarrow> int option) \<Rightarrow> 'op list \<Rightarrow> 'op list" where
  "effective reads client number mx [] = []"
| "effective reads client number mx (op # ops) =
     (if reads op then op # effective reads client number mx ops
      else if (case mx (client op) of None \<Rightarrow> False | Some c \<Rightarrow> number op \<le> c)
      then effective reads client number mx ops
      else op # effective reads client number (mx(client op \<mapsto> number op)) ops)"

lemma effective_above:
  assumes "op \<in> set (effective reads client number mx ops)" "\<not> reads op" "mx (client op) = Some c"
  shows "c < number op"
  using assms
proof (induction ops arbitrary: mx c)
  case (Cons x xs)
  show ?case
  proof (cases "reads x")
    case True
    with Cons show ?thesis by auto
  next
    case nr: False
    show ?thesis
    proof (cases "case mx (client x) of None \<Rightarrow> False | Some c \<Rightarrow> number x \<le> c")
      case True
      with Cons nr show ?thesis by auto
    next
      case False
      show ?thesis
      proof (cases "op = x")
        case True
        with False Cons.prems(3) show ?thesis by simp
      next
        case diff: False
        with Cons.prems(1) nr False have in_rest:
          "op \<in> set (effective reads client number (mx(client x \<mapsto> number x)) xs)" by simp
        show ?thesis
        proof (cases "client x = client op")
          case True
          with Cons.IH [OF in_rest Cons.prems(2), of "number x"] False Cons.prems(3) show ?thesis by simp
        next
          case other: False
          with Cons.IH [OF in_rest Cons.prems(2), of c] Cons.prems(3) show ?thesis by simp
        qed
      qed
    qed
  qed
qed simp

text \<open>No request takes effect twice: its client and number identify it among the effective writes.\<close>

lemma effective_once:
  "distinct (map (\<lambda>op. (client op, number op))
     (filter (\<lambda>op. \<not> reads op) (effective reads client number mx ops)))"
proof (induction ops arbitrary: mx)
  case (Cons x xs)
  have "(client x, number x) \<notin> (\<lambda>op. (client op, number op)) `
    {op \<in> set (effective reads client number (mx(client x \<mapsto> number x)) xs). \<not> reads op}"
  proof
    assume "(client x, number x) \<in> (\<lambda>op. (client op, number op)) `
      {op \<in> set (effective reads client number (mx(client x \<mapsto> number x)) xs). \<not> reads op}"
    then obtain op where op: "op \<in> set (effective reads client number (mx(client x \<mapsto> number x)) xs)"
      "\<not> reads op" "client op = client x" "number op = number x" by auto
    with effective_above [OF op(1,2), of "number x"] show False by simp
  qed
  with Cons.IH show ?case by (auto simp: set_filter)
qed simp

text \<open>
  What a log means by itself: the reads, and the first occurrence of each write, whatever its
  number. A clerk issues one request at a time and numbers them upwards, so in a log of clerks a
  write is a repetition of an earlier one, or its number is above those of its client before.
\<close>

fun first_writes :: "('op \<Rightarrow> bool) \<Rightarrow> ('op \<Rightarrow> int) \<Rightarrow> ('op \<Rightarrow> int) \<Rightarrow> (int \<times> int) set \<Rightarrow> 'op list \<Rightarrow> 'op list" where
  "first_writes reads client number seen [] = []"
| "first_writes reads client number seen (op # ops) =
     (if reads op then op # first_writes reads client number seen ops
      else if (client op, number op) \<in> seen then first_writes reads client number seen ops
      else op # first_writes reads client number (insert (client op, number op) seen) ops)"

fun clerk_ordered :: "('op \<Rightarrow> bool) \<Rightarrow> ('op \<Rightarrow> int) \<Rightarrow> ('op \<Rightarrow> int) \<Rightarrow> (int \<times> int) set \<Rightarrow> 'op list \<Rightarrow> bool" where
  "clerk_ordered reads client number seen [] \<longleftrightarrow> True"
| "clerk_ordered reads client number seen (op # ops) \<longleftrightarrow>
     (if reads op then clerk_ordered reads client number seen ops
      else ((client op, number op) \<in> seen \<or> (\<forall>(c, n)\<in>seen. c = client op \<longrightarrow> n < number op)) \<and>
        clerk_ordered reads client number (insert (client op, number op) seen) ops)"

definition highest_seen :: "(int \<times> int) set \<Rightarrow> (int \<Rightarrow> int option) \<Rightarrow> bool" where
  "highest_seen seen mx \<longleftrightarrow> (\<forall>c n. (c, n) \<in> seen \<longrightarrow> (\<exists>m. mx c = Some m \<and> n \<le> m)) \<and> (\<forall>c m. mx c = Some m \<longrightarrow> (c, m) \<in> seen)"

lemma effective_first:
  assumes "clerk_ordered reads client number seen ops" "highest_seen seen mx"
  shows "effective reads client number mx ops = first_writes reads client number seen ops"
  using assms
proof (induction ops arbitrary: seen mx)
  case (Cons op ops)
  let ?c = "client op" and ?n = "number op"
  show ?case
  proof (cases "reads op")
    case False
    show ?thesis
    proof (cases "(?c, ?n) \<in> seen")
      case True
      with Cons.prems(2) obtain m where "mx ?c = Some m" "?n \<le> m" unfolding highest_seen_def by blast
      with Cons False True show ?thesis by (simp add: insert_absorb)
    next
      case new: False
      with Cons.prems(1) False have above: "\<forall>(c, n)\<in>seen. c = ?c \<longrightarrow> n < ?n" by simp
      have no: "\<not> (case mx ?c of None \<Rightarrow> False | Some m \<Rightarrow> ?n \<le> m)"
        using above Cons.prems(2) by (force simp: highest_seen_def split: option.splits)
      have "highest_seen (insert (?c, ?n) seen) (mx(?c \<mapsto> ?n))"
        using above Cons.prems(2) by (fastforce simp: highest_seen_def)
      then have "effective reads client number (mx(?c \<mapsto> ?n)) ops = first_writes reads client number (insert (?c, ?n) seen) ops"
        by (rule Cons.IH [rotated]) (use Cons.prems(1) False in simp)
      with False new no show ?thesis by (simp only: effective.simps first_writes.simps if_False)
    qed
  qed (use Cons in simp)
qed simp

lemma clerk_ordered_zip:
  assumes "length rs = length ops"
  shows "clerk_ordered (\<lambda>x. reads (fst x)) (\<lambda>x. client (fst x)) (\<lambda>x. number (fst x)) seen (zip ops rs) = clerk_ordered reads client number seen ops"
  using assms by (induction ops rs arbitrary: seen rule: list_induct2') auto

section \<open>The interface\<close>

locale session_machine =
  fixes step :: "'st \<Rightarrow> 'op \<Rightarrow> ('st \<times> 'r) option"
    and machine :: "'st \<Rightarrow> 'm"
    and session :: "'st \<Rightarrow> int \<Rightarrow> (int \<times> 'r) option"
    and apply_op :: "'m \<Rightarrow> 'op \<Rightarrow> ('m \<times> 'r) option"
    and reads :: "'op \<Rightarrow> bool" and client :: "'op \<Rightarrow> int" and number :: "'op \<Rightarrow> int"
  assumes step_dup: "\<not> reads op \<Longrightarrow> session st (client op) = Some (c, r) \<Longrightarrow> number op \<le> c \<Longrightarrow>
      step st op = Some (st, r)"
    and step_exec: "reads op \<or> (\<forall>c r. session st (client op) = Some (c, r) \<longrightarrow> c < number op) \<Longrightarrow>
      step st op = Some (st', r) \<Longrightarrow>
      apply_op (machine st) op = Some (machine st', r) \<and>
      session st' = (if reads op then session st else (session st)(client op \<mapsto> (number op, r)))"
begin

abbreviation highest :: "'st \<Rightarrow> int \<Rightarrow> int option" where
  "highest st c \<equiv> map_option fst (session st c)"

lemma exec_or_dup:
  obtains (dup) c r where "\<not> reads op" "session st (client op) = Some (c, r)" "number op \<le> c"
  | (exec) "reads op \<or> (\<forall>c r. session st (client op) = Some (c, r) \<longrightarrow> c < number op)"
  by (cases "session st (client op)") (auto simp: not_le [symmetric])

text \<open>Exactly once: running a log is running its effective commands on the machine.\<close>

lemma exactly_once_replies:
  assumes "run_log step st ops = Some (st', rs)"
  shows "\<exists>rs'. run_log apply_op (machine st) (effective reads client number (highest st) ops) = Some (machine st', rs') \<and>
    zip (effective reads client number (highest st) ops) rs' =
      effective (\<lambda>x. reads (fst x)) (\<lambda>x. client (fst x)) (\<lambda>x. number (fst x)) (highest st) (zip ops rs)"
  using assms
proof (induction ops arbitrary: st rs)
  case (Cons op ops)
  from Cons.prems obtain st1 r rs1 where s: "step st op = Some (st1, r)" "run_log step st1 ops = Some (st', rs1)" "rs = r # rs1"
    by (auto simp: bind_Some_iff)
  from Cons.IH [OF s(2)] obtain rs' where
    ih: "run_log apply_op (machine st1) (effective reads client number (highest st1) ops) = Some (machine st', rs')"
      "zip (effective reads client number (highest st1) ops) rs' =
        effective (\<lambda>x. reads (fst x)) (\<lambda>x. client (fst x)) (\<lambda>x. number (fst x)) (highest st1) (zip ops rs1)"
    by blast
  show ?case
  proof (cases rule: exec_or_dup [of op st])
    case (dup c r')
    with step_dup [OF dup] s ih show ?thesis by simp
  next
    case exec
    from step_exec [OF exec s(1)] have a: "apply_op (machine st) op = Some (machine st1, r)"
      "session st1 = (if reads op then session st else (session st)(client op \<mapsto> (number op, r)))" by auto
    have h: "highest st1 = (if reads op then highest st else (highest st)(client op \<mapsto> number op))"
      using a(2) by auto
    have "effective reads client number (highest st) (op # ops) =
        op # effective reads client number (highest st1) ops"
      "effective (\<lambda>x. reads (fst x)) (\<lambda>x. client (fst x)) (\<lambda>x. number (fst x)) (highest st) (zip (op # ops) rs) =
        (op, r) # effective (\<lambda>x. reads (fst x)) (\<lambda>x. client (fst x)) (\<lambda>x. number (fst x)) (highest st1) (zip ops rs1)"
      using exec unfolding h s(3) by (cases "session st (client op)"; auto split: option.splits)+
    with a(1) ih show ?thesis by (intro exI [of _ "r # rs'"]) simp
  qed
qed simp

lemma exactly_once:
  assumes "run_log step st ops = Some (st', rs)"
  shows "\<exists>rs'. run_log apply_op (machine st) (effective reads client number (highest st) ops) =
    Some (machine st', rs')"
  using exactly_once_replies [OF assms] by blast

text \<open>In terms of the log alone, for the log of clerks from the start of the service.\<close>

lemma clerks_once:
  assumes "run_log step st ops = Some (st', rs)" "clerk_ordered reads client number {} ops" "session st = Map.empty"
  shows "\<exists>rs'. run_log apply_op (machine st) (first_writes reads client number {} ops) = Some (machine st', rs') \<and>
    zip (first_writes reads client number {} ops) rs' = first_writes (\<lambda>x. reads (fst x)) (\<lambda>x. client (fst x)) (\<lambda>x. number (fst x)) {} (zip ops rs)"
proof -
  have h: "highest_seen {} (highest st)" using assms(3) by (simp add: highest_seen_def)
  have "clerk_ordered (\<lambda>x. reads (fst x)) (\<lambda>x. client (fst x)) (\<lambda>x. number (fst x)) {} (zip ops rs)"
    using clerk_ordered_zip [OF run_log_length [OF assms(1)]] assms(2) by blast
  with exactly_once_replies [OF assms(1)] effective_first [OF assms(2) h] effective_first [OF _ h] show ?thesis by metis
qed

text \<open>What a log leaves in a session only grows in its number.\<close>

lemma session_grows:
  assumes "run_log step st ops = Some (st', rs)" "session st c = Some (n, r)"
  shows "\<exists>n' r'. session st' c = Some (n', r') \<and> n \<le> n' \<and> (n' = n \<longrightarrow> r' = r)"
  using assms
proof (induction ops arbitrary: st rs n r)
  case (Cons op ops)
  from Cons.prems obtain st1 q rs1 where s: "step st op = Some (st1, q)" "run_log step st1 ops = Some (st', rs1)"
    by (auto simp: bind_Some_iff)
  have "\<exists>n1 r1. session st1 c = Some (n1, r1) \<and> n \<le> n1 \<and> (n1 = n \<longrightarrow> r1 = r)"
  proof (cases rule: exec_or_dup [of op st])
    case (dup d r')
    with step_dup [OF dup] s(1) Cons.prems(2) show ?thesis by simp
  next
    case exec
    with step_exec [OF exec s(1)] Cons.prems(2) show ?thesis by (cases "reads op"; cases "c = client op") auto
  qed
  then obtain n1 r1 where n1: "session st1 c = Some (n1, r1)" "n \<le> n1" "n1 = n \<longrightarrow> r1 = r" by blast
  from Cons.IH [OF s(2) n1(1)] n1(2,3) show ?case by fastforce
qed simp

text \<open>A repeated request changes nothing, and it gets the reply of its first execution.\<close>

lemma retry:
  assumes "\<not> reads op" "step st op = Some (st1, r)"
    and "\<forall>n r. session st (client op) = Some (n, r) \<longrightarrow> n < number op"
    and "run_log step st1 ops = Some (st2, rs)"
    and "\<forall>x\<in>set ops. \<not> reads x \<longrightarrow> client x = client op \<longrightarrow> number x \<le> number op"
  shows "step st2 op = Some (st2, r)"
proof -
  have s1: "session st1 (client op) = Some (number op, r)"
    using step_exec [OF _ assms(2)] assms(1,3) by auto
  have "session st2 (client op) = Some (number op, r)"
    using assms(4,5) s1
  proof (induction ops arbitrary: st1 rs)
    case (Cons x xs)
    from Cons.prems(1) obtain st1' q rs1 where s: "step st1 x = Some (st1', q)" "run_log step st1' xs = Some (st2, rs1)"
      by (auto simp: bind_Some_iff)
    have "session st1' (client op) = Some (number op, r)"
    proof (cases rule: exec_or_dup [of x st1])
      case (dup d r')
      with step_dup [OF dup] s(1) Cons.prems(3) show ?thesis by simp
    next
      case exec
      with step_exec [OF exec s(1)] Cons.prems(2,3) show ?thesis by fastforce
    qed
    with Cons.IH [OF s(2)] Cons.prems(2) show ?case by simp
  qed simp
  with step_dup [OF assms(1)] show ?thesis by simp
qed

end

end
