(* ===== verification/KV_Machine.thy ===== *)
theory KV_Machine
  imports Prelude
begin

text \<open>
  The key/value state machine of package kvraft (kv.go) and the interface of a key/value
  store, which the shards of package shardkv provide as well. A Go map from strings to
  strings is a partial function; reading a missing key yields the empty string, as in
  \<open>mkv.KV[key] += value\<close>.
\<close>

type_synonym err = string

definition OK :: err where "OK = ''OK''"
definition ErrNoKey :: err where "ErrNoKey = ''ErrNoKey''"
definition ErrWrongLeader :: err where "ErrWrongLeader = ''ErrWrongLeader''"
definition ErrTimeOut :: err where "ErrTimeOut = ''ErrTimeOut''"

record MemoryKV =
  KV :: "string \<rightharpoonup> string"

definition newMemoryKV :: MemoryKV where
  "newMemoryKV = \<lparr>KV = Map.empty\<rparr>"

definition Get :: "MemoryKV \<Rightarrow> string \<Rightarrow> string \<times> err" where
  "Get mkv key = (case KV mkv key of Some value \<Rightarrow> (value, OK) | None \<Rightarrow> ('''', ErrNoKey))"

definition Put :: "MemoryKV \<Rightarrow> string \<Rightarrow> string \<Rightarrow> MemoryKV \<times> err" where
  "Put mkv key value = (mkv\<lparr>KV := (KV mkv)(key \<mapsto> value)\<rparr>, OK)"

definition Append :: "MemoryKV \<Rightarrow> string \<Rightarrow> string \<Rightarrow> MemoryKV \<times> err" where
  "Append mkv key value =
     (mkv\<lparr>KV := (KV mkv)(key \<mapsto> (case KV mkv key of Some v \<Rightarrow> v | None \<Rightarrow> '''') @ value)\<rparr>, OK)"

lemma err_distinct [simp]:
  "OK \<noteq> ErrNoKey" "OK \<noteq> ErrWrongLeader" "OK \<noteq> ErrTimeOut" "ErrNoKey \<noteq> ErrWrongLeader"
  "ErrNoKey \<noteq> ErrTimeOut" "ErrWrongLeader \<noteq> ErrTimeOut"
  by (simp_all add: OK_def ErrNoKey_def ErrWrongLeader_def ErrTimeOut_def)

section \<open>The interface of a key/value store\<close>

text \<open>
  What the clients of a store rely on, through an abstraction of the store to a map: reads
  return what the map holds, writes change the map at one key only.
\<close>

locale kv_store =
  fixes get :: "'s \<Rightarrow> string \<Rightarrow> string \<times> err"
    and put :: "'s \<Rightarrow> string \<Rightarrow> string \<Rightarrow> 's \<times> err"
    and append :: "'s \<Rightarrow> string \<Rightarrow> string \<Rightarrow> 's \<times> err"
    and contents :: "'s \<Rightarrow> string \<rightharpoonup> string"
  assumes get_spec: "get st k = (case contents st k of Some v \<Rightarrow> (v, OK) | None \<Rightarrow> ('''', ErrNoKey))"
    and put_spec: "put st k v = (st', e) \<Longrightarrow> contents st' = (contents st)(k \<mapsto> v) \<and> e = OK"
    and append_spec: "append st k v = (st', e) \<Longrightarrow>
      contents st' = (contents st)(k \<mapsto> fst (get st k) @ v) \<and> e = OK"
begin

lemma get_put: "get (fst (put st k v)) k' = (if k' = k then (v, OK) else get st k')"
  using put_spec [of st k v] by (cases "put st k v") (auto simp: get_spec)

lemma get_append: "get (fst (append st k v)) k' = (if k' = k then (fst (get st k) @ v, OK) else get st k')"
  using append_spec [of st k v] by (cases "append st k v") (auto simp: get_spec)

text \<open>Appends to one key accumulate in order, and a put forgets them.\<close>

lemma appends_accumulate:
  "get (fold (\<lambda>v st. fst (append st k v)) vs (fst (put st k v0))) k = (v0 @ concat vs, OK)"
proof (induction vs rule: rev_induct)
  case Nil
  then show ?case by (simp add: get_put)
next
  case (snoc v vs)
  then show ?case by (simp add: get_append)
qed

lemma other_keys_kept:
  "k' \<noteq> k \<Longrightarrow> get (fold (\<lambda>v st. fst (append st k v)) vs st) k' = get st k'"
  by (induction vs arbitrary: st) (simp_all add: get_append)

end

interpretation mkv: kv_store Get Put Append KV
  by unfold_locales (auto simp: Get_def Put_def Append_def split: option.splits)

end
