(* ===== verification/KV_Server.thy ===== *)
theory KV_Server
  imports Raft_Node Sessions KV_Machine
begin

text \<open>
  The fault-tolerant key/value service (package kvraft): the server with its Raft peer, the
  request handler, the applier, snapshots, and the clerk. A Go channel is a buffer in a heap
  of channels, and \<open>notifyChans\<close> maps log indices to references into it, so that a handler
  that waits on a channel keeps it after the map has dropped it. The request handler is split
  at its waits; the server's Raft peer is the peer of theory Raft-Handlers with commands as
  log entries and encoded service state as snapshots.
\<close>

section \<open>Data\<close>

definition OP_PUT :: string where "OP_PUT = ''Put''"
definition OP_APPEND :: string where "OP_APPEND = ''Append''"
definition OP_GET :: string where "OP_GET = ''Get''"

record CommandArgs =
  Key :: string
  Value :: string
  Op :: string
  ClientId :: int
  CommandId :: int

record CommandReply =
  Err :: err
  ReplyValue :: string

record OperationInfo =
  MaxAppliedCommandId :: int
  LastReply :: CommandReply

text \<open>The values a snapshot of the service is made of.\<close>

datatype kv_gob = GKV MemoryKV | GOps "int \<rightharpoonup> OperationInfo"

record KVServer =
  kv_rf :: "(CommandArgs, kv_gob) raft"
  kv_dead :: bool
  kv_maxraftstate :: int
  kv_lastApplied :: int
  kv_stateMachine :: MemoryKV
  kv_lastOperations :: "int \<rightharpoonup> OperationInfo"
  kv_notifyChans :: "int \<rightharpoonup> nat"
  kv_chans :: "CommandReply list list"

section \<open>Helpers of the server\<close>

definition isDuplicatedRequest :: "KVServer \<Rightarrow> int \<Rightarrow> int \<Rightarrow> bool" where
  "isDuplicatedRequest kv clientId commandId =
     (case kv_lastOperations kv clientId of
        Some lastReply \<Rightarrow> commandId \<le> MaxAppliedCommandId lastReply
      | None \<Rightarrow> False)"

definition getNotifyChan :: "KVServer \<Rightarrow> int \<Rightarrow> KVServer \<times> nat" where
  "getNotifyChan kv index =
     (case kv_notifyChans kv index of
        Some ch \<Rightarrow> (kv, ch)
      | None \<Rightarrow>
          (let ch = length (kv_chans kv)
           in (kv\<lparr>kv_chans := kv_chans kv @ [[]],
                  kv_notifyChans := (kv_notifyChans kv)(index \<mapsto> ch)\<rparr>, ch)))"

definition removeOutdatedNotifyChan :: "KVServer \<Rightarrow> int \<Rightarrow> KVServer" where
  "removeOutdatedNotifyChan kv index = kv\<lparr>kv_notifyChans := (kv_notifyChans kv)(index := None)\<rparr>"

text \<open>Sending on a channel of capacity 1 blocks when it is full.\<close>

definition chan_send :: "KVServer \<Rightarrow> nat \<Rightarrow> CommandReply \<Rightarrow> KVServer outcome" where
  "chan_send kv ch reply =
     (if kv_chans kv ! ch = [] then Next (kv\<lparr>kv_chans := (kv_chans kv)[ch := [reply]]\<rparr>) else Disabled)"

definition applyToStateMachine :: "KVServer \<Rightarrow> CommandArgs \<Rightarrow> KVServer \<times> CommandReply" where
  "applyToStateMachine kv command =
     (let (sm, err, value) =
        (if Op command = OP_PUT
         then (let (sm, err) = Put (kv_stateMachine kv) (Key command) (Value command) in (sm, err, ''''))
         else if Op command = OP_APPEND
         then (let (sm, err) = Append (kv_stateMachine kv) (Key command) (Value command) in (sm, err, ''''))
         else if Op command = OP_GET
         then (let (value, err) = Get (kv_stateMachine kv) (Key command) in (kv_stateMachine kv, err, value))
         else (kv_stateMachine kv, '''', ''''))
      in (kv\<lparr>kv_stateMachine := sm\<rparr>, \<lparr>Err = err, ReplyValue = value\<rparr>))"

definition needSnapshot :: "(CommandArgs gob list \<Rightarrow> int) \<Rightarrow> KVServer \<Rightarrow> bool" where
  "needSnapshot bytes kv \<longleftrightarrow>
     kv_maxraftstate kv \<noteq> -1 \<and> GetRaftStateSize bytes (kv_rf kv) \<ge> kv_maxraftstate kv"

definition taskSnapshot :: "KVServer \<Rightarrow> int \<Rightarrow> KVServer option" where
  "taskSnapshot kv index = do {
     rf \<leftarrow> Snapshot (kv_rf kv) index ([] @ [GKV (kv_stateMachine kv)] @ [GOps (kv_lastOperations kv)]);
     Some (kv\<lparr>kv_rf := rf\<rparr>)
   }"

text \<open>
  Decoding stops at the first value that is missing or of another type; what was not decoded
  keeps its zero value, an empty store or an empty map. (In Go such a map is nil and the next write
  to it panics; a snapshot that a server took itself always decodes.)
\<close>

definition restoreSnapshot :: "KVServer \<Rightarrow> kv_gob list \<Rightarrow> KVServer" where
  "restoreSnapshot kv snap =
     (if snap = [] then kv
      else (case snap of
          GKV sm # GOps ops # _ \<Rightarrow> kv\<lparr>kv_stateMachine := sm, kv_lastOperations := ops\<rparr>
        | GKV sm # _ \<Rightarrow> kv\<lparr>kv_stateMachine := sm, kv_lastOperations := Map.empty\<rparr>
        | _ \<Rightarrow> kv\<lparr>kv_stateMachine := newMemoryKV, kv_lastOperations := Map.empty\<rparr>))"

section \<open>The request handler\<close>

text \<open>
  \<open>Command\<close> up to its first unlock: a repeated write is answered from the session. (A nil
  \<open>LastReply\<close> cannot occur; a session always holds a reply.)
\<close>

definition Command_check :: "KVServer \<Rightarrow> CommandArgs \<Rightarrow> CommandReply option" where
  "Command_check kv args =
     (if Op args \<noteq> OP_GET \<and> isDuplicatedRequest kv (ClientId args) (CommandId args)
      then map_option LastReply (kv_lastOperations kv (ClientId args))
      else None)"

text \<open>
  The call of \<open>Start\<close>: either the request is refused, or its log index is known. The third
  component are the messages Raft sends.
\<close>

definition Command_start ::
  "KVServer \<Rightarrow> CommandArgs \<Rightarrow>
   (KVServer \<times> (CommandReply + int) \<times> (nat \<times> (CommandArgs, kv_gob) rpc) list) option" where
  "Command_start kv args = do {
     (rf, (index, _, isLeader), out) \<leftarrow> Start (kv_rf kv) args;
     let kv = kv\<lparr>kv_rf := rf\<rparr>;
     if \<not> isLeader then Some (kv, Inl \<lparr>Err = ErrWrongLeader, ReplyValue = ''''\<rparr>, out)
     else Some (kv, Inr index, out)
   }"

text \<open>The wait: the channel delivers (\<open>Command_receive\<close>, blocked while it is empty) or the timer fires.\<close>

definition Command_receive :: "KVServer \<Rightarrow> nat \<Rightarrow> (KVServer \<times> CommandReply) outcome" where
  "Command_receive kv ch =
     (case kv_chans kv ! ch of
        [] \<Rightarrow> Disabled
      | result # rest \<Rightarrow> Next (kv\<lparr>kv_chans := (kv_chans kv)[ch := rest]\<rparr>, result))"

definition Command_timeout :: CommandReply where
  "Command_timeout = \<lparr>Err = ErrTimeOut, ReplyValue = ''''\<rparr>"

section \<open>The applier\<close>

definition apply_command :: "KVServer \<Rightarrow> CommandArgs \<Rightarrow> (KVServer \<times> CommandReply) option" where
  "apply_command kv command =
     (if Op command \<noteq> OP_GET \<and> isDuplicatedRequest kv (ClientId command) (CommandId command)
      then do { info \<leftarrow> kv_lastOperations kv (ClientId command); Some (kv, LastReply info) }
      else
        (let (kv, reply) = applyToStateMachine kv command;
             kv = (if Op command \<noteq> OP_GET
               then kv\<lparr>kv_lastOperations := (kv_lastOperations kv)(ClientId command \<mapsto>
                      \<lparr>MaxAppliedCommandId = CommandId command, LastReply = reply\<rparr>)\<rparr>
               else kv)
         in Some (kv, reply)))"

definition notify :: "KVServer \<Rightarrow> int \<Rightarrow> int \<Rightarrow> CommandReply \<Rightarrow> KVServer outcome" where
  "notify kv index term reply =
     (let (currentTerm, isLeader) = GetState (kv_rf kv)
      in if isLeader \<and> term = currentTerm
         then (let (kv, ch) = getNotifyChan kv index in chan_send kv ch reply)
         else Next kv)"

definition applier ::
  "(CommandArgs gob list \<Rightarrow> int) \<Rightarrow> KVServer \<Rightarrow> (CommandArgs, kv_gob) ApplyMsg \<Rightarrow> KVServer outcome" where
  "applier bytes kv msg =
     (if CommandValid msg
      then (if CommandIndex msg \<le> kv_lastApplied kv then Next kv
        else (let kv = kv\<lparr>kv_lastApplied := CommandIndex msg\<rparr>
          in case Command msg of
               None \<Rightarrow> Panic
             | Some command \<Rightarrow>
                 (case apply_command kv command of
                    None \<Rightarrow> Panic
                  | Some (kv, reply) \<Rightarrow>
                      (case notify kv (CommandIndex msg) (CommandTerm msg) reply of
                         Next kv \<Rightarrow>
                           (if needSnapshot bytes kv
                            then from_option (taskSnapshot kv (CommandIndex msg)) (\<lambda>kv. kv)
                            else Next kv)
                       | r \<Rightarrow> r))))
      else if SnapshotValid msg
      then from_option (CondInstallSnapshot (kv_rf kv) (SnapshotTerm msg) (SnapshotIndex msg) (Snapshot_data msg))
        (\<lambda>(rf, installed).
          let kv = kv\<lparr>kv_rf := rf\<rparr>
          in if installed then (restoreSnapshot kv (Snapshot_data msg))\<lparr>kv_lastApplied := SnapshotIndex msg\<rparr>
             else kv)
      else Panic)"

definition kv_Kill :: "KVServer \<Rightarrow> KVServer" where
  "kv_Kill kv = kv\<lparr>kv_dead := True, kv_rf := Kill (kv_rf kv)\<rparr>"

definition kv_killed :: "KVServer \<Rightarrow> bool" where
  "kv_killed kv = kv_dead kv"

definition StartKVServer ::
  "nat \<Rightarrow> nat \<Rightarrow> (CommandArgs, kv_gob) persister \<Rightarrow> int \<Rightarrow> KVServer option" where
  "StartKVServer servers self ps maxraftstate = do {
     rf \<leftarrow> Make servers self ps;
     let kv = \<lparr>kv_rf = rf, kv_dead = False, kv_maxraftstate = maxraftstate, kv_lastApplied = 0,
               kv_stateMachine = newMemoryKV, kv_lastOperations = Map.empty,
               kv_notifyChans = Map.empty, kv_chans = []\<rparr>;
     Some (restoreSnapshot kv (ReadSnapshot ps))
   }"

section \<open>The clerk\<close>

record Clerk =
  ck_servers :: nat
  ck_leaderId :: int
  ck_clientId :: int
  ck_commandId :: int

text \<open>The client id is drawn at random; it is an argument here.\<close>

definition MakeClerk :: "nat \<Rightarrow> int \<Rightarrow> Clerk" where
  "MakeClerk servers nrand = \<lparr>ck_servers = servers, ck_leaderId = 0, ck_clientId = nrand, ck_commandId = 0\<rparr>"

text \<open>
  The retry loop of \<open>Command\<close>. The outcomes of its calls are given as a list, \<^term>\<open>None\<close> for a
  call that failed; the result is \<^term>\<open>None\<close> while the loop is still trying when the list ends.
  The second component are the requests sent, each with the server it went to.
\<close>

fun clerk_loop ::
  "Clerk \<Rightarrow> CommandArgs \<Rightarrow> CommandReply option list \<Rightarrow> (Clerk \<times> string) option \<times> (int \<times> CommandArgs) list" where
  "clerk_loop ck args [] = (None, [])"
| "clerk_loop ck args (res # rest) =
     (case res of
        Some reply \<Rightarrow>
          (if Err reply = ErrWrongLeader \<or> Err reply = ErrTimeOut
           then (let (r, sent) = clerk_loop (ck\<lparr>ck_leaderId := (ck_leaderId ck + 1) mod int (ck_servers ck)\<rparr>) args rest
                 in (r, (ck_leaderId ck, args) # sent))
           else (Some (ck\<lparr>ck_commandId := ck_commandId ck + 1\<rparr>, ReplyValue reply), [(ck_leaderId ck, args)]))
      | None \<Rightarrow>
          (let (r, sent) = clerk_loop (ck\<lparr>ck_leaderId := (ck_leaderId ck + 1) mod int (ck_servers ck)\<rparr>) args rest
           in (r, (ck_leaderId ck, args) # sent)))"

definition clerk_Command ::
  "Clerk \<Rightarrow> CommandArgs \<Rightarrow> CommandReply option list \<Rightarrow> (Clerk \<times> string) option \<times> (int \<times> CommandArgs) list" where
  "clerk_Command ck args =
     clerk_loop ck (args\<lparr>ClientId := ck_clientId ck, CommandId := ck_commandId ck\<rparr>)"

definition clerk_Get :: "Clerk \<Rightarrow> string \<Rightarrow> CommandReply option list \<Rightarrow>
  (Clerk \<times> string) option \<times> (int \<times> CommandArgs) list" where
  "clerk_Get ck key = clerk_Command ck \<lparr>Key = key, Value = '''', Op = OP_GET, ClientId = 0, CommandId = 0\<rparr>"

definition clerk_Put :: "Clerk \<Rightarrow> string \<Rightarrow> string \<Rightarrow> CommandReply option list \<Rightarrow>
  (Clerk \<times> string) option \<times> (int \<times> CommandArgs) list" where
  "clerk_Put ck key val = clerk_Command ck \<lparr>Key = key, Value = val, Op = OP_PUT, ClientId = 0, CommandId = 0\<rparr>"

definition clerk_Append :: "Clerk \<Rightarrow> string \<Rightarrow> string \<Rightarrow> CommandReply option list \<Rightarrow>
  (Clerk \<times> string) option \<times> (int \<times> CommandArgs) list" where
  "clerk_Append ck key val = clerk_Command ck \<lparr>Key = key, Value = val, Op = OP_APPEND, ClientId = 0, CommandId = 0\<rparr>"

section \<open>What a command does to the store\<close>

text \<open>The specification: the commands as operations on the store alone.\<close>

definition kv_apply :: "MemoryKV \<Rightarrow> CommandArgs \<Rightarrow> (MemoryKV \<times> CommandReply) option" where
  "kv_apply sm command = Some
     (if Op command = OP_PUT then (fst (Put sm (Key command) (Value command)), \<lparr>Err = OK, ReplyValue = ''''\<rparr>)
      else if Op command = OP_APPEND then (fst (Append sm (Key command) (Value command)), \<lparr>Err = OK, ReplyValue = ''''\<rparr>)
      else if Op command = OP_GET
      then (sm, \<lparr>Err = snd (Get sm (Key command)), ReplyValue = fst (Get sm (Key command))\<rparr>)
      else (sm, \<lparr>Err = '''', ReplyValue = ''''\<rparr>))"

definition kv_session :: "KVServer \<Rightarrow> int \<Rightarrow> (int \<times> CommandReply) option" where
  "kv_session kv c = map_option (\<lambda>i. (MaxAppliedCommandId i, LastReply i)) (kv_lastOperations kv c)"

abbreviation kv_reads :: "CommandArgs \<Rightarrow> bool" where
  "kv_reads command \<equiv> Op command = OP_GET"

lemma op_distinct [simp]: "OP_PUT \<noteq> OP_APPEND" "OP_PUT \<noteq> OP_GET" "OP_APPEND \<noteq> OP_GET"
  "OP_APPEND \<noteq> OP_PUT" "OP_GET \<noteq> OP_PUT" "OP_GET \<noteq> OP_APPEND"
  by (simp_all add: OP_PUT_def OP_APPEND_def OP_GET_def)

lemma applyToStateMachine_eq:
  "applyToStateMachine kv command =
     (kv\<lparr>kv_stateMachine := fst (the (kv_apply (kv_stateMachine kv) command))\<rparr>,
      snd (the (kv_apply (kv_stateMachine kv) command)))"
  by (simp add: applyToStateMachine_def kv_apply_def Put_def Append_def Let_def split: prod.splits)

lemma apply_command_total: "\<exists>kv' r. apply_command kv command = Some (kv', r)"
  by (auto simp: apply_command_def isDuplicatedRequest_def Let_def split: prod.splits option.splits)

lemma apply_command_rest:
  assumes "apply_command kv command = Some (kv', r)"
  shows "kv_rf kv' = kv_rf kv" "kv_lastApplied kv' = kv_lastApplied kv" "kv_notifyChans kv' = kv_notifyChans kv"
    "kv_chans kv' = kv_chans kv" "kv_maxraftstate kv' = kv_maxraftstate kv"
  using assms by (auto simp: apply_command_def applyToStateMachine_eq bind_Some_iff Let_def split: if_splits)

interpretation kvs: session_machine apply_command kv_stateMachine kv_session kv_apply
    kv_reads ClientId CommandId
proof
  fix op kv c r
  assume "\<not> kv_reads op" "kv_session kv (ClientId op) = Some (c, r)" "CommandId op \<le> c"
  then show "apply_command kv op = Some (kv, r)"
    by (auto simp: apply_command_def kv_session_def isDuplicatedRequest_def)
next
  fix op kv kv' r
  assume e: "kv_reads op \<or> (\<forall>c r. kv_session kv (ClientId op) = Some (c, r) \<longrightarrow> c < CommandId op)"
    and s: "apply_command kv op = Some (kv', r)"
  have "\<not> (Op op \<noteq> OP_GET \<and> isDuplicatedRequest kv (ClientId op) (CommandId op))"
    using e by (cases "kv_lastOperations kv (ClientId op)") (auto simp: isDuplicatedRequest_def kv_session_def)
  then have "apply_command kv op = (let (kv, reply) = applyToStateMachine kv op;
             kv = (if Op op \<noteq> OP_GET
               then kv\<lparr>kv_lastOperations := (kv_lastOperations kv)(ClientId op \<mapsto>
                      \<lparr>MaxAppliedCommandId = CommandId op, LastReply = reply\<rparr>)\<rparr>
               else kv)
         in Some (kv, reply))"
    unfolding apply_command_def by (simp only: if_False)
  with s have k: "kv' = (if Op op \<noteq> OP_GET then kv\<lparr>kv_stateMachine := fst (the (kv_apply (kv_stateMachine kv) op)),
      kv_lastOperations := (kv_lastOperations kv)(ClientId op \<mapsto> \<lparr>MaxAppliedCommandId = CommandId op, LastReply = r\<rparr>)\<rparr>
      else kv\<lparr>kv_stateMachine := fst (the (kv_apply (kv_stateMachine kv) op))\<rparr>)"
    "r = snd (the (kv_apply (kv_stateMachine kv) op))"
    by (auto simp: applyToStateMachine_eq Let_def)
  have "\<exists>x. kv_apply (kv_stateMachine kv) op = Some x" by (simp add: kv_apply_def)
  then have "kv_apply (kv_stateMachine kv) op = Some (kv_stateMachine kv', r)"
    using k by auto
  then show "kv_apply (kv_stateMachine kv) op = Some (kv_stateMachine kv', r) \<and>
    kv_session kv' = (if kv_reads op then kv_session kv else (kv_session kv)(ClientId op \<mapsto> (CommandId op, r)))"
    using k(1) by (auto simp: kv_session_def fun_eq_iff)
qed

lemma run_log_total: "\<exists>kv' rs. run_log apply_command kv ops = Some (kv', rs)"
proof (induction ops arbitrary: kv)
  case (Cons op ops)
  from apply_command_total obtain kv1 r where "apply_command kv op = Some (kv1, r)" by blast
  with Cons [of kv1] show ?case by auto
qed simp

section \<open>The channels of waiting handlers\<close>

text \<open>
  References are valid and not shared, and the channel of an index that is not yet applied
  is empty.
\<close>

definition chans_ok :: "KVServer \<Rightarrow> bool" where
  "chans_ok kv \<longleftrightarrow>
     (\<forall>i ch. kv_notifyChans kv i = Some ch \<longrightarrow>
        ch < length (kv_chans kv) \<and> (kv_lastApplied kv < i \<longrightarrow> kv_chans kv ! ch = []) \<and>
        (\<forall>j. kv_notifyChans kv j = Some ch \<longrightarrow> j = i))"

lemma chans_ok_get:
  assumes "chans_ok kv" "getNotifyChan kv i = (kv', ch)"
  shows "chans_ok kv'" "kv_notifyChans kv' i = Some ch" "kv_lastApplied kv' = kv_lastApplied kv"
proof -
  have "chans_ok kv' \<and> kv_notifyChans kv' i = Some ch \<and> kv_lastApplied kv' = kv_lastApplied kv"
  proof (cases "kv_notifyChans kv i")
    case None
    have fresh: "kv_notifyChans kv j \<noteq> Some (length (kv_chans kv))" for j
      using assms(1) by (auto simp: chans_ok_def)
    have k: "kv' = kv\<lparr>kv_chans := kv_chans kv @ [[]], kv_notifyChans := (kv_notifyChans kv)(i \<mapsto> length (kv_chans kv))\<rparr>"
      "ch = length (kv_chans kv)" using assms(2) None by (auto simp: getNotifyChan_def Let_def)
    have "chans_ok kv'"
      unfolding chans_ok_def
    proof (intro allI impI)
      fix j c assume j: "kv_notifyChans kv' j = Some c"
      show "c < length (kv_chans kv') \<and> (kv_lastApplied kv' < j \<longrightarrow> kv_chans kv' ! c = []) \<and>
        (\<forall>j'. kv_notifyChans kv' j' = Some c \<longrightarrow> j' = j)"
      proof (cases "j = i")
        case True
        with j k fresh show ?thesis by auto
      next
        case False
        with j k have j': "kv_notifyChans kv j = Some c" by simp
        with assms(1) have "c < length (kv_chans kv)" "kv_lastApplied kv < j \<longrightarrow> kv_chans kv ! c = []"
          "\<forall>j'. kv_notifyChans kv j' = Some c \<longrightarrow> j' = j" unfolding chans_ok_def by blast+
        with k False show ?thesis by (auto simp: nth_append)
      qed
    qed
    with k show ?thesis by simp
  qed (use assms in \<open>auto simp: getNotifyChan_def\<close>)
  then show "chans_ok kv'" "kv_notifyChans kv' i = Some ch" "kv_lastApplied kv' = kv_lastApplied kv" by auto
qed

lemma chans_ok_cong:
  assumes "kv_notifyChans kv' = kv_notifyChans kv" "kv_chans kv' = kv_chans kv" "kv_lastApplied kv \<le> kv_lastApplied kv'"
    and "chans_ok kv"
  shows "chans_ok kv'"
  using assms by (force simp: chans_ok_def)

lemma chans_ok_buffer:
  assumes "chans_ok kv" "kv_notifyChans kv i = Some ch" "i \<le> kv_lastApplied kv"
  shows "chans_ok (kv\<lparr>kv_chans := (kv_chans kv)[ch := b]\<rparr>)"
  unfolding chans_ok_def
proof (intro allI impI)
  fix j c assume "kv_notifyChans (kv\<lparr>kv_chans := (kv_chans kv)[ch := b]\<rparr>) j = Some c"
  then have j: "kv_notifyChans kv j = Some c" by simp
  with assms(1) have jc: "c < length (kv_chans kv)" "kv_lastApplied kv < j \<longrightarrow> kv_chans kv ! c = []"
    "\<forall>j'. kv_notifyChans kv j' = Some c \<longrightarrow> j' = j" unfolding chans_ok_def by blast+
  have "kv_lastApplied kv < j \<Longrightarrow> c \<noteq> ch" using jc(3) assms(2,3) by auto
  with jc show "c < length (kv_chans (kv\<lparr>kv_chans := (kv_chans kv)[ch := b]\<rparr>)) \<and>
    (kv_lastApplied (kv\<lparr>kv_chans := (kv_chans kv)[ch := b]\<rparr>) < j \<longrightarrow>
      kv_chans (kv\<lparr>kv_chans := (kv_chans kv)[ch := b]\<rparr>) ! c = []) \<and>
    (\<forall>j'. kv_notifyChans (kv\<lparr>kv_chans := (kv_chans kv)[ch := b]\<rparr>) j' = Some c \<longrightarrow> j' = j)" by auto
qed

lemma notify_ok:
  assumes ok: "chans_ok kv" and l: "\<forall>ch. kv_notifyChans kv i = Some ch \<longrightarrow> kv_chans kv ! ch = []"
    and i: "i \<le> kv_lastApplied kv"
  shows "\<exists>kv'. notify kv i t reply = Next kv' \<and> chans_ok kv' \<and> kv_lastApplied kv' = kv_lastApplied kv \<and>
    kv_rf kv' = kv_rf kv \<and> kv_maxraftstate kv' = kv_maxraftstate kv"
proof (cases "GetState (kv_rf kv) = (t, True)")
  case False
  with ok show ?thesis by (auto simp: notify_def GetState_def Let_def)
next
  case True
  obtain kv1 ch where g: "getNotifyChan kv i = (kv1, ch)" by fastforce
  note c = chans_ok_get [OF ok g]
  have e: "kv_chans kv1 ! ch = []" "kv_rf kv1 = kv_rf kv" "kv_maxraftstate kv1 = kv_maxraftstate kv"
    using g l by (auto simp: getNotifyChan_def Let_def split: option.splits)
  have "chans_ok (kv1\<lparr>kv_chans := (kv_chans kv1)[ch := [reply]]\<rparr>)"
    using chans_ok_buffer [OF c(1,2)] i c(3) by simp
  with True g e c(3) show ?thesis by (simp add: notify_def GetState_def chan_send_def)
qed

lemma taskSnapshot_rest:
  assumes "taskSnapshot kv i = Some kv'"
  shows "kv_notifyChans kv' = kv_notifyChans kv" "kv_chans kv' = kv_chans kv" "kv_lastApplied kv' = kv_lastApplied kv"
  using assms by (auto simp: taskSnapshot_def bind_Some_iff)

lemma restoreSnapshot_rest:
  "kv_notifyChans (restoreSnapshot kv d) = kv_notifyChans kv" "kv_chans (restoreSnapshot kv d) = kv_chans kv"
  "kv_lastApplied (restoreSnapshot kv d) = kv_lastApplied kv" "kv_rf (restoreSnapshot kv d) = kv_rf kv"
  by (auto simp: restoreSnapshot_def split: list.splits kv_gob.splits)

section \<open>Properties of the key/value service\<close>

text \<open>
  C10: Exactly-once execution. Take a log that starts with the service and in which, for each
  client, a write either repeats an earlier one or has a number above all earlier writes of that
  client, as clerks produce it that issue one request at a time and retry. Applying it never panics. It leaves
  the store that results from executing, on the bare store, the reads and only the first
  occurrence of each write; and to those, it replies what the bare store replies.
\<close>

theorem kv_exactly_once:
  assumes "clerk_ordered kv_reads ClientId CommandId {} ops" "kv_lastOperations kv = Map.empty"
  shows "\<exists>kv' rs rs'. run_log apply_command kv ops = Some (kv', rs) \<and>
    run_log kv_apply (kv_stateMachine kv) (first_writes kv_reads ClientId CommandId {} ops) = Some (kv_stateMachine kv', rs') \<and>
    zip (first_writes kv_reads ClientId CommandId {} ops) rs' =
      first_writes (\<lambda>x. kv_reads (fst x)) (\<lambda>x. ClientId (fst x)) (\<lambda>x. CommandId (fst x)) {} (zip ops rs)"
proof -
  from run_log_total obtain kv' rs where r: "run_log apply_command kv ops = Some (kv', rs)" by blast
  have "kv_session kv = Map.empty" using assms(2) by (simp add: kv_session_def fun_eq_iff)
  with r kvs.clerks_once [OF r assms(1)] show ?thesis by blast
qed

text \<open>
  Retries are answered consistently. Once a new write of a client is applied with some
  reply, applying it again later, after any commands of other clients, reads, and repetitions
  of this client's earlier writes, changes nothing and yields that same reply.
\<close>

theorem kv_retry_same_reply:
  assumes "Op command \<noteq> OP_GET" "apply_command kv command = Some (kv1, reply)"
    and "\<not> isDuplicatedRequest kv (ClientId command) (CommandId command)"
    and "run_log apply_command kv1 ops = Some (kv2, rs)"
    and "\<forall>x\<in>set ops. Op x \<noteq> OP_GET \<longrightarrow> ClientId x = ClientId command \<longrightarrow> CommandId x \<le> CommandId command"
  shows "apply_command kv2 command = Some (kv2, reply)"
proof (rule kvs.retry [OF assms(1,2) _ assms(4,5)])
  show "\<forall>n r. kv_session kv (ClientId command) = Some (n, r) \<longrightarrow> n < CommandId command"
    using assms(3) by (auto simp: kv_session_def isDuplicatedRequest_def)
qed

definition demo_kv :: KVServer where
  "demo_kv = the (StartKVServer 3 0 MakePersister (-1))"

definition demo_cmd :: "string \<Rightarrow> string \<Rightarrow> string \<Rightarrow> int \<Rightarrow> int \<Rightarrow> CommandArgs" where
  "demo_cmd op k v c n = \<lparr>Key = k, Value = v, Op = op, ClientId = c, CommandId = n\<rparr>"

lemma demo_kv_fields:
  "kv_stateMachine demo_kv = newMemoryKV" "kv_lastOperations demo_kv = Map.empty"
  "kv_notifyChans demo_kv = Map.empty" "kv_lastApplied demo_kv = 0" "kv_chans demo_kv = []"
  "kv_maxraftstate demo_kv = -1" "commitIndex (kv_rf demo_kv) = 0"
  by (simp_all add: demo_kv_def StartKVServer_def Make_def readPersist_def ReadRaftState_def
      MakePersister_def ReadSnapshot_def restoreSnapshot_def Let_def)

theorem kv_exactly_once_witness:
  "\<exists>kv' rs rs'. run_log apply_command demo_kv [demo_cmd OP_APPEND ''x'' ''a'' 1 0, demo_cmd OP_APPEND ''x'' ''b'' 2 0,
      demo_cmd OP_APPEND ''x'' ''a'' 1 0, demo_cmd OP_APPEND ''x'' ''c'' 1 1, demo_cmd OP_APPEND ''x'' ''a'' 1 0] = Some (kv', rs) \<and>
    run_log kv_apply newMemoryKV [demo_cmd OP_APPEND ''x'' ''a'' 1 0, demo_cmd OP_APPEND ''x'' ''b'' 2 0,
      demo_cmd OP_APPEND ''x'' ''c'' 1 1] = Some (kv_stateMachine kv', rs')"
  using kv_exactly_once [of "[demo_cmd OP_APPEND ''x'' ''a'' 1 0, demo_cmd OP_APPEND ''x'' ''b'' 2 0,
      demo_cmd OP_APPEND ''x'' ''a'' 1 0, demo_cmd OP_APPEND ''x'' ''c'' 1 1, demo_cmd OP_APPEND ''x'' ''a'' 1 0]" demo_kv]
  by (auto simp: demo_cmd_def demo_kv_fields OP_APPEND_def OP_GET_def)

theorem kv_retry_same_reply_witness:
  "\<exists>kv1 reply kv2. apply_command demo_kv (demo_cmd OP_APPEND ''x'' ''a'' 1 0) = Some (kv1, reply) \<and>
     run_log apply_command kv1 [demo_cmd OP_PUT ''x'' ''b'' 2 0] = Some (kv2, [\<lparr>Err = OK, ReplyValue = ''''\<rparr>]) \<and>
     apply_command kv2 (demo_cmd OP_APPEND ''x'' ''a'' 1 0) = Some (kv2, reply)"
proof -
  let ?c = "demo_cmd OP_APPEND ''x'' ''a'' 1 0" and ?d = "demo_cmd OP_PUT ''x'' ''b'' 2 0"
  from apply_command_total obtain kv1 reply where a: "apply_command demo_kv ?c = Some (kv1, reply)" by blast
  from apply_command_total obtain kv2 r where b: "apply_command kv1 ?d = Some (kv2, r)" by blast
  then have r: "run_log apply_command kv1 [?d] = Some (kv2, [r])" by simp
  have "kv_lastOperations kv1 2 = None"
    using a by (auto simp: apply_command_def isDuplicatedRequest_def demo_kv_fields applyToStateMachine_eq Let_def demo_cmd_def)
  then have "r = \<lparr>Err = OK, ReplyValue = ''''\<rparr>"
    using b by (auto simp: apply_command_def isDuplicatedRequest_def applyToStateMachine_eq kv_apply_def Let_def demo_cmd_def)
  moreover have "apply_command kv2 ?c = Some (kv2, reply)"
    by (rule kv_retry_same_reply [OF _ a _ r])
      (auto simp: demo_cmd_def isDuplicatedRequest_def demo_kv_fields)
  ultimately show ?thesis using a r by blast
qed

text \<open>The applier with a command, and with a snapshot.\<close>

lemma applier_command_ok:
  assumes "chans_ok kv" and cv: "CommandValid msg"
  shows "applier bytes kv msg \<noteq> Disabled \<and> (\<forall>kv'. applier bytes kv msg = Next kv' \<longrightarrow> chans_ok kv')"
proof (cases "kv_lastApplied kv < CommandIndex msg \<and> Command msg \<noteq> None")
  case False
  with cv assms(1) show ?thesis by (auto simp: applier_def Let_def)
next
  case True
  then obtain command where c: "Command msg = Some command" and lt: "kv_lastApplied kv < CommandIndex msg" by auto
  let ?kv = "kv\<lparr>kv_lastApplied := CommandIndex msg\<rparr>"
  from apply_command_total obtain kv1 r where a: "apply_command ?kv command = Some (kv1, r)" by blast
  note rest = apply_command_rest [OF a]
  have ok1: "chans_ok kv1" using chans_ok_cong [of kv1 kv] assms(1) rest lt by simp
  have e: "\<forall>ch. kv_notifyChans kv1 (CommandIndex msg) = Some ch \<longrightarrow> kv_chans kv1 ! ch = []"
    using assms(1) lt rest by (simp add: chans_ok_def)
  have le: "CommandIndex msg \<le> kv_lastApplied kv1" using rest(2) by simp
  from notify_ok [OF ok1 e le] obtain kv2 where n: "notify kv1 (CommandIndex msg) (CommandTerm msg) r = Next kv2"
    "chans_ok kv2" by blast
  have "applier bytes kv msg = (if needSnapshot bytes kv2
      then from_option (taskSnapshot kv2 (CommandIndex msg)) (\<lambda>kv. kv) else Next kv2)"
    using cv c lt a n(1) by (simp add: applier_def)
  then show ?thesis
    using n(2) chans_ok_cong [OF taskSnapshot_rest(1,2)] taskSnapshot_rest(3)
    by (auto simp: from_option_def split: option.splits)
qed

lemma applier_snapshot_ok:
  assumes "chans_ok kv" "kv_lastApplied kv \<le> commitIndex (kv_rf kv)" and cv: "\<not> CommandValid msg"
  shows "applier bytes kv msg \<noteq> Disabled \<and> (\<forall>kv'. applier bytes kv msg = Next kv' \<longrightarrow> chans_ok kv')"
proof (cases "SnapshotValid msg \<and> CondInstallSnapshot (kv_rf kv) (SnapshotTerm msg) (SnapshotIndex msg) (Snapshot_data msg) \<noteq> None")
  case False
  with cv show ?thesis by (auto simp: applier_def from_option_def split: option.splits)
next
  case True
  then obtain rf b where ci: "CondInstallSnapshot (kv_rf kv) (SnapshotTerm msg) (SnapshotIndex msg) (Snapshot_data msg) = Some (rf, b)"
    and sv: "SnapshotValid msg" by auto
  let ?kv = "if b then (restoreSnapshot (kv\<lparr>kv_rf := rf\<rparr>) (Snapshot_data msg))\<lparr>kv_lastApplied := SnapshotIndex msg\<rparr>
    else kv\<lparr>kv_rf := rf\<rparr>"
  have ap: "applier bytes kv msg = Next ?kv" using cv sv ci by (simp add: applier_def from_option_def)
  have "b \<longrightarrow> commitIndex (kv_rf kv) < SnapshotIndex msg"
    using ci by (auto simp: CondInstallSnapshot_def split: if_splits)
  then have "kv_lastApplied kv \<le> kv_lastApplied ?kv" using assms(2) by auto
  then have "chans_ok ?kv"
    using assms(1) by (intro chans_ok_cong [of ?kv kv]) (simp_all add: restoreSnapshot_rest)
  with ap show ?thesis by simp
qed

text \<open>
  C23: The applier never blocks on a waiting handler's channel and keeps the channels in order:
  for every message Raft may deliver to a server whose channels are in order and that has
  applied no more than Raft has committed, it does not block, and the server's channels are in
  order afterwards. The handlers' own operations on channels keep the order too.
\<close>

theorem applier_never_blocks:
  assumes "chans_ok kv" "kv_lastApplied kv \<le> commitIndex (kv_rf kv)"
  shows "applier bytes kv msg \<noteq> Disabled \<and> (\<forall>kv'. applier bytes kv msg = Next kv' \<longrightarrow> chans_ok kv') \<and>
    chans_ok (fst (getNotifyChan kv i)) \<and> chans_ok (removeOutdatedNotifyChan kv i) \<and>
    (\<forall>kv' ch r. kv_notifyChans kv i = Some ch \<longrightarrow> Command_receive kv ch = Next (kv', r) \<longrightarrow> chans_ok kv')"
proof -
  have "applier bytes kv msg \<noteq> Disabled \<and> (\<forall>kv'. applier bytes kv msg = Next kv' \<longrightarrow> chans_ok kv')"
    using applier_command_ok applier_snapshot_ok assms by blast
  moreover have "chans_ok (fst (getNotifyChan kv i))"
    using chans_ok_get(1) [OF assms(1)] by (metis prod.collapse)
  moreover have "chans_ok (removeOutdatedNotifyChan kv i)"
    using assms(1) unfolding chans_ok_def removeOutdatedNotifyChan_def by simp
  moreover have "chans_ok kv'" if g: "kv_notifyChans kv i = Some ch" "Command_receive kv ch = Next (kv', r)" for kv' ch r
  proof (cases "kv_chans kv ! ch")
    case (Cons x xs)
    have "kv_lastApplied kv < i \<longrightarrow> kv_chans kv ! ch = []" using assms(1) g(1) unfolding chans_ok_def by blast
    with Cons have "i \<le> kv_lastApplied kv" by auto
    with g Cons chans_ok_buffer [OF assms(1) g(1)] show ?thesis by (auto simp: Command_receive_def)
  qed (use g in \<open>simp add: Command_receive_def\<close>)
  ultimately show ?thesis by blast
qed

theorem applier_never_blocks_witness:
  "applier (\<lambda>_. 0) demo_kv (applier_msg \<lparr>e_Index = 1, e_Term = 0, e_Command = Some (demo_cmd OP_PUT ''x'' ''b'' 2 0)\<rparr>)
     \<noteq> Disabled"
  using applier_never_blocks [of demo_kv] by (simp add: chans_ok_def demo_kv_fields)

text \<open>
  C24: Snapshot and recovery. When the server snapshots at an index its Raft log has not yet
  compacted, and a new incarnation starts from the persister, it has the same store and the
  same client sessions, so that it still recognises every request it had applied.
\<close>

theorem kv_snapshot_recovers:
  assumes "log_ok (logs (kv_rf kv))" "first_index (logs (kv_rf kv)) < index" "index \<le> last_index (logs (kv_rf kv))"
  shows "\<exists>kv' kv''. taskSnapshot kv index = Some kv' \<and> StartKVServer n self (persister (kv_rf kv')) m = Some kv'' \<and>
    kv_stateMachine kv'' = kv_stateMachine kv \<and> kv_lastOperations kv'' = kv_lastOperations kv \<and>
    logs (kv_rf kv'') = logs (kv_rf kv')"
proof -
  let ?snap = "[GKV (kv_stateMachine kv), GOps (kv_lastOperations kv)]"
  from Snapshot_spec [OF assms, of ?snap] obtain e es rf' where
    s: "Snapshot (kv_rf kv) index ?snap = Some rf'" "synced rf'" "logs rf' = e\<lparr>e_Command := None\<rparr> # es"
    "snapshot (persister rf') = ?snap" by blast
  then have t: "taskSnapshot kv index = Some (kv\<lparr>kv_rf := rf'\<rparr>)" by (simp add: taskSnapshot_def)
  from Make_restores [OF s(2), of n self] s(3) obtain rf'' where
    m: "Make n self (persister rf') = Some rf''" "logs rf'' = logs rf'" by auto
  have "ReadSnapshot (persister rf') = ?snap" using s(4) by (simp add: ReadSnapshot_def)
  with t m show ?thesis by (simp add: StartKVServer_def restoreSnapshot_def)
qed

theorem kv_snapshot_recovers_witness:
  "\<exists>kv' kv''. taskSnapshot (demo_kv\<lparr>kv_rf := (kv_rf demo_kv)\<lparr>logs := [zero_entry, \<lparr>e_Index = 1, e_Term = 1, e_Command = None\<rparr>]\<rparr>\<rparr>) 1
       = Some kv' \<and> StartKVServer 3 0 (persister (kv_rf kv')) (-1) = Some kv'' \<and> kv_stateMachine kv'' = newMemoryKV"
proof -
  let ?kv = "demo_kv\<lparr>kv_rf := (kv_rf demo_kv)\<lparr>logs := [zero_entry, \<lparr>e_Index = 1, e_Term = 1, e_Command = None\<rparr>]\<rparr>\<rparr>"
  have ok: "log_ok (logs (kv_rf ?kv))" "first_index (logs (kv_rf ?kv)) < 1" "1 \<le> last_index (logs (kv_rf ?kv))"
    by (auto simp: log_ok_def zero_entry_def nth_Cons split: nat.splits)
  show ?thesis using kv_snapshot_recovers [OF ok, of 3 0 "-1"] by (auto simp: demo_kv_fields)
qed

lemma clerk_loop_fail:
  "res = None \<or> (\<exists>r. res = Some r \<and> (Err r = ErrWrongLeader \<or> Err r = ErrTimeOut)) \<Longrightarrow>
   clerk_loop ck args (res # rest) =
     (let (r, sent) = clerk_loop (ck\<lparr>ck_leaderId := (ck_leaderId ck + 1) mod int (ck_servers ck)\<rparr>) args rest
      in (r, (ck_leaderId ck, args) # sent))"
  by (auto split: option.splits)

lemma clerk_loop_returns:
  assumes "\<forall>res\<in>set fails. res = None \<or> (\<exists>r. res = Some r \<and> (Err r = ErrWrongLeader \<or> Err r = ErrTimeOut))"
    and "Err reply \<noteq> ErrWrongLeader" "Err reply \<noteq> ErrTimeOut"
    and "0 \<le> ck_leaderId ck" "ck_leaderId ck < int (ck_servers ck)"
  shows "clerk_loop ck args (fails @ Some reply # rest) =
    (Some (ck\<lparr>ck_leaderId := (ck_leaderId ck + int (length fails)) mod int (ck_servers ck),
              ck_commandId := ck_commandId ck + 1\<rparr>, ReplyValue reply),
     map (\<lambda>k. ((ck_leaderId ck + int k) mod int (ck_servers ck), args)) [0..<Suc (length fails)])"
  using assms
proof (induction fails arbitrary: ck)
  case Nil
  then show ?case by simp
next
  case (Cons x xs)
  let ?ck = "ck\<lparr>ck_leaderId := (ck_leaderId ck + 1) mod int (ck_servers ck)\<rparr>"
  have n: "0 < int (ck_servers ck)" using Cons.prems by linarith
  have ih: "clerk_loop ?ck args (xs @ Some reply # rest) =
    (Some (?ck\<lparr>ck_leaderId := (ck_leaderId ?ck + int (length xs)) mod int (ck_servers ?ck),
              ck_commandId := ck_commandId ?ck + 1\<rparr>, ReplyValue reply),
     map (\<lambda>k. ((ck_leaderId ?ck + int k) mod int (ck_servers ?ck), args)) [0..<Suc (length xs)])"
    using Cons n by (intro Cons.IH) simp_all
  have shift: "((ck_leaderId ck + 1) mod int (ck_servers ck) + int k) mod int (ck_servers ck) =
    (ck_leaderId ck + int (Suc k)) mod int (ck_servers ck)" for k
    using mod_add_left_eq [of "ck_leaderId ck + 1" "int (ck_servers ck)" "int k"] by (simp add: ac_simps)
  have l: "map (\<lambda>k. ((ck_leaderId ck + int k) mod int (ck_servers ck), args)) [0..<Suc (length (x # xs))] =
    (ck_leaderId ck, args) # map (\<lambda>k. ((ck_leaderId ck + int (Suc k)) mod int (ck_servers ck), args)) [0..<Suc (length xs)]"
    using Cons.prems(4,5) by (simp add: upt_conv_Cons map_Suc_upt [symmetric] del: upt_Suc)
  have "x = None \<or> (\<exists>r. x = Some r \<and> (Err r = ErrWrongLeader \<or> Err r = ErrTimeOut))" using Cons.prems(1) by simp
  from clerk_loop_fail [OF this, of ck args "xs @ Some reply # rest"] ih show ?case
    unfolding append_Cons l by (simp add: shift del: upt_Suc)
qed

text \<open>
  The clerk's retry loop. When the first so many calls fail or are refused and the next one
  succeeds, the clerk returns that reply's value after exactly these calls; all of them carry
  the same client and command number, they visit the servers in turn from the last known
  leader, the successful server is remembered, and the command number moves on by one.
\<close>

theorem clerk_Command_returns:
  assumes "\<forall>res\<in>set fails. res = None \<or> (\<exists>r. res = Some r \<and> (Err r = ErrWrongLeader \<or> Err r = ErrTimeOut))"
    and "Err reply \<noteq> ErrWrongLeader" "Err reply \<noteq> ErrTimeOut"
    and "0 \<le> ck_leaderId ck" "ck_leaderId ck < int (ck_servers ck)"
  shows "clerk_Command ck args (fails @ Some reply # rest) =
    (Some (ck\<lparr>ck_leaderId := (ck_leaderId ck + int (length fails)) mod int (ck_servers ck),
              ck_commandId := ck_commandId ck + 1\<rparr>, ReplyValue reply),
     map (\<lambda>k. ((ck_leaderId ck + int k) mod int (ck_servers ck),
               args\<lparr>ClientId := ck_clientId ck, CommandId := ck_commandId ck\<rparr>)) [0..<Suc (length fails)])"
  unfolding clerk_Command_def by (rule clerk_loop_returns [OF assms])

theorem clerk_Command_returns_witness:
  "fst (clerk_Command (MakeClerk 3 77) (demo_cmd OP_GET ''x'' '''' 0 0)
     ([None, Some \<lparr>Err = ErrWrongLeader, ReplyValue = ''''\<rparr>] @ Some \<lparr>Err = OK, ReplyValue = ''v''\<rparr> # [])) =
   Some (\<lparr>ck_servers = 3, ck_leaderId = 2, ck_clientId = 77, ck_commandId = 1\<rparr>, ''v'')"
  by (subst clerk_Command_returns) (simp_all add: MakeClerk_def)

end
