(* ===== verification/Ctrler_Config.thy ===== *)
theory Ctrler_Config
  imports Prelude KV_Machine
begin

text \<open>
  The configuration state machine of the shard controller (package shardctrler,
  stateMachine.go): the sequence of configurations and the operations Join, Leave, Move and
  Query, with the rebalancing of shards. A Go map is an association list with distinct keys
  whose order is the order \<open>range\<close> happens to visit the keys in; that the results do not depend
  on it is proved. Shards are numbered by \<^typ>\<open>nat\<close>, group ids are \<^typ>\<open>int\<close>; reading a missing
  key of \<open>g2s\<close> yields the empty slice.
\<close>

definition NShards :: nat where "NShards = 10"

record Config =
  Num :: int
  Shards :: "int list"
  Groups :: "(int \<times> string list) list"

definition DefaultConfig :: Config where
  "DefaultConfig = \<lparr>Num = 0, Shards = replicate NShards 0, Groups = []\<rparr>"

definition dcopy :: "(int \<times> string list) list \<Rightarrow> (int \<times> string list) list" where
  "dcopy groups = fold (\<lambda>(gid, servers) newGroups. AList.update gid (take (length servers) servers) newGroups) groups []"

section \<open>From groups to their shards\<close>

type_synonym g2s = "(int \<times> nat list) list"

definition shards_at :: "g2s \<Rightarrow> int \<Rightarrow> nat list" where
  "shards_at g gid = (case map_of g gid of None \<Rightarrow> [] | Some shards \<Rightarrow> shards)"

definition GroupToShards :: "Config \<Rightarrow> g2s" where
  "GroupToShards cf =
     fold (\<lambda>(shard, gid) g. AList.update gid (shards_at g gid @ [shard]) g) (enumerate 0 (Shards cf))
       (fold (\<lambda>(gid, _) g. AList.update gid [] g) (Groups cf) [])"

text \<open>The two scans over the sorted keys; \<open>index\<close> and the best length so far are the loop variables.\<close>

fun max_loop :: "g2s \<Rightarrow> int list \<Rightarrow> int \<Rightarrow> int \<Rightarrow> int" where
  "max_loop g [] index mx = index"
| "max_loop g (gid # keys) index mx =
     (if int (length (shards_at g gid)) > mx then max_loop g keys gid (int (length (shards_at g gid)))
      else max_loop g keys index mx)"

fun min_loop :: "g2s \<Rightarrow> int list \<Rightarrow> int \<Rightarrow> int \<Rightarrow> int" where
  "min_loop g [] index mn = index"
| "min_loop g (gid # keys) index mn =
     (if gid \<noteq> 0 \<and> int (length (shards_at g gid)) < mn then min_loop g keys gid (int (length (shards_at g gid)))
      else min_loop g keys index mn)"

definition getGidWithMaxShards :: "g2s \<Rightarrow> int" where
  "getGidWithMaxShards g =
     (if (case map_of g 0 of Some shards \<Rightarrow> length shards > 0 | None \<Rightarrow> False) then 0
      else max_loop g (sort (map fst g)) (-1) (-1))"

definition getGidWithMinShards :: "g2s \<Rightarrow> int" where
  "getGidWithMinShards g = min_loop g (sort (map fst g)) (-1) (int NShards + 1)"

text \<open>The loops that write \<open>newShards\<close>; an index out of range panics.\<close>

fun fill_shards :: "int \<Rightarrow> nat list \<Rightarrow> int list \<Rightarrow> int list option" where
  "fill_shards gid [] newShards = Some newShards"
| "fill_shards gid (shard # shards) newShards = do {
     newShards \<leftarrow> store newShards (int shard) gid;
     fill_shards gid shards newShards
   }"

fun fill :: "g2s \<Rightarrow> int list \<Rightarrow> int list option" where
  "fill [] newShards = Some newShards"
| "fill ((gid, shards) # g) newShards = do {
     newShards \<leftarrow> fill_shards gid shards newShards;
     fill g newShards
   }"

section \<open>The extremal groups\<close>

abbreviation load :: "g2s \<Rightarrow> int \<Rightarrow> nat" where
  "load g gid \<equiv> length (shards_at g gid)"

lemma shards_at_update [simp]: "shards_at (AList.update k v g) j = (if j = k then v else shards_at g j)"
  by (simp add: shards_at_def update_conv')

lemma shards_at_absent: "k \<notin> fst ` set g \<Longrightarrow> shards_at g k = []"
  by (simp add: shards_at_def map_of_eq_None_iff [symmetric])

lemma max_loop_spec:
  "max_loop g keys index m = index \<and> (\<forall>k\<in>set keys. int (load g k) \<le> m) \<or>
   (max_loop g keys index m \<in> set keys \<and> m < int (load g (max_loop g keys index m)) \<and>
    (\<forall>k\<in>set keys. load g k \<le> load g (max_loop g keys index m)))"
proof (induction keys arbitrary: index m)
  case (Cons k keys)
  show ?case
  proof (cases "int (load g k) > m")
    case True
    with Cons [of k "int (load g k)"] show ?thesis by auto
  next
    case False
    with Cons [of index m] show ?thesis by auto
  qed
qed simp

lemma min_loop_spec:
  "min_loop g keys index m = index \<and> (\<forall>k\<in>set keys. k \<noteq> 0 \<longrightarrow> m \<le> int (load g k)) \<or>
   (min_loop g keys index m \<in> set keys \<and> min_loop g keys index m \<noteq> 0 \<and> int (load g (min_loop g keys index m)) < m \<and>
    (\<forall>k\<in>set keys. k \<noteq> 0 \<longrightarrow> load g (min_loop g keys index m) \<le> load g k))"
proof (induction keys arbitrary: index m)
  case (Cons k keys)
  show ?case
  proof (cases "k \<noteq> 0 \<and> int (load g k) < m")
    case True
    with Cons [of k "int (load g k)"] show ?thesis by auto
  next
    case False
    with Cons [of index m] show ?thesis by auto
  qed
qed simp

lemma max_gid_zero_iff: "shards_at g 0 \<noteq> [] \<Longrightarrow> getGidWithMaxShards g = 0"
  by (auto simp: getGidWithMaxShards_def shards_at_def split: option.splits)

lemma max_gid_load:
  assumes "shards_at g 0 = []"
  shows "load g k \<le> load g (getGidWithMaxShards g)"
proof -
  have e: "getGidWithMaxShards g = max_loop g (sort (map fst g)) (-1) (-1)"
    using assms by (auto simp: getGidWithMaxShards_def shards_at_def split: option.splits)
  show ?thesis
  proof (cases "k \<in> fst ` set g")
    case True
    with max_loop_spec [of g "sort (map fst g)" "-1" "-1"] show ?thesis unfolding e by auto
  qed (simp add: shards_at_absent)
qed

lemma min_gid_load:
  assumes "k \<in> fst ` set g" "k \<noteq> 0" "load g k \<le> NShards"
  shows "getGidWithMinShards g \<in> fst ` set g \<and>
    (\<forall>j\<in>fst ` set g. j \<noteq> 0 \<longrightarrow> load g (getGidWithMinShards g) \<le> load g j)"
proof -
  let ?m = "min_loop g (sort (map fst g)) (-1) (int NShards + 1)"
  have keys: "set (sort (map fst g)) = fst ` set g" by simp
  from min_loop_spec [of g "sort (map fst g)" "-1" "int NShards + 1", unfolded keys] show ?thesis
  proof (elim disjE conjE)
    assume "\<forall>k\<in>fst ` set g. k \<noteq> 0 \<longrightarrow> int NShards + 1 \<le> int (load g k)"
    with assms have "int NShards + 1 \<le> int (load g k)" by blast
    with assms(3) show ?thesis by simp
  next
    assume "?m \<in> fst ` set g" "\<forall>k\<in>fst ` set g. k \<noteq> 0 \<longrightarrow> load g ?m \<le> load g k"
    then show ?thesis unfolding getGidWithMinShards_def by blast
  qed
qed

lemma min_gid_nonzero: "getGidWithMinShards g \<noteq> 0"
  using min_loop_spec [of g "sort (map fst g)" "-1" "int NShards + 1"] by (auto simp: getGidWithMinShards_def)

section \<open>The rebalancing loop\<close>

definition square_sum :: "g2s \<Rightarrow> nat" where
  "square_sum g = (\<Sum>k\<in>fst ` set g. load g k * load g k)"

lemma square_sum_over:
  assumes "finite K" "fst ` set g \<subseteq> K"
  shows "square_sum g = (\<Sum>k\<in>K. load g k * load g k)"
  unfolding square_sum_def using assms
  by (intro sum.mono_neutral_left) (auto simp: shards_at_absent)

lemma square_sum_move:
  assumes st: "s \<noteq> t" and l: "load g t + 2 \<le> load g s"
  shows "square_sum (AList.update s (tl (shards_at g s)) (AList.update t (shards_at g t @ [x]) g)) < square_sum g"
proof -
  let ?g = "AList.update s (tl (shards_at g s)) (AList.update t (shards_at g t @ [x]) g)"
  let ?K = "insert s (insert t (fst ` set g))" and ?R = "fst ` set g - {s, t}"
  have keys: "fst ` set ?g \<subseteq> ?K" by (auto simp: dom_update)
  have K: "?K = insert s (insert t ?R)" by blast
  have 1: "square_sum h = load h s * load h s + (load h t * load h t + (\<Sum>k\<in>?R. load h k * load h k))"
    if "fst ` set h \<subseteq> ?K" for h
  proof -
    have "square_sum h = (\<Sum>k\<in>?K. load h k * load h k)" using that by (intro square_sum_over) auto
    also have "\<dots> = (\<Sum>k\<in>insert s (insert t ?R). load h k * load h k)" using K by simp
    also have "\<dots> = load h s * load h s + (load h t * load h t + (\<Sum>k\<in>?R. load h k * load h k))" using st by simp
    finally show ?thesis .
  qed
  have same: "(\<Sum>k\<in>?R. load ?g k * load ?g k) = (\<Sum>k\<in>?R. load g k * load g k)"
    by (rule sum.cong) auto
  have "fst ` set g \<subseteq> ?K" by blast
  note e = 1 [OF keys] 1 [OF this]
  have ls: "load ?g s = load g s - 1" "load ?g t = load g t + 1" using st by simp_all
  obtain d where d: "load g s = load g t + 2 + d" using l le_Suc_ex by blast
  show ?thesis unfolding e same ls d by (simp add: algebra_simps)
qed

lemma balance_step_smaller:
  assumes "s = getGidWithMaxShards g" "t = getGidWithMinShards g"
    and c: "\<not> (s \<noteq> 0 \<and> int (load g s) - int (load g t) \<le> 1)"
    and "idx (shards_at g s) 0 = Some x" and g': "g' = AList.update t (shards_at g t @ [x]) g"
    and r: "slice_from (shards_at g' s) 1 = Some rest"
  shows "(AList.update s rest g', g) \<in> measures [\<lambda>g. load g 0, square_sum]"
proof -
  have t: "t \<noteq> 0" using assms(2) min_gid_nonzero by simp
  have st: "s \<noteq> t" using c t by auto
  then have rest: "rest = tl (shards_at g s)" "shards_at g s \<noteq> []"
    using r by (auto simp: g' slice_from_def drop_Suc split: if_splits)
  show ?thesis
  proof (cases "s = 0")
    case True
    with t rest show ?thesis by (simp add: g')
  next
    case False
    then have "shards_at g 0 = []" using assms(1) max_gid_zero_iff by blast
    moreover have "load g t + 2 \<le> load g s" using c False by linarith
    ultimately show ?thesis using square_sum_move [OF st] t False rest(1) by (simp add: g')
  qed
qed

function balance :: "g2s \<Rightarrow> g2s option" where
  "balance g =
     (let source = getGidWithMaxShards g; target = getGidWithMinShards g
      in if source \<noteq> 0 \<and> int (length (shards_at g source)) - int (length (shards_at g target)) \<le> 1 then Some g
         else do {
           shard \<leftarrow> idx (shards_at g source) 0;
           let g = AList.update target (shards_at g target @ [shard]) g;
           rest \<leftarrow> slice_from (shards_at g source) 1;
           balance (AList.update source rest g)
         })"
  by pat_completeness auto
termination
proof (relation "measures [\<lambda>g. load g 0, square_sum]", goal_cases)
  case 2
  then show ?case by (rule balance_step_smaller)
qed simp

declare balance.simps [simp del]

section \<open>The operations\<close>

record MemoryConfigStateMachine =
  Configs :: "Config list"

definition NewMemoryConfigStateMachine :: MemoryConfigStateMachine where
  "NewMemoryConfigStateMachine = \<lparr>Configs = [DefaultConfig]\<rparr>"

definition join_groups :: "(int \<times> string list) list \<Rightarrow> (int \<times> string list) list \<Rightarrow> (int \<times> string list) list" where
  "join_groups groups newGroups =
     fold (\<lambda>(gid, servers) ng. if map_of ng gid = None then AList.update gid (take (length servers) servers) ng else ng)
       groups newGroups"

definition Join ::
  "MemoryConfigStateMachine \<Rightarrow> (int \<times> string list) list \<Rightarrow> (MemoryConfigStateMachine \<times> err) option" where
  "Join cf groups = do {
     lastConfig \<leftarrow> idx (Configs cf) (int (length (Configs cf)) - 1);
     let newConfig = \<lparr>Num = int (length (Configs cf)), Shards = Shards lastConfig, Groups = dcopy (Groups lastConfig)\<rparr>;
     let newConfig = newConfig\<lparr>Groups := join_groups groups (Groups newConfig)\<rparr>;
     g2s \<leftarrow> balance (GroupToShards newConfig);
     newShards \<leftarrow> fill g2s (replicate NShards 0);
     let newConfig = newConfig\<lparr>Shards := newShards\<rparr>;
     Some (cf\<lparr>Configs := Configs cf @ [newConfig]\<rparr>, OK)
   }"

text \<open>The loop over the leaving groups: the remaining groups, their shards, the orphans so far.\<close>

fun leave_loop ::
  "int list \<Rightarrow> (int \<times> string list) list \<Rightarrow> g2s \<Rightarrow> nat list \<Rightarrow> (int \<times> string list) list \<times> g2s \<times> nat list" where
  "leave_loop [] groups g orphans = (groups, g, orphans)"
| "leave_loop (gid # gids) groups g orphans =
     (let groups = (if map_of groups gid \<noteq> None then AList.delete gid groups else groups)
      in case map_of g gid of
           Some shards \<Rightarrow> leave_loop gids groups (AList.delete gid g) (orphans @ shards)
         | None \<Rightarrow> leave_loop gids groups g orphans)"

fun assign_orphans :: "nat list \<Rightarrow> g2s \<Rightarrow> g2s" where
  "assign_orphans [] g = g"
| "assign_orphans (shard # orphans) g =
     (let target = getGidWithMinShards g
      in assign_orphans orphans (AList.update target (shards_at g target @ [shard]) g))"

definition Leave :: "MemoryConfigStateMachine \<Rightarrow> int list \<Rightarrow> (MemoryConfigStateMachine \<times> err) option" where
  "Leave cf gids = do {
     lastConfig \<leftarrow> idx (Configs cf) (int (length (Configs cf)) - 1);
     let newConfig = \<lparr>Num = int (length (Configs cf)), Shards = Shards lastConfig, Groups = dcopy (Groups lastConfig)\<rparr>;
     let (groups, g, orphans) = leave_loop gids (Groups newConfig) (GroupToShards newConfig) [];
     newShards \<leftarrow> (if length groups \<noteq> 0 then fill (assign_orphans orphans g) (replicate NShards 0)
                    else Some (replicate NShards 0));
     let newConfig = newConfig\<lparr>Groups := groups, Shards := newShards\<rparr>;
     Some (cf\<lparr>Configs := Configs cf @ [newConfig]\<rparr>, OK)
   }"

definition Move :: "MemoryConfigStateMachine \<Rightarrow> int \<Rightarrow> int \<Rightarrow> (MemoryConfigStateMachine \<times> err) option" where
  "Move cf shard gid = do {
     lastConfig \<leftarrow> idx (Configs cf) (int (length (Configs cf)) - 1);
     let newConfig = \<lparr>Num = int (length (Configs cf)), Shards = Shards lastConfig, Groups = dcopy (Groups lastConfig)\<rparr>;
     newShards \<leftarrow> store (Shards newConfig) shard gid;
     Some (cf\<lparr>Configs := Configs cf @ [newConfig\<lparr>Shards := newShards\<rparr>]\<rparr>, OK)
   }"

definition Query :: "MemoryConfigStateMachine \<Rightarrow> int \<Rightarrow> (Config \<times> err) option" where
  "Query cf num =
     (if num < 0 \<or> num \<ge> int (length (Configs cf))
      then do { c \<leftarrow> idx (Configs cf) (int (length (Configs cf)) - 1); Some (c, OK) }
      else do { c \<leftarrow> idx (Configs cf) num; Some (c, OK) })"

section \<open>Partitions of the shards\<close>

definition parts :: "g2s \<Rightarrow> bool" where
  "parts g \<longleftrightarrow> (\<forall>k. distinct (shards_at g k)) \<and>
     (\<forall>k k' s. s \<in> set (shards_at g k) \<longrightarrow> s \<in> set (shards_at g k') \<longrightarrow> k = k') \<and>
     (\<forall>s. (\<exists>k. s \<in> set (shards_at g k)) \<longleftrightarrow> s < NShards)"

lemma parts_load: "parts g \<Longrightarrow> load g k \<le> NShards"
proof -
  assume p: "parts g"
  then have "set (shards_at g k) \<subseteq> {..<NShards}" by (auto simp: parts_def)
  then have "card (set (shards_at g k)) \<le> card {..<NShards}" by (intro card_mono) auto
  with p show ?thesis by (simp add: parts_def distinct_card)
qed

lemma parts_move:
  assumes p: "parts g" and x: "shards_at g s = x # xs" and st: "s \<noteq> t"
  shows "parts (AList.update s xs (AList.update t (shards_at g t @ [x]) g))"
proof -
  let ?g = "AList.update s xs (AList.update t (shards_at g t @ [x]) g)"
  have d: "distinct (shards_at g k)" for k using p by (simp add: parts_def)
  have own: "y \<in> set (shards_at g k) \<Longrightarrow> y \<in> set (shards_at g k') \<Longrightarrow> k = k'" for y k k' using p by (simp add: parts_def)
  have xs: "x \<notin> set xs" "distinct xs" using d [of s] x by simp_all
  have xt: "x \<notin> set (shards_at g t)" using own [of x s t] x st by auto
  have mem: "y \<in> set (shards_at ?g k) \<longleftrightarrow> (if y = x then k = t else y \<in> set (shards_at g k))" for y k
  proof -
    have "x \<in> set (shards_at g k) \<longleftrightarrow> k = s" using own [of x s k] x by auto
    moreover have "shards_at ?g k = (if k = s then xs else if k = t then shards_at g t @ [x] else shards_at g k)"
      by simp
    ultimately show ?thesis using x xs(1) st by (cases "k = s"; cases "k = t"; cases "y = x") simp_all
  qed
  have "distinct (shards_at ?g k)" for k using d [of k] d [of t] xs xt by simp
  moreover have "k = k'" if "y \<in> set (shards_at ?g k)" "y \<in> set (shards_at ?g k')" for y k k'
    using that own [of y k k'] unfolding mem by (auto split: if_splits)
  moreover have "(\<exists>k. y \<in> set (shards_at ?g k)) \<longleftrightarrow> (\<exists>k. y \<in> set (shards_at g k))" for y
  proof -
    have "\<exists>k. x \<in> set (shards_at g k)" using x by (intro exI [of _ s]) simp
    then show ?thesis unfolding mem by (cases "y = x") auto
  qed
  ultimately show ?thesis using p unfolding parts_def by blast
qed

definition keys_ok :: "g2s \<Rightarrow> bool" where
  "keys_ok g \<longleftrightarrow> distinct (map fst g)"

lemma keys_ok_update: "keys_ok g \<Longrightarrow> keys_ok (AList.update k v g)"
  by (simp add: keys_ok_def distinct_update)

lemma fst_update: "fst ` set (AList.update k v g) = insert k (fst ` set g)"
  by (simp add: dom_update)

text \<open>The loop ends with every group within one shard of every other, and nothing at group 0.\<close>

lemma max_gid_nonempty:
  assumes "parts g" "getGidWithMaxShards g \<noteq> 0 \<Longrightarrow> load g (getGidWithMaxShards g) \<noteq> 0"
  shows "shards_at g (getGidWithMaxShards g) \<noteq> []"
proof (cases "getGidWithMaxShards g = 0")
  case True
  show ?thesis
  proof
    assume "shards_at g (getGidWithMaxShards g) = []"
    with True have z: "shards_at g 0 = []" by simp
    have "0 < NShards" by (simp add: NShards_def)
    then obtain k where "0 \<in> set (shards_at g k)" using assms(1) unfolding parts_def by blast
    then have "0 < load g k" by (cases "shards_at g k") auto
    with max_gid_load [OF z, of k] True z show False by simp
  qed
qed (use assms(2) in auto)

lemma balance_spec:
  assumes "parts g" "keys_ok g" "k0 \<in> fst ` set g" "k0 \<noteq> 0"
  shows "\<exists>g'. balance g = Some g' \<and> parts g' \<and> keys_ok g' \<and> fst ` set g' = fst ` set g \<and>
    shards_at g' 0 = [] \<and>
    (\<forall>j\<in>fst ` set g. \<forall>k\<in>fst ` set g. j \<noteq> 0 \<longrightarrow> k \<noteq> 0 \<longrightarrow> load g' j \<le> load g' k + 1)"
  using assms
proof (induction g rule: balance.induct)
  case (1 g)
  let ?s = "getGidWithMaxShards g" and ?t = "getGidWithMinShards g"
  have l: "load g k \<le> NShards" for k using "1.prems"(1) by (rule parts_load)
  have mn: "?t \<in> fst ` set g" "\<And>j. j \<in> fst ` set g \<Longrightarrow> j \<noteq> 0 \<Longrightarrow> load g ?t \<le> load g j"
    using min_gid_load [OF "1.prems"(3,4) l] by blast+
  show ?case
  proof (cases "?s \<noteq> 0 \<and> int (load g ?s) - int (load g ?t) \<le> 1")
    case True
    then have z: "shards_at g 0 = []" using max_gid_zero_iff [of g] by blast
    have "load g j \<le> load g k + 1" if "j \<in> fst ` set g" "k \<in> fst ` set g" "k \<noteq> 0" for j k
      using max_gid_load [OF z, of j] mn(2) [OF that(2,3)] True by linarith
    moreover have "balance g = Some g" using True by (subst balance.simps) simp
    ultimately show ?thesis using "1.prems" z by blast
  next
    case False
    have st: "?s \<noteq> ?t" using False min_gid_nonzero [of g] by auto
    have ne: "shards_at g ?s \<noteq> []"
      using max_gid_nonempty [OF "1.prems"(1)] False by fastforce
    then obtain x xs where x: "shards_at g ?s = x # xs" by (cases "shards_at g ?s") auto
    let ?g1 = "AList.update ?t (shards_at g ?t @ [x]) g"
    let ?g = "AList.update ?s xs ?g1"
    have i: "idx (shards_at g ?s) 0 = Some x" using x by (simp add: idx_def)
    have r: "slice_from (shards_at ?g1 ?s) 1 = Some xs" using x st by (simp add: slice_from_def)
    have s_in: "?s \<in> fst ` set g" using ne shards_at_absent by blast
    have keys: "fst ` set ?g = fst ` set g" using s_in mn(1) by (auto simp: fst_update)
    have eq: "balance g = balance ?g"
      by (subst balance.simps) (unfold Let_def if_not_P [OF False] i r Option.bind_lunit, rule refl)
    have "parts ?g" using parts_move [OF "1.prems"(1) x st] .
    moreover have "keys_ok ?g" using "1.prems"(2) by (intro keys_ok_update)
    ultimately have "\<exists>g'. balance ?g = Some g' \<and> parts g' \<and> keys_ok g' \<and> fst ` set g' = fst ` set ?g \<and>
      shards_at g' 0 = [] \<and>
      (\<forall>j\<in>fst ` set ?g. \<forall>k\<in>fst ` set ?g. j \<noteq> 0 \<longrightarrow> k \<noteq> 0 \<longrightarrow> load g' j \<le> load g' k + 1)"
      using "1.prems"(3,4) keys by (intro "1.IH" [OF refl refl False i refl r]) simp_all
    then show ?thesis unfolding eq keys .
  qed
qed

end
