(* ===== verification/Ctrler_Balance.thy ===== *)
theory Ctrler_Balance
  imports Ctrler_Config
begin

text \<open>
  Correctness of the shard controller's operations: configurations stay well formed and are
  never changed once made, Join balances the shards over all groups, Leave moves only the
  shards of the groups that leave and keeps the balance, and nothing depends on the order in
  which Go visits its maps.
\<close>

section \<open>Reading a configuration\<close>

lemma fold_update_empty_keys:
  "fst ` set (fold (\<lambda>(gid, _) g. AList.update gid [] g) gs g) = fst ` set gs \<union> fst ` set g"
proof (induction gs arbitrary: g)
  case (Cons x xs)
  show ?case using Cons.IH [of "AList.update (fst x) [] g"] by (simp add: case_prod_unfold fst_update)
qed simp

lemma fold_update_empty_at:
  "(\<And>k. shards_at g k = []) \<Longrightarrow> shards_at (fold (\<lambda>(gid, _) g. AList.update gid [] g) gs g) k = []"
proof (induction gs arbitrary: g)
  case (Cons x xs)
  have "shards_at (AList.update (fst x) [] g) k = []" for k using Cons.prems by simp
  from Cons.IH [OF this] show ?case by (simp add: case_prod_unfold)
qed simp

lemma fold_update_empty_ok: "keys_ok g \<Longrightarrow> keys_ok (fold (\<lambda>(gid, _) g. AList.update gid [] g) gs g)"
  by (induction gs arbitrary: g) (auto simp: keys_ok_update)

abbreviation collect_shards :: "int list \<Rightarrow> g2s \<Rightarrow> g2s" where
  "collect_shards ss \<equiv> fold (\<lambda>(shard, gid) g. AList.update gid (shards_at g gid @ [shard]) g) (enumerate 0 ss)"

lemma collect_shards_snoc:
  "collect_shards (ss @ [x]) g = (let h = collect_shards ss g in AList.update x (shards_at h x @ [length ss]) h)"
  by (simp add: enumerate_append_eq Let_def)

lemma collect_shards_at:
  "shards_at (collect_shards ss g) k = shards_at g k @ filter (\<lambda>s. ss ! s = k) [0..<length ss]"
proof (induction ss arbitrary: k rule: rev_induct)
  case (snoc x ss)
  have "filter (\<lambda>s. (ss @ [x]) ! s = k) [0..<length ss] = filter (\<lambda>s. ss ! s = k) [0..<length ss]"
    by (rule filter_cong) (auto simp: nth_append)
  with snoc show ?case by (simp add: collect_shards_snoc Let_def)
qed simp

lemma collect_shards_keys: "fst ` set (collect_shards ss g) = fst ` set g \<union> set ss"
  by (induction ss rule: rev_induct) (auto simp: collect_shards_snoc Let_def fst_update)

lemma collect_shards_ok: "keys_ok g \<Longrightarrow> keys_ok (collect_shards ss g)"
  by (induction ss rule: rev_induct) (auto simp: collect_shards_snoc Let_def keys_ok_update)

lemma GroupToShards_at: "shards_at (GroupToShards c) k = filter (\<lambda>s. Shards c ! s = k) [0..<length (Shards c)]"
proof -
  have "shards_at (fold (\<lambda>(gid, _) g. AList.update gid [] g) (Groups c) []) k = []"
    by (rule fold_update_empty_at) (simp add: shards_at_def)
  then show ?thesis unfolding GroupToShards_def collect_shards_at by simp
qed

lemma GroupToShards_keys: "fst ` set (GroupToShards c) = fst ` set (Groups c) \<union> set (Shards c)"
  unfolding GroupToShards_def collect_shards_keys by (simp add: fold_update_empty_keys)

lemma GroupToShards_ok: "keys_ok (GroupToShards c)"
  unfolding GroupToShards_def by (intro collect_shards_ok fold_update_empty_ok) (simp add: keys_ok_def)

lemma GroupToShards_parts: "length (Shards c) = NShards \<Longrightarrow> parts (GroupToShards c)"
  by (auto simp: parts_def GroupToShards_at)

lemma parts_lt: "parts g \<Longrightarrow> s \<in> set (shards_at g k) \<Longrightarrow> s < NShards"
  unfolding parts_def by blast

lemma parts_ex: "parts g \<Longrightarrow> s < NShards \<Longrightarrow> \<exists>k. s \<in> set (shards_at g k)"
  unfolding parts_def by blast

lemma parts_own: "parts g \<Longrightarrow> s \<in> set (shards_at g k) \<Longrightarrow> s \<in> set (shards_at g k') \<Longrightarrow> k = k'"
  unfolding parts_def by blast

section \<open>Writing a configuration\<close>

lemma fill_shards_spec:
  assumes "\<forall>s\<in>set ss. s < length arr"
  shows "\<exists>arr'. fill_shards k ss arr = Some arr' \<and> length arr' = length arr \<and>
    (\<forall>s<length arr. arr' ! s = (if s \<in> set ss then k else arr ! s))"
  using assms
proof (induction ss arbitrary: arr)
  case (Cons s ss)
  then obtain arr' where "fill_shards k ss (arr[s := k]) = Some arr'" "length arr' = length arr"
    "\<forall>j<length arr. arr' ! j = (if j \<in> set ss then k else arr[s := k] ! j)"
    using Cons.IH [of "arr[s := k]"] by auto
  with Cons.prems show ?case by (auto simp: store_def nth_list_update)
qed simp

lemma fill_spec:
  assumes "\<forall>(k, ss)\<in>set g. \<forall>s\<in>set ss. s < length arr" "distinct (map fst g)"
    and "\<And>k ss k' ss' s. (k, ss) \<in> set g \<Longrightarrow> (k', ss') \<in> set g \<Longrightarrow> s \<in> set ss \<Longrightarrow> s \<in> set ss' \<Longrightarrow> k = k'"
  shows "\<exists>arr'. fill g arr = Some arr' \<and> length arr' = length arr \<and>
    (\<forall>(k, ss)\<in>set g. \<forall>s\<in>set ss. arr' ! s = k) \<and>
    (\<forall>s<length arr. (\<forall>(k, ss)\<in>set g. s \<notin> set ss) \<longrightarrow> arr' ! s = arr ! s)"
  using assms
proof (induction g arbitrary: arr)
  case (Cons x g)
  obtain k ss where x: "x = (k, ss)" by force
  from fill_shards_spec [of ss arr k] Cons.prems(1) x obtain arr1 where
    a1: "fill_shards k ss arr = Some arr1" "length arr1 = length arr"
      "\<forall>s<length arr. arr1 ! s = (if s \<in> set ss then k else arr ! s)" by auto
  have "\<exists>arr'. fill g arr1 = Some arr' \<and> length arr' = length arr1 \<and>
    (\<forall>(k, ss)\<in>set g. \<forall>s\<in>set ss. arr' ! s = k) \<and>
    (\<forall>s<length arr1. (\<forall>(k, ss)\<in>set g. s \<notin> set ss) \<longrightarrow> arr' ! s = arr1 ! s)"
  proof (rule Cons.IH)
    show "\<forall>(k, ss)\<in>set g. \<forall>s\<in>set ss. s < length arr1" using Cons.prems(1) a1(2) by simp
    show "distinct (map fst g)" using Cons.prems(2) by simp
    show "\<And>k ss k' ss' s. (k, ss) \<in> set g \<Longrightarrow> (k', ss') \<in> set g \<Longrightarrow> s \<in> set ss \<Longrightarrow> s \<in> set ss' \<Longrightarrow> k = k'"
      using Cons.prems(3) by (meson list.set_intros(2))
  qed
  then obtain arr' where a': "fill g arr1 = Some arr'" "length arr' = length arr1"
      "\<forall>(k, ss)\<in>set g. \<forall>s\<in>set ss. arr' ! s = k"
      "\<forall>s<length arr1. (\<forall>(k, ss)\<in>set g. s \<notin> set ss) \<longrightarrow> arr' ! s = arr1 ! s" by blast
  have no: "s \<notin> set ss'" if "s \<in> set ss" "(k', ss') \<in> set g" for s k' ss'
  proof
    assume "s \<in> set ss'"
    with that Cons.prems(3) [of k ss k' ss' s] x have "k = k'" by simp
    with that(2) Cons.prems(2) x show False by (force simp: image_iff)
  qed
  have "arr' ! s = k" if "s \<in> set ss" for s
    using that no [OF that] a1(2,3) a'(4) Cons.prems(1) x by auto
  moreover have "arr' ! s = arr ! s" if "s < length arr" "\<forall>(k, ss)\<in>set (x # g). s \<notin> set ss" for s
    using that a1(2,3) a'(4) x by auto
  ultimately show ?case using a1 a' x by auto
qed simp

lemma mem_shards_at: "keys_ok g \<Longrightarrow> (k, ss) \<in> set g \<Longrightarrow> shards_at g k = ss"
  by (simp add: shards_at_def keys_ok_def)

lemma shards_at_mem: "s \<in> set (shards_at g k) \<Longrightarrow> (k, shards_at g k) \<in> set g"
  by (auto simp: shards_at_def dest: map_of_SomeD split: option.splits)

lemma fill_parts:
  assumes p: "parts g" and k: "keys_ok g"
  shows "\<exists>arr. fill g (replicate NShards 0) = Some arr \<and> length arr = NShards \<and>
    (\<forall>s k. s \<in> set (shards_at g k) \<longrightarrow> arr ! s = k)"
proof -
  have at: "shards_at g k = ss" if "(k, ss) \<in> set g" for k ss using mem_shards_at [OF assms(2) that] .
  have "\<exists>arr. fill g (replicate NShards 0) = Some arr \<and> length arr = length (replicate NShards (0::int)) \<and>
    (\<forall>(k, ss)\<in>set g. \<forall>s\<in>set ss. arr ! s = k) \<and>
    (\<forall>s<length (replicate NShards (0::int)). (\<forall>(k, ss)\<in>set g. s \<notin> set ss) \<longrightarrow> arr ! s = replicate NShards 0 ! s)"
  proof (rule fill_spec)
    show "\<forall>(k, ss)\<in>set g. \<forall>s\<in>set ss. s < length (replicate NShards (0::int))"
      using parts_lt [OF p] at by fastforce
    show "distinct (map fst g)" using k by (simp add: keys_ok_def)
    show "k = k'" if "(k, ss) \<in> set g" "(k', ss') \<in> set g" "s \<in> set ss" "s \<in> set ss'" for k ss k' ss' s
      using parts_own [OF p, of s k k'] at [OF that(1)] at [OF that(2)] that(3,4) by simp
  qed
  then show ?thesis using shards_at_mem by fastforce
qed

lemma parts_count:
  assumes p: "parts g" and a: "length arr = NShards" "\<forall>s k. s \<in> set (shards_at g k) \<longrightarrow> arr ! s = k"
  shows "length (filter (\<lambda>x. x = k) arr) = load g k"
proof -
  have "{s. s < length arr \<and> arr ! s = k} = set (shards_at g k)"
  proof
    show "{s. s < length arr \<and> arr ! s = k} \<subseteq> set (shards_at g k)"
    proof
      fix s assume s: "s \<in> {s. s < length arr \<and> arr ! s = k}"
      then obtain k' where "s \<in> set (shards_at g k')" using parts_ex [OF p, of s] a(1) by auto
      with s a(2) show "s \<in> set (shards_at g k)" by auto
    qed
    show "set (shards_at g k) \<subseteq> {s. s < length arr \<and> arr ! s = k}"
      using parts_lt [OF p] a by auto
  qed
  moreover have "distinct (shards_at g k)" using p by (simp add: parts_def)
  ultimately show ?thesis by (simp add: length_filter_conv_card distinct_card)
qed

section \<open>Copying and joining groups\<close>

lemma update_new: "k \<notin> fst ` set al \<Longrightarrow> AList.update k v al = al @ [(k, v)]"
  by (induction al) auto

lemma dcopy_id:
  assumes "distinct (map fst gs)"
  shows "dcopy gs = gs"
proof -
  have "fold (\<lambda>(gid, servers) ng. AList.update gid (take (length servers) servers) ng) gs acc = acc @ gs"
    if "distinct (map fst (acc @ gs))" for acc
    using that
  proof (induction gs arbitrary: acc)
    case (Cons x gs)
    have "AList.update (fst x) (snd x) acc = acc @ [x]" using Cons.prems by (subst update_new) auto
    with Cons.IH [of "acc @ [x]"] Cons.prems show ?case by (simp add: case_prod_unfold)
  qed simp
  from this [of "[]"] assms show ?thesis by (simp add: dcopy_def)
qed

lemma join_groups_ok:
  "distinct (map fst ng) \<Longrightarrow> distinct (map fst (join_groups gs ng))"
  unfolding join_groups_def by (induction gs arbitrary: ng) (auto simp: distinct_update)

lemma join_groups_map:
  "map_of (join_groups gs ng) = map_of gs ++ map_of ng"
proof (induction gs arbitrary: ng)
  case (Cons x gs)
  have "join_groups (x # gs) ng = join_groups gs
      (if map_of ng (fst x) = None then AList.update (fst x) (snd x) ng else ng)"
    by (simp add: join_groups_def case_prod_unfold)
  with Cons show ?case
    by (auto simp: update_conv' map_add_def fun_eq_iff split: option.splits)
qed (simp add: join_groups_def)

lemma keys_map_of: "fst ` set al = dom (map_of al)"
  by (simp add: dom_map_of_conv_image_fst)

lemma join_groups_keys: "fst ` set (join_groups gs ng) = fst ` set gs \<union> fst ` set ng"
  unfolding keys_map_of join_groups_map by auto

section \<open>Well-formed configurations\<close>

definition config_ok :: "Config \<Rightarrow> bool" where
  "config_ok c \<longleftrightarrow> length (Shards c) = NShards \<and> distinct (map fst (Groups c)) \<and> 0 \<notin> fst ` set (Groups c) \<and>
     (if Groups c = [] then Shards c = replicate NShards 0 else set (Shards c) \<subseteq> fst ` set (Groups c))"

definition machine_ok :: "MemoryConfigStateMachine \<Rightarrow> bool" where
  "machine_ok cf \<longleftrightarrow> Configs cf \<noteq> [] \<and> list_all config_ok (Configs cf) \<and>
     (\<forall>i<length (Configs cf). Num (Configs cf ! i) = int i)"

definition shard_count :: "Config \<Rightarrow> int \<Rightarrow> nat" where
  "shard_count c gid = length (filter (\<lambda>x. x = gid) (Shards c))"

definition balanced :: "Config \<Rightarrow> bool" where
  "balanced c \<longleftrightarrow> (\<forall>j\<in>fst ` set (Groups c). \<forall>k\<in>fst ` set (Groups c). shard_count c j \<le> shard_count c k + 1)"

lemma machine_ok_snoc:
  "machine_ok cf \<Longrightarrow> config_ok c \<Longrightarrow> Num c = int (length (Configs cf)) \<Longrightarrow>
   machine_ok (cf\<lparr>Configs := Configs cf @ [c]\<rparr>)"
  by (auto simp: machine_ok_def nth_append less_Suc_eq)

lemma machine_ok_last: "machine_ok cf \<Longrightarrow> config_ok (last (Configs cf))"
  by (simp add: machine_ok_def list_all_iff)

lemma fill_config:
  assumes p: "parts g" and ko: "keys_ok g" and z: "shards_at g 0 = []"
    and gs: "distinct (map fst gs)" "0 \<notin> fst ` set gs" "gs \<noteq> []" and sub: "\<And>k. shards_at g k \<noteq> [] \<Longrightarrow> k \<in> fst ` set gs"
  shows "\<exists>arr. fill g (replicate NShards 0) = Some arr \<and>
    config_ok \<lparr>Num = m, Shards = arr, Groups = gs\<rparr> \<and> length arr = NShards \<and>
    (\<forall>s k. s \<in> set (shards_at g k) \<longrightarrow> arr ! s = k) \<and>
    (\<forall>k. shard_count \<lparr>Num = m, Shards = arr, Groups = gs\<rparr> k = load g k)"
proof -
  from fill_parts [OF p ko] obtain arr where a: "fill g (replicate NShards 0) = Some arr" "length arr = NShards"
    "\<forall>s k. s \<in> set (shards_at g k) \<longrightarrow> arr ! s = k" by blast
  have "arr ! s \<in> fst ` set gs" if "s < length arr" for s
  proof -
    from that a(2) parts_ex [OF p] obtain k where k: "s \<in> set (shards_at g k)" by auto
    with a(3) have "arr ! s = k" by blast
    moreover from k have "shards_at g k \<noteq> []" by auto
    ultimately show ?thesis using sub by simp
  qed
  then have "set arr \<subseteq> fst ` set gs" by (auto simp: in_set_conv_nth)
  with a(1-3) gs parts_count [OF p a(2,3)] show ?thesis by (auto simp: config_ok_def shard_count_def)
qed

section \<open>Join\<close>

lemma Join_spec:
  assumes ok: "machine_ok cf" and gs: "distinct (map fst groups)" "0 \<notin> fst ` set groups"
    and ne: "groups \<noteq> [] \<or> Groups (last (Configs cf)) \<noteq> []"
  shows "\<exists>c g. Join cf groups = Some (cf\<lparr>Configs := Configs cf @ [c]\<rparr>, OK) \<and> config_ok c \<and>
    Num c = int (length (Configs cf)) \<and> Groups c = join_groups groups (Groups (last (Configs cf))) \<and> balanced c \<and>
    balance (GroupToShards \<lparr>Num = int (length (Configs cf)), Shards = Shards (last (Configs cf)),
      Groups = join_groups groups (Groups (last (Configs cf)))\<rparr>) = Some g \<and> parts g \<and>
    (\<forall>s k. s \<in> set (shards_at g k) \<longrightarrow> Shards c ! s = k)"
proof -
  let ?n = "int (length (Configs cf))" and ?l = "last (Configs cf)"
  let ?gs = "join_groups groups (Groups ?l)"
  let ?c = "\<lparr>Num = ?n, Shards = Shards ?l, Groups = ?gs\<rparr>"
  have lok: "config_ok ?l" using ok by (rule machine_ok_last)
  then have d: "distinct (map fst (Groups ?l))" "0 \<notin> fst ` set (Groups ?l)" "length (Shards ?l) = NShards"
    by (simp_all add: config_ok_def)
  have dc: "dcopy (Groups ?l) = Groups ?l" using d(1) by (rule dcopy_id)
  have gk: "distinct (map fst ?gs)" "0 \<notin> fst ` set ?gs" "?gs \<noteq> []"
    using join_groups_ok [OF d(1)] join_groups_keys [of groups "Groups ?l"] d(2) gs(2) ne by auto
  have sh: "set (Shards ?l) \<subseteq> insert 0 (fst ` set ?gs)"
    using lok join_groups_keys [of groups "Groups ?l"] by (auto simp: config_ok_def split: if_splits)
  from gk(3,2) obtain k0 where k0: "k0 \<in> fst ` set ?gs" "k0 \<noteq> 0" by (cases ?gs) auto
  have keys: "fst ` set (GroupToShards ?c) \<subseteq> insert 0 (fst ` set ?gs)"
    unfolding GroupToShards_keys using sh by auto
  have k0': "k0 \<in> fst ` set (GroupToShards ?c)" unfolding GroupToShards_keys using k0(1) by simp
  have p: "parts (GroupToShards ?c)" using d(3) by (intro GroupToShards_parts) simp
  from balance_spec [OF p GroupToShards_ok k0' k0(2)] obtain g where
    g: "balance (GroupToShards ?c) = Some g" "parts g" "keys_ok g" "fst ` set g = fst ` set (GroupToShards ?c)"
      "shards_at g 0 = []"
    and bal: "\<forall>j\<in>fst ` set (GroupToShards ?c). \<forall>k\<in>fst ` set (GroupToShards ?c). j \<noteq> 0 \<longrightarrow> k \<noteq> 0 \<longrightarrow> load g j \<le> load g k + 1"
    by blast
  have sub: "k \<in> fst ` set ?gs" if "shards_at g k \<noteq> []" for k
  proof -
    have "k \<in> fst ` set g" using that shards_at_absent by blast
    with keys g(4,5) that show ?thesis by auto
  qed
  from fill_config [OF g(2,3,5) gk sub, of ?n] obtain arr where
    a: "fill g (replicate NShards 0) = Some arr" "config_ok \<lparr>Num = ?n, Shards = arr, Groups = ?gs\<rparr>"
      "\<forall>s k. s \<in> set (shards_at g k) \<longrightarrow> arr ! s = k"
      "\<forall>k. shard_count \<lparr>Num = ?n, Shards = arr, Groups = ?gs\<rparr> k = load g k" by blast
  have "Configs cf \<noteq> []" using ok by (simp add: machine_ok_def)
  then have j: "Join cf groups = Some (cf\<lparr>Configs := Configs cf @ [\<lparr>Num = ?n, Shards = arr, Groups = ?gs\<rparr>]\<rparr>, OK)"
    using g(1) a(1) by (simp add: Join_def dc)
  have gin: "fst ` set ?gs \<subseteq> fst ` set (GroupToShards ?c)" unfolding GroupToShards_keys by simp
  have "balanced \<lparr>Num = ?n, Shards = arr, Groups = ?gs\<rparr>"
    unfolding balanced_def a(4) [rule_format]
  proof (intro ballI)
    fix j k assume jk: "j \<in> fst ` set (Groups \<lparr>Num = ?n, Shards = arr, Groups = ?gs\<rparr>)"
      "k \<in> fst ` set (Groups \<lparr>Num = ?n, Shards = arr, Groups = ?gs\<rparr>)"
    then have jk': "j \<in> fst ` set ?gs" "k \<in> fst ` set ?gs" by simp_all
    then have "j \<noteq> 0" "k \<noteq> 0" using gk(2) by metis+
    moreover have "j \<in> fst ` set (GroupToShards ?c)" "k \<in> fst ` set (GroupToShards ?c)" using jk' gin by blast+
    ultimately show "load g j \<le> load g k + 1" using bal by blast
  qed
  with j a(2,3) g(1,2) show ?thesis
    by (intro exI [of _ "\<lparr>Num = ?n, Shards = arr, Groups = ?gs\<rparr>"] exI [of _ g]) auto
qed

section \<open>Leave\<close>

lemma load_GroupToShards: "load (GroupToShards c) k = length (filter (\<lambda>x. x = k) (Shards c))"
proof -
  have "filter (\<lambda>x. x = k) (map ((!) (Shards c)) [0..<length (Shards c)]) =
      map ((!) (Shards c)) (filter (\<lambda>s. Shards c ! s = k) [0..<length (Shards c)])"
    by (simp add: filter_map o_def)
  then show ?thesis unfolding map_nth GroupToShards_at by simp
qed


text \<open>A partition of the shards over the groups and the orphans.\<close>

definition parts_with :: "g2s \<Rightarrow> nat list \<Rightarrow> bool" where
  "parts_with g os \<longleftrightarrow> (\<forall>k. distinct (shards_at g k)) \<and> distinct os \<and>
     (\<forall>k k' s. s \<in> set (shards_at g k) \<longrightarrow> s \<in> set (shards_at g k') \<longrightarrow> k = k') \<and>
     (\<forall>k s. s \<in> set (shards_at g k) \<longrightarrow> s \<notin> set os) \<and>
     (\<forall>s. s \<in> set os \<or> (\<exists>k. s \<in> set (shards_at g k)) \<longleftrightarrow> s < NShards)"

lemma parts_with_Nil: "parts_with g [] = parts g"
  by (simp add: parts_with_def parts_def)

lemma parts_with_load: "parts_with g os \<Longrightarrow> load g k \<le> NShards"
proof -
  assume p: "parts_with g os"
  then have "set (shards_at g k) \<subseteq> {..<NShards}" unfolding parts_with_def by blast
  then have "card (set (shards_at g k)) \<le> card {..<NShards}" by (intro card_mono) auto
  with p show ?thesis by (simp add: parts_with_def distinct_card)
qed

lemma parts_with_assign:
  assumes "parts_with g (x # os)"
  shows "parts_with (AList.update t (shards_at g t @ [x]) g) os"
proof -
  let ?g = "AList.update t (shards_at g t @ [x]) g"
  from assms have p: "\<And>k. distinct (shards_at g k)" "x \<notin> set os" "distinct os"
    "\<And>k k' s. s \<in> set (shards_at g k) \<Longrightarrow> s \<in> set (shards_at g k') \<Longrightarrow> k = k'"
    "\<And>k s. s \<in> set (shards_at g k) \<Longrightarrow> s \<noteq> x \<and> s \<notin> set os"
    and all: "\<And>s. s = x \<or> s \<in> set os \<or> (\<exists>k. s \<in> set (shards_at g k)) \<longleftrightarrow> s < NShards"
    by (auto simp: parts_with_def)
  have mem: "s \<in> set (shards_at ?g k) \<longleftrightarrow> s \<in> set (shards_at g k) \<or> (k = t \<and> s = x)" for s k by auto
  have "distinct (shards_at ?g k)" for k using p(1) [of k] p(1) [of t] p(5) by auto
  moreover have "k = k'" if "s \<in> set (shards_at ?g k)" "s \<in> set (shards_at ?g k')" for s k k'
    using that p(4) [of s k k'] p(5) [of s k] p(5) [of s k'] unfolding mem by blast
  moreover have "s \<notin> set os" if "s \<in> set (shards_at ?g k)" for s k
    using that p(2) p(5) unfolding mem by blast
  moreover have "s \<in> set os \<or> (\<exists>k. s \<in> set (shards_at ?g k)) \<longleftrightarrow> s < NShards" for s
    unfolding mem using all [of s] by blast
  ultimately show ?thesis using p(3) unfolding parts_with_def by blast
qed

lemma shards_at_delete [simp]: "shards_at (AList.delete k g) j = (if j = k then [] else shards_at g j)"
  by (simp add: shards_at_def delete_conv')

lemma parts_with_leave:
  assumes "parts_with g os"
  shows "parts_with (AList.delete k g) (os @ shards_at g k)"
proof -
  let ?g = "AList.delete k g"
  from assms have p: "\<And>k. distinct (shards_at g k)" "distinct os"
    "\<And>k k' s. s \<in> set (shards_at g k) \<Longrightarrow> s \<in> set (shards_at g k') \<Longrightarrow> k = k'"
    "\<And>k s. s \<in> set (shards_at g k) \<Longrightarrow> s \<notin> set os"
    and all: "\<And>s. s \<in> set os \<or> (\<exists>k. s \<in> set (shards_at g k)) \<longleftrightarrow> s < NShards"
    unfolding parts_with_def by blast+
  have mem: "s \<in> set (shards_at ?g j) \<longleftrightarrow> s \<in> set (shards_at g j) \<and> j \<noteq> k" for s j by auto
  have "distinct (shards_at ?g j)" for j using p(1) [of j] by simp
  moreover have "distinct (os @ shards_at g k)" using p(1) [of k] p(2,4) by auto
  moreover have "s \<notin> set (os @ shards_at g k)" if "s \<in> set (shards_at ?g j)" for s j
    using that p(3) [of s j k] p(4) [of s j] unfolding mem by auto
  moreover have "s \<in> set (os @ shards_at g k) \<or> (\<exists>j. s \<in> set (shards_at ?g j)) \<longleftrightarrow> s < NShards" for s
    unfolding mem set_append using all [of s] by blast
  moreover have "j = j'" if "s \<in> set (shards_at ?g j)" "s \<in> set (shards_at ?g j')" for s j j'
    using that p(3) unfolding mem by blast
  ultimately show ?thesis unfolding parts_with_def by blast
qed

lemma fst_delete: "fst ` set (AList.delete k al) = fst ` set al - {k}"
  unfolding keys_map_of delete_conv' by auto

lemma distinct_keys_delete: "distinct (map fst al) \<Longrightarrow> distinct (map fst (AList.delete k al))"
  by (rule distinct_delete)

lemma leave_loop_spec:
  assumes "leave_loop gids groups g os = (groups', g', os')" "parts_with g os" "keys_ok g" "distinct (map fst groups)"
  shows "parts_with g' os' \<and> keys_ok g' \<and> distinct (map fst groups') \<and>
    map_of groups' = map_of groups |` (- set gids) \<and> fst ` set g' = fst ` set g - set gids \<and>
    (\<forall>k. shards_at g' k = (if k \<in> set gids then [] else shards_at g k))"
  using assms
proof (induction gids arbitrary: groups g os)
  case Nil
  then show ?case by simp
next
  case (Cons gid gids)
  let ?groups = "if map_of groups gid \<noteq> None then AList.delete gid groups else groups"
  have gr1: "distinct (map fst ?groups)" using Cons.prems(4) by (auto simp: distinct_keys_delete)
  have gr2: "map_of ?groups = (map_of groups)(gid := None)"
  proof (cases "map_of groups gid")
    case None
    then have "(map_of groups)(gid := None) = map_of groups" by (metis fun_upd_idem)
    with None show ?thesis by simp
  qed (simp add: delete_conv')
  note gr = gr1 gr2
  have restr: "(map_of groups)(gid := None) |` (- set gids) = map_of groups |` (- set (gid # gids))"
    by (auto simp: restrict_map_def fun_eq_iff)
  show ?case
  proof (cases "map_of g gid")
    case None
    then have ab: "gid \<notin> fst ` set g" by (simp add: map_of_eq_None_iff)
    from None Cons.prems(1) have r: "leave_loop gids ?groups g os = (groups', g', os')" by (simp add: Let_def)
    from Cons.IH [OF r Cons.prems(2,3) gr(1)] ab shards_at_absent [OF ab] show ?thesis
      unfolding gr(2) restr by auto
  next
    case (Some ss)
    then have ss: "shards_at g gid = ss" by (simp add: shards_at_def)
    from Some Cons.prems(1) have r: "leave_loop gids ?groups (AList.delete gid g) (os @ ss) = (groups', g', os')"
      by (simp add: Let_def)
    have k: "keys_ok (AList.delete gid g)" using Cons.prems(3) by (simp add: keys_ok_def distinct_keys_delete)
    from Cons.IH [OF r _ k gr(1)] parts_with_leave [OF Cons.prems(2), of gid, unfolded ss] show ?thesis
      unfolding gr(2) restr by (auto simp: fst_delete)
  qed
qed

lemma assign_orphans_spec:
  assumes "parts_with g os" "keys_ok g" "k0 \<in> fst ` set g" "k0 \<noteq> 0"
  shows "parts (assign_orphans os g) \<and> keys_ok (assign_orphans os g) \<and>
    fst ` set (assign_orphans os g) = fst ` set g \<and>
    (\<forall>k. set (shards_at g k) \<subseteq> set (shards_at (assign_orphans os g) k)) \<and>
    shards_at (assign_orphans os g) 0 = shards_at g 0 \<and>
    ((\<forall>j\<in>fst ` set g - {0}. \<forall>k\<in>fst ` set g - {0}. load g j \<le> load g k + 1) \<longrightarrow>
     (\<forall>j\<in>fst ` set g - {0}. \<forall>k\<in>fst ` set g - {0}.
        load (assign_orphans os g) j \<le> load (assign_orphans os g) k + 1))"
  using assms
proof (induction os arbitrary: g)
  case Nil
  then show ?case by (simp add: parts_with_Nil)
next
  case (Cons x os)
  let ?t = "getGidWithMinShards g"
  let ?g = "AList.update ?t (shards_at g ?t @ [x]) g"
  have mn: "?t \<in> fst ` set g" "\<And>j. j \<in> fst ` set g \<Longrightarrow> j \<noteq> 0 \<Longrightarrow> load g ?t \<le> load g j"
    using min_gid_load [OF Cons.prems(3,4) parts_with_load [OF Cons.prems(1)]] by blast+
  have t0: "?t \<noteq> 0" by (rule min_gid_nonzero)
  have keys: "fst ` set ?g = fst ` set g" using mn(1) by (auto simp: fst_update)
  note ih = Cons.IH [OF parts_with_assign [OF Cons.prems(1)] keys_ok_update [OF Cons.prems(2)], of ?t,
      unfolded keys, OF Cons.prems(3,4)]
  have b: "\<forall>j\<in>fst ` set g - {0}. \<forall>k\<in>fst ` set g - {0}. load ?g j \<le> load ?g k + 1"
    if "\<forall>j\<in>fst ` set g - {0}. \<forall>k\<in>fst ` set g - {0}. load g j \<le> load g k + 1"
  proof (intro ballI)
    fix j k assume jk: "j \<in> fst ` set g - {0}" "k \<in> fst ` set g - {0}"
    then have "load g j \<le> load g k + 1" "load g ?t \<le> load g k" "load g ?t \<le> load g j"
      using that mn(2) by auto
    then show "load ?g j \<le> load ?g k + 1" by auto
  qed
  have sub: "set (shards_at g k) \<subseteq> set (shards_at ?g k)" for k by auto
  have z: "shards_at ?g 0 = shards_at g 0" using t0 by simp
  have ao: "assign_orphans (x # os) g = assign_orphans os ?g" by (simp add: Let_def)
  show ?case
    unfolding ao
  proof (intro conjI allI impI)
    show "parts (assign_orphans os ?g)" by (rule ih [THEN conjunct1])
    show "keys_ok (assign_orphans os ?g)" by (rule ih [THEN conjunct2, THEN conjunct1])
    show "fst ` set (assign_orphans os ?g) = fst ` set g" by (rule ih [THEN conjunct2, THEN conjunct2, THEN conjunct1])
    show "set (shards_at g k) \<subseteq> set (shards_at (assign_orphans os ?g) k)" for k
      using subset_trans [OF sub ih [THEN conjunct2, THEN conjunct2, THEN conjunct2, THEN conjunct1, THEN spec]] .
    show "shards_at (assign_orphans os ?g) 0 = shards_at g 0"
      using ih [THEN conjunct2, THEN conjunct2, THEN conjunct2, THEN conjunct2, THEN conjunct1] z by (rule trans)
    assume "\<forall>j\<in>fst ` set g - {0}. \<forall>k\<in>fst ` set g - {0}. load g j \<le> load g k + 1"
    then show "\<forall>j\<in>fst ` set g - {0}. \<forall>k\<in>fst ` set g - {0}.
      load (assign_orphans os ?g) j \<le> load (assign_orphans os ?g) k + 1"
      by (rule ih [THEN conjunct2, THEN conjunct2, THEN conjunct2, THEN conjunct2, THEN conjunct2, THEN mp, OF b])
  qed
qed

text \<open>
  The groups that stay (\<open>gs\<close>, their shards \<open>g\<close>) take over the shards \<open>os\<close> of those that
  leave: the shares that result make a configuration, nobody who stays loses a shard, and shares
  that were balanced stay so.
\<close>

lemma takeover_config:
  assumes g: "parts_with g os" "keys_ok g" "fst ` set g = fst ` set gs" and gs: "distinct (map fst gs)" "0 \<notin> fst ` set gs" "gs \<noteq> []"
  shows "\<exists>arr. fill (assign_orphans os g) (replicate NShards 0) = Some arr \<and> config_ok \<lparr>Num = n, Shards = arr, Groups = gs\<rparr> \<and>
    (\<forall>k. \<forall>s\<in>set (shards_at g k). arr ! s = k) \<and>
    ((\<forall>j\<in>fst ` set gs. \<forall>k\<in>fst ` set gs. load g j \<le> load g k + 1) \<longrightarrow> balanced \<lparr>Num = n, Shards = arr, Groups = gs\<rparr>)"
proof -
  let ?g = "assign_orphans os g"
  obtain k0 where k0: "k0 \<in> fst ` set g" "k0 \<noteq> 0" using gs(2,3) g(3) by (cases gs) auto
  from assign_orphans_spec [OF g(1,2) k0] have as: "parts ?g" "keys_ok ?g" "fst ` set ?g = fst ` set g"
    "\<And>k. set (shards_at g k) \<subseteq> set (shards_at ?g k)" "shards_at ?g 0 = shards_at g 0"
    and bal: "(\<forall>j\<in>fst ` set g - {0}. \<forall>k\<in>fst ` set g - {0}. load g j \<le> load g k + 1) \<Longrightarrow>
      (\<forall>j\<in>fst ` set g - {0}. \<forall>k\<in>fst ` set g - {0}. load ?g j \<le> load ?g k + 1)"
    by (elim conjE, blast)+
  have z: "shards_at ?g 0 = []" using as(5) gs(2) g(3) shards_at_absent [of 0 g] by simp
  have sub: "k \<in> fst ` set gs" if "shards_at ?g k \<noteq> []" for k
    using that shards_at_absent [of k ?g] as(3) g(3) by blast
  from fill_config [OF as(1,2) z gs sub, of n]
  obtain arr where a: "fill ?g (replicate NShards 0) = Some arr" "config_ok \<lparr>Num = n, Shards = arr, Groups = gs\<rparr>"
    "\<forall>s k. s \<in> set (shards_at ?g k) \<longrightarrow> arr ! s = k"
    "\<forall>k. shard_count \<lparr>Num = n, Shards = arr, Groups = gs\<rparr> k = load ?g k" by blast
  have nz: "fst ` set g - {0} = fst ` set gs" using gs(2) g(3) by auto
  have "arr ! s = k" if "s \<in> set (shards_at g k)" for s k using a(3) as(4) that by blast
  with a(1,2,4) bal show ?thesis unfolding nz by (intro exI [of _ arr]) (simp add: balanced_def)
qed

lemma Leave_spec:
  assumes ok: "machine_ok cf"
  shows "\<exists>c. Leave cf gids = Some (cf\<lparr>Configs := Configs cf @ [c]\<rparr>, OK) \<and> config_ok c \<and>
    Num c = int (length (Configs cf)) \<and> map_of (Groups c) = map_of (Groups (last (Configs cf))) |` (- set gids) \<and>
    (\<forall>s<NShards. Shards (last (Configs cf)) ! s \<in> fst ` set (Groups c) \<longrightarrow>
       Shards c ! s = Shards (last (Configs cf)) ! s) \<and>
    (balanced (last (Configs cf)) \<longrightarrow> balanced c)"
proof -
  let ?n = "int (length (Configs cf))" and ?l = "last (Configs cf)"
  let ?c = "\<lparr>Num = ?n, Shards = Shards ?l, Groups = Groups ?l\<rparr>"
  have lok: "config_ok ?l" using ok by (rule machine_ok_last)
  then have d: "distinct (map fst (Groups ?l))" "0 \<notin> fst ` set (Groups ?l)" "length (Shards ?l) = NShards"
    by (simp_all add: config_ok_def)
  have dc: "dcopy (Groups ?l) = Groups ?l" using d(1) by (rule dcopy_id)
  obtain gs g os where lv: "leave_loop gids (Groups ?l) (GroupToShards ?c) [] = (gs, g, os)" by (metis prod_cases3)
  have "parts_with (GroupToShards ?c) []" using d(3) by (simp add: parts_with_Nil GroupToShards_parts)
  from leave_loop_spec [OF lv this GroupToShards_ok d(1)] have
    g: "parts_with g os" "keys_ok g" and gs: "distinct (map fst gs)" "map_of gs = map_of (Groups ?l) |` (- set gids)"
    and keys: "fst ` set g = fst ` set (GroupToShards ?c) - set gids"
    and at: "\<And>k. shards_at g k = (if k \<in> set gids then [] else shards_at (GroupToShards ?c) k)" by auto
  have gk: "fst ` set gs = fst ` set (Groups ?l) - set gids" unfolding keys_map_of gs(2) by auto
  have cne: "Configs cf \<noteq> []" using ok by (simp add: machine_ok_def)
  show ?thesis
  proof (cases "gs = []")
    case True
    let ?new = "\<lparr>Num = ?n, Shards = replicate NShards 0, Groups = gs\<rparr>"
    have "Leave cf gids = Some (cf\<lparr>Configs := Configs cf @ [?new]\<rparr>, OK)"
      using lv True cne by (simp add: Leave_def dc)
    with True gs(2) show ?thesis by (intro exI [of _ ?new]) (simp add: config_ok_def balanced_def)
  next
    case ne: False
    have "Groups ?l \<noteq> []" using gk ne by auto
    then have "set (Shards ?l) \<subseteq> fst ` set (Groups ?l)" using lok by (simp add: config_ok_def)
    then have keys': "fst ` set g = fst ` set gs" unfolding keys gk GroupToShards_keys by auto
    have "0 \<notin> fst ` set gs" using gk d(2) by simp
    from takeover_config [OF g keys' gs(1) this ne, of ?n] obtain arr where
      a: "fill (assign_orphans os g) (replicate NShards 0) = Some arr" "config_ok \<lparr>Num = ?n, Shards = arr, Groups = gs\<rparr>"
      "\<And>k s. s \<in> set (shards_at g k) \<Longrightarrow> arr ! s = k"
      "(\<forall>j\<in>fst ` set gs. \<forall>k\<in>fst ` set gs. load g j \<le> load g k + 1) \<longrightarrow> balanced \<lparr>Num = ?n, Shards = arr, Groups = gs\<rparr>" by metis
    let ?new = "\<lparr>Num = ?n, Shards = arr, Groups = gs\<rparr>"
    have "Leave cf gids = Some (cf\<lparr>Configs := Configs cf @ [?new]\<rparr>, OK)" using lv ne cne a(1) by (simp add: Leave_def dc)
    moreover have "arr ! s = Shards ?l ! s" if "s < NShards" "Shards ?l ! s \<in> fst ` set gs" for s
      using that gk d(3) by (intro a(3)) (simp add: at GroupToShards_at)
    moreover have "shard_count ?l k = load g k" if "k \<in> fst ` set gs" for k
      using that gk by (simp add: at load_GroupToShards shard_count_def)
    then have "\<forall>j\<in>fst ` set gs. \<forall>k\<in>fst ` set gs. load g j \<le> load g k + 1" if "balanced ?l"
      using that gk unfolding balanced_def by (metis DiffD1)
    with a(4) have "balanced ?new" if "balanced ?l" using that by blast
    ultimately show ?thesis using a(2) gs(2) by (intro exI [of _ ?new]) simp
  qed
qed

section \<open>The order of map iteration does not matter\<close>

definition same_map :: "g2s \<Rightarrow> g2s \<Rightarrow> bool" where
  "same_map g h \<longleftrightarrow> keys_ok g \<and> keys_ok h \<and> map_of g = map_of h"

lemma same_map_at: "same_map g h \<Longrightarrow> shards_at g = shards_at h"
  by (auto simp: same_map_def shards_at_def fun_eq_iff)

lemma same_map_sort:
  assumes "same_map g h"
  shows "sort (map fst g) = sort (map fst h)"
proof -
  have "set (map fst g) = set (map fst h)" using assms unfolding set_map keys_map_of by (simp add: same_map_def)
  moreover have "distinct (map fst g)" "distinct (map fst h)" using assms by (simp_all add: same_map_def keys_ok_def)
  ultimately show ?thesis by (intro sorted_distinct_set_unique) simp_all
qed

lemma loops_cong:
  assumes "shards_at g = shards_at h"
  shows "max_loop g ks i m = max_loop h ks i m" "min_loop g ks i m = min_loop h ks i m"
  using assms by (induction ks arbitrary: i m) auto

lemma same_map_gids:
  assumes "same_map g h"
  shows "getGidWithMaxShards g = getGidWithMaxShards h" "getGidWithMinShards g = getGidWithMinShards h"
proof -
  have "map_of g 0 = map_of h 0" using assms by (simp add: same_map_def)
  then show "getGidWithMaxShards g = getGidWithMaxShards h" "getGidWithMinShards g = getGidWithMinShards h"
    unfolding getGidWithMaxShards_def getGidWithMinShards_def same_map_sort [OF assms]
    by (simp_all add: loops_cong [OF same_map_at [OF assms]])
qed

lemma same_map_update: "same_map g h \<Longrightarrow> same_map (AList.update k v g) (AList.update k v h)"
  by (simp add: same_map_def keys_ok_update update_conv')

lemma balance_cong:
  assumes "same_map g h" "balance g = Some g'"
  shows "\<exists>h'. balance h = Some h' \<and> same_map g' h'"
  using assms
proof (induction g arbitrary: h rule: balance.induct)
  case (1 g)
  note sm = "1.prems"(1)
  have at: "shards_at h = shards_at g" using same_map_at [OF sm] by simp
  have gd: "getGidWithMaxShards h = getGidWithMaxShards g" "getGidWithMinShards h = getGidWithMinShards g"
    using same_map_gids [OF sm] by simp_all
  let ?s = "getGidWithMaxShards g" and ?t = "getGidWithMinShards g"
  show ?case
  proof (cases "?s \<noteq> 0 \<and> int (load g ?s) - int (load g ?t) \<le> 1")
    case True
    then have "balance g = Some g" by (subst balance.simps) simp
    moreover have "balance h = Some h" using True by (subst balance.simps) (simp add: at gd)
    ultimately show ?thesis using sm "1.prems"(2) by simp
  next
    case False
    let ?u = "\<lambda>x r g. AList.update ?s r (AList.update ?t (shards_at g ?t @ [x]) g)"
    from "1.prems"(2) False obtain x r where x: "idx (shards_at g ?s) 0 = Some x"
      "slice_from (shards_at (AList.update ?t (shards_at g ?t @ [x]) g) ?s) 1 = Some r"
      "balance (?u x r g) = Some g'"
      by (subst (asm) balance.simps) (unfold Let_def if_not_P [OF False], auto simp: bind_Some_iff)
    have smu: "same_map (?u x r g) (?u x r h)" unfolding at using sm by (intro same_map_update)
    have xh: "idx (shards_at h ?s) 0 = Some x"
      "slice_from (shards_at (AList.update ?t (shards_at h ?t @ [x]) h) ?s) 1 = Some r"
      using x(1,2) by (simp_all only: at shards_at_update)
    have "balance h = balance (?u x r h)"
      by (subst balance.simps) (unfold Let_def gd if_not_P [OF False [folded at]] xh Option.bind_lunit, rule refl)
    with "1.IH" [OF refl refl False x(1) refl x(2) smu x(3)] show ?thesis by simp
  qed
qed

lemma GroupToShards_cong:
  assumes "Shards c = Shards d" "fst ` set (Groups c) = fst ` set (Groups d)"
  shows "same_map (GroupToShards c) (GroupToShards d)"
proof -
  have at: "shards_at (GroupToShards c) = shards_at (GroupToShards d)" by (simp add: fun_eq_iff GroupToShards_at assms(1))
  have keys: "dom (map_of (GroupToShards c)) = dom (map_of (GroupToShards d))"
    unfolding keys_map_of [symmetric] GroupToShards_keys assms ..
  have "map_of (GroupToShards c) k = map_of (GroupToShards d) k" for k
  proof (cases "k \<in> dom (map_of (GroupToShards c))")
    case True
    then obtain u v where "map_of (GroupToShards c) k = Some u" "map_of (GroupToShards d) k = Some v"
      using keys by (metis domD)
    with fun_cong [OF at, of k] show ?thesis by (simp add: shards_at_def)
  next
    case False
    then show ?thesis using keys by (metis domIff)
  qed
  then show ?thesis by (simp add: same_map_def GroupToShards_ok fun_eq_iff)
qed

section \<open>Properties of the shard controller\<close>

text \<open>
  C21: Join adds the groups and balances. On a well-formed sequence of configurations, joining
  groups with proper ids (at least one group in all) never panics and its rebalancing loop
  ends; it appends one configuration with the next number, leaves all earlier ones as they
  are, keeps the server lists of groups already present, assigns every shard to a group of the
  new configuration, and no group serves more than one shard more than another.
\<close>

theorem Join_balances:
  assumes "machine_ok cf" "distinct (map fst groups)" "0 \<notin> fst ` set groups"
    and "groups \<noteq> [] \<or> Groups (last (Configs cf)) \<noteq> []"
  shows "\<exists>c. Join cf groups = Some (cf\<lparr>Configs := Configs cf @ [c]\<rparr>, OK) \<and>
    machine_ok (cf\<lparr>Configs := Configs cf @ [c]\<rparr>) \<and> balanced c \<and> set (Shards c) \<subseteq> fst ` set (Groups c) \<and>
    map_of (Groups c) = map_of groups ++ map_of (Groups (last (Configs cf)))"
proof -
  from Join_spec [OF assms] obtain c where c: "Join cf groups = Some (cf\<lparr>Configs := Configs cf @ [c]\<rparr>, OK)"
    "config_ok c" "Num c = int (length (Configs cf))" "balanced c"
    "Groups c = join_groups groups (Groups (last (Configs cf)))" by blast
  have m: "map_of (Groups c) = map_of groups ++ map_of (Groups (last (Configs cf)))"
    unfolding c(5) by (rule join_groups_map)
  have "Groups c \<noteq> []"
  proof
    assume "Groups c = []"
    then have "fst ` set groups \<union> fst ` set (Groups (last (Configs cf))) = {}"
      using join_groups_keys [of groups "Groups (last (Configs cf))"] c(5) by simp
    with assms(4) show False by simp
  qed
  then have "set (Shards c) \<subseteq> fst ` set (Groups c)" using c(2) by (simp add: config_ok_def)
  with c m machine_ok_snoc [OF assms(1) c(2,3)] show ?thesis by blast
qed

text \<open>
  C22: In a well-formed sequence of configurations, whose shards are all assigned to groups that exist
  (or to group 0 when there is none), Leave removes exactly the named groups and moves as little
  as possible: a shard whose group stays does not move, the shards of the groups that leave go to
  groups that stay (or to group 0 when none does), and a balanced assignment stays balanced. (A Move
  to a group that does not exist leads out of the well-formed sequences.)
\<close>

theorem Leave_keeps:
  assumes "machine_ok cf"
  shows "\<exists>c. Leave cf gids = Some (cf\<lparr>Configs := Configs cf @ [c]\<rparr>, OK) \<and>
    machine_ok (cf\<lparr>Configs := Configs cf @ [c]\<rparr>) \<and>
    map_of (Groups c) = map_of (Groups (last (Configs cf))) |` (- set gids) \<and>
    (\<forall>s<NShards. Shards (last (Configs cf)) ! s \<in> fst ` set (Groups c) \<longrightarrow>
       Shards c ! s = Shards (last (Configs cf)) ! s) \<and>
    (if Groups c = [] then Shards c = replicate NShards 0 else set (Shards c) \<subseteq> fst ` set (Groups c)) \<and>
    (balanced (last (Configs cf)) \<longrightarrow> balanced c)"
proof -
  from Leave_spec [OF assms, of gids] obtain c where c: "Leave cf gids = Some (cf\<lparr>Configs := Configs cf @ [c]\<rparr>, OK)"
    "config_ok c" "Num c = int (length (Configs cf))"
    "map_of (Groups c) = map_of (Groups (last (Configs cf))) |` (- set gids)"
    "\<forall>s<NShards. Shards (last (Configs cf)) ! s \<in> fst ` set (Groups c) \<longrightarrow> Shards c ! s = Shards (last (Configs cf)) ! s"
    "balanced (last (Configs cf)) \<longrightarrow> balanced c" by blast
  have "if Groups c = [] then Shards c = replicate NShards 0 else set (Shards c) \<subseteq> fst ` set (Groups c)"
    using c(2) by (simp add: config_ok_def)
  with c machine_ok_snoc [OF assms c(2,3)] show ?thesis by blast
qed

text \<open>
  Replicas agree. Two replicas that hold the same last configuration, up to the order in
  which their Go maps happen to be visited, and that apply a Join with the same groups, again
  up to order, produce configurations with the same number, the same shard assignment and the
  same groups.
\<close>

theorem Join_order_irrelevant:
  assumes "machine_ok cf" "machine_ok cf'" "length (Configs cf') = length (Configs cf)"
    and "Shards (last (Configs cf')) = Shards (last (Configs cf))"
    and "map_of (Groups (last (Configs cf'))) = map_of (Groups (last (Configs cf)))"
    and "distinct (map fst groups)" "distinct (map fst groups')" "map_of groups' = map_of groups"
    and "0 \<notin> fst ` set groups" "groups \<noteq> [] \<or> Groups (last (Configs cf)) \<noteq> []"
  shows "\<exists>c c'. Join cf groups = Some (cf\<lparr>Configs := Configs cf @ [c]\<rparr>, OK) \<and>
    Join cf' groups' = Some (cf'\<lparr>Configs := Configs cf' @ [c']\<rparr>, OK) \<and>
    Num c' = Num c \<and> Shards c' = Shards c \<and> map_of (Groups c') = map_of (Groups c)"
proof -
  let ?l = "last (Configs cf)" and ?l' = "last (Configs cf')" and ?n = "int (length (Configs cf))"
  have ne': "groups' \<noteq> [] \<or> Groups ?l' \<noteq> []" using assms(5,8,10) by auto
  have z': "0 \<notin> fst ` set groups'" using assms(8,9) by (simp add: keys_map_of)
  from Join_spec [OF assms(1,6,9,10)] obtain c g where
    c: "Join cf groups = Some (cf\<lparr>Configs := Configs cf @ [c]\<rparr>, OK)" "config_ok c" "Num c = ?n"
      "Groups c = join_groups groups (Groups ?l)"
    and g: "balance (GroupToShards \<lparr>Num = ?n, Shards = Shards ?l, Groups = join_groups groups (Groups ?l)\<rparr>) = Some g"
      "parts g" "\<forall>s k. s \<in> set (shards_at g k) \<longrightarrow> Shards c ! s = k" by blast
  from Join_spec [OF assms(2,7) z' ne'] obtain c' g' where
    c': "Join cf' groups' = Some (cf'\<lparr>Configs := Configs cf' @ [c']\<rparr>, OK)" "config_ok c'"
      "Num c' = int (length (Configs cf'))" "Groups c' = join_groups groups' (Groups ?l')"
    and g': "balance (GroupToShards \<lparr>Num = int (length (Configs cf')), Shards = Shards ?l',
        Groups = join_groups groups' (Groups ?l')\<rparr>) = Some g'"
      "\<forall>s k. s \<in> set (shards_at g' k) \<longrightarrow> Shards c' ! s = k" by blast
  have gm: "map_of (Groups c') = map_of (Groups c)" unfolding c(4) c'(4) join_groups_map assms(5,8) ..
  have "same_map (GroupToShards \<lparr>Num = ?n, Shards = Shards ?l, Groups = join_groups groups (Groups ?l)\<rparr>)
      (GroupToShards \<lparr>Num = int (length (Configs cf')), Shards = Shards ?l', Groups = join_groups groups' (Groups ?l')\<rparr>)"
    using assms(4) gm unfolding c(4) c'(4) by (intro GroupToShards_cong) (simp_all add: keys_map_of)
  from balance_cong [OF this g(1)] g'(1) have "shards_at g' = shards_at g" using same_map_at [of g g'] by auto
  with g'(2) have at: "s \<in> set (shards_at g k) \<Longrightarrow> Shards c' ! s = k" for s k by simp
  have len: "length (Shards c) = NShards" "length (Shards c') = NShards" using c(2) c'(2) by (simp_all add: config_ok_def)
  have "Shards c' = Shards c"
  proof (rule nth_equalityI)
    fix s assume "s < length (Shards c')"
    then obtain k where "s \<in> set (shards_at g k)" using parts_ex [OF g(2)] len by auto
    with at g(3) show "Shards c' ! s = Shards c ! s" by simp
  qed (simp add: len)
  with c(1,3) c'(1,3) gm assms(3) show ?thesis by (intro exI [of _ c] exI [of _ c'] conjI) simp_all
qed

text \<open>
  Joining no groups to the initial configuration corrupts it. The loop finds all shards at
  group 0 and, with no group to give them to, moves them one by one to the group id -1 that
  stands for "none": the new configuration has no groups and assigns every shard to group -1.
\<close>

theorem Join_nothing_corrupts:
  "Join NewMemoryConfigStateMachine [] =
     Some (\<lparr>Configs = [DefaultConfig, \<lparr>Num = 1, Shards = replicate NShards (-1), Groups = []\<rparr>]\<rparr>, OK)"
  by code_simp

text \<open>
  Query and Move. A query for a number of the sequence returns that configuration, and any
  other number the latest; a move to an existing shard changes the owner of that shard only,
  and for a shard number out of range it panics.
\<close>

theorem Query_Move_spec:
  assumes "machine_ok cf"
  shows "(\<forall>num. Query cf num =
      Some (if 0 \<le> num \<and> num < int (length (Configs cf)) then Configs cf ! nat num else last (Configs cf), OK)) \<and>
    (\<forall>shard gid. Move cf shard gid =
      (if 0 \<le> shard \<and> shard < int NShards
       then Some (cf\<lparr>Configs := Configs cf @ [\<lparr>Num = int (length (Configs cf)),
         Shards = (Shards (last (Configs cf)))[nat shard := gid], Groups = Groups (last (Configs cf))\<rparr>]\<rparr>, OK)
       else None))"
proof -
  have ne: "Configs cf \<noteq> []" using assms by (simp add: machine_ok_def)
  have l: "length (Shards (last (Configs cf))) = NShards" "distinct (map fst (Groups (last (Configs cf))))"
    using machine_ok_last [OF assms] by (simp_all add: config_ok_def)
  have "Query cf num = Some (if 0 \<le> num \<and> num < int (length (Configs cf)) then Configs cf ! nat num else last (Configs cf), OK)"
    for num
  proof (cases "0 \<le> num \<and> num < int (length (Configs cf))")
    case True
    then show ?thesis by (auto simp: Query_def idx_def)
  next
    case False
    then show ?thesis using idx_last [OF ne] by (auto simp: Query_def)
  qed
  moreover have "Move cf shard gid = (if 0 \<le> shard \<and> shard < int NShards
       then Some (cf\<lparr>Configs := Configs cf @ [\<lparr>Num = int (length (Configs cf)),
         Shards = (Shards (last (Configs cf)))[nat shard := gid], Groups = Groups (last (Configs cf))\<rparr>]\<rparr>, OK)
       else None)" for shard gid
    using ne l by (simp add: Move_def store_def dcopy_id)
  ultimately show ?thesis by blast
qed

definition demo_join :: "MemoryConfigStateMachine" where
  "demo_join = \<lparr>Configs = [DefaultConfig]\<rparr>"

definition demo_groups :: "(int \<times> string list) list" where
  "demo_groups = [(2, [''c'']), (1, [''a'', ''b'']), (3, [''d''])]"

lemma demo_join_ok: "machine_ok demo_join" "distinct (map fst demo_groups)" "0 \<notin> fst ` set demo_groups"
  "machine_ok \<lparr>Configs = [DefaultConfig, \<lparr>Num = 1, Shards = [1, 1, 1, 1, 2, 2, 2, 3, 3, 3], Groups = demo_groups\<rparr>]\<rparr>"
  by code_simp+

theorem Join_balances_witness:
  "\<exists>c. Join demo_join demo_groups = Some (\<lparr>Configs = [DefaultConfig, c]\<rparr>, OK) \<and> balanced c"
  using Join_balances [OF demo_join_ok(1-3)] by (auto simp: demo_groups_def demo_join_def)

theorem Leave_keeps_witness:
  "\<exists>c. Leave \<lparr>Configs = [DefaultConfig, \<lparr>Num = 1, Shards = [1, 1, 1, 1, 2, 2, 2, 3, 3, 3], Groups = demo_groups\<rparr>]\<rparr> [2] =
     Some (\<lparr>Configs = [DefaultConfig, \<lparr>Num = 1, Shards = [1, 1, 1, 1, 2, 2, 2, 3, 3, 3], Groups = demo_groups\<rparr>, c]\<rparr>, OK) \<and>
     balanced c"
proof -
  have "balanced \<lparr>Num = 1, Shards = [1, 1, 1, 1, 2, 2, 2, 3, 3, 3], Groups = demo_groups\<rparr>" by code_simp
  then show ?thesis using Leave_keeps [OF demo_join_ok(4), of "[2]"] by auto
qed

theorem Join_order_irrelevant_witness:
  "\<exists>c c'. Join demo_join demo_groups = Some (\<lparr>Configs = [DefaultConfig, c]\<rparr>, OK) \<and>
     Join demo_join (rev demo_groups) = Some (\<lparr>Configs = [DefaultConfig, c']\<rparr>, OK) \<and> Shards c' = Shards c"
proof -
  have r: "distinct (map fst (rev demo_groups))" by code_simp
  have m: "map_of (rev demo_groups) = map_of demo_groups" by (auto simp: demo_groups_def)
  have "demo_groups \<noteq> []" by (simp add: demo_groups_def)
  with Join_order_irrelevant [OF demo_join_ok(1) demo_join_ok(1) refl refl refl demo_join_ok(2) r m demo_join_ok(3)]
  show ?thesis by (auto simp: demo_join_def)
qed

theorem Query_Move_spec_witness:
  "Query demo_join 7 = Some (DefaultConfig, OK) \<and> Move demo_join 10 4 = None"
  using Query_Move_spec [OF demo_join_ok(1)] by (simp add: demo_join_def NShards_def)

end
