(* ===== verification/Ctrler_Server.thy ===== *)
theory Ctrler_Server
  imports Raft_Handlers Sessions Ctrler_Balance
begin

text \<open>
  The shard controller service (package shardctrler: server.go, the commands of common.go and
  client.go): the replicated server around the configuration state machine, with the same
  session handling as the key/value service but without snapshots, and its clerk. Channels and
  the splitting of the request handler are as in theory KV-Server.
\<close>

section \<open>Data\<close>

definition OP_JOIN :: string where "OP_JOIN = ''OPJOIN''"
definition OP_LEAVE :: string where "OP_LEAVE = ''OPLEAVE''"
definition OP_MOVE :: string where "OP_MOVE = ''OPMOVE''"
definition OP_QUERY :: string where "OP_QUERY = ''OPQUERY''"
definition ErrTimeout :: err where "ErrTimeout = ''ErrTimeout''"

record CtrlArgs =
  ca_Servers :: "(int \<times> string list) list"
  ca_GIDs :: "int list"
  ca_Shard :: int
  ca_GID :: int
  ca_Num :: int
  ca_OP :: string
  ca_ClientId :: int
  ca_CommandId :: int

record CtrlReply =
  cr_Err :: err
  cr_Config :: Config

record CtrlOperationInfo =
  sc_MaxAppliedCommandId :: int
  sc_LastReply :: CtrlReply

record ShardCtrler =
  sc_rf :: "(CtrlArgs, unit) raft"
  sc_dead :: bool
  sc_lastOperations :: "int \<rightharpoonup> CtrlOperationInfo"
  sc_notifyChans :: "int \<rightharpoonup> nat"
  sc_chans :: "CtrlReply list list"
  sc_stateMachine :: MemoryConfigStateMachine

section \<open>The server\<close>

definition sc_isDuplicatedRequest :: "ShardCtrler \<Rightarrow> int \<Rightarrow> int \<Rightarrow> bool" where
  "sc_isDuplicatedRequest sc clientId requestId =
     (case sc_lastOperations sc clientId of
        Some opinfo \<Rightarrow> sc_MaxAppliedCommandId opinfo \<ge> requestId
      | None \<Rightarrow> False)"

definition removeOutdataedNotifyChan :: "ShardCtrler \<Rightarrow> int \<Rightarrow> ShardCtrler" where
  "removeOutdataedNotifyChan sc index = sc\<lparr>sc_notifyChans := (sc_notifyChans sc)(index := None)\<rparr>"

definition sc_getNotifyChan :: "ShardCtrler \<Rightarrow> int \<Rightarrow> ShardCtrler \<times> nat" where
  "sc_getNotifyChan sc index =
     (case sc_notifyChans sc index of
        Some ch \<Rightarrow> (sc, ch)
      | None \<Rightarrow>
          (let ch = length (sc_chans sc)
           in (sc\<lparr>sc_chans := sc_chans sc @ [[]],
                  sc_notifyChans := (sc_notifyChans sc)(index \<mapsto> ch)\<rparr>, ch)))"

definition applyLogToStateMachine :: "ShardCtrler \<Rightarrow> CtrlArgs \<Rightarrow> (ShardCtrler \<times> CtrlReply) option" where
  "applyLogToStateMachine sc command = do {
     (sm, err, config) \<leftarrow>
       (if ca_OP command = OP_JOIN
        then do { (sm, err) \<leftarrow> Join (sc_stateMachine sc) (ca_Servers command); Some (sm, err, DefaultConfig) }
        else if ca_OP command = OP_LEAVE
        then do { (sm, err) \<leftarrow> Leave (sc_stateMachine sc) (ca_GIDs command); Some (sm, err, DefaultConfig) }
        else if ca_OP command = OP_MOVE
        then do { (sm, err) \<leftarrow> Move (sc_stateMachine sc) (ca_Shard command) (ca_GID command); Some (sm, err, DefaultConfig) }
        else if ca_OP command = OP_QUERY
        then do { (config, err) \<leftarrow> Query (sc_stateMachine sc) (ca_Num command); Some (sc_stateMachine sc, err, config) }
        else Some (sc_stateMachine sc, '''', DefaultConfig));
     Some (sc\<lparr>sc_stateMachine := sm\<rparr>, \<lparr>cr_Err = err, cr_Config = config\<rparr>)
   }"

definition sc_Command_check :: "ShardCtrler \<Rightarrow> CtrlArgs \<Rightarrow> CtrlReply option" where
  "sc_Command_check sc args =
     (if ca_OP args \<noteq> OP_QUERY \<and> sc_isDuplicatedRequest sc (ca_ClientId args) (ca_CommandId args)
      then map_option sc_LastReply (sc_lastOperations sc (ca_ClientId args))
      else None)"

definition sc_Command_start ::
  "ShardCtrler \<Rightarrow> CtrlArgs \<Rightarrow> (ShardCtrler \<times> (CtrlReply + int) \<times> (nat \<times> (CtrlArgs, unit) rpc) list) option" where
  "sc_Command_start sc args = do {
     (rf, (index, _, isLeader), out) \<leftarrow> Start (sc_rf sc) args;
     let sc = sc\<lparr>sc_rf := rf\<rparr>;
     if \<not> isLeader then Some (sc, Inl \<lparr>cr_Err = ErrWrongLeader, cr_Config = DefaultConfig\<rparr>, out)
     else Some (sc, Inr index, out)
   }"

definition sc_Command_receive :: "ShardCtrler \<Rightarrow> nat \<Rightarrow> (ShardCtrler \<times> CtrlReply) outcome" where
  "sc_Command_receive sc ch =
     (case sc_chans sc ! ch of
        [] \<Rightarrow> Disabled
      | result # rest \<Rightarrow> Next (sc\<lparr>sc_chans := (sc_chans sc)[ch := rest]\<rparr>, result))"

definition sc_Command_timeout :: CtrlReply where
  "sc_Command_timeout = \<lparr>cr_Err = ErrTimeout, cr_Config = DefaultConfig\<rparr>"

definition sc_apply_command :: "ShardCtrler \<Rightarrow> CtrlArgs \<Rightarrow> (ShardCtrler \<times> CtrlReply) option" where
  "sc_apply_command sc command =
     (if ca_OP command \<noteq> OP_QUERY \<and> sc_isDuplicatedRequest sc (ca_ClientId command) (ca_CommandId command)
      then do { info \<leftarrow> sc_lastOperations sc (ca_ClientId command); Some (sc, sc_LastReply info) }
      else do {
        (sc, reply) \<leftarrow> applyLogToStateMachine sc command;
        Some (if ca_OP command \<noteq> OP_QUERY
              then sc\<lparr>sc_lastOperations := (sc_lastOperations sc)(ca_ClientId command \<mapsto>
                     \<lparr>sc_MaxAppliedCommandId = ca_CommandId command, sc_LastReply = reply\<rparr>)\<rparr>
              else sc, reply)
      })"

definition sc_applier :: "ShardCtrler \<Rightarrow> (CtrlArgs, unit) ApplyMsg \<Rightarrow> ShardCtrler outcome" where
  "sc_applier sc msg =
     (if CommandValid msg
      then (case Command msg of
          None \<Rightarrow> Panic
        | Some command \<Rightarrow>
            (case sc_apply_command sc command of
               None \<Rightarrow> Panic
             | Some (sc, reply) \<Rightarrow>
                 (let (currentTerm, isLeader) = GetState (sc_rf sc)
                  in if isLeader \<and> CommandTerm msg = currentTerm
                     then (let (sc, ch) = sc_getNotifyChan sc (CommandIndex msg)
                           in if sc_chans sc ! ch = []
                              then Next (sc\<lparr>sc_chans := (sc_chans sc)[ch := [reply]]\<rparr>) else Disabled)
                     else Next sc)))
      else Panic)"

definition sc_Kill :: "ShardCtrler \<Rightarrow> ShardCtrler" where
  "sc_Kill sc = sc\<lparr>sc_dead := True, sc_rf := Kill (sc_rf sc)\<rparr>"

definition sc_killed :: "ShardCtrler \<Rightarrow> bool" where
  "sc_killed sc = sc_dead sc"

definition sc_StartServer :: "nat \<Rightarrow> nat \<Rightarrow> (CtrlArgs, unit) persister \<Rightarrow> ShardCtrler option" where
  "sc_StartServer servers self ps = do {
     rf \<leftarrow> Make servers self ps;
     Some \<lparr>sc_rf = rf, sc_dead = False, sc_lastOperations = Map.empty, sc_notifyChans = Map.empty,
           sc_chans = [], sc_stateMachine = NewMemoryConfigStateMachine\<rparr>
   }"

section \<open>The clerk\<close>

record CtrlClerk =
  cc_servers :: nat
  cc_leaderId :: int
  cc_clientId :: int
  cc_commandId :: int

definition sc_MakeClerk :: "nat \<Rightarrow> int \<Rightarrow> CtrlClerk" where
  "sc_MakeClerk servers nrand = \<lparr>cc_servers = servers, cc_leaderId = 0, cc_clientId = nrand, cc_commandId = 0\<rparr>"

fun sc_clerk_loop ::
  "CtrlClerk \<Rightarrow> CtrlArgs \<Rightarrow> CtrlReply option list \<Rightarrow> (CtrlClerk \<times> Config) option \<times> (int \<times> CtrlArgs) list" where
  "sc_clerk_loop ck args [] = (None, [])"
| "sc_clerk_loop ck args (res # rest) =
     (if (case res of None \<Rightarrow> True | Some reply \<Rightarrow> cr_Err reply = ErrWrongLeader \<or> cr_Err reply = ErrTimeout)
      then (let (r, sent) = sc_clerk_loop (ck\<lparr>cc_leaderId := (cc_leaderId ck + 1) mod int (cc_servers ck)\<rparr>) args rest
            in (r, (cc_leaderId ck, args) # sent))
      else (Some (ck\<lparr>cc_commandId := cc_commandId ck + 1\<rparr>, cr_Config (the res)), [(cc_leaderId ck, args)]))"

definition sc_clerk_Command ::
  "CtrlClerk \<Rightarrow> CtrlArgs \<Rightarrow> CtrlReply option list \<Rightarrow> (CtrlClerk \<times> Config) option \<times> (int \<times> CtrlArgs) list" where
  "sc_clerk_Command ck args =
     sc_clerk_loop ck (args\<lparr>ca_ClientId := cc_clientId ck, ca_CommandId := cc_commandId ck\<rparr>)"

text \<open>The zero value of the arguments, in which each operation sets its own fields.\<close>

definition no_args :: CtrlArgs where
  "no_args = \<lparr>ca_Servers = [], ca_GIDs = [], ca_Shard = 0, ca_GID = 0, ca_Num = 0, ca_OP = '''',
     ca_ClientId = 0, ca_CommandId = 0\<rparr>"

definition sc_clerk_Query :: "CtrlClerk \<Rightarrow> int \<Rightarrow> CtrlReply option list \<Rightarrow>
  (CtrlClerk \<times> Config) option \<times> (int \<times> CtrlArgs) list" where
  "sc_clerk_Query ck num = sc_clerk_Command ck (no_args\<lparr>ca_Num := num, ca_OP := OP_QUERY\<rparr>)"

definition sc_clerk_Join :: "CtrlClerk \<Rightarrow> (int \<times> string list) list \<Rightarrow> CtrlReply option list \<Rightarrow>
  (CtrlClerk \<times> Config) option \<times> (int \<times> CtrlArgs) list" where
  "sc_clerk_Join ck servers = sc_clerk_Command ck (no_args\<lparr>ca_Servers := servers, ca_OP := OP_JOIN\<rparr>)"

definition sc_clerk_Leave :: "CtrlClerk \<Rightarrow> int list \<Rightarrow> CtrlReply option list \<Rightarrow>
  (CtrlClerk \<times> Config) option \<times> (int \<times> CtrlArgs) list" where
  "sc_clerk_Leave ck gids = sc_clerk_Command ck (no_args\<lparr>ca_GIDs := gids, ca_OP := OP_LEAVE\<rparr>)"

definition sc_clerk_Move :: "CtrlClerk \<Rightarrow> int \<Rightarrow> int \<Rightarrow> CtrlReply option list \<Rightarrow>
  (CtrlClerk \<times> Config) option \<times> (int \<times> CtrlArgs) list" where
  "sc_clerk_Move ck shard gid = sc_clerk_Command ck (no_args\<lparr>ca_Shard := shard, ca_GID := gid, ca_OP := OP_MOVE\<rparr>)"

section \<open>Exactly once\<close>

text \<open>The commands as operations on the configurations alone.\<close>

definition sc_apply :: "MemoryConfigStateMachine \<Rightarrow> CtrlArgs \<Rightarrow> (MemoryConfigStateMachine \<times> CtrlReply) option" where
  "sc_apply sm command =
     (if ca_OP command = OP_JOIN then map_option (\<lambda>(sm, e). (sm, \<lparr>cr_Err = e, cr_Config = DefaultConfig\<rparr>)) (Join sm (ca_Servers command))
      else if ca_OP command = OP_LEAVE then map_option (\<lambda>(sm, e). (sm, \<lparr>cr_Err = e, cr_Config = DefaultConfig\<rparr>)) (Leave sm (ca_GIDs command))
      else if ca_OP command = OP_MOVE then map_option (\<lambda>(sm, e). (sm, \<lparr>cr_Err = e, cr_Config = DefaultConfig\<rparr>)) (Move sm (ca_Shard command) (ca_GID command))
      else if ca_OP command = OP_QUERY then map_option (\<lambda>(c, e). (sm, \<lparr>cr_Err = e, cr_Config = c\<rparr>)) (Query sm (ca_Num command))
      else Some (sm, \<lparr>cr_Err = '''', cr_Config = DefaultConfig\<rparr>))"

definition sc_session :: "ShardCtrler \<Rightarrow> int \<Rightarrow> (int \<times> CtrlReply) option" where
  "sc_session sc c = map_option (\<lambda>i. (sc_MaxAppliedCommandId i, sc_LastReply i)) (sc_lastOperations sc c)"

abbreviation sc_reads :: "CtrlArgs \<Rightarrow> bool" where
  "sc_reads command \<equiv> ca_OP command = OP_QUERY"

lemma applyLog_eq:
  "applyLogToStateMachine sc command =
     map_option (\<lambda>(sm, r). (sc\<lparr>sc_stateMachine := sm\<rparr>, r)) (sc_apply (sc_stateMachine sc) command)"
  by (auto simp: applyLogToStateMachine_def sc_apply_def split: option.splits Option.bind_splits)

interpretation scs: session_machine sc_apply_command sc_stateMachine sc_session sc_apply
    sc_reads ca_ClientId ca_CommandId
proof
  fix op sc c r
  assume "\<not> sc_reads op" "sc_session sc (ca_ClientId op) = Some (c, r)" "ca_CommandId op \<le> c"
  then show "sc_apply_command sc op = Some (sc, r)"
    by (auto simp: sc_apply_command_def sc_session_def sc_isDuplicatedRequest_def)
next
  fix op sc sc' r
  assume e: "sc_reads op \<or> (\<forall>c r. sc_session sc (ca_ClientId op) = Some (c, r) \<longrightarrow> c < ca_CommandId op)"
    and s: "sc_apply_command sc op = Some (sc', r)"
  have "\<not> (ca_OP op \<noteq> OP_QUERY \<and> sc_isDuplicatedRequest sc (ca_ClientId op) (ca_CommandId op))"
    using e by (cases "sc_lastOperations sc (ca_ClientId op)") (auto simp: sc_isDuplicatedRequest_def sc_session_def)
  note n = if_not_P [OF this]
  from s obtain sc1 where s1: "applyLogToStateMachine sc op = Some (sc1, r)"
    "sc' = (if ca_OP op \<noteq> OP_QUERY then sc1\<lparr>sc_lastOperations := (sc_lastOperations sc1)(ca_ClientId op \<mapsto>
        \<lparr>sc_MaxAppliedCommandId = ca_CommandId op, sc_LastReply = r\<rparr>)\<rparr> else sc1)"
    unfolding sc_apply_command_def n by (auto simp: bind_Some_iff)
  from s1(1) obtain sm where sm: "sc_apply (sc_stateMachine sc) op = Some (sm, r)" "sc1 = sc\<lparr>sc_stateMachine := sm\<rparr>"
    by (auto simp: applyLog_eq)
  show "sc_apply (sc_stateMachine sc) op = Some (sc_stateMachine sc', r) \<and>
    sc_session sc' = (if sc_reads op then sc_session sc else (sc_session sc)(ca_ClientId op \<mapsto> (ca_CommandId op, r)))"
    using s1(2) sm by (auto simp: sc_session_def fun_eq_iff)
qed

text \<open>
  The controller executes each reconfiguration once. After any log of commands that it
  applies to the end, its sequence of configurations is the one that results from applying
  to the bare sequence only the Joins, Leaves and Moves numbered above all earlier ones of their
  client, each once, so a retried Join does not add a second configuration.
\<close>

theorem sc_exactly_once:
  assumes "run_log sc_apply_command sc ops = Some (sc', rs)"
  shows "(\<exists>rs'. run_log sc_apply (sc_stateMachine sc)
      (effective sc_reads ca_ClientId ca_CommandId (\<lambda>c. map_option sc_MaxAppliedCommandId (sc_lastOperations sc c)) ops) =
      Some (sc_stateMachine sc', rs')) \<and>
    distinct (map (\<lambda>op. (ca_ClientId op, ca_CommandId op)) (filter (\<lambda>op. \<not> sc_reads op)
      (effective sc_reads ca_ClientId ca_CommandId (\<lambda>c. map_option sc_MaxAppliedCommandId (sc_lastOperations sc c)) ops)))"
proof -
  have h: "(\<lambda>c. map_option fst (sc_session sc c)) = (\<lambda>c. map_option sc_MaxAppliedCommandId (sc_lastOperations sc c))"
    by (simp add: sc_session_def fun_eq_iff option.map_comp o_def)
  show ?thesis using scs.exactly_once [OF assms] unfolding h by (intro conjI effective_once)
qed

definition demo_sc :: ShardCtrler where
  "demo_sc = the (sc_StartServer 3 0 MakePersister)"

definition demo_join_cmd :: CtrlArgs where
  "demo_join_cmd = no_args\<lparr>ca_Servers := demo_groups, ca_OP := OP_JOIN, ca_ClientId := 5\<rparr>"

lemma demo_sc_run:
  "(case run_log sc_apply_command demo_sc [demo_join_cmd, demo_join_cmd] of
      None \<Rightarrow> False | Some (sc', rs) \<Rightarrow> length (Configs (sc_stateMachine sc')) = 2 \<and> length rs = 2)"
  by code_simp

theorem sc_exactly_once_witness:
  "\<exists>sc' rs rs'. run_log sc_apply_command demo_sc [demo_join_cmd, demo_join_cmd] = Some (sc', rs) \<and>
     length (Configs (sc_stateMachine sc')) = 2 \<and>
     run_log sc_apply (sc_stateMachine demo_sc) [demo_join_cmd] = Some (sc_stateMachine sc', rs')"
proof -
  from demo_sc_run obtain sc' rs where r: "run_log sc_apply_command demo_sc [demo_join_cmd, demo_join_cmd] = Some (sc', rs)"
    "length (Configs (sc_stateMachine sc')) = 2" by (auto split: option.splits)
  have e: "effective sc_reads ca_ClientId ca_CommandId
      (\<lambda>c. map_option sc_MaxAppliedCommandId (sc_lastOperations demo_sc c)) [demo_join_cmd, demo_join_cmd] = [demo_join_cmd]"
    by code_simp
  from sc_exactly_once [OF r(1)] r show ?thesis unfolding e by blast
qed

end
