(* ===== verification/Service_Config.thy ===== *)
theory Service_Config
  imports Raft_Wiring KV_Server Ctrler_Server "HOL-Library.Multiset"
begin

text \<open>
  The harnesses of the service tests (config.go of packages kvraft and shardctrler). They start and
  shut down servers, split the network into partitions and create clerks. The two files share most
  of their code: \<open>service_config\<close> is the configuration of the controller's tests, and that of the
  key/value service extends it. A run-time panic is \<^term>\<open>None\<close>; the random names of the ends, the
  random draws, the addresses of new clerks and the clock are arguments.
\<close>

section \<open>Data\<close>

record ('s, 'c, 'd, 'o, 'v, 'b) service_config =
  sv_net :: "('o, 'v, 'b) Network"
  sv_n :: nat
  sv_servers :: "'s option list"
  sv_saved :: "('c, 'd) persister option list"
  sv_endnames :: "string list list"
  sv_clerks :: "(nat \<times> string list) list"
  sv_nextClientId :: int
  sv_start :: int

record ('s, 'c, 'd, 'o, 'v, 'b) kv_config = "('s, 'c, 'd, 'o, 'v, 'b) service_config" +
  kc_maxraftstate :: int
  kc_t0 :: int
  kc_rpcs0 :: int
  kc_ops :: "32 word"

text \<open>The servers' handles in random order; the \<open>i\<close>-th draw is at most \<open>i\<close>.\<close>

fun handles_loop :: "'a list \<Rightarrow> nat \<Rightarrow> nat list \<Rightarrow> 'a list" where
  "handles_loop sa i [] = sa"
| "handles_loop sa i (j # js) = handles_loop (sa[i := sa ! j, j := sa ! i]) (Suc i) js"

definition random_handles :: "'a list \<Rightarrow> nat list \<Rightarrow> 'a list" where
  "random_handles kvh draws = handles_loop kvh 0 draws"

section \<open>Connections\<close>

fun attach_out :: "string list list \<Rightarrow> nat \<Rightarrow> nat list \<Rightarrow> ('o, 'v, 'b) Network \<Rightarrow> ('o, 'v, 'b) Network option" where
  "attach_out names i [] rn = Some rn"
| "attach_out names i (t # to) rn = do {
     row \<leftarrow> idx names (int i);
     endname \<leftarrow> idx row (int t);
     attach_out names i to (Enable rn endname True)
   }"

fun attach_in :: "string list list \<Rightarrow> nat \<Rightarrow> nat list \<Rightarrow> ('o, 'v, 'b) Network \<Rightarrow> ('o, 'v, 'b) Network option" where
  "attach_in names i [] rn = Some rn"
| "attach_in names i (t # to) rn = do {
     row \<leftarrow> idx names (int t);
     endname \<leftarrow> idx row (int i);
     attach_in names i to (Enable rn endname True)
   }"

definition connectUnlocked ::
  "('s, 'c, 'd, 'o, 'v, 'b, 'z) service_config_scheme \<Rightarrow> nat \<Rightarrow> nat list \<Rightarrow> ('s, 'c, 'd, 'o, 'v, 'b, 'z) service_config_scheme option" where
  "connectUnlocked cfg i to = do {
     rn \<leftarrow> attach_out (sv_endnames cfg) i to (sv_net cfg);
     rn \<leftarrow> attach_in (sv_endnames cfg) i to rn;
     Some (cfg\<lparr>sv_net := rn\<rparr>)
   }"

text \<open>
  The outgoing loop tests whether server \<open>i\<close> has ends. The incoming loop tests whether the server
  whose number is the position \<open>j\<close> in the list has any, not the server at that position.
\<close>

fun detach_out :: "string list list \<Rightarrow> nat \<Rightarrow> nat list \<Rightarrow> ('o, 'v, 'b) Network \<Rightarrow> ('o, 'v, 'b) Network option" where
  "detach_out names i [] rn = Some rn"
| "detach_out names i (f # from) rn = do {
     row \<leftarrow> idx names (int i);
     if row \<noteq> []
     then do { endname \<leftarrow> idx row (int f); detach_out names i from (Enable rn endname False) }
     else detach_out names i from rn
   }"

fun detach_in :: "string list list \<Rightarrow> nat \<Rightarrow> nat \<Rightarrow> nat list \<Rightarrow> ('o, 'v, 'b) Network \<Rightarrow> ('o, 'v, 'b) Network option" where
  "detach_in names i j [] rn = Some rn"
| "detach_in names i j (f # from) rn = do {
     tested \<leftarrow> idx names (int j);
     if tested \<noteq> []
     then do {
       row \<leftarrow> idx names (int f);
       endname \<leftarrow> idx row (int i);
       detach_in names i (Suc j) from (Enable rn endname False)
     }
     else detach_in names i (Suc j) from rn
   }"

definition disconnectUnlocked ::
  "('s, 'c, 'd, 'o, 'v, 'b, 'z) service_config_scheme \<Rightarrow> nat \<Rightarrow> nat list \<Rightarrow> ('s, 'c, 'd, 'o, 'v, 'b, 'z) service_config_scheme option" where
  "disconnectUnlocked cfg i from = do {
     rn \<leftarrow> detach_out (sv_endnames cfg) i from (sv_net cfg);
     rn \<leftarrow> detach_in (sv_endnames cfg) i 0 from rn;
     Some (cfg\<lparr>sv_net := rn\<rparr>)
   }"

definition all_servers :: "('s, 'c, 'd, 'o, 'v, 'b, 'z) service_config_scheme \<Rightarrow> nat list" where
  "all_servers cfg = [0..<sv_n cfg]"

fun connect_each ::
  "('s, 'c, 'd, 'o, 'v, 'b, 'z) service_config_scheme \<Rightarrow> nat list \<Rightarrow> ('s, 'c, 'd, 'o, 'v, 'b, 'z) service_config_scheme option" where
  "connect_each cfg [] = Some cfg"
| "connect_each cfg (i # is) = do { cfg \<leftarrow> connectUnlocked cfg i (all_servers cfg); connect_each cfg is }"

definition ConnectAll ::
  "('s, 'c, 'd, 'o, 'v, 'b, 'z) service_config_scheme \<Rightarrow> ('s, 'c, 'd, 'o, 'v, 'b, 'z) service_config_scheme option" where
  "ConnectAll cfg = connect_each cfg [0..<sv_n cfg]"

fun part_loop ::
  "nat list \<Rightarrow> nat list \<Rightarrow> nat list \<Rightarrow> ('s, 'c, 'd, 'o, 'v, 'b, 'z) service_config_scheme \<Rightarrow> ('s, 'c, 'd, 'o, 'v, 'b, 'z) service_config_scheme option" where
  "part_loop [] own other cfg = Some cfg"
| "part_loop (i # is) own other cfg = do {
     cfg \<leftarrow> disconnectUnlocked cfg i other;
     cfg \<leftarrow> connectUnlocked cfg i own;
     part_loop is own other cfg
   }"

definition partition_servers ::
  "('s, 'c, 'd, 'o, 'v, 'b, 'z) service_config_scheme \<Rightarrow> nat list \<Rightarrow> nat list \<Rightarrow> ('s, 'c, 'd, 'o, 'v, 'b, 'z) service_config_scheme option" where
  "partition_servers cfg p1 p2 = do {
     cfg \<leftarrow> part_loop p1 p1 p2 cfg;
     part_loop p2 p2 p1 cfg
   }"

section \<open>Clerks\<close>

text \<open>Fresh ends: each is made, connected to its server and, in the tests of shardkv, enabled.\<close>

fun new_ends :: "bool \<Rightarrow> (string \<times> string) list \<Rightarrow> ('o, 'v, 'b) Network \<Rightarrow> (('o, 'v, 'b) Network \<times> ClientEnd list) option" where
  "new_ends enable [] rn = Some (rn, [])"
| "new_ends enable ((endname, servername) # rest) rn = do {
     (rn, e) \<leftarrow> MakeEnd rn endname;
     let rn = Connect rn endname servername;
     let rn = (if enable then Enable rn endname True else rn);
     (rn, es) \<leftarrow> new_ends enable rest rn;
     Some (rn, e # es)
   }"

fun set_client_ends :: "string list \<Rightarrow> bool \<Rightarrow> nat list \<Rightarrow> ('o, 'v, 'b) Network \<Rightarrow> ('o, 'v, 'b) Network option" where
  "set_client_ends endnames yes [] rn = Some rn"
| "set_client_ends endnames yes (t # to) rn = do {
     s \<leftarrow> idx endnames (int t);
     set_client_ends endnames yes to (Enable rn s yes)
   }"

text \<open>A clerk that is not in the map has no ends.\<close>

definition client_ends :: "('s, 'c, 'd, 'o, 'v, 'b, 'z) service_config_scheme \<Rightarrow> nat \<Rightarrow> string list" where
  "client_ends cfg ck = (case map_of (sv_clerks cfg) ck of Some names \<Rightarrow> names | None \<Rightarrow> [])"

definition ConnectClientUnlocked ::
  "('s, 'c, 'd, 'o, 'v, 'b, 'z) service_config_scheme \<Rightarrow> nat \<Rightarrow> nat list \<Rightarrow> ('s, 'c, 'd, 'o, 'v, 'b, 'z) service_config_scheme option" where
  "ConnectClientUnlocked cfg ck to = do {
     rn \<leftarrow> set_client_ends (client_ends cfg ck) True to (sv_net cfg);
     Some (cfg\<lparr>sv_net := rn\<rparr>)
   }"

definition DisconnectClientUnlocked ::
  "('s, 'c, 'd, 'o, 'v, 'b, 'z) service_config_scheme \<Rightarrow> nat \<Rightarrow> nat list \<Rightarrow> ('s, 'c, 'd, 'o, 'v, 'b, 'z) service_config_scheme option" where
  "DisconnectClientUnlocked cfg ck from = do {
     rn \<leftarrow> set_client_ends (client_ends cfg ck) False from (sv_net cfg);
     Some (cfg\<lparr>sv_net := rn\<rparr>)
   }"

text \<open>
  A new clerk at the address \<open>ck\<close>, with the handles it is given: \<open>mk\<close> makes the clerk of the
  service from the number of its servers.
\<close>

definition makeClient ::
  "(nat \<Rightarrow> 'k) \<Rightarrow> ('s, 'c, 'd, 'o, 'v, 'b, 'z) service_config_scheme \<Rightarrow> nat list \<Rightarrow> (nat \<Rightarrow> string) \<Rightarrow> nat list \<Rightarrow> nat \<Rightarrow>
   (('s, 'c, 'd, 'o, 'v, 'b, 'z) service_config_scheme \<times> 'k \<times> ClientEnd list) option" where
  "makeClient mk cfg to names draws ck = do {
     let endnames = map names [0..<sv_n cfg];
     (rn, ends) \<leftarrow> new_ends False (map (\<lambda>j. (names j, server_key j)) [0..<sv_n cfg]) (sv_net cfg);
     let handles = random_handles ends draws;
     let cfg = cfg\<lparr>sv_net := rn, sv_clerks := AList.update ck endnames (sv_clerks cfg), sv_nextClientId := sv_nextClientId cfg + 1\<rparr>;
     cfg \<leftarrow> ConnectClientUnlocked cfg ck to;
     Some (cfg, mk (length handles), handles)
   }"

definition deleteClient ::
  "('s, 'c, 'd, 'o, 'v, 'b, 'z) service_config_scheme \<Rightarrow> nat \<Rightarrow> ('s, 'c, 'd, 'o, 'v, 'b, 'z) service_config_scheme" where
  "deleteClient cfg ck = cfg\<lparr>sv_clerks := AList.delete ck (sv_clerks cfg)\<rparr>"

section \<open>Shutting down and starting servers\<close>

text \<open>
  \<open>saved[i]\<close> points to the persister that a running server writes to; \<open>pers\<close> reads it off the
  server.
\<close>

definition sv_saved_now ::
  "('s \<Rightarrow> ('c, 'd) persister) \<Rightarrow> ('s, 'c, 'd, 'o, 'v, 'b, 'z) service_config_scheme \<Rightarrow> nat \<Rightarrow> ('c, 'd) persister option" where
  "sv_saved_now pers cfg i = (case sv_servers cfg ! i of Some kv \<Rightarrow> Some (pers kv) | None \<Rightarrow> sv_saved cfg ! i)"

definition ShutdownServer ::
  "('s \<Rightarrow> ('c, 'd) persister) \<Rightarrow> ('s, 'c, 'd, 'o, 'v, 'b, 'z) service_config_scheme \<Rightarrow> nat \<Rightarrow>
   ('s, 'c, 'd, 'o, 'v, 'b, 'z) service_config_scheme option" where
  "ShutdownServer pers cfg i = do {
     cfg \<leftarrow> disconnectUnlocked cfg i (all_servers cfg);
     let cfg = cfg\<lparr>sv_net := DeleteServer (sv_net cfg) (server_key i)\<rparr>;
     let cfg = cfg\<lparr>sv_saved := (sv_saved cfg)[i := map_option Copy (sv_saved_now pers cfg i)]\<rparr>;
     Some (cfg\<lparr>sv_servers := (sv_servers cfg)[i := None]\<rparr>)
   }"

text \<open>
  Registering a server with its two services: its own and the one of its Raft peer, whose receivers
  and methods are given.
\<close>

definition add_services ::
  "('o, 'v, 'b) Network \<Rightarrow> string \<Rightarrow> (string \<times> 'o \<times> ('o, 'v) reflect_method list) list \<Rightarrow> ('o, 'v, 'b) Network" where
  "add_services rn servername svcs =
     (let base = length (nw_objs rn);
          srv = fold (\<lambda>(k, typename, obj, typ) srv. AddService srv (MakeService typename (base + k) typ)) (enumerate 0 svcs) MakeServer;
          rn = rn\<lparr>nw_objs := nw_objs rn @ map (\<lambda>(typename, obj, typ). obj) svcs, nw_srvs := nw_srvs rn @ [srv]\<rparr>
      in AddServer rn servername (length (nw_srvs rn) - 1))"

definition StartServer ::
  "('s \<Rightarrow> ('c, 'd) persister) \<Rightarrow> (nat \<Rightarrow> nat \<Rightarrow> ('c, 'd) persister \<Rightarrow> 's option) \<Rightarrow> (string \<times> 'o \<times> ('o, 'v) reflect_method list) list \<Rightarrow>
   ('s, 'c, 'd, 'o, 'v, 'b, 'z) service_config_scheme \<Rightarrow> nat \<Rightarrow> (nat \<Rightarrow> string) \<Rightarrow> ('s, 'c, 'd, 'o, 'v, 'b, 'z) service_config_scheme option" where
  "StartServer pers start svcs cfg i names = do {
     let cfg = cfg\<lparr>sv_endnames := (sv_endnames cfg)[i := map names [0..<sv_n cfg]]\<rparr>;
     (rn, ends) \<leftarrow> new_ends False (map (\<lambda>j. (names j, server_key j)) [0..<sv_n cfg]) (sv_net cfg);
     let ps = (case sv_saved_now pers cfg i of Some ps \<Rightarrow> Copy ps | None \<Rightarrow> MakePersister);
     let cfg = cfg\<lparr>sv_net := rn, sv_saved := (sv_saved cfg)[i := Some ps]\<rparr>;
     kv \<leftarrow> start (length ends) i ps;
     Some (cfg\<lparr>sv_servers := (sv_servers cfg)[i := Some kv], sv_net := add_services (sv_net cfg) (server_key i) svcs\<rparr>)
   }"

fun start_each ::
  "('s \<Rightarrow> ('c, 'd) persister) \<Rightarrow> (nat \<Rightarrow> nat \<Rightarrow> ('c, 'd) persister \<Rightarrow> 's option) \<Rightarrow> (string \<times> 'o \<times> ('o, 'v) reflect_method list) list \<Rightarrow> (nat \<Rightarrow> nat \<Rightarrow> string) \<Rightarrow>
   ('s, 'c, 'd, 'o, 'v, 'b, 'z) service_config_scheme \<Rightarrow> nat list \<Rightarrow> ('s, 'c, 'd, 'o, 'v, 'b, 'z) service_config_scheme option" where
  "start_each pers start svcs names cfg [] = Some cfg"
| "start_each pers start svcs names cfg (i # is) = do {
     cfg \<leftarrow> StartServer pers start svcs cfg i (names i);
     start_each pers start svcs names cfg is
   }"

section \<open>Partitions around the leader\<close>

text \<open>The key/value harness asks every server; a server that is shut down is a nil pointer.\<close>

fun kv_leader_loop :: "KVServer option list \<Rightarrow> nat list \<Rightarrow> (bool \<times> nat) option" where
  "kv_leader_loop servers [] = Some (False, 0)"
| "kv_leader_loop servers (i # is) = do {
     kv \<leftarrow> servers ! i;
     if snd (GetState (kv_rf kv)) then Some (True, i) else kv_leader_loop servers is
   }"

definition kv_Leader :: "(KVServer, 'c, 'd, 'o, 'v, 'b, 'z) service_config_scheme \<Rightarrow> (bool \<times> nat) option" where
  "kv_Leader cfg = kv_leader_loop (sv_servers cfg) [0..<sv_n cfg]"

text \<open>The controller's harness skips such a server.\<close>

fun sc_leader_loop :: "ShardCtrler option list \<Rightarrow> nat list \<Rightarrow> bool \<times> nat" where
  "sc_leader_loop servers [] = (False, 0)"
| "sc_leader_loop servers (i # is) =
     (case servers ! i of
        Some sc \<Rightarrow> if snd (GetState (sc_rf sc)) then (True, i) else sc_leader_loop servers is
      | None \<Rightarrow> sc_leader_loop servers is)"

definition sc_Leader :: "(ShardCtrler, 'c, 'd, 'o, 'v, 'b, 'z) service_config_scheme \<Rightarrow> bool \<times> nat" where
  "sc_Leader cfg = sc_leader_loop (sv_servers cfg) [0..<sv_n cfg]"

fun split_loop :: "nat \<Rightarrow> nat list \<Rightarrow> nat list \<Rightarrow> nat list \<Rightarrow> nat \<Rightarrow> (nat list \<times> nat list) option" where
  "split_loop l [] p1 p2 j = Some (p1, p2)"
| "split_loop l (i # is) p1 p2 j =
     (if i \<noteq> l
      then if j < length p1
           then do { p1 \<leftarrow> store p1 (int j) i; split_loop l is p1 p2 (Suc j) }
           else do { p2 \<leftarrow> store p2 (int (j - length p1)) i; split_loop l is p1 p2 (Suc j) }
      else split_loop l is p1 p2 j)"

definition make_partition :: "nat \<Rightarrow> nat \<Rightarrow> (nat list \<times> nat list) option" where
  "make_partition n l = do {
     (p1, p2) \<leftarrow> split_loop l [0..<n] (replicate (n div 2 + 1) 0) (replicate (n div 2) 0) 0;
     p2 \<leftarrow> store p2 (int (length p2) - 1) l;
     Some (p1, p2)
   }"

definition kv_make_partition :: "(KVServer, 'c, 'd, 'o, 'v, 'b, 'z) service_config_scheme \<Rightarrow> (nat list \<times> nat list) option" where
  "kv_make_partition cfg = do { (_, l) \<leftarrow> kv_Leader cfg; make_partition (sv_n cfg) l }"

definition sc_make_partition :: "(ShardCtrler, 'c, 'd, 'o, 'v, 'b, 'z) service_config_scheme \<Rightarrow> (nat list \<times> nat list) option" where
  "sc_make_partition cfg = (let (_, l) = sc_Leader cfg in make_partition (sv_n cfg) l)"

section \<open>A test from start to end\<close>

definition sv_blank :: "nat \<Rightarrow> int \<Rightarrow> ('s, 'c, 'd, 'o, 'v, 'b) service_config" where
  "sv_blank n now = \<lparr>sv_net = MakeNetwork, sv_n = n, sv_servers = replicate n None, sv_saved = replicate n None,
     sv_endnames = replicate n [], sv_clerks = [], sv_nextClientId = int n + 1000, sv_start = now\<rparr>"

definition sc_make_config ::
  "nat \<Rightarrow> bool \<Rightarrow> int \<Rightarrow> (nat \<Rightarrow> nat \<Rightarrow> string) \<Rightarrow> (string \<times> 'o \<times> ('o, 'v) reflect_method list) list \<Rightarrow>
   (ShardCtrler, CtrlArgs, unit, 'o, 'v, 'b) service_config option" where
  "sc_make_config n unreliable now names svcs = do {
     cfg \<leftarrow> start_each (persister \<circ> sc_rf) sc_StartServer svcs names (sv_blank n now) [0..<n];
     cfg \<leftarrow> ConnectAll cfg;
     Some (cfg\<lparr>sv_net := Reliable (sv_net cfg) (\<not> unreliable)\<rparr>)
   }"

definition kv_blank :: "nat \<Rightarrow> int \<Rightarrow> int \<Rightarrow> ('s, 'c, 'd, 'o, 'v, 'b) kv_config" where
  "kv_blank n now maxraftstate = \<lparr>sv_net = MakeNetwork, sv_n = n, sv_servers = replicate n None, sv_saved = replicate n None,
     sv_endnames = replicate n [], sv_clerks = [], sv_nextClientId = int n + 1000, sv_start = now,
     kc_maxraftstate = maxraftstate, kc_t0 = 0, kc_rpcs0 = 0, kc_ops = 0\<rparr>"

definition kv_make_config ::
  "nat \<Rightarrow> bool \<Rightarrow> int \<Rightarrow> int \<Rightarrow> (nat \<Rightarrow> nat \<Rightarrow> string) \<Rightarrow> (string \<times> 'o \<times> ('o, 'v) reflect_method list) list \<Rightarrow>
   (KVServer, CommandArgs, kv_gob, 'o, 'v, 'b) kv_config option" where
  "kv_make_config n unreliable maxraftstate now names svcs = do {
     cfg \<leftarrow> start_each (persister \<circ> kv_rf) (\<lambda>servers self ps. StartKVServer servers self ps maxraftstate) svcs names (kv_blank n now maxraftstate) [0..<n];
     cfg \<leftarrow> ConnectAll cfg;
     Some (cfg\<lparr>sv_net := Reliable (sv_net cfg) (\<not> unreliable)\<rparr>)
   }"

definition sv_checkTimeout :: "('s, 'c, 'd, 'o, 'v, 'b, 'z) service_config_scheme \<Rightarrow> bool \<Rightarrow> int \<Rightarrow> ('e, unit) verdict" where
  "sv_checkTimeout cfg failed now =
     (if \<not> failed \<and> now - sv_start cfg > 120 * 1000000000 then Fatal Timeout else Pass ())"

definition sv_cleanup ::
  "('s \<Rightarrow> 's) \<Rightarrow> ('s, 'c, 'd, 'o, 'v, 'b, 'z) service_config_scheme \<Rightarrow> bool \<Rightarrow> int \<Rightarrow>
   ('e, ('s, 'c, 'd, 'o, 'v, 'b, 'z) service_config_scheme) verdict" where
  "sv_cleanup kill cfg failed now =
     (let cfg = cfg\<lparr>sv_servers := map (map_option kill) (sv_servers cfg)\<rparr>
      in vbind (unnil (Cleanup (sv_net cfg))) (\<lambda>rn.
         let cfg = cfg\<lparr>sv_net := rn\<rparr> in vbind (sv_checkTimeout cfg failed now) (\<lambda>_. Pass cfg)))"

text \<open>The greatest size of what the persisters hold; a server that was never started has none.\<close>

fun maxsize_loop :: "(('c, 'd) persister \<Rightarrow> int) \<Rightarrow> int \<Rightarrow> ('c, 'd) persister option list \<Rightarrow> int option" where
  "maxsize_loop sz m [] = Some m"
| "maxsize_loop sz m (ps # rest) = do { ps \<leftarrow> ps; maxsize_loop sz (if sz ps > m then sz ps else m) rest }"

definition sv_LogSize ::
  "('c gob list \<Rightarrow> int) \<Rightarrow> ('s \<Rightarrow> ('c, 'd) persister) \<Rightarrow> ('s, 'c, 'd, 'o, 'v, 'b, 'z) service_config_scheme \<Rightarrow> int option" where
  "sv_LogSize bytes pers cfg = maxsize_loop (RaftStateSize bytes) 0 (map (sv_saved_now pers cfg) [0..<sv_n cfg])"

definition sv_SnapshotSize ::
  "('d list \<Rightarrow> int) \<Rightarrow> ('s \<Rightarrow> ('c, 'd) persister) \<Rightarrow> ('s, 'c, 'd, 'o, 'v, 'b, 'z) service_config_scheme \<Rightarrow> int option" where
  "sv_SnapshotSize bytes pers cfg = maxsize_loop (SnapshotSize bytes) 0 (map (sv_saved_now pers cfg) [0..<sv_n cfg])"

definition sv_rpcTotal :: "('s, 'c, 'd, 'o, 'v, 'b, 'z) service_config_scheme \<Rightarrow> int" where
  "sv_rpcTotal cfg = GetTotalCount (sv_net cfg)"

definition kv_begin :: "('s, 'c, 'd, 'o, 'v, 'b) kv_config \<Rightarrow> int \<Rightarrow> ('s, 'c, 'd, 'o, 'v, 'b) kv_config" where
  "kv_begin cfg now = cfg\<lparr>kc_t0 := now, kc_rpcs0 := sv_rpcTotal cfg, kc_ops := 0\<rparr>"

definition kv_op :: "('s, 'c, 'd, 'o, 'v, 'b) kv_config \<Rightarrow> ('s, 'c, 'd, 'o, 'v, 'b) kv_config" where
  "kv_op cfg = cfg\<lparr>kc_ops := kc_ops cfg + 1\<rparr>"

text \<open>What the end of a test prints: time, servers, requests, operations.\<close>

definition kv_end :: "('s, 'c, 'd, 'o, 'v, 'b) kv_config \<Rightarrow> bool \<Rightarrow> int \<Rightarrow> ('e, (int \<times> nat \<times> int \<times> int) option) verdict" where
  "kv_end cfg failed now = vbind (sv_checkTimeout cfg failed now) (\<lambda>_.
     if \<not> failed then Pass (Some (now - kc_t0 cfg, sv_n cfg, sv_rpcTotal cfg - kc_rpcs0 cfg, sint (kc_ops cfg))) else Pass None)"

end
