(* ===== verification/Shard_Server.thy ===== *)
theory Shard_Server
  imports Raft_Node Ctrler_Server
begin

text \<open>
  The sharded key/value service (package shardkv: shard.go, rpc.go, common.go, server.go,
  snapshot.go): a replica of one group, with its shards and their migration status, the log
  commands and how the applier executes them, the background actions that propose them, and
  the handlers that other groups call. Channels and the splitting of a request at its waits are
  as in theory KV-Server. A Go map that the code ranges over is an association list in the order
  of the visit; a missing \<open>*Shard\<close> is a nil pointer, whose use panics.
\<close>

section \<open>Shards\<close>

definition STATUS_SERVING :: string where "STATUS_SERVING = ''SERVING''"
definition STATUS_PULLING :: string where "STATUS_PULLING = ''PULLING''"
definition STATUS_BEPULLING :: string where "STATUS_BEPULLING = ''BEPULLING''"
definition STATUS_GC :: string where "STATUS_GC = ''GC''"

record Shard =
  sh_KV :: "string \<rightharpoonup> string"
  sh_Status :: string

definition NewShard :: Shard where
  "NewShard = \<lparr>sh_KV = Map.empty, sh_Status = STATUS_SERVING\<rparr>"

definition sh_Get :: "Shard \<Rightarrow> string \<Rightarrow> string \<times> err" where
  "sh_Get sh key = (case sh_KV sh key of Some value \<Rightarrow> (value, OK) | None \<Rightarrow> ('''', ErrNoKey))"

definition sh_Put :: "Shard \<Rightarrow> string \<Rightarrow> string \<Rightarrow> Shard \<times> err" where
  "sh_Put sh key value = (sh\<lparr>sh_KV := (sh_KV sh)(key \<mapsto> value)\<rparr>, OK)"

definition sh_Append :: "Shard \<Rightarrow> string \<Rightarrow> string \<Rightarrow> Shard \<times> err" where
  "sh_Append sh key value =
     (sh\<lparr>sh_KV := (sh_KV sh)(key \<mapsto> (case sh_KV sh key of Some v \<Rightarrow> v | None \<Rightarrow> '''') @ value)\<rparr>, OK)"

text \<open>A fresh map into which every pair of the shard is written.\<close>

definition sh_dcopy :: "Shard \<Rightarrow> string \<rightharpoonup> string" where
  "sh_dcopy sh = Map.empty ++ sh_KV sh"

lemma status_distinct [simp]:
  "STATUS_SERVING \<noteq> STATUS_PULLING" "STATUS_SERVING \<noteq> STATUS_BEPULLING" "STATUS_SERVING \<noteq> STATUS_GC"
  "STATUS_PULLING \<noteq> STATUS_BEPULLING" "STATUS_PULLING \<noteq> STATUS_GC" "STATUS_BEPULLING \<noteq> STATUS_GC"
  "STATUS_PULLING \<noteq> STATUS_SERVING" "STATUS_BEPULLING \<noteq> STATUS_SERVING" "STATUS_GC \<noteq> STATUS_SERVING"
  "STATUS_BEPULLING \<noteq> STATUS_PULLING" "STATUS_GC \<noteq> STATUS_PULLING" "STATUS_GC \<noteq> STATUS_BEPULLING"
  by (simp_all add: STATUS_SERVING_def STATUS_PULLING_def STATUS_BEPULLING_def STATUS_GC_def)

lemma sh_dcopy_eq [simp]: "sh_dcopy sh = sh_KV sh"
  by (simp add: sh_dcopy_def)

interpretation shs: kv_store sh_Get sh_Put sh_Append sh_KV
  by unfold_locales (auto simp: sh_Get_def sh_Put_def sh_Append_def split: option.splits)

section \<open>Requests and log commands\<close>

definition ErrWrongGroup :: err where "ErrWrongGroup = ''ErrWrongGroup''"
definition ErrNotReady :: err where "ErrNotReady = ''ErrNotReady''"
definition ErrOutDated :: err where "ErrOutDated = ''ErrOutDated''"

definition sk_OP_GET :: string where "sk_OP_GET = ''OP_GET''"
definition sk_OP_APPEND :: string where "sk_OP_APPEND = ''OP_APPEND''"
definition sk_OP_PUT :: string where "sk_OP_PUT = ''OP_PUT''"

definition SHD_OPERATION :: string where "SHD_OPERATION = ''OPERATION''"
definition SHD_Configuration :: string where "SHD_Configuration = ''CONFIGURATION''"
definition SHD_InsertShards :: string where "SHD_InsertShards = ''INSERTSHARDS''"
definition SHD_DeleteShards :: string where "SHD_DeleteShards = ''DELETESHARDS''"
definition SHD_EmptyEntry :: string where "SHD_EmptyEntry = ''EMPTYENTRY''"

record SkArgs =
  sk_Key :: string
  sk_Value :: string
  sk_OP :: string
  sk_ClientId :: int
  sk_CommandId :: int

record SkReply =
  sk_Err :: err
  sk_ReplyValue :: string

record SkOperationInfo =
  sk_MaxAppliedCommandId :: int
  sk_LastReply :: SkReply

definition oi_dcopy :: "SkOperationInfo \<Rightarrow> SkOperationInfo" where
  "oi_dcopy info = \<lparr>sk_MaxAppliedCommandId = sk_MaxAppliedCommandId info,
     sk_LastReply = \<lparr>sk_Err = sk_Err (sk_LastReply info), sk_ReplyValue = sk_ReplyValue (sk_LastReply info)\<rparr>\<rparr>"

record ShardOperationArgs =
  soa_ConfigNum :: int
  soa_ShardIds :: "int list"

record ShardOperationReply =
  sor_Err :: err
  sor_ConfigNum :: int
  sor_Shards :: "(int \<times> (string \<rightharpoonup> string)) list"
  sor_LastOperations :: "(int \<times> SkOperationInfo) list"

text \<open>The dynamic types a command's \<open>Data\<close> can have.\<close>

datatype sk_data =
    DArgs SkArgs
  | DConfig Config
  | DShards ShardOperationReply
  | DShardIds ShardOperationArgs
  | DNil

record SkCommand =
  cmd_OP :: string
  cmd_Data :: sk_data

definition NewOperationCommand :: "SkArgs \<Rightarrow> SkCommand" where
  "NewOperationCommand args = \<lparr>cmd_OP = SHD_OPERATION, cmd_Data = DArgs args\<rparr>"

definition NewConfigurationCommand :: "Config \<Rightarrow> SkCommand" where
  "NewConfigurationCommand config = \<lparr>cmd_OP = SHD_Configuration, cmd_Data = DConfig config\<rparr>"

definition NewInsertShardsCommand :: "ShardOperationReply \<Rightarrow> SkCommand" where
  "NewInsertShardsCommand reply = \<lparr>cmd_OP = SHD_InsertShards, cmd_Data = DShards reply\<rparr>"

definition NewDeleteShardsCommand :: "ShardOperationArgs \<Rightarrow> SkCommand" where
  "NewDeleteShardsCommand args = \<lparr>cmd_OP = SHD_DeleteShards, cmd_Data = DShardIds args\<rparr>"

definition NewEmptyEntryCommand :: SkCommand where
  "NewEmptyEntryCommand = \<lparr>cmd_OP = SHD_EmptyEntry, cmd_Data = DNil\<rparr>"

lemma shd_distinct [simp]:
  "SHD_Configuration \<noteq> SHD_OPERATION" "SHD_InsertShards \<noteq> SHD_OPERATION" "SHD_DeleteShards \<noteq> SHD_OPERATION"
  "SHD_EmptyEntry \<noteq> SHD_OPERATION" "SHD_InsertShards \<noteq> SHD_Configuration" "SHD_DeleteShards \<noteq> SHD_Configuration"
  "SHD_EmptyEntry \<noteq> SHD_Configuration" "SHD_DeleteShards \<noteq> SHD_InsertShards" "SHD_EmptyEntry \<noteq> SHD_InsertShards"
  "SHD_EmptyEntry \<noteq> SHD_DeleteShards"
  by (simp_all add: SHD_OPERATION_def SHD_Configuration_def SHD_InsertShards_def SHD_DeleteShards_def SHD_EmptyEntry_def)

lemma sk_op_distinct [simp]: "sk_OP_PUT \<noteq> sk_OP_APPEND" "sk_OP_PUT \<noteq> sk_OP_GET" "sk_OP_APPEND \<noteq> sk_OP_GET"
  "sk_OP_APPEND \<noteq> sk_OP_PUT" "sk_OP_GET \<noteq> sk_OP_PUT" "sk_OP_GET \<noteq> sk_OP_APPEND"
  by (simp_all add: sk_OP_PUT_def sk_OP_APPEND_def sk_OP_GET_def)

lemma sk_err_distinct [simp]:
  "ErrWrongGroup \<noteq> OK" "ErrNotReady \<noteq> OK" "ErrOutDated \<noteq> OK" "ErrWrongGroup \<noteq> ErrNoKey" "ErrTimeout \<noteq> OK"
  "ErrWrongGroup \<noteq> ErrWrongLeader" "ErrWrongGroup \<noteq> ErrTimeout" "ErrWrongLeader \<noteq> OK" "ErrNoKey \<noteq> OK"
  by (simp_all add: ErrWrongGroup_def ErrNotReady_def ErrOutDated_def ErrTimeout_def OK_def ErrNoKey_def ErrWrongLeader_def)

section \<open>The server\<close>

datatype sk_gob = GShards "(int \<times> Shard) list" | GSkOps "(int \<times> SkOperationInfo) list" | GConfig Config

record ShardKV =
  sk_rf :: "(SkCommand, sk_gob) raft"
  sk_gid :: int
  sk_maxraftstate :: int
  sk_lastApplied :: int
  sk_dead :: bool
  sk_lastConfig :: Config
  sk_currentConfig :: Config
  sk_stateMachines :: "(int \<times> Shard) list"
  sk_lastOperations :: "(int \<times> SkOperationInfo) list"
  sk_notifyChans :: "int \<rightharpoonup> nat"
  sk_chans :: "SkReply option list list"

fun initStateMachines_loop :: "int list \<Rightarrow> (int \<times> Shard) list \<Rightarrow> (int \<times> Shard) list" where
  "initStateMachines_loop [] sm = sm"
| "initStateMachines_loop (i # is) sm =
     initStateMachines_loop is (if map_of sm i = None then AList.update i NewShard sm else sm)"

definition initStateMachines :: "ShardKV \<Rightarrow> ShardKV" where
  "initStateMachines kv =
     kv\<lparr>sk_stateMachines := initStateMachines_loop (map int [0..<NShards]) (sk_stateMachines kv)\<rparr>"

definition isDuplicateRequest :: "ShardKV \<Rightarrow> int \<Rightarrow> int \<Rightarrow> bool" where
  "isDuplicateRequest kv clientId commandId =
     (case map_of (sk_lastOperations kv) clientId of
        Some opInfo \<Rightarrow> sk_MaxAppliedCommandId opInfo \<ge> commandId
      | None \<Rightarrow> False)"

definition getNotifyChans :: "ShardKV \<Rightarrow> int \<Rightarrow> ShardKV \<times> nat" where
  "getNotifyChans kv index =
     (case sk_notifyChans kv index of
        Some ch \<Rightarrow> (kv, ch)
      | None \<Rightarrow>
          (let ch = length (sk_chans kv)
           in (kv\<lparr>sk_chans := sk_chans kv @ [[]],
                  sk_notifyChans := (sk_notifyChans kv)(index \<mapsto> ch)\<rparr>, ch)))"

definition removeOutDatedNotifyChan :: "ShardKV \<Rightarrow> int \<Rightarrow> ShardKV" where
  "removeOutDatedNotifyChan kv index = kv\<lparr>sk_notifyChans := (sk_notifyChans kv)(index := None)\<rparr>"

text \<open>\<open>&&\<close> and \<open>||\<close> evaluate the shard's status only where needed, so a nil shard panics only there.\<close>

definition canServer :: "ShardKV \<Rightarrow> int \<Rightarrow> bool option" where
  "canServer kv shardId = do {
     owner \<leftarrow> idx (Shards (sk_currentConfig kv)) shardId;
     if owner \<noteq> sk_gid kv then Some False
     else do {
       shard \<leftarrow> map_of (sk_stateMachines kv) shardId;
       Some (sh_Status shard = STATUS_SERVING \<or> sh_Status shard = STATUS_GC)
     }
   }"

text \<open>
  \<open>Execute\<close>, split at its wait: the proposal, the channel to wait on, the reply that arrives
  there (a nil reply panics) or the timeout; the removal of the channel is a later step of its
  own.
\<close>

definition Execute_start ::
  "ShardKV \<Rightarrow> SkCommand \<Rightarrow> (ShardKV \<times> (SkReply + int \<times> nat) \<times> (nat \<times> (SkCommand, sk_gob) rpc) list) option" where
  "Execute_start kv command = do {
     (rf, (index, _, isLeader), out) \<leftarrow> Start (sk_rf kv) command;
     let kv = kv\<lparr>sk_rf := rf\<rparr>;
     if \<not> isLeader then Some (kv, Inl \<lparr>sk_Err = ErrWrongLeader, sk_ReplyValue = ''''\<rparr>, out)
     else (let (kv, ch) = getNotifyChans kv index in Some (kv, Inr (index, ch), out))
   }"

definition Execute_receive :: "ShardKV \<Rightarrow> nat \<Rightarrow> (ShardKV \<times> SkReply) outcome" where
  "Execute_receive kv ch =
     (case sk_chans kv ! ch of
        [] \<Rightarrow> Disabled
      | None # rest \<Rightarrow> Panic
      | Some result # rest \<Rightarrow> Next (kv\<lparr>sk_chans := (sk_chans kv)[ch := rest]\<rparr>, result))"

definition Execute_timeout :: SkReply where
  "Execute_timeout = \<lparr>sk_Err = ErrTimeout, sk_ReplyValue = ''''\<rparr>"

section \<open>The background actions\<close>

text \<open>
  \<open>configurationAction\<close>: the scan over the shards, and the command it executes. \<open>query\<close> is the
  controller clerk's \<open>Query\<close>.
\<close>

fun all_serving :: "(int \<times> Shard) list \<Rightarrow> bool" where
  "all_serving [] = True"
| "all_serving ((_, shard) # rest) = (if sh_Status shard \<noteq> STATUS_SERVING then False else all_serving rest)"

definition configurationAction :: "(int \<Rightarrow> Config) \<Rightarrow> ShardKV \<Rightarrow> SkCommand option" where
  "configurationAction query kv =
     (let canGetNextConfig = all_serving (sk_stateMachines kv);
          currentConfigNum = Num (sk_currentConfig kv)
      in if canGetNextConfig
         then (let nextConfig = query (currentConfigNum + 1)
               in if Num nextConfig = currentConfigNum + 1 then Some (NewConfigurationCommand nextConfig) else None)
         else None)"

fun shardIds_loop :: "int list \<Rightarrow> string \<Rightarrow> (int \<times> Shard) list \<Rightarrow> (int \<times> int list) list \<Rightarrow> (int \<times> int list) list option" where
  "shardIds_loop shards status [] gid2shardIds = Some gid2shardIds"
| "shardIds_loop shards status ((i, shard) # rest) gid2shardIds =
     (if sh_Status shard = status
      then do {
        gid \<leftarrow> idx shards i;
        shardIds_loop shards status rest
          (if gid \<noteq> 0
           then AList.update gid ((case map_of gid2shardIds gid of Some ids \<Rightarrow> ids | None \<Rightarrow> []) @ [i]) gid2shardIds
           else gid2shardIds)
      }
      else shardIds_loop shards status rest gid2shardIds)"

definition getShardIdsByStatus :: "ShardKV \<Rightarrow> string \<Rightarrow> (int \<times> int list) list option" where
  "getShardIdsByStatus kv status = shardIds_loop (Shards (sk_lastConfig kv)) status (sk_stateMachines kv) []"

text \<open>
  The goroutines of \<open>migrationAction\<close> and \<open>gcAction\<close>: one per group, with the group's servers and
  the request it sends to each of them in turn; \<open>call\<close> is the reply of a server's handler,
  \<^term>\<open>None\<close> when the call fails. The result are the commands that goroutine executes.
\<close>

definition shard_tasks :: "ShardKV \<Rightarrow> (int \<times> int list) list \<Rightarrow> (string list \<times> ShardOperationArgs) list" where
  "shard_tasks kv gid2shardIds =
     map (\<lambda>(gid, shardIds).
       ((case map_of (Groups (sk_lastConfig kv)) gid of Some servers \<Rightarrow> servers | None \<Rightarrow> []),
        \<lparr>soa_ConfigNum = Num (sk_currentConfig kv), soa_ShardIds = shardIds\<rparr>)) gid2shardIds"

fun pull_task ::
  "(string \<Rightarrow> ShardOperationArgs \<Rightarrow> ShardOperationReply option) \<Rightarrow> ShardOperationArgs \<Rightarrow> string list \<Rightarrow> SkCommand list" where
  "pull_task call args [] = []"
| "pull_task call args (server # servers) =
     (case call server args of
        Some pullTaskReply \<Rightarrow>
          (if sor_Err pullTaskReply = OK then NewInsertShardsCommand pullTaskReply # pull_task call args servers
           else pull_task call args servers)
      | None \<Rightarrow> pull_task call args servers)"

definition migrationAction ::
  "(string \<Rightarrow> ShardOperationArgs \<Rightarrow> ShardOperationReply option) \<Rightarrow> ShardKV \<Rightarrow> SkCommand list list option" where
  "migrationAction call kv = do {
     gid2shardIds \<leftarrow> getShardIdsByStatus kv STATUS_PULLING;
     Some (map (\<lambda>(servers, args). pull_task call args servers) (shard_tasks kv gid2shardIds))
   }"

fun gc_task ::
  "(string \<Rightarrow> ShardOperationArgs \<Rightarrow> ShardOperationReply option) \<Rightarrow> ShardOperationArgs \<Rightarrow> string list \<Rightarrow> SkCommand list" where
  "gc_task call args [] = []"
| "gc_task call args (server # servers) =
     (case call server args of
        Some gcTaskReply \<Rightarrow>
          (if sor_Err gcTaskReply = OK then NewDeleteShardsCommand args # gc_task call args servers
           else gc_task call args servers)
      | None \<Rightarrow> gc_task call args servers)"

definition gcAction ::
  "(string \<Rightarrow> ShardOperationArgs \<Rightarrow> ShardOperationReply option) \<Rightarrow> ShardKV \<Rightarrow> SkCommand list list option" where
  "gcAction call kv = do {
     gid2shardIds \<leftarrow> getShardIdsByStatus kv STATUS_GC;
     Some (map (\<lambda>(servers, args). gc_task call args servers) (shard_tasks kv gid2shardIds))
   }"

definition checkEntryInCurrentTermAction :: "ShardKV \<Rightarrow> SkCommand option option" where
  "checkEntryInCurrentTermAction kv = do {
     has \<leftarrow> HasLogInCurrentTerm (sk_rf kv);
     Some (if \<not> has then Some NewEmptyEntryCommand else None)
   }"

section \<open>The handlers that other groups call\<close>

definition no_shards :: "err \<Rightarrow> ShardOperationReply" where
  "no_shards e = \<lparr>sor_Err = e, sor_ConfigNum = 0, sor_Shards = [], sor_LastOperations = []\<rparr>"

fun copy_shards ::
  "(int \<times> Shard) list \<Rightarrow> int list \<Rightarrow> (int \<times> (string \<rightharpoonup> string)) list \<Rightarrow> (int \<times> (string \<rightharpoonup> string)) list option" where
  "copy_shards sm [] shards = Some shards"
| "copy_shards sm (shardId # ids) shards = do {
     shard \<leftarrow> map_of sm shardId;
     copy_shards sm ids (AList.update shardId (sh_dcopy shard) shards)
   }"

definition GetShardsData :: "ShardKV \<Rightarrow> ShardOperationArgs \<Rightarrow> ShardOperationReply option" where
  "GetShardsData kv args =
     (let (_, isLeader) = GetState (sk_rf kv)
      in if \<not> isLeader then Some (no_shards ErrWrongLeader)
         else if Num (sk_currentConfig kv) < soa_ConfigNum args then Some (no_shards ErrNotReady)
         else do {
           shards \<leftarrow> copy_shards (sk_stateMachines kv) (soa_ShardIds args) [];
           Some \<lparr>sor_Err = OK, sor_ConfigNum = soa_ConfigNum args, sor_Shards = shards,
                 sor_LastOperations = map (\<lambda>(clientId, operation). (clientId, oi_dcopy operation)) (sk_lastOperations kv)\<rparr>
         })"

text \<open>\<open>DeleteShardsData\<close> up to its \<open>Execute\<close>: an immediate reply, or the command to execute.\<close>

definition DeleteShardsData :: "ShardKV \<Rightarrow> ShardOperationArgs \<Rightarrow> ShardOperationReply + SkCommand" where
  "DeleteShardsData kv args =
     (let (_, isLeader) = GetState (sk_rf kv)
      in if \<not> isLeader then Inl (no_shards ErrWrongLeader)
         else if Num (sk_currentConfig kv) < soa_ConfigNum args then Inl (no_shards OK)
         else Inr (NewDeleteShardsCommand args))"

section \<open>The applier\<close>

text \<open>Which shard a key is in (client.go): its first byte modulo the number of shards.\<close>

definition key2shard :: "string \<Rightarrow> int" where
  "key2shard key =
     (let shard = (case key of [] \<Rightarrow> 0 | c # _ \<Rightarrow> int (of_char c)) in shard mod int NShards)"

definition applyLogToStateMachines :: "ShardKV \<Rightarrow> SkArgs \<Rightarrow> int \<Rightarrow> (ShardKV \<times> SkReply) option" where
  "applyLogToStateMachines kv operation shardId =
     (if sk_OP operation = sk_OP_PUT
      then do {
        shard \<leftarrow> map_of (sk_stateMachines kv) shardId;
        let (shard, err) = sh_Put shard (sk_Key operation) (sk_Value operation);
        Some (kv\<lparr>sk_stateMachines := AList.update shardId shard (sk_stateMachines kv)\<rparr>,
              \<lparr>sk_Err = err, sk_ReplyValue = ''''\<rparr>)
      }
      else if sk_OP operation = sk_OP_APPEND
      then do {
        shard \<leftarrow> map_of (sk_stateMachines kv) shardId;
        let (shard, err) = sh_Append shard (sk_Key operation) (sk_Value operation);
        Some (kv\<lparr>sk_stateMachines := AList.update shardId shard (sk_stateMachines kv)\<rparr>,
              \<lparr>sk_Err = err, sk_ReplyValue = ''''\<rparr>)
      }
      else if sk_OP operation = sk_OP_GET
      then do {
        shard \<leftarrow> map_of (sk_stateMachines kv) shardId;
        let (value, err) = sh_Get shard (sk_Key operation);
        Some (kv, \<lparr>sk_Err = err, sk_ReplyValue = value\<rparr>)
      }
      else Some (kv, \<lparr>sk_Err = '''', sk_ReplyValue = ''''\<rparr>))"

definition applyOperation :: "ShardKV \<Rightarrow> SkArgs \<Rightarrow> (ShardKV \<times> SkReply) option" where
  "applyOperation kv operation = do {
     let shardId = key2shard (sk_Key operation);
     can \<leftarrow> canServer kv shardId;
     if can
     then (if sk_OP operation \<noteq> sk_OP_GET \<and> isDuplicateRequest kv (sk_ClientId operation) (sk_CommandId operation)
       then do {
         info \<leftarrow> map_of (sk_lastOperations kv) (sk_ClientId operation);
         Some (kv, sk_LastReply info)
       }
       else do {
         (kv, reply) \<leftarrow> applyLogToStateMachines kv operation shardId;
         Some (if sk_OP operation \<noteq> sk_OP_GET
               then kv\<lparr>sk_lastOperations := AList.update (sk_ClientId operation)
                      \<lparr>sk_MaxAppliedCommandId = sk_CommandId operation, sk_LastReply = reply\<rparr> (sk_lastOperations kv)\<rparr>
               else kv, reply)
       })
     else Some (kv, \<lparr>sk_Err = ErrWrongGroup, sk_ReplyValue = ''''\<rparr>)
   }"

definition set_shard_status :: "(int \<times> Shard) list \<Rightarrow> int \<Rightarrow> string \<Rightarrow> (int \<times> Shard) list option" where
  "set_shard_status sm i status = do {
     shard \<leftarrow> map_of sm i;
     Some (AList.update i (shard\<lparr>sh_Status := status\<rparr>) sm)
   }"

text \<open>The body of the loop of \<open>updateShardStatus\<close> for one shard.\<close>

definition update_one :: "int \<Rightarrow> Config \<Rightarrow> Config \<Rightarrow> int \<Rightarrow> (int \<times> Shard) list \<Rightarrow> (int \<times> Shard) list option" where
  "update_one gid cur nxt i sm = do {
     c \<leftarrow> idx (Shards cur) i;
     n \<leftarrow> idx (Shards nxt) i;
     sm \<leftarrow> (if c \<noteq> gid \<and> n = gid then (if c \<noteq> 0 then set_shard_status sm i STATUS_PULLING else Some sm) else Some sm);
     (if c = gid \<and> n \<noteq> gid then (if n \<noteq> 0 then set_shard_status sm i STATUS_BEPULLING else Some sm) else Some sm)
   }"

fun update_loop :: "int \<Rightarrow> Config \<Rightarrow> Config \<Rightarrow> int list \<Rightarrow> (int \<times> Shard) list \<Rightarrow> (int \<times> Shard) list option" where
  "update_loop gid cur nxt [] sm = Some sm"
| "update_loop gid cur nxt (i # is) sm = do {
     sm \<leftarrow> update_one gid cur nxt i sm;
     update_loop gid cur nxt is sm
   }"

definition updateShardStatus :: "ShardKV \<Rightarrow> Config \<Rightarrow> ShardKV option" where
  "updateShardStatus kv nextConfig = do {
     sm \<leftarrow> update_loop (sk_gid kv) (sk_currentConfig kv) nextConfig (map int [0..<NShards]) (sk_stateMachines kv);
     Some (kv\<lparr>sk_stateMachines := sm\<rparr>)
   }"

definition applyConfiguration :: "ShardKV \<Rightarrow> Config \<Rightarrow> (ShardKV \<times> SkReply) option" where
  "applyConfiguration kv nextConfig =
     (if Num nextConfig = Num (sk_currentConfig kv) + 1
      then do {
        kv \<leftarrow> updateShardStatus kv nextConfig;
        Some (kv\<lparr>sk_lastConfig := sk_currentConfig kv, sk_currentConfig := nextConfig\<rparr>,
              \<lparr>sk_Err = OK, sk_ReplyValue = ''''\<rparr>)
      }
      else Some (kv, \<lparr>sk_Err = ErrOutDated, sk_ReplyValue = ''''\<rparr>))"

text \<open>The loop over the received shards, which stops at the first one that is not awaited.\<close>

fun insert_loop :: "(int \<times> (string \<rightharpoonup> string)) list \<Rightarrow> (int \<times> Shard) list \<Rightarrow> (int \<times> Shard) list option" where
  "insert_loop [] sm = Some sm"
| "insert_loop ((shardId, shardData) # rest) sm = do {
     shard \<leftarrow> map_of sm shardId;
     if sh_Status shard = STATUS_PULLING
     then insert_loop rest (AList.update shardId \<lparr>sh_KV = sh_KV shard ++ shardData, sh_Status = STATUS_GC\<rparr> sm)
     else Some sm
   }"

fun merge_operations :: "(int \<times> SkOperationInfo) list \<Rightarrow> (int \<times> SkOperationInfo) list \<Rightarrow> (int \<times> SkOperationInfo) list" where
  "merge_operations [] ops = ops"
| "merge_operations ((clientId, operationInfo) # rest) ops =
     merge_operations rest
       (if (case map_of ops clientId of
              None \<Rightarrow> True
            | Some lastOperation \<Rightarrow> sk_MaxAppliedCommandId lastOperation < sk_MaxAppliedCommandId operationInfo)
        then AList.update clientId operationInfo ops else ops)"

definition applyInsertShards :: "ShardKV \<Rightarrow> ShardOperationReply \<Rightarrow> (ShardKV \<times> SkReply) option" where
  "applyInsertShards kv shardsInfo =
     (if sor_ConfigNum shardsInfo = Num (sk_currentConfig kv)
      then do {
        sm \<leftarrow> insert_loop (sor_Shards shardsInfo) (sk_stateMachines kv);
        Some (kv\<lparr>sk_stateMachines := sm,
                 sk_lastOperations := merge_operations (sor_LastOperations shardsInfo) (sk_lastOperations kv)\<rparr>,
              \<lparr>sk_Err = OK, sk_ReplyValue = ''''\<rparr>)
      }
      else Some (kv, \<lparr>sk_Err = ErrOutDated, sk_ReplyValue = ''''\<rparr>))"

fun delete_loop :: "int list \<Rightarrow> (int \<times> Shard) list \<Rightarrow> (int \<times> Shard) list option" where
  "delete_loop [] sm = Some sm"
| "delete_loop (shardId # rest) sm = do {
     shard \<leftarrow> map_of sm shardId;
     if sh_Status shard = STATUS_GC
     then delete_loop rest (AList.update shardId (shard\<lparr>sh_Status := STATUS_SERVING\<rparr>) sm)
     else if sh_Status shard = STATUS_BEPULLING
     then delete_loop rest (AList.update shardId NewShard sm)
     else Some sm
   }"

definition applyDeleteShards :: "ShardKV \<Rightarrow> ShardOperationArgs \<Rightarrow> (ShardKV \<times> SkReply) option" where
  "applyDeleteShards kv shardsInfo =
     (if soa_ConfigNum shardsInfo = Num (sk_currentConfig kv)
      then do {
        sm \<leftarrow> delete_loop (soa_ShardIds shardsInfo) (sk_stateMachines kv);
        Some (kv\<lparr>sk_stateMachines := sm\<rparr>, \<lparr>sk_Err = OK, sk_ReplyValue = ''''\<rparr>)
      }
      else Some (kv, \<lparr>sk_Err = OK, sk_ReplyValue = ''''\<rparr>))"

definition applyEmptyEntry :: SkReply where
  "applyEmptyEntry = \<lparr>sk_Err = OK, sk_ReplyValue = ''''\<rparr>"

text \<open>
  The dispatch on the command. A failing type assertion panics; an unknown operation leaves the
  reply nil.
\<close>

definition sk_apply :: "ShardKV \<Rightarrow> SkCommand \<Rightarrow> (ShardKV \<times> SkReply option) option" where
  "sk_apply kv cmd =
     (if cmd_OP cmd = SHD_OPERATION
      then (case cmd_Data cmd of DArgs operation \<Rightarrow> map_option (apsnd Some) (applyOperation kv operation) | _ \<Rightarrow> None)
      else if cmd_OP cmd = SHD_Configuration
      then (case cmd_Data cmd of DConfig nextConfig \<Rightarrow> map_option (apsnd Some) (applyConfiguration kv nextConfig) | _ \<Rightarrow> None)
      else if cmd_OP cmd = SHD_InsertShards
      then (case cmd_Data cmd of DShards shardsInfo \<Rightarrow> map_option (apsnd Some) (applyInsertShards kv shardsInfo) | _ \<Rightarrow> None)
      else if cmd_OP cmd = SHD_DeleteShards
      then (case cmd_Data cmd of DShardIds shardsInfo \<Rightarrow> map_option (apsnd Some) (applyDeleteShards kv shardsInfo) | _ \<Rightarrow> None)
      else if cmd_OP cmd = SHD_EmptyEntry then Some (kv, Some applyEmptyEntry)
      else Some (kv, None))"

definition sk_needSnapshot :: "(SkCommand gob list \<Rightarrow> int) \<Rightarrow> ShardKV \<Rightarrow> bool" where
  "sk_needSnapshot bytes kv \<longleftrightarrow>
     sk_maxraftstate kv \<noteq> -1 \<and> GetRaftStateSize bytes (sk_rf kv) \<ge> sk_maxraftstate kv"

definition takeSnapshot :: "ShardKV \<Rightarrow> int \<Rightarrow> ShardKV option" where
  "takeSnapshot kv index = do {
     rf \<leftarrow> Snapshot (sk_rf kv) index
       ([] @ [GShards (sk_stateMachines kv)] @ [GSkOps (sk_lastOperations kv)] @
        [GConfig (sk_currentConfig kv)] @ [GConfig (sk_lastConfig kv)]);
     Some (kv\<lparr>sk_rf := rf\<rparr>)
   }"

text \<open>
  The four values are decoded in turn up to the first failure; those that are not decoded keep
  their zero value, and the failure itself is ignored. (In Go a map that is not decoded is nil and the
  next write to it panics, where here it is empty; a snapshot that a server took itself always decodes.)
\<close>

definition zero_config :: Config where
  "zero_config = \<lparr>Num = 0, Shards = replicate NShards 0, Groups = []\<rparr>"

definition decode_shardkv ::
  "sk_gob list \<Rightarrow> (int \<times> Shard) list \<times> (int \<times> SkOperationInfo) list \<times> Config \<times> Config" where
  "decode_shardkv snap =
     (case snap of
        GShards sm # r \<Rightarrow>
          (case r of
             GSkOps ops # r \<Rightarrow>
               (case r of
                  GConfig cur # r \<Rightarrow>
                    (case r of GConfig lst # _ \<Rightarrow> (sm, ops, cur, lst) | _ \<Rightarrow> (sm, ops, cur, zero_config))
                | _ \<Rightarrow> (sm, ops, zero_config, zero_config))
           | _ \<Rightarrow> (sm, [], zero_config, zero_config))
      | _ \<Rightarrow> ([], [], zero_config, zero_config))"

definition sk_restoreSnapshot :: "ShardKV \<Rightarrow> sk_gob list \<Rightarrow> ShardKV" where
  "sk_restoreSnapshot kv snap =
     (if snap = [] then initStateMachines kv
      else (let (sm, ops, cur, lst) = decode_shardkv snap
            in kv\<lparr>sk_stateMachines := sm, sk_lastOperations := ops, sk_currentConfig := cur, sk_lastConfig := lst\<rparr>))"

definition sk_notify :: "ShardKV \<Rightarrow> int \<Rightarrow> int \<Rightarrow> SkReply option \<Rightarrow> ShardKV outcome" where
  "sk_notify kv index term reply =
     (let (currentTerm, isLeader) = GetState (sk_rf kv)
      in if isLeader \<and> term = currentTerm
         then (let (kv, ch) = getNotifyChans kv index
               in if sk_chans kv ! ch = [] then Next (kv\<lparr>sk_chans := (sk_chans kv)[ch := [reply]]\<rparr>) else Disabled)
         else Next kv)"

definition sk_applier ::
  "(SkCommand gob list \<Rightarrow> int) \<Rightarrow> ShardKV \<Rightarrow> (SkCommand, sk_gob) ApplyMsg \<Rightarrow> ShardKV outcome" where
  "sk_applier bytes kv msg =
     (if CommandValid msg
      then (if CommandIndex msg \<le> sk_lastApplied kv then Next kv
        else (let kv = kv\<lparr>sk_lastApplied := CommandIndex msg\<rparr>
          in case Command msg of
               None \<Rightarrow> Panic
             | Some cmd \<Rightarrow>
                 (case sk_apply kv cmd of
                    None \<Rightarrow> Panic
                  | Some (kv, reply) \<Rightarrow>
                      (case sk_notify kv (CommandIndex msg) (CommandTerm msg) reply of
                         Next kv \<Rightarrow>
                           (if sk_needSnapshot bytes kv
                            then from_option (takeSnapshot kv (CommandIndex msg)) (\<lambda>kv. kv)
                            else Next kv)
                       | r \<Rightarrow> r))))
      else if SnapshotValid msg
      then from_option (CondInstallSnapshot (sk_rf kv) (SnapshotTerm msg) (SnapshotIndex msg) (Snapshot_data msg))
        (\<lambda>(rf, installed).
          let kv = kv\<lparr>sk_rf := rf\<rparr>
          in if installed then (sk_restoreSnapshot kv (Snapshot_data msg))\<lparr>sk_lastApplied := SnapshotIndex msg\<rparr>
             else kv)
      else Next kv)"

section \<open>Requests, life cycle\<close>

text \<open>\<open>Command\<close> up to its \<open>Execute\<close>: an immediate reply, or the command to execute.\<close>

definition sk_Command :: "ShardKV \<Rightarrow> SkArgs \<Rightarrow> (SkReply + SkCommand) option" where
  "sk_Command kv args =
     (if sk_OP args \<noteq> sk_OP_GET \<and> isDuplicateRequest kv (sk_ClientId args) (sk_CommandId args)
      then do { info \<leftarrow> map_of (sk_lastOperations kv) (sk_ClientId args); Some (Inl (sk_LastReply info)) }
      else do {
        can \<leftarrow> canServer kv (key2shard (sk_Key args));
        Some (if \<not> can then Inl \<lparr>sk_Err = ErrWrongGroup, sk_ReplyValue = ''''\<rparr> else Inr (NewOperationCommand args))
      })"

definition sk_Kill :: "ShardKV \<Rightarrow> ShardKV" where
  "sk_Kill kv = kv\<lparr>sk_dead := True, sk_rf := Kill (sk_rf kv)\<rparr>"

definition sk_killed :: "ShardKV \<Rightarrow> bool" where
  "sk_killed kv = sk_dead kv"

text \<open>One round of the loop of \<open>Serve\<close>: \<^term>\<open>None\<close> when it ends, and whether it runs its action.\<close>

definition Serve :: "(ShardKV \<Rightarrow> 'a) \<Rightarrow> ShardKV \<Rightarrow> 'a option option" where
  "Serve action kv =
     (if sk_killed kv then None
      else Some (let (_, isLeader) = GetState (sk_rf kv) in if isLeader then Some (action kv) else None))"

definition sk_StartServer ::
  "nat \<Rightarrow> nat \<Rightarrow> (SkCommand, sk_gob) persister \<Rightarrow> int \<Rightarrow> int \<Rightarrow> ShardKV option" where
  "sk_StartServer servers self ps maxraftstate gid = do {
     rf \<leftarrow> Make servers self ps;
     let kv = \<lparr>sk_rf = rf, sk_gid = gid, sk_maxraftstate = maxraftstate, sk_lastApplied = 0, sk_dead = False,
               sk_lastConfig = DefaultConfig, sk_currentConfig = DefaultConfig, sk_stateMachines = [],
               sk_lastOperations = [], sk_notifyChans = Map.empty, sk_chans = []\<rparr>;
     Some (sk_restoreSnapshot kv (ReadSnapshot ps))
   }"

end
