(* ===== verification/Shard_Group.thy ===== *)
theory Shard_Group
  imports Shard_Server
begin

text \<open>
  What the log commands of package shardkv do to a replica group: the effect of each command on
  the shards, their status, the configurations and the client sessions, and the invariant of a
  group. The group is the state its replicas reach by applying the log (theory Shard-Server).
\<close>

section \<open>Observations\<close>

abbreviation num :: "ShardKV \<Rightarrow> int" where "num kv \<equiv> Num (sk_currentConfig kv)"

abbreviation shard :: "ShardKV \<Rightarrow> int \<Rightarrow> Shard option" where "shard kv i \<equiv> map_of (sk_stateMachines kv) i"

definition owner :: "Config \<Rightarrow> int \<Rightarrow> int" where "owner c i = Shards c ! nat i"

definition status :: "ShardKV \<Rightarrow> int \<Rightarrow> string" where "status kv i = sh_Status (the (shard kv i))"

definition contents :: "ShardKV \<Rightarrow> int \<Rightarrow> string \<rightharpoonup> string" where "contents kv i = sh_KV (the (shard kv i))"

definition shard_ids :: "int set" where "shard_ids = {0..<int NShards}"

definition shards_ok :: "(int \<times> Shard) list \<Rightarrow> bool" where
  "shards_ok sm \<longleftrightarrow> distinct (map fst sm) \<and> set (map fst sm) = shard_ids"

definition group_ok :: "ShardKV \<Rightarrow> bool" where
  "group_ok kv \<longleftrightarrow> shards_ok (sk_stateMachines kv) \<and>
     length (Shards (sk_currentConfig kv)) = NShards \<and> length (Shards (sk_lastConfig kv)) = NShards"

lemma shards_ok_lookup: "shards_ok sm \<Longrightarrow> (map_of sm i \<noteq> None) = (i \<in> shard_ids)"
  by (auto simp: shards_ok_def map_of_eq_None_iff)

lemma shards_ok_obtain:
  assumes "shards_ok sm" "i \<in> shard_ids" obtains sh where "map_of sm i = Some sh"
  using shards_ok_lookup [OF assms(1), of i] assms(2) by auto

lemma shards_ok_update [simp]: "shards_ok sm \<Longrightarrow> i \<in> shard_ids \<Longrightarrow> shards_ok (AList.update i sh sm)"
  by (auto simp: shards_ok_def update_keys)

lemma idx_shards: "length (Shards c) = NShards \<Longrightarrow> i \<in> shard_ids \<Longrightarrow> idx (Shards c) i = Some (owner c i)"
  by (auto simp: idx_def shard_ids_def owner_def)

lemma key2shard_range: "key2shard key \<in> shard_ids"
  by (simp add: key2shard_def Let_def shard_ids_def NShards_def)

lemma map_of_update: "map_of (AList.update k v al) i = (if i = k then Some v else map_of al i)"
  by (simp add: update_conv')

lemma all_serving_iff: "all_serving sm \<longleftrightarrow> (\<forall>(i, sh)\<in>set sm. sh_Status sh = STATUS_SERVING)"
  by (induction sm rule: all_serving.induct) auto

lemma all_serving_status:
  assumes "group_ok kv" "all_serving (sk_stateMachines kv)" "i \<in> shard_ids"
  shows "status kv i = STATUS_SERVING"
proof -
  obtain sh where sh: "shard kv i = Some sh"
    using assms(1,3) shards_ok_obtain unfolding group_ok_def by blast
  then have "(i, sh) \<in> set (sk_stateMachines kv)" by (rule map_of_SomeD)
  with assms(2) sh show ?thesis by (auto simp: status_def all_serving_iff)
qed

section \<open>The loops\<close>

lemma shard_numbers: "set (map int [0..<NShards]) = shard_ids"
proof -
  have "i \<in> int ` {0..<NShards}" if "0 \<le> i" "i < int NShards" for i
    using that by (intro image_eqI [of _ _ "nat i"]) auto
  then show ?thesis by (auto simp: shard_ids_def)
qed

lemma init_loop_lookup:
  "map_of (initStateMachines_loop is sm) i = (if i \<in> set is \<and> map_of sm i = None then Some NewShard else map_of sm i)"
  by (induction "is" sm rule: initStateMachines_loop.induct) (auto simp: map_of_update)

lemma init_loop_distinct: "distinct (map fst sm) \<Longrightarrow> distinct (map fst (initStateMachines_loop is sm))"
  by (induction "is" sm rule: initStateMachines_loop.induct) (auto simp: distinct_update)

lemma init_loop_ok: "shards_ok (initStateMachines_loop (map int [0..<NShards]) [])"
proof -
  have "set (map fst (initStateMachines_loop (map int [0..<NShards]) [])) = shard_ids"
  proof (rule set_eqI)
    fix i
    have "(i \<in> set (map fst (initStateMachines_loop (map int [0..<NShards]) []))) =
      (map_of (initStateMachines_loop (map int [0..<NShards]) []) i \<noteq> None)"
      by (simp add: map_of_eq_None_iff)
    also have "\<dots> = (i \<in> shard_ids)"
      by (simp add: init_loop_lookup shard_numbers del: set_map)
    finally show "(i \<in> set (map fst (initStateMachines_loop (map int [0..<NShards]) []))) = (i \<in> shard_ids)" .
  qed
  then show ?thesis by (simp add: shards_ok_def init_loop_distinct del: set_map)
qed

definition new_status :: "int \<Rightarrow> int \<Rightarrow> int \<Rightarrow> string \<Rightarrow> string" where
  "new_status gid c n st =
     (if c \<noteq> gid \<and> n = gid \<and> c \<noteq> 0 then STATUS_PULLING
      else if c = gid \<and> n \<noteq> gid \<and> n \<noteq> 0 then STATUS_BEPULLING else st)"

lemma update_one_spec:
  assumes "shards_ok sm" "length (Shards cur) = NShards" "length (Shards nxt) = NShards" "i \<in> shard_ids"
  shows "\<exists>sm'. update_one gid cur nxt i sm = Some sm' \<and> shards_ok sm' \<and>
    (\<forall>j. map_of sm' j = (if j = i then map_option (\<lambda>sh. sh\<lparr>sh_Status := new_status gid (owner cur i) (owner nxt i) (sh_Status sh)\<rparr>)
      (map_of sm j) else map_of sm j))"
proof -
  obtain sh where sh: "map_of sm i = Some sh" using shards_ok_obtain [OF assms(1,4)] .
  show ?thesis using assms(1,4) sh
    by (auto simp: update_one_def idx_shards assms set_shard_status_def new_status_def map_of_update)
qed

lemma update_loop_spec:
  assumes "shards_ok sm" "length (Shards cur) = NShards" "length (Shards nxt) = NShards" "set is \<subseteq> shard_ids" "distinct is"
  shows "\<exists>sm'. update_loop gid cur nxt is sm = Some sm' \<and> shards_ok sm' \<and>
    (\<forall>j. map_of sm' j = (if j \<in> set is then map_option (\<lambda>sh. sh\<lparr>sh_Status := new_status gid (owner cur j) (owner nxt j) (sh_Status sh)\<rparr>)
      (map_of sm j) else map_of sm j))"
  using assms
proof (induction "is" arbitrary: sm)
  case (Cons i js)
  from Cons.prems update_one_spec [of sm cur nxt i gid] obtain sm1 where
    1: "update_one gid cur nxt i sm = Some sm1" "shards_ok sm1"
    "\<And>j. map_of sm1 j = (if j = i then map_option (\<lambda>sh. sh\<lparr>sh_Status := new_status gid (owner cur i) (owner nxt i) (sh_Status sh)\<rparr>)
      (map_of sm j) else map_of sm j)" by auto
  from Cons.IH [OF 1(2)] Cons.prems obtain sm2 where
    2: "update_loop gid cur nxt js sm1 = Some sm2" "shards_ok sm2"
    "\<And>j. map_of sm2 j = (if j \<in> set js then map_option (\<lambda>sh. sh\<lparr>sh_Status := new_status gid (owner cur j) (owner nxt j) (sh_Status sh)\<rparr>)
      (map_of sm1 j) else map_of sm1 j)" by auto
  show ?case
  proof (intro exI conjI allI)
    show "update_loop gid cur nxt (i # js) sm = Some sm2" using 1 2 by simp
    show "shards_ok sm2" by fact
    show "map_of sm2 j = (if j \<in> set (i # js) then map_option (\<lambda>sh. sh\<lparr>sh_Status := new_status gid (owner cur j) (owner nxt j) (sh_Status sh)\<rparr>)
      (map_of sm j) else map_of sm j)" for j
      using 1(3) [of j] 2(3) [of j] Cons.prems(5) by auto
  qed
qed simp

lemma insert_loop_ok:
  assumes "shards_ok sm" "fst ` set shards \<subseteq> shard_ids"
  shows "\<exists>sm'. insert_loop shards sm = Some sm'"
  using assms by (induction shards sm rule: insert_loop.induct) (auto elim!: shards_ok_obtain)

lemma insert_loop_effect:
  assumes "insert_loop shards sm = Some sm'"
  shows "map_of sm' i = map_of sm i \<or>
    (\<exists>sh d. map_of sm i = Some sh \<and> sh_Status sh = STATUS_PULLING \<and> (i, d) \<in> set shards \<and>
      map_of sm' i = Some \<lparr>sh_KV = sh_KV sh ++ d, sh_Status = STATUS_GC\<rparr>)"
  using assms
proof (induction shards sm rule: insert_loop.induct)
  case (2 j d rest sm)
  from 2(2) obtain sh where sh: "map_of sm j = Some sh" by (auto simp: bind_Some_iff)
  show ?case
  proof (cases "sh_Status sh = STATUS_PULLING")
    case True
    let ?sm = "AList.update j \<lparr>sh_KV = sh_KV sh ++ d, sh_Status = STATUS_GC\<rparr> sm"
    have "insert_loop rest ?sm = Some sm'" using 2(2) sh True by simp
    from 2(1) [OF sh True this] show ?thesis using sh True by (auto simp: map_of_update split: if_splits)
  qed (use 2(2) sh in auto)
qed simp

lemma insert_loop_shards_ok:
  "insert_loop shards sm = Some sm' \<Longrightarrow> shards_ok sm \<Longrightarrow> shards_ok sm'"
proof (induction shards sm rule: insert_loop.induct)
  case (2 j d rest sm)
  from 2(2) obtain sh where sh: "map_of sm j = Some sh" by (auto simp: bind_Some_iff)
  with shards_ok_lookup [OF 2(3), of j] have "j \<in> shard_ids" by simp
  with 2 sh show ?case by (cases "sh_Status sh = STATUS_PULLING") auto
qed simp

lemma delete_loop_ok:
  assumes "shards_ok sm" "set ids \<subseteq> shard_ids"
  shows "\<exists>sm'. delete_loop ids sm = Some sm'"
  using assms by (induction ids sm rule: delete_loop.induct) (auto elim!: shards_ok_obtain)

lemma delete_loop_effect:
  assumes "delete_loop ids sm = Some sm'"
  shows "map_of sm' i = map_of sm i \<or>
    (\<exists>sh. i \<in> set ids \<and> map_of sm i = Some sh \<and>
      (sh_Status sh = STATUS_GC \<and> map_of sm' i = Some (sh\<lparr>sh_Status := STATUS_SERVING\<rparr>) \<or>
       sh_Status sh = STATUS_BEPULLING \<and> map_of sm' i = Some NewShard))"
  using assms
proof (induction ids sm rule: delete_loop.induct)
  case (2 j rest sm)
  from 2(3) obtain sh where sh: "map_of sm j = Some sh" by (auto simp: bind_Some_iff)
  consider "sh_Status sh = STATUS_GC" | "sh_Status sh \<noteq> STATUS_GC" "sh_Status sh = STATUS_BEPULLING"
    | "sh_Status sh \<noteq> STATUS_GC" "sh_Status sh \<noteq> STATUS_BEPULLING" by blast
  then show ?case
  proof cases
    case 1
    then have "delete_loop rest (AList.update j (sh\<lparr>sh_Status := STATUS_SERVING\<rparr>) sm) = Some sm'" using 2(3) sh by simp
    from 2(1) [OF sh 1 this] show ?thesis using sh 1 by (auto simp: map_of_update split: if_splits)
  next
    case b: 2
    then have "delete_loop rest (AList.update j NewShard sm) = Some sm'" using 2(3) sh by simp
    from 2(2) [OF sh b this] show ?thesis using sh b by (auto simp: map_of_update NewShard_def split: if_splits)
  qed (use 2(3) sh in auto)
qed simp

lemma delete_loop_shards_ok:
  "delete_loop ids sm = Some sm' \<Longrightarrow> shards_ok sm \<Longrightarrow> shards_ok sm'"
proof (induction ids sm rule: delete_loop.induct)
  case (2 j rest sm)
  from 2(3) obtain sh where sh: "map_of sm j = Some sh" by (auto simp: bind_Some_iff)
  with shards_ok_lookup [OF 2(4), of j] have "j \<in> shard_ids" by simp
  with 2 sh show ?case by (cases "sh_Status sh = STATUS_GC"; cases "sh_Status sh = STATUS_BEPULLING") auto
qed simp

lemma shardIds_loop_effect:
  assumes "shardIds_loop shards st sm acc = Some m" "map_of m g = Some ids" "i \<in> set ids"
  shows "(\<exists>sh. (i, sh) \<in> set sm \<and> sh_Status sh = st \<and> idx shards i = Some g \<and> g \<noteq> 0) \<or>
    (\<exists>ids'. map_of acc g = Some ids' \<and> i \<in> set ids')"
  using assms
proof (induction sm arbitrary: acc)
  case (Cons x sm)
  obtain j sh where x: "x = (j, sh)" by (cases x)
  show ?case
  proof (cases "sh_Status sh = st")
    case True
    with Cons.prems(1) x obtain gid where gid: "idx shards j = Some gid"
      "shardIds_loop shards st sm (if gid \<noteq> 0
           then AList.update gid ((case map_of acc gid of Some ids \<Rightarrow> ids | None \<Rightarrow> []) @ [j]) acc else acc) = Some m"
      by (auto simp: bind_Some_iff)
    from Cons.IH [OF gid(2) Cons.prems(2,3)] show ?thesis
      using True x gid(1) by (auto simp: map_of_update split: if_splits option.splits)
  next
    case False
    with Cons.prems(1) x have "shardIds_loop shards st sm acc = Some m" by simp
    from Cons.IH [OF this Cons.prems(2,3)] show ?thesis by auto
  qed
qed simp

lemma shardIds_loop_distinct:
  "shardIds_loop shards st sm acc = Some m \<Longrightarrow> distinct (map fst acc) \<Longrightarrow> distinct (map fst m)"
  by (induction shards st sm acc rule: shardIds_loop.induct)
    (auto simp: bind_Some_iff distinct_update split: if_splits)

lemma copy_shards_effect:
  assumes "copy_shards sm ids acc = Some shards" "(i, d) \<in> set shards"
  shows "(\<exists>sh. i \<in> set ids \<and> map_of sm i = Some sh \<and> d = sh_KV sh) \<or> (i, d) \<in> set acc"
  using assms
proof (induction sm ids acc rule: copy_shards.induct)
  case (2 sm j ids acc)
  from 2(2) obtain sh where sh: "map_of sm j = Some sh" "copy_shards sm ids (AList.update j (sh_dcopy sh) acc) = Some shards"
    by (auto simp: bind_Some_iff)
  from 2(1) [OF sh 2(3)] show ?case
  proof
    assume "(i, d) \<in> set (AList.update j (sh_dcopy sh) acc)"
    then have "(i, d) \<in> set acc \<or> (i = j \<and> d = sh_KV sh)"
      by (induction acc) (auto split: if_splits)
    with sh show ?thesis by auto
  qed auto
qed simp

section \<open>Sessions\<close>

text \<open>The greatest command number of a client that a group has executed or been told of.\<close>

abbreviation highest :: "ShardKV \<Rightarrow> int \<Rightarrow> int option" where
  "highest kv c \<equiv> map_option sk_MaxAppliedCommandId (map_of (sk_lastOperations kv) c)"

lemma isDuplicate_iff: "isDuplicateRequest kv c n \<longleftrightarrow> (\<exists>m. highest kv c = Some m \<and> n \<le> m)"
  by (auto simp: isDuplicateRequest_def split: option.splits)

lemma merge_operations_iff:
  "(\<exists>info. map_of (merge_operations new ops) c = Some info \<and> n \<le> sk_MaxAppliedCommandId info) \<longleftrightarrow>
   (\<exists>info. map_of ops c = Some info \<and> n \<le> sk_MaxAppliedCommandId info) \<or>
   (\<exists>info. (c, info) \<in> set new \<and> n \<le> sk_MaxAppliedCommandId info)"
proof (induction new ops rule: merge_operations.induct)
  case (2 d new rest ops)
  let ?ops = "if (case map_of ops d of None \<Rightarrow> True
        | Some old \<Rightarrow> sk_MaxAppliedCommandId old < sk_MaxAppliedCommandId new)
      then AList.update d new ops else ops"
  have "(\<exists>info. map_of ?ops c = Some info \<and> n \<le> sk_MaxAppliedCommandId info) \<longleftrightarrow>
    (\<exists>info. map_of ops c = Some info \<and> n \<le> sk_MaxAppliedCommandId info) \<or> (c = d \<and> n \<le> sk_MaxAppliedCommandId new)"
    by (cases "map_of ops d") (auto simp: map_of_update)
  with 2 show ?case by auto
qed simp

section \<open>The effect of each command\<close>

lemma canServer_eq:
  assumes "group_ok kv" "i \<in> shard_ids"
  shows "canServer kv i = Some (owner (sk_currentConfig kv) i = sk_gid kv \<and>
    (status kv i = STATUS_SERVING \<or> status kv i = STATUS_GC))"
proof -
  obtain sh where "shard kv i = Some sh" using assms shards_ok_obtain unfolding group_ok_def by blast
  with assms show ?thesis by (simp add: canServer_def idx_shards group_ok_def status_def)
qed

text \<open>The specification of a client operation on the contents of a store.\<close>

definition store_op :: "SkArgs \<Rightarrow> (string \<rightharpoonup> string) \<Rightarrow> (string \<rightharpoonup> string)" where
  "store_op op m =
     (if sk_OP op = sk_OP_PUT then m(sk_Key op \<mapsto> sk_Value op)
      else if sk_OP op = sk_OP_APPEND
      then m(sk_Key op \<mapsto> (case m (sk_Key op) of Some v \<Rightarrow> v | None \<Rightarrow> '''') @ sk_Value op)
      else m)"

definition store_reply :: "SkArgs \<Rightarrow> (string \<rightharpoonup> string) \<Rightarrow> SkReply" where
  "store_reply op m =
     (if sk_OP op = sk_OP_PUT \<or> sk_OP op = sk_OP_APPEND then \<lparr>sk_Err = OK, sk_ReplyValue = ''''\<rparr>
      else if sk_OP op = sk_OP_GET
      then (case m (sk_Key op) of Some v \<Rightarrow> \<lparr>sk_Err = OK, sk_ReplyValue = v\<rparr>
            | None \<Rightarrow> \<lparr>sk_Err = ErrNoKey, sk_ReplyValue = ''''\<rparr>)
      else \<lparr>sk_Err = '''', sk_ReplyValue = ''''\<rparr>)"

text \<open>Whether a group executes an operation (serves its shard, and does not know it already).\<close>

definition served :: "ShardKV \<Rightarrow> SkArgs \<Rightarrow> bool" where
  "served kv op \<longleftrightarrow> canServer kv (key2shard (sk_Key op)) = Some True"

definition executes :: "ShardKV \<Rightarrow> SkArgs \<Rightarrow> bool" where
  "executes kv op \<longleftrightarrow> served kv op \<and>
     \<not> (sk_OP op \<noteq> sk_OP_GET \<and> isDuplicateRequest kv (sk_ClientId op) (sk_CommandId op))"

lemma applyLogToStateMachines_eq:
  assumes "shard kv i = Some sh"
  shows "\<exists>sm. applyLogToStateMachines kv op i = Some (kv\<lparr>sk_stateMachines := sm\<rparr>, store_reply op (sh_KV sh)) \<and>
    (sm = sk_stateMachines kv \<and> store_op op (sh_KV sh) = sh_KV sh \<or>
     sm = AList.update i (sh\<lparr>sh_KV := store_op op (sh_KV sh)\<rparr>) (sk_stateMachines kv))"
proof (cases "sk_OP op = sk_OP_PUT \<or> sk_OP op = sk_OP_APPEND")
  case True
  with assms show ?thesis
    by (intro exI [of _ "AList.update i (sh\<lparr>sh_KV := store_op op (sh_KV sh)\<rparr>) (sk_stateMachines kv)"])
      (auto simp: applyLogToStateMachines_def store_op_def store_reply_def sh_Put_def sh_Append_def)
next
  case False
  with assms show ?thesis
    by (intro exI [of _ "sk_stateMachines kv"])
      (auto simp: applyLogToStateMachines_def store_op_def store_reply_def sh_Get_def split: option.splits)
qed

lemma applyOperation_refused:
  assumes "group_ok kv" "\<not> served kv op"
  shows "applyOperation kv op = Some (kv, \<lparr>sk_Err = ErrWrongGroup, sk_ReplyValue = ''''\<rparr>)"
  using assms canServer_eq [OF assms(1) key2shard_range, of "sk_Key op"]
  by (auto simp: applyOperation_def served_def)

lemma applyOperation_duplicate:
  assumes "served kv op" "\<not> executes kv op"
  shows "\<exists>info. map_of (sk_lastOperations kv) (sk_ClientId op) = Some info \<and>
    applyOperation kv op = Some (kv, sk_LastReply info)"
  using assms by (auto simp: applyOperation_def served_def executes_def isDuplicateRequest_def split: option.splits)

lemma applyOperation_executes:
  assumes "group_ok kv" "executes kv op"
  shows "\<exists>kv'. applyOperation kv op = Some (kv', store_reply op (contents kv (key2shard (sk_Key op)))) \<and> group_ok kv' \<and>
    sk_gid kv' = sk_gid kv \<and> sk_currentConfig kv' = sk_currentConfig kv \<and> sk_lastConfig kv' = sk_lastConfig kv \<and>
    (\<forall>i. status kv' i = status kv i) \<and>
    (\<forall>i. contents kv' i = (if i = key2shard (sk_Key op) then store_op op (contents kv i) else contents kv i)) \<and>
    (\<forall>c. highest kv' c = (if c = sk_ClientId op \<and> sk_OP op \<noteq> sk_OP_GET then Some (sk_CommandId op) else highest kv c))"
proof -
  let ?i = "key2shard (sk_Key op)"
  obtain sh where sh: "shard kv ?i = Some sh"
    using assms(1) shards_ok_obtain key2shard_range unfolding group_ok_def by blast
  from applyLogToStateMachines_eq [OF sh, of op] obtain sm where
    a: "applyLogToStateMachines kv op ?i = Some (kv\<lparr>sk_stateMachines := sm\<rparr>, store_reply op (sh_KV sh))"
    and sm: "sm = sk_stateMachines kv \<and> store_op op (sh_KV sh) = sh_KV sh \<or>
      sm = AList.update ?i (sh\<lparr>sh_KV := store_op op (sh_KV sh)\<rparr>) (sk_stateMachines kv)" by blast
  have c: "contents kv ?i = sh_KV sh" using sh by (simp add: contents_def)
  let ?kv = "if sk_OP op \<noteq> sk_OP_GET
    then (kv\<lparr>sk_stateMachines := sm\<rparr>)\<lparr>sk_lastOperations := AList.update (sk_ClientId op)
      \<lparr>sk_MaxAppliedCommandId = sk_CommandId op, sk_LastReply = store_reply op (sh_KV sh)\<rparr> (sk_lastOperations kv)\<rparr>
    else kv\<lparr>sk_stateMachines := sm\<rparr>"
  have e: "canServer kv ?i = Some True"
    "\<not> (sk_OP op \<noteq> sk_OP_GET \<and> isDuplicateRequest kv (sk_ClientId op) (sk_CommandId op))"
    using assms(2) by (auto simp: executes_def served_def)
  have r: "applyOperation kv op = Some (?kv, store_reply op (sh_KV sh))"
    unfolding applyOperation_def Let_def e(1) bind.bind_lunit if_not_P [OF e(2)] a by simp
  have ok: "shards_ok sm" using sm assms(1) by (auto simp: group_ok_def key2shard_range)
  have st: "sh_Status (the (map_of sm i)) = status kv i" for i
    using sm sh by (auto simp: status_def map_of_update)
  have co: "sh_KV (the (map_of sm i)) = (if i = ?i then store_op op (contents kv i) else contents kv i)" for i
    using sm sh by (auto simp: contents_def map_of_update)
  show ?thesis
  proof (intro exI [of _ ?kv] conjI allI)
    show "applyOperation kv op = Some (?kv, store_reply op (contents kv ?i))" using r c by simp
    show "group_ok ?kv" using ok assms(1) by (simp add: group_ok_def)
    show "status ?kv i = status kv i" for i using st [of i] by (simp add: status_def)
    show "contents ?kv i = (if i = ?i then store_op op (contents kv i) else contents kv i)" for i
    proof -
      have "contents ?kv i = sh_KV (the (map_of sm i))" by (simp add: contents_def)
      then show ?thesis using co [of i] by simp
    qed
  qed (auto simp: map_of_update)
qed

lemma applyConfiguration_advances:
  assumes "group_ok kv" "Num cfg = num kv + 1" "length (Shards cfg) = NShards"
  shows "\<exists>kv'. applyConfiguration kv cfg = Some (kv', \<lparr>sk_Err = OK, sk_ReplyValue = ''''\<rparr>) \<and> group_ok kv' \<and>
    sk_gid kv' = sk_gid kv \<and> sk_currentConfig kv' = cfg \<and> sk_lastConfig kv' = sk_currentConfig kv \<and>
    sk_lastOperations kv' = sk_lastOperations kv \<and>
    (\<forall>i\<in>shard_ids. contents kv' i = contents kv i \<and>
      status kv' i = new_status (sk_gid kv) (owner (sk_currentConfig kv) i) (owner cfg i) (status kv i))"
proof -
  note s = shard_numbers
  have "distinct (map int [0..<NShards])" by (simp add: distinct_map)
  from update_loop_spec [of "sk_stateMachines kv" "sk_currentConfig kv" cfg "map int [0..<NShards]" "sk_gid kv"] assms s this
  obtain sm where sm: "update_loop (sk_gid kv) (sk_currentConfig kv) cfg (map int [0..<NShards]) (sk_stateMachines kv) = Some sm"
    "shards_ok sm"
    "\<And>j. map_of sm j = (if j \<in> shard_ids then map_option (\<lambda>sh. sh\<lparr>sh_Status := new_status (sk_gid kv)
        (owner (sk_currentConfig kv) j) (owner cfg j) (sh_Status sh)\<rparr>) (shard kv j) else shard kv j)"
    by (auto simp: group_ok_def)
  let ?kv = "(kv\<lparr>sk_stateMachines := sm\<rparr>)\<lparr>sk_lastConfig := sk_currentConfig kv, sk_currentConfig := cfg\<rparr>"
  have "contents ?kv i = contents kv i \<and>
      status ?kv i = new_status (sk_gid kv) (owner (sk_currentConfig kv) i) (owner cfg i) (status kv i)"
    if i: "i \<in> shard_ids" for i
  proof -
    obtain sh where "shard kv i = Some sh" using assms(1) i shards_ok_obtain unfolding group_ok_def by blast
    with sm(3) [of i] i show ?thesis by (simp add: contents_def status_def)
  qed
  moreover have "applyConfiguration kv cfg = Some (?kv, \<lparr>sk_Err = OK, sk_ReplyValue = ''''\<rparr>)"
    using assms(2) sm(1) by (simp add: applyConfiguration_def updateShardStatus_def)
  ultimately show ?thesis using assms sm(2) by (intro exI [of _ ?kv]) (simp add: group_ok_def)
qed

lemma applyInsertShards_effect:
  assumes "applyInsertShards kv info = Some (kv', r)" "group_ok kv"
  shows "group_ok kv'" "sk_gid kv' = sk_gid kv" "sk_currentConfig kv' = sk_currentConfig kv" "sk_lastConfig kv' = sk_lastConfig kv"
    "i \<in> shard_ids \<Longrightarrow> shard kv' i = shard kv i \<or>
      (sor_ConfigNum info = num kv \<and> status kv i = STATUS_PULLING \<and> status kv' i = STATUS_GC \<and>
       (\<exists>d. (i, d) \<in> set (sor_Shards info) \<and> contents kv' i = contents kv i ++ d))"
    "isDuplicateRequest kv' c n \<longleftrightarrow> isDuplicateRequest kv c n \<or>
      (sor_ConfigNum info = num kv \<and> (\<exists>op. (c, op) \<in> set (sor_LastOperations info) \<and> n \<le> sk_MaxAppliedCommandId op))"
proof -
  have "group_ok kv' \<and> sk_gid kv' = sk_gid kv \<and> sk_currentConfig kv' = sk_currentConfig kv \<and> sk_lastConfig kv' = sk_lastConfig kv \<and>
    (i \<in> shard_ids \<longrightarrow> shard kv' i = shard kv i \<or>
      (sor_ConfigNum info = num kv \<and> status kv i = STATUS_PULLING \<and> status kv' i = STATUS_GC \<and>
       (\<exists>d. (i, d) \<in> set (sor_Shards info) \<and> contents kv' i = contents kv i ++ d))) \<and>
    (isDuplicateRequest kv' c n \<longleftrightarrow> isDuplicateRequest kv c n \<or>
      (sor_ConfigNum info = num kv \<and> (\<exists>op. (c, op) \<in> set (sor_LastOperations info) \<and> n \<le> sk_MaxAppliedCommandId op)))"
  proof (cases "sor_ConfigNum info = num kv")
    case True
    with assms(1) obtain sm where sm: "insert_loop (sor_Shards info) (sk_stateMachines kv) = Some sm"
      and kv': "kv' = kv\<lparr>sk_stateMachines := sm,
        sk_lastOperations := merge_operations (sor_LastOperations info) (sk_lastOperations kv)\<rparr>"
      by (auto simp: applyInsertShards_def bind_Some_iff)
    have ok: "shards_ok sm" using insert_loop_shards_ok [OF sm] assms(2) by (simp add: group_ok_def)
    have d: "isDuplicateRequest kv c n \<longleftrightarrow> (\<exists>info. map_of (sk_lastOperations kv) c = Some info \<and> n \<le> sk_MaxAppliedCommandId info)"
      for kv :: ShardKV by (auto simp: isDuplicateRequest_def split: option.splits)
    have dup: "isDuplicateRequest kv' c n \<longleftrightarrow> isDuplicateRequest kv c n \<or>
        (\<exists>op. (c, op) \<in> set (sor_LastOperations info) \<and> n \<le> sk_MaxAppliedCommandId op)"
      unfolding d kv' using merge_operations_iff [of "sor_LastOperations info" "sk_lastOperations kv" c n] by simp
    from insert_loop_effect [OF sm, of i] have "map_of sm i = shard kv i \<or>
      (status kv i = STATUS_PULLING \<and> sh_Status (the (map_of sm i)) = STATUS_GC \<and>
       (\<exists>d. (i, d) \<in> set (sor_Shards info) \<and> sh_KV (the (map_of sm i)) = contents kv i ++ d))"
      by (auto simp: status_def contents_def)
    then show ?thesis using True ok assms(2) dup unfolding kv' by (auto simp: group_ok_def status_def contents_def)
  qed (use assms in \<open>auto simp: applyInsertShards_def\<close>)
  then show "group_ok kv'" "sk_gid kv' = sk_gid kv" "sk_currentConfig kv' = sk_currentConfig kv" "sk_lastConfig kv' = sk_lastConfig kv"
    "i \<in> shard_ids \<Longrightarrow> shard kv' i = shard kv i \<or>
      (sor_ConfigNum info = num kv \<and> status kv i = STATUS_PULLING \<and> status kv' i = STATUS_GC \<and>
       (\<exists>d. (i, d) \<in> set (sor_Shards info) \<and> contents kv' i = contents kv i ++ d))"
    "isDuplicateRequest kv' c n \<longleftrightarrow> isDuplicateRequest kv c n \<or>
      (sor_ConfigNum info = num kv \<and> (\<exists>op. (c, op) \<in> set (sor_LastOperations info) \<and> n \<le> sk_MaxAppliedCommandId op))"
    by blast+
qed

lemma applyDeleteShards_effect:
  assumes "applyDeleteShards kv args = Some (kv', r)" "group_ok kv"
  shows "group_ok kv'" "sk_gid kv' = sk_gid kv" "sk_currentConfig kv' = sk_currentConfig kv" "sk_lastConfig kv' = sk_lastConfig kv"
    "sk_lastOperations kv' = sk_lastOperations kv"
    "shard kv' i = shard kv i \<or>
      (soa_ConfigNum args = num kv \<and> i \<in> set (soa_ShardIds args) \<and> status kv' i = STATUS_SERVING \<and>
       (status kv i = STATUS_GC \<and> contents kv' i = contents kv i \<or>
        status kv i = STATUS_BEPULLING \<and> contents kv' i = Map.empty))"
proof -
  have "group_ok kv' \<and> sk_gid kv' = sk_gid kv \<and> sk_currentConfig kv' = sk_currentConfig kv \<and> sk_lastConfig kv' = sk_lastConfig kv \<and>
    sk_lastOperations kv' = sk_lastOperations kv \<and> (shard kv' i = shard kv i \<or>
      (soa_ConfigNum args = num kv \<and> i \<in> set (soa_ShardIds args) \<and> status kv' i = STATUS_SERVING \<and>
       (status kv i = STATUS_GC \<and> contents kv' i = contents kv i \<or>
        status kv i = STATUS_BEPULLING \<and> contents kv' i = Map.empty)))"
  proof (cases "soa_ConfigNum args = num kv")
    case True
    with assms(1) obtain sm where sm: "delete_loop (soa_ShardIds args) (sk_stateMachines kv) = Some sm"
      and kv': "kv' = kv\<lparr>sk_stateMachines := sm\<rparr>" by (auto simp: applyDeleteShards_def bind_Some_iff)
    have ok: "shards_ok sm" using delete_loop_shards_ok [OF sm] assms(2) by (simp add: group_ok_def)
    from delete_loop_effect [OF sm, of i] have "map_of sm i = shard kv i \<or>
      (i \<in> set (soa_ShardIds args) \<and> sh_Status (the (map_of sm i)) = STATUS_SERVING \<and>
       (status kv i = STATUS_GC \<and> sh_KV (the (map_of sm i)) = contents kv i \<or>
        status kv i = STATUS_BEPULLING \<and> sh_KV (the (map_of sm i)) = Map.empty))"
      by (auto simp: status_def contents_def NewShard_def)
    then show ?thesis using True ok assms(2) unfolding kv' by (auto simp: group_ok_def status_def contents_def)
  qed (use assms in \<open>auto simp: applyDeleteShards_def\<close>)
  then show "group_ok kv'" "sk_gid kv' = sk_gid kv" "sk_currentConfig kv' = sk_currentConfig kv" "sk_lastConfig kv' = sk_lastConfig kv"
    "sk_lastOperations kv' = sk_lastOperations kv"
    "shard kv' i = shard kv i \<or>
      (soa_ConfigNum args = num kv \<and> i \<in> set (soa_ShardIds args) \<and> status kv' i = STATUS_SERVING \<and>
       (status kv i = STATUS_GC \<and> contents kv' i = contents kv i \<or>
        status kv i = STATUS_BEPULLING \<and> contents kv' i = Map.empty))"
    by blast+
qed

end
