(* ===== verification/Shard_System.thy ===== *)
theory Shard_System
  imports Shard_Group
begin

text \<open>
  The sharded service as a whole: the groups, each with the history of states its replicas go
  through, the configurations the controller issued, and the commands that reach the groups'
  logs. A background action reads the state of some replica, which may lag behind, so it acts on
  any earlier state of its group; what it proposes is applied to the group's latest state. The
  service is compared with a single store: \<open>A\<close> is the store that results from the executed
  operations, \<open>X\<close> the writes executed so far.
\<close>

section \<open>The system\<close>

definition group_start :: "int \<Rightarrow> ShardKV" where
  "group_start g = the (sk_StartServer 3 0 MakePersister (-1) g)"

text \<open>The calls of a migration are answered by states of the group the called server belongs to.\<close>

definition answers :: "(int \<Rightarrow> ShardKV list) \<Rightarrow> (string \<Rightarrow> int) \<Rightarrow>
  (string \<Rightarrow> ShardOperationArgs \<Rightarrow> ShardOperationReply option) \<Rightarrow> bool" where
  "answers H grp call \<longleftrightarrow> (\<forall>server args reply. call server args = Some reply \<longrightarrow>
     (\<exists>s\<in>set (H (grp server)). \<exists>rf. GetShardsData (s\<lparr>sk_rf := rf\<rparr>) args = Some reply))"

inductive sharded ::
  "(int \<Rightarrow> Config) \<Rightarrow> (string \<Rightarrow> int) \<Rightarrow> (int \<Rightarrow> ShardKV list) \<Rightarrow> (string \<rightharpoonup> string) \<Rightarrow> (int \<times> int \<times> int) set \<Rightarrow> bool"
  for cfg grp where
  start: "sharded cfg grp (\<lambda>g. [group_start g]) Map.empty {}"
| operation: "sharded cfg grp H A X \<Longrightarrow> g \<noteq> 0 \<Longrightarrow>
    sk_apply (hd (H g)) (NewOperationCommand op) = Some (kv', r) \<Longrightarrow>
    sharded cfg grp (H(g := kv' # H g)) (if executes (hd (H g)) op then store_op op A else A)
      (if executes (hd (H g)) op \<and> sk_OP op \<noteq> sk_OP_GET
       then insert (sk_ClientId op, sk_CommandId op, key2shard (sk_Key op)) X else X)"
| configuration: "sharded cfg grp H A X \<Longrightarrow> g \<noteq> 0 \<Longrightarrow> s \<in> set (H g) \<Longrightarrow>
    \<forall>n. Num (query n) = n \<longrightarrow> query n = cfg n \<Longrightarrow> configurationAction query s = Some cmd \<Longrightarrow>
    sk_apply (hd (H g)) cmd = Some (kv', r) \<Longrightarrow> sharded cfg grp (H(g := kv' # H g)) A X"
| migration: "sharded cfg grp H A X \<Longrightarrow> g \<noteq> 0 \<Longrightarrow> s \<in> set (H g) \<Longrightarrow> answers H grp call \<Longrightarrow>
    migrationAction call s = Some tasks \<Longrightarrow> cmds \<in> set tasks \<Longrightarrow> cmd \<in> set cmds \<Longrightarrow>
    sk_apply (hd (H g)) cmd = Some (kv', r) \<Longrightarrow> sharded cfg grp (H(g := kv' # H g)) A X"
| collect_remote: "sharded cfg grp H A X \<Longrightarrow> h \<noteq> 0 \<Longrightarrow> s \<in> set (H h) \<Longrightarrow>
    getShardIdsByStatus s STATUS_GC = Some ids \<Longrightarrow> (servers, args) \<in> set (shard_tasks s ids) \<Longrightarrow>
    server \<in> set servers \<Longrightarrow> grp server \<noteq> 0 \<Longrightarrow> t \<in> set (H (grp server)) \<Longrightarrow> DeleteShardsData (t\<lparr>sk_rf := rf\<rparr>) args = Inr cmd \<Longrightarrow>
    sk_apply (hd (H (grp server))) cmd = Some (kv', r) \<Longrightarrow>
    sharded cfg grp (H(grp server := kv' # H (grp server))) A X"
| collect_local: "sharded cfg grp H A X \<Longrightarrow> g \<noteq> 0 \<Longrightarrow> s \<in> set (H g) \<Longrightarrow>
    gcAction call s = Some tasks \<Longrightarrow> cmds \<in> set tasks \<Longrightarrow> cmd \<in> set cmds \<Longrightarrow>
    sk_apply (hd (H g)) cmd = Some (kv', r) \<Longrightarrow> sharded cfg grp (H(g := kv' # H g)) A X"
| empty_entry: "sharded cfg grp H A X \<Longrightarrow> g \<noteq> 0 \<Longrightarrow>
    sk_apply (hd (H g)) NewEmptyEntryCommand = Some (kv', r) \<Longrightarrow> sharded cfg grp (H(g := kv' # H g)) A X"

text \<open>
  The controller's configurations: numbered in order from the initial one, complete, naming for
  a group only servers of that group; a shard that has an owner keeps having one.
\<close>

definition cfg_ok :: "(int \<Rightarrow> Config) \<Rightarrow> (string \<Rightarrow> int) \<Rightarrow> bool" where
  "cfg_ok cfg grp \<longleftrightarrow> cfg 0 = DefaultConfig \<and> (\<forall>n. Num (cfg n) = n \<and> length (Shards (cfg n)) = NShards) \<and>
     (\<forall>n\<ge>0. \<forall>i\<in>shard_ids. owner (cfg n) i \<noteq> 0 \<longrightarrow> owner (cfg (n + 1)) i \<noteq> 0) \<and>
     (\<forall>n g servers. map_of (Groups (cfg n)) g = Some servers \<longrightarrow> (\<forall>server\<in>set servers. grp server = g))"

section \<open>The invariant\<close>

text \<open>What holds of every state a group goes through.\<close>

definition local_ok :: "(int \<Rightarrow> Config) \<Rightarrow> int \<Rightarrow> ShardKV \<Rightarrow> bool" where
  "local_ok cfg g s \<longleftrightarrow> group_ok s \<and> sk_gid s = g \<and> 0 \<le> num s \<and> sk_currentConfig s = cfg (num s) \<and>
     (0 < num s \<longrightarrow> sk_lastConfig s = cfg (num s - 1)) \<and>
     (\<forall>i\<in>shard_ids.
       (status s i = STATUS_PULLING \<or> status s i = STATUS_GC \<longrightarrow>
          0 < num s \<and> owner (cfg (num s)) i = g \<and> owner (cfg (num s - 1)) i \<notin> {0, g}) \<and>
       (status s i = STATUS_BEPULLING \<longrightarrow>
          0 < num s \<and> owner (cfg (num s - 1)) i = g \<and> owner (cfg (num s)) i \<notin> {0, g}) \<and>
       (status s i \<in> {STATUS_SERVING, STATUS_PULLING, STATUS_GC, STATUS_BEPULLING}) \<and>
       (owner (cfg (num s)) i \<noteq> g \<and> status s i \<noteq> STATUS_BEPULLING \<longrightarrow> contents s i = Map.empty) \<and>
       (status s i = STATUS_PULLING \<longrightarrow> contents s i = Map.empty))"

text \<open>How a later state of a group relates to an earlier one.\<close>

definition later :: "ShardKV \<Rightarrow> ShardKV \<Rightarrow> bool" where
  "later s t \<longleftrightarrow> num s \<le> num t \<and> (num s = num t \<longrightarrow> (\<forall>i\<in>shard_ids.
     (status s i \<noteq> STATUS_PULLING \<longrightarrow> status t i \<noteq> STATUS_PULLING) \<and>
     (status s i = STATUS_SERVING \<longrightarrow> status t i = STATUS_SERVING) \<and>
     (status t i = STATUS_BEPULLING \<longrightarrow> status s i = STATUS_BEPULLING)))"

text \<open>Group \<open>g\<close> has taken over shard \<open>i\<close> under configuration \<open>m\<close>.\<close>

definition passed :: "(int \<Rightarrow> ShardKV list) \<Rightarrow> int \<Rightarrow> int \<Rightarrow> int \<Rightarrow> bool" where
  "passed H g m i \<longleftrightarrow> m < num (hd (H g)) \<or> (m = num (hd (H g)) \<and> status (hd (H g)) i \<noteq> STATUS_PULLING)"

definition histories_ok :: "(int \<Rightarrow> Config) \<Rightarrow> (int \<Rightarrow> ShardKV list) \<Rightarrow> bool" where
  "histories_ok cfg H \<longleftrightarrow> (\<forall>g. g \<noteq> 0 \<longrightarrow> H g \<noteq> [] \<and> (\<forall>s\<in>set (H g). local_ok cfg g s \<and> later s (hd (H g))))"

text \<open>When a group has taken over a shard, all earlier owners had, and they have moved on.\<close>

definition chain_ok :: "(int \<Rightarrow> Config) \<Rightarrow> (int \<Rightarrow> ShardKV list) \<Rightarrow> bool" where
  "chain_ok cfg H \<longleftrightarrow> (\<forall>i\<in>shard_ids. \<forall>m n. 0 \<le> n \<longrightarrow> n < m \<longrightarrow> owner (cfg m) i \<noteq> 0 \<longrightarrow>
     passed H (owner (cfg m) i) m i \<longrightarrow> owner (cfg n) i \<noteq> 0 \<longrightarrow>
     passed H (owner (cfg n) i) n i \<and>
     (owner (cfg (n + 1)) i \<noteq> owner (cfg n) i \<longrightarrow> n + 1 \<le> num (hd (H (owner (cfg n) i)))))"

text \<open>While a handover is pending, the old owner waits with the shard.\<close>

definition pending_ok :: "(int \<Rightarrow> Config) \<Rightarrow> (int \<Rightarrow> ShardKV list) \<Rightarrow> bool" where
  "pending_ok cfg H \<longleftrightarrow> (\<forall>i\<in>shard_ids. \<forall>m>0. owner (cfg m) i \<noteq> 0 \<longrightarrow>
     owner (cfg (m - 1)) i \<notin> {0, owner (cfg m) i} \<longrightarrow> m \<le> num (hd (H (owner (cfg (m - 1)) i))) \<longrightarrow>
     \<not> passed H (owner (cfg m) i) m i \<longrightarrow>
     num (hd (H (owner (cfg (m - 1)) i))) = m \<and> status (hd (H (owner (cfg (m - 1)) i))) i = STATUS_BEPULLING)"

text \<open>A state agrees with the single store on a shard, and it knows the shard's executed writes.\<close>

definition agrees :: "(string \<rightharpoonup> string) \<Rightarrow> (int \<times> int \<times> int) set \<Rightarrow> ShardKV \<Rightarrow> int \<Rightarrow> bool" where
  "agrees A X s i \<longleftrightarrow> (\<forall>k. key2shard k = i \<longrightarrow> contents s i k = A k) \<and>
     (\<forall>c n. (c, n, i) \<in> X \<longrightarrow> isDuplicateRequest s c n)"

definition data_ok :: "(int \<Rightarrow> Config) \<Rightarrow> (int \<Rightarrow> ShardKV list) \<Rightarrow> (string \<rightharpoonup> string) \<Rightarrow> (int \<times> int \<times> int) set \<Rightarrow> bool" where
  "data_ok cfg H A X \<longleftrightarrow> (\<forall>g i. g \<noteq> 0 \<longrightarrow> i \<in> shard_ids \<longrightarrow>
     (owner (cfg (num (hd (H g)))) i = g \<longrightarrow> status (hd (H g)) i \<noteq> STATUS_PULLING \<longrightarrow> agrees A X (hd (H g)) i) \<and>
     (status (hd (H g)) i = STATUS_BEPULLING \<longrightarrow>
      \<not> passed H (owner (cfg (num (hd (H g)))) i) (num (hd (H g))) i \<longrightarrow>
      (\<forall>s\<in>set (H g). num s = num (hd (H g)) \<longrightarrow> agrees A X s i)))"

text \<open>What has never been taken over is empty.\<close>

definition fresh_ok :: "(int \<Rightarrow> Config) \<Rightarrow> (int \<Rightarrow> ShardKV list) \<Rightarrow> (string \<rightharpoonup> string) \<Rightarrow> (int \<times> int \<times> int) set \<Rightarrow> bool" where
  "fresh_ok cfg H A X \<longleftrightarrow> (\<forall>i\<in>shard_ids. (\<exists>k. key2shard k = i \<and> A k \<noteq> None) \<or> (\<exists>c n. (c, n, i) \<in> X) \<longrightarrow>
     (\<exists>m\<ge>0. owner (cfg m) i \<noteq> 0 \<and> passed H (owner (cfg m) i) m i))"

definition system_ok :: "(int \<Rightarrow> Config) \<Rightarrow> (int \<Rightarrow> ShardKV list) \<Rightarrow> (string \<rightharpoonup> string) \<Rightarrow> (int \<times> int \<times> int) set \<Rightarrow> bool" where
  "system_ok cfg H A X \<longleftrightarrow> histories_ok cfg H \<and> chain_ok cfg H \<and> pending_ok cfg H \<and> data_ok cfg H A X \<and> fresh_ok cfg H A X"

lemma local_group: "local_ok cfg g s \<Longrightarrow> group_ok s"
  and local_gid: "local_ok cfg g s \<Longrightarrow> sk_gid s = g"
  and local_num: "local_ok cfg g s \<Longrightarrow> 0 \<le> num s"
  and local_current: "local_ok cfg g s \<Longrightarrow> sk_currentConfig s = cfg (num s)"
  and local_last: "local_ok cfg g s \<Longrightarrow> 0 < num s \<Longrightarrow> sk_lastConfig s = cfg (num s - 1)"
  unfolding local_ok_def by blast+

lemma local_taking:
  assumes "local_ok cfg g s" "i \<in> shard_ids" "status s i = STATUS_PULLING \<or> status s i = STATUS_GC"
  shows "0 < num s" "owner (cfg (num s)) i = g" "owner (cfg (num s - 1)) i \<noteq> 0" "owner (cfg (num s - 1)) i \<noteq> g"
  using assms unfolding local_ok_def by blast+

lemma local_leaving:
  assumes "local_ok cfg g s" "i \<in> shard_ids" "status s i = STATUS_BEPULLING"
  shows "0 < num s" "owner (cfg (num s - 1)) i = g" "owner (cfg (num s)) i \<noteq> 0" "owner (cfg (num s)) i \<noteq> g"
  using assms unfolding local_ok_def by blast+

lemma local_empty:
  assumes "local_ok cfg g s" "i \<in> shard_ids"
  shows "owner (cfg (num s)) i \<noteq> g \<Longrightarrow> status s i \<noteq> STATUS_BEPULLING \<Longrightarrow> contents s i = Map.empty"
    "status s i = STATUS_PULLING \<Longrightarrow> contents s i = Map.empty"
  using assms unfolding local_ok_def by blast+

lemma local_status:
  "local_ok cfg g s \<Longrightarrow> i \<in> shard_ids \<Longrightarrow> status s i \<in> {STATUS_SERVING, STATUS_PULLING, STATUS_GC, STATUS_BEPULLING}"
  unfolding local_ok_def by blast

section \<open>Owners over time\<close>

lemma owner_stays:
  assumes "cfg_ok cfg grp" "0 \<le> n" "n \<le> m" "i \<in> shard_ids" "owner (cfg n) i \<noteq> 0"
  shows "owner (cfg m) i \<noteq> 0"
  using assms(3)
proof (induction m rule: int_ge_induct)
  case (step m)
  then show ?case using assms(1,2,4) by (auto simp: cfg_ok_def)
qed (use assms in simp)

lemma handover_between:
  fixes m n :: int
  assumes "n \<le> m" "owner (cfg n) i \<noteq> owner (cfg m) i"
  shows "\<exists>k. n \<le> k \<and> k < m \<and> owner (cfg k) i = owner (cfg n) i \<and> owner (cfg (k + 1)) i \<noteq> owner (cfg k) i"
  using assms
proof (induction m rule: int_ge_induct)
  case (step m)
  show ?case
  proof (cases "owner (cfg n) i = owner (cfg m) i")
    case True
    with step show ?thesis by (intro exI [of _ m]) auto
  next
    case False
    with step.IH obtain k where "n \<le> k" "k < m" "owner (cfg k) i = owner (cfg n) i" "owner (cfg (k + 1)) i \<noteq> owner (cfg k) i"
      by blast
    then show ?thesis by (intro exI [of _ k]) auto
  qed
qed simp

lemma chain_moved:
  assumes "chain_ok cfg H" "i \<in> shard_ids" "0 \<le> m" "m < n" "owner (cfg m) i = g" "owner (cfg n) i = h" "g \<noteq> 0" "h \<noteq> 0"
    "g \<noteq> h" "passed H h n i"
  shows "m < num (hd (H g))"
proof -
  from handover_between [of m n cfg i] assms obtain k where k: "m \<le> k" "k < n" "owner (cfg k) i = g"
    "owner (cfg (k + 1)) i \<noteq> owner (cfg k) i" by auto
  with assms(1,2,3,6,7,8,10) have "k + 1 \<le> num (hd (H g))" unfolding chain_ok_def by fastforce
  with k(1) show ?thesis by simp
qed

lemma chain_passed:
  assumes "chain_ok cfg H" "i \<in> shard_ids" "0 \<le> m" "m < n" "owner (cfg m) i \<noteq> 0" "owner (cfg n) i \<noteq> 0"
    "passed H (owner (cfg n) i) n i"
  shows "passed H (owner (cfg m) i) m i"
  using assms unfolding chain_ok_def by blast

section \<open>Steps of one group\<close>

definition step_ok :: "(int \<Rightarrow> Config) \<Rightarrow> (int \<Rightarrow> ShardKV list) \<Rightarrow> int \<Rightarrow> ShardKV \<Rightarrow> bool" where
  "step_ok cfg H g kv' \<longleftrightarrow> local_ok cfg g kv' \<and> later (hd (H g)) kv' \<and>
     ((num kv' = num (hd (H g)) \<and>
       (\<forall>i\<in>shard_ids. status (hd (H g)) i = STATUS_PULLING \<longrightarrow> status kv' i \<noteq> STATUS_PULLING \<longrightarrow>
          num kv' \<le> num (hd (H (owner (cfg (num kv' - 1)) i)))) \<and>
       (\<forall>i\<in>shard_ids. status (hd (H g)) i = STATUS_BEPULLING \<longrightarrow> status kv' i \<noteq> STATUS_BEPULLING \<longrightarrow>
          passed H (owner (cfg (num kv')) i) (num kv') i)) \<or>
      (num kv' = num (hd (H g)) + 1 \<and>
       (\<forall>i\<in>shard_ids. status (hd (H g)) i = STATUS_SERVING \<and>
          status kv' i = new_status g (owner (cfg (num (hd (H g)))) i) (owner (cfg (num kv')) i) STATUS_SERVING)))"

lemma later_trans: "later s t \<Longrightarrow> later t u \<Longrightarrow> later s u"
  unfolding later_def by (smt (verit, best))

lemma later_refl [simp]: "later s s"
  by (simp add: later_def)

lemma head_local: "histories_ok cfg H \<Longrightarrow> g \<noteq> 0 \<Longrightarrow> local_ok cfg g (hd (H g))"
  by (simp add: histories_ok_def)

lemma passed_mono:
  assumes "later (hd (H g)) kv'" "passed H a m i" "i \<in> shard_ids"
  shows "passed (H(g := kv' # H g)) a m i"
proof (cases "a = g")
  case True
  with assms show ?thesis unfolding passed_def later_def by auto
qed (use assms in \<open>simp add: passed_def\<close>)

lemma num_mono: "later (hd (H g)) kv' \<Longrightarrow> num (hd (H a)) \<le> num (hd ((H(g := kv' # H g)) a))"
  by (simp add: later_def)

lemma histories_step:
  assumes "histories_ok cfg H" "step_ok cfg H g kv'"
  shows "histories_ok cfg (H(g := kv' # H g))"
proof -
  have k: "local_ok cfg g kv'" "later (hd (H g)) kv'" using assms(2) by (simp_all add: step_ok_def)
  then have "later s kv'" if "s \<in> set (H g)" "g \<noteq> 0" for s
    using assms(1) that later_trans [of s "hd (H g)" kv'] by (auto simp: histories_ok_def)
  with k assms(1) show ?thesis by (simp add: histories_ok_def)
qed

lemma newly_passed:
  assumes "step_ok cfg H g kv'" "i \<in> shard_ids" "passed (H(g := kv' # H g)) a m i" "\<not> passed H a m i"
  shows "a = g" "m = num kv'" "status kv' i \<noteq> STATUS_PULLING"
proof -
  show g: "a = g" using assms(3,4) by (auto simp: passed_def split: if_splits)
  with assms(3) have "m < num kv' \<or> m = num kv' \<and> status kv' i \<noteq> STATUS_PULLING" by (simp add: passed_def)
  moreover have "\<not> m < num kv'"
  proof
    assume l: "m < num kv'"
    with assms(4) g have "\<not> m < num (hd (H g))" "m = num (hd (H g)) \<longrightarrow> status (hd (H g)) i = STATUS_PULLING"
      by (auto simp: passed_def)
    with l assms(1,2) show False unfolding step_ok_def by fastforce
  qed
  ultimately show "m = num kv'" "status kv' i \<noteq> STATUS_PULLING" by auto
qed

lemma chain_step:
  assumes "cfg_ok cfg grp" "histories_ok cfg H" "chain_ok cfg H" "step_ok cfg H g kv'" "g \<noteq> 0"
  shows "chain_ok cfg (H(g := kv' # H g))"
proof -
  let ?H = "H(g := kv' # H g)"
  have lt: "later (hd (H g)) kv'" using assms(4) by (simp add: step_ok_def)
  note loc = head_local [OF assms(2,5)]
  have "passed H (owner (cfg n) i) n i \<and>
     (owner (cfg (n + 1)) i \<noteq> owner (cfg n) i \<longrightarrow> n + 1 \<le> num (hd (H (owner (cfg n) i))))"
    if i: "i \<in> shard_ids" and n: "0 \<le> n" "n < m" and o: "owner (cfg m) i \<noteq> 0" "owner (cfg n) i \<noteq> 0"
      and p: "passed ?H (owner (cfg m) i) m i" for i m n
  proof (cases "passed H (owner (cfg m) i) m i")
    case True
    then show ?thesis using assms(3) i n o unfolding chain_ok_def by blast
  next
    case False
    note g = newly_passed(1) [OF assms(4) i p False] and m = newly_passed(2,3) [OF assms(4) i p False]
    from n have below: "n = m - 1 \<or> n < m - 1" by auto
    have prev: ?thesis if "passed H (owner (cfg (m - 1)) i) (m - 1) i" "owner (cfg (m - 1)) i \<noteq> 0" "n < m - 1"
      using assms(3) i n o that unfolding chain_ok_def by blast
    have ne: "owner (cfg (m - 1)) i \<noteq> 0" using owner_stays [OF assms(1) n(1) _ i o(2), of "m - 1"] n(2) by simp
    show ?thesis
    proof (cases "num kv' = num (hd (H g))")
      case True
      with False m g have s: "status (hd (H g)) i = STATUS_PULLING" by (simp add: passed_def)
      with local_taking(4) [OF loc i] True m(1) have ng: "owner (cfg (m - 1)) i \<noteq> g" by simp
      have "num kv' \<le> num (hd (H (owner (cfg (num kv' - 1)) i)))"
        using assms(4) True s i m(2) unfolding step_ok_def by auto
      then have "m \<le> num (hd (H (owner (cfg (m - 1)) i)))" by (simp add: m(1))
      then have "passed H (owner (cfg (m - 1)) i) (m - 1) i" "m - 1 + 1 \<le> num (hd (H (owner (cfg (m - 1)) i)))"
        by (simp_all add: passed_def)
      with below prev ne show ?thesis by auto
    next
      case up: False
      then have m1: "num (hd (H g)) = m - 1" and st: "status (hd (H g)) i = STATUS_SERVING"
        "status kv' i = new_status g (owner (cfg (m - 1)) i) (owner (cfg m) i) STATUS_SERVING"
        using assms(4) i m(1) unfolding step_ok_def by auto
      have og: "owner (cfg (m - 1)) i = g" using st(2) m(2) ne g by (auto simp: new_status_def split: if_splits)
      have "passed H g (m - 1) i" using m1 st(1) by (simp add: passed_def)
      with below prev ne og g show ?thesis by auto
    qed
  qed
  with passed_mono [of H g kv', OF lt] num_mono [of H g kv', OF lt] show ?thesis unfolding chain_ok_def by (meson order_trans)
qed

lemma pending_step:
  assumes "histories_ok cfg H" "pending_ok cfg H" "step_ok cfg H g kv'" "g \<noteq> 0"
  shows "pending_ok cfg (H(g := kv' # H g))"
proof -
  let ?H = "H(g := kv' # H g)"
  have lt: "later (hd (H g)) kv'" using assms(3) by (simp add: step_ok_def)
  have "num (hd (?H (owner (cfg (m - 1)) i))) = m \<and> status (hd (?H (owner (cfg (m - 1)) i))) i = STATUS_BEPULLING"
    if i: "i \<in> shard_ids" and m: "m > 0" "owner (cfg m) i \<noteq> 0" "owner (cfg (m - 1)) i \<notin> {0, owner (cfg m) i}"
      "m \<le> num (hd (?H (owner (cfg (m - 1)) i)))" "\<not> passed ?H (owner (cfg m) i) m i" for i m
  proof -
    have np: "\<not> passed H (owner (cfg m) i) m i" using passed_mono [of H g kv', OF lt _ i] m(5) by blast
    have old: "num (hd (H (owner (cfg (m - 1)) i))) = m \<and> status (hd (H (owner (cfg (m - 1)) i))) i = STATUS_BEPULLING"
      if "m \<le> num (hd (H (owner (cfg (m - 1)) i)))"
      using assms(2) i m(1-3) np that unfolding pending_ok_def by blast
    show ?thesis
    proof (cases "owner (cfg (m - 1)) i = g")
      case False
      with old m(4) show ?thesis by simp
    next
      case og: True
      show ?thesis
      proof (cases "num kv' = num (hd (H g))")
        case True
        with old m(4) og have b: "num (hd (H g)) = m" "status (hd (H g)) i = STATUS_BEPULLING" by simp_all
        have "status kv' i = STATUS_BEPULLING"
          using assms(3) True b i np unfolding step_ok_def by auto
        with True b og show ?thesis by simp
      next
        case up: False
        then have n: "num kv' = num (hd (H g)) + 1" and st: "status (hd (H g)) i = STATUS_SERVING"
          "status kv' i = new_status g (owner (cfg (num (hd (H g)))) i) (owner (cfg (num kv')) i) STATUS_SERVING"
          using assms(3) i unfolding step_ok_def by auto
        have "\<not> m \<le> num (hd (H g))" using old og st(1) by auto
        with m(4) og n have mm: "m = num kv'" by simp
        then have "num (hd (H g)) = m - 1" using n by simp
        with st(2) og m(2,3) mm have "status kv' i = STATUS_BEPULLING" by (auto simp: new_status_def)
        with mm og show ?thesis by simp
      qed
    qed
  qed
  then show ?thesis unfolding pending_ok_def by blast
qed

lemma data_step:
  assumes "histories_ok cfg H" "data_ok cfg H A X" "step_ok cfg H g kv'" "g \<noteq> 0"
    and own: "\<And>i. i \<in> shard_ids \<Longrightarrow> owner (cfg (num kv')) i = g \<Longrightarrow> status kv' i \<noteq> STATUS_PULLING \<Longrightarrow> agrees A X kv' i"
    and left: "\<And>i. i \<in> shard_ids \<Longrightarrow> status kv' i = STATUS_BEPULLING \<Longrightarrow>
      \<not> passed H (owner (cfg (num kv')) i) (num kv') i \<Longrightarrow> agrees A X kv' i"
  shows "data_ok cfg (H(g := kv' # H g)) A X"
proof -
  let ?H = "H(g := kv' # H g)"
  have lt: "later (hd (H g)) kv'" using assms(3) by (simp add: step_ok_def)
  have old: "agrees A X s i"
    if "a \<noteq> 0" "i \<in> shard_ids" "status (hd (H a)) i = STATUS_BEPULLING"
      "\<not> passed ?H (owner (cfg (num (hd (H a)))) i) (num (hd (H a))) i" "s \<in> set (H a)" "num s = num (hd (H a))" for a i s
  proof -
    have "\<not> passed H (owner (cfg (num (hd (H a)))) i) (num (hd (H a))) i" using passed_mono [of H g kv', OF lt] that(2,4) by blast
    with assms(2) that show ?thesis unfolding data_ok_def by blast
  qed
  have "agrees A X s i" if g: "i \<in> shard_ids" "status kv' i = STATUS_BEPULLING"
    "\<not> passed ?H (owner (cfg (num kv')) i) (num kv') i" "s \<in> set (kv' # H g)" "num s = num kv'" for i s
  proof (cases "s = kv'")
    case True
    then show ?thesis using left [OF g(1,2)] passed_mono [of H g kv', OF lt _ g(1)] g(3) by blast
  next
    case False
    with g(4) have s: "s \<in> set (H g)" by simp
    then have "num s \<le> num (hd (H g))" using assms(1,4) by (simp add: histories_ok_def later_def)
    with g(5) assms(3) have e: "num kv' = num (hd (H g))" by (auto simp: step_ok_def)
    then have "status (hd (H g)) i = STATUS_BEPULLING" using lt g(1,2) by (simp add: later_def)
    from old [OF assms(4) g(1) this _ s] e g(3,5) show ?thesis by simp
  qed
  with own old assms(2) show ?thesis
    unfolding data_ok_def by (auto simp del: set_simps(2))
qed

lemma fresh_step:
  assumes "fresh_ok cfg H A X" "step_ok cfg H g kv'"
  shows "fresh_ok cfg (H(g := kv' # H g)) A X"
  using assms(1) passed_mono [of H g kv'] assms(2) unfolding fresh_ok_def step_ok_def by blast

lemma system_step:
  assumes "cfg_ok cfg grp" "system_ok cfg H A X" "step_ok cfg H g kv'" "g \<noteq> 0"
    and "\<And>i. i \<in> shard_ids \<Longrightarrow> owner (cfg (num kv')) i = g \<Longrightarrow> status kv' i \<noteq> STATUS_PULLING \<Longrightarrow> agrees A X kv' i"
    and "\<And>i. i \<in> shard_ids \<Longrightarrow> status kv' i = STATUS_BEPULLING \<Longrightarrow>
      \<not> passed H (owner (cfg (num kv')) i) (num kv') i \<Longrightarrow> agrees A X kv' i"
  shows "system_ok cfg (H(g := kv' # H g)) A X"
  using assms histories_step chain_step pending_step data_step fresh_step unfolding system_ok_def by metis

section \<open>Each kind of step keeps the invariant\<close>

lemma head_owned:
  assumes "system_ok cfg H A X" "g \<noteq> 0" "i \<in> shard_ids" "owner (cfg (num (hd (H g)))) i = g"
    "status (hd (H g)) i \<noteq> STATUS_PULLING"
  shows "agrees A X (hd (H g)) i"
  using assms unfolding system_ok_def data_ok_def by blast

lemma head_leaving:
  assumes "system_ok cfg H A X" "g \<noteq> 0" "i \<in> shard_ids" "status (hd (H g)) i = STATUS_BEPULLING"
    "\<not> passed H (owner (cfg (num (hd (H g)))) i) (num (hd (H g))) i" "s \<in> set (H g)" "num s = num (hd (H g))"
  shows "agrees A X s i"
  using assms unfolding system_ok_def data_ok_def by blast

lemma system_local: "system_ok cfg H A X \<Longrightarrow> g \<noteq> 0 \<Longrightarrow> s \<in> set (H g) \<Longrightarrow> local_ok cfg g s \<and> later s (hd (H g))"
  by (auto simp: system_ok_def histories_ok_def)

lemma system_head: "system_ok cfg H A X \<Longrightarrow> g \<noteq> 0 \<Longrightarrow> hd (H g) \<in> set (H g) \<and> local_ok cfg g (hd (H g)) \<and> group_ok (hd (H g))"
  using system_local [of cfg H A X g "hd (H g)"] local_group
  by (metis system_ok_def histories_ok_def list.set_sel(1))

lemma agrees_kept:
  assumes "agrees A X s i" "contents t i = contents s i" "\<And>c n. isDuplicateRequest s c n \<Longrightarrow> isDuplicateRequest t c n"
  shows "agrees A X t i"
  using assms by (auto simp: agrees_def)

text \<open>A step within a configuration that leaves the shards' contents alone, up to those it hands over.\<close>

lemma step_within:
  assumes "cfg_ok cfg grp" "system_ok cfg H A X" "g \<noteq> 0" "local_ok cfg g kv'" "num kv' = num (hd (H g))"
    and sess: "\<And>c n. isDuplicateRequest (hd (H g)) c n \<Longrightarrow> isDuplicateRequest kv' c n"
    and kept: "\<And>i. i \<in> shard_ids \<Longrightarrow>
      status kv' i = status (hd (H g)) i \<and> contents kv' i = contents (hd (H g)) i \<or>
      status (hd (H g)) i = STATUS_GC \<and> status kv' i = STATUS_SERVING \<and> contents kv' i = contents (hd (H g)) i \<or>
      status (hd (H g)) i = STATUS_BEPULLING \<and> status kv' i = STATUS_SERVING \<and> passed H (owner (cfg (num kv')) i) (num kv') i \<or>
      status (hd (H g)) i = STATUS_PULLING \<and> status kv' i = STATUS_GC \<and>
        num kv' \<le> num (hd (H (owner (cfg (num kv' - 1)) i))) \<and> agrees A X kv' i"
  shows "system_ok cfg (H(g := kv' # H g)) A X"
proof (rule system_step [OF assms(1,2) _ assms(3)])
  have "later (hd (H g)) kv'"
    unfolding later_def
  proof (intro conjI impI ballI)
    fix i assume i: "i \<in> shard_ids"
    show "status (hd (H g)) i \<noteq> STATUS_PULLING \<Longrightarrow> status kv' i \<noteq> STATUS_PULLING" using kept [OF i] by auto
    show "status (hd (H g)) i = STATUS_SERVING \<Longrightarrow> status kv' i = STATUS_SERVING" using kept [OF i] by auto
    show "status kv' i = STATUS_BEPULLING \<Longrightarrow> status (hd (H g)) i = STATUS_BEPULLING" using kept [OF i] by auto
  qed (simp add: assms(5))
  moreover have "num kv' \<le> num (hd (H (owner (cfg (num kv' - 1)) i)))"
    if "i \<in> shard_ids" "status (hd (H g)) i = STATUS_PULLING" "status kv' i \<noteq> STATUS_PULLING" for i
    using kept [OF that(1)] that(2,3) by auto
  moreover have "passed H (owner (cfg (num kv')) i) (num kv') i"
    if "i \<in> shard_ids" "status (hd (H g)) i = STATUS_BEPULLING" "status kv' i \<noteq> STATUS_BEPULLING" for i
    using kept [OF that(1)] that(2,3) by auto
  ultimately show "step_ok cfg H g kv'" using assms(4,5) unfolding step_ok_def by blast
next
  fix i assume i: "i \<in> shard_ids" "owner (cfg (num kv')) i = g" "status kv' i \<noteq> STATUS_PULLING"
  show "agrees A X kv' i"
  proof (cases "status (hd (H g)) i = STATUS_PULLING")
    case True
    with kept [OF i(1)] i(3) show ?thesis by auto
  next
    case False
    have "status (hd (H g)) i \<noteq> STATUS_BEPULLING"
      using local_leaving(4) [of cfg g "hd (H g)" i] system_head [OF assms(2,3)] i assms(5) by auto
    with False kept [OF i(1)] have c: "contents kv' i = contents (hd (H g)) i" by auto
    have "agrees A X (hd (H g)) i" using head_owned [OF assms(2,3) i(1) _ False] i(2) assms(5) by simp
    with c sess show ?thesis using agrees_kept by blast
  qed
next
  fix i assume i: "i \<in> shard_ids" "status kv' i = STATUS_BEPULLING" "\<not> passed H (owner (cfg (num kv')) i) (num kv') i"
  with kept [OF i(1)] have k: "status (hd (H g)) i = STATUS_BEPULLING" "contents kv' i = contents (hd (H g)) i" by auto
  have "agrees A X (hd (H g)) i"
    using head_leaving [OF assms(2,3) i(1) k(1)] i(3) assms(5) system_head [OF assms(2,3)] by auto
  with k(2) sess show "agrees A X kv' i" using agrees_kept by blast
qed

lemma step_none:
  assumes "cfg_ok cfg grp" "system_ok cfg H A X" "g \<noteq> 0" "kv' = hd (H g)"
  shows "system_ok cfg (H(g := kv' # H g)) A X"
  using system_head [OF assms(2,3)] by (intro step_within [OF assms(1-3)]) (auto simp: assms(4))

text \<open>What a new configuration does to a group that serves all its shards.\<close>

definition advanced :: "(int \<Rightarrow> Config) \<Rightarrow> int \<Rightarrow> ShardKV \<Rightarrow> ShardKV \<Rightarrow> bool" where
  "advanced cfg g s kv' \<longleftrightarrow> group_ok kv' \<and> sk_gid kv' = g \<and> num kv' = num s + 1 \<and>
     sk_currentConfig kv' = cfg (num s + 1) \<and> sk_lastConfig kv' = cfg (num s) \<and>
     sk_lastOperations kv' = sk_lastOperations s \<and>
     (\<forall>i\<in>shard_ids. status s i = STATUS_SERVING \<and> contents kv' i = contents s i \<and>
        status kv' i = new_status g (owner (cfg (num s)) i) (owner (cfg (num s + 1)) i) STATUS_SERVING)"

lemma advanced_shard:
  assumes "advanced cfg g s kv'" "i \<in> shard_ids"
  shows "status s i = STATUS_SERVING" "contents kv' i = contents s i"
    "status kv' i = new_status g (owner (cfg (num s)) i) (owner (cfg (num s + 1)) i) STATUS_SERVING"
  using assms by (simp_all add: advanced_def)

lemma advanced_num: "advanced cfg g s kv' \<Longrightarrow> num kv' = num s + 1"
  unfolding advanced_def by blast

lemma configuration_advances:
  assumes "cfg_ok cfg grp" "local_ok cfg g t" "later t s" "num t = num s" "all_serving (sk_stateMachines t)"
    and loc: "local_ok cfg g s" and a: "applyConfiguration s (cfg (num s + 1)) = Some (kv', r)"
  shows "advanced cfg g s kv'"
proof -
  have c: "Num (cfg n) = n" "length (Shards (cfg n)) = NShards" for n using assms(1) by (simp_all add: cfg_ok_def)
  have all: "status s i = STATUS_SERVING" if "i \<in> shard_ids" for i
    using all_serving_status [OF local_group [OF assms(2)] assms(5) that] assms(3,4) that unfolding later_def by blast
  from applyConfiguration_advances [of s "cfg (num s + 1)"] local_group [OF loc] c a
  have "group_ok kv'" "sk_gid kv' = sk_gid s" "sk_currentConfig kv' = cfg (num s + 1)" "sk_lastConfig kv' = sk_currentConfig s"
    "sk_lastOperations kv' = sk_lastOperations s"
    "\<And>i. i \<in> shard_ids \<Longrightarrow> contents kv' i = contents s i \<and>
      status kv' i = new_status (sk_gid s) (owner (sk_currentConfig s) i) (owner (cfg (num s + 1)) i) (status s i)"
    by auto
  moreover have "sk_gid s = g" "sk_currentConfig s = cfg (num s)" using loc local_gid local_current by blast+
  ultimately show ?thesis using all c by (simp add: advanced_def)
qed

lemma serving_empty:
  assumes "local_ok cfg g s" "i \<in> shard_ids" "status s i = STATUS_SERVING" "owner (cfg (num s)) i \<noteq> g"
  shows "contents s i = Map.empty"
  using local_empty(1) [OF assms(1,2)] assms(3,4) by simp

lemma advanced_local:
  assumes "cfg_ok cfg grp" "g \<noteq> 0" and loc: "local_ok cfg g s" and ad: "advanced cfg g s kv'"
  shows "local_ok cfg g kv'"
  unfolding local_ok_def
proof (intro conjI ballI)
  have m: "0 \<le> num s" using local_num [OF loc] .
  note n = advanced_num [OF ad]
  fix i assume i: "i \<in> shard_ids"
  note st = advanced_shard(3) [OF ad i] and ct = advanced_shard(2) [OF ad i]
  note empty = serving_empty [OF loc i advanced_shard(1) [OF ad i]]
  have stays: "owner (cfg (num s + 1)) i \<noteq> 0" if "owner (cfg (num s)) i \<noteq> 0"
    using assms(1) that i m by (simp add: cfg_ok_def)
  show "status kv' i \<in> {STATUS_SERVING, STATUS_PULLING, STATUS_GC, STATUS_BEPULLING}" by (simp add: st new_status_def)
  show "owner (cfg (num kv')) i \<noteq> g \<and> status kv' i \<noteq> STATUS_BEPULLING \<longrightarrow> contents kv' i = Map.empty"
    using empty stays ct assms(2) unfolding st n by (auto simp: new_status_def split: if_splits)
  show "status kv' i = STATUS_PULLING \<longrightarrow> contents kv' i = Map.empty"
    using empty ct unfolding st by (auto simp: new_status_def split: if_splits)
  show "status kv' i = STATUS_PULLING \<or> status kv' i = STATUS_GC \<longrightarrow>
      0 < num kv' \<and> owner (cfg (num kv')) i = g \<and> owner (cfg (num kv' - 1)) i \<notin> {0, g}"
    using m unfolding st n by (auto simp: new_status_def split: if_splits)
  show "status kv' i = STATUS_BEPULLING \<longrightarrow>
      0 < num kv' \<and> owner (cfg (num kv' - 1)) i = g \<and> owner (cfg (num kv')) i \<notin> {0, g}"
    using m unfolding st n by (auto simp: new_status_def split: if_splits)
qed (use ad local_num [OF loc] in \<open>auto simp: advanced_def\<close>)

lemma advanced_agrees:
  assumes "advanced cfg g s kv'" "i \<in> shard_ids" "agrees A X s i"
  shows "agrees A X kv' i"
  using assms agrees_kept [of A X s i kv'] by (auto simp: advanced_def isDuplicateRequest_def)

text \<open>A shard that no group owned so far holds nothing in the reference store.\<close>

lemma unowned_unused:
  assumes "cfg_ok cfg grp" "system_ok cfg H A X" "g \<noteq> 0" "i \<in> shard_ids" "0 \<le> num (hd (H g))"
    "owner (cfg (num (hd (H g)))) i = 0" "owner (cfg (num (hd (H g)) + 1)) i = g"
  shows "\<not> ((\<exists>k. key2shard k = i \<and> A k \<noteq> None) \<or> (\<exists>c n. (c, n, i) \<in> X))"
proof
  let ?m = "num (hd (H g))"
  assume "(\<exists>k. key2shard k = i \<and> A k \<noteq> None) \<or> (\<exists>c n. (c, n, i) \<in> X)"
  with assms(2,4) obtain m where m: "0 \<le> m" "owner (cfg m) i \<noteq> 0" "passed H (owner (cfg m) i) m i"
    unfolding system_ok_def fresh_ok_def by blast
  have "\<not> m \<le> ?m" using owner_stays [OF assms(1) m(1) _ assms(4) m(2)] assms(6) by blast
  then consider "m = ?m + 1" | "?m + 1 < m" by linarith
  then have "passed H g (?m + 1) i"
  proof cases
    case 2
    then show ?thesis using chain_passed [of cfg H i "?m + 1" m] assms m by (simp add: system_ok_def)
  qed (use m assms(7) in auto)
  then show False by (simp add: passed_def)
qed

lemma step_advanced:
  assumes "cfg_ok cfg grp" "system_ok cfg H A X" "g \<noteq> 0" and ad: "advanced cfg g (hd (H g)) kv'"
  shows "system_ok cfg (H(g := kv' # H g)) A X"
proof (rule system_step [OF assms(1,2) _ assms(3)])
  let ?s = "hd (H g)"
  have loc: "local_ok cfg g ?s" using system_head [OF assms(2,3)] by blast
  note n = advanced_num [OF ad] and sh = advanced_shard [OF ad]
  have owned: "agrees A X kv' i" if "i \<in> shard_ids" "owner (cfg (num ?s)) i = g" for i
    using advanced_agrees [OF ad that(1)] head_owned [OF assms(2,3) that] sh(1) [OF that(1)] by simp
  show "step_ok cfg H g kv'"
    unfolding step_ok_def later_def using advanced_local [OF assms(1,3) loc ad] n sh by auto
  fix i assume i: "i \<in> shard_ids"
  show "agrees A X kv' i" if "owner (cfg (num kv')) i = g" "status kv' i \<noteq> STATUS_PULLING"
  proof (cases "owner (cfg (num ?s)) i = g")
    case False
    with that sh(3) [OF i] n assms(3) have z: "owner (cfg (num ?s)) i = 0" by (auto simp: new_status_def split: if_splits)
    moreover have "contents kv' i = Map.empty" using serving_empty [OF loc i sh(1) [OF i] False] sh(2) [OF i] by simp
    ultimately show ?thesis using unowned_unused [OF assms(1-3) i local_num [OF loc]] that(1) n by (auto simp: agrees_def)
  qed (rule owned [OF i])
  show "agrees A X kv' i" if "status kv' i = STATUS_BEPULLING"
    using owned [OF i] that sh(3) [OF i] by (auto simp: new_status_def split: if_splits)
qed

lemma step_configuration:
  assumes "cfg_ok cfg grp" "system_ok cfg H A X" "g \<noteq> 0" "s \<in> set (H g)"
    "\<forall>n. Num (query n) = n \<longrightarrow> query n = cfg n" "configurationAction query s = Some cmd"
    "sk_apply (hd (H g)) cmd = Some (kv', r)"
  shows "system_ok cfg (H(g := kv' # H g)) A X"
proof -
  let ?s = "hd (H g)"
  from assms(6) have serving: "all_serving (sk_stateMachines s)"
    and "Num (query (num s + 1)) = num s + 1" "cmd = NewConfigurationCommand (query (num s + 1))"
    by (auto simp: configurationAction_def Let_def split: if_splits)
  with assms(5) have "cmd = NewConfigurationCommand (cfg (num s + 1))" by simp
  with assms(7) obtain r' where a: "applyConfiguration ?s (cfg (num s + 1)) = Some (kv', r')"
    by (auto simp: sk_apply_def NewConfigurationCommand_def)
  show ?thesis
  proof (cases "num s = num ?s")
    case False
    with a assms(1) have "kv' = ?s" by (auto simp: applyConfiguration_def cfg_ok_def)
    then show ?thesis by (rule step_none [OF assms(1-3)])
  next
    case True
    have "advanced cfg g ?s kv'"
      using configuration_advances [OF assms(1) _ _ True serving] a True system_head [OF assms(2,3)] system_local [OF assms(2-4)] by metis
    then show ?thesis by (rule step_advanced [OF assms(1-3)])
  qed
qed

lemma local_within:
  assumes "local_ok cfg g s" "group_ok t" "sk_gid t = sk_gid s" "sk_currentConfig t = sk_currentConfig s"
    "sk_lastConfig t = sk_lastConfig s"
    and kept: "\<And>i. i \<in> shard_ids \<Longrightarrow>
      status t i = status s i \<and> contents t i = contents s i \<or>
      status s i = STATUS_GC \<and> status t i = STATUS_SERVING \<and> contents t i = contents s i \<or>
      status s i = STATUS_BEPULLING \<and> status t i = STATUS_SERVING \<and> contents t i = Map.empty \<or>
      status s i = STATUS_PULLING \<and> status t i = STATUS_GC \<or>
      status t i = status s i \<and> status s i \<noteq> STATUS_PULLING \<and> owner (cfg (num s)) i = g"
  shows "local_ok cfg g t"
  unfolding local_ok_def
proof (intro conjI ballI)
  have n: "num t = num s" by (simp add: assms(4))
  show "group_ok t" "sk_gid t = g" "0 \<le> num t" "0 < num t \<longrightarrow> sk_lastConfig t = cfg (num t - 1)"
    using assms(2,3,5) local_gid [OF assms(1)] local_num [OF assms(1)] local_last [OF assms(1)] n by auto
  show "sk_currentConfig t = cfg (num t)" unfolding n assms(4) by (rule local_current [OF assms(1)])
  fix i assume i: "i \<in> shard_ids"
  note k = kept [OF i] and l = local_taking [OF assms(1) i] local_leaving [OF assms(1) i]
    and e = local_empty [OF assms(1) i]
  show "status t i = STATUS_PULLING \<or> status t i = STATUS_GC \<longrightarrow>
      0 < num t \<and> owner (cfg (num t)) i = g \<and> owner (cfg (num t - 1)) i \<notin> {0, g}"
    unfolding n using k l by auto
  show "status t i = STATUS_BEPULLING \<longrightarrow> 0 < num t \<and> owner (cfg (num t - 1)) i = g \<and> owner (cfg (num t)) i \<notin> {0, g}"
    unfolding n using k l by auto
  show "status t i \<in> {STATUS_SERVING, STATUS_PULLING, STATUS_GC, STATUS_BEPULLING}"
    using k local_status [OF assms(1) i] by auto
  show "owner (cfg (num t)) i \<noteq> g \<and> status t i \<noteq> STATUS_BEPULLING \<longrightarrow> contents t i = Map.empty"
    unfolding n using k l e by auto
  show "status t i = STATUS_PULLING \<longrightarrow> contents t i = Map.empty" using k e by auto
qed

text \<open>The shards a background action asks for, and whom it asks.\<close>

lemma shardIds_spec:
  assumes "cfg_ok cfg grp" "local_ok cfg g s" "getShardIdsByStatus s st = Some m" "(servers, args) \<in> set (shard_tasks s m)"
    "st = STATUS_PULLING \<or> st = STATUS_GC" "i \<in> set (soa_ShardIds args)"
  shows "i \<in> shard_ids \<and> status s i = st \<and> owner (cfg (num s - 1)) i \<noteq> 0 \<and>
    (\<forall>server\<in>set servers. grp server = owner (cfg (num s - 1)) i)"
proof -
  from assms(4) obtain gid ids where t: "(gid, ids) \<in> set m"
    "servers = (case map_of (Groups (sk_lastConfig s)) gid of Some servers \<Rightarrow> servers | None \<Rightarrow> [])" "soa_ShardIds args = ids"
    by (auto simp: shard_tasks_def)
  have "distinct (map fst m)"
    using shardIds_loop_distinct [of _ _ _ "[]" m] assms(3) by (simp add: getShardIdsByStatus_def)
  with t(1) have "map_of m gid = Some ids" by simp
  with shardIds_loop_effect [of "Shards (sk_lastConfig s)" st "sk_stateMachines s" "[]" m gid ids i] assms(3,6) t(3)
  obtain sh where sh: "(i, sh) \<in> set (sk_stateMachines s)" "sh_Status sh = st" "idx (Shards (sk_lastConfig s)) i = Some gid" "gid \<noteq> 0"
    by (auto simp: getShardIdsByStatus_def)
  have ok: "shards_ok (sk_stateMachines s)" "length (Shards (sk_lastConfig s)) = NShards"
    using local_group [OF assms(2)] by (simp_all add: group_ok_def)
  from sh(1) ok(1) have m: "shard s i = Some sh" by (simp add: shards_ok_def)
  then have i: "i \<in> shard_ids" using shards_ok_lookup [OF ok(1), of i] by simp
  from m sh(2) have st: "status s i = st" by (simp add: status_def)
  then have last: "sk_lastConfig s = cfg (num s - 1)"
    using local_taking(1) [OF assms(2) i] local_last [OF assms(2)] assms(5) by blast
  have gid: "gid = owner (cfg (num s - 1)) i" using sh(3) idx_shards [OF ok(2) i] by (simp add: last)
  have "grp server = gid" if "server \<in> set servers" for server
    using assms(1) t(2) that unfolding last cfg_ok_def by (auto split: option.splits)
  with i st sh(4) gid show ?thesis by simp
qed

lemma shard_tasks_num: "(servers, args) \<in> set (shard_tasks s m) \<Longrightarrow> soa_ConfigNum args = num s"
  by (auto simp: shard_tasks_def)

lemma pull_task_mem:
  "cmd \<in> set (pull_task call args servers) \<Longrightarrow>
   \<exists>server\<in>set servers. \<exists>reply. call server args = Some reply \<and> sor_Err reply = OK \<and> cmd = NewInsertShardsCommand reply"
  by (induction servers) (auto split: option.splits if_splits)

lemma gc_task_mem: "cmd \<in> set (gc_task call args servers) \<Longrightarrow> cmd = NewDeleteShardsCommand args \<and> servers \<noteq> []"
  by (induction servers) (auto split: option.splits if_splits)

lemma GetShardsData_OK:
  assumes "GetShardsData kv args = Some reply" "sor_Err reply = OK"
  shows "soa_ConfigNum args \<le> num kv" "sor_ConfigNum reply = soa_ConfigNum args"
    "(i, d) \<in> set (sor_Shards reply) \<Longrightarrow> i \<in> set (soa_ShardIds args) \<and> d = contents kv i"
    "isDuplicateRequest kv c n \<Longrightarrow> \<exists>op. (c, op) \<in> set (sor_LastOperations reply) \<and> n \<le> sk_MaxAppliedCommandId op"
proof -
  obtain t l where gs: "GetState (sk_rf kv) = (t, l)" by (cases "GetState (sk_rf kv)")
  from assms gs have l: "l" "\<not> num kv < soa_ConfigNum args"
    by (auto simp: GetShardsData_def no_shards_def split: if_splits)
  with assms(1) gs obtain shards where sh: "copy_shards (sk_stateMachines kv) (soa_ShardIds args) [] = Some shards"
    "reply = \<lparr>sor_Err = OK, sor_ConfigNum = soa_ConfigNum args, sor_Shards = shards,
       sor_LastOperations = map (\<lambda>(clientId, operation). (clientId, oi_dcopy operation)) (sk_lastOperations kv)\<rparr>"
    by (auto simp: GetShardsData_def bind_Some_iff)
  show "soa_ConfigNum args \<le> num kv" "sor_ConfigNum reply = soa_ConfigNum args" using l sh by auto
  show "i \<in> set (soa_ShardIds args) \<and> d = contents kv i" if "(i, d) \<in> set (sor_Shards reply)"
    using copy_shards_effect [OF sh(1), of i d] that by (auto simp: sh(2) contents_def)
  show "\<exists>op. (c, op) \<in> set (sor_LastOperations reply) \<and> n \<le> sk_MaxAppliedCommandId op" if "isDuplicateRequest kv c n"
  proof -
    from that obtain info where "map_of (sk_lastOperations kv) c = Some info" "n \<le> sk_MaxAppliedCommandId info"
      by (auto simp: isDuplicateRequest_def split: option.splits)
    then show ?thesis by (intro exI [of _ "oi_dcopy info"]) (force simp: sh(2) oi_dcopy_def dest: map_of_SomeD)
  qed
qed

text \<open>A shard that arrives carries the data and the sessions the reference store has for it.\<close>

lemma shard_arrives:
  assumes "system_ok cfg H A X" "g \<noteq> 0" "src \<in> set (H (owner (cfg (n - 1)) i))" "n \<le> num src"
    and i: "i \<in> shard_ids" and t: "num (hd (H g)) = n" "status (hd (H g)) i = STATUS_PULLING"
    and o: "owner (cfg (n - 1)) i \<noteq> 0"
    and kv: "num kv' = n" "contents kv' i = contents (hd (H g)) i ++ contents src i"
      "\<And>c q. isDuplicateRequest src c q \<Longrightarrow> isDuplicateRequest kv' c q"
  shows "num kv' \<le> num (hd (H (owner (cfg (num kv' - 1)) i))) \<and> agrees A X kv' i"
proof -
  let ?s = "hd (H g)" and ?o = "owner (cfg (n - 1)) i"
  have loc: "local_ok cfg g ?s" using system_head [OF assms(1,2)] by blast
  have lp: "0 < n" "owner (cfg n) i = g" "?o \<noteq> g" using local_taking [OF loc i] t by auto
  have ls: "later src (hd (H ?o))" using system_local [OF assms(1) o assms(3)] by simp
  then have le: "n \<le> num (hd (H ?o))" using assms(4) by (simp add: later_def)
  have np: "\<not> passed H g n i" using t by (simp add: passed_def)
  have "num (hd (H ?o)) = n \<and> status (hd (H ?o)) i = STATUS_BEPULLING"
    using assms(1,2) i lp o le np unfolding system_ok_def pending_ok_def by blast
  moreover from this have "num src = num (hd (H ?o))" using ls assms(4) by (simp add: later_def)
  ultimately have "agrees A X src i" using head_leaving [OF assms(1) o i, of src] np lp(2) assms(3) by simp
  moreover have "contents kv' i = contents src i" using local_empty(2) [OF loc i t(2)] kv(2) by simp
  ultimately have "agrees A X kv' i" using agrees_kept kv(3) by blast
  with le kv(1) show ?thesis by simp
qed

lemma step_migration:
  assumes "cfg_ok cfg grp" "system_ok cfg H A X" "g \<noteq> 0" "s \<in> set (H g)" "answers H grp call"
    "migrationAction call s = Some tasks" "cmds \<in> set tasks" "cmd \<in> set cmds" "sk_apply (hd (H g)) cmd = Some (kv', r)"
  shows "system_ok cfg (H(g := kv' # H g)) A X"
proof -
  let ?s = "hd (H g)"
  from assms(6,7) obtain m servers args where t: "getShardIdsByStatus s STATUS_PULLING = Some m"
    "(servers, args) \<in> set (shard_tasks s m)" "cmds = pull_task call args servers"
    by (auto simp: migrationAction_def bind_Some_iff)
  from pull_task_mem [of cmd call args servers] assms(8) t(3) obtain server reply where
    c: "server \<in> set servers" "call server args = Some reply" "sor_Err reply = OK" "cmd = NewInsertShardsCommand reply" by blast
  from assms(5) c(2) obtain src rf where src: "src \<in> set (H (grp server))" "GetShardsData (src\<lparr>sk_rf := rf\<rparr>) args = Some reply"
    unfolding answers_def by blast
  note d = GetShardsData_OK [OF src(2) c(3), simplified]
  have nums: "sor_ConfigNum reply = num s" "num s \<le> num src" using d(1,2) shard_tasks_num [OF t(2)] by simp_all
  from assms(9) c(4) obtain r' where ins: "applyInsertShards ?s reply = Some (kv', r')"
    by (auto simp: sk_apply_def NewInsertShardsCommand_def)
  note loc = system_head [OF assms(2,3)] and locs = system_local [OF assms(2-4)]
  note ef = applyInsertShards_effect [OF ins conjunct2 [OF conjunct2 [OF loc]]]
  have k: "status kv' i = status ?s i \<and> contents kv' i = contents ?s i \<or>
      status ?s i = STATUS_PULLING \<and> status kv' i = STATUS_GC \<and>
        num kv' \<le> num (hd (H (owner (cfg (num kv' - 1)) i))) \<and> agrees A X kv' i" if i: "i \<in> shard_ids" for i
  proof (cases "shard kv' i = shard ?s i")
    case False
    with ef(5) [OF i] obtain dd where st: "sor_ConfigNum reply = num ?s" "status ?s i = STATUS_PULLING" "status kv' i = STATUS_GC"
      and dd: "(i, dd) \<in> set (sor_Shards reply)" "contents kv' i = contents ?s i ++ dd" by blast
    from d(3) [OF dd(1)] have ii: "i \<in> set (soa_ShardIds args)" "dd = contents src i" by (auto simp: contents_def)
    have o: "owner (cfg (num s - 1)) i \<noteq> 0" "grp server = owner (cfg (num s - 1)) i"
      using shardIds_spec [OF assms(1) conjunct1 [OF locs] t(1,2) disjI1 [OF refl] ii(1)] c(1) by simp_all
    have "isDuplicateRequest kv' c q" if "isDuplicateRequest src c q" for c q
      using d(4) [of c q] that ef(6) [of c q] st(1) by (simp add: isDuplicateRequest_def)
    with shard_arrives [OF assms(2,3) _ nums(2) i _ st(2) o(1), of kv'] src(1) o(2) nums(1) ef(3) st dd(2) ii(2)
    show ?thesis by simp
  qed (simp add: status_def contents_def)
  show ?thesis
  proof (rule step_within [OF assms(1-3)])
    show "local_ok cfg g kv'"
      by (rule local_within [of cfg g ?s]) (use loc ef(1-4) k in blast)+
    show "num kv' = num ?s" by (simp add: ef(3))
  qed (use k ef(6) in blast)+
qed

lemma step_delete:
  assumes "cfg_ok cfg grp" "system_ok cfg H A X" "g \<noteq> 0" "sk_apply (hd (H g)) (NewDeleteShardsCommand args) = Some (kv', r)"
    and moved: "\<And>i. i \<in> shard_ids \<Longrightarrow> soa_ConfigNum args = num (hd (H g)) \<Longrightarrow> i \<in> set (soa_ShardIds args) \<Longrightarrow>
      status (hd (H g)) i = STATUS_BEPULLING \<Longrightarrow> passed H (owner (cfg (num (hd (H g)))) i) (num (hd (H g))) i"
  shows "system_ok cfg (H(g := kv' # H g)) A X"
proof -
  let ?s = "hd (H g)"
  from assms(4) obtain r' where del: "applyDeleteShards ?s args = Some (kv', r')"
    by (auto simp: sk_apply_def NewDeleteShardsCommand_def)
  note loc = system_head [OF assms(2,3)]
  note ef = applyDeleteShards_effect [OF del conjunct2 [OF conjunct2 [OF loc]]]
  have n: "num kv' = num ?s" by (simp add: ef(3))
  have k: "status kv' i = status ?s i \<and> contents kv' i = contents ?s i \<or>
      status ?s i = STATUS_GC \<and> status kv' i = STATUS_SERVING \<and> contents kv' i = contents ?s i \<or>
      status ?s i = STATUS_BEPULLING \<and> status kv' i = STATUS_SERVING \<and> contents kv' i = Map.empty \<and>
        passed H (owner (cfg (num kv')) i) (num kv') i" if i: "i \<in> shard_ids" for i
    using ef(6) [of i]
  proof
    assume "shard kv' i = shard ?s i"
    then show ?thesis by (simp add: status_def contents_def)
  qed (use moved [OF i] n in auto)
  show ?thesis
  proof (rule step_within [OF assms(1-3) _ n])
    show "local_ok cfg g kv'"
      by (rule local_within [of cfg g ?s]) (use loc ef(1-4) k in blast)+
  qed (use k ef(5) in \<open>auto simp: isDuplicateRequest_def\<close>)
qed

lemma gc_passed:
  assumes "system_ok cfg H A X" "h \<noteq> 0" "s \<in> set (H h)" "i \<in> shard_ids" "status s i = STATUS_GC"
  shows "passed H (owner (cfg (num s)) i) (num s) i" "owner (cfg (num s)) i = h"
proof -
  note l = system_local [OF assms(1-3)]
  from l local_taking(2) [of cfg h s i] assms(4,5) show o: "owner (cfg (num s)) i = h" by blast
  have "later s (hd (H h))" using l by blast
  then have "num s < num (hd (H h)) \<or> num s = num (hd (H h)) \<and> status (hd (H h)) i \<noteq> STATUS_PULLING"
    using assms(4,5) unfolding later_def by fastforce
  then show "passed H (owner (cfg (num s)) i) (num s) i" unfolding o passed_def by blast
qed

lemma step_collect_remote:
  assumes "cfg_ok cfg grp" "system_ok cfg H A X" "h \<noteq> 0" "s \<in> set (H h)" "getShardIdsByStatus s STATUS_GC = Some ids"
    "(servers, args) \<in> set (shard_tasks s ids)" "server \<in> set servers" "grp server \<noteq> 0"
    "DeleteShardsData t args = Inr cmd" "sk_apply (hd (H (grp server))) cmd = Some (kv', r)"
  shows "system_ok cfg (H(grp server := kv' # H (grp server))) A X"
proof (rule step_delete [OF assms(1,2,8)])
  have "cmd = NewDeleteShardsCommand args" using assms(9) by (auto simp: DeleteShardsData_def split: prod.splits if_splits)
  with assms(10) show "sk_apply (hd (H (grp server))) (NewDeleteShardsCommand args) = Some (kv', r)" by simp
  fix i assume i: "i \<in> shard_ids" "soa_ConfigNum args = num (hd (H (grp server)))" "i \<in> set (soa_ShardIds args)"
  have "status s i = STATUS_GC"
    using shardIds_spec [OF assms(1) conjunct1 [OF system_local [OF assms(2-4)]] assms(5,6) disjI2 [OF refl] i(3)] by blast
  from gc_passed(1) [OF assms(2-4) i(1) this] shard_tasks_num [OF assms(6)] i(2)
  show "passed H (owner (cfg (num (hd (H (grp server))))) i) (num (hd (H (grp server)))) i" by simp
qed

lemma step_collect_local:
  assumes "cfg_ok cfg grp" "system_ok cfg H A X" "g \<noteq> 0" "s \<in> set (H g)" "gcAction call s = Some tasks" "cmds \<in> set tasks"
    "cmd \<in> set cmds" "sk_apply (hd (H g)) cmd = Some (kv', r)"
  shows "system_ok cfg (H(g := kv' # H g)) A X"
proof -
  from assms(5,6) obtain m servers args where t: "getShardIdsByStatus s STATUS_GC = Some m"
    "(servers, args) \<in> set (shard_tasks s m)" "cmds = gc_task call args servers"
    by (auto simp: gcAction_def bind_Some_iff)
  from gc_task_mem [of cmd call args servers] assms(7) t(3) have cmd: "cmd = NewDeleteShardsCommand args" by blast
  show ?thesis
  proof (rule step_delete [OF assms(1-3) assms(8) [unfolded cmd]])
    fix i assume i: "i \<in> shard_ids" "soa_ConfigNum args = num (hd (H g))" "i \<in> set (soa_ShardIds args)"
      "status (hd (H g)) i = STATUS_BEPULLING"
    have "status s i = STATUS_GC"
      using shardIds_spec [OF assms(1) conjunct1 [OF system_local [OF assms(2-4)]] t(1,2) disjI2 [OF refl] i(3)] by blast
    from gc_passed(2) [OF assms(2-4) i(1) this] shard_tasks_num [OF t(2)] i(2) have "owner (cfg (num (hd (H g)))) i = g" by simp
    moreover have "owner (cfg (num (hd (H g)))) i \<noteq> g"
      using local_leaving(4) [OF _ i(1,4)] system_head [OF assms(2,3)] by blast
    ultimately show "passed H (owner (cfg (num (hd (H g)))) i) (num (hd (H g))) i" by blast
  qed
qed

lemma store_op_local:
  "key2shard k \<noteq> key2shard (sk_Key op) \<Longrightarrow> store_op op m k = m k"
  by (auto simp: store_op_def)

lemma store_op_cong:
  assumes "\<And>k. key2shard k = key2shard (sk_Key op) \<Longrightarrow> m k = m' k" "key2shard k = key2shard (sk_Key op)"
  shows "store_op op m k = store_op op m' k"
  using assms(1) [of "sk_Key op"] assms(1) [OF assms(2)] by (simp add: store_op_def)

lemma served_status:
  assumes "local_ok cfg g s" "served s op"
  shows "owner (cfg (num s)) (key2shard (sk_Key op)) = g" "status s (key2shard (sk_Key op)) \<noteq> STATUS_PULLING"
    "status s (key2shard (sk_Key op)) \<noteq> STATUS_BEPULLING"
proof -
  have e: "owner (sk_currentConfig s) (key2shard (sk_Key op)) = sk_gid s \<and>
    (status s (key2shard (sk_Key op)) = STATUS_SERVING \<or> status s (key2shard (sk_Key op)) = STATUS_GC)"
    using assms(2) canServer_eq [OF local_group [OF assms(1)] key2shard_range, of "sk_Key op"] by (simp add: served_def)
  then show "status s (key2shard (sk_Key op)) \<noteq> STATUS_PULLING" "status s (key2shard (sk_Key op)) \<noteq> STATUS_BEPULLING" by auto
  have "owner (sk_currentConfig s) (key2shard (sk_Key op)) = g" using e local_gid [OF assms(1)] by simp
  then show "owner (cfg (num s)) (key2shard (sk_Key op)) = g" using local_current [OF assms(1)] by metis
qed

text \<open>Two groups that have both taken over a shard under their current configurations are one.\<close>

lemma holder_unique:
  assumes "system_ok cfg H A X" "i \<in> shard_ids" "g \<noteq> 0" "h \<noteq> 0"
    "owner (cfg (num (hd (H g)))) i = g" "status (hd (H g)) i \<noteq> STATUS_PULLING"
    "owner (cfg (num (hd (H h)))) i = h" "status (hd (H h)) i \<noteq> STATUS_PULLING"
  shows "g = h"
proof (rule ccontr)
  assume ne: "g \<noteq> h"
  have ch: "chain_ok cfg H" using assms(1) by (simp add: system_ok_def)
  have p: "passed H g (num (hd (H g))) i" "passed H h (num (hd (H h))) i" using assms(6,8) by (simp_all add: passed_def)
  have z: "0 \<le> num (hd (H g))" "0 \<le> num (hd (H h))"
    using local_num system_head [OF assms(1,3)] system_head [OF assms(1,4)] by blast+
  consider "num (hd (H g)) = num (hd (H h))" | "num (hd (H g)) < num (hd (H h))" | "num (hd (H h)) < num (hd (H g))" by linarith
  then show False
  proof cases
    case 1
    with assms(5,7) ne show False by simp
  next
    case 2
    from chain_moved [OF ch assms(2) z(1) 2 assms(5,7,3,4) ne p(2)] show False by simp
  next
    case 3
    from chain_moved [OF ch assms(2) z(2) 3 assms(7,5,4,3) ne [symmetric] p(1)] show False by simp
  qed
qed

text \<open>While a group holds a shard, no other group waits with it for a handover.\<close>

lemma no_leaving:
  assumes "system_ok cfg H A X" "i \<in> shard_ids" "g \<noteq> 0" "a \<noteq> 0"
    "owner (cfg (num (hd (H g)))) i = g" "status (hd (H g)) i \<noteq> STATUS_PULLING" "status (hd (H a)) i = STATUS_BEPULLING"
  shows "passed H (owner (cfg (num (hd (H a)))) i) (num (hd (H a))) i"
proof -
  let ?n = "num (hd (H a))" and ?m = "num (hd (H g))"
  have ch: "chain_ok cfg H" using assms(1) by (simp add: system_ok_def)
  have z: "0 \<le> ?m" using local_num system_head [OF assms(1,3)] by blast
  have la: "local_ok cfg a (hd (H a))" using system_head [OF assms(1,4)] by blast
  note l = local_leaving [OF la assms(2,7)]
  have p: "passed H g ?m i" using assms(6) by (simp add: passed_def)
  consider "?n = ?m" | "?n < ?m" | "?m = ?n - 1" | "?m < ?n - 1" by linarith
  then show ?thesis
  proof cases
    case 1
    with p assms(5) show ?thesis by simp
  next
    case 2
    from chain_passed [OF ch assms(2) _ 2] l(1,3) p assms(3,5) show ?thesis by simp
  next
    case 3
    with l(2) assms(5) have "a = g" by simp
    with 3 show ?thesis by simp
  next
    case 4
    have "passed H a (?n - 1) i" by (simp add: passed_def)
    moreover have "g \<noteq> a"
    proof
      assume "g = a"
      with 4 show False by simp
    qed
    ultimately have "?m < num (hd (H g))" using chain_moved [OF ch assms(2) z 4 assms(5) l(2) assms(3,4)] by blast
    then show ?thesis by simp
  qed
qed

lemma agrees_other:
  assumes "agrees A X s i" "i \<noteq> key2shard (sk_Key op)"
  shows "agrees (store_op op A) (if w then insert (c, n, key2shard (sk_Key op)) X else X) s i"
  using assms by (auto simp: agrees_def store_op_local)

text \<open>What an executed operation changes in its group.\<close>

definition executed :: "ShardKV \<Rightarrow> SkArgs \<Rightarrow> ShardKV \<Rightarrow> bool" where
  "executed s op kv' \<longleftrightarrow> executes s op \<and> group_ok kv' \<and> sk_gid kv' = sk_gid s \<and> sk_currentConfig kv' = sk_currentConfig s \<and>
     sk_lastConfig kv' = sk_lastConfig s \<and> (\<forall>i. status kv' i = status s i) \<and>
     (\<forall>i. contents kv' i = (if i = key2shard (sk_Key op) then store_op op (contents s i) else contents s i)) \<and>
     (\<forall>c. highest kv' c = (if c = sk_ClientId op \<and> sk_OP op \<noteq> sk_OP_GET then Some (sk_CommandId op) else highest s c))"

abbreviation written :: "SkArgs \<Rightarrow> (int \<times> int \<times> int) set \<Rightarrow> (int \<times> int \<times> int) set" where
  "written op X \<equiv> if sk_OP op \<noteq> sk_OP_GET then insert (sk_ClientId op, sk_CommandId op, key2shard (sk_Key op)) X else X"

lemma executed_facts:
  assumes "executed s op kv'"
  shows "group_ok kv'" "sk_gid kv' = sk_gid s" "sk_currentConfig kv' = sk_currentConfig s" "sk_lastConfig kv' = sk_lastConfig s"
    "status kv' i = status s i" "contents kv' i = (if i = key2shard (sk_Key op) then store_op op (contents s i) else contents s i)"
    "isDuplicateRequest s c m \<Longrightarrow> isDuplicateRequest kv' c m" "served s op"
  using assms by (auto simp: executed_def isDuplicate_iff executes_def not_le split: if_splits)

lemma executed_agrees:
  assumes "executed s op kv'" "agrees A X s (key2shard (sk_Key op))"
  shows "agrees (store_op op A) (written op X) kv' (key2shard (sk_Key op))"
  unfolding agrees_def
proof (intro conjI allI impI)
  fix key assume key: "key2shard key = key2shard (sk_Key op)"
  show "contents kv' (key2shard (sk_Key op)) key = store_op op A key"
    using store_op_cong [of op "contents s (key2shard (sk_Key op))" A key] assms(2) key executed_facts(6) [OF assms(1), of "key2shard (sk_Key op)"]
    by (simp add: agrees_def)
next
  fix c m assume "(c, m, key2shard (sk_Key op)) \<in> written op X"
  then consider "sk_OP op \<noteq> sk_OP_GET" "c = sk_ClientId op" "m = sk_CommandId op" | "(c, m, key2shard (sk_Key op)) \<in> X" by (auto split: if_splits)
  then show "isDuplicateRequest kv' c m"
  proof cases
    case 1
    then show ?thesis using assms(1) by (auto simp: isDuplicate_iff executed_def)
  qed (use assms(2) executed_facts(7) [OF assms(1)] in \<open>auto simp: agrees_def\<close>)
qed

lemma executed_step_ok:
  assumes ls: "local_ok cfg g (hd (H g))" and ex: "executed (hd (H g)) op kv'"
  shows "step_ok cfg H g kv'"
proof -
  let ?s = "hd (H g)"
  note k = executed_facts [OF ex]
  note own = served_status [OF ls k(8)]
  have "local_ok cfg g kv'"
  proof (rule local_within [OF ls k(1-4)])
    fix i assume i: "i \<in> shard_ids"
    show "status kv' i = status ?s i \<and> contents kv' i = contents ?s i \<or>
      status ?s i = STATUS_GC \<and> status kv' i = STATUS_SERVING \<and> contents kv' i = contents ?s i \<or>
      status ?s i = STATUS_BEPULLING \<and> status kv' i = STATUS_SERVING \<and> contents kv' i = Map.empty \<or>
      status ?s i = STATUS_PULLING \<and> status kv' i = STATUS_GC \<or>
      status kv' i = status ?s i \<and> status ?s i \<noteq> STATUS_PULLING \<and> owner (cfg (num ?s)) i = g"
      using k(5,6) [of i] own by (cases "i = key2shard (sk_Key op)") simp_all
  qed
  then show ?thesis using k(3,5) unfolding step_ok_def later_def by simp
qed

lemma executed_fresh:
  assumes "fresh_ok cfg H A X" "g \<noteq> 0" and ls: "local_ok cfg g (hd (H g))" and ex: "executed (hd (H g)) op kv'"
  shows "fresh_ok cfg (H(g := kv' # H g)) (store_op op A) (written op X)"
  unfolding fresh_ok_def
proof (intro ballI impI)
  let ?s = "hd (H g)"
  note own = served_status [OF ls executed_facts(8) [OF ex]]
  fix i assume i: "i \<in> shard_ids" "(\<exists>k. key2shard k = i \<and> store_op op A k \<noteq> None) \<or> (\<exists>c n. (c, n, i) \<in> written op X)"
  have lt: "later ?s kv'" using executed_step_ok [where H = H, OF ls ex] by (simp add: step_ok_def)
  have "\<exists>m\<ge>0. owner (cfg m) i \<noteq> 0 \<and> passed H (owner (cfg m) i) m i"
  proof (cases "i = key2shard (sk_Key op)")
    case True
    have "passed H g (num ?s) i" using own(2) True by (simp add: passed_def)
    then show ?thesis using own(1) True assms(2) local_num [OF ls] by (intro exI [of _ "num ?s"]) simp
  next
    case False
    then have "(\<exists>k. key2shard k = i \<and> A k \<noteq> None) \<or> (\<exists>c n. (c, n, i) \<in> X)"
      using i(2) store_op_local [of _ op A] by (auto split: if_splits)
    then show ?thesis using assms(1) i(1) unfolding fresh_ok_def by blast
  qed
  then show "\<exists>m\<ge>0. owner (cfg m) i \<noteq> 0 \<and> passed (H(g := kv' # H g)) (owner (cfg m) i) m i"
    using passed_mono [of H g kv', OF lt _ i(1)] by blast
qed

text \<open>Another group, or the same group for another shard, agrees with the store as before.\<close>

lemma executed_owned:
  assumes "system_ok cfg H A X" "g \<noteq> 0" "b \<noteq> 0" "i \<in> shard_ids" and ex: "executed (hd (H g)) op kv'"
    and o: "owner (cfg (num (hd (H b)))) i = b" "status (hd (H b)) i \<noteq> STATUS_PULLING"
  shows "agrees (store_op op A) (written op X) (hd ((H(g := kv' # H g)) b)) i"
proof -
  let ?j = "key2shard (sk_Key op)"
  note k = executed_facts [OF ex]
  have ls: "local_ok cfg g (hd (H g))" using system_head [OF assms(1,2)] by blast
  note own = served_status [OF ls k(8)]
  have j: "?j \<in> shard_ids" by (rule key2shard_range)
  show ?thesis
  proof (cases "i = ?j")
    case True
    have "b = g" using holder_unique [OF assms(1) j assms(3,2) _ _ own(1,2)] o True by simp
    with executed_agrees [OF ex head_owned [OF assms(1,2) j own(1,2)]] True show ?thesis by simp
  next
    case False
    have "agrees A X (hd (H b)) i" using head_owned [OF assms(1,3,4)] o by simp
    then have "agrees A X (hd ((H(g := kv' # H g)) b)) i"
      using agrees_kept [of A X "hd (H b)" i "hd ((H(g := kv' # H g)) b)"] k(6,7) False by (cases "b = g") auto
    then show ?thesis by (rule agrees_other [OF _ False])
  qed
qed

lemma executed_leaving:
  assumes "system_ok cfg H A X" "g \<noteq> 0" "b \<noteq> 0" "i \<in> shard_ids" and ex: "executed (hd (H g)) op kv'"
    and bp: "status (hd (H b)) i = STATUS_BEPULLING" "\<not> passed H (owner (cfg (num (hd (H b)))) i) (num (hd (H b))) i"
    and s: "s \<in> set ((H(g := kv' # H g)) b)" "num s = num (hd (H b))"
  shows "agrees (store_op op A) (written op X) s i"
proof -
  note k = executed_facts [OF ex]
  note loc = system_head [OF assms(1,2)]
  have ls: "local_ok cfg g (hd (H g))" using loc by blast
  note own = served_status [OF ls k(8)]
  have ij: "i \<noteq> key2shard (sk_Key op)" using no_leaving [OF assms(1) key2shard_range assms(2,3) own(1,2)] bp by auto
  have old: "agrees A X t i" if "t \<in> set (H b)" "num t = num (hd (H b))" for t
    using head_leaving [OF assms(1,3,4) _ _ that] bp by simp
  have "agrees A X s i"
  proof (cases "b = g \<and> s = kv'")
    case True
    have "agrees A X (hd (H g)) i" using old [of "hd (H g)"] True loc by simp
    then show ?thesis using agrees_kept [of A X "hd (H g)" i kv'] k(6,7) ij True by auto
  next
    case False
    with s(1) have "s \<in> set (H b)" by (auto split: if_splits)
    with old s(2) show ?thesis by simp
  qed
  then show ?thesis by (rule agrees_other [OF _ ij])
qed

lemma executed_data:
  assumes "system_ok cfg H A X" "g \<noteq> 0" and ex: "executed (hd (H g)) op kv'"
  shows "data_ok cfg (H(g := kv' # H g)) (store_op op A) (written op X)"
proof -
  let ?H = "H(g := kv' # H g)"
  note k = executed_facts [OF ex]
  have passed_same: "passed ?H b m i = passed H b m i" for b m i using k(3,5) by (simp add: passed_def)
  have hd_eq: "num (hd (?H b)) = num (hd (H b))" "status (hd (?H b)) i = status (hd (H b)) i" for b i using k(3,5) by simp_all
  show ?thesis unfolding data_ok_def passed_same hd_eq
    using executed_owned [OF assms(1,2) _ _ ex] executed_leaving [OF assms(1,2) _ _ ex] by blast
qed

lemma step_operation:
  assumes "cfg_ok cfg grp" "system_ok cfg H A X" "g \<noteq> 0" "sk_apply (hd (H g)) (NewOperationCommand op) = Some (kv', r)"
  shows "system_ok cfg (H(g := kv' # H g)) (if executes (hd (H g)) op then store_op op A else A)
      (if executes (hd (H g)) op \<and> sk_OP op \<noteq> sk_OP_GET
       then insert (sk_ClientId op, sk_CommandId op, key2shard (sk_Key op)) X else X)"
proof -
  let ?s = "hd (H g)"
  from assms(4) obtain r' where a: "applyOperation ?s op = Some (kv', r')" by (auto simp: sk_apply_def NewOperationCommand_def)
  have gok: "group_ok ?s" and ls: "local_ok cfg g ?s" using system_head [OF assms(2,3)] by blast+
  show ?thesis
  proof (cases "executes ?s op")
    case False
    then have "kv' = ?s"
      using a gok applyOperation_refused [of ?s op] applyOperation_duplicate [of ?s op] by (cases "served ?s op") auto
    from step_none [OF assms(1-3) this] False show ?thesis by simp
  next
    case True
    with applyOperation_executes [OF gok True] a have ex: "executed ?s op kv'" by (auto simp: executed_def)
    have parts: "histories_ok cfg H" "chain_ok cfg H" "pending_ok cfg H" "fresh_ok cfg H A X"
      using assms(2) by (simp_all add: system_ok_def)
    note st = executed_step_ok [where H = H, OF ls ex]
    have "system_ok cfg (H(g := kv' # H g)) (store_op op A) (written op X)"
      unfolding system_ok_def
      using histories_step [OF parts(1) st] chain_step [OF assms(1) parts(1,2) st assms(3)] pending_step [OF parts(1,3) st assms(3)]
        executed_data [OF assms(2,3) ex] executed_fresh [OF parts(4) assms(3) ls ex] by blast
    then show ?thesis using True by simp
  qed
qed

section \<open>Every reachable state\<close>

lemma group_start_fields:
  "sk_gid (group_start g) = g" "sk_currentConfig (group_start g) = DefaultConfig" "sk_lastConfig (group_start g) = DefaultConfig"
  "sk_lastOperations (group_start g) = []"
  "sk_stateMachines (group_start g) = initStateMachines_loop (map int [0..<NShards]) []"
  by (simp_all add: group_start_def sk_StartServer_def Make_def readPersist_def ReadRaftState_def MakePersister_def
      ReadSnapshot_def sk_restoreSnapshot_def initStateMachines_def Let_def)

lemma group_start_ok: "group_ok (group_start g)"
  by (simp add: group_ok_def group_start_fields init_loop_ok DefaultConfig_def)

lemma group_start_shard: "i \<in> shard_ids \<Longrightarrow> status (group_start g) i = STATUS_SERVING \<and> contents (group_start g) i = Map.empty"
  by (simp add: status_def contents_def group_start_fields init_loop_lookup shard_numbers NewShard_def del: set_map)

lemma system_start:
  assumes "cfg_ok cfg grp"
  shows "system_ok cfg (\<lambda>g. [group_start g]) Map.empty {}"
proof -
  have n: "num (group_start g) = 0" for g by (simp add: group_start_fields DefaultConfig_def)
  have c0: "cfg 0 = DefaultConfig" using assms by (simp add: cfg_ok_def)
  have o: "owner (cfg 0) i = 0" if "i \<in> shard_ids" for i
    using that by (auto simp: c0 owner_def DefaultConfig_def shard_ids_def)
  have l: "local_ok cfg g (group_start g)" for g
    unfolding local_ok_def n using group_start_ok group_start_shard by (auto simp: group_start_fields c0)
  show ?thesis
    unfolding system_ok_def histories_ok_def chain_ok_def pending_ok_def data_ok_def fresh_ok_def
    using l by (auto simp: n passed_def o group_start_shard)
qed

lemma sharded_ok:
  assumes "sharded cfg grp H A X" "cfg_ok cfg grp"
  shows "system_ok cfg H A X"
  using assms
proof (induction rule: sharded.induct)
  case start
  then show ?case by (rule system_start)
next
  case (operation H A X g op kv' r)
  then show ?case by (intro step_operation) auto
next
  case (configuration H A X g s query cmd kv' r)
  then show ?case by (intro step_configuration) auto
next
  case (migration H A X g s call tasks cmds cmd kv' r)
  then show ?case by (intro step_migration) auto
next
  case (collect_remote H A X h s ids servers args server t rf cmd kv' r)
  then show ?case by (intro step_collect_remote) auto
next
  case (collect_local H A X g s call tasks cmds cmd kv' r)
  then show ?case by (intro step_collect_local) auto
next
  case (empty_entry H A X g kv' r)
  then show ?case by (intro step_none) (auto simp: sk_apply_def NewEmptyEntryCommand_def)
qed

text \<open>
  C5: At most one group serves a shard. In every reachable state of the sharded service, under
  any sequence of configurations in which a shard that has an owner keeps having one, no two
  groups can serve the same shard at the same time, however far their configurations are apart.
\<close>

theorem shard_owner_exclusive:
  assumes "sharded cfg grp H A X" "cfg_ok cfg grp" "g \<noteq> 0" "h \<noteq> 0" "g \<noteq> h" "i \<in> shard_ids"
    and "canServer (hd (H g)) i = Some True"
  shows "canServer (hd (H h)) i = Some False"
proof -
  note ok = sharded_ok [OF assms(1,2)]
  have can: "canServer (hd (H a)) i = Some (owner (cfg (num (hd (H a)))) i = a \<and>
      (status (hd (H a)) i = STATUS_SERVING \<or> status (hd (H a)) i = STATUS_GC))" if "a \<noteq> 0" for a
  proof -
    have l: "local_ok cfg a (hd (H a))" using system_head [OF ok that] by blast
    from canServer_eq [OF local_group [OF l] assms(6)] local_gid [OF l] local_current [OF l] show ?thesis by metis
  qed
  show ?thesis
    using holder_unique [OF ok assms(6,3,4)] can [OF assms(3)] can [OF assms(4)] assms(5,7) by auto
qed

text \<open>
  C4: The groups together implement one store, under any sequence of configurations in which a shard
  that has an owner keeps having one (so the last group never leaves). Whenever a group executes an
  operation, its reply is the one the single store gives that has executed the same operations in
  the same order, so no write is lost when shards move from group to group; and no write is
  ever executed twice by any groups, since the client sessions move with the shards.
\<close>

theorem sharded_refines_store:
  assumes "sharded cfg grp H A X" "cfg_ok cfg grp" "g \<noteq> 0" "executes (hd (H g)) op"
  shows "(\<exists>kv'. applyOperation (hd (H g)) op = Some (kv', store_reply op A)) \<and>
    (sk_OP op \<noteq> sk_OP_GET \<longrightarrow> (sk_ClientId op, sk_CommandId op, key2shard (sk_Key op)) \<notin> X)"
proof -
  let ?j = "key2shard (sk_Key op)" and ?s = "hd (H g)"
  note ok = sharded_ok [OF assms(1,2)]
  have l: "local_ok cfg g ?s" using system_head [OF ok assms(3)] by blast
  have sv: "served ?s op" using assms(4) by (simp add: executes_def)
  have ag: "agrees A X ?s ?j"
    using head_owned [OF ok assms(3) key2shard_range] served_status [OF l sv] by blast
  then have "contents ?s ?j (sk_Key op) = A (sk_Key op)" by (simp add: agrees_def)
  then have "store_reply op (contents ?s ?j) = store_reply op A" by (simp add: store_reply_def)
  moreover from applyOperation_executes [OF local_group [OF l] assms(4)] obtain kv' where
    "applyOperation ?s op = Some (kv', store_reply op (contents ?s ?j))" by blast
  moreover have "(sk_ClientId op, sk_CommandId op, ?j) \<notin> X" if "sk_OP op \<noteq> sk_OP_GET"
    using ag assms(4) that by (auto simp: agrees_def executes_def)
  ultimately show ?thesis by auto
qed

section \<open>When all groups leave\<close>

lemma all_serving_status_iff:
  assumes "group_ok kv"
  shows "all_serving (sk_stateMachines kv) \<longleftrightarrow> (\<forall>i\<in>shard_ids. status kv i = STATUS_SERVING)"
proof
  assume st: "\<forall>i\<in>shard_ids. status kv i = STATUS_SERVING"
  have "sh_Status sh = STATUS_SERVING" if "(i, sh) \<in> set (sk_stateMachines kv)" for i sh
  proof -
    have d: "distinct (map fst (sk_stateMachines kv))" "i \<in> shard_ids"
      using assms that unfolding group_ok_def shards_ok_def by force+
    then have "shard kv i = Some sh" using that by (simp add: map_of_eq_Some_iff)
    with bspec [OF st d(2)] show ?thesis by (simp add: status_def)
  qed
  then show "all_serving (sk_stateMachines kv)" by (auto simp: all_serving_iff)
qed (use all_serving_status [OF assms] in blast)

text \<open>A group whose shards are all serving moves on to the next configuration.\<close>

lemma sharded_next_config:
  assumes r: "sharded cfg grp H A X" and g: "g \<noteq> 0" "H g = s # ss" "sk_gid s = g" "group_ok s" "num s = n" "\<forall>i\<in>shard_ids. status s i = STATUS_SERVING"
    and c: "\<forall>n. Num (cfg n) = n \<and> length (Shards (cfg n)) = NShards"
  obtains kv where "sharded cfg grp (H(g := kv # s # ss)) A X" "sk_gid kv = g" "group_ok kv" "sk_currentConfig kv = cfg (n + 1)"
    "sk_lastOperations kv = sk_lastOperations s"
    "\<And>i. i \<in> shard_ids \<Longrightarrow> contents kv i = contents s i \<and> status kv i = new_status g (owner (sk_currentConfig s) i) (owner (cfg (n + 1)) i) STATUS_SERVING"
proof -
  from applyConfiguration_advances [OF g(4), of "cfg (n + 1)"] c g(5) obtain kv where
    k: "applyConfiguration s (cfg (n + 1)) = Some (kv, \<lparr>sk_Err = OK, sk_ReplyValue = ''''\<rparr>)" "group_ok kv" "sk_gid kv = sk_gid s"
      "sk_currentConfig kv = cfg (n + 1)" "sk_lastOperations kv = sk_lastOperations s"
      "\<forall>i\<in>shard_ids. contents kv i = contents s i \<and> status kv i = new_status (sk_gid s) (owner (sk_currentConfig s) i) (owner (cfg (n + 1)) i) (status s i)"
    by blast
  have "configurationAction cfg s = Some (NewConfigurationCommand (cfg (n + 1)))"
    using all_serving_status_iff [OF g(4)] g(5,6) c by (simp add: configurationAction_def)
  moreover have "sk_apply (hd (H g)) (NewConfigurationCommand (cfg (n + 1))) = Some (kv, Some \<lparr>sk_Err = OK, sk_ReplyValue = ''''\<rparr>)"
    using k(1) g(2) by (simp add: sk_apply_def NewConfigurationCommand_def)
  ultimately have "sharded cfg grp (H(g := kv # H g)) A X"
    by (intro sharded.configuration [OF r g(1), of s cfg]) (use g(2) in auto)
  with k g(2,3,6) that show thesis by (simp add: \<open>H g = s # ss\<close>)
qed

definition put_op :: "string \<Rightarrow> string \<Rightarrow> int \<Rightarrow> int \<Rightarrow> SkArgs" where
  "put_op k v c m = \<lparr>sk_Key = k, sk_Value = v, sk_OP = sk_OP_PUT, sk_ClientId = c, sk_CommandId = m\<rparr>"

definition get_op :: "string \<Rightarrow> int \<Rightarrow> int \<Rightarrow> SkArgs" where
  "get_op k c m = \<lparr>sk_Key = k, sk_Value = '''', sk_OP = sk_OP_GET, sk_ClientId = c, sk_CommandId = m\<rparr>"

text \<open>
  C36: Writes are lost when all groups leave. Take any sequence of configurations that gives all
  shards to one group, then to none, then to another group, as the controller issues it for a
  Join, a Leave of that group and another Join. For every key and value there is an execution of
  the service in which a put of that value has been executed and acknowledged, no other
  operation has, and the second group serves the key and answers a get of it with \<open>ErrNoKey\<close>: a
  group that receives a shard from group 0 does not ask who had it before.
\<close>

theorem leave_all_loses_writes:
  assumes "cfg 0 = DefaultConfig" "\<forall>n. Num (cfg n) = n \<and> length (Shards (cfg n)) = NShards" "g \<noteq> 0" "h \<noteq> 0" "g \<noteq> h"
    and "Shards (cfg 1) = replicate NShards g" "Shards (cfg 2) = replicate NShards 0" "Shards (cfg 3) = replicate NShards h"
  shows "\<exists>H kv. sharded cfg grp H [k \<mapsto> v] {(c, m, key2shard k)} \<and>
    executes (hd (H h)) (get_op k c (m + 1)) \<and> applyOperation (hd (H h)) (get_op k c (m + 1)) = Some (kv, \<lparr>sk_Err = ErrNoKey, sk_ReplyValue = ''''\<rparr>) \<and>
    store_reply (get_op k c (m + 1)) [k \<mapsto> v] = \<lparr>sk_Err = OK, sk_ReplyValue = v\<rparr>"
proof -
  let ?put = "put_op k v c m" and ?get = "get_op k c (m + 1)"
  let ?j = "key2shard k" and ?H0 = "\<lambda>g. [group_start g]"
  have j: "?j \<in> shard_ids" by (rule key2shard_range)
  have ow: "owner (cfg 1) i = g" "owner (cfg 2) i = 0" "owner (cfg 3) i = h" "owner DefaultConfig i = 0" if "i \<in> shard_ids" for i
    using that assms(6-8) by (auto simp: owner_def shard_ids_def DefaultConfig_def)
  have st: "sk_gid (group_start x) = x" "num (group_start x) = 0" "\<forall>i\<in>shard_ids. status (group_start x) i = STATUS_SERVING" for x
    using group_start_shard by (auto simp: group_start_fields DefaultConfig_def)
  obtain a where a: "sharded cfg grp (?H0(g := [a, group_start g])) Map.empty {}" "sk_gid a = g" "group_ok a" "sk_currentConfig a = cfg (0 + 1)"
    "sk_lastOperations a = sk_lastOperations (group_start g)"
    "\<And>i. i \<in> shard_ids \<Longrightarrow> contents a i = contents (group_start g) i \<and> status a i = new_status g (owner (sk_currentConfig (group_start g)) i) (owner (cfg (0 + 1)) i) STATUS_SERVING"
    using sharded_next_config [OF sharded.start [of cfg grp] assms(3) refl st(1) group_start_ok st(2,3) assms(2)] by blast
  have "canServer a ?j = Some True" using canServer_eq [OF a(3) j] a(2,4) a(6) [OF j] ow(1,4) [OF j] by (simp add: new_status_def group_start_fields)
  then have ex: "executes a ?put" using a(5) by (simp add: executes_def served_def put_op_def isDuplicateRequest_def group_start_fields)
  from applyOperation_executes [OF a(3) this] obtain b where
    b: "applyOperation a ?put = Some (b, store_reply ?put (contents a (key2shard (sk_Key ?put))))" by blast
  define H1 where "H1 = ?H0(g := [b, a, group_start g])"
  have r1: "sharded cfg grp H1 [k \<mapsto> v] {(c, m, ?j)}"
    using sharded.operation [OF a(1) assms(3), of ?put b] b ex
    by (simp add: H1_def sk_apply_def NewOperationCommand_def put_op_def store_op_def)
  have h: "H1 h = [group_start h]" using assms(5) by (simp add: H1_def)
  obtain d1 where d1: "sharded cfg grp (H1(h := [d1, group_start h])) [k \<mapsto> v] {(c, m, ?j)}" "sk_gid d1 = h" "group_ok d1" "sk_currentConfig d1 = cfg (0 + 1)"
    "sk_lastOperations d1 = sk_lastOperations (group_start h)"
    "\<And>i. i \<in> shard_ids \<Longrightarrow> contents d1 i = contents (group_start h) i \<and> status d1 i = new_status h (owner (sk_currentConfig (group_start h)) i) (owner (cfg (0 + 1)) i) STATUS_SERVING"
    using sharded_next_config [OF r1 assms(4) h st(1) group_start_ok st(2,3) assms(2)] by blast
  have s1: "num d1 = 1" "\<forall>i\<in>shard_ids. status d1 i = STATUS_SERVING"
    using d1(4,6) assms(2,4,5) ow by (auto simp: new_status_def group_start_fields)
  obtain d2 where d2: "sharded cfg grp (H1(h := [d2, d1, group_start h])) [k \<mapsto> v] {(c, m, ?j)}" "sk_gid d2 = h" "group_ok d2" "sk_currentConfig d2 = cfg (1 + 1)"
    "sk_lastOperations d2 = sk_lastOperations d1"
    "\<And>i. i \<in> shard_ids \<Longrightarrow> contents d2 i = contents d1 i \<and> status d2 i = new_status h (owner (sk_currentConfig d1) i) (owner (cfg (1 + 1)) i) STATUS_SERVING"
    using sharded_next_config [OF d1(1) assms(4) fun_upd_same d1(2,3) s1 assms(2)] unfolding fun_upd_upd by blast
  have s2: "num d2 = 2" "\<forall>i\<in>shard_ids. status d2 i = STATUS_SERVING"
    using d1(4) d2(4,6) assms(2-5) ow by (auto simp: new_status_def)
  obtain d3 where d3: "sharded cfg grp (H1(h := [d3, d2, d1, group_start h])) [k \<mapsto> v] {(c, m, ?j)}" "sk_gid d3 = h" "group_ok d3" "sk_currentConfig d3 = cfg (2 + 1)"
    "\<And>i. i \<in> shard_ids \<Longrightarrow> contents d3 i = contents d2 i \<and> status d3 i = new_status h (owner (sk_currentConfig d2) i) (owner (cfg (2 + 1)) i) STATUS_SERVING"
    using sharded_next_config [OF d2(1) assms(4) fun_upd_same d2(2,3) s2 assms(2)] unfolding fun_upd_upd by blast
  have "canServer d3 ?j = Some True" using canServer_eq [OF d3(3) j] d3(2,4) d3(5) [OF j] d2(4) ow [OF j] by (simp add: new_status_def)
  then have eg: "executes d3 ?get" by (simp add: executes_def served_def get_op_def)
  have "contents d3 ?j = Map.empty" using d3(5) d2(6) d1(6) group_start_shard j by simp
  with applyOperation_executes [OF d3(3) eg] obtain kv where
    "applyOperation d3 ?get = Some (kv, \<lparr>sk_Err = ErrNoKey, sk_ReplyValue = ''''\<rparr>)"
    by (auto simp: get_op_def store_reply_def sk_OP_GET_def sk_OP_PUT_def sk_OP_APPEND_def)
  with d3(1) eg show ?thesis
    by (intro exI [of _ "H1(h := [d3, d2, d1, group_start h])"] exI [of _ kv])
      (simp add: get_op_def store_reply_def sk_OP_GET_def sk_OP_PUT_def sk_OP_APPEND_def)
qed

section \<open>A small run\<close>

definition demo_cfg :: "int \<Rightarrow> Config" where
  "demo_cfg n = \<lparr>Num = n, Shards = replicate NShards (if n \<le> 0 then 0 else if n = 1 then 1 else 2),
     Groups = (if n = 0 then [] else [(1, [''a'']), (2, [''b''])])\<rparr>"

definition demo_grp :: "string \<Rightarrow> int" where
  "demo_grp server = (if server = ''a'' then 1 else 2)"

lemma demo_owner: "i \<in> shard_ids \<Longrightarrow> owner (demo_cfg n) i = (if n \<le> 0 then 0 else if n = 1 then 1 else 2)"
  by (auto simp: owner_def demo_cfg_def shard_ids_def)

lemma demo_cfg_ok: "cfg_ok demo_cfg demo_grp"
  unfolding cfg_ok_def
proof (intro conjI allI impI ballI)
  show "demo_cfg 0 = DefaultConfig" by (simp add: demo_cfg_def DefaultConfig_def)
  show "owner (demo_cfg (n + 1)) i \<noteq> 0" if "0 \<le> n" "i \<in> shard_ids" for n i using that by (simp add: demo_owner)
qed (auto simp: demo_cfg_def demo_grp_def split: if_splits)

lemma demo_run:
  "\<exists>kv1. sharded demo_cfg demo_grp ((\<lambda>g. [group_start g])(1 := [kv1, group_start 1])) Map.empty {} \<and>
     group_ok kv1 \<and> sk_lastOperations kv1 = [] \<and> (\<forall>i\<in>shard_ids. canServer kv1 i = Some True)"
proof -
  have n: "num (group_start 1) = 0" by (simp add: group_start_fields DefaultConfig_def)
  from applyConfiguration_advances [of "group_start 1" "demo_cfg 1"] obtain kv1 where
    k: "applyConfiguration (group_start 1) (demo_cfg 1) = Some (kv1, \<lparr>sk_Err = OK, sk_ReplyValue = ''''\<rparr>)" "group_ok kv1"
      "sk_gid kv1 = 1" "sk_currentConfig kv1 = demo_cfg 1" "sk_lastOperations kv1 = []"
      "\<And>i. i \<in> shard_ids \<Longrightarrow> status kv1 i = new_status 1 (owner DefaultConfig i) (owner (demo_cfg 1) i) STATUS_SERVING"
    using group_start_ok n by (auto simp: group_start_fields group_start_shard demo_cfg_def)
  have "all_serving (sk_stateMachines (group_start 1))"
    by (simp add: group_start_fields) code_simp
  then have c: "configurationAction demo_cfg (group_start 1) = Some (NewConfigurationCommand (demo_cfg 1))"
    using n by (simp add: configurationAction_def demo_cfg_def)
  have a: "sk_apply (hd ((\<lambda>g. [group_start g]) 1)) (NewConfigurationCommand (demo_cfg 1)) = Some (kv1, Some \<lparr>sk_Err = OK, sk_ReplyValue = ''''\<rparr>)"
    using k(1) by (simp add: sk_apply_def NewConfigurationCommand_def)
  have "owner DefaultConfig i = 0" if "i \<in> shard_ids" for i
    using that by (auto simp: owner_def DefaultConfig_def shard_ids_def)
  then have "canServer kv1 i = Some True" if "i \<in> shard_ids" for i
    using canServer_eq [OF k(2) that] k(3,4) k(6) [OF that] that by (simp add: demo_owner new_status_def)
  moreover have "sharded demo_cfg demo_grp ((\<lambda>g. [group_start g])(1 := [kv1, group_start 1])) Map.empty {}"
    by (rule sharded.configuration [OF sharded.start, of 1 "group_start 1", OF _ _ _ c a]) (auto simp: demo_cfg_def)
  ultimately show ?thesis using k by blast
qed

theorem shard_owner_exclusive_witness:
  "\<exists>kv1. sharded demo_cfg demo_grp ((\<lambda>g. [group_start g])(1 := [kv1, group_start 1])) Map.empty {} \<and>
     canServer kv1 0 = Some True \<and> canServer (group_start 2) 0 = Some False"
proof -
  have z: "0 \<in> shard_ids" by (simp add: shard_ids_def NShards_def)
  from demo_run obtain kv1 where r: "sharded demo_cfg demo_grp ((\<lambda>g. [group_start g])(1 := [kv1, group_start 1])) Map.empty {}"
    "canServer kv1 0 = Some True" using z by blast
  from shard_owner_exclusive [OF r(1) demo_cfg_ok, of 1 2 0] z r show ?thesis by auto
qed

theorem sharded_refines_store_witness:
  "\<exists>kv1 kv2. sharded demo_cfg demo_grp ((\<lambda>g. [group_start g])(1 := [kv1, group_start 1])) Map.empty {} \<and>
     applyOperation kv1 \<lparr>sk_Key = ''x'', sk_Value = ''v'', sk_OP = sk_OP_PUT, sk_ClientId = 4, sk_CommandId = 0\<rparr> =
       Some (kv2, \<lparr>sk_Err = OK, sk_ReplyValue = ''''\<rparr>)"
proof -
  let ?op = "\<lparr>sk_Key = ''x'', sk_Value = ''v'', sk_OP = sk_OP_PUT, sk_ClientId = 4, sk_CommandId = 0\<rparr>"
  from demo_run obtain kv1 where r: "sharded demo_cfg demo_grp ((\<lambda>g. [group_start g])(1 := [kv1, group_start 1])) Map.empty {}"
    "sk_lastOperations kv1 = []" "canServer kv1 (key2shard ''x'') = Some True" using key2shard_range by blast
  then have "executes kv1 ?op" by (simp add: executes_def served_def isDuplicateRequest_def)
  with sharded_refines_store [OF r(1) demo_cfg_ok, of 1 ?op] r(1) show ?thesis by (auto simp: store_reply_def)
qed

end
