(* ===== verification/Shard_Clerk.thy ===== *)
theory Shard_Clerk
  imports Shard_System
begin

text \<open>
  The client of the sharded service (package shardkv, client.go), and properties of single
  operations of the service: recovery from snapshots and routing of requests.
\<close>

section \<open>The clerk\<close>

record SkClerk =
  kc_config :: Config
  kc_clientId :: int
  kc_commandId :: int
  kc_leaderIds :: "int \<rightharpoonup> int"

text \<open>The client id is drawn at random; the configuration is the controller's answer to \<open>Query(-1)\<close>.\<close>

definition sk_MakeClerk :: "int \<Rightarrow> Config \<Rightarrow> SkClerk" where
  "sk_MakeClerk nrand config = \<lparr>kc_config = config, kc_clientId = nrand, kc_commandId = 0, kc_leaderIds = Map.empty\<rparr>"

text \<open>
  The inner loop of \<open>Command\<close>, which asks the servers of one group in turn; the outcomes of the
  calls are given as a list, \<^term>\<open>None\<close> for a call that failed. It returns a value or gives up
  with \<^term>\<open>None\<close>, with the outcomes not yet used; it is blocked when they run out.
\<close>

fun sk_call_loop :: "string list \<Rightarrow> int \<Rightarrow> int \<Rightarrow> SkReply option list \<Rightarrow> (string option \<times> SkReply option list) outcome" where
  "sk_call_loop servers preLeaderId newLeaderId [] =
     (case idx servers newLeaderId of None \<Rightarrow> Panic | Some _ \<Rightarrow> Disabled)"
| "sk_call_loop servers preLeaderId newLeaderId (res # rest) =
     (case idx servers newLeaderId of
        None \<Rightarrow> Panic
      | Some _ \<Rightarrow>
          (if (case res of Some reply \<Rightarrow> sk_Err reply = OK \<or> sk_Err reply = ErrNoKey | None \<Rightarrow> False)
           then Next (Some (sk_ReplyValue (the res)), rest)
           else if (case res of Some reply \<Rightarrow> sk_Err reply = ErrWrongGroup | None \<Rightarrow> False)
           then Next (None, rest)
           else (let newLeaderId = (newLeaderId + 1) mod int (length servers)
                 in if newLeaderId = preLeaderId then Next (None, rest)
                    else sk_call_loop servers preLeaderId newLeaderId rest)))"

text \<open>One round of the outer loop, up to the sleep.\<close>

definition sk_round :: "SkClerk \<Rightarrow> SkArgs \<Rightarrow> SkReply option list \<Rightarrow> (SkClerk \<times> string option \<times> SkReply option list) outcome" where
  "sk_round ck args replies =
     (case idx (Shards (kc_config ck)) (key2shard (sk_Key args)) of
        None \<Rightarrow> Panic
      | Some gid \<Rightarrow>
          (case map_of (Groups (kc_config ck)) gid of
             None \<Rightarrow> Next (ck, None, replies)
           | Some servers \<Rightarrow>
               (let ck = (if kc_leaderIds ck gid = None then ck\<lparr>kc_leaderIds := (kc_leaderIds ck)(gid \<mapsto> 0)\<rparr> else ck);
                    preLeaderId = the (kc_leaderIds ck gid)
                in case sk_call_loop servers preLeaderId preLeaderId replies of
                     Next (Some value, rest) \<Rightarrow> Next (ck\<lparr>kc_commandId := kc_commandId ck + 1\<rparr>, Some value, rest)
                   | Next (None, rest) \<Rightarrow> Next (ck, None, rest)
                   | Panic \<Rightarrow> Panic
                   | Disabled \<Rightarrow> Disabled)))"

text \<open>The outer loop; \<open>configs\<close> are the answers to its queries for the newest configuration.\<close>

fun sk_clerk_loop :: "SkClerk \<Rightarrow> SkArgs \<Rightarrow> SkReply option list \<Rightarrow> Config list \<Rightarrow> (SkClerk \<times> string) outcome" where
  "sk_clerk_loop ck args replies configs =
     (case sk_round ck args replies of
        Next (ck, Some value, rest) \<Rightarrow> Next (ck, value)
      | Next (ck, None, rest) \<Rightarrow>
          (case configs of
             [] \<Rightarrow> Disabled
           | config # configs \<Rightarrow> sk_clerk_loop (ck\<lparr>kc_config := config\<rparr>) args rest configs)
      | Panic \<Rightarrow> Panic
      | Disabled \<Rightarrow> Disabled)"

definition sk_clerk_Command :: "SkClerk \<Rightarrow> SkArgs \<Rightarrow> SkReply option list \<Rightarrow> Config list \<Rightarrow> (SkClerk \<times> string) outcome" where
  "sk_clerk_Command ck args =
     sk_clerk_loop ck (args\<lparr>sk_ClientId := kc_clientId ck, sk_CommandId := kc_commandId ck\<rparr>)"

definition sk_clerk_Get :: "SkClerk \<Rightarrow> string \<Rightarrow> SkReply option list \<Rightarrow> Config list \<Rightarrow> (SkClerk \<times> string) outcome" where
  "sk_clerk_Get ck key =
     sk_clerk_Command ck \<lparr>sk_Key = key, sk_Value = '''', sk_OP = sk_OP_GET, sk_ClientId = 0, sk_CommandId = 0\<rparr>"

definition sk_clerk_Put :: "SkClerk \<Rightarrow> string \<Rightarrow> string \<Rightarrow> SkReply option list \<Rightarrow> Config list \<Rightarrow> (SkClerk \<times> string) outcome" where
  "sk_clerk_Put ck key value =
     sk_clerk_Command ck \<lparr>sk_Key = key, sk_Value = value, sk_OP = sk_OP_PUT, sk_ClientId = 0, sk_CommandId = 0\<rparr>"

definition sk_clerk_Append :: "SkClerk \<Rightarrow> string \<Rightarrow> string \<Rightarrow> SkReply option list \<Rightarrow> Config list \<Rightarrow> (SkClerk \<times> string) outcome" where
  "sk_clerk_Append ck key value =
     sk_clerk_Command ck \<lparr>sk_Key = key, sk_Value = value, sk_OP = sk_OP_APPEND, sk_ClientId = 0, sk_CommandId = 0\<rparr>"

section \<open>The clerk's loops end\<close>

definition refused :: "SkReply option \<Rightarrow> bool" where
  "refused res = (case res of None \<Rightarrow> True | Some reply \<Rightarrow> sk_Err reply \<notin> {OK, ErrNoKey, ErrWrongGroup})"

lemma call_loop_refused:
  assumes "refused res" "0 \<le> l" "l < int (length servers)"
  shows "sk_call_loop servers p l (res # rest) =
    (if (l + 1) mod int (length servers) = p then Next (None, rest)
     else sk_call_loop servers p ((l + 1) mod int (length servers)) rest)"
  using assms by (auto simp: refused_def idx_def Let_def split: option.splits)

text \<open>From position \<open>l\<close>, \<open>d\<close> more servers can be asked before the round is back at \<open>p\<close>.\<close>

lemma call_loop_skip:
  assumes "\<forall>res\<in>set fs. refused res" "0 \<le> p" "p < int (length servers)" "length fs + d < length servers"
  shows "sk_call_loop servers p ((p + int d) mod int (length servers)) (fs @ rest) =
    sk_call_loop servers p ((p + int (d + length fs)) mod int (length servers)) rest"
  using assms
proof (induction fs arbitrary: d)
  case (Cons f fs)
  let ?n = "int (length servers)" and ?l = "(p + int d) mod int (length servers)"
  have n: "0 < ?n" using Cons.prems by linarith
  have step: "(?l + 1) mod ?n = (p + int (Suc d)) mod ?n"
    using mod_add_left_eq [of "p + int d" ?n 1] by (simp add: ac_simps)
  have "(p + int (Suc d)) mod ?n \<noteq> p"
  proof
    assume "(p + int (Suc d)) mod ?n = p"
    then have "(p + int (Suc d)) mod ?n = (p + 0) mod ?n" using Cons.prems(2,3) by simp
    then have "int (Suc d) mod ?n = 0" by (metis add.commute add_diff_cancel_left' diff_zero mod_diff_eq mod_0 mod_mod_trivial)
    moreover have "int (Suc d) < ?n" using Cons.prems(4) by simp
    ultimately show False by simp
  qed
  with call_loop_refused [of f ?l servers p "fs @ rest"] Cons.prems n step
  have "sk_call_loop servers p ?l ((f # fs) @ rest) = sk_call_loop servers p ((p + int (Suc d)) mod ?n) (fs @ rest)" by simp
  also have "\<dots> = sk_call_loop servers p ((p + int (Suc d + length fs)) mod ?n) rest"
    using Cons.prems by (intro Cons.IH) auto
  finally show ?case by simp
qed simp

lemma call_loop_from_start:
  assumes "\<forall>res\<in>set fs. refused res" "0 \<le> p" "p < int (length servers)" "length fs < length servers"
  shows "\<exists>l. 0 \<le> l \<and> l < int (length servers) \<and> sk_call_loop servers p p (fs @ rest) = sk_call_loop servers p l rest"
proof -
  have "0 < int (length servers)" using assms(2,3) by linarith
  with call_loop_skip [of fs p servers 0 rest] assms show ?thesis
    by (intro exI [of _ "(p + int (length fs)) mod int (length servers)"]) auto
qed

lemma call_loop_success:
  assumes "\<forall>res\<in>set fs. refused res" "0 \<le> p" "p < int (length servers)" "length fs < length servers"
    and "sk_Err reply = OK \<or> sk_Err reply = ErrNoKey"
  shows "sk_call_loop servers p p (fs @ Some reply # rest) = Next (Some (sk_ReplyValue reply), rest)"
  using call_loop_from_start [OF assms(1-4), of "Some reply # rest"] assms(5) by (auto simp: idx_def)

lemma call_loop_wrong_group:
  assumes "\<forall>res\<in>set fs. refused res" "0 \<le> p" "p < int (length servers)" "length fs < length servers"
    and "sk_Err reply = ErrWrongGroup"
  shows "sk_call_loop servers p p (fs @ Some reply # rest) = Next (None, rest)"
  using call_loop_from_start [OF assms(1-4), of "Some reply # rest"] assms(5) by (auto simp: idx_def)

lemma call_loop_exhausted:
  assumes "\<forall>res\<in>set fs. refused res" "0 \<le> p" "p < int (length servers)" "length fs = length servers"
  shows "sk_call_loop servers p p (fs @ rest) = Next (None, rest)"
proof -
  let ?n = "int (length servers)"
  from assms obtain gs f where fs: "fs = gs @ [f]" by (cases fs rule: rev_cases) auto
  have "sk_call_loop servers p p (gs @ f # rest) = sk_call_loop servers p ((p + int (length gs)) mod ?n) (f # rest)"
    using call_loop_skip [of gs p servers 0 "f # rest"] assms fs by auto
  also have "\<dots> = Next (None, rest)"
  proof -
    have "((p + int (length gs)) mod ?n + 1) mod ?n = (p + ?n) mod ?n"
    proof -
      have "p + int (length gs) + 1 = p + ?n" using fs assms(4) by simp
      with mod_add_left_eq [of "p + int (length gs)" ?n 1] show ?thesis by simp
    qed
    then have "((p + int (length gs)) mod ?n + 1) mod ?n = p" using assms(2,3) by simp
    moreover have "0 < ?n" using assms(2,3) by linarith
    then have "0 \<le> (p + int (length gs)) mod ?n" "(p + int (length gs)) mod ?n < ?n" by simp_all
    ultimately show ?thesis using call_loop_refused [of f _ servers p rest] assms(1) fs by simp
  qed
  finally show ?thesis using fs by simp
qed

text \<open>
  A round that comes to nothing: the clerk's configuration names no servers for the shard's
  group, or all of them refuse, or one of them says that the shard has moved.
\<close>

definition idle_round :: "Config \<Rightarrow> string \<Rightarrow> SkReply option list \<Rightarrow> bool" where
  "idle_round config key rs \<longleftrightarrow>
     (case map_of (Groups config) (owner config (key2shard key)) of
        None \<Rightarrow> rs = []
      | Some servers \<Rightarrow> servers \<noteq> [] \<and>
          ((length rs = length servers \<and> (\<forall>r\<in>set rs. refused r)) \<or>
           (rs \<noteq> [] \<and> length rs \<le> length servers \<and> (\<forall>r\<in>set (butlast rs). refused r) \<and>
            (\<exists>reply. last rs = Some reply \<and> sk_Err reply = ErrWrongGroup))))"

definition good_round :: "Config \<Rightarrow> string \<Rightarrow> SkReply option list \<Rightarrow> SkReply \<Rightarrow> bool" where
  "good_round config key fs reply \<longleftrightarrow> length (Shards config) = NShards \<and>
     (\<exists>servers. map_of (Groups config) (owner config (key2shard key)) = Some servers \<and>
        length fs < length servers) \<and>
     (\<forall>r\<in>set fs. refused r) \<and> (sk_Err reply = OK \<or> sk_Err reply = ErrNoKey)"

text \<open>The clerk keeps no leader: a recorded one is always server 0.\<close>

definition leaders_ok :: "SkClerk \<Rightarrow> bool" where
  "leaders_ok ck \<longleftrightarrow> (\<forall>g l. kc_leaderIds ck g = Some l \<longrightarrow> l = 0)"

lemma round_good:
  assumes "leaders_ok ck" "good_round (kc_config ck) (sk_Key args) fs reply"
  shows "\<exists>ck'. sk_round ck args (fs @ Some reply # rest) = Next (ck', Some (sk_ReplyValue reply), rest) \<and>
    kc_commandId ck' = kc_commandId ck + 1 \<and> kc_clientId ck' = kc_clientId ck \<and> leaders_ok ck'"
proof -
  let ?gid = "owner (kc_config ck) (key2shard (sk_Key args))"
  from assms(2) obtain servers where g: "length (Shards (kc_config ck)) = NShards"
    "map_of (Groups (kc_config ck)) ?gid = Some servers" "length fs < length servers" "\<forall>r\<in>set fs. refused r"
    "sk_Err reply = OK \<or> sk_Err reply = ErrNoKey" by (auto simp: good_round_def)
  let ?ck = "if kc_leaderIds ck ?gid = None then ck\<lparr>kc_leaderIds := (kc_leaderIds ck)(?gid \<mapsto> 0)\<rparr> else ck"
  have p: "the (kc_leaderIds ?ck ?gid) = 0" using assms(1) by (auto simp: leaders_ok_def)
  have c: "sk_call_loop servers 0 0 (fs @ Some reply # rest) = Next (Some (sk_ReplyValue reply), rest)"
    by (rule call_loop_success [OF g(4) _ _ g(3,5)]) (use g(3) in auto)
  have "sk_round ck args (fs @ Some reply # rest) =
    Next (?ck\<lparr>kc_commandId := kc_commandId ?ck + 1\<rparr>, Some (sk_ReplyValue reply), rest)"
    unfolding sk_round_def idx_shards [OF g(1) key2shard_range] option.case g(2) Let_def p c by simp
  moreover have "leaders_ok (?ck\<lparr>kc_commandId := kc_commandId ?ck + 1\<rparr>)" using assms(1) by (auto simp: leaders_ok_def)
  ultimately show ?thesis by (intro exI conjI) (assumption, auto)
qed

lemma round_idle:
  assumes "leaders_ok ck" "length (Shards (kc_config ck)) = NShards" "idle_round (kc_config ck) (sk_Key args) rs"
  shows "\<exists>ck'. sk_round ck args (rs @ rest) = Next (ck', None, rest) \<and>
    kc_commandId ck' = kc_commandId ck \<and> kc_clientId ck' = kc_clientId ck \<and> leaders_ok ck'"
proof -
  let ?gid = "owner (kc_config ck) (key2shard (sk_Key args))"
  show ?thesis
  proof (cases "map_of (Groups (kc_config ck)) ?gid")
    case None
    with assms show ?thesis by (simp add: sk_round_def idx_shards [OF assms(2) key2shard_range] idle_round_def)
  next
    case (Some servers)
    let ?ck = "if kc_leaderIds ck ?gid = None then ck\<lparr>kc_leaderIds := (kc_leaderIds ck)(?gid \<mapsto> 0)\<rparr> else ck"
    have p: "the (kc_leaderIds ?ck ?gid) = 0" using assms(1) by (auto simp: leaders_ok_def)
    from Some assms(3) have ne: "servers \<noteq> []" and r: "(length rs = length servers \<and> (\<forall>r\<in>set rs. refused r)) \<or>
      (rs \<noteq> [] \<and> length rs \<le> length servers \<and> (\<forall>r\<in>set (butlast rs). refused r) \<and>
        (\<exists>reply. last rs = Some reply \<and> sk_Err reply = ErrWrongGroup))" by (auto simp: idle_round_def)
    have c: "sk_call_loop servers 0 0 (rs @ rest) = Next (None, rest)"
      using r
    proof
      assume "length rs = length servers \<and> (\<forall>r\<in>set rs. refused r)"
      with ne show ?thesis by (intro call_loop_exhausted) auto
    next
      assume "rs \<noteq> [] \<and> length rs \<le> length servers \<and> (\<forall>r\<in>set (butlast rs). refused r) \<and>
        (\<exists>reply. last rs = Some reply \<and> sk_Err reply = ErrWrongGroup)"
      then obtain reply where w: "rs = butlast rs @ [Some reply]" "sk_Err reply = ErrWrongGroup"
        "\<forall>r\<in>set (butlast rs). refused r" "length (butlast rs) < length servers"
        using ne by (metis append_butlast_last_id length_butlast diff_less less_le_trans length_greater_0_conv zero_less_one)
      have "sk_call_loop servers 0 0 (butlast rs @ Some reply # rest) = Next (None, rest)"
        by (rule call_loop_wrong_group) (use w ne in auto)
      then show ?thesis using w(1) by (metis append.assoc append_Cons append_Nil)
    qed
    have "sk_round ck args (rs @ rest) = Next (?ck, None, rest)"
      unfolding sk_round_def idx_shards [OF assms(2) key2shard_range] option.case Some Let_def p c by simp
    moreover have "leaders_ok ?ck" using assms(1) by (auto simp: leaders_ok_def)
    ultimately show ?thesis by (intro exI conjI) (assumption, auto)
  qed
qed

lemma sk_clerk_loop_returns:
  assumes "leaders_ok ck" "length (Shards (kc_config ck)) = NShards"
    and "list_all2 (\<lambda>c rs. length (Shards c) = NShards \<and> idle_round c (sk_Key args) rs)
      (butlast (kc_config ck # configs)) rounds"
    and "good_round (last (kc_config ck # configs)) (sk_Key args) fs reply"
  shows "\<exists>ck'. sk_clerk_loop ck args (concat rounds @ fs @ Some reply # rest) (configs @ later_configs) =
      Next (ck', sk_ReplyValue reply) \<and> kc_commandId ck' = kc_commandId ck + 1 \<and> kc_clientId ck' = kc_clientId ck"
  using assms
proof (induction configs arbitrary: ck rounds)
  case Nil
  then have r: "rounds = []" by simp
  from round_good [OF Nil(1), of args fs reply rest] Nil(4) obtain ck' where
    "sk_round ck args (fs @ Some reply # rest) = Next (ck', Some (sk_ReplyValue reply), rest)"
    "kc_commandId ck' = kc_commandId ck + 1" "kc_clientId ck' = kc_clientId ck" by auto
  then show ?case unfolding r by (subst sk_clerk_loop.simps) simp
next
  case (Cons c configs)
  from Cons.prems(3) obtain rs rounds' where r: "rounds = rs # rounds'" "idle_round (kc_config ck) (sk_Key args) rs"
    "list_all2 (\<lambda>c rs. length (Shards c) = NShards \<and> idle_round c (sk_Key args) rs) (butlast (c # configs)) rounds'"
    by (auto simp: list_all2_Cons1)
  let ?rest = "concat rounds' @ fs @ Some reply # rest"
  from round_idle [OF Cons.prems(1,2) r(2), of ?rest] obtain ck1 where
    k: "sk_round ck args (rs @ ?rest) = Next (ck1, None, ?rest)" "kc_commandId ck1 = kc_commandId ck"
      "kc_clientId ck1 = kc_clientId ck" "leaders_ok ck1" by blast
  have c: "length (Shards c) = NShards"
  proof (cases configs)
    case Nil
    with Cons.prems(4) show ?thesis by (simp add: good_round_def)
  qed (use r(3) in \<open>auto simp: list_all2_Cons1\<close>)
  have "\<exists>ck'. sk_clerk_loop (ck1\<lparr>kc_config := c\<rparr>) args ?rest (configs @ later_configs) = Next (ck', sk_ReplyValue reply) \<and>
    kc_commandId ck' = kc_commandId (ck1\<lparr>kc_config := c\<rparr>) + 1 \<and> kc_clientId ck' = kc_clientId (ck1\<lparr>kc_config := c\<rparr>)"
    using Cons.prems(4) r(3) k(4) c by (intro Cons.IH) (simp_all add: leaders_ok_def)
  moreover have "sk_clerk_loop ck args (concat rounds @ fs @ Some reply # rest) ((c # configs) @ later_configs) =
    sk_clerk_loop (ck1\<lparr>kc_config := c\<rparr>) args ?rest (configs @ later_configs)"
    using k(1) unfolding r(1) by (subst sk_clerk_loop.simps) (simp del: sk_clerk_loop.simps)
  ultimately show ?case using k(2,3) by (simp del: sk_clerk_loop.simps)
qed

text \<open>
  The sharded clerk gets through. It asks the group its configuration names; when that group
  is unknown to it, refuses throughout or has handed the shard on, it fetches a newer
  configuration and asks again, and in the round in which a server answers it returns that
  answer, having used one command number for all attempts.
\<close>

theorem sk_clerk_Command_returns:
  assumes "leaders_ok ck" "length (Shards (kc_config ck)) = NShards"
    and "list_all2 (\<lambda>c rs. length (Shards c) = NShards \<and> idle_round c (sk_Key args) rs)
      (butlast (kc_config ck # configs)) rounds"
    and "good_round (last (kc_config ck # configs)) (sk_Key args) fs reply"
  shows "\<exists>ck'. sk_clerk_Command ck args (concat rounds @ fs @ Some reply # rest) (configs @ later_configs) =
      Next (ck', sk_ReplyValue reply) \<and> kc_commandId ck' = kc_commandId ck + 1 \<and> kc_clientId ck' = kc_clientId ck"
  unfolding sk_clerk_Command_def by (rule sk_clerk_loop_returns) (use assms in simp_all)

theorem sk_clerk_Command_returns_witness:
  "\<exists>ck'. sk_clerk_Command (sk_MakeClerk 7 (demo_cfg 1))
      \<lparr>sk_Key = ''x'', sk_Value = '''', sk_OP = sk_OP_GET, sk_ClientId = 0, sk_CommandId = 0\<rparr>
      (concat [[Some \<lparr>sk_Err = ErrWrongGroup, sk_ReplyValue = ''''\<rparr>]] @ [] @ Some \<lparr>sk_Err = OK, sk_ReplyValue = ''v''\<rparr> # [])
      ([demo_cfg 2] @ []) = Next (ck', ''v'') \<and> kc_commandId ck' = 1"
proof -
  let ?r = "Some \<lparr>sk_Err = ErrWrongGroup, sk_ReplyValue = ''''\<rparr>"
  let ?args = "\<lparr>sk_Key = ''x'', sk_Value = '''', sk_OP = sk_OP_GET, sk_ClientId = 0, sk_CommandId = 0\<rparr>"
  have "leaders_ok (sk_MakeClerk 7 (demo_cfg 1))" by (simp add: leaders_ok_def sk_MakeClerk_def)
  moreover have "length (Shards (kc_config (sk_MakeClerk 7 (demo_cfg 1)))) = NShards"
    by (simp add: sk_MakeClerk_def demo_cfg_def)
  moreover have "list_all2 (\<lambda>c rs. length (Shards c) = NShards \<and> idle_round c (sk_Key ?args) rs)
      (butlast (kc_config (sk_MakeClerk 7 (demo_cfg 1)) # [demo_cfg 2])) [[?r]]"
    using demo_owner [OF key2shard_range, of 1 "''x''"]
    by (simp add: sk_MakeClerk_def idle_round_def) (simp add: demo_cfg_def)
  moreover have "good_round (last (kc_config (sk_MakeClerk 7 (demo_cfg 1)) # [demo_cfg 2])) (sk_Key ?args) []
      \<lparr>sk_Err = OK, sk_ReplyValue = ''v''\<rparr>"
    using demo_owner [OF key2shard_range, of 2 "''x''"]
    by (simp add: sk_MakeClerk_def good_round_def) (simp add: demo_cfg_def)
  ultimately show ?thesis
    using sk_clerk_Command_returns [of "sk_MakeClerk 7 (demo_cfg 1)" ?args "[demo_cfg 2]" "[[?r]]" "[]"
      "\<lparr>sk_Err = OK, sk_ReplyValue = ''v''\<rparr>" "[]" "[]"] by (auto simp: sk_MakeClerk_def)
qed

section \<open>Snapshots\<close>

text \<open>
  C25: A sharded server recovers from its snapshot. When it snapshots at an index its Raft log has
  not yet compacted, and a new incarnation starts from the persister, it has the same shards
  with their migration status, the same client sessions and the same two configurations, so it
  resumes an unfinished migration where it was.
\<close>

theorem sk_snapshot_recovers:
  assumes "log_ok (logs (sk_rf kv))" "first_index (logs (sk_rf kv)) < index" "index \<le> last_index (logs (sk_rf kv))"
  shows "\<exists>kv' kv''. takeSnapshot kv index = Some kv' \<and>
    sk_StartServer n self (persister (sk_rf kv')) m (sk_gid kv) = Some kv'' \<and>
    sk_stateMachines kv'' = sk_stateMachines kv \<and> sk_lastOperations kv'' = sk_lastOperations kv \<and>
    sk_currentConfig kv'' = sk_currentConfig kv \<and> sk_lastConfig kv'' = sk_lastConfig kv \<and>
    getShardIdsByStatus kv'' = getShardIdsByStatus kv \<and> canServer kv'' = canServer kv"
proof -
  let ?snap = "[GShards (sk_stateMachines kv), GSkOps (sk_lastOperations kv), GConfig (sk_currentConfig kv), GConfig (sk_lastConfig kv)]"
  from Snapshot_spec [OF assms, of ?snap] obtain e es rf' where
    s: "Snapshot (sk_rf kv) index ?snap = Some rf'" "synced rf'" "logs rf' = e\<lparr>e_Command := None\<rparr> # es"
    "snapshot (persister rf') = ?snap" by blast
  then have t: "takeSnapshot kv index = Some (kv\<lparr>sk_rf := rf'\<rparr>)" by (simp add: takeSnapshot_def)
  from Make_restores [OF s(2), of n self] s(3) obtain rf'' where
    m: "Make n self (persister rf') = Some rf''" by auto
  have "ReadSnapshot (persister rf') = ?snap" using s(4) by (simp add: ReadSnapshot_def)
  with m have st: "\<exists>kv''. sk_StartServer n self (persister rf') m (sk_gid kv) = Some kv'' \<and> sk_gid kv'' = sk_gid kv \<and>
    sk_stateMachines kv'' = sk_stateMachines kv \<and> sk_lastOperations kv'' = sk_lastOperations kv \<and>
    sk_currentConfig kv'' = sk_currentConfig kv \<and> sk_lastConfig kv'' = sk_lastConfig kv"
    by (simp add: sk_StartServer_def sk_restoreSnapshot_def decode_shardkv_def)
  have same: "getShardIdsByStatus a = getShardIdsByStatus kv" "canServer a = canServer kv"
    if "sk_gid a = sk_gid kv" "sk_stateMachines a = sk_stateMachines kv" "sk_currentConfig a = sk_currentConfig kv"
      "sk_lastConfig a = sk_lastConfig kv" for a
    by (simp_all only: getShardIdsByStatus_def canServer_def that fun_eq_iff simp_thms)
  from st obtain kv'' where k: "sk_StartServer n self (persister rf') m (sk_gid kv) = Some kv''" "sk_gid kv'' = sk_gid kv"
    "sk_stateMachines kv'' = sk_stateMachines kv" "sk_lastOperations kv'' = sk_lastOperations kv"
    "sk_currentConfig kv'' = sk_currentConfig kv" "sk_lastConfig kv'' = sk_lastConfig kv" by blast
  show ?thesis
    by (intro exI [of _ "kv\<lparr>sk_rf := rf'\<rparr>"] exI [of _ kv''] conjI t) (simp_all add: k same [OF k(2,3,5,6)])
qed

theorem sk_snapshot_recovers_witness:
  "\<exists>kv' kv''. takeSnapshot ((group_start 1)\<lparr>sk_rf := (sk_rf (group_start 1))\<lparr>logs := [zero_entry, \<lparr>e_Index = 1, e_Term = 1, e_Command = None\<rparr>]\<rparr>\<rparr>) 1
       = Some kv' \<and> sk_StartServer 3 0 (persister (sk_rf kv')) (-1) 1 = Some kv'' \<and> sk_currentConfig kv'' = DefaultConfig"
proof -
  let ?kv = "(group_start 1)\<lparr>sk_rf := (sk_rf (group_start 1))\<lparr>logs := [zero_entry, \<lparr>e_Index = 1, e_Term = 1, e_Command = None\<rparr>]\<rparr>\<rparr>"
  have ok: "log_ok (logs (sk_rf ?kv))" "first_index (logs (sk_rf ?kv)) < 1" "1 \<le> last_index (logs (sk_rf ?kv))"
    by (auto simp: log_ok_def zero_entry_def nth_Cons split: nat.splits)
  show ?thesis using sk_snapshot_recovers [OF ok, of 3 0 "-1"] by (auto simp: group_start_fields)
qed

end
