(* ===== verification/MR_Coordinator.thy ===== *)
theory MR_Coordinator
  imports Prelude
begin

text \<open>
  The coordinator of the MapReduce library (package mr: coordinator.go, rpc.go,
  formatFilename.go). The files are a map from names to contents; \<open>os.Rename\<close> moves a file and
  fails if it is missing. \<open>log.Fatal\<close> ends the program and is \<^term>\<open>None\<close>, as a panic is. A handler that
  waits on the task queue is split there. The times of deadlines are numbers, and the zero time,
  which a missing map entry holds, lies before every time the clock shows.
\<close>

section \<open>Names\<close>

fun digits :: "nat \<Rightarrow> string" where
  "digits n = (if n < 10 then [char_of (48 + n)] else digits (n div 10) @ [char_of (48 + n mod 10)])"

definition Itoa :: "int \<Rightarrow> string" where
  "Itoa i = (if i < 0 then ''-'' @ digits (nat (- i)) else digits (nat i))"

definition tmpMapOutFile :: "int \<Rightarrow> int \<Rightarrow> string" where
  "tmpMapOutFile mapId reduceId = ''intermediate-map-'' @ Itoa mapId @ ''-'' @ Itoa reduceId"

definition finalMapOutFile :: "int \<Rightarrow> int \<Rightarrow> string" where
  "finalMapOutFile mapId reduceId = ''mr-map-'' @ Itoa mapId @ ''-'' @ Itoa reduceId"

definition tmpReduceOutFile :: "int \<Rightarrow> string" where
  "tmpReduceOutFile reduceId = ''intermeidate-reduce-'' @ Itoa reduceId"

definition finalReduceOutFile :: "int \<Rightarrow> string" where
  "finalReduceOutFile reduceId = ''mr-out-'' @ Itoa reduceId"

definition MAP :: string where "MAP = ''MAP''"
definition REDUCE :: string where "REDUCE = ''REDUCE''"
definition QUIT :: string where "QUIT = ''QUIT''"
definition DONE :: string where "DONE = ''DONE''"

lemma phases_distinct [simp]: "MAP \<noteq> REDUCE" "REDUCE \<noteq> MAP" "MAP \<noteq> DONE" "DONE \<noteq> MAP" "REDUCE \<noteq> DONE" "DONE \<noteq> REDUCE"
  by (simp_all add: MAP_def REDUCE_def DONE_def)

section \<open>State\<close>

type_synonym files = "string \<rightharpoonup> string"

record TaskInfo =
  ti_Id :: int
  ti_TaskType :: string
  ti_Filename :: string
  ti_Deadline :: int

definition zero_time :: int where "zero_time = 0"

definition zero_task :: TaskInfo where
  "zero_task = \<lparr>ti_Id = 0, ti_TaskType = '''', ti_Filename = '''', ti_Deadline = zero_time\<rparr>"

record AssignTaskReply =
  at_Info :: TaskInfo
  at_NMap :: int
  at_NReduce :: int

record ReportTaskArgs =
  rt_TaskID :: int
  rt_TaskType :: string

text \<open>
  The coordinator. \<open>generating\<close> holds the reduce tasks that the goroutine of \<open>generateReduceTasks\<close> has not sent
  yet; it is empty until that goroutine is started.
\<close>

record Coordinator =
  co_nMap :: int
  co_nReduce :: int
  co_taskQueue :: "TaskInfo list"
  co_capacity :: nat
  co_taskTraceMap :: "(string \<times> TaskInfo) list"
  co_Phase :: string
  co_generating :: "TaskInfo list"

definition maxTaskTime :: int where "maxTaskTime = 10 * 1000000000"

section \<open>Operations\<close>

text \<open>A send blocks when the queue is full.\<close>

definition queue_send :: "Coordinator \<Rightarrow> TaskInfo \<Rightarrow> Coordinator option" where
  "queue_send c task =
     (if length (co_taskQueue c) < co_capacity c then Some (c\<lparr>co_taskQueue := co_taskQueue c @ [task]\<rparr>) else None)"

text \<open>\<open>AssignTask\<close>: the test at the start, the receive, and the rest.\<close>

definition AssignTask_check :: "Coordinator \<Rightarrow> AssignTaskReply option" where
  "AssignTask_check c =
     (if co_Phase c = DONE then Some \<lparr>at_Info = zero_task\<lparr>ti_TaskType := QUIT\<rparr>, at_NMap = 0, at_NReduce = 0\<rparr> else None)"

definition AssignTask_receive :: "Coordinator \<Rightarrow> (TaskInfo \<times> Coordinator) option" where
  "AssignTask_receive c =
     (case co_taskQueue c of [] \<Rightarrow> None | task # queue \<Rightarrow> Some (task, c\<lparr>co_taskQueue := queue\<rparr>))"

definition AssignTask_trace :: "Coordinator \<Rightarrow> TaskInfo \<Rightarrow> int \<Rightarrow> AssignTaskReply \<times> Coordinator" where
  "AssignTask_trace c task now =
     (let task = task\<lparr>ti_Deadline := now + maxTaskTime\<rparr>;
          reply = \<lparr>at_Info = task, at_NMap = co_nMap c, at_NReduce = co_nReduce c\<rparr>
      in if co_Phase c \<noteq> DONE
         then (let key = co_Phase c @ ''_'' @ Itoa (ti_Id task)
               in (reply, c\<lparr>co_taskTraceMap := AList.update key task (co_taskTraceMap c)\<rparr>))
         else (reply, c))"

definition Rename :: "files \<Rightarrow> string \<Rightarrow> string \<Rightarrow> files option" where
  "Rename fs old new = (case fs old of None \<Rightarrow> None | Some content \<Rightarrow> Some ((fs(old := None))(new \<mapsto> content)))"

fun rename_loop :: "files \<Rightarrow> int \<Rightarrow> int list \<Rightarrow> files option" where
  "rename_loop fs taskId [] = Some fs"
| "rename_loop fs taskId (i # is) = do {
     fs \<leftarrow> Rename fs (tmpMapOutFile taskId i) (finalMapOutFile taskId i);
     rename_loop fs taskId is
   }"

text \<open>What \<open>ReportTask\<close> does with the files of an accepted task.\<close>

definition accept_files :: "files \<Rightarrow> int \<Rightarrow> string \<Rightarrow> int \<Rightarrow> files option" where
  "accept_files fs nReduce taskType taskId =
     (if taskType = MAP then rename_loop fs taskId [0..nReduce - 1]
      else if taskType = REDUCE then Rename fs (tmpReduceOutFile taskId) (finalReduceOutFile taskId)
      else Some fs)"

definition reduce_tasks :: "int \<Rightarrow> TaskInfo list" where
  "reduce_tasks nReduce = map (\<lambda>i. zero_task\<lparr>ti_Id := i, ti_TaskType := REDUCE\<rparr>) [0..nReduce - 1]"

definition ReportTask :: "Coordinator \<Rightarrow> files \<Rightarrow> int \<Rightarrow> ReportTaskArgs \<Rightarrow> (bool \<times> Coordinator \<times> files) option" where
  "ReportTask c fs now args = do {
     let key = rt_TaskType args @ ''_'' @ Itoa (rt_TaskID args);
     let task = (case map_of (co_taskTraceMap c) key of None \<Rightarrow> zero_task | Some t \<Rightarrow> t);
     (accept, c, fs) \<leftarrow>
       (if now > ti_Deadline task then Some (False, c, fs)
        else do {
          fs \<leftarrow> accept_files fs (co_nReduce c) (rt_TaskType args) (rt_TaskID args);
          Some (True, c\<lparr>co_taskTraceMap := AList.delete key (co_taskTraceMap c)\<rparr>, fs)
        });
     let c = (if co_taskQueue c = [] \<and> co_taskTraceMap c = [] \<and> co_Phase c \<noteq> DONE
              then (if co_Phase c = MAP then c\<lparr>co_Phase := REDUCE, co_generating := reduce_tasks (co_nReduce c)\<rparr>
                    else if co_Phase c = REDUCE then c\<lparr>co_Phase := DONE\<rparr> else c)
              else c);
     Some (accept, c, fs)
   }"

text \<open>The next send of \<open>generateReduceTasks\<close>.\<close>

definition generateReduceTasks :: "Coordinator \<Rightarrow> Coordinator option" where
  "generateReduceTasks c =
     (case co_generating c of
        [] \<Rightarrow> None
      | task # tasks \<Rightarrow> map_option (\<lambda>c. c\<lparr>co_generating := tasks\<rparr>) (queue_send c task))"

definition Done :: "Coordinator \<Rightarrow> bool" where
  "Done c = (co_Phase c = DONE)"

fun send_all :: "Coordinator \<Rightarrow> TaskInfo list \<Rightarrow> Coordinator option" where
  "send_all c [] = Some c"
| "send_all c (task # tasks) = do { c \<leftarrow> queue_send c task; send_all c tasks }"

definition map_tasks :: "string list \<Rightarrow> TaskInfo list" where
  "map_tasks filenames = map (\<lambda>(i, f). zero_task\<lparr>ti_Id := int i, ti_TaskType := MAP, ti_Filename := f\<rparr>) (enumerate 0 filenames)"

definition MakeCoordinator :: "string list \<Rightarrow> int \<Rightarrow> Coordinator option" where
  "MakeCoordinator filenames nReduce =
     send_all \<lparr>co_nMap = int (length filenames), co_nReduce = nReduce, co_taskQueue = [],
               co_capacity = nat (max nReduce (int (length filenames))), co_taskTraceMap = [], co_Phase = MAP,
               co_generating = []\<rparr> (map_tasks filenames)"

text \<open>
  One sweep of \<open>retriveTimeoutTasks\<close> over the keys the map holds when the sweep starts; an entry
  that is deleted before it is reached is not visited. \<^term>\<open>None\<close>: a send blocks, with the lock
  held.
\<close>

fun retrive_loop :: "Coordinator \<Rightarrow> int \<Rightarrow> string list \<Rightarrow> Coordinator option" where
  "retrive_loop c now [] = Some c"
| "retrive_loop c now (key # keys) =
     (case map_of (co_taskTraceMap c) key of
        None \<Rightarrow> retrive_loop c now keys
      | Some task \<Rightarrow>
          (if now > ti_Deadline task
           then do {
             let c = c\<lparr>co_taskTraceMap := AList.delete (ti_TaskType task @ ''_'' @ Itoa (ti_Id task)) (co_taskTraceMap c)\<rparr>;
             c \<leftarrow> queue_send c task;
             retrive_loop c now keys
           }
           else retrive_loop c now keys))"

definition retriveTimeoutTasks :: "Coordinator \<Rightarrow> int \<Rightarrow> (bool \<times> Coordinator) option" where
  "retriveTimeoutTasks c now =
     (if co_Phase c = DONE \<and> co_taskQueue c = [] \<and> co_taskTraceMap c = [] then Some (True, c)
      else map_option (\<lambda>c. (False, c)) (retrive_loop c now (map fst (co_taskTraceMap c))))"

section \<open>The running coordinator\<close>

text \<open>
  The coordinator with the files and the tasks that calls of \<open>AssignTask\<close> have received but not
  traced yet. Workers write files and report whatever they like.
\<close>

record mr_system =
  mr_co :: Coordinator
  mr_files :: files
  mr_inflight :: "TaskInfo list"

datatype mr_event = Receive | Trace nat int | Report int ReportTaskArgs | Generate | Sweep int | Write string string

definition mr_step :: "mr_system \<Rightarrow> mr_event \<Rightarrow> mr_system option" where
  "mr_step s ev =
     (case ev of
        Receive \<Rightarrow>
          (if AssignTask_check (mr_co s) = None
           then map_option (\<lambda>(task, c). s\<lparr>mr_co := c, mr_inflight := mr_inflight s @ [task]\<rparr>) (AssignTask_receive (mr_co s))
           else None)
      | Trace k now \<Rightarrow>
          (if k < length (mr_inflight s)
           then Some (s\<lparr>mr_co := snd (AssignTask_trace (mr_co s) (mr_inflight s ! k) now),
                        mr_inflight := take k (mr_inflight s) @ drop (Suc k) (mr_inflight s)\<rparr>)
           else None)
      | Report now args \<Rightarrow>
          map_option (\<lambda>(accept, c, fs). s\<lparr>mr_co := c, mr_files := fs\<rparr>) (ReportTask (mr_co s) (mr_files s) now args)
      | Generate \<Rightarrow> map_option (\<lambda>c. s\<lparr>mr_co := c\<rparr>) (generateReduceTasks (mr_co s))
      | Sweep now \<Rightarrow> map_option (\<lambda>(stop, c). s\<lparr>mr_co := c\<rparr>) (retriveTimeoutTasks (mr_co s) now)
      | Write name content \<Rightarrow> Some (s\<lparr>mr_files := (mr_files s)(name \<mapsto> content)\<rparr>))"

fun mr_run :: "mr_system \<Rightarrow> mr_event list \<Rightarrow> mr_system option" where
  "mr_run s [] = Some s"
| "mr_run s (ev # evs) = do { s \<leftarrow> mr_step s ev; mr_run s evs }"

definition mr_start :: "string list \<Rightarrow> int \<Rightarrow> files \<Rightarrow> mr_system option" where
  "mr_start filenames nReduce fs =
     map_option (\<lambda>c. \<lparr>mr_co = c, mr_files = fs, mr_inflight = []\<rparr>) (MakeCoordinator filenames nReduce)"

section \<open>Names are distinct\<close>

lemma char_of_digit: "d < 10 \<Longrightarrow> of_char (char_of (48 + d) :: char) = (48 + d :: nat)"
  by (simp add: of_char_of)

lemma digit_inj: "d < 10 \<Longrightarrow> e < 10 \<Longrightarrow> (char_of (48 + d) :: char) = char_of (48 + e :: nat) \<Longrightarrow> d = e"
  using char_of_digit [of d] char_of_digit [of e] by simp

declare digits.simps [simp del]

lemma digits_nonempty [simp]: "digits n \<noteq> []" "[] \<noteq> digits n"
  by (subst digits.simps, simp)+

lemma digits_inj: "digits m = digits n \<Longrightarrow> m = n"
proof (induction m arbitrary: n rule: digits.induct)
  case (1 m)
  show ?case
  proof (cases "m < 10 \<and> n < 10")
    case True
    with 1(2) show ?thesis using digit_inj [of m n] by (simp add: digits.simps [of m] digits.simps [of n])
  next
    case False
    then consider "m < 10" "\<not> n < 10" | "\<not> m < 10" "n < 10" | "\<not> m < 10" "\<not> n < 10" by blast
    then show ?thesis
    proof cases
      case 3
      with 1(2) have "digits (m div 10) = digits (n div 10)" "(char_of (48 + m mod 10) :: char) = char_of (48 + n mod 10)"
        by (simp_all add: digits.simps [of m] digits.simps [of n])
      with 1(1) [OF 3(1)] digit_inj [of "m mod 10" "n mod 10"] have "m div 10 = n div 10" "m mod 10 = n mod 10" by simp_all
      then show ?thesis by (metis div_mult_mod_eq)
    qed (use 1(2) in \<open>auto simp: digits.simps [of m] digits.simps [of n]\<close>)
  qed
qed

lemma digits_chars: "c \<in> set (digits n) \<Longrightarrow> \<exists>d<10. c = char_of (48 + d :: nat)"
proof (induction n rule: digits.induct)
  case (1 n)
  show ?case
  proof (cases "n < 10")
    case False
    with 1 show ?thesis by (subst (asm) digits.simps) (auto intro: exI [of _ "n mod 10"])
  qed (use 1 in \<open>auto simp: digits.simps [of n]\<close>)
qed

lemma dash_no_digit: "CHR ''-'' \<notin> set (digits n)"
proof
  assume "CHR ''-'' \<in> set (digits n)"
  then obtain d where "d < 10" "CHR ''-'' = char_of (48 + d :: nat)" using digits_chars by blast
  then have "of_char (CHR ''-'') = (48 + d :: nat)" using char_of_digit by metis
  then show False by simp
qed

lemma Itoa_inj: "0 \<le> i \<Longrightarrow> 0 \<le> j \<Longrightarrow> Itoa i = Itoa j \<Longrightarrow> i = j"
  using digits_inj [of "nat i" "nat j"] by (simp add: Itoa_def)

section \<open>No map task is lost\<close>

lemma delete_keeps: "k' \<noteq> k \<Longrightarrow> (k', t) \<in> set m \<Longrightarrow> (k', t) \<in> set (AList.delete k m)"
  by (simp add: AList.delete_eq)

lemma delete_subset: "set (AList.delete k m) \<subseteq> set m"
  by (auto simp: AList.delete_eq)

lemma update_keeps: "k' \<noteq> k \<Longrightarrow> (k', t) \<in> set m \<Longrightarrow> (k', t) \<in> set (AList.update k v m)"
  by (induction m) auto

lemma update_mem: "(k, v) \<in> set (AList.update k v m)"
  by (induction m) auto

lemma update_subset: "set (AList.update k v m) \<subseteq> insert (k, v) (set m)"
  by (induction m) auto

definition map_key :: "int \<Rightarrow> string" where
  "map_key i = MAP @ ''_'' @ Itoa i"

lemma map_key_inj: "0 \<le> i \<Longrightarrow> 0 \<le> j \<Longrightarrow> map_key i = map_key j \<Longrightarrow> i = j"
  using Itoa_inj by (simp add: map_key_def)

definition mapped :: "files \<Rightarrow> int \<Rightarrow> int \<Rightarrow> bool" where
  "mapped fs nReduce i \<longleftrightarrow> (\<forall>r \<in> {0..<nReduce}. fs (finalMapOutFile i r) \<noteq> None)"

definition map_task :: "TaskInfo \<Rightarrow> bool" where
  "map_task t \<longleftrightarrow> ti_TaskType t = MAP \<and> 0 \<le> ti_Id t"

definition traced :: "(string \<times> TaskInfo) list \<Rightarrow> int set" where
  "traced m = ti_Id ` snd ` set m"

text \<open>A map task waits, is being assigned, is traced, or its output files are in place.\<close>

definition located :: "mr_system \<Rightarrow> int \<Rightarrow> bool" where
  "located s i \<longleftrightarrow> i \<in> ti_Id ` set (co_taskQueue (mr_co s)) \<or> i \<in> ti_Id ` set (mr_inflight s) \<or>
     i \<in> traced (co_taskTraceMap (mr_co s)) \<or> mapped (mr_files s) (co_nReduce (mr_co s)) i"

definition keyed :: "(string \<times> TaskInfo) list \<Rightarrow> bool" where
  "keyed m \<longleftrightarrow> (\<forall>(k, t) \<in> set m. map_task t \<and> k = map_key (ti_Id t))"

text \<open>While maps are running: the tasks have their type and their key, and no map task is lost.\<close>

definition map_inv :: "mr_system \<Rightarrow> bool" where
  "map_inv s \<longleftrightarrow>
     (\<forall>t \<in> set (co_taskQueue (mr_co s)). map_task t) \<and> (\<forall>t \<in> set (mr_inflight s). map_task t) \<and>
     keyed (co_taskTraceMap (mr_co s)) \<and> co_generating (mr_co s) = [] \<and>
     (\<forall>i \<in> {0..<co_nMap (mr_co s)}. located s i)"

lemma keyedD: "keyed m \<Longrightarrow> (k, t) \<in> set m \<Longrightarrow> map_task t \<and> k = map_key (ti_Id t)"
  unfolding keyed_def by blast

lemma keyed_update: "keyed m \<Longrightarrow> map_task t \<Longrightarrow> keyed (AList.update (map_key (ti_Id t)) t m)"
  using update_subset [of "map_key (ti_Id t)" t m] by (fastforce simp: keyed_def)

lemma keyed_delete: "keyed m \<Longrightarrow> keyed (AList.delete k m)"
  using delete_subset [of k m] by (fastforce simp: keyed_def)

lemma traced_update:
  assumes "keyed m" "map_task t"
  shows "insert (ti_Id t) (traced m) \<subseteq> traced (AList.update (map_key (ti_Id t)) t m)"
proof
  fix i assume i: "i \<in> insert (ti_Id t) (traced m)"
  let ?m = "AList.update (map_key (ti_Id t)) t m"
  have "\<exists>k u. (k, u) \<in> set ?m \<and> ti_Id u = i"
  proof (cases "i = ti_Id t")
    case True
    then show ?thesis using update_mem by metis
  next
    case False
    with i obtain k u where u: "(k, u) \<in> set m" "ti_Id u = i" by (auto simp: traced_def)
    have "0 \<le> i" "0 \<le> ti_Id t" "k = map_key i"
      using keyedD [OF assms(1) u(1)] u(2) assms(2) by (simp_all add: map_task_def)
    with False have "k \<noteq> map_key (ti_Id t)" using map_key_inj by blast
    from update_keeps [OF this u(1)] u(2) show ?thesis by blast
  qed
  then show "i \<in> traced ?m" by (force simp: traced_def)
qed

lemma traced_delete:
  assumes "keyed m" "0 \<le> j"
  shows "traced m \<subseteq> insert j (traced (AList.delete (map_key j) m))"
proof
  fix i assume "i \<in> traced m"
  then obtain k u where u: "(k, u) \<in> set m" "ti_Id u = i" by (auto simp: traced_def)
  show "i \<in> insert j (traced (AList.delete (map_key j) m))"
  proof (cases "k = map_key j")
    case True
    with keyedD [OF assms(1) u(1)] u(2) have "0 \<le> i" "map_key i = map_key j" by (simp_all add: map_task_def)
    with map_key_inj assms(2) show ?thesis by blast
  next
    case False
    from delete_keeps [OF False u(1)] u(2) show ?thesis by (force simp: traced_def)
  qed
qed

lemma names_apart [simp]:
  "finalMapOutFile i r \<noteq> tmpMapOutFile j q" "finalMapOutFile i r \<noteq> tmpReduceOutFile q"
  "tmpMapOutFile j q \<noteq> finalMapOutFile i r" "tmpReduceOutFile q \<noteq> finalMapOutFile i r"
  by (simp_all add: finalMapOutFile_def tmpMapOutFile_def tmpReduceOutFile_def)

lemma Rename_keeps:
  "Rename fs old new = Some fs' \<Longrightarrow> fs x \<noteq> None \<Longrightarrow> x \<noteq> old \<Longrightarrow> fs' x \<noteq> None"
  by (auto simp: Rename_def split: option.splits)

lemma rename_loop_spec:
  assumes "rename_loop fs i rs = Some fs'"
  shows "(\<forall>j q. fs (finalMapOutFile j q) \<noteq> None \<longrightarrow> fs' (finalMapOutFile j q) \<noteq> None) \<and>
    (\<forall>r \<in> set rs. fs' (finalMapOutFile i r) \<noteq> None)"
  using assms
proof (induction fs i rs rule: rename_loop.induct)
  case (2 fs i r rs)
  from 2(2) obtain fs1 where fs1: "Rename fs (tmpMapOutFile i r) (finalMapOutFile i r) = Some fs1" "rename_loop fs1 i rs = Some fs'"
    by (auto simp: bind_Some_iff)
  have "fs1 (finalMapOutFile i r) \<noteq> None" using fs1(1) by (auto simp: Rename_def split: option.splits)
  with 2(1) [OF fs1] Rename_keeps [OF fs1(1)] show ?case by auto
qed simp

lemma accept_files_spec:
  assumes "accept_files fs nReduce ty i = Some fs'"
  shows "(mapped fs nReduce j \<longrightarrow> mapped fs' nReduce j) \<and> (ty = MAP \<longrightarrow> mapped fs' nReduce i)"
proof (cases "ty = MAP")
  case True
  with assms rename_loop_spec [of fs i "[0..nReduce - 1]" fs'] show ?thesis by (auto simp: accept_files_def mapped_def)
next
  case False
  have "fs' (finalMapOutFile j q) \<noteq> None" if "fs (finalMapOutFile j q) \<noteq> None" for q
    using assms that False Rename_keeps by (auto simp: accept_files_def split: if_splits)
  with False show ?thesis by (auto simp: mapped_def)
qed

definition same_job :: "mr_system \<Rightarrow> mr_system \<Rightarrow> bool" where
  "same_job s s' \<longleftrightarrow> co_nMap (mr_co s') = co_nMap (mr_co s) \<and> co_nReduce (mr_co s') = co_nReduce (mr_co s)"

lemma map_inv_move:
  assumes "map_inv s" "\<And>i. located s i \<Longrightarrow> located s' i" "same_job s s'"
    "set (co_taskQueue (mr_co s')) \<union> set (mr_inflight s') \<subseteq> {t. map_task t}" "keyed (co_taskTraceMap (mr_co s'))"
    "co_generating (mr_co s') = []"
  shows "map_inv s'"
  using assms unfolding map_inv_def same_job_def by auto

lemma receive_inv:
  assumes "map_inv s" "mr_step s Receive = Some s'"
  shows "map_inv s'"
proof -
  from assms(2) obtain t q where q: "co_taskQueue (mr_co s) = t # q"
    "s' = s\<lparr>mr_co := (mr_co s)\<lparr>co_taskQueue := q\<rparr>, mr_inflight := mr_inflight s @ [t]\<rparr>"
    by (auto simp: mr_step_def AssignTask_receive_def split: if_splits list.splits)
  show ?thesis
    by (rule map_inv_move [OF assms(1)]) (use assms(1) q in \<open>auto simp: located_def same_job_def map_inv_def\<close>)
qed

lemma trace_inv:
  assumes inv: "map_inv s" and ph: "co_Phase (mr_co s) = MAP" and st: "mr_step s (Trace k now) = Some s'"
  shows "map_inv s' \<and> co_Phase (mr_co s') = MAP \<and> same_job s s'"
proof -
  let ?t = "(mr_inflight s ! k)\<lparr>ti_Deadline := now + maxTaskTime\<rparr>" and ?m = "co_taskTraceMap (mr_co s)"
  have k: "k < length (mr_inflight s)" and s': "s' = s\<lparr>mr_co := (mr_co s)\<lparr>co_taskTraceMap := AList.update (map_key (ti_Id ?t)) ?t ?m\<rparr>,
      mr_inflight := take k (mr_inflight s) @ drop (Suc k) (mr_inflight s)\<rparr>"
    using st ph by (auto simp: mr_step_def AssignTask_trace_def Let_def map_key_def MAP_def DONE_def split: if_splits)
  have m: "keyed ?m" "\<forall>t \<in> set (mr_inflight s). map_task t" using inv by (simp_all add: map_inv_def)
  have t: "map_task ?t" using m(2) k by (simp add: map_task_def)
  have split: "mr_inflight s = take k (mr_inflight s) @ mr_inflight s ! k # drop (Suc k) (mr_inflight s)" using k by (rule id_take_nth_drop)
  have inflight: "ti_Id ` set (mr_inflight s) = insert (ti_Id ?t) (ti_Id ` set (mr_inflight s'))"
    by (subst split) (simp add: s' image_Un)
  show ?thesis
  proof (intro conjI map_inv_move [OF inv])
    show "located s' i" if "located s i" for i
      using that inflight traced_update [OF m(1) t] unfolding located_def by (auto simp: s')
    show "keyed (co_taskTraceMap (mr_co s'))" using keyed_update [OF m(1) t] by (simp add: s')
    show "set (co_taskQueue (mr_co s')) \<union> set (mr_inflight s') \<subseteq> {t. map_task t}"
      using inv by (auto simp: s' map_inv_def dest: in_set_takeD in_set_dropD)
  qed (use inv ph s' in \<open>auto simp: same_job_def map_inv_def\<close>)
qed

lemma write_inv:
  assumes inv: "map_inv s" and st: "mr_step s (Write name content) = Some s'"
  shows "map_inv s'"
proof -
  have s': "s' = s\<lparr>mr_files := (mr_files s)(name \<mapsto> content)\<rparr>" using st by (simp add: mr_step_def)
  show ?thesis
    by (rule map_inv_move [OF inv]) (use inv in \<open>auto simp: s' located_def mapped_def same_job_def map_inv_def\<close>)
qed

lemma retrive_inv:
  assumes "map_inv s" "retrive_loop (mr_co s) now keys = Some c'"
  shows "map_inv (s\<lparr>mr_co := c'\<rparr>) \<and> co_Phase c' = co_Phase (mr_co s) \<and> same_job s (s\<lparr>mr_co := c'\<rparr>)"
  using assms
proof (induction keys arbitrary: s)
  case Nil
  then show ?case by (cases s) (simp add: same_job_def)
next
  case (Cons key keys)
  have m: "keyed (co_taskTraceMap (mr_co s))" using Cons.prems(1) by (simp add: map_inv_def)
  show ?case
  proof (cases "\<exists>t. map_of (co_taskTraceMap (mr_co s)) key = Some t \<and> now > ti_Deadline t")
    case False
    then have "retrive_loop (mr_co s) now keys = Some c'" using Cons.prems(2) by (auto split: option.splits if_splits)
    with Cons show ?thesis by blast
  next
    case True
    then obtain t where t: "map_of (co_taskTraceMap (mr_co s)) key = Some t" "now > ti_Deadline t" by blast
    then have mt: "map_task t" "ti_TaskType t @ CHR ''_'' # Itoa (ti_Id t) = map_key (ti_Id t)"
      using m map_of_SomeD [OF t(1)] by (auto simp: keyed_def map_task_def map_key_def)
    let ?d = "AList.delete (map_key (ti_Id t)) (co_taskTraceMap (mr_co s))"
    from Cons.prems(2) t obtain c where c: "queue_send ((mr_co s)\<lparr>co_taskTraceMap := ?d\<rparr>) t = Some c" "retrive_loop c now keys = Some c'"
      by (auto simp: bind_Some_iff Let_def mt)
    have c_eq: "c = (mr_co s)\<lparr>co_taskTraceMap := ?d, co_taskQueue := co_taskQueue (mr_co s) @ [t]\<rparr>"
      using c(1) by (auto simp: queue_send_def split: if_splits)
    let ?s = "s\<lparr>mr_co := c\<rparr>"
    have "map_inv ?s"
    proof (rule map_inv_move [OF Cons.prems(1)])
      show "located ?s i" if "located s i" for i
        using that traced_delete [OF m, of "ti_Id t"] mt(1) by (auto simp: located_def c_eq map_task_def)
      show "keyed (co_taskTraceMap (mr_co ?s))" using keyed_delete [OF m] by (simp add: c_eq)
    qed (use Cons.prems(1) mt in \<open>auto simp: c_eq same_job_def map_inv_def\<close>)
    with Cons.IH [of ?s] c(2) show ?thesis by (simp add: c_eq same_job_def)
  qed
qed

lemma underscore_no_digit: "CHR ''_'' \<notin> set (Itoa i)"
proof -
  have "CHR ''_'' \<notin> set (digits n)" for n
  proof
    assume "CHR ''_'' \<in> set (digits n)"
    then obtain d where "d < 10" "CHR ''_'' = char_of (48 + d :: nat)" using digits_chars by blast
    then have "of_char (CHR ''_'') = (48 + d :: nat)" using char_of_digit by metis
    with \<open>d < 10\<close> show False by simp
  qed
  then show ?thesis by (simp add: Itoa_def)
qed

lemma split_last:
  assumes "xs @ c # ys = xs' @ c # ys'" "c \<notin> set ys" "c \<notin> set ys'"
  shows "xs = xs' \<and> ys = ys'"
  using assms by (auto simp: append_eq_append_conv2 Cons_eq_append_conv append_eq_Cons_conv)

lemma report_key:
  assumes "ty @ ''_'' @ Itoa i = map_key j" "0 \<le> j"
  shows "ty = MAP \<and> i = j"
proof -
  have "ty @ CHR ''_'' # Itoa i = MAP @ CHR ''_'' # Itoa j" using assms(1) by (simp add: map_key_def)
  from split_last [OF this underscore_no_digit underscore_no_digit] have "ty = MAP" "Itoa i = Itoa j" by auto
  moreover have "i = j"
  proof (cases "i < 0")
    case True
    with \<open>Itoa i = Itoa j\<close> assms(2) have "digits (nat j) = CHR ''-'' # digits (nat (- i))" by (simp add: Itoa_def)
    then have "CHR ''-'' \<in> set (digits (nat j))" by simp
    then show ?thesis using dash_no_digit by blast
  qed (use Itoa_inj assms(2) \<open>Itoa i = Itoa j\<close> in simp)
  ultimately show ?thesis by simp
qed

text \<open>A report keeps every map task in place; the phase ends only when nothing waits and nothing is traced.\<close>

text \<open>
  What a report does while the coordinator maps: an accepted one renames the files and drops the
  task's trace, any other changes nothing; then the phase ends when no task is left.
\<close>

definition end_map :: "Coordinator \<Rightarrow> Coordinator" where
  "end_map c = (if co_taskQueue c = [] \<and> co_taskTraceMap c = []
     then c\<lparr>co_Phase := REDUCE, co_generating := reduce_tasks (co_nReduce c)\<rparr> else c)"

lemma report_cases:
  assumes "co_Phase (mr_co s) = MAP" and st: "mr_step s (Report now args) = Some s'"
  obtains (refused) "s' = s\<lparr>mr_co := end_map (mr_co s)\<rparr>"
  | (accepted) fs where "accept_files (mr_files s) (co_nReduce (mr_co s)) (rt_TaskType args) (rt_TaskID args) = Some fs"
      "s' = s\<lparr>mr_files := fs, mr_co := end_map ((mr_co s)\<lparr>co_taskTraceMap :=
         AList.delete (rt_TaskType args @ ''_'' @ Itoa (rt_TaskID args)) (co_taskTraceMap (mr_co s))\<rparr>)\<rparr>"
proof (cases "now > ti_Deadline (case map_of (co_taskTraceMap (mr_co s)) (rt_TaskType args @ ''_'' @ Itoa (rt_TaskID args))
    of None \<Rightarrow> zero_task | Some t \<Rightarrow> t)")
  case True
  then show ?thesis using assms by (intro refused) (auto simp: mr_step_def ReportTask_def end_map_def Let_def)
next
  case False
  with st obtain fs where "accept_files (mr_files s) (co_nReduce (mr_co s)) (rt_TaskType args) (rt_TaskID args) = Some fs"
    by (auto simp: mr_step_def ReportTask_def Let_def bind_Some_iff)
  then show ?thesis using accepted assms False by (auto simp: mr_step_def ReportTask_def end_map_def Let_def)
qed

lemma accepted_located:
  assumes m: "keyed (co_taskTraceMap (mr_co s))"
    and acc: "accept_files (mr_files s) (co_nReduce (mr_co s)) (rt_TaskType args) (rt_TaskID args) = Some fs"
    and i: "located s i"
  shows "located (s\<lparr>mr_files := fs, mr_co := (mr_co s)\<lparr>co_taskTraceMap :=
    AList.delete (rt_TaskType args @ ''_'' @ Itoa (rt_TaskID args)) (co_taskTraceMap (mr_co s))\<rparr>\<rparr>) i"
proof -
  let ?c = "mr_co s" and ?key = "rt_TaskType args @ ''_'' @ Itoa (rt_TaskID args)"
  have "i \<in> traced (AList.delete ?key (co_taskTraceMap ?c)) \<or> mapped fs (co_nReduce ?c) i" if t: "i \<in> traced (co_taskTraceMap ?c)"
  proof -
    from t obtain k u where u: "(k, u) \<in> set (co_taskTraceMap ?c)" "ti_Id u = i" by (auto simp: traced_def)
    show ?thesis
    proof (cases "k = ?key")
      case True
      then have "rt_TaskType args = MAP \<and> rt_TaskID args = i"
        using keyedD [OF m u(1)] u(2) by (intro report_key) (simp_all add: map_task_def)
      then show ?thesis using accept_files_spec [OF acc, of i] by blast
    next
      case False
      from delete_keeps [OF False u(1)] u(2) show ?thesis by (force simp: traced_def)
    qed
  qed
  with i accept_files_spec [OF acc, of i] show ?thesis unfolding located_def by auto
qed

lemma ended_map:
  assumes "map_inv t" "co_Phase (mr_co t) = MAP"
  shows "same_job t (t\<lparr>mr_co := end_map (mr_co t)\<rparr>) \<and> (\<forall>i. located (t\<lparr>mr_co := end_map (mr_co t)\<rparr>) i = located t i) \<and>
    (co_Phase (end_map (mr_co t)) = MAP \<and> map_inv (t\<lparr>mr_co := end_map (mr_co t)\<rparr>) \<or>
     co_Phase (end_map (mr_co t)) = REDUCE \<and> co_taskQueue (end_map (mr_co t)) = [] \<and> co_taskTraceMap (end_map (mr_co t)) = [])"
proof (cases "co_taskQueue (mr_co t) = [] \<and> co_taskTraceMap (mr_co t) = []")
  case False
  then have "t\<lparr>mr_co := end_map (mr_co t)\<rparr> = t" "end_map (mr_co t) = mr_co t" unfolding end_map_def by (simp_all only: if_False) simp
  with assms show ?thesis by (simp add: same_job_def)
qed (simp add: end_map_def same_job_def located_def)

lemma report_located:
  assumes inv: "map_inv s" and ph: "co_Phase (mr_co s) = MAP" and st: "mr_step s (Report now args) = Some s'"
  shows "same_job s s' \<and> mr_inflight s' = mr_inflight s \<and> (\<forall>i. located s i \<longrightarrow> located s' i) \<and>
    (co_Phase (mr_co s') = MAP \<and> map_inv s' \<or>
     co_Phase (mr_co s') = REDUCE \<and> co_taskQueue (mr_co s') = [] \<and> co_taskTraceMap (mr_co s') = [])"
  using ph st
proof (cases rule: report_cases)
  case refused
  with ended_map [OF inv ph] show ?thesis by simp
next
  case (accepted fs)
  let ?t = "s\<lparr>mr_files := fs, mr_co := (mr_co s)\<lparr>co_taskTraceMap :=
    AList.delete (rt_TaskType args @ ''_'' @ Itoa (rt_TaskID args)) (co_taskTraceMap (mr_co s))\<rparr>\<rparr>"
  have m: "keyed (co_taskTraceMap (mr_co s))" using inv by (simp add: map_inv_def)
  note loc = accepted_located [OF m accepted(1)]
  have "map_inv ?t"
    using inv loc keyed_delete [OF m] ph by (intro map_inv_move [OF inv]) (auto simp: map_inv_def same_job_def)
  with ended_map [of ?t] loc ph show ?thesis by (simp add: accepted(2) same_job_def)
qed

lemma phase_stays: "mr_step s ev = Some s' \<Longrightarrow> co_Phase (mr_co s) \<noteq> MAP \<Longrightarrow> co_Phase (mr_co s') \<noteq> MAP"
proof (cases ev)
  case (Sweep now)
  assume st: "mr_step s ev = Some s'" and ph: "co_Phase (mr_co s) \<noteq> MAP"
  have "retrive_loop c now keys = Some c' \<Longrightarrow> co_Phase c' = co_Phase c" for c c' keys
    by (induction c now keys rule: retrive_loop.induct) (auto simp: bind_Some_iff Let_def queue_send_def split: option.splits if_splits)
  with st ph Sweep show ?thesis by (auto simp: mr_step_def retriveTimeoutTasks_def split: if_splits)
qed (auto simp: mr_step_def AssignTask_receive_def AssignTask_trace_def ReportTask_def generateReduceTasks_def queue_send_def
    Let_def bind_Some_iff MAP_def REDUCE_def DONE_def split: if_splits list.splits)

lemma step_map_inv:
  assumes inv: "map_inv s" and ph: "co_Phase (mr_co s) = MAP" and st: "mr_step s ev = Some s'" and ph': "co_Phase (mr_co s') = MAP"
  shows "map_inv s' \<and> same_job s s'"
proof (cases ev)
  case Receive
  with receive_inv [OF inv] st show ?thesis by (auto simp: mr_step_def same_job_def AssignTask_receive_def split: if_splits list.splits)
next
  case (Trace k now)
  with trace_inv [OF inv ph] st show ?thesis by blast
next
  case (Report now args)
  from report_located [OF inv ph st [unfolded Report]] ph' show ?thesis by simp
next
  case Generate
  with st inv show ?thesis by (simp add: mr_step_def generateReduceTasks_def map_inv_def)
next
  case (Sweep now)
  with st ph obtain c where "retrive_loop (mr_co s) now (map fst (co_taskTraceMap (mr_co s))) = Some c" "s' = s\<lparr>mr_co := c\<rparr>"
    by (auto simp: mr_step_def retriveTimeoutTasks_def MAP_def DONE_def split: if_splits)
  with retrive_inv [OF inv] show ?thesis by blast
next
  case (Write name content)
  with write_inv [OF inv] st show ?thesis by (auto simp: mr_step_def same_job_def)
qed

lemma run_phase: "mr_run s evs = Some s' \<Longrightarrow> co_Phase (mr_co s) \<noteq> MAP \<Longrightarrow> co_Phase (mr_co s') \<noteq> MAP"
proof (induction s evs rule: mr_run.induct)
  case (2 s ev evs)
  from 2(2) obtain s1 where "mr_step s ev = Some s1" "mr_run s1 evs = Some s'" by (auto simp: bind_Some_iff)
  with 2 phase_stays show ?case by blast
qed simp

lemma run_map_inv:
  "mr_run s evs = Some s' \<Longrightarrow> map_inv s \<Longrightarrow> co_Phase (mr_co s') = MAP \<Longrightarrow> map_inv s' \<and> same_job s s'"
proof (induction s evs rule: mr_run.induct)
  case (1 s)
  then show ?case by (simp add: same_job_def)
next
  case (2 s ev evs)
  from 2(2) obtain s1 where s1: "mr_step s ev = Some s1" "mr_run s1 evs = Some s'" by (auto simp: bind_Some_iff)
  then have "co_Phase (mr_co s1) = MAP" "co_Phase (mr_co s) = MAP" using run_phase phase_stays 2(4) by blast+
  with step_map_inv [OF 2(3) _ s1(1)] 2(1) [OF s1] 2(4) show ?case by (simp add: same_job_def)
qed

lemma send_all_queue:
  "length (co_taskQueue c) + length ts \<le> co_capacity c \<Longrightarrow> send_all c ts = Some (c\<lparr>co_taskQueue := co_taskQueue c @ ts\<rparr>)"
  by (induction ts arbitrary: c) (simp_all add: queue_send_def)

lemma MakeCoordinator_spec:
  "MakeCoordinator filenames nReduce =
     Some \<lparr>co_nMap = int (length filenames), co_nReduce = nReduce, co_taskQueue = map_tasks filenames,
           co_capacity = nat (max nReduce (int (length filenames))), co_taskTraceMap = [], co_Phase = MAP, co_generating = []\<rparr>"
  unfolding MakeCoordinator_def by (subst send_all_queue) (simp_all add: map_tasks_def)

lemma map_tasks_ids: "ti_Id ` set (map_tasks filenames) = {0..<int (length filenames)}"
proof -
  have "ti_Id ` set (map_tasks filenames) = int ` fst ` set (enumerate 0 filenames)"
    by (force simp: map_tasks_def image_image)
  also have "fst ` set (enumerate 0 filenames) = {0..<length filenames}"
    using map_fst_enumerate [of 0 filenames] by (metis add_0 set_map set_upt)
  finally show ?thesis by (simp add: image_int_atLeastLessThan)
qed

lemma start_inv:
  assumes "mr_start filenames nReduce fs = Some s"
  shows "map_inv s \<and> co_nMap (mr_co s) = int (length filenames) \<and> co_nReduce (mr_co s) = nReduce"
proof -
  have "map_task t" if "t \<in> set (map_tasks filenames)" for t
    using that by (auto simp: map_tasks_def map_task_def)
  then show ?thesis
    using assms by (auto simp: mr_start_def MakeCoordinator_spec map_inv_def keyed_def located_def map_tasks_ids)
qed

text \<open>
  C39: No map task is lost before its output is in place. In every state that the coordinator
  reaches in its map phase, whatever workers do and however tasks time out, each map task is in the
  queue, with a call of \<open>AssignTask\<close>, in the trace map, or all its output files have their final
  names. When the phase ends while no call of \<open>AssignTask\<close> is between its receive and its entry in
  the trace map, the output files of every map task are in place.
\<close>

theorem map_phase_complete:
  assumes "mr_start filenames nReduce fs = Some s0" "mr_run s0 evs = Some s" "co_Phase (mr_co s) = MAP"
    and "mr_step s ev = Some s'"
  shows "(\<forall>i \<in> {0..<int (length filenames)}. located s i) \<and>
    (co_Phase (mr_co s') \<noteq> MAP \<longrightarrow> mr_inflight s = [] \<longrightarrow>
      (\<forall>i \<in> {0..<int (length filenames)}. \<forall>r \<in> {0..<nReduce}. mr_files s' (finalMapOutFile i r) \<noteq> None))"
proof -
  note S = start_inv [OF assms(1)]
  from run_map_inv [OF assms(2) _ assms(3)] S have inv: "map_inv s" and job: "co_nMap (mr_co s) = int (length filenames)" "co_nReduce (mr_co s) = nReduce"
    by (auto simp: same_job_def)
  have loc: "located s i" if "i \<in> {0..<int (length filenames)}" for i
    using inv that by (simp add: map_inv_def job)
  have "mr_files s' (finalMapOutFile i r) \<noteq> None"
    if ph': "co_Phase (mr_co s') \<noteq> MAP" and none: "mr_inflight s = []" and i: "i \<in> {0..<int (length filenames)}" and r: "r \<in> {0..<nReduce}" for i r
  proof -
    have "\<exists>now args. ev = Report now args"
    proof (cases ev)
      case (Sweep now)
      with assms(3,4) obtain c where "retrive_loop (mr_co s) now (map fst (co_taskTraceMap (mr_co s))) = Some c" "s' = s\<lparr>mr_co := c\<rparr>"
        by (auto simp: mr_step_def retriveTimeoutTasks_def split: if_splits)
      with retrive_inv [OF inv] assms(3) ph' show ?thesis by simp
    qed (use assms(3,4) ph' in \<open>auto simp: mr_step_def AssignTask_receive_def AssignTask_trace_def generateReduceTasks_def queue_send_def
      Let_def split: if_splits list.splits\<close>)
    then obtain now args where "ev = Report now args" by blast
    with report_located [OF inv assms(3)] assms(4) ph' loc [OF i] none have
      "located s' i" "co_taskQueue (mr_co s') = []" "co_taskTraceMap (mr_co s') = []" "mr_inflight s' = []" "co_nReduce (mr_co s') = nReduce"
      using job by (auto simp: same_job_def)
    with r show ?thesis by (auto simp: located_def traced_def mapped_def)
  qed
  with loc show ?thesis by blast
qed

text \<open>One input file, one reduce task; the map task times out once and is done by a second worker.\<close>

definition late_start :: "mr_event list" where
  "late_start = [Receive, Trace 0 1, Sweep 10000000002, Receive, Trace 0 10000000003, Write (tmpMapOutFile 0 0) '''']"

definition map_report :: "int \<Rightarrow> mr_event" where
  "map_report now = Report now \<lparr>rt_TaskID = 0, rt_TaskType = MAP\<rparr>"

lemmas mr_eval = mr_start_def MakeCoordinator_spec map_tasks_def mr_step_def AssignTask_check_def AssignTask_receive_def
  AssignTask_trace_def ReportTask_def retriveTimeoutTasks_def queue_send_def accept_files_def Rename_def zero_task_def zero_time_def
  maxTaskTime_def late_start_def map_report_def

definition late_state :: mr_system where
  "late_state =
     \<lparr>mr_co = \<lparr>co_nMap = 1, co_nReduce = 1, co_taskQueue = [], co_capacity = 1,
               co_taskTraceMap = [(MAP @ ''_'' @ Itoa 0, \<lparr>ti_Id = 0, ti_TaskType = MAP, ti_Filename = ''a'', ti_Deadline = 20000000003\<rparr>)],
               co_Phase = MAP, co_generating = []\<rparr>,
      mr_files = [tmpMapOutFile 0 0 \<mapsto> ''''], mr_inflight = []\<rparr>"

definition reduce_state :: mr_system where
  "reduce_state = late_state\<lparr>
     mr_co := (mr_co late_state)\<lparr>co_taskTraceMap := [], co_Phase := REDUCE, co_generating := reduce_tasks 1\<rparr>,
     mr_files := [finalMapOutFile 0 0 \<mapsto> '''']\<rparr>"

lemma late_run: "\<exists>s0. mr_start [''a''] 1 Map.empty = Some s0 \<and> mr_run s0 late_start = Some late_state"
  by (simp add: mr_eval late_state_def Let_def)

lemma late_accept: "mr_step late_state (map_report 10000000004) = Some reduce_state"
  by (simp add: mr_eval late_state_def reduce_state_def Let_def fun_upd_def fun_eq_iff)

theorem map_phase_complete_witness:
  "\<exists>s0 s s'. mr_start [''a''] 1 Map.empty = Some s0 \<and> mr_run s0 late_start = Some s \<and>
     mr_step s (map_report 10000000004) = Some s' \<and> co_Phase (mr_co s') = REDUCE \<and> mr_files s' (finalMapOutFile 0 0) \<noteq> None"
proof -
  obtain s0 where s0: "mr_start [''a''] 1 Map.empty = Some s0" "mr_run s0 late_start = Some late_state" using late_run by blast
  have "co_Phase (mr_co late_state) = MAP" "mr_inflight late_state = []" "co_Phase (mr_co reduce_state) = REDUCE"
    by (simp_all add: late_state_def reduce_state_def)
  with map_phase_complete [OF s0 _ late_accept] s0 late_accept show ?thesis
    by (intro exI [of _ s0] exI [of _ late_state] exI [of _ reduce_state]) auto
qed

text \<open>
  C40: A late report ends the job before its reduce tasks. After the last map task is accepted,
  the coordinator is in its reduce phase while the goroutine that queues the reduce tasks may not
  have run. A worker whose map task had timed out and been given to another reports now: its report
  is rejected, but \<open>ReportTask\<close> goes on to its test, finds queue and trace map empty, and sets the
  phase to done. \<open>Done\<close> answers true, no reduce task has been assigned, and no output exists.
\<close>

theorem late_report_ends_job:
  "\<exists>s0 s s'. mr_start [''a''] 1 Map.empty = Some s0 \<and>
     mr_run s0 (late_start @ [map_report 10000000004]) = Some s \<and> \<not> Done (mr_co s) \<and>
     mr_step s (map_report 10000000005) = Some s' \<and>
     Done (mr_co s') \<and> mr_files s' (finalReduceOutFile 0) = None \<and> co_generating (mr_co s') = reduce_tasks 1"
proof -
  obtain s0 where s0: "mr_start [''a''] 1 Map.empty = Some s0" "mr_run s0 late_start = Some late_state" using late_run by blast
  have app: "mr_run s (xs @ ys) = Option.bind (mr_run s xs) (\<lambda>s. mr_run s ys)" for s xs ys
    by (induction xs arbitrary: s) simp_all
  have "mr_run s0 (late_start @ [map_report 10000000004]) = Some reduce_state"
    using s0(2) late_accept by (simp add: app)
  moreover have "\<exists>s'. mr_step reduce_state (map_report 10000000005) = Some s' \<and>
     Done (mr_co s') \<and> mr_files s' (finalReduceOutFile 0) = None \<and> co_generating (mr_co s') = reduce_tasks 1"
    by (simp add: mr_eval reduce_state_def late_state_def Let_def Done_def finalReduceOutFile_def finalMapOutFile_def)
  moreover have "\<not> Done (mr_co reduce_state)" by (simp add: Done_def reduce_state_def)
  ultimately show ?thesis using s0(1) by blast
qed

end
