(* ===== verification/Shard_Config.thy ===== *)
theory Shard_Config
  imports Service_Config Shard_Clerk MR_Coordinator
begin

text \<open>
  The harness of the shardkv tests (config.go of package shardkv): three controllers, three groups
  of servers, the ends between them, and the requests to join and leave. A run-time panic is
  \<^term>\<open>None\<close>; the random names, the addresses of new clerks, the clock and the outcomes of the
  calls of the controllers' clerk are arguments.
\<close>

section \<open>Data\<close>

record group =
  gg_gid :: int
  gg_servers :: "ShardKV option list"
  gg_saved :: "(SkCommand, sk_gob) persister option list"
  gg_endnames :: "string list list"
  gg_mendnames :: "string list list"

record ('o, 'v, 'b) shard_config =
  hc_net :: "('o, 'v, 'b) Network"
  hc_start :: int
  hc_nctrlers :: nat
  hc_ctrlerservers :: "ShardCtrler option list"
  hc_mck :: "CtrlClerk option"
  hc_ngroups :: nat
  hc_n :: nat
  hc_groups :: "group list"
  hc_clerks :: "(nat \<times> string list) list"
  hc_nextClientId :: int
  hc_maxraftstate :: int

definition ctrlername :: "nat \<Rightarrow> string" where
  "ctrlername i = ''ctrler'' @ Itoa (int i)"

definition servername :: "int \<Rightarrow> nat \<Rightarrow> string" where
  "servername gid i = ''server-'' @ Itoa gid @ ''-'' @ Itoa (int i)"

section \<open>Ends and clerks\<close>

text \<open>The function that clerks and servers use to reach a server by its name.\<close>

definition make_end :: "('o, 'v, 'b) Network \<Rightarrow> string \<Rightarrow> string \<Rightarrow> (('o, 'v, 'b) Network \<times> ClientEnd) option" where
  "make_end rn name server = do {
     (rn, e) \<leftarrow> MakeEnd rn name;
     Some (Enable (Connect rn name server) name True, e)
   }"

text \<open>Each end's name is stored in an array before the end is made, connected to its controller and enabled.\<close>

fun ctrler_ends ::
  "(nat \<Rightarrow> string) \<Rightarrow> nat list \<Rightarrow> string list \<Rightarrow> ('o, 'v, 'b) Network \<Rightarrow> (('o, 'v, 'b) Network \<times> string list \<times> ClientEnd list) option" where
  "ctrler_ends names [] endnames rn = Some (rn, endnames, [])"
| "ctrler_ends names (j # js) endnames rn = do {
     endnames \<leftarrow> store endnames (int j) (names j);
     (rn, e) \<leftarrow> make_end rn (names j) (ctrlername j);
     (rn, endnames, es) \<leftarrow> ctrler_ends names js endnames rn;
     Some (rn, endnames, e # es)
   }"

text \<open>
  A new clerk at the address \<open>ck\<close>, with its ends to the controllers. The array for their names is
  as long as a group has servers. The clerk starts with the configuration \<open>config\<close> it queries.
\<close>

definition hc_makeClient ::
  "('o, 'v, 'b) shard_config \<Rightarrow> (nat \<Rightarrow> string) \<Rightarrow> nat \<Rightarrow> int \<Rightarrow> Config \<Rightarrow> (('o, 'v, 'b) shard_config \<times> SkClerk) option" where
  "hc_makeClient cfg names ck nrand config = do {
     (rn, endnames, ends) \<leftarrow> ctrler_ends names [0..<hc_nctrlers cfg] (replicate (hc_n cfg) []) (hc_net cfg);
     Some (cfg\<lparr>hc_net := rn, hc_clerks := AList.update ck endnames (hc_clerks cfg), hc_nextClientId := hc_nextClientId cfg + 1\<rparr>,
       sk_MakeClerk nrand config)
   }"

definition hc_deleteClient :: "('o, 'v, 'b) shard_config \<Rightarrow> nat \<Rightarrow> ('o, 'v, 'b) shard_config" where
  "hc_deleteClient cfg ck = cfg\<lparr>hc_clerks := AList.delete ck (hc_clerks cfg)\<rparr>"

section \<open>Servers\<close>

definition set_group :: "('o, 'v, 'b) shard_config \<Rightarrow> nat \<Rightarrow> group \<Rightarrow> ('o, 'v, 'b) shard_config" where
  "set_group cfg gi gg = cfg\<lparr>hc_groups := (hc_groups cfg)[gi := gg]\<rparr>"

text \<open>\<open>saved[i]\<close> points to the persister of the running server.\<close>

definition gg_saved_now :: "group \<Rightarrow> nat \<Rightarrow> (SkCommand, sk_gob) persister option" where
  "gg_saved_now gg i = (case gg_servers gg ! i of Some kv \<Rightarrow> Some (persister (sk_rf kv)) | None \<Rightarrow> gg_saved gg ! i)"

fun disable_ends :: "string list \<Rightarrow> nat list \<Rightarrow> ('o, 'v, 'b) Network \<Rightarrow> ('o, 'v, 'b) Network option" where
  "disable_ends row [] rn = Some rn"
| "disable_ends row (j # js) rn = do { name \<leftarrow> idx row (int j); disable_ends row js (Enable rn name False) }"

definition hc_ShutdownServer :: "('o, 'v, 'b) shard_config \<Rightarrow> nat \<Rightarrow> nat \<Rightarrow> ('o, 'v, 'b) shard_config option" where
  "hc_ShutdownServer cfg gi i = do {
     gg \<leftarrow> idx (hc_groups cfg) (int gi);
     row \<leftarrow> idx (gg_endnames gg) (int i);
     rn \<leftarrow> disable_ends row [0..<length (gg_servers gg)] (hc_net cfg);
     mrow \<leftarrow> idx (gg_mendnames gg) (int i);
     rn \<leftarrow> disable_ends mrow [0..<length mrow] rn;
     let rn = DeleteServer rn (servername (gg_gid gg) i);
     let gg = gg\<lparr>gg_saved := (gg_saved gg)[i := map_option Copy (gg_saved_now gg i)], gg_servers := (gg_servers gg)[i := None]\<rparr>;
     Some (set_group (cfg\<lparr>hc_net := rn\<rparr>) gi gg)
   }"

fun shutdown_each :: "('o, 'v, 'b) shard_config \<Rightarrow> nat \<Rightarrow> nat list \<Rightarrow> ('o, 'v, 'b) shard_config option" where
  "shutdown_each cfg gi [] = Some cfg"
| "shutdown_each cfg gi (i # is) = do { cfg \<leftarrow> hc_ShutdownServer cfg gi i; shutdown_each cfg gi is }"

definition ShutdownGroup :: "('o, 'v, 'b) shard_config \<Rightarrow> nat \<Rightarrow> ('o, 'v, 'b) shard_config option" where
  "ShutdownGroup cfg gi = shutdown_each cfg gi [0..<hc_n cfg]"

text \<open>
  Starting a server: its ends to the group, its ends to the controllers (the array of their names
  for all servers has as many rows as there are controllers), its persister, its services. The
  names of the ends to the group and to the controllers are given.
\<close>

definition hc_StartServer ::
  "(string \<times> 'o \<times> ('o, 'v) reflect_method list) list \<Rightarrow> ('o, 'v, 'b) shard_config \<Rightarrow> nat \<Rightarrow> nat \<Rightarrow> (nat \<Rightarrow> string) \<Rightarrow> (nat \<Rightarrow> string) \<Rightarrow>
   ('o, 'v, 'b) shard_config option" where
  "hc_StartServer svcs cfg gi i names mnames = do {
     gg \<leftarrow> idx (hc_groups cfg) (int gi);
     endnames \<leftarrow> store (gg_endnames gg) (int i) (map names [0..<hc_n cfg]);
     let gg = gg\<lparr>gg_endnames := endnames\<rparr>;
     (rn, ends) \<leftarrow> new_ends True (map (\<lambda>j. (names j, servername (gg_gid gg) j)) [0..<hc_n cfg]) (hc_net cfg);
     mendnames \<leftarrow> store (gg_mendnames gg) (int i) (replicate (hc_nctrlers cfg) []);
     (rn, mrow, mends) \<leftarrow> ctrler_ends mnames [0..<hc_nctrlers cfg] (mendnames ! i) rn;
     let gg = gg\<lparr>gg_mendnames := mendnames[i := mrow]\<rparr>;
     let ps = (case gg_saved_now gg i of Some ps \<Rightarrow> Copy ps | None \<Rightarrow> MakePersister);
     kv \<leftarrow> sk_StartServer (length ends) i ps (hc_maxraftstate cfg) (gg_gid gg);
     let gg = gg\<lparr>gg_saved := (gg_saved gg)[i := Some ps], gg_servers := (gg_servers gg)[i := Some kv]\<rparr>;
     Some (set_group (cfg\<lparr>hc_net := add_services rn (servername (gg_gid gg) i) svcs\<rparr>) gi gg)
   }"

fun hc_start_each ::
  "(string \<times> 'o \<times> ('o, 'v) reflect_method list) list \<Rightarrow> (nat \<Rightarrow> nat \<Rightarrow> string) \<Rightarrow> (nat \<Rightarrow> nat \<Rightarrow> string) \<Rightarrow> ('o, 'v, 'b) shard_config \<Rightarrow> nat \<Rightarrow> nat list \<Rightarrow>
   ('o, 'v, 'b) shard_config option" where
  "hc_start_each svcs names mnames cfg gi [] = Some cfg"
| "hc_start_each svcs names mnames cfg gi (i # is) = do {
     cfg \<leftarrow> hc_StartServer svcs cfg gi i (names i) (mnames i);
     hc_start_each svcs names mnames cfg gi is
   }"

definition StartGroup ::
  "(string \<times> 'o \<times> ('o, 'v) reflect_method list) list \<Rightarrow> (nat \<Rightarrow> nat \<Rightarrow> string) \<Rightarrow> (nat \<Rightarrow> nat \<Rightarrow> string) \<Rightarrow> ('o, 'v, 'b) shard_config \<Rightarrow> nat \<Rightarrow>
   ('o, 'v, 'b) shard_config option" where
  "StartGroup svcs names mnames cfg gi = hc_start_each svcs names mnames cfg gi [0..<hc_n cfg]"

definition StartCtrlerserver ::
  "(string \<times> 'o \<times> ('o, 'v) reflect_method list) list \<Rightarrow> ('o, 'v, 'b) shard_config \<Rightarrow> nat \<Rightarrow> (nat \<Rightarrow> string) \<Rightarrow> ('o, 'v, 'b) shard_config option" where
  "StartCtrlerserver svcs cfg i names = do {
     (rn, ends) \<leftarrow> new_ends True (map (\<lambda>j. (names j, ctrlername j)) [0..<hc_nctrlers cfg]) (hc_net cfg);
     sc \<leftarrow> sc_StartServer (length ends) i MakePersister;
     Some (cfg\<lparr>hc_ctrlerservers := (hc_ctrlerservers cfg)[i := Some sc], hc_net := add_services rn (ctrlername i) svcs\<rparr>)
   }"

fun start_ctrlers ::
  "(string \<times> 'o \<times> ('o, 'v) reflect_method list) list \<Rightarrow> (nat \<Rightarrow> nat \<Rightarrow> string) \<Rightarrow> ('o, 'v, 'b) shard_config \<Rightarrow> nat list \<Rightarrow> ('o, 'v, 'b) shard_config option" where
  "start_ctrlers svcs names cfg [] = Some cfg"
| "start_ctrlers svcs names cfg (i # is) = do {
     cfg \<leftarrow> StartCtrlerserver svcs cfg i (names i);
     start_ctrlers svcs names cfg is
   }"

definition shardclerk :: "('o, 'v, 'b) shard_config \<Rightarrow> (nat \<Rightarrow> string) \<Rightarrow> int \<Rightarrow> (('o, 'v, 'b) shard_config \<times> CtrlClerk) option" where
  "shardclerk cfg names nrand = do {
     (rn, ends) \<leftarrow> new_ends True (map (\<lambda>j. (names j, ctrlername j)) [0..<hc_nctrlers cfg]) (hc_net cfg);
     Some (cfg\<lparr>hc_net := rn\<rparr>, sc_MakeClerk (length ends) nrand)
   }"

section \<open>Joining and leaving\<close>

text \<open>The servers of the groups, by group.\<close>

fun join_map :: "('o, 'v, 'b) shard_config \<Rightarrow> nat list \<Rightarrow> (int \<times> string list) list \<Rightarrow> (int \<times> string list) list option" where
  "join_map cfg [] m = Some m"
| "join_map cfg (g # gis) m = do {
     gg \<leftarrow> idx (hc_groups cfg) (int g);
     join_map cfg gis (AList.update (gg_gid gg) (map (servername (gg_gid gg)) [0..<hc_n cfg]) m)
   }"

text \<open>
  What a call of the controllers' clerk leaves: the configuration with the clerk after it returned,
  \<^term>\<open>None\<close> while it is still trying, and the requests it sent.
\<close>

definition with_mck ::
  "('o, 'v, 'b) shard_config \<Rightarrow> (CtrlClerk \<times> Config) option \<times> (int \<times> CtrlArgs) list \<Rightarrow> ('o, 'v, 'b) shard_config option \<times> (int \<times> CtrlArgs) list" where
  "with_mck cfg r = (map_option (\<lambda>(ck, config). cfg\<lparr>hc_mck := Some ck\<rparr>) (fst r), snd r)"

definition joinm ::
  "('o, 'v, 'b) shard_config \<Rightarrow> nat list \<Rightarrow> CtrlReply option list \<Rightarrow> (('o, 'v, 'b) shard_config option \<times> (int \<times> CtrlArgs) list) option" where
  "joinm cfg gis res = do {
     m \<leftarrow> join_map cfg gis [];
     mck \<leftarrow> hc_mck cfg;
     Some (with_mck cfg (sc_clerk_Join mck m res))
   }"

definition join ::
  "('o, 'v, 'b) shard_config \<Rightarrow> nat \<Rightarrow> CtrlReply option list \<Rightarrow> (('o, 'v, 'b) shard_config option \<times> (int \<times> CtrlArgs) list) option" where
  "join cfg gi res = joinm cfg [gi] res"

fun leave_gids :: "('o, 'v, 'b) shard_config \<Rightarrow> nat list \<Rightarrow> int list option" where
  "leave_gids cfg [] = Some []"
| "leave_gids cfg (g # gis) = do {
     gg \<leftarrow> idx (hc_groups cfg) (int g);
     gids \<leftarrow> leave_gids cfg gis;
     Some (gg_gid gg # gids)
   }"

definition leavem ::
  "('o, 'v, 'b) shard_config \<Rightarrow> nat list \<Rightarrow> CtrlReply option list \<Rightarrow> (('o, 'v, 'b) shard_config option \<times> (int \<times> CtrlArgs) list) option" where
  "leavem cfg gis res = do {
     gids \<leftarrow> leave_gids cfg gis;
     mck \<leftarrow> hc_mck cfg;
     Some (with_mck cfg (sc_clerk_Leave mck gids res))
   }"

definition leave ::
  "('o, 'v, 'b) shard_config \<Rightarrow> nat \<Rightarrow> CtrlReply option list \<Rightarrow> (('o, 'v, 'b) shard_config option \<times> (int \<times> CtrlArgs) list) option" where
  "leave cfg gi res = leavem cfg [gi] res"

section \<open>A test from start to end\<close>

definition new_group :: "('o, 'v, 'b) shard_config \<Rightarrow> nat \<Rightarrow> group" where
  "new_group cfg gi = \<lparr>gg_gid = 100 + int gi, gg_servers = replicate (hc_n cfg) None, gg_saved = replicate (hc_n cfg) None,
     gg_endnames = replicate (hc_n cfg) [], gg_mendnames = replicate (hc_nctrlers cfg) []\<rparr>"

fun start_groups ::
  "(string \<times> 'o \<times> ('o, 'v) reflect_method list) list \<Rightarrow> (nat \<Rightarrow> nat \<Rightarrow> nat \<Rightarrow> string) \<Rightarrow> (nat \<Rightarrow> nat \<Rightarrow> nat \<Rightarrow> string) \<Rightarrow> ('o, 'v, 'b) shard_config \<Rightarrow> nat list \<Rightarrow>
   ('o, 'v, 'b) shard_config option" where
  "start_groups svcs names mnames cfg [] = Some cfg"
| "start_groups svcs names mnames cfg (gi # gis) = do {
     cfg \<leftarrow> hc_start_each svcs (names gi) (mnames gi) (set_group cfg gi (new_group cfg gi)) gi [0..<hc_n cfg];
     start_groups svcs names mnames cfg gis
   }"

definition no_group :: group where
  "no_group = \<lparr>gg_gid = 0, gg_servers = [], gg_saved = [], gg_endnames = [], gg_mendnames = []\<rparr>"

definition hc_blank :: "nat \<Rightarrow> int \<Rightarrow> int \<Rightarrow> ('o, 'v, 'b) shard_config" where
  "hc_blank n maxraftstate now = \<lparr>hc_net = MakeNetwork, hc_start = now, hc_nctrlers = 3, hc_ctrlerservers = replicate 3 None, hc_mck = None,
     hc_ngroups = 3, hc_n = n, hc_groups = replicate 3 no_group, hc_clerks = [], hc_nextClientId = int n + 1000, hc_maxraftstate = maxraftstate\<rparr>"

text \<open>The names of the ends: of the controllers, of their clerk, and of each group's servers.\<close>

definition hc_make_config ::
  "nat \<Rightarrow> bool \<Rightarrow> int \<Rightarrow> int \<Rightarrow> (string \<times> 'o \<times> ('o, 'v) reflect_method list) list \<Rightarrow> (nat \<Rightarrow> nat \<Rightarrow> string) \<Rightarrow> (nat \<Rightarrow> string) \<Rightarrow> int \<Rightarrow>
   (nat \<Rightarrow> nat \<Rightarrow> nat \<Rightarrow> string) \<Rightarrow> (nat \<Rightarrow> nat \<Rightarrow> nat \<Rightarrow> string) \<Rightarrow> ('o, 'v, 'b) shard_config option" where
  "hc_make_config n unreliable maxraftstate now svcs cnames knames nrand names mnames = do {
     cfg \<leftarrow> start_ctrlers svcs cnames (hc_blank n maxraftstate now) [0..<3];
     (cfg, mck) \<leftarrow> shardclerk cfg knames nrand;
     cfg \<leftarrow> start_groups svcs names mnames (cfg\<lparr>hc_mck := Some mck\<rparr>) [0..<3];
     Some (cfg\<lparr>hc_net := Reliable (hc_net cfg) (\<not> unreliable)\<rparr>)
   }"

definition hc_checkTimeout :: "('o, 'v, 'b) shard_config \<Rightarrow> bool \<Rightarrow> int \<Rightarrow> ('e, unit) verdict" where
  "hc_checkTimeout cfg failed now =
     (if \<not> failed \<and> now - hc_start cfg > 120 * 1000000000 then Fatal Timeout else Pass ())"

fun shutdown_groups :: "('o, 'v, 'b) shard_config \<Rightarrow> nat list \<Rightarrow> ('o, 'v, 'b) shard_config option" where
  "shutdown_groups cfg [] = Some cfg"
| "shutdown_groups cfg (gi # gis) = do { cfg \<leftarrow> ShutdownGroup cfg gi; shutdown_groups cfg gis }"

text \<open>Killing a controller that was not started dereferences nil.\<close>

fun kill_ctrlers :: "ShardCtrler option list \<Rightarrow> ShardCtrler option list option" where
  "kill_ctrlers [] = Some []"
| "kill_ctrlers (c # cs) = do { sc \<leftarrow> c; cs \<leftarrow> kill_ctrlers cs; Some (Some (sc_Kill sc) # cs) }"

definition hc_cleanup :: "('o, 'v, 'b) shard_config \<Rightarrow> bool \<Rightarrow> int \<Rightarrow> ('e, ('o, 'v, 'b) shard_config) verdict" where
  "hc_cleanup cfg failed now =
     vbind (unnil (shutdown_groups cfg [0..<hc_ngroups cfg])) (\<lambda>cfg.
     vbind (unnil (kill_ctrlers (hc_ctrlerservers cfg))) (\<lambda>cs.
     vbind (unnil (Cleanup (hc_net cfg))) (\<lambda>rn.
       let cfg = cfg\<lparr>hc_ctrlerservers := cs, hc_net := rn\<rparr> in vbind (hc_checkTimeout cfg failed now) (\<lambda>_. Pass cfg))))"

text \<open>The verdict on one persister: its log may not exceed eight times the limit; without a limit there is no snapshot.\<close>

datatype log_verdict = LogOk | LogTooBig int | SnapshotNotEmpty

definition check_saved :: "((SkCommand gob) list \<Rightarrow> int) \<Rightarrow> int \<Rightarrow> (SkCommand, sk_gob) persister \<Rightarrow> log_verdict" where
  "check_saved bytes maxraftstate ps =
     (let raft = RaftStateSize bytes ps; snap = int (length (ReadSnapshot ps)) in
      if maxraftstate \<ge> 0 \<and> raft > 8 * maxraftstate then LogTooBig raft
      else if maxraftstate < 0 \<and> snap > 0 then SnapshotNotEmpty
      else LogOk)"

fun checklogs_loop :: "((SkCommand gob) list \<Rightarrow> int) \<Rightarrow> int \<Rightarrow> (SkCommand, sk_gob) persister option list \<Rightarrow> log_verdict option" where
  "checklogs_loop bytes maxraftstate [] = Some LogOk"
| "checklogs_loop bytes maxraftstate (p # ps) = do {
     p \<leftarrow> p;
     case check_saved bytes maxraftstate p of LogOk \<Rightarrow> checklogs_loop bytes maxraftstate ps | v \<Rightarrow> Some v
   }"

definition checklogs :: "((SkCommand gob) list \<Rightarrow> int) \<Rightarrow> ('o, 'v, 'b) shard_config \<Rightarrow> log_verdict option" where
  "checklogs bytes cfg = checklogs_loop bytes (hc_maxraftstate cfg)
     (concat (map (\<lambda>gg. map (gg_saved_now gg) [0..<hc_n cfg]) (take (hc_ngroups cfg) (hc_groups cfg))))"

end
