(* ===== verification/Service_Partition.thy ===== *)
theory Service_Partition
  imports Service_Config
begin

text \<open>
  The partitions of the service tests. Whatever a test has done to the servers before, splitting
  them leaves two servers linked exactly if they are on the same side, and the split around the
  leader leaves the leader with a minority, for an odd number of servers. For an even number the
  two sides overlap.
\<close>

section \<open>Random handles\<close>

lemma handles_loop_mset:
  assumes "i + length js \<le> length sa" "\<forall>k<length js. js ! k \<le> i + k"
  shows "mset (handles_loop sa i js) = mset sa \<and> length (handles_loop sa i js) = length sa"
  using assms
proof (induction js arbitrary: sa i)
  case (Cons j js)
  have j: "j \<le> i" "i < length sa" using Cons.prems by auto
  have "\<forall>k<length js. js ! k \<le> Suc i + k" using Cons.prems(2) by (metis Suc_less_eq add_Suc_shift length_Cons nth_Cons_Suc)
  with Cons.IH [of "Suc i" "sa[i := sa ! j, j := sa ! i]"] Cons.prems(1) j show ?case by (auto simp: mset_swap)
qed simp

lemma random_handles_mset:
  "length draws = length kvh \<Longrightarrow> \<forall>k<length draws. draws ! k \<le> k \<Longrightarrow> mset (random_handles kvh draws) = mset kvh"
  using handles_loop_mset [of 0 draws kvh] by (simp add: random_handles_def)

section \<open>Links between servers\<close>

text \<open>Every server has its ends; all names differ and are known to the network.\<close>

definition rows_ok :: "nat \<Rightarrow> string list list \<Rightarrow> bool" where
  "rows_ok n names \<longleftrightarrow> length names = n \<and> (\<forall>i<n. length (names ! i) = n) \<and> distinct (concat names)"

definition linked :: "string list list \<Rightarrow> ('o, 'v, 'b) Network \<Rightarrow> nat \<Rightarrow> nat \<Rightarrow> bool" where
  "linked names rn a b \<longleftrightarrow> is_enabled rn (names ! a ! b)"

definition same_ends :: "('o, 'v, 'b) Network \<Rightarrow> ('o, 'v, 'b) Network \<Rightarrow> bool" where
  "same_ends rn rn' \<longleftrightarrow> nw_ends rn' = nw_ends rn \<and> nw_connections rn' = nw_connections rn \<and> nw_servers rn' = nw_servers rn"

lemma same_ends_refl [simp]: "same_ends rn rn" by (simp add: same_ends_def)

lemma same_ends_trans: "same_ends a b \<Longrightarrow> same_ends b c \<Longrightarrow> same_ends a c" by (simp add: same_ends_def)

lemma same_ends_Enable [simp]: "same_ends (Enable rn e yes) rn' = same_ends rn rn'" by (simp add: same_ends_def)

lemma rows_inj:
  "rows_ok n names \<Longrightarrow> a < n \<Longrightarrow> b < n \<Longrightarrow> c < n \<Longrightarrow> d < n \<Longrightarrow> names ! a ! b = names ! c ! d \<longleftrightarrow> a = c \<and> b = d"
  using concat_nth_inj [of names a c b d] unfolding rows_ok_def by auto

lemma linked_Enable:
  "rows_ok n names \<Longrightarrow> a < n \<Longrightarrow> b < n \<Longrightarrow> c < n \<Longrightarrow> d < n \<Longrightarrow>
   linked names (Enable rn (names ! c ! d) yes) a b = (if a = c \<and> b = d then yes else linked names rn a b)"
  by (simp add: linked_def rows_inj)

lemma rows_idx: "rows_ok n names \<Longrightarrow> i < n \<Longrightarrow> idx names (int i) = Some (names ! i)"
  "rows_ok n names \<Longrightarrow> i < n \<Longrightarrow> j < n \<Longrightarrow> idx (names ! i) (int j) = Some (names ! i ! j)"
  "rows_ok n names \<Longrightarrow> i < n \<Longrightarrow> names ! i \<noteq> []"
  by (auto simp: rows_ok_def idx_def)

lemma attach_out_links:
  assumes "rows_ok n names" "i < n" "set to \<subseteq> {..<n}"
  shows "\<exists>rn'. attach_out names i to rn = Some rn' \<and> same_ends rn rn' \<and>
    (\<forall>a<n. \<forall>b<n. linked names rn' a b \<longleftrightarrow> linked names rn a b \<or> a = i \<and> b \<in> set to)"
  using assms(3)
proof (induction to arbitrary: rn)
  case (Cons t to)
  with Cons.IH [of "Enable rn (names ! i ! t) True"] show ?case
    using assms(1,2) by (auto simp: rows_idx linked_Enable)
qed simp

lemma attach_in_links:
  assumes "rows_ok n names" "i < n" "set to \<subseteq> {..<n}"
  shows "\<exists>rn'. attach_in names i to rn = Some rn' \<and> same_ends rn rn' \<and>
    (\<forall>a<n. \<forall>b<n. linked names rn' a b \<longleftrightarrow> linked names rn a b \<or> b = i \<and> a \<in> set to)"
  using assms(3)
proof (induction to arbitrary: rn)
  case (Cons t to)
  with Cons.IH [of "Enable rn (names ! t ! i) True"] show ?case
    using assms(1,2) by (auto simp: rows_idx linked_Enable)
qed simp

lemma detach_out_links:
  assumes "rows_ok n names" "i < n" "set from \<subseteq> {..<n}"
  shows "\<exists>rn'. detach_out names i from rn = Some rn' \<and> same_ends rn rn' \<and>
    (\<forall>a<n. \<forall>b<n. linked names rn' a b \<longleftrightarrow> linked names rn a b \<and> \<not> (a = i \<and> b \<in> set from))"
  using assms(3)
proof (induction "from" arbitrary: rn)
  case (Cons t "from")
  with Cons.IH [of "Enable rn (names ! i ! t) False"] show ?case
    using assms(1,2) by (auto simp: rows_idx linked_Enable)
qed simp

lemma detach_in_links:
  assumes "rows_ok n names" "i < n" "set from \<subseteq> {..<n}" "j + length from \<le> n"
  shows "\<exists>rn'. detach_in names i j from rn = Some rn' \<and> same_ends rn rn' \<and>
    (\<forall>a<n. \<forall>b<n. linked names rn' a b \<longleftrightarrow> linked names rn a b \<and> \<not> (b = i \<and> a \<in> set from))"
  using assms(3,4)
proof (induction "from" arbitrary: rn j)
  case (Cons t "from")
  with Cons.IH [of "Suc j" "Enable rn (names ! t ! i) False"] show ?case
    using assms(1,2) by (auto simp: rows_idx linked_Enable)
qed simp

text \<open>The configurations differ only in which ends are enabled.\<close>

definition relinked :: "('s, 'c, 'd, 'o, 'v, 'b, 'z) service_config_scheme \<Rightarrow> ('s, 'c, 'd, 'o, 'v, 'b, 'z) service_config_scheme \<Rightarrow> bool" where
  "relinked cfg cfg' \<longleftrightarrow> same_ends (sv_net cfg) (sv_net cfg') \<and> sv_n cfg' = sv_n cfg \<and> sv_endnames cfg' = sv_endnames cfg \<and>
     sv_servers cfg' = sv_servers cfg \<and> sv_saved cfg' = sv_saved cfg"

lemma relinked_refl [simp]: "relinked cfg cfg" by (simp add: relinked_def)

lemma relinked_trans: "relinked a b \<Longrightarrow> relinked b c \<Longrightarrow> relinked a c" by (auto simp: relinked_def intro: same_ends_trans)

definition sv_link :: "('s, 'c, 'd, 'o, 'v, 'b, 'z) service_config_scheme \<Rightarrow> nat \<Rightarrow> nat \<Rightarrow> bool" where
  "sv_link cfg a b = linked (sv_endnames cfg) (sv_net cfg) a b"

definition sv_ok :: "nat \<Rightarrow> ('s, 'c, 'd, 'o, 'v, 'b, 'z) service_config_scheme \<Rightarrow> bool" where
  "sv_ok n cfg \<longleftrightarrow> sv_n cfg = n \<and> rows_ok n (sv_endnames cfg) \<and> (\<forall>x\<in>set (concat (sv_endnames cfg)). nw_ends (sv_net cfg) x \<noteq> None) \<and>
     length (sv_servers cfg) = n \<and> length (sv_saved cfg) = n"

lemma sv_ok_relinked: "relinked cfg cfg' \<Longrightarrow> sv_ok n cfg \<Longrightarrow> sv_ok n cfg'"
  by (auto simp: sv_ok_def relinked_def same_ends_def)

lemma connectUnlocked_links:
  assumes "sv_ok n cfg" "i < n" "set to \<subseteq> {..<n}"
  shows "\<exists>cfg'. connectUnlocked cfg i to = Some cfg' \<and> relinked cfg cfg' \<and>
    (\<forall>a<n. \<forall>b<n. sv_link cfg' a b \<longleftrightarrow> sv_link cfg a b \<or> a = i \<and> b \<in> set to \<or> b = i \<and> a \<in> set to)"
proof -
  have r: "rows_ok n (sv_endnames cfg)" using assms(1) by (simp add: sv_ok_def)
  from attach_out_links [OF r assms(2,3)] obtain r1 where r1: "attach_out (sv_endnames cfg) i to (sv_net cfg) = Some r1"
    "same_ends (sv_net cfg) r1" "\<forall>a<n. \<forall>b<n. linked (sv_endnames cfg) r1 a b \<longleftrightarrow> linked (sv_endnames cfg) (sv_net cfg) a b \<or> a = i \<and> b \<in> set to" by blast
  from attach_in_links [OF r assms(2,3)] obtain r2 where r2: "attach_in (sv_endnames cfg) i to r1 = Some r2"
    "same_ends r1 r2" "\<forall>a<n. \<forall>b<n. linked (sv_endnames cfg) r2 a b \<longleftrightarrow> linked (sv_endnames cfg) r1 a b \<or> b = i \<and> a \<in> set to" by blast
  from r1 r2 same_ends_trans [OF r1(2) r2(2)] show ?thesis
    by (simp add: connectUnlocked_def relinked_def sv_link_def)
qed

lemma disconnectUnlocked_links:
  assumes "sv_ok n cfg" "i < n" "set from \<subseteq> {..<n}" "length from \<le> n"
  shows "\<exists>cfg'. disconnectUnlocked cfg i from = Some cfg' \<and> relinked cfg cfg' \<and>
    (\<forall>a<n. \<forall>b<n. sv_link cfg' a b \<longleftrightarrow> sv_link cfg a b \<and> \<not> (a = i \<and> b \<in> set from \<or> b = i \<and> a \<in> set from))"
proof -
  have r: "rows_ok n (sv_endnames cfg)" using assms(1) by (simp add: sv_ok_def)
  from detach_out_links [OF r assms(2,3)] obtain r1 where r1: "detach_out (sv_endnames cfg) i from (sv_net cfg) = Some r1"
    "same_ends (sv_net cfg) r1" "\<forall>a<n. \<forall>b<n. linked (sv_endnames cfg) r1 a b \<longleftrightarrow> linked (sv_endnames cfg) (sv_net cfg) a b \<and> \<not> (a = i \<and> b \<in> set from)" by blast
  have "0 + length from \<le> n" using assms(4) by simp
  from detach_in_links [OF r assms(2,3) this] obtain r2 where r2: "detach_in (sv_endnames cfg) i 0 from r1 = Some r2"
    "same_ends r1 r2" "\<forall>a<n. \<forall>b<n. linked (sv_endnames cfg) r2 a b \<longleftrightarrow> linked (sv_endnames cfg) r1 a b \<and> \<not> (b = i \<and> a \<in> set from)" by blast
  from r1 r2 same_ends_trans [OF r1(2) r2(2)] show ?thesis
    by (auto simp: disconnectUnlocked_def relinked_def sv_link_def)
qed

lemma part_loop_links:
  assumes "sv_ok n cfg" "set is \<subseteq> set own" "set own \<subseteq> {..<n}" "set other \<subseteq> {..<n}" "set own \<inter> set other = {}" "length other \<le> n"
  shows "\<exists>cfg'. part_loop is own other cfg = Some cfg' \<and> relinked cfg cfg' \<and>
    (\<forall>a<n. \<forall>b<n. sv_link cfg' a b \<longleftrightarrow>
       (if a \<in> set is \<and> b \<in> set own \<or> b \<in> set is \<and> a \<in> set own then True
        else if a \<in> set is \<and> b \<in> set other \<or> b \<in> set is \<and> a \<in> set other then False else sv_link cfg a b))"
  using assms(1,2)
proof (induction "is" arbitrary: cfg)
  case (Cons i "is")
  have i: "i < n" "i \<in> set own" "i \<notin> set other" using Cons.prems(2) assms(3,5) by auto
  from disconnectUnlocked_links [OF Cons.prems(1) i(1) assms(4,6)] obtain c1 where c1: "disconnectUnlocked cfg i other = Some c1" "relinked cfg c1"
    "\<forall>a<n. \<forall>b<n. sv_link c1 a b \<longleftrightarrow> sv_link cfg a b \<and> \<not> (a = i \<and> b \<in> set other \<or> b = i \<and> a \<in> set other)" by blast
  note o1 = sv_ok_relinked [OF c1(2) Cons.prems(1)]
  from connectUnlocked_links [OF o1 i(1) assms(3)] obtain c2 where c2: "connectUnlocked c1 i own = Some c2" "relinked c1 c2"
    "\<forall>a<n. \<forall>b<n. sv_link c2 a b \<longleftrightarrow> sv_link c1 a b \<or> a = i \<and> b \<in> set own \<or> b = i \<and> a \<in> set own" by blast
  from Cons.IH [OF sv_ok_relinked [OF c2(2) o1]] Cons.prems(2) obtain c3 where c3: "part_loop is own other c2 = Some c3" "relinked c2 c3"
    "\<forall>a<n. \<forall>b<n. sv_link c3 a b \<longleftrightarrow> (if a \<in> set is \<and> b \<in> set own \<or> b \<in> set is \<and> a \<in> set own then True
        else if a \<in> set is \<and> b \<in> set other \<or> b \<in> set is \<and> a \<in> set other then False else sv_link c2 a b)" by auto
  have "sv_link c3 a b \<longleftrightarrow> (if a \<in> set (i # is) \<and> b \<in> set own \<or> b \<in> set (i # is) \<and> a \<in> set own then True
        else if a \<in> set (i # is) \<and> b \<in> set other \<or> b \<in> set (i # is) \<and> a \<in> set other then False else sv_link cfg a b)" if "a < n" "b < n" for a b
    using that c1(3) c2(3) c3(3) i assms(5) Cons.prems(2) by auto
  with c1 c2 c3 relinked_trans show ?case by (auto intro: relinked_trans)
qed simp

lemma partition_links:
  assumes "sv_ok n cfg" "distinct (p1 @ p2)" "set (p1 @ p2) \<subseteq> {..<n}"
  shows "\<exists>cfg'. partition_servers cfg p1 p2 = Some cfg' \<and> relinked cfg cfg' \<and>
    (\<forall>a\<in>set (p1 @ p2). \<forall>b\<in>set (p1 @ p2). sv_link cfg' a b \<longleftrightarrow> (a \<in> set p1 \<longleftrightarrow> b \<in> set p1))"
proof -
  have s: "set p1 \<subseteq> {..<n}" "set p2 \<subseteq> {..<n}" "set p1 \<inter> set p2 = {}" "distinct p1" "distinct p2" using assms(2,3) by auto
  have l: "length p1 \<le> n" "length p2 \<le> n"
    using card_mono [OF _ s(1)] card_mono [OF _ s(2)] distinct_card [OF s(4)] distinct_card [OF s(5)] by simp_all
  from part_loop_links [OF assms(1) _ s(1,2,3) l(2), of p1] obtain c1 where c1: "part_loop p1 p1 p2 cfg = Some c1" "relinked cfg c1"
    "\<forall>a<n. \<forall>b<n. sv_link c1 a b \<longleftrightarrow> (if a \<in> set p1 \<and> b \<in> set p1 \<or> b \<in> set p1 \<and> a \<in> set p1 then True
        else if a \<in> set p1 \<and> b \<in> set p2 \<or> b \<in> set p1 \<and> a \<in> set p2 then False else sv_link cfg a b)" by blast
  have "set p2 \<inter> set p1 = {}" using s(3) by blast
  from part_loop_links [OF sv_ok_relinked [OF c1(2) assms(1)] _ s(2,1) this l(1), of p2] obtain c2 where
    c2: "part_loop p2 p2 p1 c1 = Some c2" "relinked c1 c2"
    "\<forall>a<n. \<forall>b<n. sv_link c2 a b \<longleftrightarrow> (if a \<in> set p2 \<and> b \<in> set p2 \<or> b \<in> set p2 \<and> a \<in> set p2 then True
        else if a \<in> set p2 \<and> b \<in> set p1 \<or> b \<in> set p2 \<and> a \<in> set p1 then False else sv_link c1 a b)" by blast
  have "sv_link c2 a b \<longleftrightarrow> (a \<in> set p1 \<longleftrightarrow> b \<in> set p1)" if "a \<in> set (p1 @ p2)" "b \<in> set (p1 @ p2)" for a b
  proof -
    have "a < n" "b < n" using that assms(3) by auto
    note links = c1(3) [rule_format, OF this] c2(3) [rule_format, OF this]
    have side: "x \<in> set p2 \<longleftrightarrow> x \<notin> set p1" if "x \<in> set (p1 @ p2)" for x using that s(3) by auto
    show ?thesis unfolding links side [OF that(1)] side [OF that(2)] by simp
  qed
  with c1 c2 relinked_trans [OF c1(2) c2(2)] show ?thesis by (simp add: partition_servers_def)
qed

section \<open>What a test does to the servers\<close>

lemma new_ends_spec:
  assumes "new_ends enable ps rn = Some (rn', es)"
  shows "distinct (map fst ps) \<and> (\<forall>x\<in>fst ` set ps. nw_ends rn x = None) \<and> (\<forall>x. nw_ends rn' x \<noteq> None \<longleftrightarrow> nw_ends rn x \<noteq> None \<or> x \<in> fst ` set ps) \<and>
    length es = length ps \<and> nw_servers rn' = nw_servers rn \<and> (\<forall>x. is_enabled rn' x \<longleftrightarrow> (if x \<in> fst ` set ps then enable else is_enabled rn x)) \<and>
    (\<forall>(x, s)\<in>set ps. nw_connections rn' x = Some s) \<and> (\<forall>x. x \<notin> fst ` set ps \<longrightarrow> nw_connections rn' x = nw_connections rn x)"
  using assms
proof (induction ps arbitrary: rn es)
  case (Cons p ps)
  obtain x s where p: "p = (x, s)" by (cases p)
  define C where "C = (\<lambda>rn1. if enable then Enable (Connect rn1 x s) x True else Connect rn1 x s :: ('a, 'b, 'c) Network)"
  from Cons.prems obtain rn1 e es' where c: "MakeEnd rn x = Some (rn1, e)" "new_ends enable ps (C rn1) = Some (rn', es')" "es = e # es'"
    by (auto simp: p C_def bind_Some_iff Let_def)
  have m: "nw_ends rn x = None" "nw_ends (C rn1) = (nw_ends rn)(x \<mapsto> e)" "nw_servers (C rn1) = nw_servers rn"
    "nw_connections (C rn1) = (nw_connections rn)(x \<mapsto> s)" "is_enabled (C rn1) y \<longleftrightarrow> (if y = x then enable else is_enabled rn y)" for y
    using c(1) by (auto simp: C_def MakeEnd_def Connect_def Enable_def is_enabled_def Let_def split: option.splits if_splits)
  note ih = Cons.IH [OF c(2)]
  have x: "x \<notin> fst ` set ps" using ih m(2) by auto
  have ne: "fst q \<noteq> x" if "q \<in> set ps" for q using x that by auto
  have "nw_ends rn (fst q) = None" if "q \<in> set ps" for q using ih ne [OF that] that m(2) by auto
  moreover have "nw_connections rn' x = Some s" using ih x m(4) by simp
  moreover have "is_enabled rn' y \<longleftrightarrow> (if y \<in> fst ` set (p # ps) then enable else is_enabled rn y)" for y using ih x m(5) by (auto simp: p)
  ultimately show ?case using ih c(3) m(1-4) x by (auto simp: p)
qed simp

lemma add_services_fields:
  "nw_ends (add_services rn s svcs) = nw_ends rn" "nw_connections (add_services rn s svcs) = nw_connections rn"
  "is_enabled (add_services rn s svcs) x = is_enabled rn x" "\<exists>k. nw_servers (add_services rn s svcs) = (nw_servers rn)(s \<mapsto> k)"
  by (auto simp: add_services_def AddServer_def is_enabled_def Let_def)

text \<open>The same with servers that have not been started.\<close>

definition sv_base :: "nat \<Rightarrow> ('s, 'c, 'd, 'o, 'v, 'b, 'z) service_config_scheme \<Rightarrow> bool" where
  "sv_base n cfg \<longleftrightarrow> sv_n cfg = n \<and> length (sv_endnames cfg) = n \<and> distinct (concat (sv_endnames cfg)) \<and>
     (\<forall>x\<in>set (concat (sv_endnames cfg)). nw_ends (sv_net cfg) x \<noteq> None) \<and> length (sv_servers cfg) = n \<and> length (sv_saved cfg) = n"

lemma sv_ok_alt: "sv_ok n cfg \<longleftrightarrow> sv_base n cfg \<and> (\<forall>i<n. length (sv_endnames cfg ! i) = n)"
  by (auto simp: sv_ok_def sv_base_def rows_ok_def)

lemma StartServer_base:
  assumes "StartServer pers start svcs cfg i names = Some cfg'" "sv_base n cfg" "i < n"
  shows "sv_base n cfg' \<and> sv_endnames cfg' = (sv_endnames cfg)[i := map names [0..<n]]"
proof -
  let ?E = "(sv_endnames cfg)[i := map names [0..<n]]"
  have b: "sv_n cfg = n" "length (sv_endnames cfg) = n" "distinct (concat (sv_endnames cfg))"
    "\<forall>x\<in>set (concat (sv_endnames cfg)). nw_ends (sv_net cfg) x \<noteq> None" "length (sv_servers cfg) = n" "length (sv_saved cfg) = n"
    using assms(2) by (simp_all add: sv_base_def)
  from assms(1) b(1) obtain rn es where c: "new_ends False (map (\<lambda>j. (names j, server_key j)) [0..<n]) (sv_net cfg) = Some (rn, es)"
    "sv_endnames cfg' = ?E" "sv_net cfg' = add_services rn (server_key i) svcs" "sv_n cfg' = n"
    "length (sv_servers cfg') = length (sv_servers cfg)" "length (sv_saved cfg') = length (sv_saved cfg)"
    by (auto simp: StartServer_def bind_Some_iff Let_def)
  have f: "distinct (map names [0..<n])" "\<forall>j<n. nw_ends (sv_net cfg) (names j) = None"
    "\<forall>x. nw_ends rn x \<noteq> None \<longleftrightarrow> nw_ends (sv_net cfg) x \<noteq> None \<or> x \<in> names ` {0..<n}"
    using new_ends_spec [OF c(1)] by (simp_all add: comp_def image_image)
  have "distinct (concat ?E)"
  proof (rule distinct_concat_update [OF b(3) _ f(1)])
    show "i < length (sv_endnames cfg)" using assms(3) b(2) by simp
    show "set (map names [0..<n]) \<inter> set (concat (sv_endnames cfg)) = {}" using b(4) f(2) by fastforce
  qed
  moreover have "nw_ends rn x \<noteq> None" if "x \<in> set (concat ?E)" for x
  proof -
    have "x \<in> set (concat (sv_endnames cfg)) \<or> x \<in> names ` {0..<n}"
      using that set_update_subset_insert [of "sv_endnames cfg" i "map names [0..<n]"] by auto
    then show ?thesis using f(3) b(4) by blast
  qed
  ultimately show ?thesis using c b by (simp add: sv_base_def add_services_fields del: set_concat)
qed

lemma StartServer_ok:
  "StartServer pers start svcs cfg i names = Some cfg' \<Longrightarrow> sv_ok n cfg \<Longrightarrow> i < n \<Longrightarrow> sv_ok n cfg'"
  using StartServer_base [of pers start svcs cfg i names cfg' n]
  unfolding sv_ok_alt by (auto simp: nth_list_update sv_base_def)

lemma start_each_base:
  assumes "start_each pers start svcs names cfg js = Some cfg'" "sv_base n cfg" "set js \<subseteq> {..<n}"
  shows "sv_base n cfg' \<and> (\<forall>i<n. i \<in> set js \<or> length (sv_endnames cfg ! i) = n \<longrightarrow> length (sv_endnames cfg' ! i) = n)"
  using assms
proof (induction js arbitrary: cfg)
  case (Cons j js)
  then obtain c where c: "StartServer pers start svcs cfg j (names j) = Some c" "start_each pers start svcs names c js = Some cfg'"
    by (auto simp: bind_Some_iff)
  from StartServer_base [OF c(1) Cons.prems(2)] Cons.prems(3) have s: "sv_base n c"
    "sv_endnames c = (sv_endnames cfg)[j := map (names j) [0..<n]]" by auto
  from Cons.IH [OF c(2) s(1)] Cons.prems(2,3) show ?case unfolding s(2) by (auto simp: nth_list_update sv_base_def)
qed simp

lemma connect_each_ok:
  "connect_each cfg js = Some cfg' \<Longrightarrow> sv_ok n cfg \<Longrightarrow> set js \<subseteq> {..<n} \<Longrightarrow> sv_ok n cfg'"
proof (induction js arbitrary: cfg)
  case (Cons j js)
  have "set (all_servers cfg) \<subseteq> {..<n}" using Cons.prems(2) by (auto simp: all_servers_def sv_ok_def)
  with connectUnlocked_links [OF Cons.prems(2), of j "all_servers cfg"] Cons.prems(3) obtain c where
    "connectUnlocked cfg j (all_servers cfg) = Some c" "relinked cfg c" by auto
  with Cons.prems Cons.IH [of c] sv_ok_relinked show ?case by auto
qed simp

lemma started_ok:
  assumes "start_each pers start svcs names cfg [0..<n] = Some c" "sv_base n cfg" "ConnectAll c = Some cfg'"
  shows "sv_ok n cfg'"
proof -
  from start_each_base [OF assms(1,2)] have "sv_ok n c" by (simp add: sv_ok_alt lessThan_atLeast0)
  with connect_each_ok [OF assms(3) [unfolded ConnectAll_def]] show ?thesis by (auto simp: sv_ok_def lessThan_atLeast0)
qed

lemma ShutdownServer_ok:
  assumes "ShutdownServer pers cfg i = Some cfg'" "sv_ok n cfg" "i < n"
  shows "sv_ok n cfg'"
proof -
  have "set (all_servers cfg) \<subseteq> {..<n}" "length (all_servers cfg) \<le> n" using assms(2) by (auto simp: all_servers_def sv_ok_def)
  from disconnectUnlocked_links [OF assms(2,3) this] obtain c where c: "disconnectUnlocked cfg i (all_servers cfg) = Some c" "relinked cfg c" by blast
  with sv_ok_relinked [OF c(2) assms(2)] assms(1) show ?thesis
    by (auto simp: ShutdownServer_def sv_ok_def Let_def DeleteServer_def)
qed

lemma set_client_ends_same: "set_client_ends names yes to rn = Some rn' \<Longrightarrow> same_ends rn rn'"
proof (induction to arbitrary: rn)
  case (Cons t to)
  then obtain e where "set_client_ends names yes to (Enable rn e yes) = Some rn'" by (auto simp: bind_Some_iff)
  from Cons.IH [OF this] show ?case by simp
qed simp

lemma client_relinked:
  "ConnectClientUnlocked cfg ck to = Some cfg' \<Longrightarrow> relinked cfg cfg'" "DisconnectClientUnlocked cfg ck to = Some cfg' \<Longrightarrow> relinked cfg cfg'"
  by (auto simp: ConnectClientUnlocked_def DisconnectClientUnlocked_def relinked_def bind_Some_iff set_client_ends_same)

lemma makeClient_ok:
  assumes "makeClient mk cfg to names draws ck = Some (cfg', k, handles)" "sv_ok n cfg"
  shows "sv_ok n cfg'"
proof -
  from assms(1) obtain rn ends where c: "new_ends False (map (\<lambda>j. (names j, server_key j)) [0..<sv_n cfg]) (sv_net cfg) = Some (rn, ends)"
    "ConnectClientUnlocked (cfg\<lparr>sv_net := rn, sv_clerks := AList.update ck (map names [0..<sv_n cfg]) (sv_clerks cfg),
       sv_nextClientId := sv_nextClientId cfg + 1\<rparr>) ck to = Some cfg'" by (auto simp: makeClient_def bind_Some_iff Let_def)
  have "\<forall>x. nw_ends (sv_net cfg) x \<noteq> None \<longrightarrow> nw_ends rn x \<noteq> None" using new_ends_spec [OF c(1)] by blast
  then have "sv_ok n (cfg\<lparr>sv_net := rn, sv_clerks := AList.update ck (map names [0..<sv_n cfg]) (sv_clerks cfg),
       sv_nextClientId := sv_nextClientId cfg + 1\<rparr>)" using assms(2) by (auto simp: sv_ok_def)
  with sv_ok_relinked [OF client_relinked(1) [OF c(2)]] show ?thesis by blast
qed

text \<open>
  Anything that a test of the key/value service may do to its servers and clerks. In between the
  servers run on: in \<open>Progress i kv\<close> the goroutines of server \<open>i\<close>, its Raft peer among them, have
  brought it to the state \<open>kv\<close>, which may be any.
\<close>

datatype kv_test_op =
    Partition "nat list" "nat list"
  | Reconnect
  | Shutdown nat
  | Restart_server nat "nat \<Rightarrow> string"
  | NewClient "nat list" "nat \<Rightarrow> string" "nat list" nat
  | JoinClient nat "nat list"
  | CutClient nat "nat list"
  | DropClient nat
  | Progress nat KVServer

fun kv_test_step ::
  "(string \<times> 'o \<times> ('o, 'v) reflect_method list) list \<Rightarrow> kv_test_op \<Rightarrow> (KVServer, CommandArgs, kv_gob, 'o, 'v, 'b) kv_config \<Rightarrow>
   (KVServer, CommandArgs, kv_gob, 'o, 'v, 'b) kv_config option" where
  "kv_test_step svcs (Partition p1 p2) cfg = partition_servers cfg p1 p2"
| "kv_test_step svcs Reconnect cfg = ConnectAll cfg"
| "kv_test_step svcs (Shutdown i) cfg = ShutdownServer (persister \<circ> kv_rf) cfg i"
| "kv_test_step svcs (Restart_server i names) cfg =
     StartServer (persister \<circ> kv_rf) (\<lambda>servers self ps. StartKVServer servers self ps (kc_maxraftstate cfg)) svcs cfg i names"
| "kv_test_step svcs (NewClient to names draws ck) cfg = map_option fst (makeClient (\<lambda>servers. MakeClerk servers 0) cfg to names draws ck)"
| "kv_test_step svcs (JoinClient ck to) cfg = ConnectClientUnlocked cfg ck to"
| "kv_test_step svcs (CutClient ck from) cfg = DisconnectClientUnlocked cfg ck from"
| "kv_test_step svcs (DropClient ck) cfg = Some (deleteClient cfg ck)"
| "kv_test_step svcs (Progress i kv) cfg =
     (case sv_servers cfg ! i of
        Some _ \<Rightarrow> Some (cfg\<lparr>sv_servers := (sv_servers cfg)[i := Some kv]\<rparr>)
      | None \<Rightarrow> None)"

fun op_valid :: "nat \<Rightarrow> kv_test_op \<Rightarrow> bool" where
  "op_valid n (Partition p1 p2) \<longleftrightarrow> distinct (p1 @ p2) \<and> set (p1 @ p2) \<subseteq> {..<n}"
| "op_valid n (Shutdown i) \<longleftrightarrow> i < n"
| "op_valid n (Restart_server i names) \<longleftrightarrow> i < n"
| "op_valid n (Progress i kv) \<longleftrightarrow> i < n"
| "op_valid n _ \<longleftrightarrow> True"

fun kv_test_run ::
  "(string \<times> 'o \<times> ('o, 'v) reflect_method list) list \<Rightarrow> kv_test_op list \<Rightarrow> (KVServer, CommandArgs, kv_gob, 'o, 'v, 'b) kv_config \<Rightarrow>
   (KVServer, CommandArgs, kv_gob, 'o, 'v, 'b) kv_config option" where
  "kv_test_run svcs [] cfg = Some cfg"
| "kv_test_run svcs (p # ps) cfg = do { cfg \<leftarrow> kv_test_step svcs p cfg; kv_test_run svcs ps cfg }"

lemma kv_test_step_ok:
  assumes "kv_test_step svcs p cfg = Some cfg'" "op_valid n p" "sv_ok n cfg"
  shows "sv_ok n cfg'"
proof (cases p)
  case (Partition p1 p2)
  with assms partition_links [OF assms(3), of p1 p2] sv_ok_relinked [OF _ assms(3)] show ?thesis by auto
next
  case Reconnect
  then have "connect_each cfg [0..<sv_n cfg] = Some cfg'" using assms(1) by (simp add: ConnectAll_def)
  moreover have "set [0..<sv_n cfg] \<subseteq> {..<n}" using assms(3) by (auto simp: sv_ok_def)
  ultimately show ?thesis using connect_each_ok assms(3) by blast
next
  case (NewClient to names draws ck)
  with assms makeClient_ok show ?thesis by fastforce
next
  case (DropClient ck)
  with assms show ?thesis by (auto simp: deleteClient_def sv_ok_def)
next
  case (Progress i kv)
  with assms show ?thesis by (auto simp: sv_ok_def split: option.splits)
qed (use assms in \<open>auto intro: ShutdownServer_ok StartServer_ok sv_ok_relinked client_relinked\<close>)

lemma kv_test_run_ok:
  "kv_test_run svcs ps cfg = Some cfg' \<Longrightarrow> \<forall>p\<in>set ps. op_valid n p \<Longrightarrow> sv_ok n cfg \<Longrightarrow> sv_ok n cfg'"
  by (induction ps arbitrary: cfg) (auto simp: bind_Some_iff dest: kv_test_step_ok)

lemma kv_make_config_ok:
  assumes "kv_make_config n unreliable maxraftstate now names svcs = Some cfg"
  shows "sv_ok n cfg"
proof -
  from assms obtain c1 c2 where c: "start_each (persister \<circ> kv_rf) (\<lambda>servers self ps. StartKVServer servers self ps maxraftstate) svcs names
      (kv_blank n now maxraftstate) [0..<n] = Some c1" "ConnectAll c1 = Some c2" "cfg = c2\<lparr>sv_net := Reliable (sv_net c2) (\<not> unreliable)\<rparr>"
    by (auto simp: kv_make_config_def bind_Some_iff)
  have "sv_base n (kv_blank n now maxraftstate)" by (simp add: sv_base_def kv_blank_def)
  from started_ok [OF c(1) this c(2)] c(3) show ?thesis by (simp add: sv_ok_def Reliable_def)
qed

section \<open>The split around the leader\<close>

lemma split_loop_spec:
  assumes "j + length (filter (\<lambda>i. i \<noteq> l) is) \<le> length p1 + length p2"
  shows "\<exists>q1 q2. split_loop l is p1 p2 j = Some (q1, q2) \<and> length q1 = length p1 \<and> length q2 = length p2 \<and>
    q1 @ q2 = take j (p1 @ p2) @ filter (\<lambda>i. i \<noteq> l) is @ drop (j + length (filter (\<lambda>i. i \<noteq> l) is)) (p1 @ p2)"
  using assms
proof (induction "is" arbitrary: p1 p2 j)
  case (Cons i "is")
  show ?case
  proof (cases "i = l")
    case False
    define q1 q2 where "q1 = (if j < length p1 then p1[j := i] else p1)" and "q2 = (if j < length p1 then p2 else p2[j - length p1 := i])"
    have j: "j < length p1 + length p2" using Cons.prems False by simp
    have q: "q1 @ q2 = (p1 @ p2)[j := i]" "length q1 = length p1" "length q2 = length p2"
      by (simp_all add: q1_def q2_def list_update_append)
    have s: "split_loop l (i # is) p1 p2 j = split_loop l is q1 q2 (Suc j)"
      using False j by (auto simp: q1_def q2_def store_def nat_diff_distrib')
    have t: "take (Suc j) (q1 @ q2) = take j (p1 @ p2) @ [i]" "drop (Suc j + k) (q1 @ q2) = drop (Suc j + k) (p1 @ p2)" for k
      unfolding q(1) using j by (simp_all add: take_Suc_conv_app_nth del: take_append drop_append)
    from Cons.IH [of "Suc j" q1 q2] Cons.prems False q(2,3) show ?thesis unfolding s t by simp
  qed (use Cons in simp)
qed (simp del: take_append drop_append)

lemma make_partition_odd:
  assumes "odd n" "3 \<le> n" "l < n"
  shows "\<exists>p1 p2. make_partition n l = Some (p1, p2) \<and> length p1 = n div 2 + 1 \<and> distinct (p1 @ p2) \<and> set (p1 @ p2) = {..<n} \<and> l \<in> set p2"
proof -
  let ?xs = "filter (\<lambda>i. i \<noteq> l) [0..<n]"
  obtain m where m: "n = 2 * m + 1" "1 \<le> m" using assms(1,2) by (elim oddE) auto
  have len: "length ?xs = 2 * m"
  proof -
    have "length ?xs = card (set ?xs)" by (rule distinct_card [symmetric]) simp
    also have "set ?xs = {..<n} - {l}" by auto
    finally show ?thesis using assms(3) m(1) by simp
  qed
  from split_loop_spec [of 0 l "[0..<n]" "replicate (n div 2 + 1) 0" "replicate (n div 2) 0"] len m obtain q1 q2 where
    q: "split_loop l [0..<n] (replicate (n div 2 + 1) 0) (replicate (n div 2) 0) 0 = Some (q1, q2)" "length q1 = m + 1" "length q2 = m"
    "q1 @ q2 = ?xs @ drop (2 * m) (replicate (m + 1) 0 @ replicate m 0)" by auto
  have "drop (2 * m) (replicate (m + 1) 0 @ replicate m 0) = [0 :: nat]" 
  proof -
    have "replicate (m + 1) 0 @ replicate m 0 = replicate (2 * m + 1) (0 :: nat)" by (simp flip: replicate_add)
    then show ?thesis by (simp only: drop_replicate) simp
  qed
  with q(4) have qq: "q1 @ q2 = ?xs @ [0]" by simp
  have "q1 @ q2[m - 1 := l] = (q1 @ q2)[2 * m := l]" using q(2) m(2) by (simp add: list_update_append)
  then have e: "q1 @ q2[m - 1 := l] = ?xs @ [l]" unfolding qq using len by (simp add: list_update_append)
  have "l \<in> set (q2[m - 1 := l])" using q(3) m(2) by (intro set_update_memI) simp
  moreover have "make_partition n l = Some (q1, q2[m - 1 := l])" using q(1,3) m(2) by (auto simp: make_partition_def store_def nat_diff_distrib')
  moreover have "distinct (q1 @ q2[m - 1 := l])" "set (q1 @ q2[m - 1 := l]) = {..<n}" unfolding e using assms(3) by auto
  ultimately show ?thesis using q(2) m(1) by (intro exI [of _ q1] exI [of _ "q2[m - 1 := l]"]) simp
qed

lemma kv_leader_loop_spec:
  assumes "kv_leader_loop servers js = Some (b, l)"
  shows "if b then l \<in> set js \<and> (\<exists>kv. servers ! l = Some kv \<and> role (kv_rf kv) = LEADER)
    else l = 0 \<and> (\<forall>i\<in>set js. \<exists>kv. servers ! i = Some kv \<and> role (kv_rf kv) \<noteq> LEADER)"
  using assms by (induction js) (auto simp: bind_Some_iff GetState_def split: if_splits)

text \<open>
  C17: The tests of the key/value service isolate the leader. Take an odd number of at least three
  servers and any sequence of partitions, shutdowns, restarts and clients before, the servers
  running on in between in whatever way. If all servers are running, then \<open>Leader\<close> returns a server
  whose Raft peer leads, or server 0 when no peer leads; and \<open>make_partition\<close> followed by \<open>partition\<close>
  splits all servers into a majority and a minority with the returned server in the minority, and
  then two servers are linked, in either direction, exactly if they are on the same side.
\<close>

theorem partition_isolates_leader:
  assumes "kv_make_config n unreliable maxraftstate now names svcs = Some c0" "\<forall>p\<in>set ps. op_valid n p"
    and "kv_test_run svcs ps c0 = Some cfg" "odd n" "3 \<le> n" "\<forall>i<n. sv_servers cfg ! i \<noteq> None"
  shows "\<exists>b l p1 p2 cfg'. kv_Leader cfg = Some (b, l) \<and>
    (if \<exists>i<n. role (kv_rf (the (sv_servers cfg ! i))) = LEADER then role (kv_rf (the (sv_servers cfg ! l))) = LEADER else l = 0) \<and>
    kv_make_partition cfg = Some (p1, p2) \<and> partition_servers cfg p1 p2 = Some cfg' \<and>
    length p1 = n div 2 + 1 \<and> distinct (p1 @ p2) \<and> set (p1 @ p2) = {..<n} \<and> l \<in> set p2 \<and>
    (\<forall>i<n. \<forall>j<n. is_enabled (sv_net cfg') (sv_endnames cfg' ! i ! j) \<longleftrightarrow> (i \<in> set p1 \<longleftrightarrow> j \<in> set p1))"
proof -
  have ok: "sv_ok n cfg" using kv_test_run_ok [OF assms(3,2) kv_make_config_ok [OF assms(1)]] .
  then have n: "sv_n cfg = n" by (simp add: sv_ok_def)
  have "\<exists>r. kv_leader_loop (sv_servers cfg) js = Some r" if "set js \<subseteq> {..<n}" for js
    using that
  proof (induction js)
    case (Cons j js)
    then obtain kv where "sv_servers cfg ! j = Some kv" using assms(6) by auto
    with Cons show ?case by auto
  qed (rule exI, rule kv_leader_loop.simps(1))
  then have "\<exists>r. kv_Leader cfg = Some r" unfolding kv_Leader_def n by (simp add: lessThan_atLeast0)
  then obtain b l where bl: "kv_Leader cfg = Some (b, l)" by auto
  note sp = kv_leader_loop_spec [OF bl [unfolded kv_Leader_def n]]
  have "l < n" using sp assms(5) by (auto split: if_splits)
  from make_partition_odd [OF assms(4,5) this] obtain p1 p2 where p: "make_partition n l = Some (p1, p2)" "length p1 = n div 2 + 1"
    "distinct (p1 @ p2)" "set (p1 @ p2) = {..<n}" "l \<in> set p2" by blast
  have "set (p1 @ p2) \<subseteq> {..<n}" using p(4) by simp
  from partition_links [OF ok p(3) this] obtain cfg' where c: "partition_servers cfg p1 p2 = Some cfg'"
    "\<forall>a\<in>set (p1 @ p2). \<forall>b\<in>set (p1 @ p2). sv_link cfg' a b \<longleftrightarrow> (a \<in> set p1 \<longleftrightarrow> b \<in> set p1)" by blast
  have "kv_make_partition cfg = Some (p1, p2)" using bl n p(1) by (simp add: kv_make_partition_def)
  moreover have "\<forall>i<n. \<forall>j<n. is_enabled (sv_net cfg') (sv_endnames cfg' ! i ! j) \<longleftrightarrow> (i \<in> set p1 \<longleftrightarrow> j \<in> set p1)"
    using c(2) unfolding p(4) by (simp add: sv_link_def linked_def)
  moreover have "if \<exists>i<n. role (kv_rf (the (sv_servers cfg ! i))) = LEADER then role (kv_rf (the (sv_servers cfg ! l))) = LEADER else l = 0"
  proof (cases b)
    case False
    with sp have "role (kv_rf (the (sv_servers cfg ! i))) \<noteq> LEADER" if "i < n" for i using that by (force simp: atLeast0LessThan)
    with sp False show ?thesis by auto
  qed (use sp in auto)
  ultimately show ?thesis
    using bl c(1) p(2-5) by (intro exI [of _ b] exI [of _ l] exI [of _ p1] exI [of _ p2] exI [of _ cfg']) (simp only: simp_thms)
qed

text \<open>
  Three servers; server 2 stands for election and wins it with the vote of one other peer. Server 1
  was shut down and restarted before.
\<close>

definition demo_winner :: "KVServer option" where
  "demo_winner = do {
     kv \<leftarrow> StartKVServer 3 2 MakePersister 0;
     (rf, el, _) \<leftarrow> ticker_election (kv_rf kv);
     (rf, _, _) \<leftarrow> requestVote_return rf el (Some \<lparr>rvr_Term = currentTerm rf, rvr_VoteGranted = True\<rparr>);
     Some (kv\<lparr>kv_rf := rf\<rparr>)
   }"

definition demo_test :: "kv_test_op list" where
  "demo_test = [Partition [0] [1, 2], Shutdown 1, Restart_server 1 (demo_names 1 1), Reconnect, Progress 2 (the demo_winner),
     NewClient [0] (demo_names 2 0) [0, 0, 1] 5, CutClient 5 [0]]"

definition on_test :: "((KVServer, CommandArgs, kv_gob, nat, nat, nat) kv_config \<Rightarrow> (KVServer, CommandArgs, kv_gob, nat, nat, nat) kv_config \<Rightarrow> bool) \<Rightarrow> bool" where
  "on_test P = (case kv_make_config 3 False 0 0 (demo_names 0) [] of
     Some c0 \<Rightarrow> (case kv_test_run [] demo_test c0 of Some cfg \<Rightarrow> P c0 cfg | None \<Rightarrow> False) | None \<Rightarrow> False)"

definition leads :: "KVServer option \<Rightarrow> bool" where
  "leads srv = (case srv of Some kv \<Rightarrow> role (kv_rf kv) = LEADER | None \<Rightarrow> False)"

theorem partition_isolates_leader_witness:
  "\<exists>(c0 :: (KVServer, CommandArgs, kv_gob, nat, nat, nat) kv_config) cfg p1 p2 cfg'. kv_make_config 3 False 0 0 (demo_names 0) [] = Some c0 \<and>
     kv_test_run [] demo_test c0 = Some cfg \<and> leads (sv_servers cfg ! 2) \<and> kv_make_partition cfg = Some (p1, p2) \<and>
     partition_servers cfg p1 p2 = Some cfg' \<and> length p1 = 2 \<and> 2 \<in> set p2"
proof -
  have "on_test (\<lambda>c0 cfg. leads (sv_servers cfg ! 2) \<and> map leads (sv_servers cfg) = [False, False, True] \<and> None \<notin> set (map (map_option (\<lambda>_. ())) (sv_servers cfg)))" by code_simp
  then obtain c0 cfg :: "(KVServer, CommandArgs, kv_gob, nat, nat, nat) kv_config" where c: "kv_make_config 3 False 0 0 (demo_names 0) [] = Some c0"
    "kv_test_run [] demo_test c0 = Some cfg" "leads (sv_servers cfg ! 2)" "map leads (sv_servers cfg) = [False, False, True]"
    "None \<notin> set (map (map_option (\<lambda>_. ())) (sv_servers cfg))"
    by (auto simp: on_test_def split: option.splits)
  have len: "length (sv_servers cfg) = 3" using arg_cong [OF c(4), of length] by simp
  have run: "sv_servers cfg ! i \<noteq> None" if "i < 3" for i
  proof
    assume "sv_servers cfg ! i = None"
    then have "None \<in> map_option (\<lambda>_. ()) ` set (sv_servers cfg)" using that len nth_mem [of i "sv_servers cfg"] by (intro image_eqI [of _ _ None]) auto
    with c(5) show False by simp
  qed
  have ld: "role (kv_rf (the (sv_servers cfg ! i))) = LEADER \<longleftrightarrow> i = 2" if "i < 3" for i
  proof -
    have "leads (sv_servers cfg ! i) \<longleftrightarrow> [False, False, True] ! i" using that len by (simp flip: c(4))
    moreover have "[False, False, True] ! i \<longleftrightarrow> i = 2" using that by (auto simp: less_Suc_eq numeral_3_eq_3)
    ultimately show ?thesis using run [OF that] by (auto simp: leads_def)
  qed
  have "\<forall>p\<in>set demo_test. op_valid 3 p" by (auto simp: demo_test_def)
  from partition_isolates_leader [OF c(1) this c(2)] run obtain b l p1 p2 cfg' where q:
    "if \<exists>i<3. role (kv_rf (the (sv_servers cfg ! i))) = LEADER then role (kv_rf (the (sv_servers cfg ! l))) = LEADER else l = 0"
    "kv_make_partition cfg = Some (p1, p2)" "partition_servers cfg p1 p2 = Some cfg'" "length p1 = 2" "set (p1 @ p2) = {..<3}" "l \<in> set p2" by auto
  have "\<exists>i<3. role (kv_rf (the (sv_servers cfg ! i))) = LEADER" using ld by (intro exI [of _ 2]) simp
  moreover have "l < 3" using q(5,6) by auto
  ultimately have "l = 2" using q(1) ld by simp
  with c q show ?thesis by blast
qed

text \<open>
  With an even number of servers the two sides overlap: the array of the minority has a slot too
  many, which keeps the number 0. Server 0 ends on the side of the leader, and no side has a
  majority.
\<close>

theorem even_partition_overlaps: "make_partition 4 3 = Some ([0, 1, 2], [0, 3])"
  by code_simp

text \<open>
  The guard against servers without ends looks at the wrong one: cutting server 0 from server 1,
  which has not been started, panics, although the outgoing loop in the mirrored call skips it.
\<close>

theorem wrong_guard_panics:
  "detach_in [[''a'', ''b''], []] 0 0 [1] rn = None \<and> detach_out [[''a'', ''b''], []] 1 [0] rn = Some rn"
  by (simp add: idx_def)

end
