(* ===== verification/Shard_Harness.thy ===== *)
theory Shard_Harness
  imports Shard_Config Service_Partition
begin

text \<open>
  The harness of the shardkv tests: the names under which a group joins are those of its servers on
  the network, whatever was shut down and restarted before; and the harness works only with as many
  servers in a group as there are controllers, since two of its arrays have each other's length.
\<close>

section \<open>Names of servers\<close>

lemma split_at_dash:
  assumes "xs @ CHR ''-'' # ys = us @ CHR ''-'' # vs" "CHR ''-'' \<notin> set xs" "CHR ''-'' \<notin> set us"
  shows "xs = us \<and> ys = vs"
  using assms
proof (induction xs arbitrary: us)
  case Nil
  then show ?case by (cases us) auto
next
  case (Cons x xs)
  then show ?case by (cases us) auto
qed

lemma servername_inj:
  assumes "0 \<le> g" "0 \<le> h"
  shows "servername g i = servername h j \<longleftrightarrow> g = h \<and> i = j"
proof
  assume "servername g i = servername h j"
  then have "Itoa g @ CHR ''-'' # Itoa (int i) = Itoa h @ CHR ''-'' # Itoa (int j)" by (simp add: servername_def)
  moreover have "CHR ''-'' \<notin> set (Itoa g)" "CHR ''-'' \<notin> set (Itoa h)" using assms dash_no_digit by (simp_all add: Itoa_def)
  ultimately have "Itoa g = Itoa h" "Itoa (int i) = Itoa (int j)" using split_at_dash by blast+
  with Itoa_inj [OF assms] Itoa_inj [of "int i" "int j"] show "g = h \<and> i = j" by simp
qed simp

lemma ctrler_not_server: "ctrlername k \<noteq> servername g i"
  by (simp add: ctrlername_def servername_def)

section \<open>Two arrays\<close>

lemma ctrler_ends_fit:
  fixes rn :: "('o, 'v, 'b) Network"
  shows "ctrler_ends names js endnames rn = Some r \<Longrightarrow> \<forall>j\<in>set js. j < length endnames"
proof (induction js arbitrary: endnames rn r)
  case (Cons j js)
  then have j: "j < length endnames" by (auto simp: bind_Some_iff store_def split: if_splits)
  with Cons.prems obtain rn' :: "('o, 'v, 'b) Network" and r' where "ctrler_ends names js (endnames[j := names j]) rn' = Some r'"
    by (auto simp: bind_Some_iff store_def)
  from Cons.IH [OF this] j show ?case by simp
qed simp

lemma StartServer_fits:
  assumes "hc_StartServer svcs cfg gi i names mnames = Some cfg'"
  shows "gi < length (hc_groups cfg) \<and> i < length (gg_mendnames (hc_groups cfg ! gi)) \<and> length (hc_groups cfg') = length (hc_groups cfg) \<and>
    length (gg_mendnames (hc_groups cfg' ! gi)) = length (gg_mendnames (hc_groups cfg ! gi)) \<and> hc_nctrlers cfg' = hc_nctrlers cfg \<and> hc_n cfg' = hc_n cfg"
  using assms by (auto simp: hc_StartServer_def bind_Some_iff idx_def store_def set_group_def Let_def split: if_splits)

lemma hc_start_each_fits:
  assumes "hc_start_each svcs names mnames cfg gi js = Some cfg'"
  shows "(\<forall>i\<in>set js. i < length (gg_mendnames (hc_groups cfg ! gi))) \<and> hc_nctrlers cfg' = hc_nctrlers cfg \<and> hc_n cfg' = hc_n cfg"
  using assms
proof (induction js arbitrary: cfg)
  case (Cons i js)
  then obtain c where c: "hc_StartServer svcs cfg gi i (names i) (mnames i) = Some c" "hc_start_each svcs names mnames c gi js = Some cfg'"
    by (auto simp: bind_Some_iff)
  with Cons.IH [OF c(2)] StartServer_fits [OF c(1)] show ?case by simp
qed simp

lemma start_ctrlers_frame:
  assumes "start_ctrlers svcs names cfg js = Some cfg'"
  shows "hc_nctrlers cfg' = hc_nctrlers cfg \<and> hc_n cfg' = hc_n cfg \<and> hc_groups cfg' = hc_groups cfg \<and> hc_mck cfg' = hc_mck cfg \<and>
    (\<forall>g i. nw_servers (hc_net cfg') (servername g i) = nw_servers (hc_net cfg) (servername g i))"
  using assms
proof (induction js arbitrary: cfg)
  case (Cons j js)
  then obtain c where c: "StartCtrlerserver svcs cfg j (names j) = Some c" "start_ctrlers svcs names c js = Some cfg'" by (auto simp: bind_Some_iff)
  from c(1) obtain rn ends where n: "new_ends True (map (\<lambda>k. (names j k, ctrlername k)) [0..<hc_nctrlers cfg]) (hc_net cfg) = Some (rn, ends)"
    "hc_net c = add_services rn (ctrlername j) svcs" "hc_nctrlers c = hc_nctrlers cfg" "hc_n c = hc_n cfg" "hc_groups c = hc_groups cfg" "hc_mck c = hc_mck cfg"
    by (auto simp: StartCtrlerserver_def bind_Some_iff)
  have "nw_servers (hc_net c) (servername g i) = nw_servers (hc_net cfg) (servername g i)" for g i
    using new_ends_spec [OF n(1)] add_services_fields(4) [of rn "ctrlername j" svcs] ctrler_not_server [of j g i, symmetric] unfolding n(2) by auto
  with Cons.IH [OF c(2)] n(3-6) show ?case by simp
qed simp

lemma shardclerk_frame:
  assumes "shardclerk cfg names nrand = Some (cfg', mck)"
  shows "hc_nctrlers cfg' = hc_nctrlers cfg \<and> hc_n cfg' = hc_n cfg \<and> hc_groups cfg' = hc_groups cfg \<and> nw_servers (hc_net cfg') = nw_servers (hc_net cfg)"
  using assms by (auto simp: shardclerk_def bind_Some_iff dest: new_ends_spec)

lemma start_groups_fits:
  assumes "start_groups svcs names mnames cfg gis = Some cfg'" "set gis \<subseteq> {..<length (hc_groups cfg)}" "gis \<noteq> []"
  shows "hc_n cfg \<le> hc_nctrlers cfg"
proof -
  from assms(3) obtain gi rest where g: "gis = gi # rest" by (cases gis) auto
  with assms(1) obtain c where "hc_start_each svcs (names gi) (mnames gi) (set_group cfg gi (new_group cfg gi)) gi [0..<hc_n cfg] = Some c"
    by (auto simp: bind_Some_iff)
  from hc_start_each_fits [OF this] have "\<forall>i<hc_n cfg. i < hc_nctrlers cfg" using assms(2) g by (auto simp: set_group_def new_group_def)
  then show ?thesis by (metis less_irrefl not_le)
qed

lemma start_groups_frame:
  assumes "start_groups svcs names mnames cfg gis = Some cfg'"
  shows "hc_nctrlers cfg' = hc_nctrlers cfg \<and> hc_n cfg' = hc_n cfg"
  using assms
proof (induction gis arbitrary: cfg)
  case (Cons gi gis)
  then obtain c where "hc_start_each svcs (names gi) (mnames gi) (set_group cfg gi (new_group cfg gi)) gi [0..<hc_n cfg] = Some c"
    "start_groups svcs names mnames c gis = Some cfg'" by (auto simp: bind_Some_iff)
  with Cons.IH [of c] hc_start_each_fits show ?case by (fastforce simp: set_group_def)
qed simp

lemma make_config_sizes:
  assumes "hc_make_config n unreliable maxraftstate now svcs cnames knames nrand names mnames = Some cfg"
  shows "n \<le> 3 \<and> hc_n cfg = n \<and> hc_nctrlers cfg = 3"
proof -
  from assms obtain c1 c2 mck c3 where c: "start_ctrlers svcs cnames (hc_blank n maxraftstate now) [0..<3] = Some c1"
    "shardclerk c1 knames nrand = Some (c2, mck)" "start_groups svcs names mnames (c2\<lparr>hc_mck := Some mck\<rparr>) [0..<3] = Some c3"
    "cfg = c3\<lparr>hc_net := Reliable (hc_net c3) (\<not> unreliable)\<rparr>"
    by (auto simp: hc_make_config_def bind_Some_iff)
  have s: "hc_n c2 = n" "hc_nctrlers c2 = 3" "length (hc_groups c2) = 3"
    using start_ctrlers_frame [OF c(1)] shardclerk_frame [OF c(2)] by (simp_all add: hc_blank_def)
  from start_groups_fits [OF c(3)] start_groups_frame [OF c(3)] c(4) s show ?thesis by (simp add: lessThan_atLeast0)
qed

text \<open>
  The harness of the shardkv tests works for groups of three servers only. With more, starting
  the fourth server of a group indexes the array of its ends to the controllers, which has one row
  per controller, out of range; with fewer, so does a new clerk with the array of its ends, which has
  one slot per server of a group instead of one per controller.
\<close>

theorem shard_harness_needs_three:
  "(3 < n \<longrightarrow> hc_make_config n unreliable maxraftstate now svcs cnames knames nrand names mnames = (None :: ('o, 'v, 'b) shard_config option)) \<and>
   (n < 3 \<longrightarrow> hc_make_config n unreliable maxraftstate now svcs cnames knames nrand names mnames = Some (cfg :: ('o, 'v, 'b) shard_config) \<longrightarrow>
      hc_makeClient cfg knames' ck nrand' config = None)"
proof (intro conjI impI)
  assume "3 < n"
  with make_config_sizes [of n unreliable maxraftstate now svcs cnames knames nrand names mnames] show
    "hc_make_config n unreliable maxraftstate now svcs cnames knames nrand names mnames = (None :: ('o, 'v, 'b) shard_config option)" by fastforce
next
  assume n: "n < 3" and c: "hc_make_config n unreliable maxraftstate now svcs cnames knames nrand names mnames = Some cfg"
  note s = make_config_sizes [OF c]
  have "ctrler_ends knames' [0..<3] (replicate n []) (hc_net cfg) \<noteq> Some r" for r
    using ctrler_ends_fit [of knames' "[0..<3]" "replicate n []" "hc_net cfg" r] n by force
  then have "ctrler_ends knames' [0..<3] (replicate n []) (hc_net cfg) = None" by (cases "ctrler_ends knames' [0..<3] (replicate n []) (hc_net cfg)") auto
  with s show "hc_makeClient cfg knames' ck nrand' config = None" by (simp add: hc_makeClient_def)
qed

section \<open>Joined servers are on the network\<close>

lemma make_end_servers: "make_end rn name server = Some (rn', e) \<Longrightarrow> nw_servers rn' = nw_servers rn"
  by (auto simp: make_end_def MakeEnd_def Connect_def Let_def bind_Some_iff split: option.splits)

lemma ctrler_ends_servers: "ctrler_ends names js endnames rn = Some (rn', r) \<Longrightarrow> nw_servers rn' = nw_servers rn"
proof (induction js arbitrary: endnames rn r)
  case (Cons j js)
  then obtain en rn1 e r' where "make_end rn (names j) (ctrlername j) = Some (rn1, e)" "ctrler_ends names js en rn1 = Some (rn', r')"
    by (auto simp: bind_Some_iff)
  with Cons.IH make_end_servers show ?case by metis
qed simp

lemma disable_ends_servers: "disable_ends row js rn = Some rn' \<Longrightarrow> nw_servers rn' = nw_servers rn"
  by (induction js arbitrary: rn) (auto simp: bind_Some_iff)

text \<open>The network has a server under a name exactly if that server of the group is running.\<close>

definition group_live :: "('o, 'v, 'b) Network \<Rightarrow> nat \<Rightarrow> nat \<Rightarrow> group \<Rightarrow> bool" where
  "group_live rn n gi gg \<longleftrightarrow> gg_gid gg = 100 + int gi \<and> length (gg_servers gg) = n \<and>
     (\<forall>i<n. nw_servers rn (servername (100 + int gi) i) \<noteq> None \<longleftrightarrow> gg_servers gg ! i \<noteq> None)"

definition hc_live :: "nat \<Rightarrow> ('o, 'v, 'b) shard_config \<Rightarrow> bool" where
  "hc_live k cfg \<longleftrightarrow> (\<forall>gi<length (hc_groups cfg). gi < k \<longrightarrow> group_live (hc_net cfg) (hc_n cfg) gi (hc_groups cfg ! gi)) \<and>
     (\<forall>gi\<ge>k. \<forall>i. nw_servers (hc_net cfg) (servername (100 + int gi) i) = None)"

lemma hc_live_update:
  assumes l: "hc_live k cfg" and g: "gi < k" "gi < length (hc_groups cfg)" "i < hc_n cfg"
    and n: "\<forall>x. x \<noteq> servername (100 + int gi) i \<longrightarrow> nw_servers (hc_net cfg') x = nw_servers (hc_net cfg) x"
    and s: "nw_servers (hc_net cfg') (servername (100 + int gi) i) \<noteq> None \<longleftrightarrow> v \<noteq> None"
    and c: "hc_n cfg' = hc_n cfg" "hc_groups cfg' = (hc_groups cfg)[gi := gg]" "gg_gid gg = 100 + int gi"
      "gg_servers gg = (gg_servers (hc_groups cfg ! gi))[i := v]"
  shows "hc_live k cfg'"
proof -
  have other: "nw_servers (hc_net cfg') (servername (100 + int h) j) = nw_servers (hc_net cfg) (servername (100 + int h) j)"
    if "h \<noteq> gi \<or> j \<noteq> i" for h j using n that by (simp add: servername_inj)
  have "group_live (hc_net cfg') (hc_n cfg') h (hc_groups cfg' ! h)" if h: "h < length (hc_groups cfg')" "h < k" for h
  proof -
    have "group_live (hc_net cfg) (hc_n cfg) h (hc_groups cfg ! h)" using l h c(2) by (simp add: hc_live_def)
    then show ?thesis using other s c h g by (cases "h = gi") (auto simp: group_live_def nth_list_update)
  qed
  moreover have "nw_servers (hc_net cfg') (servername (100 + int h) j) = None" if "h \<ge> k" for h j
    using other [of h j] l that g(1) by (simp add: hc_live_def)
  ultimately show ?thesis by (simp add: hc_live_def)
qed

lemma hc_live_group: "hc_live k cfg \<Longrightarrow> gi < k \<Longrightarrow> gi < length (hc_groups cfg) \<Longrightarrow> gg_gid (hc_groups cfg ! gi) = 100 + int gi"
  by (simp add: hc_live_def group_live_def)

lemma StartServer_live:
  assumes a: "hc_StartServer svcs cfg gi i names mnames = Some cfg'" and l: "hc_live k cfg" "gi < k" "i < hc_n cfg"
  shows "hc_live k cfg' \<and> hc_n cfg' = hc_n cfg \<and> length (hc_groups cfg') = length (hc_groups cfg) \<and> hc_mck cfg' = hc_mck cfg"
proof -
  have gi: "gi < length (hc_groups cfg)" using StartServer_fits [OF a] by simp
  note gid = hc_live_group [OF l(1,2) gi]
  from a gi obtain rn ends rn' r kv gg where c: "new_ends True (map (\<lambda>j. (names j, servername (100 + int gi) j)) [0..<hc_n cfg]) (hc_net cfg) = Some (rn, ends)"
    "ctrler_ends mnames [0..<hc_nctrlers cfg] (replicate (hc_nctrlers cfg) []) rn = Some (rn', r)"
    "hc_net cfg' = add_services rn' (servername (100 + int gi) i) svcs" "hc_groups cfg' = (hc_groups cfg)[gi := gg]" "gg_gid gg = 100 + int gi"
    "gg_servers gg = (gg_servers (hc_groups cfg ! gi))[i := Some kv]" "hc_n cfg' = hc_n cfg" "hc_mck cfg' = hc_mck cfg"
    by (auto simp: hc_StartServer_def bind_Some_iff idx_def store_def set_group_def Let_def gid split: if_splits)
  have "nw_servers rn' = nw_servers (hc_net cfg)" using ctrler_ends_servers [OF c(2)] new_ends_spec [OF c(1)] by simp
  with add_services_fields(4) [of rn' "servername (100 + int gi) i" svcs] have
    "\<forall>x. x \<noteq> servername (100 + int gi) i \<longrightarrow> nw_servers (hc_net cfg') x = nw_servers (hc_net cfg) x"
    "nw_servers (hc_net cfg') (servername (100 + int gi) i) \<noteq> None" unfolding c(3) by auto
  with hc_live_update [OF l(1,2) gi l(3), of cfg' "Some kv" gg] c show ?thesis by simp
qed

lemma ShutdownServer_live:
  assumes a: "hc_ShutdownServer cfg gi i = Some cfg'" and l: "hc_live k cfg" "gi < k" "i < hc_n cfg"
  shows "hc_live k cfg' \<and> hc_n cfg' = hc_n cfg \<and> length (hc_groups cfg') = length (hc_groups cfg) \<and> hc_mck cfg' = hc_mck cfg"
proof -
  have gi: "gi < length (hc_groups cfg)" using a by (auto simp: hc_ShutdownServer_def bind_Some_iff idx_def split: if_splits)
  note gid = hc_live_group [OF l(1,2) gi]
  from a gi obtain row rn mrow rn' gg where c: "disable_ends row [0..<length (gg_servers (hc_groups cfg ! gi))] (hc_net cfg) = Some rn"
    "disable_ends mrow [0..<length mrow] rn = Some rn'" "hc_net cfg' = DeleteServer rn' (servername (100 + int gi) i)"
    "hc_groups cfg' = (hc_groups cfg)[gi := gg]" "gg_gid gg = 100 + int gi" "gg_servers gg = (gg_servers (hc_groups cfg ! gi))[i := None]"
    "hc_n cfg' = hc_n cfg" "hc_mck cfg' = hc_mck cfg"
    by (auto simp: hc_ShutdownServer_def bind_Some_iff idx_def set_group_def Let_def gid split: if_splits)
  have "nw_servers rn' = nw_servers (hc_net cfg)" using disable_ends_servers [OF c(1)] disable_ends_servers [OF c(2)] by simp
  then have "\<forall>x. x \<noteq> servername (100 + int gi) i \<longrightarrow> nw_servers (hc_net cfg') x = nw_servers (hc_net cfg) x"
    "nw_servers (hc_net cfg') (servername (100 + int gi) i) = None" unfolding c(3) by (simp_all add: DeleteServer_def)
  with hc_live_update [OF l(1,2) gi l(3), of cfg' None gg] c show ?thesis by simp
qed

lemma hc_start_each_live:
  assumes "hc_start_each svcs names mnames cfg gi js = Some cfg'" "hc_live k cfg" "gi < k" "set js \<subseteq> {..<hc_n cfg}"
  shows "hc_live k cfg' \<and> hc_n cfg' = hc_n cfg \<and> length (hc_groups cfg') = length (hc_groups cfg) \<and> hc_mck cfg' = hc_mck cfg"
  using assms
proof (induction js arbitrary: cfg)
  case (Cons i js)
  then obtain c where c: "hc_StartServer svcs cfg gi i (names i) (mnames i) = Some c" "hc_start_each svcs names mnames c gi js = Some cfg'"
    by (auto simp: bind_Some_iff)
  from StartServer_live [OF c(1) Cons.prems(2,3)] Cons.prems(4) have s: "hc_live k c" "hc_n c = hc_n cfg"
    "length (hc_groups c) = length (hc_groups cfg)" "hc_mck c = hc_mck cfg" by auto
  with Cons.IH [OF c(2) s(1) Cons.prems(3)] Cons.prems(4) show ?case by simp
qed simp

lemma new_group_live:
  assumes "hc_live gi cfg" "gi < length (hc_groups cfg)"
  shows "hc_live (Suc gi) (set_group cfg gi (new_group cfg gi))"
  using assms by (auto simp: hc_live_def set_group_def group_live_def new_group_def nth_list_update less_Suc_eq)

lemma start_groups_live:
  assumes "start_groups svcs names mnames cfg [gi..<m] = Some cfg'" "hc_live gi cfg" "gi \<le> m" "m = length (hc_groups cfg)"
  shows "hc_live m cfg' \<and> hc_n cfg' = hc_n cfg \<and> length (hc_groups cfg') = m \<and> hc_mck cfg' = hc_mck cfg"
  using assms
proof (induction "m - gi" arbitrary: gi cfg)
  case (Suc d)
  then have u: "[gi..<m] = gi # [Suc gi..<m]" by (simp add: upt_conv_Cons)
  with Suc.prems(1) obtain c where c: "hc_start_each svcs (names gi) (mnames gi) (set_group cfg gi (new_group cfg gi)) gi [0..<hc_n cfg] = Some c"
    "start_groups svcs names mnames c [Suc gi..<m] = Some cfg'" by (auto simp: bind_Some_iff)
  have "gi < length (hc_groups cfg)" using Suc by simp
  note l = hc_start_each_live [OF c(1) new_group_live [OF Suc.prems(2) this]]
  have s: "hc_live (Suc gi) c" "hc_n c = hc_n cfg" "length (hc_groups c) = m" "hc_mck c = hc_mck cfg"
    using l Suc.prems(4) by (auto simp: set_group_def lessThan_atLeast0)
  have "d = m - Suc gi" "Suc gi \<le> m" using Suc.hyps(2) by auto
  from Suc.hyps(1) [OF this(1) c(2) s(1) this(2) s(3) [symmetric]] s(2,4) show ?case by simp
qed simp

lemma make_config_live:
  assumes "hc_make_config n unreliable maxraftstate now svcs cnames knames nrand names mnames = Some cfg"
  shows "hc_live 3 cfg \<and> hc_n cfg = n \<and> length (hc_groups cfg) = 3 \<and> hc_mck cfg \<noteq> None"
proof -
  from assms obtain c1 c2 mck c3 where c: "start_ctrlers svcs cnames (hc_blank n maxraftstate now) [0..<3] = Some c1"
    "shardclerk c1 knames nrand = Some (c2, mck)" "start_groups svcs names mnames (c2\<lparr>hc_mck := Some mck\<rparr>) [0..<3] = Some c3"
    "cfg = c3\<lparr>hc_net := Reliable (hc_net c3) (\<not> unreliable)\<rparr>"
    by (auto simp: hc_make_config_def bind_Some_iff)
  have s: "hc_n c2 = n" "length (hc_groups c2) = 3" "\<forall>g i. nw_servers (hc_net c2) (servername g i) = None"
    using start_ctrlers_frame [OF c(1)] shardclerk_frame [OF c(2)] by (simp_all add: hc_blank_def MakeNetwork_def)
  have "hc_live 0 (c2\<lparr>hc_mck := Some mck\<rparr>)" "3 = length (hc_groups (c2\<lparr>hc_mck := Some mck\<rparr>))" using s(2,3) by (simp_all add: hc_live_def)
  from start_groups_live [OF c(3) this(1) _ this(2)] have g: "hc_live 3 c3" "hc_n c3 = hc_n c2" "length (hc_groups c3) = 3" "hc_mck c3 = Some mck" by simp_all
  have "hc_live 3 cfg" using g(1) unfolding c(4) by (simp add: hc_live_def group_live_def Reliable_def)
  with g(2-4) s(1) c(4) show ?thesis by simp
qed

text \<open>Anything that a test of the sharded service may do to its servers and clerks, and the ends they open.\<close>

datatype shard_test_op =
    StartOp nat nat "nat \<Rightarrow> string" "nat \<Rightarrow> string"
  | ShutdownOp nat nat
  | ClientOp "nat \<Rightarrow> string" nat int Config
  | DropOp nat
  | EndOp string string

fun shard_test_step ::
  "(string \<times> 'o \<times> ('o, 'v) reflect_method list) list \<Rightarrow> shard_test_op \<Rightarrow> ('o, 'v, 'b) shard_config \<Rightarrow> ('o, 'v, 'b) shard_config option" where
  "shard_test_step svcs (StartOp gi i names mnames) cfg = hc_StartServer svcs cfg gi i names mnames"
| "shard_test_step svcs (ShutdownOp gi i) cfg = hc_ShutdownServer cfg gi i"
| "shard_test_step svcs (ClientOp names ck nrand config) cfg = map_option fst (hc_makeClient cfg names ck nrand config)"
| "shard_test_step svcs (DropOp ck) cfg = Some (hc_deleteClient cfg ck)"
| "shard_test_step svcs (EndOp name server) cfg = map_option (\<lambda>(rn, e). cfg\<lparr>hc_net := rn\<rparr>) (make_end (hc_net cfg) name server)"

fun shard_op_valid :: "nat \<Rightarrow> shard_test_op \<Rightarrow> bool" where
  "shard_op_valid n (StartOp gi i names mnames) \<longleftrightarrow> gi < 3 \<and> i < n"
| "shard_op_valid n (ShutdownOp gi i) \<longleftrightarrow> gi < 3 \<and> i < n"
| "shard_op_valid n _ \<longleftrightarrow> True"

fun shard_test_run ::
  "(string \<times> 'o \<times> ('o, 'v) reflect_method list) list \<Rightarrow> shard_test_op list \<Rightarrow> ('o, 'v, 'b) shard_config \<Rightarrow> ('o, 'v, 'b) shard_config option" where
  "shard_test_run svcs [] cfg = Some cfg"
| "shard_test_run svcs (p # ps) cfg = do { cfg \<leftarrow> shard_test_step svcs p cfg; shard_test_run svcs ps cfg }"

definition shard_ok :: "nat \<Rightarrow> ('o, 'v, 'b) shard_config \<Rightarrow> bool" where
  "shard_ok n cfg \<longleftrightarrow> hc_live 3 cfg \<and> hc_n cfg = n \<and> length (hc_groups cfg) = 3 \<and> hc_mck cfg \<noteq> None"

lemma shard_ok_servers:
  assumes "shard_ok n cfg" "nw_servers (hc_net cfg') = nw_servers (hc_net cfg)" "hc_n cfg' = hc_n cfg" "hc_groups cfg' = hc_groups cfg" "hc_mck cfg' = hc_mck cfg"
  shows "shard_ok n cfg'"
  using assms by (simp add: shard_ok_def hc_live_def group_live_def)

lemma shard_test_step_ok:
  assumes "shard_test_step svcs p cfg = Some cfg'" "shard_op_valid n p" "shard_ok n cfg"
  shows "shard_ok n cfg'"
proof (cases p)
  case (StartOp gi i names mnames)
  with assms StartServer_live [of svcs cfg gi i names mnames cfg' 3] show ?thesis by (simp add: shard_ok_def)
next
  case (ShutdownOp gi i)
  with assms ShutdownServer_live [of cfg gi i cfg' 3] show ?thesis by (simp add: shard_ok_def)
next
  case (ClientOp names ck nrand config)
  with assms(1) show ?thesis
    by (intro shard_ok_servers [OF assms(3)]) (auto simp: hc_makeClient_def bind_Some_iff dest: ctrler_ends_servers)
next
  case (EndOp name server)
  with assms(1) show ?thesis by (intro shard_ok_servers [OF assms(3)]) (auto dest: make_end_servers)
qed (use assms in \<open>auto intro: shard_ok_servers simp: hc_deleteClient_def\<close>)

lemma shard_test_run_ok:
  "shard_test_run svcs ps cfg = Some cfg' \<Longrightarrow> \<forall>p\<in>set ps. shard_op_valid n p \<Longrightarrow> shard_ok n cfg \<Longrightarrow> shard_ok n cfg'"
  by (induction ps arbitrary: cfg) (auto simp: bind_Some_iff dest: shard_test_step_ok)

lemma join_map_names:
  assumes "length (hc_groups cfg) = 3" "\<forall>gi<3. gg_gid (hc_groups cfg ! gi) = 100 + int gi" "set gis \<subseteq> {..<3}"
  shows "\<exists>m'. join_map cfg gis m = Some m' \<and> (\<forall>gi<3. map_of m' (100 + int gi) =
    (if gi \<in> set gis then Some (map (servername (100 + int gi)) [0..<hc_n cfg]) else map_of m (100 + int gi)))"
  using assms(3)
proof (induction gis arbitrary: m)
  case (Cons g gis)
  let ?m = "AList.update (100 + int g) (map (servername (100 + int g)) [0..<hc_n cfg]) m"
  have "join_map cfg (g # gis) m = join_map cfg gis ?m" using Cons.prems assms(1,2) by (auto simp: idx_def)
  with Cons.IH [of ?m] Cons.prems show ?case by (auto simp: update_conv')
qed simp

text \<open>
  C27: A group joins with the servers it has on the network. Take a test of the sharded service in
  which servers have been shut down and restarted and clerks and ends created in any order. The
  request that \<open>joinm\<close> sends to the controller holds, for each of the groups, one name per server,
  and the network knows a server under that name exactly if this server of the group is running.
\<close>

theorem joined_servers_live:
  assumes "hc_make_config n unreliable maxraftstate now svcs cnames knames nrand names mnames = Some c0" "\<forall>p\<in>set ps. shard_op_valid n p"
    and "shard_test_run svcs ps c0 = Some cfg" "set gis \<subseteq> {..<3}"
  shows "\<exists>mck m. joinm cfg gis res = Some (with_mck cfg (sc_clerk_Join mck m res)) \<and> (\<forall>gi\<in>set gis. \<exists>servers. map_of m (100 + int gi) = Some servers \<and>
    length servers = n \<and> (\<forall>i<n. nw_servers (hc_net cfg) (servers ! i) \<noteq> None \<longleftrightarrow> gg_servers (hc_groups cfg ! gi) ! i \<noteq> None))"
proof -
  have "shard_ok n c0" using make_config_live [OF assms(1)] by (simp add: shard_ok_def)
  from shard_test_run_ok [OF assms(3,2) this] have ok: "hc_live 3 cfg" "hc_n cfg = n" "length (hc_groups cfg) = 3" "hc_mck cfg \<noteq> None"
    by (simp_all add: shard_ok_def)
  have live: "group_live (hc_net cfg) n gi (hc_groups cfg ! gi)" if "gi < 3" for gi using ok(1-3) that by (simp add: hc_live_def)
  have "\<forall>gi<3. gg_gid (hc_groups cfg ! gi) = 100 + int gi" using live by (simp add: group_live_def)
  from join_map_names [OF ok(3) this assms(4), of "[]"] ok(2) obtain m where m: "join_map cfg gis [] = Some m"
    "\<forall>gi<3. gi \<in> set gis \<longrightarrow> map_of m (100 + int gi) = Some (map (servername (100 + int gi)) [0..<n])" by auto
  obtain mck where "hc_mck cfg = Some mck" using ok(4) by blast
  then have "joinm cfg gis res = Some (with_mck cfg (sc_clerk_Join mck m res))" using m(1) by (simp add: joinm_def)
  moreover have "\<exists>servers. map_of m (100 + int gi) = Some servers \<and> length servers = n \<and>
      (\<forall>i<n. nw_servers (hc_net cfg) (servers ! i) \<noteq> None \<longleftrightarrow> gg_servers (hc_groups cfg ! gi) ! i \<noteq> None)" if "gi \<in> set gis" for gi
  proof -
    have "gi < 3" using that assms(4) by auto
    with m(2) that live [of gi] show ?thesis by (simp add: group_live_def)
  qed
  ultimately show ?thesis by blast
qed

text \<open>One server per group; server 0 of group 1 is shut down and restarted, that of group 2 is shut down.\<close>

definition harness_names :: "nat \<Rightarrow> nat \<Rightarrow> nat \<Rightarrow> string" where
  "harness_names a b c = replicate a CHR ''a'' @ replicate b CHR ''b'' @ replicate c CHR ''c''"

definition shard_demo :: "shard_test_op list" where
  "shard_demo = [ShutdownOp 1 0, ShutdownOp 2 0, StartOp 1 0 (harness_names 10 0) (harness_names 11 0)]"

definition on_shards :: "((nat, nat, nat) shard_config \<Rightarrow> (nat, nat, nat) shard_config \<Rightarrow> bool) \<Rightarrow> bool" where
  "on_shards P = (case hc_make_config 1 False 0 0 [] (harness_names 0) (harness_names 0 5) 0 (\<lambda>gi. harness_names (Suc gi)) (\<lambda>gi. harness_names (4 + gi)) of
     Some c0 \<Rightarrow> (case shard_test_run [] shard_demo c0 of Some cfg \<Rightarrow> P c0 cfg | None \<Rightarrow> False) | None \<Rightarrow> False)"

lemma on_shards_live:
  obtains c0 cfg :: "(nat, nat, nat) shard_config" where
    "hc_make_config 1 False 0 0 [] (harness_names 0) (harness_names 0 5) 0 (\<lambda>gi. harness_names (Suc gi)) (\<lambda>gi. harness_names (4 + gi)) = Some c0"
    "shard_test_run [] shard_demo c0 = Some cfg" "gg_servers (hc_groups cfg ! 1) ! 0 \<noteq> None" "gg_servers (hc_groups cfg ! 2) ! 0 = None"
proof -
  have "on_shards (\<lambda>c0 cfg. gg_servers (hc_groups cfg ! 1) ! 0 \<noteq> None \<and> gg_servers (hc_groups cfg ! 2) ! 0 = None)" by code_simp
  then show thesis by (auto simp: on_shards_def split: option.splits intro: that)
qed

theorem joined_servers_live_witness:
  "\<exists>(c0 :: (nat, nat, nat) shard_config) cfg mck m live down.
     hc_make_config 1 False 0 0 [] (harness_names 0) (harness_names 0 5) 0 (\<lambda>gi. harness_names (Suc gi)) (\<lambda>gi. harness_names (4 + gi)) = Some c0 \<and>
     shard_test_run [] shard_demo c0 = Some cfg \<and> joinm cfg [1, 2] [] = Some (with_mck cfg (sc_clerk_Join mck m [])) \<and>
     map_of m 101 = Some [live] \<and> nw_servers (hc_net cfg) live \<noteq> None \<and> map_of m 102 = Some [down] \<and> nw_servers (hc_net cfg) down = None"
proof -
  obtain c0 cfg :: "(nat, nat, nat) shard_config" where
    c: "hc_make_config 1 False 0 0 [] (harness_names 0) (harness_names 0 5) 0 (\<lambda>gi. harness_names (Suc gi)) (\<lambda>gi. harness_names (4 + gi)) = Some c0"
    "shard_test_run [] shard_demo c0 = Some cfg" "gg_servers (hc_groups cfg ! 1) ! 0 \<noteq> None" "gg_servers (hc_groups cfg ! 2) ! 0 = None"
    by (rule on_shards_live)
  have v: "\<forall>p\<in>set shard_demo. shard_op_valid 1 p" "set [1, 2] \<subseteq> {..<3 :: nat}" by (simp_all add: shard_demo_def)
  from joined_servers_live [OF c(1) v(1) c(2) v(2), of "[]"] obtain mck m where m: "joinm cfg [1, 2] [] = Some (with_mck cfg (sc_clerk_Join mck m []))"
    and j: "\<And>gi. gi \<in> set [1, 2] \<Longrightarrow> \<exists>servers. map_of m (100 + int gi) = Some servers \<and> length servers = 1 \<and>
      (\<forall>i<1. nw_servers (hc_net cfg) (servers ! i) \<noteq> None \<longleftrightarrow> gg_servers (hc_groups cfg ! gi) ! i \<noteq> None)" by blast
  from j [of 1] c(3) obtain live where "map_of m 101 = Some [live]" "nw_servers (hc_net cfg) live \<noteq> None" by (auto simp: length_Suc_conv)
  moreover from j [of 2] c(4) obtain down where "map_of m 102 = Some [down]" "nw_servers (hc_net cfg) down = None" by (auto simp: length_Suc_conv)
  ultimately show ?thesis using c(1,2) m by blast
qed

theorem shard_harness_needs_three_witness:
  "(hc_make_config 4 False 0 0 [] (harness_names 0) (harness_names 0 5) 0 (\<lambda>gi. harness_names (Suc gi)) (\<lambda>gi. harness_names (4 + gi)) =
      (None :: (nat, nat, nat) shard_config option)) \<and>
   (\<exists>cfg :: (nat, nat, nat) shard_config.
      hc_make_config 1 False 0 0 [] (harness_names 0) (harness_names 0 5) 0 (\<lambda>gi. harness_names (Suc gi)) (\<lambda>gi. harness_names (4 + gi)) = Some cfg \<and>
      hc_makeClient cfg (harness_names 12 0) 0 0 DefaultConfig = None)"
proof -
  obtain c0 cfg :: "(nat, nat, nat) shard_config" where
    c: "hc_make_config 1 False 0 0 [] (harness_names 0) (harness_names 0 5) 0 (\<lambda>gi. harness_names (Suc gi)) (\<lambda>gi. harness_names (4 + gi)) = Some c0"
    by (rule on_shards_live)
  from shard_harness_needs_three [of 1 False 0 0 "[]" "harness_names 0" "harness_names 0 5" 0 "\<lambda>gi. harness_names (Suc gi)" "\<lambda>gi. harness_names (4 + gi)" c0 "harness_names 12 0" 0 0 DefaultConfig] c
  have "hc_makeClient c0 (harness_names 12 0) 0 0 DefaultConfig = None" by simp
  with c shard_harness_needs_three [of 4 False 0 0 "[]" "harness_names 0" "harness_names 0 5" 0 "\<lambda>gi. harness_names (Suc gi)" "\<lambda>gi. harness_names (4 + gi)" c0]
  show ?thesis by auto
qed

end
