(* ===== verification/Raft_Properties.thy ===== *)
theory Raft_Properties
  imports Raft_Node
begin

text \<open>
  The properties of one Raft peer: what each handler computes on each of its branches,
  stated on the handlers of the code and evaluated at concrete peers.
\<close>

text \<open>Concrete peers and messages: a log whose entries have the given terms, from index \<open>f\<close> on.\<close>

definition demo_log :: "int \<Rightarrow> int list \<Rightarrow> nat entry list" where
  "demo_log f ts = map (\<lambda>(i, t). \<lparr>e_Index = f + int i, e_Term = t, e_Command = Some i\<rparr>) (enumerate 0 ts)"

definition demo_peer :: "int \<Rightarrow> int \<Rightarrow> int list \<Rightarrow> (nat, nat) raft" where
  "demo_peer t f ts = persist
     \<lparr>peers = 3, persister = MakePersister, me = 0, dead = False, role = FOLLOWER, currentTerm = t,
      votedFor = -1, electionTimer = 0, heartbeatTimer = 0, logs = demo_log f ts, commitIndex = f,
      LastApplied = f, nextIndex = [f + 1, f + 1, f + 1], matchIndex = [0, f + 2, f + 1], applyCond = False\<rparr>"

definition demo_append :: "int \<Rightarrow> int \<Rightarrow> int \<Rightarrow> nat entry list \<Rightarrow> nat AppendEntriesArgs" where
  "demo_append t prev pt es = \<lparr>ae_Term = t, ae_LeaderId = 1, ae_PrevLogIndex = prev, ae_PrevLogTerm = pt,
     ae_Entries = es, ae_LeaderCommit = 9\<rparr>"

lemma idx_int: "k < length xs \<Longrightarrow> idx xs (int k) = Some (xs ! k)"
  by (simp add: idx_def)

lemma idx_drop: "idx (drop k xs) (int j) = idx xs (int (k + j))"
  by (auto simp: idx_def nat_add_distrib)

lemma idx_append_left: "i < int (length xs) \<Longrightarrow> idx (xs @ ys) i = idx xs i"
  by (auto simp: idx_def nth_append)

lemma idx_take: "i < int k \<Longrightarrow> idx (take k xs) i = idx xs i"
  by (auto simp: idx_def)

section \<open>Votes\<close>

text \<open>
  RequestVote grants exactly when the candidate's term is not old, this peer has not
  voted for another candidate in that term, and the candidate's log is at least as up to
  date. The reply and the peer carry the larger of the two terms, a vote is recorded only
  when it is granted and forgotten only with a new term, and the log is not touched. What
  the persister holds is again the current state.
\<close>

theorem RequestVote_spec:
  assumes "logs rf \<noteq> []"
  shows "\<exists>rf' reply. RequestVote rf args = Some (rf', reply) \<and>
    (rvr_VoteGranted reply \<longleftrightarrow> currentTerm rf \<le> rv_Term args \<and>
       (currentTerm rf < rv_Term args \<or> votedFor rf = -1 \<or> votedFor rf = rv_CandidateId args) \<and>
       upToDate args (last (logs rf))) \<and>
    rvr_Term reply = max (currentTerm rf) (rv_Term args) \<and> currentTerm rf' = rvr_Term reply \<and>
    votedFor rf' = (if rvr_VoteGranted reply then rv_CandidateId args
                    else if currentTerm rf < rv_Term args then -1 else votedFor rf) \<and>
    logs rf' = logs rf \<and> commitIndex rf' = commitIndex rf \<and> (synced rf \<longrightarrow> synced rf')"
proof -
  let ?rf = "if rv_Term args > currentTerm rf then setNewTerm rf (rv_Term args) else rf"
  let ?v = "reset_electionTimer (persist (?rf\<lparr>votedFor := rv_CandidateId args\<rparr>))"
  have sv: "synced ?v"
    using synced_cong [of ?v "persist (?rf\<lparr>votedFor := rv_CandidateId args\<rparr>)"] by (simp add: reset_electionTimer_def)
  have "logs ?rf = logs rf" by simp
  with assms sv show ?thesis
    unfolding RequestVote_def Let_def
    by (auto simp: reset_electionTimer_def persist_def max_def)
qed

theorem RequestVote_spec_witness:
  "\<exists>rf' reply. RequestVote (demo_peer 3 0 [0, 1, 2]) \<lparr>rv_Term = 4, rv_CandidateId = 2,
     rv_LastLogIndex = 2, rv_LastLogTerm = 2\<rparr> = Some (rf', reply) \<and> rvr_VoteGranted reply \<and> votedFor rf' = 2"
proof -
  have "logs (demo_peer 3 0 [0, 1, 2]) \<noteq> []" by code_simp
  moreover have "upToDate \<lparr>rv_Term = 4, rv_CandidateId = 2, rv_LastLogIndex = 2, rv_LastLogTerm = 2\<rparr>
    (last (logs (demo_peer 3 0 [0, 1, 2])))" "currentTerm (demo_peer 3 0 [0, 1, 2]) = 3" by code_simp+
  ultimately show ?thesis
    using RequestVote_spec [of "demo_peer 3 0 [0, 1, 2]"
      "\<lparr>rv_Term = 4, rv_CandidateId = 2, rv_LastLogIndex = 2, rv_LastLogTerm = 2\<rparr>"] by auto
qed

section \<open>Replication on the follower\<close>

text \<open>
  C7: AppendEntries refines a merge of lists. When the log and the message are well formed, the message is of the
  current term and the entry before its first one matches, the handler answers success, and the new
  log is the old one up to that entry followed by the merge of the old rest with the new
  entries; the log stays well formed, and persisted if it was. When the leader's commit index is
  above the peer's, the peer's becomes the smaller of the leader's and the last index of its new log
  (which may lie beyond the last new entry), otherwise it stays; it does not decrease
  unless the new log ends before it.
\<close>

theorem AppendEntries_refines_merge:
  assumes "log_ok (logs rf)" "ents_ok (ae_PrevLogIndex args) (ae_Entries args)"
    and "ae_Term args = currentTerm rf" "prev_matches (logs rf) args"
  shows "\<exists>rf' reply. AppendEntries rf args = Some (rf', reply) \<and> aer_Success reply \<and>
    logs rf' = merged (logs rf) args \<and> log_ok (logs rf') \<and> (synced rf \<longrightarrow> synced rf') \<and>
    commitIndex rf' = commit_after args (commitIndex rf) (logs rf') \<and>
    (commitIndex rf \<le> last_index (logs rf') \<longrightarrow> commitIndex rf \<le> commitIndex rf')"
proof -
  from AppendEntries_success [OF assms] obtain rf1 rf' where
    rf1: "log_update (heard_leader rf) rf1" "logs rf1 = merged (logs rf) args"
    and rf': "rf' = (if ae_LeaderCommit args > commitIndex rf
            then apply_signal (rf1\<lparr>commitIndex := commit_after args (commitIndex rf) (logs rf1)\<rparr>) else rf1)"
    and r: "AppendEntries rf args = Some (rf', \<lparr>aer_Term = currentTerm rf, aer_Success = True,
       aer_Conflict = False, aer_XTerm = 0, aer_XIndex = 0, aer_XLen = 0\<rparr>)" by blast
  have l: "logs rf' = merged (logs rf) args" using rf1(2) rf' by (simp add: apply_signal_def)
  have c: "commitIndex rf' = commit_after args (commitIndex rf) (logs rf')"
    using rf' l rf1(2) log_update_fields(6) [OF rf1(1)] by (simp add: apply_signal_def commit_after_def)
  have "synced rf' = synced rf1" using rf' by (intro synced_cong) (simp_all add: apply_signal_def)
  then have s: "synced rf \<longrightarrow> synced rf'" using rf1(1) by (simp add: log_update_def)
  have "log_ok (logs rf')" using log_ok_merged [OF assms(1,4,2)] l by simp
  with r l c s show ?thesis
    by (intro exI conjI) (auto simp: commit_after_def)
qed

lemma AppendEntries_accepts:
  assumes "log_ok (logs rf)" "ents_ok (ae_PrevLogIndex args) (ae_Entries args)"
    and "ae_Term args = currentTerm rf" "prev_matches (logs rf) args"
  shows "\<exists>rf' reply. AppendEntries rf args = Some (rf', reply) \<and> aer_Success reply \<and> logs rf' = merged (logs rf) args"
proof -
  from AppendEntries_success [OF assms] obtain rf1 rf' where
    rf1: "logs rf1 = merged (logs rf) args"
    and rf': "rf' = (if ae_LeaderCommit args > commitIndex rf
            then apply_signal (rf1\<lparr>commitIndex := commit_after args (commitIndex rf) (logs rf1)\<rparr>) else rf1)"
    and r: "AppendEntries rf args = Some (rf', \<lparr>aer_Term = currentTerm rf, aer_Success = True,
       aer_Conflict = False, aer_XTerm = 0, aer_XIndex = 0, aer_XLen = 0\<rparr>)" by blast
  have "logs rf' = logs rf1" unfolding rf' by (simp add: apply_signal_def)
  with r rf1 show ?thesis by simp
qed

lemma merged_holds:
  assumes "log_ok l" "ents_ok (ae_PrevLogIndex args) (ae_Entries args)" "prev_matches l args"
    and "e \<in> set (ae_Entries args)"
  shows "\<exists>e'. entry_at (merged l args) (e_Index e) = Some e' \<and> e_Term e' = e_Term e"
proof -
  let ?k = "prev_pos l args" and ?p = "ae_PrevLogIndex args"
  note r = prev_matches_range [OF assms(1,3)]
  have f: "first_index (merged l args) = first_index l" unfolding first_index_merged [OF assms(1,3)] ..
  have len: "length (take ?k l) = ?k" using r(4) by simp
  let ?m = "merge_suffix (drop ?k l) (ae_Entries args)"
  from assms(4) obtain j where j: "j < length (ae_Entries args)" "e = ae_Entries args ! j"
    by (auto simp: in_set_conv_nth)
  then have "e_Index e = ?p + 1 + int j" using assms(2) by (simp add: ents_ok_def)
  then have i: "e_Index e - first_index l = int (?k + j)" using r(1) by linarith
  have "?k + j < length (merged l args)"
    using j(1) length_merge_ge [of "ae_Entries args" "drop ?k l"] len unfolding merged_def by simp
  then have "entry_at (merged l args) (e_Index e) = Some (merged l args ! (?k + j))"
    unfolding entry_at_def f i by (rule idx_int)
  moreover have "merged l args ! (?k + j) = ?m ! j" unfolding merged_def using len by (simp add: nth_append)
  ultimately show ?thesis using merge_suffix_terms [OF j(1), of "drop ?k l"] j(2) by simp
qed

text \<open>
  What a successful AppendEntries leaves in the log: everything up to the matching entry
  is untouched, and at the index of every entry of the message the log holds an entry of
  that term.
\<close>

theorem AppendEntries_installs:
  assumes "log_ok (logs rf)" "ents_ok (ae_PrevLogIndex args) (ae_Entries args)"
    and "ae_Term args = currentTerm rf" "prev_matches (logs rf) args"
    and "AppendEntries rf args = Some (rf', reply)"
  shows "(\<forall>i\<le>ae_PrevLogIndex args. entry_at (logs rf') i = entry_at (logs rf) i) \<and>
    (\<forall>e\<in>set (ae_Entries args). \<exists>e'. entry_at (logs rf') (e_Index e) = Some e' \<and> e_Term e' = e_Term e)"
proof -
  let ?l = "logs rf" and ?k = "prev_pos (logs rf) args" and ?p = "ae_PrevLogIndex args"
  from AppendEntries_accepts [OF assms(1-4)] assms(5) have l: "logs rf' = merged ?l args" by auto
  note r = prev_matches_range [OF assms(1,4)]
  have f: "first_index (logs rf') = first_index ?l" unfolding l first_index_merged [OF assms(1,4)] ..
  have len: "length (take ?k ?l) = ?k" using r(4) by simp
  have "entry_at (logs rf') i = entry_at ?l i" if "i \<le> ?p" for i
  proof (cases "first_index ?l \<le> i")
    case True
    then have n: "i - first_index ?l < int ?k" using that by linarith
    have "idx (logs rf') (i - first_index ?l) = idx (take ?k ?l) (i - first_index ?l)"
      unfolding l merged_def using n len by (intro idx_append_left) simp
    with n show ?thesis unfolding entry_at_def f by (simp only: idx_take)
  qed (simp add: entry_at_def f idx_def)
  moreover have "\<exists>e'. entry_at (logs rf') (e_Index e) = Some e' \<and> e_Term e' = e_Term e"
    if "e \<in> set (ae_Entries args)" for e
    unfolding l using merged_holds [OF assms(1,2,4) that] .
  ultimately show ?thesis by blast
qed

text \<open>
  A delayed AppendEntries truncates nothing: if the follower already holds, for every
  entry of the message, an entry of that index and term, its log is not changed, even when
  it is longer than what the message covers.
\<close>

theorem AppendEntries_stale_harmless:
  assumes "log_ok (logs rf)" "ents_ok (ae_PrevLogIndex args) (ae_Entries args)"
    and "ae_Term args = currentTerm rf" "prev_matches (logs rf) args"
    and "\<forall>e\<in>set (ae_Entries args). \<exists>e'. entry_at (logs rf) (e_Index e) = Some e' \<and> e_Term e' = e_Term e"
  shows "\<exists>rf' reply. AppendEntries rf args = Some (rf', reply) \<and> aer_Success reply \<and> logs rf' = logs rf"
proof -
  let ?l = "logs rf" and ?k = "prev_pos (logs rf) args" and ?es = "ae_Entries args"
  note r = prev_matches_range [OF assms(1,4)]
  have at: "?k + j < length ?l \<and> e_Term (?l ! (?k + j)) = e_Term (?es ! j)" if j: "j < length ?es" for j
  proof -
    have "e_Index (?es ! j) = ae_PrevLogIndex args + 1 + int j" using j assms(2) by (simp add: ents_ok_def)
    then have i: "e_Index (?es ! j) - first_index ?l = int (?k + j)" using r(1) by linarith
    from assms(5) j obtain e' where "entry_at ?l (e_Index (?es ! j)) = Some e'" "e_Term e' = e_Term (?es ! j)"
      by (metis nth_mem)
    then have "idx ?l (int (?k + j)) = Some e'" "e_Term e' = e_Term (?es ! j)" unfolding entry_at_def i .
    then show ?thesis unfolding idx_Some_iff nat_int by (simp only: of_nat_less_iff)
  qed
  have le: "length ?es \<le> length (drop ?k ?l)"
  proof (cases "?es = []")
    case False
    with at [of "length ?es - 1"] show ?thesis by (cases "length ?es") auto
  qed simp
  have "merge_suffix (drop ?k ?l) ?es = drop ?k ?l"
    using le at r(4) by (intro merge_suffix_same) simp_all
  then have "merged ?l args = ?l" by (simp add: merged_def)
  with AppendEntries_accepts [OF assms(1-4)] show ?thesis by auto
qed

lemma demo_append_facts:
  "log_ok (logs (demo_peer 3 0 [0, 1, 1, 2]))" "currentTerm (demo_peer 3 0 [0, 1, 1, 2]) = 3"
  "ents_ok 1 (drop 2 (demo_log 0 [0, 1, 3, 3]))" "ents_ok 1 (drop 2 (demo_log 0 [0, 1, 1]))"
  "prev_matches (logs (demo_peer 3 0 [0, 1, 1, 2])) (demo_append 3 1 1 es)"
  by code_simp+

theorem AppendEntries_refines_merge_witness:
  "\<exists>rf' reply. AppendEntries (demo_peer 3 0 [0, 1, 1, 2]) (demo_append 3 1 1 (drop 2 (demo_log 0 [0, 1, 3, 3]))) =
     Some (rf', reply) \<and> aer_Success reply \<and> map e_Term (logs rf') = [0, 1, 3, 3] \<and> commitIndex rf' = 3"
proof -
  let ?rf = "demo_peer 3 0 [0, 1, 1, 2]" and ?a = "demo_append 3 1 1 (drop 2 (demo_log 0 [0, 1, 3, 3]))"
  have "map e_Term (merged (logs ?rf) ?a) = [0, 1, 3, 3]"
    "commit_after ?a (commitIndex ?rf) (merged (logs ?rf) ?a) = 3" by code_simp+
  then show ?thesis
    using AppendEntries_refines_merge [of ?rf ?a] demo_append_facts by (auto simp: demo_append_def)
qed

theorem AppendEntries_installs_witness:
  "\<exists>rf' reply e'. AppendEntries (demo_peer 3 0 [0, 1, 1, 2]) (demo_append 3 1 1 (drop 2 (demo_log 0 [0, 1, 3, 3]))) =
     Some (rf', reply) \<and> entry_at (logs rf') 3 = Some e' \<and> e_Term e' = 3"
proof -
  let ?rf = "demo_peer 3 0 [0, 1, 1, 2]" and ?a = "demo_append 3 1 1 (drop 2 (demo_log 0 [0, 1, 3, 3]))"
  have ok: "log_ok (logs ?rf)" "ents_ok (ae_PrevLogIndex ?a) (ae_Entries ?a)" "ae_Term ?a = currentTerm ?rf"
    "prev_matches (logs ?rf) ?a" using demo_append_facts by (simp_all add: demo_append_def)
  from AppendEntries_success [OF ok] obtain rf' reply where r: "AppendEntries ?rf ?a = Some (rf', reply)" by blast
  have e: "last (demo_log 0 [0, 1, 3, 3]) \<in> set (ae_Entries ?a)" "e_Index (last (demo_log 0 [0, 1, 3, 3])) = 3"
    "e_Term (last (demo_log 0 [0, 1, 3, 3])) = 3" by code_simp+
  with AppendEntries_installs [OF ok r] r show ?thesis by metis
qed

theorem AppendEntries_stale_harmless_witness:
  "\<exists>rf' reply. AppendEntries (demo_peer 3 0 [0, 1, 1, 2]) (demo_append 3 1 1 (drop 2 (demo_log 0 [0, 1, 1]))) =
     Some (rf', reply) \<and> map e_Term (logs rf') = [0, 1, 1, 2]"
proof -
  let ?rf = "demo_peer 3 0 [0, 1, 1, 2]" and ?a = "demo_append 3 1 1 (drop 2 (demo_log 0 [0, 1, 1]))"
  have ok: "log_ok (logs ?rf)" "ents_ok (ae_PrevLogIndex ?a) (ae_Entries ?a)" "ae_Term ?a = currentTerm ?rf"
    "prev_matches (logs ?rf) ?a" using demo_append_facts by (simp_all add: demo_append_def)
  have s: "\<forall>e\<in>set (ae_Entries ?a). \<exists>e'. entry_at (logs ?rf) (e_Index e) = Some e' \<and> e_Term e' = e_Term e"
    by (simp add: demo_append_def demo_log_def demo_peer_def persist_def entry_at_def idx_def enumerate_eq_zip)
  have "map e_Term (logs ?rf) = [0, 1, 1, 2]" by code_simp
  with AppendEntries_stale_harmless [OF ok s] show ?thesis by auto
qed

text \<open>
  A refused AppendEntries of the current term changes neither the log nor the commit
  index nor the vote, and its hints are right. When the log is too short, the reply says so
  with \<open>XTerm = -1\<close> and the last index of the log; when the entry there has another term,
  \<open>XTerm\<close> is that term and \<open>XIndex\<close> the last index before it that has a different term (or
  the one below the log).
\<close>

theorem AppendEntries_conflict_hints:
  assumes "log_ok (logs rf)" "ae_Term args = currentTerm rf"
    and "first_index (logs rf) \<le> ae_PrevLogIndex args" "\<not> prev_matches (logs rf) args"
  shows "\<exists>rf' reply. AppendEntries rf args = Some (rf', reply) \<and> \<not> aer_Success reply \<and> aer_Conflict reply \<and>
    logs rf' = logs rf \<and> commitIndex rf' = commitIndex rf \<and> votedFor rf' = votedFor rf \<and>
    aer_XLen reply = last_index (logs rf) \<and>
    (if last_index (logs rf) < ae_PrevLogIndex args then aer_XTerm reply = -1
     else aer_XTerm reply = term_at (logs rf) (ae_PrevLogIndex args) \<and>
       aer_XIndex reply < ae_PrevLogIndex args \<and> first_index (logs rf) - 1 \<le> aer_XIndex reply \<and>
       (\<forall>i. aer_XIndex reply < i \<and> i \<le> ae_PrevLogIndex args \<longrightarrow> term_at (logs rf) i = aer_XTerm reply) \<and>
       (first_index (logs rf) \<le> aer_XIndex reply \<longrightarrow> term_at (logs rf) (aer_XIndex reply) \<noteq> aer_XTerm reply))"
proof -
  let ?l = "logs rf" and ?p = "ae_PrevLogIndex args"
  have xl: "int (length ?l) + first_index ?l - 1 = last_index ?l" using log_ok_length [OF assms(1)] by simp
  show ?thesis
  proof (cases "last_index ?l < ?p")
    case True
    then show ?thesis
      using assms(1,3) xl by (simp add: AppendEntries_current [OF assms(2)] Let_def)
  next
    case False
    let ?t = "term_at ?l ?p"
    have ix: "idx ?l (?p - first_index ?l) = Some (?l ! nat (?p - first_index ?l))"
      using idx_in_range [OF assms(1,3)] False by simp
    with assms(4) have ne: "?t \<noteq> ae_PrevLogTerm args" by (simp add: prev_matches_def entry_at_def)
    from conflict_loop_spec [OF assms(1), of "?p - 1" ?t] assms(3) False obtain y where
      y: "conflict_loop ?l (first_index ?l) ?t (?p - 1) = Some y" "first_index ?l - 1 \<le> y" "y \<le> ?p - 1"
        "\<forall>i. y < i \<and> i \<le> ?p - 1 \<longrightarrow> term_at ?l i = ?t" "first_index ?l \<le> y \<longrightarrow> term_at ?l y \<noteq> ?t"
      by auto
    have all: "\<forall>i. y < i \<and> i \<le> ?p \<longrightarrow> term_at ?l i = ?t"
    proof (intro allI impI)
      fix i assume "y < i \<and> i \<le> ?p"
      then show "term_at ?l i = ?t" using y(4) by (cases "i = ?p") auto
    qed
    have "y < ?p" using y(3) by simp
    define rep where "rep = \<lparr>aer_Term = currentTerm rf, aer_Success = False, aer_Conflict = True,
        aer_XTerm = ?t, aer_XIndex = y, aer_XLen = int (length ?l) + first_index ?l - 1\<rparr>"
    have s: "\<not> aer_Success rep" "aer_Conflict rep" "aer_XLen rep = last_index ?l" "aer_XTerm rep = ?t"
      "aer_XIndex rep = y" by (simp_all add: rep_def xl)
    have r: "AppendEntries rf args = Some (heard_leader rf, rep)"
      unfolding rep_def
      using y(1) False ix ne assms(1,3) by (simp add: AppendEntries_current [OF assms(2)] Let_def)
    show ?thesis
      by (rule exI [of _ "heard_leader rf"], rule exI [of _ rep], unfold if_not_P [OF False] s(3-5))
        (intro conjI; (fact | simp only: heard_leader_fields))
  qed
qed

theorem AppendEntries_conflict_hints_witness:
  "\<exists>rf' reply. AppendEntries (demo_peer 3 0 [0, 1, 2, 2]) (demo_append 3 3 3 []) = Some (rf', reply) \<and>
     aer_Conflict reply \<and> aer_XTerm reply = 2 \<and> aer_XIndex reply < 3"
proof -
  let ?rf = "demo_peer 3 0 [0, 1, 2, 2]" and ?a = "demo_append 3 3 3 []"
  have ok: "log_ok (logs ?rf)" "ae_Term ?a = currentTerm ?rf" "first_index (logs ?rf) \<le> ae_PrevLogIndex ?a"
    "\<not> prev_matches (logs ?rf) ?a" by code_simp+
  have v: "\<not> last_index (logs ?rf) < ae_PrevLogIndex ?a" "term_at (logs ?rf) (ae_PrevLogIndex ?a) = 2"
    "ae_PrevLogIndex ?a = 3" by code_simp+
  note h = AppendEntries_conflict_hints [OF ok]
  from h [unfolded if_not_P [OF v(1)]] obtain rf' reply where "AppendEntries ?rf ?a = Some (rf', reply)"
    "aer_Conflict reply" "aer_XTerm reply = term_at (logs ?rf) (ae_PrevLogIndex ?a)"
    "aer_XIndex reply < ae_PrevLogIndex ?a" by blast
  with v(2,3) show ?thesis by auto
qed

section \<open>The leader's bookkeeping\<close>

text \<open>
  The leader commits exactly as far as Raft allows: the new commit index is the greatest
  index above the old one that holds an entry of the leader's own term and that a majority of
  the peers (the leader included) match; when there is none, nothing changes. The scan
  always ends without a panic, and when it commits it wakes the applier.
\<close>

theorem leaderCommitLog_greatest:
  assumes "log_ok (logs rf)" "length (matchIndex rf) = peers rf" "me rf < peers rf"
    and "first_index (logs rf) \<le> commitIndex rf + 1" "role rf = LEADER"
  shows "\<exists>rf'. leaderCommitLog rf = Some rf' \<and>
    (if \<exists>i>commitIndex rf. committable rf i
     then commitIndex rf < commitIndex rf' \<and> committable rf (commitIndex rf') \<and> applyCond rf' \<and>
       (\<forall>i>commitIndex rf'. \<not> committable rf i) \<and> rf' = rf\<lparr>commitIndex := commitIndex rf', applyCond := True\<rparr>
     else rf' = rf)"
proof -
  from commit_loop_spec [OF assms(1-4)] obtain rf' where
    r: "commit_loop rf (commitIndex rf + 1) = Some rf'" "scan_result rf (commitIndex rf + 1) rf'" by blast
  have l: "leaderCommitLog rf = Some rf'" using r(1) assms(5) by (simp add: leaderCommitLog_def)
  from r(2) consider "rf' = rf" "\<forall>j. commitIndex rf + 1 \<le> j \<longrightarrow> \<not> committable rf j"
    | "commitIndex rf + 1 \<le> commitIndex rf'" "committable rf (commitIndex rf')"
      "\<forall>j. commitIndex rf' < j \<longrightarrow> \<not> committable rf j"
      "rf' = apply_signal (rf\<lparr>commitIndex := commitIndex rf'\<rparr>)"
    unfolding scan_result_def by blast
  then show ?thesis
  proof cases
    case 1
    then have "\<not> (\<exists>i>commitIndex rf. committable rf i)" by auto
    with 1(1) l show ?thesis by simp
  next
    case 2
    have "commitIndex rf < commitIndex rf'" using 2(1) by simp
    with 2(2) have ex: "\<exists>i>commitIndex rf. committable rf i" by blast
    define c where "c = commitIndex rf'"
    have eq: "rf' = rf\<lparr>commitIndex := commitIndex rf', applyCond := True\<rparr>" using 2(4) by (simp add: apply_signal_def)
    have "rf' = rf\<lparr>commitIndex := c, applyCond := True\<rparr>" using eq by (simp add: c_def)
    then have "applyCond rf'" by simp
    then show ?thesis
      unfolding if_P [OF ex] using l \<open>commitIndex rf < commitIndex rf'\<close> 2(2,3) eq by blast
  qed
qed

theorem leaderCommitLog_greatest_witness:
  "\<exists>rf'. leaderCommitLog ((demo_peer 2 0 [0, 1, 2, 2])\<lparr>role := LEADER\<rparr>) = Some rf' \<and> commitIndex rf' = 2"
proof -
  let ?rf = "(demo_peer 2 0 [0, 1, 2, 2])\<lparr>role := LEADER\<rparr>"
  have ok: "log_ok (logs ?rf)" "length (matchIndex ?rf) = peers ?rf" "me ?rf < peers ?rf"
    "first_index (logs ?rf) \<le> commitIndex ?rf + 1" "role ?rf = LEADER" by code_simp+
  have re: "replicas ?rf i = {0} \<union> (if i \<le> 2 then {1} else {}) \<union> (if i \<le> 1 then {2} else {})" for i
  proof -
    have f: "peers ?rf = 3" "me ?rf = 0" "matchIndex ?rf = [0, 2, 1]" by code_simp+
    show ?thesis unfolding replicas_def f by (auto simp: eval_nat_numeral less_Suc_eq)
  qed
  have p: "peers ?rf div 2 = 1" by code_simp
  have e: "(case entry_at (logs ?rf) 2 of None \<Rightarrow> False | Some e \<Rightarrow> e_Term e = currentTerm ?rf)" by code_simp
  then have "committable ?rf 2" unfolding committable_def p by (auto simp: re split: option.splits)
  moreover have "commitIndex ?rf = 0" by code_simp
  ultimately have "\<exists>i>commitIndex ?rf. committable ?rf i" by (intro exI [of _ 2]) simp
  with leaderCommitLog_greatest [OF ok] obtain rf' where r: "leaderCommitLog ?rf = Some rf'"
    "committable ?rf (commitIndex rf')" "\<forall>i>commitIndex rf'. \<not> committable ?rf i" by auto
  have "\<not> commitIndex rf' < 2" using r(3) \<open>committable ?rf 2\<close> by blast
  moreover have "commitIndex rf' \<le> 2"
  proof (rule ccontr)
    assume "\<not> commitIndex rf' \<le> 2"
    then have "replicas ?rf (commitIndex rf') = {0}" using re [of "commitIndex rf'"] by simp
    with r(2) show False unfolding committable_def p by simp
  qed
  ultimately show ?thesis using r(1) by auto
qed

text \<open>
  The search for the last entry of the conflicting term. In a log whose terms do not
  decrease and that still holds an entry of a term at most \<open>t\<close> above index 0, the search
  returns the greatest index whose entry has term \<open>t\<close>, and -1 when there is none.
\<close>

theorem findLastLogInXTerm_greatest:
  assumes "log_ok (logs rf)"
    and mono: "\<And>i j. first_index (logs rf) \<le> i \<Longrightarrow> i \<le> j \<Longrightarrow> j \<le> last_index (logs rf) \<Longrightarrow>
      term_at (logs rf) i \<le> term_at (logs rf) j"
    and y: "first_index (logs rf) \<le> y" "0 < y" "y \<le> last_index (logs rf)" "term_at (logs rf) y \<le> t"
  shows "\<exists>r. findLastLogInXTerm rf t = Some r \<and>
    (if \<exists>i>0. first_index (logs rf) \<le> i \<and> i \<le> last_index (logs rf) \<and> term_at (logs rf) i = t
     then first_index (logs rf) \<le> r \<and> r \<le> last_index (logs rf) \<and> term_at (logs rf) r = t \<and>
       (\<forall>j. r < j \<and> j \<le> last_index (logs rf) \<longrightarrow> term_at (logs rf) j \<noteq> t)
     else r = -1)"
proof -
  let ?l = "logs rf" and ?f = "first_index (logs rf)" and ?n = "last_index (logs rf)"
  let ?S = "{i. y \<le> i \<and> i \<le> ?n \<and> term_at ?l i \<le> t}"
  have fin: "finite ?S" by (rule finite_subset [of _ "{y..?n}"]) auto
  have ne: "?S \<noteq> {}" using y by auto
  define m where "m = Max ?S"
  have m: "y \<le> m" "m \<le> ?n" "term_at ?l m \<le> t" using Max_in [OF fin ne] unfolding m_def by auto
  have above: "t < term_at ?l j" if "m < j" "j \<le> ?n" for j
  proof (rule ccontr)
    assume "\<not> t < term_at ?l j"
    then have "j \<in> ?S" using that m(1) by simp
    with Max_ge [OF fin this] that(1) show False by (simp add: m_def)
  qed
  have st: "findLast_loop rf t ?n = Some (if term_at ?l m = t then m else -1)"
    using assms(1) y m above by (intro findLast_loop_stops) auto
  show ?thesis
  proof (cases "term_at ?l m = t")
    case True
    then have ex: "\<exists>i>0. ?f \<le> i \<and> i \<le> ?n \<and> term_at ?l i = t" using m y by (intro exI [of _ m]) auto
    have "\<forall>j. m < j \<and> j \<le> ?n \<longrightarrow> term_at ?l j \<noteq> t" using above by fastforce
    with True ex st m y assms(1) show ?thesis by (simp add: findLastLogInXTerm_eq)
  next
    case False
    have "term_at ?l i \<noteq> t" if "0 < i" "?f \<le> i" "i \<le> ?n" for i
      using above [of i] mono [of i m] that m False by fastforce
    then have "\<not> (\<exists>i>0. ?f \<le> i \<and> i \<le> ?n \<and> term_at ?l i = t)" by blast
    then show ?thesis
      unfolding findLastLogInXTerm_eq [OF log_ok_nonempty [OF assms(1)]] st if_not_P [OF False]
      using if_not_P by fastforce
  qed
qed

lemma demo_terms:
  assumes "0 \<le> i" "i \<le> j" "j \<le> (4::int)"
  shows "[0, 1, 2, 2, 3] ! nat i \<le> ([0, 1, 2, 2, 3] ! nat j :: int)"
proof -
  have "nat i = 0 \<or> nat i = 1 \<or> nat i = 2 \<or> nat i = 3 \<or> nat i = 4" using assms by linarith
  moreover have "nat j = 0 \<or> nat j = 1 \<or> nat j = 2 \<or> nat j = 3 \<or> nat j = 4" using assms by linarith
  moreover have "nat i \<le> nat j" using assms by simp
  ultimately show ?thesis by auto
qed

theorem findLastLogInXTerm_greatest_witness:
  "\<exists>r. findLastLogInXTerm (demo_peer 3 0 [0, 1, 2, 2, 3]) 2 = Some r \<and>
     term_at (logs (demo_peer 3 0 [0, 1, 2, 2, 3])) r = 2"
proof -
  let ?rf = "demo_peer 3 0 [0, 1, 2, 2, 3]"
  have ok: "log_ok (logs ?rf)" by code_simp
  have v: "first_index (logs ?rf) = 0" "last_index (logs ?rf) = 4" "length (logs ?rf) = 5"
    "map e_Term (logs ?rf) = [0, 1, 2, 2, 3]" by code_simp+
  have t: "term_at (logs ?rf) i = [0, 1, 2, 2, 3] ! nat i" if "0 \<le> i" "i \<le> 4" for i
    using nth_map [of "nat i" "logs ?rf" e_Term] v that by simp
  have "\<exists>r. findLastLogInXTerm ?rf 2 = Some r \<and>
    (if \<exists>i>0. first_index (logs ?rf) \<le> i \<and> i \<le> last_index (logs ?rf) \<and> term_at (logs ?rf) i = 2
     then first_index (logs ?rf) \<le> r \<and> r \<le> last_index (logs ?rf) \<and> term_at (logs ?rf) r = 2 \<and>
       (\<forall>j. r < j \<and> j \<le> last_index (logs ?rf) \<longrightarrow> term_at (logs ?rf) j \<noteq> 2)
     else r = -1)"
  proof (rule findLastLogInXTerm_greatest [OF ok, of 1])
    show "first_index (logs ?rf) \<le> i \<Longrightarrow> i \<le> j \<Longrightarrow> j \<le> last_index (logs ?rf) \<Longrightarrow>
      term_at (logs ?rf) i \<le> term_at (logs ?rf) j" for i j
      unfolding v using t [of i] t [of j] demo_terms [of i j] by (simp add: v)
  qed (use v t [of 1] in auto)
  moreover have "\<exists>i>0. first_index (logs ?rf) \<le> i \<and> i \<le> last_index (logs ?rf) \<and> term_at (logs ?rf) i = 2"
    using t [of 2] v by (intro exI [of _ 2]) simp
  ultimately show ?thesis by auto
qed

text \<open>
  The same search panics on a compacted log. When the log starts at index 2 or later and
  all its terms are above \<open>t\<close>, the loop runs past the start of the slice: it only stops at
  index 0, which a compacted log no longer holds.
\<close>

theorem findLastLogInXTerm_panics:
  assumes "log_ok (logs rf)" "2 \<le> first_index (logs rf)" "\<And>e. e \<in> set (logs rf) \<Longrightarrow> t < e_Term e"
  shows "findLastLogInXTerm rf t = None"
proof -
  let ?l = "logs rf"
  have "t < term_at ?l j" if "first_index ?l \<le> j" "j \<le> last_index ?l" for j
    using that log_ok_length [OF assms(1)] by (intro assms(3) nth_mem) linarith
  then have "findLast_loop rf t (last_index ?l) = None"
    using findLast_loop_exhausted [OF assms(1), of "last_index ?l" t] first_le_last [OF assms(1)] assms(2) by simp
  then show ?thesis using assms(1) by (simp add: findLastLogInXTerm_eq)
qed

theorem findLastLogInXTerm_panics_witness:
  "findLastLogInXTerm (demo_peer 4 5 [3, 3, 4]) 2 = None"
proof (rule findLastLogInXTerm_panics)
  show "log_ok (logs (demo_peer 4 5 [3, 3, 4]))" "2 \<le> first_index (logs (demo_peer 4 5 [3, 3, 4]))" by code_simp+
  have "\<forall>e\<in>set (logs (demo_peer 4 5 [3, 3, 4])). 2 < e_Term e" by code_simp
  then show "e \<in> set (logs (demo_peer 4 5 [3, 3, 4])) \<Longrightarrow> 2 < e_Term e" for e by blast
qed

section \<open>One round of replication\<close>

text \<open>
  A round of replication brings the follower's log to the leader's. Let the leader build
  its request for a peer from its log and the peer's \<open>nextIndex\<close>. If it is an AppendEntries
  request and the peer, in the same term, holds an entry of the same term just before the
  new entries, then the peer accepts, and from that index to the end of the leader's log
  both logs have entries of the same terms.
\<close>

theorem replication_round:
  assumes "log_ok (logs leader)" "log_ok (logs peer)" "currentTerm peer = currentTerm leader"
    and "appendEntries_to leader p = Some (AppendEntries_rpc args)"
    and "prev_matches (logs peer) args"
  shows "\<exists>peer' reply. AppendEntries peer args = Some (peer', reply) \<and> aer_Success reply \<and>
    (\<forall>i. ae_PrevLogIndex args < i \<and> i \<le> last_index (logs leader) \<longrightarrow>
      (\<exists>e e'. entry_at (logs leader) i = Some e \<and> entry_at (logs peer') i = Some e' \<and> e_Term e' = e_Term e))"
proof -
  let ?L = "logs leader" and ?f = "first_index (logs leader)"
  from assms(1,4) obtain nx prev es where a: "idx ?L (nx - 1 - ?f) = Some prev"
      "slice_from ?L (nx - ?f) = Some es" "\<not> nx - 1 < ?f"
    "args = \<lparr>ae_Term = currentTerm leader, ae_LeaderId = int (me leader),
          ae_PrevLogIndex = e_Index prev, ae_PrevLogTerm = e_Term prev,
          ae_Entries = es, ae_LeaderCommit = commitIndex leader\<rparr>"
    by (auto simp: appendEntries_to_def Let_def bind_Some_iff split: if_splits)
  have pi: "e_Index prev = nx - 1"
    using a(1) entry_at_index [OF assms(1), of "nx - 1" prev] by (simp add: entry_at_def)
  have ok: "ents_ok (ae_PrevLogIndex args) (ae_Entries args)"
    using appendEntries_to_ok [OF assms(1,4)] by simp
  have t: "ae_Term args = currentTerm peer" using a(4) assms(3) by simp
  from AppendEntries_accepts [OF assms(2) ok t assms(5)] obtain peer' reply where
    r: "AppendEntries peer args = Some (peer', reply)" "aer_Success reply" and l: "logs peer' = merged (logs peer) args"
    by blast
  have "\<exists>e e'. entry_at ?L i = Some e \<and> entry_at (logs peer') i = Some e' \<and> e_Term e' = e_Term e"
    if i: "ae_PrevLogIndex args < i" "i \<le> last_index ?L" for i
  proof -
    let ?j = "nat (i - nx)"
    have ij: "nx \<le> i" using i(1) a(4) pi by simp
    have len: "int (length ?L) = last_index ?L - ?f + 1" using assms(1) by (rule log_ok_length)
    have es: "es = drop (nat (nx - ?f)) ?L" using a(2) by (auto simp: slice_from_def split: if_splits)
    have j: "?j < length es" using es len i(2) ij a(3) by auto
    have "nat (nx - ?f) + ?j = nat (i - ?f)" using ij a(3) by linarith
    then have "es ! ?j = ?L ! nat (i - ?f)" using es j by simp
    then have e: "entry_at ?L i = Some (es ! ?j)"
      using idx_in_range [OF assms(1), of i] i(2) ij a(3) by (simp add: entry_at_def)
    have "e_Index (es ! ?j) = i" using entry_at_index [OF assms(1) e] .
    moreover have "es ! ?j \<in> set (ae_Entries args)" using j a(4) by simp
    ultimately show ?thesis using e merged_holds [OF assms(2) ok assms(5)] l by metis
  qed
  with r show ?thesis by blast
qed

theorem replication_round_witness:
  "\<exists>args peer' reply e'. appendEntries_to (demo_peer 3 0 [0, 1, 3, 3]) 1 = Some (AppendEntries_rpc args) \<and>
     AppendEntries (demo_peer 3 0 [0, 1, 1, 2]) args = Some (peer', reply) \<and> aer_Success reply \<and>
     entry_at (logs peer') 3 = Some e' \<and> e_Term e' = 3"
proof -
  let ?l = "demo_peer 3 0 [0, 1, 3, 3]" and ?p = "demo_peer 3 0 [0, 1, 1, 2]"
  have ok: "log_ok (logs ?l)" "log_ok (logs ?p)" "currentTerm ?p = currentTerm ?l" by code_simp+
  have "(case appendEntries_to ?l 1 of Some (AppendEntries_rpc args) \<Rightarrow> prev_matches (logs ?p) args \<and>
      ae_PrevLogIndex args < 3 | _ \<Rightarrow> False)" by code_simp
  then obtain args where a: "appendEntries_to ?l 1 = Some (AppendEntries_rpc args)" "prev_matches (logs ?p) args"
    "ae_PrevLogIndex args < 3" by (auto split: option.splits rpc.splits)
  have e: "last_index (logs ?l) = 3" "map_option e_Term (entry_at (logs ?l) 3) = Some 3" by code_simp+
  from replication_round [OF ok a(1,2)] obtain peer' reply where
    "AppendEntries ?p args = Some (peer', reply)" "aer_Success reply"
    "\<exists>e e'. entry_at (logs ?l) 3 = Some e \<and> entry_at (logs peer') 3 = Some e' \<and> e_Term e' = e_Term e"
    using a(3) e(1) by auto
  with a(1) e(2) show ?thesis by auto
qed

section \<open>Compaction and delivery\<close>

text \<open>
  Taking a snapshot at an index inside the log keeps every entry above that index, turns
  the entry at that index into the marker (its command dropped, its index and term kept),
  forgets the entries below, and saves the new log together with the snapshot.
\<close>

theorem Snapshot_keeps_suffix:
  assumes "log_ok (logs rf)" "first_index (logs rf) < index" "index \<le> last_index (logs rf)"
  shows "\<exists>rf' e. Snapshot rf index snap = Some rf' \<and> log_ok (logs rf') \<and> synced rf' \<and>
    snapshot (persister rf') = snap \<and> first_index (logs rf') = index \<and>
    entry_at (logs rf) index = Some e \<and> entry_at (logs rf') index = Some (e\<lparr>e_Command := None\<rparr>) \<and>
    (\<forall>i>index. entry_at (logs rf') i = entry_at (logs rf) i) \<and>
    currentTerm rf' = currentTerm rf \<and> votedFor rf' = votedFor rf \<and> commitIndex rf' = commitIndex rf"
proof -
  let ?l = "logs rf" and ?f = "first_index (logs rf)"
  from Snapshot_spec [OF assms] obtain e es rf' where s: "Snapshot rf index snap = Some rf'" "synced rf'"
    "drop (nat (index - ?f)) ?l = e # es" "entry_at ?l index = Some e"
    "logs rf' = e\<lparr>e_Command := None\<rparr> # es" "log_ok (logs rf')" "snapshot (persister rf') = snap"
    "rf' = rf\<lparr>logs := logs rf', persister := persister rf'\<rparr>" by blast
  have ei: "e_Index e = index" using entry_at_index [OF assms(1) s(4)] .
  have fi: "first_index (logs rf') = index" using s(5) ei by simp
  have "entry_at (logs rf') i = entry_at ?l i" if i: "index < i" for i
  proof -
    define j where "j = nat (i - index - 1)"
    have ij: "i - index = int (Suc j)" "i - ?f = int (nat (index - ?f) + Suc j)"
      using i assms(2) by (simp_all add: j_def)
    have "idx (logs rf') (int (Suc j)) = idx (drop (nat (index - ?f)) ?l) (int (Suc j))"
      unfolding s(3,5) by (simp add: idx_def nat_add_distrib)
    also have "\<dots> = idx ?l (int (nat (index - ?f) + Suc j))" by (rule idx_drop)
    finally show ?thesis unfolding entry_at_def fi ij .
  qed
  moreover have "entry_at (logs rf') index = Some (e\<lparr>e_Command := None\<rparr>)"
    unfolding entry_at_def fi using s(5) by (simp add: idx_def)
  moreover have "currentTerm rf' = currentTerm rf" "votedFor rf' = votedFor rf" "commitIndex rf' = commitIndex rf"
    by (subst s(8), simp)+
  ultimately show ?thesis using s(1,2,4,6,7) fi by blast
qed

theorem Snapshot_keeps_suffix_witness:
  "\<exists>rf'. Snapshot (demo_peer 3 0 [0, 1, 2, 3]) 2 [7] = Some rf' \<and> first_index (logs rf') = 2 \<and>
     entry_at (logs rf') 3 = entry_at (logs (demo_peer 3 0 [0, 1, 2, 3])) 3"
proof -
  have "log_ok (logs (demo_peer 3 0 [0, 1, 2, 3]))" "first_index (logs (demo_peer 3 0 [0, 1, 2, 3])) < 2"
    "2 \<le> last_index (logs (demo_peer 3 0 [0, 1, 2, 3]))" by code_simp+
  from Snapshot_keeps_suffix [OF this, of "[7]"] obtain rf' where
    "Snapshot (demo_peer 3 0 [0, 1, 2, 3]) 2 [7] = Some rf'" "first_index (logs rf') = 2"
    "\<forall>i>2. entry_at (logs rf') i = entry_at (logs (demo_peer 3 0 [0, 1, 2, 3])) i" by blast
  then show ?thesis by simp
qed

text \<open>
  Installing a leader's snapshot that is ahead of the commit index leaves a well-formed,
  saved log that starts at the snapshot's index and term and keeps the entries the peer
  already had above it; commit index and applied index are the snapshot's. A snapshot that
  is not ahead is refused and changes nothing.
\<close>

theorem CondInstallSnapshot_installs:
  assumes "log_ok (logs rf)" "first_index (logs rf) \<le> commitIndex rf"
  shows "if index \<le> commitIndex rf then CondInstallSnapshot rf term index snap = Some (rf, False)
    else \<exists>rf'. CondInstallSnapshot rf term index snap = Some (rf', True) \<and> log_ok (logs rf') \<and> synced rf' \<and>
      snapshot (persister rf') = snap \<and> hd (logs rf') = \<lparr>e_Index = index, e_Term = term, e_Command = None\<rparr> \<and>
      (\<forall>i>index. entry_at (logs rf') i = entry_at (logs rf) i) \<and>
      commitIndex rf' = index \<and> LastApplied rf' = index \<and>
      currentTerm rf' = currentTerm rf \<and> votedFor rf' = votedFor rf"
proof (cases "index \<le> commitIndex rf")
  case True
  then show ?thesis by (simp add: CondInstallSnapshot_def)
next
  case False
  let ?l = "logs rf" and ?f = "first_index (logs rf)"
  have lt: "commitIndex rf < index" using False by simp
  from CondInstallSnapshot_spec [OF assms lt, of "term" snap] obtain e es rf' where
    s: "CondInstallSnapshot rf term index snap = Some (rf', True)" "synced rf'"
      "logs rf' = \<lparr>e_Index = index, e_Term = term, e_Command = None\<rparr> # es" "log_ok (logs rf')"
      "if index \<le> last_index ?l then drop (nat (index - ?f)) ?l = e # es else es = []"
      "snapshot (persister rf') = snap"
      "rf' = rf\<lparr>logs := logs rf', LastApplied := index, commitIndex := index, persister := persister rf'\<rparr>" by blast
  have fi: "first_index (logs rf') = index" using s(3) by simp
  have "entry_at (logs rf') i = entry_at ?l i" if i: "index < i" for i
  proof -
    define j where "j = nat (i - index - 1)"
    have ij: "i - index = int (Suc j)" "i - ?f = int (nat (index - ?f) + Suc j)"
      using i assms(2) lt by (simp_all add: j_def)
    show ?thesis
    proof (cases "index \<le> last_index ?l")
      case True
      with s(5) have d: "drop (nat (index - ?f)) ?l = e # es" by simp
      have "idx (logs rf') (int (Suc j)) = idx (drop (nat (index - ?f)) ?l) (int (Suc j))"
        unfolding s(3) d by (simp add: idx_def nat_add_distrib)
      also have "\<dots> = idx ?l (int (nat (index - ?f) + Suc j))" by (rule idx_drop)
      finally show ?thesis unfolding entry_at_def fi ij .
    next
      case past: False
      have "entry_at (logs rf') i = None" unfolding entry_at_def fi ij using s(3,5) past by (simp add: idx_def)
      moreover have "\<not> (\<exists>x. entry_at ?l i = Some x)"
        unfolding entry_at_Some_iff [OF assms(1)] using past i by simp
      ultimately show ?thesis by simp
    qed
  qed
  moreover have "commitIndex rf' = index" "LastApplied rf' = index" "currentTerm rf' = currentTerm rf"
    "votedFor rf' = votedFor rf" by (subst s(7), simp)+
  moreover have "hd (logs rf') = \<lparr>e_Index = index, e_Term = term, e_Command = None\<rparr>" using s(3) by simp
  ultimately show ?thesis unfolding if_not_P [OF False] using s(1,2,4,6) by blast
qed

theorem CondInstallSnapshot_installs_witness:
  "\<exists>rf'. CondInstallSnapshot (demo_peer 3 0 [0, 1, 2, 3]) 2 2 [7] = Some (rf', True) \<and>
     commitIndex rf' = 2 \<and> entry_at (logs rf') 3 = entry_at (logs (demo_peer 3 0 [0, 1, 2, 3])) 3"
proof -
  let ?rf = "demo_peer 3 0 [0, 1, 2, 3]"
  have ok: "log_ok (logs ?rf)" "first_index (logs ?rf) \<le> commitIndex ?rf" "\<not> 2 \<le> commitIndex ?rf" by code_simp+
  note h = CondInstallSnapshot_installs [OF ok(1,2), of 2 2 "[7]"]
  have "(2::int) < 3" by simp
  with h [unfolded if_not_P [OF ok(3)]] show ?thesis by blast
qed

text \<open>
  The applier hands out each committed entry once and in order: a round takes exactly the
  entries of the log at the indices after the last applied one up to the commit index, and
  the next round starts where this one ended.
\<close>

theorem applier_delivers_in_order:
  fixes rf :: "('c, 's) raft"
  assumes "log_ok (logs rf)" "first_index (logs rf) \<le> LastApplied rf + 1"
    and "applier_ready rf" "commitIndex rf \<le> last_index (logs rf)"
  shows "\<exists>es. applier_take rf = Some (es, commitIndex rf) \<and>
    map (\<lambda>e. CommandIndex (applier_msg e :: ('c, 's) ApplyMsg)) es = [LastApplied rf + 1..commitIndex rf] \<and>
    (\<forall>e\<in>set es. entry_at (logs rf) (e_Index e) = Some e) \<and>
    LastApplied (applier_done rf (commitIndex rf)) = commitIndex rf"
proof -
  have la: "LastApplied rf \<le> commitIndex rf" using assms(3) by (simp add: applier_ready_def)
  have m: "(\<lambda>e. CommandIndex (applier_msg e :: ('c, 's) ApplyMsg)) = e_Index" by (simp add: applier_msg_def fun_eq_iff)
  from applier_take_spec [OF assms(1,2) la assms(4)] la show ?thesis
    unfolding m by (auto simp: applier_done_def)
qed

theorem applier_delivers_in_order_witness:
  "\<exists>es. applier_take ((demo_peer 3 0 [0, 1, 2, 3])\<lparr>commitIndex := 2\<rparr>) = Some (es, 2) \<and>
     map (\<lambda>e. CommandIndex (applier_msg e :: (nat, nat) ApplyMsg)) es = [1, 2]"
proof -
  let ?rf = "(demo_peer 3 0 [0, 1, 2, 3])\<lparr>commitIndex := 2\<rparr>"
  have ok: "log_ok (logs ?rf)" "first_index (logs ?rf) \<le> LastApplied ?rf + 1" "applier_ready ?rf"
    "commitIndex ?rf \<le> last_index (logs ?rf)" by code_simp+
  have v: "commitIndex ?rf = 2" "[LastApplied ?rf + 1..2] = [1, 2]" by code_simp+
  from applier_delivers_in_order [OF ok] show ?thesis
    unfolding v by (elim exE conjE) (intro exI conjI, assumption+)
qed

end
