(* ===== verification/Ctrler_History.thy ===== *)
theory Ctrler_History
  imports Ctrler_Server
begin

text \<open>
  The configurations a controller goes through. A command is valid for the current
  configuration when a Join names at least one group and no group 0, and a Move names an
  existing shard and a current group; a run of valid commands never panics, only appends
  configurations, and keeps all of them well-formed. These are the facts the shard groups rely
  on when they follow the configurations one by one.
\<close>

section \<open>Valid commands\<close>

abbreviation current :: "MemoryConfigStateMachine \<Rightarrow> Config" where
  "current sm \<equiv> last (Configs sm)"

definition sc_valid :: "MemoryConfigStateMachine \<Rightarrow> CtrlArgs \<Rightarrow> bool" where
  "sc_valid sm command \<longleftrightarrow>
     (ca_OP command = OP_JOIN \<longrightarrow> ca_Servers command \<noteq> [] \<and> distinct (map fst (ca_Servers command)) \<and>
        0 \<notin> fst ` set (ca_Servers command)) \<and>
     (ca_OP command = OP_MOVE \<longrightarrow> 0 \<le> ca_Shard command \<and> ca_Shard command < int NShards \<and>
        ca_GID command \<in> fst ` set (Groups (current sm)))"

text \<open>A predicate on the state at which each command of a log is applied.\<close>

fun log_meets :: "('st \<Rightarrow> 'op \<Rightarrow> bool) \<Rightarrow> ('st \<Rightarrow> 'op \<Rightarrow> ('st \<times> 'r) option) \<Rightarrow> 'st \<Rightarrow> 'op list \<Rightarrow> bool" where
  "log_meets P step st [] = True"
| "log_meets P step st (op # ops) =
     (P st op \<and> (case step st op of None \<Rightarrow> True | Some (st', _) \<Rightarrow> log_meets P step st' ops))"

text \<open>
  The interface of a service whose commands keep an invariant and never panic when their
  precondition holds: what a single command does (\<open>does\<close>) and how the state at the end of a log
  relates to an earlier one (\<open>leads\<close>).
\<close>

locale total_log =
  fixes step :: "'st \<Rightarrow> 'op \<Rightarrow> ('st \<times> 'r) option" and Inv :: "'st \<Rightarrow> bool" and pre :: "'st \<Rightarrow> 'op \<Rightarrow> bool"
    and does :: "'st \<Rightarrow> 'op \<Rightarrow> 'st \<Rightarrow> 'r \<Rightarrow> bool" and leads :: "'st \<Rightarrow> 'st \<Rightarrow> bool"
  assumes step_total: "Inv st \<Longrightarrow> pre st op \<Longrightarrow> \<exists>st' r. step st op = Some (st', r) \<and> Inv st' \<and> does st op st' r"
    and leads_refl: "leads st st"
    and leads_step: "does st op st' r \<Longrightarrow> leads st' st'' \<Longrightarrow> leads st st''"
begin

text \<open>A log runs to its end.\<close>

lemma run_log_ends:
  assumes "Inv st" "log_meets pre step st ops"
  shows "\<exists>st' rs. run_log step st ops = Some (st', rs) \<and> Inv st' \<and> leads st st' \<and>
    (\<forall>i<length ops. \<exists>s s'. does s (ops ! i) s' (rs ! i) \<and> leads s' st')"
  using assms
proof (induction ops arbitrary: st)
  case Nil
  then show ?case by (simp add: leads_refl)
next
  case (Cons op ops)
  then have "pre st op" by simp
  with step_total [OF Cons.prems(1)] obtain st1 r where s: "step st op = Some (st1, r)" "Inv st1" "does st op st1 r" by blast
  with Cons.prems(2) have "log_meets pre step st1 ops" by simp
  from Cons.IH [OF s(2) this] obtain st' rs where r: "run_log step st1 ops = Some (st', rs)"
    "Inv st'" "leads st1 st'" "\<And>i. i < length ops \<Longrightarrow> \<exists>s s'. does s (ops ! i) s' (rs ! i) \<and> leads s' st'" by blast
  have "\<exists>s s'. does s ((op # ops) ! i) s' ((r # rs) ! i) \<and> leads s' st'" if "i < Suc (length ops)" for i
    using that s(3) r(3,4) by (cases i) auto
  with s r leads_step [OF s(3) r(3)] show ?case by auto
qed

end

section \<open>What a command adds\<close>

text \<open>The groups after a command, given the configuration before it.\<close>

definition next_groups :: "CtrlArgs \<Rightarrow> Config \<Rightarrow> int \<rightharpoonup> string list" where
  "next_groups command c =
     (if ca_OP command = OP_JOIN then map_of (ca_Servers command) ++ map_of (Groups c)
      else if ca_OP command = OP_LEAVE then map_of (Groups c) |` (- set (ca_GIDs command))
      else map_of (Groups c))"

definition config_step :: "MemoryConfigStateMachine \<Rightarrow> CtrlArgs \<Rightarrow> MemoryConfigStateMachine \<Rightarrow> bool" where
  "config_step sm command sm' \<longleftrightarrow> sm' = sm \<or>
     (\<exists>c. sm' = sm\<lparr>Configs := Configs sm @ [c]\<rparr> \<and> config_ok c \<and> Num c = int (length (Configs sm)) \<and>
        map_of (Groups c) = next_groups command (current sm))"

lemma op_names_distinct [simp]:
  "OP_JOIN \<noteq> OP_LEAVE" "OP_JOIN \<noteq> OP_MOVE" "OP_JOIN \<noteq> OP_QUERY" "OP_LEAVE \<noteq> OP_JOIN" "OP_LEAVE \<noteq> OP_MOVE"
  "OP_LEAVE \<noteq> OP_QUERY" "OP_MOVE \<noteq> OP_JOIN" "OP_MOVE \<noteq> OP_LEAVE" "OP_MOVE \<noteq> OP_QUERY"
  "OP_QUERY \<noteq> OP_JOIN" "OP_QUERY \<noteq> OP_LEAVE" "OP_QUERY \<noteq> OP_MOVE"
  by (simp_all add: OP_JOIN_def OP_LEAVE_def OP_MOVE_def OP_QUERY_def)

lemma Move_step:
  assumes "machine_ok sm" "0 \<le> shard" "shard < int NShards" "gid \<in> fst ` set (Groups (current sm))"
  shows "\<exists>c. Move sm shard gid = Some (sm\<lparr>Configs := Configs sm @ [c]\<rparr>, OK) \<and> config_ok c \<and>
    Num c = int (length (Configs sm)) \<and> Groups c = Groups (current sm)"
proof -
  let ?c = "\<lparr>Num = int (length (Configs sm)), Shards = (Shards (current sm))[nat shard := gid], Groups = Groups (current sm)\<rparr>"
  have ok: "config_ok (current sm)" using assms(1) by (rule machine_ok_last)
  have ne: "Configs sm \<noteq> []" using assms(1) by (simp add: machine_ok_def)
  have "Move sm shard gid = Some (sm\<lparr>Configs := Configs sm @ [?c]\<rparr>, OK)"
    using ne ok assms(2,3) by (simp add: Move_def store_def config_ok_def dcopy_id)
  moreover have "config_ok ?c"
    using ok assms(4) set_update_subset_insert [of "Shards (current sm)" "nat shard" gid]
    by (auto simp: config_ok_def split: if_splits)
  ultimately show ?thesis by (intro exI [of _ ?c]) simp
qed

lemma Query_in_history: "machine_ok sm \<Longrightarrow> \<exists>c\<in>set (Configs sm). Query sm num = Some (c, OK)"
  using idx_last [of "Configs sm"] by (auto simp: Query_def machine_ok_def idx_Some_iff idx_def)

text \<open>A valid command is executed; it appends at most one configuration, and a query answers with an existing one.\<close>

lemma sc_apply_valid:
  assumes ok: "machine_ok sm" and v: "sc_valid sm command"
  shows "\<exists>sm' r. sc_apply sm command = Some (sm', r) \<and> config_step sm command sm' \<and>
    (ca_OP command = OP_QUERY \<longrightarrow> cr_Config r \<in> set (Configs sm'))"
proof -
  consider "ca_OP command = OP_JOIN" | "ca_OP command = OP_LEAVE" | "ca_OP command = OP_MOVE"
    | "ca_OP command = OP_QUERY" | "ca_OP command \<notin> {OP_JOIN, OP_LEAVE, OP_MOVE, OP_QUERY}" by auto
  then show ?thesis
  proof cases
    case 1
    with v have "\<exists>c. Join sm (ca_Servers command) = Some (sm\<lparr>Configs := Configs sm @ [c]\<rparr>, OK) \<and> config_ok c \<and>
      Num c = int (length (Configs sm)) \<and> Groups c = join_groups (ca_Servers command) (Groups (current sm))"
      using Join_spec [OF ok, of "ca_Servers command"] by (auto simp: sc_valid_def)
    then obtain c where "Join sm (ca_Servers command) = Some (sm\<lparr>Configs := Configs sm @ [c]\<rparr>, OK)" "config_ok c"
      "Num c = int (length (Configs sm))" "map_of (Groups c) = map_of (ca_Servers command) ++ map_of (Groups (current sm))"
      by (auto simp: join_groups_map)
    with 1 show ?thesis by (auto simp: sc_apply_def config_step_def next_groups_def)
  next
    case 2
    with Leave_spec [OF ok, of "ca_GIDs command"] show ?thesis by (auto simp: sc_apply_def config_step_def next_groups_def)
  next
    case 3
    with v Move_step [OF ok, of "ca_Shard command" "ca_GID command"] obtain c where
      "Move sm (ca_Shard command) (ca_GID command) = Some (sm\<lparr>Configs := Configs sm @ [c]\<rparr>, OK)" "config_ok c"
      "Num c = int (length (Configs sm))" "map_of (Groups c) = map_of (Groups (current sm))"
      unfolding sc_valid_def by metis
    with 3 show ?thesis by (auto simp: sc_apply_def config_step_def next_groups_def)
  next
    case 4
    with Query_in_history [OF ok, of "ca_Num command"] show ?thesis by (auto simp: sc_apply_def config_step_def next_groups_def)
  qed (auto simp: sc_apply_def config_step_def next_groups_def)
qed

lemma config_step_ok: "machine_ok sm \<Longrightarrow> config_step sm command sm' \<Longrightarrow> machine_ok sm'"
  by (auto simp: config_step_def intro: machine_ok_snoc)

text \<open>The same for the server, which answers a repeated command from its session table.\<close>

lemma sc_apply_command_valid:
  assumes "machine_ok (sc_stateMachine sc)" "sc_valid (sc_stateMachine sc) command"
  shows "\<exists>sc' r. sc_apply_command sc command = Some (sc', r) \<and> config_step (sc_stateMachine sc) command (sc_stateMachine sc') \<and>
    (ca_OP command = OP_QUERY \<longrightarrow> cr_Config r \<in> set (Configs (sc_stateMachine sc')))"
proof (cases "ca_OP command \<noteq> OP_QUERY \<and> sc_isDuplicatedRequest sc (ca_ClientId command) (ca_CommandId command)")
  case True
  then show ?thesis
    by (cases "sc_lastOperations sc (ca_ClientId command)")
      (auto simp: sc_apply_command_def sc_isDuplicatedRequest_def config_step_def)
next
  case False
  from sc_apply_valid [OF assms] obtain sm' r where a: "sc_apply (sc_stateMachine sc) command = Some (sm', r)"
    "config_step (sc_stateMachine sc) command sm'" "ca_OP command = OP_QUERY \<longrightarrow> cr_Config r \<in> set (Configs sm')" by blast
  with False show ?thesis unfolding sc_apply_command_def if_not_P [OF False] by (auto simp: applyLog_eq)
qed

section \<open>Runs of valid commands\<close>

definition history_step :: "ShardCtrler \<Rightarrow> CtrlArgs \<Rightarrow> ShardCtrler \<Rightarrow> CtrlReply \<Rightarrow> bool" where
  "history_step sc command sc' r \<longleftrightarrow> config_step (sc_stateMachine sc) command (sc_stateMachine sc') \<and>
     (ca_OP command = OP_QUERY \<longrightarrow> cr_Config r \<in> set (Configs (sc_stateMachine sc')))"

definition extends :: "ShardCtrler \<Rightarrow> ShardCtrler \<Rightarrow> bool" where
  "extends sc sc' \<longleftrightarrow> (\<exists>cs. Configs (sc_stateMachine sc') = Configs (sc_stateMachine sc) @ cs)"

abbreviation sc_ok :: "ShardCtrler \<Rightarrow> bool" where
  "sc_ok sc \<equiv> machine_ok (sc_stateMachine sc)"

abbreviation sc_pre :: "ShardCtrler \<Rightarrow> CtrlArgs \<Rightarrow> bool" where
  "sc_pre sc \<equiv> sc_valid (sc_stateMachine sc)"

interpretation ctl: total_log sc_apply_command sc_ok sc_pre history_step extends
proof
  show "\<exists>sc' r. sc_apply_command sc op = Some (sc', r) \<and> sc_ok sc' \<and> history_step sc op sc' r"
    if "sc_ok sc" "sc_pre sc op" for sc op
    using sc_apply_command_valid [OF that] config_step_ok [OF that(1)] unfolding history_step_def by blast
qed (auto simp: history_step_def config_step_def extends_def)

text \<open>
  C26: The controller's history is well-formed. From a well-formed sequence of configurations, a log
  of valid commands is applied to its end without a panic; the sequence is only extended, its
  configurations stay numbered by their position, each with all its shards assigned to a group
  of the configuration (or all to no group when it has none), and every query is answered with
  a configuration of the sequence.
\<close>

theorem controller_history:
  assumes "machine_ok (sc_stateMachine sc)" "log_meets sc_pre sc_apply_command sc ops"
  shows "\<exists>sc' rs. run_log sc_apply_command sc ops = Some (sc', rs) \<and> machine_ok (sc_stateMachine sc') \<and>
    (\<exists>cs. Configs (sc_stateMachine sc') = Configs (sc_stateMachine sc) @ cs) \<and>
    (\<forall>i<length ops. ca_OP (ops ! i) = OP_QUERY \<longrightarrow> cr_Config (rs ! i) \<in> set (Configs (sc_stateMachine sc')))"
proof -
  from ctl.run_log_ends [OF assms] obtain sc' rs where r: "run_log sc_apply_command sc ops = Some (sc', rs)" "sc_ok sc'"
    "extends sc sc'" "\<And>i. i < length ops \<Longrightarrow> \<exists>s s'. history_step s (ops ! i) s' (rs ! i) \<and> extends s' sc'" by blast
  have "cr_Config (rs ! i) \<in> set (Configs (sc_stateMachine sc'))" if "i < length ops" "ca_OP (ops ! i) = OP_QUERY" for i
    using r(4) [OF that(1)] that(2) by (auto simp: history_step_def extends_def)
  with r(1-3) show ?thesis unfolding extends_def by blast
qed

definition demo_move_cmd :: CtrlArgs where
  "demo_move_cmd = no_args\<lparr>ca_Shard := 4, ca_GID := 3, ca_OP := OP_MOVE, ca_ClientId := 5, ca_CommandId := 1\<rparr>"

lemma demo_log_valid:
  "machine_ok (sc_stateMachine demo_sc)"
  "log_meets sc_pre sc_apply_command demo_sc [demo_join_cmd, demo_join_cmd, demo_move_cmd]"
proof -
  have "sc_stateMachine demo_sc = NewMemoryConfigStateMachine" by code_simp
  then show "machine_ok (sc_stateMachine demo_sc)"
    by (simp add: NewMemoryConfigStateMachine_def machine_ok_def config_ok_def DefaultConfig_def)
qed code_simp

theorem controller_history_witness:
  "\<exists>sc' rs. run_log sc_apply_command demo_sc [demo_join_cmd, demo_join_cmd, demo_move_cmd] = Some (sc', rs) \<and>
     machine_ok (sc_stateMachine sc')"
  using controller_history [OF demo_log_valid] by blast

end
