(* ===== verification/Porcupine_Bitset.thy ===== *)
theory Porcupine_Bitset
  imports Prelude "HOL-Library.Word"
begin

text \<open>
  The bit sets of the linearizability checker (package porcupine, bitset.go): a slice of 64-bit
  words, with position \<open>pos\<close> at bit \<open>pos mod 64\<close> of word \<open>pos div 64\<close>. Access beyond the slice
  panics. The operations are shown to implement finite sets of positions, through an interface
  of such sets.
\<close>

unbundle bit_operations_syntax

type_synonym bitset = "64 word list"

definition newBitset :: "nat \<Rightarrow> bitset" where
  "newBitset bits =
     (let extra = (if bits mod 64 \<noteq> 0 then 1 else 0);
          chunks = bits div 64 + extra
      in replicate chunks 0)"

definition bs_clone :: "bitset \<Rightarrow> bitset" where
  "bs_clone b = take (length b) b"

definition bitsetIndex :: "nat \<Rightarrow> nat \<times> nat" where
  "bitsetIndex pos = (pos div 64, pos mod 64)"

definition bs_set :: "bitset \<Rightarrow> nat \<Rightarrow> bitset option" where
  "bs_set b pos = do {
     let (major, minor) = bitsetIndex pos;
     w \<leftarrow> idx b (int major);
     store b (int major) (w OR push_bit minor 1)
   }"

definition bs_clear :: "bitset \<Rightarrow> nat \<Rightarrow> bitset option" where
  "bs_clear b pos = do {
     let (major, minor) = bitsetIndex pos;
     w \<leftarrow> idx b (int major);
     store b (int major) (w AND NOT (push_bit minor 1))
   }"

definition bs_get :: "bitset \<Rightarrow> nat \<Rightarrow> bool option" where
  "bs_get b pos = do {
     let (major, minor) = bitsetIndex pos;
     w \<leftarrow> idx b (int major);
     Some (w AND push_bit minor 1 \<noteq> 0)
   }"

text \<open>The number of one bits of a word (\<open>bits.OnesCount64\<close>).\<close>

definition OnesCount64 :: "64 word \<Rightarrow> nat" where
  "OnesCount64 v = length (filter (bit v) [0..<64])"

definition popcnt :: "bitset \<Rightarrow> nat" where
  "popcnt b = fold (\<lambda>v total. total + OnesCount64 v) b 0"

definition bs_hash :: "bitset \<Rightarrow> 64 word" where
  "bs_hash b = fold (\<lambda>v hash. hash XOR v) b (word_of_nat (popcnt b))"

fun equals_loop :: "64 word list \<Rightarrow> 64 word list \<Rightarrow> bool" where
  "equals_loop [] _ = True"
| "equals_loop (v # b) [] = False"
| "equals_loop (v # b) (w # b2) = (if v \<noteq> w then False else equals_loop b b2)"

definition bs_equals :: "bitset \<Rightarrow> bitset \<Rightarrow> bool" where
  "bs_equals b b2 = (if length b \<noteq> length b2 then False else equals_loop b b2)"

section \<open>Sets of positions\<close>

definition bits :: "bitset \<Rightarrow> nat set" where
  "bits b = {p. p < 64 * length b \<and> bit (b ! (p div 64)) (p mod 64)}"

lemma bit_one_word: "bit (2 ^ m :: 64 word) k \<longleftrightarrow> k = m \<and> m < 64"
  by (auto simp: bit_exp_iff)

lemma div_in_range: "p < 64 * n \<Longrightarrow> p div 64 < (n :: nat)"
  by (simp add: less_mult_imp_div_less mult.commute)

lemma index_in_range: "p div 64 < (n :: nat) \<longleftrightarrow> p < 64 * n"
  by (simp add: div_less_iff_less_mult mult.commute)

lemma bs_set_None: "bs_set b p = None \<longleftrightarrow> \<not> p < 64 * length b"
  by (auto simp: bs_set_def bitsetIndex_def idx_def store_def index_in_range [symmetric])

lemma bs_set_spec:
  assumes "p < 64 * length b"
  shows "\<exists>b'. bs_set b p = Some b' \<and> length b' = length b \<and> bits b' = insert p (bits b)"
proof -
  let ?w = "b ! (p div 64)" and ?b = "b[p div 64 := b ! (p div 64) OR push_bit (p mod 64) 1]"
  have r: "p div 64 < length b" using assms by (rule div_in_range)
  then have s: "bs_set b p = Some ?b" by (simp add: bs_set_def bitsetIndex_def idx_def store_def)
  have "q \<in> bits ?b \<longleftrightarrow> q \<in> insert p (bits b)" for q
  proof (cases "q div 64 = p div 64")
    case True
    have "q = p \<longleftrightarrow> q mod 64 = p mod 64" using True by (metis div_mult_mod_eq)
    with True r show ?thesis by (auto simp: bits_def bit_or_iff bit_one_word index_in_range [symmetric])
  next
    case False
    with r show ?thesis by (auto simp: bits_def index_in_range [symmetric])
  qed
  then have "bits ?b = insert p (bits b)" by blast
  with s show ?thesis by simp
qed

lemma bs_clear_spec:
  assumes "p < 64 * length b"
  shows "\<exists>b'. bs_clear b p = Some b' \<and> length b' = length b \<and> bits b' = bits b - {p}"
proof -
  let ?b = "b[p div 64 := b ! (p div 64) AND NOT (push_bit (p mod 64) 1)]"
  have r: "p div 64 < length b" using assms by (rule div_in_range)
  then have s: "bs_clear b p = Some ?b" by (simp add: bs_clear_def bitsetIndex_def idx_def store_def)
  have "q \<in> bits ?b \<longleftrightarrow> q \<in> bits b - {p}" for q
  proof (cases "q div 64 = p div 64")
    case True
    have "q = p \<longleftrightarrow> q mod 64 = p mod 64" using True by (metis div_mult_mod_eq)
    with True r show ?thesis
      by (auto simp: bits_def bit_and_iff bit_not_iff bit_one_word index_in_range [symmetric])
  next
    case False
    with r show ?thesis by (auto simp: bits_def index_in_range [symmetric])
  qed
  then have "bits ?b = bits b - {p}" by blast
  with s show ?thesis by simp
qed

lemma bs_get_spec: "bs_get b p = (if p < 64 * length b then Some (p \<in> bits b) else None)"
proof (cases "p < 64 * length b")
  case True
  have "w AND push_bit (p mod 64) 1 \<noteq> 0 \<longleftrightarrow> bit w (p mod 64)" for w :: "64 word"
  proof -
    have "bit (w AND 2 ^ (p mod 64)) k \<longleftrightarrow> k = p mod 64 \<and> bit w (p mod 64)" for k
      by (auto simp: bit_and_iff bit_one_word)
    then have "w AND 2 ^ (p mod 64) = 0 \<longleftrightarrow> \<not> bit w (p mod 64)"
      using bit_eq_iff [of "w AND 2 ^ (p mod 64)" 0] by auto
    then show ?thesis by simp
  qed
  with True show ?thesis by (simp add: bs_get_def bitsetIndex_def idx_def div_in_range bits_def)
next
  case False
  then show ?thesis by (simp add: bs_get_def bitsetIndex_def idx_def index_in_range)
qed

lemma equals_loop_iff: "length b = length c \<Longrightarrow> equals_loop b c \<longleftrightarrow> b = c"
  by (induction b c rule: list_induct2) auto

lemma bs_equals_iff: "bs_equals b c \<longleftrightarrow> b = c"
  by (auto simp: bs_equals_def equals_loop_iff)

lemma bits_determine:
  assumes "length b = length c" "bits b = bits c" shows "b = c"
proof (rule nth_equalityI [OF assms(1)])
  fix k assume k: "k < length b"
  show "b ! k = c ! k"
  proof (rule bit_word_eqI)
    fix m assume m: "m < LENGTH(64)"
    then have p: "(64 * k + m) div 64 = k" "(64 * k + m) mod 64 = m" by simp_all
    with k have "64 * k + m < 64 * length b" by (simp add: index_in_range [symmetric])
    moreover have "64 * k + m \<in> bits b \<longleftrightarrow> 64 * k + m \<in> bits c" by (simp add: assms(2))
    ultimately show "bit (b ! k) m = bit (c ! k) m" using p assms(1) by (simp add: bits_def)
  qed
qed

lemma newBitset_spec: "bits (newBitset n) = {} \<and> n \<le> 64 * length (newBitset n)"
proof
  show "bits (newBitset n) = {}"
    by (auto simp: newBitset_def bits_def Let_def div_in_range)
  show "n \<le> 64 * length (newBitset n)"
    by (simp add: newBitset_def Let_def) presburger
qed

lemma bs_clone_id [simp]: "bs_clone b = b"
  by (simp add: bs_clone_def)

lemma bits_snoc: "bits (b @ [v]) = bits b \<union> (\<lambda>k. 64 * length b + k) ` {k. k < 64 \<and> bit v k}"
proof (rule set_eqI)
  fix p
  show "p \<in> bits (b @ [v]) \<longleftrightarrow> p \<in> bits b \<union> (\<lambda>k. 64 * length b + k) ` {k. k < 64 \<and> bit v k}"
  proof (cases "p div 64 < length b")
    case True
    then have "p < 64 * length b" by (simp add: index_in_range)
    with True show ?thesis by (auto simp: bits_def nth_append)
  next
    case False
    then have ge: "64 * length b \<le> p" by (simp add: index_in_range not_less)
    then obtain k where k: "p = 64 * length b + k" by (metis le_iff_add)
    then show ?thesis by (auto simp: bits_def nth_append image_iff)
  qed
qed

lemma bits_bound: "bits b \<subseteq> {..<64 * length b}"
  by (auto simp: bits_def)

lemma popcnt_card: "popcnt b = card (bits b)"
proof (induction b rule: rev_induct)
  case Nil
  then show ?case by (simp add: popcnt_def bits_def)
next
  case (snoc v b)
  have one: "OnesCount64 v = card {k. k < 64 \<and> bit v k}"
  proof -
    have "OnesCount64 v = card (set (filter (bit v) [0..<64]))"
      unfolding OnesCount64_def by (subst distinct_card) simp_all
    also have "set (filter (bit v) [0..<64]) = {k. k < 64 \<and> bit v k}" by auto
    finally show ?thesis .
  qed
  have dis: "bits b \<inter> (\<lambda>k. 64 * length b + k) ` {k. k < 64 \<and> bit v k} = {}" using bits_bound by fastforce
  have fin: "finite (bits b)" using bits_bound finite_subset by blast
  have "card (bits (b @ [v])) = card (bits b) + card ((\<lambda>k. 64 * length b + k) ` {k. k < 64 \<and> bit v k})"
    unfolding bits_snoc using fin dis by (intro card_Un_disjoint) auto
  also have "card ((\<lambda>k. 64 * length b + k) ` {k. k < 64 \<and> bit v k}) = OnesCount64 v"
    unfolding one by (rule card_image) (simp add: inj_on_def)
  finally show ?case using snoc.IH by (simp add: popcnt_def)
qed

section \<open>The interface\<close>

text \<open>A mutable set of positions below a capacity; an access beyond it fails.\<close>

locale position_set =
  fixes ins :: "'b \<Rightarrow> nat \<Rightarrow> 'b option" and del :: "'b \<Rightarrow> nat \<Rightarrow> 'b option" and mem :: "'b \<Rightarrow> nat \<Rightarrow> bool option"
    and members :: "'b \<Rightarrow> nat set" and capacity :: "'b \<Rightarrow> nat"
  assumes ins_spec: "p < capacity b \<Longrightarrow> \<exists>b'. ins b p = Some b' \<and> capacity b' = capacity b \<and> members b' = insert p (members b)"
    and del_spec: "p < capacity b \<Longrightarrow> \<exists>b'. del b p = Some b' \<and> capacity b' = capacity b \<and> members b' = members b - {p}"
    and mem_spec: "mem b p = (if p < capacity b then Some (p \<in> members b) else None)"
    and members_determine: "capacity b = capacity c \<Longrightarrow> members b = members c \<Longrightarrow> b = c"
begin

lemma del_ins:
  assumes "p < capacity b" "p \<notin> members b" "ins b p = Some b'"
  shows "del b' p = Some b"
proof -
  from ins_spec [OF assms(1)] assms(3) have b': "capacity b' = capacity b" "members b' = insert p (members b)" by auto
  from del_spec [of p b'] assms(1) b' obtain b'' where
    "del b' p = Some b''" "capacity b'' = capacity b" "members b'' = members b" using assms(2) by auto
  with members_determine [of b'' b] show ?thesis by simp
qed

lemma mem_ins: "ins b p = Some b' \<Longrightarrow> p < capacity b \<Longrightarrow> q < capacity b \<Longrightarrow> mem b' q = Some (q = p \<or> q \<in> members b)"
  using ins_spec [of p b] by (auto simp: mem_spec)

end

interpretation bset: position_set bs_set bs_clear bs_get bits "\<lambda>b. 64 * length b"
  by unfold_locales (use bs_set_spec bs_clear_spec bs_get_spec bits_determine in \<open>auto\<close>)

text \<open>
  Bit sets are sets of positions. Within the capacity of the slice, \<open>set\<close> adds exactly one
  position, \<open>clear\<close> removes exactly one, clearing a position that was just set restores the
  slice word for word, \<open>get\<close> tests membership, \<open>popcnt\<close> counts the members, and two sets of one
  capacity are \<open>equals\<close> just when they have the same members; beyond the capacity the access
  panics. A new set has room for the positions asked for and is empty.
\<close>

theorem bitset_is_set:
  assumes "p < 64 * length b" "length c = length b"
  shows "\<exists>b' b''. bs_set b p = Some b' \<and> bits b' = insert p (bits b) \<and> bs_clear b p = Some b'' \<and> bits b'' = bits b - {p} \<and>
    (p \<notin> bits b \<longrightarrow> bs_clear b' p = Some b) \<and> bs_get b p = Some (p \<in> bits b) \<and> popcnt b = card (bits b) \<and>
    bs_equals b c = (bits b = bits c) \<and> bits (newBitset n) = {} \<and> n \<le> 64 * length (newBitset n) \<and>
    bs_get b (64 * length b + k) = None"
proof -
  from bset.ins_spec [OF assms(1)] bset.del_spec [OF assms(1)] obtain b' b'' where
    b: "bs_set b p = Some b'" "bits b' = insert p (bits b)" "bs_clear b p = Some b''" "bits b'' = bits b - {p}" by blast
  have e: "bs_equals b c = (bits b = bits c)"
    using bits_determine [of b c] assms(2) by (auto simp: bs_equals_iff)
  show ?thesis
    using b e bset.del_ins [OF assms(1) _ b(1)] newBitset_spec [of n] assms(1)
    by (intro exI [of _ b'] exI [of _ b'']) (simp add: popcnt_card bset.mem_spec)
qed

theorem bitset_is_set_witness:
  "\<exists>b' b''. bs_set (newBitset 70) 65 = Some b' \<and> bits b' = insert 65 (bits (newBitset 70)) \<and> bs_clear b' 65 = Some (newBitset 70) \<and>
     bs_clear (newBitset 70) 65 = Some b'' \<and> bs_get (newBitset 70) 65 = Some False"
proof -
  have n: "length (newBitset 70) = 2" by (simp add: newBitset_def)
  note e = conjunct1 [OF newBitset_spec [of 70]]
  from bitset_is_set [of 65 "newBitset 70" "newBitset 70" 70 0] n e show ?thesis by auto
qed

end
