(* ===== verification/Porcupine_Checker.thy ===== *)
theory Porcupine_Checker
  imports Prelude Porcupine_Bitset "HOL-Library.Multiset"
begin

text \<open>
  The linearizability checker (package porcupine: model.go, checker.go, porcupine.go): histories
  and models, the conversion of a history to a list of call and return entries, the doubly
  linked list of entries with the removal and re-insertion of an operation, the search
  \<open>checkSingle\<close> with its cache and its stack of calls, and the check of all partitions. A pointer
  is an address in a heap of nodes; following a nil pointer panics. A Go \<open>interface{}\<close> is a value
  of a type parameter; a model's functions may panic on a value of the wrong dynamic type.
  Descriptions for the visualization are left out.
\<close>

section \<open>Histories and models\<close>

record 'v Operation =
  op_ClientId :: int
  op_Input :: 'v
  op_Call :: int
  op_Output :: 'v
  op_Return :: int

record 'v Event =
  ev_ClientId :: int
  ev_Return :: bool
  ev_Value :: 'v
  ev_Id :: int

text \<open>A function field that is nil is \<^term>\<open>None\<close>.\<close>

record ('v, 's) Model =
  Partition :: "('v Operation list \<Rightarrow> 'v Operation list list option) option"
  PartitionEvent :: "('v Event list \<Rightarrow> 'v Event list list option) option"
  Init :: 's
  Step :: "'s \<Rightarrow> 'v \<Rightarrow> 'v \<Rightarrow> (bool \<times> 's) option"
  Equal :: "('s \<Rightarrow> 's \<Rightarrow> bool) option"

definition NoPartition :: "'v Operation list \<Rightarrow> 'v Operation list list option" where
  "NoPartition history = Some [history]"

definition NoPartitionEvent :: "'v Event list \<Rightarrow> 'v Event list list option" where
  "NoPartitionEvent history = Some [history]"

definition ShallowEqual :: "'s \<Rightarrow> 's \<Rightarrow> bool" where
  "ShallowEqual state1 state2 \<longleftrightarrow> state1 = state2"

datatype CheckResult = Unknown | Ok | Illegal

definition fillDefault :: "('v, 's) Model \<Rightarrow> ('v, 's) Model" where
  "fillDefault model =
     (let model = (if Partition model = None then model\<lparr>Partition := Some NoPartition\<rparr> else model);
          model = (if PartitionEvent model = None then model\<lparr>PartitionEvent := Some NoPartitionEvent\<rparr> else model)
      in if Equal model = None then model\<lparr>Equal := Some ShallowEqual\<rparr> else model)"

section \<open>Entries\<close>

record 'v pentry =
  en_return :: bool
  en_value :: 'v
  en_id :: int
  en_time :: int
  en_clientId :: int

definition Less :: "'v pentry \<Rightarrow> 'v pentry \<Rightarrow> bool" where
  "Less a b =
     (if en_time a \<noteq> en_time b then en_time a < en_time b
      else \<not> en_return a \<and> en_return b)"

text \<open>
  \<open>makeEntries\<close>: two entries per operation, then \<open>sort.Sort\<close>, which is an argument: what is
  documented of it is that it permutes the slice into an order in which no later element is
  less than an earlier one.
\<close>

fun makeEntries_loop :: "int \<Rightarrow> 'v Operation list \<Rightarrow> 'v pentry list" where
  "makeEntries_loop i [] = []"
| "makeEntries_loop i (elem # history) =
     \<lparr>en_return = False, en_value = op_Input elem, en_id = i, en_time = op_Call elem, en_clientId = op_ClientId elem\<rparr> #
     \<lparr>en_return = True, en_value = op_Output elem, en_id = i, en_time = op_Return elem, en_clientId = op_ClientId elem\<rparr> #
     makeEntries_loop (i + 1) history"

definition makeEntries :: "('v pentry list \<Rightarrow> 'v pentry list) \<Rightarrow> 'v Operation list \<Rightarrow> 'v pentry list" where
  "makeEntries sort_entries history = sort_entries (makeEntries_loop 0 history)"

definition sorts :: "('v pentry list \<Rightarrow> 'v pentry list) \<Rightarrow> bool" where
  "sorts sort_entries \<longleftrightarrow> (\<forall>es. mset (sort_entries es) = mset es \<and> sorted_wrt (\<lambda>a b. \<not> Less b a) (sort_entries es))"

fun renumber_loop :: "'v Event list \<Rightarrow> (int \<rightharpoonup> int) \<Rightarrow> int \<Rightarrow> 'v Event list" where
  "renumber_loop [] m i = []"
| "renumber_loop (v # events) m i =
     (case m (ev_Id v) of
        Some r \<Rightarrow> v\<lparr>ev_Id := r\<rparr> # renumber_loop events m i
      | None \<Rightarrow> v\<lparr>ev_Id := i\<rparr> # renumber_loop events (m(ev_Id v \<mapsto> i)) (i + 1))"

definition renumber :: "'v Event list \<Rightarrow> 'v Event list" where
  "renumber events = renumber_loop events Map.empty 0"

definition convertEntries :: "'v Event list \<Rightarrow> 'v pentry list" where
  "convertEntries events =
     map (\<lambda>(i, elem). \<lparr>en_return = ev_Return elem, en_value = ev_Value elem, en_id = ev_Id elem,
                        en_time = int i, en_clientId = ev_ClientId elem\<rparr>) (enumerate 0 events)"

section \<open>The linked list of entries\<close>

record 'v pnode =
  nd_value :: "'v option"
  nd_match :: "nat option"
  nd_id :: int
  nd_next :: "nat option"
  nd_prev :: "nat option"

type_synonym 'v nodes = "'v pnode list"

definition set_next :: "'v nodes \<Rightarrow> nat \<Rightarrow> nat option \<Rightarrow> 'v nodes" where
  "set_next h a p = h[a := (h ! a)\<lparr>nd_next := p\<rparr>]"

definition set_prev :: "'v nodes \<Rightarrow> nat \<Rightarrow> nat option \<Rightarrow> 'v nodes" where
  "set_prev h a p = h[a := (h ! a)\<lparr>nd_prev := p\<rparr>]"

definition insertBefore :: "'v nodes \<Rightarrow> nat \<Rightarrow> nat option \<Rightarrow> 'v nodes" where
  "insertBefore h n mark =
     (case mark of
        None \<Rightarrow> h
      | Some mark \<Rightarrow>
          (let beforeMark = nd_prev (h ! mark);
               h = set_prev h mark (Some n);
               h = set_next h n (Some mark)
           in case beforeMark of
                None \<Rightarrow> h
              | Some before \<Rightarrow> set_next (set_prev h n (Some before)) before (Some n)))"

partial_function (option) length_loop :: "'v nodes \<Rightarrow> nat option \<Rightarrow> nat \<Rightarrow> nat option" where
  "length_loop h n l =
     (case n of None \<Rightarrow> Some l | Some a \<Rightarrow> length_loop h (nd_next (h ! a)) (l + 1))"

definition node_length :: "'v nodes \<Rightarrow> nat option \<Rightarrow> nat option" where
  "node_length h n = length_loop h n 0"

text \<open>
  \<open>makeLinkedEntries\<close> runs from the last entry to the first; the list argument is in that order.
\<close>

fun link_loop :: "'v pentry list \<Rightarrow> 'v nodes \<Rightarrow> nat option \<Rightarrow> (int \<rightharpoonup> nat) \<Rightarrow> 'v nodes \<times> nat option" where
  "link_loop [] h root match = (h, root)"
| "link_loop (elem # es) h root match =
     (let a = length h
      in if en_return elem
         then link_loop es
           (insertBefore (h @ [\<lparr>nd_value = Some (en_value elem), nd_match = None, nd_id = en_id elem,
                                nd_next = None, nd_prev = None\<rparr>]) a root)
           (Some a) (match(en_id elem \<mapsto> a))
         else link_loop es
           (insertBefore (h @ [\<lparr>nd_value = Some (en_value elem), nd_match = match (en_id elem), nd_id = en_id elem,
                                nd_next = None, nd_prev = None\<rparr>]) a root)
           (Some a) match)"

definition makeLinkedEntries :: "'v pentry list \<Rightarrow> 'v nodes \<times> nat option" where
  "makeLinkedEntries entries = link_loop (rev entries) [] None Map.empty"

definition lift :: "'v nodes \<Rightarrow> nat \<Rightarrow> 'v nodes option" where
  "lift h entry = do {
     p \<leftarrow> nd_prev (h ! entry);
     let h = set_next h p (nd_next (h ! entry));
     n \<leftarrow> nd_next (h ! entry);
     let h = set_prev h n (nd_prev (h ! entry));
     match \<leftarrow> nd_match (h ! entry);
     mp \<leftarrow> nd_prev (h ! match);
     let h = set_next h mp (nd_next (h ! match));
     (case nd_next (h ! match) of
        None \<Rightarrow> Some h
      | Some mn \<Rightarrow> Some (set_prev h mn (nd_prev (h ! match))))
   }"

definition unlift :: "'v nodes \<Rightarrow> nat \<Rightarrow> 'v nodes option" where
  "unlift h entry = do {
     match \<leftarrow> nd_match (h ! entry);
     mp \<leftarrow> nd_prev (h ! match);
     let h = set_next h mp (Some match);
     let h = (case nd_next (h ! match) of None \<Rightarrow> h | Some mn \<Rightarrow> set_prev h mn (Some match));
     p \<leftarrow> nd_prev (h ! entry);
     let h = set_next h p (Some entry);
     n \<leftarrow> nd_next (h ! entry);
     Some (set_prev h n (Some entry))
   }"

section \<open>The search\<close>

type_synonym 's cache = "64 word \<Rightarrow> (bitset \<times> 's) list"

fun contains_loop :: "('v, 's) Model \<Rightarrow> bitset \<Rightarrow> 's \<Rightarrow> (bitset \<times> 's) list \<Rightarrow> bool option" where
  "contains_loop model linearized state [] = Some False"
| "contains_loop model linearized state ((l, st) # elems) =
     (if bs_equals linearized l
      then do {
        eq \<leftarrow> Equal model;
        if eq state st then Some True else contains_loop model linearized state elems
      }
      else contains_loop model linearized state elems)"

definition cacheContains :: "('v, 's) Model \<Rightarrow> 's cache \<Rightarrow> bitset \<Rightarrow> 's \<Rightarrow> bool option" where
  "cacheContains model cache linearized state =
     contains_loop model linearized state (cache (bs_hash linearized))"

definition to_uint :: "int \<Rightarrow> nat" where
  "to_uint i = nat (i mod 2 ^ 64)"

text \<open>
  The variables of \<open>checkSingle\<close>. An element of \<open>longest\<close> is a pointer to a slice: the slice with a
  number that tells one allocation from another.
\<close>

record ('v, 's) search =
  se_heap :: "'v nodes"
  se_entry :: "nat option"
  se_linearized :: bitset
  se_cache :: "'s cache"
  se_calls :: "(nat \<times> 's) list"
  se_state :: 's
  se_longest :: "(nat \<times> int list) option list"
  se_allocs :: nat
  se_rounds :: nat

definition call_ids :: "('v, 's) search \<Rightarrow> int list" where
  "call_ids st = map (\<lambda>(e, _). nd_id (se_heap st ! e)) (se_calls st)"

text \<open>The loop that records a partial linearization for its operations, if it is longer.\<close>

fun longest_loop :: "nat \<times> int list \<Rightarrow> int list \<Rightarrow> (nat \<times> int list) option list \<Rightarrow> (nat \<times> int list) option list option" where
  "longest_loop seq [] longest = Some longest"
| "longest_loop seq (i # is) longest = do {
     l \<leftarrow> idx longest i;
     longest \<leftarrow> (if (case l of None \<Rightarrow> True | Some (_, s) \<Rightarrow> length (snd seq) > length s)
                then store longest i (Some seq) else Some longest);
     longest_loop seq is longest
   }"

text \<open>
  One round of the loop: the result, or the variables of the next round. \<open>kill\<close> tells in which
  rounds the flag is found set.
\<close>

definition search_round ::
  "('v, 's) Model \<Rightarrow> bool \<Rightarrow> (nat \<Rightarrow> bool) \<Rightarrow> nat \<Rightarrow> ('v, 's) search \<Rightarrow>
   ((bool \<times> (nat \<times> int list) option list) + ('v, 's) search) option" where
  "search_round model computePartial kill headEntry st =
     (if nd_next (se_heap st ! headEntry) = None
      then (let seq = (se_allocs st, call_ids st)
            in Some (Inl (True, map (\<lambda>_. Some seq) (se_longest st))))
      else if kill (se_rounds st) then Some (Inl (False, se_longest st))
      else do {
        let st = st\<lparr>se_rounds := Suc (se_rounds st)\<rparr>;
        entry \<leftarrow> se_entry st;
        let nd = se_heap st ! entry;
        (case nd_match nd of
           Some matching \<Rightarrow> do {
             input \<leftarrow> nd_value nd;
             output \<leftarrow> nd_value (se_heap st ! matching);
             (ok, newState) \<leftarrow> Step model (se_state st) input output;
             if ok
             then do {
               newLinearized \<leftarrow> bs_set (bs_clone (se_linearized st)) (to_uint (nd_id nd));
               seen \<leftarrow> cacheContains model (se_cache st) newLinearized newState;
               if \<not> seen
               then do {
                 let hash = bs_hash newLinearized;
                 linearized \<leftarrow> bs_set (se_linearized st) (to_uint (nd_id nd));
                 heap \<leftarrow> lift (se_heap st) entry;
                 Some (Inr (st\<lparr>se_cache := (se_cache st)(hash := se_cache st hash @ [(newLinearized, newState)]),
                               se_calls := se_calls st @ [(entry, se_state st)],
                               se_state := newState,
                               se_linearized := linearized,
                               se_heap := heap,
                               se_entry := nd_next (heap ! headEntry)\<rparr>))
               }
               else Some (Inr (st\<lparr>se_entry := nd_next nd\<rparr>))
             }
             else Some (Inr (st\<lparr>se_entry := nd_next nd\<rparr>))
           }
         | None \<Rightarrow>
             (if se_calls st = [] then Some (Inl (False, se_longest st))
              else do {
                longest \<leftarrow> (if computePartial
                  then longest_loop (se_allocs st, call_ids st) (call_ids st) (se_longest st)
                  else Some (se_longest st));
                let (e, s) = last (se_calls st);
                linearized \<leftarrow> bs_clear (se_linearized st) (to_uint (nd_id (se_heap st ! e)));
                heap \<leftarrow> unlift (se_heap st) e;
                Some (Inr (st\<lparr>se_longest := longest, se_allocs := Suc (se_allocs st),
                              se_state := s, se_linearized := linearized,
                              se_calls := butlast (se_calls st), se_heap := heap,
                              se_entry := nd_next (heap ! e)\<rparr>))
              }))
      })"

partial_function (option) search_loop ::
  "('v, 's) Model \<Rightarrow> bool \<Rightarrow> (nat \<Rightarrow> bool) \<Rightarrow> nat \<Rightarrow> ('v, 's) search \<Rightarrow>
   (bool \<times> (nat \<times> int list) option list) option" where
  "search_loop model computePartial kill headEntry st = do {
     r \<leftarrow> search_round model computePartial kill headEntry st;
     (case r of
        Inl res \<Rightarrow> Some res
      | Inr st \<Rightarrow> search_loop model computePartial kill headEntry st)
   }"

definition checkSingle ::
  "('v, 's) Model \<Rightarrow> 'v pentry list \<Rightarrow> bool \<Rightarrow> (nat \<Rightarrow> bool) \<Rightarrow> (bool \<times> (nat \<times> int list) option list) option" where
  "checkSingle model history computePartial kill = do {
     let (h, entry) = makeLinkedEntries history;
     len \<leftarrow> node_length h entry;
     let n = len div 2;
     let headEntry = length h;
     let h = insertBefore (h @ [\<lparr>nd_value = None, nd_match = None, nd_id = -1, nd_next = None, nd_prev = None\<rparr>])
                          headEntry entry;
     search_loop model computePartial kill headEntry
       \<lparr>se_heap = h, se_entry = entry, se_linearized = newBitset n, se_cache = (\<lambda>_. []), se_calls = [],
        se_state = Init model, se_longest = replicate n None, se_allocs = 0, se_rounds = 0\<rparr>
   }"

section \<open>All partitions\<close>

text \<open>One computation after another: the second is not reached when the first waits or panics.\<close>

definition obind :: "'a outcome \<Rightarrow> ('a \<Rightarrow> 'b outcome) \<Rightarrow> 'b outcome" where
  "obind r f = (case r of Next x \<Rightarrow> f x | Disabled \<Rightarrow> Disabled | Panic \<Rightarrow> Panic)"

definition or_panic :: "'a option \<Rightarrow> 'a outcome" where
  "or_panic r = (case r of Some x \<Rightarrow> Next x | None \<Rightarrow> Panic)"

lemma obind_simps [simp]:
  "obind (Next x) f = f x" "obind Disabled f = Disabled" "obind Panic f = Panic" "or_panic (Some x) = Next x" "or_panic None = Panic"
  by (simp_all add: obind_def or_panic_def)

text \<open>
  The main loop of \<open>checkParallel\<close>, over the sequence of events its \<open>select\<close> receives: the result
  of the search of a partition, or the timeout. It yields whether all results so far were
  positive, whether it timed out, and the number of results. It is \<^term>\<open>Disabled\<close>, that is, waits for
  ever, when no further event comes, and it panics when the search whose result it expects did not
  return one. The results of the searches are an argument.
\<close>

datatype arrival = Result nat | Timeout

fun collect_loop ::
  "(nat \<Rightarrow> bool option) \<Rightarrow> bool \<Rightarrow> nat \<Rightarrow> bool \<Rightarrow> nat \<Rightarrow> arrival list \<Rightarrow> (bool \<times> bool \<times> nat) outcome" where
  "collect_loop results computeInfo n ok cnt [] = Disabled"
| "collect_loop results computeInfo n ok cnt (Result i # arrivals) = obind (or_panic (results i)) (\<lambda>result.
     let cnt = cnt + 1;
         ok = (ok \<and> result)
     in if \<not> ok \<and> \<not> computeInfo then Next (ok, False, cnt)
        else if cnt \<ge> n then Next (ok, False, cnt)
        else collect_loop results computeInfo n ok cnt arrivals)"
| "collect_loop results computeInfo n ok cnt (Timeout # arrivals) = Next (ok, True, cnt)"

text \<open>The distinct slices that \<open>longest\<close> points to; the language leaves their order open.\<close>

definition partials :: "(nat \<times> int list) option list \<Rightarrow> int list list" where
  "partials longest = map snd (remdups (List.map_filter (\<lambda>l. l) longest))"

record 'v linearizationInfo =
  li_history :: "'v pentry list list"
  li_partialLinearizations :: "int list list list"

text \<open>
  \<open>checkParallel\<close>: \<open>kill i r\<close> tells whether the search of partition \<open>i\<close> finds the flag set in its round
  \<open>r\<close>; \<open>arrivals\<close> is the order in which the results and the timeout arrive. With \<open>computeInfo\<close> the
  function waits for all searches.
\<close>

definition checkParallel ::
  "('v, 's) Model \<Rightarrow> 'v pentry list list \<Rightarrow> bool \<Rightarrow> (nat \<Rightarrow> nat \<Rightarrow> bool) \<Rightarrow> arrival list \<Rightarrow>
   (CheckResult \<times> 'v linearizationInfo) outcome" where
  "checkParallel model history computeInfo kill arrivals =
     (let search = (\<lambda>i. checkSingle model (history ! i) computeInfo (kill i)) in
      obind (collect_loop (\<lambda>i. map_option fst (search i)) computeInfo (length history) True 0 arrivals) (\<lambda>(ok, timedOut, cnt).
      obind (if computeInfo
             then obind (or_panic (those (map (\<lambda>i. map_option snd (search i)) [0..<length history]))) (\<lambda>longest.
               Next \<lparr>li_history = history, li_partialLinearizations = map partials longest\<rparr>)
             else Next \<lparr>li_history = [], li_partialLinearizations = []\<rparr>) (\<lambda>info.
      let result = (if \<not> ok then Illegal else if timedOut then Unknown else Ok)
      in Next (result, info))))"

definition checkEvents ::
  "('v, 's) Model \<Rightarrow> 'v Event list \<Rightarrow> bool \<Rightarrow> (nat \<Rightarrow> nat \<Rightarrow> bool) \<Rightarrow> arrival list \<Rightarrow>
   (CheckResult \<times> 'v linearizationInfo) outcome" where
  "checkEvents model history verbose kill arrivals =
     (let model = fillDefault model in
      obind (or_panic (Option.bind (PartitionEvent model) (\<lambda>partition. partition history))) (\<lambda>partitions.
        checkParallel model (map (\<lambda>subhistory. convertEntries (renumber subhistory)) partitions) verbose kill arrivals))"

definition checkOperations ::
  "('v pentry list \<Rightarrow> 'v pentry list) \<Rightarrow> ('v, 's) Model \<Rightarrow> 'v Operation list \<Rightarrow> bool \<Rightarrow> (nat \<Rightarrow> nat \<Rightarrow> bool) \<Rightarrow>
   arrival list \<Rightarrow> (CheckResult \<times> 'v linearizationInfo) outcome" where
  "checkOperations sort_entries model history verbose kill arrivals =
     (let model = fillDefault model in
      obind (or_panic (Option.bind (Partition model) (\<lambda>partition. partition history))) (\<lambda>partitions.
        checkParallel model (map (makeEntries sort_entries) partitions) verbose kill arrivals))"

text \<open>The functions of porcupine.go. With the timeout 0 no timeout arrives.\<close>

definition CheckOperations ::
  "('v pentry list \<Rightarrow> 'v pentry list) \<Rightarrow> ('v, 's) Model \<Rightarrow> 'v Operation list \<Rightarrow> (nat \<Rightarrow> nat \<Rightarrow> bool) \<Rightarrow> nat list \<Rightarrow> bool outcome" where
  "CheckOperations sort_entries model history kill arrivals =
     obind (checkOperations sort_entries model history False kill (map Result arrivals)) (\<lambda>(res, _). Next (res = Ok))"

definition CheckOperationsTimeout ::
  "('v pentry list \<Rightarrow> 'v pentry list) \<Rightarrow> ('v, 's) Model \<Rightarrow> 'v Operation list \<Rightarrow> (nat \<Rightarrow> nat \<Rightarrow> bool) \<Rightarrow> arrival list \<Rightarrow> CheckResult outcome" where
  "CheckOperationsTimeout sort_entries model history kill arrivals =
     obind (checkOperations sort_entries model history False kill arrivals) (\<lambda>(res, _). Next res)"

definition CheckOperationsVerbose ::
  "('v pentry list \<Rightarrow> 'v pentry list) \<Rightarrow> ('v, 's) Model \<Rightarrow> 'v Operation list \<Rightarrow> (nat \<Rightarrow> nat \<Rightarrow> bool) \<Rightarrow> arrival list \<Rightarrow>
   (CheckResult \<times> 'v linearizationInfo) outcome" where
  "CheckOperationsVerbose sort_entries model history kill arrivals =
     checkOperations sort_entries model history True kill arrivals"

definition CheckEvents :: "('v, 's) Model \<Rightarrow> 'v Event list \<Rightarrow> (nat \<Rightarrow> nat \<Rightarrow> bool) \<Rightarrow> nat list \<Rightarrow> bool outcome" where
  "CheckEvents model history kill arrivals =
     obind (checkEvents model history False kill (map Result arrivals)) (\<lambda>(res, _). Next (res = Ok))"

definition CheckEventsTimeout ::
  "('v, 's) Model \<Rightarrow> 'v Event list \<Rightarrow> (nat \<Rightarrow> nat \<Rightarrow> bool) \<Rightarrow> arrival list \<Rightarrow> CheckResult outcome" where
  "CheckEventsTimeout model history kill arrivals =
     obind (checkEvents model history False kill arrivals) (\<lambda>(res, _). Next res)"

definition CheckEventsVerbose ::
  "('v, 's) Model \<Rightarrow> 'v Event list \<Rightarrow> (nat \<Rightarrow> nat \<Rightarrow> bool) \<Rightarrow> arrival list \<Rightarrow> (CheckResult \<times> 'v linearizationInfo) outcome" where
  "CheckEventsVerbose model history kill arrivals = checkEvents model history True kill arrivals"

end
