(* ===== verification/Porcupine_List.thy ===== *)
theory Porcupine_List
  imports Porcupine_Checker
begin

text \<open>
  The doubly linked list of the checker. A segment of the heap is described by the list of its
  addresses; removing a node keeps the node's own pointers, so that re-inserting it restores
  the heap exactly. \<open>makeLinkedEntries\<close> builds the list of all entries, \<open>lift\<close> removes a call and
  its return, and \<open>unlift\<close> undoes \<open>lift\<close>.
\<close>

section \<open>Segments\<close>

definition first :: "nat list \<Rightarrow> nat option \<Rightarrow> nat option" where
  "first xs n = (case xs of [] \<Rightarrow> n | x # _ \<Rightarrow> Some x)"

definition final :: "nat option \<Rightarrow> nat list \<Rightarrow> nat option" where
  "final p xs = (if xs = [] then p else Some (last xs))"

fun seg :: "'v nodes \<Rightarrow> nat option \<Rightarrow> nat list \<Rightarrow> nat option \<Rightarrow> bool" where
  "seg h p [] n \<longleftrightarrow> True"
| "seg h p (x # xs) n \<longleftrightarrow>
     x < length h \<and> nd_prev (h ! x) = p \<and> nd_next (h ! x) = first xs n \<and> seg h (Some x) xs n"

lemma first_simps [simp]: "first [] n = n" "first (x # xs) n = Some x" "first (xs @ ys) n = first xs (first ys n)"
  by (auto simp: first_def split: list.splits)

lemma final_simps [simp]: "final p [] = p" "final p (x # xs) = final (Some x) xs" "final p (xs @ ys) = final (final p xs) ys"
  by (auto simp: final_def)

lemma seg_append [simp]:
  "seg h p (xs @ ys) n \<longleftrightarrow> seg h p xs (first ys n) \<and> seg h (final p xs) ys n"
  by (induction xs arbitrary: p) auto

lemma seg_cong:
  assumes "seg h p xs n" "length h \<le> length h'" "\<And>x. x \<in> set xs \<Longrightarrow> nd_prev (h' ! x) = nd_prev (h ! x) \<and> nd_next (h' ! x) = nd_next (h ! x)"
  shows "seg h' p xs n"
  using assms by (induction xs arbitrary: p) auto

lemma seg_bound: "seg h p xs n \<Longrightarrow> set xs \<subseteq> {..<length h}"
  by (induction xs arbitrary: p) auto

lemma set_next_length [simp]: "length (set_next h a q) = length h"
  by (simp add: set_next_def)

lemma set_prev_length [simp]: "length (set_prev h a q) = length h"
  by (simp add: set_prev_def)

lemma set_next_nth: "a < length h \<Longrightarrow> set_next h a q ! x = (if x = a then (h ! a)\<lparr>nd_next := q\<rparr> else h ! x)"
  by (simp add: set_next_def nth_list_update)

lemma set_prev_nth: "a < length h \<Longrightarrow> set_prev h a q ! x = (if x = a then (h ! a)\<lparr>nd_prev := q\<rparr> else h ! x)"
  by (simp add: set_prev_def nth_list_update)

lemmas set_nth = set_next_nth set_prev_nth

section \<open>Removing and restoring a node\<close>

definition unlink :: "'v nodes \<Rightarrow> nat \<Rightarrow> 'v nodes option" where
  "unlink h a = do {
     p \<leftarrow> nd_prev (h ! a);
     let h = set_next h p (nd_next (h ! a));
     (case nd_next (h ! a) of None \<Rightarrow> Some h | Some m \<Rightarrow> Some (set_prev h m (nd_prev (h ! a))))
   }"

definition relink :: "'v nodes \<Rightarrow> nat \<Rightarrow> 'v nodes option" where
  "relink h a = do {
     p \<leftarrow> nd_prev (h ! a);
     let h = set_next h p (Some a);
     (case nd_next (h ! a) of None \<Rightarrow> Some h | Some m \<Rightarrow> Some (set_prev h m (Some a)))
   }"

text \<open>The fields that the list operations never write.\<close>

definition same_data :: "'v nodes \<Rightarrow> 'v nodes \<Rightarrow> bool" where
  "same_data h h' \<longleftrightarrow> length h' = length h \<and>
     (\<forall>a. nd_value (h' ! a) = nd_value (h ! a) \<and> nd_match (h' ! a) = nd_match (h ! a) \<and> nd_id (h' ! a) = nd_id (h ! a))"

lemma same_data_refl [simp]: "same_data h h"
  by (simp add: same_data_def)

lemma same_data_trans: "same_data h h' \<Longrightarrow> same_data h' h'' \<Longrightarrow> same_data h h''"
  by (simp add: same_data_def)

lemma unlink_spec:
  assumes "seg h None (xs @ b # a # ys) None" "distinct (xs @ b # a # ys)"
  shows "\<exists>h'. unlink h a = Some h' \<and> seg h' None (xs @ b # ys) None \<and> relink h' a = Some h \<and>
    h' ! a = h ! a \<and> same_data h h'"
proof (cases ys)
  case Nil
  let ?h = "set_next h b None"
  from assms Nil have seg: "seg h None xs (Some b)" "b < length h" "a < length h"
    "nd_prev (h ! b) = final None xs" "nd_next (h ! b) = Some a" "nd_prev (h ! a) = Some b" "nd_next (h ! a) = None"
    and d: "a \<noteq> b" "a \<notin> set xs" "b \<notin> set xs" by auto
  have "seg ?h None xs (Some b)"
    by (rule seg_cong [OF seg(1)]) (use seg d in \<open>auto simp: set_nth\<close>)
  moreover have "set_next ?h b (Some a) = h"
    using seg by (intro nth_equalityI) (auto simp: set_nth)
  ultimately show ?thesis
    using seg d Nil by (auto simp: unlink_def relink_def set_nth same_data_def)
next
  case (Cons c zs)
  let ?h = "set_prev (set_next h b (Some c)) c (Some b)"
  from assms Cons have seg: "seg h None xs (Some b)" "b < length h" "a < length h" "c < length h"
    "nd_prev (h ! b) = final None xs" "nd_next (h ! b) = Some a" "nd_prev (h ! a) = Some b" "nd_next (h ! a) = Some c"
    "nd_prev (h ! c) = Some a" "nd_next (h ! c) = first zs None" "seg h (Some c) zs None"
    and d: "a \<noteq> b" "a \<noteq> c" "b \<noteq> c" "a \<notin> set xs" "b \<notin> set xs" "c \<notin> set xs" "a \<notin> set zs" "b \<notin> set zs" "c \<notin> set zs" by auto
  have "seg ?h None xs (Some b)"
    by (rule seg_cong [OF seg(1)]) (use seg d in \<open>auto simp: set_nth\<close>)
  moreover have "seg ?h (Some c) zs None"
    by (rule seg_cong [OF seg(11)]) (use seg d in \<open>auto simp: set_nth\<close>)
  moreover have "set_prev (set_next ?h b (Some a)) c (Some a) = h"
    using seg d by (intro nth_equalityI) (auto simp: set_nth)
  ultimately show ?thesis
    using seg d Cons by (auto simp: unlink_def relink_def set_nth same_data_def)
qed

lemma lift_unlink:
  assumes "nd_prev (h ! e) = Some b" "nd_next (h ! e) = Some c" "nd_match (h ! e) = Some m"
    "e \<noteq> b" "e \<noteq> c" "b < length h" "c < length h"
  shows "lift h e = Option.bind (unlink h e) (\<lambda>h1. unlink h1 m)"
proof -
  have "unlink h e = Some (set_prev (set_next h b (Some c)) c (Some b))"
    using assms by (simp add: unlink_def set_nth)
  then show ?thesis
    using assms by (simp add: lift_def set_nth) (simp add: unlink_def set_nth)
qed

lemma unlift_relink:
  assumes "relink h m = Some h1" "nd_match (h ! e) = Some m" "relink h1 e = Some h2"
    "nd_next (h1 ! e) = Some c" "nd_prev (h1 ! e) = Some b" "b < length h1" "e \<noteq> b"
  shows "unlift h e = Some h2"
  using assms
  by (auto simp: relink_def unlift_def bind_Some_iff Let_def set_nth split: option.splits)

text \<open>
  \<open>lift\<close> removes a call and its return from the list, and \<open>unlift\<close> restores the heap as it was.
\<close>

lemma lift_spec:
  assumes seg: "seg h None (xs @ b # e # ys @ m # zs) None" and d: "distinct (xs @ b # e # ys @ m # zs)"
    and m: "nd_match (h ! e) = Some m"
  shows "\<exists>h'. lift h e = Some h' \<and> seg h' None (xs @ b # ys @ zs) None \<and> unlift h' e = Some h \<and> same_data h h'"
proof -
  have "seg h None (xs @ b # e # (ys @ m # zs)) None" "distinct (xs @ b # e # (ys @ m # zs))"
    using seg d by simp_all
  from unlink_spec [OF this] obtain h1 where h1: "unlink h e = Some h1" "seg h1 None (xs @ b # ys @ m # zs) None"
    "relink h1 e = Some h" "h1 ! e = h ! e" "same_data h h1" by auto
  obtain us u where us: "xs @ b # ys = us @ [u]" by (metis append_butlast_last_id snoc_eq_iff_butlast append_is_Nil_conv list.distinct(1))
  then have eq: "us @ u # m # zs = xs @ b # ys @ m # zs"
    by (metis append.assoc append_Cons append_Nil)
  have "seg h1 None (us @ u # m # zs) None" "distinct (us @ u # m # zs)"
    unfolding eq using h1(2) d by simp_all
  from unlink_spec [OF this] obtain h2 where h2: "unlink h1 m = Some h2" "seg h2 None (us @ u # zs) None"
    "relink h2 m = Some h1" "h2 ! m = h1 ! m" "same_data h1 h2" by auto
  have "us @ u # zs = xs @ b # ys @ zs"
    using us by (metis append.assoc append_Cons append_Nil)
  with h2(2) have seg2: "seg h2 None (xs @ b # ys @ zs) None" by simp
  obtain c where c: "nd_prev (h ! e) = Some b" "nd_next (h ! e) = Some c" "c \<in> set (ys @ [m])" "b < length h" "c < length h"
    using seg by (cases ys) auto
  with d have ne: "e \<noteq> b" "e \<noteq> c" by auto
  have "lift h e = Some h2"
    by (simp add: lift_unlink [OF c(1,2) m ne c(4,5)] h1 h2)
  moreover have "nd_match (h2 ! e) = Some m"
    using h1(5) h2(5) m by (simp add: same_data_def)
  then have "unlift h2 e = Some h"
    using h1 c ne by (intro unlift_relink [OF h2(3)]) (auto simp: same_data_def)
  ultimately show ?thesis
    using seg2 same_data_trans [OF h1(5) h2(5)] by blast
qed

section \<open>Building the list\<close>

lemma insertBefore_new:
  assumes "length h = k" "seg h None (rev [0..<k]) None" "nd_next x = None" "nd_prev x = None"
    and root: "root = (if k = 0 then None else Some (k - 1))"
  shows "seg (insertBefore (h @ [x]) k root) None (rev [0..<Suc k]) None \<and>
    same_data (h @ [x]) (insertBefore (h @ [x]) k root)"
proof (cases k)
  case 0
  then show ?thesis using assms by (simp add: insertBefore_def)
next
  case (Suc j)
  let ?h = "set_next (set_prev (h @ [x]) j (Some k)) k (Some j)"
  from Suc assms have j: "nd_prev (h ! j) = None" "nd_next (h ! j) = first (rev [0..<j]) None" "seg h (Some j) (rev [0..<j]) None" "length h = Suc j"
    by simp_all
  have "root = Some j" "nd_prev ((h @ [x]) ! j) = None" using Suc root j by (simp_all add: nth_append)
  then have ib: "insertBefore (h @ [x]) k root = ?h"
    by (simp add: insertBefore_def)
  have "seg ?h (Some j) (rev [0..<j]) None"
    by (rule seg_cong [OF j(3)]) (use Suc j in \<open>auto simp: set_nth nth_append\<close>)
  then show ?thesis
    unfolding ib using Suc j assms by (auto simp: set_nth nth_append same_data_def)
qed

text \<open>
  The nodes of the list stand for the entries in reverse order: address \<open>a\<close> holds entry \<open>a\<close> from
  the end. The map \<open>match\<close> yields a return that was visited before, if there is one.
\<close>

definition latest :: "'v pentry list \<Rightarrow> nat \<Rightarrow> int \<Rightarrow> nat option \<Rightarrow> bool" where
  "latest r k i q \<longleftrightarrow>
     (case q of
        None \<Rightarrow> \<not> (\<exists>m<k. en_return (r ! m) \<and> en_id (r ! m) = i)
      | Some m \<Rightarrow> m < k \<and> en_return (r ! m) \<and> en_id (r ! m) = i)"

definition holds_entry :: "'v nodes \<Rightarrow> 'v pentry list \<Rightarrow> nat \<Rightarrow> bool" where
  "holds_entry h r a \<longleftrightarrow>
     nd_value (h ! a) = Some (en_value (r ! a)) \<and> nd_id (h ! a) = en_id (r ! a) \<and>
     (if en_return (r ! a) then nd_match (h ! a) = None else latest r a (en_id (r ! a)) (nd_match (h ! a)))"

definition built :: "'v nodes \<Rightarrow> 'v pentry list \<Rightarrow> nat \<Rightarrow> bool" where
  "built h r k \<longleftrightarrow> length h = k \<and> k \<le> length r \<and> seg h None (rev [0..<k]) None \<and> (\<forall>a<k. holds_entry h r a)"

lemma holds_entry_same_data: "same_data h h' \<Longrightarrow> holds_entry h' r a \<longleftrightarrow> holds_entry h r a"
  by (simp add: same_data_def holds_entry_def)

definition top_addr :: "nat \<Rightarrow> nat option" where
  "top_addr k = (if k = 0 then None else Some (k - 1))"

lemma built_step:
  assumes "built h r k" "k < length r" "nd_next x = None" "nd_prev x = None" "holds_entry ((h @ [x])) r k"
  shows "built (insertBefore (h @ [x]) k (top_addr k)) r (Suc k)"
proof -
  from assms(1) have h: "length h = k" "seg h None (rev [0..<k]) None" "\<And>a. a < k \<Longrightarrow> holds_entry h r a"
    by (simp_all add: built_def)
  note ib = insertBefore_new [OF h(1,2) assms(3,4) top_addr_def]
  have "holds_entry (h @ [x]) r a" if "a < Suc k" for a
  proof (cases "a = k")
    case False
    with that h(3) [of a] h(1) show ?thesis by (simp add: holds_entry_def nth_append)
  qed (use assms(5) in simp)
  moreover have "length (insertBefore (h @ [x]) k (top_addr k)) = Suc k"
    using ib h(1) by (simp add: same_data_def)
  ultimately show ?thesis
    using ib assms(2) by (simp add: built_def holds_entry_same_data [OF conjunct2 [OF ib]])
qed

lemma link_loop_built:
  assumes "built h r k" "es = drop k r" "\<And>i. latest r k i (match i)"
  shows "\<exists>h'. link_loop es h (top_addr k) match = (h', top_addr (length r)) \<and> built h' r (length r)"
  using assms
proof (induction es arbitrary: h k match)
  case Nil
  then show ?case by (auto simp: built_def)
next
  case (Cons e es)
  from Cons.prems(2) have "k < length r" by (metis drop_eq_Nil list.distinct(1) not_le)
  with Cons.prems(2) Cons_nth_drop_Suc [OF this] have "e # es = r ! k # drop (Suc k) r" by simp
  with \<open>k < length r\<close> Cons.prems(1)
  have k: "k < length r" "e = r ! k" "es = drop (Suc k) r" "length h = k"
    by (simp_all add: built_def)
  have top: "top_addr (Suc k) = Some k" by (simp add: top_addr_def)
  show ?case
  proof (cases "en_return e")
    case True
    let ?x = "\<lparr>nd_value = Some (en_value e), nd_match = None, nd_id = en_id e, nd_next = None, nd_prev = None\<rparr>"
    have "built (insertBefore (h @ [?x]) k (top_addr k)) r (Suc k)"
      using k True by (intro built_step [OF Cons.prems(1)]) (auto simp: holds_entry_def nth_append)
    moreover have "latest r (Suc k) i ((match(en_id e \<mapsto> k)) i)" for i
      using Cons.prems(3) [of i] k True by (auto simp: latest_def less_Suc_eq split: option.splits)
    ultimately show ?thesis
      using Cons.IH [OF _ k(3)] True by (simp add: k(4) top)
  next
    case False
    let ?x = "\<lparr>nd_value = Some (en_value e), nd_match = match (en_id e), nd_id = en_id e, nd_next = None, nd_prev = None\<rparr>"
    have "built (insertBefore (h @ [?x]) k (top_addr k)) r (Suc k)"
      using k False Cons.prems(3) [of "en_id e"] by (intro built_step [OF Cons.prems(1)]) (auto simp: holds_entry_def nth_append)
    moreover have "latest r (Suc k) i (match i)" for i
      using Cons.prems(3) [of i] k False by (auto simp: latest_def less_Suc_eq split: option.splits)
    ultimately show ?thesis
      using Cons.IH [OF _ k(3)] False by (simp add: k(4) top)
  qed
qed

lemma makeLinkedEntries_built:
  obtains h where "makeLinkedEntries es = (h, top_addr (length es))" "built h (rev es) (length es)"
proof -
  have "built ([] :: 'a nodes) (rev es) 0" by (simp add: built_def)
  from link_loop_built [OF this, of "rev es" Map.empty] show ?thesis
    by (auto simp: makeLinkedEntries_def latest_def top_addr_def intro: that)
qed

lemma length_loop_seg: "seg h p xs None \<Longrightarrow> length_loop h (first xs None) l = Some (l + length xs)"
proof (induction xs arbitrary: p l)
  case Nil
  then show ?case by (simp add: length_loop.simps)
next
  case (Cons x xs)
  then show ?case by (subst length_loop.simps) (auto simp: Cons.IH)
qed

end
