(* ===== verification/Linearizability.thy ===== *)
theory Linearizability
  imports Main
begin

text \<open>
  What it means for a finite set of operations to be linearizable: there is an order of all
  operations that respects the real-time order and that the sequential specification can run
  from its initial state. The definitions do not refer to the checker. A set of operations that
  are already ordered can be completed if the others have such an order; the search of the
  checker decides that step by step.
\<close>

record 's problem =
  pb_ops :: "int set"
  pb_step :: "int \<Rightarrow> 's \<Rightarrow> (bool \<times> 's) option"
  pb_prec :: "int \<Rightarrow> int \<Rightarrow> bool"
  pb_init :: 's

fun run :: "('i \<Rightarrow> 's \<Rightarrow> (bool \<times> 's) option) \<Rightarrow> 's \<Rightarrow> 'i list \<Rightarrow> 's option" where
  "run step s [] = Some s"
| "run step s (i # is) =
     (case step i s of Some (True, s') \<Rightarrow> run step s' is | _ \<Rightarrow> None)"

text \<open>\<open>prec j i\<close>: the operation \<open>j\<close> returned before \<open>i\<close> was called.\<close>

definition obeys :: "('i \<Rightarrow> 'i \<Rightarrow> bool) \<Rightarrow> 'i list \<Rightarrow> bool" where
  "obeys prec is \<longleftrightarrow> sorted_wrt (\<lambda>i j. \<not> prec j i) is"

definition linearization :: "'s problem \<Rightarrow> int list \<Rightarrow> bool" where
  "linearization P is \<longleftrightarrow> distinct is \<and> set is = pb_ops P \<and> obeys (pb_prec P) is \<and>
     run (pb_step P) (pb_init P) is \<noteq> None"

definition linearizable :: "'s problem \<Rightarrow> bool" where
  "linearizable P \<longleftrightarrow> (\<exists>is. linearization P is)"

definition completable :: "'s problem \<Rightarrow> int set \<Rightarrow> 's \<Rightarrow> bool" where
  "completable P L s \<longleftrightarrow> (\<exists>is. distinct is \<and> set is = pb_ops P - L \<and> obeys (pb_prec P) is \<and> run (pb_step P) s is \<noteq> None)"

text \<open>The operations that may come next after those in \<open>L\<close>.\<close>

definition may_follow :: "'s problem \<Rightarrow> int set \<Rightarrow> int \<Rightarrow> bool" where
  "may_follow P L i \<longleftrightarrow> i \<in> pb_ops P - L \<and> (\<forall>j \<in> pb_ops P - L. j \<noteq> i \<longrightarrow> \<not> pb_prec P j i)"

lemma linearizable_completable: "linearizable P \<longleftrightarrow> completable P {} (pb_init P)"
  by (simp add: linearizable_def linearization_def completable_def)

lemma completable_all: "pb_ops P \<subseteq> L \<Longrightarrow> completable P L s"
  by (auto simp: completable_def obeys_def intro!: exI [of _ "[]"])

lemma completable_insert:
  assumes "may_follow P L i" "pb_step P i s = Some (True, s')" "completable P (insert i L) s'"
  shows "completable P L s"
proof -
  from assms(3) obtain "is" where "is": "distinct is" "set is = pb_ops P - insert i L" "obeys (pb_prec P) is" "run (pb_step P) s' is \<noteq> None"
    by (auto simp: completable_def)
  have "obeys (pb_prec P) (i # is)"
    using assms(1) "is"(2,3) by (auto simp: obeys_def may_follow_def)
  moreover have "set (i # is) = pb_ops P - L" "distinct (i # is)"
    using assms(1) "is"(1,2) by (auto simp: may_follow_def)
  moreover have "run (pb_step P) s (i # is) \<noteq> None"
    using assms(2) "is"(4) by simp
  ultimately show ?thesis unfolding completable_def by blast
qed

lemma completable_cases:
  assumes "completable P L s" "\<not> pb_ops P \<subseteq> L"
  obtains i s' where "may_follow P L i" "pb_step P i s = Some (True, s')" "completable P (insert i L) s'"
proof -
  from assms(1) obtain "is" where "is": "distinct is" "set is = pb_ops P - L" "obeys (pb_prec P) is" "run (pb_step P) s is \<noteq> None"
    by (auto simp: completable_def)
  with assms(2) obtain i js where js: "is = i # js" by (cases "is") auto
  from "is"(4) js obtain s' where s': "pb_step P i s = Some (True, s')" "run (pb_step P) s' js \<noteq> None"
    by (auto split: option.splits bool.splits)
  have "may_follow P L i"
    unfolding may_follow_def using "is"(1-3) js by (auto simp: obeys_def set_eq_iff)
  moreover have "set js = pb_ops P - insert i L" using "is"(1,2) js by auto
  then have "completable P (insert i L) s'"
    unfolding completable_def using "is"(1,3) js s'(2) by (auto simp: obeys_def)
  ultimately show ?thesis using s'(1) that by blast
qed

section \<open>States that behave alike\<close>

text \<open>
  The contract of the equality on states that a model provides: it is reflexive, and states it
  takes for equal allow the same steps, which lead to states it takes for equal.
\<close>

locale state_equality =
  fixes step :: "'s \<Rightarrow> 'v \<Rightarrow> 'v \<Rightarrow> (bool \<times> 's) option" and eq :: "'s \<Rightarrow> 's \<Rightarrow> bool"
  assumes eq_refl: "eq s s"
    and eq_step: "eq s t \<Longrightarrow> rel_option (rel_prod (=) eq) (step s inp out) (step t inp out)"
begin

lemma run_eq:
  assumes "eq s t" "run (\<lambda>i s. step s (inp i) (out i)) s is \<noteq> None"
  shows "run (\<lambda>i s. step s (inp i) (out i)) t is \<noteq> None"
  using assms
proof (induction "is" arbitrary: s t)
  case (Cons i js)
  then obtain s' where s': "step s (inp i) (out i) = Some (True, s')"
    by (auto split: option.splits bool.splits)
  with eq_step [OF Cons.prems(1), of "inp i" "out i"] obtain t' where "step t (inp i) (out i) = Some (True, t')" "eq s' t'"
    by (auto simp: option_rel_Some1 rel_prod_sel)
  with Cons s' show ?case by auto
qed simp

lemma completable_eq:
  assumes "eq s t" "pb_step P = (\<lambda>i s. step s (inp i) (out i))" "completable P L s"
  shows "completable P L t"
  using assms(3) run_eq [OF assms(1)] unfolding completable_def assms(2) by blast

end

end
