(* ===== verification/Porcupine_Search.thy ===== *)
theory Porcupine_Search
  imports Porcupine_List Linearizability
begin

text \<open>
  The search \<open>checkSingle\<close> decides linearizability. The invariant of its loop: the stack of calls
  is a partial linearization; the linked list holds the entries of the other operations; the
  operations tried before the current entry lead nowhere; and a cached pair of a set of
  operations and a state either leads nowhere or lies on the stack. The loop ends because a pair
  is pushed at most once.
\<close>

section \<open>Entries of a history\<close>

definition tag :: "'v pentry \<Rightarrow> bool \<times> int" where
  "tag e = (en_return e, en_id e)"

text \<open>
  The entries of \<open>n\<close> operations: each operation has one call entry and one later return entry,
  with its input and its output.
\<close>

definition entries_of :: "'v pentry list \<Rightarrow> nat \<Rightarrow> (int \<Rightarrow> 'v) \<Rightarrow> (int \<Rightarrow> 'v) \<Rightarrow> bool" where
  "entries_of es n inp out \<longleftrightarrow>
     distinct (map tag es) \<and> set (map tag es) = UNIV \<times> {0..<int n} \<and>
     (\<forall>e \<in> set es. en_value e = (if en_return e then out (en_id e) else inp (en_id e))) \<and>
     (\<forall>p q. p < q \<longrightarrow> q < length es \<longrightarrow> en_return (es ! p) \<longrightarrow> \<not> en_return (es ! q) \<longrightarrow> en_id (es ! p) \<noteq> en_id (es ! q))"

definition returns_before :: "'v pentry list \<Rightarrow> int \<Rightarrow> int \<Rightarrow> bool" where
  "returns_before es j i \<longleftrightarrow> (\<exists>p q. p < q \<and> q < length es \<and> tag (es ! p) = (True, j) \<and> tag (es ! q) = (False, i))"

definition entries_problem :: "('v, 's) Model \<Rightarrow> 'v pentry list \<Rightarrow> nat \<Rightarrow> (int \<Rightarrow> 'v) \<Rightarrow> (int \<Rightarrow> 'v) \<Rightarrow> 's problem" where
  "entries_problem model es n inp out =
     \<lparr>pb_ops = {0..<int n}, pb_step = (\<lambda>i s. Step model s (inp i) (out i)),
      pb_prec = returns_before es, pb_init = Init model\<rparr>"

text \<open>The same facts by address: the entries in reverse order.\<close>

definition reversed_entries :: "'v pentry list \<Rightarrow> 's problem \<Rightarrow> bool" where
  "reversed_entries r P \<longleftrightarrow>
     distinct (map tag r) \<and> set (map tag r) = UNIV \<times> pb_ops P \<and> finite (pb_ops P) \<and>
     (\<forall>j i. pb_prec P j i \<longleftrightarrow> (\<exists>a b. b < a \<and> a < length r \<and> tag (r ! a) = (True, j) \<and> tag (r ! b) = (False, i))) \<and>
     (\<forall>i. \<not> pb_prec P i i)"

lemma reversed_entries_rev:
  assumes "entries_of es n inp out"
  shows "reversed_entries (rev es) (entries_problem model es n inp out)"
proof -
  let ?N = "length es"
  have prec: "returns_before es j i \<longleftrightarrow> (\<exists>a b. b < a \<and> a < ?N \<and> tag (rev es ! a) = (True, j) \<and> tag (rev es ! b) = (False, i))" for i j
  proof
    assume "returns_before es j i"
    then obtain p q where "p < q" "q < ?N" "tag (es ! p) = (True, j)" "tag (es ! q) = (False, i)"
      by (auto simp: returns_before_def)
    then show "\<exists>a b. b < a \<and> a < ?N \<and> tag (rev es ! a) = (True, j) \<and> tag (rev es ! b) = (False, i)"
      by (intro exI [of _ "?N - Suc p"] exI [of _ "?N - Suc q"]) (auto simp: rev_nth)
  next
    assume "\<exists>a b. b < a \<and> a < ?N \<and> tag (rev es ! a) = (True, j) \<and> tag (rev es ! b) = (False, i)"
    then obtain a b where "b < a" "a < ?N" "tag (rev es ! a) = (True, j)" "tag (rev es ! b) = (False, i)" by blast
    then show "returns_before es j i"
      unfolding returns_before_def
      by (intro exI [of _ "?N - Suc a"] exI [of _ "?N - Suc b"]) (auto simp: rev_nth)
  qed
  have "\<not> returns_before es i i" for i
    using assms unfolding returns_before_def entries_of_def tag_def by (metis prod.inject)
  with assms show ?thesis
    by (simp add: reversed_entries_def entries_problem_def prec entries_of_def rev_map [symmetric])
qed

lemma tag_inj:
  assumes "reversed_entries r P" "a < length r" "b < length r" "tag (r ! a) = tag (r ! b)"
  shows "a = b"
  using assms nth_eq_iff_index_eq [of "map tag r" a b] by (auto simp: reversed_entries_def)

lemma tag_ex:
  assumes "reversed_entries r P" "i \<in> pb_ops P"
  obtains a where "a < length r" "tag (r ! a) = (k, i)"
proof -
  have "(k, i) \<in> set (map tag r)" using assms by (auto simp: reversed_entries_def)
  then obtain a where "a < length r" "(k, i) = tag (r ! a)" by (auto simp: in_set_conv_nth)
  with that show ?thesis by metis
qed

lemma id_ops: "reversed_entries r P \<Longrightarrow> a < length r \<Longrightarrow> en_id (r ! a) \<in> pb_ops P"
  using nth_mem [of a "map tag r"] by (auto simp: reversed_entries_def tag_def)

text \<open>A return has a lower address than its call.\<close>

lemma return_below:
  assumes R: "reversed_entries r P" and "a < length r" "b < length r" "\<not> en_return (r ! a)" "en_return (r ! b)" "en_id (r ! a) = en_id (r ! b)"
  shows "b < a"
proof -
  have "\<not> pb_prec P (en_id (r ! a)) (en_id (r ! a))" using R unfolding reversed_entries_def by blast
  moreover have "pb_prec P (en_id (r ! a)) (en_id (r ! a))" if "a < b"
    using R assms that unfolding reversed_entries_def tag_def by blast
  moreover have "a \<noteq> b" using assms by auto
  ultimately show ?thesis by linarith
qed

section \<open>The live entries\<close>

definition alive :: "'v pentry list \<Rightarrow> int set \<Rightarrow> nat list" where
  "alive r L = rev (filter (\<lambda>a. en_id (r ! a) \<notin> L) [0..<length r])"

lemma alive_iff: "a \<in> set (alive r L) \<longleftrightarrow> a < length r \<and> en_id (r ! a) \<notin> L"
  by (auto simp: alive_def)

lemma alive_distinct: "distinct (alive r L)"
  by (simp add: alive_def)

lemma alive_descending: "sorted_wrt (\<lambda>a b. b < a) (alive r L)"
  by (simp add: alive_def sorted_wrt_rev sorted_wrt_filter)

lemma alive_split:
  assumes "alive r L = xs @ a # ys"
  shows "set xs = {b \<in> set (alive r L). a < b}" "set ys = {b \<in> set (alive r L). b < a}"
  using alive_descending [of r L] unfolding assms by (auto simp: sorted_wrt_append)

lemma alive_insert: "alive r (insert i L) = filter (\<lambda>a. en_id (r ! a) \<noteq> i) (alive r L)"
  by (simp add: alive_def rev_filter [symmetric] conj_commute)

lemma alive_lift:
  assumes R: "reversed_entries r P" and e: "alive r L = xs @ e # ys @ m # zs"
    and tags: "tag (r ! e) = (False, i)" "tag (r ! m) = (True, i)"
  shows "alive r (insert i L) = xs @ ys @ zs"
proof -
  have "en_id (r ! a) \<noteq> i" if "a \<in> set (xs @ ys @ zs)" for a
  proof
    assume i: "en_id (r ! a) = i"
    have mem: "a < length r" "e < length r" "m < length r"
      using that e alive_iff [of _ r L] by auto
    have ne: "a \<noteq> e" "a \<noteq> m" using that alive_distinct [of r L] e by auto
    have "tag (r ! a) = tag (r ! e) \<or> tag (r ! a) = tag (r ! m)"
      using i tags by (cases "en_return (r ! a)") (auto simp: tag_def)
    with tag_inj [OF R mem(1)] mem ne show False by blast
  qed
  then show ?thesis
    using tags by (simp add: alive_insert e tag_def filter_id_conv)
qed

text \<open>The operations before the first live return are those that may come next.\<close>

lemma call_may_follow:
  assumes R: "reversed_entries r P" and a: "a \<in> set (alive r L)" "\<not> en_return (r ! a)"
    and calls: "\<And>b. b \<in> set (alive r L) \<Longrightarrow> a < b \<Longrightarrow> \<not> en_return (r ! b)"
  shows "may_follow P L (en_id (r ! a))"
proof -
  have "\<not> pb_prec P j (en_id (r ! a))" if j: "j \<in> pb_ops P - L" for j
  proof
    assume "pb_prec P j (en_id (r ! a))"
    with R obtain b c where bc: "c < b" "b < length r" "tag (r ! b) = (True, j)" "tag (r ! c) = (False, en_id (r ! a))"
      unfolding reversed_entries_def by blast
    have "c = a" using tag_inj [OF R, of c a] bc a by (auto simp: tag_def alive_iff)
    with calls [of b] bc j show False by (auto simp: tag_def alive_iff)
  qed
  with a id_ops [OF R, of a] show ?thesis by (auto simp: may_follow_def alive_iff)
qed

lemma follower_above:
  assumes R: "reversed_entries r P" and a: "a \<in> set (alive r L)" "en_return (r ! a)" and i: "may_follow P L i"
  obtains b where "b \<in> set (alive r L)" "a < b" "tag (r ! b) = (False, i)"
proof -
  from i have "i \<in> pb_ops P" "i \<notin> L" by (auto simp: may_follow_def)
  then obtain b where b: "b < length r" "tag (r ! b) = (False, i)" using tag_ex [OF R] by metis
  have "a < b"
  proof (cases "en_id (r ! a) = i")
    case True
    with return_below [OF R b(1), of a] a b show ?thesis by (auto simp: alive_iff tag_def)
  next
    case False
    have "en_id (r ! a) \<in> pb_ops P - L" using a id_ops [OF R] by (auto simp: alive_iff)
    with i False have "\<not> pb_prec P (en_id (r ! a)) i" by (auto simp: may_follow_def)
    with R a b have "\<not> b < a" unfolding reversed_entries_def alive_iff tag_def by blast
    moreover have "a \<noteq> b" using a b by (auto simp: tag_def)
    ultimately show ?thesis by simp
  qed
  with b \<open>i \<notin> L\<close> that show ?thesis by (auto simp: alive_iff tag_def)
qed

section \<open>The stack of calls\<close>

definition ids :: "'v pentry list \<Rightarrow> (nat \<times> 's) list \<Rightarrow> int list" where
  "ids r fs = map (\<lambda>(e, _). en_id (r ! e)) fs"

lemma ids_simps [simp]: "ids r [] = []" "ids r ((e, s) # fs) = en_id (r ! e) # ids r fs"
  by (simp_all add: ids_def)

lemma ids_length [simp]: "length (ids r fs) = length fs"
  by (simp add: ids_def)

text \<open>The calls above an address have been tried in a state, and lead nowhere.\<close>

definition dead_above :: "'s problem \<Rightarrow> 'v pentry list \<Rightarrow> int set \<Rightarrow> 's \<Rightarrow> nat \<Rightarrow> bool" where
  "dead_above P r L s a \<longleftrightarrow>
     (\<forall>b \<in> set (alive r L). a < b \<longrightarrow> \<not> en_return (r ! b) \<longrightarrow>
        (\<forall>s'. pb_step P (en_id (r ! b)) s = Some (True, s') \<longrightarrow> \<not> completable P (insert (en_id (r ! b)) L) s'))"

text \<open>The stack, with its top first, and the state after its calls.\<close>

fun frames :: "'s problem \<Rightarrow> 'v pentry list \<Rightarrow> (nat \<times> 's) list \<Rightarrow> 's \<Rightarrow> bool" where
  "frames P r [] s \<longleftrightarrow> s = pb_init P"
| "frames P r ((e, s1) # fs) s \<longleftrightarrow>
     e \<in> set (alive r (set (ids r fs))) \<and> \<not> en_return (r ! e) \<and>
     may_follow P (set (ids r fs)) (en_id (r ! e)) \<and>
     (\<forall>b \<in> set (alive r (set (ids r fs))). e < b \<longrightarrow> \<not> en_return (r ! b)) \<and>
     pb_step P (en_id (r ! e)) s1 = Some (True, s) \<and>
     dead_above P r (set (ids r fs)) s1 e \<and> frames P r fs s1"

fun on_path :: "'v pentry list \<Rightarrow> (nat \<times> 's) list \<Rightarrow> 's \<Rightarrow> (int set \<times> 's) set" where
  "on_path r [] s = {}"
| "on_path r ((e, s1) # fs) s = insert (set (ids r ((e, s1) # fs)), s) (on_path r fs s1)"

lemma run_append: "run step s (xs @ ys) = Option.bind (run step s xs) (\<lambda>s'. run step s' ys)"
  by (induction xs arbitrary: s) (auto split: option.splits bool.splits)

definition partial_linearization :: "'s problem \<Rightarrow> int list \<Rightarrow> bool" where
  "partial_linearization P is \<longleftrightarrow>
     distinct is \<and> set is \<subseteq> pb_ops P \<and> obeys (pb_prec P) is \<and> run (pb_step P) (pb_init P) is \<noteq> None \<and>
     (\<forall>k \<in> set is. \<forall>j \<in> pb_ops P - set is. \<not> pb_prec P j k)"

lemma frames_partial:
  assumes "reversed_entries r P" "frames P r fs s"
  shows "partial_linearization P (rev (ids r fs)) \<and> run (pb_step P) (pb_init P) (rev (ids r fs)) = Some s"
  using assms(2)
proof (induction P r fs s rule: frames.induct)
  case (1 P r s)
  then show ?case by (simp add: partial_linearization_def obeys_def)
next
  case (2 P r e s1 fs s)
  let ?i = "en_id (r ! e)"
  from 2 have IH: "partial_linearization P (rev (ids r fs))" "run (pb_step P) (pb_init P) (rev (ids r fs)) = Some s1" by auto
  from 2 have i: "?i \<in> pb_ops P" "?i \<notin> set (ids r fs)" "\<And>j. j \<in> pb_ops P \<Longrightarrow> j \<notin> set (ids r fs) \<Longrightarrow> j \<noteq> ?i \<Longrightarrow> \<not> pb_prec P j ?i"
    by (auto simp: may_follow_def)
  have "obeys (pb_prec P) (rev (ids r fs) @ [?i])"
    using IH(1) i(1,2) by (auto simp: obeys_def sorted_wrt_append partial_linearization_def)
  moreover have "run (pb_step P) (pb_init P) (rev (ids r fs) @ [?i]) = Some s"
    using 2 IH(2) by (simp add: run_append)
  ultimately show ?case
    using IH(1) i unfolding partial_linearization_def by auto
qed

lemma on_path_size: "(M, t) \<in> on_path r fs s \<Longrightarrow> card M \<le> length fs"
proof (induction r fs s rule: on_path.induct)
  case (2 r e s1 fs s)
  then show ?case
    using card_length [of "ids r ((e, s1) # fs)"] by (auto intro: le_SucI)
qed simp

lemma frames_card: "reversed_entries r P \<Longrightarrow> frames P r fs s \<Longrightarrow> card (set (ids r fs)) = length fs"
  using frames_partial [of r P fs s] by (auto simp: partial_linearization_def distinct_card)

section \<open>The heap along the stack\<close>

definition list_ok :: "'v pentry list \<Rightarrow> int set \<Rightarrow> 'v nodes \<Rightarrow> bool" where
  "list_ok r L h \<longleftrightarrow> seg h None (length r # alive r L) None \<and> (\<forall>a < length r. holds_entry h r a)"

fun heap_ok :: "'v pentry list \<Rightarrow> (nat \<times> 's) list \<Rightarrow> 'v nodes \<Rightarrow> bool" where
  "heap_ok r [] h \<longleftrightarrow> list_ok r {} h"
| "heap_ok r ((e, s) # fs) h \<longleftrightarrow>
     list_ok r (set (ids r ((e, s) # fs))) h \<and> (\<exists>h'. unlift h e = Some h' \<and> heap_ok r fs h')"

lemma heap_list_ok: "heap_ok r fs h \<Longrightarrow> list_ok r (set (ids r fs)) h"
  by (cases "(r, fs, h)" rule: heap_ok.cases) auto

lemma call_match:
  assumes R: "reversed_entries r P" and L: "list_ok r L h" and e: "e \<in> set (alive r L)" "\<not> en_return (r ! e)"
  obtains m where "nd_match (h ! e) = Some m" "m < e" "m \<in> set (alive r L)" "tag (r ! m) = (True, en_id (r ! e))"
proof -
  from e have el: "e < length r" "en_id (r ! e) \<notin> L" by (auto simp: alive_iff)
  obtain m where m: "m < length r" "tag (r ! m) = (True, en_id (r ! e))"
    using tag_ex [OF R id_ops [OF R el(1)]] by metis
  with return_below [OF R el(1) m(1) e(2)] have "m < e" by (simp add: tag_def)
  moreover have "latest r e (en_id (r ! e)) (nd_match (h ! e))"
    using L el e by (auto simp: list_ok_def holds_entry_def)
  ultimately obtain m' where "nd_match (h ! e) = Some m'" "m' < e" "en_return (r ! m')" "en_id (r ! m') = en_id (r ! e)"
    using m unfolding latest_def tag_def by (auto split: option.splits)
  with el show ?thesis by (intro that [of m']) (auto simp: alive_iff tag_def)
qed

lemma push_heap:
  assumes R: "reversed_entries r P" and H: "heap_ok r fs h" and e: "e \<in> set (alive r (set (ids r fs)))" "\<not> en_return (r ! e)"
  shows "\<exists>h'. lift h e = Some h' \<and> heap_ok r ((e, s) # fs) h'"
proof -
  let ?L = "set (ids r fs)"
  note L = heap_list_ok [OF H]
  obtain m where m: "nd_match (h ! e) = Some m" "m < e" "m \<in> set (alive r ?L)" "tag (r ! m) = (True, en_id (r ! e))"
    using call_match [OF R L e] .
  obtain xs vs where xs: "alive r ?L = xs @ e # vs" using split_list [OF e(1)] by blast
  have "m \<in> set vs" unfolding alive_split(2) [OF xs] using m(2,3) by blast
  then obtain ys zs where "vs = ys @ m # zs" using split_list [of m vs] by blast
  with xs have alive: "alive r ?L = xs @ e # ys @ m # zs" by simp
  obtain us b where us: "length r # xs = us @ [b]" by (cases "length r # xs" rule: rev_cases) simp_all
  have "us @ b # ws = length r # xs @ ws" for ws
  proof -
    have "us @ b # ws = (us @ [b]) @ ws" by simp
    also have "\<dots> = length r # xs @ ws" by (simp only: us [symmetric] append_Cons)
    finally show ?thesis .
  qed
  then have shape: "us @ b # e # ys @ m # zs = length r # alive r ?L" "us @ b # ys @ zs = length r # xs @ ys @ zs"
    by (simp_all only: alive append_Cons)
  have "distinct (length r # alive r ?L)" using alive_distinct [of r ?L] by (auto simp: alive_iff)
  then obtain h' where h': "lift h e = Some h'" "seg h' None (length r # xs @ ys @ zs) None" "unlift h' e = Some h" "same_data h h'"
    using lift_spec [of h us b e ys m zs] L m(1) unfolding shape list_ok_def by auto
  moreover have "alive r (insert (en_id (r ! e)) ?L) = xs @ ys @ zs"
    using alive_lift [OF R alive _ m(4)] e(2) by (simp add: tag_def)
  moreover have "\<forall>a<length r. holds_entry h' r a"
    using L by (simp add: list_ok_def holds_entry_same_data [OF h'(4)])
  ultimately show ?thesis using H by (simp add: list_ok_def)
qed

end
