(* ===== verification/Porcupine_Loop.thy ===== *)
theory Porcupine_Loop
  imports Porcupine_Search
begin

text \<open>
  The loop of \<open>checkSingle\<close>: every round keeps the invariant of the search and decreases a
  measure, or returns the right answer.
\<close>

section \<open>The invariant\<close>

definition search_setting ::
  "('v, 's) Model \<Rightarrow> (int \<Rightarrow> 'v) \<Rightarrow> (int \<Rightarrow> 'v) \<Rightarrow> 's problem \<Rightarrow> 'v pentry list \<Rightarrow> nat \<Rightarrow> nat \<Rightarrow> bool" where
  "search_setting model inp out P r n w \<longleftrightarrow>
     reversed_entries r P \<and> pb_ops P = {0..<int n} \<and> pb_step P = (\<lambda>i s. Step model s (inp i) (out i)) \<and>
     (\<forall>a < length r. en_value (r ! a) = (if en_return (r ! a) then out (en_id (r ! a)) else inp (en_id (r ! a)))) \<and>
     (\<forall>i \<in> pb_ops P. \<forall>s. pb_step P i s \<noteq> None) \<and>
     (\<exists>eq. Equal model = Some eq \<and> state_equality (Step model) eq) \<and> n \<le> 64 * w \<and> int n < 2 ^ 64"

definition reach :: "'s problem \<Rightarrow> (int set \<times> 's) set" where
  "reach P = {(set is, s) | is s. distinct is \<and> set is \<subseteq> pb_ops P \<and> run (pb_step P) (pb_init P) is = Some s}"

definition cached :: "'s cache \<Rightarrow> (int set \<times> 's) set" where
  "cached C = {(int ` bits b, t) | k b t. (b, t) \<in> set (C k)}"

definition cache_ok :: "'s problem \<Rightarrow> nat \<Rightarrow> 's cache \<Rightarrow> (int set \<times> 's) set \<Rightarrow> bool" where
  "cache_ok P w C path \<longleftrightarrow>
     (\<forall>k. \<forall>(b, t) \<in> set (C k). bs_hash b = k \<and> length b = w) \<and>
     cached C \<subseteq> reach P \<and> (\<forall>(M, t) \<in> cached C. \<not> completable P M t \<or> (M, t) \<in> path)"

definition pointer_ok :: "'s problem \<Rightarrow> 'v pentry list \<Rightarrow> int set \<Rightarrow> 's \<Rightarrow> nat option \<Rightarrow> bool" where
  "pointer_ok P r L s q \<longleftrightarrow> alive r L = [] \<or>
     (\<exists>a. q = Some a \<and> a \<in> set (alive r L) \<and> (\<forall>b \<in> set (alive r L). a < b \<longrightarrow> \<not> en_return (r ! b)) \<and>
          dead_above P r L s a)"

definition longest_ok :: "'s problem \<Rightarrow> nat \<Rightarrow> (nat \<times> int list) option list \<Rightarrow> bool" where
  "longest_ok P n longest \<longleftrightarrow> length longest = n \<and>
     (\<forall>k seq. Some (k, seq) \<in> set longest \<longrightarrow> partial_linearization P seq)"

definition search_ok :: "'s problem \<Rightarrow> 'v pentry list \<Rightarrow> nat \<Rightarrow> nat \<Rightarrow> ('v, 's) search \<Rightarrow> bool" where
  "search_ok P r n w st \<longleftrightarrow>
     (let fs = rev (se_calls st); L = set (ids r fs)
      in heap_ok r fs (se_heap st) \<and> frames P r fs (se_state st) \<and>
         length (se_linearized st) = w \<and> int ` bits (se_linearized st) = L \<and>
         cache_ok P w (se_cache st) (on_path r fs (se_state st)) \<and>
         pointer_ok P r L (se_state st) (se_entry st) \<and> longest_ok P n (se_longest st))"

section \<open>The measure\<close>

lemma reach_finite: "finite (pb_ops P) \<Longrightarrow> finite (reach P)"
proof -
  assume fin: "finite (pb_ops P)"
  have "{is. distinct is \<and> set is \<subseteq> pb_ops P} \<subseteq> {is. set is \<subseteq> pb_ops P \<and> length is \<le> card (pb_ops P)}"
    using fin by (auto simp: distinct_card [symmetric] intro: card_mono)
  then have "finite {is. distinct is \<and> set is \<subseteq> pb_ops P}"
    using finite_lists_length_le [OF fin] by (rule finite_subset)
  then have "finite ((\<lambda>is. (set is, the (run (pb_step P) (pb_init P) is))) ` {is. distinct is \<and> set is \<subseteq> pb_ops P})"
    by (rule finite_imageI)
  then show ?thesis by (rule rev_finite_subset) (force simp: reach_def)
qed

definition search_rel :: "'s problem \<Rightarrow> 'v pentry list \<Rightarrow> (('v, 's) search \<times> ('v, 's) search) set" where
  "search_rel P r = measures
     [\<lambda>st. card (reach P - cached (se_cache st)), \<lambda>st. length (se_calls st),
      \<lambda>st. case se_entry st of None \<Rightarrow> 0 | Some a \<Rightarrow> Suc a]"

section \<open>The parts of a round\<close>

lemma next_of_head: "list_ok r L h \<Longrightarrow> nd_next (h ! length r) = first (alive r L) None"
  by (simp add: list_ok_def)

lemma next_alive:
  assumes R: "reversed_entries r P" and L: "list_ok r L h" and a: "a \<in> set (alive r L)" "\<not> en_return (r ! a)"
  obtains c where "nd_next (h ! a) = Some c" "c \<in> set (alive r L)" "c < a" "\<And>b. b \<in> set (alive r L) \<Longrightarrow> c < b \<Longrightarrow> b = a \<or> a < b"
proof -
  obtain m where m: "m < a" "m \<in> set (alive r L)" using call_match [OF R L a] by metis
  obtain xs ys where xs: "alive r L = xs @ a # ys" using split_list [OF a(1)] by blast
  have ys: "set ys = {b \<in> set (alive r L). b < a}" by (rule alive_split(2) [OF xs])
  with m obtain c zs where c: "ys = c # zs" by (cases ys) auto
  with xs have split: "alive r L = (xs @ [a]) @ c # zs" by simp
  have "nd_next (h ! a) = Some c" using L xs c by (simp add: list_ok_def)
  moreover have "c \<in> set (alive r L)" "c < a" using ys c by auto
  moreover have "b = a \<or> a < b" if "b \<in> set (alive r L)" "c < b" for b
  proof -
    have "b \<in> set (xs @ [a])" unfolding alive_split(1) [OF split] using that by simp
    moreover have "set xs = {b \<in> set (alive r L). a < b}" by (rule alive_split(1) [OF xs])
    ultimately show ?thesis by auto
  qed
  ultimately show ?thesis by (rule that)
qed

text \<open>Moving past a call that leads nowhere.\<close>

lemma pointer_next:
  assumes R: "reversed_entries r P" and L: "list_ok r L h" and a: "a \<in> set (alive r L)" "\<not> en_return (r ! a)"
    and calls: "\<forall>b \<in> set (alive r L). a < b \<longrightarrow> \<not> en_return (r ! b)" and dead: "dead_above P r L s a"
    and tried: "\<And>s'. pb_step P (en_id (r ! a)) s = Some (True, s') \<Longrightarrow> \<not> completable P (insert (en_id (r ! a)) L) s'"
  shows "\<exists>c. nd_next (h ! a) = Some c \<and> c < a \<and> pointer_ok P r L s (Some c)"
proof -
  obtain c where c: "nd_next (h ! a) = Some c" "c \<in> set (alive r L)" "c < a" "\<And>b. b \<in> set (alive r L) \<Longrightarrow> c < b \<Longrightarrow> b = a \<or> a < b"
    using next_alive [OF R L a] by metis
  have "\<forall>b \<in> set (alive r L). c < b \<longrightarrow> \<not> en_return (r ! b)"
    using c(4) calls a(2) by blast
  moreover have "dead_above P r L s c"
    unfolding dead_above_def using c(4) dead tried unfolding dead_above_def by blast
  ultimately show ?thesis using c unfolding pointer_ok_def by blast
qed

text \<open>The pointer at the first live entry.\<close>

lemma pointer_first: "pointer_ok P r L s (first (alive r L) None)"
proof (cases "alive r L")
  case (Cons a ys)
  then have "set [] = {b \<in> set (alive r L). a < b}" by (intro alive_split(1)) simp
  with Cons show ?thesis by (auto simp: pointer_ok_def dead_above_def)
qed (simp add: pointer_ok_def)

text \<open>At the first live return everything has been tried.\<close>

lemma return_dead:
  assumes R: "reversed_entries r P" and a: "a \<in> set (alive r L)" "en_return (r ! a)" and dead: "dead_above P r L s a"
  shows "\<not> completable P L s"
proof
  assume c: "completable P L s"
  have "\<not> pb_ops P \<subseteq> L" using a id_ops [OF R, of a] by (auto simp: alive_iff)
  with c obtain i s' where i: "may_follow P L i" "pb_step P i s = Some (True, s')" "completable P (insert i L) s'"
    by (rule completable_cases)
  obtain b where "b \<in> set (alive r L)" "a < b" "tag (r ! b) = (False, i)" using follower_above [OF R a i(1)] .
  with dead i show False unfolding dead_above_def tag_def by auto
qed

lemma contains_loop_spec:
  assumes "Equal model = Some eq"
  shows "contains_loop model b s elems = Some (\<exists>t. (b, t) \<in> set elems \<and> eq s t)"
proof (induction elems)
  case (Cons x elems)
  obtain l t where x: "x = (l, t)" by (cases x)
  show ?case
  proof (cases "b = l \<and> eq s t")
    case True
    then have "\<exists>t'. (b, t') \<in> set (x # elems) \<and> eq s t'" using x by auto
    with True x assms show ?thesis by (simp add: bs_equals_iff)
  next
    case False
    then have "(\<exists>t'. (b, t') \<in> set (x # elems) \<and> eq s t') = (\<exists>t'. (b, t') \<in> set elems \<and> eq s t')" using x by auto
    with False x assms Cons.IH show ?thesis by (auto simp: bs_equals_iff)
  qed
qed simp

lemma cached_iff:
  assumes "cache_ok P w C path" "length b = w" "int ` bits b = M"
  shows "(M, t) \<in> cached C \<longleftrightarrow> (b, t) \<in> set (C (bs_hash b))"
proof
  assume "(M, t) \<in> cached C"
  then obtain k b' where b': "(b', t) \<in> set (C k)" "int ` bits b' = M" by (auto simp: cached_def)
  with assms have "length b' = w" "bs_hash b' = k" by (auto simp: cache_ok_def)
  moreover have "bits b' = bits b" using b'(2) assms(3) by (metis inj_image_eq_iff inj_of_nat)
  ultimately have "b' = b" using bits_determine assms(2) by metis
  with b'(1) \<open>bs_hash b' = k\<close> show "(b, t) \<in> set (C (bs_hash b))" by simp
next
  assume "(b, t) \<in> set (C (bs_hash b))"
  with assms(3) show "(M, t) \<in> cached C" by (auto simp: cached_def)
qed

lemma cached_insert: "cached (C(k := C k @ [(b, t)])) = insert (int ` bits b, t) (cached C)"
  by (auto simp: cached_def split: if_splits) (metis fun_upd_same fun_upd_other in_set_conv_decomp Un_iff set_append)+

lemma cache_ok_insert:
  assumes "cache_ok P w C path" "length b = w" "(int ` bits b, t) \<in> reach P"
  shows "cache_ok P w (C(bs_hash b := C (bs_hash b) @ [(b, t)])) (insert (int ` bits b, t) path)"
  using assms unfolding cache_ok_def cached_insert by (auto simp: fun_upd_def)

lemma to_uint_id [simp]: "0 \<le> i \<Longrightarrow> i < 2 ^ 64 \<Longrightarrow> to_uint i = nat i"
  by (simp add: to_uint_def)

lemma linearize_bits:
  assumes S: "search_setting model inp out P r n w" and i: "i \<in> pb_ops P" and b: "length b = w" "int ` bits b = L"
  obtains b' where "bs_set b (to_uint i) = Some b'" "length b' = w" "int ` bits b' = insert i L"
proof -
  have i: "0 \<le> i" "i < int n" "n \<le> 64 * w" "int n < 2 ^ 64" using S i by (auto simp: search_setting_def)
  then have "nat i < 64 * length b" using b by linarith
  from bs_set_spec [OF this] i b that show ?thesis by auto
qed

lemma unlinearize_bits:
  assumes S: "search_setting model inp out P r n w" and i: "i \<in> pb_ops P" "i \<notin> L" and b: "length b = w" "int ` bits b = insert i L"
  obtains b' where "bs_clear b (to_uint i) = Some b'" "length b' = w" "int ` bits b' = L"
proof -
  have i': "0 \<le> i" "i < int n" "n \<le> 64 * w" "int n < 2 ^ 64" using S i by (auto simp: search_setting_def)
  then have "nat i < 64 * length b" using b by linarith
  from bs_clear_spec [OF this] obtain b' where b': "bs_clear b (nat i) = Some b'" "length b' = length b" "bits b' = bits b - {nat i}" by auto
  have "int ` (bits b - {nat i}) = int ` bits b - {i}" using i'(1) by (simp add: image_set_diff)
  with b' i i' b that show ?thesis by auto
qed

text \<open>A child that the cache knows leads nowhere.\<close>

lemma seen_dead:
  assumes S: "search_setting model inp out P r n w" and F: "frames P r fs s" and C: "cache_ok P w C (on_path r fs s)"
    and i: "i \<in> pb_ops P" "i \<notin> set (ids r fs)" and b: "length b = w" "int ` bits b = insert i (set (ids r fs))"
    and eq: "Equal model = Some eq" and t: "(b, t) \<in> set (C (bs_hash b))" "eq s' t"
  shows "\<not> completable P (insert i (set (ids r fs))) s'"
proof
  let ?M = "insert i (set (ids r fs))"
  assume c: "completable P ?M s'"
  have R: "reversed_entries r P" and E: "state_equality (Step model) eq" and st: "pb_step P = (\<lambda>i s. Step model s (inp i) (out i))"
    using S eq by (auto simp: search_setting_def)
  have "card ?M = Suc (length fs)" using frames_card [OF R F] i(2) by simp
  then have "(?M, t) \<notin> on_path r fs s" using on_path_size [of ?M t r fs s] by auto
  moreover have "(?M, t) \<in> cached C" using cached_iff [OF C b] t(1) by simp
  ultimately have "\<not> completable P ?M t" using C by (auto simp: cache_ok_def)
  with state_equality.completable_eq [OF E t(2) st c] show False by simp
qed

lemma search_okD:
  assumes "search_ok P r n w st"
  shows "heap_ok r (rev (se_calls st)) (se_heap st)" "frames P r (rev (se_calls st)) (se_state st)"
    "length (se_linearized st) = w" "int ` bits (se_linearized st) = set (ids r (rev (se_calls st)))"
    "cache_ok P w (se_cache st) (on_path r (rev (se_calls st)) (se_state st))"
    "pointer_ok P r (set (ids r (rev (se_calls st)))) (se_state st) (se_entry st)" "longest_ok P n (se_longest st)"
    "list_ok r (set (ids r (rev (se_calls st)))) (se_heap st)"
  using assms heap_list_ok [of r "rev (se_calls st)" "se_heap st"] by (auto simp: search_ok_def Let_def)

lemma skip_ok:
  assumes "search_ok P r n w st" "pointer_ok P r (set (ids r (rev (se_calls st)))) (se_state st) q"
  shows "search_ok P r n w (st\<lparr>se_rounds := k, se_entry := q\<rparr>)"
  using assms by (simp add: search_ok_def Let_def)

lemma push_ok:
  assumes S: "search_setting model inp out P r n w" and ok: "search_ok P r n w st"
    and a: "a \<in> set (alive r (set (ids r (rev (se_calls st)))))" "\<not> en_return (r ! a)"
    and calls: "\<forall>b \<in> set (alive r (set (ids r (rev (se_calls st))))). a < b \<longrightarrow> \<not> en_return (r ! b)"
    and dead: "dead_above P r (set (ids r (rev (se_calls st)))) (se_state st) a"
    and step: "pb_step P (en_id (r ! a)) (se_state st) = Some (True, s')"
    and b: "length b = w" "int ` bits b = insert (en_id (r ! a)) (set (ids r (rev (se_calls st))))"
    and new: "(b, s') \<notin> set (se_cache st (bs_hash b))"
  shows "\<exists>h'. lift (se_heap st) a = Some h' \<and>
    (let st' = st\<lparr>se_rounds := k, se_cache := (se_cache st)(bs_hash b := se_cache st (bs_hash b) @ [(b, s')]),
               se_calls := se_calls st @ [(a, se_state st)], se_state := s', se_linearized := b,
               se_heap := h', se_entry := nd_next (h' ! length r)\<rparr>
     in search_ok P r n w st' \<and> (st', st) \<in> search_rel P r)"
proof -
  let ?fs = "rev (se_calls st)" let ?fs' = "(a, se_state st) # ?fs"
  let ?C = "(se_cache st)(bs_hash b := se_cache st (bs_hash b) @ [(b, s')])"
  note D = search_okD [OF ok]
  have R: "reversed_entries r P" using S by (simp add: search_setting_def)
  have F: "frames P r ?fs' s'"
    using a calls dead step D(2) call_may_follow [OF R a] by simp
  obtain h' where h': "lift (se_heap st) a = Some h'" "heap_ok r ?fs' h'"
    using push_heap [OF R D(1) a] by blast
  note fp = frames_partial [OF R F]
  have reach: "(int ` bits b, s') \<in> reach P"
    using fp b(2) unfolding reach_def partial_linearization_def
    by (auto intro!: exI [of _ "rev (ids r ?fs')"])
  have C: "cache_ok P w ?C (on_path r ?fs' s')"
    using cache_ok_insert [OF D(5) b(1) reach] b(2) by simp
  have "cached ?C = insert (int ` bits b, s') (cached (se_cache st))" by (rule cached_insert)
  moreover have "(int ` bits b, s') \<notin> cached (se_cache st)"
    using cached_iff [OF D(5) b(1) refl] new by simp
  moreover have "finite (reach P)" using R by (intro reach_finite) (simp add: reversed_entries_def)
  ultimately have card: "card (reach P - cached ?C) < card (reach P - cached (se_cache st))"
    using reach by (intro psubset_card_mono) auto
  have "pointer_ok P r (set (ids r ?fs')) s' (nd_next (h' ! length r))"
    unfolding next_of_head [OF heap_list_ok [OF h'(2)]] by (rule pointer_first)
  then show ?thesis
    using h' F C b D(7) card by (auto simp: search_ok_def Let_def search_rel_def)
qed

section \<open>A round\<close>

lemma node_values:
  assumes S: "search_setting model inp out P r n w" and L: "list_ok r L h" and a: "a < length r"
  shows "nd_value (h ! a) = Some (if en_return (r ! a) then out (en_id (r ! a)) else inp (en_id (r ! a)))"
    and "nd_id (h ! a) = en_id (r ! a)"
  using assms by (auto simp: list_ok_def holds_entry_def search_setting_def)

lemma call_round:
  assumes S: "search_setting model inp out P r n w" and ok: "search_ok P r n w st" and live: "\<not> kill (se_rounds st)"
    and a: "se_entry st = Some a" "a \<in> set (alive r (set (ids r (rev (se_calls st)))))" "\<not> en_return (r ! a)"
    and calls: "\<forall>b \<in> set (alive r (set (ids r (rev (se_calls st))))). a < b \<longrightarrow> \<not> en_return (r ! b)"
    and dead: "dead_above P r (set (ids r (rev (se_calls st)))) (se_state st) a"
  shows "\<exists>st'. search_round model computePartial kill (length r) st = Some (Inr st') \<and> search_ok P r n w st' \<and>
    (st', st) \<in> search_rel P r"
proof -
  let ?L = "set (ids r (rev (se_calls st)))" let ?h = "se_heap st" let ?i = "en_id (r ! a)" let ?s = "se_state st"
  note D = search_okD [OF ok]
  have R: "reversed_entries r P" and step_def: "pb_step P = (\<lambda>i s. Step model s (inp i) (out i))"
    using S by (auto simp: search_setting_def)
  obtain eq where eq: "Equal model = Some eq" "state_equality (Step model) eq" using S by (auto simp: search_setting_def)
  have al: "a < length r" "?i \<notin> ?L" using a(2) by (auto simp: alive_iff)
  then have i: "?i \<in> pb_ops P" using id_ops [OF R] by simp
  obtain m where m: "nd_match (?h ! a) = Some m" "m \<in> set (alive r ?L)" "tag (r ! m) = (True, ?i)"
    using call_match [OF R D(8) a(2,3)] by metis
  then have vals: "nd_value (?h ! a) = Some (inp ?i)" "nd_value (?h ! m) = Some (out ?i)" "nd_id (?h ! a) = ?i"
    using node_values [OF S D(8) al(1)] node_values [OF S D(8), of m] a(3) by (auto simp: alive_iff tag_def)
  obtain ok' s' where step: "Step model ?s (inp ?i) (out ?i) = Some (ok', s')"
    using S i by (auto simp: search_setting_def) (metis option.exhaust surj_pair atLeastLessThan_iff)
  obtain b where b: "bs_set (se_linearized st) (to_uint ?i) = Some b" "length b = w" "int ` bits b = insert ?i ?L"
    using linearize_bits [OF S i D(3,4)] by metis
  have head: "nd_next (?h ! length r) \<noteq> None"
    unfolding next_of_head [OF D(8)] using a(2) by (cases "alive r ?L") auto
  let ?skip = "st\<lparr>se_rounds := Suc (se_rounds st), se_entry := nd_next (?h ! a)\<rparr>"
  have skip: "search_ok P r n w ?skip \<and> (?skip, st) \<in> search_rel P r"
    if "\<And>s'. pb_step P ?i ?s = Some (True, s') \<Longrightarrow> \<not> completable P (insert ?i ?L) s'"
    using pointer_next [OF R D(8) a(2,3) calls dead that] skip_ok [OF ok] a(1) by (auto simp: search_rel_def)
  note round = search_round_def head live a(1) m(1) vals step b(1) cacheContains_def contains_loop_spec [OF eq(1)] Let_def
  show ?thesis
  proof (cases "ok' \<and> \<not> (\<exists>t. (b, t) \<in> set (se_cache st (bs_hash b)) \<and> eq s' t)")
    case True
    then have new: "(b, s') \<notin> set (se_cache st (bs_hash b))"
      using state_equality.eq_refl [OF eq(2)] by blast
    have "pb_step P ?i ?s = Some (True, s')" using step True by (simp add: step_def)
    from push_ok [OF S ok a(2,3) calls dead this b(2,3) new, of "Suc (se_rounds st)"] obtain h' where
      "lift ?h a = Some h'" and st': "let st' = st\<lparr>se_rounds := Suc (se_rounds st), se_cache := (se_cache st)(bs_hash b := se_cache st (bs_hash b) @ [(b, s')]),
               se_calls := se_calls st @ [(a, ?s)], se_state := s', se_linearized := b,
               se_heap := h', se_entry := nd_next (h' ! length r)\<rparr>
        in search_ok P r n w st' \<and> (st', st) \<in> search_rel P r" by blast
    with True show ?thesis by (simp add: round)
  next
    case False
    then have "\<not> completable P (insert ?i ?L) s''" if "pb_step P ?i ?s = Some (True, s'')" for s''
      using that step seen_dead [OF S D(2,5) i al(2) b(2,3) eq(1)] unfolding step_def by auto
    from skip [OF this] False show ?thesis by (auto simp: round)
  qed
qed

lemma frames_addr: "frames P r fs s \<Longrightarrow> (e, t) \<in> set fs \<Longrightarrow> e < length r"
  by (induction P r fs s rule: frames.induct) (auto simp: alive_iff)

lemma call_ids_eq:
  assumes "search_ok P r n w st"
  shows "call_ids st = rev (ids r (rev (se_calls st)))"
proof -
  note D = search_okD [OF assms]
  have "nd_id (se_heap st ! e) = en_id (r ! e)" if "(e, t) \<in> set (se_calls st)" for e t
    using frames_addr [OF D(2), of e t] that D(8) by (auto simp: list_ok_def holds_entry_def)
  then show ?thesis by (auto simp: call_ids_def ids_def rev_map)
qed

lemma longest_loop_ok:
  assumes "longest_ok P n longest" "partial_linearization P (snd seq)" "set is \<subseteq> {0..<int n}"
  shows "\<exists>longest'. longest_loop seq is longest = Some longest' \<and> longest_ok P n longest'"
  using assms
proof (induction seq "is" longest rule: longest_loop.induct)
  case (2 seq i "is" longest)
  have i: "0 \<le> i" "i < int (length longest)" using 2(2,4) by (auto simp: longest_ok_def)
  have "Some (k, q) \<in> set longest \<or> seq = (k, q)" if "Some (k, q) \<in> set (longest[nat i := Some seq])" for k q
    using that set_update_subset_insert [of longest "nat i" "Some seq"] by auto
  then have upd: "longest_ok P n (longest[nat i := Some seq])"
    using 2(2,3) unfolding longest_ok_def by fastforce
  have idx: "idx longest i = Some (longest ! nat i)" and st: "store longest i (Some seq) = Some (longest[nat i := Some seq])"
    using i by (simp_all add: idx_def store_def)
  define longest' where "longest' = (if (case longest ! nat i of None \<Rightarrow> True | Some (_, s) \<Rightarrow> length (snd seq) > length s)
     then longest[nat i := Some seq] else longest)"
  then have "longest_ok P n longest'" using upd 2(2) by simp
  with 2(1) [OF idx _ _ 2(3)] 2(4) idx st show ?case
    by (auto simp: longest'_def split: if_splits)
qed simp

lemma cache_ok_pop:
  assumes "cache_ok P w C (insert (L, s) path)" "\<not> completable P L s"
  shows "cache_ok P w C path"
  using assms by (auto simp: cache_ok_def)

lemma pop_ok:
  assumes S: "search_setting model inp out P r n w" and ok: "search_ok P r n w st"
    and calls: "se_calls st = cs @ [(e, s1)]" and dead: "\<not> completable P (set (ids r (rev (se_calls st)))) (se_state st)"
    and longest: "longest_ok P n longest"
  shows "\<exists>h' b. unlift (se_heap st) e = Some h' \<and> bs_clear (se_linearized st) (to_uint (nd_id (se_heap st ! e))) = Some b \<and>
    (let st' = st\<lparr>se_rounds := k, se_longest := longest, se_allocs := l, se_state := s1, se_linearized := b, se_calls := cs,
               se_heap := h', se_entry := nd_next (h' ! e)\<rparr>
     in search_ok P r n w st' \<and> (st', st) \<in> search_rel P r)"
proof -
  let ?fs = "rev cs" let ?L = "set (ids r ?fs)" let ?i = "en_id (r ! e)" let ?s = "se_state st"
  note D = search_okD [OF ok, unfolded calls, simplified]
  have R: "reversed_entries r P" using S by (simp add: search_setting_def)
  from D(1) obtain h' where h': "unlift (se_heap st) e = Some h'" "heap_ok r ?fs h'" by auto
  note L' = heap_list_ok [OF h'(2)]
  from D(2) have e: "e \<in> set (alive r ?L)" "\<not> en_return (r ! e)" "may_follow P ?L ?i"
    "\<forall>b \<in> set (alive r ?L). e < b \<longrightarrow> \<not> en_return (r ! b)" "pb_step P ?i s1 = Some (True, ?s)" "dead_above P r ?L s1 e" "frames P r ?fs s1"
    by auto
  have i: "?i \<in> pb_ops P" "?i \<notin> ?L" using e(3) by (auto simp: may_follow_def)
  have "nd_id (se_heap st ! e) = ?i"
    using D(8) e(1) by (auto simp: list_ok_def holds_entry_def alive_iff)
  moreover obtain b where b: "bs_clear (se_linearized st) (to_uint ?i) = Some b" "length b = w" "int ` bits b = ?L"
    using unlinearize_bits [OF S i D(3,4)] by metis
  moreover have "\<not> completable P (insert ?i ?L) s'" if "pb_step P ?i s1 = Some (True, s')" for s'
    using that e(5) dead calls by simp
  from pointer_next [OF R L' e(1,2,4,6) this]
  have "pointer_ok P r ?L s1 (nd_next (h' ! e))" by auto
  moreover have "cache_ok P w (se_cache st) (on_path r ?fs s1)"
    using cache_ok_pop [OF D(5)] dead calls by simp
  ultimately show ?thesis
    using h' e(7) longest calls by (auto simp: search_ok_def Let_def search_rel_def)
qed

text \<open>What the search may return.\<close>

definition right_answer :: "'s problem \<Rightarrow> nat \<Rightarrow> (nat \<Rightarrow> bool) \<Rightarrow> bool \<times> (nat \<times> int list) option list \<Rightarrow> bool" where
  "right_answer P n kill = (\<lambda>(b, longest). longest_ok P n longest \<and>
     (if b then (\<exists>k is. linearization P is \<and> longest = replicate n (Some (k, is)))
      else \<not> linearizable P \<or> (\<exists>k. kill k)))"

lemma return_round:
  assumes S: "search_setting model inp out P r n w" and ok: "search_ok P r n w st" and live: "\<not> kill (se_rounds st)"
    and a: "se_entry st = Some a" "a \<in> set (alive r (set (ids r (rev (se_calls st)))))" "en_return (r ! a)"
    and dead: "dead_above P r (set (ids r (rev (se_calls st)))) (se_state st) a"
  shows "(\<exists>res. search_round model computePartial kill (length r) st = Some (Inl res) \<and> right_answer P n kill res) \<or>
    (\<exists>st'. search_round model computePartial kill (length r) st = Some (Inr st') \<and> search_ok P r n w st' \<and>
      (st', st) \<in> search_rel P r)"
proof -
  let ?L = "set (ids r (rev (se_calls st)))" let ?h = "se_heap st"
  note D = search_okD [OF ok]
  have R: "reversed_entries r P" and ops: "pb_ops P = {0..<int n}" using S by (auto simp: search_setting_def)
  have dead': "\<not> completable P ?L (se_state st)" by (rule return_dead [OF R a(2,3) dead])
  have head: "nd_next (?h ! length r) \<noteq> None"
    unfolding next_of_head [OF D(8)] using a(2) by (cases "alive r ?L") auto
  have ret: "nd_match (?h ! a) = None" using D(8) a(2,3) by (auto simp: list_ok_def holds_entry_def alive_iff)
  note round = search_round_def head live a(1) ret Let_def
  show ?thesis
  proof (cases "se_calls st" rule: rev_cases)
    case Nil
    then have "\<not> linearizable P" using dead' D(2) by (simp add: linearizable_completable)
    with D(7) Nil show ?thesis by (simp add: round right_answer_def)
  next
    case (snoc cs x)
    obtain e s1 where x: "x = (e, s1)" by (cases x)
    note fp = conjunct1 [OF frames_partial [OF R D(2)]]
    let ?seq = "(se_allocs st, call_ids st)"
    have "partial_linearization P (snd ?seq)" "set (call_ids st) \<subseteq> {0..<int n}"
      using fp ops unfolding call_ids_eq [OF ok] by (auto simp: partial_linearization_def)
    with longest_loop_ok [OF D(7)] obtain longest where
      "longest_loop ?seq (call_ids st) (se_longest st) = Some longest" "longest_ok P n longest" by metis
    then obtain longest where l: "(if computePartial then longest_loop ?seq (call_ids st) (se_longest st) else Some (se_longest st)) = Some longest"
      "longest_ok P n longest" using D(7) by (cases computePartial) auto
    have ci: "call_ids (st\<lparr>se_rounds := k\<rparr>) = call_ids st" for k by (simp add: call_ids_def)
    from pop_ok [OF S ok snoc [unfolded x] dead' l(2), of "Suc (se_allocs st)" "Suc (se_rounds st)"]
    show ?thesis using snoc x l(1) by (auto simp: round ci)
  qed
qed

lemma done_round:
  assumes S: "search_setting model inp out P r n w" and ok: "search_ok P r n w st"
    and none: "alive r (set (ids r (rev (se_calls st)))) = []"
  shows "\<exists>res. search_round model computePartial kill (length r) st = Some (Inl res) \<and> right_answer P n kill res"
proof -
  let ?ids = "rev (ids r (rev (se_calls st)))"
  note D = search_okD [OF ok]
  have R: "reversed_entries r P" using S by (simp add: search_setting_def)
  note fp = frames_partial [OF R D(2)]
  have "pb_ops P \<subseteq> set ?ids"
  proof
    fix i assume "i \<in> pb_ops P"
    then obtain a where "a < length r" "tag (r ! a) = (True, i)" using tag_ex [OF R] by metis
    then show "i \<in> set ?ids" using none alive_iff [of a r "set ?ids"] by (auto simp: tag_def)
  qed
  with fp have lin: "linearization P ?ids"
    by (auto simp: linearization_def partial_linearization_def)
  have "map (\<lambda>_. Some (se_allocs st, ?ids)) (se_longest st) = replicate n (Some (se_allocs st, ?ids))"
    using D(7) by (simp add: longest_ok_def map_replicate_const)
  moreover have "longest_ok P n (replicate n (Some (se_allocs st, ?ids)))"
    using fp by (auto simp: longest_ok_def)
  ultimately show ?thesis
    using lin next_of_head [OF D(8)] none by (auto simp: search_round_def call_ids_eq [OF ok] right_answer_def Let_def)
qed

lemma killed_round:
  assumes ok: "search_ok P r n w st" and kill: "kill (se_rounds st)" and some: "alive r (set (ids r (rev (se_calls st)))) \<noteq> []"
  shows "\<exists>res. search_round model computePartial kill (length r) st = Some (Inl res) \<and> right_answer P n kill res"
proof -
  note D = search_okD [OF ok]
  have "nd_next (se_heap st ! length r) \<noteq> None"
    unfolding next_of_head [OF D(8)] using some by (cases "alive r (set (ids r (rev (se_calls st))))") auto
  with kill have "search_round model computePartial kill (length r) st = Some (Inl (False, se_longest st))"
    by (simp add: search_round_def)
  moreover have "right_answer P n kill (False, se_longest st)"
    unfolding right_answer_def using D(7) kill by auto
  ultimately show ?thesis by blast
qed

lemma search_round_cases:
  assumes S: "search_setting model inp out P r n w" and ok: "search_ok P r n w st"
  shows "(\<exists>res. search_round model computePartial kill (length r) st = Some (Inl res) \<and> right_answer P n kill res) \<or>
    (\<exists>st'. search_round model computePartial kill (length r) st = Some (Inr st') \<and> search_ok P r n w st' \<and>
      (st', st) \<in> search_rel P r)"
proof (cases "alive r (set (ids r (rev (se_calls st)))) = [] \<or> kill (se_rounds st)")
  case True
  then show ?thesis using done_round [OF S ok] killed_round [OF ok] by blast
next
  case False
  then obtain a where a: "se_entry st = Some a" "a \<in> set (alive r (set (ids r (rev (se_calls st)))))"
    "\<forall>b \<in> set (alive r (set (ids r (rev (se_calls st))))). a < b \<longrightarrow> \<not> en_return (r ! b)"
    "dead_above P r (set (ids r (rev (se_calls st)))) (se_state st) a"
    using search_okD(6) [OF ok] unfolding pointer_ok_def by blast
  show ?thesis
  proof (cases "en_return (r ! a)")
    case True
    with return_round [OF S ok _ a(1,2) True a(4)] False show ?thesis by blast
  next
    case call: False
    with call_round [OF S ok _ a(1,2) call a(3,4)] False show ?thesis by blast
  qed
qed

lemma search_loop_right:
  assumes S: "search_setting model inp out P r n w" and ok: "search_ok P r n w st"
  shows "\<exists>res. search_loop model computePartial kill (length r) st = Some res \<and> right_answer P n kill res"
proof -
  have "wf (search_rel P r)" by (simp add: search_rel_def)
  then show ?thesis using ok
  proof (induction st rule: wf_induct_rule)
    case (less st)
    note unfold = search_loop.simps [of model computePartial kill "length r" st]
    from search_round_cases [OF S less.prems, of computePartial kill] show ?case
    proof (elim disjE exE conjE)
      fix st' assume "search_round model computePartial kill (length r) st = Some (Inr st')"
        and "search_ok P r n w st'" "(st', st) \<in> search_rel P r"
      with less.IH [of st'] show ?case by (simp add: unfold)
    qed (simp add: unfold)
  qed
qed

section \<open>The whole search\<close>

lemma start_ok:
  assumes R: "reversed_entries r P" and built: "built h r (length r)" and init: "pb_init P = Init model"
    and h': "h' = insertBefore (h @ [\<lparr>nd_value = None, nd_match = None, nd_id = -1, nd_next = None, nd_prev = None\<rparr>]) (length r) (top_addr (length r))"
  shows "search_ok P r n (length (newBitset n))
    \<lparr>se_heap = h', se_entry = top_addr (length r), se_linearized = newBitset n, se_cache = (\<lambda>_. []), se_calls = [],
     se_state = Init model, se_longest = replicate n None, se_allocs = 0, se_rounds = 0\<rparr>"
proof -
  let ?x = "\<lparr>nd_value = None, nd_match = None, nd_id = -1, nd_next = None, nd_prev = None\<rparr>"
  have h: "length h = length r" "seg h None (rev [0..<length r]) None" "\<And>a. a < length r \<Longrightarrow> holds_entry h r a"
    using built by (auto simp: built_def)
  have ib: "seg h' None (rev [0..<Suc (length r)]) None" "same_data (h @ [?x]) h'"
    unfolding h' using insertBefore_new [OF h(1,2), of ?x "top_addr (length r)"] by (auto simp: top_addr_def)
  have alive: "alive r {} = rev [0..<length r]" by (simp add: alive_def)
  have "holds_entry h' r a" if "a < length r" for a
    using h(1) h(3) [OF that] that unfolding holds_entry_same_data [OF ib(2)] by (simp add: holds_entry_def nth_append)
  then have "list_ok r {} h'" using ib(1) by (simp add: list_ok_def alive)
  moreover have "pointer_ok P r {} (Init model) (top_addr (length r))"
    using pointer_first [of P r "{}" "Init model"] unfolding alive
    by (cases "length r") (auto simp: top_addr_def)
  moreover have "cache_ok P w (\<lambda>_. []) {}" for w by (simp add: cache_ok_def cached_def)
  ultimately show ?thesis
    using newBitset_spec [of n] init by (simp add: search_ok_def longest_ok_def)
qed

end
