(* ===== verification/Porcupine_Top.thy ===== *)
theory Porcupine_Top
  imports Porcupine_Loop
begin

text \<open>
  The functions of the checker that its users call: \<open>checkSingle\<close> decides whether a list of
  entries is linearizable, \<open>makeEntries\<close> turns operations into entries with the same real-time
  order, and \<open>checkOperations\<close> combines the answers for the partitions, whatever the order in which they
  arrive.
\<close>

section \<open>One partition\<close>

lemma entries_of_length: "entries_of es n inp out \<Longrightarrow> length es = 2 * n"
proof -
  assume "entries_of es n inp out"
  then have "length (map tag es) = card (UNIV \<times> {0..<int n} :: (bool \<times> int) set)"
    unfolding entries_of_def by (metis distinct_card)
  then show ?thesis by (simp add: card_cartesian_product)
qed

lemma checkSingle_right:
  assumes E: "entries_of es n inp out" and eq: "Equal model = Some eq" "state_equality (Step model) eq"
    and total: "\<And>i s. 0 \<le> i \<Longrightarrow> i < int n \<Longrightarrow> Step model s (inp i) (out i) \<noteq> None" and small: "int n < 2 ^ 64"
  shows "\<exists>res. checkSingle model es computePartial kill = Some res \<and>
    right_answer (entries_problem model es n inp out) n kill res"
proof -
  let ?P = "entries_problem model es n inp out" and ?r = "rev es" and ?w = "length (newBitset n)"
  note R = reversed_entries_rev [OF E, of model]
  obtain h where h: "makeLinkedEntries es = (h, top_addr (length es))" "built h ?r (length es)"
    by (rule makeLinkedEntries_built)
  have "node_length h (top_addr (length es)) = Some (length es)"
    using length_loop_seg [of h None "rev [0..<length es]" 0] h(2)
    by (cases "length es") (auto simp: node_length_def built_def top_addr_def)
  moreover have "length h = length es" using h(2) by (simp add: built_def)
  moreover have "en_value (?r ! a) = (if en_return (?r ! a) then out (en_id (?r ! a)) else inp (en_id (?r ! a)))" if "a < length ?r" for a
    using E nth_mem [OF that] by (simp add: entries_of_def)
  then have S: "search_setting model inp out ?P ?r n ?w"
    unfolding search_setting_def using R eq total small newBitset_spec [of n] by (auto simp: entries_problem_def)
  ultimately show ?thesis
    using search_loop_right [OF S start_ok [OF R, where h = h and model = model], of _ computePartial kill] h entries_of_length [OF E]
    by (simp add: checkSingle_def entries_problem_def Let_def)
qed

section \<open>From operations to entries\<close>

definition operations_problem :: "('v, 's) Model \<Rightarrow> 'v Operation list \<Rightarrow> 's problem" where
  "operations_problem model ops =
     \<lparr>pb_ops = {0..<int (length ops)},
      pb_step = (\<lambda>i s. Step model s (op_Input (ops ! nat i)) (op_Output (ops ! nat i))),
      pb_prec = (\<lambda>j i. op_Return (ops ! nat j) < op_Call (ops ! nat i)),
      pb_init = Init model\<rparr>"

definition call_entry :: "'v Operation list \<Rightarrow> int \<Rightarrow> 'v pentry" where
  "call_entry ops i = \<lparr>en_return = False, en_value = op_Input (ops ! nat i), en_id = i, en_time = op_Call (ops ! nat i),
     en_clientId = op_ClientId (ops ! nat i)\<rparr>"

definition return_entry :: "'v Operation list \<Rightarrow> int \<Rightarrow> 'v pentry" where
  "return_entry ops i = \<lparr>en_return = True, en_value = op_Output (ops ! nat i), en_id = i, en_time = op_Return (ops ! nat i),
     en_clientId = op_ClientId (ops ! nat i)\<rparr>"

lemma makeEntries_loop_eq:
  "makeEntries_loop (int k) (drop k ops) = concat (map (\<lambda>i. [call_entry ops i, return_entry ops i]) [int k..int (length ops) - 1])"
proof (induction "length ops - k" arbitrary: k)
  case 0
  then show ?case by simp
next
  case (Suc d)
  then have k: "k < length ops" by simp
  have "makeEntries_loop (int k) (drop k ops) = call_entry ops (int k) # return_entry ops (int k) # makeEntries_loop (int (Suc k)) (drop (Suc k) ops)"
    by (subst Cons_nth_drop_Suc [OF k, symmetric]) (simp add: call_entry_def return_entry_def add.commute)
  moreover have "[int k..int (length ops) - 1] = int k # [int (Suc k)..int (length ops) - 1]"
    using k by (simp add: upto_rec1 add.commute)
  ultimately show ?case using Suc(1) [of "Suc k"] Suc(2) by simp
qed

lemma makeEntries_tags:
  "distinct (map tag (makeEntries_loop 0 ops)) \<and> set (map tag (makeEntries_loop 0 ops)) = UNIV \<times> {0..<int (length ops)} \<and>
   set (makeEntries_loop 0 ops) = (\<lambda>(k, i). if k then return_entry ops i else call_entry ops i) ` (UNIV \<times> {0..<int (length ops)})"
proof -
  have loop: "makeEntries_loop 0 ops = concat (map (\<lambda>i. [call_entry ops i, return_entry ops i]) [0..int (length ops) - 1])"
    using makeEntries_loop_eq [of 0 ops] by simp
  let ?es = "\<lambda>is. concat (map (\<lambda>i. [call_entry ops i, return_entry ops i]) is)"
  have tags: "map tag (?es is) = concat (map (\<lambda>i. [(False, i), (True, i)]) is)" for "is"
    by (induction "is") (auto simp: tag_def call_entry_def return_entry_def)
  have "distinct is \<Longrightarrow> distinct (map tag (?es is))" for "is"
    unfolding tags by (induction "is") auto
  then have "distinct (map tag (?es [0..int (length ops) - 1]))" by simp
  moreover have "set (map tag (?es is)) = UNIV \<times> set is" for "is"
    unfolding tags by (auto simp: UNIV_bool)
  moreover have "set (?es is) = (\<lambda>(k, i). if k then return_entry ops i else call_entry ops i) ` (UNIV \<times> set is)" for "is"
    by (simp add: UNIV_bool Sigma_def image_Un image_UN) blast
  moreover have "set [0..int (length ops) - 1] = {0..<int (length ops)}" by auto
  ultimately show ?thesis unfolding loop by (simp only: simp_thms)
qed

lemma makeEntries_positions:
  assumes "sorts sort_entries" "es = makeEntries sort_entries ops"
  shows "distinct (map tag es)" "set (map tag es) = UNIV \<times> {0..<int (length ops)}"
    "\<And>p. p < length es \<Longrightarrow> es ! p = (if en_return (es ! p) then return_entry ops (en_id (es ! p)) else call_entry ops (en_id (es ! p)))"
    "\<And>p q. p < q \<Longrightarrow> q < length es \<Longrightarrow> \<not> Less (es ! q) (es ! p)"
proof -
  have m: "mset es = mset (makeEntries_loop 0 ops)" and s: "sorted_wrt (\<lambda>a b. \<not> Less b a) es"
    using assms by (auto simp: sorts_def makeEntries_def)
  have mt: "mset (map tag es) = mset (map tag (makeEntries_loop 0 ops))" using m by simp
  note T = makeEntries_tags [of ops]
  show "distinct (map tag es)" using T mset_eq_imp_distinct_iff [OF mt] by simp
  show "set (map tag es) = UNIV \<times> {0..<int (length ops)}" using T mset_eq_setD [OF mt] by (simp only:)
  show "es ! p = (if en_return (es ! p) then return_entry ops (en_id (es ! p)) else call_entry ops (en_id (es ! p)))" if "p < length es" for p
  proof -
    have "es ! p \<in> set (makeEntries_loop 0 ops)" using nth_mem [OF that] mset_eq_setD [OF m] by simp
    with T obtain k i where "es ! p = (if k then return_entry ops i else call_entry ops i)" by auto
    then show ?thesis by (auto simp: call_entry_def return_entry_def)
  qed
  show "\<not> Less (es ! q) (es ! p)" if "p < q" "q < length es" for p q
    using s that by (simp add: sorted_wrt_iff_nth_less)
qed

lemma makeEntries_order:
  assumes S: "sorts sort_entries" "es = makeEntries sort_entries ops"
    and i: "i \<in> {0..<int (length ops)}" and j: "j \<in> {0..<int (length ops)}"
  shows "returns_before es j i \<longleftrightarrow> op_Return (ops ! nat j) < op_Call (ops ! nat i)"
proof -
  note T = makeEntries_positions [OF S]
  have "\<exists>p<length es. tag (es ! p) = (k, i)" if "i \<in> {0..<int (length ops)}" for k i
  proof -
    have "(k, i) \<in> set (map tag es)" unfolding T(2) using that by simp
    then show ?thesis by (auto simp: in_set_conv_nth)
  qed
  then obtain p q where p: "p < length es" "tag (es ! p) = (True, j)" and q: "q < length es" "tag (es ! q) = (False, i)"
    using i j by metis
  have times: "en_time (es ! p) = op_Return (ops ! nat j)" "en_time (es ! q) = op_Call (ops ! nat i)"
    using T(3) [OF p(1)] T(3) [OF q(1)] p(2) q(2) by (auto simp: tag_def return_entry_def call_entry_def)
  have less: "Less (es ! q) (es ! p) \<longleftrightarrow> \<not> op_Return (ops ! nat j) < op_Call (ops ! nat i)" "Less (es ! p) (es ! q) \<longleftrightarrow> op_Return (ops ! nat j) < op_Call (ops ! nat i)"
    using p(2) q(2) by (auto simp: Less_def times tag_def)
  have unique: "p' = p''" if "p' < length es" "p'' < length es" "tag (es ! p') = tag (es ! p'')" for p' p''
    using T(1) that nth_eq_iff_index_eq [of "map tag es" p' p''] by simp
  have "returns_before es j i \<longleftrightarrow> p < q"
    unfolding returns_before_def using p q unique by (metis less_trans)
  moreover have "p \<noteq> q" using p q by auto
  ultimately show ?thesis using T(4) [of p q] T(4) [of q p] p q less by (meson linorder_neqE_nat)
qed

lemma makeEntries_entries_of:
  assumes S: "sorts sort_entries" "es = makeEntries sort_entries ops" and valid: "\<forall>v \<in> set ops. op_Call v \<le> op_Return v"
  shows "entries_of es (length ops) (\<lambda>i. op_Input (ops ! nat i)) (\<lambda>i. op_Output (ops ! nat i))"
proof -
  note T = makeEntries_positions [OF S]
  have "en_value (es ! p) = (if en_return (es ! p) then op_Output (ops ! nat (en_id (es ! p))) else op_Input (ops ! nat (en_id (es ! p))))"
    if "p < length es" for p
    using arg_cong [OF T(3) [OF that], of en_value] by (auto simp: call_entry_def return_entry_def)
  then have val: "\<forall>e \<in> set es. en_value e = (if en_return e then op_Output (ops ! nat (en_id e)) else op_Input (ops ! nat (en_id e)))"
    unfolding all_set_conv_all_nth by blast
  have "en_id (es ! p) \<noteq> en_id (es ! q)" if "p < q" "q < length es" "en_return (es ! p)" "\<not> en_return (es ! q)" for p q
  proof
    assume e: "en_id (es ! p) = en_id (es ! q)"
    then have "returns_before es (en_id (es ! q)) (en_id (es ! q))"
      using that unfolding returns_before_def tag_def by auto
    moreover have id: "en_id (es ! q) \<in> {0..<int (length ops)}"
      using T(2) nth_mem [of q "map tag es"] that by (auto simp: tag_def)
    ultimately have "op_Return (ops ! nat (en_id (es ! q))) < op_Call (ops ! nat (en_id (es ! q)))"
      using makeEntries_order [OF S id id] by simp
    moreover have "ops ! nat (en_id (es ! q)) \<in> set ops" using id by (intro nth_mem) auto
    ultimately show False using valid by force
  qed
  with T(1,2) val show ?thesis by (auto simp: entries_of_def)
qed

lemma linearization_cong:
  assumes "pb_ops P = pb_ops Q" "pb_step P = pb_step Q" "pb_init P = pb_init Q"
    "\<And>i j. i \<in> pb_ops P \<Longrightarrow> j \<in> pb_ops P \<Longrightarrow> pb_prec P j i = pb_prec Q j i"
  shows "linearization P is \<longleftrightarrow> linearization Q is"
proof -
  have "obeys (pb_prec P) is \<longleftrightarrow> obeys (pb_prec Q) is" if "set is = pb_ops Q"
    using that assms(1,4) unfolding obeys_def by (intro iffI; elim sorted_wrt_mono_rel [rotated]) auto
  then show ?thesis unfolding linearization_def assms(1-3) by blast
qed

section \<open>All partitions\<close>

text \<open>A partition the checker can decide: operations with a call before the return, on which the model does not panic.\<close>

definition valid_history :: "('v, 's) Model \<Rightarrow> 'v Operation list \<Rightarrow> bool" where
  "valid_history model ops \<longleftrightarrow> int (length ops) < 2 ^ 64 \<and>
     (\<forall>v \<in> set ops. op_Call v \<le> op_Return v \<and> (\<forall>s. Step model s (op_Input v) (op_Output v) \<noteq> None))"

lemma partition_right:
  assumes sort: "sorts sort_entries" and valid: "valid_history model ops"
    and eq: "Equal model = Some eq" "state_equality (Step model) eq"
  shows "\<exists>b longest. checkSingle model (makeEntries sort_entries ops) computePartial kill = Some (b, longest) \<and>
    (b \<longrightarrow> linearizable (operations_problem model ops)) \<and> (\<not> b \<longrightarrow> \<not> linearizable (operations_problem model ops) \<or> (\<exists>k. kill k))"
proof -
  let ?es = "makeEntries sort_entries ops" and ?n = "length ops"
  let ?inp = "\<lambda>i. op_Input (ops ! nat i)" and ?out = "\<lambda>i. op_Output (ops ! nat i)"
  let ?P = "entries_problem model ?es ?n ?inp ?out"
  have E: "entries_of ?es ?n ?inp ?out"
    using valid by (intro makeEntries_entries_of [OF sort refl]) (simp add: valid_history_def)
  have "Step model s (?inp i) (?out i) \<noteq> None" if "0 \<le> i" "i < int ?n" for i s
    using valid that nth_mem [of "nat i" ops] by (auto simp: valid_history_def)
  from checkSingle_right [OF E eq this, of computePartial kill] valid obtain b longest where
    res: "checkSingle model ?es computePartial kill = Some (b, longest)" "right_answer ?P ?n kill (b, longest)"
    by (auto simp: valid_history_def)
  have "linearizable ?P \<longleftrightarrow> linearizable (operations_problem model ops)"
    unfolding linearizable_def using makeEntries_order [OF sort refl, of _ ops]
    by (intro iff_exI linearization_cong) (auto simp: entries_problem_def operations_problem_def)
  with res show ?thesis by (auto simp: right_answer_def linearizable_def split: if_splits)
qed

lemma collect_all:
  assumes "\<forall>i \<in> set arr. results i = Some True" "arr \<noteq> []" "cnt + length arr = n"
  shows "collect_loop results computeInfo n True cnt (map Result arr @ rest) = Next (True, False, n)"
  using assms
proof (induction arr arbitrary: cnt)
  case (Cons i arr)
  then show ?case by (cases arr) auto
qed simp

lemma collect_fail:
  assumes "\<forall>i \<in> set xs. results i = Some True" "results i = Some False" "cnt + length xs < n"
  shows "\<exists>c. collect_loop results False n True cnt (map Result xs @ Result i # rest) = Next (False, False, c)"
  using assms by (induction xs arbitrary: cnt) auto

lemma fillDefault_simps [simp]:
  "Partition (fillDefault model) = Some (case Partition model of None \<Rightarrow> NoPartition | Some f \<Rightarrow> f)"
  "PartitionEvent (fillDefault model) = Some (case PartitionEvent model of None \<Rightarrow> NoPartitionEvent | Some f \<Rightarrow> f)"
  "Equal (fillDefault model) = Some (case Equal model of None \<Rightarrow> ShallowEqual | Some f \<Rightarrow> f)"
  "Step (fillDefault model) = Step model" "Init (fillDefault model) = Init model"
  by (auto simp: fillDefault_def Let_def split: option.splits)

lemma filled_problem [simp]:
  "operations_problem (fillDefault model) ops = operations_problem model ops"
  "valid_history (fillDefault model) ops = valid_history model ops"
  by (simp_all add: operations_problem_def valid_history_def)

text \<open>
  What \<open>checkParallel\<close> makes of the results of the searches, when all arrive and none of those it
  receives was stopped: the flag is set only when a negative result has arrived.
\<close>

lemma collect_decides:
  assumes perm: "distinct arr" "set arr = {..<n}" and n: "0 < n"
    and res: "\<And>i. i < n \<Longrightarrow> \<exists>b. results i = Some b \<and> (b \<longrightarrow> good i) \<and> (\<not> b \<longrightarrow> \<not> good i \<or> killed i)"
    and flag: "\<And>k. k < length arr \<Longrightarrow> killed (arr ! k) \<Longrightarrow> \<exists>j<k. results (arr ! j) = Some False"
  shows "\<exists>ok c. collect_loop results False n True 0 (map Result arr) = Next (ok, False, c) \<and> (ok \<longleftrightarrow> (\<forall>i<n. good i))"
proof (cases "\<exists>i \<in> set arr. results i = Some False")
  case False
  with res perm have all: "\<forall>i \<in> set arr. results i = Some True" by (metis lessThan_iff)
  have "length arr = n" using perm distinct_card [of arr] by simp
  with collect_all [OF all, of 0 n False "[]"] n have "collect_loop results False n True 0 (map Result arr) = Next (True, False, n)" by auto
  moreover have "good i" if "i < n" for i using all res [OF that] perm(2) that by fastforce
  ultimately show ?thesis by blast
next
  case True
  then obtain xs i ys where split: "arr = xs @ i # ys" "results i = Some False" "\<forall>x \<in> set xs. results x \<noteq> Some False"
    using split_list_first_prop [OF True] by blast
  have i: "i < n" using perm(2) split(1) by auto
  have "\<forall>x \<in> set xs. results x = Some True"
    using split(1,3) res perm(2) by (metis UnCI lessThan_iff set_append)
  moreover have "length xs < n" using split(1) perm distinct_card [of arr] by auto
  ultimately obtain c where "collect_loop results False n True 0 (map Result arr) = Next (False, False, c)"
    using collect_fail [of xs results i 0 n "map Result ys"] split by auto
  moreover have "\<not> killed i"
  proof
    assume "killed i"
    with flag [of "length xs"] split(1) obtain j where "j < length xs" "results (arr ! j) = Some False" by auto
    with split(1,3) show False by (simp add: nth_append)
  qed
  then have "\<not> good i" using res [OF i] split(2) by auto
  ultimately show ?thesis using i by auto
qed

text \<open>
  C11: The search decides linearizability. For the entries of a history (one call and one later
  return per operation), a model whose \<open>Step\<close> does not panic on them, and an equality on states
  that the model respects, \<open>checkSingle\<close> returns, whenever and if ever its flag is set. When it answers
  true, every element of \<open>longest\<close> is one and the same complete linearization. When it answers
  false and the flag was never set, there is no linearization.
\<close>

theorem checkSingle_decides:
  assumes "entries_of es n inp out" "Equal model = Some eq" "state_equality (Step model) eq"
    and "\<And>i s. 0 \<le> i \<Longrightarrow> i < int n \<Longrightarrow> Step model s (inp i) (out i) \<noteq> None" and "int n < 2 ^ 64"
  shows "\<exists>b longest. checkSingle model es computePartial kill = Some (b, longest) \<and>
    (b \<longrightarrow> (\<exists>k is. linearization (entries_problem model es n inp out) is \<and> longest = replicate n (Some (k, is)))) \<and>
    (\<not> b \<longrightarrow> \<not> linearizable (entries_problem model es n inp out) \<or> (\<exists>k. kill k)) \<and>
    (\<forall>k seq. Some (k, seq) \<in> set longest \<longrightarrow> partial_linearization (entries_problem model es n inp out) seq)"
  using checkSingle_right [OF assms, of computePartial kill]
  by (auto simp: right_answer_def longest_ok_def split: if_splits)

text \<open>
  The answer for a history. If the model's partition of it is not empty and every part is valid,
  then \<open>CheckOperations\<close> returns whatever the order in which the results of the parts arrive, and it
  returns true just when each part is linearizable as its operations' times order them. The
  search of a part sees its flag set only after a negative result has arrived, since
  \<open>checkParallel\<close> sets it only then.
\<close>

lemma CheckOperations_parts:
  assumes sort: "sorts sort_entries"
    and parts: "(case Partition model of None \<Rightarrow> NoPartition | Some f \<Rightarrow> f) history = Some parts" "parts \<noteq> []"
    and valid: "\<forall>ops \<in> set parts. valid_history model ops"
    and eq: "state_equality (Step model) (case Equal model of None \<Rightarrow> ShallowEqual | Some f \<Rightarrow> f)"
    and arrivals: "distinct arrivals" "set arrivals = {..<length parts}"
    and flag: "\<And>k r. k < length arrivals \<Longrightarrow> kill (arrivals ! k) r \<Longrightarrow>
      \<exists>j<k. map_option fst (checkSingle (fillDefault model) (makeEntries sort_entries (parts ! (arrivals ! j))) False (kill (arrivals ! j))) = Some False"
  shows "CheckOperations sort_entries model history kill arrivals =
    Next (\<forall>ops \<in> set parts. linearizable (operations_problem model ops))"
proof -
  let ?es = "map (makeEntries sort_entries) parts"
  let ?results = "\<lambda>i. map_option fst (checkSingle (fillDefault model) (?es ! i) False (kill i))"
  let ?good = "\<lambda>i. linearizable (operations_problem model (parts ! i))"
  have res: "\<exists>b. ?results i = Some b \<and> (b \<longrightarrow> ?good i) \<and> (\<not> b \<longrightarrow> \<not> ?good i \<or> (\<exists>r. kill i r))" if "i < length parts" for i
    using partition_right [OF sort, of "fillDefault model" "parts ! i" _ False "kill i"] valid eq that by fastforce
  have fl: "\<exists>j<k. ?results (arrivals ! j) = Some False" if k: "k < length arrivals" "\<exists>r. kill (arrivals ! k) r" for k
  proof -
    from k flag obtain j where j: "j < k" "map_option fst (checkSingle (fillDefault model) (makeEntries sort_entries (parts ! (arrivals ! j))) False (kill (arrivals ! j))) = Some False"
      by blast
    with k(1) have "arrivals ! j < length parts" using arrivals(2) nth_mem [of j arrivals] by auto
    with j show ?thesis by (intro exI [of _ j]) simp
  qed
  from parts(2) have "0 < length parts" by simp
  from collect_decides [OF arrivals this res fl]
  obtain ok c where "collect_loop ?results False (length parts) True 0 (map Result arrivals) = Next (ok, False, c)"
    and ok: "ok \<longleftrightarrow> (\<forall>i<length parts. ?good i)" by blast
  moreover have "ok \<longleftrightarrow> (\<forall>ops \<in> set parts. linearizable (operations_problem model ops))"
    unfolding ok by (simp add: all_set_conv_all_nth)
  ultimately show ?thesis
    using parts(1) by (simp add: CheckOperations_def checkOperations_def checkParallel_def Let_def)
qed

section \<open>A sorting function\<close>

text \<open>A stable sort by the order that \<open>byTime\<close> defines.\<close>

definition time_sort :: "'v pentry list \<Rightarrow> 'v pentry list" where
  "time_sort = sort_key (\<lambda>e. 2 * en_time e + (if en_return e then 1 else 0))"

lemma time_sort_sorts: "sorts (time_sort :: 'v pentry list \<Rightarrow> _)"
proof -
  let ?k = "\<lambda>e :: 'v pentry. 2 * en_time e + (if en_return e then 1 else 0)"
  have "sorted_wrt (\<lambda>a b. ?k a \<le> ?k b) (time_sort es)" for es
    using sorted_sort_key [of ?k es] by (simp add: time_sort_def sorted_wrt_map)
  moreover have "?k a \<le> ?k b \<Longrightarrow> \<not> Less b a" for a b :: "'v pentry"
    by (auto simp: Less_def split: if_splits)
  ultimately have "sorted_wrt (\<lambda>a b. \<not> Less b a) (time_sort es)" for es :: "'v pentry list"
    by (blast intro: sorted_wrt_mono_rel [rotated])
  then show ?thesis by (simp add: sorts_def time_sort_def)
qed

end
