(* ===== verification/Linearizability_Local.thy ===== *)
theory Linearizability_Local
  imports Linearizability
begin

text \<open>
  Linearizability is local: linearizations of the operations on each object can be merged into
  one linearization of all operations. Each operation takes effect at a point of time between
  its call and its return, the latest call so far in the order of its object; ordering all
  operations by these points, stably, keeps the order of each object.
\<close>

definition point :: "('i \<Rightarrow> int) \<Rightarrow> 'i list \<Rightarrow> 'i \<Rightarrow> int" where
  "point call is i = Max (call ` insert i (set (takeWhile (\<lambda>j. j \<noteq> i) is)))"

lemma point_ge_call: "call i \<le> point call is i"
  by (simp add: point_def)

lemma point_split:
  assumes "distinct (xs @ i # ys)"
  shows "point call (xs @ i # ys) i = Max (call ` insert i (set xs))"
proof -
  have "takeWhile (\<lambda>j. j \<noteq> i) (xs @ i # ys) = xs"
    using assms by (subst takeWhile_append2) auto
  then show ?thesis by (simp add: point_def)
qed

lemma point_le_return:
  assumes "distinct is" "obeys (\<lambda>j i. ret j < call i) is" "i \<in> set is" "call i \<le> ret i"
  shows "point call is i \<le> (ret i :: int)"
proof -
  obtain xs ys where "is": "is = xs @ i # ys" using assms(3) split_list by fast
  have "call j \<le> ret i" if "j \<in> set xs" for j
    using assms(2) that unfolding "is" obeys_def by (auto simp: sorted_wrt_append not_less)
  with assms(4) show ?thesis
    unfolding "is" point_split [OF assms(1) [unfolded "is"]] by simp
qed

lemma points_sorted:
  assumes "distinct is" shows "sorted (map (point call is) is)"
proof (rule sorted_wrt_iff_nth_less [THEN iffD2], intro allI impI)
  fix p q assume pq: "p < q" "q < length (map (point call is) is)"
  let ?i = "is ! p" and ?j = "is ! q"
  have split: "is = take p is @ ?i # drop (Suc p) is" "is = take q is @ ?j # drop (Suc q) is"
    using pq by (simp_all add: id_take_nth_drop)
  have sub: "insert ?i (set (take p is)) \<subseteq> set (take q is)"
    using pq by (auto simp: in_set_conv_nth) (metis nth_take min_less_iff_conj less_trans)+
  have "point call is ?i = Max (call ` insert ?i (set (take p is)))" "point call is ?j = Max (call ` insert ?j (set (take q is)))"
    using point_split [of "take p is" ?i] point_split [of "take q is" ?j] assms split by metis+
  moreover have "Max (call ` insert ?i (set (take p is))) \<le> Max (call ` insert ?j (set (take q is)))"
    using sub by (intro Max_mono) auto
  ultimately show "map (point call is) is ! p \<le> map (point call is) is ! q"
    using pq by simp
qed

lemma filter_concat:
  assumes "distinct keys" "\<And>k. k \<in> set keys \<Longrightarrow> \<forall>i \<in> set (lin k). key i = k" "k \<in> set keys"
  shows "filter (\<lambda>i. key i = k) (concat (map lin keys)) = lin k"
  using assms
proof (induction keys)
  case (Cons a keys)
  have key: "key i = x" if "x \<in> set (a # keys)" "i \<in> set (lin x)" for x i
    using Cons.prems(2) [OF that(1)] that(2) by blast
  have none: "filter (\<lambda>i. key i = k) (concat (map lin keys)) = []" if "k \<notin> set keys"
    using that key by (fastforce simp: filter_empty_conv)
  show ?case
  proof (cases "k = a")
    case True
    have "filter (\<lambda>i. key i = a) (lin a) = lin a" using key [of a] by (simp add: filter_id_conv)
    with True none Cons.prems(1) show ?thesis by simp
  next
    case False
    have "filter (\<lambda>i. key i = k) (lin a) = []" using key [of a] False by (auto simp: filter_empty_conv)
    moreover have "filter (\<lambda>i. key i = k) (concat (map lin keys)) = lin k"
      using Cons.prems False by (intro Cons.IH) simp_all
    ultimately show ?thesis by simp
  qed
qed simp

lemma merge_linearizations:
  assumes keys: "distinct keys"
    and lin: "\<And>k. k \<in> set keys \<Longrightarrow> distinct (lin k) \<and> (\<forall>i \<in> set (lin k). key i = k) \<and> obeys (\<lambda>j i. ret j < call i) (lin k)"
    and valid: "\<And>k i. k \<in> set keys \<Longrightarrow> i \<in> set (lin k) \<Longrightarrow> call i \<le> (ret i :: int)"
  shows "\<exists>is. distinct is \<and> set is = (\<Union>k \<in> set keys. set (lin k)) \<and> obeys (\<lambda>j i. ret j < call i) is \<and>
    (\<forall>k \<in> set keys. filter (\<lambda>i. key i = k) is = lin k)"
proof -
  define t where "t = (\<lambda>i. point call (lin (key i)) i)"
  let ?is = "sort_key t (concat (map lin keys))"
  have t: "t i = point call (lin k) i" "call i \<le> t i" "t i \<le> ret i" if "k \<in> set keys" "i \<in> set (lin k)" for k i
    using lin [OF that(1)] that point_ge_call [of call i "lin k"] point_le_return [of "lin k" ret call i] valid
    by (auto simp: t_def)
  have "distinct (concat (map lin keys))"
    using keys lin
  proof (induction keys)
    case (Cons a keys)
    then have "distinct (lin a)" "distinct (concat (map lin keys))" by simp_all
    moreover have "set (lin a) \<inter> (\<Union>x \<in> set keys. set (lin x)) = {}"
    proof -
      have "i \<notin> set (lin x)" if "i \<in> set (lin a)" "x \<in> set keys" for i x
        using Cons.prems(1) Cons.prems(2) [of a] Cons.prems(2) [of x] that by auto
      then show ?thesis by blast
    qed
    ultimately show ?case by simp
  qed simp
  moreover have "obeys (\<lambda>j i. ret j < call i) ?is"
  proof -
    have "sorted_wrt (\<lambda>i j. t i \<le> t j) ?is"
      using sorted_sort_key [of t "concat (map lin keys)"] by (simp add: sorted_wrt_map)
    then show ?thesis
      unfolding obeys_def
    proof (rule sorted_wrt_mono_rel [rotated])
      fix i j assume "i \<in> set ?is" "j \<in> set ?is" "t i \<le> t j"
      then show "\<not> ret j < call i" using t(2) [of _ i] t(3) [of _ j] by (auto simp: not_less) (meson order_trans)
    qed
  qed
  moreover have "filter (\<lambda>i. key i = k) ?is = lin k" if k: "k \<in> set keys" for k
  proof -
    have "map t (lin k) = map (point call (lin k)) (lin k)" using t(1) [OF k] by simp
    then have "sorted (map t (lin k))" using points_sorted lin [OF k] by metis
    then show ?thesis
      using filter_concat [OF keys _ k, of lin key] lin by (simp add: filter_sort sort_key_id_if_sorted)
  qed
  ultimately show ?thesis by (intro exI [of _ ?is]) auto
qed

end
