(* ===== verification/Porcupine_KV.thy ===== *)
theory Porcupine_KV
  imports Porcupine_Top Linearizability_Local KV_Machine "HOL-Library.List_Lexorder" "HOL-Library.Char_ord"
begin

text \<open>
  The model of a key/value store for the checker (models/kv.go), and the composition of the
  checker with it: a history of gets, puts and appends passes the check just when it is
  linearizable for the key/value machine of package kvraft, all keys together. Strings are
  ordered byte by byte, as \<open>sort.Strings\<close> orders them.
\<close>

section \<open>The model\<close>

record KvInput =
  kv_Op :: "8 word"
  kv_Key :: string
  kv_Value :: string

record KvOutput =
  kv_Out :: string

text \<open>The dynamic types the checker's \<open>interface{}\<close> values can have here.\<close>

datatype kv_value = VIn KvInput | VOut KvOutput

fun kv_partition_loop ::
  "kv_value Operation list \<Rightarrow> (string \<times> kv_value Operation list) list \<Rightarrow> (string \<times> kv_value Operation list) list option" where
  "kv_partition_loop [] m = Some m"
| "kv_partition_loop (v # history) m =
     (case op_Input v of
        VIn inp \<Rightarrow>
          (let key = kv_Key inp
           in kv_partition_loop history
                (AList.update key ((case map_of m key of None \<Rightarrow> [] | Some l \<Rightarrow> l) @ [v]) m))
      | VOut _ \<Rightarrow> None)"

definition kv_Partition :: "kv_value Operation list \<Rightarrow> kv_value Operation list list option" where
  "kv_Partition history = do {
     m \<leftarrow> kv_partition_loop history [];
     let keys = sort (map fst m);
     Some (map (\<lambda>k. case map_of m k of None \<Rightarrow> [] | Some l \<Rightarrow> l) keys)
   }"

definition kv_Step :: "string \<Rightarrow> kv_value \<Rightarrow> kv_value \<Rightarrow> (bool \<times> string) option" where
  "kv_Step state input output =
     (case (input, output) of
        (VIn inp, VOut out) \<Rightarrow>
          Some (if kv_Op inp = 0 then (kv_Out out = state, state)
                else if kv_Op inp = 1 then (True, kv_Value inp)
                else (True, state @ kv_Value inp))
      | _ \<Rightarrow> None)"

definition KvModel :: "(kv_value, string) Model" where
  "KvModel = \<lparr>Partition = Some kv_Partition, PartitionEvent = None, Init = '''', Step = kv_Step, Equal = None\<rparr>"

definition kv_DescribeOperation :: "kv_value \<Rightarrow> kv_value \<Rightarrow> string option" where
  "kv_DescribeOperation input output =
     (case (input, output) of
        (VIn inp, VOut out) \<Rightarrow>
          Some (if kv_Op inp = 0 then ''get('' @ [CHR 39] @ kv_Key inp @ [CHR 39] @ '') -> '' @ [CHR 39] @ kv_Out out @ [CHR 39]
                else if kv_Op inp = 1 then ''put('' @ [CHR 39] @ kv_Key inp @ [CHR 39] @ '', '' @ [CHR 39] @ kv_Value inp @ [CHR 39] @ '')''
                else if kv_Op inp = 2 then ''append('' @ [CHR 39] @ kv_Key inp @ [CHR 39] @ '', '' @ [CHR 39] @ kv_Value inp @ [CHR 39] @ '')''
                else ''<invalid>'')
      | _ \<Rightarrow> None)"

section \<open>The equality of states\<close>

interpretation shallow: state_equality "Step m" ShallowEqual for m
  by unfold_locales (auto simp: ShallowEqual_def rel_option_iff rel_prod_sel split: option.splits)

section \<open>The partition\<close>

definition op_key :: "kv_value Operation \<Rightarrow> string" where
  "op_key v = (case op_Input v of VIn inp \<Rightarrow> kv_Key inp | VOut _ \<Rightarrow> '''')"

definition kv_typed :: "kv_value Operation \<Rightarrow> bool" where
  "kv_typed v \<longleftrightarrow> (\<exists>inp out. op_Input v = VIn inp \<and> op_Output v = VOut out)"

definition on_key :: "kv_value Operation list \<Rightarrow> string \<Rightarrow> kv_value Operation list" where
  "on_key history k = filter (\<lambda>v. op_key v = k) history"

lemma kv_partition_loop_spec:
  assumes "\<forall>v \<in> set history. kv_typed v" "distinct (map fst m)"
    "\<And>k. map_of m k = (if on_key pre k = [] then None else Some (on_key pre k))"
  shows "\<exists>m'. kv_partition_loop history m = Some m' \<and> distinct (map fst m') \<and>
    (\<forall>k. map_of m' k = (if on_key (pre @ history) k = [] then None else Some (on_key (pre @ history) k)))"
  using assms
proof (induction history arbitrary: m pre)
  case (Cons v history)
  from Cons.prems(1) obtain inp where inp: "op_Input v = VIn inp" by (auto simp: kv_typed_def)
  let ?m = "AList.update (kv_Key inp) ((case map_of m (kv_Key inp) of None \<Rightarrow> [] | Some l \<Rightarrow> l) @ [v]) m"
  have key: "op_key v = kv_Key inp" by (simp add: op_key_def inp)
  have "map_of ?m k = (if on_key (pre @ [v]) k = [] then None else Some (on_key (pre @ [v]) k))" for k
    using Cons.prems(3) key by (auto simp: update_conv' on_key_def)
  moreover have "distinct (map fst ?m)" using Cons.prems(2) by (rule distinct_update)
  ultimately show ?case
    using Cons.IH [of ?m "pre @ [v]", unfolded append.assoc append_Cons append_Nil] Cons.prems(1) by (simp add: inp Let_def)
qed simp

lemma kv_Partition_spec:
  assumes "\<forall>v \<in> set history. kv_typed v"
  shows "\<exists>keys. kv_Partition history = Some (map (on_key history) keys) \<and> distinct keys \<and> set keys = op_key ` set history"
proof -
  from kv_partition_loop_spec [OF assms, of "[]" "[]"] obtain m where
    m: "kv_partition_loop history [] = Some m" "distinct (map fst m)"
      "\<And>k. map_of m k = (if on_key history k = [] then None else Some (on_key history k))"
    by (auto simp: on_key_def)
  have "k \<in> set (map fst m) \<longleftrightarrow> k \<in> op_key ` set history" for k
  proof -
    have "k \<in> set (map fst m) \<longleftrightarrow> map_of m k \<noteq> None" by (simp add: map_of_eq_None_iff)
    also have "\<dots> \<longleftrightarrow> k \<in> op_key ` set history" by (auto simp: m(3) on_key_def filter_empty_conv)
    finally show ?thesis .
  qed
  then have "set (map fst m) = op_key ` set history" by blast
  moreover have "map (\<lambda>k. case map_of m k of None \<Rightarrow> [] | Some l \<Rightarrow> l) (sort (map fst m)) = map (on_key history) (sort (map fst m))"
    by (simp add: m(3))
  ultimately show ?thesis
    using m(1,2) by (intro exI [of _ "sort (map fst m)"]) (simp add: kv_Partition_def)
qed

section \<open>All keys together\<close>

text \<open>
  The specification: the operations run one after the other on the key/value machine of package
  kvraft, and a get returns the value it reads.
\<close>

definition store_step :: "kv_value \<Rightarrow> kv_value \<Rightarrow> MemoryKV \<Rightarrow> (bool \<times> MemoryKV) option" where
  "store_step input output mkv =
     (case (input, output) of
        (VIn inp, VOut out) \<Rightarrow>
          Some (if kv_Op inp = 0 then (fst (Get mkv (kv_Key inp)) = kv_Out out, mkv)
                else if kv_Op inp = 1 then (True, fst (Put mkv (kv_Key inp) (kv_Value inp)))
                else (True, fst (Append mkv (kv_Key inp) (kv_Value inp))))
      | _ \<Rightarrow> None)"

definition store_problem :: "kv_value Operation list \<Rightarrow> MemoryKV problem" where
  "store_problem history =
     \<lparr>pb_ops = {0..<int (length history)},
      pb_step = (\<lambda>i. store_step (op_Input (history ! nat i)) (op_Output (history ! nat i))),
      pb_prec = (\<lambda>j i. op_Return (history ! nat j) < op_Call (history ! nat i)),
      pb_init = newMemoryKV\<rparr>"

text \<open>The operations on one key, by their positions in the whole history.\<close>

definition key_problem :: "kv_value Operation list \<Rightarrow> string \<Rightarrow> string problem" where
  "key_problem history k =
     \<lparr>pb_ops = {i \<in> {0..<int (length history)}. op_key (history ! nat i) = k},
      pb_step = (\<lambda>i s. kv_Step s (op_Input (history ! nat i)) (op_Output (history ! nat i))),
      pb_prec = (\<lambda>j i. op_Return (history ! nat j) < op_Call (history ! nat i)),
      pb_init = ''''\<rparr>"

text \<open>Running the store is running each key on its own.\<close>

lemma run_store_keys:
  assumes "\<forall>i \<in> set is. kv_typed (h i)"
  shows "run (\<lambda>i. store_step (op_Input (h i)) (op_Output (h i))) mkv is \<noteq> None \<longleftrightarrow>
    (\<forall>k. run (\<lambda>i s. kv_Step s (op_Input (h i)) (op_Output (h i))) (fst (Get mkv k)) (filter (\<lambda>i. op_key (h i) = k) is) \<noteq> None)"
  using assms
proof (induction "is" arbitrary: mkv)
  case (Cons i "is")
  let ?f = "\<lambda>i. store_step (op_Input (h i)) (op_Output (h i))" and ?g = "\<lambda>i s. kv_Step s (op_Input (h i)) (op_Output (h i))"
  from Cons.prems obtain inp out where io: "op_Input (h i) = VIn inp" "op_Output (h i) = VOut out" by (auto simp: kv_typed_def)
  let ?k = "kv_Key inp"
  have key: "op_key (h i) = ?k" by (simp add: op_key_def io)
  have "?f i mkv \<noteq> None" by (simp add: store_step_def io)
  then obtain ok mkv' where f: "?f i mkv = Some (ok, mkv')" by (cases "?f i mkv") auto
  then have g: "?g i (fst (Get mkv ?k)) = Some (ok, fst (Get mkv' ?k))" and other: "\<And>k. k \<noteq> ?k \<Longrightarrow> Get mkv' k = Get mkv k"
    by (auto simp: store_step_def kv_Step_def io mkv.get_put mkv.get_append split: if_splits)
  show ?case
  proof (cases ok)
    case True
    have "(\<forall>k. run ?g (fst (Get mkv k)) (filter (\<lambda>i. op_key (h i) = k) (i # is)) \<noteq> None) \<longleftrightarrow>
      (\<forall>k. run ?g (fst (Get mkv' k)) (filter (\<lambda>i. op_key (h i) = k) is) \<noteq> None)"
    proof (intro iff_allI)
      fix k
      show "run ?g (fst (Get mkv k)) (filter (\<lambda>i. op_key (h i) = k) (i # is)) \<noteq> None \<longleftrightarrow>
        run ?g (fst (Get mkv' k)) (filter (\<lambda>i. op_key (h i) = k) is) \<noteq> None"
        using g True other [of k] key by (cases "k = ?k") simp_all
    qed
    with Cons f True show ?thesis by simp
  next
    case False
    then have "run ?g (fst (Get mkv ?k)) (filter (\<lambda>i. op_key (h i) = ?k) (i # is)) = None" using g key by simp
    moreover have "run ?f mkv (i # is) = None" using f False by simp
    ultimately show ?thesis by blast
  qed
qed simp

lemma kv_locality:
  assumes typed: "\<forall>v \<in> set history. kv_typed v" and valid: "\<forall>v \<in> set history. op_Call v \<le> op_Return v"
  shows "linearizable (store_problem history) \<longleftrightarrow> (\<forall>k \<in> op_key ` set history. linearizable (key_problem history k))"
proof -
  let ?h = "\<lambda>i. history ! nat i" and ?n = "int (length history)"
  let ?f = "\<lambda>i. store_step (op_Input (?h i)) (op_Output (?h i))" and ?g = "\<lambda>i s. kv_Step s (op_Input (?h i)) (op_Output (?h i))"
  let ?call = "\<lambda>i. op_Call (?h i)" and ?ret = "\<lambda>i. op_Return (?h i)"
  have mem: "?h i \<in> set history" if "i \<in> {0..<?n}" for i using that by (intro nth_mem) auto
  have run: "run ?f newMemoryKV is \<noteq> None \<longleftrightarrow> (\<forall>k. run ?g '''' (filter (\<lambda>i. op_key (?h i) = k) is) \<noteq> None)"
    if "set is = {0..<?n}" for "is"
    using run_store_keys [of "is" ?h newMemoryKV] that typed mem by (simp add: Get_def newMemoryKV_def)
  show ?thesis
  proof (intro iffI ballI)
    fix k assume "linearizable (store_problem history)"
    then obtain "is" where "is": "distinct is" "set is = {0..<?n}" "obeys (\<lambda>j i. ?ret j < ?call i) is" "run ?f newMemoryKV is \<noteq> None"
      by (auto simp: linearizable_def linearization_def store_problem_def)
    with run have "run ?g '''' (filter (\<lambda>i. op_key (?h i) = k) is) \<noteq> None" by blast
    with "is" have "linearization (key_problem history k) (filter (\<lambda>i. op_key (?h i) = k) is)"
      by (auto simp: linearization_def key_problem_def obeys_def sorted_wrt_filter)
    then show "linearizable (key_problem history k)" by (auto simp: linearizable_def)
  next
    assume "\<forall>k \<in> op_key ` set history. linearizable (key_problem history k)"
    then obtain lin where lin: "\<And>k. k \<in> op_key ` set history \<Longrightarrow> linearization (key_problem history k) (lin k)"
      unfolding linearizable_def by metis
    let ?keys = "remdups (map op_key history)"
    have L: "distinct (lin k)" "set (lin k) = {i \<in> {0..<?n}. op_key (?h i) = k}" "obeys (\<lambda>j i. ?ret j < ?call i) (lin k)" "run ?g '''' (lin k) \<noteq> None"
      if "k \<in> op_key ` set history" for k
      using lin [OF that] by (auto simp: linearization_def key_problem_def)
    have "\<exists>is. distinct is \<and> set is = (\<Union>k \<in> set ?keys. set (lin k)) \<and> obeys (\<lambda>j i. ?ret j < ?call i) is \<and>
      (\<forall>k \<in> set ?keys. filter (\<lambda>i. op_key (?h i) = k) is = lin k)"
      using L valid mem by (intro merge_linearizations) auto
    then obtain "is" where "is": "distinct is" "set is = (\<Union>k \<in> op_key ` set history. set (lin k))" "obeys (\<lambda>j i. ?ret j < ?call i) is"
      "\<And>k. k \<in> op_key ` set history \<Longrightarrow> filter (\<lambda>i. op_key (?h i) = k) is = lin k" by auto
    have all: "set is = {0..<?n}" unfolding "is"(2) using L(2) mem by fastforce
    have "run ?g '''' (filter (\<lambda>i. op_key (?h i) = k) is) \<noteq> None" for k
    proof (cases "k \<in> op_key ` set history")
      case False
      then have "filter (\<lambda>i. op_key (?h i) = k) is = []" using all mem by (auto simp: filter_empty_conv)
      then show ?thesis by simp
    qed (use "is"(4) L(4) in simp)
    with run [OF all] have "run ?f newMemoryKV is \<noteq> None" by blast
    with "is"(1,3) all show "linearizable (store_problem history)"
      by (auto simp: linearizable_def linearization_def store_problem_def)
  qed
qed

text \<open>A part of the partition is the problem of its key, with other numbers for the operations.\<close>

lemma run_rename: "\<forall>i \<in> set is. step' (f i) = step i \<Longrightarrow> run step' s (map f is) = run step s is"
  by (induction "is" arbitrary: s) (auto split: option.splits bool.splits)

lemma linearization_rename:
  assumes "linearization P is" "inj_on f (pb_ops P)" "pb_ops Q = f ` pb_ops P" "pb_init Q = pb_init P"
    "\<And>i. i \<in> pb_ops P \<Longrightarrow> pb_step Q (f i) = pb_step P i"
    "\<And>i j. i \<in> pb_ops P \<Longrightarrow> j \<in> pb_ops P \<Longrightarrow> pb_prec Q (f j) (f i) = pb_prec P j i"
  shows "linearization Q (map f is)"
proof -
  have "is": "distinct is" "set is = pb_ops P" "sorted_wrt (\<lambda>i j. \<not> pb_prec P j i) is" "run (pb_step P) (pb_init P) is \<noteq> None"
    using assms(1) by (auto simp: linearization_def obeys_def)
  have "sorted_wrt (\<lambda>i j. \<not> pb_prec Q (f j) (f i)) is"
    by (rule sorted_wrt_mono_rel [OF _ "is"(3)]) (use assms(6) "is"(2) in auto)
  then have "obeys (pb_prec Q) (map f is)" by (simp add: obeys_def sorted_wrt_map)
  moreover have "run (pb_step Q) (pb_init Q) (map f is) \<noteq> None"
    using run_rename [of "is" "pb_step Q" f "pb_step P"] assms(4,5) "is"(2,4) by simp
  ultimately show ?thesis
    using assms(2,3) "is"(1,2) by (simp add: linearization_def distinct_map)
qed

lemma part_linearizable:
  "linearizable (operations_problem KvModel (on_key history k)) \<longleftrightarrow> linearizable (key_problem history k)"
proof -
  define gs where "gs = filter (\<lambda>i. op_key (history ! i) = k) [0..<length history]"
  define f where "f = (\<lambda>i. int (gs ! nat i))"
  let ?P = "operations_problem KvModel (on_key history k)" and ?Q = "key_problem history k"
  have part: "on_key history k = map (\<lambda>i. history ! i) gs"
    unfolding on_key_def gs_def by (subst map_nth [of history, symmetric]) (simp only: filter_map comp_def)
  have ops: "pb_ops ?P = {0..<int (length gs)}" by (simp add: operations_problem_def part)
  have inj: "inj_on f (pb_ops ?P)"
    unfolding ops f_def by (auto simp: inj_on_def nth_eq_iff_index_eq gs_def)
  have "f ` pb_ops ?P = int ` set gs"
  proof -
    have "pb_ops ?P = int ` {0..<length gs}" using image_int_atLeastLessThan [of 0 "length gs"] by (simp add: ops)
    then have "f ` pb_ops ?P = int ` (!) gs ` {0..<length gs}" by (simp add: f_def image_image)
    then show ?thesis by (simp add: nth_image)
  qed
  also have "\<dots> = pb_ops ?Q"
    unfolding gs_def key_problem_def by (auto simp: image_iff) (metis nat_less_iff int_nat_eq)
  finally have img: "pb_ops ?Q = f ` pb_ops ?P" by simp
  have op: "on_key history k ! nat i = history ! nat (f i)" if "i \<in> pb_ops ?P" for i
    using that unfolding ops by (simp add: part f_def nat_less_iff)
  have step: "pb_step ?Q (f i) = pb_step ?P i" if "i \<in> pb_ops ?P" for i
    using op [OF that] by (simp add: operations_problem_def key_problem_def KvModel_def)
  have prec: "pb_prec ?Q (f j) (f i) = pb_prec ?P j i" if "i \<in> pb_ops ?P" "j \<in> pb_ops ?P" for i j
    using op [OF that(1)] op [OF that(2)] by (simp add: operations_problem_def key_problem_def)
  have init: "pb_init ?Q = pb_init ?P" by (simp add: operations_problem_def key_problem_def KvModel_def)
  let ?g = "inv_into (pb_ops ?P) f"
  have g: "?g i \<in> pb_ops ?P" "f (?g i) = i" if "i \<in> pb_ops ?Q" for i
    using that unfolding img by (auto intro: inv_into_into f_inv_into_f)
  show ?thesis
  proof
    assume "linearizable ?P"
    then show "linearizable ?Q"
      unfolding linearizable_def using linearization_rename [OF _ inj img init step prec] by blast
  next
    assume "linearizable ?Q"
    then obtain "is" where "is": "linearization ?Q is" by (auto simp: linearizable_def)
    have "linearization ?P (map ?g is)"
    proof (rule linearization_rename [OF "is"])
      show "inj_on ?g (pb_ops ?Q)" unfolding img by (rule inj_on_inv_into) simp
      show "pb_ops ?P = ?g ` pb_ops ?Q" unfolding img using inj by (simp add: inv_into_image_cancel)
    qed (use init step prec g in metis)+
    then show "linearizable ?P" by (auto simp: linearizable_def)
  qed
qed

lemma kv_check_parts:
  assumes sort: "sorts sort_entries" and ne: "history \<noteq> []"
    and typed: "\<forall>v \<in> set history. kv_typed v" and valid: "\<forall>v \<in> set history. op_Call v \<le> op_Return v"
    and small: "int (length history) < 2 ^ 64" and parts: "kv_Partition history = Some parts"
    and arrivals: "distinct arrivals" "set arrivals = {..<length parts}"
    and flag: "\<And>k r. k < length arrivals \<Longrightarrow> kill (arrivals ! k) r \<Longrightarrow>
      \<exists>j<k. map_option fst (checkSingle (fillDefault KvModel) (makeEntries sort_entries (parts ! (arrivals ! j))) False (kill (arrivals ! j))) = Some False"
  shows "CheckOperations sort_entries KvModel history kill arrivals = Next (linearizable (store_problem history))"
proof -
  obtain keys where keys: "parts = map (on_key history) keys" "set keys = op_key ` set history"
    using kv_Partition_spec [OF typed] parts by auto
  have sel: "Partition KvModel = Some kv_Partition" "Equal KvModel = None" "Step KvModel = kv_Step" by (simp_all add: KvModel_def)
  have eq: "state_equality kv_Step ShallowEqual" using shallow.state_equality_axioms [of KvModel] by (simp add: sel)
  have "valid_history KvModel (on_key history k)" for k
  proof -
    have "int (length (on_key history k)) < 2 ^ 64"
      using small length_filter_le [of "\<lambda>v. op_key v = k" history] unfolding on_key_def by linarith
    moreover have "kv_Step s (op_Input v) (op_Output v) \<noteq> None" if "v \<in> set history" for v s
      using typed that by (auto simp: kv_Step_def kv_typed_def)
    ultimately show ?thesis using valid by (auto simp: valid_history_def on_key_def sel)
  qed
  then have "CheckOperations sort_entries KvModel history kill arrivals =
      Next (\<forall>ops \<in> set parts. linearizable (operations_problem KvModel ops))"
    using keys ne by (intro CheckOperations_parts [OF sort _ _ _ _ arrivals flag]) (auto simp: sel parts eq)
  also have "(\<forall>ops \<in> set parts. linearizable (operations_problem KvModel ops)) = linearizable (store_problem history)"
    unfolding keys(1) using kv_locality [OF typed valid] keys(2) by (simp add: part_linearizable)
  finally show ?thesis .
qed

text \<open>
  C6: The check of key/value histories is exact. For a history of gets, puts and appends with
  at least one operation, \<open>CheckOperations\<close> with the key/value model returns, whatever the order in
  which the results of the keys arrive, and it returns true just when the whole history, all
  keys together, is linearizable for the key/value machine of package kvraft.
\<close>

theorem KvModel_check_exact:
  assumes sort: "sorts sort_entries" and ne: "history \<noteq> []"
    and typed: "\<forall>v \<in> set history. kv_typed v" and valid: "\<forall>v \<in> set history. op_Call v \<le> op_Return v"
    and small: "int (length history) < 2 ^ 64" and parts: "kv_Partition history = Some parts"
    and arrivals: "distinct arrivals" "set arrivals = {..<length parts}"
    and flag: "\<And>k r. k < length arrivals \<Longrightarrow> kill (arrivals ! k) r \<Longrightarrow>
      \<exists>j<k. map_option fst (checkSingle (fillDefault KvModel) (makeEntries sort_entries (parts ! (arrivals ! j))) False (kill (arrivals ! j))) = Some False"
  shows "CheckOperations sort_entries KvModel history kill arrivals = Next (linearizable (store_problem history))"
  by (rule kv_check_parts [OF assms])

section \<open>Examples\<close>

text \<open>A put of key x that overlaps with a get of it, which reads the value, and a put of key y.\<close>

definition demo_history :: "kv_value Operation list" where
  "demo_history =
     [\<lparr>op_ClientId = 0, op_Input = VIn \<lparr>kv_Op = 1, kv_Key = ''x'', kv_Value = ''1''\<rparr>, op_Call = 0, op_Output = VOut \<lparr>kv_Out = ''''\<rparr>, op_Return = 5\<rparr>,
      \<lparr>op_ClientId = 1, op_Input = VIn \<lparr>kv_Op = 0, kv_Key = ''x'', kv_Value = ''''\<rparr>, op_Call = 1, op_Output = VOut \<lparr>kv_Out = ''1''\<rparr>, op_Return = 3\<rparr>,
      \<lparr>op_ClientId = 1, op_Input = VIn \<lparr>kv_Op = 1, kv_Key = ''y'', kv_Value = ''2''\<rparr>, op_Call = 4, op_Output = VOut \<lparr>kv_Out = ''''\<rparr>, op_Return = 6\<rparr>]"

lemma demo_linearizable: "linearizable (store_problem demo_history)"
  unfolding linearizable_def
  by (rule exI [of _ "[0, 1, 2]"])
    (auto simp: linearization_def store_problem_def obeys_def store_step_def demo_history_def Get_def Put_def newMemoryKV_def)

lemma demo_parts: "\<exists>p q. kv_Partition demo_history = Some [p, q]"
  by (simp add: kv_Partition_def demo_history_def Let_def)

theorem KvModel_check_exact_witness:
  "CheckOperations time_sort KvModel demo_history (\<lambda>_ _. False) [1, 0] = Next True"
proof -
  obtain p q where pq: "kv_Partition demo_history = Some [p, q]" using demo_parts by blast
  have "CheckOperations time_sort KvModel demo_history (\<lambda>_ _. False) [1, 0] = Next (linearizable (store_problem demo_history))"
    by (rule KvModel_check_exact [OF time_sort_sorts _ _ _ _ pq]) (auto simp: demo_history_def kv_typed_def)
  then show ?thesis by (simp add: demo_linearizable)
qed

text \<open>
  C38: The check of a key/value history ends unless the history is empty. When the result of every
  partition arrives, in whatever order, \<open>CheckOperations\<close> waits for ever just when the history has no
  operation: the loop of \<open>checkParallel\<close> looks at the number of results only after receiving one,
  and an empty history has no partition. With a timeout such a history is answered \<open>Unknown\<close>,
  although it is linearizable.
\<close>

theorem check_waits_iff_empty:
  assumes sort: "sorts sort_entries"
    and typed: "\<forall>v \<in> set history. kv_typed v" and valid: "\<forall>v \<in> set history. op_Call v \<le> op_Return v"
    and small: "int (length history) < 2 ^ 64" and parts: "kv_Partition history = Some parts"
    and arrivals: "distinct arrivals" "set arrivals = {..<length parts}"
    and flag: "\<And>k r. k < length arrivals \<Longrightarrow> kill (arrivals ! k) r \<Longrightarrow>
      \<exists>j<k. map_option fst (checkSingle (fillDefault KvModel) (makeEntries sort_entries (parts ! (arrivals ! j))) False (kill (arrivals ! j))) = Some False"
  shows "(CheckOperations sort_entries KvModel history kill arrivals = Disabled \<longleftrightarrow> history = []) \<and>
    (history = [] \<longrightarrow> CheckOperationsTimeout sort_entries KvModel history kill [Timeout] = Next Unknown \<and> linearizable (store_problem history))"
proof (cases "history = []")
  case True
  have part: "kv_Partition [] = Some []" by (simp add: kv_Partition_def)
  with parts True have "parts = []" by simp
  with arrivals(2) have "arrivals = []" by simp
  moreover have "linearization (store_problem []) []"
    by (simp add: linearization_def store_problem_def obeys_def)
  ultimately show ?thesis using part True
    by (auto simp: CheckOperations_def CheckOperationsTimeout_def checkOperations_def checkParallel_def KvModel_def Let_def linearizable_def)
next
  case False
  from kv_check_parts [OF sort False typed valid small parts arrivals flag] False show ?thesis by simp
qed

theorem check_waits_iff_empty_witness:
  "CheckOperations time_sort KvModel [] (\<lambda>_ _. False) [] = Disabled \<and>
   CheckOperations time_sort KvModel demo_history (\<lambda>_ _. False) [0, 1] \<noteq> Disabled"
proof -
  obtain p q where pq: "kv_Partition demo_history = Some [p, q]" using demo_parts by blast
  have "kv_Partition [] = Some []" by (simp add: kv_Partition_def)
  from check_waits_iff_empty [OF time_sort_sorts _ _ _ this, of "[]" "\<lambda>_ _. False"]
  have "CheckOperations time_sort KvModel [] (\<lambda>_ _. False) [] = Disabled" by simp
  moreover have "demo_history \<noteq> []" by (simp add: demo_history_def)
  with check_waits_iff_empty [OF time_sort_sorts _ _ _ pq, of "[0, 1]" "\<lambda>_ _. False"]
  have "CheckOperations time_sort KvModel demo_history (\<lambda>_ _. False) [0, 1] \<noteq> Disabled"
    by (auto simp: demo_history_def kv_typed_def lessThan_Suc)
  ultimately show ?thesis by simp
qed

definition demo_entries :: "kv_value pentry list" where
  "demo_entries =
     [\<lparr>en_return = False, en_value = VIn \<lparr>kv_Op = 1, kv_Key = ''x'', kv_Value = ''1''\<rparr>, en_id = 0, en_time = 0, en_clientId = 0\<rparr>,
      \<lparr>en_return = True, en_value = VOut \<lparr>kv_Out = ''''\<rparr>, en_id = 0, en_time = 1, en_clientId = 0\<rparr>]"

theorem checkSingle_decides_witness:
  "\<exists>b longest. checkSingle (fillDefault KvModel) demo_entries True (\<lambda>_. False) = Some (b, longest) \<and>
     (\<not> b \<longrightarrow> \<not> linearizable (entries_problem (fillDefault KvModel) demo_entries 1
        (\<lambda>_. VIn \<lparr>kv_Op = 1, kv_Key = ''x'', kv_Value = ''1''\<rparr>) (\<lambda>_. VOut \<lparr>kv_Out = ''''\<rparr>)))"
proof -
  let ?inp = "\<lambda>_ :: int. VIn \<lparr>kv_Op = 1, kv_Key = ''x'', kv_Value = ''1''\<rparr>" and ?out = "\<lambda>_ :: int. VOut \<lparr>kv_Out = ''''\<rparr>"
  have "entries_of demo_entries 1 ?inp ?out"
    by (auto simp: entries_of_def demo_entries_def tag_def UNIV_bool less_Suc_eq)
  moreover have "Equal (fillDefault KvModel) = Some ShallowEqual" by (simp add: KvModel_def)
  moreover have "Step (fillDefault KvModel) s (?inp i) (?out i) \<noteq> None" for s and i :: int
    by (simp add: KvModel_def kv_Step_def)
  ultimately show ?thesis
    using checkSingle_decides [of demo_entries 1 ?inp ?out "fillDefault KvModel" ShallowEqual True "\<lambda>_. False"]
      shallow.state_equality_axioms by fastforce
qed

end
