(* ===== verification/MR_Worker.thy ===== *)
theory MR_Worker
  imports MR_Coordinator "HOL-Library.Word" "HOL-Library.Multiset" "HOL-Library.List_Lexorder" "HOL-Library.Char_ord"
begin

text \<open>
  The worker of the MapReduce library (package mr: worker.go) and the sequential program it is
  compared with (main/mrsequential.go). The map and reduce functions, which a plugin provides, are
  arguments, and so is \<open>sort.Sort\<close> with the order by key. Writing a temporary file and renaming it is one
  update of the files.
\<close>

unbundle bit_operations_syntax

section \<open>Strings\<close>

abbreviation tab :: char where "tab \<equiv> CHR 0x09"
abbreviation newline :: char where "newline \<equiv> CHR 0x0A"

text \<open>\<open>strings.Split\<close> with a separator of one byte.\<close>

fun Split :: "char \<Rightarrow> string \<Rightarrow> string list" where
  "Split c [] = [[]]"
| "Split c (x # xs) = (if x = c then [] # Split c xs else (x # hd (Split c xs)) # tl (Split c xs))"

text \<open>The white space of Unicode in UTF-8; \<open>strings.TrimSpace\<close> leaves nothing of a string of it.\<close>

definition spaces :: "string list" where
  "spaces = map (\<lambda>c. [c]) [CHR 0x09, CHR 0x0A, CHR 0x0B, CHR 0x0C, CHR 0x0D, CHR 0x20] @
     [[CHR 0xC2, CHR 0x85], [CHR 0xC2, CHR 0xA0], [CHR 0xE1, CHR 0x9A, CHR 0x80]] @
     map (\<lambda>c. [CHR 0xE2, CHR 0x80, c])
       [CHR 0x80, CHR 0x81, CHR 0x82, CHR 0x83, CHR 0x84, CHR 0x85, CHR 0x86, CHR 0x87, CHR 0x88, CHR 0x89, CHR 0x8A,
        CHR 0xA8, CHR 0xA9, CHR 0xAF] @
     [[CHR 0xE2, CHR 0x81, CHR 0x9F], [CHR 0xE3, CHR 0x80, CHR 0x80]]"

definition starts_with :: "string \<Rightarrow> string \<Rightarrow> bool" where
  "starts_with s w = (take (length w) s = w)"

function blank :: "string \<Rightarrow> bool" where
  "blank s =
     (case s of [] \<Rightarrow> True
      | c # cs \<Rightarrow>
          (case filter (\<lambda>w. w \<noteq> [] \<and> starts_with s w) spaces of
             [] \<Rightarrow> False | w # _ \<Rightarrow> blank (drop (length w) s)))"
  by auto
termination
proof (relation "measure length")
  fix s :: string and c cs w ws
  assume "s = c # cs" "filter (\<lambda>w. w \<noteq> [] \<and> starts_with s w) spaces = w # ws"
  then have "w \<in> set (filter (\<lambda>w. w \<noteq> [] \<and> starts_with s w) spaces)" by simp
  then have "w \<noteq> []" by simp
  with \<open>s = c # cs\<close> show "(drop (length w) s, s) \<in> measure length" by (cases w) auto
qed simp

section \<open>The worker\<close>

record KeyValue =
  mr_Key :: string
  mr_Value :: string

text \<open>The 32-bit FNV-1a hash.\<close>

definition fnv32a :: "string \<Rightarrow> 32 word" where
  "fnv32a s = fold (\<lambda>c h. (h XOR of_char c) * 16777619) s 2166136261"

definition ihash :: "string \<Rightarrow> int" where
  "ihash key = uint (fnv32a key AND 0x7fffffff)"

definition go_rem :: "int \<Rightarrow> int \<Rightarrow> int option" where
  "go_rem a b = (if b = 0 then None else Some (a mod \<bar>b\<bar>))"

fun bucket_loop :: "int \<Rightarrow> KeyValue list \<Rightarrow> (int \<Rightarrow> KeyValue list) \<Rightarrow> (int \<Rightarrow> KeyValue list) option" where
  "bucket_loop nReduce [] hashedkva = Some hashedkva"
| "bucket_loop nReduce (kv # kvs) hashedkva = do {
     hashedIndex \<leftarrow> go_rem (ihash (mr_Key kv)) nReduce;
     bucket_loop nReduce kvs (hashedkva(hashedIndex := hashedkva hashedIndex @ [kv]))
   }"

definition kv_line :: "KeyValue \<Rightarrow> string" where
  "kv_line kv = mr_Key kv @ [tab] @ mr_Value kv @ [newline]"

fun write_loop :: "files \<Rightarrow> int \<Rightarrow> (int \<Rightarrow> KeyValue list) \<Rightarrow> int list \<Rightarrow> files" where
  "write_loop fs taskId hashedkva [] = fs"
| "write_loop fs taskId hashedkva (i # is) =
     write_loop (fs(tmpMapOutFile taskId i \<mapsto> concat (map kv_line (hashedkva i)))) taskId hashedkva is"

definition writeToFile :: "files \<Rightarrow> int \<Rightarrow> int \<Rightarrow> KeyValue list \<Rightarrow> files option" where
  "writeToFile fs taskId nReduce intermediate = do {
     hashedkva \<leftarrow> bucket_loop nReduce intermediate (\<lambda>_. []);
     Some (write_loop fs taskId hashedkva [0..nReduce - 1])
   }"

definition generateIntermediate :: "files \<Rightarrow> string \<Rightarrow> (string \<Rightarrow> string \<Rightarrow> KeyValue list) \<Rightarrow> KeyValue list option" where
  "generateIntermediate fs filename mapf = map_option (mapf filename) (fs filename)"

text \<open>The two tasks up to their report, which is the coordinator's \<open>ReportTask\<close>.\<close>

definition doMapTask :: "files \<Rightarrow> int \<Rightarrow> string \<Rightarrow> int \<Rightarrow> (string \<Rightarrow> string \<Rightarrow> KeyValue list) \<Rightarrow> files option" where
  "doMapTask fs taskId filename nReduce mapf = do {
     intermediate \<leftarrow> generateIntermediate fs filename mapf;
     writeToFile fs taskId nReduce intermediate
   }"

fun read_loop :: "files \<Rightarrow> int \<Rightarrow> int list \<Rightarrow> string list \<Rightarrow> string list option" where
  "read_loop fs taskId [] lines = Some lines"
| "read_loop fs taskId (i # is) lines = do {
     content \<leftarrow> fs (finalMapOutFile i taskId);
     read_loop fs taskId is (lines @ Split newline content)
   }"

definition readIntermediate :: "files \<Rightarrow> int \<Rightarrow> int \<Rightarrow> string list option" where
  "readIntermediate fs taskId nMap = read_loop fs taskId [0..nMap - 1] []"

fun parse_loop :: "string list \<Rightarrow> KeyValue list \<Rightarrow> KeyValue list option" where
  "parse_loop [] kva = Some kva"
| "parse_loop (line # lines) kva =
     (if blank line then parse_loop lines kva
      else do {
        let sp = Split tab line;
        key \<leftarrow> idx sp 0;
        val \<leftarrow> idx sp 1;
        parse_loop lines (kva @ [\<lparr>mr_Key = key, mr_Value = val\<rparr>])
      })"

text \<open>The loop over runs of equal keys; it yields the lines it prints.\<close>

function reduce_loop :: "(string \<Rightarrow> string list \<Rightarrow> string) \<Rightarrow> KeyValue list \<Rightarrow> string list" where
  "reduce_loop reducef [] = []"
| "reduce_loop reducef (kv # kva) =
     (let same = takeWhile (\<lambda>x. mr_Key x = mr_Key kv) kva;
          output = reducef (mr_Key kv) (mr_Value kv # map mr_Value same)
      in (mr_Key kv @ '' '' @ output @ [newline]) #
         reduce_loop reducef (dropWhile (\<lambda>x. mr_Key x = mr_Key kv) kva))"
  by pat_completeness auto
termination
  by (relation "measure (\<lambda>(_, kva). length kva)") (auto simp: le_imp_less_Suc length_dropWhile_le)

definition doReduceTask ::
  "(KeyValue list \<Rightarrow> KeyValue list) \<Rightarrow> files \<Rightarrow> int \<Rightarrow> int \<Rightarrow> (string \<Rightarrow> string list \<Rightarrow> string) \<Rightarrow> files option" where
  "doReduceTask sort_kva fs taskId nMap reducef = do {
     lines \<leftarrow> readIntermediate fs taskId nMap;
     kva \<leftarrow> parse_loop lines [];
     Some (fs(tmpReduceOutFile taskId \<mapsto> concat (reduce_loop reducef (sort_kva kva))))
   }"

text \<open>
  One round of the loop of \<open>Worker\<close>, for the reply of the call of \<open>AssignTask\<close>: it does the task and
  reports it, or it quits; when the call fails, and for a task of another type, it goes on with
  the next round.
\<close>

datatype worker_round = Quit | Again | Reported files ReportTaskArgs

definition reportTask :: "files \<Rightarrow> string \<Rightarrow> int \<Rightarrow> worker_round" where
  "reportTask fs taskType taskID = Reported fs \<lparr>rt_TaskID = taskID, rt_TaskType = taskType\<rparr>"

definition Worker ::
  "(KeyValue list \<Rightarrow> KeyValue list) \<Rightarrow> (string \<Rightarrow> string \<Rightarrow> KeyValue list) \<Rightarrow> (string \<Rightarrow> string list \<Rightarrow> string) \<Rightarrow>
   files \<Rightarrow> bool \<Rightarrow> AssignTaskReply \<Rightarrow> worker_round option" where
  "Worker sort_kva mapf reducef fs ok reply =
     (let info = at_Info reply
      in if \<not> ok then Some Again
         else if ti_TaskType info = MAP
         then map_option (\<lambda>fs. reportTask fs MAP (ti_Id info)) (doMapTask fs (ti_Id info) (ti_Filename info) (at_NReduce reply) mapf)
         else if ti_TaskType info = REDUCE
         then map_option (\<lambda>fs. reportTask fs REDUCE (ti_Id info)) (doReduceTask sort_kva fs (ti_Id info) (at_NMap reply) reducef)
         else if ti_TaskType info = QUIT then Some Quit
         else Some Again)"

section \<open>The sequential program\<close>

fun sequential_loop :: "files \<Rightarrow> (string \<Rightarrow> string \<Rightarrow> KeyValue list) \<Rightarrow> string list \<Rightarrow> KeyValue list \<Rightarrow> KeyValue list option" where
  "sequential_loop fs mapf [] intermediate = Some intermediate"
| "sequential_loop fs mapf (filename # filenames) intermediate = do {
     content \<leftarrow> fs filename;
     sequential_loop fs mapf filenames (intermediate @ mapf filename content)
   }"

text \<open>The lines that \<open>mrsequential\<close> writes to its output file.\<close>

definition mrsequential ::
  "(KeyValue list \<Rightarrow> KeyValue list) \<Rightarrow> files \<Rightarrow> (string \<Rightarrow> string \<Rightarrow> KeyValue list) \<Rightarrow> (string \<Rightarrow> string list \<Rightarrow> string) \<Rightarrow>
   string list \<Rightarrow> string list option" where
  "mrsequential sort_kva fs mapf reducef filenames = do {
     intermediate \<leftarrow> sequential_loop fs mapf filenames [];
     Some (reduce_loop reducef (sort_kva intermediate))
   }"

section \<open>A job\<close>

text \<open>
  The tasks of a job one after the other, each followed by what the coordinator does when it
  accepts it.
\<close>

fun run_maps :: "files \<Rightarrow> int \<Rightarrow> (string \<Rightarrow> string \<Rightarrow> KeyValue list) \<Rightarrow> (int \<times> string) list \<Rightarrow> files option" where
  "run_maps fs nReduce mapf [] = Some fs"
| "run_maps fs nReduce mapf ((i, filename) # tasks) = do {
     fs \<leftarrow> doMapTask fs i filename nReduce mapf;
     fs \<leftarrow> accept_files fs nReduce MAP i;
     run_maps fs nReduce mapf tasks
   }"

fun run_reduces ::
  "(KeyValue list \<Rightarrow> KeyValue list) \<Rightarrow> files \<Rightarrow> int \<Rightarrow> int \<Rightarrow> (string \<Rightarrow> string list \<Rightarrow> string) \<Rightarrow> int list \<Rightarrow> files option" where
  "run_reduces sort_kva fs nMap nReduce reducef [] = Some fs"
| "run_reduces sort_kva fs nMap nReduce reducef (r # rs) = do {
     fs \<leftarrow> doReduceTask sort_kva fs r nMap reducef;
     fs \<leftarrow> accept_files fs nReduce REDUCE r;
     run_reduces sort_kva fs nMap nReduce reducef rs
   }"

section \<open>Intermediate files are read back\<close>

lemma Split_append: "c \<notin> set xs \<Longrightarrow> Split c (xs @ c # ys) = xs # Split c ys"
  by (induction xs) auto

lemma Split_none: "c \<notin> set xs \<Longrightarrow> Split c xs = [xs]"
  by (induction xs) auto

text \<open>A pair that survives the line format: no tabs, no line breaks, and not only white space.\<close>

definition clean :: "KeyValue \<Rightarrow> bool" where
  "clean kv \<longleftrightarrow> tab \<notin> set (mr_Key kv) \<and> newline \<notin> set (mr_Key kv) \<and> tab \<notin> set (mr_Value kv) \<and> newline \<notin> set (mr_Value kv) \<and>
     \<not> blank (mr_Key kv @ [tab] @ mr_Value kv)"

declare blank.simps [simp del]

lemma blank_Nil [simp]: "blank []"
  by (simp add: blank.simps)

lemma parse_lines:
  assumes "\<forall>kv \<in> set kvs. clean kv"
  shows "parse_loop (Split newline (concat (map kv_line kvs)) @ rest) kva = parse_loop rest (kva @ kvs)"
  using assms
proof (induction kvs arbitrary: kva)
  case (Cons kv kvs)
  let ?l = "mr_Key kv @ [tab] @ mr_Value kv"
  have c: "newline \<notin> set ?l" "\<not> blank ?l" "tab \<notin> set (mr_Key kv)" "tab \<notin> set (mr_Value kv)" using Cons.prems by (auto simp: clean_def)
  have "concat (map kv_line (kv # kvs)) = ?l @ newline # concat (map kv_line kvs)" by (simp add: kv_line_def)
  then have "Split newline (concat (map kv_line (kv # kvs))) = ?l # Split newline (concat (map kv_line kvs))"
    using Split_append [OF c(1)] by simp
  moreover have "Split tab ?l = [mr_Key kv, mr_Value kv]"
    using Split_append [OF c(3)] Split_none [OF c(4)] by simp
  ultimately show ?case
    using Cons c(2) by (cases kv) (simp add: idx_def)
qed simp

lemma read_parse:
  assumes "\<And>i. i \<in> set is \<Longrightarrow> fs (finalMapOutFile i r) = Some (concat (map kv_line (bucket i)))" "\<And>i kv. i \<in> set is \<Longrightarrow> kv \<in> set (bucket i) \<Longrightarrow> clean kv"
  shows "\<exists>lines'. read_loop fs r is lines = Some (lines @ lines') \<and>
    (\<forall>kva. parse_loop lines' kva = Some (kva @ concat (map bucket is)))"
  using assms
proof (induction "is" arbitrary: lines)
  case (Cons i "is")
  let ?l = "Split newline (concat (map kv_line (bucket i)))"
  from Cons.IH [of "lines @ ?l"] Cons.prems obtain lines' where
    l: "read_loop fs r is (lines @ ?l) = Some ((lines @ ?l) @ lines')" "\<forall>kva. parse_loop lines' kva = Some (kva @ concat (map bucket is))"
    by (metis list.set_intros(2))
  have "\<forall>kv \<in> set (bucket i). clean kv" using Cons.prems(2) [of i] by simp
  then have "parse_loop (?l @ lines') kva = Some (kva @ concat (map bucket (i # is)))" for kva
    using parse_lines [of "bucket i" lines' kva] l(2) by simp
  then show ?case using l(1) Cons.prems(1) by (intro exI [of _ "?l @ lines'"]) simp
qed simp

section \<open>Map tasks\<close>

lemma bucket_loop_spec:
  assumes "0 < nReduce"
  shows "bucket_loop nReduce kvs h = Some (\<lambda>r. h r @ filter (\<lambda>kv. ihash (mr_Key kv) mod nReduce = r) kvs)"
  using assms by (induction kvs arbitrary: h) (auto simp: go_rem_def fun_eq_iff)

lemma map_names_inj:
  assumes "Itoa i @ ''-'' @ Itoa r = Itoa j @ ''-'' @ Itoa q" "0 \<le> i" "0 \<le> j" "0 \<le> r" "0 \<le> q"
  shows "i = j \<and> r = q"
proof -
  have "digits (nat i) @ CHR ''-'' # digits (nat r) = digits (nat j) @ CHR ''-'' # digits (nat q)"
    using assms by (simp add: Itoa_def)
  from split_last [OF this dash_no_digit dash_no_digit] have "nat i = nat j" "nat r = nat q" using digits_inj by auto
  with assms(2-5) show ?thesis by (simp add: nat_eq_iff2)
qed

lemma tmpMapOutFile_inj: "tmpMapOutFile i r = tmpMapOutFile j q \<Longrightarrow> 0 \<le> i \<Longrightarrow> 0 \<le> j \<Longrightarrow> 0 \<le> r \<Longrightarrow> 0 \<le> q \<Longrightarrow> i = j \<and> r = q"
  using map_names_inj by (simp add: tmpMapOutFile_def)

lemma finalMapOutFile_inj: "finalMapOutFile i r = finalMapOutFile j q \<Longrightarrow> 0 \<le> i \<Longrightarrow> 0 \<le> j \<Longrightarrow> 0 \<le> r \<Longrightarrow> 0 \<le> q \<Longrightarrow> i = j \<and> r = q"
  using map_names_inj by (simp add: finalMapOutFile_def)

lemma write_loop_spec:
  assumes "0 \<le> i" "\<forall>r \<in> set rs. 0 \<le> r"
  shows "(\<forall>r. 0 \<le> r \<longrightarrow> r \<in> set rs \<longrightarrow> write_loop fs i h rs (tmpMapOutFile i r) = Some (concat (map kv_line (h r)))) \<and>
    (\<forall>x. x \<notin> tmpMapOutFile i ` set rs \<longrightarrow> write_loop fs i h rs x = fs x)"
  using assms(2)
proof (induction rs arbitrary: fs)
  case (Cons q rs)
  let ?fs = "fs(tmpMapOutFile i q \<mapsto> concat (map kv_line (h q)))"
  from Cons have IH: "\<And>r. 0 \<le> r \<Longrightarrow> r \<in> set rs \<Longrightarrow> write_loop ?fs i h rs (tmpMapOutFile i r) = Some (concat (map kv_line (h r)))"
    "\<And>x. x \<notin> tmpMapOutFile i ` set rs \<Longrightarrow> write_loop ?fs i h rs x = ?fs x" by simp_all
  have "write_loop ?fs i h rs (tmpMapOutFile i q) = Some (concat (map kv_line (h q)))"
    using IH(1) [of q] IH(2) [of "tmpMapOutFile i q"] Cons.prems tmpMapOutFile_inj [of i q i] assms(1)
    by (cases "q \<in> set rs") (auto simp: image_iff)
  with IH show ?case by auto
qed simp

lemma rename_loop_effect:
  assumes "0 \<le> i" "\<forall>r \<in> set rs. 0 \<le> r" "distinct rs" "\<And>r. r \<in> set rs \<Longrightarrow> fs (tmpMapOutFile i r) = Some (content r)"
  shows "\<exists>fs'. rename_loop fs i rs = Some fs' \<and> (\<forall>r \<in> set rs. fs' (finalMapOutFile i r) = Some (content r)) \<and>
    (\<forall>x. x \<notin> tmpMapOutFile i ` set rs \<longrightarrow> x \<notin> finalMapOutFile i ` set rs \<longrightarrow> fs' x = fs x)"
  using assms(2-4)
proof (induction rs arbitrary: fs)
  case (Cons q rs)
  let ?fs = "(fs(tmpMapOutFile i q := None))(finalMapOutFile i q \<mapsto> content q)"
  have ren: "Rename fs (tmpMapOutFile i q) (finalMapOutFile i q) = Some ?fs" using Cons.prems(3) by (simp add: Rename_def)
  have ne: "tmpMapOutFile i r \<noteq> tmpMapOutFile i q" "finalMapOutFile i q \<noteq> finalMapOutFile i r" if "r \<in> set rs" for r
    using that Cons.prems(1,2) tmpMapOutFile_inj [of i r i q] finalMapOutFile_inj [of i q i r] assms(1) by auto
  then have c: "?fs (tmpMapOutFile i r) = Some (content r)" if "r \<in> set rs" for r
    using that Cons.prems(3) by simp
  have "\<forall>r \<in> set rs. 0 \<le> r" "distinct rs" using Cons.prems(1,2) by simp_all
  from Cons.IH [OF this c] obtain fs' where
    fs': "rename_loop ?fs i rs = Some fs'" "\<forall>r \<in> set rs. fs' (finalMapOutFile i r) = Some (content r)"
      "\<forall>x. x \<notin> tmpMapOutFile i ` set rs \<longrightarrow> x \<notin> finalMapOutFile i ` set rs \<longrightarrow> fs' x = ?fs x" by blast
  have "finalMapOutFile i q \<notin> tmpMapOutFile i ` set rs \<and> finalMapOutFile i q \<notin> finalMapOutFile i ` set rs" using ne by auto
  then have "fs' (finalMapOutFile i q) = Some (content q)" using fs'(3) by simp
  with fs' ren show ?case by auto
qed simp

definition intermediate_of :: "(string \<Rightarrow> string \<Rightarrow> KeyValue list) \<Rightarrow> files \<Rightarrow> string \<Rightarrow> KeyValue list" where
  "intermediate_of mapf fs filename = mapf filename (the (fs filename))"

definition bucket_of :: "int \<Rightarrow> int \<Rightarrow> KeyValue list \<Rightarrow> KeyValue list" where
  "bucket_of nReduce r kvs = filter (\<lambda>kv. ihash (mr_Key kv) mod nReduce = r) kvs"

definition map_name :: "string \<Rightarrow> bool" where
  "map_name x \<longleftrightarrow> (\<exists>i r. x = tmpMapOutFile i r \<or> x = finalMapOutFile i r)"

lemma map_task_effect:
  assumes "0 \<le> i" "0 < nReduce" "fs filename \<noteq> None"
  shows "\<exists>fs1 fs2. doMapTask fs i filename nReduce mapf = Some fs1 \<and> accept_files fs1 nReduce MAP i = Some fs2 \<and>
    (\<forall>r \<in> {0..<nReduce}. fs2 (finalMapOutFile i r) = Some (concat (map kv_line (bucket_of nReduce r (intermediate_of mapf fs filename))))) \<and>
    (\<forall>x. (\<forall>r \<in> {0..<nReduce}. x \<noteq> tmpMapOutFile i r \<and> x \<noteq> finalMapOutFile i r) \<longrightarrow> fs2 x = fs x)"
proof -
  let ?rs = "[0..nReduce - 1]" let ?kvs = "intermediate_of mapf fs filename"
  let ?fs1 = "write_loop fs i (\<lambda>r. bucket_of nReduce r ?kvs) ?rs"
  have fs1: "doMapTask fs i filename nReduce mapf = Some ?fs1"
    using assms(3) by (auto simp: doMapTask_def generateIntermediate_def writeToFile_def bucket_loop_spec [OF assms(2)] bucket_of_def intermediate_of_def)
  note W = write_loop_spec [OF assms(1), of ?rs fs "\<lambda>r. bucket_of nReduce r ?kvs"]
  have "\<exists>fs2. rename_loop ?fs1 i ?rs = Some fs2 \<and>
      (\<forall>r \<in> set ?rs. fs2 (finalMapOutFile i r) = Some (concat (map kv_line (bucket_of nReduce r ?kvs)))) \<and>
      (\<forall>x. x \<notin> tmpMapOutFile i ` set ?rs \<longrightarrow> x \<notin> finalMapOutFile i ` set ?rs \<longrightarrow> fs2 x = ?fs1 x)"
    by (rule rename_loop_effect [OF assms(1)]) (use W in auto)
  then obtain fs2 where fs2: "rename_loop ?fs1 i ?rs = Some fs2"
    "\<And>r. r \<in> set ?rs \<Longrightarrow> fs2 (finalMapOutFile i r) = Some (concat (map kv_line (bucket_of nReduce r ?kvs)))"
    "\<And>x. x \<notin> tmpMapOutFile i ` set ?rs \<Longrightarrow> x \<notin> finalMapOutFile i ` set ?rs \<Longrightarrow> fs2 x = ?fs1 x" by blast
  have "fs2 x = fs x" if "\<forall>r \<in> {0..<nReduce}. x \<noteq> tmpMapOutFile i r \<and> x \<noteq> finalMapOutFile i r" for x
    using fs2(3) [of x] W that by force
  with fs1 fs2(1,2) show ?thesis by (auto simp: accept_files_def)
qed

lemma run_maps_effect:
  assumes "0 < nReduce" "distinct (map fst tasks)"
    "\<And>i f. (i, f) \<in> set tasks \<Longrightarrow> 0 \<le> i \<and> fs f \<noteq> None \<and> \<not> map_name f"
  shows "\<exists>fs'. run_maps fs nReduce mapf tasks = Some fs' \<and>
    (\<forall>(i, f) \<in> set tasks. \<forall>r \<in> {0..<nReduce}.
       fs' (finalMapOutFile i r) = Some (concat (map kv_line (bucket_of nReduce r (intermediate_of mapf fs f))))) \<and>
    (\<forall>x. (\<forall>i \<in> fst ` set tasks. \<forall>r \<in> {0..<nReduce}. x \<noteq> tmpMapOutFile i r \<and> x \<noteq> finalMapOutFile i r) \<longrightarrow> fs' x = fs x)"
  using assms(2,3)
proof (induction tasks arbitrary: fs)
  case (Cons t tasks)
  obtain i f where t: "t = (i, f)" by (cases t)
  let ?out = "\<lambda>fs r f. Some (concat (map kv_line (bucket_of nReduce r (intermediate_of mapf fs f))))"
  have i: "0 \<le> i" "fs f \<noteq> None" "i \<notin> fst ` set tasks" using Cons.prems t by auto
  obtain fs1 fs2 where fs2: "doMapTask fs i f nReduce mapf = Some fs1" "accept_files fs1 nReduce MAP i = Some fs2"
    "\<And>r. r \<in> {0..<nReduce} \<Longrightarrow> fs2 (finalMapOutFile i r) = ?out fs r f"
    "\<And>x. \<forall>r \<in> {0..<nReduce}. x \<noteq> tmpMapOutFile i r \<and> x \<noteq> finalMapOutFile i r \<Longrightarrow> fs2 x = fs x"
    using map_task_effect [of i nReduce fs f mapf] i(1,2) assms(1) by blast
  have keep: "fs2 g = fs g" if "(j, g) \<in> set tasks" for j g
    using Cons.prems(2) [of j g] that by (intro fs2(4)) (auto simp: map_name_def)
  have "0 \<le> j \<and> fs2 g \<noteq> None \<and> \<not> map_name g" if "(j, g) \<in> set tasks" for j g
    using Cons.prems(2) [of j g] keep [OF that] that by simp
  from Cons.IH [OF _ this] Cons.prems(1) obtain fs' where fs': "run_maps fs2 nReduce mapf tasks = Some fs'"
    "\<And>j g r. (j, g) \<in> set tasks \<Longrightarrow> r \<in> {0..<nReduce} \<Longrightarrow> fs' (finalMapOutFile j r) = ?out fs2 r g"
    "\<And>x. \<forall>j \<in> fst ` set tasks. \<forall>r \<in> {0..<nReduce}. x \<noteq> tmpMapOutFile j r \<and> x \<noteq> finalMapOutFile j r \<Longrightarrow> fs' x = fs2 x"
    by fastforce
  have "fs' (finalMapOutFile j r) = ?out fs r g" if "(j, g) \<in> set (t # tasks)" "r \<in> {0..<nReduce}" for j g r
  proof (cases "(j, g) \<in> set tasks")
    case True
    then show ?thesis using fs'(2) [OF True that(2)] keep [OF True] by (simp add: intermediate_of_def)
  next
    case False
    with that t have jg: "j = i" "g = f" by auto
    have "finalMapOutFile i r \<noteq> finalMapOutFile j' r'" if "j' \<in> fst ` set tasks" "r' \<in> {0..<nReduce}" for j' r'
    proof -
      from that(1) obtain g' where "(j', g') \<in> set tasks" by auto
      then have "0 \<le> j'" "j' \<noteq> i" using Cons.prems(2) [of j' g'] i(3) by force+
      then show ?thesis using finalMapOutFile_inj [of i r j' r'] i(1) that(2) \<open>r \<in> _\<close> by auto
    qed
    then show ?thesis using fs'(3) fs2(3) [OF that(2)] jg by simp
  qed
  moreover have "fs' x = fs x"
    if "\<forall>j \<in> fst ` set (t # tasks). \<forall>r \<in> {0..<nReduce}. x \<noteq> tmpMapOutFile j r \<and> x \<noteq> finalMapOutFile j r" for x
    using fs'(3) [of x] fs2(4) [of x] that by (simp add: t)
  ultimately show ?case using fs2(1,2) fs'(1) by (auto simp: t)
qed simp

section \<open>Reduce tasks\<close>

definition sorts_by_key :: "(KeyValue list \<Rightarrow> KeyValue list) \<Rightarrow> bool" where
  "sorts_by_key f \<longleftrightarrow> (\<forall>kva. mset (f kva) = mset kva \<and> sorted_wrt (\<lambda>a b. \<not> mr_Key b < mr_Key a) (f kva))"

text \<open>A reduce function that does not depend on the order of its values.\<close>

definition order_free :: "(string \<Rightarrow> string list \<Rightarrow> string) \<Rightarrow> bool" where
  "order_free reducef \<longleftrightarrow> (\<forall>k vs ws. mset vs = mset ws \<longrightarrow> reducef k vs = reducef k ws)"

definition out_line :: "(string \<Rightarrow> string list \<Rightarrow> string) \<Rightarrow> KeyValue list \<Rightarrow> string \<Rightarrow> string" where
  "out_line reducef kva k = k @ '' '' @ reducef k (map mr_Value (filter (\<lambda>kv. mr_Key kv = k) kva)) @ [newline]"

lemma sorted_runs:
  assumes "sorted_wrt (\<lambda>a b. \<not> mr_Key b < mr_Key a) kva" "\<forall>x \<in> set kva. k \<le> mr_Key x"
  shows "takeWhile (\<lambda>x. mr_Key x = k) kva = filter (\<lambda>x. mr_Key x = k) kva \<and>
    dropWhile (\<lambda>x. mr_Key x = k) kva = filter (\<lambda>x. mr_Key x \<noteq> k) kva"
  using assms
proof (induction kva)
  case (Cons a kva)
  show ?case
  proof (cases "mr_Key a = k")
    case False
    then have "\<forall>x \<in> set kva. mr_Key x \<noteq> k" using Cons.prems by (auto simp: order_less_le)
    with False show ?thesis by (simp add: filter_empty_conv filter_id_conv)
  qed (use Cons in simp)
qed simp

lemma reduce_loop_lines:
  assumes "sorted_wrt (\<lambda>a b. \<not> mr_Key b < mr_Key a) kva"
  shows "reduce_loop reducef kva = map (out_line reducef kva) (sorted_list_of_set (mr_Key ` set kva))"
  using assms
proof (induction reducef kva rule: reduce_loop.induct)
  case (2 reducef kv kva)
  let ?k = "mr_Key kv" let ?rest = "filter (\<lambda>x. mr_Key x \<noteq> ?k) kva"
  have le: "\<forall>x \<in> set kva. ?k \<le> mr_Key x" and s: "sorted_wrt (\<lambda>a b. \<not> mr_Key b < mr_Key a) kva" using 2(2) by auto
  note runs = sorted_runs [OF s le]
  have IH: "reduce_loop reducef ?rest = map (out_line reducef ?rest) (sorted_list_of_set (mr_Key ` set ?rest))"
    using 2(1) [OF refl refl] runs sorted_wrt_filter [OF s] by simp
  have "filter (\<lambda>x. mr_Key x = k) ?rest = filter (\<lambda>x. mr_Key x = k) (kv # kva)" if "k \<noteq> ?k" for k
    using that by (auto simp: conj_commute intro!: filter_cong)
  then have "map (out_line reducef ?rest) (sorted_list_of_set (mr_Key ` set ?rest)) =
      map (out_line reducef (kv # kva)) (sorted_list_of_set (mr_Key ` set ?rest))"
    by (auto simp: out_line_def)
  moreover have "sorted_list_of_set (mr_Key ` set (kv # kva)) = ?k # sorted_list_of_set (mr_Key ` set ?rest)"
  proof -
    have min: "Min (mr_Key ` set (kv # kva)) = ?k" using le by (intro Min_eqI) auto
    have "mr_Key ` set (kv # kva) - {?k} = mr_Key ` set ?rest" by auto
    with sorted_list_of_set_nonempty [of "mr_Key ` set (kv # kva)"] min show ?thesis by simp
  qed
  ultimately show ?case
    using IH runs by (simp add: Let_def out_line_def)
qed simp

lemma out_names_apart [simp]:
  "finalMapOutFile i r \<noteq> finalReduceOutFile q" "finalReduceOutFile q \<noteq> tmpReduceOutFile r"
  by (simp_all add: finalMapOutFile_def finalReduceOutFile_def tmpReduceOutFile_def)

lemma finalReduceOutFile_inj: "finalReduceOutFile r = finalReduceOutFile q \<Longrightarrow> 0 \<le> r \<Longrightarrow> 0 \<le> q \<Longrightarrow> r = q"
  using Itoa_inj by (simp add: finalReduceOutFile_def)

lemma reduce_task_effect:
  assumes read: "\<And>i. i \<in> {0..<nMap} \<Longrightarrow> fs (finalMapOutFile i r) = Some (concat (map kv_line (bucket i)))"
    and clean: "\<forall>i \<in> {0..<nMap}. \<forall>kv \<in> set (bucket i). clean kv"
  shows "\<exists>fs1 fs2. doReduceTask sort_kva fs r nMap reducef = Some fs1 \<and> accept_files fs1 nReduce REDUCE r = Some fs2 \<and>
    fs2 (finalReduceOutFile r) = Some (concat (reduce_loop reducef (sort_kva (concat (map bucket [0..nMap - 1]))))) \<and>
    (\<forall>x. x \<noteq> tmpReduceOutFile r \<longrightarrow> x \<noteq> finalReduceOutFile r \<longrightarrow> fs2 x = fs x)"
proof -
  have "\<exists>lines'. read_loop fs r [0..nMap - 1] [] = Some ([] @ lines') \<and>
      (\<forall>kva. parse_loop lines' kva = Some (kva @ concat (map bucket [0..nMap - 1])))"
    using read clean by (intro read_parse) auto
  then obtain lines where l: "read_loop fs r [0..nMap - 1] [] = Some lines"
    "\<And>kva. parse_loop lines kva = Some (kva @ concat (map bucket [0..nMap - 1]))" by auto
  let ?out = "concat (reduce_loop reducef (sort_kva (concat (map bucket [0..nMap - 1]))))"
  have "doReduceTask sort_kva fs r nMap reducef = Some (fs(tmpReduceOutFile r \<mapsto> ?out))"
    by (simp add: doReduceTask_def readIntermediate_def l)
  then show ?thesis by (auto simp: accept_files_def Rename_def)
qed

lemma run_reduces_effect:
  assumes "distinct rs" "\<forall>r \<in> set rs. 0 \<le> r"
    "\<And>i r. i \<in> {0..<nMap} \<Longrightarrow> r \<in> set rs \<Longrightarrow> fs (finalMapOutFile i r) = Some (concat (map kv_line (bucket r i)))"
    and clean: "\<forall>i \<in> {0..<nMap}. \<forall>r \<in> set rs. \<forall>kv \<in> set (bucket r i). clean kv"
  shows "\<exists>fs'. run_reduces sort_kva fs nMap nReduce reducef rs = Some fs' \<and>
    (\<forall>r \<in> set rs. fs' (finalReduceOutFile r) = Some (concat (reduce_loop reducef (sort_kva (concat (map (bucket r) [0..nMap - 1])))))) \<and>
    (\<forall>x. x \<notin> tmpReduceOutFile ` set rs \<longrightarrow> x \<notin> finalReduceOutFile ` set rs \<longrightarrow> fs' x = fs x)"
  using assms
proof (induction rs arbitrary: fs)
  case (Cons r rs)
  let ?out = "\<lambda>r. Some (concat (reduce_loop reducef (sort_kva (concat (map (bucket r) [0..nMap - 1])))))"
  have r0: "\<And>i. i \<in> {0..<nMap} \<Longrightarrow> fs (finalMapOutFile i r) = Some (concat (map kv_line (bucket r i)))"
    and c0: "\<forall>i \<in> {0..<nMap}. \<forall>kv \<in> set (bucket r i). clean kv"
    using Cons.prems(3,4) by simp_all
  have "\<exists>fs1 fs2. doReduceTask sort_kva fs r nMap reducef = Some fs1 \<and> accept_files fs1 nReduce REDUCE r = Some fs2 \<and>
      fs2 (finalReduceOutFile r) = ?out r \<and> (\<forall>x. x \<noteq> tmpReduceOutFile r \<longrightarrow> x \<noteq> finalReduceOutFile r \<longrightarrow> fs2 x = fs x)"
    by (rule reduce_task_effect [OF r0 c0])
  then obtain fs1 fs2 where fs2: "doReduceTask sort_kva fs r nMap reducef = Some fs1" "accept_files fs1 nReduce REDUCE r = Some fs2"
    "fs2 (finalReduceOutFile r) = ?out r" "\<And>x. x \<noteq> tmpReduceOutFile r \<Longrightarrow> x \<noteq> finalReduceOutFile r \<Longrightarrow> fs2 x = fs x"
    by blast
  have read: "fs2 (finalMapOutFile i q) = Some (concat (map kv_line (bucket q i)))" if "i \<in> {0..<nMap}" "q \<in> set rs" for i q
    using fs2(4) [of "finalMapOutFile i q"] Cons.prems(3) [of i q] that by simp
  have "distinct rs" "\<forall>r \<in> set rs. 0 \<le> r" "\<forall>i \<in> {0..<nMap}. \<forall>r \<in> set rs. \<forall>kv \<in> set (bucket r i). clean kv"
    using Cons.prems(1,2,4) by simp_all
  from Cons.IH [OF this(1,2) read this(3)] obtain fs' where fs': "run_reduces sort_kva fs2 nMap nReduce reducef rs = Some fs'"
    "\<And>q. q \<in> set rs \<Longrightarrow> fs' (finalReduceOutFile q) = ?out q"
    "\<And>x. x \<notin> tmpReduceOutFile ` set rs \<Longrightarrow> x \<notin> finalReduceOutFile ` set rs \<Longrightarrow> fs' x = fs2 x" by blast
  have "finalReduceOutFile r \<noteq> finalReduceOutFile q" if "q \<in> set rs" for q
    using finalReduceOutFile_inj [of r q] that Cons.prems(1,2) by auto
  then have "finalReduceOutFile r \<notin> finalReduceOutFile ` set rs" "finalReduceOutFile r \<notin> tmpReduceOutFile ` set rs" by auto
  from fs'(3) [OF this(2,1)] have "fs' (finalReduceOutFile r) = ?out r" using fs2(3) by simp
  with fs'(1,2,3) fs2(1,2,4) show ?case by auto
qed simp

section \<open>The distributed job and the sequential program\<close>

lemma sequential_loop_spec:
  "\<forall>f \<in> set filenames. fs f \<noteq> None \<Longrightarrow>
   sequential_loop fs mapf filenames kvs = Some (kvs @ concat (map (intermediate_of mapf fs) filenames))"
  by (induction filenames arbitrary: kvs) (auto simp: intermediate_of_def)

text \<open>Distributing the lines of the keys over the reduce tasks.\<close>

lemma lines_partition:
  fixes A :: "string set" and h :: "string \<Rightarrow> int"
  assumes "finite A" "distinct rs"
  shows "mset (concat (map (\<lambda>r. map f (sorted_list_of_set {k \<in> A. h k = r})) rs)) = image_mset f (mset_set {k \<in> A. h k \<in> set rs})"
  using assms(2)
proof (induction rs)
  case (Cons r rs)
  have "{k \<in> A. h k \<in> set (r # rs)} = {k \<in> A. h k = r} \<union> {k \<in> A. h k \<in> set rs}" by auto
  moreover have "mset_set ({k \<in> A. h k = r} \<union> {k \<in> A. h k \<in> set rs}) = mset_set {k \<in> A. h k = r} + mset_set {k \<in> A. h k \<in> set rs}"
    using assms(1) Cons.prems by (intro mset_set_Union) auto
  moreover have "mset (map f (sorted_list_of_set {k \<in> A. h k = r})) = image_mset f (mset_set {k \<in> A. h k = r})"
    by (simp flip: sorted_list_of_mset_set)
  ultimately show ?case using Cons by simp
qed simp

lemma reduce_sorted_lines:
  assumes sort: "sorts_by_key sort_kva" and ord: "order_free reducef"
    and sub: "\<And>k. k \<in> mr_Key ` set kva \<Longrightarrow> filter (\<lambda>kv. mr_Key kv = k) kva = filter (\<lambda>kv. mr_Key kv = k) all"
  shows "reduce_loop reducef (sort_kva kva) = map (out_line reducef all) (sorted_list_of_set (mr_Key ` set kva))"
proof -
  have m: "mset (sort_kva kva) = mset kva" and s: "sorted_wrt (\<lambda>a b. \<not> mr_Key b < mr_Key a) (sort_kva kva)"
    using sort by (auto simp: sorts_by_key_def)
  have set: "set (sort_kva kva) = set kva" using m by (metis set_mset_mset)
  have "reducef k (map mr_Value (filter (\<lambda>kv. mr_Key kv = k) (sort_kva kva))) = reducef k (map mr_Value (filter (\<lambda>kv. mr_Key kv = k) kva))" for k
    using m ord unfolding order_free_def by simp
  then have "out_line reducef (sort_kva kva) k = out_line reducef all k" if "k \<in> mr_Key ` set kva" for k
    using sub [OF that] by (simp add: out_line_def)
  then show ?thesis unfolding reduce_loop_lines [OF s] set by simp
qed

lemma bucket_concat: "concat (map (\<lambda>x. bucket_of nReduce r (g x)) xs) = bucket_of nReduce r (concat (map g xs))"
  by (simp add: bucket_of_def filter_concat comp_def)

lemma bucket_keys: "mr_Key ` set (bucket_of nReduce r kvs) = {k \<in> mr_Key ` set kvs. ihash k mod nReduce = r}"
  by (auto simp: bucket_of_def)

lemma enumerate_upto:
  "map (\<lambda>i. filenames ! nat i) [0..int (length filenames) - 1] = filenames"
proof (rule nth_equalityI)
  fix k assume "k < length (map (\<lambda>i. filenames ! nat i) [0..int (length filenames) - 1])"
  then show "map (\<lambda>i. filenames ! nat i) [0..int (length filenames) - 1] ! k = filenames ! k" by simp
qed simp

lemma concat_by_index:
  "concat (map (\<lambda>i. g (filenames ! nat i)) [0..int (length filenames) - 1]) = concat (map g filenames)"
proof -
  have "map (\<lambda>i. g (filenames ! nat i)) [0..int (length filenames) - 1] = map g (map (\<lambda>i. filenames ! nat i) [0..int (length filenames) - 1])"
    by simp
  then show ?thesis by (simp only: enumerate_upto)
qed

text \<open>The map tasks of a job in any order.\<close>

lemma maps_in_any_order:
  assumes n: "0 < nReduce"
    and tasks: "mset tasks = mset (map (\<lambda>i. (i, filenames ! nat i)) [0..int (length filenames) - 1])"
    and inputs: "\<forall>f \<in> set filenames. fs f \<noteq> None \<and> \<not> map_name f"
  obtains fs1 where "run_maps fs nReduce mapf tasks = Some fs1"
    "\<And>i r. i \<in> {0..<int (length filenames)} \<Longrightarrow> r \<in> {0..<nReduce} \<Longrightarrow>
       fs1 (finalMapOutFile i r) = Some (concat (map kv_line (bucket_of nReduce r (intermediate_of mapf fs (filenames ! nat i)))))"
proof -
  let ?m = "int (length filenames)"
  have set: "set tasks = (\<lambda>i. (i, filenames ! nat i)) ` {0..<?m}" using mset_eq_setD [OF tasks] by auto
  have f: "filenames ! nat i \<in> set filenames" if "i \<in> {0..<?m}" for i using that by (intro nth_mem) auto
  have "mset (map fst tasks) = mset (map fst (map (\<lambda>i. (i, filenames ! nat i)) [0..?m - 1]))"
    using tasks by (metis mset_map)
  also have "map fst (map (\<lambda>i. (i, filenames ! nat i)) [0..?m - 1]) = [0..?m - 1]" by (simp add: comp_def)
  finally have d: "distinct (map fst tasks)" using mset_eq_imp_distinct_iff distinct_upto by metis
  have "0 \<le> i \<and> fs g \<noteq> None \<and> \<not> map_name g" if "(i, g) \<in> set tasks" for i g
    using that inputs f by (auto simp: set)
  then have "\<exists>fs1. run_maps fs nReduce mapf tasks = Some fs1 \<and>
    (\<forall>(i, g) \<in> set tasks. \<forall>r \<in> {0..<nReduce}.
       fs1 (finalMapOutFile i r) = Some (concat (map kv_line (bucket_of nReduce r (intermediate_of mapf fs g)))))"
    using run_maps_effect [OF n d, of fs mapf] by meson
  then obtain fs1 where "run_maps fs nReduce mapf tasks = Some fs1"
    "\<And>i r. i \<in> {0..<?m} \<Longrightarrow> r \<in> {0..<nReduce} \<Longrightarrow>
       fs1 (finalMapOutFile i r) = Some (concat (map kv_line (bucket_of nReduce r (intermediate_of mapf fs (filenames ! nat i)))))"
    unfolding set by blast
  then show ?thesis by (rule that)
qed

text \<open>The reduce tasks of a job in any order.\<close>

lemma reduces_in_any_order:
  assumes rs: "mset rs = mset [0..nReduce - 1]"
    and maps: "\<And>i r. i \<in> {0..<int (length filenames)} \<Longrightarrow> r \<in> {0..<nReduce} \<Longrightarrow>
       fs1 (finalMapOutFile i r) = Some (concat (map kv_line (bucket_of nReduce r (kvs_of (filenames ! nat i)))))"
    and clean: "\<forall>f \<in> set filenames. \<forall>kv \<in> set (kvs_of f). clean kv"
  obtains fs2 where "run_reduces sort_kva fs1 (int (length filenames)) nReduce reducef rs = Some fs2"
    "\<And>r. r \<in> {0..<nReduce} \<Longrightarrow>
       fs2 (finalReduceOutFile r) = Some (concat (reduce_loop reducef (sort_kva (bucket_of nReduce r (concat (map kvs_of filenames))))))"
proof -
  let ?m = "int (length filenames)" and ?kvs = "\<lambda>i. kvs_of (filenames ! nat i)"
  have f: "filenames ! nat i \<in> set filenames" if "i \<in> {0..<?m}" for i using that by (intro nth_mem) auto
  have "set [0..nReduce - 1] = {0..<nReduce}" by auto
  then have rset: "set rs = {0..<nReduce}" "distinct rs"
    using mset_eq_setD [OF rs] mset_eq_imp_distinct_iff [OF rs] distinct_upto by (metis, metis)
  have "\<exists>fs2. run_reduces sort_kva fs1 ?m nReduce reducef rs = Some fs2 \<and>
    (\<forall>r \<in> set rs. fs2 (finalReduceOutFile r) = Some (concat (reduce_loop reducef (sort_kva (concat (map (\<lambda>i. bucket_of nReduce r (?kvs i)) [0..?m - 1])))))) \<and>
    (\<forall>x. x \<notin> tmpReduceOutFile ` set rs \<longrightarrow> x \<notin> finalReduceOutFile ` set rs \<longrightarrow> fs2 x = fs1 x)"
  proof (rule run_reduces_effect [OF rset(2)])
    show "\<forall>i \<in> {0..<?m}. \<forall>r \<in> set rs. \<forall>kv \<in> set (bucket_of nReduce r (?kvs i)). clean kv"
      using clean f by (auto simp: bucket_of_def)
  qed (use rset maps in auto)
  moreover have "concat (map (\<lambda>i. bucket_of nReduce r (?kvs i)) [0..?m - 1]) = bucket_of nReduce r (concat (map kvs_of filenames))" for r
    unfolding concat_by_index [of "\<lambda>f. bucket_of nReduce r (kvs_of f)"] by (rule bucket_concat)
  ultimately show ?thesis using rset(1) that by auto
qed

text \<open>The output lines of the reduce tasks together are those of one reduce over everything.\<close>

lemma output_lines:
  assumes n: "0 < nReduce" and sort: "sorts_by_key sort_kva"
    and ord: "order_free reducef"
  shows "mset (concat (map (\<lambda>r. reduce_loop reducef (sort_kva (bucket_of nReduce r kvs))) [0..nReduce - 1])) =
    mset (reduce_loop reducef (sort_kva kvs))"
proof -
  let ?h = "\<lambda>k. ihash k mod nReduce" and ?K = "mr_Key ` set kvs"
  have outs: "reduce_loop reducef (sort_kva (bucket_of nReduce r kvs)) =
      map (out_line reducef kvs) (sorted_list_of_set {k \<in> ?K. ?h k = r})" for r
    unfolding bucket_keys [symmetric]
    by (rule reduce_sorted_lines [OF sort ord]) (auto simp: bucket_of_def intro!: filter_cong)
  have "reduce_loop reducef (sort_kva kvs) = map (out_line reducef kvs) (sorted_list_of_set ?K)"
    by (rule reduce_sorted_lines [OF sort ord]) auto
  then have "mset (reduce_loop reducef (sort_kva kvs)) = image_mset (out_line reducef kvs) (mset_set ?K)"
    by (simp flip: sorted_list_of_mset_set)
  moreover have "{k \<in> ?K. ?h k \<in> set [0..nReduce - 1]} = ?K" using n by (auto simp: pos_mod_bound)
  moreover have "mset (concat (map (\<lambda>r. map (out_line reducef kvs) (sorted_list_of_set {k \<in> ?K. ?h k = r})) [0..nReduce - 1])) =
      image_mset (out_line reducef kvs) (mset_set {k \<in> ?K. ?h k \<in> set [0..nReduce - 1]})"
    by (rule lines_partition) simp_all
  ultimately show ?thesis unfolding outs by simp
qed

text \<open>A job: all map tasks in some order, then all reduce tasks in some order.\<close>

lemma mapreduce_runs:
  assumes n: "0 < nReduce"
    and tasks: "mset tasks = mset (map (\<lambda>i. (i, filenames ! nat i)) [0..int (length filenames) - 1])"
    and rs: "mset rs = mset [0..nReduce - 1]"
    and inputs: "\<forall>f \<in> set filenames. fs f \<noteq> None \<and> \<not> map_name f"
    and clean: "\<forall>f \<in> set filenames. \<forall>kv \<in> set (intermediate_of mapf fs f). clean kv"
  shows "\<exists>fs1 fs2. run_maps fs nReduce mapf tasks = Some fs1 \<and>
    run_reduces sort_kva fs1 (int (length filenames)) nReduce reducef rs = Some fs2 \<and>
    (\<forall>r \<in> {0..<nReduce}. fs2 (finalReduceOutFile r) =
      Some (concat (reduce_loop reducef (sort_kva (bucket_of nReduce r (concat (map (intermediate_of mapf fs) filenames)))))))"
proof -
  obtain fs1 where fs1: "run_maps fs nReduce mapf tasks = Some fs1"
    "\<And>i r. i \<in> {0..<int (length filenames)} \<Longrightarrow> r \<in> {0..<nReduce} \<Longrightarrow>
       fs1 (finalMapOutFile i r) = Some (concat (map kv_line (bucket_of nReduce r (intermediate_of mapf fs (filenames ! nat i)))))"
    using maps_in_any_order [OF n tasks inputs] by metis
  obtain fs2 where "run_reduces sort_kva fs1 (int (length filenames)) nReduce reducef rs = Some fs2"
    "\<And>r. r \<in> {0..<nReduce} \<Longrightarrow> fs2 (finalReduceOutFile r) =
      Some (concat (reduce_loop reducef (sort_kva (bucket_of nReduce r (concat (map (intermediate_of mapf fs) filenames))))))"
    using reduces_in_any_order [OF rs fs1(2) clean] by metis
  with fs1(1) show ?thesis by (intro exI [of _ fs1] exI [of _ fs2] conjI ballI)
qed

text \<open>
  C12: The distributed job computes what the sequential program computes. If every input file
  exists and is not named like an intermediate file, the pairs the map function emits survive the
  line format, and the reduce function does not depend on the order of its values, then the map
  tasks, in any order, and after them the reduce tasks, in any order, each accepted by the
  coordinator, succeed; and the lines of the output files together are the lines that
  \<open>mrsequential\<close> writes.
\<close>

theorem mapreduce_matches_sequential:
  assumes n: "0 < nReduce" and sort: "sorts_by_key sort_kva"
    and ord: "order_free reducef"
    and tasks: "mset tasks = mset (map (\<lambda>i. (i, filenames ! nat i)) [0..int (length filenames) - 1])"
    and rs: "mset rs = mset [0..nReduce - 1]"
    and inputs: "\<forall>f \<in> set filenames. fs f \<noteq> None \<and> \<not> map_name f"
    and clean: "\<forall>f \<in> set filenames. \<forall>kv \<in> set (intermediate_of mapf fs f). clean kv"
  shows "\<exists>fs1 fs2 seq outs. run_maps fs nReduce mapf tasks = Some fs1 \<and>
    run_reduces sort_kva fs1 (int (length filenames)) nReduce reducef rs = Some fs2 \<and>
    mrsequential sort_kva fs mapf reducef filenames = Some seq \<and>
    (\<forall>r \<in> {0..<nReduce}. fs2 (finalReduceOutFile r) = Some (concat (outs r))) \<and>
    mset (concat (map outs [0..nReduce - 1])) = mset seq"
proof -
  let ?all = "concat (map (intermediate_of mapf fs) filenames)"
  let ?outs = "\<lambda>r. reduce_loop reducef (sort_kva (bucket_of nReduce r ?all))"
  obtain fs1 fs2 where fs: "run_maps fs nReduce mapf tasks = Some fs1"
    "run_reduces sort_kva fs1 (int (length filenames)) nReduce reducef rs = Some fs2"
    "\<forall>r \<in> {0..<nReduce}. fs2 (finalReduceOutFile r) = Some (concat (?outs r))"
    using mapreduce_runs [OF n tasks rs inputs clean] by metis
  have "mrsequential sort_kva fs mapf reducef filenames = Some (reduce_loop reducef (sort_kva ?all))"
    using sequential_loop_spec [of filenames fs mapf "[]"] inputs by (simp add: mrsequential_def)
  with fs output_lines [OF n sort ord, where kvs = ?all] show ?thesis
    by (intro exI [of _ fs1] exI [of _ fs2] exI [of _ "reduce_loop reducef (sort_kva ?all)"] exI [of _ ?outs] conjI)
qed

section \<open>Example\<close>

definition count_map :: "string \<Rightarrow> string \<Rightarrow> KeyValue list" where
  "count_map filename content = [\<lparr>mr_Key = content, mr_Value = ''1''\<rparr>]"

definition count_reduce :: "string \<Rightarrow> string list \<Rightarrow> string" where
  "count_reduce key values = Itoa (int (length values))"

lemma key_sort: "sorts_by_key (sort_key mr_Key)"
proof -
  have "sorted_wrt (\<lambda>a b. mr_Key a \<le> mr_Key b) (sort_key mr_Key kva)" for kva :: "KeyValue list"
    using sorted_sort_key [of mr_Key kva] by (simp add: sorted_wrt_map)
  then have "sorted_wrt (\<lambda>a b. \<not> mr_Key b < mr_Key a) (sort_key mr_Key kva)" for kva :: "KeyValue list"
    by (simp add: not_less)
  then show ?thesis by (simp add: sorts_by_key_def)
qed

lemma not_blank_w: "\<not> blank (CHR ''w'' # tab # ''1'')"
  by (subst blank.simps) (simp add: spaces_def starts_with_def)

theorem mapreduce_matches_sequential_witness:
  "\<exists>fs1 fs2 seq outs. run_maps [''f'' \<mapsto> ''w''] 1 count_map [(0, ''f'')] = Some fs1 \<and>
     run_reduces (sort_key mr_Key) fs1 1 1 count_reduce [0] = Some fs2 \<and>
     mrsequential (sort_key mr_Key) [''f'' \<mapsto> ''w''] count_map count_reduce [''f''] = Some seq \<and>
     fs2 (finalReduceOutFile 0) = Some (concat (outs (0 :: int))) \<and> mset (outs 0) = mset seq"
proof -
  let ?fs = "[''f'' \<mapsto> ''w'']"
  have o: "order_free count_reduce"
    unfolding order_free_def count_reduce_def using mset_eq_length by metis
  have i: "\<forall>f \<in> set [''f'']. ?fs f \<noteq> None \<and> \<not> map_name f"
    by (simp add: map_name_def tmpMapOutFile_def finalMapOutFile_def)
  have c: "\<forall>f \<in> set [''f'']. \<forall>kv \<in> set (intermediate_of count_map ?fs f). clean kv"
    using not_blank_w by (simp add: intermediate_of_def count_map_def clean_def)
  have t: "mset [(0, ''f'')] = mset (map (\<lambda>i. (i, [''f''] ! nat i)) [0..int (length [''f'']) - 1])" "mset [0] = mset [0..1 - (1 :: int)]"
    by simp_all
  from mapreduce_matches_sequential [OF _ key_sort o t i c] obtain fs1 fs2 seq outs where res:
    "run_maps ?fs 1 count_map [(0, ''f'')] = Some fs1"
    "run_reduces (sort_key mr_Key) fs1 (int (length [''f''])) 1 count_reduce [0] = Some fs2"
    "mrsequential (sort_key mr_Key) ?fs count_map count_reduce [''f''] = Some seq"
    "\<forall>r \<in> {0..<1}. fs2 (finalReduceOutFile r) = Some (concat (outs r))" "mset (concat (map outs [0..1 - 1])) = mset seq"
    by (auto simp del: run_maps.simps run_reduces.simps)
  have "run_reduces (sort_key mr_Key) fs1 1 1 count_reduce [0] = Some fs2" "fs2 (finalReduceOutFile 0) = Some (concat (outs 0))"
    "mset (outs 0) = mset seq"
    using res(2,4,5) by (simp_all del: run_maps.simps run_reduces.simps)
  with res(1,3) show ?thesis by blast
qed

end
