(* ===== verification/MR_Apps.thy ===== *)
theory MR_Apps
  imports MR_Worker
begin

text \<open>
  The applications that come with the MapReduce library as plugins (mrapps: wc.go, indexer.go,
  nocrash.go, early_exit.go): their map and reduce functions, that the reduce functions
  do not depend on the order of the values, and what a word-count job computes. A text is a
  string of bytes that is decoded as UTF-8, rune by rune, a byte that fits no encoding being the
  rune U+FFFD; which runes above Latin-1 are letters is a table of the Unicode version and an argument
  here. What the test plugins do besides (sleeping, exiting at
  random, writing files that count processes) is left out.
\<close>

section \<open>Words\<close>

text \<open>\<open>unicode.IsLetter\<close>: Latin-1 is decided by itself, the other runes by the table.\<close>

definition IsLetter :: "(nat \<Rightarrow> bool) \<Rightarrow> nat \<Rightarrow> bool" where
  "IsLetter table r =
     (if r \<le> 0xFF
      then (0x41 \<le> r \<and> r \<le> 0x5A) \<or> (0x61 \<le> r \<and> r \<le> 0x7A) \<or> r = 0xAA \<or> r = 0xB5 \<or> r = 0xBA \<or>
           (0xC0 \<le> r \<and> r \<noteq> 0xD7 \<and> r \<noteq> 0xF7)
      else table r)"

text \<open>The first rune of a string and the number of its bytes.\<close>

definition continuation :: "char \<Rightarrow> bool" where
  "continuation c \<longleftrightarrow> 0x80 \<le> (of_char c :: nat) \<and> (of_char c :: nat) \<le> 0xBF"

definition second_byte :: "nat \<Rightarrow> char \<Rightarrow> bool" where
  "second_byte b c \<longleftrightarrow> continuation c \<and>
     (if b = 0xE0 then 0xA0 \<le> (of_char c :: nat) else if b = 0xED then (of_char c :: nat) \<le> 0x9F
      else if b = 0xF0 then 0x90 \<le> (of_char c :: nat) else if b = 0xF4 then (of_char c :: nat) \<le> 0x8F else True)"

definition trailing :: "nat \<Rightarrow> nat" where
  "trailing b = (if 0xC2 \<le> b \<and> b \<le> 0xDF then 1 else if 0xE0 \<le> b \<and> b \<le> 0xEF then 2 else if 0xF0 \<le> b \<and> b \<le> 0xF4 then 3 else 0)"

fun decode_rune :: "string \<Rightarrow> nat \<times> nat" where
  "decode_rune [] = (0xFFFD, 0)"
| "decode_rune (c # cs) =
     (let b = of_char c; n = trailing b; ts = take n cs
      in if b < 0x80 then (b, 1)
         else if 0 < n \<and> length ts = n \<and> second_byte b (hd ts) \<and> (\<forall>t\<in>set ts. continuation t)
         then (foldl (\<lambda>r t. r * 64 + of_char t mod 64) (b mod 2 ^ (6 - n)) ts, n + 1)
         else (0xFFFD, 1))"

lemma decode_rune_width: "s \<noteq> [] \<Longrightarrow> 1 \<le> snd (decode_rune s)"
  by (cases s) (simp_all add: Let_def)

lemma decode_rune_bytes:
  assumes "c \<in> set (take (snd (decode_rune s)) s)"
  shows "0x80 \<le> (of_char c :: nat) \<or> fst (decode_rune s) = of_char c"
proof (cases s)
  case (Cons c0 cs)
  show ?thesis
  proof (cases "of_char c0 < (0x80 :: nat)")
    case True
    with assms show ?thesis by (simp add: Cons Let_def)
  next
    case False
    with assms show ?thesis unfolding Cons
      by (auto simp: Let_def continuation_def split: if_splits)
  qed
qed (use assms in simp)

text \<open>The runes of a string, each with its bytes.\<close>

function runes_of :: "string \<Rightarrow> (nat \<times> string) list" where
  "runes_of s =
     (if s = [] then []
      else (fst (decode_rune s), take (snd (decode_rune s)) s) # runes_of (drop (snd (decode_rune s)) s))"
  by auto
termination
proof (relation "measure length")
  fix s :: string assume "s \<noteq> []"
  then show "(drop (snd (decode_rune s)) s, s) \<in> measure length" using decode_rune_width [of s] by auto
qed simp

declare runes_of.simps [simp del]

lemma runes_of_bytes: "(r, bs) \<in> set (runes_of s) \<Longrightarrow> c \<in> set bs \<Longrightarrow> 0x80 \<le> (of_char c :: nat) \<or> r = of_char c"
proof (induction s rule: runes_of.induct)
  case (1 s)
  show ?case
  proof (cases "s = []")
    case False
    with "1.prems"(1) consider "r = fst (decode_rune s)" "bs = take (snd (decode_rune s)) s" | "(r, bs) \<in> set (runes_of (drop (snd (decode_rune s)) s))"
      by (subst (asm) runes_of.simps) auto
    then show ?thesis using "1.IH" [OF False] "1.prems"(2) decode_rune_bytes [of c s] by cases blast+
  qed (use "1.prems" in \<open>simp add: runes_of.simps\<close>)
qed

text \<open>\<open>strings.FieldsFunc\<close>: the maximal runs of runes that do not satisfy the predicate, as strings.\<close>

function runs_of :: "('a \<Rightarrow> bool) \<Rightarrow> 'a list \<Rightarrow> 'a list list" where
  "runs_of f s =
     (case dropWhile f s of
        [] \<Rightarrow> []
      | c # cs \<Rightarrow> (c # takeWhile (\<lambda>x. \<not> f x) cs) # runs_of f (dropWhile (\<lambda>x. \<not> f x) cs))"
  by pat_completeness auto
termination
proof (relation "measure (\<lambda>(_, s). length s)")
  fix s :: "'a list" and f c cs
  assume "dropWhile f s = c # cs"
  then have "length (c # cs) \<le> length s" by (metis length_dropWhile_le)
  then show "((f, dropWhile (\<lambda>x. \<not> f x) cs), (f, s)) \<in> measure (\<lambda>(_, s). length s)"
    using length_dropWhile_le [of "\<lambda>x. \<not> f x" cs] by simp
qed simp

declare runs_of.simps [simp del]

definition FieldsFunc :: "string \<Rightarrow> (nat \<Rightarrow> bool) \<Rightarrow> string list" where
  "FieldsFunc s f = map (\<lambda>run. concat (map snd run)) (runs_of (\<lambda>(r, _). f r) (runes_of s))"

definition words_of :: "(nat \<Rightarrow> bool) \<Rightarrow> string \<Rightarrow> string list" where
  "words_of table s = FieldsFunc s (\<lambda>r. \<not> IsLetter table r)"

lemma runs_of_elements: "run \<in> set (runs_of f s) \<Longrightarrow> run \<noteq> [] \<and> set run \<subseteq> set s \<and> (\<forall>c\<in>set run. \<not> f c)"
proof (induction f s rule: runs_of.induct)
  case (1 f s)
  show ?case
  proof (cases "dropWhile f s")
    case Nil
    with "1.prems" show ?thesis by (simp add: runs_of.simps)
  next
    case (Cons c cs)
    then have c: "\<not> f c" "set (c # cs) \<subseteq> set s" by (metis hd_dropWhile list.discI list.sel(1), metis set_dropWhileD subsetI)
    have "runs_of f s = (c # takeWhile (\<lambda>x. \<not> f x) cs) # runs_of f (dropWhile (\<lambda>x. \<not> f x) cs)"
        by (subst runs_of.simps) (simp add: Cons)
    with "1.prems" have "run = c # takeWhile (\<lambda>x. \<not> f x) cs \<or> run \<in> set (runs_of f (dropWhile (\<lambda>x. \<not> f x) cs))" by simp
    then show ?thesis
    proof
      assume "run = c # takeWhile (\<lambda>x. \<not> f x) cs"
      with c show ?thesis using set_takeWhileD [of _ "\<lambda>x. \<not> f x" cs] by auto
    next
      assume "run \<in> set (runs_of f (dropWhile (\<lambda>x. \<not> f x) cs))"
      from "1.IH" [OF Cons this] c(2) show ?thesis using set_dropWhileD [of _ "\<lambda>x. \<not> f x" cs] by fastforce
    qed
  qed
qed

text \<open>Each byte of a word belongs to the encoding of a rune beyond ASCII, or it is a letter of ASCII.\<close>

lemma words_of_bytes:
  assumes "w \<in> set (words_of table s)" "c \<in> set w"
  shows "0x80 \<le> (of_char c :: nat) \<or> IsLetter table (of_char c)"
proof -
  from assms obtain run r bs where run: "run \<in> set (runs_of (\<lambda>(r, _). \<not> IsLetter table r) (runes_of s))" "(r, bs) \<in> set run" "c \<in> set bs"
    by (auto simp: words_of_def FieldsFunc_def)
  note el = runs_of_elements [OF run(1)]
  have "(r, bs) \<in> set (runes_of s)" "IsLetter table r" using el run(2) by auto
  with runes_of_bytes [OF _ run(3)] show ?thesis by blast
qed

text \<open>An e with an acute accent (two bytes) belongs to its word, a multiplication sign and a lone byte separate words.\<close>

lemma words_utf8:
  "words_of table (''caf'' @ [CHR 0xC3, CHR 0xA9] @ '' a'' @ [CHR 0xC3, CHR 0x97] @ ''b'') = [''caf'' @ [CHR 0xC3, CHR 0xA9], ''a'', ''b'']"
  "words_of (\<lambda>_. False) (''a'' @ [CHR 0xC3] @ ''b'') = [''a'', ''b'']"
  by (simp_all add: words_of_def FieldsFunc_def runes_of.simps runs_of.simps IsLetter_def trailing_def continuation_def second_byte_def)

section \<open>The applications\<close>

definition wc_Map :: "(nat \<Rightarrow> bool) \<Rightarrow> string \<Rightarrow> string \<Rightarrow> KeyValue list" where
  "wc_Map table filename contents = map (\<lambda>w. \<lparr>mr_Key = w, mr_Value = ''1''\<rparr>) (words_of table contents)"

definition wc_Reduce :: "string \<Rightarrow> string list \<Rightarrow> string" where
  "wc_Reduce key values = Itoa (int (length values))"

fun Join_strings :: "string list \<Rightarrow> string \<Rightarrow> string" where
  "Join_strings [] sep = ''''"
| "Join_strings [s] sep = s"
| "Join_strings (s # t # ss) sep = s @ sep @ Join_strings (t # ss) sep"

text \<open>The set of words is visited in an order the language leaves open, here the argument \<open>order\<close>.\<close>

definition indexer_Map :: "(nat \<Rightarrow> bool) \<Rightarrow> (string list \<Rightarrow> string list) \<Rightarrow> string \<Rightarrow> string \<Rightarrow> KeyValue list" where
  "indexer_Map table order document contents =
     map (\<lambda>w. \<lparr>mr_Key = w, mr_Value = document\<rparr>) (order (remdups (words_of table contents)))"

definition indexer_Reduce :: "string \<Rightarrow> string list \<Rightarrow> string" where
  "indexer_Reduce key values = Itoa (int (length values)) @ '' '' @ Join_strings (sort values) '',''"

definition nocrash_Map :: "string \<Rightarrow> string \<Rightarrow> KeyValue list" where
  "nocrash_Map filename contents =
     [\<lparr>mr_Key = ''a'', mr_Value = filename\<rparr>, \<lparr>mr_Key = ''b'', mr_Value = Itoa (int (length filename))\<rparr>,
      \<lparr>mr_Key = ''c'', mr_Value = Itoa (int (length contents))\<rparr>, \<lparr>mr_Key = ''d'', mr_Value = ''xyzzy''\<rparr>]"

definition nocrash_Reduce :: "string \<Rightarrow> string list \<Rightarrow> string" where
  "nocrash_Reduce key values = Join_strings (sort values) '' ''"

definition early_exit_Map :: "string \<Rightarrow> string \<Rightarrow> KeyValue list" where
  "early_exit_Map filename contents = [\<lparr>mr_Key = filename, mr_Value = ''1''\<rparr>]"

definition early_exit_Reduce :: "string \<Rightarrow> string list \<Rightarrow> string" where
  "early_exit_Reduce key values = Itoa (int (length values))"

text \<open>All of them may be used with a job whose values arrive in any order.\<close>

lemma reduce_order_free:
  "order_free wc_Reduce" "order_free indexer_Reduce" "order_free nocrash_Reduce" "order_free early_exit_Reduce"
proof -
  have len: "length vs = length ws" if "mset vs = mset ws" for vs ws :: "string list" using that by (metis size_mset)
  have srt: "sort vs = sort ws" if "mset vs = mset ws" for vs ws :: "string list"
    using that by (metis properties_for_sort sorted_sort mset_sort)
  show "order_free wc_Reduce" "order_free early_exit_Reduce"
    unfolding order_free_def wc_Reduce_def early_exit_Reduce_def using len by metis+
  show "order_free indexer_Reduce" "order_free nocrash_Reduce"
    unfolding order_free_def indexer_Reduce_def nocrash_Reduce_def using len srt by metis+
qed

section \<open>Word count\<close>

lemma not_blank_end: "\<not> blank (s @ [CHR ''1''])"
proof (induction "length s" arbitrary: s rule: less_induct)
  case less
  have "CHR ''1'' \<notin> set w" if "w \<in> set spaces" for w using that by (auto simp: spaces_def)
  then have w: "w \<noteq> [] \<and> length w \<le> length s" if "w \<in> set (filter (\<lambda>w. w \<noteq> [] \<and> starts_with (s @ [CHR ''1'']) w) spaces)" for w
  proof -
    have m: "w \<in> set spaces" "w \<noteq> []" "take (length w) (s @ [CHR ''1'']) = w" using that by (simp_all add: starts_with_def)
    have "length w \<le> length s"
    proof (rule ccontr)
      assume "\<not> length w \<le> length s"
      then have "w = s @ [CHR ''1'']" using m(3) by simp
      with \<open>\<And>w. w \<in> set spaces \<Longrightarrow> CHR ''1'' \<notin> set w\<close> [OF m(1)] show False by simp
    qed
    with m(2) show ?thesis by simp
  qed
  show ?case
  proof (cases "filter (\<lambda>w. w \<noteq> [] \<and> starts_with (s @ [CHR ''1'']) w) spaces")
    case Nil
    then show ?thesis by (cases s) (simp_all add: blank.simps)
  next
    case (Cons w ws)
    with w [of w] have l: "w \<noteq> []" "length w \<le> length s" by auto
    then have "blank (s @ [CHR ''1'']) = blank (drop (length w) s @ [CHR ''1''])"
    proof -
      obtain c cs where c: "s @ [CHR ''1''] = c # cs" by (cases s) auto
      have "blank (c # cs) = blank (drop (length w) (c # cs))" using Cons unfolding c by (subst blank.simps) simp
      with l(2) show ?thesis unfolding c [symmetric] by simp
    qed
    moreover have "length (drop (length w) s) < length s" using l by (cases w) simp_all
    note less [OF this]
    ultimately show ?thesis by (simp only: simp_thms)
  qed
qed

lemma wc_clean: "kv \<in> set (wc_Map table filename contents) \<Longrightarrow> clean kv"
proof -
  assume "kv \<in> set (wc_Map table filename contents)"
  then obtain w where w: "w \<in> set (words_of table contents)" "kv = \<lparr>mr_Key = w, mr_Value = ''1''\<rparr>" by (auto simp: wc_Map_def)
  have "tab \<notin> set w" "newline \<notin> set w" using words_of_bytes [OF w(1), of tab] words_of_bytes [OF w(1), of newline] by (auto simp: IsLetter_def)
  then show "clean kv" using not_blank_end [of "w @ [tab]"] by (simp add: w(2) clean_def)
qed

lemma wc_lines:
  assumes "kvs = map (\<lambda>w. \<lparr>mr_Key = w, mr_Value = ''1''\<rparr>) ws"
  shows "out_line wc_Reduce kvs w = w @ '' '' @ Itoa (int (count_list ws w)) @ [newline]" "mr_Key ` set kvs = set ws"
proof -
  have "length (filter (\<lambda>kv. mr_Key kv = w) kvs) = count_list ws w" unfolding assms by (induction ws) auto
  then show "out_line wc_Reduce kvs w = w @ '' '' @ Itoa (int (count_list ws w)) @ [newline]" by (simp add: out_line_def wc_Reduce_def)
  show "mr_Key ` set kvs = set ws" by (simp add: assms image_image)
qed

text \<open>
  C30: A word-count job counts words. Take any number of input files, all of which exist and none of which has a
  name of the form that the job uses for its intermediate files, any positive number of reduce tasks and
  any order in which the workers finish the tasks. The lines of the output files together are one line
  per word that occurs in the inputs, with the number of its occurrences in all of them. A
  word is a maximal run of letters in a file read as UTF-8, whatever runes above Latin-1 count as letters.
\<close>

theorem word_count_job:
  assumes "0 < nReduce" "sorts_by_key sort_kva"
    and "mset tasks = mset (map (\<lambda>i. (i, filenames ! nat i)) [0..int (length filenames) - 1])" "mset rs = mset [0..nReduce - 1]"
    and "\<forall>f \<in> set filenames. fs f \<noteq> None \<and> \<not> map_name f"
  shows "\<exists>fs1 fs2 outs. run_maps fs nReduce (wc_Map table) tasks = Some fs1 \<and>
    run_reduces sort_kva fs1 (int (length filenames)) nReduce wc_Reduce rs = Some fs2 \<and>
    (\<forall>r \<in> {0..<nReduce}. fs2 (finalReduceOutFile r) = Some (concat (outs r))) \<and>
    mset (concat (map outs [0..nReduce - 1])) =
      (let ws = concat (map (\<lambda>f. words_of table (the (fs f))) filenames)
       in image_mset (\<lambda>w. w @ '' '' @ Itoa (int (count_list ws w)) @ [newline]) (mset_set (set ws)))"
proof -
  let ?ws = "concat (map (\<lambda>f. words_of table (the (fs f))) filenames)"
  let ?all = "concat (map (intermediate_of (wc_Map table) fs) filenames)"
  have all: "?all = map (\<lambda>w. \<lparr>mr_Key = w, mr_Value = ''1''\<rparr>) ?ws"
    by (simp add: intermediate_of_def [abs_def] wc_Map_def map_concat comp_def)
  have "\<forall>f \<in> set filenames. \<forall>kv \<in> set (intermediate_of (wc_Map table) fs f). clean kv"
    using wc_clean by (auto simp: intermediate_of_def)
  from mapreduce_runs [OF assms(1,3-5) this, of sort_kva wc_Reduce] obtain fs1 fs2 where
    r: "run_maps fs nReduce (wc_Map table) tasks = Some fs1" "run_reduces sort_kva fs1 (int (length filenames)) nReduce wc_Reduce rs = Some fs2"
      "\<forall>r \<in> {0..<nReduce}. fs2 (finalReduceOutFile r) = Some (concat (reduce_loop wc_Reduce (sort_kva (bucket_of nReduce r ?all))))"
    by blast
  have "reduce_loop wc_Reduce (sort_kva ?all) = map (out_line wc_Reduce ?all) (sorted_list_of_set (mr_Key ` set ?all))"
    by (rule reduce_sorted_lines [OF assms(2) reduce_order_free(1)]) simp
  moreover have "out_line wc_Reduce ?all = (\<lambda>w. w @ '' '' @ Itoa (int (count_list ?ws w)) @ [newline])"
    by (rule ext) (rule wc_lines(1) [OF all])
  ultimately have "mset (reduce_loop wc_Reduce (sort_kva ?all)) =
      image_mset (\<lambda>w. w @ '' '' @ Itoa (int (count_list ?ws w)) @ [newline]) (mset_set (set ?ws))"
    unfolding wc_lines(2) [OF all] by (simp add: mset_sorted_list_of_multiset flip: sorted_list_of_mset_set)
  with r output_lines [OF assms(1,2) reduce_order_free(1), of ?all] show ?thesis
    by (intro exI [of _ fs1] exI [of _ fs2] exI [of _ "\<lambda>r. reduce_loop wc_Reduce (sort_kva (bucket_of nReduce r ?all))"])
      (simp add: Let_def)
qed

theorem word_count_job_witness:
  "\<exists>fs1 fs2 outs. run_maps [''f'' \<mapsto> ''to be or not to be''] 1 (wc_Map (\<lambda>_. True)) [(0, ''f'')] = Some fs1 \<and>
     run_reduces (sort_key mr_Key) fs1 1 1 wc_Reduce [0] = Some fs2 \<and>
     fs2 (finalReduceOutFile 0) = Some (concat (outs (0 :: int))) \<and>
     (''to'' @ '' '' @ ''2'' @ [newline]) \<in> set (outs 0)"
proof -
  let ?fs = "[''f'' \<mapsto> ''to be or not to be'']"
  have i: "\<forall>f \<in> set [''f'']. ?fs f \<noteq> None \<and> \<not> map_name f"
    by (simp add: map_name_def tmpMapOutFile_def finalMapOutFile_def)
  have t: "mset [(0, ''f'')] = mset (map (\<lambda>i. (i, [''f''] ! nat i)) [0..int (length [''f'']) - 1])" "mset [0] = mset [0..1 - (1 :: int)]"
    by simp_all
  have ws: "words_of (\<lambda>_. True) ''to be or not to be'' = [''to'', ''be'', ''or'', ''not'', ''to'', ''be'']" "Itoa 2 = ''2''" by code_simp+
  obtain fs1 fs2 outs where r:
    "run_maps ?fs 1 (wc_Map (\<lambda>_. True)) [(0, ''f'')] = Some fs1"
    "run_reduces (sort_key mr_Key) fs1 (int (length [''f''])) 1 wc_Reduce [0] = Some fs2"
    "\<forall>r \<in> {0..<1}. fs2 (finalReduceOutFile r) = Some (concat (outs r))"
    "mset (concat (map outs [0..1 - 1])) =
      (let ws = concat (map (\<lambda>f. words_of (\<lambda>_. True) (the (?fs f))) [''f''])
       in image_mset (\<lambda>w. w @ '' '' @ Itoa (int (count_list ws w)) @ [newline]) (mset_set (set ws)))"
    using word_count_job [OF zero_less_one key_sort t i, of "\<lambda>_. True"] by blast
  have m: "mset (outs 0) = image_mset (\<lambda>w. w @ '' '' @ Itoa (int (count_list (words_of (\<lambda>_. True) ''to be or not to be'') w)) @ [newline])
      (mset_set (set (words_of (\<lambda>_. True) ''to be or not to be'')))" using r(4) by (simp add: Let_def)
  have "set_mset (mset (outs 0)) = (\<lambda>w. w @ '' '' @ Itoa (int (count_list (words_of (\<lambda>_. True) ''to be or not to be'') w)) @ [newline]) `
      set (words_of (\<lambda>_. True) ''to be or not to be'')" unfolding m by simp
  then have "(''to'' @ '' '' @ ''2'' @ [newline]) \<in> set (outs 0)"
    by (simp add: ws)
  with r(1-3) show ?thesis by auto
qed

end
