(* ===== verification/Labrpc_Calls.thy ===== *)
theory Labrpc_Calls
  imports Labrpc
begin

text \<open>
  What the network promises its clients: runs of the network as sequences of events, the
  contract of a remote call as an abstract transition system (a call is executed at most once, and
  a call that returns true returns what that execution replied), and the proof that the
  network implements it; that no reply of a deleted server gets through; that calls return;
  and the bounds of the counters.
\<close>

section \<open>Runs\<close>

datatype ('o, 'v) table_op =
    OpReliable bool | OpLongReordering bool | OpLongDelays bool | OpMakeEnd string
  | OpAddServer string nat | OpDeleteServer string | OpConnect string string | OpEnable string bool
  | OpMakeServer | OpAddService nat "('o, 'v) Service" | OpNewObject 'o | OpCleanup | OpLoopStop

datatype ('o, 'v) net_event =
    EvCall string string 'v 'v
  | EvStart nat | EvAdmit nat nat | EvHandler nat | EvReceive nat | EvPoll nat | EvAnswer nat nat nat | EvFire nat
  | EvTable "('o, 'v) table_op"

fun table_step :: "('o, 'v) table_op \<Rightarrow> ('o, 'v, 'b) Network \<Rightarrow> ('o, 'v, 'b) Network outcome" where
  "table_step (OpReliable yes) rn = Next (Reliable rn yes)"
| "table_step (OpLongReordering yes) rn = Next (LongReordering rn yes)"
| "table_step (OpLongDelays yes) rn = Next (LongDelays rn yes)"
| "table_step (OpMakeEnd endname) rn = from_option (MakeEnd rn endname) fst"
| "table_step (OpAddServer servername rs) rn = (if rs < length (nw_srvs rn) then Next (AddServer rn servername rs) else Disabled)"
| "table_step (OpDeleteServer servername) rn = Next (DeleteServer rn servername)"
| "table_step (OpConnect endname servername) rn = Next (Connect rn endname servername)"
| "table_step (OpEnable endname enabled) rn = Next (Enable rn endname enabled)"
| "table_step OpMakeServer rn = Next (rn\<lparr>nw_srvs := nw_srvs rn @ [MakeServer]\<rparr>)"
| "table_step (OpAddService rs svc) rn =
     (if rs < length (nw_srvs rn) then Next (rn\<lparr>nw_srvs := (nw_srvs rn)[rs := AddService (nw_srvs rn ! rs) svc]\<rparr>) else Disabled)"
| "table_step (OpNewObject obj) rn = Next (rn\<lparr>nw_objs := nw_objs rn @ [obj]\<rparr>)"
| "table_step OpCleanup rn = from_option (Cleanup rn) (\<lambda>rn. rn)"
| "table_step OpLoopStop rn = loop_stop rn"

definition at_proc :: "('o, 'v, 'b) Network \<Rightarrow> nat \<Rightarrow> ('o, 'v, 'b) Network outcome \<Rightarrow> ('o, 'v, 'b) Network outcome" where
  "at_proc rn k r = (if k < length (nw_procs rn) then r else Disabled)"

fun net_step :: "('v, 'b) codec \<Rightarrow> ('o, 'v) net_event \<Rightarrow> ('o, 'v, 'b) Network \<Rightarrow> ('o, 'v, 'b) Network outcome" where
  "net_step G (EvCall endname svcMeth argsType args) rn =
     (case nw_ends rn endname of None \<Rightarrow> Disabled | Some e \<Rightarrow> Call_send G rn e svcMeth argsType args)"
| "net_step G (EvStart k) rn = at_proc rn k (processReq_start rn k)"
| "net_step G (EvAdmit k draw) rn = at_proc rn k (processReq_admit rn k draw)"
| "net_step G (EvHandler k) rn = at_proc rn k (handler_run G rn k)"
| "net_step G (EvReceive k) rn = at_proc rn k (processReq_receive rn k)"
| "net_step G (EvPoll k) rn = at_proc rn k (processReq_poll rn k)"
| "net_step G (EvAnswer k draw1 draw2) rn = at_proc rn k (processReq_answer rn k draw1 draw2)"
| "net_step G (EvFire k) rn = at_proc rn k (processReq_fire rn k)"
| "net_step G (EvTable t) rn = table_step t rn"

fun net_run :: "('v, 'b) codec \<Rightarrow> ('o, 'v) net_event list \<Rightarrow> ('o, 'v, 'b) Network \<Rightarrow> ('o, 'v, 'b) Network outcome" where
  "net_run G [] rn = Next rn"
| "net_run G (ev # evs) rn = (case net_step G ev rn of Next rn' \<Rightarrow> net_run G evs rn' | r \<Rightarrow> r)"

text \<open>An invariant of the steps is one of the runs.\<close>

lemma net_run_keeps:
  assumes "net_run G evs rn = Next rn'" "P rn"
    and "\<And>ev rn rn'. ev \<in> set evs \<Longrightarrow> P rn \<Longrightarrow> net_step G ev rn = Next rn' \<Longrightarrow> P rn'"
  shows "P rn'"
  using assms
proof (induction evs arbitrary: rn)
  case (Cons ev evs)
  then obtain rn1 where s: "net_step G ev rn = Next rn1" "net_run G evs rn1 = Next rn'" by (auto split: outcome.splits)
  have "P rn1" using Cons.prems(2) s(1) by (rule Cons.prems(3) [rotated]) simp
  then show ?case by (rule Cons.IH [OF s(2)]) (auto intro: Cons.prems(3))
qed simp

section \<open>The contract of a call\<close>

datatype 'b call_state = Unanswered | Handled "'b list" | Completed "'b list" | Failed "'b list option"

type_synonym ('o, 'v, 'b) calls = "'o list \<times> (('v, 'b) reqMsg \<times> 'b call_state) list"

inductive rpc_spec :: "('v, 'b) codec \<Rightarrow> ('o, 'v, 'b) calls \<Rightarrow> ('o, 'v, 'b) calls \<Rightarrow> bool" for G where
  issue: "rpc_spec G (objs, cs) (objs, cs @ [(req, Unanswered)])"
| handle: "i < length cs \<Longrightarrow> cs ! i = (req, Unanswered) \<Longrightarrow> svc_dispatch G objs svc m req = Some (objs', r) \<Longrightarrow>
    rpc_spec G (objs, cs) (objs', cs[i := (req, Handled (rp_reply r))])"
| return_true: "i < length cs \<Longrightarrow> cs ! i = (req, Handled r) \<Longrightarrow> rpc_spec G (objs, cs) (objs, cs[i := (req, Completed r)])"
| return_false: "i < length cs \<Longrightarrow> cs ! i = (req, Handled r) \<Longrightarrow> rpc_spec G (objs, cs) (objs, cs[i := (req, Failed (Some r))])"
| lost: "i < length cs \<Longrightarrow> cs ! i = (req, Unanswered) \<Longrightarrow> rpc_spec G (objs, cs) (objs, cs[i := (req, Failed None)])"
| object: "rpc_spec G (objs, cs) (objs @ [obj], cs)"

text \<open>
  The state of a call. A call whose client has been told of a failure while the handler is still to
  run counts as unanswered, since the handler may yet be executed.
\<close>

definition call_state_of :: "('v, 'b) proc \<Rightarrow> 'b call_state" where
  "call_state_of p =
     (case p_main p of
        Answered rep \<Rightarrow>
          (if rp_ok rep then Completed (rp_reply rep)
           else (case p_handler p of NoHandler \<Rightarrow> Failed None | Running _ \<Rightarrow> Unanswered | Ran r \<Rightarrow> Failed (Some (rp_reply r))))
      | _ \<Rightarrow> (case p_handler p of Ran r \<Rightarrow> Handled (rp_reply r) | _ \<Rightarrow> Unanswered))"

definition calls_of :: "('o, 'v, 'b) Network \<Rightarrow> ('o, 'v, 'b) calls" where
  "calls_of rn = (nw_objs rn, map (\<lambda>p. (p_req p, call_state_of p)) (nw_procs rn))"

section \<open>The invariant of the goroutines of a call\<close>

definition proc_ok :: "('v, 'b) proc \<Rightarrow> bool" where
  "proc_ok p \<longleftrightarrow> (\<forall>r. p_handler p = Ran r \<longrightarrow> rp_ok r) \<and>
     (case p_main p of
        Started \<Rightarrow> p_handler p = NoHandler
      | Admitted _ _ _ _ \<Rightarrow> p_handler p = NoHandler
      | Waiting _ server _ _ \<Rightarrow> p_handler p \<noteq> NoHandler \<and> (\<forall>a. p_handler p = Running a \<longrightarrow> a = server)
      | Finished _ _ _ _ None \<Rightarrow> p_handler p \<noteq> NoHandler
      | Finished _ _ _ _ (Some rep) \<Rightarrow> p_handler p = Ran rep
      | Deferred rep \<Rightarrow> (rep = failure \<and> p_handler p = NoHandler) \<or> p_handler p = Ran rep
      | Answered rep \<Rightarrow> rp_ok rep \<longrightarrow> p_handler p = Ran rep)"

definition procs_ok :: "('o, 'v, 'b) Network \<Rightarrow> bool" where
  "procs_ok rn \<longleftrightarrow> (\<forall>p\<in>set (nw_procs rn). proc_ok p)"

lemmas rpc_net_defs [handler_defs] = set_main_def set_handler_def count_bytes_def

lemma failure_not_ok [simp]: "\<not> rp_ok failure"
  by (simp add: failure_def)

text \<open>What a step on call \<open>k\<close> does to it; every other call is left alone.\<close>

definition call_moves :: "'b call_state \<Rightarrow> 'b call_state \<Rightarrow> bool" where
  "call_moves c c' \<longleftrightarrow> c' = c \<or> (\<exists>r. c = Handled r \<and> (c' = Completed r \<or> c' = Failed (Some r))) \<or> (c = Unanswered \<and> c' = Failed None)"

lemma call_moves_spec:
  assumes "i < length cs" "cs ! i = (req, c)" "call_moves c c'"
  shows "(rpc_spec G)\<^sup>*\<^sup>* (objs, cs) (objs, cs[i := (req, c')])"
proof (cases "c' = c")
  case True
  with assms(2) show ?thesis by (metis list_update_id rtranclp.rtrancl_refl)
next
  case False
  with assms have "rpc_spec G (objs, cs) (objs, cs[i := (req, c')])"
    by (auto simp: call_moves_def intro: rpc_spec.intros)
  then show ?thesis by blast
qed

definition main_step :: "('o, 'v, 'b) Network \<Rightarrow> nat \<Rightarrow> ('o, 'v, 'b) Network \<Rightarrow> bool" where
  "main_step rn k rn' \<longleftrightarrow> nw_objs rn' = nw_objs rn \<and> (\<exists>p'. nw_procs rn' = (nw_procs rn)[k := p'] \<and>
     p_req p' = p_req (nw_procs rn ! k) \<and> proc_ok p' \<and> call_moves (call_state_of (nw_procs rn ! k)) (call_state_of p'))"

lemma main_stepI:
  assumes "nw_objs rn' = nw_objs rn" "nw_procs rn' = (nw_procs rn)[k := p']" "p_req p' = p_req (nw_procs rn ! k)"
    "proc_ok p'" "call_moves (call_state_of (nw_procs rn ! k)) (call_state_of p')"
  shows "main_step rn k rn'"
  using assms by (auto simp: main_step_def)

lemma main_step_refines:
  assumes "main_step rn k rn'" "k < length (nw_procs rn)" "procs_ok rn"
  shows "(rpc_spec G)\<^sup>*\<^sup>* (calls_of rn) (calls_of rn') \<and> procs_ok rn'"
proof -
  from assms(1) obtain p' where p: "nw_objs rn' = nw_objs rn" "nw_procs rn' = (nw_procs rn)[k := p']"
    "p_req p' = p_req (nw_procs rn ! k)" "proc_ok p'" "call_moves (call_state_of (nw_procs rn ! k)) (call_state_of p')"
    by (auto simp: main_step_def)
  from call_moves_spec [of k "snd (calls_of rn)" "p_req p'" _ _ G "nw_objs rn", OF _ _ p(5)] assms(2) p(3)
  have "(rpc_spec G)\<^sup>*\<^sup>* (calls_of rn) (nw_objs rn, (snd (calls_of rn))[k := (p_req p', call_state_of p')])"
    by (simp add: calls_of_def)
  moreover have "calls_of rn' = (nw_objs rn, (snd (calls_of rn))[k := (p_req p', call_state_of p')])"
    by (simp add: calls_of_def p(1,2) map_update)
  moreover have "procs_ok rn'"
    using assms(3) p(4) set_update_subset_insert [of "nw_procs rn" k p'] by (auto simp: procs_ok_def p(2))
  ultimately show ?thesis by simp
qed

section \<open>The steps keep the contract\<close>

lemma main_steps:
  assumes "proc_ok (nw_procs rn ! k)" "k < length (nw_procs rn)"
  shows "processReq_start rn k = Next rn' \<Longrightarrow> main_step rn k rn'"
    and "processReq_admit rn k d = Next rn' \<Longrightarrow> main_step rn k rn'"
    and "processReq_receive rn k = Next rn' \<Longrightarrow> main_step rn k rn'"
    and "processReq_poll rn k = Next rn' \<Longrightarrow> main_step rn k rn'"
    and "processReq_answer rn k d1 d2 = Next rn' \<Longrightarrow> main_step rn k rn'"
    and "processReq_fire rn k = Next rn' \<Longrightarrow> main_step rn k rn'"
proof -
  let ?p = "nw_procs rn ! k"
  have keep: "main_step rn k rn" using assms
    by (intro main_stepI [of _ _ _ ?p]) (simp_all add: call_moves_def)
  note upd = main_stepI [of _ rn k] 
  show "processReq_start rn k = Next rn' \<Longrightarrow> main_step rn k rn'"
    using assms by (auto simp: processReq_start_def handler_defs proc_ok_def call_state_of_def call_moves_def
        split: progress.splits prod.splits option.splits bool.splits intro!: upd)
  show "processReq_admit rn k d = Next rn' \<Longrightarrow> main_step rn k rn'"
    using assms by (auto simp: processReq_admit_def handler_defs proc_ok_def call_state_of_def call_moves_def
        split: progress.splits if_splits intro!: upd)
  show "processReq_receive rn k = Next rn' \<Longrightarrow> main_step rn k rn'"
    using assms by (auto simp: processReq_receive_def handler_defs proc_ok_def call_state_of_def call_moves_def
        split: progress.splits handling.splits intro!: upd)
  show "processReq_poll rn k = Next rn' \<Longrightarrow> main_step rn k rn'"
    using assms keep by (auto simp: processReq_poll_def handler_defs proc_ok_def call_state_of_def call_moves_def
        split: progress.splits if_splits handling.splits intro!: upd)
  show "processReq_answer rn k d1 d2 = Next rn' \<Longrightarrow> main_step rn k rn'"
    using assms by (auto simp: processReq_answer_def handler_defs proc_ok_def call_state_of_def call_moves_def Let_def
        split: progress.splits if_splits handling.splits option.splits intro!: upd)
  show "processReq_fire rn k = Next rn' \<Longrightarrow> main_step rn k rn'"
    using assms by (auto simp: processReq_fire_def handler_defs proc_ok_def call_state_of_def call_moves_def
        split: progress.splits if_splits handling.splits intro!: upd)
qed

text \<open>The handler: it is executed once; if its client was told of a failure before, the call then ends as failed.\<close>

lemma srv_dispatch_facts:
  assumes "srv_dispatch G rn server req = Some (rn', r)"
  shows "(\<exists>svc m. svc_dispatch G (nw_objs rn) svc m req = Some (nw_objs rn', r)) \<and> nw_procs rn' = nw_procs rn \<and>
    nw_servers rn' = nw_servers rn \<and> nw_enabled rn' = nw_enabled rn \<and> rp_ok r \<and> nw_count rn' = nw_count rn"
proof -
  from assms obtain svc m objs where s: "svc_dispatch G (nw_objs rn) svc m req = Some (objs, r)" and
    rn': "rn' = rn\<lparr>nw_srvs := (nw_srvs rn)[server := (nw_srvs rn ! server)\<lparr>srv_count := srv_count (nw_srvs rn ! server) + 1\<rparr>], nw_objs := objs\<rparr>"
    by (auto simp: srv_dispatch_def Let_def bind_Some_iff)
  from s have "rp_ok r" by (auto simp: svc_dispatch_def Let_def split: option.splits prod.splits)
  with s show ?thesis by (auto simp: rn')
qed

lemma handler_refines:
  assumes "handler_run G rn k = Next rn'" "k < length (nw_procs rn)" "procs_ok rn"
  shows "(rpc_spec G)\<^sup>*\<^sup>* (calls_of rn) (calls_of rn') \<and> procs_ok rn'"
proof -
  let ?p = "nw_procs rn ! k" and ?cs = "snd (calls_of rn)"
  from assms(1) obtain a rn1 r where h: "p_handler ?p = Running a" and s: "srv_dispatch G rn a (p_req ?p) = Some (rn1, r)"
    and rn': "rn' = set_handler rn1 k (Ran r)"
    by (auto simp: handler_run_def from_option_def split: handling.splits option.splits)
  from srv_dispatch_facts [OF s] obtain svc m where d: "svc_dispatch G (nw_objs rn) svc m (p_req ?p) = Some (nw_objs rn1, r)"
    "nw_procs rn1 = nw_procs rn" "rp_ok r" by blast
  let ?p' = "?p\<lparr>p_handler := Ran r\<rparr>"
  have pr: "nw_procs rn' = (nw_procs rn)[k := ?p']" "nw_objs rn' = nw_objs rn1" by (simp_all add: rn' d(2) handler_defs)
  have p: "proc_ok ?p" using assms(2,3) by (simp add: procs_ok_def)
  with h d(3) have p': "proc_ok ?p'"
    by (auto simp: proc_ok_def split: progress.splits option.splits)
  from p h have un: "call_state_of ?p = Unanswered"
    by (auto simp: call_state_of_def proc_ok_def split: progress.splits)
  from p h have mv: "call_moves (Handled (rp_reply r)) (call_state_of ?p')"
    by (auto simp: call_state_of_def proc_ok_def call_moves_def split: progress.splits)
  have k: "k < length ?cs" "?cs ! k = (p_req ?p, Unanswered)" using assms(2) un by (simp_all add: calls_of_def)
  have "rpc_spec G (calls_of rn) (nw_objs rn1, ?cs[k := (p_req ?p, Handled (rp_reply r))])"
    using rpc_spec.handle [OF k d(1)] by (simp add: calls_of_def)
  moreover have "(rpc_spec G)\<^sup>*\<^sup>* (nw_objs rn1, ?cs[k := (p_req ?p, Handled (rp_reply r))])
      (nw_objs rn1, ?cs[k := (p_req ?p, call_state_of ?p')])"
    using call_moves_spec [OF _ _ mv, of k "?cs[k := (p_req ?p, Handled (rp_reply r))]" "p_req ?p" G "nw_objs rn1"] k(1) by simp
  moreover have "calls_of rn' = (nw_objs rn1, ?cs[k := (p_req ?p, call_state_of ?p')])"
    by (simp add: calls_of_def pr map_update)
  moreover have "procs_ok rn'"
    using assms(3) p' set_update_subset_insert [of "nw_procs rn" k ?p'] by (auto simp: procs_ok_def pr(1))
  ultimately show ?thesis by (metis converse_rtranclp_into_rtranclp)
qed

lemma table_same:
  assumes "table_step t rn = Next rn'"
  shows "nw_procs rn' = nw_procs rn \<and> nw_count rn' = nw_count rn \<and> (\<exists>objs. nw_objs rn' = nw_objs rn @ objs \<and> length objs \<le> 1)"
  using assms by (cases t) (auto simp: Reliable_def LongReordering_def LongDelays_def MakeEnd_def AddServer_def
      DeleteServer_def Connect_def Enable_def Cleanup_def loop_stop_def from_option_def Let_def split: if_splits option.splits)

lemma table_refines:
  assumes "table_step t rn = Next rn'" "procs_ok rn"
  shows "(rpc_spec G)\<^sup>*\<^sup>* (calls_of rn) (calls_of rn') \<and> procs_ok rn'"
proof -
  from table_same [OF assms(1)] obtain objs where t: "nw_procs rn' = nw_procs rn" "nw_objs rn' = nw_objs rn @ objs" "length objs \<le> 1"
    by blast
  have "(rpc_spec G)\<^sup>*\<^sup>* (calls_of rn) (calls_of rn')"
    using t rpc_spec.object [of G "nw_objs rn" "snd (calls_of rn)"] by (cases objs) (auto simp: calls_of_def)
  with t(1) assms(2) show ?thesis by (simp add: procs_ok_def)
qed

lemma send_refines:
  assumes "Call_send G rn e svcMeth argsType args = Next rn'" "procs_ok rn"
  shows "(rpc_spec G)\<^sup>*\<^sup>* (calls_of rn) (calls_of rn') \<and> procs_ok rn'"
  using assms rpc_spec.issue [of G "nw_objs rn" "snd (calls_of rn)"]
  by (auto simp: Call_send_def Let_def calls_of_def call_state_of_def procs_ok_def proc_ok_def split: if_splits)

text \<open>A step is one of \<open>processReq\<close>, of a handler, of the tables, or a new call.\<close>

lemma net_step_cases:
  assumes "net_step G ev rn = Next rn'" "procs_ok rn"
  obtains (main) k where "k < length (nw_procs rn)" "main_step rn k rn'"
    | (handler) k where "k < length (nw_procs rn)" "ev = EvHandler k" "handler_run G rn k = Next rn'"
    | (table) t where "ev = EvTable t" "table_step t rn = Next rn'"
    | (send) e svcMeth argsType args where "Call_send G rn e svcMeth argsType args = Next rn'"
proof -
  have ok: "proc_ok (nw_procs rn ! k)" if "k < length (nw_procs rn)" for k using assms(2) that by (simp add: procs_ok_def)
  note ms = main_steps [OF ok]
  show thesis using assms(1) that
    by (cases ev) (auto simp: at_proc_def split: if_splits option.splits intro: ms)
qed

lemma step_refines:
  assumes "net_step G ev rn = Next rn'" "procs_ok rn"
  shows "(rpc_spec G)\<^sup>*\<^sup>* (calls_of rn) (calls_of rn') \<and> procs_ok rn'"
  using assms
proof (cases rule: net_step_cases)
  case (main k)
  then show ?thesis by (intro main_step_refines assms(2))
next
  case (handler k)
  then show ?thesis by (intro handler_refines assms(2))
next
  case (table t)
  then show ?thesis by (intro table_refines assms(2))
next
  case (send e svcMeth argsType args)
  then show ?thesis by (intro send_refines assms(2))
qed

text \<open>
  C13: The network implements remote calls with at-most-once execution. Take any run of the network:
  calls by any ends, any interleaving of the goroutines, servers added, deleted, connected and
  disconnected at any moment. Its calls are a run of the contract: each call is executed at most
  once, by a method of a service, on the receivers as they are then; a call is completed only
  after it was executed and with the reply of that execution; every other end is a failure,
  which may come before or after an execution. A client that gets true has the decoded
  reply of the completed call.
\<close>

theorem network_refines_calls:
  assumes "net_run G evs (MakeNetwork :: ('o, 'v, 'b) Network) = Next rn"
  shows "(rpc_spec G)\<^sup>*\<^sup>* ([], []) (calls_of rn) \<and>
    (\<forall>k<length (nw_procs rn). \<forall>reply v. Call_return G (nw_procs rn ! k) reply = Next (True, v) \<longrightarrow>
      (\<exists>r. snd (calls_of rn) ! k = (p_req (nw_procs rn ! k), Completed r) \<and> Dec G reply r = (v, False)))"
proof -
  let ?P = "\<lambda>rn. (rpc_spec G)\<^sup>*\<^sup>* ([], []) (calls_of rn) \<and> procs_ok rn"
  have init: "?P (MakeNetwork :: ('o, 'v, 'b) Network)" by (simp add: MakeNetwork_def calls_of_def procs_ok_def)
  have step: "?P rn'" if "?P rn" "net_step G ev rn = Next rn'" for ev and rn rn' :: "('o, 'v, 'b) Network"
    using step_refines [OF that(2)] that(1) by (meson rtranclp_trans)
  have run: "?P rn" using net_run_keeps [where P = ?P, OF assms init] step by blast
  have "\<exists>r. snd (calls_of rn) ! k = (p_req (nw_procs rn ! k), Completed r) \<and> Dec G reply r = (v, False)"
    if "k < length (nw_procs rn)" "Call_return G (nw_procs rn ! k) reply = Next (True, v)" for k reply v
    using that by (auto simp: Call_return_def calls_of_def call_state_of_def Let_def
        split: progress.splits if_splits prod.splits)
  with run show ?thesis by blast
qed

section \<open>Deleted servers\<close>

text \<open>A call that was on its way to a server no longer registered under its name.\<close>

definition silenced :: "string \<Rightarrow> nat \<Rightarrow> nat \<Rightarrow> ('o, 'v, 'b) Network \<Rightarrow> bool" where
  "silenced sn a k rn \<longleftrightarrow> k < length (nw_procs rn) \<and> nw_servers rn sn \<noteq> Some a \<and>
     (case p_main (nw_procs rn ! k) of
        Admitted sn' a' _ _ \<Rightarrow> sn' = sn \<and> a' = a
      | Waiting sn' a' _ _ \<Rightarrow> sn' = sn \<and> a' = a
      | Finished sn' a' _ _ _ \<Rightarrow> sn' = sn \<and> a' = a
      | Answered rep \<Rightarrow> rep = failure
      | _ \<Rightarrow> False)"

lemma silenced_other:
  assumes "silenced sn a k rn" "nw_servers rn' = nw_servers rn" "nw_procs rn' = (nw_procs rn)[j := p']" "j \<noteq> k"
  shows "silenced sn a k rn'"
  using assms by (simp add: silenced_def)

lemma silenced_handler:
  assumes "silenced sn a k rn" "handler_run G rn j = Next rn'" "j < length (nw_procs rn)"
  shows "silenced sn a k rn'"
proof -
  from assms(2) obtain s rn1 r where "srv_dispatch G rn s (p_req (nw_procs rn ! j)) = Some (rn1, r)" "rn' = set_handler rn1 j (Ran r)"
    by (auto simp: handler_run_def from_option_def split: handling.splits option.splits)
  with srv_dispatch_facts have "nw_servers rn' = nw_servers rn" "nw_procs rn' = (nw_procs rn)[j := (nw_procs rn ! j)\<lparr>p_handler := Ran r\<rparr>]"
    by (fastforce simp: handler_defs)+
  with assms(1,3) show ?thesis by (cases "j = k") (simp_all add: silenced_def)
qed

lemma silenced_table:
  assumes "silenced sn a k rn" "table_step t rn = Next rn'" "t \<noteq> OpAddServer sn a"
  shows "silenced sn a k rn'"
  using assms by (cases t) (auto simp: silenced_def Reliable_def LongReordering_def LongDelays_def MakeEnd_def AddServer_def
      DeleteServer_def Connect_def Enable_def Cleanup_def loop_stop_def from_option_def Let_def split: if_splits option.splits)

lemma silenced_main:
  assumes "silenced sn a k rn" "k < length (nw_procs rn)"
  shows "processReq_start rn k \<noteq> Next rn'"
    and "processReq_admit rn k d = Next rn' \<Longrightarrow> silenced sn a k rn'"
    and "processReq_receive rn k = Next rn' \<Longrightarrow> silenced sn a k rn'"
    and "processReq_poll rn k = Next rn' \<Longrightarrow> silenced sn a k rn'"
    and "processReq_answer rn k d1 d2 = Next rn' \<Longrightarrow> silenced sn a k rn'"
    and "processReq_fire rn k \<noteq> Next rn'"
  using assms
  by (auto simp: silenced_def handler_defs processReq_start_def processReq_admit_def processReq_receive_def processReq_poll_def
      processReq_answer_def processReq_fire_def isServerDead_def split: progress.splits handling.splits if_splits option.splits)

text \<open>A step of \<open>processReq\<close> for another call.\<close>

definition other_step :: "('o, 'v, 'b) Network \<Rightarrow> nat \<Rightarrow> ('o, 'v, 'b) Network \<Rightarrow> bool" where
  "other_step rn j rn' \<longleftrightarrow> nw_servers rn' = nw_servers rn \<and> nw_count rn' = nw_count rn \<and> (\<exists>p'. nw_procs rn' = (nw_procs rn)[j := p'])"

lemma other_steps:
  "processReq_start rn j = Next rn' \<Longrightarrow> other_step rn j rn'"
  "processReq_admit rn j d = Next rn' \<Longrightarrow> other_step rn j rn'"
  "processReq_receive rn j = Next rn' \<Longrightarrow> other_step rn j rn'"
  "processReq_poll rn j = Next rn' \<Longrightarrow> other_step rn j rn'"
  "processReq_answer rn j d1 d2 = Next rn' \<Longrightarrow> other_step rn j rn'"
  "processReq_fire rn j = Next rn' \<Longrightarrow> other_step rn j rn'"
  by (auto simp: other_step_def handler_defs processReq_start_def processReq_admit_def processReq_receive_def processReq_poll_def
      processReq_answer_def processReq_fire_def Let_def intro: exI [of _ "nw_procs rn ! j"]
      split: progress.splits handling.splits if_splits option.splits prod.splits bool.splits)

lemma silenced_step:
  assumes "silenced sn a k rn" "net_step G ev rn = Next rn'" "ev \<noteq> EvTable (OpAddServer sn a)"
  shows "silenced sn a k rn'"
proof -
  have k: "k < length (nw_procs rn)" using assms(1) by (simp add: silenced_def)
  have proc: "silenced sn a k rn'" if "other_step rn j rn'" "j = k \<Longrightarrow> silenced sn a k rn'" for j
    using that silenced_other [OF assms(1)] by (cases "j = k") (auto simp: other_step_def)
  note same = silenced_main [OF assms(1) k]
  show ?thesis
  proof (cases ev)
    case (EvCall endname svcMeth argsType args)
    with assms(1,2) show ?thesis
      by (auto simp: silenced_def Call_send_def Let_def nth_append split: option.splits if_splits)
  next
    case (EvHandler j)
    with assms(2) silenced_handler [OF assms(1)] show ?thesis by (auto simp: at_proc_def split: if_splits)
  next
    case (EvTable t)
    with assms(2,3) silenced_table [OF assms(1)] show ?thesis by auto
  next
    case (EvStart j)
    with assms(2) have r: "processReq_start rn j = Next rn'" by (simp add: at_proc_def split: if_splits)
    show ?thesis by (rule proc [OF other_steps(1) [OF r]]) (use same(1) r in auto)
  next
    case (EvAdmit j d)
    with assms(2) have r: "processReq_admit rn j d = Next rn'" by (simp add: at_proc_def split: if_splits)
    show ?thesis by (rule proc [OF other_steps(2) [OF r]]) (use same(2) r in auto)
  next
    case (EvReceive j)
    with assms(2) have r: "processReq_receive rn j = Next rn'" by (simp add: at_proc_def split: if_splits)
    show ?thesis by (rule proc [OF other_steps(3) [OF r]]) (use same(3) r in auto)
  next
    case (EvPoll j)
    with assms(2) have r: "processReq_poll rn j = Next rn'" by (simp add: at_proc_def split: if_splits)
    show ?thesis by (rule proc [OF other_steps(4) [OF r]]) (use same(4) r in auto)
  next
    case (EvAnswer j d1 d2)
    with assms(2) have r: "processReq_answer rn j d1 d2 = Next rn'" by (simp add: at_proc_def split: if_splits)
    show ?thesis by (rule proc [OF other_steps(5) [OF r]]) (use same(5) r in auto)
  next
    case (EvFire j)
    with assms(2) have r: "processReq_fire rn j = Next rn'" by (simp add: at_proc_def split: if_splits)
    show ?thesis by (rule proc [OF other_steps(6) [OF r]]) (use same(6) r in auto)
  qed
qed

text \<open>
  C15: A deleted server is silent. Take a call that has been admitted to a server and for which the
  network has not yet decided about the reply: it is still to be handled, is being handled, or its
  handler has returned. (It has neither been answered nor has its reply been left to the timer of
  long reordering.) When the server is deleted then, and in whatever way the network goes on, short of
  registering the same server again, that call does not return true.
\<close>

theorem deleted_server_silent:
  assumes "k < length (nw_procs rn)"
    and "p_main (nw_procs rn ! k) \<in> {Admitted sn a reliable longreordering, Waiting sn a reliable longreordering,
      Finished sn a reliable longreordering rep}"
    and "net_run G evs (DeleteServer rn sn) = Next rn'" "EvTable (OpAddServer sn a) \<notin> set evs"
  shows "Call_return G (nw_procs rn' ! k) reply \<noteq> Next (True, v)"
proof -
  have start: "silenced sn a k (DeleteServer rn sn)"
    using assms(1,2) by (auto simp: silenced_def DeleteServer_def)
  have "silenced sn a k rn'"
    by (rule net_run_keeps [where P = "silenced sn a k", OF assms(3) start]) (use silenced_step assms(4) in blast)
  then show ?thesis by (auto simp: silenced_def Call_return_def split: progress.splits)
qed

text \<open>
  C37: A reply left to the timer outlives its server. With long reordering, a call to a live server whose
  handler has returned may have its reply left to a timer; when the server is deleted after that and
  before the timer fires, the call returns true all the same, with the reply of the deleted server.
\<close>

theorem deferred_reply_outlives_server:
  assumes "k < length (nw_procs rn)" "p_main (nw_procs rn ! k) = Finished sn a reliable True (Some rep)"
    and "is_enabled rn (rq_endname (p_req (nw_procs rn ! k)))" "nw_servers rn sn = Some a"
    and "rp_ok rep" "Dec G reply (rp_reply rep) = (v, False)" "100 \<le> d1 mod 1000" "d2 mod 900 < 600"
  shows "\<exists>rn'. net_run G [EvAnswer k d1 d2, EvTable (OpDeleteServer sn), EvFire k] rn = Next rn' \<and>
    nw_servers rn' sn = None \<and> Call_return G (nw_procs rn' ! k) reply = Next (True, v)"
  using assms by (simp add: at_proc_def processReq_answer_def processReq_fire_def isServerDead_def set_main_def count_bytes_def
      DeleteServer_def Call_return_def)

section \<open>Calls return\<close>

text \<open>Following a schedule: an event that is not enabled is skipped.\<close>

fun net_follow :: "('v, 'b) codec \<Rightarrow> ('o, 'v) net_event list \<Rightarrow> ('o, 'v, 'b) Network \<Rightarrow> ('o, 'v, 'b) Network outcome" where
  "net_follow G [] rn = Next rn"
| "net_follow G (ev # evs) rn =
     (case net_step G ev rn of Next rn' \<Rightarrow> net_follow G evs rn' | Disabled \<Rightarrow> net_follow G evs rn | Panic \<Rightarrow> Panic)"

definition ends_answered :: "('v, 'b) codec \<Rightarrow> ('o, 'v) net_event list \<Rightarrow> nat \<Rightarrow> ('o, 'v, 'b) Network \<Rightarrow> bool" where
  "ends_answered G evs k rn \<longleftrightarrow> (\<exists>rn' rep. net_follow G evs rn = Next rn' \<and> p_main (nw_procs rn' ! k) = Answered rep)"

lemma ends_answered_Nil: "ends_answered G [] k rn \<longleftrightarrow> (\<exists>rep. p_main (nw_procs rn ! k) = Answered rep)"
  by (simp add: ends_answered_def)

lemma ends_answered_Cons:
  "ends_answered G (ev # evs) k rn \<longleftrightarrow>
     (case net_step G ev rn of Next rn' \<Rightarrow> ends_answered G evs k rn' | Disabled \<Rightarrow> ends_answered G evs k rn | Panic \<Rightarrow> False)"
  by (simp add: ends_answered_def split: outcome.splits)

lemma fire_ends:
  assumes "k < length (nw_procs rn)" "p_main (nw_procs rn ! k) \<in> range Deferred \<union> range Answered"
  shows "ends_answered G [EvFire k] k rn"
  using assms by (auto simp: ends_answered_Cons ends_answered_Nil at_proc_def processReq_fire_def handler_defs)

definition settled :: "('v, 'b) proc \<Rightarrow> bool" where
  "settled p \<longleftrightarrow> (case p_main p of Finished _ _ _ _ _ \<Rightarrow> True | Deferred _ \<Rightarrow> True | Answered _ \<Rightarrow> True | _ \<Rightarrow> False)"

lemma answer_ends:
  assumes "k < length (nw_procs rn)" "settled (nw_procs rn ! k)"
  shows "ends_answered G [EvAnswer k d1 d2, EvFire k] k rn"
proof -
  have "\<exists>rn'. (processReq_answer rn k d1 d2 = Next rn' \<or> processReq_answer rn k d1 d2 = Disabled \<and> rn' = rn) \<and>
      k < length (nw_procs rn') \<and> p_main (nw_procs rn' ! k) \<in> range Deferred \<union> range Answered"
    using assms by (auto simp: settled_def processReq_answer_def handler_defs Let_def split: progress.splits option.splits)
  with fire_ends assms(1) show ?thesis by (fastforce simp: ends_answered_Cons [of G "EvAnswer k d1 d2"] at_proc_def)
qed

lemma receive_ends:
  assumes "k < length (nw_procs rn)"
    "settled (nw_procs rn ! k) \<or> (\<exists>sn a r l rep. p_main (nw_procs rn ! k) = Waiting sn a r l \<and> p_handler (nw_procs rn ! k) = Ran rep)"
  shows "ends_answered G [EvReceive k, EvAnswer k d1 d2, EvFire k] k rn"
proof -
  have "\<exists>rn'. (processReq_receive rn k = Next rn' \<or> processReq_receive rn k = Disabled \<and> rn' = rn) \<and>
      k < length (nw_procs rn') \<and> settled (nw_procs rn' ! k)"
    using assms(2)
  proof (elim disjE exE conjE)
    assume "settled (nw_procs rn ! k)"
    then show ?thesis using assms(1) by (intro exI [of _ rn]) (auto simp: settled_def processReq_receive_def split: progress.splits)
  next
    fix sn a r l rep
    assume "p_main (nw_procs rn ! k) = Waiting sn a r l" "p_handler (nw_procs rn ! k) = Ran rep"
    then show ?thesis using assms(1)
      by (intro exI [of _ "set_main rn k (Finished sn a r l (Some rep))"]) (simp add: settled_def processReq_receive_def handler_defs)
  qed
  with answer_ends assms(1) show ?thesis by (fastforce simp: ends_answered_Cons [of G "EvReceive k"] at_proc_def)
qed

lemma handler_ends:
  assumes "k < length (nw_procs rn)" "proc_ok (nw_procs rn ! k)"
    "settled (nw_procs rn ! k) \<or> (\<exists>sn a r l. p_main (nw_procs rn ! k) = Waiting sn a r l)"
    and "\<And>a. p_handler (nw_procs rn ! k) = Running a \<Longrightarrow> srv_dispatch G rn a (p_req (nw_procs rn ! k)) \<noteq> None"
  shows "ends_answered G [EvHandler k, EvReceive k, EvAnswer k d1 d2, EvFire k] k rn"
proof (cases "p_handler (nw_procs rn ! k)")
  case (Running a)
  from assms(4) [OF this] obtain rn1 r where s: "srv_dispatch G rn a (p_req (nw_procs rn ! k)) = Some (rn1, r)" by auto
  let ?rn = "set_handler rn1 k (Ran r)"
  have p: "nw_procs rn1 = nw_procs rn" using srv_dispatch_facts [OF s] by blast
  have "ends_answered G [EvReceive k, EvAnswer k d1 d2, EvFire k] k ?rn"
    using assms(1,3) by (intro receive_ends) (auto simp: handler_defs p settled_def)
  with Running s assms(1) show ?thesis
    by (simp add: ends_answered_Cons [of G "EvHandler k"] at_proc_def handler_run_def from_option_def)
next
  case NoHandler
  with assms(2,3) have "settled (nw_procs rn ! k)" by (auto simp: proc_ok_def)
  with NoHandler receive_ends [OF assms(1)] assms(1) show ?thesis
    by (simp add: ends_answered_Cons [of G "EvHandler k"] at_proc_def handler_run_def)
next
  case (Ran r)
  with assms(3) receive_ends [OF assms(1)] assms(1) show ?thesis
    by (simp add: ends_answered_Cons [of G "EvHandler k"] at_proc_def handler_run_def)
qed

text \<open>The servers a call may still be sent to.\<close>

definition may_serve :: "('o, 'v, 'b) Network \<Rightarrow> nat \<Rightarrow> nat \<Rightarrow> bool" where
  "may_serve rn k a \<longleftrightarrow> (\<exists>sn. nw_servers rn sn = Some a) \<or> (\<exists>sn r l. p_main (nw_procs rn ! k) = Admitted sn a r l) \<or>
     p_handler (nw_procs rn ! k) = Running a"

lemma srv_dispatch_cong:
  assumes "nw_srvs rn' = nw_srvs rn" "nw_objs rn' = nw_objs rn"
  shows "srv_dispatch G rn' a req = None \<longleftrightarrow> srv_dispatch G rn a req = None"
  by (simp add: srv_dispatch_def Let_def assms split: Option.bind_splits prod.splits)

lemma admit_ends:
  assumes "k < length (nw_procs rn)" "proc_ok (nw_procs rn ! k)" "p_main (nw_procs rn ! k) \<noteq> Started"
    and disp: "\<And>a. may_serve rn k a \<Longrightarrow> srv_dispatch G rn a (p_req (nw_procs rn ! k)) \<noteq> None"
  shows "ends_answered G [EvAdmit k d0, EvHandler k, EvReceive k, EvAnswer k d1 d2, EvFire k] k rn"
proof (cases "p_main (nw_procs rn ! k)")
  case (Admitted sn a r l)
  let ?rn = "set_handler (set_main rn k (Waiting sn a r l)) k (Running a)"
  have p: "nw_procs ?rn ! k = (nw_procs rn ! k)\<lparr>p_main := Waiting sn a r l, p_handler := Running a\<rparr>" "nw_srvs ?rn = nw_srvs rn"
    "nw_objs ?rn = nw_objs rn" "length (nw_procs ?rn) = length (nw_procs rn)" using assms(1) by (simp_all add: handler_defs)
  have "srv_dispatch G rn a (p_req (nw_procs rn ! k)) \<noteq> None" using Admitted by (intro disp) (simp add: may_serve_def)
  then have "srv_dispatch G ?rn a (p_req (nw_procs rn ! k)) \<noteq> None" by (simp only: srv_dispatch_cong [OF p(2,3)] not_False_eq_True)
  then have d: "srv_dispatch G ?rn a' (p_req (nw_procs ?rn ! k)) \<noteq> None" if "p_handler (nw_procs ?rn ! k) = Running a'" for a'
    using that unfolding p(1) by simp
  have "ends_answered G [EvHandler k, EvReceive k, EvAnswer k d1 d2, EvFire k] k ?rn"
    using assms(1) p by (intro handler_ends [OF _ _ _ d]) (simp_all add: proc_ok_def)
  moreover have "ends_answered G [EvHandler k, EvReceive k, EvAnswer k d1 d2, EvFire k] k (set_main rn k (Answered failure))"
    using assms(1,2) Admitted by (intro handler_ends) (auto simp: handler_defs settled_def proc_ok_def)
  ultimately show ?thesis using Admitted assms(1)
    by (simp add: ends_answered_Cons [of G "EvAdmit k d0"] at_proc_def processReq_admit_def)
next
  case Started
  with assms(3) show ?thesis by simp
qed (use assms in \<open>auto simp: ends_answered_Cons [of G "EvAdmit k d0"] at_proc_def processReq_admit_def may_serve_def settled_def
      intro!: handler_ends\<close>)

lemma start_ends:
  assumes "k < length (nw_procs rn)" "proc_ok (nw_procs rn ! k)"
    and disp: "\<And>a. may_serve rn k a \<Longrightarrow> srv_dispatch G rn a (p_req (nw_procs rn ! k)) \<noteq> None"
  shows "ends_answered G [EvStart k, EvAdmit k d0, EvHandler k, EvReceive k, EvAnswer k d1 d2, EvFire k] k rn"
proof (cases "p_main (nw_procs rn ! k) = Started")
  case True
  from assms(2) True have h: "p_handler (nw_procs rn ! k) = NoHandler" by (simp add: proc_ok_def)
  have next_ok: "ends_answered G [EvAdmit k d0, EvHandler k, EvReceive k, EvAnswer k d1 d2, EvFire k] k (set_main rn k m)"
    if "m = Deferred failure \<or> (\<exists>sn a r l. m = Admitted sn a r l \<and> nw_servers rn sn = Some a)" for m
  proof (rule admit_ends)
    show "srv_dispatch G (set_main rn k m) a (p_req (nw_procs (set_main rn k m) ! k)) \<noteq> None"
      if a: "may_serve (set_main rn k m) k a" for a
    proof -
      have "may_serve rn k a" using a \<open>m = _ \<or> _\<close> h assms(1) by (auto simp: may_serve_def handler_defs)
      from disp [OF this] show ?thesis
        using srv_dispatch_cong [of "set_main rn k m" rn G a] assms(1) by (simp add: handler_defs)
    qed
  qed (use that h assms(1) in \<open>auto simp: handler_defs proc_ok_def\<close>)
  have "\<exists>m. processReq_start rn k = Next (set_main rn k m) \<and>
    (m = Deferred failure \<or> (\<exists>sn a r l. m = Admitted sn a r l \<and> nw_servers rn sn = Some a))"
    using True by (auto simp: processReq_start_def readEndnameInfo_def Let_def split: option.split bool.split)
  then obtain m where "processReq_start rn k = Next (set_main rn k m)"
    "m = Deferred failure \<or> (\<exists>sn a r l. m = Admitted sn a r l \<and> nw_servers rn sn = Some a)" by blast
  with next_ok [of m] assms(1) show ?thesis by (simp add: ends_answered_Cons [of G "EvStart k"] at_proc_def)
next
  case False
  with admit_ends [OF assms(1,2) False disp] assms(1) show ?thesis
    by (auto simp: ends_answered_Cons [of G "EvStart k"] at_proc_def processReq_start_def split: progress.splits)
qed

lemma init_procs_ok: "procs_ok MakeNetwork"
  by (simp add: procs_ok_def MakeNetwork_def)

text \<open>
  C28: Calls return. At any point of any run, a call whose handler does return (its service and method
  exist, on every server it may be sent to) is answered after at most six more steps of its
  own goroutines, whatever random numbers are drawn. A call that waits for a handler
  which does not return is answered, with a failure, once its server is deleted
  or its end disconnected.
\<close>

theorem calls_return:
  assumes "net_run G evs (MakeNetwork :: ('o, 'v, 'b) Network) = Next rn" "k < length (nw_procs rn)"
  shows "((\<forall>a. may_serve rn k a \<longrightarrow> srv_dispatch G rn a (p_req (nw_procs rn ! k)) \<noteq> None) \<longrightarrow>
      (\<exists>rn' rep. net_follow G [EvStart k, EvAdmit k d0, EvHandler k, EvReceive k, EvAnswer k d1 d2, EvFire k] rn = Next rn' \<and>
        p_main (nw_procs rn' ! k) = Answered rep)) \<and>
    (\<forall>sn a r l. p_main (nw_procs rn ! k) = Waiting sn a r l \<and> isServerDead rn (rq_endname (p_req (nw_procs rn ! k))) sn a \<longrightarrow>
      (\<exists>rn'. net_run G [EvPoll k, EvAnswer k d1 d2] rn = Next rn' \<and> p_main (nw_procs rn' ! k) = Answered failure))"
proof -
  have "procs_ok rn"
    by (rule net_run_keeps [where P = procs_ok, OF assms(1)]) (auto simp: init_procs_ok dest: step_refines)
  then have "proc_ok (nw_procs rn ! k)" using assms(2) by (simp add: procs_ok_def)
  from start_ends [OF assms(2) this, of G d0 d1 d2] show ?thesis
    using assms(2) by (auto simp: ends_answered_def at_proc_def processReq_poll_def processReq_answer_def handler_defs)
qed

section \<open>The counters\<close>

lemma count_step:
  assumes "net_step G ev rn = Next rn'" "nw_count rn = of_nat (length (nw_procs rn))"
  shows "nw_count rn' = of_nat (length (nw_procs rn'))"
proof -
  have o: "nw_count rn' = of_nat (length (nw_procs rn'))" if "other_step rn j rn'" for j
    using that assms(2) by (auto simp: other_step_def)
  have h: "nw_count rn' = of_nat (length (nw_procs rn'))" if "handler_run G rn j = Next rn'" for j
  proof -
    from that obtain s rn1 r where "srv_dispatch G rn s (p_req (nw_procs rn ! j)) = Some (rn1, r)" "rn' = set_handler rn1 j (Ran r)"
      by (auto simp: handler_run_def from_option_def split: handling.splits option.splits)
    with srv_dispatch_facts [of G rn s "p_req (nw_procs rn ! j)" rn1 r] assms(2) show ?thesis by (simp add: handler_defs)
  qed
  show ?thesis
    using assms o h other_steps [of rn] table_same
    by (cases ev) (fastforce simp: at_proc_def Call_send_def Let_def split: if_splits option.splits)+
qed

text \<open>
  C29: The count of requests is a signed 32-bit number. After any run it is the number of calls that the
  network took, as long as those are fewer than 2^31; it never leaves the range of 32 bits,
  and the call that makes 2^31 turns it negative.
\<close>

theorem total_count_bounds:
  assumes "net_run G evs (MakeNetwork :: ('o, 'v, 'b) Network) = Next rn"
  shows "- (2 ^ 31) \<le> GetTotalCount rn \<and> GetTotalCount rn < 2 ^ 31 \<and>
    (length (nw_procs rn) < 2 ^ 31 \<longrightarrow> GetTotalCount rn = int (length (nw_procs rn))) \<and>
    (length (nw_procs rn) = 2 ^ 31 \<longrightarrow> GetTotalCount rn = - (2 ^ 31))"
proof -
  have c: "nw_count rn = of_nat (length (nw_procs rn))"
    by (rule net_run_keeps [where P = "\<lambda>rn. nw_count rn = of_nat (length (nw_procs rn))", OF assms])
      (auto simp: MakeNetwork_def dest: count_step)
  have s: "GetTotalCount rn = signed_take_bit 31 (int (length (nw_procs rn)))"
    by (simp add: GetTotalCount_def c signed_of_nat)
  have "signed_take_bit 31 (int n) = int n" if "n < 2 ^ 31" for n
    using that by (simp add: signed_take_bit_int_eq_self_iff)
  moreover have "signed_take_bit 31 (int (2 ^ 31)) = - (2 ^ 31)" by simp
  moreover have "- (2 ^ 31) \<le> signed_take_bit 31 (int n) \<and> signed_take_bit 31 (int n) < 2 ^ 31" for n
    using signed_take_bit_int_greater_eq_minus_exp [of 31 "int n"] signed_take_bit_int_less_exp [of 31 "int n"] by simp
  ultimately show ?thesis unfolding s by metis
qed

section \<open>A small network\<close>

text \<open>One server with a counter; values are numbers, encoded as themselves.\<close>

definition demo_codec :: "(nat, nat) codec" where
  "demo_codec = \<lparr>Enc = (\<lambda>v. [v]), Dec = (\<lambda>dst bs. case bs of [v] \<Rightarrow> (v, False) | _ \<Rightarrow> (dst, True))\<rparr>"

definition demo_method :: "(nat, nat) reflect_method" where
  "demo_method = \<lparr>m_Name = ''Add'', m_PkgPath = '''', m_NumIn = 3, m_In2Ptr = True, m_NumOut = 0, m_replyType = 0,
     m_Func = (\<lambda>obj args reply. (obj + args, obj + args))\<rparr>"

definition demo_setup :: "(nat, nat) net_event list" where
  "demo_setup = [EvTable (OpNewObject 1), EvTable OpMakeServer,
     EvTable (OpAddService 0 (MakeService ''Counter'' 0 [demo_method])), EvTable (OpAddServer ''s'' 0),
     EvTable (OpMakeEnd ''e''), EvTable (OpConnect ''e'' ''s''), EvTable (OpEnable ''e'' True),
     EvCall ''e'' ''Counter.Add'' 0 5]"

definition demo_call :: "(nat, nat) net_event list" where
  "demo_call = demo_setup @ [EvStart 0, EvAdmit 0 500, EvHandler 0, EvReceive 0, EvAnswer 0 500 700]"

definition demo_net :: "(nat, nat) net_event list \<Rightarrow> (nat, nat, nat) Network" where
  "demo_net evs = (case net_run demo_codec evs MakeNetwork of Next rn \<Rightarrow> rn | _ \<Rightarrow> MakeNetwork)"

lemma demo_net_run:
  assumes "case net_run demo_codec evs (MakeNetwork :: (nat, nat, nat) Network) of Next _ \<Rightarrow> True | _ \<Rightarrow> False"
  shows "net_run demo_codec evs MakeNetwork = Next (demo_net evs)"
  using assms by (simp add: demo_net_def split: outcome.splits)

lemma demo_runs:
  "net_run demo_codec demo_call MakeNetwork = Next (demo_net demo_call)"
  "net_run demo_codec demo_setup MakeNetwork = Next (demo_net demo_setup)"
  "net_run demo_codec (demo_setup @ [EvStart 0]) MakeNetwork = Next (demo_net (demo_setup @ [EvStart 0]))"
  by (rule demo_net_run, code_simp)+

theorem network_refines_calls_witness:
  "(rpc_spec demo_codec)\<^sup>*\<^sup>* ([], []) (calls_of (demo_net demo_call)) \<and>
   snd (calls_of (demo_net demo_call)) ! 0 = (p_req (nw_procs (demo_net demo_call) ! 0), Completed [6])"
proof -
  note c = network_refines_calls [OF demo_runs(1)]
  have "length (nw_procs (demo_net demo_call)) = 1" by code_simp
  moreover have "(case Call_return demo_codec (nw_procs (demo_net demo_call) ! 0) 0 of Next x \<Rightarrow> x = (True, 6) | _ \<Rightarrow> False)"
    by code_simp
  then have "Call_return demo_codec (nw_procs (demo_net demo_call) ! 0) 0 = Next (True, 6)" by (simp split: outcome.splits)
  ultimately obtain r where r: "snd (calls_of (demo_net demo_call)) ! 0 = (p_req (nw_procs (demo_net demo_call) ! 0), Completed r)"
    "Dec demo_codec 0 r = (6, False)" using c by auto
  from r(2) have "r = [6]" by (auto simp: demo_codec_def split: list.splits)
  with r(1) c show ?thesis by blast
qed

theorem deleted_server_silent_witness:
  "\<exists>rn'. net_run demo_codec [EvAdmit 0 500, EvHandler 0, EvReceive 0, EvAnswer 0 500 700]
      (DeleteServer (demo_net (demo_setup @ [EvStart 0])) ''s'') = Next rn' \<and>
    Call_return demo_codec (nw_procs rn' ! 0) 0 \<noteq> Next (True, 6) \<and> nw_objs rn' = [6]"
proof -
  let ?rn = "demo_net (demo_setup @ [EvStart 0])"
  let ?evs = "[EvAdmit 0 500, EvHandler 0, EvReceive 0, EvAnswer 0 500 700] :: (nat, nat) net_event list"
  have k: "0 < length (nw_procs ?rn)" "p_main (nw_procs ?rn ! 0) = Admitted ''s'' 0 True False" by code_simp+
  have "case net_run demo_codec ?evs (DeleteServer ?rn ''s'') of Next rn' \<Rightarrow> nw_objs rn' = [6] | _ \<Rightarrow> False"
    by code_simp
  then obtain rn' where r: "net_run demo_codec ?evs (DeleteServer ?rn ''s'') = Next rn'" "nw_objs rn' = [6]"
    by (auto split: outcome.splits)
  have "EvTable (OpAddServer ''s'' 0) \<notin> set ?evs" by simp
  from deleted_server_silent [OF k(1) _ r(1) this] k(2) r show ?thesis by blast
qed

theorem deferred_reply_outlives_server_witness:
  "\<exists>rn rn'. net_run demo_codec (EvTable (OpLongReordering True) # demo_setup @ [EvStart 0, EvAdmit 0 500, EvHandler 0, EvReceive 0]) MakeNetwork = Next rn \<and>
     net_run demo_codec [EvAnswer 0 500 500, EvTable (OpDeleteServer ''s''), EvFire 0] rn = Next rn' \<and>
     nw_servers rn' ''s'' = None \<and> Call_return demo_codec (nw_procs rn' ! 0) 0 = Next (True, 6)"
proof -
  let ?evs = "EvTable (OpLongReordering True) # demo_setup @ [EvStart 0, EvAdmit 0 500, EvHandler 0, EvReceive 0]"
  let ?rn = "demo_net ?evs"
  have r: "net_run demo_codec ?evs MakeNetwork = Next ?rn" by (rule demo_net_run) code_simp
  have k: "0 < length (nw_procs ?rn)" "p_main (nw_procs ?rn ! 0) = Finished ''s'' 0 True True (Some \<lparr>rp_ok = True, rp_reply = [6]\<rparr>)"
    "is_enabled ?rn (rq_endname (p_req (nw_procs ?rn ! 0)))" by code_simp+
  have "(case nw_servers ?rn ''s'' of Some 0 \<Rightarrow> True | _ \<Rightarrow> False)" by code_simp
  then have s: "nw_servers ?rn ''s'' = Some 0" by (auto split: option.splits nat.splits)
  from deferred_reply_outlives_server [OF k s, of demo_codec 0 6 500 500] r show ?thesis by (auto simp: demo_codec_def)
qed

theorem calls_return_witness:
  "\<exists>rn' rep. net_follow demo_codec [EvStart 0, EvAdmit 0 500, EvHandler 0, EvReceive 0, EvAnswer 0 500 700, EvFire 0]
     (demo_net demo_setup) = Next rn' \<and> p_main (nw_procs rn' ! 0) = Answered rep"
proof -
  let ?rn = "demo_net demo_setup"
  have k: "0 < length (nw_procs ?rn)" "p_main (nw_procs ?rn ! 0) = Started" "p_handler (nw_procs ?rn ! 0) = NoHandler" by code_simp+
  have sv: "nw_servers ?rn = [''s'' \<mapsto> 0]"
    by (simp add: demo_net_def demo_setup_def Reliable_def MakeEnd_def AddServer_def Connect_def Enable_def from_option_def
        MakeNetwork_def Call_send_def Let_def)
  have "\<not> (case srv_dispatch demo_codec ?rn 0 (p_req (nw_procs ?rn ! 0)) of None \<Rightarrow> True | Some _ \<Rightarrow> False)" by code_simp
  then have "srv_dispatch demo_codec ?rn 0 (p_req (nw_procs ?rn ! 0)) \<noteq> None" by (auto split: option.splits)
  then have "\<forall>a. may_serve ?rn 0 a \<longrightarrow> srv_dispatch demo_codec ?rn a (p_req (nw_procs ?rn ! 0)) \<noteq> None"
    using k(2,3) by (auto simp: may_serve_def sv split: if_splits)
  with calls_return [OF demo_runs(2) k(1), of 500 500 700] show ?thesis by blast
qed

theorem total_count_bounds_witness:
  "GetTotalCount (demo_net demo_call) = int (length (nw_procs (demo_net demo_call))) \<and> GetTotalCount (demo_net demo_call) = 1"
proof -
  have "length (nw_procs (demo_net demo_call)) = 1" by code_simp
  with total_count_bounds [OF demo_runs(1)] show ?thesis by simp
qed

end
