(* ===== verification/Traversal.thy ===== *)
theory Traversal
  imports Prelude
begin

text \<open>
  Depth-first traversal of a finite graph with marks, the pattern of the recursive functions that
  visit every node once: the serial crawler of lab0 and the type check of labgob. The recursion is
  bounded by fuel; as every call below a marked node marks a new one, as much fuel as there
  are unmarked nodes, and one more, is enough.
\<close>

section \<open>Reachable nodes\<close>

inductive_set reach :: "('n \<Rightarrow> 'n list) \<Rightarrow> 'n \<Rightarrow> 'n set" for succ u where
  reach_refl: "u \<in> reach succ u"
| reach_succ: "v \<in> reach succ u \<Longrightarrow> w \<in> set (succ v) \<Longrightarrow> w \<in> reach succ u"

lemma reach_trans:
  assumes "v \<in> reach succ u" "w \<in> reach succ v"
  shows "w \<in> reach succ u"
  using assms(2) by induction (auto intro: assms(1) reach.intros)

lemma reach_from: "w \<in> set (succ u) \<Longrightarrow> v \<in> reach succ w \<Longrightarrow> v \<in> reach succ u"
  by (meson reach_trans reach_refl reach_succ)

lemma reach_closed:
  assumes "w \<in> reach succ u" "u \<in> A" "\<And>v. v \<in> A \<Longrightarrow> set (succ v) \<subseteq> A"
  shows "w \<in> A"
  using assms(1) by induction (use assms(2,3) in blast)+

section \<open>The traversal\<close>

fun dfs :: "nat \<Rightarrow> ('n \<Rightarrow> 'n list) \<Rightarrow> 'n \<Rightarrow> 'n list \<Rightarrow> 'n list option"
  and dfs_list :: "nat \<Rightarrow> ('n \<Rightarrow> 'n list) \<Rightarrow> 'n list \<Rightarrow> 'n list \<Rightarrow> 'n list option" where
  "dfs 0 succ u seen = None"
| "dfs (Suc n) succ u seen = (if u \<in> set seen then Some seen else dfs_list n succ (succ u) (u # seen))"
| "dfs_list n succ [] seen = Some seen"
| "dfs_list n succ (u # us) seen = do { seen \<leftarrow> dfs n succ u seen; dfs_list n succ us seen }"

text \<open>The nodes \<open>vs\<close> newly marked by a traversal from the nodes \<open>us\<close>.\<close>

definition marks :: "('n \<Rightarrow> 'n list) \<Rightarrow> 'n list \<Rightarrow> 'n list \<Rightarrow> 'n list \<Rightarrow> bool" where
  "marks succ us seen vs \<longleftrightarrow> distinct vs \<and> set vs \<inter> set seen = {} \<and> set us \<subseteq> set vs \<union> set seen \<and>
     (\<forall>v\<in>set vs. set (succ v) \<subseteq> set vs \<union> set seen) \<and> (\<forall>v\<in>set vs. \<exists>u\<in>set us. v \<in> reach succ u)"

lemma marks_append:
  assumes "marks succ [u] seen vs" "marks succ us (vs @ seen) ws"
  shows "marks succ (u # us) seen (ws @ vs)"
  using assms by (auto simp: marks_def)

lemma marks_node:
  assumes "marks succ (succ u) (u # seen) vs" "u \<notin> set seen"
  shows "marks succ [u] seen (vs @ [u])"
  using assms by (auto simp: marks_def intro: reach_refl reach_from)

lemma dfs_list_ends:
  assumes step: "\<And>u seen. u \<in> U \<Longrightarrow> card (U - set seen) < n \<Longrightarrow>
      \<exists>vs. dfs n succ u seen = Some (vs @ seen) \<and> marks succ [u] seen vs"
    and "finite U" "set us \<subseteq> U" "card (U - set seen) < n"
  shows "\<exists>vs. dfs_list n succ us seen = Some (vs @ seen) \<and> marks succ us seen vs"
  using assms(3,4)
proof (induction us arbitrary: seen)
  case (Cons u us)
  then have "u \<in> U" by simp
  from step [OF this Cons.prems(2)] obtain vs where
    v: "dfs n succ u seen = Some (vs @ seen)" "marks succ [u] seen vs" by blast
  have "card (U - set (vs @ seen)) \<le> card (U - set seen)" using assms(2) by (intro card_mono) auto
  with Cons obtain ws where "dfs_list n succ us (vs @ seen) = Some (ws @ vs @ seen)" "marks succ us (vs @ seen) ws"
    by (metis append.assoc insert_subset le_less_trans list.simps(15))
  with v marks_append [OF v(2)] show ?case by auto
qed (simp add: marks_def)

lemma dfs_ends:
  assumes "finite U" "\<And>v. v \<in> U \<Longrightarrow> set (succ v) \<subseteq> U" "u \<in> U" "card (U - set seen) < n"
  shows "\<exists>vs. dfs n succ u seen = Some (vs @ seen) \<and> marks succ [u] seen vs"
  using assms(3,4)
proof (induction n arbitrary: u seen)
  case (Suc n)
  show ?case
  proof (cases "u \<in> set seen")
    case True
    then show ?thesis by (simp add: marks_def)
  next
    case False
    have "U - set (u # seen) = (U - set seen) - {u}" by auto
    then have "card (U - set (u # seen)) < n"
      using Suc.prems False card_Diff1_less [of "U - set seen" u] assms(1) by auto
    from dfs_list_ends [OF Suc.IH assms(1) assms(2) [OF Suc.prems(1)] this] obtain vs where
      "dfs_list n succ (succ u) (u # seen) = Some (vs @ u # seen)" "marks succ (succ u) (u # seen) vs" by blast
    with False marks_node [of succ u seen vs] show ?thesis by auto
  qed
qed simp

text \<open>From marks that are closed under successors, exactly the reachable nodes are added.\<close>

lemma marks_reach:
  assumes "marks succ [u] seen vs" "\<And>v. v \<in> set seen \<Longrightarrow> set (succ v) \<subseteq> set seen"
  shows "set vs \<union> set seen = reach succ u \<union> set seen"
proof -
  have "w \<in> set vs \<union> set seen" if "w \<in> reach succ u" for w
    by (rule reach_closed [OF that]) (use assms in \<open>auto simp: marks_def\<close>)
  with assms(1) show ?thesis by (auto simp: marks_def)
qed

text \<open>A traversal only adds marks.\<close>

lemma dfs_extends:
  "dfs n succ u seen = Some seen' \<Longrightarrow> \<exists>vs. seen' = vs @ seen"
  "dfs_list n succ us seen = Some seen' \<Longrightarrow> \<exists>vs. seen' = vs @ seen"
proof (induction n succ u seen and n succ us seen arbitrary: seen' and seen' rule: dfs_dfs_list.induct)
  case (4 n succ u us seen)
  then show ?case by (fastforce simp: bind_Some_iff)
qed (auto split: if_splits)

end
