(* ===== verification/Labgob.thy ===== *)
theory Labgob
  imports Traversal
begin

text \<open>
  The encoder the services use (package labgob): encoding/gob with warnings about types and
  variables that gob would handle in surprising ways. A type is an index into a table of
  kinds, since Go types may refer to themselves; encoding and decoding themselves are
  arguments, as is the test for an upper-case first letter. The printed warnings are left out:
  what remains of one is the count of errors.
\<close>

section \<open>Types\<close>

text \<open>The kinds \<open>checkType\<close> distinguishes: a struct with its fields, a slice, array or pointer with its element type, a map.\<close>

datatype kind = KStruct "(string \<times> nat) list" | KElem nat | KMap nat nat | KOther

record labgob =
  errorCount :: int
  checked :: "nat list"

fun checkType :: "nat \<Rightarrow> (string \<Rightarrow> bool) \<Rightarrow> kind list \<Rightarrow> nat \<Rightarrow> labgob \<Rightarrow> labgob option"
  and checkFields :: "nat \<Rightarrow> (string \<Rightarrow> bool) \<Rightarrow> kind list \<Rightarrow> (string \<times> nat) list \<Rightarrow> labgob \<Rightarrow> labgob option" where
  "checkType 0 isUpper ts t st = None"
| "checkType (Suc n) isUpper ts t st =
     (if t \<in> set (checked st) then Some st
      else (let st = st\<lparr>checked := t # checked st\<rparr>
            in case ts ! t of
                 KStruct fs \<Rightarrow> checkFields n isUpper ts fs st
               | KElem e \<Rightarrow> checkType n isUpper ts e st
               | KMap e k \<Rightarrow> do { st \<leftarrow> checkType n isUpper ts e st; checkType n isUpper ts k st }
               | KOther \<Rightarrow> Some st))"
| "checkFields n isUpper ts [] st = Some st"
| "checkFields n isUpper ts ((name, ft) # fs) st = do {
     let st = (if \<not> isUpper name then st\<lparr>errorCount := errorCount st + 1\<rparr> else st);
     st \<leftarrow> checkType n isUpper ts ft st;
     checkFields n isUpper ts fs st
   }"

section \<open>Values\<close>

text \<open>A value as \<open>checkDefault1\<close> looks at it: of a basic value it only asks whether it is the zero value.\<close>

datatype goval = VStruct "goval list" | VPtr "goval option" | VBasic bool | VOther

fun checkDefault1 :: "goval \<Rightarrow> nat \<Rightarrow> labgob \<Rightarrow> labgob"
  and checkDefault_fields :: "goval list \<Rightarrow> nat \<Rightarrow> labgob \<Rightarrow> labgob" where
  "checkDefault1 (VStruct vs) depth st = (if depth > 3 then st else checkDefault_fields vs (depth + 1) st)"
| "checkDefault1 (VPtr None) depth st = st"
| "checkDefault1 (VPtr (Some v)) depth st = (if depth > 3 then st else checkDefault1 v (depth + 1) st)"
| "checkDefault1 (VBasic zero) depth st =
     (if depth > 3 then st else if \<not> zero then st\<lparr>errorCount := errorCount st + 1\<rparr> else st)"
| "checkDefault1 VOther depth st = st"
| "checkDefault_fields [] depth st = st"
| "checkDefault_fields (v # vs) depth st = checkDefault_fields vs depth (checkDefault1 v depth st)"

definition checkDefault :: "goval option \<Rightarrow> labgob \<Rightarrow> labgob" where
  "checkDefault value st = (case value of None \<Rightarrow> st | Some v \<Rightarrow> checkDefault1 v 1 st)"

definition checkValue :: "(string \<Rightarrow> bool) \<Rightarrow> kind list \<Rightarrow> nat \<Rightarrow> labgob \<Rightarrow> labgob option" where
  "checkValue isUpper ts t = checkType (length ts + 1) isUpper ts t"

section \<open>The encoder\<close>

definition lab_Encode :: "(string \<Rightarrow> bool) \<Rightarrow> kind list \<Rightarrow> ('v \<Rightarrow> 'b) \<Rightarrow> nat \<Rightarrow> 'v \<Rightarrow> labgob \<Rightarrow> (labgob \<times> 'b) option" where
  "lab_Encode isUpper ts gobEncode t e st = do { st \<leftarrow> checkValue isUpper ts t st; Some (st, gobEncode e) }"

definition lab_Decode ::
  "(string \<Rightarrow> bool) \<Rightarrow> kind list \<Rightarrow> ('b \<Rightarrow> 'v \<Rightarrow> 'v) \<Rightarrow> ('v \<Rightarrow> goval) \<Rightarrow> nat \<Rightarrow> 'b \<Rightarrow> 'v \<Rightarrow> labgob \<Rightarrow> (labgob \<times> 'v) option" where
  "lab_Decode isUpper ts gobDecode view t bs e st = do {
     st \<leftarrow> checkValue isUpper ts t st;
     let st = checkDefault (Some (view e)) st;
     Some (st, gobDecode bs e)
   }"

section \<open>The type check visits every type once\<close>

definition parts_of :: "kind list \<Rightarrow> nat \<Rightarrow> nat list" where
  "parts_of ts t = (case ts ! t of KStruct fs \<Rightarrow> map snd fs | KElem e \<Rightarrow> [e] | KMap e k \<Rightarrow> [e, k] | KOther \<Rightarrow> [])"

definition lower_fields :: "(string \<Rightarrow> bool) \<Rightarrow> (string \<times> nat) list \<Rightarrow> int" where
  "lower_fields isUpper fs = int (length (filter (\<lambda>(name, _). \<not> isUpper name) fs))"

definition complaints :: "(string \<Rightarrow> bool) \<Rightarrow> kind list \<Rightarrow> nat \<Rightarrow> int" where
  "complaints isUpper ts t = (case ts ! t of KStruct fs \<Rightarrow> lower_fields isUpper fs | _ \<Rightarrow> 0)"

definition after :: "(string \<Rightarrow> bool) \<Rightarrow> kind list \<Rightarrow> nat list \<Rightarrow> labgob \<Rightarrow> labgob" where
  "after isUpper ts vs st =
     st\<lparr>errorCount := errorCount st + sum_list (map (complaints isUpper ts) vs), checked := vs @ checked st\<rparr>"

lemma checkFields_dfs:
  assumes step: "\<And>t st vs. dfs n (parts_of ts) t (checked st) = Some (vs @ checked st) \<Longrightarrow>
      checkType n up ts t st = Some (after up ts vs st)"
    and "dfs_list n (parts_of ts) (map snd fs) (checked st) = Some (vs @ checked st)"
  shows "checkFields n up ts fs st = Some ((after up ts vs st)\<lparr>errorCount := errorCount (after up ts vs st) + lower_fields up fs\<rparr>)"
  using assms(2)
proof (induction fs arbitrary: st vs)
  case (Cons f fs)
  obtain name ft where f: "f = (name, ft)" by (cases f)
  let ?st = "if \<not> up name then st\<lparr>errorCount := errorCount st + 1\<rparr> else st"
  from Cons.prems f obtain seen where d: "dfs n (parts_of ts) ft (checked st) = Some seen"
    "dfs_list n (parts_of ts) (map snd fs) seen = Some (vs @ checked st)" by (auto simp: bind_Some_iff)
  from dfs_extends(1) [OF d(1)] obtain us where us: "seen = us @ checked st" by blast
  from dfs_extends(2) [OF d(2)] us obtain ws where vs: "vs = ws @ us" by auto
  let ?st1 = "after up ts us ?st"
  have "checkType n up ts ft ?st = Some ?st1" using d(1) us by (intro step) simp
  moreover have "checkFields n up ts fs ?st1 = Some ((after up ts ws ?st1)\<lparr>errorCount := errorCount (after up ts ws ?st1) + lower_fields up fs\<rparr>)"
    using d(2) us vs by (intro Cons.IH) (simp add: after_def)
  ultimately show ?case by (simp add: f vs after_def lower_fields_def)
qed (simp add: after_def lower_fields_def)

lemma checkType_dfs:
  "dfs n (parts_of ts) t (checked st) = Some (vs @ checked st) \<Longrightarrow> checkType n up ts t st = Some (after up ts vs st)"
proof (induction n arbitrary: t st vs)
  case (Suc n)
  show ?case
  proof (cases "t \<in> set (checked st)")
    case True
    with Suc.prems show ?thesis by (simp add: after_def)
  next
    case False
    let ?st = "st\<lparr>checked := t # checked st\<rparr>"
    from Suc.prems False have d: "dfs_list n (parts_of ts) (parts_of ts t) (checked ?st) = Some (vs @ checked st)" by simp
    from dfs_extends(2) [OF d] obtain us where vs: "vs = us @ [t]" by auto
    with d have d: "dfs_list n (parts_of ts) (parts_of ts t) (checked ?st) = Some (us @ checked ?st)" by simp
    show ?thesis
    proof (cases "ts ! t")
      case (KStruct fs)
      have "map snd fs = parts_of ts t" using KStruct by (simp add: parts_of_def)
      with d have "checkFields n up ts fs ?st = Some ((after up ts us ?st)\<lparr>errorCount := errorCount (after up ts us ?st) + lower_fields up fs\<rparr>)"
        using checkFields_dfs [OF Suc.IH, of fs ?st us] by simp
      with KStruct False show ?thesis by (simp add: vs after_def complaints_def)
    next
      case (KElem e)
      then have "parts_of ts t = [e]" by (simp add: parts_of_def)
      with d Suc.IH [of e ?st us] KElem False show ?thesis
        by (simp add: vs after_def complaints_def bind_Some_iff)
    next
      case (KMap e k)
      with d obtain seen where k: "dfs n (parts_of ts) e (checked ?st) = Some seen" "dfs n (parts_of ts) k seen = Some (us @ checked ?st)"
        by (auto simp: parts_of_def bind_Some_iff)
      from dfs_extends(1) [OF k(1)] obtain ws where ws: "seen = ws @ checked ?st" by blast
      from dfs_extends(1) [OF k(2)] ws obtain xs where us: "us = xs @ ws" by auto
      from Suc.IH [of e ?st ws] k(1) ws have "checkType n up ts e ?st = Some (after up ts ws ?st)" by simp
      moreover have "checkType n up ts k (after up ts ws ?st) = Some (after up ts xs (after up ts ws ?st))"
        using k(2) ws us by (intro Suc.IH) (simp add: after_def)
      ultimately show ?thesis using KMap False by (simp add: vs us after_def complaints_def)
    next
      case KOther
      with d have "us = []" by (simp add: parts_of_def)
      with KOther False show ?thesis by (simp add: vs after_def complaints_def)
    qed
  qed
qed simp

text \<open>
  The type check ends, also on recursive types, and complains once. In a table of types
  that refer to types of the table, with the types checked before closed under reference, checking
  a type returns; the checked types are then those from before and every type the checked
  one refers to, directly or not; the count of errors has grown by the number of lower-case fields of
  the types that are new, each counted once; checking the type again changes nothing.
\<close>

theorem checkValue_once:
  assumes "\<forall>u<length ts. set (parts_of ts u) \<subseteq> {..<length ts}" "t < length ts"
    and "\<forall>u\<in>set (checked st). set (parts_of ts u) \<subseteq> set (checked st)"
  shows "\<exists>st'. checkValue isUpper ts t st = Some st' \<and> set (checked st') = set (checked st) \<union> reach (parts_of ts) t \<and>
    errorCount st' = errorCount st + (\<Sum>u\<in>reach (parts_of ts) t - set (checked st). complaints isUpper ts u) \<and>
    checkValue isUpper ts t st' = Some st'"
proof -
  have "card ({..<length ts} - set (checked st)) \<le> card {..<length ts}" by (intro card_mono) auto
  then have "card ({..<length ts} - set (checked st)) < length ts + 1" by simp
  from dfs_ends [of "{..<length ts}" "parts_of ts" t, OF _ _ _ this] assms(1,2) obtain vs where
    v: "dfs (length ts + 1) (parts_of ts) t (checked st) = Some (vs @ checked st)" "marks (parts_of ts) [t] (checked st) vs" by auto
  from marks_reach [OF v(2)] assms(3) v(2) have set: "set vs \<union> set (checked st) = reach (parts_of ts) t \<union> set (checked st)"
    "set vs = reach (parts_of ts) t - set (checked st)" "distinct vs" by (auto simp: marks_def)
  let ?st = "after isUpper ts vs st"
  have "t \<in> set (checked ?st)" using set(1) reach_refl [of t "parts_of ts"] by (auto simp: after_def)
  moreover have "checkValue isUpper ts t st = Some ?st" unfolding checkValue_def by (rule checkType_dfs [OF v(1)])
  ultimately show ?thesis using set
    by (intro exI [of _ ?st]) (auto simp: after_def checkValue_def sum_list_distinct_conv_sum_set)
qed

text \<open>The check of a variable counts its basic parts that are not zero, down to the third level.\<close>

fun stale :: "goval \<Rightarrow> nat \<Rightarrow> nat" where
  "stale (VStruct vs) depth = (if depth > 3 then 0 else sum_list (map (\<lambda>v. stale v (depth + 1)) vs))"
| "stale (VPtr p) depth = (if depth > 3 then 0 else (case p of None \<Rightarrow> 0 | Some v \<Rightarrow> stale v (depth + 1)))"
| "stale (VBasic zero) depth = (if depth > 3 \<or> zero then 0 else 1)"
| "stale VOther depth = 0"

lemma checkDefault1_counts:
  "checkDefault1 v depth st = st\<lparr>errorCount := errorCount st + int (stale v depth)\<rparr>"
  "checkDefault_fields vs depth st = st\<lparr>errorCount := errorCount st + int (sum_list (map (\<lambda>v. stale v depth) vs))\<rparr>"
  by (induction v depth st and vs depth st rule: checkDefault1_checkDefault_fields.induct) auto

definition demo_types :: "kind list" where
  "demo_types = [KStruct [(''Key'', 1), (''next'', 2)], KOther, KElem 0]"

theorem checkValue_once_witness:
  "\<exists>st'. checkValue (\<lambda>s. s = ''Key'') demo_types 2 \<lparr>errorCount = 0, checked = []\<rparr> = Some st' \<and> errorCount st' = 1 \<and>
     set (checked st') = reach (parts_of demo_types) 2"
proof -
  let ?st = "\<lparr>errorCount = 0, checked = []\<rparr>"
  have "\<forall>t<length demo_types. set (parts_of demo_types t) \<subseteq> {..<length demo_types}"
    by (auto simp: demo_types_def parts_of_def less_Suc_eq)
  from checkValue_once [OF this, of 2 ?st "\<lambda>s. s = ''Key''"] obtain st' where
    c: "checkValue (\<lambda>s. s = ''Key'') demo_types 2 ?st = Some st'" "set (checked st') = reach (parts_of demo_types) 2"
    by (auto simp: demo_types_def)
  have "map_option errorCount (checkValue (\<lambda>s. s = ''Key'') demo_types 2 ?st) = Some 1" by code_simp
  with c show ?thesis by auto
qed

end
