(* ===== verification/Crawler.thy ===== *)
theory Crawler
  imports Traversal
begin

text \<open>
  The three web crawlers of lab0 (crawler.go): a serial one, one that starts a goroutine per link
  and shares a map under a mutex, and one whose master receives the links over a channel. The
  fetcher is an argument: the links of a page, or \<^term>\<open>None\<close> for an error. The concurrent
  crawlers are step relations over their goroutines.
\<close>

section \<open>Fetchers\<close>

type_synonym fetcher = "string \<Rightarrow> string list option"

record fakeResult =
  fr_body :: string
  fr_urls :: "string list"

definition fake_Fetch :: "(string \<times> fakeResult) list \<Rightarrow> fetcher" where
  "fake_Fetch f url = map_option fr_urls (map_of f url)"

definition links :: "fetcher \<Rightarrow> string \<Rightarrow> string list" where
  "links fetch u = (case fetch u of None \<Rightarrow> [] | Some urls \<Rightarrow> urls)"

section \<open>The serial crawler\<close>

fun Serial :: "nat \<Rightarrow> fetcher \<Rightarrow> string \<Rightarrow> string list \<Rightarrow> string list option"
  and Serial_urls :: "nat \<Rightarrow> fetcher \<Rightarrow> string list \<Rightarrow> string list \<Rightarrow> string list option" where
  "Serial 0 fetch url fetched = None"
| "Serial (Suc n) fetch url fetched =
     (if url \<in> set fetched then Some fetched
      else (case fetch url of
              None \<Rightarrow> Some (url # fetched)
            | Some urls \<Rightarrow> Serial_urls n fetch urls (url # fetched)))"
| "Serial_urls n fetch [] fetched = Some fetched"
| "Serial_urls n fetch (u # us) fetched = do { fetched \<leftarrow> Serial n fetch u fetched; Serial_urls n fetch us fetched }"

lemma Serial_dfs:
  "Serial n fetch url fetched = dfs n (links fetch) url fetched"
  "Serial_urls n fetch urls fetched = dfs_list n (links fetch) urls fetched"
  by (induction n fetch url fetched and n fetch urls fetched rule: Serial_Serial_urls.induct)
    (auto simp: links_def split: option.splits intro: Option.bind_cong)

section \<open>The crawler with channels\<close>

text \<open>The goroutines that are about to send on the channel: the one that sends the first page, and the workers.\<close>

datatype sender = First string | Worker string

definition sent_urls :: "fetcher \<Rightarrow> sender \<Rightarrow> string list" where
  "sent_urls fetch s = (case s of First url \<Rightarrow> [url] | Worker url \<Rightarrow> (case fetch url of None \<Rightarrow> [] | Some urls \<Rightarrow> urls))"

record master =
  ms_n :: int
  ms_fetched :: "string list"
  ms_senders :: "sender list"
  ms_stopped :: bool

fun master_urls :: "string list \<Rightarrow> master \<Rightarrow> master" where
  "master_urls [] st = st"
| "master_urls (u # us) st =
     master_urls us
       (if u \<notin> set (ms_fetched st)
        then st\<lparr>ms_fetched := u # ms_fetched st, ms_n := ms_n st + 1, ms_senders := ms_senders st @ [Worker u]\<rparr>
        else st)"

text \<open>One round of the loop: the master receives from sender \<open>i\<close>, which then ends.\<close>

definition master_receive :: "fetcher \<Rightarrow> master \<Rightarrow> nat \<Rightarrow> master" where
  "master_receive fetch st i =
     (let urls = sent_urls fetch (ms_senders st ! i);
          st = st\<lparr>ms_senders := take i (ms_senders st) @ drop (Suc i) (ms_senders st)\<rparr>;
          st = master_urls urls st;
          st = st\<lparr>ms_n := ms_n st - 1\<rparr>
      in if ms_n st = 0 then st\<lparr>ms_stopped := True\<rparr> else st)"

definition ConcurrentChannel :: "string \<Rightarrow> master" where
  "ConcurrentChannel url = \<lparr>ms_n = 1, ms_fetched = [], ms_senders = [First url], ms_stopped = False\<rparr>"

inductive channel_run :: "fetcher \<Rightarrow> string \<Rightarrow> nat \<Rightarrow> master \<Rightarrow> bool" for fetch url where
  start: "channel_run fetch url 0 (ConcurrentChannel url)"
| receive: "channel_run fetch url k st \<Longrightarrow> \<not> ms_stopped st \<Longrightarrow> i < length (ms_senders st) \<Longrightarrow>
    channel_run fetch url (Suc k) (master_receive fetch st i)"

definition channel_ok :: "fetcher \<Rightarrow> string \<Rightarrow> nat \<Rightarrow> master \<Rightarrow> bool" where
  "channel_ok fetch url k st \<longleftrightarrow> distinct (ms_fetched st) \<and> set (ms_fetched st) \<subseteq> reach (links fetch) url \<and>
     ms_n st = int (length (ms_senders st)) \<and> k + length (ms_senders st) = 1 + length (ms_fetched st) \<and>
     (\<forall>s\<in>set (ms_senders st). case s of First u \<Rightarrow> u = url | Worker u \<Rightarrow> u \<in> set (ms_fetched st)) \<and>
     (First url \<in> set (ms_senders st) \<or> url \<in> set (ms_fetched st)) \<and>
     (\<forall>u\<in>set (ms_fetched st). Worker u \<in> set (ms_senders st) \<or> set (links fetch u) \<subseteq> set (ms_fetched st)) \<and>
     (ms_stopped st \<longleftrightarrow> ms_senders st = [])"

text \<open>What handling the received links adds.\<close>

lemma master_urls_spec:
  "\<exists>us. distinct us \<and> set us = set urls - set (ms_fetched st) \<and>
     master_urls urls st = st\<lparr>ms_fetched := rev us @ ms_fetched st, ms_n := ms_n st + int (length us),
       ms_senders := ms_senders st @ map Worker us\<rparr>"
proof (induction urls arbitrary: st)
  case Nil
  then show ?case by (intro exI [of _ "[]"]) simp
next
  case (Cons u urls)
  show ?case
  proof (cases "u \<in> set (ms_fetched st)")
    case True
    with Cons.IH [of st] show ?thesis by auto
  next
    case False
    let ?st = "st\<lparr>ms_fetched := u # ms_fetched st, ms_n := ms_n st + 1, ms_senders := ms_senders st @ [Worker u]\<rparr>"
    from Cons.IH [of ?st] obtain us where "distinct us" "set us = set urls - set (ms_fetched ?st)"
      "master_urls urls ?st = ?st\<lparr>ms_fetched := rev us @ ms_fetched ?st, ms_n := ms_n ?st + int (length us),
         ms_senders := ms_senders ?st @ map Worker us\<rparr>" by blast
    with False show ?thesis by (intro exI [of _ "u # us"]) auto
  qed
qed

lemma sent_urls_simps [simp]: "sent_urls fetch (First u) = [u]" "sent_urls fetch (Worker u) = links fetch u"
  by (simp_all add: sent_urls_def links_def)

lemma sent_reach:
  "case s of First u \<Rightarrow> u = url | Worker u \<Rightarrow> u \<in> reach (links fetch) url \<Longrightarrow> set (sent_urls fetch s) \<subseteq> reach (links fetch) url"
  by (cases s) (auto intro: reach_refl reach_succ)

lemma set_without: "i < length xs \<Longrightarrow> set xs = insert (xs ! i) (set (take i xs @ drop (Suc i) xs))"
  by (subst (1) id_take_nth_drop [of i xs]) auto

lemma channel_ok_receive:
  assumes ok: "channel_ok fetch url k st" and i: "i < length (ms_senders st)"
  shows "channel_ok fetch url (Suc k) (master_receive fetch st i)"
proof -
  let ?s = "ms_senders st ! i" and ?rest = "take i (ms_senders st) @ drop (Suc i) (ms_senders st)"
  let ?urls = "sent_urls fetch ?s"
  from master_urls_spec [of ?urls "st\<lparr>ms_senders := ?rest\<rparr>"] obtain us where us: "distinct us"
    "set us = set ?urls - set (ms_fetched st)"
    "master_urls ?urls (st\<lparr>ms_senders := ?rest\<rparr>) = st\<lparr>ms_fetched := rev us @ ms_fetched st, ms_n := ms_n st + int (length us),
       ms_senders := ?rest @ map Worker us\<rparr>" by auto
  have len: "length ?rest = length (ms_senders st) - 1" using i by simp
  have mem: "set (ms_senders st) = insert ?s (set ?rest)" by (rule set_without [OF i])
  have n: "ms_n st + int (length us) - 1 = int (length (?rest @ map Worker us))" using ok i len by (simp add: channel_ok_def)
  define st' where "st' = master_receive fetch st i"
  have st': "ms_fetched st' = rev us @ ms_fetched st" "ms_senders st' = ?rest @ map Worker us"
    "ms_n st' = int (length (ms_senders st'))" "ms_stopped st' \<longleftrightarrow> ms_stopped st \<or> ms_n st' = 0"
    unfolding st'_def master_receive_def Let_def us(3) using n by simp_all
  have s: "case ?s of First u \<Rightarrow> u = url | Worker u \<Rightarrow> u \<in> set (ms_fetched st)" using ok i by (simp add: channel_ok_def)
  then have "set ?urls \<subseteq> reach (links fetch) url"
    using ok by (intro sent_reach) (auto simp: channel_ok_def split: sender.splits)
  moreover have got: "set ?urls \<subseteq> set (ms_fetched st')" using us(2) by (auto simp: st'(1))
  have "Worker u \<in> set (ms_senders st') \<or> set (links fetch u) \<subseteq> set (ms_fetched st')" if "u \<in> set (ms_fetched st)" for u
  proof -
    have "Worker u \<in> insert ?s (set ?rest) \<or> set (links fetch u) \<subseteq> set (ms_fetched st)"
      using ok that unfolding channel_ok_def mem by blast
    moreover have "set (links fetch u) \<subseteq> set (ms_fetched st')" if "Worker u = ?s"
      using got unfolding that [symmetric] by simp
    ultimately show ?thesis by (auto simp: st'(1,2))
  qed
  moreover have "First url \<in> set (ms_senders st') \<or> url \<in> set (ms_fetched st')"
  proof -
    have "First url \<in> insert ?s (set ?rest) \<or> url \<in> set (ms_fetched st)" using ok unfolding channel_ok_def mem by blast
    moreover have "url \<in> set (ms_fetched st')" if "First url = ?s" using got unfolding that [symmetric] by simp
    ultimately show ?thesis by (auto simp: st'(1,2))
  qed
  moreover have "case s of First u \<Rightarrow> u = url | Worker u \<Rightarrow> u \<in> set (ms_fetched st')" if "s \<in> set (ms_senders st')" for s
  proof (cases "s \<in> set ?rest")
    case True
    then have "s \<in> set (ms_senders st)" unfolding mem by blast
    with ok show ?thesis by (auto simp: channel_ok_def st'(1) split: sender.splits)
  qed (use that in \<open>auto simp: st'(1,2)\<close>)
  moreover have "\<not> ms_stopped st" using ok i by (auto simp: channel_ok_def)
  moreover have "Suc k + length (ms_senders st') = 1 + length (ms_fetched st')"
    using ok i by (auto simp: channel_ok_def st'(1,2))
  moreover have "Worker u \<in> set (ms_senders st')" if "u \<in> set us" for u using that by (simp add: st'(2))
  ultimately show ?thesis using ok us(1,2) unfolding st'_def [symmetric] channel_ok_def st'(3,4) by (auto simp: st'(1))
qed

lemma channel_run_ok: "channel_run fetch url k st \<Longrightarrow> channel_ok fetch url k st"
proof (induction rule: channel_run.induct)
  case start
  then show ?case by (simp add: channel_ok_def ConcurrentChannel_def)
qed (rule channel_ok_receive)

section \<open>The crawler with a mutex\<close>

text \<open>
  A goroutine is about to take the lock, to fetch its page, or to wait for the goroutines it
  started, or it has returned. Its wait group counts those that have not returned; the code
  adds to the group before it starts a goroutine and waits after it has started all of them.
\<close>

datatype phase = AtLock | AtFetch | AtWait | AtEnd

record crawl_goroutine =
  g_url :: string
  g_parent :: "nat option"
  g_phase :: phase
  g_group :: int

record fetchState =
  fs_fetched :: "string list"
  fs_log :: "string list"
  fs_gs :: "crawl_goroutine list"

definition makeState :: "string \<Rightarrow> fetchState" where
  "makeState url = \<lparr>fs_fetched = [], fs_log = [], fs_gs = [\<lparr>g_url = url, g_parent = None, g_phase = AtLock, g_group = 0\<rparr>]\<rparr>"

definition set_phase :: "fetchState \<Rightarrow> nat \<Rightarrow> phase \<Rightarrow> fetchState" where
  "set_phase f i ph = f\<lparr>fs_gs := (fs_gs f)[i := (fs_gs f ! i)\<lparr>g_phase := ph\<rparr>]\<rparr>"

text \<open>Returning: the deferred \<open>done.Done()\<close> of a started goroutine.\<close>

definition crawl_return :: "fetchState \<Rightarrow> nat \<Rightarrow> fetchState" where
  "crawl_return f i =
     (let f = set_phase f i AtEnd
      in case g_parent (fs_gs f ! i) of
           None \<Rightarrow> f
         | Some p \<Rightarrow> f\<lparr>fs_gs := (fs_gs f)[p := (fs_gs f ! p)\<lparr>g_group := g_group (fs_gs f ! p) - 1\<rparr>]\<rparr>)"

definition mutex_lock :: "fetchState \<Rightarrow> nat \<Rightarrow> fetchState" where
  "mutex_lock f i =
     (let url = g_url (fs_gs f ! i); already = (url \<in> set (fs_fetched f))
      in if already then crawl_return f i else set_phase (f\<lparr>fs_fetched := url # fs_fetched f\<rparr>) i AtFetch)"

definition mutex_fetch :: "fetcher \<Rightarrow> fetchState \<Rightarrow> nat \<Rightarrow> fetchState" where
  "mutex_fetch fetch f i =
     (let url = g_url (fs_gs f ! i); f = f\<lparr>fs_log := url # fs_log f\<rparr>
      in case fetch url of
           None \<Rightarrow> crawl_return f i
         | Some urls \<Rightarrow>
             f\<lparr>fs_gs := (fs_gs f)[i := (fs_gs f ! i)\<lparr>g_phase := AtWait, g_group := int (length urls)\<rparr>] @
                map (\<lambda>u. \<lparr>g_url = u, g_parent = Some i, g_phase = AtLock, g_group = 0\<rparr>) urls\<rparr>)"

definition crawl_step :: "fetcher \<Rightarrow> fetchState \<Rightarrow> nat \<Rightarrow> fetchState outcome" where
  "crawl_step fetch f i =
     (if i < length (fs_gs f)
      then (case g_phase (fs_gs f ! i) of
              AtLock \<Rightarrow> Next (mutex_lock f i)
            | AtFetch \<Rightarrow> Next (mutex_fetch fetch f i)
            | AtWait \<Rightarrow> (if g_group (fs_gs f ! i) = 0 then Next (crawl_return f i) else Disabled)
            | AtEnd \<Rightarrow> Disabled)
      else Disabled)"

inductive mutex_run :: "fetcher \<Rightarrow> string \<Rightarrow> nat \<Rightarrow> fetchState \<Rightarrow> bool" for fetch url where
  start: "mutex_run fetch url 0 (makeState url)"
| step: "mutex_run fetch url k f \<Longrightarrow> crawl_step fetch f i = Next f' \<Longrightarrow> mutex_run fetch url (Suc k) f'"

text \<open>The children of a goroutine that have not returned.\<close>

definition working :: "crawl_goroutine list \<Rightarrow> nat \<Rightarrow> nat set" where
  "working gs i = {j. j < length gs \<and> g_parent (gs ! j) = Some i \<and> g_phase (gs ! j) \<noteq> AtEnd}"

text \<open>The tree of goroutines and their wait groups.\<close>

definition tree_ok :: "string \<Rightarrow> crawl_goroutine list \<Rightarrow> bool" where
  "tree_ok url gs \<longleftrightarrow> gs \<noteq> [] \<and> g_parent (gs ! 0) = None \<and> g_url (gs ! 0) = url \<and>
     (\<forall>j<length gs. j \<noteq> 0 \<longrightarrow> (\<exists>p<j. g_parent (gs ! j) = Some p)) \<and>
     (\<forall>i<length gs. g_group (gs ! i) = int (card (working gs i))) \<and>
     (\<forall>i<length gs. g_phase (gs ! i) \<noteq> AtWait \<longrightarrow> working gs i = {})"

text \<open>What has been fetched, and what is still to be fetched.\<close>

definition pages_ok :: "fetcher \<Rightarrow> string \<Rightarrow> fetchState \<Rightarrow> bool" where
  "pages_ok fetch url f \<longleftrightarrow> distinct (fs_fetched f) \<and> distinct (fs_log f) \<and> set (fs_log f) \<subseteq> set (fs_fetched f) \<and>
     set (fs_fetched f) \<subseteq> reach (links fetch) url \<and>
     (\<forall>i<length (fs_gs f). g_url (fs_gs f ! i) \<in> reach (links fetch) url) \<and>
     (\<forall>i<length (fs_gs f). g_phase (fs_gs f ! i) \<noteq> AtLock \<longrightarrow> g_url (fs_gs f ! i) \<in> set (fs_fetched f)) \<and>
     (\<forall>i<length (fs_gs f). g_phase (fs_gs f ! i) = AtFetch \<longrightarrow> g_url (fs_gs f ! i) \<notin> set (fs_log f)) \<and>
     (\<forall>u\<in>set (fs_fetched f). u \<in> set (fs_log f) \<or> (\<exists>i<length (fs_gs f). g_url (fs_gs f ! i) = u \<and> g_phase (fs_gs f ! i) = AtFetch)) \<and>
     (\<forall>u\<in>set (fs_log f). \<forall>v\<in>set (links fetch u). \<exists>i<length (fs_gs f). g_url (fs_gs f ! i) = v) \<and>
     (\<forall>i<length (fs_gs f). \<forall>j<length (fs_gs f). g_phase (fs_gs f ! i) = AtFetch \<longrightarrow> g_phase (fs_gs f ! j) = AtFetch \<longrightarrow>
        g_url (fs_gs f ! i) = g_url (fs_gs f ! j) \<longrightarrow> i = j)"

lemma working_finite [simp]: "finite (working gs i)"
  by (simp add: working_def)

text \<open>What a return changes: the goroutine's phase and its parent's count.\<close>

definition returned :: "crawl_goroutine list \<Rightarrow> nat \<Rightarrow> crawl_goroutine list \<Rightarrow> bool" where
  "returned gs i gs' \<longleftrightarrow> length gs' = length gs \<and> (\<forall>j<length gs. g_url (gs' ! j) = g_url (gs ! j) \<and> g_parent (gs' ! j) = g_parent (gs ! j) \<and>
     g_phase (gs' ! j) = (if j = i then AtEnd else g_phase (gs ! j)) \<and>
     g_group (gs' ! j) = g_group (gs ! j) - (if g_parent (gs ! i) = Some j then 1 else 0))"

lemma crawl_return_spec:
  assumes "i < length (fs_gs f)" "\<And>p. g_parent (fs_gs f ! i) = Some p \<Longrightarrow> p < i"
  shows "\<exists>gs'. crawl_return f i = f\<lparr>fs_gs := gs'\<rparr> \<and> returned (fs_gs f) i gs'"
proof (cases "g_parent (fs_gs f ! i)")
  case None
  with assms(1) show ?thesis
    by (intro exI [of _ "(fs_gs f)[i := (fs_gs f ! i)\<lparr>g_phase := AtEnd\<rparr>]"])
      (auto simp: crawl_return_def set_phase_def returned_def nth_list_update)
next
  case (Some p)
  with assms(2) have "p < i" by simp
  with Some assms(1) show ?thesis
    by (auto simp: crawl_return_def set_phase_def returned_def nth_list_update Let_def
        intro!: exI [of _ "(fs_gs f)[i := (fs_gs f ! i)\<lparr>g_phase := AtEnd\<rparr>, p := (fs_gs f ! p)\<lparr>g_group := g_group (fs_gs f ! p) - 1\<rparr>]"])
qed

lemma tree_ok_parent:
  assumes "tree_ok url gs" "i < length gs" "g_parent (gs ! i) = Some p"
  shows "p < i"
  using assms by (cases "i = 0") (auto simp: tree_ok_def)

lemma tree_returned:
  assumes ok: "tree_ok url gs" and i: "i < length gs" "g_phase (gs ! i) \<noteq> AtEnd" "working gs i = {}" and r: "returned gs i gs'"
  shows "tree_ok url gs'"
proof -
  have len: "length gs' = length gs" using r by (simp add: returned_def)
  have at: "g_url (gs' ! j) = g_url (gs ! j)" "g_parent (gs' ! j) = g_parent (gs ! j)"
    "g_phase (gs' ! j) = (if j = i then AtEnd else g_phase (gs ! j))"
    "g_group (gs' ! j) = g_group (gs ! j) - (if g_parent (gs ! i) = Some j then 1 else 0)" if "j < length gs" for j
    using r that by (simp_all add: returned_def)
  have w: "working gs' q = working gs q - {i}" for q by (auto simp: working_def len at split: if_splits)
  have "int (card (working gs q - {i})) = int (card (working gs q)) - (if g_parent (gs ! i) = Some q then 1 else 0)" for q
  proof (cases "i \<in> working gs q")
    case True
    then have "card (working gs q) > 0" by (auto simp: card_gt_0_iff)
    with True show ?thesis by (simp add: working_def of_nat_diff)
  next
    case False
    with i show ?thesis by (auto simp: working_def)
  qed
  moreover have "gs' \<noteq> []" using len i(1) by auto
  ultimately show ?thesis using ok i by (auto simp: tree_ok_def w at len)
qed

lemma tree_locked:
  assumes "tree_ok url gs" "i < length gs" "g_phase (gs ! i) = AtLock"
  shows "tree_ok url (gs[i := (gs ! i)\<lparr>g_phase := AtFetch\<rparr>])"
proof -
  let ?gs = "gs[i := (gs ! i)\<lparr>g_phase := AtFetch\<rparr>]"
  have at: "g_url (?gs ! j) = g_url (gs ! j)" "g_parent (?gs ! j) = g_parent (gs ! j)" "g_group (?gs ! j) = g_group (gs ! j)"
    "g_phase (?gs ! j) = (if j = i then AtFetch else g_phase (gs ! j))" if "j < length gs" for j
    using that assms(2) by (simp_all add: nth_list_update)
  have w: "working ?gs q = working gs q" for q using assms(2,3) by (auto simp: working_def at split: if_splits)
  show ?thesis using assms unfolding tree_ok_def w by (auto simp: at)
qed

lemma tree_spawned:
  assumes ok: "tree_ok url gs" and i: "i < length gs" "g_phase (gs ! i) = AtFetch"
  shows "tree_ok url (gs[i := (gs ! i)\<lparr>g_phase := AtWait, g_group := int (length urls)\<rparr>] @
    map (\<lambda>u. \<lparr>g_url = u, g_parent = Some i, g_phase = AtLock, g_group = 0\<rparr>) urls)" (is "tree_ok url ?gs")
proof -
  have old: "g_url (?gs ! j) = g_url (gs ! j)" "g_parent (?gs ! j) = g_parent (gs ! j)"
    "g_group (?gs ! j) = (if j = i then int (length urls) else g_group (gs ! j))"
    "g_phase (?gs ! j) = (if j = i then AtWait else g_phase (gs ! j))" if "j < length gs" for j
    using that i(1) by (simp_all add: nth_append nth_list_update)
  have new: "?gs ! j = \<lparr>g_url = urls ! (j - length gs), g_parent = Some i, g_phase = AtLock, g_group = 0\<rparr>"
    if "length gs \<le> j" "j < length gs + length urls" for j using that by (auto simp: nth_append)
  have wi: "working gs i = {}" using ok i by (auto simp: tree_ok_def)
  have par: "p < length gs" if "j < length gs" "g_parent (gs ! j) = Some p" for j p
    using tree_ok_parent [OF ok that] that(1) by simp
  have w: "working ?gs q = (if q = i then {length gs..<length gs + length urls} else working gs q)" for q
  proof (rule set_eqI)
    fix j
    show "j \<in> working ?gs q \<longleftrightarrow> j \<in> (if q = i then {length gs..<length gs + length urls} else working gs q)"
      using wi i by (cases "j < length gs") (auto simp: working_def old new split: if_splits)
  qed
  have none: "working gs q = {}" if "length gs \<le> q" for q using par that by (fastforce simp: working_def)
  show ?thesis unfolding tree_ok_def w
  proof (intro conjI allI impI)
    show "?gs \<noteq> []" "g_parent (?gs ! 0) = None" "g_url (?gs ! 0) = url" using ok i by (auto simp: tree_ok_def old)
    show "\<exists>p<j. g_parent (?gs ! j) = Some p" if "j < length ?gs" "j \<noteq> 0" for j
      using that ok i by (cases "j < length gs") (auto simp: tree_ok_def old new)
    show "g_group (?gs ! q) = int (card (if q = i then {length gs..<length gs + length urls} else working gs q))" if "q < length ?gs" for q
      using that ok i none by (cases "q < length gs") (auto simp: tree_ok_def old new)
    show "(if q = i then {length gs..<length gs + length urls} else working gs q) = {}"
      if "q < length ?gs" "g_phase (?gs ! q) \<noteq> AtWait" for q
      using that ok i none by (cases "q < length gs") (auto simp: tree_ok_def old new split: if_splits)
  qed
qed

section \<open>What the mutex crawler has fetched\<close>

lemma pages_returned:
  assumes ok: "pages_ok fetch url f" and i: "i < length (fs_gs f)" "g_url (fs_gs f ! i) \<in> set (fs_fetched f)"
    "g_phase (fs_gs f ! i) = AtFetch \<Longrightarrow> g_url (fs_gs f ! i) \<in> set lg \<and> links fetch (g_url (fs_gs f ! i)) = []"
    and lg: "lg = fs_log f \<or> (g_phase (fs_gs f ! i) = AtFetch \<and> lg = g_url (fs_gs f ! i) # fs_log f)"
    and r: "returned (fs_gs f) i gs'"
  shows "pages_ok fetch url (f\<lparr>fs_log := lg, fs_gs := gs'\<rparr>)"
proof -
  have len: "length gs' = length (fs_gs f)" using r by (simp add: returned_def)
  have at: "g_url (gs' ! j) = g_url (fs_gs f ! j)" "g_phase (gs' ! j) = (if j = i then AtEnd else g_phase (fs_gs f ! j))"
    if "j < length (fs_gs f)" for j using r that by (simp_all add: returned_def)
  have one: "j = i" if "j < length (fs_gs f)" "g_phase (fs_gs f ! i) = AtFetch" "g_phase (fs_gs f ! j) = AtFetch"
    "g_url (fs_gs f ! j) = g_url (fs_gs f ! i)" for j using ok i that unfolding pages_ok_def by blast
  have fresh: "g_phase (fs_gs f ! j) = AtFetch \<Longrightarrow> g_url (fs_gs f ! j) \<notin> set (fs_log f)" if "j < length (fs_gs f)" for j
    using ok that by (simp add: pages_ok_def)
  show ?thesis unfolding pages_ok_def
  proof (intro conjI allI impI ballI)
    show "distinct (fs_log (f\<lparr>fs_log := lg, fs_gs := gs'\<rparr>))" using ok lg fresh i(1) by (auto simp: pages_ok_def)
    show "g_url (fs_gs (f\<lparr>fs_log := lg, fs_gs := gs'\<rparr>) ! j) \<notin> set (fs_log (f\<lparr>fs_log := lg, fs_gs := gs'\<rparr>))"
      if "j < length (fs_gs (f\<lparr>fs_log := lg, fs_gs := gs'\<rparr>))" "g_phase (fs_gs (f\<lparr>fs_log := lg, fs_gs := gs'\<rparr>) ! j) = AtFetch" for j
      using that lg fresh one [of j] by (auto simp: len at split: if_splits)
    show "u \<in> set (fs_log (f\<lparr>fs_log := lg, fs_gs := gs'\<rparr>)) \<or>
        (\<exists>j<length (fs_gs (f\<lparr>fs_log := lg, fs_gs := gs'\<rparr>)). g_url (fs_gs (f\<lparr>fs_log := lg, fs_gs := gs'\<rparr>) ! j) = u \<and>
          g_phase (fs_gs (f\<lparr>fs_log := lg, fs_gs := gs'\<rparr>) ! j) = AtFetch)"
      if "u \<in> set (fs_fetched (f\<lparr>fs_log := lg, fs_gs := gs'\<rparr>))" for u
    proof -
      have "u \<in> set (fs_log f) \<or> (\<exists>j<length (fs_gs f). g_url (fs_gs f ! j) = u \<and> g_phase (fs_gs f ! j) = AtFetch)"
        using ok that by (simp add: pages_ok_def)
      then show ?thesis
      proof (elim disjE exE conjE)
        fix j
        assume j: "j < length (fs_gs f)" "g_url (fs_gs f ! j) = u" "g_phase (fs_gs f ! j) = AtFetch"
        show ?thesis
        proof (cases "j = i")
          case True
          with j i(3) show ?thesis by simp
        next
          case False
          with j at [OF j(1)] len show ?thesis by auto
        qed
      qed (use lg in auto)
    qed
    show "\<exists>j<length (fs_gs (f\<lparr>fs_log := lg, fs_gs := gs'\<rparr>)). g_url (fs_gs (f\<lparr>fs_log := lg, fs_gs := gs'\<rparr>) ! j) = v"
      if "u \<in> set (fs_log (f\<lparr>fs_log := lg, fs_gs := gs'\<rparr>))" "v \<in> set (links fetch u)" for u v
    proof -
      have "\<exists>j<length (fs_gs f). g_url (fs_gs f ! j) = v" using ok that lg i(3) by (auto simp: pages_ok_def)
      then show ?thesis by (auto simp: len at)
    qed
  qed (use ok lg i(2) in \<open>auto simp: pages_ok_def len at split: if_splits\<close>)
qed

lemma pages_locked:
  assumes ok: "pages_ok fetch url f" and i: "i < length (fs_gs f)" "g_phase (fs_gs f ! i) = AtLock"
    and new: "g_url (fs_gs f ! i) \<notin> set (fs_fetched f)"
  shows "pages_ok fetch url (set_phase (f\<lparr>fs_fetched := g_url (fs_gs f ! i) # fs_fetched f\<rparr>) i AtFetch)" (is "pages_ok fetch url ?f")
proof -
  have fields: "fs_fetched ?f = g_url (fs_gs f ! i) # fs_fetched f" "fs_log ?f = fs_log f" "length (fs_gs ?f) = length (fs_gs f)"
    by (simp_all add: set_phase_def)
  have at: "g_url (fs_gs ?f ! j) = g_url (fs_gs f ! j)" "g_phase (fs_gs ?f ! j) = (if j = i then AtFetch else g_phase (fs_gs f ! j))"
    if "j < length (fs_gs f)" for j using that i(1) by (simp_all add: set_phase_def nth_list_update)
  have old: "g_url (fs_gs f ! j) \<in> set (fs_fetched f)" if "j < length (fs_gs f)" "g_phase (fs_gs f ! j) = AtFetch" for j
    using ok that unfolding pages_ok_def by (metis phase.distinct(1))
  have uniq: "j = k" if "j < length (fs_gs f)" "k < length (fs_gs f)" "g_phase (fs_gs ?f ! j) = AtFetch" "g_phase (fs_gs ?f ! k) = AtFetch"
    "g_url (fs_gs f ! j) = g_url (fs_gs f ! k)" for j k
  proof (cases "j = i \<or> k = i")
    case True
    with that old [of j] old [of k] new show ?thesis by (auto simp: at split: if_splits)
  next
    case False
    with that ok show ?thesis by (auto simp: at pages_ok_def)
  qed
  have wait: "u \<in> set (fs_log f) \<or> (\<exists>j<length (fs_gs f). g_url (fs_gs ?f ! j) = u \<and> g_phase (fs_gs ?f ! j) = AtFetch)"
    if "u \<in> set (fs_fetched ?f)" for u
  proof (cases "u = g_url (fs_gs f ! i)")
    case True
    with i at [OF i(1)] show ?thesis by auto
  next
    case False
    then have "u \<in> set (fs_log f) \<or> (\<exists>j<length (fs_gs f). g_url (fs_gs f ! j) = u \<and> g_phase (fs_gs f ! j) = AtFetch)"
      using that ok by (auto simp: fields pages_ok_def)
    then show ?thesis
    proof (elim disjE exE conjE)
      fix j
      assume j: "j < length (fs_gs f)" "g_url (fs_gs f ! j) = u" "g_phase (fs_gs f ! j) = AtFetch"
      then have "j \<noteq> i" using i(2) by auto
      with j at [OF j(1)] show ?thesis by auto
    qed simp
  qed
  show ?thesis unfolding pages_ok_def fields(2,3)
  proof (intro conjI)
    show "\<forall>j<length (fs_gs f). g_phase (fs_gs ?f ! j) = AtFetch \<longrightarrow> g_url (fs_gs ?f ! j) \<notin> set (fs_log f)"
      using ok new by (auto simp: at pages_ok_def)
    show "\<forall>u\<in>set (fs_log f). \<forall>v\<in>set (links fetch u). \<exists>j<length (fs_gs f). g_url (fs_gs ?f ! j) = v"
      using ok at(1) unfolding pages_ok_def by metis
    show "\<forall>u\<in>set (fs_fetched ?f). u \<in> set (fs_log f) \<or>
        (\<exists>j<length (fs_gs f). g_url (fs_gs ?f ! j) = u \<and> g_phase (fs_gs ?f ! j) = AtFetch)" using wait by blast
    show "\<forall>j<length (fs_gs f). \<forall>k<length (fs_gs f). g_phase (fs_gs ?f ! j) = AtFetch \<longrightarrow> g_phase (fs_gs ?f ! k) = AtFetch \<longrightarrow>
        g_url (fs_gs ?f ! j) = g_url (fs_gs ?f ! k) \<longrightarrow> j = k" using uniq at(1) by metis
    show "\<forall>j<length (fs_gs f). g_phase (fs_gs ?f ! j) \<noteq> AtLock \<longrightarrow> g_url (fs_gs ?f ! j) \<in> set (fs_fetched ?f)"
      using ok by (simp add: fields at pages_ok_def)
    show "\<forall>j<length (fs_gs f). g_url (fs_gs ?f ! j) \<in> reach (links fetch) url" using ok by (simp add: at pages_ok_def)
  qed (use ok new i(1) in \<open>simp_all add: fields(1) pages_ok_def subset_insertI2\<close>)
qed

lemma pages_spawned:
  assumes ok: "pages_ok fetch url f" and i: "i < length (fs_gs f)" "g_phase (fs_gs f ! i) = AtFetch"
    and u: "u = g_url (fs_gs f ! i)" "fetch u = Some urls"
  shows "pages_ok fetch url (f\<lparr>fs_log := u # fs_log f,
    fs_gs := (fs_gs f)[i := (fs_gs f ! i)\<lparr>g_phase := AtWait, g_group := int (length urls)\<rparr>] @
      map (\<lambda>u. \<lparr>g_url = u, g_parent = Some i, g_phase = AtLock, g_group = 0\<rparr>) urls\<rparr>)" (is "pages_ok fetch url ?f")
proof -
  let ?n = "length (fs_gs f)"
  have l: "links fetch u = urls" using u(2) by (simp add: links_def)
  have at: "g_url (fs_gs ?f ! j) = g_url (fs_gs f ! j)" "g_phase (fs_gs ?f ! j) = (if j = i then AtWait else g_phase (fs_gs f ! j))"
    if "j < ?n" for j using that i(1) by (simp_all add: nth_append nth_list_update)
  have new: "g_url (fs_gs ?f ! j) = urls ! (j - ?n)" "g_phase (fs_gs ?f ! j) = AtLock" if "?n \<le> j" "j < ?n + length urls" for j
    using that by (auto simp: nth_append)
  have len: "length (fs_gs ?f) = ?n + length urls" and fields: "fs_fetched ?f = fs_fetched f" "fs_log ?f = u # fs_log f" by simp_all
  have uf: "u \<in> set (fs_fetched f)" using ok i unfolding pages_ok_def u(1) by (metis phase.distinct(1))
  have ur: "u \<in> reach (links fetch) url" using ok i(1) by (simp add: pages_ok_def u(1))
  have reach: "urls ! k \<in> reach (links fetch) url" if "k < length urls" for k
    using reach_succ [OF ur, of "urls ! k"] that by (simp add: l)
  have only: "j = i" if "j < ?n" "g_phase (fs_gs f ! j) = AtFetch" "g_url (fs_gs f ! j) = u" for j
    using ok i that unfolding pages_ok_def u(1) by metis
  have has: "\<exists>j<?n + length urls. g_url (fs_gs ?f ! j) = v" if "(\<exists>j<?n. g_url (fs_gs f ! j) = v) \<or> v \<in> set urls" for v
    using that
  proof
    assume "v \<in> set urls"
    then obtain k where "k < length urls" "urls ! k = v" by (auto simp: in_set_conv_nth)
    then show ?thesis using new(1) [of "?n + k"] by (intro exI [of _ "?n + k"]) simp
  qed (use at(1) in \<open>metis trans_less_add1\<close>)
  have phases: "j < ?n \<and> j \<noteq> i \<and> g_phase (fs_gs f ! j) = AtFetch" if "j < ?n + length urls" "g_phase (fs_gs ?f ! j) = AtFetch" for j
    using that at(2) [of j] new(2) [of j] by (cases "j < ?n") (auto split: if_splits)
  show ?thesis unfolding pages_ok_def len fields
  proof (intro conjI allI impI ballI)
    show "distinct (u # fs_log f)" using ok i by (auto simp: pages_ok_def u(1))
    show "set (u # fs_log f) \<subseteq> set (fs_fetched f)" using ok uf by (auto simp: pages_ok_def)
    show "g_url (fs_gs ?f ! j) \<in> reach (links fetch) url" if "j < ?n + length urls" for j
      using that ok reach [of "j - ?n"] at(1) [of j] new(1) [of j] by (cases "j < ?n") (auto simp: pages_ok_def)
    show "g_url (fs_gs ?f ! j) \<in> set (fs_fetched f)" if "j < ?n + length urls" "g_phase (fs_gs ?f ! j) \<noteq> AtLock" for j
      using that ok uf u(1) at [of j] new(2) [of j] by (cases "j < ?n") (auto simp: pages_ok_def split: if_splits)
    show "g_url (fs_gs ?f ! j) \<notin> set (u # fs_log f)" if "j < ?n + length urls" "g_phase (fs_gs ?f ! j) = AtFetch" for j
      using phases [OF that] only [of j] ok at(1) [of j] by (auto simp: pages_ok_def)
    show "v \<in> set (u # fs_log f) \<or> (\<exists>j<?n + length urls. g_url (fs_gs ?f ! j) = v \<and> g_phase (fs_gs ?f ! j) = AtFetch)"
      if "v \<in> set (fs_fetched f)" for v
    proof (cases "v = u")
      case False
      from ok that have "v \<in> set (fs_log f) \<or> (\<exists>j<?n. g_url (fs_gs f ! j) = v \<and> g_phase (fs_gs f ! j) = AtFetch)"
        by (simp add: pages_ok_def)
      with False u(1) show ?thesis using at by (metis insertCI list.simps(15) trans_less_add1)
    qed simp
    show "\<exists>j<?n + length urls. g_url (fs_gs ?f ! j) = w" if "v \<in> set (u # fs_log f)" "w \<in> set (links fetch v)" for v w
      using that ok by (intro has) (auto simp: pages_ok_def l)
    show "j = k" if "j < ?n + length urls" "k < ?n + length urls" "g_phase (fs_gs ?f ! j) = AtFetch" "g_phase (fs_gs ?f ! k) = AtFetch"
      "g_url (fs_gs ?f ! j) = g_url (fs_gs ?f ! k)" for j k
      using phases [OF that(1,3)] phases [OF that(2,4)] that(5) ok at(1) [of j] at(1) [of k] unfolding pages_ok_def by metis
  qed (use ok in \<open>auto simp: pages_ok_def\<close>)
qed

section \<open>The mutex crawler\<close>

definition crawl_ok :: "fetcher \<Rightarrow> string \<Rightarrow> fetchState \<Rightarrow> bool" where
  "crawl_ok fetch url f \<longleftrightarrow> tree_ok url (fs_gs f) \<and> pages_ok fetch url f"

lemma crawl_ok_return:
  assumes ok: "crawl_ok fetch url f" and i: "i < length (fs_gs f)" "g_phase (fs_gs f ! i) \<noteq> AtEnd" "working (fs_gs f) i = {}"
    "g_url (fs_gs f ! i) \<in> set (fs_fetched f)"
    and lg: "lg = fs_log f \<and> g_phase (fs_gs f ! i) \<noteq> AtFetch \<or>
      g_phase (fs_gs f ! i) = AtFetch \<and> lg = g_url (fs_gs f ! i) # fs_log f \<and> links fetch (g_url (fs_gs f ! i)) = []"
  shows "crawl_ok fetch url (crawl_return (f\<lparr>fs_log := lg\<rparr>) i)"
proof -
  have t: "tree_ok url (fs_gs f)" and p: "pages_ok fetch url f" using ok by (simp_all add: crawl_ok_def)
  from crawl_return_spec [of i "f\<lparr>fs_log := lg\<rparr>"] tree_ok_parent [OF t i(1)] i(1) obtain gs' where
    r: "crawl_return (f\<lparr>fs_log := lg\<rparr>) i = f\<lparr>fs_log := lg, fs_gs := gs'\<rparr>" "returned (fs_gs f) i gs'" by auto
  show ?thesis unfolding r(1) crawl_ok_def
    using tree_returned [OF t i(1-3) r(2)] pages_returned [OF p i(1,4) _ _ r(2), of lg] lg by auto
qed

lemma crawl_ok_step:
  assumes ok: "crawl_ok fetch url f" and s: "crawl_step fetch f i = Next f'"
  shows "crawl_ok fetch url f'"
proof -
  have t: "tree_ok url (fs_gs f)" and p: "pages_ok fetch url f" using ok by (simp_all add: crawl_ok_def)
  have i: "i < length (fs_gs f)" using s by (simp add: crawl_step_def split: if_splits)
  have w: "working (fs_gs f) i = {}" if "g_phase (fs_gs f ! i) \<noteq> AtWait \<or> g_group (fs_gs f ! i) = 0"
    using t i that by (auto simp: tree_ok_def)
  have f: "g_url (fs_gs f ! i) \<in> set (fs_fetched f)" if "g_phase (fs_gs f ! i) \<noteq> AtLock"
    using p i that by (simp add: pages_ok_def)
  show ?thesis
  proof (cases "g_phase (fs_gs f ! i)")
    case AtLock
    with s i have f': "f' = mutex_lock f i" by (simp add: crawl_step_def)
    show ?thesis
    proof (cases "g_url (fs_gs f ! i) \<in> set (fs_fetched f)")
      case True
      with crawl_ok_return [OF ok i _ w True, of "fs_log f"] AtLock show ?thesis by (simp add: f' mutex_lock_def)
    next
      case False
      with pages_locked [OF p i AtLock False] tree_locked [OF t i AtLock] show ?thesis
        by (simp add: f' mutex_lock_def crawl_ok_def set_phase_def)
    qed
  next
    case AtFetch
    let ?u = "g_url (fs_gs f ! i)"
    from s i AtFetch have f': "f' = mutex_fetch fetch f i" by (simp add: crawl_step_def)
    show ?thesis
    proof (cases "fetch ?u")
      case None
      with crawl_ok_return [OF ok i _ w f, of "?u # fs_log f"] AtFetch show ?thesis by (simp add: f' mutex_fetch_def links_def)
    next
      case (Some urls)
      with pages_spawned [OF p i AtFetch refl Some] tree_spawned [OF t i AtFetch, of urls] show ?thesis
        by (simp add: f' mutex_fetch_def crawl_ok_def)
    qed
  next
    case AtWait
    with s i have "g_group (fs_gs f ! i) = 0" "f' = crawl_return f i" by (simp_all add: crawl_step_def split: if_splits)
    with crawl_ok_return [OF ok i _ w f, of "fs_log f"] AtWait show ?thesis by simp
  next
    case AtEnd
    with s i show ?thesis by (simp add: crawl_step_def)
  qed
qed

lemma mutex_run_ok: "mutex_run fetch url k f \<Longrightarrow> crawl_ok fetch url f"
proof (induction rule: mutex_run.induct)
  case start
  then show ?case
    by (auto simp: crawl_ok_def tree_ok_def pages_ok_def makeState_def working_def nth_Cons' intro: reach_refl)
qed (rule crawl_ok_step)

text \<open>When the first goroutine has returned, all have.\<close>

lemma all_returned:
  assumes "tree_ok url gs" "g_phase (gs ! 0) = AtEnd" "j < length gs"
  shows "g_phase (gs ! j) = AtEnd"
  using assms(3)
proof (induction j rule: less_induct)
  case (less j)
  show ?case
  proof (cases "j = 0")
    case False
    with assms(1) less.prems obtain p where p: "p < j" "g_parent (gs ! j) = Some p" by (auto simp: tree_ok_def)
    then have "g_phase (gs ! p) = AtEnd" using less by simp
    then have "working gs p = {}" using assms(1) p(1) less.prems by (simp add: tree_ok_def)
    with p(2) less.prems show ?thesis by (auto simp: working_def)
  qed (simp add: assms(2))
qed

lemma mutex_fetched:
  assumes "crawl_ok fetch url f" "g_phase (fs_gs f ! 0) = AtEnd"
  shows "set (fs_fetched f) = reach (links fetch) url \<and> set (fs_log f) = reach (links fetch) url"
proof -
  have t: "tree_ok url (fs_gs f)" and p: "pages_ok fetch url f" using assms(1) by (simp_all add: crawl_ok_def)
  have e: "g_phase (fs_gs f ! j) = AtEnd" if "j < length (fs_gs f)" for j by (rule all_returned [OF t assms(2) that])
  then have log: "set (fs_log f) = set (fs_fetched f)" using p unfolding pages_ok_def by (metis phase.distinct(9) subsetI subset_antisym)
  have u: "g_url (fs_gs f ! j) \<in> set (fs_fetched f)" if "j < length (fs_gs f)" for j
    using p that e [OF that] by (simp add: pages_ok_def)
  have "url \<in> set (fs_fetched f)" using u [of 0] t by (auto simp: tree_ok_def)
  moreover have "set (links fetch v) \<subseteq> set (fs_fetched f)" if "v \<in> set (fs_fetched f)" for v
  proof
    fix w assume "w \<in> set (links fetch v)"
    with p that log obtain j where "j < length (fs_gs f)" "g_url (fs_gs f ! j) = w" unfolding pages_ok_def by metis
    with u show "w \<in> set (fs_fetched f)" by blast
  qed
  ultimately have "w \<in> set (fs_fetched f)" if "w \<in> reach (links fetch) url" for w
    by (intro reach_closed [OF that])
  with p log show ?thesis by (auto simp: pages_ok_def)
qed

text \<open>Until then some goroutine can go on: the last one that has not returned waits for nobody.\<close>

lemma mutex_progress:
  assumes "crawl_ok fetch url f" "g_phase (fs_gs f ! 0) \<noteq> AtEnd"
  shows "\<exists>i f'. crawl_step fetch f i = Next f'"
proof -
  have t: "tree_ok url (fs_gs f)" using assms(1) by (simp add: crawl_ok_def)
  let ?A = "{j. j < length (fs_gs f) \<and> g_phase (fs_gs f ! j) \<noteq> AtEnd}"
  have "0 \<in> ?A" using assms(2) t by (auto simp: tree_ok_def)
  then have m: "Max ?A \<in> ?A" by (intro Max_in) auto
  have "working (fs_gs f) (Max ?A) = {}"
  proof (rule ccontr)
    assume "working (fs_gs f) (Max ?A) \<noteq> {}"
    then obtain j where j: "j \<in> ?A" "g_parent (fs_gs f ! j) = Some (Max ?A)" by (auto simp: working_def)
    then have "Max ?A < j" using tree_ok_parent [OF t] by blast
    moreover have "j \<le> Max ?A" using j(1) by (intro Max_ge) auto
    ultimately show False by simp
  qed
  with t m have "g_group (fs_gs f ! Max ?A) = 0" by (auto simp: tree_ok_def)
  with m show ?thesis by (intro exI [of _ "Max ?A"]) (auto simp: crawl_step_def split: phase.split)
qed

section \<open>The number of steps\<close>

text \<open>The work a goroutine still causes, apart from the pages nobody has asked for yet.\<close>

definition g_work :: "fetcher \<Rightarrow> crawl_goroutine \<Rightarrow> nat" where
  "g_work fetch g = (case g_phase g of AtLock \<Rightarrow> 1 | AtFetch \<Rightarrow> length (links fetch (g_url g)) + 2 | AtWait \<Rightarrow> 1 | AtEnd \<Rightarrow> 0)"

definition page_work :: "fetcher \<Rightarrow> string set \<Rightarrow> nat" where
  "page_work fetch A = (\<Sum>u\<in>A. length (links fetch u) + 2)"

definition work :: "fetcher \<Rightarrow> string \<Rightarrow> fetchState \<Rightarrow> nat" where
  "work fetch url f = page_work fetch (reach (links fetch) url - set (fs_fetched f)) + sum_list (map (g_work fetch) (fs_gs f))"

lemma sum_list_upd:
  assumes "i < length gs" "w x < w (gs ! i)"
  shows "sum_list (map w (gs[i := x])) + (w (gs ! i) - w x) = sum_list (map w gs :: nat list)"
  using assms sum_list_update [of i "map w gs" "w x"] member_le_sum_list [of "w (gs ! i)" "map w gs"]
  by (simp add: map_update)

lemma return_work:
  assumes "i < length (fs_gs f)" "\<And>p. g_parent (fs_gs f ! i) = Some p \<Longrightarrow> p < i" "g_phase (fs_gs f ! i) \<noteq> AtEnd"
  shows "sum_list (map (g_work fetch) (fs_gs (crawl_return f i))) < sum_list (map (g_work fetch) (fs_gs f))"
proof -
  from crawl_return_spec [OF assms(1,2)] obtain gs' where r: "fs_gs (crawl_return f i) = gs'" "returned (fs_gs f) i gs'" by auto
  let ?x = "(fs_gs f ! i)\<lparr>g_phase := AtEnd\<rparr>"
  have "map (g_work fetch) gs' = map (g_work fetch) ((fs_gs f)[i := ?x])"
    by (rule nth_equalityI) (use r(2) assms(1) in \<open>auto simp: returned_def g_work_def nth_list_update split: phase.split\<close>)
  moreover have "g_work fetch ?x < g_work fetch (fs_gs f ! i)"
    using assms(3) by (cases "g_phase (fs_gs f ! i)") (simp_all add: g_work_def)
  ultimately show ?thesis using sum_list_upd [OF assms(1), of "g_work fetch" ?x] by (simp add: r(1))
qed

lemma lock_work:
  assumes "i < length (fs_gs f)" "g_phase (fs_gs f ! i) = AtLock" "g_url (fs_gs f ! i) \<notin> set (fs_fetched f)"
    and fin: "finite (reach (links fetch) url)" "g_url (fs_gs f ! i) \<in> reach (links fetch) url"
  shows "work fetch url (mutex_lock f i) < work fetch url f"
proof -
  let ?u = "g_url (fs_gs f ! i)" and ?R = "reach (links fetch) url" and ?x = "(fs_gs f ! i)\<lparr>g_phase := AtFetch\<rparr>"
  have "page_work fetch (?R - set (fs_fetched f)) = length (links fetch ?u) + 2 + page_work fetch (?R - set (fs_fetched f) - {?u})"
    using fin assms(3) unfolding page_work_def by (subst sum.remove [of _ ?u]) auto
  moreover have "?R - set (?u # fs_fetched f) = ?R - set (fs_fetched f) - {?u}" by auto
  moreover have "sum_list (map (g_work fetch) ((fs_gs f)[i := ?x])) = sum_list (map (g_work fetch) (fs_gs f)) + length (links fetch ?u) + 1"
    using sum_list_update [of i "map (g_work fetch) (fs_gs f)" "g_work fetch ?x"] assms(1,2)
      member_le_sum_list [of "g_work fetch (fs_gs f ! i)" "map (g_work fetch) (fs_gs f)"]
    by (simp add: map_update g_work_def)
  ultimately show ?thesis using assms(3) by (simp add: mutex_lock_def set_phase_def work_def)
qed

lemma fetch_work:
  assumes "i < length (fs_gs f)" "g_phase (fs_gs f ! i) = AtFetch" "fetch (g_url (fs_gs f ! i)) = Some urls"
  shows "work fetch url (mutex_fetch fetch f i) < work fetch url f"
proof -
  let ?x = "(fs_gs f ! i)\<lparr>g_phase := AtWait, g_group := int (length urls)\<rparr>"
  have "sum_list (map (g_work fetch) ((fs_gs f)[i := ?x])) + (length urls + 1) = sum_list (map (g_work fetch) (fs_gs f))"
    using sum_list_upd [OF assms(1), of "g_work fetch" ?x] assms(2,3) by (simp add: g_work_def links_def)
  moreover have "sum_list (map (g_work fetch) (map (\<lambda>u. \<lparr>g_url = u, g_parent = Some i, g_phase = AtLock, g_group = 0\<rparr>) urls)) = length urls"
    by (induction urls) (simp_all add: g_work_def)
  ultimately show ?thesis using assms(3) by (simp add: mutex_fetch_def work_def)
qed

lemma work_decreases:
  assumes ok: "crawl_ok fetch url f" and s: "crawl_step fetch f i = Next f'" and fin: "finite (reach (links fetch) url)"
  shows "work fetch url f' < work fetch url f"
proof -
  have t: "tree_ok url (fs_gs f)" and p: "pages_ok fetch url f" using ok by (simp_all add: crawl_ok_def)
  have i: "i < length (fs_gs f)" using s by (simp add: crawl_step_def split: if_splits)
  have ret: "work fetch url (crawl_return (f\<lparr>fs_log := lg\<rparr>) i) < work fetch url f" if "g_phase (fs_gs f ! i) \<noteq> AtEnd" for lg
  proof -
    have "fs_fetched (crawl_return (f\<lparr>fs_log := lg\<rparr>) i) = fs_fetched f"
      by (simp add: crawl_return_def set_phase_def Let_def split: option.splits)
    then show ?thesis using return_work [of i "f\<lparr>fs_log := lg\<rparr>" fetch] i tree_ok_parent [OF t i] that by (simp add: work_def)
  qed
  note ret' = ret [of "fs_log f", simplified]
  show ?thesis
  proof (cases "g_phase (fs_gs f ! i)")
    case AtLock
    then have f': "f' = mutex_lock f i" using s i by (simp add: crawl_step_def)
    have "g_url (fs_gs f ! i) \<in> reach (links fetch) url" using p i by (simp add: pages_ok_def)
    with lock_work [OF i AtLock _ fin] ret' AtLock show ?thesis
      by (cases "g_url (fs_gs f ! i) \<in> set (fs_fetched f)") (simp_all add: f' mutex_lock_def)
  next
    case AtFetch
    then have f': "f' = mutex_fetch fetch f i" using s i by (simp add: crawl_step_def)
    show ?thesis
    proof (cases "fetch (g_url (fs_gs f ! i))")
      case None
      with ret AtFetch show ?thesis by (simp add: f' mutex_fetch_def)
    qed (use fetch_work [OF i AtFetch] f' in blast)
  qed (use s i ret' in \<open>auto simp: crawl_step_def split: if_splits\<close>)
qed

lemma mutex_run_bound:
  assumes "mutex_run fetch url k f" "finite (reach (links fetch) url)"
  shows "k + work fetch url f \<le> page_work fetch (reach (links fetch) url) + 1"
  using assms(1)
proof (induction rule: mutex_run.induct)
  case start
  then show ?case by (simp add: work_def makeState_def g_work_def)
next
  case (step k f i f')
  from work_decreases [OF mutex_run_ok [OF step.hyps(1)] step.hyps(2) assms(2)] step.IH show ?case by simp
qed

section \<open>The three crawlers agree\<close>

abbreviation pages :: "fetcher \<Rightarrow> string \<Rightarrow> string set" where
  "pages fetch url \<equiv> reach (links fetch) url"

text \<open>
  C31: The three crawlers fetch the same pages. Let finitely many pages be reachable from the first
  one. The serial crawler returns, having fetched exactly those, each once. In every
  interleaving, the crawler with channels handles at most one message per page and one more, the
  channel is never empty while it runs, and when it stops it has fetched the same pages and no
  worker is left. The crawler with the mutex makes a bounded number of steps, some
  goroutine can go on until the first one returns, and then every page has been fetched once.
\<close>

theorem crawlers_agree:
  assumes "finite (pages fetch url)"
  shows "(\<exists>fetched. Serial (card (pages fetch url) + 1) fetch url [] = Some fetched \<and> distinct fetched \<and> set fetched = pages fetch url) \<and>
    (\<forall>k st. channel_run fetch url k st \<longrightarrow> k \<le> card (pages fetch url) + 1 \<and> (\<not> ms_stopped st \<longrightarrow> ms_senders st \<noteq> []) \<and>
      (ms_stopped st \<longrightarrow> distinct (ms_fetched st) \<and> set (ms_fetched st) = pages fetch url \<and> ms_senders st = [])) \<and>
    (\<forall>k f. mutex_run fetch url k f \<longrightarrow> k \<le> (\<Sum>u\<in>pages fetch url. length (links fetch u) + 2) + 1 \<and>
      (g_phase (fs_gs f ! 0) \<noteq> AtEnd \<longrightarrow> (\<exists>i f'. crawl_step fetch f i = Next f')) \<and>
      (g_phase (fs_gs f ! 0) = AtEnd \<longrightarrow> distinct (fs_log f) \<and> set (fs_log f) = pages fetch url))"
proof (intro conjI allI impI)
  have "pages fetch url - set [] = pages fetch url" by simp
  then have c: "card (pages fetch url - set []) < card (pages fetch url) + 1" by simp
  have cl: "set (links fetch v) \<subseteq> pages fetch url" if "v \<in> pages fetch url" for v using that by (auto intro: reach_succ)
  have "url \<in> pages fetch url" by (rule reach_refl)
  from dfs_ends [where succ = "links fetch", OF assms cl this c] obtain vs where v: "dfs (card (pages fetch url) + 1) (links fetch) url [] = Some vs" "marks (links fetch) [url] [] vs"
    by auto
  from marks_reach [OF v(2)] v show "\<exists>fetched. Serial (card (pages fetch url) + 1) fetch url [] = Some fetched \<and> distinct fetched \<and> set fetched = pages fetch url"
    by (intro exI [of _ vs]) (simp add: Serial_dfs marks_def)
next
  fix k st
  assume "channel_run fetch url k st"
  then have ok: "channel_ok fetch url k st" by (rule channel_run_ok)
  then have sub: "set (ms_fetched st) \<subseteq> pages fetch url" and d: "distinct (ms_fetched st)" by (simp_all add: channel_ok_def)
  have "length (ms_fetched st) \<le> card (pages fetch url)" using card_mono [OF assms sub] distinct_card [OF d] by simp
  with ok show "k \<le> card (pages fetch url) + 1" by (simp add: channel_ok_def)
  show "ms_senders st \<noteq> []" if "\<not> ms_stopped st" using ok that by (simp add: channel_ok_def)
  show "distinct (ms_fetched st)" by (rule d)
  show "ms_senders st = []" if "ms_stopped st" using ok that by (simp add: channel_ok_def)
  show "set (ms_fetched st) = pages fetch url" if "ms_stopped st"
  proof -
    have cl: "url \<in> set (ms_fetched st)" "\<And>v. v \<in> set (ms_fetched st) \<Longrightarrow> set (links fetch v) \<subseteq> set (ms_fetched st)"
      using ok that by (auto simp: channel_ok_def)
    have "w \<in> set (ms_fetched st)" if "w \<in> pages fetch url" for w using that by (rule reach_closed [OF _ cl])
    with sub show ?thesis by blast
  qed
next
  fix k f
  assume r: "mutex_run fetch url k f"
  show "k \<le> (\<Sum>u\<in>pages fetch url. length (links fetch u) + 2) + 1"
    using mutex_run_bound [OF r] assms by (simp add: page_work_def)
  show "\<exists>i f'. crawl_step fetch f i = Next f'" if "g_phase (fs_gs f ! 0) \<noteq> AtEnd"
    by (rule mutex_progress [OF mutex_run_ok [OF r] that])
  show "set (fs_log f) = pages fetch url" if "g_phase (fs_gs f ! 0) = AtEnd"
    using mutex_fetched [OF mutex_run_ok [OF r] that] by simp
  show "distinct (fs_log f)" using mutex_run_ok [OF r] by (simp add: crawl_ok_def pages_ok_def)
qed

definition demo_web :: "(string \<times> fakeResult) list" where
  "demo_web = [(''a'', \<lparr>fr_body = ''A'', fr_urls = [''b'', ''c'']\<rparr>), (''b'', \<lparr>fr_body = ''B'', fr_urls = [''a'', ''d'']\<rparr>)]"

lemma demo_web_reach: "reach (links (fake_Fetch demo_web)) ''a'' \<subseteq> {''a'', ''b'', ''c'', ''d''}"
proof
  fix w
  assume "w \<in> reach (links (fake_Fetch demo_web)) ''a''"
  then show "w \<in> {''a'', ''b'', ''c'', ''d''}"
    by (rule reach_closed) (auto simp: links_def fake_Fetch_def demo_web_def split: if_splits)
qed

theorem crawlers_agree_witness:
  "\<exists>fetched. Serial (card (reach (links (fake_Fetch demo_web)) ''a'') + 1) (fake_Fetch demo_web) ''a'' [] = Some fetched \<and>
     set fetched = reach (links (fake_Fetch demo_web)) ''a''"
proof -
  have "finite (reach (links (fake_Fetch demo_web)) ''a'')" by (rule finite_subset [OF demo_web_reach]) simp
  from crawlers_agree [OF this] show ?thesis by blast
qed

end
