(* ===== verification/Spec2Isabelle.thy ===== *)
theory Spec2Isabelle
  imports Raft_Tested Shard_Harness Raft_Properties KV_Server Ctrler_History Shard_Clerk Porcupine_KV MR_Apps
    Labrpc_Calls Labgob Crawler
begin

text \<open>
  A verification development of the MIT 6.824 labs in Go (src/src): a MapReduce library, the
  Raft consensus protocol, a replicated key/value service, a shard controller, a sharded key/value
  service that moves its shards between replica groups, the simulated network they run on, and
  the linearizability checker that tests them.

  \<^bold>\<open>The parts and how they interact.\<close> Package \<open>raft\<close> keeps a log replicated over the peers of a
  cluster; peers call each other through \<open>labrpc\<close>, a network that loses, delays and reorders
  calls and whose hosts are stopped and restarted. The services \<open>kvraft\<close>, \<open>shardctrler\<close> and
  \<open>shardkv\<close> each sit on a Raft peer: a request is proposed with \<open>Start\<close>, the applier executes
  what Raft delivers, and a session table suppresses repeated requests. The controller issues
  numbered configurations (which group serves which shard); the groups of \<open>shardkv\<close> query them, pull
  shards from the previous owners and tell those to delete them. The clerks retry until they
  find a leader. The checker (\<open>porcupine\<close> with the model \<open>models/kv.go\<close>) decides whether a
  recorded history of operations is linearizable. \<open>mr\<close> stands by itself: a coordinator hands out map
  and reduce tasks, and workers turn input files into intermediate and output files.

  \<^bold>\<open>Conventions.\<close> They are stated in theory Prelude: a panic (index out of range, nil pointer,
  \<open>log.Fatal\<close>) is \<^term>\<open>None\<close>; a blocked goroutine is \<^term>\<open>Disabled\<close>; a Go map whose iteration
  order matters is an association list, and where a result might depend on the order it
  is proved that it does not; a struct is a record, a pointer that is compared or shared is an
  address in an explicit heap. A handler that runs under its mutex from start to end is one
  transition; a goroutine that waits (for a call, a channel, a timer) is split at the wait. Real time,
  debug output and random delays are left out: which step comes next is arbitrary. Random
  draws, client identities, the outcomes of calls in a clerk's loop, \<open>sort.Sort\<close>, gob and the map
  and reduce functions are arguments.

  \<^bold>\<open>Raft\<close> (raft.go, election.go, appendEntries.go, logCompaction.go, apply.go, util.go,
  persister.go). Raft-State holds the data of a peer and its persister, Raft-Handlers every handler,
  and Raft-Cluster the cluster: peers, calls in flight, crashes and restarts, as the transition
  function \<open>act\<close> with its reachable states. Raft-Log and Raft-Replication prove the log operations
  against list-level references (\<open>merge_suffix\<close>, the greatest committable index), Raft-Node that every
  handler keeps the well-formedness of a peer and the voting discipline, Raft-Votes and
  Raft-Election the invariant of the cluster. Shown: at most one leader per term as long as no
  vote reply carries a later term; with one, the code's \<open>setNewTerm(args.Term)\<close> leads to two
  leaders, on a run that is evaluated; one vote per term; a restart recovers term, vote and log;
  delivering a request never panics; AppendEntries on every branch, with late and repeated messages
  harmless; commitment, snapshots and the applier.

  \<^bold>\<open>Safety of Raft.\<close> Raft-History states the argument on history variables: the log of
  the leader of each term, the whole log of each peer, and what each peer has accepted; a log that a majority
  accepted is chosen, and later leaders extend it. Raft-Views relates a stored log, which starts at a
  snapshot marker, to the whole log. Raft-Safety is the invariant that ties a cluster to a history, and Raft-Steps,
  Raft-Messages, Raft-Leaders and Raft-Commit show that every action keeps it. Raft-Agreement
  draws the consequences for two states of one execution: state machine safety, agreement of
  committed entries, leader completeness and log matching. They hold for executions (\<open>run_safe\<close>) in which no vote
  reply sets a term back and no snapshot is installed over a log that conflicts with it; for each
  of the two exceptions a run is evaluated in which the code goes wrong. Raft-Order adds that a term has
  one leader over time and that, without snapshots, commands are delivered in order; a run in which a
  snapshot overtakes entries shows why without.

  \<^bold>\<open>Test harness of Raft\<close> (raft/config.go). Raft-Config has the harness: starting, crashing and
  connecting servers, the two appliers, \<open>checkOneLeader\<close>, \<open>nCommitted\<close>, \<open>wait\<close> and \<open>one\<close>. Raft-Wiring
  shows that exactly the ends between connected servers are enabled, Raft-Tested runs cluster and
  harness together and shows that the checks of the harness never fail for disagreement.

  \<^bold>\<open>Replicated services.\<close> Sessions states the duplicate detection once, as the interface
  \<open>session_machine\<close> with exactly-once execution proved from it; KV-Server and Ctrler-Server
  interpret it on their apply functions, while \<open>shardkv\<close>, whose sessions move with the shards, has its
  own invariant. KV-Machine has the
  store interface, provided by \<open>MemoryKV\<close> and by a shard. KV-Server (kvraft) shows exactly-once
  execution of logs in which the new commands of a client come in the order of their numbers, as its
  clerk sends them, that the applier never blocks on a notification channel, recovery from snapshots, and that a
  clerk returns once a leader answers.

  \<^bold>\<open>Shard controller\<close> (shardctrler). Ctrler-Config has the configurations and Join, Leave, Move and
  Query, with the proof that the balancing loop ends; Ctrler-Balance shows that Join balances the shards over
  all groups, that Leave moves only the shards of the groups that leave, and that map order is irrelevant.
  Ctrler-History shows that a log of valid commands never panics and keeps a well-formed,
  append-only sequence of configurations.

  \<^bold>\<open>Sharded service\<close> (shardkv). Shard-Server has a replica, all log commands, the background actions and the
  handlers other groups call; Shard-Group the effect of each command and the group invariant;
  Shard-System the groups together with a background action that may read any earlier state of its
  group. Shown: no two groups serve a shard at the same time, and the whole service
  refines a single store with each write executed once, both provided that a shard that has an owner
  keeps one (\<open>cfg_ok\<close>). Without it writes are lost: for any configurations in which all groups leave and another
  joins, an execution is constructed in which an acknowledged write is gone. Shard-Clerk has the
  client and snapshots. This theory closes the gap between controller and groups: the configurations a
  controller issues satisfy what the groups assume of them as long as its last group does not leave, and
  the controller does issue the configurations of the execution that loses a write.

  \<^bold>\<open>Test harnesses of the services\<close> (config.go of kvraft, shardctrler and shardkv). Service-Config has
  the first two, which share most of their code; Service-Partition shows that a partition links two servers
  exactly if they are on one side and leaves the leader a minority when the number of servers is odd, in runs in
  which the servers' peers may do anything between the operations of the harness.
  Shard-Config has the third; Shard-Harness shows that the server names with which a group joins are
  those of its live servers, and that the harness works for groups of three servers only.

  \<^bold>\<open>Network\<close> (labrpc). Labrpc has the tables, services, dispatch and the goroutines of a call;
  Labrpc-Calls proves that the network refines at-most-once calls, which is what the calls of
  Raft-Cluster are, that a deleted server is silent to the calls it has not answered (while a reply left to the timer of
  the long reordering is delivered even after the deletion), that calls return, and the range of the
  request counter, which is kept at its 32 bits.

  \<^bold>\<open>Checker\<close> (porcupine, models). Porcupine-Bitset has bit sets of 64-bit words, Porcupine-Checker the
  data, the linked list on a heap of nodes, the search and the exported functions, whose outcome tells
  a check that waits for ever from one that panics.
  Linearizability defines linearizability without reference to the checker;
  Linearizability-Local merges linearizations of single objects. Porcupine-List proves \<open>lift\<close> and
  \<open>unlift\<close> by heap segments, Porcupine-Search and Porcupine-Loop the invariant of the search and
  that it ends, Porcupine-Top that \<open>checkSingle\<close> decides linearizability, and Porcupine-KV that a
  history passes the check with the key/value model if and only if it is linearizable for the
  store of kvraft, all keys together; the check ends unless the history is empty.

  \<^bold>\<open>MapReduce\<close> (mr, main/mrsequential.go). MR-Coordinator has the task queue and trace, the
  handlers and the timeout sweep; shown: the map phase is left only when every map task has
  been reported and its files are in place, and a late report can end the job too early.
  MR-Worker has the worker; shown: the distributed job writes what the sequential program writes.
  MR-Apps has the applications that compute something (mrapps), which split a text into words as Go does:
  its bytes are decoded as UTF-8, and which runes beyond Latin-1 are letters is an argument, the
  Unicode table of the library; shown: a word-count job counts words.

  \<^bold>\<open>Smaller parts.\<close> Traversal proves depth-first traversal with marks once; Labgob (the checks of the encoder,
  also on recursive types) and Crawler (lab0) use it. Crawler shows that the serial crawler and, in
  every interleaving, the two concurrent ones end and fetch the same pages, each once.

  \<^bold>\<open>Termination and fuel.\<close> All recursive definitions terminate. Loops that end by
  themselves have a measure (the balancing loop: the shards without a group, then the sum of
  squared loads; the reduce loop: the list). The recursive traversals carry fuel, one more than there are
  types or pages, and are proved to return with it. The search of the checker is a \<open>partial_function\<close> in
  the option type and is proved to return a value. The loops that run until the environment
  lets them go (the clerks, the worker, the tickers) take the list of outcomes as argument or are a
  step of the transition system; that enough successful outcomes end them is stated for the clerks.

  \<^bold>\<open>Not modelled.\<close> The tests themselves, and in the harnesses the printing, the seeding of random numbers
  and the testing package. porcupine/visualization.go, which writes an HTML page. The process start-up
  under main/, and the applications of mrapps that only sleep, exit or count processes. The socket transport
  and the example call of \<open>mr\<close>. The tree exercise of lab0, which is on a package outside the repository.
\<close>

section \<open>The controller and the groups\<close>

text \<open>
  The groups follow the controller's configurations through queries. What they rely on is the
  predicate \<^const>\<open>cfg_ok\<close> on the sequence of configurations; a controller provides it
  when, in addition to being valid, each Join names the servers of a group by the group they
  belong to (\<open>grp\<close>) and no Leave removes the last group.
\<close>

definition names_own :: "(string \<Rightarrow> int) \<Rightarrow> Config \<Rightarrow> bool" where
  "names_own grp c \<longleftrightarrow> (\<forall>g servers. map_of (Groups c) g = Some servers \<longrightarrow> (\<forall>server\<in>set servers. grp server = g))"

definition keeps_groups :: "(string \<Rightarrow> int) \<Rightarrow> MemoryConfigStateMachine \<Rightarrow> CtrlArgs \<Rightarrow> bool" where
  "keeps_groups grp sm command \<longleftrightarrow>
     (ca_OP command = OP_JOIN \<longrightarrow> (\<forall>(g, servers)\<in>set (ca_Servers command). \<forall>server\<in>set servers. grp server = g)) \<and>
     (ca_OP command = OP_LEAVE \<longrightarrow> Groups (current sm) = [] \<or> \<not> fst ` set (Groups (current sm)) \<subseteq> set (ca_GIDs command))"

definition history_ok :: "(string \<Rightarrow> int) \<Rightarrow> MemoryConfigStateMachine \<Rightarrow> bool" where
  "history_ok grp sm \<longleftrightarrow> machine_ok sm \<and> hd (Configs sm) = DefaultConfig \<and> (\<forall>c\<in>set (Configs sm). names_own grp c) \<and>
     (\<forall>i. Suc i < length (Configs sm) \<longrightarrow> Groups (Configs sm ! i) \<noteq> [] \<longrightarrow> Groups (Configs sm ! Suc i) \<noteq> [])"

lemma history_ok_snoc:
  assumes "history_ok grp sm" "config_ok c" "Num c = int (length (Configs sm))" "names_own grp c"
    "Groups (current sm) \<noteq> [] \<Longrightarrow> Groups c \<noteq> []"
  shows "history_ok grp (sm\<lparr>Configs := Configs sm @ [c]\<rparr>)"
proof -
  have ne: "Configs sm \<noteq> []" and ok: "machine_ok sm" using assms(1) by (simp_all add: history_ok_def machine_ok_def)
  have "Groups ((Configs sm @ [c]) ! Suc i) \<noteq> []"
    if i: "i < length (Configs sm)" "Groups ((Configs sm @ [c]) ! i) \<noteq> []" for i
  proof (cases "Suc i < length (Configs sm)")
    case True
    then show ?thesis using assms(1) i by (simp add: history_ok_def nth_append)
  next
    case False
    with i(1) have "Suc i = length (Configs sm)" by simp
    then have "length (Configs sm) - 1 = i" by simp
    with i ne assms(5) \<open>Suc i = _\<close> show ?thesis by (simp add: nth_append last_conv_nth)
  qed
  with assms ne machine_ok_snoc [OF ok assms(2,3)] show ?thesis by (simp add: history_ok_def)
qed

lemma groups_kept:
  assumes "map_of (Groups c) = next_groups command l"
    and "ca_OP command = OP_LEAVE \<Longrightarrow> \<not> fst ` set (Groups l) \<subseteq> set (ca_GIDs command)" "Groups l \<noteq> []"
  shows "Groups c \<noteq> []"
proof -
  have "dom (map_of (Groups c)) \<noteq> {}"
    using assms(2,3) unfolding assms(1) next_groups_def
    by (cases "ca_OP command = OP_LEAVE") (auto simp: dom_map_of_conv_image_fst simp del: dom_eq_empty_conv)
  then show ?thesis by auto
qed

lemma names_kept:
  assumes "map_of (Groups c) = next_groups command l"
    and "names_own grp l"
    and "ca_OP command = OP_JOIN \<Longrightarrow> \<forall>(g, servers)\<in>set (ca_Servers command). \<forall>server\<in>set servers. grp server = g"
  shows "names_own grp c"
  using assms(2,3) unfolding names_own_def assms(1) next_groups_def
  by (auto simp: restrict_map_def map_add_Some_iff dest!: map_of_SomeD split: if_splits)

interpretation dep: total_log sc_apply_command "\<lambda>sc. history_ok grp (sc_stateMachine sc)"
  "\<lambda>sc command. sc_pre sc command \<and> keeps_groups grp (sc_stateMachine sc) command" history_step extends for grp
proof
  fix sc command
  assume i: "history_ok grp (sc_stateMachine sc)" and p: "sc_pre sc command \<and> keeps_groups grp (sc_stateMachine sc) command"
  let ?sm = "sc_stateMachine sc"
  from i have ok: "sc_ok sc" and own: "names_own grp (current ?sm)" by (simp_all add: history_ok_def machine_ok_def)
  from sc_apply_command_valid [OF ok] p obtain sc' r where s: "sc_apply_command sc command = Some (sc', r)"
    "history_step sc command sc' r" unfolding history_step_def by blast
  then have "config_step ?sm command (sc_stateMachine sc')" by (simp add: history_step_def)
  then have "history_ok grp (sc_stateMachine sc')"
    unfolding config_step_def
  proof (elim disjE exE conjE)
    fix c
    assume c: "sc_stateMachine sc' = ?sm\<lparr>Configs := Configs ?sm @ [c]\<rparr>" "config_ok c" "Num c = int (length (Configs ?sm))"
      and m: "map_of (Groups c) = next_groups command (current ?sm)"
    show ?thesis unfolding c(1)
      using names_kept [OF m own] groups_kept [OF m] p by (intro history_ok_snoc i c(2,3)) (auto simp: keeps_groups_def)
  qed (simp add: i)
  with s show "\<exists>sc' r. sc_apply_command sc command = Some (sc', r) \<and> history_ok grp (sc_stateMachine sc') \<and>
    history_step sc command sc' r" by blast
qed (rule ctl.leads_refl, rule ctl.leads_step)

text \<open>The sequence as a function of the number, continued by the last configuration.\<close>

definition numbered :: "Config list \<Rightarrow> int \<Rightarrow> Config" where
  "numbered cs n = (if 0 \<le> n \<and> n < int (length cs) then cs ! nat n else (last cs)\<lparr>Num := n\<rparr>)"

lemma numbered_ok:
  assumes "history_ok grp sm"
  shows "cfg_ok (numbered (Configs sm)) grp"
proof -
  let ?cs = "Configs sm"
  have ne: "?cs \<noteq> []" and cok: "\<And>c. c \<in> set ?cs \<Longrightarrow> config_ok c" and d: "hd ?cs = DefaultConfig"
    and num: "\<And>i. i < length ?cs \<Longrightarrow> Num (?cs ! i) = int i" and own: "\<And>c. c \<in> set ?cs \<Longrightarrow> names_own grp c"
    and grow: "\<And>i. Suc i < length ?cs \<Longrightarrow> Groups (?cs ! i) \<noteq> [] \<Longrightarrow> Groups (?cs ! Suc i) \<noteq> []"
    using assms by (auto simp: history_ok_def machine_ok_def list_all_iff)
  have mem: "\<exists>c\<in>set ?cs. Shards (numbered ?cs n) = Shards c \<and> Groups (numbered ?cs n) = Groups c" for n
    using ne nth_mem [of "nat n" ?cs] last_in_set [of ?cs] by (cases "0 \<le> n \<and> n < int (length ?cs)") (force simp: numbered_def)+
  have kept: "Groups (numbered ?cs (n + 1)) \<noteq> []" if "0 \<le> n" "Groups (numbered ?cs n) \<noteq> []" for n
  proof (cases "n + 1 < int (length ?cs)")
    case True
    with that grow [of "nat n"] show ?thesis by (simp add: numbered_def nat_add_distrib)
  next
    case False
    then have "n \<noteq> int (length ?cs) - 1 \<Longrightarrow> n \<ge> int (length ?cs)" using that by simp
    with False that ne show ?thesis
      by (cases "n = int (length ?cs) - 1") (auto simp: numbered_def last_conv_nth nat_diff_distrib')
  qed
  have owned: "owner (numbered ?cs n) i \<noteq> 0 \<longleftrightarrow> Groups (numbered ?cs n) \<noteq> []" if "i \<in> shard_ids" for n i
  proof -
    from mem obtain c where c: "c \<in> set ?cs" "Shards (numbered ?cs n) = Shards c" "Groups (numbered ?cs n) = Groups c" by blast
    have "nat i < NShards" using that by (auto simp: shard_ids_def)
    with cok [OF c(1)] have "Shards c ! nat i \<in> set (Shards c)" by (simp add: config_ok_def)
    with cok [OF c(1)] c(2,3) \<open>nat i < NShards\<close> show ?thesis
      by (auto simp: owner_def config_ok_def simp del: nth_mem split: if_splits)
  qed
  show ?thesis unfolding cfg_ok_def
  proof (intro conjI allI impI ballI)
    show "numbered ?cs 0 = DefaultConfig" using ne d by (simp add: numbered_def hd_conv_nth)
    show "Num (numbered ?cs n) = n" for n using num [of "nat n"] by (auto simp: numbered_def nat_less_iff)
    show "length (Shards (numbered ?cs n)) = NShards" for n using mem [of n] cok by (auto simp: config_ok_def)
    show "owner (numbered ?cs (n + 1)) i \<noteq> 0" if "0 \<le> n" "i \<in> shard_ids" "owner (numbered ?cs n) i \<noteq> 0" for n i
      using that owned kept by blast
    show "grp server = g" if "map_of (Groups (numbered ?cs n)) g = Some servers" "server \<in> set servers" for n g servers server
      using mem [of n] own that by (auto simp: names_own_def)
  qed
qed

text \<open>
  C14: The controller meets the groups' assumption. A controller started empty, whose log holds
  valid commands that name the servers of a group by their group and never remove the last
  group, applies the log to its end, and there is one sequence of configurations, as the
  shard groups require it, of which every query in the log is answered with the member that
  has the answer's number.
\<close>

theorem controller_meets_groups:
  assumes "sc_stateMachine sc = NewMemoryConfigStateMachine"
    and "log_meets (\<lambda>sc command. sc_pre sc command \<and> keeps_groups grp (sc_stateMachine sc) command) sc_apply_command sc ops"
  shows "\<exists>sc' rs cfg. run_log sc_apply_command sc ops = Some (sc', rs) \<and> cfg_ok cfg grp \<and>
    (\<forall>n. 0 \<le> n \<and> n < int (length (Configs (sc_stateMachine sc'))) \<longrightarrow> cfg n = Configs (sc_stateMachine sc') ! nat n) \<and>
    (\<forall>i<length ops. ca_OP (ops ! i) = OP_QUERY \<longrightarrow> cr_Config (rs ! i) = cfg (Num (cr_Config (rs ! i))))"
proof -
  have "history_ok grp (sc_stateMachine sc)"
    unfolding assms(1) by (simp add: history_ok_def machine_ok_def NewMemoryConfigStateMachine_def config_ok_def
        DefaultConfig_def names_own_def)
  from dep.run_log_ends [OF this assms(2)] obtain sc' rs where r: "run_log sc_apply_command sc ops = Some (sc', rs)"
    "history_ok grp (sc_stateMachine sc')"
    "\<And>i. i < length ops \<Longrightarrow> \<exists>s s'. history_step s (ops ! i) s' (rs ! i) \<and> extends s' sc'" by blast
  let ?cs = "Configs (sc_stateMachine sc')"
  have "c = numbered ?cs (Num c)" if "c \<in> set ?cs" for c
    using that r(2) by (auto simp: in_set_conv_nth history_ok_def machine_ok_def numbered_def)
  moreover have "cr_Config (rs ! i) \<in> set ?cs" if "i < length ops" "ca_OP (ops ! i) = OP_QUERY" for i
    using r(3) [OF that(1)] that(2) by (auto simp: history_step_def extends_def)
  ultimately show ?thesis using r(1) numbered_ok [OF r(2)]
    by (intro exI [of _ sc'] exI [of _ rs] exI [of _ "numbered ?cs"]) (auto simp: numbered_def)
qed

definition demo_query_cmd :: CtrlArgs where
  "demo_query_cmd = no_args\<lparr>ca_Num := 1, ca_OP := OP_QUERY, ca_ClientId := 6\<rparr>"

definition demo_home :: "string \<Rightarrow> int" where
  "demo_home server = (case find (\<lambda>(g, servers). server \<in> set servers) demo_groups of None \<Rightarrow> 0 | Some (g, _) \<Rightarrow> g)"

lemma demo_log_serves:
  "sc_stateMachine demo_sc = NewMemoryConfigStateMachine"
  "log_meets (\<lambda>sc command. sc_pre sc command \<and> keeps_groups demo_home (sc_stateMachine sc) command) sc_apply_command demo_sc
     [demo_join_cmd, demo_query_cmd]"
  by code_simp+

theorem controller_meets_groups_witness:
  "\<exists>sc' rs cfg. run_log sc_apply_command demo_sc [demo_join_cmd, demo_query_cmd] = Some (sc', rs) \<and>
     cfg_ok cfg demo_home \<and> cr_Config (rs ! 1) = cfg (Num (cr_Config (rs ! 1)))"
proof -
  from controller_meets_groups [OF demo_log_serves] obtain sc' rs cfg where
    r: "run_log sc_apply_command demo_sc [demo_join_cmd, demo_query_cmd] = Some (sc', rs)" "cfg_ok cfg demo_home"
      "\<And>i. i < 2 \<Longrightarrow> ca_OP ([demo_join_cmd, demo_query_cmd] ! i) = OP_QUERY \<Longrightarrow>
         cr_Config (rs ! i) = cfg (Num (cr_Config (rs ! i)))" by fastforce
  from r(3) [of 1] r(1,2) show ?thesis by (auto simp: demo_query_cmd_def no_args_def)
qed

lemma numbered_numbers:
  assumes "cs \<noteq> []" "\<forall>i<length cs. Num (cs ! i) = int i" "\<forall>c\<in>set cs. length (Shards c) = NShards"
  shows "\<forall>n. Num (numbered cs n) = n \<and> length (Shards (numbered cs n)) = NShards"
  using assms nth_mem [of "nat _" cs] by (auto simp: numbered_def nat_less_iff)

text \<open>One group joins, leaves, and another one joins.\<close>

definition emptying_log :: "CtrlArgs list" where
  "emptying_log =
     [no_args\<lparr>ca_Servers := [(1, [''a''])], ca_OP := OP_JOIN, ca_ClientId := 5, ca_CommandId := 0\<rparr>,
      no_args\<lparr>ca_GIDs := [1], ca_OP := OP_LEAVE, ca_ClientId := 5, ca_CommandId := 1\<rparr>,
      no_args\<lparr>ca_Servers := [(2, [''b''])], ca_OP := OP_JOIN, ca_ClientId := 5, ca_CommandId := 2\<rparr>]"

definition emptying_configs :: "Config list" where
  "emptying_configs =
     [DefaultConfig, \<lparr>Num = 1, Shards = replicate NShards 1, Groups = [(1, [''a''])]\<rparr>,
      \<lparr>Num = 2, Shards = replicate NShards 0, Groups = []\<rparr>, \<lparr>Num = 3, Shards = replicate NShards 2, Groups = [(2, [''b''])]\<rparr>]"

lemma emptying_run:
  "\<exists>sc' rs. run_log sc_apply_command demo_sc emptying_log = Some (sc', rs) \<and> Configs (sc_stateMachine sc') = emptying_configs"
proof -
  have "(case run_log sc_apply_command demo_sc emptying_log of None \<Rightarrow> False
     | Some (sc', rs) \<Rightarrow> Configs (sc_stateMachine sc') = emptying_configs)"
    by code_simp
  then show ?thesis by (auto split: option.splits)
qed

theorem leave_all_loses_writes_witness:
  "\<exists>sc' rs H kv. run_log sc_apply_command demo_sc emptying_log = Some (sc', rs) \<and>
     sharded (numbered (Configs (sc_stateMachine sc'))) demo_grp H [''x'' \<mapsto> ''v''] {(4, 0, key2shard ''x'')} \<and>
     applyOperation (hd (H 2)) (get_op ''x'' 4 1) = Some (kv, \<lparr>sk_Err = ErrNoKey, sk_ReplyValue = ''''\<rparr>)"
proof -
  from emptying_run obtain sc' rs where r: "run_log sc_apply_command demo_sc emptying_log = Some (sc', rs)"
    "Configs (sc_stateMachine sc') = emptying_configs" by blast
  let ?cfg = "numbered emptying_configs"
  have n: "\<forall>n. Num (?cfg n) = n \<and> length (Shards (?cfg n)) = NShards"
    by (rule numbered_numbers) (auto simp: emptying_configs_def DefaultConfig_def less_Suc_eq nth_Cons')
  have "?cfg 0 = DefaultConfig" "Shards (?cfg 1) = replicate NShards 1" "Shards (?cfg 2) = replicate NShards 0" "Shards (?cfg 3) = replicate NShards 2"
    by (simp_all add: numbered_def emptying_configs_def)
  from leave_all_loses_writes [where grp = demo_grp and k = "''x''" and v = "''v''" and c = 4 and m = 0, OF this(1) n _ _ _ this(2-4)] r
  show ?thesis by auto
qed

end
